(* ===== verification/Prelude.thy ===== *)
theory Prelude
  imports Main "HOL-Library.Word" "HOL-Library.Monad_Syntax"
begin

unbundle bit_operations_syntax

text \<open>
  Shared vocabulary of the development: the machine integer types of the C++ code, checked
  array access, the assertion step of the option monad, and the generic facts on words, lists
  and options that the component theories use.

  A function of the code that can fail (an \<open>assert\<close>, a \<open>panic\<close>, an array access that is out of
  range and so undefined in C++) returns an option: \<open>None\<close> is a run that does not get past the
  failing statement.  Code without such a statement is a plain function.
\<close>

section \<open>Machine integers\<close>

type_synonym u8 = "8 word"
type_synonym u32 = "32 word"
type_synonym u64 = "64 word"

named_theorems model_defs "definitions unfolded together when an operation is executed symbolically"
named_theorems inv_intros "introduction rules of the component invariants"

lemma unat_u32_lt [simp]: "unat (x :: u32) < 4294967296"
  using unsigned_less [of x, where 'a = nat] by simp

lemma unat_u64_lt [simp]: "unat (x :: u64) < 18446744073709551616"
  using unsigned_less [of x, where 'a = nat] by simp

lemma unat_u8_lt [simp]: "unat (x :: u8) < 256"
  using unsigned_less [of x, where 'a = nat] by simp

lemma unat_ucast_up [simp]: "unat (ucast (h :: u32) :: u64) = unat h"
  by (simp add: unsigned_ucast_eq take_bit_nat_eq_self_iff less_trans [OF unat_u32_lt])

lemma unat_ucast_down: "unat (x :: u64) < 2 ^ 32 \<Longrightarrow> unat (ucast x :: u32) = unat x"
  by (simp add: unsigned_ucast_eq take_bit_nat_eq_self_iff)

lemma unat_add_no_wrap:
  fixes a b :: "'a::len word"
  shows "unat a + unat b < 2 ^ LENGTH('a) \<Longrightarrow> unat (a + b) = unat a + unat b"
  by (simp add: unat_word_ariths)

lemma unat_add_u64: "unat (a :: u64) + unat b < 2 ^ 64 \<Longrightarrow> unat (a + b) = unat a + unat b"
  by (rule unat_add_no_wrap) simp

lemma unat_max: "unat (max a b) = max (unat a) (unat b)"
  by (simp add: max_def word_le_nat_alt)

lemma unat_sub_no_wrap:
  fixes a b :: "'a::len word"
  shows "b \<le> a \<Longrightarrow> unat (a - b) = unat a - unat b"
  by (rule unat_sub)

lemma unat_two_power:
  assumes "k < LENGTH('a)"
  shows "unat ((2 :: 'a::len word) ^ k) = 2 ^ k"
proof -
  have "(2 :: 'a word) ^ k = of_nat (2 ^ k)" by simp
  then show ?thesis using assms by (simp add: unat_of_nat del: of_nat_power)
qed

section \<open>Assertions and checked array access\<close>

definition require :: "bool \<Rightarrow> unit option" where
  "require b = (if b then Some () else None)"

definition aget :: "'a list \<Rightarrow> nat \<Rightarrow> 'a option" where
  "aget xs i = (if i < length xs then Some (xs ! i) else None)"

definition aset :: "'a list \<Rightarrow> nat \<Rightarrow> 'a \<Rightarrow> 'a list option" where
  "aset xs i v = (if i < length xs then Some (xs[i := v]) else None)"

lemma require_Some [simp]: "require b = Some u \<longleftrightarrow> b"
  by (simp add: require_def)

lemma require_None [simp]: "require b = None \<longleftrightarrow> \<not> b"
  by (simp add: require_def)

lemma require_simps [simp]: "require True = Some ()" "require False = None"
  by (simp_all add: require_def)

lemma bind_require [simp]: "(require b \<bind> f) = (if b then f () else None)"
  by (simp add: require_def)

lemma aget_Some [simp]: "aget xs i = Some x \<longleftrightarrow> i < length xs \<and> x = xs ! i"
  by (auto simp: aget_def)

lemma aget_in [simp]: "i < length xs \<Longrightarrow> aget xs i = Some (xs ! i)"
  by (simp add: aget_def)

lemma aset_Some [simp]: "aset xs i v = Some ys \<longleftrightarrow> i < length xs \<and> ys = xs[i := v]"
  by (auto simp: aset_def)

lemma aset_in [simp]: "i < length xs \<Longrightarrow> aset xs i v = Some (xs[i := v])"
  by (simp add: aset_def)

lemma bind_Some_elim:
  assumes "(m \<bind> f) = Some y"
  obtains x where "m = Some x" and "f x = Some y"
  using assms by (cases m) auto

section \<open>Lists\<close>

lemma list_all_update: "list_all P xs \<Longrightarrow> P v \<Longrightarrow> list_all P (xs[i := v])"
  by (auto simp: list_all_iff dest: set_update_subset_insert [THEN subsetD])

lemma list_all_nth: "list_all P xs \<Longrightarrow> i < length xs \<Longrightarrow> P (xs ! i)"
  by (simp add: list_all_length)

lemma sum_list_update_nat:
  fixes xs :: "nat list"
  assumes "i < length xs"
  shows "sum_list (xs[i := v]) + xs ! i = sum_list xs + v"
  using assms
proof (induction xs arbitrary: i)
  case Nil
  then show ?case by simp
next
  case (Cons x xs)
  then show ?case by (cases i) (auto simp: algebra_simps)
qed

section \<open>Runs of a partial operation\<close>

text \<open>\<open>run_all f s xs\<close> applies \<open>f\<close> to the arguments \<open>xs\<close> in turn, from state \<open>s\<close>.\<close>

fun run_all :: "('s \<Rightarrow> 'a \<Rightarrow> 's option) \<Rightarrow> 's \<Rightarrow> 'a list \<Rightarrow> 's option" where
  "run_all f s [] = Some s"
| "run_all f s (x # xs) = Option.bind (f s x) (\<lambda>s'. run_all f s' xs)"

lemma run_all_inv:
  assumes "\<And>s x s'. I s \<Longrightarrow> f s x = Some s' \<Longrightarrow> I s'" and "I s" and "run_all f s xs = Some s'"
  shows "I s'"
  using assms(2,3)
proof (induction xs arbitrary: s)
  case Nil
  then show ?case by simp
next
  case (Cons x xs)
  then show ?case by (auto elim!: bind_Some_elim dest: assms(1))
qed

lemma run_all_total:
  assumes "\<And>s x. I s \<Longrightarrow> \<exists>s'. f s x = Some s' \<and> I s'" and "I s"
  shows "\<exists>s'. run_all f s xs = Some s' \<and> I s'"
  using assms(2)
proof (induction xs arbitrary: s)
  case Nil
  then show ?case by simp
next
  case (Cons x xs)
  from assms(1) [OF Cons.prems] obtain s1 where "f s x = Some s1" "I s1" by blast
  with Cons.IH [OF \<open>I s1\<close>] show ?case by auto
qed

lemma run_all_append: "run_all f s (xs @ ys) = Option.bind (run_all f s xs) (\<lambda>s'. run_all f s' ys)"
  by (induction xs arbitrary: s) (auto split: Option.bind_splits)

lemma run_all_snoc: "run_all f s (xs @ [x]) = Option.bind (run_all f s xs) (\<lambda>s'. f s' x)"
  by (simp add: run_all_append)

lemma run_all_nth:
  assumes "\<And>j s. j < length xs \<Longrightarrow> I j s \<Longrightarrow> \<exists>s'. f s (xs ! j) = Some s' \<and> I (Suc j) s'" and "I 0 s"
  shows "\<exists>s'. run_all f s xs = Some s' \<and> I (length xs) s'"
  using assms
proof (induction xs arbitrary: s I)
  case Nil
  then show ?case by simp
next
  case (Cons x xs)
  from Cons.prems(1) [of 0 s] Cons.prems(2) obtain s1 where s1: "f s x = Some s1" "I (Suc 0) s1" by auto
  have "\<exists>s'. run_all f s1 xs = Some s' \<and> I (Suc (length xs)) s'"
  proof (rule Cons.IH [where I = "\<lambda>j. I (Suc j)"])
    show "I (Suc 0) s1" by (rule s1(2))
    fix j t
    assume "j < length xs" "I (Suc j) t"
    then show "\<exists>s'. f t (xs ! j) = Some s' \<and> I (Suc (Suc j)) s'" using Cons.prems(1) [of "Suc j" t] by simp
  qed
  then show ?case using s1(1) by simp
qed

text \<open>A loop over the indices below \<open>n\<close>.\<close>

lemma run_all_upto:
  assumes "\<And>j s. j < n \<Longrightarrow> I j s \<Longrightarrow> \<exists>s'. f s j = Some s' \<and> I (Suc j) s'" and "I 0 s"
  shows "\<exists>s'. run_all f s [0..<n] = Some s' \<and> I n s'"
  using run_all_nth [of "[0..<n]" I f s] assms by simp

end
