(* ===== verification/Bits.thy ===== *)
theory Bits
  imports Prelude
begin

text \<open>
  The bit-level helpers: \<open>src/src/bithacks.h\<close> (integer logarithm, power-of-two test, the
  variadic minimum and maximum) and \<open>src/src/mybitset.h\<close> (the run-time sized bit set the branch
  predictor folds its history into).
\<close>

section \<open>bithacks.h\<close>

text \<open>\<open>MAX(x, y)\<close> and \<open>MIN(x, y)\<close>: the macros compare with a strict order and return the second
  operand on a tie.\<close>

definition c_MAX :: "'a::linorder \<Rightarrow> 'a \<Rightarrow> 'a" where
  "c_MAX x y = (if x > y then x else y)"

definition c_MIN :: "'a::linorder \<Rightarrow> 'a \<Rightarrow> 'a" where
  "c_MIN x y = (if x < y then x else y)"

text \<open>\<open>clz_below n v\<close> counts the leading zeros of the low \<open>n\<close> bits, so
  \<open>__builtin_clz\<close> of a 32-bit value is \<open>clz_below 32\<close>, and \<open>__builtin_clzl\<close> is \<open>clz_below 64\<close>.\<close>

fun clz_below :: "nat \<Rightarrow> 'a::len word \<Rightarrow> nat" where
  "clz_below 0 v = 0"
| "clz_below (Suc n) v = (if bit v n then 0 else Suc (clz_below n v))"

definition ilog2_32 :: "u32 \<Rightarrow> u32" where
  "ilog2_32 val = (if val \<noteq> 0 then 31 - of_nat (clz_below 32 val) else 0)"

definition ilog2_64 :: "u64 \<Rightarrow> u32" where
  "ilog2_64 val = (if val \<noteq> 0 then 63 - of_nat (clz_below 64 val) else 0)"

definition isPow2 :: "'a::len word \<Rightarrow> bool" where
  "isPow2 val = (val \<noteq> 0 \<and> (val AND (val - 1)) = 0)"

fun maxN :: "'a::linorder \<Rightarrow> 'a list \<Rightarrow> 'a" where
  "maxN a [] = a"
| "maxN a (b # c) = maxN (if a > b then a else b) c"

fun minN :: "'a::linorder \<Rightarrow> 'a list \<Rightarrow> 'a" where
  "minN a [] = a"
| "minN a (b # c) = minN (if a < b then a else b) c"

lemma c_MAX_eq [simp]: "c_MAX x y = max x y"
  by (auto simp: c_MAX_def max_def)

lemma c_MIN_eq [simp]: "c_MIN x y = min x y"
  by (auto simp: c_MIN_def min_def)

lemma maxN_Max: "maxN a xs = Max (set (a # xs))"
proof (induction a xs rule: maxN.induct)
  case (1 a)
  then show ?case by simp
next
  case (2 a b c)
  have "Max (set ((if a > b then a else b) # c)) = Max (set (a # b # c))"
    by (cases "c = []") (auto simp: max_def)
  with 2 show ?case by simp
qed

lemma minN_Min: "minN a xs = Min (set (a # xs))"
proof (induction a xs rule: minN.induct)
  case (1 a)
  then show ?case by simp
next
  case (2 a b c)
  have "Min (set ((if a < b then a else b) # c)) = Min (set (a # b # c))"
    by (cases "c = []") (auto simp: min_def)
  with 2 show ?case by simp
qed

text \<open>The highest set bit is where \<open>clz_below\<close> stops.\<close>

lemma clz_below_le: "clz_below n v \<le> n"
  by (induction n) auto

lemma clz_below_spec:
  fixes v :: "'a::len word"
  assumes "unat v < 2 ^ n" and "v \<noteq> 0"
  shows "clz_below n v < n \<and> 2 ^ (n - 1 - clz_below n v) \<le> unat v
           \<and> unat v < 2 ^ (n - clz_below n v)"
  using assms
proof (induction n)
  case 0
  then show ?case by (simp add: unat_eq_zero)
next
  case (Suc n)
  have bit_iff: "bit v n \<longleftrightarrow> odd (unat v div 2 ^ n)"
    by (simp add: bit_unsigned_iff flip: bit_iff_odd)
  show ?case
  proof (cases "bit v n")
    case True
    then have "unat v div 2 ^ n \<noteq> 0" using bit_iff by (metis even_zero)
    then have "2 ^ n \<le> unat v" by (meson div_less not_le)
    with True Suc.prems show ?thesis by simp
  next
    case False
    have "unat v div 2 ^ n < 2"
      using Suc.prems(1) by (simp add: less_mult_imp_div_less)
    moreover have "even (unat v div 2 ^ n)" using False bit_iff by simp
    ultimately have "unat v div 2 ^ n = 0" by (auto dest: less_2_cases)
    then have "unat v < 2 ^ n" by (simp add: div_eq_0_iff)
    from Suc.IH [OF this Suc.prems(2)] False show ?thesis by (simp add: Suc_diff_Suc)
  qed
qed

lemma nat_and_pred_zero:
  fixes n :: nat
  assumes "n AND (n - 1) = 0" and "n > 0"
  shows "\<exists>k. n = 2 ^ k"
  using assms
proof (induction n rule: less_induct)
  case (less n)
  show ?case
  proof (cases "even n")
    case True
    then obtain m where m: "n = 2 * m" by (elim evenE)
    with less.prems have pos: "0 < m" by simp
    have "n - 1 = 2 * (m - 1) + 1" using m pos by simp
    moreover have "(2 * m) AND (2 * (m - 1) + 1) = 2 * (m AND (m - 1))"
      by (subst and_rec) simp
    ultimately have "m AND (m - 1) = 0" using less.prems(1) m by simp
    with less.IH [of m] m pos obtain k where "m = 2 ^ k" by auto
    with m have "n = 2 ^ Suc k" by simp
    then show ?thesis by blast
  next
    case False
    then obtain m where m: "n = 2 * m + 1" by (elim oddE)
    have "(2 * m + 1) AND (2 * m) = 2 * m"
      by (subst and_rec) simp
    with less.prems(1) m have "m = 0" by simp
    with m have "n = 2 ^ 0" by simp
    then show ?thesis by blast
  qed
qed

lemma pow2_and_pred: "(2 ^ k AND (2 ^ k - 1)) = (0::nat)"
proof -
  have "(2 ^ k :: nat) - 1 = mask k" by (simp add: mask_eq_exp_minus_1)
  then show ?thesis by (auto intro!: bit_eqI simp: bit_and_iff bit_mask_iff bit_exp_iff)
qed

lemma isPow2_iff:
  fixes v :: "'a::len word"
  shows "isPow2 v \<longleftrightarrow> (\<exists>k. unat v = 2 ^ k)"
proof (cases "v = 0")
  case True
  then show ?thesis by (simp add: isPow2_def)
next
  case False
  have "unat (v AND (v - 1)) = unat v AND (unat v - 1)"
    using False by (simp add: unsigned_and_eq unat_minus_one)
  then have "isPow2 v \<longleftrightarrow> unat v AND (unat v - 1) = 0"
    using False by (simp add: isPow2_def flip: unat_eq_zero)
  also have "\<dots> \<longleftrightarrow> (\<exists>k. unat v = 2 ^ k)"
    using False nat_and_pred_zero [of "unat v"] pow2_and_pred
    by (metis neq0_conv unat_eq_zero)
  finally show ?thesis .
qed

lemma ilog2_32_bounds:
  assumes "val \<noteq> 0"
  shows "2 ^ unat (ilog2_32 val) \<le> unat val \<and> unat val < 2 ^ (unat (ilog2_32 val) + 1)"
proof -
  let ?c = "clz_below 32 val"
  have *: "?c < 32" "2 ^ (31 - ?c) \<le> unat val" "unat val < 2 ^ (32 - ?c)"
    using clz_below_spec [of val 32] assms by auto
  have "unat (31 - of_nat ?c :: u32) = 31 - ?c"
    using *(1) by (subst unat_sub) (simp_all add: word_le_nat_alt unat_of_nat)
  moreover have "32 - ?c = (31 - ?c) + 1" using *(1) by simp
  ultimately show ?thesis using * assms by (simp add: ilog2_32_def)
qed

lemma ilog2_64_bounds:
  assumes "val \<noteq> 0"
  shows "2 ^ unat (ilog2_64 val) \<le> unat val \<and> unat val < 2 ^ (unat (ilog2_64 val) + 1)"
proof -
  let ?c = "clz_below 64 val"
  have *: "?c < 64" "2 ^ (63 - ?c) \<le> unat val" "unat val < 2 ^ (64 - ?c)"
    using clz_below_spec [of val 64] assms by auto
  have "unat (63 - of_nat ?c :: u32) = 63 - ?c"
    using *(1) by (subst unat_sub) (simp_all add: word_le_nat_alt unat_of_nat)
  moreover have "64 - ?c = (63 - ?c) + 1" using *(1) by simp
  ultimately show ?thesis using * assms by (simp add: ilog2_64_def)
qed

text \<open>
  \<open>__builtin_ctzl\<close>: the position of the lowest set bit (undefined on 0, where the model gives the
  width); \<open>__builtin_ffs\<close> is one more, and 0 on 0.
\<close>

definition ctz :: "'a::len word \<Rightarrow> nat" where
  "ctz v = length (takeWhile (\<lambda>i. \<not> bit v i) [0..<LENGTH('a)])"

definition ffs :: "'a::len word \<Rightarrow> nat" where
  "ffs v = (if v = 0 then 0 else Suc (ctz v))"

lemma ctz_le: "ctz (v :: 'a::len word) \<le> LENGTH('a)"
  using length_takeWhile_le [of "\<lambda>i. \<not> bit v i" "[0..<LENGTH('a)]"] by (simp add: ctz_def)

lemma ctz_lower:
  fixes v :: "'a::len word"
  assumes "i < ctz v"
  shows "\<not> bit v i"
proof -
  let ?P = "\<lambda>i. \<not> bit v i" and ?xs = "[0..<LENGTH('a)]"
  have "takeWhile ?P ?xs ! i = ?xs ! i" using assms by (simp add: ctz_def takeWhile_nth)
  moreover have "takeWhile ?P ?xs ! i \<in> set (takeWhile ?P ?xs)"
    using assms by (intro nth_mem) (simp add: ctz_def)
  moreover have "?xs ! i = i" using assms ctz_le [of v] by simp
  ultimately show ?thesis by (auto dest: set_takeWhileD)
qed

lemma ctz_bit:
  fixes v :: "'a::len word"
  assumes "v \<noteq> 0"
  shows "ctz v < LENGTH('a)" and "bit v (ctz v)"
proof -
  from assms obtain n where n: "bit v n" by (auto simp: bit_eq_iff)
  then have "n < LENGTH('a)" by (rule bit_imp_le_length)
  have "\<not> LENGTH('a) \<le> ctz v"
    using ctz_lower [of n v] n \<open>n < LENGTH('a)\<close> by auto
  then show *: "ctz v < LENGTH('a)" by simp
  show "bit v (ctz v)"
    using nth_length_takeWhile [of "\<lambda>i. \<not> bit v i" "[0..<LENGTH('a)]"] *
    by (simp add: ctz_def)
qed

section \<open>mybitset.h\<close>

text \<open>
  A shift by 64 or more is undefined, so the masks are partial; \<open>set\<close> is written as the code has
  it, where the new value \<open>val\<close> does not occur on the right-hand side.
\<close>

record mybitset =
  len :: u8
  data :: u64

definition mybitset_new :: "u8 \<Rightarrow> mybitset option" where
  "mybitset_new l = do {
     _ \<leftarrow> require (l \<le> 64);
     Some \<lparr>len = l, data = 0\<rparr>
   }"

definition bit_mask :: "nat \<Rightarrow> u64 option" where
  "bit_mask pos = (if pos < 64 then Some (push_bit pos 1) else None)"

definition max_mask :: "nat \<Rightarrow> u64 option" where
  "max_mask l = (if l < 64 then Some (push_bit l 1 - 1) else None)"

definition mybitset_get :: "mybitset \<Rightarrow> nat \<Rightarrow> bool option" where
  "mybitset_get b pos = do {
     m \<leftarrow> bit_mask pos;
     Some (data b AND m \<noteq> 0)
   }"

definition mybitset_set :: "mybitset \<Rightarrow> nat \<Rightarrow> bool \<Rightarrow> mybitset option" where
  "mybitset_set b pos val = do {
     m \<leftarrow> bit_mask pos;
     Some (b\<lparr>data := (data b AND NOT m) OR m\<rparr>)
   }"

definition mybitset_shl :: "mybitset \<Rightarrow> nat \<Rightarrow> mybitset option" where
  "mybitset_shl b shift = (if shift < 64 then Some (b\<lparr>data := push_bit shift (data b)\<rparr>) else None)"

definition mybitset_to_ulong :: "mybitset \<Rightarrow> u64 option" where
  "mybitset_to_ulong b = do {
     m \<leftarrow> max_mask (unat (len b));
     Some (data b AND m)
   }"

lemma bit_mask_in [simp]: "pos < 64 \<Longrightarrow> bit_mask pos = Some (push_bit pos 1)"
  by (simp add: bit_mask_def)

lemma mybitset_set_ignores_val: "mybitset_set b pos v = mybitset_set b pos w"
  by (simp add: mybitset_set_def)

lemma mybitset_get_set_same:
  "pos < 64 \<Longrightarrow> mybitset_set b pos v = Some b' \<Longrightarrow> mybitset_get b' pos = Some True"
  by (auto simp: mybitset_set_def mybitset_get_def and_exp_eq_0_iff_not_bit bit_simps)

lemma mybitset_get_set_other:
  "pos < 64 \<Longrightarrow> q < 64 \<Longrightarrow> q \<noteq> pos \<Longrightarrow> mybitset_set b pos v = Some b' \<Longrightarrow>
   mybitset_get b' q = mybitset_get b q"
  by (auto simp: mybitset_set_def mybitset_get_def and_exp_eq_0_iff_not_bit bit_simps)

lemma mybitset_to_ulong_lt:
  assumes "mybitset_to_ulong b = Some r"
  shows "unat r < 2 ^ unat (len b)"
proof -
  have l: "unat (len b) < 64" and r: "r = data b AND mask (unat (len b))"
    using assms by (auto simp: mybitset_to_ulong_def max_mask_def mask_eq_exp_minus_1
        split: if_splits)
  have "r < 2 ^ unat (len b)" using l unfolding r by (intro and_mask_less_size) (simp add: word_size)
  then show ?thesis using l by (simp add: word_less_nat_alt unat_two_power)
qed

text \<open>An unsigned word below the sign bit read as signed.\<close>

lemma sint_small: "unat (i :: u32) < 2 ^ 31 \<Longrightarrow> sint i = int (unat i)"
proof -
  assume "unat i < 2 ^ 31"
  then have "int (unat i) < int (2 ^ 31)" by (simp only: of_nat_less_iff)
  then have "uint i < 2 ^ 31" by simp
  moreover have "- 2147483648 \<le> uint i" by (rule order_trans [OF _ unsigned_greater_eq]) simp
  ultimately show ?thesis by (simp add: sint_uint signed_take_bit_int_eq_self_iff)
qed

end
