(* ===== verification/Tage.thy ===== *)
theory Tage
  imports Bits
begin

text \<open>
  The TAGE branch predictor of the fetch model, \<open>src/src/tage.h\<close> and \<open>src/src/tage.cpp\<close>.

  Table 0 is the base predictor; the tagged tables are numbered from 1 to \<open>table_num\<close>, and slot 0
  of \<open>tage\<close> is the empty vector the constructor leaves there.  An out-of-range vector access is
  \<open>None\<close>.
\<close>

section \<open>State\<close>

definition T0_COUNTER_MAX :: u32 where "T0_COUNTER_MAX = 7"
definition TI_COUNTER_MAX :: u32 where "TI_COUNTER_MAX = 7"
definition USE_ALT_COUNTER_MAX :: u32 where "USE_ALT_COUNTER_MAX = 7"
definition BASE_PREDICTOR_SIZE :: u64 where "BASE_PREDICTOR_SIZE = 128"
definition TAGE_TAG_SIZE :: nat where "TAGE_TAG_SIZE = 14"
definition MAX_ALLOCATIONS :: u32 where "MAX_ALLOCATIONS = 1"

definition hist_lengths :: "nat list" where
  "hist_lengths = [0, 8, 16, 24, 32, 40, 48, 56, 64]"

record TageEntry =
  counter :: u32
  tag :: u32
  useful :: bool

record BranchPredictorTage =
  historyBuffer :: u64
  providerIndex :: int
  altProviderIndex :: int
  useAltOnNa :: u32
  providerPredIndex :: u32
  providerPred :: bool
  altProviderPred :: bool
  table_num :: nat
  index_size :: nat
  tag_mask :: u64
  idx_mask :: u64
  basePredictor :: "u32 list"
  tage :: "TageEntry list list"

definition emptyEntry :: TageEntry where
  "emptyEntry = \<lparr>counter = 0, tag = 0, useful = False\<rparr>"

text \<open>
  \<open>1ULL << _index_size\<close> is undefined from 64 on, and \<open>int tage_entry_count = 1 << _index_size\<close> from
  31 on.
\<close>

definition BranchPredictorTage_new :: "u8 \<Rightarrow> u8 \<Rightarrow> BranchPredictorTage option" where
  "BranchPredictorTage_new tnum isize = do {
     _ \<leftarrow> require (unat isize < 31);
     _ \<leftarrow> require (tnum \<le> 8);
     Some \<lparr>historyBuffer = 0, providerIndex = - 1, altProviderIndex = - 1, useAltOnNa = 0,
       providerPredIndex = 99999, providerPred = False, altProviderPred = False,
       table_num = unat tnum, index_size = unat isize,
       tag_mask = push_bit TAGE_TAG_SIZE 1 - 1, idx_mask = push_bit (unat isize) 1 - 1,
       basePredictor = replicate 128 (T0_COUNTER_MAX div 2),
       tage = [] # replicate (unat tnum) (replicate (2 ^ unat isize) emptyEntry)\<rparr>
   }"

section \<open>Hashing\<close>

text \<open>
  \<open>for (sm = 0, lg = len - 1; sm <= lg; sm++, lg--)\<close>: the loop bounds are unsigned, and the lengths
  are positive, so the loop ends before \<open>lg\<close> can pass 0.  The number of rounds left is the fuel of
  the recursion: \<open>len\<close> rounds are more than enough, as the loop stops at the middle.
\<close>

fun foldIndex :: "nat \<Rightarrow> nat \<Rightarrow> u64 \<Rightarrow> nat \<Rightarrow> nat \<Rightarrow> mybitset \<Rightarrow> mybitset option" where
  "foldIndex 0 isz hist sm lg sub = None"
| "foldIndex (Suc n) isz hist sm lg sub =
     (if sm \<le> lg then do {
        lastVal \<leftarrow> (if 1 \<le> isz then mybitset_get sub (isz - 1) else None);
        midVal \<leftarrow> (if 1 \<le> isz div 2 then mybitset_get sub (isz div 2 - 1) else None);
        sub1 \<leftarrow> mybitset_shl sub 1;
        sub2 \<leftarrow> mybitset_set sub1 0 (lastVal \<noteq> bit hist sm);
        sub3 \<leftarrow> mybitset_set sub2 (isz div 2) (midVal \<noteq> bit hist lg);
        (if lg = 0 then None else foldIndex n isz hist (sm + 1) (lg - 1) sub3)
      }
      else Some sub)"

definition GetTageIndex :: "BranchPredictorTage \<Rightarrow> u64 \<Rightarrow> nat \<Rightarrow> u64 option" where
  "GetTageIndex b PC tableNum =
     (if tableNum = 0 then Some 999999
      else do {
        _ \<leftarrow> require (index_size b \<le> 64);
        subHistory \<leftarrow> mybitset_new (of_nat (index_size b));
        l \<leftarrow> aget hist_lengths tableNum;
        subHistory' \<leftarrow> foldIndex l (index_size b) (historyBuffer b) 0 (l - 1) subHistory;
        r \<leftarrow> mybitset_to_ulong subHistory';
        Some (r XOR (PC AND idx_mask b))
      })"

text \<open>\<open>std::bitset<14>\<close>: a word of 14 bits.\<close>

definition bitset_set :: "'a::len word \<Rightarrow> nat \<Rightarrow> bool \<Rightarrow> 'a word" where
  "bitset_set w n v = (if v then w OR push_bit n 1 else w AND NOT (push_bit n 1))"

fun foldTag :: "nat \<Rightarrow> u64 \<Rightarrow> nat \<Rightarrow> nat \<Rightarrow> 14 word \<Rightarrow> 14 word" where
  "foldTag 0 hist sm lg sub = sub"
| "foldTag (Suc n) hist sm lg sub =
     (if sm \<le> lg then
        let lastVal = bit sub (TAGE_TAG_SIZE - 1);
            midVal = bit sub (TAGE_TAG_SIZE div 2 - 1);
            sub1 = push_bit 1 sub;
            sub2 = bitset_set sub1 0 (lastVal \<noteq> bit hist sm);
            sub3 = bitset_set sub2 (TAGE_TAG_SIZE div 2) (midVal \<noteq> bit hist lg)
        in foldTag n hist (sm + 1) (lg - 1) sub3
      else sub)"

definition GetTageTag :: "BranchPredictorTage \<Rightarrow> u64 \<Rightarrow> nat \<Rightarrow> u64 option" where
  "GetTageTag b PC tableNum =
     (if tableNum = 0 then Some 999999
      else do {
        l \<leftarrow> aget hist_lengths tableNum;
        let subHistory = foldTag l (historyBuffer b) 0 (l - 1) 0;
        Some (ucast subHistory XOR (PC AND tag_mask b))
      })"

section \<open>Prediction\<close>

definition tageEntry :: "BranchPredictorTage \<Rightarrow> nat \<Rightarrow> u32 \<Rightarrow> TageEntry option" where
  "tageEntry b table idx = do {
     t \<leftarrow> aget (tage b) table;
     aget t (unat idx)
   }"

definition setTageEntry :: "BranchPredictorTage \<Rightarrow> nat \<Rightarrow> u32 \<Rightarrow> TageEntry \<Rightarrow> BranchPredictorTage option" where
  "setTageEntry b table idx e = do {
     t \<leftarrow> aget (tage b) table;
     t' \<leftarrow> aset t (unat idx) e;
     Some (b\<lparr>tage := (tage b)[table := t']\<rparr>)
   }"

text \<open>The search over the tagged tables, from the longest history down.\<close>

fun searchTables :: "nat \<Rightarrow> BranchPredictorTage \<Rightarrow> u64 \<Rightarrow> bool \<Rightarrow> (BranchPredictorTage \<times> bool) option" where
  "searchTables 0 b PC usefulBitNull = Some (b, usefulBitNull)"
| "searchTables (Suc table') b PC usefulBitNull =
     (let table = Suc table' in
      if providerIndex b \<noteq> - 1 \<and> altProviderIndex b \<noteq> - 1 then Some (b, usefulBitNull)
      else do {
        idx64 \<leftarrow> GetTageIndex b PC table;
        tag64 \<leftarrow> GetTageTag b PC table;
        let idx = (ucast idx64 :: u32);
        let tg = (ucast tag64 :: u32);
        e \<leftarrow> tageEntry b table idx;
        if tag e = tg then
          (if providerIndex b = - 1 then
             searchTables table'
               (b\<lparr>providerIndex := int table, providerPredIndex := idx,
                  providerPred := (counter e > TI_COUNTER_MAX div 2)\<rparr>) PC (useful e = False)
           else
             searchTables table'
               (b\<lparr>altProviderIndex := int table,
                  altProviderPred := (counter e \<ge> TI_COUNTER_MAX div 2)\<rparr>) PC usefulBitNull)
        else searchTables table' b PC usefulBitNull
      })"

definition GetTagePredictions :: "BranchPredictorTage \<Rightarrow> u64 \<Rightarrow> bool \<Rightarrow> (BranchPredictorTage \<times> bool) option" where
  "GetTagePredictions b0 PC usefulBitNull0 = do {
     let b1 = b0\<lparr>providerIndex := - 1, altProviderIndex := - 1, providerPredIndex := 999999\<rparr>;
     (b, usefulBitNull) \<leftarrow> searchTables (table_num b1) b1 PC usefulBitNull0;
     if providerIndex b = - 1 \<or> altProviderIndex b = - 1 then do {
       let basePredictorIndex = (ucast (PC mod BASE_PREDICTOR_SIZE) :: u32);
       counterVal \<leftarrow> aget (basePredictor b) (unat basePredictorIndex);
       let p = (counterVal > T0_COUNTER_MAX div 2);
       let b2 = (if providerIndex b = - 1
                 then b\<lparr>providerIndex := 0, providerPredIndex := basePredictorIndex, providerPred := p\<rparr>
                 else b);
       let b3 = (if altProviderIndex b2 = - 1
                 then b2\<lparr>altProviderIndex := 0, altProviderPred := p\<rparr> else b2);
       Some (b3, usefulBitNull)
     }
     else Some (b, usefulBitNull)
   }"

definition GetPrediction :: "BranchPredictorTage \<Rightarrow> u64 \<Rightarrow> (BranchPredictorTage \<times> bool) option" where
  "GetPrediction b PC = do {
     (b', usefulBitNull) \<leftarrow> GetTagePredictions b PC False;
     if usefulBitNull \<and> useAltOnNa b' > USE_ALT_COUNTER_MAX div 2
     then Some (b', altProviderPred b')
     else Some (b', providerPred b')
   }"

section \<open>Update\<close>

definition bumpCounter :: "bool \<Rightarrow> u32 \<Rightarrow> u32" where
  "bumpCounter resolveDir c =
     (if resolveDir = False \<and> c > 0 then c - 1
      else if resolveDir = True \<and> c < T0_COUNTER_MAX then c + 1
      else c)"

definition UpdateProviderCounter :: "BranchPredictorTage \<Rightarrow> bool \<Rightarrow> BranchPredictorTage option" where
  "UpdateProviderCounter b resolveDir =
     (if providerIndex b = 0 then do {
        c \<leftarrow> aget (basePredictor b) (unat (providerPredIndex b));
        bp \<leftarrow> aset (basePredictor b) (unat (providerPredIndex b)) (bumpCounter resolveDir c);
        Some (b\<lparr>basePredictor := bp\<rparr>)
      }
      else do {
        _ \<leftarrow> require (0 \<le> providerIndex b);
        e \<leftarrow> tageEntry b (nat (providerIndex b)) (providerPredIndex b);
        setTageEntry b (nat (providerIndex b)) (providerPredIndex b)
          (e\<lparr>counter := bumpCounter resolveDir (counter e)\<rparr>)
      })"

text \<open>
  \<open>for (uint8_t table = providerIndex+1; table <= table_num; table++)\<close> with \<open>n\<close> tables left.
  A new entry has a weak counter and the useful bit off.
\<close>

fun allocLoop :: "nat \<Rightarrow> nat \<Rightarrow> u32 \<Rightarrow> BranchPredictorTage \<Rightarrow> u64 \<Rightarrow> BranchPredictorTage option" where
  "allocLoop 0 table allocationCount b PC = Some b"
| "allocLoop (Suc n) table allocationCount b PC =
     (if allocationCount \<ge> MAX_ALLOCATIONS then Some b
      else do {
        idx64 \<leftarrow> GetTageIndex b PC table;
        let predictorIndex = (ucast idx64 :: u32);
        e \<leftarrow> tageEntry b table predictorIndex;
        if useful e = False then do {
          tag64 \<leftarrow> GetTageTag b PC table;
          b' \<leftarrow> setTageEntry b table predictorIndex
                  \<lparr>counter = TI_COUNTER_MAX div 2, tag = ucast tag64, useful = False\<rparr>;
          allocLoop n (table + 1) (allocationCount + 1) b' PC
        }
        else do {
          b' \<leftarrow> setTageEntry b table predictorIndex (e\<lparr>useful := False\<rparr>);
          allocLoop n (table + 1) allocationCount b' PC
        }
      })"

definition AllocateNewEntries :: "BranchPredictorTage \<Rightarrow> u64 \<Rightarrow> BranchPredictorTage option" where
  "AllocateNewEntries b PC = do {
     let table = nat (providerIndex b + 1);
     allocLoop (table_num b + 1 - table) table 0 b PC
   }"

definition SetU :: "BranchPredictorTage \<Rightarrow> bool \<Rightarrow> BranchPredictorTage option" where
  "SetU b truthValue =
     (if providerIndex b > 0 then do {
        e \<leftarrow> tageEntry b (nat (providerIndex b)) (providerPredIndex b);
        setTageEntry b (nat (providerIndex b)) (providerPredIndex b) (e\<lparr>useful := truthValue\<rparr>)
      }
      else Some b)"

definition UpdateHistory :: "BranchPredictorTage \<Rightarrow> bool \<Rightarrow> BranchPredictorTage" where
  "UpdateHistory b resolveDir =
     b\<lparr>historyBuffer := bitset_set (push_bit 1 (historyBuffer b)) 0 resolveDir\<rparr>"

definition UpdatePredictor :: "BranchPredictorTage \<Rightarrow> u64 \<Rightarrow> bool \<Rightarrow> bool \<Rightarrow> u64 \<Rightarrow>
    BranchPredictorTage option" where
  "UpdatePredictor b PC resolveDir predDir branchTarget = do {
     b1 \<leftarrow> UpdateProviderCounter b resolveDir;
     b2 \<leftarrow> (if resolveDir \<noteq> predDir then AllocateNewEntries b1 PC else Some b1);
     b3 \<leftarrow> (if altProviderPred b2 \<noteq> providerPred b2 then
              (if altProviderPred b2 = resolveDir then do {
                 b' \<leftarrow> SetU b2 False;
                 Some (if useAltOnNa b' < USE_ALT_COUNTER_MAX
                       then b'\<lparr>useAltOnNa := useAltOnNa b' + 1\<rparr> else b')
               }
               else do {
                 b' \<leftarrow> SetU b2 True;
                 Some (if useAltOnNa b' > 0 then b'\<lparr>useAltOnNa := useAltOnNa b' - 1\<rparr> else b')
               })
            else Some b2);
     Some (UpdateHistory b3 resolveDir)
   }"

definition TrackOtherInst :: "BranchPredictorTage \<Rightarrow> u64 \<Rightarrow> u8 \<Rightarrow> u64 \<Rightarrow> BranchPredictorTage" where
  "TrackOtherInst b PC opType branchTarget = b"

definition predict :: "BranchPredictorTage \<Rightarrow> u64 \<Rightarrow> bool \<Rightarrow> u64 \<Rightarrow> (BranchPredictorTage \<times> bool) option" where
  "predict b branchPc taken branch_target = do {
     (b1, pred) \<leftarrow> GetPrediction b branchPc;
     b2 \<leftarrow> UpdatePredictor b1 branchPc taken pred branch_target;
     Some (b2, taken = pred)
   }"

section \<open>Well-formed predictors\<close>

definition entry_ok :: "TageEntry \<Rightarrow> bool" where
  "entry_ok e = (counter e \<le> 7 \<and> tag e < 2 ^ 14)"

definition table_ok :: "nat \<Rightarrow> TageEntry list \<Rightarrow> bool" where
  "table_ok isz t = (length t = 2 ^ isz \<and> list_all entry_ok t)"

definition tage_wf :: "BranchPredictorTage \<Rightarrow> bool" where
  "tage_wf b =
     (table_num b \<le> 8 \<and> 2 \<le> index_size b \<and> index_size b \<le> 30 \<and>
      tag_mask b = mask 14 \<and> idx_mask b = mask (index_size b) \<and>
      length (basePredictor b) = 128 \<and> list_all (\<lambda>c. c \<le> 7) (basePredictor b) \<and>
      useAltOnNa b \<le> 7 \<and>
      length (tage b) = table_num b + 1 \<and>
      (\<forall>i. 1 \<le> i \<and> i \<le> table_num b \<longrightarrow> table_ok (index_size b) (tage b ! i)))"

text \<open>The provider fields name a counter that exists.\<close>

definition provider_ok :: "BranchPredictorTage \<Rightarrow> bool" where
  "provider_ok b =
     (0 \<le> providerIndex b \<and> providerIndex b \<le> int (table_num b) \<and>
      (providerIndex b = 0 \<longrightarrow> unat (providerPredIndex b) < 128) \<and>
      (providerIndex b > 0 \<longrightarrow> unat (providerPredIndex b) < 2 ^ index_size b))"

lemma tage_wf_new:
  assumes "tnum \<le> 8" and "2 \<le> unat isize" and "unat isize \<le> 30"
  shows "\<exists>b. BranchPredictorTage_new tnum isize = Some b \<and> tage_wf b"
  using assms
  by (auto simp: BranchPredictorTage_new_def tage_wf_def table_ok_def entry_ok_def emptyEntry_def
      T0_COUNTER_MAX_def TAGE_TAG_SIZE_def mask_eq_exp_minus_1 word_le_nat_alt nth_Cons'
      list_all_iff push_bit_eq_mult)

lemma hist_lengths_nth:
  assumes "1 \<le> t" "t \<le> 8"
  shows "aget hist_lengths t = Some (8 * t)"
proof -
  have "t \<in> {1, 2, 3, 4, 5, 6, 7, 8}" using assms by auto
  then show ?thesis by (auto simp: hist_lengths_def aget_def)
qed

text \<open>
  \<open>mybitset::set\<close> does not use its value argument, so the folded index is the same for every
  history.
\<close>

lemma foldIndex_hist: "foldIndex n isz hist sm lg sub = foldIndex n isz hist' sm lg sub"
proof (induction n arbitrary: sm lg sub)
  case 0
  then show ?case by simp
next
  case (Suc n)
  have "foldIndex n isz hist = foldIndex n isz hist'"
    by (intro ext) (rule Suc.IH)
  then show ?case by (simp add: mybitset_set_def cong: if_cong)
qed

lemma GetTageIndex_hist:
  "GetTageIndex (b\<lparr>historyBuffer := h\<rparr>) PC t = GetTageIndex b PC t"
  by (simp add: GetTageIndex_def foldIndex_hist [of _ _ h _ _ _ "historyBuffer b"])

lemma foldIndex_total:
  assumes "2 \<le> isz" "isz < 64" "len sub = l" "lg + 3 \<le> 2 * n + sm" "sm \<le> lg + 2" "0 < sm + lg"
  shows "\<exists>sub'. foldIndex n isz hist sm lg sub = Some sub' \<and> len sub' = l"
  using assms
proof (induction n arbitrary: sm lg sub)
  case 0
  then show ?case by simp
next
  case (Suc n)
  show ?case
  proof (cases "sm \<le> lg")
    case False
    with Suc.prems show ?thesis by simp
  next
    case True
    define sub1 where "sub1 = sub\<lparr>data := push_bit 1 (data sub)\<rparr>"
    define put where "put s p = s\<lparr>data := (data s AND NOT (push_bit p 1)) OR push_bit p 1\<rparr>"
      for s :: mybitset and p
    define sub2 where "sub2 = put sub1 0"
    define sub3 where "sub3 = put sub2 (isz div 2)"
    have put: "mybitset_set s p v = Some (put s p)" if "p < 64" for s p v
      using that by (simp add: mybitset_set_def put_def)
    have sub2: "mybitset_set sub1 0 v = Some sub2" for v by (simp add: put sub2_def)
    have sub3: "mybitset_set sub2 (isz div 2) v = Some sub3" for v
      using Suc.prems(2) by (simp add: put sub3_def)
    have len3: "len sub3 = l" using Suc.prems(3) by (simp add: sub3_def sub2_def sub1_def put_def)
    have get: "\<exists>v. mybitset_get sub p = Some v" if "p < 64" for p
      using that by (simp add: mybitset_get_def)
    have in_range: "isz - 1 < 64" "isz div 2 - 1 < 64" using Suc.prems(2) by auto
    obtain v1 v2 where v: "mybitset_get sub (isz - 1) = Some v1"
      "mybitset_get sub (isz div 2 - 1) = Some v2"
      using get [OF in_range(1)] get [OF in_range(2)] by blast
    have lg: "lg \<noteq> 0" using True Suc.prems(6) by auto
    have "\<exists>sub'. foldIndex n isz hist (sm + 1) (lg - 1) sub3 = Some sub' \<and> len sub' = l"
      using Suc.prems True lg len3 by (intro Suc.IH) auto
    moreover have "mybitset_shl sub 1 = Some sub1" by (simp add: mybitset_shl_def sub1_def)
    ultimately show ?thesis using True lg v sub2 sub3 Suc.prems(1) by auto
  qed
qed

lemma GetTageIndex_total:
  assumes "tage_wf b" "1 \<le> t" "t \<le> table_num b"
  shows "\<exists>i. GetTageIndex b PC t = Some i \<and> unat (ucast i :: u32) < 2 ^ index_size b"
proof -
  let ?n = "index_size b"
  have n: "2 \<le> ?n" "?n \<le> 30" and t: "t \<le> 8" and m: "idx_mask b = mask ?n"
    using assms by (auto simp: tage_wf_def)
  define bs where "bs = \<lparr>len = of_nat ?n :: u8, data = 0 :: u64\<rparr>"
  have len: "unat (of_nat ?n :: u8) = ?n" using n by (simp add: unat_of_nat)
  have new: "mybitset_new (of_nat ?n) = Some bs"
    using n len by (simp add: mybitset_new_def bs_def word_le_nat_alt)
  obtain s where s: "foldIndex (8 * t) ?n (historyBuffer b) 0 (8 * t - 1) bs = Some s"
    "len s = of_nat ?n"
    using foldIndex_total [of ?n bs "of_nat ?n" "8 * t - 1" "8 * t" 0 "historyBuffer b"] n assms(2)
    by (auto simp: bs_def)
  have r: "mybitset_to_ulong s = Some (data s AND mask ?n)"
    using n s(2) len by (simp add: mybitset_to_ulong_def max_mask_def mask_eq_exp_minus_1)
  define i where "i = (data s AND mask ?n) XOR (PC AND idx_mask b)"
  have "GetTageIndex b PC t = Some i"
    using assms(2) n new s(1) r t by (simp add: GetTageIndex_def hist_lengths_nth i_def)
  moreover have "i = (data s XOR PC) AND mask ?n"
    unfolding i_def m by (auto simp: bit_eq_iff bit_simps)
  then have "(ucast i :: u32) = ucast (data s XOR PC) AND mask ?n"
    by (auto simp: bit_eq_iff bit_simps)
  then have "(ucast i :: u32) < 2 ^ ?n"
    using n by (simp add: and_mask_less')
  then have "unat (ucast i :: u32) < 2 ^ ?n"
    using n by (simp add: word_less_nat_alt unat_two_power)
  ultimately show ?thesis by blast
qed

lemma GetTageTag_total:
  assumes "tage_wf b" "1 \<le> t" "t \<le> table_num b"
  shows "\<exists>g. GetTageTag b PC t = Some g \<and> (ucast g :: u32) < 2 ^ 14"
proof -
  have t: "t \<le> 8" and m: "tag_mask b = mask 14" using assms by (auto simp: tage_wf_def)
  define f where "f = foldTag (8 * t) (historyBuffer b) 0 (8 * t - 1) 0"
  define g where "g = (ucast f XOR (PC AND mask 14) :: u64)"
  have "GetTageTag b PC t = Some g"
    using assms(2) t m by (simp add: GetTageTag_def hist_lengths_nth f_def g_def)
  moreover have "(ucast g :: u32) = ucast g AND mask 14"
    by (auto simp: bit_eq_iff bit_simps g_def dest: bit_imp_le_length)
  then have "(ucast g :: u32) < 2 ^ 14"
    using and_mask_less' [of 14 "ucast g :: u32"] by simp
  ultimately show ?thesis by blast
qed

subsection \<open>Every operation keeps a predictor well-formed\<close>

lemma tage_wf_frame [simp]:
  "tage_wf (b\<lparr>providerIndex := x\<rparr>) = tage_wf b"
  "tage_wf (b\<lparr>altProviderIndex := x\<rparr>) = tage_wf b"
  "tage_wf (b\<lparr>providerPredIndex := i\<rparr>) = tage_wf b"
  "tage_wf (b\<lparr>providerPred := p\<rparr>) = tage_wf b"
  "tage_wf (b\<lparr>altProviderPred := p\<rparr>) = tage_wf b"
  "tage_wf (b\<lparr>historyBuffer := h\<rparr>) = tage_wf b"
  by (simp_all add: tage_wf_def)

lemma tageEntry_total:
  assumes "tage_wf b" "1 \<le> t" "t \<le> table_num b" "unat idx < 2 ^ index_size b"
  shows "tageEntry b t idx = Some (tage b ! t ! unat idx) \<and> entry_ok (tage b ! t ! unat idx)"
  using assms by (auto simp: tage_wf_def tageEntry_def table_ok_def list_all_length)

lemma setTageEntry_total:
  assumes "tage_wf b" "1 \<le> t" "t \<le> table_num b" "unat idx < 2 ^ index_size b" "entry_ok e"
  shows "\<exists>ts. setTageEntry b t idx e = Some (b\<lparr>tage := ts\<rparr>) \<and> tage_wf (b\<lparr>tage := ts\<rparr>)"
proof -
  have t: "t < length (tage b)" "table_ok (index_size b) (tage b ! t)"
    using assms by (auto simp: tage_wf_def)
  let ?ts = "(tage b)[t := (tage b ! t)[unat idx := e]]"
  have "setTageEntry b t idx e = Some (b\<lparr>tage := ?ts\<rparr>)"
    using t assms(4) by (simp add: setTageEntry_def table_ok_def)
  moreover have "table_ok (index_size b) ((tage b ! t)[unat idx := e])"
    using t(2) assms(5) by (simp add: table_ok_def list_all_update)
  then have "tage_wf (b\<lparr>tage := ?ts\<rparr>)"
    using assms(1,2) t(1) by (auto simp: tage_wf_def nth_list_update)
  ultimately show ?thesis by blast
qed

text \<open>The provider fields while the tables are searched: unset, or naming an entry.\<close>

definition search_ok :: "BranchPredictorTage \<Rightarrow> bool" where
  "search_ok b =
     ((providerIndex b = - 1 \<or>
       1 \<le> providerIndex b \<and> providerIndex b \<le> int (table_num b) \<and>
       unat (providerPredIndex b) < 2 ^ index_size b) \<and>
      - 1 \<le> altProviderIndex b)"

lemma searchTables_total:
  assumes "tage_wf b" "n \<le> table_num b" "search_ok b"
  shows "\<exists>b' u'. searchTables n b PC u = Some (b', u') \<and> tage_wf b' \<and> search_ok b' \<and>
           historyBuffer b' = historyBuffer b \<and> table_num b' = table_num b \<and>
           basePredictor b' = basePredictor b \<and> tage b' = tage b \<and> useAltOnNa b' = useAltOnNa b"
  using assms
proof (induction n arbitrary: b u)
  case 0
  then show ?case by simp
next
  case (Suc n)
  obtain i where i: "GetTageIndex b PC (Suc n) = Some i" "unat (ucast i :: u32) < 2 ^ index_size b"
    using GetTageIndex_total [of b "Suc n"] Suc.prems by auto
  obtain g where g: "GetTageTag b PC (Suc n) = Some g"
    using GetTageTag_total [of b "Suc n"] Suc.prems by auto
  note e = tageEntry_total [OF Suc.prems(1) _ Suc.prems(2) i(2)]
  define e where "e = tage b ! Suc n ! unat (ucast i :: u32)"
  define bp where "bp = b\<lparr>providerIndex := int (Suc n), providerPredIndex := ucast i,
    providerPred := (counter e > TI_COUNTER_MAX div 2)\<rparr>"
  define ba where "ba = b\<lparr>altProviderIndex := int (Suc n),
    altProviderPred := (counter e \<ge> TI_COUNTER_MAX div 2)\<rparr>"
  have bp: "tage_wf bp" "n \<le> table_num bp" "search_ok bp"
    and ba: "tage_wf ba" "n \<le> table_num ba" "search_ok ba"
    using Suc.prems i(2) by (simp_all add: bp_def ba_def search_ok_def)
  have IHb: "tage_wf b" "n \<le> table_num b" "search_ok b" using Suc.prems by simp_all
  have fields: "historyBuffer bp = historyBuffer b" "table_num bp = table_num b"
    "basePredictor bp = basePredictor b" "tage bp = tage b" "useAltOnNa bp = useAltOnNa b"
    "historyBuffer ba = historyBuffer b" "table_num ba = table_num b"
    "basePredictor ba = basePredictor b" "tage ba = tage b" "useAltOnNa ba = useAltOnNa b"
    by (simp_all add: bp_def ba_def)
  consider "providerIndex b \<noteq> - 1 \<and> altProviderIndex b \<noteq> - 1"
    | "\<not> (providerIndex b \<noteq> - 1 \<and> altProviderIndex b \<noteq> - 1)" "tag e = ucast g" "providerIndex b = - 1"
    | "\<not> (providerIndex b \<noteq> - 1 \<and> altProviderIndex b \<noteq> - 1)" "tag e = ucast g" "providerIndex b \<noteq> - 1"
    | "\<not> (providerIndex b \<noteq> - 1 \<and> altProviderIndex b \<noteq> - 1)" "tag e \<noteq> ucast g"
    by blast
  then show ?case
  proof cases
    case 1
    then show ?thesis using Suc.prems by (simp add: Let_def)
  next
    case 2
    then show ?thesis using Suc.IH [OF bp, of "useful e = False"] i(1) g e fields
      by (simp add: Let_def bp_def e_def [symmetric])
  next
    case 3
    then show ?thesis using Suc.IH [OF ba, of u] i(1) g e fields
      by (simp add: Let_def ba_def e_def [symmetric])
  next
    case 4
    then show ?thesis using Suc.IH [OF IHb, of u] i(1) g e
      by (auto simp add: Let_def e_def [symmetric])
  qed
qed

lemma GetTagePredictions_total:
  assumes "tage_wf b"
  shows "\<exists>b' u'. GetTagePredictions b PC u = Some (b', u') \<and> tage_wf b' \<and> provider_ok b' \<and>
           historyBuffer b' = historyBuffer b \<and> table_num b' = table_num b \<and>
           basePredictor b' = basePredictor b \<and> tage b' = tage b \<and> useAltOnNa b' = useAltOnNa b"
proof -
  define b1 where "b1 = b\<lparr>providerIndex := - 1, altProviderIndex := - 1, providerPredIndex := 999999\<rparr>"
  have b1: "tage_wf b1" "table_num b1 \<le> table_num b1" "search_ok b1"
    using assms by (simp_all add: b1_def search_ok_def)
  obtain b2 u2 where b2: "searchTables (table_num b1) b1 PC u = Some (b2, u2)" "tage_wf b2" "search_ok b2"
    "historyBuffer b2 = historyBuffer b" "table_num b2 = table_num b"
    "basePredictor b2 = basePredictor b" "tage b2 = tage b" "useAltOnNa b2 = useAltOnNa b"
    using searchTables_total [OF b1, of PC u] by (auto simp: b1_def)
  define i where "i = (ucast (PC mod BASE_PREDICTOR_SIZE) :: u32)"
  have i: "unat i < 128"
    by (simp add: i_def BASE_PREDICTOR_SIZE_def unsigned_ucast_eq unat_mod)
       (rule le_less_trans [OF take_bit_nat_less_eq_self], simp)
  have bp: "length (basePredictor b) = 128" using assms by (simp add: tage_wf_def)
  show ?thesis
    using b2 i bp
    by (auto simp: GetTagePredictions_def b1_def [symmetric] i_def [symmetric] Let_def provider_ok_def
        search_ok_def)
qed

lemma bumpCounter_bound: "c \<le> 7 \<Longrightarrow> bumpCounter d c \<le> 7"
  by (auto simp: bumpCounter_def T0_COUNTER_MAX_def word_le_nat_alt word_less_nat_alt unat_arith_simps)

lemma UpdateProviderCounter_total:
  assumes "tage_wf b" "provider_ok b"
  shows "\<exists>bps ts. UpdateProviderCounter b d = Some (b\<lparr>basePredictor := bps, tage := ts\<rparr>) \<and>
           tage_wf (b\<lparr>basePredictor := bps, tage := ts\<rparr>)"
proof (cases "providerIndex b = 0")
  case True
  let ?i = "unat (providerPredIndex b)"
  have i: "?i < length (basePredictor b)" using assms True by (simp add: tage_wf_def provider_ok_def)
  have "list_all (\<lambda>c. c \<le> 7) (basePredictor b)" using assms(1) by (simp add: tage_wf_def)
  then have "list_all (\<lambda>c. c \<le> 7) ((basePredictor b)[?i := bumpCounter d (basePredictor b ! ?i)])"
    using i by (intro list_all_update) (auto intro: bumpCounter_bound simp: list_all_length)
  with assms(1) i True show ?thesis
    by (intro exI [of _ "(basePredictor b)[?i := bumpCounter d (basePredictor b ! ?i)]"]
        exI [of _ "tage b"]) (simp add: UpdateProviderCounter_def tage_wf_def)
next
  case False
  let ?t = "nat (providerIndex b)"
  have t: "1 \<le> ?t" "?t \<le> table_num b" "unat (providerPredIndex b) < 2 ^ index_size b" "0 \<le> providerIndex b"
    using assms(2) False by (auto simp: provider_ok_def)
  let ?e = "tage b ! ?t ! unat (providerPredIndex b)"
  note e = tageEntry_total [OF assms(1) t(1-3)]
  have "entry_ok (?e\<lparr>counter := bumpCounter d (counter ?e)\<rparr>)"
    using e by (simp add: entry_ok_def bumpCounter_bound)
  from setTageEntry_total [OF assms(1) t(1-3) this] e t(4) False show ?thesis
    by (auto simp: UpdateProviderCounter_def intro!: exI [of _ "basePredictor b"])
qed

lemma allocLoop_total:
  assumes "tage_wf b" "1 \<le> t" "t + n \<le> table_num b + 1"
  shows "\<exists>ts. allocLoop n t k b PC = Some (b\<lparr>tage := ts\<rparr>) \<and> tage_wf (b\<lparr>tage := ts\<rparr>)"
  using assms
proof (induction n arbitrary: t k b)
  case 0
  then show ?case by (intro exI [of _ "tage b"]) simp
next
  case (Suc n)
  show ?case
  proof (cases "k \<ge> MAX_ALLOCATIONS")
    case True
    with Suc.prems show ?thesis by (intro exI [of _ "tage b"]) simp
  next
    case False
    have t: "t \<le> table_num b" using Suc.prems(3) by simp
    obtain i where i: "GetTageIndex b PC t = Some i" "unat (ucast i :: u32) < 2 ^ index_size b"
      using GetTageIndex_total [OF Suc.prems(1,2) t] by blast
    obtain g where g: "GetTageTag b PC t = Some g" "(ucast g :: u32) < 2 ^ 14"
      using GetTageTag_total [OF Suc.prems(1,2) t] by blast
    define e where "e = tage b ! t ! unat (ucast i :: u32)"
    have e': "tageEntry b t (ucast i) = Some e" "entry_ok e"
      using tageEntry_total [OF Suc.prems(1,2) t i(2)] by (simp_all add: e_def)
    define new where "new = (if useful e = False
        then \<lparr>counter = TI_COUNTER_MAX div 2, tag = ucast g, useful = False\<rparr>
        else e\<lparr>useful := False\<rparr>)"
    define k' where "k' = (if useful e = False then k + 1 else k)"
    have "entry_ok new"
      using e'(2) g(2) by (simp add: new_def entry_ok_def TI_COUNTER_MAX_def)
    then obtain ts where ts: "setTageEntry b t (ucast i) new = Some (b\<lparr>tage := ts\<rparr>)"
      "tage_wf (b\<lparr>tage := ts\<rparr>)"
      using setTageEntry_total [OF Suc.prems(1,2) t i(2)] by blast
    have "allocLoop (Suc n) t k b PC = allocLoop n (t + 1) k' (b\<lparr>tage := ts\<rparr>) PC"
      using False i(1) g(1) e' ts(1)
      by (cases "useful e") (simp_all add: Let_def new_def k'_def)
    with Suc.IH [OF ts(2), of "t + 1" k'] Suc.prems show ?thesis by auto
  qed
qed

lemma SetU_total:
  assumes "tage_wf b" "provider_ok b"
  shows "\<exists>ts. SetU b v = Some (b\<lparr>tage := ts\<rparr>) \<and> tage_wf (b\<lparr>tage := ts\<rparr>)"
proof (cases "providerIndex b > 0")
  case True
  let ?t = "nat (providerIndex b)"
  have t: "1 \<le> ?t" "?t \<le> table_num b" "unat (providerPredIndex b) < 2 ^ index_size b"
    using assms(2) True by (auto simp: provider_ok_def)
  let ?e = "tage b ! ?t ! unat (providerPredIndex b)"
  note e = tageEntry_total [OF assms(1) t]
  have "entry_ok (?e\<lparr>useful := v\<rparr>)" using e by (simp add: entry_ok_def)
  from setTageEntry_total [OF assms(1) t this] e True show ?thesis by (auto simp: SetU_def)
next
  case False
  with assms show ?thesis by (intro exI [of _ "tage b"]) (simp add: SetU_def)
qed

lemma provider_ok_frame [simp]:
  "provider_ok (b\<lparr>basePredictor := x\<rparr>) = provider_ok b"
  "provider_ok (b\<lparr>tage := y\<rparr>) = provider_ok b"
  by (simp_all add: provider_ok_def)

lemma AllocateNewEntries_total:
  assumes "tage_wf b" "provider_ok b"
  shows "\<exists>ts. AllocateNewEntries b PC = Some (b\<lparr>tage := ts\<rparr>) \<and> tage_wf (b\<lparr>tage := ts\<rparr>)"
  using assms allocLoop_total [OF assms(1), of "nat (providerIndex b + 1)"
      "table_num b + 1 - nat (providerIndex b + 1)"]
  by (auto simp: AllocateNewEntries_def provider_ok_def Let_def)

lemma UpdatePredictor_total:
  assumes "tage_wf b" "provider_ok b"
  shows "\<exists>b'. UpdatePredictor b PC d p tgt = Some b' \<and> tage_wf b' \<and>
           historyBuffer b' = bitset_set (push_bit 1 (historyBuffer b)) 0 d"
proof -
  obtain bps ts where b1: "UpdateProviderCounter b d = Some (b\<lparr>basePredictor := bps, tage := ts\<rparr>)"
    "tage_wf (b\<lparr>basePredictor := bps, tage := ts\<rparr>)"
    using UpdateProviderCounter_total [OF assms] by blast
  define b1 where "b1 = b\<lparr>basePredictor := bps, tage := ts\<rparr>"
  have ok1: "tage_wf b1" "provider_ok b1" using b1(2) assms(2) by (simp_all add: b1_def)
  obtain ts2 where b2: "(if d \<noteq> p then AllocateNewEntries b1 PC else Some b1) = Some (b1\<lparr>tage := ts2\<rparr>)"
    "tage_wf (b1\<lparr>tage := ts2\<rparr>)"
  proof (cases "d \<noteq> p")
    case True
    with AllocateNewEntries_total [OF ok1] that show thesis by auto
  next
    case False
    with ok1 that [of "tage b1"] show thesis by simp
  qed
  define b2 where "b2 = b1\<lparr>tage := ts2\<rparr>"
  have ok2: "tage_wf b2" "provider_ok b2" using b2(2) ok1 by (simp_all add: b2_def)
  obtain tsu where u: "SetU b2 v = Some (b2\<lparr>tage := tsu v\<rparr>)" "tage_wf (b2\<lparr>tage := tsu v\<rparr>)" for v
    using SetU_total [OF ok2] by metis
  have use: "tage_wf (b\<lparr>useAltOnNa := x\<rparr>)" if "tage_wf b" "x \<le> 7" for b :: BranchPredictorTage and x
    using that by (simp add: tage_wf_def)
  have seven: "useAltOnNa b2 \<le> 7" using ok2(1) by (simp add: tage_wf_def)
  have inc: "x + 1 \<le> 7" if "x < 7" for x :: u32
    using that by unat_arith
  have dec: "x - 1 \<le> 7" if "x \<le> 7" "0 < x" for x :: u32
    using that by unat_arith
  have hist: "historyBuffer b2 = historyBuffer b" by (simp add: b2_def b1_def)
  show ?thesis
    using b1(1) b2(1) ok2(1) u use seven inc dec hist
    by (auto simp: UpdatePredictor_def b1_def [symmetric] b2_def [symmetric] UpdateHistory_def
        USE_ALT_COUNTER_MAX_def Let_def)
qed

subsection \<open>The provider is the hitting table with the longest history\<close>

definition tage_hit :: "BranchPredictorTage \<Rightarrow> u64 \<Rightarrow> nat \<Rightarrow> bool" where
  "tage_hit b PC t =
     (case (GetTageIndex b PC t, GetTageTag b PC t) of
        (Some i, Some g) \<Rightarrow> tag (tage b ! t ! unat (ucast i :: u32)) = ucast g
      | _ \<Rightarrow> False)"

text \<open>The hitting tables among \<open>1..n\<close>, the longest history first.\<close>

fun hits :: "BranchPredictorTage \<Rightarrow> u64 \<Rightarrow> nat \<Rightarrow> int list" where
  "hits b PC 0 = []"
| "hits b PC (Suc n) = (if tage_hit b PC (Suc n) then [int (Suc n)] else []) @ hits b PC n"

lemma hash_frame [simp]:
  "GetTageIndex (b\<lparr>providerIndex := x\<rparr>) PC t = GetTageIndex b PC t"
  "GetTageIndex (b\<lparr>altProviderIndex := x\<rparr>) PC t = GetTageIndex b PC t"
  "GetTageIndex (b\<lparr>providerPredIndex := y\<rparr>) PC t = GetTageIndex b PC t"
  "GetTageIndex (b\<lparr>providerPred := p\<rparr>) PC t = GetTageIndex b PC t"
  "GetTageIndex (b\<lparr>altProviderPred := p\<rparr>) PC t = GetTageIndex b PC t"
  "GetTageTag (b\<lparr>providerIndex := x\<rparr>) PC t = GetTageTag b PC t"
  "GetTageTag (b\<lparr>altProviderIndex := x\<rparr>) PC t = GetTageTag b PC t"
  "GetTageTag (b\<lparr>providerPredIndex := y\<rparr>) PC t = GetTageTag b PC t"
  "GetTageTag (b\<lparr>providerPred := p\<rparr>) PC t = GetTageTag b PC t"
  "GetTageTag (b\<lparr>altProviderPred := p\<rparr>) PC t = GetTageTag b PC t"
  by (simp_all add: GetTageIndex_def GetTageTag_def)

lemma hits_frame [simp]:
  "hits (b\<lparr>providerIndex := x\<rparr>) PC n = hits b PC n"
  "hits (b\<lparr>altProviderIndex := x\<rparr>) PC n = hits b PC n"
  "hits (b\<lparr>providerPredIndex := y\<rparr>) PC n = hits b PC n"
  "hits (b\<lparr>providerPred := p\<rparr>) PC n = hits b PC n"
  "hits (b\<lparr>altProviderPred := p\<rparr>) PC n = hits b PC n"
  by (induction n) (simp_all add: tage_hit_def cong: option.case_cong)

lemma searchTables_hits:
  assumes "searchTables n b PC u = Some (b', u')" "tage_wf b" "n \<le> table_num b"
  shows "(providerIndex b \<noteq> - 1 \<and> altProviderIndex b \<noteq> - 1 \<longrightarrow>
            providerIndex b' = providerIndex b \<and> altProviderIndex b' = altProviderIndex b) \<and>
         (providerIndex b \<noteq> - 1 \<and> altProviderIndex b = - 1 \<longrightarrow>
            providerIndex b' = providerIndex b \<and> altProviderIndex b' = hd (hits b PC n @ [- 1])) \<and>
         (providerIndex b = - 1 \<and> altProviderIndex b = - 1 \<longrightarrow>
            providerIndex b' = hd (hits b PC n @ [- 1]) \<and>
            altProviderIndex b' = hd (tl (hits b PC n) @ [- 1]))"
  using assms
proof (induction n arbitrary: b u)
  case 0
  then show ?case by auto
next
  case (Suc n)
  obtain i where i: "GetTageIndex b PC (Suc n) = Some i" "unat (ucast i :: u32) < 2 ^ index_size b"
    using GetTageIndex_total [of b "Suc n"] Suc.prems by auto
  obtain g where g: "GetTageTag b PC (Suc n) = Some g"
    using GetTageTag_total [of b "Suc n"] Suc.prems by auto
  note e = tageEntry_total [OF Suc.prems(2) _ Suc.prems(3) i(2)]
  define e where "e = tage b ! Suc n ! unat (ucast i :: u32)"
  have hit: "tage_hit b PC (Suc n) \<longleftrightarrow> tag e = ucast g"
    using i(1) g by (simp add: tage_hit_def e_def)
  define bp where "bp = b\<lparr>providerIndex := int (Suc n), providerPredIndex := ucast i,
    providerPred := (counter e > TI_COUNTER_MAX div 2)\<rparr>"
  define ba where "ba = b\<lparr>altProviderIndex := int (Suc n),
    altProviderPred := (counter e \<ge> TI_COUNTER_MAX div 2)\<rparr>"
  have wf: "tage_wf bp" "n \<le> table_num bp" "tage_wf ba" "n \<le> table_num ba" "n \<le> table_num b"
    using Suc.prems by (simp_all add: bp_def ba_def)
  show ?case
  proof (cases "providerIndex b \<noteq> - 1 \<and> altProviderIndex b \<noteq> - 1")
    case True
    with Suc.prems(1) show ?thesis by (auto simp: Let_def)
  next
    case unset: False
    consider "tag e = ucast g" "providerIndex b = - 1" | "tag e = ucast g" "providerIndex b \<noteq> - 1"
      | "tag e \<noteq> ucast g" by blast
    then show ?thesis
    proof cases
      case 1
      then have "searchTables n bp PC (useful e = False) = Some (b', u')"
        using Suc.prems(1) unset i(1) g e by (simp add: Let_def e_def bp_def)
      from Suc.IH [OF this wf(1,2)] 1 hit show ?thesis by (auto simp: bp_def)
    next
      case 2
      then have "searchTables n ba PC u = Some (b', u')"
        using Suc.prems(1) unset i(1) g e by (simp add: Let_def e_def ba_def)
      from Suc.IH [OF this wf(3,4)] 2 hit unset show ?thesis by (auto simp: ba_def)
    next
      case 3
      then have "searchTables n b PC u = Some (b', u')"
        using Suc.prems(1) unset i(1) g e by (simp add: Let_def e_def split: if_splits)
      from Suc.IH [OF this Suc.prems(2) wf(5)] 3 hit show ?thesis by simp
    qed
  qed
qed

section \<open>Properties\<close>

lemma GetPrediction_total:
  assumes "tage_wf b"
  shows "\<exists>b' r. GetPrediction b PC = Some (b', r) \<and> tage_wf b' \<and> provider_ok b' \<and>
           historyBuffer b' = historyBuffer b"
proof -
  obtain b' u where "GetTagePredictions b PC False = Some (b', u)" "tage_wf b'" "provider_ok b'"
    "historyBuffer b' = historyBuffer b"
    using GetTagePredictions_total [OF assms] by blast
  then show ?thesis by (simp add: GetPrediction_def)
qed

lemma tage_predict_total:
  assumes "tage_wf b"
  shows "\<exists>b' r. predict b branchPc taken tgt = Some (b', r) \<and> tage_wf b' \<and>
           historyBuffer b' = bitset_set (push_bit 1 (historyBuffer b)) 0 taken"
proof -
  obtain b1 p where b1: "GetPrediction b branchPc = Some (b1, p)" "tage_wf b1" "provider_ok b1"
    "historyBuffer b1 = historyBuffer b"
    using GetPrediction_total [OF assms] by blast
  obtain b2 where "UpdatePredictor b1 branchPc taken p tgt = Some b2" "tage_wf b2"
    "historyBuffer b2 = bitset_set (push_bit 1 (historyBuffer b1)) 0 taken"
    using UpdatePredictor_total [OF b1(2,3)] by blast
  with b1 show ?thesis by (simp add: predict_def)
qed

text \<open>
  Claim C3. On a well-formed predictor (tables of the declared sizes, counters at most 7, tags of 14
  bits) \<open>predict\<close> never runs out of a table and never fails, it leaves a well-formed predictor, and
  it shifts exactly the branch outcome into the history.
\<close>

theorem predict_safe:
  assumes "tage_wf b"
  shows "\<exists>b' r. predict b branchPc taken tgt = Some (b', r) \<and> tage_wf b' \<and>
           historyBuffer b' = bitset_set (push_bit 1 (historyBuffer b)) 0 taken"
  by (rule tage_predict_total [OF assms])

theorem predict_safe_witness:
  "\<exists>b b' r. BranchPredictorTage_new 4 10 = Some b \<and> predict b 0x401000 True 0x401080 = Some (b', r) \<and>
     tage_wf b'"
proof -
  obtain b where b: "BranchPredictorTage_new 4 10 = Some b" "tage_wf b"
    using tage_wf_new [of 4 10] by auto
  from predict_safe [OF b(2), of "0x401000" True "0x401080"] b(1) show ?thesis by blast
qed

text \<open>
  The index of a tagged table does not depend on the branch history at all: the history
  bits only reach the folded index through the value argument of \<open>mybitset::set\<close>, which \<open>set\<close>
  ignores, although the comment asks for an XOR of sub-bitsets of the global history.
\<close>

theorem index_ignores_history:
  "GetTageIndex (b\<lparr>historyBuffer := h\<rparr>) PC t = GetTageIndex b PC t"
  by (rule GetTageIndex_hist)

text \<open>
  Claim C2. The provider is the tagged table with the longest history whose tag matches and the
  alternate provider the next one; where there is none, the base predictor (table 0) takes its place.
\<close>

theorem provider_is_longest_match:
  assumes "tage_wf b" and "GetTagePredictions b PC u = Some (b', u')"
  shows "providerIndex b' = hd (hits b PC (table_num b) @ [0]) \<and>
         altProviderIndex b' = hd (tl (hits b PC (table_num b)) @ [0])"
proof -
  define b1 where "b1 = b\<lparr>providerIndex := - 1, altProviderIndex := - 1, providerPredIndex := 999999\<rparr>"
  have wf: "tage_wf b1" and tn: "table_num b1 = table_num b" using assms(1) by (simp_all add: b1_def)
  obtain b2 u2 where b2: "searchTables (table_num b1) b1 PC u = Some (b2, u2)"
    using assms(2) by (auto simp: GetTagePredictions_def b1_def Let_def elim!: bind_Some_elim)
  have pos: "x \<noteq> - 1" if "x \<in> set (hits b PC n)" for x n
    using that by (induction n) (auto split: if_splits)
  have "providerIndex b2 = hd (hits b PC (table_num b) @ [- 1])"
    "altProviderIndex b2 = hd (tl (hits b PC (table_num b)) @ [- 1])"
    using searchTables_hits [OF b2 wf] by (simp_all add: tn) (simp_all add: b1_def)
  moreover have "providerIndex b' = (if providerIndex b2 = - 1 then 0 else providerIndex b2) \<and>
     altProviderIndex b' = (if altProviderIndex b2 = - 1 then 0 else altProviderIndex b2)"
    using assms(2) b2
    by (auto simp: GetTagePredictions_def b1_def [symmetric] Let_def elim!: bind_Some_elim split: if_splits)
  ultimately show ?thesis
    using pos [of _ "table_num b"]
    by (cases "hits b PC (table_num b)"; cases "tl (hits b PC (table_num b))") (auto simp: neq_Nil_conv)
qed

theorem provider_is_longest_match_witness:
  "\<exists>b b' u. BranchPredictorTage_new 4 10 = Some b \<and> GetTagePredictions b 0x401000 False = Some (b', u) \<and>
     providerIndex b' = hd (hits b 0x401000 4 @ [0])"
proof -
  obtain b where b: "BranchPredictorTage_new 4 10 = Some b" "tage_wf b"
    using tage_wf_new [of 4 10] by auto
  then have tn: "table_num b = 4" by (auto simp: BranchPredictorTage_new_def)
  obtain b' u where "GetTagePredictions b 0x401000 False = Some (b', u)"
    using GetTagePredictions_total [OF b(2)] by blast
  with provider_is_longest_match [OF b(2) this] b(1) tn show ?thesis by auto
qed

end
