(* ===== verification/Legos.thy ===== *)
theory Legos
  imports Bits
begin

text \<open>
  The building blocks of the issue model, \<open>src/src/legos.h\<close>: the instruction window
  (\<open>WindowStructure\<close>), the reorder buffer and the cycle queue.

  A window holds, for every future cycle, which issue ports are taken.  The next \<open>H - curPos\<close>
  cycles are in \<open>curWin\<close>, the \<open>H\<close> cycles after them in \<open>nextWin\<close>, and what lies further ahead in
  \<open>ubWin\<close>, an ordered map that is modelled by the list of its entries in key order.  Every operation
  that takes \<open>curCycle\<close> or \<open>schedCycle\<close> by reference returns the new value.
\<close>

section \<open>WindowStructure\<close>

record WinCycle =
  occUnits :: u8
  wcount :: u8

definition WinCycle_set :: "u8 \<Rightarrow> u8 \<Rightarrow> WinCycle" where
  "WinCycle_set o' c = \<lparr>occUnits = o', wcount = c\<rparr>"

record WindowStructure =
  curWin :: "WinCycle list"
  nextWin :: "WinCycle list"
  ubWin :: "(u64 \<times> WinCycle) list"
  occupancy :: u32
  curPos :: u32
  lastPort :: u8
  H :: u32
  WSZ :: u32

text \<open>\<open>lastPort\<close> is not initialised by the constructor; \<open>lp\<close> is the value the memory had.\<close>

definition WindowStructure_new :: "u32 \<Rightarrow> u32 \<Rightarrow> u8 \<Rightarrow> WindowStructure" where
  "WindowStructure_new h wsz lp =
     \<lparr>curWin = replicate (unat h) (WinCycle_set 0 0), nextWin = replicate (unat h) (WinCycle_set 0 0),
      ubWin = [], occupancy = 0, curPos = 0, lastPort = lp, H = h, WSZ = wsz\<rparr>"

text \<open>
  \<open>trySchedule touch record wc portMask\<close>: the new window cycle, the new \<open>lastPort\<close> and the mask of
  the ports that were available, which is also the success flag.
\<close>

definition trySchedule :: "bool \<Rightarrow> bool \<Rightarrow> WinCycle \<Rightarrow> u8 \<Rightarrow> u8 \<Rightarrow> WinCycle \<times> u8 \<times> u8" where
  "trySchedule touchOccupancy recordPort wc portMask lp =
     (let availMask = NOT (occUnits wc) AND portMask in
      if touchOccupancy then
        (if availMask \<noteq> 0 then
           let firstAvail = ffs availMask - 1 in
           (wc\<lparr>occUnits := occUnits wc OR push_bit firstAvail 1, wcount := wcount wc + 1\<rparr>,
            (if recordPort then of_nat firstAvail else lp), availMask)
         else (wc, lp, availMask))
      else (wc\<lparr>occUnits := occUnits wc OR portMask\<rparr>, lp, availMask))"

text \<open>The rebase loop of \<open>advancePos\<close>: it moves the entries below the horizon into \<open>nextWin\<close>.\<close>

fun moveUb :: "u64 \<Rightarrow> u32 \<Rightarrow> u64 \<Rightarrow> WinCycle list \<Rightarrow> (u64 \<times> WinCycle) list \<Rightarrow>
    (WinCycle list \<times> (u64 \<times> WinCycle) list) option" where
  "moveUb curCycle h horizon nw [] = Some (nw, [])"
| "moveUb curCycle h horizon nw ((first, second) # it) =
     (if first < horizon then do {
        let nextWinPos = (ucast (first - ucast h - curCycle) :: u32);
        _ \<leftarrow> require (nextWinPos < h);
        nw' \<leftarrow> aset nw (unat nextWinPos) second;
        moveUb curCycle h horizon nw' it
      }
      else Some (nw, (first, second) # it))"

definition advancePos :: "WindowStructure \<Rightarrow> u64 \<Rightarrow> (WindowStructure \<times> u64) option" where
  "advancePos w curCycle = do {
     c \<leftarrow> aget (curWin w) (unat (curPos w));
     cw \<leftarrow> aset (curWin w) (unat (curPos w)) (WinCycle_set 0 0);
     let w1 = w\<lparr>occupancy := occupancy w - ucast (wcount c), curWin := cw, curPos := curPos w + 1\<rparr>;
     let curCycle1 = curCycle + 1;
     if curPos w1 = H w1 then do {
       let nextWinHorizon = curCycle1 + ucast (2 * H w1);
       (nw, ub) \<leftarrow> moveUb curCycle1 (H w1) nextWinHorizon (curWin w1) (ubWin w1);
       Some (w1\<lparr>curWin := nextWin w1, nextWin := nw, ubWin := ub, curPos := 0\<rparr>, curCycle1)
     }
     else Some (w1, curCycle1)
   }"

text \<open>\<open>while (touchOccupancy && occupancy == WSZ) advancePos(curCycle);\<close>\<close>

partial_function (option) drainFull :: "WindowStructure \<Rightarrow> u64 \<Rightarrow> (WindowStructure \<times> u64) option" where
  "drainFull w curCycle =
     (if occupancy w = WSZ w
      then Option.bind (advancePos w curCycle) (\<lambda>(w', curCycle'). drainFull w' curCycle')
      else Some (w, curCycle))"

text \<open>
  \<open>while (pos < H) if (trySchedule(win[pos])) break; else pos++;\<close> returns the window, \<open>lastPort\<close>
  and the position where the loop stopped, which is \<open>H\<close> or more when no slot was found.
\<close>

function scanWin :: "bool \<Rightarrow> bool \<Rightarrow> u8 \<Rightarrow> u32 \<Rightarrow> u32 \<Rightarrow> WinCycle list \<Rightarrow> u8 \<Rightarrow>
    (WinCycle list \<times> u8 \<times> u32) option" where
  "scanWin touchOccupancy recordPort portMask h pos win lp =
     (if pos < h then
        (case aget win (unat pos) of
           None \<Rightarrow> None
         | Some wc \<Rightarrow>
             (case trySchedule touchOccupancy recordPort wc portMask lp of (wc', lp', avail) \<Rightarrow>
                (if avail \<noteq> 0 then Some (win[unat pos := wc'], lp', pos)
                 else scanWin touchOccupancy recordPort portMask h (pos + 1) (win[unat pos := wc']) lp')))
      else Some (win, lp, pos))"
  by pat_completeness auto
termination
proof (relation "measure (\<lambda>(_, _, _, h, pos, _, _). unat (h - pos))")
  show "wf (measure (\<lambda>(_, _, _, h, pos, _, _). unat (h - pos)))" by simp
next
  fix t r m and h pos :: u32 and win lp a x y xa ya
  assume "pos < h"
  then have "h - pos \<noteq> 0" by auto
  then have "unat (h - pos - 1) < unat (h - pos)" by (rule measure_unat)
  moreover have "h - (pos + 1) = h - pos - 1" by simp
  ultimately show "((t, r, m, h, pos + 1, win[unat pos := x], xa), t, r, m, h, pos, win, lp)
      \<in> measure (\<lambda>(_, _, _, h, pos, _, _). unat (h - pos))"
    by (simp only: in_measure case_prod_conv)
qed

declare scanWin.simps [simp del]

text \<open>
  The unbounded window: from \<open>lower_bound(schedCycle)\<close> on, the first key that is not in the map or
  still has a free port.
\<close>

fun scanUb :: "bool \<Rightarrow> bool \<Rightarrow> u8 \<Rightarrow> u64 \<Rightarrow> (u64 \<times> WinCycle) list \<Rightarrow> u8 \<Rightarrow>
    ((u64 \<times> WinCycle) list \<times> u8 \<times> u64) option" where
  "scanUb touchOccupancy recordPort portMask schedCycle [] lp =
     (case trySchedule touchOccupancy recordPort (WinCycle_set 0 0) portMask lp of (wc, lp', success) \<Rightarrow> do {
        _ \<leftarrow> require (success \<noteq> 0);
        Some ([(schedCycle, wc)], lp', schedCycle)
      })"
| "scanUb touchOccupancy recordPort portMask schedCycle ((first, second) # it) lp =
     (if first \<noteq> schedCycle then
        (case trySchedule touchOccupancy recordPort (WinCycle_set 0 0) portMask lp of (wc, lp', success) \<Rightarrow> do {
           _ \<leftarrow> require (success \<noteq> 0);
           Some ((schedCycle, wc) # (first, second) # it, lp', schedCycle)
         })
      else
        (case trySchedule touchOccupancy recordPort second portMask lp of (wc, lp', success) \<Rightarrow>
           (if success = 0 then do {
              (it', lp'', sc) \<leftarrow> scanUb touchOccupancy recordPort portMask (schedCycle + 1) it lp';
              Some ((first, wc) # it', lp'', sc)
            }
            else Some ((first, wc) # it, lp', schedCycle))))"

definition scheduleUb :: "bool \<Rightarrow> bool \<Rightarrow> u8 \<Rightarrow> u64 \<Rightarrow> (u64 \<times> WinCycle) list \<Rightarrow> u8 \<Rightarrow>
    ((u64 \<times> WinCycle) list \<times> u8 \<times> u64) option" where
  "scheduleUb touchOccupancy recordPort portMask schedCycle ub lp = do {
     let before = takeWhile (\<lambda>e. fst e < schedCycle) ub;
     let it = dropWhile (\<lambda>e. fst e < schedCycle) ub;
     (it', lp', sc) \<leftarrow> scanUb touchOccupancy recordPort portMask schedCycle it lp;
     Some (before @ it', lp', sc)
   }"

definition scheduleInternal :: "bool \<Rightarrow> bool \<Rightarrow> WindowStructure \<Rightarrow> u64 \<Rightarrow> u64 \<Rightarrow> u8 \<Rightarrow>
    (WindowStructure \<times> u64 \<times> u64) option" where
  "scheduleInternal touchOccupancy recordPort w0 curCycle0 schedCycle portMask = do {
     (w, curCycle) \<leftarrow> (if touchOccupancy then drainFull w0 curCycle0 else Some (w0, curCycle0));
     let delay = (if schedCycle > curCycle then (ucast (schedCycle - curCycle) :: u32) else 0);
     (cw, lp, curWinPos) \<leftarrow>
        scanWin touchOccupancy recordPort portMask (H w) (curPos w + delay) (curWin w) (lastPort w);
     let w1 = w\<lparr>curWin := cw, lastPort := lp\<rparr>;
     (w2, sc) \<leftarrow>
       (if curWinPos \<ge> H w then do {
          (nw, lp', nextWinPos) \<leftarrow>
             scanWin touchOccupancy recordPort portMask (H w) (curWinPos - H w) (nextWin w1) (lastPort w1);
          let w1' = w1\<lparr>nextWin := nw, lastPort := lp'\<rparr>;
          let sc1 = curCycle + ucast (nextWinPos + H w - curPos w);
          (if nextWinPos \<ge> H w then do {
             (ub, lp'', sc2) \<leftarrow>
                scheduleUb touchOccupancy recordPort portMask sc1 (ubWin w1') (lastPort w1');
             Some (w1'\<lparr>ubWin := ub, lastPort := lp''\<rparr>, sc2)
           }
           else Some (w1', sc1))
        }
        else Some (w1, curCycle + ucast (curWinPos - curPos w)));
     Some ((if touchOccupancy then w2\<lparr>occupancy := occupancy w2 + 1\<rparr> else w2), curCycle, sc)
   }"

text \<open>The loop over the extra slots of a micro-operation.\<close>

fun extraSlotLoop :: "nat \<Rightarrow> WindowStructure \<Rightarrow> u64 \<Rightarrow> u64 \<Rightarrow> u8 \<Rightarrow> (WindowStructure \<times> u64) option" where
  "extraSlotLoop 0 w curCycle extraSlotCycle extraSlotPortMask = Some (w, curCycle)"
| "extraSlotLoop (Suc n) w curCycle extraSlotCycle extraSlotPortMask = do {
     (w', curCycle', extraSlotCycle') \<leftarrow>
        scheduleInternal False False w curCycle extraSlotCycle extraSlotPortMask;
     extraSlotLoop n w' curCycle' (extraSlotCycle' + 1) extraSlotPortMask
   }"

definition schedule :: "WindowStructure \<Rightarrow> u64 \<Rightarrow> u64 \<Rightarrow> u8 \<Rightarrow> u32 \<Rightarrow>
    (WindowStructure \<times> u64 \<times> u64) option" where
  "schedule w curCycle schedCycle portMask extraSlots = do {
     (w', cc, sc) \<leftarrow>
       (if extraSlots = 0 then scheduleInternal True False w curCycle schedCycle portMask
        else do {
          (w1, cc1, sc1) \<leftarrow> scheduleInternal True True w curCycle schedCycle portMask;
          (w2, cc2) \<leftarrow> extraSlotLoop (unat extraSlots) w1 cc1 (sc1 + 1) (push_bit (unat (lastPort w1)) 1);
          Some (w2, cc2, sc1)
        });
     _ \<leftarrow> require (occupancy w' \<le> WSZ w');
     Some (w', cc, sc)
   }"

partial_function (option) drainTo :: "WindowStructure \<Rightarrow> u64 \<Rightarrow> u64 \<Rightarrow> (WindowStructure \<times> u64) option" where
  "drainTo w curCycle targetCycle =
     (if occupancy w \<noteq> 0 \<and> curCycle < targetCycle
      then Option.bind (advancePos w curCycle) (\<lambda>(w', curCycle'). drainTo w' curCycle' targetCycle)
      else Some (w, curCycle))"

definition longAdvance :: "WindowStructure \<Rightarrow> u64 \<Rightarrow> u64 \<Rightarrow> (WindowStructure \<times> u64) option" where
  "longAdvance w curCycle targetCycle = do {
     _ \<leftarrow> require (curCycle \<le> targetCycle);
     (w', curCycle') \<leftarrow> drainTo w curCycle targetCycle;
     if occupancy w' \<noteq> 0 then do {
       _ \<leftarrow> require (curCycle' = targetCycle);
       Some (w', curCycle')
     }
     else do {
       _ \<leftarrow> require (curCycle' \<le> targetCycle);
       Some (w', targetCycle)
     }
   }"

partial_function (option) poisonLoop :: "WindowStructure \<Rightarrow> u64 \<Rightarrow> u64 \<Rightarrow> u64 \<Rightarrow> u8 \<Rightarrow>
    (WindowStructure \<times> u64) option" where
  "poisonLoop w curCycle poisonCycle targetCycle portMask =
     (if poisonCycle < targetCycle
      then Option.bind (scheduleInternal False False w curCycle poisonCycle portMask)
             (\<lambda>(w', curCycle', poisonCycle'). poisonLoop w' curCycle' poisonCycle' targetCycle portMask)
      else Some (w, curCycle))"

definition poisonRange :: "WindowStructure \<Rightarrow> u64 \<Rightarrow> u64 \<Rightarrow> u8 \<Rightarrow> WindowStructure option" where
  "poisonRange w curCycle targetCycle portMask = do {
     (w', curCycle') \<leftarrow> poisonLoop w curCycle curCycle targetCycle portMask;
     _ \<leftarrow> require (curCycle = curCycle');
     Some w'
   }"

declare drainFull.simps [code] drainTo.simps [code] poisonLoop.simps [code]

section \<open>ReorderBuffer\<close>

record ReorderBuffer =
  rbuf :: "u64 list"
  curRetireCycle :: u64
  curCycleRetires :: u32
  ridx :: u32
  rSZ :: u32
  rW :: u32

definition ReorderBuffer_new :: "u32 \<Rightarrow> u32 \<Rightarrow> ReorderBuffer" where
  "ReorderBuffer_new sz w =
     \<lparr>rbuf = replicate (unat sz) 0, curRetireCycle = 0, curCycleRetires = 1, ridx = 0, rSZ = sz, rW = w\<rparr>"

definition rob_minAllocCycle :: "ReorderBuffer \<Rightarrow> u64 option" where
  "rob_minAllocCycle r = aget (rbuf r) (unat (ridx r))"

text \<open>The bundle logic of \<open>markRetire\<close>, before the entry is written.\<close>

definition retireCycle :: "ReorderBuffer \<Rightarrow> u64 \<Rightarrow> ReorderBuffer" where
  "retireCycle r minRetireCycle =
     (if minRetireCycle \<le> curRetireCycle r then
        (if curCycleRetires r = rW r
         then r\<lparr>curRetireCycle := curRetireCycle r + 1, curCycleRetires := 0\<rparr>
         else r\<lparr>curCycleRetires := curCycleRetires r + 1\<rparr>)
      else r\<lparr>curRetireCycle := minRetireCycle, curCycleRetires := 1\<rparr>)"

definition markRetire :: "ReorderBuffer \<Rightarrow> u64 \<Rightarrow> ReorderBuffer option" where
  "markRetire r minRetireCycle = do {
     let r1 = retireCycle r minRetireCycle;
     b \<leftarrow> aset (rbuf r1) (unat (ridx r1)) (curRetireCycle r1);
     let i = ridx r1 + 1;
     Some (r1\<lparr>rbuf := b, ridx := (if i = rSZ r1 then 0 else i)\<rparr>)
   }"

section \<open>CycleQueue\<close>

record CycleQueue =
  qbuf :: "u64 list"
  qidx :: u32
  qSZ :: u32

definition CycleQueue_new :: "u32 \<Rightarrow> CycleQueue" where
  "CycleQueue_new sz = \<lparr>qbuf = replicate (unat sz) 0, qidx = 0, qSZ = sz\<rparr>"

definition queue_minAllocCycle :: "CycleQueue \<Rightarrow> u64 option" where
  "queue_minAllocCycle q = aget (qbuf q) (unat (qidx q))"

definition markLeave :: "CycleQueue \<Rightarrow> u64 \<Rightarrow> CycleQueue option" where
  "markLeave q leaveCycle = do {
     b \<leftarrow> aset (qbuf q) (unat (qidx q)) leaveCycle;
     let i = qidx q + 1;
     Some (q\<lparr>qbuf := b, qidx := (if i = qSZ q then 0 else i)\<rparr>)
   }"

section \<open>OOOParams\<close>

record OOOParams =
  width :: u32
  prf_ports :: u32
  load_queue_cap :: u32
  store_queue_cap :: u32
  rob_cap :: u32
  ins_win_cap :: u32
  issue_queue_cap :: u32
  PAg_bhr_log_cap :: u32
  PAg_bhr_bits :: u32
  PAg_pht_log_cap :: u32
  tage_num_tables :: u32
  tage_index_size :: u32
  fetch_bytes_per_cycle :: u32

section \<open>The retire queues are rings\<close>

text \<open>
  The interface the core models use of \<open>ReorderBuffer\<close> and \<open>CycleQueue\<close>: a ring of a fixed number
  of cycles.  \<open>ring s\<close> lists them, the oldest first; \<open>minAlloc\<close> reads the oldest, and \<open>mark\<close> drops
  it and appends \<open>recorded s c\<close>, the cycle that is really written.
\<close>

locale cycle_ring =
  fixes minAlloc :: "'s \<Rightarrow> u64 option"
    and mark :: "'s \<Rightarrow> u64 \<Rightarrow> 's option"
    and recorded :: "'s \<Rightarrow> u64 \<Rightarrow> u64"
    and ring :: "'s \<Rightarrow> u64 list"
    and inv :: "'s \<Rightarrow> bool"
  assumes ring_nonempty: "inv s \<Longrightarrow> ring s \<noteq> []"
    and minAlloc_ring: "inv s \<Longrightarrow> minAlloc s = Some (hd (ring s))"
    and mark_ring: "inv s \<Longrightarrow> \<exists>s'. mark s c = Some s' \<and> inv s' \<and> ring s' = tl (ring s) @ [recorded s c]"
begin

lemma mark_length: "inv s \<Longrightarrow> mark s c = Some s' \<Longrightarrow> length (ring s') = length (ring s)"
  using mark_ring [of s c] ring_nonempty [of s] by (auto simp: neq_Nil_conv)

lemma run_marks:
  assumes "inv s"
  shows "\<exists>s' vs. run_all mark s cs = Some s' \<and> inv s' \<and> length vs = length cs
            \<and> ring s' = drop (length cs) (ring s @ vs)"
  using assms
proof (induction cs arbitrary: s)
  case Nil
  then show ?case by (intro exI [of _ s]) auto
next
  case (Cons c cs)
  from mark_ring [OF Cons.prems] obtain s1 where
    s1: "mark s c = Some s1" "inv s1" "ring s1 = tl (ring s) @ [recorded s c]" by blast
  from Cons.IH [OF s1(2)] obtain s' vs where
    s': "run_all mark s1 cs = Some s'" "inv s'" "length vs = length cs"
      "ring s' = drop (length cs) (ring s1 @ vs)" by blast
  have "ring s' = drop (length (c # cs)) (ring s @ recorded s c # vs)"
    using s'(4) s1(3) ring_nonempty [OF Cons.prems] by (cases "ring s") simp_all
  with s1 s' show ?case by (intro exI [of _ s'] exI [of _ "recorded s c # vs"]) simp
qed

lemma run_never_fails: "inv s \<Longrightarrow> \<exists>s'. run_all mark s cs = Some s' \<and> inv s'"
  using run_marks by blast

text \<open>When every mark records its argument, the ring is a window over the argument list.\<close>

lemma run_window:
  assumes "inv s" and "\<And>s c. recorded s c = c"
  shows "\<exists>s'. run_all mark s cs = Some s' \<and> inv s' \<and> ring s' = drop (length cs) (ring s @ cs)"
  using assms(1)
proof (induction cs arbitrary: s)
  case Nil
  then show ?case by simp
next
  case (Cons c cs)
  from mark_ring [OF Cons.prems, of c] obtain s1 where
    s1: "mark s c = Some s1" "inv s1" "ring s1 = tl (ring s) @ [c]" using assms(2) by auto
  from Cons.IH [OF s1(2)] s1 ring_nonempty [OF Cons.prems] show ?case
    by (cases "ring s") auto
qed

end

text \<open>Both classes store the ring in an array with a wrapping index.\<close>

definition ring_of :: "u64 list \<Rightarrow> u32 \<Rightarrow> u64 list" where
  "ring_of b i = drop (unat i) b @ take (unat i) b"

definition ring_inv :: "u64 list \<Rightarrow> u32 \<Rightarrow> u32 \<Rightarrow> bool" where
  "ring_inv b i sz = (length b = unat sz \<and> i < sz)"

lemma ring_of_step:
  assumes "ring_inv b i sz"
  shows "ring_inv (b[unat i := v]) (if i + 1 = sz then 0 else i + 1) sz
     \<and> ring_of (b[unat i := v]) (if i + 1 = sz then 0 else i + 1) = tl (ring_of b i) @ [v]"
proof -
  from assms have i: "unat i < length b" and len: "length b = unat sz" and lt: "i < sz"
    by (auto simp: ring_inv_def word_less_nat_alt)
  have "unat i + 1 < 4294967296" using i len unat_u32_lt [of sz] by linarith
  then have suc: "unat (i + 1) = unat i + 1" by (subst unat_add_no_wrap) simp_all
  show ?thesis
  proof (cases "i + 1 = sz")
    case True
    with suc len have "length b = Suc (unat i)" by simp
    then show ?thesis using True i len lt
      by (auto simp: ring_of_def ring_inv_def word_gt_0 take_Suc_conv_app_nth upd_conv_take_nth_drop
          drop_Suc tl_drop)
  next
    case False
    then have "unat (i + 1) \<noteq> unat sz" by (metis word_unat_eq_iff)
    with suc i len have "unat i + 1 < length b" by simp
    then have "i + 1 < sz" using suc len by (simp add: word_less_nat_alt)
    moreover have "drop (unat i + 1) (b[unat i := v]) = tl (drop (unat i) b)"
      by (subst drop_update_cancel) (simp_all add: drop_Suc tl_drop)
    moreover have "take (unat i + 1) (b[unat i := v]) = take (unat i) b @ [v]"
      using i by (simp add: take_Suc_conv_app_nth)
    ultimately show ?thesis using False suc i len
      by (simp add: ring_of_def ring_inv_def)
  qed
qed

lemma ring_of_hd: "ring_inv b i sz \<Longrightarrow> ring_of b i \<noteq> [] \<and> hd (ring_of b i) = b ! unat i"
  by (auto simp: ring_inv_def ring_of_def word_less_nat_alt hd_drop_conv_nth)

definition rob_inv :: "ReorderBuffer \<Rightarrow> bool" where
  "rob_inv r = ring_inv (rbuf r) (ridx r) (rSZ r)"

definition queue_inv :: "CycleQueue \<Rightarrow> bool" where
  "queue_inv q = ring_inv (qbuf q) (qidx q) (qSZ q)"

lemma retireCycle_ring [simp]:
  "rbuf (retireCycle r c) = rbuf r" "ridx (retireCycle r c) = ridx r"
  "rSZ (retireCycle r c) = rSZ r" "rW (retireCycle r c) = rW r"
  by (simp_all add: retireCycle_def)

lemma markRetire_eq:
  assumes "rob_inv r"
  shows "\<exists>r'. markRetire r c = Some r' \<and> rob_inv r'
           \<and> ring_of (rbuf r') (ridx r') = tl (ring_of (rbuf r) (ridx r)) @ [curRetireCycle (retireCycle r c)]
           \<and> curRetireCycle r' = curRetireCycle (retireCycle r c)
           \<and> curCycleRetires r' = curCycleRetires (retireCycle r c) \<and> rW r' = rW r"
  using ring_of_step [of "rbuf r" "ridx r" "rSZ r" "curRetireCycle (retireCycle r c)"] assms
  by (auto simp: markRetire_def Let_def rob_inv_def ring_inv_def word_less_nat_alt)

interpretation rob: cycle_ring rob_minAllocCycle markRetire
  "\<lambda>r c. curRetireCycle (retireCycle r c)" "\<lambda>r. ring_of (rbuf r) (ridx r)" rob_inv
proof unfold_locales
  fix r :: ReorderBuffer and c
  assume inv: "rob_inv r"
  show "ring_of (rbuf r) (ridx r) \<noteq> []"
    and "rob_minAllocCycle r = Some (hd (ring_of (rbuf r) (ridx r)))"
    using inv ring_of_hd by (auto simp: rob_inv_def rob_minAllocCycle_def ring_inv_def word_less_nat_alt)
  show "\<exists>r'. markRetire r c = Some r' \<and> rob_inv r'
      \<and> ring_of (rbuf r') (ridx r') = tl (ring_of (rbuf r) (ridx r)) @ [curRetireCycle (retireCycle r c)]"
    using markRetire_eq [OF inv] by blast
qed

interpretation cq: cycle_ring queue_minAllocCycle markLeave
  "\<lambda>q c. c" "\<lambda>q. ring_of (qbuf q) (qidx q)" queue_inv
proof unfold_locales
  fix q :: CycleQueue and c
  assume inv: "queue_inv q"
  show "ring_of (qbuf q) (qidx q) \<noteq> []"
    and "queue_minAllocCycle q = Some (hd (ring_of (qbuf q) (qidx q)))"
    using inv ring_of_hd by (auto simp: queue_inv_def queue_minAllocCycle_def ring_inv_def word_less_nat_alt)
  show "\<exists>q'. markLeave q c = Some q' \<and> queue_inv q'
      \<and> ring_of (qbuf q') (qidx q') = tl (ring_of (qbuf q) (qidx q)) @ [c]"
    using ring_of_step [of "qbuf q" "qidx q" "qSZ q" c] inv
    by (auto simp: markLeave_def Let_def queue_inv_def ring_inv_def word_less_nat_alt)
qed

lemma queue_inv_new: "0 < sz \<Longrightarrow> queue_inv (CycleQueue_new sz)"
  by (simp add: queue_inv_def CycleQueue_new_def ring_inv_def)

lemma rob_inv_new: "0 < sz \<Longrightarrow> rob_inv (ReorderBuffer_new sz w)"
  by (simp add: rob_inv_def ReorderBuffer_new_def ring_inv_def)

text \<open>The cycles a sequence of \<open>markRetire\<close> calls writes into the buffer.\<close>

fun retire_trace :: "ReorderBuffer \<Rightarrow> u64 list \<Rightarrow> u64 list option" where
  "retire_trace r [] = Some []"
| "retire_trace r (c # cs) = do {
     r' \<leftarrow> markRetire r c;
     t \<leftarrow> retire_trace r' cs;
     Some (curRetireCycle r' # t)
   }"

lemma retireCycle_cases:
  assumes "curCycleRetires r \<le> rW r" "0 < rW r" "unat (curRetireCycle r) + 1 < 2 ^ 64"
  obtains
    (full) "curCycleRetires r = rW r" "c \<le> curRetireCycle r"
      "unat (curRetireCycle (retireCycle r c)) = unat (curRetireCycle r) + 1"
      "unat (curCycleRetires (retireCycle r c)) = 0"
  | (fill) "curCycleRetires r < rW r" "c \<le> curRetireCycle r"
      "curRetireCycle (retireCycle r c) = curRetireCycle r"
      "unat (curCycleRetires (retireCycle r c)) = unat (curCycleRetires r) + 1"
  | (adv) "curRetireCycle r < c" "curRetireCycle (retireCycle r c) = c"
      "unat (curCycleRetires (retireCycle r c)) = 1"
proof -
  consider "c \<le> curRetireCycle r" "curCycleRetires r = rW r"
    | "c \<le> curRetireCycle r" "curCycleRetires r < rW r" | "curRetireCycle r < c"
    using assms(1) by fastforce
  then show thesis
  proof cases
    case 1
    with assms(3) full show thesis by (simp add: retireCycle_def unat_add_no_wrap)
  next
    case 2
    then have "unat (curCycleRetires r) + 1 < 4294967296"
      using unat_u32_lt [of "rW r"] by (simp only: word_less_nat_alt)
    with 2 fill show thesis by (simp add: retireCycle_def unat_add_no_wrap)
  next
    case 3
    then have "\<not> c \<le> curRetireCycle r" by simp
    with 3 adv show thesis by (simp add: retireCycle_def)
  qed
qed

text \<open>
  How often a cycle can still appear in the trace of a buffer: the bundle being filled has
  \<open>W - curCycleRetires\<close> slots left, and every later cycle takes up to \<open>W + 1\<close> entries.
\<close>

definition bundle_budget :: "ReorderBuffer \<Rightarrow> u64 \<Rightarrow> nat" where
  "bundle_budget r k =
     (if k = curRetireCycle r then unat (rW r) - unat (curCycleRetires r)
      else if curRetireCycle r < k then unat (rW r) + 1 else 0)"

lemma bundle_budget_nat:
  "bundle_budget r k =
     (if unat k = unat (curRetireCycle r) then unat (rW r) - unat (curCycleRetires r)
      else if unat (curRetireCycle r) < unat k then unat (rW r) + 1 else 0)"
  by (simp add: bundle_budget_def word_less_nat_alt word_unat_eq_iff)

lemma retire_budget_step:
  assumes "curCycleRetires r \<le> rW r" "0 < rW r" "unat (curRetireCycle r) + 1 < 2 ^ 64"
    and cur: "curRetireCycle r' = curRetireCycle (retireCycle r c)"
    and ret: "curCycleRetires r' = curCycleRetires (retireCycle r c)" and w: "rW r' = rW r"
  shows "unat (curCycleRetires r') \<le> unat (rW r') \<and>
     bundle_budget r' k + (if unat k = unat (curRetireCycle r') then 1 else 0) \<le> bundle_budget r k"
proof -
  have wpos: "0 < unat (rW r)" using assms(2) by (simp add: unat_gt_0)
  have le: "unat (curCycleRetires r) \<le> unat (rW r)" using assms(1) by (simp add: word_le_nat_alt)
  from assms(1-3) show ?thesis
  proof (cases rule: retireCycle_cases [of r c])
    case full
    then have "unat (curCycleRetires r) = unat (rW r)" by simp
    with full(3,4) wpos show ?thesis unfolding bundle_budget_nat cur ret w by simp
  next
    case fill
    then have "unat (curCycleRetires r) < unat (rW r)" by (simp add: word_less_nat_alt)
    with fill(3,4) wpos show ?thesis unfolding bundle_budget_nat cur ret w by simp arith
  next
    case adv
    then have "unat (curRetireCycle r) < unat c" by (simp add: word_less_nat_alt)
    with adv(2,3) wpos le show ?thesis unfolding bundle_budget_nat cur ret w by simp
  qed
qed

lemma retire_trace_count:
  assumes "rob_inv r" "curCycleRetires r \<le> rW r" "0 < rW r"
    and "unat (curRetireCycle r) + length cs < 2 ^ 64"
    and "\<forall>c \<in> set cs. unat c + length cs < 2 ^ 64"
  shows "\<exists>t. retire_trace r cs = Some t \<and> count_list t k \<le> bundle_budget r k"
  using assms
proof (induction cs arbitrary: r)
  case Nil
  then show ?case by simp
next
  case (Cons c cs)
  obtain r' where r': "markRetire r c = Some r'" "rob_inv r'" "rW r' = rW r"
    "curRetireCycle r' = curRetireCycle (retireCycle r c)"
    "curCycleRetires r' = curCycleRetires (retireCycle r c)"
    using markRetire_eq [OF Cons.prems(1)] by blast
  have nowrap: "unat (curRetireCycle r) + 1 < 2 ^ 64" using Cons.prems(4) by simp
  have step: "curCycleRetires r' \<le> rW r'"
    "bundle_budget r' k + (if k = curRetireCycle r' then 1 else 0) \<le> bundle_budget r k"
    using retire_budget_step [OF Cons.prems(2,3) nowrap r'(4,5,3), of k]
    by (auto simp: word_le_nat_alt)
  have "unat (curRetireCycle r') \<le> max (unat (curRetireCycle r) + 1) (unat c)"
    using Cons.prems(2,3) nowrap r'(4) by (cases rule: retireCycle_cases [of r c]) auto
  then have "unat (curRetireCycle r') + length cs < 2 ^ 64" using Cons.prems(4,5) by auto
  then obtain t where "retire_trace r' cs = Some t" "count_list t k \<le> bundle_budget r' k"
    using Cons.IH [of r'] r'(2,3) step(1) Cons.prems(3,5) by fastforce
  then show ?case using r'(1) step(2) by auto
qed

section \<open>Properties of the retire queues\<close>

lemma hd_window:
  "0 < n \<Longrightarrow> hd (drop (length cs) (replicate n (0 :: u64) @ cs)) = (if length cs < n then 0 else cs ! (length cs - n))"
  by (auto simp: hd_drop_conv_nth nth_append)

lemma ring_queue_new [simp]: "ring_of (qbuf (CycleQueue_new sz)) (qidx (CycleQueue_new sz)) = replicate (unat sz) 0"
  by (simp add: ring_of_def CycleQueue_new_def)

text \<open>
  A \<open>CycleQueue\<close> of \<open>SZ\<close> entries (load and store queues) frees an entry \<open>SZ\<close> allocations
  after it was taken: after any sequence of \<open>markLeave\<close> calls none of which fails,
  \<open>minAllocCycle\<close> is the leave cycle of the operation \<open>SZ\<close> calls ago, and 0 while the queue has
  not been filled once.
\<close>

theorem queue_frees_oldest:
  assumes "0 < sz"
  shows "Option.bind (run_all markLeave (CycleQueue_new sz) cs) queue_minAllocCycle
       = Some (if length cs < unat sz then 0 else cs ! (length cs - unat sz))"
proof -
  have inv: "queue_inv (CycleQueue_new sz)" using assms by (rule queue_inv_new)
  from cq.run_window [OF inv] obtain q where
    q: "run_all markLeave (CycleQueue_new sz) cs = Some q" "queue_inv q"
      "ring_of (qbuf q) (qidx q) = drop (length cs) (replicate (unat sz) 0 @ cs)"
    by auto
  have "0 < unat sz" using assms by (simp add: unat_gt_0)
  then have "hd (ring_of (qbuf q) (qidx q)) = (if length cs < unat sz then 0 else cs ! (length cs - unat sz))"
    unfolding q(3) by (rule hd_window)
  with cq.minAlloc_ring [OF q(2)] q(1) show ?thesis by simp
qed

theorem queue_frees_oldest_witness:
  "Option.bind (run_all markLeave (CycleQueue_new 2) [7, 9, 4]) queue_minAllocCycle = Some 9"
  using queue_frees_oldest [of 2 "[7, 9, 4]"] by simp

text \<open>
  Claim C6. Retirement width. However \<open>markRetire\<close> is driven, no call fails and no cycle is
  given to more than \<open>W + 1\<close> micro-operations (as long as the cycle numbers stay below \<open>2^64\<close>).
\<close>

theorem rob_retire_width:
  assumes "0 < sz" "0 < w" "\<forall>c \<in> set cs. unat c + length cs < 2 ^ 64"
  shows "\<exists>t. retire_trace (ReorderBuffer_new sz w) cs = Some t \<and> count_list t k \<le> unat w + 1"
proof -
  let ?r = "ReorderBuffer_new sz w"
  have inv: "rob_inv ?r" using assms(1) by (rule rob_inv_new)
  have ret: "curCycleRetires ?r \<le> rW ?r" "0 < rW ?r"
    using assms(2) by (simp_all add: ReorderBuffer_new_def word_le_nat_alt unat_gt_0 Suc_le_eq)
  have len: "unat (curRetireCycle ?r) + length cs < 2 ^ 64"
    using assms(3) by (cases cs) (auto simp: ReorderBuffer_new_def)
  have "bundle_budget ?r k \<le> unat w + 1"
    by (auto simp: bundle_budget_def ReorderBuffer_new_def)
  with retire_trace_count [OF inv ret len assms(3), of k] show ?thesis by fastforce
qed

theorem rob_retire_width_witness:
  "\<exists>t. retire_trace (ReorderBuffer_new 4 1) [5, 5, 5] = Some t \<and> count_list t 6 \<le> 2"
proof -
  have "\<exists>t. retire_trace (ReorderBuffer_new 4 1) [5, 5, 5] = Some t \<and> count_list t 6 \<le> unat (1 :: u32) + 1"
    by (rule rob_retire_width) simp_all
  moreover have "unat (1 :: u32) + 1 = 2" by simp
  ultimately show ?thesis by metis
qed

text \<open>
  The bound \<open>W + 1\<close> is met: the first bundle after a full one has \<open>curCycleRetires\<close>
  reset to 0 and not to 1, so a buffer of retire width 1 that receives three micro-operations
  ready at cycle 5 retires two of them in cycle 6, one more than its width.
\<close>

theorem rob_exceeds_width:
  "\<exists>t. retire_trace (ReorderBuffer_new 4 1) [5, 5, 5] = Some t
     \<and> unat (rW (ReorderBuffer_new 4 1)) < count_list t 6"
  by (simp add: ReorderBuffer_new_def markRetire_def retireCycle_def)

section \<open>The window as a schedule of cycles\<close>

text \<open>
  What the three structures of a window mean: \<open>slot w cur n\<close> is the state of the issue ports in the
  future cycle \<open>n\<close>, when the current cycle is \<open>cur\<close>.
\<close>

definition avail :: "WinCycle \<Rightarrow> u8 \<Rightarrow> u8" where
  "avail wc portMask = NOT (occUnits wc) AND portMask"

definition booked :: "bool \<Rightarrow> WinCycle \<Rightarrow> u8 \<Rightarrow> WinCycle" where
  "booked touchOccupancy wc portMask =
     (if touchOccupancy
      then wc\<lparr>occUnits := occUnits wc OR push_bit (ffs (avail wc portMask) - 1) 1, wcount := wcount wc + 1\<rparr>
      else wc\<lparr>occUnits := occUnits wc OR portMask\<rparr>)"

definition slot_port :: "bool \<Rightarrow> WinCycle \<Rightarrow> u8 \<Rightarrow> u8 \<Rightarrow> u8" where
  "slot_port recordPort wc portMask lp = (if recordPort then of_nat (ffs (avail wc portMask) - 1) else lp)"

definition free_cycle :: WinCycle where
  "free_cycle = WinCycle_set 0 0"

definition ub_slot :: "(u64 \<times> WinCycle) list \<Rightarrow> u64 \<Rightarrow> WinCycle" where
  "ub_slot ub k = (case map_of ub k of None \<Rightarrow> free_cycle | Some c \<Rightarrow> c)"

definition slot :: "WindowStructure \<Rightarrow> u64 \<Rightarrow> u64 \<Rightarrow> WinCycle" where
  "slot w cur n =
     (let p = unat (curPos w) + (unat n - unat cur) in
      if p < unat (H w) then curWin w ! p
      else if p < 2 * unat (H w) then nextWin w ! (p - unat (H w))
      else ub_slot (ubWin w) n)"

definition cycles_count :: "WinCycle list \<Rightarrow> nat" where
  "cycles_count xs = sum_list (map (unat \<circ> wcount) xs)"

definition wc_ok :: "WinCycle \<Rightarrow> bool" where
  "wc_ok c = (unat (wcount c) \<le> card {i. bit (occUnits c) i})"

definition win_inv :: "WindowStructure \<Rightarrow> u64 \<Rightarrow> bool" where
  "win_inv w cur =
     (length (curWin w) = unat (H w) \<and> length (nextWin w) = unat (H w) \<and> curPos w < H w
      \<and> 4 * unat (H w) < 2 ^ 32
      \<and> sorted_wrt (\<lambda>a b. unat (fst a) < unat (fst b)) (ubWin w)
      \<and> list_all (\<lambda>e. unat cur + 2 * unat (H w) \<le> unat (fst e) + unat (curPos w)) (ubWin w)
      \<and> list_all (\<lambda>c. c = free_cycle) (take (unat (curPos w)) (curWin w))
      \<and> list_all wc_ok (curWin w) \<and> list_all wc_ok (nextWin w) \<and> list_all wc_ok (map snd (ubWin w))
      \<and> unat (occupancy w) = cycles_count (curWin w) + cycles_count (nextWin w)
           + cycles_count (map snd (ubWin w)))"

lemma avail_zero_OR: "avail wc m = 0 \<Longrightarrow> occUnits wc OR m = occUnits wc"
  by (auto simp: avail_def bit_eq_iff bit_simps)

lemma wcount_free [simp]: "wcount free_cycle = 0"
  by (simp add: free_cycle_def WinCycle_set_def)

lemma wc_ok_free [simp]: "wc_ok free_cycle"
  by (simp add: wc_ok_def)

lemma trySchedule_avail:
  "avail wc m \<noteq> 0 \<Longrightarrow> trySchedule t r wc m lp = (booked t wc m, (if t then slot_port r wc m lp else lp), avail wc m)"
  by (simp add: trySchedule_def booked_def slot_port_def avail_def Let_def)

lemma trySchedule_full: "avail wc m = 0 \<Longrightarrow> trySchedule t r wc m lp = (wc, lp, 0)"
  using avail_zero_OR [of wc m] by (simp add: trySchedule_def avail_def Let_def)

lemma avail_free [simp]: "avail free_cycle m = m"
  by (simp add: avail_def free_cycle_def WinCycle_set_def)

lemma unat_suc_u32: "pos < (h :: u32) \<Longrightarrow> unat (pos + 1) = unat pos + 1"
  using unat_u32_lt [of h] by (subst unat_add_no_wrap) (auto simp: word_less_nat_alt simp del: unat_u32_lt)

text \<open>The scans over the two bounded windows find the first cycle with a free port.\<close>

lemma scanWin_first_fit:
  assumes "length win = unat h"
  obtains
    (none) pos' where "scanWin t r m h pos win lp = Some (win, lp, pos')"
      "unat pos' = max (unat pos) (unat h)"
      "\<forall>p. unat pos \<le> p \<and> p < unat h \<longrightarrow> avail (win ! p) m = 0"
  | (some) pos' where
      "scanWin t r m h pos win lp = Some (win[unat pos' := booked t (win ! unat pos') m],
         (if t then slot_port r (win ! unat pos') m lp else lp), pos')"
      "unat pos \<le> unat pos'" "unat pos' < unat h" "avail (win ! unat pos') m \<noteq> 0"
      "\<forall>p. unat pos \<le> p \<and> p < unat pos' \<longrightarrow> avail (win ! p) m = 0"
  using assms
proof (induction "unat h - unat pos" arbitrary: pos thesis rule: less_induct)
  case (less pos)
  show ?case
  proof (cases "pos < h")
    case False
    show ?thesis
      by (rule less(2) [of pos]) (use False in \<open>auto simp: scanWin.simps word_less_nat_alt\<close>)
  next
    case True
    then have lt: "unat pos < length win" using less(4) by (simp add: word_less_nat_alt)
    show ?thesis
    proof (cases "avail (win ! unat pos) m = 0")
      case False
      show ?thesis
        by (rule less(3) [of pos])
          (use True lt less(4) False in \<open>auto simp: scanWin.simps [of t r m h pos win lp] trySchedule_avail\<close>)
    next
      case busy: True
      have here: "scanWin t r m h pos win lp = scanWin t r m h (pos + 1) win lp"
        using True lt busy by (simp add: scanWin.simps [of t r m h pos win lp] trySchedule_full)
      have suc: "unat (pos + 1) = unat pos + 1" using True by (rule unat_suc_u32)
      have split: "unat pos \<le> p \<longleftrightarrow> p = unat pos \<or> unat (pos + 1) \<le> p" for p using suc by auto
      show ?thesis
      proof (rule less(1) [of "pos + 1"])
        show "unat h - unat (pos + 1) < unat h - unat pos" using suc lt less(4) by simp
        show "length win = unat h" by (fact less(4))
      next
        fix pos' assume *: "scanWin t r m h (pos + 1) win lp = Some (win, lp, pos')"
          "unat pos' = max (unat (pos + 1)) (unat h)"
          "\<forall>p. unat (pos + 1) \<le> p \<and> p < unat h \<longrightarrow> avail (win ! p) m = 0"
        show thesis
          by (rule less(2) [of pos']) (use * here busy True suc split in \<open>auto simp: word_less_nat_alt\<close>)
      next
        fix pos' assume *: "scanWin t r m h (pos + 1) win lp
              = Some (win[unat pos' := booked t (win ! unat pos') m],
                  (if t then slot_port r (win ! unat pos') m lp else lp), pos')"
          "unat (pos + 1) \<le> unat pos'" "unat pos' < unat h" "avail (win ! unat pos') m \<noteq> 0"
          "\<forall>p. unat (pos + 1) \<le> p \<and> p < unat pos' \<longrightarrow> avail (win ! p) m = 0"
        show thesis
          by (rule less(3) [of pos']) (use * here busy suc split in auto)
      qed
    qed
  qed
qed

lemma ub_slot_Nil [simp]: "ub_slot [] k = free_cycle"
  by (simp add: ub_slot_def)

lemma ub_slot_Cons: "ub_slot ((k, c) # ub) n = (if k = n then c else ub_slot ub n)"
  by (simp add: ub_slot_def)

lemma ub_slot_below:
  assumes "list_all (\<lambda>e. unat n < unat (fst e)) ub"
  shows "ub_slot ub n = free_cycle"
  using assms by (induction ub) (auto simp: ub_slot_Cons)

lemma unat_suc_u64: "unat (k :: u64) + 1 < 2 ^ 64 \<Longrightarrow> unat (k + 1) = unat k + 1"
  by (subst unat_add_no_wrap) simp_all

text \<open>The walk over the unbounded window also stops at the first cycle with a free port.\<close>

lemma scanUb_first_fit:
  assumes "m \<noteq> 0" "sorted_wrt (\<lambda>a b. unat (fst a) < unat (fst b)) ub"
    and "list_all (\<lambda>e. unat sc \<le> unat (fst e)) ub" and "unat sc + length ub < 2 ^ 64"
  shows "\<exists>ub' lp' sc'. scanUb t r m sc ub lp = Some (ub', lp', sc')
    \<and> unat sc \<le> unat sc' \<and> unat sc' \<le> unat sc + length ub
    \<and> (\<forall>n. unat sc \<le> unat n \<and> unat n < unat sc' \<longrightarrow> avail (ub_slot ub n) m = 0)
    \<and> avail (ub_slot ub sc') m \<noteq> 0
    \<and> sorted_wrt (\<lambda>a b. unat (fst a) < unat (fst b)) ub'
    \<and> list_all (\<lambda>e. unat sc \<le> unat (fst e)) ub'
    \<and> (\<forall>n. ub_slot ub' n = (if n = sc' then booked t (ub_slot ub sc') m else ub_slot ub n))
    \<and> lp' = (if t then slot_port r (ub_slot ub sc') m lp else lp)
    \<and> cycles_count (map snd ub') + unat (wcount (ub_slot ub sc'))
        = cycles_count (map snd ub) + unat (wcount (booked t (ub_slot ub sc') m))"
  using assms(2-4)
proof (induction ub arbitrary: sc)
  case Nil
  have "scanUb t r m sc [] lp = Some ([(sc, booked t free_cycle m)], (if t then slot_port r free_cycle m lp else lp), sc)"
    using assms(1) by (simp add: trySchedule_avail [of free_cycle] flip: free_cycle_def)
  with assms(1) show ?case by (auto simp: ub_slot_Cons cycles_count_def)
next
  case (Cons e ub)
  obtain k c where e: "e = (k, c)" by (cases e)
  have above: "list_all (\<lambda>e. unat k < unat (fst e)) ub"
    using Cons.prems(1) by (simp add: e list_all_iff)
  consider "k \<noteq> sc" | "k = sc" "avail c m \<noteq> 0" | "k = sc" "avail c m = 0" by blast
  then show ?case
  proof cases
    case 1
    then have gt: "unat sc < unat k" using Cons.prems(2) e by (auto simp: nat_less_le word_unat_eq_iff)
    have slots: "ub_slot (e # ub) sc = free_cycle"
      using gt above by (intro ub_slot_below) (auto simp: e list_all_iff)
    have "scanUb t r m sc (e # ub) lp = Some ((sc, booked t free_cycle m) # e # ub,
        (if t then slot_port r free_cycle m lp else lp), sc)"
      using assms(1) 1 e by (simp add: trySchedule_avail [of free_cycle] flip: free_cycle_def)
    then show ?thesis using assms(1) slots gt Cons.prems
      by (auto simp: ub_slot_Cons cycles_count_def e list_all_iff)
  next
    case 2
    then have "scanUb t r m sc (e # ub) lp = Some ((k, booked t c m) # ub,
        (if t then slot_port r c m lp else lp), sc)"
      by (simp add: e trySchedule_avail)
    then show ?thesis using 2 Cons.prems by (auto simp: ub_slot_Cons cycles_count_def e)
  next
    case 3
    have suc: "unat (sc + 1) = unat sc + 1" using Cons.prems(3) by (intro unat_suc_u64) simp
    have "list_all (\<lambda>e. unat (sc + 1) \<le> unat (fst e)) ub"
      using above 3(1) suc by (auto simp: list_all_iff Suc_le_eq)
    moreover have "unat (sc + 1) + length ub < 2 ^ 64" using Cons.prems(3) suc by simp
    ultimately obtain ub' lp' sc' where IH: "scanUb t r m (sc + 1) ub lp = Some (ub', lp', sc')"
      "unat (sc + 1) \<le> unat sc'" "unat sc' \<le> unat (sc + 1) + length ub"
      "\<forall>n. unat (sc + 1) \<le> unat n \<and> unat n < unat sc' \<longrightarrow> avail (ub_slot ub n) m = 0"
      "avail (ub_slot ub sc') m \<noteq> 0"
      "sorted_wrt (\<lambda>a b. unat (fst a) < unat (fst b)) ub'"
      "list_all (\<lambda>e. unat (sc + 1) \<le> unat (fst e)) ub'"
      "\<forall>n. ub_slot ub' n = (if n = sc' then booked t (ub_slot ub sc') m else ub_slot ub n)"
      "lp' = (if t then slot_port r (ub_slot ub sc') m lp else lp)"
      "cycles_count (map snd ub') + unat (wcount (ub_slot ub sc'))
        = cycles_count (map snd ub) + unat (wcount (booked t (ub_slot ub sc') m))"
      using Cons.IH [of "sc + 1"] Cons.prems(1) by auto
    have "scanUb t r m sc (e # ub) lp = Some (e # ub', lp', sc')"
      using 3 IH(1) by (simp add: e trySchedule_full)
    moreover have ne: "sc' \<noteq> sc" using IH(2) suc by auto
    moreover have "avail (ub_slot (e # ub) n) m = 0" if "unat sc \<le> unat n" "unat n < unat sc'" for n
      using that IH(4) 3 suc by (cases "n = sc") (auto simp: e ub_slot_Cons Suc_le_eq nat_less_le word_unat_eq_iff)
    moreover have "list_all (\<lambda>a. unat (fst e) < unat (fst a)) ub'"
      using IH(7) suc 3(1) e by (auto simp: list_all_iff)
    ultimately show ?thesis using IH suc 3(1)
      by (auto simp: ub_slot_Cons cycles_count_def e list_all_iff)
  qed
qed

lemma cycles_count_update:
  assumes "i < length xs"
  shows "cycles_count (xs[i := v]) + unat (wcount (xs ! i)) = cycles_count xs + unat (wcount v)"
  using sum_list_update_nat [of i "map (unat \<circ> wcount) xs" "unat (wcount v)"] assms
  by (simp add: cycles_count_def map_update)

lemma cycles_count_free: "list_all (\<lambda>c. c = free_cycle) xs \<Longrightarrow> cycles_count xs = 0"
  by (induction xs) (auto simp: cycles_count_def)

text \<open>Rebasing: the entries below the horizon fill the window, the others stay.\<close>

lemma moveUb_eq:
  assumes "sorted_wrt (\<lambda>a b. unat (fst a) < unat (fst b)) ub" "length nw = unat h"
    and "list_all (\<lambda>e. unat cur + unat h \<le> unat (fst e)) ub"
    and hor: "unat hor = unat cur + 2 * unat h"
    and "list_all (\<lambda>e. unat (fst e) < unat hor \<longrightarrow> nw ! (unat (fst e) - unat cur - unat h) = free_cycle) ub"
  shows "\<exists>nw'. moveUb cur h hor nw ub = Some (nw', dropWhile (\<lambda>e. unat (fst e) < unat hor) ub)
     \<and> length nw' = unat h
     \<and> (\<forall>i < unat h. nw' ! i = (case map_of ub (of_nat (unat cur + unat h + i)) of None \<Rightarrow> nw ! i | Some c \<Rightarrow> c))
     \<and> cycles_count nw' + cycles_count (map snd (dropWhile (\<lambda>e. unat (fst e) < unat hor) ub))
         = cycles_count nw + cycles_count (map snd ub)"
  using assms(1,2,3,5)
proof (induction ub arbitrary: nw)
  case Nil
  then show ?case by simp
next
  case (Cons e ub)
  obtain k c where e: "e = (k, c)" by (cases e)
  have rest: "list_all (\<lambda>e. unat k < unat (fst e)) ub" using Cons.prems(1) by (simp add: e list_all_iff)
  have bound: "unat cur + 2 * unat h < 2 ^ 64" using hor unat_u64_lt [of hor] by (simp del: unat_u64_lt)
  have key: "unat (of_nat (unat cur + unat h + i) :: u64) = unat cur + unat h + i" if "i < unat h" for i
    using that bound by (simp add: unat_of_nat del: of_nat_add)
  show ?case
  proof (cases "k < hor")
    case False
    then have k: "unat hor \<le> unat k" by (simp add: word_less_nat_alt not_less)
    have "map_of (e # ub) (of_nat (unat cur + unat h + i)) = None" if "i < unat h" for i
      using that k rest hor key [OF that] unfolding map_of_eq_None_iff by (force simp: e list_all_iff)
    with False k Cons.prems show ?thesis by (auto simp: e word_less_nat_alt)
  next
    case True
    then have k: "unat k < unat cur + 2 * unat h" using hor by (simp add: word_less_nat_alt)
    have lo: "unat cur + unat h \<le> unat k" using Cons.prems(3) by (simp add: e)
    define i where "i = unat k - unat cur - unat h"
    have i: "i < unat h" and ki: "unat k = unat cur + unat h + i" using k lo by (simp_all add: i_def)
    have "unat (k - ucast h) = unat cur + i" using ki by (subst unat_sub_no_wrap) (simp_all add: word_le_nat_alt)
    then have "unat (k - ucast h - cur) = i" by (subst unat_sub_no_wrap) (simp_all add: word_le_nat_alt)
    then have pos: "unat (ucast (k - ucast h - cur) :: u32) = i"
      using i unat_u32_lt [of h] by (subst unat_ucast_down) (simp_all del: unat_u32_lt)
    have step: "moveUb cur h hor nw (e # ub) = moveUb cur h hor (nw[i := c]) ub"
      using True i pos Cons.prems(2) by (simp add: e word_less_nat_alt)
    have free: "nw ! i = free_cycle" using Cons.prems(4) k hor by (simp add: e i_def)
    have keys: "unat (fst a) - unat cur - unat h \<noteq> i" if "a \<in> set ub" for a
      using that rest ki by (auto simp: list_all_iff)
    have "list_all (\<lambda>e. unat (fst e) < unat hor \<longrightarrow> nw[i := c] ! (unat (fst e) - unat cur - unat h) = free_cycle) ub"
      unfolding list_all_iff
    proof (intro ballI impI)
      fix a assume a: "a \<in> set ub" "unat (fst a) < unat hor"
      then have "nw ! (unat (fst a) - unat cur - unat h) = free_cycle"
        using Cons.prems(4) by (simp add: list_all_iff)
      then show "nw[i := c] ! (unat (fst a) - unat cur - unat h) = free_cycle"
        using keys [OF a(1)] by simp
    qed
    then obtain nw' where IH: "moveUb cur h hor (nw[i := c]) ub = Some (nw', dropWhile (\<lambda>e. unat (fst e) < unat hor) ub)"
      "length nw' = unat h"
      "\<forall>j < unat h. nw' ! j = (case map_of ub (of_nat (unat cur + unat h + j)) of None \<Rightarrow> nw[i := c] ! j | Some c \<Rightarrow> c)"
      "cycles_count nw' + cycles_count (map snd (dropWhile (\<lambda>e. unat (fst e) < unat hor) ub))
         = cycles_count (nw[i := c]) + cycles_count (map snd ub)"
      using Cons.IH [of "nw[i := c]"] Cons.prems by auto
    have count: "cycles_count (nw[i := c]) = cycles_count nw + unat (wcount c)"
      using cycles_count_update [of i nw c] i Cons.prems(2) free by simp
    have new: "nw' ! j = (case map_of (e # ub) (of_nat (unat cur + unat h + j)) of None \<Rightarrow> nw ! j | Some c \<Rightarrow> c)"
      if j: "j < unat h" for j
    proof (cases "j = i")
      case True
      then have kk: "of_nat (unat cur + unat h + j) = k" using key [OF j] ki by (metis word_unat_eq_iff)
      moreover have "map_of ub k = None"
        using rest unfolding map_of_eq_None_iff by (force simp: list_all_iff)
      ultimately show ?thesis using IH(3) j True i Cons.prems(2) by (simp add: e)
    next
      case False
      then have "of_nat (unat cur + unat h + j) \<noteq> k" using key [OF j] ki by auto
      then show ?thesis using IH(3) j False by (simp add: e split: option.split)
    qed
    have "cycles_count (c # map snd ub) = unat (wcount c) + cycles_count (map snd ub)"
      by (simp add: cycles_count_def)
    then show ?thesis using step IH(1,2,4) count new True k hor by (simp add: e)
  qed
qed


lemma sorted_keys_dropWhile:
  "sorted_wrt (\<lambda>a b. unat (fst a) < unat (fst b)) ub \<Longrightarrow>
     list_all (\<lambda>e. b \<le> unat (fst e)) (dropWhile (\<lambda>e. unat (fst e) < b) ub)"
  by (induction ub) (auto simp: list_all_iff)

lemma sorted_wrt_dropWhile_keys:
  "sorted_wrt R ub \<Longrightarrow> sorted_wrt R (dropWhile P ub)"
  by (induction ub) auto

lemma sorted_wrt_takeWhile_keys:
  "sorted_wrt R ub \<Longrightarrow> sorted_wrt R (takeWhile P ub)"
  by (induction ub) (auto dest: set_takeWhileD)

lemma ub_slot_dropWhile:
  "b \<le> unat n \<Longrightarrow> ub_slot (dropWhile (\<lambda>e. unat (fst e) < b) ub) n = ub_slot ub n"
  by (induction ub) (auto simp: ub_slot_Cons)

lemma free_cycle_eq: "WinCycle_set 0 0 = free_cycle"
  by (simp add: free_cycle_def)

text \<open>
  \<open>advancePos\<close> on a window: it never trips its assertion, it moves to the next cycle, it frees
  what was booked in the current one, and no other cycle changes.
\<close>

lemma advancePos_refines:
  assumes inv: "win_inv w cur" and room: "unat cur + 4 * unat (H w) < 2 ^ 64"
  shows "\<exists>w'. advancePos w cur = Some (w', cur + 1) \<and> win_inv w' (cur + 1)
     \<and> (\<forall>n. unat cur < unat n \<longrightarrow> slot w' (cur + 1) n = slot w cur n)
     \<and> unat (occupancy w') + unat (wcount (slot w cur cur)) = unat (occupancy w)
     \<and> H w' = H w \<and> WSZ w' = WSZ w \<and> lastPort w' = lastPort w
     \<and> (\<exists>k. ubWin w' = drop k (ubWin w))"
proof -
  let ?h = "unat (H w)" and ?p = "unat (curPos w)"
  from inv have len: "length (curWin w) = ?h" "length (nextWin w) = ?h"
    and p: "?p < ?h" and h: "4 * ?h < 2 ^ 32"
    and srt: "sorted_wrt (\<lambda>a b. unat (fst a) < unat (fst b)) (ubWin w)"
    and keys: "list_all (\<lambda>e. unat cur + 2 * ?h \<le> unat (fst e) + ?p) (ubWin w)"
    and free: "list_all (\<lambda>c. c = free_cycle) (take ?p (curWin w))"
    and ok: "list_all wc_ok (curWin w)" "list_all wc_ok (nextWin w)" "list_all wc_ok (map snd (ubWin w))"
    and occ: "unat (occupancy w) = cycles_count (curWin w) + cycles_count (nextWin w)
           + cycles_count (map snd (ubWin w))"
    by (auto simp: win_inv_def word_less_nat_alt)
  let ?cw = "(curWin w)[?p := free_cycle]"
  have suc: "unat (curPos w + 1) = ?p + 1"
    using p by (intro unat_suc_u32 [of _ "H w"]) (simp add: word_less_nat_alt)
  have csuc: "unat (cur + 1) = unat cur + 1" using room p by (intro unat_suc_u64) simp
  have cnt: "cycles_count ?cw + unat (wcount (curWin w ! ?p)) = cycles_count (curWin w)"
    using cycles_count_update [of ?p "curWin w" free_cycle] p len by simp
  have here: "slot w cur cur = curWin w ! ?p" using p by (simp add: slot_def)
  have occ': "unat (occupancy w - ucast (wcount (curWin w ! ?p))) = unat (occupancy w) - unat (wcount (curWin w ! ?p))"
  proof -
    have "unat (ucast (wcount (curWin w ! ?p)) :: u32) = unat (wcount (curWin w ! ?p))"
      by (simp add: unsigned_ucast_eq take_bit_nat_eq_self_iff less_trans [OF unat_u8_lt])
    then show ?thesis using occ cnt by (simp add: unat_sub_no_wrap word_le_nat_alt)
  qed
  have free': "list_all (\<lambda>c. c = free_cycle) (take (?p + 1) ?cw)"
    using free p len by (simp add: take_Suc_conv_app_nth)
  show ?thesis
  proof (cases "curPos w + 1 = H w")
    case False
    then have lt: "?p + 1 < ?h" using suc p by (metis Suc_eq_plus1 Suc_lessI word_unat_eq_iff)
    let ?w = "w\<lparr>occupancy := occupancy w - ucast (wcount (curWin w ! ?p)), curWin := ?cw, curPos := curPos w + 1\<rparr>"
    have eq: "advancePos w cur = Some (?w, cur + 1)"
      using False p len by (simp add: advancePos_def Let_def free_cycle_eq)
    have "win_inv ?w (cur + 1)"
      using len lt suc csuc h srt keys free' occ occ' cnt ok list_all_update [OF ok(1) wc_ok_free]
      unfolding win_inv_def by (simp add: word_less_nat_alt)
    moreover have "slot ?w (cur + 1) n = slot w cur n" if "unat cur < unat n" for n
    proof -
      have "?p + 1 + (unat n - unat (cur + 1)) = ?p + (unat n - unat cur)" using that csuc by simp
      moreover have "?p + (unat n - unat cur) \<noteq> ?p" using that by simp
      ultimately show ?thesis using suc by (simp only: slot_def Let_def) simp
    qed
    moreover have "\<exists>k. ubWin ?w = drop k (ubWin w)" by (intro exI [of _ 0]) simp
    ultimately show ?thesis using eq occ occ' cnt here by auto
  next
    case True
    then have ph: "?p + 1 = ?h" using suc by (metis word_unat_eq_iff)
    let ?hor = "cur + 1 + ucast (2 * H w)"
    have "unat (2 * H w) = 2 * ?h" using h by (simp add: unat_word_ariths)
    then have hor: "unat ?hor = unat (cur + 1) + 2 * ?h"
      using csuc room p by (subst unat_add_no_wrap) simp_all
    have allfree: "list_all (\<lambda>c. c = free_cycle) ?cw" using free' ph len by simp
    then have nth: "?cw ! i = free_cycle" if "i < ?h" for i
      using list_all_nth [OF allfree, of i] that len by (simp only: length_list_update)
    have lo: "list_all (\<lambda>e. unat (cur + 1) + ?h \<le> unat (fst e)) (ubWin w)"
      using keys csuc ph by (auto simp: list_all_iff)
    let ?ub = "dropWhile (\<lambda>e. unat (fst e) < unat ?hor) (ubWin w)"
    have fr: "list_all (\<lambda>e. unat (fst e) < unat ?hor \<longrightarrow>
        ?cw ! (unat (fst e) - unat (cur + 1) - ?h) = free_cycle) (ubWin w)"
      using lo hor nth by (auto simp: list_all_iff)
    obtain nw where nw: "moveUb (cur + 1) (H w) ?hor ?cw (ubWin w) = Some (nw, ?ub)" "length nw = ?h"
      "\<forall>i < ?h. nw ! i = (case map_of (ubWin w) (of_nat (unat (cur + 1) + ?h + i)) of None \<Rightarrow> ?cw ! i | Some c \<Rightarrow> c)"
      "cycles_count nw + cycles_count (map snd ?ub) = cycles_count ?cw + cycles_count (map snd (ubWin w))"
      using moveUb_eq [OF srt _ lo hor fr] len by auto
    let ?w = "w\<lparr>occupancy := occupancy w - ucast (wcount (curWin w ! ?p)), curWin := nextWin w,
        nextWin := nw, ubWin := ?ub, curPos := 0\<rparr>"
    have eq: "advancePos w cur = Some (?w, cur + 1)"
      using True p len nw(1) by (simp add: advancePos_def Let_def free_cycle_eq)
    have ubkeys: "list_all (\<lambda>e. unat ?hor \<le> unat (fst e)) ?ub"
      using sorted_keys_dropWhile [OF srt] by simp
    have ubsrt: "sorted_wrt (\<lambda>a b. unat (fst a) < unat (fst b)) ?ub"
      using srt by (rule sorted_wrt_dropWhile_keys)
    have "wc_ok (nw ! i)" if "i < ?h" for i
      using nw(3) that nth [OF that] ok(3) by (auto split: option.split dest!: map_of_SomeD simp: list_all_iff)
    then have "list_all wc_ok nw" using nw(2) by (simp add: list_all_length)
    moreover have "list_all wc_ok (map snd ?ub)"
      using ok(3) by (auto simp: list_all_iff dest: set_dropWhileD)
    ultimately have "win_inv ?w (cur + 1)"
      using ok(2) len p nw(2,4) h hor ubsrt ubkeys occ occ' cnt cycles_count_free [OF allfree]
      by (simp add: win_inv_def word_less_nat_alt)
    moreover have "slot ?w (cur + 1) n = slot w cur n" if n: "unat cur < unat n" for n
    proof -
      have shift: "?p + (unat n - unat cur) = ?h + (unat n - unat (cur + 1))" using n csuc ph by simp
      define i where "i = unat n - unat (cur + 1) - ?h"
      consider "unat n - unat (cur + 1) < ?h"
        | "unat n - unat (cur + 1) = ?h + i" "i < ?h"
        | "2 * ?h \<le> unat n - unat (cur + 1)"
        unfolding i_def by linarith
      then show ?thesis
      proof cases
        case 1
        then show ?thesis using shift by (simp add: slot_def Let_def)
      next
        case 2
        then have "unat (cur + 1) + ?h + i = unat n" using n csuc by linarith
        then have "of_nat (unat (cur + 1) + ?h + i) = n" by (simp only:) simp
        then have "nw ! i = ub_slot (ubWin w) n"
          using nw(3) 2(2) nth [of i] by (simp add: ub_slot_def split: option.split)
        then show ?thesis using 2 shift by (simp add: slot_def Let_def)
      next
        case 3
        then have "unat ?hor \<le> unat n" using hor n csuc by simp
        then have "ub_slot ?ub n = ub_slot (ubWin w) n" by (rule ub_slot_dropWhile)
        then show ?thesis using 3 shift by (simp add: slot_def Let_def)
      qed
    qed
    moreover have "\<exists>k. ubWin ?w = drop k (ubWin w)" by (auto simp: dropWhile_eq_drop)
    ultimately show ?thesis using eq occ occ' cnt here by auto
  qed
qed

lemma finite_bits [simp]: "finite {i. bit (x :: u8) i}"
  by (rule finite_subset [of _ "{..<8}"]) (auto dest: bit_imp_le_length)

lemma card_bits_le: "card {i. bit (x :: u8) i} \<le> 8"
  using card_mono [of "{..<8}" "{i. bit x i}"] by (fastforce dest: bit_imp_le_length)

text \<open>Booking a cycle takes one free port, and the count of the cycle cannot wrap around.\<close>

lemma booked_ok:
  assumes "avail c m \<noteq> 0" "wc_ok c"
  shows "wc_ok (booked t c m) \<and> unat (wcount (booked t c m)) = unat (wcount c) + (if t then 1 else 0)"
proof (cases t)
  case False
  have "card {i. bit (occUnits c) i} \<le> card {i. bit (occUnits c OR m) i}"
    by (rule card_mono) (auto simp: bit_simps)
  with False assms(2) show ?thesis by (simp add: booked_def wc_ok_def)
next
  case True
  let ?k = "ctz (avail c m)"
  have k: "?k < 8" "bit (avail c m) ?k" using ctz_bit [OF assms(1)] by simp_all
  then have new: "\<not> bit (occUnits c) ?k" by (simp add: avail_def bit_simps)
  have "{i. bit (occUnits c OR push_bit ?k 1) i} = insert ?k {i. bit (occUnits c) i}"
    using k(1) by (auto simp: bit_simps)
  then have card: "card {i. bit (occUnits c OR push_bit ?k 1) i} = Suc (card {i. bit (occUnits c) i})"
    using new by simp
  have "unat (wcount c) + 1 < 256"
    using assms(2) card_bits_le [of "occUnits c"] by (simp add: wc_ok_def)
  then have "unat (wcount c + 1) = unat (wcount c) + 1" by (subst unat_add_no_wrap) simp_all
  with True card assms show ?thesis by (simp add: booked_def wc_ok_def ffs_def)
qed

text \<open>
  One micro-operation is booked in the window: the cycle \<open>sc\<close> takes it and nothing else changes,
  wherever \<open>sc\<close> is stored.
\<close>

definition books :: "bool \<Rightarrow> bool \<Rightarrow> u8 \<Rightarrow> WindowStructure \<Rightarrow> u64 \<Rightarrow> u64 \<Rightarrow> WindowStructure \<Rightarrow> bool" where
  "books t r m w cur sc w' =
     (curPos w' = curPos w \<and> H w' = H w \<and> WSZ w' = WSZ w
      \<and> occupancy w' = occupancy w + (if t then 1 else 0)
      \<and> lastPort w' = (if t then slot_port r (slot w cur sc) m (lastPort w) else lastPort w)
      \<and> win_inv w' cur
      \<and> (\<forall>n. unat cur \<le> unat n \<longrightarrow> slot w' cur n = (if n = sc then booked t (slot w cur sc) m else slot w cur n)))"

lemma books_occupancy:
  assumes "t \<Longrightarrow> occupancy w < WSZ w"
  shows "unat (occupancy w + (if t then 1 else 0)) = unat (occupancy w) + (if t then 1 else 0)"
  using assms unat_suc_u32 [of "occupancy w" "WSZ w"] by simp

lemma slot_offset:
  assumes "unat cur \<le> unat sc" "unat cur \<le> unat n"
  shows "n = sc \<longleftrightarrow> unat n - unat cur = unat sc - unat cur"
  using assms by (metis eq_diff_iff word_unat_eq_iff)

lemma books_curWin:
  assumes inv: "win_inv w cur" and lo: "unat cur \<le> unat sc"
    and p: "p = unat (curPos w) + (unat sc - unat cur)" "p < unat (H w)"
    and av: "avail (curWin w ! p) m \<noteq> 0" and occ: "t \<Longrightarrow> occupancy w < WSZ w"
  shows "slot w cur sc = curWin w ! p"
    and "books t r m w cur sc (w\<lparr>curWin := (curWin w)[p := booked t (curWin w ! p) m],
           lastPort := (if t then slot_port r (curWin w ! p) m (lastPort w) else lastPort w),
           occupancy := occupancy w + (if t then 1 else 0)\<rparr>)"
proof -
  show sl: "slot w cur sc = curWin w ! p" using p by (simp add: slot_def Let_def)
  from inv have len: "length (curWin w) = unat (H w)" and ok: "list_all wc_ok (curWin w)"
    by (auto simp: win_inv_def)
  have b: "wc_ok (booked t (curWin w ! p) m)"
    "unat (wcount (booked t (curWin w ! p) m)) = unat (wcount (curWin w ! p)) + (if t then 1 else 0)"
    using booked_ok [OF av list_all_nth [OF ok], of t] p len by auto
  have c: "cycles_count ((curWin w)[p := booked t (curWin w ! p) m]) = cycles_count (curWin w) + (if t then 1 else 0)"
    using cycles_count_update [of p "curWin w" "booked t (curWin w ! p) m"] b(2) p len by simp
  have tk: "take (unat (curPos w)) ((curWin w)[p := x]) = take (unat (curPos w)) (curWin w)" for x
    using p by simp
  show "books t r m w cur sc (w\<lparr>curWin := (curWin w)[p := booked t (curWin w ! p) m],
           lastPort := (if t then slot_port r (curWin w ! p) m (lastPort w) else lastPort w),
           occupancy := occupancy w + (if t then 1 else 0)\<rparr>)" (is "books _ _ _ _ _ _ ?w")
  proof -
    have "win_inv ?w cur"
      using inv c books_occupancy [of t w] occ list_all_update [OF ok b(1), of p]
      unfolding win_inv_def by (simp add: tk)
    moreover have "slot ?w cur n = (if n = sc then booked t (curWin w ! p) m else slot w cur n)"
      if "unat cur \<le> unat n" for n
      using slot_offset [OF lo that] p len by (auto simp: slot_def Let_def nth_list_update)
    ultimately show ?thesis by (simp add: books_def sl)
  qed
qed

lemma books_nextWin:
  assumes inv: "win_inv w cur" and lo: "unat cur \<le> unat sc"
    and p: "unat (H w) + p = unat (curPos w) + (unat sc - unat cur)" "p < unat (H w)"
    and av: "avail (nextWin w ! p) m \<noteq> 0" and occ: "t \<Longrightarrow> occupancy w < WSZ w"
  shows "slot w cur sc = nextWin w ! p"
    and "books t r m w cur sc (w\<lparr>nextWin := (nextWin w)[p := booked t (nextWin w ! p) m],
           lastPort := (if t then slot_port r (nextWin w ! p) m (lastPort w) else lastPort w),
           occupancy := occupancy w + (if t then 1 else 0)\<rparr>)"
proof -
  show sl: "slot w cur sc = nextWin w ! p" using p by (simp add: slot_def Let_def flip: p(1))
  from inv have len: "length (nextWin w) = unat (H w)" and ok: "list_all wc_ok (nextWin w)"
    by (auto simp: win_inv_def)
  have b: "wc_ok (booked t (nextWin w ! p) m)"
    "unat (wcount (booked t (nextWin w ! p) m)) = unat (wcount (nextWin w ! p)) + (if t then 1 else 0)"
    using booked_ok [OF av list_all_nth [OF ok], of t] p len by auto
  have c: "cycles_count ((nextWin w)[p := booked t (nextWin w ! p) m]) = cycles_count (nextWin w) + (if t then 1 else 0)"
    using cycles_count_update [of p "nextWin w" "booked t (nextWin w ! p) m"] b(2) p len by simp
  show "books t r m w cur sc (w\<lparr>nextWin := (nextWin w)[p := booked t (nextWin w ! p) m],
           lastPort := (if t then slot_port r (nextWin w ! p) m (lastPort w) else lastPort w),
           occupancy := occupancy w + (if t then 1 else 0)\<rparr>)" (is "books _ _ _ _ _ _ ?w")
  proof -
    have "win_inv ?w cur"
      using inv c books_occupancy [of t w] occ list_all_update [OF ok b(1), of p]
      unfolding win_inv_def by simp
    moreover have "slot ?w cur n = (if n = sc then booked t (nextWin w ! p) m else slot w cur n)"
      if "unat cur \<le> unat n" for n
      using slot_offset [OF lo that] p len by (auto simp: slot_def Let_def nth_list_update)
    ultimately show ?thesis by (simp add: books_def sl)
  qed
qed

lemma ub_slot_mem:
  "sorted_wrt (\<lambda>a b. unat (fst a) < unat (fst b)) ub \<Longrightarrow> (k, c) \<in> set ub \<Longrightarrow> ub_slot ub k = c"
  by (induction ub) (auto simp: ub_slot_Cons)

lemma ub_slots_ok:
  assumes "sorted_wrt (\<lambda>a b. unat (fst a) < unat (fst b)) ub"
  shows "list_all wc_ok (map snd ub) \<longleftrightarrow> (\<forall>n. wc_ok (ub_slot ub n))"
proof
  assume "list_all wc_ok (map snd ub)"
  then show "\<forall>n. wc_ok (ub_slot ub n)"
    by (auto simp: list_all_iff ub_slot_def split: option.split dest!: map_of_SomeD)
next
  assume ok: "\<forall>n. wc_ok (ub_slot ub n)"
  have "wc_ok c" if "(k, c) \<in> set ub" for k c
    using ok ub_slot_mem [OF assms that] by metis
  then show "list_all wc_ok (map snd ub)" by (auto simp: list_all_iff)
qed

lemma ub_slot_append:
  "list_all (\<lambda>e. unat (fst e) < b) xs \<Longrightarrow> list_all (\<lambda>e. b \<le> unat (fst e)) ys \<Longrightarrow>
     ub_slot (xs @ ys) n = (if unat n < b then ub_slot xs n else ub_slot ys n)"
proof (induction xs)
  case Nil
  have "ub_slot ys n = free_cycle" if "unat n < b"
    using Nil that by (intro ub_slot_below) (auto simp: list_all_iff)
  then show ?case by simp
next
  case (Cons e xs)
  then show ?case by (cases e) (auto simp: ub_slot_Cons)
qed

lemma scheduleUb_first_fit:
  assumes m: "m \<noteq> 0" and srt: "sorted_wrt (\<lambda>a b. unat (fst a) < unat (fst b)) ub"
    and room: "unat sc + length ub < 2 ^ 64"
  shows "\<exists>ub' sc'. scheduleUb t r m sc ub lp = Some (ub', (if t then slot_port r (ub_slot ub sc') m lp else lp), sc')
    \<and> unat sc \<le> unat sc'
    \<and> (\<forall>n. unat sc \<le> unat n \<and> unat n < unat sc' \<longrightarrow> avail (ub_slot ub n) m = 0)
    \<and> avail (ub_slot ub sc') m \<noteq> 0
    \<and> sorted_wrt (\<lambda>a b. unat (fst a) < unat (fst b)) ub'
    \<and> (\<forall>b \<le> unat sc. list_all (\<lambda>e. b \<le> unat (fst e)) ub \<longrightarrow> list_all (\<lambda>e. b \<le> unat (fst e)) ub')
    \<and> (\<forall>n. ub_slot ub' n = (if n = sc' then booked t (ub_slot ub sc') m else ub_slot ub n))
    \<and> cycles_count (map snd ub') + unat (wcount (ub_slot ub sc'))
        = cycles_count (map snd ub) + unat (wcount (booked t (ub_slot ub sc') m))"
proof -
  let ?P = "\<lambda>e. unat (fst e) < unat sc"
  let ?a = "takeWhile ?P ub" and ?b = "dropWhile ?P ub"
  have P: "(\<lambda>e. fst e < sc) = ?P" by (auto simp: word_less_nat_alt)
  have lo: "list_all ?P ?a" by (auto simp: list_all_iff dest: set_takeWhileD)
  have hi: "list_all (\<lambda>e. unat sc \<le> unat (fst e)) ?b" using sorted_keys_dropWhile [OF srt] .
  have "length ?b \<le> length ub" by (rule length_dropWhile_le)
  then have len: "unat sc + length ?b < 2 ^ 64" using room by linarith
  obtain it' sc' where it: "scanUb t r m sc ?b lp = Some (it', (if t then slot_port r (ub_slot ?b sc') m lp else lp), sc')"
    "unat sc \<le> unat sc'"
    "\<forall>n. unat sc \<le> unat n \<and> unat n < unat sc' \<longrightarrow> avail (ub_slot ?b n) m = 0"
    "avail (ub_slot ?b sc') m \<noteq> 0"
    "sorted_wrt (\<lambda>a b. unat (fst a) < unat (fst b)) it'" "list_all (\<lambda>e. unat sc \<le> unat (fst e)) it'"
    "\<forall>n. ub_slot it' n = (if n = sc' then booked t (ub_slot ?b sc') m else ub_slot ?b n)"
    "cycles_count (map snd it') + unat (wcount (ub_slot ?b sc'))
        = cycles_count (map snd ?b) + unat (wcount (booked t (ub_slot ?b sc') m))"
    using scanUb_first_fit [OF m sorted_wrt_dropWhile_keys [OF srt] hi len, of t r lp] by auto
  have ub: "ub_slot ub n = (if unat n < unat sc then ub_slot ?a n else ub_slot ?b n)" for n
    using ub_slot_append [OF lo hi, of n] by simp
  have ub': "ub_slot (?a @ it') n = (if unat n < unat sc then ub_slot ?a n else ub_slot it' n)" for n
    using ub_slot_append [OF lo it(6), of n] by simp
  have sc': "ub_slot ub sc' = ub_slot ?b sc'" using ub it(2) by simp
  have eq: "scheduleUb t r m sc ub lp = Some (?a @ it', (if t then slot_port r (ub_slot ub sc') m lp else lp), sc')"
    using it(1) by (simp add: scheduleUb_def P sc')
  have "sorted_wrt (\<lambda>a b. unat (fst a) < unat (fst b)) ?a"
    using srt by (rule sorted_wrt_takeWhile_keys)
  then have srt': "sorted_wrt (\<lambda>a b. unat (fst a) < unat (fst b)) (?a @ it')"
    unfolding sorted_wrt_append
  proof (intro conjI ballI)
    fix a b assume "a \<in> set ?a" "b \<in> set it'"
    then have "unat (fst a) < unat sc" "unat sc \<le> unat (fst b)" using lo it(6) by (auto simp: list_all_iff)
    then show "unat (fst a) < unat (fst b)" by linarith
  qed (use it(5) in simp_all)
  have slots: "ub_slot (?a @ it') n = (if n = sc' then booked t (ub_slot ub sc') m else ub_slot ub n)" for n
    using ub [of n] ub' [of n] it(2,7) sc' by auto
  have low: "list_all (\<lambda>e. b \<le> unat (fst e)) (?a @ it')"
    if "b \<le> unat sc" "list_all (\<lambda>e. b \<le> unat (fst e)) ub" for b
    using that it(6) by (auto simp: list_all_iff dest: set_takeWhileD)
  have "cycles_count (map snd ub) = cycles_count (map snd ?a) + cycles_count (map snd ?b)"
    unfolding cycles_count_def sum_list_append [symmetric] map_append [symmetric] takeWhile_dropWhile_id ..
  then have cnt: "cycles_count (map snd (?a @ it')) + unat (wcount (ub_slot ub sc'))
        = cycles_count (map snd ub) + unat (wcount (booked t (ub_slot ub sc') m))"
    using it(8) by (simp add: cycles_count_def sc')
  have free: "avail (ub_slot ub n) m = 0" if "unat sc \<le> unat n" "unat n < unat sc'" for n
    using that it(3) ub [of n] by simp
  show ?thesis
    using eq it(2,4) srt' slots low cnt free
    by (intro exI [of _ "?a @ it'"] exI [of _ sc'] conjI allI impI) (simp_all only: sc' simp_thms)
qed

lemma books_ubWin:
  assumes inv: "win_inv w cur" and lo: "unat cur + 2 * unat (H w) \<le> unat sc + unat (curPos w)"
    and srt: "sorted_wrt (\<lambda>a b. unat (fst a) < unat (fst b)) ub'"
    and keys: "list_all (\<lambda>e. unat cur + 2 * unat (H w) - unat (curPos w) \<le> unat (fst e)) ub'"
    and slots: "\<forall>n. ub_slot ub' n = (if n = sc then booked t (ub_slot (ubWin w) sc) m else ub_slot (ubWin w) n)"
    and cnt: "cycles_count (map snd ub') + unat (wcount (ub_slot (ubWin w) sc))
        = cycles_count (map snd (ubWin w)) + unat (wcount (booked t (ub_slot (ubWin w) sc) m))"
    and av: "avail (ub_slot (ubWin w) sc) m \<noteq> 0" and occ: "t \<Longrightarrow> occupancy w < WSZ w"
  shows "slot w cur sc = ub_slot (ubWin w) sc"
    and "books t r m w cur sc (w\<lparr>ubWin := ub',
           lastPort := (if t then slot_port r (ub_slot (ubWin w) sc) m (lastPort w) else lastPort w),
           occupancy := occupancy w + (if t then 1 else 0)\<rparr>)"
proof -
  have far: "\<not> unat (curPos w) + (unat sc - unat cur) < 2 * unat (H w)" using lo by linarith
  show sl: "slot w cur sc = ub_slot (ubWin w) sc" using far by (simp add: slot_def Let_def)
  have okub: "wc_ok (ub_slot (ubWin w) n)" for n
    using inv ub_slots_ok [of "ubWin w"] by (simp add: win_inv_def)
  have b: "wc_ok (booked t (ub_slot (ubWin w) sc) m)"
    "unat (wcount (booked t (ub_slot (ubWin w) sc) m)) = unat (wcount (ub_slot (ubWin w) sc)) + (if t then 1 else 0)"
    using booked_ok [OF av okub, of t] by auto
  have c: "cycles_count (map snd ub') = cycles_count (map snd (ubWin w)) + (if t then 1 else 0)"
    using cnt b(2) by simp
  have ok': "list_all wc_ok (map snd ub')" using ub_slots_ok [OF srt] slots okub b(1) by simp
  show "books t r m w cur sc (w\<lparr>ubWin := ub',
           lastPort := (if t then slot_port r (ub_slot (ubWin w) sc) m (lastPort w) else lastPort w),
           occupancy := occupancy w + (if t then 1 else 0)\<rparr>)" (is "books _ _ _ _ _ _ ?w")
  proof -
    have "unat (curPos w) < unat (H w)" using inv by (simp add: win_inv_def word_less_nat_alt)
    then have "list_all (\<lambda>e. unat cur + 2 * unat (H w) \<le> unat (fst e) + unat (curPos w)) ub'"
      using keys by (auto simp: list_all_iff)
    then have "win_inv ?w cur"
      using inv c ok' srt books_occupancy [of t w] occ unfolding win_inv_def by simp
    moreover have "slot ?w cur n = (if n = sc then booked t (ub_slot (ubWin w) sc) m else slot w cur n)"
      if "unat cur \<le> unat n" for n
      using far slots by (auto simp: slot_def Let_def)
    ultimately show ?thesis by (simp add: books_def sl)
  qed
qed

text \<open>The placement search as a whole, when the window is not full.\<close>

lemma scheduleInternal_first_fit:
  assumes inv: "win_inv w cur" and m: "m \<noteq> 0" and notfull: "t \<Longrightarrow> occupancy w < WSZ w"
    and near: "unat sched + unat (curPos w) < unat cur + 2 ^ 32"
    and room: "unat cur + 2 ^ 33 + length (ubWin w) < 2 ^ 64"
  shows "\<exists>w' sc. scheduleInternal t r w cur sched m = Some (w', cur, sc)
    \<and> max (unat cur) (unat sched) \<le> unat sc
    \<and> avail (slot w cur sc) m \<noteq> 0
    \<and> (\<forall>n. max (unat cur) (unat sched) \<le> unat n \<and> unat n < unat sc \<longrightarrow> avail (slot w cur n) m = 0)
    \<and> books t r m w cur sc w'"
proof -
  let ?h = "unat (H w)" and ?p = "unat (curPos w)" and ?start = "max (unat cur) (unat sched)"
  from inv have len: "length (curWin w) = ?h" "length (nextWin w) = ?h"
    and p: "?p < ?h" and h: "4 * ?h < 2 ^ 32"
    and srt: "sorted_wrt (\<lambda>a b. unat (fst a) < unat (fst b)) (ubWin w)"
    and keys: "list_all (\<lambda>e. unat cur + 2 * ?h \<le> unat (fst e) + ?p) (ubWin w)"
    by (auto simp: win_inv_def word_less_nat_alt)
  define delay where "delay = (if sched > cur then (ucast (sched - cur) :: u32) else 0)"
  have delay: "unat delay = ?start - unat cur"
  proof (cases "sched > cur")
    case True
    then have "unat (sched - cur) = unat sched - unat cur" by (simp add: unat_sub_no_wrap)
    with True near show ?thesis by (simp add: delay_def unat_ucast_down word_less_nat_alt)
  qed (simp add: delay_def word_less_nat_alt)
  have d: "unat (curPos w + delay) = ?p + (?start - unat cur)"
    using near delay p h by (subst unat_add_no_wrap) auto
  have drain: "(if t then drainFull w cur else Some (w, cur)) = Some (w, cur)"
    using notfull by (auto simp: drainFull.simps)
  note unfold = scheduleInternal_def drain delay_def [symmetric] Option.bind.simps Let_def prod.case
  have cyc: "unat (cur + ucast x) = unat cur + unat x" for x :: u32
    using room unat_u32_lt [of x] by (subst unat_add_no_wrap) (simp_all del: unat_u32_lt)
  from len(1) show ?thesis
  proof (cases rule: scanWin_first_fit [of "curWin w" "H w" t r m "curPos w + delay" "lastPort w"])
    case (some pos)
    let ?sc = "cur + ucast (pos - curPos w)"
    have lo: "curPos w \<le> pos" using some(2) d by (simp add: word_le_nat_alt)
    then have sc: "unat ?sc = unat cur + (unat pos - ?p)" using cyc by (simp add: unat_sub_no_wrap)
    have ps: "unat pos = ?p + (unat ?sc - unat cur)" using sc lo by (simp add: word_le_nat_alt)
    have sclo: "unat cur \<le> unat ?sc" using sc by linarith
    note sl = books_curWin(1) [where t = t, OF inv sclo ps some(3,4) notfull, simplified]
      and bk = books_curWin(2) [where t = t and r = r, OF inv sclo ps some(3,4) notfull, simplified]
    have "avail (slot w cur n) m = 0" if "?start \<le> unat n" "unat n < unat ?sc" for n
    proof -
      have "?p + (unat n - unat cur) < ?h" "unat (curPos w + delay) \<le> ?p + (unat n - unat cur)"
        "?p + (unat n - unat cur) < unat pos"
        using that some(3) d ps by linarith+
      then show ?thesis using some(5) by (simp add: slot_def Let_def)
    qed
    moreover have "scheduleInternal t r w cur sched m = Some (w\<lparr>curWin := (curWin w)[unat pos := booked t (curWin w ! unat pos) m],
           lastPort := (if t then slot_port r (curWin w ! unat pos) m (lastPort w) else lastPort w),
           occupancy := occupancy w + (if t then 1 else 0)\<rparr>, cur, ?sc)"
      using some(1,3) by (simp add: unfold word_le_nat_alt not_le)
    moreover have "?start \<le> unat ?sc" using some(2) d sc by linarith
    ultimately show ?thesis using sl bk some(4) by (intro exI conjI) (assumption | simp)+
  next
    case (none pos)
    have ppd: "?p + (?start - unat cur) < 2 ^ 32" using unat_u32_lt [of "curPos w + delay"] unfolding d by simp
    have ph: "H w \<le> pos" using none(2) by (simp add: word_le_nat_alt)
    have q0: "unat (pos - H w) = max (?p + (?start - unat cur)) ?h - ?h"
      using none(2) d ph by (simp add: unat_sub_no_wrap)
    have q0h: "?h + unat (pos - H w) = max (?p + (?start - unat cur)) ?h" using q0 by simp
    have curfull: "avail (slot w cur n) m = 0"
      if "?start \<le> unat n" "?p + (unat n - unat cur) < ?h" for n
    proof -
      have "unat (curPos w + delay) \<le> ?p + (unat n - unat cur)" using that d by linarith
      then show ?thesis using none(3) that(2) by (simp add: slot_def Let_def)
    qed
    show ?thesis
      using len(2)
    proof (cases rule: scanWin_first_fit [of "nextWin w" "H w" t r m "pos - H w" "lastPort w"])
      case (some q)
      let ?sc = "cur + ucast (q + H w - curPos w)"
      have qh: "unat (q + H w) = unat q + ?h" using some(3) h by (subst unat_add_no_wrap) simp_all
      have "unat (q + H w - curPos w) = unat q + ?h - ?p"
        using qh p by (subst unat_sub_no_wrap) (simp_all add: word_le_nat_alt)
      then have sc: "unat ?sc = unat cur + (unat q + ?h - ?p)" using cyc by simp
      have ps: "?h + unat q = ?p + (unat ?sc - unat cur)" using sc p by linarith
      have lo: "unat cur \<le> unat ?sc" using sc by linarith
      note sl = books_nextWin(1) [where t = t, OF inv lo ps some(3,4) notfull, simplified]
      and bk = books_nextWin(2) [where t = t and r = r, OF inv lo ps some(3,4) notfull, simplified]
      have "avail (slot w cur n) m = 0" if n: "?start \<le> unat n" "unat n < unat ?sc" for n
      proof (cases "?p + (unat n - unat cur) < ?h")
        case False
        have "unat (pos - H w) \<le> ?p + (unat n - unat cur) - ?h" "?p + (unat n - unat cur) - ?h < unat q"
          "?p + (unat n - unat cur) < 2 * ?h"
          using q0h False n ps some(3) by linarith+
        then show ?thesis using some(5) False by (simp add: slot_def Let_def)
      qed (rule curfull [OF n(1)])
      moreover have "scheduleInternal t r w cur sched m = Some (w\<lparr>nextWin := (nextWin w)[unat q := booked t (nextWin w ! unat q) m],
             lastPort := (if t then slot_port r (nextWin w ! unat q) m (lastPort w) else lastPort w),
             occupancy := occupancy w + (if t then 1 else 0)\<rparr>, cur, ?sc)"
        using none(1) ph some(1,3) by (simp add: unfold word_le_nat_alt not_le)
      moreover have "?start \<le> unat ?sc" using q0h some(2) ps sc p by linarith
      ultimately show ?thesis using sl bk some(4) by (intro exI conjI) (assumption | simp)+
    next
      case none2: (none q)
      let ?s1 = "cur + ucast (q + H w - curPos w)"
      have qh: "unat q + ?h = max (?p + (?start - unat cur)) (2 * ?h)" using none2(2) q0h by linarith
      then have "unat (q + H w) = unat q + ?h" using ppd h by (subst unat_add_no_wrap) simp_all
      then have "unat (q + H w - curPos w) = unat q + ?h - ?p"
        using qh p by (subst unat_sub_no_wrap) (simp_all add: word_le_nat_alt)
      then have s1: "unat ?s1 = unat cur + (unat q + ?h - ?p)" using cyc by simp
      have s1p: "unat ?s1 + ?p = unat cur + max (?p + (?start - unat cur)) (2 * ?h)" using s1 qh p by linarith
      have "unat ?s1 \<le> unat cur + 4294967296" using s1p ppd h by simp
      then have "unat ?s1 + length (ubWin w) < 2 ^ 64" using room by simp
      from scheduleUb_first_fit [OF m srt this, of t r "lastPort w"] obtain ub' sc where
        ub: "scheduleUb t r m ?s1 (ubWin w) (lastPort w)
            = Some (ub', (if t then slot_port r (ub_slot (ubWin w) sc) m (lastPort w) else lastPort w), sc)"
          "unat ?s1 \<le> unat sc"
          "\<forall>n. unat ?s1 \<le> unat n \<and> unat n < unat sc \<longrightarrow> avail (ub_slot (ubWin w) n) m = 0"
          "avail (ub_slot (ubWin w) sc) m \<noteq> 0"
          "sorted_wrt (\<lambda>a b. unat (fst a) < unat (fst b)) ub'"
          "\<forall>b \<le> unat ?s1. list_all (\<lambda>e. b \<le> unat (fst e)) (ubWin w) \<longrightarrow> list_all (\<lambda>e. b \<le> unat (fst e)) ub'"
          "\<forall>n. ub_slot ub' n = (if n = sc then booked t (ub_slot (ubWin w) sc) m else ub_slot (ubWin w) n)"
          "cycles_count (map snd ub') + unat (wcount (ub_slot (ubWin w) sc))
             = cycles_count (map snd (ubWin w)) + unat (wcount (booked t (ub_slot (ubWin w) sc) m))"
        by blast
      have lo: "unat cur + 2 * ?h \<le> unat sc + ?p" using s1p ub(2) by linarith
      have "list_all (\<lambda>e. unat cur + 2 * ?h - ?p \<le> unat (fst e)) (ubWin w)"
        using keys by (auto simp: list_all_iff)
      moreover have "unat cur + 2 * ?h - ?p \<le> unat ?s1" using s1p by linarith
      ultimately have keys': "list_all (\<lambda>e. unat cur + 2 * ?h - ?p \<le> unat (fst e)) ub'"
        using ub(6) by blast
      note sl = books_ubWin(1) [where t = t, OF inv lo ub(5) keys' ub(7,8,4) notfull, simplified]
      and bk = books_ubWin(2) [where t = t and r = r, OF inv lo ub(5) keys' ub(7,8,4) notfull, simplified]
      have "avail (slot w cur n) m = 0" if n: "?start \<le> unat n" "unat n < unat sc" for n
      proof (cases "?p + (unat n - unat cur) < ?h")
        case False
        have near: "unat (pos - H w) \<le> ?p + (unat n - unat cur) - ?h" using q0h False n by linarith
        show ?thesis
        proof (cases "?p + (unat n - unat cur) < 2 * ?h")
          case True
          then have "?p + (unat n - unat cur) - ?h < ?h" using False by linarith
          then show ?thesis using near none2(3) False True by (simp add: slot_def Let_def)
        next
          case far: False
          then have "unat ?s1 \<le> unat n" using s1p n by linarith
          then show ?thesis using ub(3) n(2) False far by (simp add: slot_def Let_def)
        qed
      qed (rule curfull [OF n(1)])
      moreover have "scheduleInternal t r w cur sched m = Some (w\<lparr>ubWin := ub',
             lastPort := (if t then slot_port r (ub_slot (ubWin w) sc) m (lastPort w) else lastPort w),
             occupancy := occupancy w + (if t then 1 else 0)\<rparr>, cur, sc)"
        using none(1) ph none2(1,2) ub(1) by (simp add: unfold word_le_nat_alt not_le)
      moreover have "?start \<le> unat sc" using s1p ub(2) p by linarith
      ultimately show ?thesis using sl bk ub(4) by (intro exI conjI) (assumption | simp)+
    qed
  qed
qed

text \<open>The window at a later cycle, with every cycle that is still to come unchanged.\<close>

definition later :: "WindowStructure \<Rightarrow> u64 \<Rightarrow> WindowStructure \<Rightarrow> u64 \<Rightarrow> bool" where
  "later w cur w' cur' =
     (win_inv w' cur' \<and> unat cur \<le> unat cur'
      \<and> (\<forall>k. unat cur' \<le> unat k \<longrightarrow> slot w' cur' k = slot w cur k)
      \<and> H w' = H w \<and> WSZ w' = WSZ w \<and> (\<exists>k. ubWin w' = drop k (ubWin w)))"

lemma later_refl: "win_inv w cur \<Longrightarrow> later w cur w cur"
  unfolding later_def by (intro conjI exI [of _ 0]) simp_all

lemma later_trans: "later w cur w1 cur1 \<Longrightarrow> later w1 cur1 w2 cur2 \<Longrightarrow> later w cur w2 cur2"
  unfolding later_def by (auto simp: intro: order_trans)

lemma advancePos_later:
  assumes "win_inv w cur" and "unat cur + 2 ^ 33 < 2 ^ 64"
  shows "\<exists>w'. advancePos w cur = Some (w', cur + 1) \<and> later w cur w' (cur + 1)
     \<and> unat (occupancy w') + unat (wcount (slot w cur cur)) = unat (occupancy w)"
proof -
  have "unat cur + 4 * unat (H w) < 2 ^ 64" using assms by (auto simp: win_inv_def)
  from advancePos_refines [OF assms(1) this] obtain w1 where w1:
      "advancePos w cur = Some (w1, cur + 1)" "win_inv w1 (cur + 1)"
      "\<forall>n. unat cur < unat n \<longrightarrow> slot w1 (cur + 1) n = slot w cur n"
      "unat (occupancy w1) + unat (wcount (slot w cur cur)) = unat (occupancy w)"
      "H w1 = H w" "WSZ w1 = WSZ w" "\<exists>k. ubWin w1 = drop k (ubWin w)" by blast
  have "unat (cur + 1) = unat cur + 1" using assms(2) by (intro unat_suc_u64) simp
  then have "later w cur w1 (cur + 1)" using w1(2,3,5-7) by (simp add: later_def)
  then show ?thesis using w1(1,4) by blast
qed

lemma drainFull_not_full: "occupancy w \<noteq> WSZ w \<Longrightarrow> drainFull w cur = Some (w, cur)"
  by (subst drainFull.simps) simp

text \<open>Draining a full window ends: it stops at the latest after a cycle that holds an operation.\<close>

lemma drainFull_ends:
  assumes "win_inv w cur" "unat (occupancy w) \<le> unat (WSZ w)" "unat cur \<le> n"
    and "0 < unat (wcount (slot w cur (of_nat n)))" "n + 2 ^ 33 < 2 ^ 64"
  shows "\<exists>w' cur'. drainFull w cur = Some (w', cur') \<and> later w cur w' cur'
     \<and> unat (occupancy w') < unat (WSZ w') \<and> unat cur' \<le> n + 1"
  using assms
proof (induction "n - unat cur" arbitrary: w cur rule: less_induct)
  case (less cur w)
  show ?case
  proof (cases "occupancy w = WSZ w")
    case False
    then have "unat (occupancy w) < unat (WSZ w)" using less.prems(2) by (simp add: nat_less_le word_unat_eq_iff)
    then show ?thesis using drainFull_not_full [OF False] later_refl [OF less.prems(1)] less.prems(3)
      by (intro exI [of _ w] exI [of _ cur]) simp
  next
    case True
    have "unat cur + 2 ^ 33 < 2 ^ 64" using less.prems(3,5) by linarith
    then obtain w1 where w1: "advancePos w cur = Some (w1, cur + 1)" "later w cur w1 (cur + 1)"
      "unat (occupancy w1) + unat (wcount (slot w cur cur)) = unat (occupancy w)"
      using advancePos_later [OF less.prems(1)] by blast
    have inv1: "win_inv w1 (cur + 1)" and sz: "WSZ w1 = WSZ w" using w1(2) by (simp_all add: later_def)
    have suc: "unat (cur + 1) = unat cur + 1"
      using less.prems(3,5) by (intro unat_suc_u64) simp
    have go: "drainFull w cur = drainFull w1 (cur + 1)" using True w1(1) by (subst drainFull.simps) simp
    have le: "unat (occupancy w1) \<le> unat (WSZ w1)" using w1(3) less.prems(2) sz by simp
    show ?thesis
    proof (cases "unat cur = n")
      case True
      then have "0 < unat (wcount (slot w cur cur))" using less.prems(4) by auto
      then have lt: "unat (occupancy w1) < unat (WSZ w1)" using w1(3) sz less.prems(2) by simp
      then have "occupancy w1 \<noteq> WSZ w1" by auto
      then have "drainFull w cur = Some (w1, cur + 1)" using go drainFull_not_full by simp
      then show ?thesis using w1(2) lt suc True by (intro exI [of _ w1] exI [of _ "cur + 1"]) simp
    next
      case False
      have un: "unat (of_nat n :: u64) = n" using less.prems(5) by (simp add: unat_of_nat)
      have "slot w1 (cur + 1) (of_nat n) = slot w cur (of_nat n)"
        using w1(2) un suc False less.prems(3) by (simp add: later_def)
      moreover have "n - unat (cur + 1) < n - unat cur" "unat (cur + 1) \<le> n"
        using suc False less.prems(3) by linarith+
      ultimately obtain w' cur' where "drainFull w1 (cur + 1) = Some (w', cur')" "later w1 (cur + 1) w' cur'"
        "unat (occupancy w') < unat (WSZ w')" "unat cur' \<le> n + 1"
        using less.hyps [of "cur + 1" w1] inv1 le less.prems(4,5) by auto
      then show ?thesis using go later_trans [OF w1(2)] by auto
    qed
  qed
qed

lemma cycles_count_pos: "0 < cycles_count xs \<Longrightarrow> \<exists>i < length xs. 0 < unat (wcount (xs ! i))"
proof (induction xs)
  case (Cons c xs)
  show ?case
  proof (cases "0 < unat (wcount c)")
    case False
    with Cons show ?thesis by (auto simp: cycles_count_def)
  qed (auto intro: exI [of _ 0])
qed (simp add: cycles_count_def)

lemma occupied_slot:
  assumes inv: "win_inv w cur" and occ: "0 < unat (occupancy w)"
    and top: "unat cur + 2 * unat (H w) < B" "list_all (\<lambda>e. unat (fst e) < B) (ubWin w)" "B < 2 ^ 64"
  shows "\<exists>n. unat cur \<le> n \<and> n < B \<and> 0 < unat (wcount (slot w cur (of_nat n)))"
proof -
  let ?h = "unat (H w)" and ?p = "unat (curPos w)"
  from inv have len: "length (curWin w) = ?h" "length (nextWin w) = ?h"
    and p: "?p < ?h" and free: "list_all (\<lambda>c. c = free_cycle) (take ?p (curWin w))"
    and srt: "sorted_wrt (\<lambda>a b. unat (fst a) < unat (fst b)) (ubWin w)"
    and keys: "list_all (\<lambda>e. unat cur + 2 * ?h \<le> unat (fst e) + ?p) (ubWin w)"
    and cnt: "unat (occupancy w) = cycles_count (curWin w) + cycles_count (nextWin w) + cycles_count (map snd (ubWin w))"
    by (auto simp: win_inv_def word_less_nat_alt)
  have un: "unat (of_nat n :: u64) = n" if "n < B" for n using that top(3) by (simp add: unat_of_nat)
  consider i where "i < ?h" "0 < unat (wcount (curWin w ! i))"
    | i where "i < ?h" "0 < unat (wcount (nextWin w ! i))"
    | k c where "(k, c) \<in> set (ubWin w)" "0 < unat (wcount c)"
    using cnt occ cycles_count_pos [of "curWin w"] cycles_count_pos [of "nextWin w"]
      cycles_count_pos [of "map snd (ubWin w)"] len
    by (metis add_gr_0 length_map nth_map nth_mem prod.collapse)
  then show ?thesis
  proof cases
    case 1
    have "?p \<le> i"
    proof (rule ccontr)
      assume "\<not> ?p \<le> i"
      then have "curWin w ! i = free_cycle" using list_all_nth [OF free, of i] 1(1) len by simp
      with 1(2) show False by simp
    qed
    moreover define n where "n = unat cur + (i - ?p)"
    ultimately have n: "n < B" "unat cur \<le> n" "?p + (n - unat cur) = i" using top(1) 1(1) by linarith+
    then show ?thesis using 1 un [OF n(1)] by (intro exI [of _ n]) (simp add: slot_def Let_def)
  next
    case 2
    define n where "n = unat cur + (?h + i - ?p)"
    then have n: "n < B" "unat cur \<le> n" "?p + (n - unat cur) = ?h + i" using top(1) 2(1) p by linarith+
    then show ?thesis using 2 un [OF n(1)] by (intro exI [of _ n]) (simp add: slot_def Let_def)
  next
    case 3
    then have "unat cur + 2 * ?h \<le> unat k + ?p" "unat k < B" using keys top(2) by (auto simp: list_all_iff)
    moreover from this have "\<not> ?p + (unat k - unat cur) < 2 * ?h" by linarith
    ultimately show ?thesis using 3 p ub_slot_mem [OF srt 3(1)]
      by (intro exI [of _ "unat k"]) (simp add: slot_def Let_def)
  qed
qed

section \<open>Properties of the window\<close>

lemma win_inv_new: "0 < h \<Longrightarrow> 4 * unat h < 2 ^ 32 \<Longrightarrow> win_inv (WindowStructure_new h wsz lp) cur"
  by (simp add: win_inv_def WindowStructure_new_def free_cycle_eq list_all_iff cycles_count_free)

text \<open>The bounds under which no cycle number of the run wraps around.\<close>

definition horizon_ok :: "WindowStructure \<Rightarrow> u64 \<Rightarrow> bool" where
  "horizon_ok w cur = (unat cur < 2 ^ 62 \<and> length (ubWin w) < 2 ^ 32
     \<and> list_all (\<lambda>e. unat (fst e) < 2 ^ 62) (ubWin w))"

lemma scheduleInternal_drained:
  assumes "drainFull w cur = Some (w1, cur1)" "occupancy w1 \<noteq> WSZ w1"
  shows "scheduleInternal True r w cur sched m = scheduleInternal True r w1 cur1 sched m"
  by (simp add: scheduleInternal_def assms drainFull_not_full)

lemma drainFull_total:
  assumes inv: "win_inv w cur" and sz: "0 < WSZ w" "occupancy w \<le> WSZ w" and hz: "horizon_ok w cur"
  shows "\<exists>w1 cur1. drainFull w cur = Some (w1, cur1) \<and> later w cur w1 cur1
     \<and> occupancy w1 < WSZ w1 \<and> unat cur1 < 2 ^ 63"
proof (cases "occupancy w = WSZ w")
  case False
  then show ?thesis using sz(2) later_refl [OF inv] drainFull_not_full [OF False] hz
    by (intro exI [of _ w] exI [of _ cur]) (simp add: horizon_ok_def)
next
  case True
  have h: "4 * unat (H w) < 2 ^ 32" using inv by (simp add: win_inv_def)
  have "0 < unat (occupancy w)" using True sz(1) by (simp add: unat_gt_0)
  moreover have "unat cur + 2 * unat (H w) < 2 ^ 62 + 2 ^ 32" using hz h by (simp add: horizon_ok_def)
  moreover have "list_all (\<lambda>e. unat (fst e) < 2 ^ 62 + 2 ^ 32) (ubWin w)"
    using hz by (force simp: horizon_ok_def list_all_iff)
  ultimately obtain n where n: "unat cur \<le> n" "n < 2 ^ 62 + 2 ^ 32" "0 < unat (wcount (slot w cur (of_nat n)))"
    using occupied_slot [OF inv] by fastforce
  have "n + 2 ^ 33 < 2 ^ 64" using n(2) by simp
  from drainFull_ends [OF inv _ n(1,3) this] sz(2) obtain w1 cur1 where
    "drainFull w cur = Some (w1, cur1)" "later w cur w1 cur1"
    "unat (occupancy w1) < unat (WSZ w1)" "unat cur1 \<le> n + 1" by (auto simp: word_le_nat_alt)
  then show ?thesis using n(2) by (intro exI [of _ w1] exI [of _ cur1]) (simp add: word_less_nat_alt)
qed

text \<open>
  \<open>within C w cur\<close>: the two windows end by cycle \<open>C\<close> and the unbounded window holds cycles before
  \<open>C\<close> only.  The bound is what the core models need to chain operations on the window.
\<close>

definition within :: "nat \<Rightarrow> WindowStructure \<Rightarrow> u64 \<Rightarrow> bool" where
  "within C w cur = (unat cur + 2 * unat (H w) \<le> C \<and> list_all (\<lambda>e. unat (fst e) < C) (ubWin w))"

lemma within_mono: "within C w cur \<Longrightarrow> C \<le> D \<Longrightarrow> within D w cur"
  by (auto simp: within_def list_all_iff)

lemma within_later:
  assumes "within C w cur" "later w cur w' cur'" "unat cur' + 2 * unat (H w) \<le> D" "C \<le> D"
  shows "within D w' cur'"
proof -
  obtain k where "ubWin w' = drop k (ubWin w)" "H w' = H w" using assms(2) by (auto simp: later_def)
  moreover have "list_all (\<lambda>e. unat (fst e) < D) (ubWin w)" using assms(1,4) by (auto simp: within_def list_all_iff)
  ultimately show ?thesis using assms(3) by (auto simp: within_def list_all_iff dest: in_set_dropD)
qed

lemma within_length:
  assumes "win_inv w cur" "within C w cur"
  shows "length (ubWin w) \<le> C"
proof -
  have "sorted_wrt (<) (map (unat \<circ> fst) (ubWin w))" using assms(1) by (simp add: win_inv_def sorted_wrt_map)
  then have "distinct (map (unat \<circ> fst) (ubWin w))" by (simp add: strict_sorted_iff)
  moreover have "set (map (unat \<circ> fst) (ubWin w)) \<subseteq> {..<C}" using assms(2) by (auto simp: within_def list_all_iff)
  ultimately show ?thesis by (metis card_lessThan card_mono distinct_card finite_lessThan length_map)
qed

lemma scanUb_keys:
  "scanUb t r m sc ub lp = Some (ub', lp', sc') \<Longrightarrow> fst ` set ub' \<subseteq> insert sc' (fst ` set ub)"
proof (induction ub arbitrary: sc lp ub' lp')
  case Nil
  then show ?case by (auto split: prod.splits if_splits elim!: bind_Some_elim)
next
  case (Cons e ub)
  obtain k c where e: "e = (k, c)" by (cases e)
  show ?case
  proof (cases "k = sc")
    case False
    then show ?thesis using Cons.prems by (auto simp: e split: prod.splits if_splits elim!: bind_Some_elim)
  next
    case True
    obtain wc lp1 av where t: "trySchedule t r c m lp = (wc, lp1, av)" by (metis prod.exhaust)
    show ?thesis
    proof (cases "av = 0")
      case True
      then obtain it where it: "scanUb t r m (sc + 1) ub lp1 = Some (it, lp', sc')" "ub' = (k, wc) # it"
        using Cons.prems \<open>k = sc\<close> t by (auto simp: e elim!: bind_Some_elim)
      from Cons.IH [OF it(1)] show ?thesis using it(2) by (auto simp: e)
    next
      case False
      then show ?thesis using Cons.prems \<open>k = sc\<close> t by (auto simp: e)
    qed
  qed
qed

lemma scheduleUb_keys:
  assumes "scheduleUb t r m s ub lp = Some (ub', lp', sc')"
  shows "fst ` set ub' \<subseteq> insert sc' (fst ` set ub)"
proof -
  from assms obtain it where it: "scanUb t r m s (dropWhile (\<lambda>e. fst e < s) ub) lp = Some (it, lp', sc')"
    "ub' = takeWhile (\<lambda>e. fst e < s) ub @ it" by (auto simp: scheduleUb_def elim!: bind_Some_elim)
  have "fst ` set (dropWhile (\<lambda>e. fst e < s) ub) \<subseteq> fst ` set ub"
    "fst ` set (takeWhile (\<lambda>e. fst e < s) ub) \<subseteq> fst ` set ub"
    by (auto dest: set_takeWhileD set_dropWhileD)
  with scanUb_keys [OF it(1)] it(2) show ?thesis by auto
qed

lemma scheduleInternal_keys:
  assumes "scheduleInternal True r w cur sched m = Some (w', cur', sc)" "occupancy w \<noteq> WSZ w"
  shows "fst ` set (ubWin w') \<subseteq> insert sc (fst ` set (ubWin w))"
proof -
  obtain cw lp pos w2 where w2: "w' = w2\<lparr>occupancy := occupancy w2 + 1\<rparr>"
    "(if pos \<ge> H w then do {
        (nw, lp', nextWinPos) \<leftarrow> scanWin True r m (H w) (pos - H w) (nextWin w) lp;
        let w1' = (w\<lparr>curWin := cw, lastPort := lp\<rparr>)\<lparr>nextWin := nw, lastPort := lp'\<rparr>;
        let sc1 = cur + ucast (nextWinPos + H w - curPos w);
        (if nextWinPos \<ge> H w then do {
           (ub, lp'', sc2) \<leftarrow> scheduleUb True r m sc1 (ubWin w) lp';
           Some (w1'\<lparr>ubWin := ub, lastPort := lp''\<rparr>, sc2)
         }
         else Some (w1', sc1))
      }
      else Some (w\<lparr>curWin := cw, lastPort := lp\<rparr>, cur + ucast (pos - curPos w))) = Some (w2, sc)"
    using assms(1) unfolding scheduleInternal_def drainFull_not_full [OF assms(2)]
    by (auto simp: Let_def simp del: split_paired_Ex elim!: bind_Some_elim cong: if_cong)
  show ?thesis
  proof (cases "pos \<ge> H w")
    case False
    then have "ubWin w2 = ubWin w" using w2(2) by auto
    then show ?thesis using w2(1) by auto
  next
    case True
    then obtain nw lp' np where nx: "(if np \<ge> H w then do {
           (ub, lp'', sc2) \<leftarrow> scheduleUb True r m (cur + ucast (np + H w - curPos w)) (ubWin w) lp';
           Some (w\<lparr>curWin := cw, nextWin := nw, lastPort := lp', ubWin := ub, lastPort := lp''\<rparr>, sc2)
         }
         else Some (w\<lparr>curWin := cw, nextWin := nw, lastPort := lp'\<rparr>,
                    cur + ucast (np + H w - curPos w))) = Some (w2, sc)"
      using w2(2) by (auto simp: Let_def elim!: bind_Some_elim)
    show ?thesis
    proof (cases "np \<ge> H w")
      case False
      then have "ubWin w2 = ubWin w" using nx by auto
      then show ?thesis using w2(1) by auto
    next
      case True
      then obtain ub lp'' where ub: "scheduleUb True r m (cur + ucast (np + H w - curPos w)) (ubWin w) lp' = Some (ub, lp'', sc)"
        "ubWin w2 = ub" using nx by (auto elim!: bind_Some_elim)
      then show ?thesis using scheduleUb_keys [OF ub(1)] w2(1) by simp
    qed
  qed
qed

text \<open>Far out every cycle is free.\<close>

lemma slot_far:
  assumes "within C w cur" "C \<le> unat n"
  shows "slot w cur n = free_cycle"
proof -
  have "unat cur + 2 * unat (H w) \<le> C" using assms(1) by (simp add: within_def)
  then have "\<not> unat (curPos w) + (unat n - unat cur) < 2 * unat (H w)" using assms(2) by linarith
  moreover have "map_of (ubWin w) n = None"
    using assms by (auto simp: within_def list_all_iff map_of_eq_None_iff)
  ultimately show ?thesis by (simp add: slot_def Let_def ub_slot_def)
qed

lemma drainFull_within:
  assumes inv: "win_inv w cur" and sz: "0 < WSZ w" "occupancy w \<le> WSZ w" and C: "within C w cur" "C + 2 ^ 34 < 2 ^ 64"
  shows "\<exists>w1 cur1. drainFull w cur = Some (w1, cur1) \<and> later w cur w1 cur1 \<and> occupancy w1 < WSZ w1 \<and> unat cur1 \<le> C + 1"
proof (cases "occupancy w = WSZ w")
  case False
  then show ?thesis using sz(2) later_refl [OF inv] drainFull_not_full [OF False] C(1)
    by (intro exI [of _ w] exI [of _ cur]) (simp add: within_def)
next
  case True
  have "0 < unat (occupancy w)" using True sz(1) by (simp add: unat_gt_0)
  moreover have "unat cur + 2 * unat (H w) < C + 1" "list_all (\<lambda>e. unat (fst e) < C + 1) (ubWin w)" "C + 1 < 2 ^ 64"
    using C by (auto simp: within_def list_all_iff)
  ultimately obtain n where n: "unat cur \<le> n" "n < C + 1" "0 < unat (wcount (slot w cur (of_nat n)))"
    using occupied_slot [OF inv] by blast
  have "n + 2 ^ 33 < 2 ^ 64" using n(2) C(2) by simp
  from drainFull_ends [OF inv _ n(1,3) this] sz(2) obtain w1 cur1 where
    "drainFull w cur = Some (w1, cur1)" "later w cur w1 cur1"
    "unat (occupancy w1) < unat (WSZ w1)" "unat cur1 \<le> n + 1" by (auto simp: word_le_nat_alt)
  then show ?thesis using n(2) by (intro exI [of _ w1] exI [of _ cur1]) (simp add: word_less_nat_alt)
qed

lemma schedule_within:
  assumes inv: "win_inv w cur" and m: "m \<noteq> 0" and sz: "0 < WSZ w" "occupancy w \<le> WSZ w"
    and C: "within C w cur" "2 * C + 2 ^ 35 < 2 ^ 64" and near: "unat sched + unat (H w) < unat cur + 2 ^ 32"
    and sched: "unat sched \<le> C"
  shows "\<exists>w' cur' sc. schedule w cur sched m 0 = Some (w', cur', sc) \<and> win_inv w' cur' \<and> occupancy w' \<le> WSZ w'
    \<and> H w' = H w \<and> WSZ w' = WSZ w \<and> unat cur \<le> unat cur' \<and> unat cur' \<le> unat sc \<and> unat sched \<le> unat sc
    \<and> unat sc \<le> C + 1 + 2 * unat (H w) \<and> within (C + 2 + 2 * unat (H w)) w' cur'"
proof -
  let ?h = "unat (H w)"
  have C34: "C + 2 ^ 34 < 2 ^ 64" using C(2) by simp
  obtain w1 cur1 where d: "drainFull w cur = Some (w1, cur1)" "later w cur w1 cur1"
     "occupancy w1 < WSZ w1" "unat cur1 \<le> C + 1" using drainFull_within [OF inv sz C(1) C34] by blast
  have inv1: "win_inv w1 cur1" and lo: "unat cur \<le> unat cur1" and hw: "H w1 = H w" "WSZ w1 = WSZ w"
    using d(2) by (simp_all add: later_def)
  have h: "4 * ?h < 2 ^ 32" using inv by (simp add: win_inv_def)
  have w1: "within (C + 1 + 2 * ?h) w1 cur1" by (rule within_later [OF C(1) d(2)]) (use d(4) in simp_all)
  have len: "length (ubWin w1) \<le> C + 1 + 2 * ?h" by (rule within_length [OF inv1 w1])
  have room: "unat cur1 + 2 ^ 33 + length (ubWin w1) < 2 ^ 64" using d(4) len h C(2) by simp
  have "unat (curPos w1) < ?h" using inv1 hw by (simp add: win_inv_def word_less_nat_alt)
  then have near1: "unat sched + unat (curPos w1) < unat cur1 + 2 ^ 32" using near lo by linarith
  obtain w' sc where w': "scheduleInternal True False w1 cur1 sched m = Some (w', cur1, sc)"
    "max (unat cur1) (unat sched) \<le> unat sc"
    "\<forall>n. max (unat cur1) (unat sched) \<le> unat n \<and> unat n < unat sc \<longrightarrow> avail (slot w1 cur1 n) m = 0"
    "books True False m w1 cur1 sc w'"
    using scheduleInternal_first_fit [where t = True and r = False, OF inv1 m d(3) near1 room] by blast
  have top: "unat sc \<le> C + 1 + 2 * ?h"
  proof (rule ccontr)
    assume late: "\<not> unat sc \<le> C + 1 + 2 * ?h"
    define n0 where "n0 = C + 1 + 2 * ?h"
    have "n0 < 2 ^ 64" using C(2) h by (simp add: n0_def)
    then have un: "unat (of_nat n0 :: u64) = n0" by (simp add: unat_of_nat)
    have "max (unat cur1) (unat sched) \<le> n0" using d(4) sched by (simp add: n0_def)
    then have "avail (slot w1 cur1 (of_nat n0)) m = 0"
      using w'(3) [rule_format, of "of_nat n0"] un late [folded n0_def] by simp
    moreover have "slot w1 cur1 (of_nat n0) = free_cycle"
      by (rule slot_far [OF w1], simp only: un) (simp add: n0_def)
    ultimately show False using m by simp
  qed
  have occ: "occupancy w' \<le> WSZ w'"
    using w'(4) d(3) unat_suc_u32 [OF d(3)] by (simp add: books_def word_le_nat_alt word_less_nat_alt)
  then have run: "schedule w cur sched m 0 = Some (w', cur1, sc)"
    using scheduleInternal_drained [OF d(1)] d(3) w'(1) by (simp add: schedule_def)
  have bk: "win_inv w' cur1" "H w' = H w" "WSZ w' = WSZ w" using w'(4) hw by (simp_all add: books_def)
  have "occupancy w1 \<noteq> WSZ w1" using d(3) by simp
  from scheduleInternal_keys [OF w'(1) this] have "list_all (\<lambda>e. unat (fst e) < C + 2 + 2 * ?h) (ubWin w')"
    using w1 top by (fastforce simp: within_def list_all_iff)
  then have "within (C + 2 + 2 * ?h) w' cur1" using bk(2) d(4) by (simp add: within_def)
  then show ?thesis using run bk occ lo w'(2) top by auto
qed

text \<open>
  Claim C1. Issue scheduling. On a consistent window, \<open>schedule\<close> of a one-slot operation never fails:
  it drains a full window until an entry is free, and then books the operation in the first cycle
  from \<open>max curCycle schedCycle\<close> on in which a port of \<open>portMask\<close> is free, wherever that cycle is
  stored. The booking takes the lowest such port, no other future cycle changes, the occupancy
  stays within the window size and the window stays consistent.
\<close>

theorem schedule_first_fit:
  assumes inv: "win_inv w cur" and m: "m \<noteq> 0" and sz: "0 < WSZ w" "occupancy w \<le> WSZ w"
    and hz: "horizon_ok w cur" and near: "unat sched + unat (H w) < unat cur + 2 ^ 32"
  shows "\<exists>w' cur' sc. schedule w cur sched m 0 = Some (w', cur', sc)
    \<and> win_inv w' cur' \<and> occupancy w' \<le> WSZ w' \<and> unat cur \<le> unat cur'
    \<and> max (unat cur') (unat sched) \<le> unat sc
    \<and> NOT (occUnits (slot w cur sc)) AND m \<noteq> 0
    \<and> (\<forall>n. max (unat cur') (unat sched) \<le> unat n \<and> unat n < unat sc \<longrightarrow> NOT (occUnits (slot w cur n)) AND m = 0)
    \<and> (\<forall>n. unat cur' \<le> unat n \<longrightarrow> slot w' cur' n =
         (if n = sc then (slot w cur sc)\<lparr>
             occUnits := occUnits (slot w cur sc) OR push_bit (ctz (NOT (occUnits (slot w cur sc)) AND m)) 1,
             wcount := wcount (slot w cur sc) + 1\<rparr>
          else slot w cur n))"
proof -
  obtain w1 cur1 where d: "drainFull w cur = Some (w1, cur1)" "later w cur w1 cur1"
     "occupancy w1 < WSZ w1" "unat cur1 < 2 ^ 63" using drainFull_total [OF inv sz hz] by blast
  have inv1: "win_inv w1 cur1" and lo: "unat cur \<le> unat cur1" and hw: "H w1 = H w" "WSZ w1 = WSZ w"
    and sl: "\<forall>n. unat cur1 \<le> unat n \<longrightarrow> slot w1 cur1 n = slot w cur n"
    using d(2) by (simp_all add: later_def)
  have "length (ubWin w1) \<le> length (ubWin w)" using d(2) by (auto simp: later_def)
  then have room: "unat cur1 + 2 ^ 33 + length (ubWin w1) < 2 ^ 64"
    using d(4) hz by (simp add: horizon_ok_def)
  have "unat (curPos w1) < unat (H w)" using inv1 hw by (simp add: win_inv_def word_less_nat_alt)
  then have near1: "unat sched + unat (curPos w1) < unat cur1 + 2 ^ 32" using near lo by linarith
  obtain w' sc where w': "scheduleInternal True False w1 cur1 sched m = Some (w', cur1, sc)"
    "max (unat cur1) (unat sched) \<le> unat sc" "avail (slot w1 cur1 sc) m \<noteq> 0"
    "\<forall>n. max (unat cur1) (unat sched) \<le> unat n \<and> unat n < unat sc \<longrightarrow> avail (slot w1 cur1 n) m = 0"
    "books True False m w1 cur1 sc w'"
    using scheduleInternal_first_fit [where t = True and r = False, OF inv1 m d(3) near1 room] by blast
  have "occupancy w' \<le> WSZ w'"
    using w'(5) d(3) unat_suc_u32 [OF d(3)] by (simp add: books_def word_le_nat_alt word_less_nat_alt)
  then have "schedule w cur sched m 0 = Some (w', cur1, sc)"
    using scheduleInternal_drained [OF d(1)] d(3) w'(1) by (simp add: schedule_def)
  moreover have "slot w1 cur1 sc = slot w cur sc" using sl w'(2) by simp
  moreover have "slot w' cur1 n = (if n = sc then booked True (slot w cur sc) m else slot w cur n)"
    if "unat cur1 \<le> unat n" for n
    using w'(5) sl that calculation(2) by (simp add: books_def)
  ultimately show ?thesis
    using w'(2-5) sl lo \<open>occupancy w' \<le> WSZ w'\<close>
    by (intro exI [of _ w'] exI [of _ cur1] exI [of _ sc])
      (auto simp: books_def booked_def avail_def ffs_def)
qed

theorem schedule_first_fit_witness:
  "\<exists>w' cur' sc. schedule (WindowStructure_new 2 4 0) 0 3 5 0 = Some (w', cur', sc)
    \<and> win_inv w' cur' \<and> 3 \<le> unat sc"
proof -
  have inv: "win_inv (WindowStructure_new 2 4 0) 0" by (rule win_inv_new) simp_all
  have "5 \<noteq> (0 :: u8)" by simp
  moreover have "0 < WSZ (WindowStructure_new 2 4 0)"
    "occupancy (WindowStructure_new 2 4 0) \<le> WSZ (WindowStructure_new 2 4 0)"
    "horizon_ok (WindowStructure_new 2 4 0) 0"
    "unat (3 :: u64) + unat (H (WindowStructure_new 2 4 0)) < unat (0 :: u64) + 2 ^ 32"
    by (simp_all add: WindowStructure_new_def horizon_ok_def)
  ultimately obtain w' cur' sc where "schedule (WindowStructure_new 2 4 0) 0 3 5 0 = Some (w', cur', sc)"
    "win_inv w' cur'" "max (unat cur') (unat (3 :: u64)) \<le> unat sc"
    using schedule_first_fit [OF inv] by blast
  then show ?thesis by auto
qed

text \<open>
  Claim C4. \<open>advancePos\<close> moves a consistent window to the next cycle: its assertion on the entries of
  \<open>ubWin\<close> is never tripped, the window stays consistent, every cycle still to come keeps its
  ports across the swap of the two windows and the refill from \<open>ubWin\<close>, and the occupancy drops by
  exactly the operations that were booked in the cycle that ends.
\<close>

theorem advancePos_next_cycle:
  assumes "win_inv w cur" and "unat cur + 2 ^ 33 < 2 ^ 64"
  shows "\<exists>w'. advancePos w cur = Some (w', cur + 1) \<and> win_inv w' (cur + 1)
     \<and> (\<forall>n. unat cur < unat n \<longrightarrow> slot w' (cur + 1) n = slot w cur n)
     \<and> unat (occupancy w') + unat (wcount (slot w cur cur)) = unat (occupancy w)"
proof -
  have "unat (cur + 1) = unat cur + 1" using assms(2) by (intro unat_suc_u64) simp
  then show ?thesis using advancePos_later [OF assms] by (auto simp: later_def)
qed

theorem advancePos_next_cycle_witness:
  "\<exists>w'. advancePos (WindowStructure_new 2 4 0) 9 = Some (w', 10) \<and> win_inv w' 10"
proof -
  have inv: "win_inv (WindowStructure_new 2 4 0) 9" by (rule win_inv_new) simp_all
  have "unat (9 :: u64) + 2 ^ 33 < 2 ^ 64" by simp
  from advancePos_next_cycle [OF inv this] show ?thesis by auto
qed

text \<open>\<open>n\<close> cycles of the core, each one call of \<open>advancePos\<close>.\<close>

fun advances :: "nat \<Rightarrow> WindowStructure \<Rightarrow> u64 \<Rightarrow> (WindowStructure \<times> u64) option" where
  "advances 0 w cur = Some (w, cur)"
| "advances (Suc n) w cur = Option.bind (advancePos w cur) (\<lambda>(w', cur'). advances n w' cur')"

lemma advances_Suc_last: "advances (Suc n) w cur = Option.bind (advances n w cur) (\<lambda>(w', cur'). advancePos w' cur')"
proof (induction n arbitrary: w cur)
  case 0
  show ?case by (cases "advancePos w cur") auto
next
  case (Suc n)
  show ?case
  proof (cases "advancePos w cur")
    case None
    then show ?thesis by simp
  next
    case (Some p)
    then show ?thesis using Suc.IH [of "fst p" "snd p"] by (cases p) simp
  qed
qed

text \<open>Up to the end of \<open>curWin\<close> nothing is rebased.\<close>

lemma advances_plain:
  "length (curWin w) = unat (H w) \<Longrightarrow> unat (curPos w) + n < unat (H w) \<Longrightarrow>
   \<exists>w'. advances n w cur = Some (w', cur + of_nat n) \<and> unat (curPos w') = unat (curPos w) + n
     \<and> ubWin w' = ubWin w \<and> H w' = H w \<and> length (curWin w') = unat (H w)"
proof (induction n)
  case 0
  then show ?case by simp
next
  case (Suc n)
  then obtain w1 where w1: "advances n w cur = Some (w1, cur + of_nat n)" "unat (curPos w1) = unat (curPos w) + n"
    "ubWin w1 = ubWin w" "H w1 = H w" "length (curWin w1) = unat (H w)" by auto
  have p: "unat (curPos w1) < unat (H w)" using w1(2) Suc.prems(2) by simp
  have suc: "unat (curPos w1 + 1) = unat (curPos w1) + 1"
    using p by (intro unat_suc_u32 [of _ "H w"]) (simp add: word_less_nat_alt)
  then have ne: "curPos w1 + 1 \<noteq> H w1" using w1(2,4) Suc.prems(2) by (metis add.assoc add_Suc_right nat_neq_iff plus_1_eq_Suc add.commute)
  let ?w = "w1\<lparr>occupancy := occupancy w1 - ucast (wcount (curWin w1 ! unat (curPos w1))),
    curWin := (curWin w1)[unat (curPos w1) := WinCycle_set 0 0], curPos := curPos w1 + 1\<rparr>"
  have "advancePos w1 (cur + of_nat n) = Some (?w, cur + of_nat n + 1)"
    using ne p w1(5) by (simp add: advancePos_def Let_def)
  moreover have "cur + of_nat n + 1 = cur + of_nat (Suc n)" by (simp add: algebra_simps)
  ultimately have "advances (Suc n) w cur = Some (?w, cur + of_nat (Suc n))" unfolding advances_Suc_last w1(1) by simp
  then show ?case using w1 suc by (intro exI [of _ ?w]) simp
qed

lemma unat_neg_u64: "0 < unat (d :: u64) \<Longrightarrow> unat (- d) = 2 ^ 64 - unat d"
proof -
  assume d: "0 < unat d"
  have b: "unat (- d) < 2 ^ 64" "unat d < 2 ^ 64" using unat_u64_lt [of "- d"] unat_u64_lt [of d] by simp_all
  have "(unat (- d) + unat d) mod 2 ^ 64 = 0" using unat_word_ariths(1) [of "- d" d] by simp
  then obtain q where q: "unat (- d) + unat d = 2 ^ 64 * q" by (auto simp: mod_eq_0_iff_dvd dvd_def)
  have "unat (- d) + unat d < 2 ^ 64 * 2" using b by linarith
  then have "q < 2" unfolding q by simp
  moreover have "0 < q" using q d by (cases q) simp_all
  ultimately have "q = 1" by simp
  then show "unat (- d) = 2 ^ 64 - unat d" using q by simp
qed

text \<open>An entry that is in the past trips the assertion of the rebase.\<close>

lemma moveUb_stale:
  assumes k: "k < hor" and c: "unat k < unat c" "unat c + unat h < unat k + 2 ^ 32" "4 * unat h < 2 ^ 32" "unat c + unat h < unat k + 2 ^ 32 - unat h"
    and r: "unat c + unat h < 2 ^ 64"
  shows "moveUb c h hor nw ((k, wc) # ub) = None"
proof -
  let ?h = "ucast h :: u64"
  have uh: "unat ?h = unat h" by (simp add: unsigned_ucast_eq take_bit_nat_eq_self_iff less_trans [OF unat_u32_lt])
  have ch: "unat (c + ?h) = unat c + unat h" using r uh by (subst unat_add_no_wrap) simp_all
  let ?d = "c + ?h - k"
  have d: "unat ?d = unat c + unat h - unat k" using ch c(1) by (subst unat_sub_no_wrap) (simp_all add: word_le_nat_alt)
  have e: "k - ?h - c = - ?d" by simp
  have pos: "0 < unat ?d" "unat ?d < 2 ^ 32" using d c by simp_all
  have m: "unat (- ?d) = 2 ^ 64 - unat ?d" by (rule unat_neg_u64 [OF pos(1)])
  have "unat (ucast (- ?d) :: u32) = (2 ^ 64 - unat ?d) mod 2 ^ 32"
    unfolding m [symmetric] by (simp add: unsigned_ucast_eq take_bit_eq_mod)
  also have "(2 ^ 64 - unat ?d) mod 2 ^ 32 = (2 ^ 32 - unat ?d) mod 2 ^ 32"
  proof -
    have "(2 ^ 64 :: nat) - unat ?d = (2 ^ 32 - unat ?d) + (2 ^ 32 - 1) * 2 ^ 32" using pos by simp
    then show ?thesis by (simp only: mod_mult_self1)
  qed
  also have "\<dots> = 2 ^ 32 - unat ?d" using pos by (intro mod_less) simp
  finally have "unat (ucast (- ?d) :: u32) = 2 ^ 32 - unat ?d" .
  then have "\<not> (ucast (k - ?h - c) :: u32) < h" unfolding e word_less_nat_alt using d c by simp
  then show ?thesis using k by (simp add: Let_def)
qed

lemma longAdvance_jump:
  assumes "occupancy w = 0" "cur \<le> t"
  shows "longAdvance w cur t = Some (w, t)"
  using assms by (simp add: longAdvance_def drainTo.simps [of w])

text \<open>
  Claim C5. \<open>longAdvance\<close> jumps as soon as no operation is left in the window, but the cycles that
  extra slots or \<open>poisonRange\<close> blocked have no operation and stay where they are.  If one of them is in \<open>ubWin\<close> and the
  jump, of at most \<open>2 ^ 30\<close> cycles, passes it, then every cycle up to the end of \<open>curWin\<close> goes through, and the rebase there
  trips the assertion of \<open>advancePos\<close>.
\<close>

theorem stale_entry_panics:
  assumes inv: "win_inv w cur" and occ: "occupancy w = 0" and ub: "ubWin w = (k, wc) # ub"
    and t: "cur \<le> t" "k < t" "unat t \<le> unat k + 2 ^ 30" "unat t + 4 * unat (H w) < 2 ^ 64"
  shows "longAdvance w cur t = Some (w, t)
     \<and> (\<forall>n < unat (H w) - unat (curPos w). advances n w t \<noteq> None)
     \<and> advances (unat (H w) - unat (curPos w)) w t = None"
proof -
  have h: "length (curWin w) = unat (H w)" "unat (curPos w) < unat (H w)" "4 * unat (H w) < 2 ^ 32"
    using inv by (simp_all add: win_inv_def word_less_nat_alt)
  define m where "m = unat (H w) - unat (curPos w) - 1"
  have m: "unat (H w) - unat (curPos w) = Suc m" "unat (curPos w) + m < unat (H w)" using h(2) by (simp_all add: m_def)
  have all: "\<exists>w'. advances n w t = Some (w', t + of_nat n) \<and> unat (curPos w') = unat (curPos w) + n
      \<and> ubWin w' = ubWin w \<and> H w' = H w \<and> length (curWin w') = unat (H w)" if "n \<le> m" for n
    by (rule advances_plain [OF h(1)]) (use that m(2) in simp)
  from all [OF order_refl] obtain w' where w': "advances m w t = Some (w', t + of_nat m)" "unat (curPos w') = unat (curPos w) + m"
    "ubWin w' = ubWin w" "H w' = H w" "length (curWin w') = unat (H w)" by blast
  let ?c = "t + of_nat m + 1"
  have um: "unat (of_nat m :: u64) = m" using m(2) h(3) by (simp add: unat_of_nat)
  have c0: "unat (t + of_nat m) = unat t + m" using t(4) m(2) um by (subst unat_add_no_wrap) simp_all
  have c: "unat ?c = unat t + m + 1" using c0 t(4) m(2) by (subst unat_add_no_wrap) simp_all
  have p: "unat (curPos w') < unat (H w')" using w' m(2) by simp
  have "unat (curPos w' + 1) = unat (curPos w') + 1"
    using p by (intro unat_suc_u32 [of _ "H w'"]) (simp add: word_less_nat_alt)
  then have "unat (curPos w' + 1) = unat (H w')" using w'(2,4) m by simp
  then have re: "curPos w' + 1 = H w'" by (simp add: word_unat_eq_iff)
  let ?hor = "?c + ucast (2 * H w')"
  have "unat (2 * H w) = 2 * unat (H w)" using h(3) by (simp add: unat_word_ariths)
  then have uu: "unat (ucast (2 * H w') :: u64) = 2 * unat (H w)"
    using w'(4) h(3) by (simp add: unsigned_ucast_eq take_bit_nat_eq_self_iff)
  then have "unat ?hor = unat ?c + 2 * unat (H w)" using c t(4) m(2) by (subst unat_add_no_wrap) simp_all
  moreover have "unat k < unat t" using t(2) by (simp add: word_less_nat_alt)
  ultimately have k: "k < ?hor" using c by (simp add: word_less_nat_alt)
  have "moveUb ?c (H w') ?hor nw ((k, wc) # ub) = None" for nw
    by (rule moveUb_stale [OF k]) (use c t h(3) m(2) w'(4) \<open>unat k < unat t\<close> in simp_all)
  then have "advancePos w' (t + of_nat m) = None"
    using re p w'(3,4,5) ub by (simp add: advancePos_def Let_def)
  then have "advances (Suc m) w t = None" unfolding advances_Suc_last w'(1) by simp
  moreover have "advances n w t \<noteq> None" if "n < Suc m" for n using all [of n] that by auto
  ultimately show ?thesis using longAdvance_jump [OF occ t(1)] unfolding m(1) by blast
qed

text \<open>
  A window with horizon 2 that took, from cycle 0 on, an operation with five extra slots and is drained; cycle 8 is still blocked.
\<close>

definition blocked_window :: WindowStructure where
  "blocked_window = \<lparr>curWin = [WinCycle_set 1 0, WinCycle_set 1 0], nextWin = [WinCycle_set 1 0, WinCycle_set 1 0],
     ubWin = [(8, WinCycle_set 1 0)], occupancy = 0, curPos = 0, lastPort = 0, H = 2, WSZ = 4\<rparr>"

lemma blocked_window_reached:
  "Option.bind (schedule (WindowStructure_new 2 4 0) 0 3 1 5) (\<lambda>(w1, c1, sc). drainTo w1 c1 100) = Some (blocked_window, 4)"
  unfolding blocked_window_def by code_simp

theorem stale_entry_panics_witness:
  "Option.bind (schedule (WindowStructure_new 2 4 0) 0 3 1 5) (\<lambda>(w1, c1, sc). drainTo w1 c1 100) = Some (blocked_window, 4)
     \<and> longAdvance blocked_window 4 100 = Some (blocked_window, 100) \<and> advances 2 blocked_window 100 = None"
proof -
  have inv: "win_inv blocked_window 4"
    by (simp add: win_inv_def blocked_window_def wc_ok_def cycles_count_def WinCycle_set_def)
  have "longAdvance blocked_window 4 100 = Some (blocked_window, 100)
     \<and> (\<forall>n < unat (H blocked_window) - unat (curPos blocked_window). advances n blocked_window 100 \<noteq> None)
     \<and> advances (unat (H blocked_window) - unat (curPos blocked_window)) blocked_window 100 = None"
    by (rule stale_entry_panics [where k = 8 and wc = "WinCycle_set 1 0" and ub = "[]", OF inv]) (simp_all add: blocked_window_def)
  then show ?thesis using blocked_window_reached by (simp add: blocked_window_def)
qed

end
