(* ===== verification/MemHier.thy ===== *)
theory MemHier
  imports Bits
begin

text \<open>
  The types of the memory hierarchy, \<open>src/src/memory_hierarchy.h\<close>, and the fixed-latency memory of
  \<open>src/src/mem_ctrls.cpp\<close>.

  A request carries a pointer to the requester's coherence state, which the callee updates.  Here
  \<open>MemReq\<close> holds the value that the pointer has when the call is made (\<open>rstate\<close>), and an access
  returns the value it leaves there.  The locks of the controllers are not part of these models:
  they describe one request at a time.
\<close>

section \<open>Requests\<close>

datatype AccessType = GETS | GETX | PUTS | PUTX

datatype InvType = INV | INVX | FWD

datatype MESIState = I | S | E | M

type_synonym Address = u64

definition IsGet :: "AccessType \<Rightarrow> bool" where
  "IsGet t = (t = GETS \<or> t = GETX)"

definition IsPut :: "AccessType \<Rightarrow> bool" where
  "IsPut t = (t = PUTS \<or> t = PUTX)"

lemma IsPut_IsGet: "IsPut t = (\<not> IsGet t)"
  by (cases t) (simp_all add: IsPut_def IsGet_def)

text \<open>The enumerators as the numbers that index the name tables.\<close>

definition AccessType_num :: "AccessType \<Rightarrow> nat" where
  "AccessType_num t = (case t of GETS \<Rightarrow> 0 | GETX \<Rightarrow> 1 | PUTS \<Rightarrow> 2 | PUTX \<Rightarrow> 3)"

definition InvType_num :: "InvType \<Rightarrow> nat" where
  "InvType_num t = (case t of INV \<Rightarrow> 0 | INVX \<Rightarrow> 1 | FWD \<Rightarrow> 2)"

definition MESIState_num :: "MESIState \<Rightarrow> nat" where
  "MESIState_num s = (case s of I \<Rightarrow> 0 | S \<Rightarrow> 1 | E \<Rightarrow> 2 | M \<Rightarrow> 3)"

definition accessTypeNames :: "string list" where
  "accessTypeNames = [''GETS'', ''GETX'', ''PUTS'', ''PUTX'']"

definition invTypeNames :: "string list" where
  "invTypeNames = [''INV'', ''INVX'']"

definition mesiStateNames :: "string list" where
  "mesiStateNames = [''I'', ''S'', ''E'', ''M'']"

definition AccessTypeName :: "AccessType \<Rightarrow> string option" where
  "AccessTypeName t = aget accessTypeNames (AccessType_num t)"

definition InvTypeName :: "InvType \<Rightarrow> string option" where
  "InvTypeName t = aget invTypeNames (InvType_num t)"

definition MESIStateName :: "MESIState \<Rightarrow> string option" where
  "MESIStateName s = aget mesiStateNames (MESIState_num s)"

definition IFETCH :: u32 where "IFETCH = push_bit 1 1"
definition NOEXCL :: u32 where "NOEXCL = push_bit 2 1"
definition NONINCLWB :: u32 where "NONINCLWB = push_bit 3 1"
definition PUTX_KEEPEXCL :: u32 where "PUTX_KEEPEXCL = push_bit 4 1"
definition PREFETCH :: u32 where "PREFETCH = push_bit 5 1"

record MemReq =
  lineAddr :: Address
  rtype :: AccessType
  childId :: nat
  rstate :: MESIState
  rcycle :: u64
  initialState :: MESIState
  srcId :: u32
  flags :: u32

definition req_set :: "MemReq \<Rightarrow> u32 \<Rightarrow> MemReq" where
  "req_set r f = r\<lparr>flags := flags r OR f\<rparr>"

definition flag_is :: "u32 \<Rightarrow> u32 \<Rightarrow> bool" where
  "flag_is fl f = (fl AND f \<noteq> 0)"

definition req_is :: "MemReq \<Rightarrow> u32 \<Rightarrow> bool" where
  "req_is r f = flag_is (flags r) f"

record InvReq =
  ilineAddr :: Address
  itype :: InvType
  writeback :: bool
  icycle :: u64
  isrcId :: u32

lemmas flag_defs = IFETCH_def NOEXCL_def NONINCLWB_def PUTX_KEEPEXCL_def PREFETCH_def

lemma flag_is_set [simp]: "f \<noteq> 0 \<Longrightarrow> flag_is (fl OR f) f"
  by (auto simp: flag_is_def bit_eq_iff bit_simps)

lemma req_is_set: "f \<noteq> 0 \<Longrightarrow> req_is (req_set r f) f"
  by (simp add: req_is_def req_set_def)

lemma flag_clear: "n \<noteq> m \<Longrightarrow> n < 32 \<Longrightarrow>
    flag_is (fl AND NOT (push_bit m 1)) (push_bit n 1) = flag_is fl (push_bit n 1)"
  by (auto simp: flag_is_def bit_eq_iff bit_simps)

section \<open>SimpleMemory\<close>

record SimpleMemory =
  slatency :: u32

definition SimpleMemory_access :: "SimpleMemory \<Rightarrow> MemReq \<Rightarrow> (MESIState \<times> u64) option" where
  "SimpleMemory_access m req = do {
     let state = (case rtype req of
         PUTS \<Rightarrow> I | PUTX \<Rightarrow> I
       | GETS \<Rightarrow> (if req_is req NOEXCL then S else E)
       | GETX \<Rightarrow> M);
     let respCycle = rcycle req + ucast (slatency m);
     _ \<leftarrow> require (respCycle > rcycle req);
     Some (state, respCycle)
   }"

section \<open>The contract of a memory object\<close>

text \<open>
  What a requester relies on: \<open>answer_ok req st\<close> says that \<open>st\<close> is a state that the request may be
  answered with.
\<close>

definition answer_ok :: "MemReq \<Rightarrow> MESIState \<Rightarrow> bool" where
  "answer_ok req st =
     (case rtype req of
        GETS \<Rightarrow> st = S \<or> (st = E \<and> \<not> req_is req NOEXCL)
      | GETX \<Rightarrow> st = M
      | PUTS \<Rightarrow> st = I
      | PUTX \<Rightarrow> st = (if req_is req PUTX_KEEPEXCL then E else I))"

lemma SimpleMemory_access_ok:
  assumes "0 < slatency m" "unat (rcycle req) + 2 ^ 32 \<le> 2 ^ 64" "\<not> req_is req PUTX_KEEPEXCL"
  shows "\<exists>st c. SimpleMemory_access m req = Some (st, c) \<and> answer_ok req st
     \<and> unat c = unat (rcycle req) + unat (slatency m)"
proof -
  have u: "unat (ucast (slatency m) :: u64) = unat (slatency m)"
    by (simp add: unsigned_ucast_eq take_bit_nat_eq_self_iff less_trans [OF unat_u32_lt])
  have c: "unat (rcycle req + ucast (slatency m)) = unat (rcycle req) + unat (slatency m)"
    using assms(2) unat_u32_lt [of "slatency m"] unfolding u [symmetric]
    by (intro unat_add_no_wrap) (simp add: u del: unat_u32_lt)
  have "0 < unat (slatency m)" using assms(1) by (simp add: unat_gt_0)
  then have "rcycle req < rcycle req + ucast (slatency m)" using c by (simp add: word_less_nat_alt)
  then show ?thesis using c assms(3)
    by (auto simp: SimpleMemory_access_def answer_ok_def split: AccessType.split)
qed

text \<open>
  The name table of the invalidation types has two entries for three types, so
  \<open>InvTypeName(FWD)\<close> trips its own range assertion, while the names of all access types and all MESI
  states are found.
\<close>

theorem InvTypeName_FWD_fails:
  "InvTypeName FWD = None \<and> AccessTypeName t \<noteq> None \<and> MESIStateName s \<noteq> None"
  by (cases t; cases s)
    (simp_all add: InvTypeName_def AccessTypeName_def MESIStateName_def invTypeNames_def
      accessTypeNames_def mesiStateNames_def InvType_num_def AccessType_num_def MESIState_num_def aget_def)

end
