(* ===== verification/Coherence.thy ===== *)
theory Coherence
  imports MemHier
begin

text \<open>
  The MESI coherence controllers, \<open>src/src/coherence_ctrls.h\<close> and \<open>src/src/coherence_ctrls.cpp\<close>.

  The virtual calls leave the component and are parameters.  \<open>acc\<close> is the access to a parent: it
  takes the calling controller and the rest of the world \<open>'w\<close>, the index of the parent and the
  request, and returns both states, the coherence state it left in \<open>*req.state\<close> and the response
  cycle; so a parent may change the controller while it serves the call.  \<open>invc\<close> is the
  invalidation of a child, which never calls up; it returns the new world, the value left in
  \<open>*req.writeback\<close> and the response cycle.
\<close>

section \<open>MESIBottomCC\<close>

record MESIBottomCC =
  barray :: "MESIState list"
  parentRTTs :: "u32 list"
  bnumLines :: u32
  selfId :: nat
  profGETSHit :: u64
  profGETSMiss :: u64
  profGETXHit :: u64
  profGETXMissIM :: u64
  profGETXMissSM :: u64
  profPUTS :: u64
  profPUTX :: u64
  profINV :: u64
  profINVX :: u64
  profFWD :: u64
  profGETNextLevelLat :: u64
  profGETNetLat :: u64
  bnonInclusiveHack :: bool

type_synonym ('s, 'w) parent_access =
  "'s \<Rightarrow> 'w \<Rightarrow> nat \<Rightarrow> MemReq \<Rightarrow> ('s \<times> 'w \<times> MESIState \<times> u64) option"

type_synonym 'w child_inval = "'w \<Rightarrow> nat \<Rightarrow> InvReq \<Rightarrow> ('w \<times> bool \<times> u64) option"

definition MESIBottomCC_new :: "u32 \<Rightarrow> nat \<Rightarrow> bool \<Rightarrow> MESIBottomCC" where
  "MESIBottomCC_new numLines self nonIncl =
     \<lparr>barray = replicate (unat numLines) I, parentRTTs = [], bnumLines = numLines, selfId = self,
      profGETSHit = 0, profGETSMiss = 0, profGETXHit = 0, profGETXMissIM = 0, profGETXMissSM = 0,
      profPUTS = 0, profPUTX = 0, profINV = 0, profINVX = 0, profFWD = 0,
      profGETNextLevelLat = 0, profGETNetLat = 0, bnonInclusiveHack = nonIncl\<rparr>"

text \<open>\<open>init\<close> connects the parents; \<open>rtt\<close> is the network's answer for each, if there is a network.\<close>

definition MESIBottomCC_init :: "MESIBottomCC \<Rightarrow> nat \<Rightarrow> (nat \<Rightarrow> u32) option \<Rightarrow> MESIBottomCC" where
  "MESIBottomCC_init b numParents network =
     b\<lparr>parentRTTs := map (\<lambda>p. case network of Some rtt \<Rightarrow> rtt p | None \<Rightarrow> 0) [0..<numParents]\<rparr>"

text \<open>The bank hash: the XOR of the four 16-bit pieces of the address, modulo the number of banks.\<close>

fun xorPieces :: "nat \<Rightarrow> u32 \<Rightarrow> u64 \<Rightarrow> u32" where
  "xorPieces 0 res tmp = res"
| "xorPieces (Suc n) res tmp = xorPieces n (res XOR ucast (0xffff AND tmp)) (drop_bit 16 tmp)"

definition getParentId :: "MESIBottomCC \<Rightarrow> Address \<Rightarrow> nat option" where
  "getParentId b la = do {
     _ \<leftarrow> require (parentRTTs b \<noteq> []);
     Some (unat (xorPieces 4 0 la) mod length (parentRTTs b))
   }"

definition bcc_isExclusive :: "MESIBottomCC \<Rightarrow> nat \<Rightarrow> bool option" where
  "bcc_isExclusive b lineId = do {
     state \<leftarrow> aget (barray b) lineId;
     Some (state = E \<or> state = M)
   }"

definition bcc_isValid :: "MESIBottomCC \<Rightarrow> nat \<Rightarrow> bool option" where
  "bcc_isValid b lineId = do {
     state \<leftarrow> aget (barray b) lineId;
     Some (state \<noteq> I)
   }"

definition set_state :: "MESIBottomCC \<Rightarrow> nat \<Rightarrow> MESIState \<Rightarrow> MESIBottomCC option" where
  "set_state b lineId st = do {
     a \<leftarrow> aset (barray b) lineId st;
     Some (b\<lparr>barray := a\<rparr>)
   }"

text \<open>A request about a line of this controller: \<open>req.state\<close> points to \<open>array[lineId]\<close>.\<close>

definition parentReq :: "(MESIBottomCC, 'w) parent_access \<Rightarrow> MESIBottomCC \<Rightarrow> 'w \<Rightarrow> nat \<Rightarrow> Address \<Rightarrow>
    AccessType \<Rightarrow> nat \<Rightarrow> u64 \<Rightarrow> u32 \<Rightarrow> u32 \<Rightarrow> (MESIBottomCC \<times> 'w \<times> u64) option" where
  "parentReq acc b w pid la type lineId cycle src fl = do {
     state \<leftarrow> aget (barray b) lineId;
     (b', w', state', respCycle) \<leftarrow>
        acc b w pid \<lparr>lineAddr = la, rtype = type, childId = selfId b, rstate = state, rcycle = cycle,
                     initialState = state, srcId = src, flags = fl\<rparr>;
     b'' \<leftarrow> set_state b' lineId state';
     Some (b'', w', respCycle)
   }"

definition bcc_processEviction :: "(MESIBottomCC, 'w) parent_access \<Rightarrow> MESIBottomCC \<Rightarrow> 'w \<Rightarrow> Address \<Rightarrow>
    nat \<Rightarrow> bool \<Rightarrow> u64 \<Rightarrow> u32 \<Rightarrow> (MESIBottomCC \<times> 'w \<times> u64) option" where
  "bcc_processEviction acc b w wbLineAddr lineId lowerLevelWriteback cycle src = do {
     state0 \<leftarrow> aget (barray b) lineId;
     b1 \<leftarrow> (if lowerLevelWriteback then do {
              _ \<leftarrow> require (state0 = M \<or> state0 = E);
              set_state b lineId M
            }
            else Some b);
     state \<leftarrow> aget (barray b1) lineId;
     (b2, w2, respCycle) \<leftarrow>
       (case state of
          I \<Rightarrow> Some (b1, w, cycle)
        | S \<Rightarrow> do { p \<leftarrow> getParentId b1 wbLineAddr; parentReq acc b1 w p wbLineAddr PUTS lineId cycle src 0 }
        | E \<Rightarrow> do { p \<leftarrow> getParentId b1 wbLineAddr; parentReq acc b1 w p wbLineAddr PUTS lineId cycle src 0 }
        | M \<Rightarrow> do { p \<leftarrow> getParentId b1 wbLineAddr; parentReq acc b1 w p wbLineAddr PUTX lineId cycle src 0 });
     final \<leftarrow> aget (barray b2) lineId;
     _ \<leftarrow> require (final = I);
     Some (b2, w2, respCycle)
   }"

text \<open>A GETS or GETX that goes up to the next level; both latencies are profiled.\<close>

definition fetchLine :: "(MESIBottomCC, 'w) parent_access \<Rightarrow> MESIBottomCC \<Rightarrow> 'w \<Rightarrow> Address \<Rightarrow>
    AccessType \<Rightarrow> nat \<Rightarrow> u64 \<Rightarrow> u32 \<Rightarrow> u32 \<Rightarrow> (MESIBottomCC \<times> 'w \<times> u64) option" where
  "fetchLine acc b w la type lineId cycle src fl = do {
     parentId \<leftarrow> getParentId b la;
     (b1, w1, resp) \<leftarrow> parentReq acc b w parentId la type lineId cycle src fl;
     let nextLevelLat = (ucast (resp - cycle) :: u32);
     netLat \<leftarrow> aget (parentRTTs b1) parentId;
     Some (b1\<lparr>profGETNextLevelLat := profGETNextLevelLat b1 + ucast nextLevelLat,
              profGETNetLat := profGETNetLat b1 + ucast netLat\<rparr>,
           w1, cycle + ucast (nextLevelLat + netLat))
   }"

definition bcc_processAccess :: "(MESIBottomCC, 'w) parent_access \<Rightarrow> MESIBottomCC \<Rightarrow> 'w \<Rightarrow> Address \<Rightarrow>
    nat \<Rightarrow> AccessType \<Rightarrow> u64 \<Rightarrow> u32 \<Rightarrow> u32 \<Rightarrow> (MESIBottomCC \<times> 'w \<times> u64) option" where
  "bcc_processAccess acc b w la lineId type cycle src fl = do {
     state \<leftarrow> aget (barray b) lineId;
     (b', w', respCycle) \<leftarrow>
       (case type of
          PUTS \<Rightarrow> do {
            _ \<leftarrow> require (state \<noteq> I);
            Some (b\<lparr>profPUTS := profPUTS b + 1\<rparr>, w, cycle)
          }
        | PUTX \<Rightarrow> do {
            _ \<leftarrow> require (state = M \<or> state = E);
            b1 \<leftarrow> (if state = E then set_state b lineId M else Some b);
            Some (b1\<lparr>profPUTX := profPUTX b1 + 1\<rparr>, w, cycle)
          }
        | GETS \<Rightarrow>
            (if state = I then do {
               (b1, w1, resp) \<leftarrow> fetchLine acc b w la GETS lineId cycle src fl;
               final \<leftarrow> aget (barray b1) lineId;
               _ \<leftarrow> require (final = S \<or> final = E);
               Some (b1\<lparr>profGETSMiss := profGETSMiss b1 + 1\<rparr>, w1, resp)
             }
             else Some (b\<lparr>profGETSHit := profGETSHit b + 1\<rparr>, w, cycle))
        | GETX \<Rightarrow> do {
            (b1, w1, resp) \<leftarrow>
              (if state = I \<or> state = S then
                 fetchLine acc
                   (if state = I then b\<lparr>profGETXMissIM := profGETXMissIM b + 1\<rparr>
                    else b\<lparr>profGETXMissSM := profGETXMissSM b + 1\<rparr>) w la GETX lineId cycle src fl
               else do {
                 b0 \<leftarrow> (if state = E then set_state b lineId M else Some b);
                 Some (b0\<lparr>profGETXHit := profGETXHit b0 + 1\<rparr>, w, cycle)
               });
            final \<leftarrow> aget (barray b1) lineId;
            _ \<leftarrow> require (final = M);
            Some (b1, w1, resp)
          });
     _ \<leftarrow> require (respCycle \<ge> cycle);
     Some (b', w', respCycle)
   }"

definition bcc_processWritebackOnAccess :: "MESIBottomCC \<Rightarrow> nat \<Rightarrow> MESIBottomCC option" where
  "bcc_processWritebackOnAccess b lineId = do {
     state \<leftarrow> aget (barray b) lineId;
     _ \<leftarrow> require (state = M \<or> state = E);
     if state = E then set_state b lineId M else Some b
   }"

text \<open>The result is the controller and the new value of \<open>*reqWriteback\<close>.\<close>

definition bcc_processInval :: "MESIBottomCC \<Rightarrow> nat \<Rightarrow> InvType \<Rightarrow> bool \<Rightarrow> (MESIBottomCC \<times> bool) option" where
  "bcc_processInval b lineId type reqWriteback = do {
     state \<leftarrow> aget (barray b) lineId;
     _ \<leftarrow> require (state \<noteq> I);
     (case type of
        INVX \<Rightarrow> do {
          _ \<leftarrow> require (state = E \<or> state = M);
          b' \<leftarrow> set_state b lineId S;
          Some (b'\<lparr>profINVX := profINVX b' + 1\<rparr>, (if state = M then True else reqWriteback))
        }
      | INV \<Rightarrow> do {
          b' \<leftarrow> set_state b lineId I;
          Some (b'\<lparr>profINV := profINV b' + 1\<rparr>, (if state = M then True else reqWriteback))
        }
      | FWD \<Rightarrow> do {
          _ \<leftarrow> require (state = S);
          Some (b\<lparr>profFWD := profFWD b + 1\<rparr>, reqWriteback)
        })
   }"

text \<open>The request's state pointer belongs to the caller, whose value is \<open>state\<close>.\<close>

definition bcc_processNonInclusiveWriteback :: "(MESIBottomCC, 'w) parent_access \<Rightarrow> MESIBottomCC \<Rightarrow> 'w \<Rightarrow>
    Address \<Rightarrow> AccessType \<Rightarrow> u64 \<Rightarrow> MESIState \<Rightarrow> u32 \<Rightarrow> u32 \<Rightarrow> (MESIBottomCC \<times> 'w \<times> MESIState \<times> u64) option" where
  "bcc_processNonInclusiveWriteback acc b w la type cycle state src fl = do {
     _ \<leftarrow> require (bnonInclusiveHack b);
     p \<leftarrow> getParentId b la;
     acc b w p \<lparr>lineAddr = la, rtype = type, childId = selfId b, rstate = state, rcycle = cycle,
                initialState = state, srcId = src, flags = fl OR NONINCLWB\<rparr>
   }"

section \<open>MESITopCC\<close>

definition MAX_CACHE_CHILDREN :: nat where "MAX_CACHE_CHILDREN = 256"

record Entry =
  numSharers :: u32
  sharers :: "bool list"
  exclusive :: bool

definition Entry_clear :: Entry where
  "Entry_clear = \<lparr>numSharers = 0, sharers = replicate MAX_CACHE_CHILDREN False, exclusive = False\<rparr>"

definition Entry_isEmpty :: "Entry \<Rightarrow> bool" where
  "Entry_isEmpty e = (numSharers e = 0)"

definition Entry_isExclusive :: "Entry \<Rightarrow> bool" where
  "Entry_isExclusive e = (numSharers e = 1 \<and> exclusive e)"

record MESITopCC =
  tarray :: "Entry list"
  childrenRTTs :: "u32 list"
  tnumLines :: u32
  tnonInclusiveHack :: bool

definition MESITopCC_new :: "u32 \<Rightarrow> bool \<Rightarrow> MESITopCC" where
  "MESITopCC_new numLines nonIncl =
     \<lparr>tarray = replicate (unat numLines) Entry_clear, childrenRTTs = [], tnumLines = numLines,
      tnonInclusiveHack = nonIncl\<rparr>"

definition MESITopCC_init :: "MESITopCC \<Rightarrow> nat \<Rightarrow> (nat \<Rightarrow> u32) option \<Rightarrow> MESITopCC option" where
  "MESITopCC_init t numChildren network = do {
     _ \<leftarrow> require (numChildren \<le> MAX_CACHE_CHILDREN);
     Some (t\<lparr>childrenRTTs := map (\<lambda>c. case network of Some rtt \<Rightarrow> rtt c | None \<Rightarrow> 0) [0..<numChildren]\<rparr>)
   }"

text \<open>
  The loop over the children of \<open>sendInvalidates\<close>, from child \<open>c\<close> on with the return times \<open>rtts\<close>:
  the entry, the world, the writeback flag, \<open>maxCycle\<close> and \<open>sentInvs\<close> are threaded.
\<close>

fun invLoop :: "'w child_inval \<Rightarrow> Address \<Rightarrow> InvType \<Rightarrow> u64 \<Rightarrow> u32 \<Rightarrow> u32 list \<Rightarrow> nat \<Rightarrow>
    Entry \<Rightarrow> 'w \<Rightarrow> bool \<Rightarrow> u64 \<Rightarrow> u32 \<Rightarrow> (Entry \<times> 'w \<times> bool \<times> u64 \<times> u32) option" where
  "invLoop invc la type cycle src [] c e w wb maxCycle sentInvs = Some (e, w, wb, maxCycle, sentInvs)"
| "invLoop invc la type cycle src (rtt # rtts) c e w wb maxCycle sentInvs = do {
     sharer \<leftarrow> aget (sharers e) c;
     if sharer then do {
       (w', wb', resp) \<leftarrow> invc w c \<lparr>ilineAddr = la, itype = type, writeback = wb, icycle = cycle, isrcId = src\<rparr>;
       let respCycle = resp + ucast rtt;
       let e' = (if type = INV then e\<lparr>sharers := (sharers e)[c := False]\<rparr> else e);
       invLoop invc la type cycle src rtts (c + 1) e' w' wb' (c_MAX respCycle maxCycle) (sentInvs + 1)
     }
     else invLoop invc la type cycle src rtts (c + 1) e w wb maxCycle sentInvs
   }"

definition entry_sendInvalidates :: "'w child_inval \<Rightarrow> u32 list \<Rightarrow> Entry \<Rightarrow> 'w \<Rightarrow> Address \<Rightarrow> InvType \<Rightarrow> bool \<Rightarrow>
    u64 \<Rightarrow> u32 \<Rightarrow> (Entry \<times> 'w \<times> bool \<times> u64) option" where
  "entry_sendInvalidates invc rtts e w la type reqWriteback cycle src =
     (if type = INVX \<and> \<not> Entry_isExclusive e then Some (e, w, reqWriteback, cycle)
      else if Entry_isEmpty e then Some (e, w, reqWriteback, cycle)
      else do {
        (e1, w1, wb, maxCycle, sentInvs) \<leftarrow> invLoop invc la type cycle src rtts 0 e w reqWriteback cycle 0;
        _ \<leftarrow> require (sentInvs = numSharers e1);
        if type = INV then Some (e1\<lparr>numSharers := 0\<rparr>, w1, wb, maxCycle)
        else do {
          _ \<leftarrow> require (exclusive e1);
          _ \<leftarrow> require (numSharers e1 = 1);
          Some (e1\<lparr>exclusive := False\<rparr>, w1, wb, maxCycle)
        }
      })"

text \<open>The operations work on one entry, \<open>Entry* e = &array[lineId]\<close>, which is written back.\<close>

definition on_entry :: "MESITopCC \<Rightarrow> nat \<Rightarrow> (Entry \<Rightarrow> (Entry \<times> 'r) option) \<Rightarrow> (MESITopCC \<times> 'r) option" where
  "on_entry t lineId f = do {
     e \<leftarrow> aget (tarray t) lineId;
     (e', r) \<leftarrow> f e;
     a \<leftarrow> aset (tarray t) lineId e';
     Some (t\<lparr>tarray := a\<rparr>, r)
   }"

definition tcc_sendInvalidates :: "'w child_inval \<Rightarrow> MESITopCC \<Rightarrow> 'w \<Rightarrow> Address \<Rightarrow> nat \<Rightarrow> InvType \<Rightarrow> bool \<Rightarrow>
    u64 \<Rightarrow> u32 \<Rightarrow> (MESITopCC \<times> 'w \<times> bool \<times> u64) option" where
  "tcc_sendInvalidates invc t w la lineId type reqWriteback cycle src =
     on_entry t lineId (\<lambda>e. entry_sendInvalidates invc (childrenRTTs t) e w la type reqWriteback cycle src)"

definition tcc_processEviction :: "'w child_inval \<Rightarrow> MESITopCC \<Rightarrow> 'w \<Rightarrow> Address \<Rightarrow> nat \<Rightarrow> bool \<Rightarrow>
    u64 \<Rightarrow> u32 \<Rightarrow> (MESITopCC \<times> 'w \<times> bool \<times> u64) option" where
  "tcc_processEviction invc t w wbLineAddr lineId reqWriteback cycle src =
     (if tnonInclusiveHack t
      then on_entry t lineId (\<lambda>e. Some (Entry_clear, w, reqWriteback, cycle))
      else tcc_sendInvalidates invc t w wbLineAddr lineId INV reqWriteback cycle src)"

text \<open>Removing a sharer, the common tail of PUTX and PUTS.\<close>

definition entry_removeSharer :: "Entry \<Rightarrow> nat \<Rightarrow> Entry option" where
  "entry_removeSharer e child = do {
     sharer \<leftarrow> aget (sharers e) child;
     _ \<leftarrow> require sharer;
     Some (e\<lparr>sharers := (sharers e)[child := False], numSharers := numSharers e - 1\<rparr>)
   }"

text \<open>The result is the entry, the world, \<open>*childState\<close>, \<open>*inducedWriteback\<close> and the response cycle.\<close>

definition entry_processAccess :: "'w child_inval \<Rightarrow> u32 list \<Rightarrow> Entry \<Rightarrow> 'w \<Rightarrow> Address \<Rightarrow> AccessType \<Rightarrow> nat \<Rightarrow>
    bool \<Rightarrow> MESIState \<Rightarrow> bool \<Rightarrow> u64 \<Rightarrow> u32 \<Rightarrow> u32 \<Rightarrow> (Entry \<times> 'w \<times> MESIState \<times> bool \<times> u64) option" where
  "entry_processAccess invc rtts e w la type child haveExclusive childState inducedWriteback cycle src fl =
     (case type of
        PUTX \<Rightarrow> do {
          _ \<leftarrow> require (Entry_isExclusive e);
          if flag_is fl PUTX_KEEPEXCL then do {
            sharer \<leftarrow> aget (sharers e) child;
            _ \<leftarrow> require sharer;
            _ \<leftarrow> require (childState = M);
            Some (e, w, E, inducedWriteback, cycle)
          }
          else do {
            e' \<leftarrow> entry_removeSharer e child;
            Some (e', w, I, inducedWriteback, cycle)
          }
        }
      | PUTS \<Rightarrow> do {
          e' \<leftarrow> entry_removeSharer e child;
          Some (e', w, I, inducedWriteback, cycle)
        }
      | GETS \<Rightarrow>
          (if Entry_isEmpty e \<and> haveExclusive \<and> \<not> flag_is fl NOEXCL then do {
             sh \<leftarrow> aset (sharers e) child True;
             Some (e\<lparr>exclusive := True, sharers := sh, numSharers := 1\<rparr>, w, E, inducedWriteback, cycle)
           }
           else do {
             sharer \<leftarrow> aget (sharers e) child;
             _ \<leftarrow> require (\<not> sharer);
             (e1, w1, wb, respCycle) \<leftarrow>
               (if Entry_isExclusive e
                then entry_sendInvalidates invc rtts e w la INVX inducedWriteback cycle src
                else Some (e, w, inducedWriteback, cycle));
             _ \<leftarrow> require (\<not> Entry_isExclusive e1);
             sh \<leftarrow> aset (sharers e1) child True;
             Some (e1\<lparr>sharers := sh, numSharers := numSharers e1 + 1, exclusive := False\<rparr>, w1, S, wb, respCycle)
           })
      | GETX \<Rightarrow> do {
          _ \<leftarrow> require haveExclusive;
          sharer \<leftarrow> aget (sharers e) child;
          e0 \<leftarrow> (if sharer then do {
                   _ \<leftarrow> require (\<not> Entry_isExclusive e);
                   Some (e\<lparr>sharers := (sharers e)[child := False], numSharers := numSharers e - 1\<rparr>)
                 }
                 else Some e);
          (e1, w1, wb, respCycle) \<leftarrow> entry_sendInvalidates invc rtts e0 w la INV inducedWriteback cycle src;
          sh \<leftarrow> aset (sharers e1) child True;
          let e2 = e1\<lparr>sharers := sh, numSharers := numSharers e1 + 1, exclusive := True\<rparr>;
          _ \<leftarrow> require (numSharers e2 = 1);
          Some (e2, w1, M, wb, respCycle)
        })"

definition tcc_processAccess :: "'w child_inval \<Rightarrow> MESITopCC \<Rightarrow> 'w \<Rightarrow> Address \<Rightarrow> nat \<Rightarrow> AccessType \<Rightarrow> nat \<Rightarrow>
    bool \<Rightarrow> MESIState \<Rightarrow> bool \<Rightarrow> u64 \<Rightarrow> u32 \<Rightarrow> u32 \<Rightarrow> (MESITopCC \<times> 'w \<times> MESIState \<times> bool \<times> u64) option" where
  "tcc_processAccess invc t w la lineId type child haveExclusive childState inducedWriteback cycle src fl =
     on_entry t lineId (\<lambda>e. entry_processAccess invc (childrenRTTs t) e w la type child haveExclusive childState
       inducedWriteback cycle src fl)"

definition tcc_processInval :: "'w child_inval \<Rightarrow> MESITopCC \<Rightarrow> 'w \<Rightarrow> Address \<Rightarrow> nat \<Rightarrow> InvType \<Rightarrow> bool \<Rightarrow>
    u64 \<Rightarrow> u32 \<Rightarrow> (MESITopCC \<times> 'w \<times> bool \<times> u64) option" where
  "tcc_processInval invc t w la lineId type reqWriteback cycle src =
     (if type = FWD then do {
        _ \<leftarrow> require (\<not> tnonInclusiveHack t);
        Some (t, w, reqWriteback, cycle)
      }
      else tcc_sendInvalidates invc t w la lineId type reqWriteback cycle src)"

definition tcc_numSharers :: "MESITopCC \<Rightarrow> nat \<Rightarrow> u32 option" where
  "tcc_numSharers t lineId = do {
     e \<leftarrow> aget (tarray t) lineId;
     Some (numSharers e)
   }"

section \<open>Races\<close>

text \<open>The possibly changed access type and the flag that the access is to be skipped.\<close>

definition CheckForMESIRace :: "AccessType \<Rightarrow> MESIState \<Rightarrow> MESIState \<Rightarrow> (AccessType \<times> bool) option" where
  "CheckForMESIRace type state initial =
     (if state \<noteq> initial then
        (if type = PUTS \<or> type = PUTX then
           (if state = I then Some (type, True)
            else do {
              _ \<leftarrow> require (state = S);
              Some (if type = PUTX then PUTS else type, False)
            })
         else if type = GETX then do {
           _ \<leftarrow> require (initial = S);
           _ \<leftarrow> require (state = I);
           Some (type, False)
         }
         else None)
      else Some (type, False))"

section \<open>MESICC\<close>

record MESICC =
  tcc :: MESITopCC
  bcc :: MESIBottomCC
  nonInclusiveHack :: bool

text \<open>\<open>setParents\<close> and \<open>setChildren\<close> build the two halves.\<close>

definition MESICC_new :: "u32 \<Rightarrow> bool \<Rightarrow> nat \<Rightarrow> nat \<Rightarrow> (nat \<Rightarrow> u32) option \<Rightarrow> nat \<Rightarrow> (nat \<Rightarrow> u32) option \<Rightarrow> MESICC option" where
  "MESICC_new numLines nonIncl child numParents parentNet numChildren childNet = do {
     t \<leftarrow> MESITopCC_init (MESITopCC_new numLines nonIncl) numChildren childNet;
     Some \<lparr>tcc = t, bcc = MESIBottomCC_init (MESIBottomCC_new numLines child nonIncl) numParents parentNet,
           nonInclusiveHack = nonIncl\<rparr>
   }"

text \<open>
  \<open>startAccess\<close> returns the request with the type it now has and the skip flag; the type is checked
  first, which holds of every value of the type.
\<close>

definition cc_startAccess :: "MemReq \<Rightarrow> (MemReq \<times> bool) option" where
  "cc_startAccess req = do {
     (type, skip) \<leftarrow> CheckForMESIRace (rtype req) (rstate req) (initialState req);
     Some (req\<lparr>rtype := type\<rparr>, skip)
   }"

definition cc_shouldAllocate :: "MESICC \<Rightarrow> MemReq \<Rightarrow> bool option" where
  "cc_shouldAllocate cc req =
     (if rtype req = GETS \<or> rtype req = GETX then Some True
      else do {
        _ \<leftarrow> require (nonInclusiveHack cc);
        Some False
      })"

text \<open>The parent call of \<open>bcc\<close>, whose world is the rest of the controller and of the system.\<close>

definition bcc_acc :: "(MESICC, 'w) parent_access \<Rightarrow> MESICC \<Rightarrow> (MESIBottomCC, MESITopCC \<times> 'w) parent_access" where
  "bcc_acc acc cc b tw pid req = (case tw of (t, w) \<Rightarrow> do {
     (cc', w', st, c) \<leftarrow> acc (cc\<lparr>bcc := b, tcc := t\<rparr>) w pid req;
     Some (bcc cc', (tcc cc', w'), st, c)
   })"

definition cc_processEviction :: "(MESICC, 'w) parent_access \<Rightarrow> 'w child_inval \<Rightarrow> MESICC \<Rightarrow> 'w \<Rightarrow> MemReq \<Rightarrow>
    Address \<Rightarrow> nat \<Rightarrow> u64 \<Rightarrow> (MESICC \<times> 'w \<times> u64) option" where
  "cc_processEviction acc invc cc w triggerReq wbLineAddr lineId startCycle = do {
     (t, w1, lowerLevelWriteback, evCycle) \<leftarrow>
        tcc_processEviction invc (tcc cc) w wbLineAddr lineId False startCycle (srcId triggerReq);
     (b, (t', w2), evCycle') \<leftarrow>
        bcc_processEviction (bcc_acc acc cc) (bcc cc) (t, w1) wbLineAddr lineId lowerLevelWriteback evCycle
          (srcId triggerReq);
     Some (cc\<lparr>tcc := t', bcc := b\<rparr>, w2, evCycle')
   }"

text \<open>
  The result is the controller, the world, \<open>*req.state\<close>, the response cycle and the value stored
  in \<open>*getDoneCycle\<close>, when the access gets that far.
\<close>

definition cc_processAccess :: "(MESICC, 'w) parent_access \<Rightarrow> 'w child_inval \<Rightarrow> MESICC \<Rightarrow> 'w \<Rightarrow> MemReq \<Rightarrow>
    int \<Rightarrow> u64 \<Rightarrow> (MESICC \<times> 'w \<times> MESIState \<times> u64 \<times> u64 option) option" where
  "cc_processAccess acc invc cc w req lineId startCycle = do {
     bypass \<leftarrow> (if lineId = -1 then Some True
                else if rtype req = PUTS \<or> rtype req = PUTX then do {
                  v \<leftarrow> bcc_isValid (bcc cc) (nat lineId);
                  Some (\<not> v)
                }
                else Some False);
     if bypass then do {
       _ \<leftarrow> require (nonInclusiveHack cc);
       _ \<leftarrow> require (rtype req = PUTS \<or> rtype req = PUTX);
       (b, (t, w1), st, resp) \<leftarrow>
          bcc_processNonInclusiveWriteback (bcc_acc acc cc) (bcc cc) (tcc cc, w) (lineAddr req) (rtype req)
            startCycle (rstate req) (srcId req) (flags req);
       Some (cc\<lparr>tcc := t, bcc := b\<rparr>, w1, st, resp, None)
     }
     else do {
       let isPrefetch = flag_is (flags req) PREFETCH;
       _ \<leftarrow> require (\<not> isPrefetch \<or> rtype req = GETS);
       let fl = flags req AND NOT PREFETCH;
       (b, (t, w1), resp) \<leftarrow>
          bcc_processAccess (bcc_acc acc cc) (bcc cc) (tcc cc, w) (lineAddr req) (nat lineId) (rtype req)
            startCycle (srcId req) fl;
       let cc1 = cc\<lparr>tcc := t, bcc := b\<rparr>;
       if isPrefetch then Some (cc1, w1, rstate req, resp, Some resp)
       else do {
         excl \<leftarrow> bcc_isExclusive b (nat lineId);
         (t', w2, st, lowerLevelWriteback, resp') \<leftarrow>
            tcc_processAccess invc t w1 (lineAddr req) (nat lineId) (rtype req) (childId req) excl (rstate req)
              False resp (srcId req) fl;
         b' \<leftarrow> (if lowerLevelWriteback then bcc_processWritebackOnAccess b (nat lineId) else Some b);
         Some (cc1\<lparr>tcc := t', bcc := b'\<rparr>, w2, st, resp', Some resp)
       }
     }
   }"

text \<open>The result is the controller, the world, \<open>*req.writeback\<close> and the response cycle.\<close>

definition cc_processInv :: "'w child_inval \<Rightarrow> MESICC \<Rightarrow> 'w \<Rightarrow> InvReq \<Rightarrow> nat \<Rightarrow> u64 \<Rightarrow>
    (MESICC \<times> 'w \<times> bool \<times> u64) option" where
  "cc_processInv invc cc w req lineId startCycle = do {
     (t, w1, wb, respCycle) \<leftarrow>
        tcc_processInval invc (tcc cc) w (ilineAddr req) lineId (itype req) (writeback req) startCycle (isrcId req);
     (b, wb') \<leftarrow> bcc_processInval (bcc cc) lineId (itype req) wb;
     Some (cc\<lparr>tcc := t, bcc := b\<rparr>, w1, wb', respCycle)
   }"

definition cc_numSharers :: "MESICC \<Rightarrow> nat \<Rightarrow> u32 option" where
  "cc_numSharers cc lineId = tcc_numSharers (tcc cc) lineId"

definition cc_isValid :: "MESICC \<Rightarrow> nat \<Rightarrow> bool option" where
  "cc_isValid cc lineId = bcc_isValid (bcc cc) lineId"

section \<open>MESITerminalCC\<close>

text \<open>Its only state is the bottom controller.\<close>

definition MESITerminalCC_new :: "u32 \<Rightarrow> nat \<Rightarrow> nat \<Rightarrow> (nat \<Rightarrow> u32) option \<Rightarrow> MESIBottomCC" where
  "MESITerminalCC_new numLines child numParents network =
     MESIBottomCC_init (MESIBottomCC_new numLines child False) numParents network"

definition term_startAccess :: "MemReq \<Rightarrow> (MemReq \<times> bool) option" where
  "term_startAccess req = do {
     _ \<leftarrow> require (rtype req = GETS \<or> rtype req = GETX);
     (type, skip) \<leftarrow> CheckForMESIRace (rtype req) (rstate req) (initialState req);
     Some (req\<lparr>rtype := type\<rparr>, skip)
   }"

definition term_shouldAllocate :: "MESIBottomCC \<Rightarrow> MemReq \<Rightarrow> bool option" where
  "term_shouldAllocate b req = Some True"

definition term_processEviction :: "(MESIBottomCC, 'w) parent_access \<Rightarrow> MESIBottomCC \<Rightarrow> 'w \<Rightarrow> MemReq \<Rightarrow>
    Address \<Rightarrow> nat \<Rightarrow> u64 \<Rightarrow> (MESIBottomCC \<times> 'w \<times> u64) option" where
  "term_processEviction acc b w triggerReq wbLineAddr lineId startCycle =
     bcc_processEviction acc b w wbLineAddr lineId False startCycle (srcId triggerReq)"

text \<open>\<open>hasDone\<close> says whether a \<open>getDoneCycle\<close> pointer was passed.\<close>

definition term_processAccess :: "(MESIBottomCC, 'w) parent_access \<Rightarrow> MESIBottomCC \<Rightarrow> 'w \<Rightarrow> MemReq \<Rightarrow>
    int \<Rightarrow> u64 \<Rightarrow> bool \<Rightarrow> (MESIBottomCC \<times> 'w \<times> u64) option" where
  "term_processAccess acc b w req lineId startCycle hasDone = do {
     _ \<leftarrow> require (lineId \<noteq> -1);
     _ \<leftarrow> require (\<not> hasDone);
     bcc_processAccess acc b w (lineAddr req) (nat lineId) (rtype req) startCycle (srcId req) (flags req)
   }"

definition term_processInv :: "MESIBottomCC \<Rightarrow> InvReq \<Rightarrow> nat \<Rightarrow> u64 \<Rightarrow> (MESIBottomCC \<times> bool \<times> u64) option" where
  "term_processInv b req lineId startCycle = do {
     (b', wb) \<leftarrow> bcc_processInval b lineId (itype req) (writeback req);
     Some (b', wb, startCycle)
   }"

definition term_numSharers :: "MESIBottomCC \<Rightarrow> nat \<Rightarrow> u32" where
  "term_numSharers b lineId = 0"

section \<open>The directory and its children\<close>

text \<open>
  The sharers an entry records, and the invariant that ties them to the states \<open>st\<close> in which the
  \<open>n\<close> children hold the line: a child is a sharer iff it holds the line, and it holds it in E or M
  iff the entry is exclusive, which at most one sharer can be.
\<close>

definition dir_count :: "nat \<Rightarrow> Entry \<Rightarrow> (nat \<Rightarrow> MESIState) \<Rightarrow> bool" where
  "dir_count n e st = (n \<le> length (sharers e) \<and> n < 2 ^ 32
     \<and> unat (numSharers e) = card {c. c < n \<and> sharers e ! c}
     \<and> (\<forall>c < n. sharers e ! c \<longrightarrow> st c \<noteq> I))"

definition dir_rel :: "nat \<Rightarrow> Entry \<Rightarrow> (nat \<Rightarrow> MESIState) \<Rightarrow> bool" where
  "dir_rel n e st = (dir_count n e st
     \<and> (\<forall>c < n. st c \<noteq> I \<longrightarrow> sharers e ! c)
     \<and> (\<forall>c < n. st c = E \<or> st c = M \<longleftrightarrow> exclusive e \<and> sharers e ! c)
     \<and> (exclusive e \<longrightarrow> unat (numSharers e) \<le> 1))"

lemma sharers_finite [simp]: "finite {c. c < (n :: nat) \<and> P c}"
  by (rule finite_subset [of _ "{..<n}"]) auto

lemma card_sharers_set:
  assumes "c < n" "n \<le> length xs"
  shows "card {k. k < n \<and> xs[c := v] ! k} + (if xs ! c then 1 else 0) = card {k. k < n \<and> xs ! k} + (if v then 1 else 0)"
proof -
  let ?A = "{k. k < n \<and> k \<noteq> c \<and> xs ! k}"
  have "{k. k < n \<and> xs[c := v] ! k} = (if v then insert c ?A else ?A)"
    and "{k. k < n \<and> xs ! k} = (if xs ! c then insert c ?A else ?A)"
    using assms by (auto simp: nth_list_update)
  moreover have "c \<notin> ?A" "finite ?A" by simp_all
  ultimately show ?thesis by simp
qed

lemma sole_sharer:
  assumes ok: "dir_count n e st" and x: "unat (numSharers e) \<le> 1" "a < n" "sharers e ! a" "b < n" "sharers e ! b"
  shows "a = b"
proof (rule ccontr)
  assume "a \<noteq> b"
  have "card {a, b} \<le> card {c. c < n \<and> sharers e ! c}" using x by (intro card_mono) auto
  then show False using ok x(1) \<open>a \<noteq> b\<close> by (simp add: dir_count_def)
qed

text \<open>The single-writer, multiple-reader condition.\<close>

definition single_writer :: "nat \<Rightarrow> (nat \<Rightarrow> MESIState) \<Rightarrow> bool" where
  "single_writer n st = (\<forall>a < n. \<forall>b < n. (st a = E \<or> st a = M) \<and> a \<noteq> b \<longrightarrow> st b = I)"

lemma dir_rel_single_writer: "dir_rel n e st \<Longrightarrow> single_writer n st"
  unfolding single_writer_def dir_rel_def using sole_sharer by metis

text \<open>
  The interface that a directory (\<open>MESITopCC\<close>) relies on: \<open>cstate w c\<close> is the state in which child \<open>c\<close>
  holds the line, and an invalidation does what its type says.
\<close>

locale child_port =
  fixes invc :: "'w child_inval"
    and n :: nat
    and cstate :: "'w \<Rightarrow> nat \<Rightarrow> MESIState"
    and wok :: "'w \<Rightarrow> bool"
  assumes inval_INV: "wok w \<Longrightarrow> c < n \<Longrightarrow> cstate w c \<noteq> I \<Longrightarrow> itype req = INV \<Longrightarrow>
      \<exists>w' cy. invc w c req = Some (w', writeback req \<or> cstate w c = M, cy) \<and> wok w' \<and> cstate w' = (cstate w)(c := I)"
    and inval_INVX: "wok w \<Longrightarrow> c < n \<Longrightarrow> cstate w c = E \<or> cstate w c = M \<Longrightarrow> itype req = INVX \<Longrightarrow>
      \<exists>w' cy. invc w c req = Some (w', writeback req \<or> cstate w c = M, cy) \<and> wok w' \<and> cstate w' = (cstate w)(c := S)"
begin

definition dir_ok :: "Entry \<Rightarrow> 'w \<Rightarrow> bool" where
  "dir_ok e w = (wok w \<and> dir_count n e (cstate w))"

definition dir_inv :: "Entry \<Rightarrow> 'w \<Rightarrow> bool" where
  "dir_inv e w = (wok w \<and> dir_rel n e (cstate w))"

lemma invLoop_INV:
  assumes "wok w" "n \<le> length (sharers e)" "c + length rtts = n"
    and "\<forall>k. c \<le> k \<and> k < n \<and> sharers e ! k \<longrightarrow> cstate w k \<noteq> I"
  shows "\<exists>e' w' mx'. invLoop invc la INV cy src rtts c e w wb mx sent
      = Some (e', w', wb \<or> (\<exists>k. c \<le> k \<and> k < n \<and> sharers e ! k \<and> cstate w k = M), mx',
              sent + of_nat (card {k. c \<le> k \<and> k < n \<and> sharers e ! k}))
    \<and> wok w' \<and> numSharers e' = numSharers e \<and> exclusive e' = exclusive e \<and> length (sharers e') = length (sharers e)
    \<and> (\<forall>k. k < length (sharers e) \<longrightarrow> sharers e' ! k = (if c \<le> k \<and> k < n then False else sharers e ! k))
    \<and> (\<forall>k. cstate w' k = (if c \<le> k \<and> k < n \<and> sharers e ! k then I else cstate w k))"
  using assms
proof (induction rtts arbitrary: c e w wb mx sent)
  case Nil
  then have c: "c = n" by simp
  have none: "{k. n \<le> k \<and> k < n \<and> sharers e ! k} = {}" by auto
  show ?case unfolding c none using Nil by (auto intro!: exI [of _ e] exI [of _ w])
next
  case (Cons rtt rtts)
  have c: "c < n" "Suc c + length rtts = n" using Cons.prems(3) by simp_all
  have le: "c \<le> k \<longleftrightarrow> k = c \<or> Suc c \<le> k" for k by auto
  have split: "{k. c \<le> k \<and> k < n \<and> sharers e ! k}
      = (if sharers e ! c then insert c {k. Suc c \<le> k \<and> k < n \<and> sharers e ! k}
         else {k. Suc c \<le> k \<and> k < n \<and> sharers e ! k})"
    using c(1) by (auto simp: le)
  have exM: "(\<exists>k. c \<le> k \<and> k < n \<and> sharers e ! k \<and> cstate w k = M) \<longleftrightarrow>
      (sharers e ! c \<and> cstate w c = M) \<or> (\<exists>k. Suc c \<le> k \<and> k < n \<and> sharers e ! k \<and> cstate w k = M)"
    using c(1) by (auto simp: le)
  have fin: "finite {k. Suc c \<le> k \<and> k < n \<and> sharers e ! k}" by (rule finite_subset [of _ "{..<n}"]) auto
  show ?case
  proof (cases "sharers e ! c")
    case False
    obtain e' w' mx' where IH:
      "invLoop invc la INV cy src rtts (Suc c) e w wb mx sent
        = Some (e', w', wb \<or> (\<exists>k. c \<le> k \<and> k < n \<and> sharers e ! k \<and> cstate w k = M), mx',
              sent + of_nat (card {k. c \<le> k \<and> k < n \<and> sharers e ! k}))"
      "wok w'" "numSharers e' = numSharers e" "exclusive e' = exclusive e" "length (sharers e') = length (sharers e)"
      "\<forall>k. k < length (sharers e) \<longrightarrow> sharers e' ! k = (if Suc c \<le> k \<and> k < n then False else sharers e ! k)"
      "\<forall>k. cstate w' k = (if Suc c \<le> k \<and> k < n \<and> sharers e ! k then I else cstate w k)"
      using Cons.IH [of w e "Suc c" wb mx sent] Cons.prems c False unfolding split exM by auto
    then show ?thesis using False c(1) Cons.prems(2)
      by (intro exI [of _ e'] exI [of _ w'] exI [of _ mx']) (auto simp: le)
  next
    case True
    let ?req = "\<lparr>ilineAddr = la, itype = INV, writeback = wb, icycle = cy, isrcId = src\<rparr>"
    have "cstate w c \<noteq> I" using True Cons.prems(4) c(1) by blast
    then obtain w1 cy1 where w1: "invc w c ?req = Some (w1, wb \<or> cstate w c = M, cy1)" "wok w1"
      "cstate w1 = (cstate w)(c := I)"
      using inval_INV [OF Cons.prems(1) c(1), of ?req] by auto
    let ?e = "e\<lparr>sharers := (sharers e)[c := False]\<rparr>"
    have sh: "sharers ?e ! k = sharers e ! k" if "Suc c \<le> k" for k using that by simp
    have sets: "{k. Suc c \<le> k \<and> k < n \<and> sharers ?e ! k} = {k. Suc c \<le> k \<and> k < n \<and> sharers e ! k}"
      using sh by blast
    have same: "cstate w1 k = cstate w k" if "Suc c \<le> k" for k using that unfolding w1(3) by auto
    have ex1: "(\<exists>k. Suc c \<le> k \<and> k < n \<and> sharers ?e ! k \<and> cstate w1 k = M)
        \<longleftrightarrow> (\<exists>k. Suc c \<le> k \<and> k < n \<and> sharers e ! k \<and> cstate w k = M)"
      by (metis same sh)
    have "\<forall>k. Suc c \<le> k \<and> k < n \<and> sharers ?e ! k \<longrightarrow> cstate w1 k \<noteq> I"
      using Cons.prems(4) same sh by (metis Suc_leD)
    then obtain e' w' mx' where IH:
      "invLoop invc la INV cy src rtts (Suc c) ?e w1 (wb \<or> cstate w c = M) (c_MAX (cy1 + ucast rtt) mx) (sent + 1)
        = Some (e', w', (wb \<or> cstate w c = M) \<or> (\<exists>k. Suc c \<le> k \<and> k < n \<and> sharers e ! k \<and> cstate w k = M), mx',
              sent + 1 + of_nat (card {k. Suc c \<le> k \<and> k < n \<and> sharers e ! k}))"
      "wok w'" "numSharers e' = numSharers e" "exclusive e' = exclusive e" "length (sharers e') = length (sharers e)"
      "\<forall>k. k < length (sharers e) \<longrightarrow> sharers e' ! k = (if Suc c \<le> k \<and> k < n then False else sharers ?e ! k)"
      "\<forall>k. cstate w' k = (if Suc c \<le> k \<and> k < n \<and> sharers ?e ! k then I else cstate w1 k)"
      using Cons.IH [of w1 ?e "Suc c" "wb \<or> cstate w c = M" "c_MAX (cy1 + ucast rtt) mx" "sent + 1"]
        Cons.prems(2) c w1(2) unfolding sets ex1 by auto
    have "sent + 1 + of_nat (card {k. Suc c \<le> k \<and> k < n \<and> sharers e ! k})
        = sent + of_nat (card {k. c \<le> k \<and> k < n \<and> sharers e ! k})"
      using True fin by (simp add: split algebra_simps)
    moreover have "invLoop invc la INV cy src (rtt # rtts) c e w wb mx sent
        = invLoop invc la INV cy src rtts (Suc c) ?e w1 (wb \<or> cstate w c = M) (c_MAX (cy1 + ucast rtt) mx) (sent + 1)"
      using True w1(1) c(1) Cons.prems(2) by (simp add: Let_def)
    moreover have "cstate w' k = (if c \<le> k \<and> k < n \<and> sharers e ! k then I else cstate w k)" for k
      using IH(7) w1(3) True c(1) sh [of k] le [of k] by (cases "k = c") auto
    ultimately show ?thesis using IH exM True c(1) Cons.prems(2)
      by (intro exI [of _ e'] exI [of _ w'] exI [of _ mx']) (auto simp: le nth_list_update)
  qed
qed

lemma invLoop_INVX:
  assumes "wok w" "n \<le> length (sharers e)" "c + length rtts = n"
    and "\<forall>k. c \<le> k \<and> k < n \<and> sharers e ! k \<longrightarrow> cstate w k = E \<or> cstate w k = M"
  shows "\<exists>w' mx'. invLoop invc la INVX cy src rtts c e w wb mx sent
      = Some (e, w', wb \<or> (\<exists>k. c \<le> k \<and> k < n \<and> sharers e ! k \<and> cstate w k = M), mx',
              sent + of_nat (card {k. c \<le> k \<and> k < n \<and> sharers e ! k}))
    \<and> wok w' \<and> (\<forall>k. cstate w' k = (if c \<le> k \<and> k < n \<and> sharers e ! k then S else cstate w k))"
  using assms
proof (induction rtts arbitrary: c w wb mx sent)
  case Nil
  then have c: "c = n" by simp
  have none: "{k. n \<le> k \<and> k < n \<and> sharers e ! k} = {}" by auto
  show ?case unfolding c none using Nil by (auto intro!: exI [of _ w])
next
  case (Cons rtt rtts)
  have c: "c < n" "Suc c + length rtts = n" using Cons.prems(3) by simp_all
  have le: "c \<le> k \<longleftrightarrow> k = c \<or> Suc c \<le> k" for k by auto
  have split: "{k. c \<le> k \<and> k < n \<and> sharers e ! k}
      = (if sharers e ! c then insert c {k. Suc c \<le> k \<and> k < n \<and> sharers e ! k}
         else {k. Suc c \<le> k \<and> k < n \<and> sharers e ! k})"
    using c(1) by (auto simp: le)
  have exM: "(\<exists>k. c \<le> k \<and> k < n \<and> sharers e ! k \<and> cstate w k = M) \<longleftrightarrow>
      (sharers e ! c \<and> cstate w c = M) \<or> (\<exists>k. Suc c \<le> k \<and> k < n \<and> sharers e ! k \<and> cstate w k = M)"
    using c(1) by (auto simp: le)
  have fin: "finite {k. Suc c \<le> k \<and> k < n \<and> sharers e ! k}" by (rule finite_subset [of _ "{..<n}"]) auto
  show ?case
  proof (cases "sharers e ! c")
    case False
    then show ?thesis
      using Cons.IH [of w "Suc c" wb mx sent] Cons.prems c unfolding split exM
      by (auto simp: le)
  next
    case True
    let ?req = "\<lparr>ilineAddr = la, itype = INVX, writeback = wb, icycle = cy, isrcId = src\<rparr>"
    have "cstate w c = E \<or> cstate w c = M" using True Cons.prems(4) c(1) by blast
    then obtain w1 cy1 where w1: "invc w c ?req = Some (w1, wb \<or> cstate w c = M, cy1)" "wok w1"
      "cstate w1 = (cstate w)(c := S)"
      using inval_INVX [OF Cons.prems(1) c(1), of ?req] by auto
    have same: "cstate w1 k = cstate w k" if "Suc c \<le> k" for k using that unfolding w1(3) by auto
    have ex1: "(\<exists>k. Suc c \<le> k \<and> k < n \<and> sharers e ! k \<and> cstate w1 k = M)
        \<longleftrightarrow> (\<exists>k. Suc c \<le> k \<and> k < n \<and> sharers e ! k \<and> cstate w k = M)"
      by (metis same)
    have "\<forall>k. Suc c \<le> k \<and> k < n \<and> sharers e ! k \<longrightarrow> cstate w1 k = E \<or> cstate w1 k = M"
      using Cons.prems(4) unfolding w1(3) by auto
    then obtain w' mx' where IH:
      "invLoop invc la INVX cy src rtts (Suc c) e w1 (wb \<or> cstate w c = M) (c_MAX (cy1 + ucast rtt) mx) (sent + 1)
        = Some (e, w', (wb \<or> cstate w c = M) \<or> (\<exists>k. Suc c \<le> k \<and> k < n \<and> sharers e ! k \<and> cstate w k = M), mx',
              sent + 1 + of_nat (card {k. Suc c \<le> k \<and> k < n \<and> sharers e ! k}))"
      "wok w'" "\<forall>k. cstate w' k = (if Suc c \<le> k \<and> k < n \<and> sharers e ! k then S else cstate w1 k)"
      using Cons.IH [of w1 "Suc c" "wb \<or> cstate w c = M" "c_MAX (cy1 + ucast rtt) mx" "sent + 1"]
        Cons.prems(2) c w1(2) unfolding ex1 by auto
    have "sent + 1 + of_nat (card {k. Suc c \<le> k \<and> k < n \<and> sharers e ! k})
        = sent + of_nat (card {k. c \<le> k \<and> k < n \<and> sharers e ! k})"
      using True fin by (simp add: split algebra_simps)
    moreover have "invLoop invc la INVX cy src (rtt # rtts) c e w wb mx sent
        = invLoop invc la INVX cy src rtts (Suc c) e w1 (wb \<or> cstate w c = M) (c_MAX (cy1 + ucast rtt) mx) (sent + 1)"
      using True w1(1) c(1) Cons.prems(2) by (simp add: Let_def)
    ultimately show ?thesis using IH exM c(1) True w1(3)
      by (intro exI [of _ w'] exI [of _ mx']) (auto simp: le)
  qed
qed

lemma of_nat_numSharers: "dir_ok e w \<Longrightarrow> of_nat (card {c. c < n \<and> sharers e ! c}) = numSharers e"
proof -
  assume "dir_ok e w"
  then have "card {c. c < n \<and> sharers e ! c} = unat (numSharers e)" by (simp add: dir_ok_def dir_count_def)
  then show ?thesis by (simp only:) simp
qed

text \<open>After a full invalidation no sharer has the line, and a dirty copy is reported.\<close>

lemma sendInvalidates_INV:
  assumes ok: "dir_ok e w" and len: "length rtts = n"
  shows "\<exists>e' w' cy'. entry_sendInvalidates invc rtts e w la INV wb cy src
      = Some (e', w', wb \<or> (\<exists>k < n. sharers e ! k \<and> cstate w k = M), cy')
    \<and> dir_ok e' w' \<and> numSharers e' = 0 \<and> exclusive e' = exclusive e \<and> length (sharers e') = length (sharers e)
    \<and> (\<forall>k. cstate w' k = (if k < n \<and> sharers e ! k then I else cstate w k)) \<and> (\<forall>k < n. \<not> sharers e' ! k)"
proof (cases "Entry_isEmpty e")
  case True
  then have z: "numSharers e = 0" by (simp add: Entry_isEmpty_def)
  then have "card {c. c < n \<and> sharers e ! c} = 0" using ok by (simp add: dir_ok_def dir_count_def)
  then have none: "\<not> sharers e ! k" if "k < n" for k using that by simp
  then show ?thesis using True z ok
    by (auto simp: entry_sendInvalidates_def intro!: exI [of _ e] exI [of _ w])
next
  case False
  obtain e' w' mx where l: "invLoop invc la INV cy src rtts 0 e w wb cy 0
      = Some (e', w', wb \<or> (\<exists>k < n. sharers e ! k \<and> cstate w k = M), mx, numSharers e)"
    "wok w'" "numSharers e' = numSharers e" "exclusive e' = exclusive e" "length (sharers e') = length (sharers e)"
    "\<forall>k. k < length (sharers e) \<longrightarrow> sharers e' ! k = (if k < n then False else sharers e ! k)"
    "\<forall>k. cstate w' k = (if k < n \<and> sharers e ! k then I else cstate w k)"
    using invLoop_INV [of w e 0 rtts la cy src wb cy 0] ok len of_nat_numSharers [OF ok]
    by (auto simp: dir_ok_def dir_count_def)
  have no: "\<not> sharers e' ! k" if "k < n" for k using that l(6) ok by (simp add: dir_ok_def dir_count_def)
  then have "{c. c < n \<and> sharers e' ! c} = {}" by auto
  then have "dir_ok (e'\<lparr>numSharers := 0\<rparr>) w'"
    using l(2,5) ok no by (simp add: dir_ok_def dir_count_def)
  moreover have "entry_sendInvalidates invc rtts e w la INV wb cy src
      = Some (e'\<lparr>numSharers := 0\<rparr>, w', wb \<or> (\<exists>k < n. sharers e ! k \<and> cstate w k = M), mx)"
    using False l(1,3) by (simp add: entry_sendInvalidates_def)
  ultimately show ?thesis using l(4,5,7) no by auto
qed

text \<open>A downgrade: it reaches the one exclusive sharer, which keeps a shared copy.\<close>

lemma sendInvalidates_INVX:
  assumes inv: "dir_inv e w" and len: "length rtts = n" and ex: "Entry_isExclusive e"
  shows "\<exists>w' cy'. entry_sendInvalidates invc rtts e w la INVX wb cy src
      = Some (e\<lparr>exclusive := False\<rparr>, w', wb \<or> (\<exists>k < n. cstate w k = M), cy')
    \<and> dir_inv (e\<lparr>exclusive := False\<rparr>) w' \<and> (\<forall>k < n. cstate w' k = (if sharers e ! k then S else I))"
proof -
  have ok: "dir_ok e w" using inv by (simp add: dir_inv_def dir_rel_def dir_ok_def)
  have exl: "exclusive e" using ex by (simp add: Entry_isExclusive_def)
  then have held: "\<forall>k. k < n \<and> sharers e ! k \<longrightarrow> cstate w k = E \<or> cstate w k = M"
    using inv by (simp add: dir_inv_def dir_rel_def dir_count_def)
  have exM: "(\<exists>k < n. sharers e ! k \<and> cstate w k = M) \<longleftrightarrow> (\<exists>k < n. cstate w k = M)"
    using inv unfolding dir_inv_def dir_rel_def dir_count_def by (metis MESIState.distinct(5))
  obtain w' mx where l: "invLoop invc la INVX cy src rtts 0 e w wb cy 0
      = Some (e, w', wb \<or> (\<exists>k < n. sharers e ! k \<and> cstate w k = M), mx, numSharers e)"
    "wok w'" "\<forall>k. cstate w' k = (if k < n \<and> sharers e ! k then S else cstate w k)"
    using invLoop_INVX [of w e 0 rtts la cy src wb cy 0] ok len held of_nat_numSharers [OF ok]
    by (auto simp: dir_ok_def dir_count_def)
  have st: "cstate w' k = (if sharers e ! k then S else I)" if "k < n" for k
    using that l(3) inv by (auto simp: dir_inv_def dir_rel_def dir_count_def)
  have "entry_sendInvalidates invc rtts e w la INVX wb cy src
      = Some (e\<lparr>exclusive := False\<rparr>, w', wb \<or> (\<exists>k < n. cstate w k = M), mx)"
    using ex l(1) by (simp add: entry_sendInvalidates_def Entry_isExclusive_def Entry_isEmpty_def exM)
  moreover have "dir_inv (e\<lparr>exclusive := False\<rparr>) w'"
  proof -
    have "dir_ok (e\<lparr>exclusive := False\<rparr>) w'"
      using ok l(2) st unfolding dir_ok_def dir_count_def by simp
    then show ?thesis using st unfolding dir_inv_def dir_rel_def dir_ok_def by simp
  qed
  ultimately show ?thesis using st by blast
qed

lemma grant_shared:
  assumes inv: "dir_inv e w" and len: "length rtts = n" and c: "c < n" and st: "cstate w c = I"
    and no: "\<not> (Entry_isEmpty e \<and> hx \<and> \<not> flag_is fl NOEXCL)"
  shows "\<exists>e' w' cy'. entry_processAccess invc rtts e w la GETS c hx I wb cy src fl
      = Some (e', w', S, wb \<or> (\<exists>k < n. cstate w k = M), cy')
    \<and> wok w' \<and> dir_rel n e' ((cstate w')(c := S)) \<and> (\<forall>k < n. k \<noteq> c \<longrightarrow> cstate w' k = (if cstate w k = I then I else S))"
proof -
  have rel: "dir_rel n e (cstate w)" and wk: "wok w" using inv by (simp_all add: dir_inv_def)
  have c0: "\<not> sharers e ! c" and cl: "c < length (sharers e)"
    using rel st c by (auto simp: dir_rel_def dir_count_def)
  have sh: "sharers e ! k \<longleftrightarrow> cstate w k \<noteq> I" if "k < n" for k
    using rel that by (auto simp: dir_rel_def dir_count_def)
  have fin: "\<exists>e1 w1 cy'. (if Entry_isExclusive e then entry_sendInvalidates invc rtts e w la INVX wb cy src
        else Some (e, w, wb, cy)) = Some (e1, w1, wb \<or> (\<exists>k < n. cstate w k = M), cy')
     \<and> wok w1 \<and> sharers e1 = sharers e \<and> numSharers e1 = numSharers e \<and> \<not> Entry_isExclusive e1
     \<and> (\<forall>k < n. cstate w1 k = (if cstate w k = I then I else S))"
  proof (cases "Entry_isExclusive e")
    case True
    with sendInvalidates_INVX [OF inv len True, of la wb cy src] sh show ?thesis
      by (auto simp: Entry_isExclusive_def dir_inv_def)
  next
    case False
    have nx: "cstate w k \<noteq> E \<and> cstate w k \<noteq> M" if k: "k < n" for k
    proof (rule ccontr)
      assume "\<not> (cstate w k \<noteq> E \<and> cstate w k \<noteq> M)"
      then have x: "exclusive e" "sharers e ! k" using rel k by (auto simp: dir_rel_def)
      then have "k \<in> {i. i < n \<and> sharers e ! i}" using k by simp
      then have "0 < card {i. i < n \<and> sharers e ! i}" by (auto simp: card_gt_0_iff)
      moreover have "unat (numSharers e) \<le> 1" using x(1) rel by (simp add: dir_rel_def)
      ultimately have "unat (numSharers e) = 1" using rel by (simp add: dir_rel_def dir_count_def)
      then have "numSharers e = 1" by (simp add: word_unat_eq_iff)
      with False x(1) show False by (simp add: Entry_isExclusive_def)
    qed
    then have "\<forall>k < n. cstate w k = (if cstate w k = I then I else S)" by (metis MESIState.exhaust)
    moreover have "(wb \<or> (\<exists>k < n. cstate w k = M)) = wb" using nx by blast
    ultimately show ?thesis using False wk
      by (intro exI [of _ e] exI [of _ w] exI [of _ cy]) (simp only: if_False simp_thms)
  qed
  then obtain e1 w1 cy' where f: "(if Entry_isExclusive e then entry_sendInvalidates invc rtts e w la INVX wb cy src
        else Some (e, w, wb, cy)) = Some (e1, w1, wb \<or> (\<exists>k < n. cstate w k = M), cy')"
     "wok w1" "sharers e1 = sharers e" "numSharers e1 = numSharers e" "\<not> Entry_isExclusive e1"
     "\<forall>k < n. cstate w1 k = (if cstate w k = I then I else S)" by blast
  let ?e = "e1\<lparr>sharers := (sharers e1)[c := True], numSharers := numSharers e1 + 1, exclusive := False\<rparr>"
  have "entry_processAccess invc rtts e w la GETS c hx I wb cy src fl
      = Some (?e, w1, S, wb \<or> (\<exists>k < n. cstate w k = M), cy')"
    using no c0 cl f by (simp add: entry_processAccess_def)
  moreover have "dir_rel n ?e ((cstate w1)(c := S))"
  proof -
    have n: "n \<le> length (sharers e)" "n < 2 ^ 32" "unat (numSharers e) = card {k. k < n \<and> sharers e ! k}"
      using rel by (auto simp: dir_rel_def dir_count_def)
    have crd: "card {k. k < n \<and> (sharers e)[c := True] ! k} = unat (numSharers e) + 1"
      using card_sharers_set [OF c n(1), of True] c0 n(3) by simp
    moreover have "card {k. k < n \<and> (sharers e)[c := True] ! k} \<le> n"
      using card_mono [of "{..<n}" "{k. k < n \<and> (sharers e)[c := True] ! k}"] by auto
    ultimately have "unat (numSharers e + 1) = card {k. k < n \<and> (sharers e)[c := True] ! k}"
      using n(2) by (subst unat_add_no_wrap) simp_all
    then have cnt: "dir_count n ?e ((cstate w1)(c := S))"
      using n sh f(3,4,6) by (simp add: dir_count_def nth_list_update)
    have "((cstate w1)(c := S)) k \<noteq> E \<and> ((cstate w1)(c := S)) k \<noteq> M" if "k < n" for k
      using that f(6) by simp
    moreover have "sharers ?e ! k" if "k < n" "((cstate w1)(c := S)) k \<noteq> I" for k
      using that f(3,6) sh [OF that(1)] cl by (simp add: nth_list_update split: if_splits)
    ultimately show ?thesis using cnt by (simp add: dir_rel_def)
  qed
  ultimately show ?thesis using f(2,6) by auto
qed

lemma empty_no_child:
  assumes "dir_rel n e st" "Entry_isEmpty e" "k < n"
  shows "st k = I \<and> \<not> sharers e ! k"
proof -
  have "card {c. c < n \<and> sharers e ! c} = unat (numSharers e)"
    using assms(1) by (simp add: dir_rel_def dir_count_def)
  also have "\<dots> = 0" using assms(2) by (simp add: Entry_isEmpty_def)
  finally have "card {c. c < n \<and> sharers e ! c} = 0" .
  then have no: "\<not> sharers e ! k" using assms(3) by (subst (asm) card_0_eq) auto
  moreover have "st k \<noteq> I \<longrightarrow> sharers e ! k" using assms(1,3) by (simp add: dir_rel_def)
  ultimately show ?thesis by simp
qed

text \<open>An entry whose only sharer is \<open>c\<close>, marked exclusive.\<close>

lemma only_sharer:
  assumes "\<forall>k < n. sharers e ! k \<longleftrightarrow> k = c" "c < n" "n \<le> length (sharers e)" "n < 2 ^ 32"
    and "numSharers e = 1" "exclusive e" "st c = E \<or> st c = M" "\<forall>k < n. k \<noteq> c \<longrightarrow> st k = I"
  shows "dir_rel n e st"
proof -
  have set: "{k. k < n \<and> sharers e ! k} = {c}" using assms(1,2) by blast
  have sh: "sharers e ! k \<longleftrightarrow> k = c" if "k < n" for k using assms(1) that by blast
  have other: "st k = I" if "k < n" "k \<noteq> c" for k using assms(8) that by blast
  have own: "st c \<noteq> I" using assms(7) by fastforce
  have "dir_count n e st"
    unfolding dir_count_def set using assms(3-5) sh own by simp
  moreover have "\<forall>k < n. st k \<noteq> I \<longrightarrow> sharers e ! k" using sh other by blast
  moreover have "\<forall>k < n. st k = E \<or> st k = M \<longleftrightarrow> exclusive e \<and> sharers e ! k"
  proof (intro allI impI)
    fix k assume "k < n"
    then show "st k = E \<or> st k = M \<longleftrightarrow> exclusive e \<and> sharers e ! k"
      using sh [of k] other [of k] assms(6,7) by (cases "k = c") simp_all
  qed
  ultimately show ?thesis using assms(5) by (simp add: dir_rel_def)
qed

lemma grant_exclusive:
  assumes inv: "dir_inv e w" and c: "c < n" and yes: "Entry_isEmpty e \<and> hx \<and> \<not> flag_is fl NOEXCL"
  shows "\<exists>e'. entry_processAccess invc rtts e w la GETS c hx st wb cy src fl = Some (e', w, E, wb, cy)
    \<and> dir_rel n e' ((cstate w)(c := E)) \<and> (\<forall>k < n. cstate w k = I)"
proof -
  have rel: "dir_rel n e (cstate w)" using inv by (simp add: dir_inv_def)
  then have n: "n \<le> length (sharers e)" "n < 2 ^ 32" by (auto simp: dir_rel_def dir_count_def)
  have no: "cstate w k = I" "\<not> sharers e ! k" if "k < n" for k
    using empty_no_child [OF rel _ that] yes by auto
  let ?e = "e\<lparr>exclusive := True, sharers := (sharers e)[c := True], numSharers := 1\<rparr>"
  have "dir_rel n ?e ((cstate w)(c := E))"
    using no n c by (intro only_sharer [of _ c]) (auto simp: nth_list_update)
  moreover have "entry_processAccess invc rtts e w la GETS c hx st wb cy src fl = Some (?e, w, E, wb, cy)"
    using yes c n(1) by (simp add: entry_processAccess_def)
  ultimately show ?thesis using no(1) by blast
qed

lemma grant_modified:
  assumes inv: "dir_inv e w" and len: "length rtts = n" and c: "c < n" and st: "cstate w c = I \<or> cstate w c = S"
    and hx
  shows "\<exists>e' w' cy'. entry_processAccess invc rtts e w la GETX c hx (cstate w c) wb cy src fl
      = Some (e', w', M, wb \<or> (\<exists>k < n. cstate w k = M), cy')
    \<and> wok w' \<and> dir_rel n e' ((cstate w')(c := M)) \<and> (\<forall>k < n. k \<noteq> c \<longrightarrow> cstate w' k = I)"
proof -
  have rel: "dir_rel n e (cstate w)" and wk: "wok w" using inv by (simp_all add: dir_inv_def)
  then have n: "n \<le> length (sharers e)" "n < 2 ^ 32"
    and cnt: "unat (numSharers e) = card {k. k < n \<and> sharers e ! k}"
    and sh: "\<And>k. k < n \<Longrightarrow> sharers e ! k \<longleftrightarrow> cstate w k \<noteq> I"
    by (auto simp: dir_rel_def dir_count_def)
  let ?e0 = "if sharers e ! c then e\<lparr>sharers := (sharers e)[c := False], numSharers := numSharers e - 1\<rparr> else e"
  have sh0: "sharers ?e0 ! k \<longleftrightarrow> cstate w k \<noteq> I \<and> k \<noteq> c" if "k < n" for k
    using that sh c n(1) by (cases "k = c") auto
  have ok0: "dir_ok ?e0 w"
  proof (cases "sharers e ! c")
    case True
    have d: "card {k. k < n \<and> (sharers e)[c := False] ! k} + 1 = unat (numSharers e)"
      using card_sharers_set [OF c n(1), of False] True cnt by simp
    then have "1 \<le> numSharers e" by (simp add: word_le_nat_alt)
    then have "unat (numSharers e - 1) = card {k. k < n \<and> (sharers e)[c := False] ! k}"
      using d by (simp add: unat_sub_no_wrap)
    then show ?thesis using True n wk sh0 by (simp add: dir_ok_def dir_count_def)
  next
    case False
    then show ?thesis using rel wk by (simp add: dir_ok_def dir_rel_def)
  qed
  have notex: "\<not> Entry_isExclusive e" if "sharers e ! c"
    using rel c st that by (auto simp: dir_rel_def Entry_isExclusive_def)
  have exM: "(\<exists>k < n. sharers ?e0 ! k \<and> cstate w k = M) \<longleftrightarrow> (\<exists>k < n. cstate w k = M)"
    using sh0 st by (metis MESIState.distinct(5) MESIState.distinct(9))
  obtain e1 w1 cy' where s: "entry_sendInvalidates invc rtts ?e0 w la INV wb cy src
      = Some (e1, w1, wb \<or> (\<exists>k < n. cstate w k = M), cy')"
    "dir_ok e1 w1" "numSharers e1 = 0" "length (sharers e1) = length (sharers ?e0)"
    "\<forall>k. cstate w1 k = (if k < n \<and> sharers ?e0 ! k then I else cstate w k)" "\<forall>k < n. \<not> sharers e1 ! k"
    using sendInvalidates_INV [OF ok0 len, of la wb cy src] unfolding exM by blast
  have others: "cstate w1 k = I" if "k < n" "k \<noteq> c" for k
    using that s(5) sh0 [OF that(1)] by auto
  have len1: "n \<le> length (sharers e1)" using s(4) n(1) by simp
  let ?e = "e1\<lparr>sharers := (sharers e1)[c := True], numSharers := 1, exclusive := True\<rparr>"
  have "dir_rel n ?e ((cstate w1)(c := M))"
    using others s(6) len1 n(2) c by (intro only_sharer [of _ c]) (auto simp: nth_list_update)
  moreover have "entry_processAccess invc rtts e w la GETX c hx (cstate w c) wb cy src fl
      = Some (?e, w1, M, wb \<or> (\<exists>k < n. cstate w k = M), cy')"
    using \<open>hx\<close> c n(1) notex s(1,3) len1
    by (cases "sharers e ! c") (simp_all add: entry_processAccess_def Let_def)
  moreover have "wok w1" using s(2) by (simp add: dir_ok_def)
  ultimately show ?thesis using others by blast
qed

lemma release:
  assumes inv: "dir_inv e w" and c: "c < n"
    and ty: "(type = PUTS \<and> (cstate w c = S \<or> cstate w c = E)) \<or> (type = PUTX \<and> cstate w c = M)"
    and keep: "\<not> flag_is fl PUTX_KEEPEXCL"
  shows "\<exists>e'. entry_processAccess invc rtts e w la type c hx (cstate w c) wb cy src fl = Some (e', w, I, wb, cy)
    \<and> dir_rel n e' ((cstate w)(c := I))"
proof -
  have rel: "dir_rel n e (cstate w)" using inv by (simp add: dir_inv_def)
  then have n: "n \<le> length (sharers e)" "n < 2 ^ 32"
    and cnt: "unat (numSharers e) = card {k. k < n \<and> sharers e ! k}"
    and sh: "\<And>k. k < n \<Longrightarrow> sharers e ! k \<longleftrightarrow> cstate w k \<noteq> I"
    by (auto simp: dir_rel_def dir_count_def)
  have c1: "sharers e ! c" using sh [OF c] ty by auto
  let ?e = "e\<lparr>sharers := (sharers e)[c := False], numSharers := numSharers e - 1\<rparr>"
  have d: "card {k. k < n \<and> (sharers e)[c := False] ! k} + 1 = unat (numSharers e)"
    using card_sharers_set [OF c n(1), of False] c1 cnt by simp
  then have "1 \<le> numSharers e" by (simp add: word_le_nat_alt)
  then have sub: "unat (numSharers e - 1) = card {k. k < n \<and> (sharers e)[c := False] ! k}"
    using d by (simp add: unat_sub_no_wrap)
  have "dir_count n ?e ((cstate w)(c := I))"
    using n sub sh by (simp add: dir_count_def nth_list_update)
  moreover have "((cstate w)(c := I)) k = E \<or> ((cstate w)(c := I)) k = M \<longleftrightarrow> exclusive ?e \<and> sharers ?e ! k"
    if "k < n" for k
    using that rel n(1) c by (simp add: dir_rel_def nth_list_update)
  moreover have "exclusive ?e \<longrightarrow> unat (numSharers ?e) \<le> 1"
  proof
    assume "exclusive ?e"
    then have "unat (numSharers e) \<le> 1" using rel by (simp add: dir_rel_def)
    then show "unat (numSharers ?e) \<le> 1" using d sub by simp
  qed
  moreover have "sharers ?e ! k" if "k < n" "((cstate w)(c := I)) k \<noteq> I" for k
    using that sh by (simp split: if_splits)
  ultimately have "dir_rel n ?e ((cstate w)(c := I))" by (simp add: dir_rel_def)
  moreover have "Entry_isExclusive e" if "cstate w c = M"
  proof -
    have x: "exclusive e" using rel c that by (auto simp: dir_rel_def)
    then have "unat (numSharers e) = 1" using rel d by (simp add: dir_rel_def)
    then show ?thesis using x by (simp add: Entry_isExclusive_def word_unat_eq_iff)
  qed
  ultimately show ?thesis using ty keep c c1 n(1)
    by (auto simp: entry_processAccess_def entry_removeSharer_def)
qed

end

section \<open>A directory over terminal caches\<close>

text \<open>
  The children are terminal controllers, the world is their list, and child \<open>c\<close> has the line in its
  slot \<open>ln c\<close>.
\<close>

definition term_children :: "(nat \<Rightarrow> nat) \<Rightarrow> MESIBottomCC list child_inval" where
  "term_children ln w c req = do {
     b \<leftarrow> aget w c;
     (b', wb, cy) \<leftarrow> term_processInv b req (ln c) (icycle req);
     Some (w[c := b'], wb, cy)
   }"

definition children_state :: "(nat \<Rightarrow> nat) \<Rightarrow> MESIBottomCC list \<Rightarrow> nat \<Rightarrow> MESIState" where
  "children_state ln w c = barray (w ! c) ! ln c"

definition children_ok :: "nat \<Rightarrow> (nat \<Rightarrow> nat) \<Rightarrow> MESIBottomCC list \<Rightarrow> bool" where
  "children_ok n ln w = (length w = n \<and> (\<forall>c < n. ln c < length (barray (w ! c))))"

lemma term_children_step:
  assumes ok: "children_ok n ln w" and c: "c < n"
    and step: "bcc_processInval (w ! c) (ln c) (itype req) (writeback req) = Some (b', wb)"
      "barray b' = (barray (w ! c))[ln c := st]"
  shows "\<exists>w' cy. term_children ln w c req = Some (w', wb, cy) \<and> children_ok n ln w'
     \<and> children_state ln w' = (children_state ln w)(c := st)"
proof -
  have len: "c < length w" "ln c < length (barray (w ! c))" using ok c by (auto simp: children_ok_def)
  have "term_children ln w c req = Some (w[c := b'], wb, icycle req)"
    using len step by (simp add: term_children_def term_processInv_def)
  moreover have "children_ok n ln (w[c := b'])"
    unfolding children_ok_def
  proof (intro conjI allI impI)
    fix k assume "k < n"
    then show "ln k < length (barray (w[c := b'] ! k))"
      using ok step(2) len(1) by (cases "k = c") (simp_all add: children_ok_def)
  qed (use ok in \<open>simp add: children_ok_def\<close>)
  moreover have "children_state ln (w[c := b']) = (children_state ln w)(c := st)"
    using len step(2) by (auto simp: children_state_def fun_eq_iff nth_list_update)
  ultimately show ?thesis by blast
qed

interpretation leaf: child_port "term_children ln" n "children_state ln" "children_ok n ln" for ln n
proof unfold_locales
  fix w c and req :: InvReq
  assume ok: "children_ok n ln w" and c: "c < n" and st: "children_state ln w c \<noteq> I" and ty: "itype req = INV"
  have len: "c < length w" "ln c < length (barray (w ! c))" using ok c by (auto simp: children_ok_def)
  show "\<exists>w' cy. term_children ln w c req = Some (w', writeback req \<or> children_state ln w c = M, cy)
      \<and> children_ok n ln w' \<and> children_state ln w' = (children_state ln w)(c := I)"
    by (rule term_children_step [OF ok c])
      (use st ty len in \<open>auto simp: bcc_processInval_def set_state_def children_state_def\<close>)
next
  fix w c and req :: InvReq
  assume ok: "children_ok n ln w" and c: "c < n" and ty: "itype req = INVX"
    and st: "children_state ln w c = E \<or> children_state ln w c = M"
  have len: "c < length w" "ln c < length (barray (w ! c))" using ok c by (auto simp: children_ok_def)
  show "\<exists>w' cy. term_children ln w c req = Some (w', writeback req \<or> children_state ln w c = M, cy)
      \<and> children_ok n ln w' \<and> children_state ln w' = (children_state ln w)(c := S)"
    by (rule term_children_step [OF ok c])
      (use st ty len in \<open>auto simp: bcc_processInval_def set_state_def children_state_def\<close>)
qed

text \<open>The requests a bottom controller makes about a line it holds in state \<open>st\<close>.\<close>

definition legal_request :: "AccessType \<Rightarrow> MESIState \<Rightarrow> bool" where
  "legal_request type st =
     (case type of GETS \<Rightarrow> st = I | GETX \<Rightarrow> st = I \<or> st = S | PUTS \<Rightarrow> st = S \<or> st = E | PUTX \<Rightarrow> st = M)"

definition granted :: "AccessType \<Rightarrow> MESIState \<Rightarrow> bool" where
  "granted type st = (case type of GETS \<Rightarrow> st = S \<or> st = E | GETX \<Rightarrow> st = M | PUTS \<Rightarrow> st = I | PUTX \<Rightarrow> st = I)"

text \<open>
  Claim C8. Coherence of the directory protocol. Take a directory entry that agrees with its \<open>n\<close>
  terminal caches (\<open>dir_rel\<close>: the sharer bits and their count are the children that hold the line,
  and a child has it in E or M iff the entry is exclusive). Serving any legal request of a child
  trips none of the assertions of \<open>MESITopCC\<close> and of the children's controllers, answers with a state
  the request allows, leaves the entry in agreement with the children once the requester has
  stored the answer (so there is at most one writer and then no reader), and reports a writeback
  exactly when another child lost a dirty copy.
\<close>

theorem directory_coherence:
  assumes rel: "dir_rel n e (children_state ln w)" and ok: "children_ok n ln w"
    and len: "length rtts = n" and c: "c < n" and legal: "legal_request type (children_state ln w c)"
    and hx: "type = GETX \<longrightarrow> hx" and keep: "\<not> flag_is fl PUTX_KEEPEXCL"
  shows "\<exists>e' w' st wb cy'.
      entry_processAccess (term_children ln) rtts e w la type c hx (children_state ln w c) False cy src fl
        = Some (e', w', st, wb, cy')
    \<and> granted type st \<and> children_ok n ln w'
    \<and> dir_rel n e' ((children_state ln w')(c := st)) \<and> single_writer n ((children_state ln w')(c := st))
    \<and> (wb \<longleftrightarrow> (\<exists>k < n. k \<noteq> c \<and> children_state ln w k = M \<and> children_state ln w' k \<noteq> M))"
proof -
  have inv: "leaf.dir_inv n ln e w" using rel ok by (simp add: leaf.dir_inv_def)
  let ?st = "children_state ln w"
  have fin: ?thesis
    if "entry_processAccess (term_children ln) rtts e w la type c hx (?st c) False cy src fl = Some (e', w', st, wb, cy')"
      "granted type st" "children_ok n ln w'" "dir_rel n e' ((children_state ln w')(c := st))"
      "wb \<longleftrightarrow> (\<exists>k < n. k \<noteq> c \<and> ?st k = M \<and> children_state ln w' k \<noteq> M)" for e' w' st wb cy'
    using that dir_rel_single_writer by blast
  show ?thesis
  proof (cases type)
    case GETS
    then have cI: "?st c = I" using legal by (simp add: legal_request_def)
    show ?thesis
    proof (cases "Entry_isEmpty e \<and> hx \<and> \<not> flag_is fl NOEXCL")
      case True
      from leaf.grant_exclusive [OF inv c True, of rtts la "?st c" False cy src] obtain e' where
        "entry_processAccess (term_children ln) rtts e w la GETS c hx (?st c) False cy src fl = Some (e', w, E, False, cy)"
        "dir_rel n e' (?st(c := E))" by blast
      then show ?thesis using GETS ok by (intro fin) (auto simp: granted_def)
    next
      case False
      from leaf.grant_shared [OF inv len c cI False, of la False cy src] obtain e' w' cy' where g:
        "entry_processAccess (term_children ln) rtts e w la GETS c hx I False cy src fl
            = Some (e', w', S, False \<or> (\<exists>k < n. ?st k = M), cy')"
        "children_ok n ln w'" "dir_rel n e' ((children_state ln w')(c := S))"
        "\<forall>k < n. k \<noteq> c \<longrightarrow> children_state ln w' k = (if ?st k = I then I else S)" by blast
      have "(False \<or> (\<exists>k < n. ?st k = M)) \<longleftrightarrow> (\<exists>k < n. k \<noteq> c \<and> ?st k = M \<and> children_state ln w' k \<noteq> M)"
        using g(4) cI by (metis MESIState.distinct(5) MESIState.distinct(9))
      then show ?thesis using g(1-3) GETS cI by (intro fin) (auto simp: granted_def)
    qed
  next
    case GETX
    then have cIS: "?st c = I \<or> ?st c = S" and hx using legal hx by (simp_all add: legal_request_def)
    from leaf.grant_modified [OF inv len c cIS \<open>hx\<close>, of la False cy src fl] obtain e' w' cy' where g:
        "entry_processAccess (term_children ln) rtts e w la GETX c hx (?st c) False cy src fl
            = Some (e', w', M, False \<or> (\<exists>k < n. ?st k = M), cy')"
        "children_ok n ln w'" "dir_rel n e' ((children_state ln w')(c := M))"
        "\<forall>k < n. k \<noteq> c \<longrightarrow> children_state ln w' k = I" by blast
    have "(False \<or> (\<exists>k < n. ?st k = M)) \<longleftrightarrow> (\<exists>k < n. k \<noteq> c \<and> ?st k = M \<and> children_state ln w' k \<noteq> M)"
      using g(4) cIS by (metis MESIState.distinct(5) MESIState.distinct(9))
    then show ?thesis using g(1-3) GETX by (intro fin) (auto simp: granted_def)
  next
    case PUTS
    then have "(type = PUTS \<and> (?st c = S \<or> ?st c = E)) \<or> (type = PUTX \<and> ?st c = M)"
      using legal by (simp add: legal_request_def)
    from leaf.release [OF inv c this keep, of rtts la hx False cy src] show ?thesis
      using PUTS ok by (elim exE conjE) (rule fin, auto simp: granted_def)
  next
    case PUTX
    then have "(type = PUTS \<and> (?st c = S \<or> ?st c = E)) \<or> (type = PUTX \<and> ?st c = M)"
      using legal by (simp add: legal_request_def)
    from leaf.release [OF inv c this keep, of rtts la hx False cy src] show ?thesis
      using PUTX ok by (elim exE conjE) (rule fin, auto simp: granted_def)
  qed
qed

text \<open>Two caches of one line; the second one holds it modified.\<close>

definition bcc_example :: "MESIState \<Rightarrow> MESIBottomCC" where
  "bcc_example st = (MESIBottomCC_new 1 0 False)\<lparr>barray := [st]\<rparr>"

theorem directory_coherence_witness:
  "\<exists>e' w' st cy'. entry_processAccess (term_children (\<lambda>_. 0)) [0, 0]
        \<lparr>numSharers = 1, sharers = [False, True], exclusive = True\<rparr> [bcc_example I, bcc_example M]
        64 GETS 0 False I False 7 0 0 = Some (e', w', st, True, cy')
    \<and> dir_rel 2 e' ((children_state (\<lambda>_. 0) w')(0 := st))"
proof -
  let ?e = "\<lparr>numSharers = 1, sharers = [False, True], exclusive = True\<rparr>"
  let ?w = "[bcc_example I, bcc_example M]"
  let ?ln = "\<lambda>_. 0 :: nat"
  have st: "children_state ?ln ?w 0 = I" "children_state ?ln ?w 1 = M"
    by (simp_all add: children_state_def bcc_example_def)
  have lt2: "(k :: nat) < 2 \<longleftrightarrow> k = 0 \<or> k = 1" for k by auto
  have rel: "dir_rel 2 ?e (children_state ?ln ?w)"
    by (rule leaf.only_sharer [where c = 1]) (use st in \<open>auto simp: lt2\<close>)
  have ok: "children_ok 2 ?ln ?w"
    by (auto simp: children_ok_def bcc_example_def lt2)
  have legal: "legal_request GETS (children_state ?ln ?w 0)" using st by (simp add: legal_request_def)
  obtain e' w' st' wb cy' where r: "entry_processAccess (term_children ?ln) [0, 0] ?e ?w 64 GETS 0 False
        (children_state ?ln ?w 0) False 7 0 0 = Some (e', w', st', wb, cy')"
     "granted GETS st'" "dir_rel 2 e' ((children_state ?ln w')(0 := st'))"
     "wb \<longleftrightarrow> (\<exists>k < 2. k \<noteq> 0 \<and> children_state ?ln ?w k = M \<and> children_state ?ln w' k \<noteq> M)"
    using directory_coherence [OF rel ok _ _ legal, of "[0, 0]" False 0 64 7 0]
    by (fastforce simp: flag_is_def)
  have sw: "single_writer 2 ((children_state ?ln w')(0 := st'))" using r(3) by (rule dir_rel_single_writer)
  have "children_state ?ln w' 1 = M \<Longrightarrow> st' = I"
    using sw [unfolded single_writer_def, rule_format, of 1 0] by simp
  then have "children_state ?ln w' 1 \<noteq> M" using r(2) by (auto simp: granted_def)
  then have wb using r(4) st(2) by (auto intro: exI [of _ 1])
  then show ?thesis using r(1,3) st(1) by auto
qed

section \<open>A bottom controller over its parents\<close>

text \<open>
  The interface a controller relies on above it: every legal request is answered, with a state it may
  be answered with and not before it was made, and the caller is left alone; \<open>fr\<close> is the part
  of the world that a parent does not touch.
\<close>

locale parent_port =
  fixes acc :: "('s, 'w) parent_access"
    and wok :: "'w \<Rightarrow> bool"
    and np :: nat
    and fr :: "'w \<Rightarrow> 'f"
  assumes serve: "wok w \<Longrightarrow> pid < np \<Longrightarrow> unat (rcycle req) < 2 ^ 62 \<Longrightarrow> legal_request (rtype req) (rstate req) \<Longrightarrow>
      \<not> req_is req PUTX_KEEPEXCL \<Longrightarrow>
      \<exists>w' st cy. acc s w pid req = Some (s, w', st, cy) \<and> wok w' \<and> fr w' = fr w \<and> answer_ok req st
        \<and> unat (rcycle req) \<le> unat cy"

locale bcc_port = parent_port acc wok np fr
  for acc :: "(MESIBottomCC, 'w) parent_access" and wok np and fr :: "'w \<Rightarrow> 'f"
begin

definition bcc_ok :: "MESIBottomCC \<Rightarrow> bool" where
  "bcc_ok b = (length (parentRTTs b) = np \<and> 0 < np)"

lemma parent_in_range: "bcc_ok b \<Longrightarrow> \<exists>p. getParentId b la = Some p \<and> p < np"
  by (auto simp: getParentId_def bcc_ok_def)

lemma parentReq_ok:
  assumes "wok w" "pid < np" "unat cy < 2 ^ 62" "lineId < length (barray b)"
    and "legal_request type (barray b ! lineId)" "\<not> flag_is fl PUTX_KEEPEXCL"
  shows "\<exists>w' st cy'. parentReq acc b w pid la type lineId cy src fl
      = Some (b\<lparr>barray := (barray b)[lineId := st]\<rparr>, w', cy')
    \<and> wok w' \<and> fr w' = fr w \<and> granted type st \<and> (st = E \<longrightarrow> \<not> flag_is fl NOEXCL) \<and> unat cy \<le> unat cy'"
proof -
  let ?req = "\<lparr>lineAddr = la, rtype = type, childId = selfId b, rstate = barray b ! lineId, rcycle = cy,
                     initialState = barray b ! lineId, srcId = src, flags = fl\<rparr>"
  obtain w' st cy' where "acc b w pid ?req = Some (b, w', st, cy')" "wok w'" "fr w' = fr w"
    "answer_ok ?req st" "unat cy \<le> unat cy'"
    using serve [OF assms(1,2), of ?req b] assms(3,5,6) by (auto simp: req_is_def)
  moreover from this have "granted type st" "st = E \<longrightarrow> \<not> flag_is fl NOEXCL"
    using assms(6) by (auto simp: answer_ok_def granted_def req_is_def split: AccessType.splits)
  ultimately show ?thesis using assms(4) by (auto simp: parentReq_def set_state_def)
qed

lemma fetchLine_ok:
  assumes "wok w" "bcc_ok b" "unat cy < 2 ^ 62" "lineId < length (barray b)"
    and "legal_request type (barray b ! lineId)" "\<not> flag_is fl PUTX_KEEPEXCL"
  shows "\<exists>b' w' st cy'. fetchLine acc b w la type lineId cy src fl = Some (b', w', cy')
    \<and> barray b' = (barray b)[lineId := st] \<and> bcc_ok b' \<and> wok w' \<and> fr w' = fr w \<and> granted type st
    \<and> (st = E \<longrightarrow> \<not> flag_is fl NOEXCL) \<and> unat cy \<le> unat cy' \<and> unat cy' < unat cy + 2 ^ 32"
proof -
  obtain p where p: "getParentId b la = Some p" "p < np" using parent_in_range [OF assms(2)] by blast
  obtain w' st c1 where r: "parentReq acc b w p la type lineId cy src fl
      = Some (b\<lparr>barray := (barray b)[lineId := st]\<rparr>, w', c1)"
    "wok w'" "fr w' = fr w" "granted type st" "st = E \<longrightarrow> \<not> flag_is fl NOEXCL"
    using parentReq_ok [OF assms(1) p(2) assms(3-6)] by blast
  let ?lat = "(ucast (c1 - cy) :: u32) + parentRTTs b ! p"
  have u: "unat (ucast ?lat :: u64) = unat ?lat"
    by (simp add: unsigned_ucast_eq take_bit_nat_eq_self_iff less_trans [OF unat_u32_lt])
  have "unat (cy + ucast ?lat) = unat cy + unat ?lat"
    using assms(3) unat_u32_lt [of ?lat] unfolding u [symmetric]
    by (intro unat_add_no_wrap) (simp add: u del: unat_u32_lt)
  moreover have "unat ?lat < 2 ^ 32" using unat_u32_lt [of ?lat] by (simp del: unat_u32_lt)
  ultimately show ?thesis using p r assms(2)
    by (auto simp: fetchLine_def Let_def bcc_ok_def)
qed

text \<open>What an access leaves behind: the line is good enough for the requester, no other line changes.\<close>

definition fetched :: "AccessType \<Rightarrow> u32 \<Rightarrow> MESIState \<Rightarrow> MESIState \<Rightarrow> bool" where
  "fetched type fl st st' =
     (case type of
        GETS \<Rightarrow> (if st = I then st' = S \<or> (st' = E \<and> \<not> flag_is fl NOEXCL) else st' = st)
      | GETX \<Rightarrow> st' = M
      | PUTS \<Rightarrow> st' = st
      | PUTX \<Rightarrow> st' = M)"

lemma bcc_processAccess_ok:
  assumes "wok w" "bcc_ok b" "unat cy < 2 ^ 62" "lineId < length (barray b)" "\<not> flag_is fl PUTX_KEEPEXCL"
    and put: "type = PUTS \<Longrightarrow> barray b ! lineId \<noteq> I" "type = PUTX \<Longrightarrow> barray b ! lineId = E \<or> barray b ! lineId = M"
  shows "\<exists>b' w' st cy'. bcc_processAccess acc b w la lineId type cy src fl = Some (b', w', cy')
    \<and> barray b' = (barray b)[lineId := st] \<and> bcc_ok b' \<and> wok w' \<and> fr w' = fr w
    \<and> fetched type fl (barray b ! lineId) st \<and> unat cy \<le> unat cy' \<and> unat cy' < unat cy + 2 ^ 32"
proof (cases "(type = GETS \<and> barray b ! lineId = I) \<or> (type = GETX \<and> (barray b ! lineId = I \<or> barray b ! lineId = S))")
  case True
  let ?b = "if type = GETS then b else if barray b ! lineId = I then b\<lparr>profGETXMissIM := profGETXMissIM b + 1\<rparr>
      else b\<lparr>profGETXMissSM := profGETXMissSM b + 1\<rparr>"
  have "bcc_ok ?b" using assms(2) by (simp add: bcc_ok_def)
  moreover have "lineId < length (barray ?b)" "legal_request type (barray ?b ! lineId)"
    using assms(4) True by (auto simp: legal_request_def)
  ultimately obtain b' w' st cy' where f: "fetchLine acc ?b w la type lineId cy src fl = Some (b', w', cy')"
    "barray b' = (barray ?b)[lineId := st]" "bcc_ok b'" "wok w'" "fr w' = fr w" "granted type st"
    "st = E \<longrightarrow> \<not> flag_is fl NOEXCL" "unat cy \<le> unat cy'" "unat cy' < unat cy + 2 ^ 32"
    using fetchLine_ok [OF assms(1) _ assms(3) _ _ assms(5), of ?b lineId type la src] by blast
  have "barray ?b = barray b" by simp
  with f have g: "barray b' = (barray b)[lineId := st]" by simp
  then have final: "aget (barray b') lineId = Some st" using assms(4) by simp
  have here: "aget (barray b) lineId = Some (barray b ! lineId)" using assms(4) by simp
  have le: "cy \<le> cy'" using f(8) by (simp add: word_le_nat_alt)
  from True show ?thesis
  proof
    assume t: "type = GETS \<and> barray b ! lineId = I"
    then have s: "st = S \<or> st = E" using f(6) by (simp add: granted_def)
    have b: "?b = b" using t by simp
    have "bcc_processAccess acc b w la lineId type cy src fl
        = Some (b'\<lparr>profGETSMiss := profGETSMiss b' + 1\<rparr>, w', cy')"
      using t f(1) [unfolded b] final here s le by (simp add: bcc_processAccess_def)
    moreover have "fetched type fl (barray b ! lineId) st" using s t f(7) by (auto simp: fetched_def)
    ultimately show ?thesis using f(3-5,8,9) g
      by (intro exI [of _ "b'\<lparr>profGETSMiss := profGETSMiss b' + 1\<rparr>"] exI [of _ w'] exI [of _ st] exI [of _ cy'])
        (simp add: bcc_ok_def)
  next
    assume t: "type = GETX \<and> (barray b ! lineId = I \<or> barray b ! lineId = S)"
    then have s: "st = M" using f(6) by (simp add: granted_def)
    have b: "?b = (if barray b ! lineId = I then b\<lparr>profGETXMissIM := profGETXMissIM b + 1\<rparr>
      else b\<lparr>profGETXMissSM := profGETXMissSM b + 1\<rparr>)" using t by simp
    have "bcc_processAccess acc b w la lineId type cy src fl = Some (b', w', cy')"
      using t f(1) [unfolded b] final here s le by (simp add: bcc_processAccess_def)
    moreover have "fetched type fl (barray b ! lineId) st" using s t by (simp add: fetched_def)
    ultimately show ?thesis using f(3-5,8,9) g by blast
  qed
next
  case False
  show ?thesis
  proof (cases type)
    case GETS
    then show ?thesis using False assms(1,2,4)
      by (auto simp: bcc_processAccess_def fetched_def bcc_ok_def intro!: exI [of _ "barray b ! lineId"])
  next
    case GETX
    then have "barray b ! lineId = E \<or> barray b ! lineId = M" using False by (metis MESIState.exhaust)
    then show ?thesis using GETX assms(1,2,4)
      by (auto simp: bcc_processAccess_def fetched_def bcc_ok_def set_state_def intro!: exI [of _ M])
        (metis list_update_id)+
  next
    case PUTS
    then show ?thesis using put assms(1,2,4)
      by (auto simp: bcc_processAccess_def fetched_def bcc_ok_def intro!: exI [of _ "barray b ! lineId"])
  next
    case PUTX
    then show ?thesis using put assms(1,2,4)
      by (auto simp: bcc_processAccess_def fetched_def bcc_ok_def set_state_def intro!: exI [of _ M])
        (metis list_update_id)+
  qed
qed

text \<open>An eviction always leaves the line invalid; a dirty line, or one a child wrote back, goes up as PUTX.\<close>

lemma bcc_processEviction_ok:
  assumes "wok w" "bcc_ok b" "unat cy < 2 ^ 62" "lineId < length (barray b)"
    and wb: "wb \<Longrightarrow> barray b ! lineId = E \<or> barray b ! lineId = M"
  shows "\<exists>w' cy'. bcc_processEviction acc b w la lineId wb cy src
      = Some (b\<lparr>barray := (barray b)[lineId := I]\<rparr>, w', cy')
    \<and> wok w' \<and> fr w' = fr w \<and> unat cy \<le> unat cy'"
proof -
  define bx where "bx = (if wb then b\<lparr>barray := (barray b)[lineId := M]\<rparr> else b)"
  have len: "lineId < length (barray bx)" and ok: "bcc_ok bx"
    using assms(2,4) by (simp_all add: bx_def bcc_ok_def)
  have upd: "bx\<lparr>barray := (barray bx)[lineId := st]\<rparr> = b\<lparr>barray := (barray b)[lineId := st]\<rparr>" for st
    by (simp add: bx_def)
  have fl: "\<not> flag_is 0 PUTX_KEEPEXCL" by (simp add: flag_is_def)
  obtain p where p: "getParentId bx la = Some p" "p < np" using parent_in_range [OF ok] by blast
  have put: "\<exists>w' cy'. parentReq acc bx w p la type lineId cy src 0
      = Some (b\<lparr>barray := (barray b)[lineId := I]\<rparr>, w', cy') \<and> wok w' \<and> fr w' = fr w \<and> unat cy \<le> unat cy'"
    if t: "type = PUTS \<and> (barray bx ! lineId = S \<or> barray bx ! lineId = E) \<or> type = PUTX \<and> barray bx ! lineId = M"
    for type
  proof -
    have "legal_request type (barray bx ! lineId)" using t by (auto simp: legal_request_def)
    from parentReq_ok [OF assms(1) p(2) assms(3) len this fl, of la src] obtain w' st cy' where
      r: "parentReq acc bx w p la type lineId cy src 0 = Some (bx\<lparr>barray := (barray bx)[lineId := st]\<rparr>, w', cy')"
      "wok w'" "fr w' = fr w" "granted type st" "unat cy \<le> unat cy'" by blast
    from r(4) t have "st = I" by (auto simp: granted_def)
    with r show ?thesis unfolding upd by blast
  qed
  let ?up = "\<lambda>type. do { p \<leftarrow> getParentId bx la; parentReq acc bx w p la type lineId cy src 0 }"
  have head: "bcc_processEviction acc b w la lineId wb cy src = do {
      (b2, w2, respCycle) \<leftarrow> (case barray bx ! lineId of I \<Rightarrow> Some (bx, w, cy) | S \<Rightarrow> ?up PUTS | E \<Rightarrow> ?up PUTS | M \<Rightarrow> ?up PUTX);
      final \<leftarrow> aget (barray b2) lineId;
      _ \<leftarrow> require (final = I);
      Some (b2, w2, respCycle) }"
    unfolding bcc_processEviction_def bx_def
    using wb assms(4) by (cases wb) (simp_all add: set_state_def disj_commute)
  have finish: ?thesis if t: "type = PUTS \<and> (barray bx ! lineId = S \<or> barray bx ! lineId = E) \<or> type = PUTX \<and> barray bx ! lineId = M"
    and eq: "(case barray bx ! lineId of I \<Rightarrow> Some (bx, w, cy) | S \<Rightarrow> ?up PUTS | E \<Rightarrow> ?up PUTS | M \<Rightarrow> ?up PUTX) = ?up type" for type
  proof -
    obtain w' cy' where "parentReq acc bx w p la type lineId cy src 0
      = Some (b\<lparr>barray := (barray b)[lineId := I]\<rparr>, w', cy')" "wok w'" "fr w' = fr w" "unat cy \<le> unat cy'"
      using put [OF t] by blast
    then show ?thesis unfolding head eq using p(1) assms(4) by simp
  qed
  show ?thesis
  proof (cases "barray bx ! lineId")
    case I
    then have "\<not> wb" using assms(4) by (auto simp: bx_def)
    then have "bx = b" by (simp add: bx_def)
    moreover have "b\<lparr>barray := (barray b)[lineId := I]\<rparr> = b"
      using I \<open>bx = b\<close> by (metis MESIBottomCC.update_convs(1) MESIBottomCC.surjective list_update_id)
    ultimately show ?thesis unfolding head using I assms(1,4) by simp
  next
    case S
    then show ?thesis by (intro finish [of PUTS]) simp_all
  next
    case E
    then show ?thesis by (intro finish [of PUTS]) simp_all
  next
    case M
    then show ?thesis by (intro finish [of PUTX]) simp_all
  qed
qed

end

section \<open>A full controller between its parents and its children\<close>

locale cc_port = parent_port acc wok np cstate + child_port invc n cstate wok
  for acc :: "(MESICC, 'w) parent_access" and invc :: "'w child_inval" and wok and np and n and cstate

sublocale cc_port < bot: bcc_port "bcc_acc acc cc" "\<lambda>(t, w). wok w" np "\<lambda>(t, w). (t, cstate w)" for cc
proof unfold_locales
  fix tw :: "MESITopCC \<times> 'w" and pid and req :: MemReq and b
  obtain t w where tw: "tw = (t, w)" by (cases tw)
  assume "case tw of (t, w) \<Rightarrow> wok w" "pid < np" "unat (rcycle req) < 2 ^ 62"
    "legal_request (rtype req) (rstate req)" "\<not> req_is req PUTX_KEEPEXCL"
  with serve [of w pid req "cc\<lparr>bcc := b, tcc := t\<rparr>"] tw obtain w' st cy where
    "acc (cc\<lparr>bcc := b, tcc := t\<rparr>) w pid req = Some (cc\<lparr>bcc := b, tcc := t\<rparr>, w', st, cy)"
    "wok w'" "cstate w' = cstate w" "answer_ok req st" "unat (rcycle req) \<le> unat cy" by auto
  then show "\<exists>w' st cy. bcc_acc acc cc b tw pid req = Some (b, w', st, cy) \<and> (case w' of (t, w) \<Rightarrow> wok w)
      \<and> (case w' of (t, w) \<Rightarrow> (t, cstate w)) = (case tw of (t, w) \<Rightarrow> (t, cstate w))
      \<and> answer_ok req st \<and> unat (rcycle req) \<le> unat cy"
    using tw by (simp add: bcc_acc_def)
qed

context cc_port
begin

text \<open>
  The invariant of one line of the controller for the states \<open>st\<close> of the children: the directory
  entry agrees with them, and the controller holds the line whenever a child does (inclusion), with
  exclusive permission whenever a child has it.
\<close>

definition line_inv :: "MESICC \<Rightarrow> nat \<Rightarrow> (nat \<Rightarrow> MESIState) \<Rightarrow> bool" where
  "line_inv cc lineId st =
     (lineId < length (tarray (tcc cc)) \<and> lineId < length (barray (bcc cc))
      \<and> length (childrenRTTs (tcc cc)) = n \<and> length (parentRTTs (bcc cc)) = np \<and> 0 < np
      \<and> dir_rel n (tarray (tcc cc) ! lineId) st
      \<and> (\<forall>c < n. st c \<noteq> I \<longrightarrow> barray (bcc cc) ! lineId \<noteq> I)
      \<and> (\<forall>c < n. st c = E \<or> st c = M \<longrightarrow> barray (bcc cc) ! lineId = E \<or> barray (bcc cc) ! lineId = M))"

text \<open>The directory step, for every type of request.\<close>

lemma tcc_processAccess_ok:
  assumes inv: "dir_inv e w" and len: "length rtts = n" and c: "c < n" and legal: "legal_request type (cstate w c)"
    and hx: "type = GETX \<longrightarrow> hx" and keep: "\<not> flag_is fl PUTX_KEEPEXCL"
  shows "\<exists>e' w' st wb cy'. entry_processAccess invc rtts e w la type c hx (cstate w c) False cy src fl
        = Some (e', w', st, wb, cy')
    \<and> granted type st \<and> wok w' \<and> dir_rel n e' ((cstate w')(c := st))
    \<and> (wb \<longrightarrow> (\<exists>k < n. cstate w k = M)) \<and> (st = E \<longrightarrow> hx)
    \<and> (\<forall>k < n. k \<noteq> c \<longrightarrow> cstate w' k \<noteq> I \<longrightarrow> cstate w k \<noteq> I)
    \<and> (\<forall>k < n. k \<noteq> c \<longrightarrow> cstate w' k = E \<or> cstate w' k = M \<longrightarrow> cstate w k = E \<or> cstate w k = M)"
proof (cases type)
  case GETS
  then have cI: "cstate w c = I" using legal by (simp add: legal_request_def)
  show ?thesis
  proof (cases "Entry_isEmpty e \<and> hx \<and> \<not> flag_is fl NOEXCL")
    case True
    from grant_exclusive [OF inv c True, of rtts la "cstate w c" False cy src] show ?thesis
      using True GETS inv by (auto simp: granted_def dir_inv_def)
  next
    case False
    from grant_shared [OF inv len c cI False, of la False cy src] obtain e' w' cy' where g:
        "entry_processAccess invc rtts e w la GETS c hx I False cy src fl
            = Some (e', w', S, False \<or> (\<exists>k < n. cstate w k = M), cy')"
        "wok w'" "dir_rel n e' ((cstate w')(c := S))"
        "\<forall>k < n. k \<noteq> c \<longrightarrow> cstate w' k = (if cstate w k = I then I else S)" by blast
    from g(1) have "entry_processAccess invc rtts e w la type c hx (cstate w c) False cy src fl
            = Some (e', w', S, False \<or> (\<exists>k < n. cstate w k = M), cy')" using GETS cI by simp
    moreover have "granted type S" using GETS by (simp add: granted_def)
    moreover have "\<forall>k < n. k \<noteq> c \<longrightarrow> cstate w' k \<noteq> E \<and> cstate w' k \<noteq> M"
      using g(4) by simp
    moreover have "\<forall>k < n. k \<noteq> c \<longrightarrow> cstate w' k \<noteq> I \<longrightarrow> cstate w k \<noteq> I" using g(4) by simp
    ultimately show ?thesis using g(2,3)
      by (intro exI [of _ e'] exI [of _ w'] exI [of _ S] exI [of _ "False \<or> (\<exists>k < n. cstate w k = M)"] exI [of _ cy'])
        blast
  qed
next
  case GETX
  then have cIS: "cstate w c = I \<or> cstate w c = S" and hx using legal hx by (simp_all add: legal_request_def)
  from grant_modified [OF inv len c cIS \<open>hx\<close>, of la False cy src fl] obtain e' w' cy' where g:
      "entry_processAccess invc rtts e w la GETX c hx (cstate w c) False cy src fl
          = Some (e', w', M, False \<or> (\<exists>k < n. cstate w k = M), cy')"
      "wok w'" "dir_rel n e' ((cstate w')(c := M))" "\<forall>k < n. k \<noteq> c \<longrightarrow> cstate w' k = I" by blast
  have "granted type M" using GETX by (simp add: granted_def)
  moreover have "\<forall>k < n. k \<noteq> c \<longrightarrow> cstate w' k \<noteq> E \<and> cstate w' k \<noteq> M" using g(4) by simp
  ultimately show ?thesis using g GETX
    by (intro exI [of _ e'] exI [of _ w'] exI [of _ M] exI [of _ "False \<or> (\<exists>k < n. cstate w k = M)"] exI [of _ cy'])
      blast
next
  case PUTS
  then have "(type = PUTS \<and> (cstate w c = S \<or> cstate w c = E)) \<or> (type = PUTX \<and> cstate w c = M)"
    using legal by (simp add: legal_request_def)
  from release [OF inv c this keep, of rtts la hx False cy src] show ?thesis
    using PUTS inv by (auto simp: granted_def dir_inv_def)
next
  case PUTX
  then have "(type = PUTS \<and> (cstate w c = S \<or> cstate w c = E)) \<or> (type = PUTX \<and> cstate w c = M)"
    using legal by (simp add: legal_request_def)
  from release [OF inv c this keep, of rtts la hx False cy src] show ?thesis
    using PUTX inv by (auto simp: granted_def dir_inv_def)
qed

text \<open>
  A request of child \<open>c\<close> is served without tripping an assertion, and the line's invariant holds
  again once the child has stored the answer.
\<close>

lemma cc_processAccess_ok:
  assumes wok: "wok w" and inv: "line_inv cc lineId (cstate w)" and c: "childId req < n"
    and st: "rstate req = cstate w (childId req)" and legal: "legal_request (rtype req) (rstate req)"
    and fl: "\<not> flag_is (flags req) PUTX_KEEPEXCL" "\<not> flag_is (flags req) PREFETCH" and cy: "unat cy < 2 ^ 62"
  shows "\<exists>cc' w' st cy' dn. cc_processAccess acc invc cc w req (int lineId) cy = Some (cc', w', st, cy', dn)
    \<and> wok w' \<and> granted (rtype req) st \<and> line_inv cc' lineId ((cstate w')(childId req := st))"
proof -
  let ?c = "childId req" and ?type = "rtype req" and ?b = "bcc cc" and ?fl = "flags req AND NOT PREFETCH"
  let ?bst = "barray ?b ! lineId" and ?e = "tarray (tcc cc) ! lineId"
  have len: "lineId < length (tarray (tcc cc))" "lineId < length (barray ?b)" "length (childrenRTTs (tcc cc)) = n"
    and bok: "bot.bcc_ok ?b" and rel: "dir_rel n ?e (cstate w)"
    and incl: "\<And>k. k < n \<Longrightarrow> cstate w k \<noteq> I \<Longrightarrow> ?bst \<noteq> I"
    and excl: "\<And>k. k < n \<Longrightarrow> cstate w k = E \<or> cstate w k = M \<Longrightarrow> ?bst = E \<or> ?bst = M"
    using inv by (auto simp: line_inv_def bot.bcc_ok_def)
  have puts: "?bst \<noteq> I" if "?type = PUTS" using incl [OF c] legal st that by (auto simp: legal_request_def)
  have putx: "?bst = E \<or> ?bst = M" if "?type = PUTX" using excl [OF c] legal st that by (auto simp: legal_request_def)
  have fl': "\<not> flag_is ?fl PUTX_KEEPEXCL"
    using fl(1) flag_clear [of 4 5 "flags req"] by (simp add: flag_defs)
  have "\<exists>b' tw' bst cy'. bcc_processAccess (bcc_acc acc cc) ?b (tcc cc, w) (lineAddr req) lineId ?type cy (srcId req) ?fl
        = Some (b', tw', cy')
    \<and> barray b' = (barray ?b)[lineId := bst] \<and> bot.bcc_ok b' \<and> (case tw' of (t, w) \<Rightarrow> wok w)
    \<and> (case tw' of (t, w) \<Rightarrow> (t, cstate w)) = (tcc cc, cstate w)
    \<and> bot.fetched ?type ?fl ?bst bst \<and> unat cy \<le> unat cy' \<and> unat cy' < unat cy + 2 ^ 32"
    using bot.bcc_processAccess_ok [of "(tcc cc, w)" ?b cy lineId ?fl ?type cc "lineAddr req" "srcId req"]
      wok bok cy len(2) fl' puts putx by simp
  then obtain b' w1 bst cy' where b': "bcc_processAccess (bcc_acc acc cc) ?b (tcc cc, w) (lineAddr req) lineId ?type cy
        (srcId req) ?fl = Some (b', (tcc cc, w1), cy')"
    "barray b' = (barray ?b)[lineId := bst]" "bot.bcc_ok b'" "wok w1" "cstate w1 = cstate w"
    "bot.fetched ?type ?fl ?bst bst" by auto
  have bst: "barray b' ! lineId = bst" using b'(2) len(2) by simp
  have valid: "bst \<noteq> I" using b'(6) puts putx by (auto simp: bot.fetched_def split: AccessType.splits if_splits)
  have keeps: "bst = E \<or> bst = M" if "?bst = E \<or> ?bst = M"
    using b'(6) that by (auto simp: bot.fetched_def split: AccessType.splits)
  let ?hx = "bst = E \<or> bst = M"
  have hx: "?type = GETX \<longrightarrow> ?hx" using b'(6) by (auto simp: bot.fetched_def)
  have legal1: "legal_request ?type (cstate w1 ?c)" using legal st b'(5) by simp
  have dinv: "dir_inv ?e w1" using rel b'(4,5) by (simp add: dir_inv_def)
  obtain e' w2 st wb cy2 where t: "entry_processAccess invc (childrenRTTs (tcc cc)) ?e w1 (lineAddr req) ?type ?c ?hx
        (cstate w1 ?c) False cy' (srcId req) ?fl = Some (e', w2, st, wb, cy2)"
    "granted ?type st" "wok w2" "dir_rel n e' ((cstate w2)(?c := st))" "wb \<longrightarrow> (\<exists>k < n. cstate w1 k = M)"
    "st = E \<longrightarrow> ?hx" "\<forall>k < n. k \<noteq> ?c \<longrightarrow> cstate w2 k \<noteq> I \<longrightarrow> cstate w1 k \<noteq> I"
    "\<forall>k < n. k \<noteq> ?c \<longrightarrow> cstate w2 k = E \<or> cstate w2 k = M \<longrightarrow> cstate w1 k = E \<or> cstate w1 k = M"
    using tcc_processAccess_ok [OF dinv len(3) c legal1 hx fl', of "lineAddr req" cy' "srcId req"] by blast
  let ?t = "(tcc cc)\<lparr>tarray := (tarray (tcc cc))[lineId := e']\<rparr>"
  have tcc: "tcc_processAccess invc (tcc cc) w1 (lineAddr req) lineId ?type ?c ?hx (rstate req) False cy' (srcId req) ?fl
      = Some (?t, w2, st, wb, cy2)"
    using t(1) len(1) st b'(5) by (simp add: tcc_processAccess_def on_entry_def)
  have wbM: "?hx" if wb
  proof -
    obtain k where "k < n" "cstate w k = M" using t(5) \<open>wb\<close> b'(5) by auto
    then show ?thesis using excl keeps by blast
  qed
  define b2 where "b2 = (if wb \<and> bst = E then b'\<lparr>barray := (barray b')[lineId := M]\<rparr> else b')"
  have wbk: "(if wb then bcc_processWritebackOnAccess b' lineId else Some b') = Some b2"
    using wbM bst len(2) b'(2) by (auto simp: bcc_processWritebackOnAccess_def set_state_def b2_def)
  let ?cc = "cc\<lparr>tcc := ?t, bcc := b2\<rparr>"
  have "bcc_isValid (bcc cc) lineId = Some (?bst \<noteq> I)" using len(2) by (simp add: bcc_isValid_def)
  moreover have "bcc_isExclusive b' lineId = Some ?hx" using bst b'(2) len(2) by (simp add: bcc_isExclusive_def)
  ultimately have "cc_processAccess acc invc cc w req (int lineId) cy = Some (?cc, w2, st, cy2, Some cy')"
    using b'(1) tcc wbk puts putx fl(2) by (auto simp: cc_processAccess_def Let_def)
  moreover have "line_inv ?cc lineId ((cstate w2)(?c := st))"
  proof -
    have b2st: "barray b2 ! lineId = (if wb \<and> bst = E then M else bst)"
      using bst b'(2) len(2) by (simp add: b2_def)
    have "barray b2 ! lineId = E \<or> barray b2 ! lineId = M"
      if k: "k < n" and x: "((cstate w2)(?c := st)) k = E \<or> ((cstate w2)(?c := st)) k = M" for k
    proof -
      have ?hx
      proof (cases "k = ?c")
        case True
        then have "st = E \<or> st = M" using x by simp
        moreover have "?type = GETX" if "st = M" using t(2) that by (cases ?type) (simp_all add: granted_def)
        ultimately show ?thesis using t(6) hx by blast
      next
        case False
        then have "cstate w2 k = E \<or> cstate w2 k = M" using x by simp
        then have "cstate w1 k = E \<or> cstate w1 k = M" using t(8) k False by blast
        then have "cstate w k = E \<or> cstate w k = M" using b'(5) by simp
        then show ?thesis using excl [OF k] keeps by blast
      qed
      then show ?thesis using b2st by auto
    qed
    moreover have "barray b2 ! lineId \<noteq> I" using b2st valid by simp
    moreover have "bot.bcc_ok b2" "length (barray b2) = length (barray ?b)"
      using b'(2,3) by (simp_all add: b2_def bot.bcc_ok_def)
    ultimately show ?thesis using len t(4) by (simp add: line_inv_def bot.bcc_ok_def)
  qed
  ultimately show ?thesis using t(2,3) by blast
qed

text \<open>Evicting the line takes it from every child first; nobody holds it afterwards.\<close>

lemma cc_processEviction_ok:
  assumes wok: "wok w" and inv: "line_inv cc lineId (cstate w)" and incl: "\<not> tnonInclusiveHack (tcc cc)"
    and cy: "unat cy < 2 ^ 61"
    and quick: "\<And>w' e' wb cy'. entry_sendInvalidates invc (childrenRTTs (tcc cc)) (tarray (tcc cc) ! lineId) w la INV
       False cy (srcId req) = Some (e', w', wb, cy') \<Longrightarrow> unat cy' < 2 ^ 62"
  shows "\<exists>cc' w' cy'. cc_processEviction acc invc cc w req la lineId cy = Some (cc', w', cy')
    \<and> wok w' \<and> line_inv cc' lineId (cstate w') \<and> barray (bcc cc') ! lineId = I \<and> (\<forall>k < n. cstate w' k = I)"
proof -
  let ?b = "bcc cc" and ?e = "tarray (tcc cc) ! lineId"
  have len: "lineId < length (tarray (tcc cc))" "lineId < length (barray ?b)" "length (childrenRTTs (tcc cc)) = n"
    and bok: "bot.bcc_ok ?b" and rel: "dir_rel n ?e (cstate w)"
    and excl: "\<And>k. k < n \<Longrightarrow> cstate w k = E \<or> cstate w k = M \<Longrightarrow> barray ?b ! lineId = E \<or> barray ?b ! lineId = M"
    using inv by (auto simp: line_inv_def bot.bcc_ok_def)
  have sh: "sharers ?e ! k \<longleftrightarrow> cstate w k \<noteq> I" if "k < n" for k
    using rel that by (auto simp: dir_rel_def dir_count_def)
  have "dir_ok ?e w" using rel wok by (simp add: dir_ok_def dir_rel_def)
  from sendInvalidates_INV [OF this len(3), of la False cy "srcId req"] obtain e1 w1 cy1 where
    s: "entry_sendInvalidates invc (childrenRTTs (tcc cc)) ?e w la INV False cy (srcId req)
      = Some (e1, w1, False \<or> (\<exists>k < n. sharers ?e ! k \<and> cstate w k = M), cy1)"
    "dir_ok e1 w1" "numSharers e1 = 0"
    "\<forall>k. cstate w1 k = (if k < n \<and> sharers ?e ! k then I else cstate w k)" "\<forall>k < n. \<not> sharers e1 ! k"
    by blast
  let ?wb = "False \<or> (\<exists>k < n. sharers ?e ! k \<and> cstate w k = M)"
  have wb: "barray ?b ! lineId = E \<or> barray ?b ! lineId = M" if ?wb using excl that by blast
  have none: "cstate w1 k = I" if "k < n" for k using s(4) sh [OF that] that by simp
  let ?t = "(tcc cc)\<lparr>tarray := (tarray (tcc cc))[lineId := e1]\<rparr>"
  have ev1: "tcc_processEviction invc (tcc cc) w la lineId False cy (srcId req) = Some (?t, w1, ?wb, cy1)"
    using s(1) len(1) incl by (simp add: tcc_processEviction_def tcc_sendInvalidates_def on_entry_def)
  have wok1: "wok w1" using s(2) by (simp add: dir_ok_def)
  have "\<exists>tw' cy'. bcc_processEviction (bcc_acc acc cc) ?b (?t, w1) la lineId ?wb cy1 (srcId req)
      = Some (?b\<lparr>barray := (barray ?b)[lineId := I]\<rparr>, tw', cy')
    \<and> (case tw' of (t, w) \<Rightarrow> wok w) \<and> (case tw' of (t, w) \<Rightarrow> (t, cstate w)) = (?t, cstate w1)"
    using bot.bcc_processEviction_ok [of "(?t, w1)" ?b cy1 lineId ?wb cc la "srcId req"]
      wok1 bok quick [OF s(1)] len(2) wb by auto
  then obtain w2 cy2 where ev2: "bcc_processEviction (bcc_acc acc cc) ?b (?t, w1) la lineId ?wb cy1 (srcId req)
      = Some (?b\<lparr>barray := (barray ?b)[lineId := I]\<rparr>, (?t, w2), cy2)" "wok w2" "cstate w2 = cstate w1" by auto
  let ?cc = "cc\<lparr>tcc := ?t, bcc := ?b\<lparr>barray := (barray ?b)[lineId := I]\<rparr>\<rparr>"
  have "cc_processEviction acc invc cc w req la lineId cy = Some (?cc, w2, cy2)"
    using ev1 ev2(1) by (simp add: cc_processEviction_def)
  moreover have "dir_rel n e1 (cstate w2)"
    using s(2,3,5) none ev2(3) by (simp add: dir_rel_def dir_ok_def)
  then have "line_inv ?cc lineId (cstate w2)"
    using len bok none ev2(3) by (simp add: line_inv_def bot.bcc_ok_def)
  ultimately show ?thesis using ev2(2,3) none len(2) by auto
qed

end

section \<open>A two-level hierarchy\<close>

text \<open>
  A controller between fixed-latency memories and terminal caches: the world is the list of the
  caches' controllers and the list of the memories.
\<close>

definition mem_parents :: "('s, 'c \<times> SimpleMemory list) parent_access" where
  "mem_parents s w pid req = (case w of (x, ms) \<Rightarrow> do {
     m \<leftarrow> aget ms pid;
     (st, cy) \<leftarrow> SimpleMemory_access m req;
     Some (s, (x, ms), st, cy)
   })"

definition world_children :: "(nat \<Rightarrow> nat) \<Rightarrow> (MESIBottomCC list \<times> SimpleMemory list) child_inval" where
  "world_children ln w c req = (case w of (cs, ms) \<Rightarrow> do {
     (cs', wb, cy) \<leftarrow> term_children ln cs c req;
     Some ((cs', ms), wb, cy)
   })"

definition world_state :: "(nat \<Rightarrow> nat) \<Rightarrow> MESIBottomCC list \<times> SimpleMemory list \<Rightarrow> nat \<Rightarrow> MESIState" where
  "world_state ln w = children_state ln (fst w)"

definition world_ok :: "nat \<Rightarrow> nat \<Rightarrow> (nat \<Rightarrow> nat) \<Rightarrow> MESIBottomCC list \<times> SimpleMemory list \<Rightarrow> bool" where
  "world_ok n np ln w = (children_ok n ln (fst w) \<and> length (snd w) = np \<and> list_all (\<lambda>m. 0 < slatency m) (snd w))"

interpretation two: cc_port mem_parents "world_children ln" "world_ok n np ln" np n "world_state ln" for n np ln
proof unfold_locales
  fix w :: "MESIBottomCC list \<times> SimpleMemory list" and pid and req :: MemReq and s
  obtain cs ms where w: "w = (cs, ms)" by (cases w)
  assume a: "world_ok n np ln w" "pid < np" "unat (rcycle req) < 2 ^ 62" "legal_request (rtype req) (rstate req)"
    "\<not> req_is req PUTX_KEEPEXCL"
  then have m: "pid < length ms" "0 < slatency (ms ! pid)" by (auto simp: world_ok_def w list_all_length)
  have "unat (rcycle req) + 2 ^ 32 \<le> 2 ^ 64" using a(3) by simp
  from SimpleMemory_access_ok [OF m(2) this a(5)] obtain st cy where
    "SimpleMemory_access (ms ! pid) req = Some (st, cy)" "answer_ok req st"
    "unat cy = unat (rcycle req) + unat (slatency (ms ! pid))" by blast
  then show "\<exists>w' st cy. mem_parents s w pid req = Some (s, w', st, cy) \<and> world_ok n np ln w'
      \<and> world_state ln w' = world_state ln w \<and> answer_ok req st \<and> unat (rcycle req) \<le> unat cy"
    using m(1) a(1) by (simp add: mem_parents_def w)
next
  fix w :: "MESIBottomCC list \<times> SimpleMemory list" and c and req :: InvReq
  obtain cs ms where w: "w = (cs, ms)" by (cases w)
  assume "world_ok n np ln w" "c < n" "world_state ln w c \<noteq> I" "itype req = INV"
  with leaf.inval_INV [of n ln cs c req] show "\<exists>w' cy. world_children ln w c req
      = Some (w', writeback req \<or> world_state ln w c = M, cy) \<and> world_ok n np ln w'
      \<and> world_state ln w' = (world_state ln w)(c := I)"
    by (fastforce simp: world_children_def world_ok_def world_state_def w)
next
  fix w :: "MESIBottomCC list \<times> SimpleMemory list" and c and req :: InvReq
  obtain cs ms where w: "w = (cs, ms)" by (cases w)
  assume "world_ok n np ln w" "c < n" "world_state ln w c = E \<or> world_state ln w c = M" "itype req = INVX"
  with leaf.inval_INVX [of n ln cs c req] show "\<exists>w' cy. world_children ln w c req
      = Some (w', writeback req \<or> world_state ln w c = M, cy) \<and> world_ok n np ln w'
      \<and> world_state ln w' = (world_state ln w)(c := S)"
    by (fastforce simp: world_children_def world_ok_def world_state_def w)
qed

text \<open>
  The line invariant of the hierarchy, written out: directory and children agree, and the
  controller holds the line whenever a child does (inclusion), exclusively whenever a child may
  write it.
\<close>

definition hierarchy_inv :: "nat \<Rightarrow> nat \<Rightarrow> MESICC \<Rightarrow> nat \<Rightarrow> (nat \<Rightarrow> MESIState) \<Rightarrow> bool" where
  "hierarchy_inv n np cc lineId st =
     (lineId < length (tarray (tcc cc)) \<and> lineId < length (barray (bcc cc))
      \<and> length (childrenRTTs (tcc cc)) = n \<and> length (parentRTTs (bcc cc)) = np \<and> 0 < np
      \<and> dir_rel n (tarray (tcc cc) ! lineId) st
      \<and> (\<forall>c < n. st c \<noteq> I \<longrightarrow> barray (bcc cc) ! lineId \<noteq> I)
      \<and> (\<forall>c < n. st c = E \<or> st c = M \<longrightarrow> barray (bcc cc) ! lineId = E \<or> barray (bcc cc) ! lineId = M))"

lemma hierarchy_inv_eq: "two.line_inv np n = hierarchy_inv n np"
  by (intro ext) (simp add: two.line_inv_def hierarchy_inv_def)

text \<open>
  Claim C7. Coherence and inclusion of a two-level hierarchy. A \<open>MESICC\<close> sits between memories and \<open>n\<close>
  terminal caches. Any legal request of a child about a line (a load miss, a store miss or upgrade, a
  clean or a dirty writeback, given the state the child has) is served by \<open>MESICC::processAccess\<close>
  without tripping any assertion of the top controller, the bottom controller, the children or the
  memory; the answer is one the request allows; and the line is again inclusive and coherent once
  the child has stored the answer.
\<close>

theorem hierarchy_access:
  assumes "world_ok n np ln w" and "hierarchy_inv n np cc lineId (world_state ln w)" and "childId req < n"
    and "rstate req = world_state ln w (childId req)" and "legal_request (rtype req) (rstate req)"
    and "\<not> flag_is (flags req) PUTX_KEEPEXCL" "\<not> flag_is (flags req) PREFETCH" and "unat cy < 2 ^ 62"
  shows "\<exists>cc' w' st cy' dn.
      cc_processAccess mem_parents (world_children ln) cc w req (int lineId) cy = Some (cc', w', st, cy', dn)
    \<and> world_ok n np ln w' \<and> granted (rtype req) st
    \<and> hierarchy_inv n np cc' lineId ((world_state ln w')(childId req := st))
    \<and> single_writer n ((world_state ln w')(childId req := st))"
proof -
  from two.cc_processAccess_ok [of n np ln w cc lineId req cy] assms
  obtain cc' w' st cy' dn where r: "cc_processAccess mem_parents (world_children ln) cc w req (int lineId) cy
      = Some (cc', w', st, cy', dn)" "world_ok n np ln w'" "granted (rtype req) st"
      "hierarchy_inv n np cc' lineId ((world_state ln w')(childId req := st))"
    unfolding hierarchy_inv_eq by blast
  moreover from r(4) have "single_writer n ((world_state ln w')(childId req := st))"
    by (intro dir_rel_single_writer [of n "tarray (tcc cc') ! lineId"]) (simp add: hierarchy_inv_def)
  ultimately show ?thesis by blast
qed

lemma invLoop_cycle:
  assumes quick: "\<And>w c req w' wb cy'. invc w c req = Some (w', wb, cy') \<Longrightarrow> cy' = icycle req"
    and cy: "unat cy < 2 ^ 62"
  shows "invLoop invc la type cy src rtts c e w wb mx sent = Some (e', w', wb', mx', sent') \<Longrightarrow>
     unat mx' \<le> max (unat mx) (unat cy + 2 ^ 32)"
proof (induction rtts arbitrary: c e w wb mx sent)
  case Nil
  then show ?case by simp
next
  case (Cons rtt rtts)
  have u: "unat (ucast rtt :: u64) = unat rtt"
    by (simp add: unsigned_ucast_eq take_bit_nat_eq_self_iff less_trans [OF unat_u32_lt])
  have "unat (cy + ucast rtt) = unat cy + unat rtt"
    using cy unat_u32_lt [of rtt] unfolding u [symmetric]
    by (intro unat_add_no_wrap) (simp add: u del: unat_u32_lt)
  then have bound: "unat (cy + ucast rtt) \<le> unat cy + 2 ^ 32"
    using unat_u32_lt [of rtt] by (simp del: unat_u32_lt)
  have mx: "unat (c_MAX (cy + ucast rtt) mx) \<le> max (unat mx) (unat cy + 2 ^ 32)"
    using bound by (auto simp: c_MAX_eq max_def word_le_nat_alt)
  from Cons.prems obtain sh where sh: "aget (sharers e) c = Some sh" by (auto elim!: bind_Some_elim)
  show ?case
  proof (cases sh)
    case False
    then show ?thesis using Cons.prems Cons.IH sh by auto
  next
    case True
    with Cons.prems sh obtain w1 wb1 cy1 where
      i: "invc w c \<lparr>ilineAddr = la, itype = type, writeback = wb, icycle = cy, isrcId = src\<rparr> = Some (w1, wb1, cy1)"
      by (auto elim!: bind_Some_elim)
    have "cy1 = cy" using quick [OF i] by simp
    with Cons.prems sh True i Cons.IH [of "c + 1"] mx show ?thesis
      by (fastforce simp: Let_def)
  qed
qed

lemma sendInvalidates_cycle:
  assumes quick: "\<And>w c req w' wb cy'. invc w c req = Some (w', wb, cy') \<Longrightarrow> cy' = icycle req"
    and cy: "unat cy < 2 ^ 62"
    and run: "entry_sendInvalidates invc rtts e w la INV wb cy src = Some (e', w', wb', cy')"
  shows "unat cy' \<le> unat cy + 2 ^ 32"
proof (cases "Entry_isEmpty e")
  case True
  then show ?thesis using run by (simp add: entry_sendInvalidates_def)
next
  case False
  then obtain e1 w1 wb1 mx sent where
    l: "invLoop invc la INV cy src rtts 0 e w wb cy 0 = Some (e1, w1, wb1, mx, sent)"
    using run by (cases "invLoop invc la INV cy src rtts 0 e w wb cy 0") (auto simp: entry_sendInvalidates_def)
  then have "cy' = mx" using run False by (simp add: entry_sendInvalidates_def split: if_splits)
  moreover have "unat mx \<le> max (unat cy) (unat cy + 2 ^ 32)"
    by (rule invLoop_cycle [OF _ cy l]) (rule quick)
  ultimately show ?thesis by simp
qed

text \<open>
  Claim C9. Evictions keep inclusion. When \<open>MESICC\<close> evicts a line of an inclusive two-level
  hierarchy, no assertion fails, every child that held the line has lost it, the controller's own
  copy is invalid after the writeback, and the entry of the directory is empty.
\<close>

theorem hierarchy_eviction:
  assumes "world_ok n np ln w" and "hierarchy_inv n np cc lineId (world_state ln w)"
    and "\<not> tnonInclusiveHack (tcc cc)" and cy: "unat cy < 2 ^ 61"
  shows "\<exists>cc' w' cy'. cc_processEviction mem_parents (world_children ln) cc w req la lineId cy = Some (cc', w', cy')
    \<and> world_ok n np ln w' \<and> hierarchy_inv n np cc' lineId (world_state ln w')
    \<and> barray (bcc cc') ! lineId = I \<and> (\<forall>k < n. world_state ln w' k = I)"
proof -
  have q1: "cy' = icycle req" if "world_children ln w c req = Some (w', wb, cy')"
    for w w' c wb cy' and req :: InvReq
    using that by (auto simp: world_children_def term_children_def term_processInv_def
        elim!: bind_Some_elim split: prod.splits)
  have quick: "unat cy' < 2 ^ 62"
    if "entry_sendInvalidates (world_children ln) (childrenRTTs (tcc cc)) (tarray (tcc cc) ! lineId) w la INV
       False cy (srcId req) = Some (e', w', wb, cy')" for w' e' wb cy'
  proof -
    have "unat cy' \<le> unat cy + 2 ^ 32"
      by (rule sendInvalidates_cycle [OF _ _ that]) (use q1 cy in auto)
    then show ?thesis using cy by simp
  qed
  from two.cc_processEviction_ok [of n np ln w cc lineId cy la req] assms quick
  show ?thesis unfolding hierarchy_inv_eq by blast
qed

text \<open>A hierarchy of one memory and two caches in which the second cache holds the line modified.\<close>

definition cc_example :: MESICC where
  "cc_example =
     \<lparr>tcc = (MESITopCC_new 1 False)\<lparr>tarray := [\<lparr>numSharers = 1, sharers = [False, True], exclusive = True\<rparr>],
        childrenRTTs := [3, 4]\<rparr>,
      bcc = (MESIBottomCC_init (MESIBottomCC_new 1 0 False) 1 None)\<lparr>barray := [E]\<rparr>, nonInclusiveHack = False\<rparr>"

definition world_example :: "MESIBottomCC list \<times> SimpleMemory list" where
  "world_example = ([bcc_example I, bcc_example M], [\<lparr>slatency = 100\<rparr>])"

definition req_example :: MemReq where
  "req_example = \<lparr>lineAddr = 64, rtype = GETX, childId = 0, rstate = I, rcycle = 7, initialState = I,
     srcId = 0, flags = 0\<rparr>"

lemma example_inv:
  "world_ok 2 1 (\<lambda>_. 0) world_example" "hierarchy_inv 2 1 cc_example 0 (world_state (\<lambda>_. 0) world_example)"
proof -
  have lt2: "(k :: nat) < 2 \<longleftrightarrow> k = 0 \<or> k = 1" for k by auto
  show "world_ok 2 1 (\<lambda>_. 0) world_example"
    by (auto simp: world_ok_def world_example_def children_ok_def bcc_example_def lt2)
  have st: "world_state (\<lambda>_. 0) world_example 0 = I" "world_state (\<lambda>_. 0) world_example 1 = M"
    by (simp_all add: world_state_def children_state_def world_example_def bcc_example_def)
  have "dir_rel 2 \<lparr>numSharers = 1, sharers = [False, True], exclusive = True\<rparr> (world_state (\<lambda>_. 0) world_example)"
    by (rule leaf.only_sharer [where c = 1]) (use st in \<open>auto simp: lt2\<close>)
  then show "hierarchy_inv 2 1 cc_example 0 (world_state (\<lambda>_. 0) world_example)"
    using st by (simp add: hierarchy_inv_def cc_example_def MESIBottomCC_init_def)
qed

theorem hierarchy_access_witness:
  "\<exists>cc' w' st cy' dn.
      cc_processAccess mem_parents (world_children (\<lambda>_. 0)) cc_example world_example req_example 0 7
        = Some (cc', w', st, cy', dn)
    \<and> st = M \<and> single_writer 2 ((world_state (\<lambda>_. 0) w')(0 := M))"
proof -
  have st: "rstate req_example = world_state (\<lambda>_. 0) world_example (childId req_example)"
    by (simp add: req_example_def world_state_def children_state_def world_example_def bcc_example_def)
  have "childId req_example < 2" "legal_request (rtype req_example) (rstate req_example)"
    "\<not> flag_is (flags req_example) PUTX_KEEPEXCL" "\<not> flag_is (flags req_example) PREFETCH" "unat (7 :: u64) < 2 ^ 62"
    by (simp_all add: req_example_def legal_request_def flag_is_def)
  from hierarchy_access [OF example_inv this(1) st this(2-5)]
  obtain cc' w' st cy' dn where r: "cc_processAccess mem_parents (world_children (\<lambda>_. 0)) cc_example world_example
        req_example (int 0) 7 = Some (cc', w', st, cy', dn)" "granted (rtype req_example) st"
      "single_writer 2 ((world_state (\<lambda>_. 0) w')(childId req_example := st))" by blast
  have c: "rtype req_example = GETX" "childId req_example = 0" by (simp_all add: req_example_def)
  then have "st = M" using r(2) by (simp add: granted_def)
  moreover from this have "single_writer 2 ((world_state (\<lambda>_. 0) w')(0 := M))" using r(3) c(2) by simp
  moreover have "int 0 = 0" by simp
  then have "cc_processAccess mem_parents (world_children (\<lambda>_. 0)) cc_example world_example
        req_example 0 7 = Some (cc', w', st, cy', dn)" using r(1) by argo
  ultimately show ?thesis by blast
qed

theorem hierarchy_eviction_witness:
  "\<exists>cc' w' cy'. cc_processEviction mem_parents (world_children (\<lambda>_. 0)) cc_example world_example req_example 64 0 7
      = Some (cc', w', cy') \<and> barray (bcc cc') ! 0 = I \<and> world_state (\<lambda>_. 0) w' 1 = I"
proof -
  have "\<not> tnonInclusiveHack (tcc cc_example)" "unat (7 :: u64) < 2 ^ 61"
    by (simp_all add: cc_example_def MESITopCC_new_def)
  from hierarchy_eviction [OF example_inv this, of req_example 64]
  obtain cc' w' cy' where r: "cc_processEviction mem_parents (world_children (\<lambda>_. 0)) cc_example world_example
      req_example 64 0 7 = Some (cc', w', cy')" "barray (bcc cc') ! 0 = I" "\<forall>k < 2. world_state (\<lambda>_. 0) w' k = I"
    by blast
  then have "world_state (\<lambda>_. 0) w' 1 = I" by simp
  with r(1,2) show ?thesis by blast
qed

end
