(* ===== verification/MTRand.thy ===== *)
theory MTRand
  imports Prelude
begin

text \<open>
  The Mersenne twister of \<open>src/src/mtrand.h\<close>: initialisation from a seed or an array of words,
  reloading, the 32-bit draw and the draw in a range, saving, loading and copying.  The
  pointer \<open>pNext\<close> into the state is the index it points to.  Seeding from the clock or from
  \<open>/dev/urandom\<close> and the conversions to floating point are not modelled.
\<close>

section \<open>The generator\<close>

definition mt_N :: nat where "mt_N = 624"
definition mt_M :: nat where "mt_M = 397"

record MTRand =
  mstate :: "u64 list"
  pNext :: nat
  left :: nat

definition hiBit :: "u64 \<Rightarrow> u64" where "hiBit u = u AND 0x80000000"
definition loBit :: "u64 \<Rightarrow> u64" where "loBit u = u AND 0x00000001"
definition loBits :: "u64 \<Rightarrow> u64" where "loBits u = u AND 0x7fffffff"
definition mixBits :: "u64 \<Rightarrow> u64 \<Rightarrow> u64" where "mixBits u v = hiBit u OR loBits v"
definition magic :: "u64 \<Rightarrow> u64" where "magic u = (if loBit u \<noteq> 0 then 0x9908b0df else 0)"

definition twist :: "u64 \<Rightarrow> u64 \<Rightarrow> u64 \<Rightarrow> u64" where
  "twist m s0 s1 = m XOR drop_bit 1 (mixBits s0 s1) XOR magic s1"

text \<open>\<open>initialize\<close>: the read pointer \<open>r\<close> trails the write index \<open>i\<close> by one.\<close>

fun mt_initLoop :: "nat \<Rightarrow> nat \<Rightarrow> u64 list \<Rightarrow> u64 list option" where
  "mt_initLoop 0 i s = Some s"
| "mt_initLoop (Suc n) i s = do {
     r \<leftarrow> aget s (i - 1);
     s' \<leftarrow> aset s i ((1812433253 * (r XOR drop_bit 30 r) + of_nat i) AND 0xffffffff);
     mt_initLoop n (i + 1) s'
   }"

definition mt_initialize :: "u64 \<Rightarrow> u64 list \<Rightarrow> u64 list option" where
  "mt_initialize seed s = do {
     s0 \<leftarrow> aset s 0 (seed AND 0xffffffff);
     mt_initLoop (mt_N - 1) 1 s0
   }"

text \<open>The loops of \<open>reload\<close>: \<open>n\<close> steps from index \<open>p\<close>, reading the state at \<open>q\<close>, \<open>p\<close> and \<open>p + 1\<close>.\<close>

fun mt_twistLoop :: "nat \<Rightarrow> nat \<Rightarrow> nat \<Rightarrow> u64 list \<Rightarrow> u64 list option" where
  "mt_twistLoop 0 p q s = Some s"
| "mt_twistLoop (Suc n) p q s = do {
     m \<leftarrow> aget s q;
     s0 \<leftarrow> aget s p;
     s1 \<leftarrow> aget s (p + 1);
     s' \<leftarrow> aset s p (twist m s0 s1);
     mt_twistLoop n (p + 1) (q + 1) s'
   }"

definition mt_reloadState :: "u64 list \<Rightarrow> u64 list option" where
  "mt_reloadState s = do {
     s1 \<leftarrow> mt_twistLoop (mt_N - mt_M) 0 mt_M s;
     s2 \<leftarrow> mt_twistLoop (mt_M - 1) (mt_N - mt_M) 0 s1;
     m \<leftarrow> aget s2 (mt_M - 1);
     a \<leftarrow> aget s2 (mt_N - 1);
     b \<leftarrow> aget s2 0;
     aset s2 (mt_N - 1) (twist m a b)
   }"

definition mt_reload :: "MTRand \<Rightarrow> MTRand option" where
  "mt_reload g = do {
     s \<leftarrow> mt_reloadState (mstate g);
     Some (g\<lparr>mstate := s, left := mt_N, pNext := 0\<rparr>)
   }"

definition mt_seed :: "MTRand \<Rightarrow> u64 \<Rightarrow> MTRand option" where
  "mt_seed g oneSeed = do {
     s \<leftarrow> mt_initialize oneSeed (mstate g);
     mt_reload (g\<lparr>mstate := s\<rparr>)
   }"

text \<open>An uninitialised generator; the constructors seed it.\<close>

definition mt_blank :: MTRand where
  "mt_blank = \<lparr>mstate = replicate mt_N 0, pNext = 0, left = 0\<rparr>"

definition MTRand_new :: "u64 \<Rightarrow> MTRand option" where
  "MTRand_new oneSeed = mt_seed mt_blank oneSeed"

text \<open>Seeding with an array; \<open>nextIdx\<close> is the wrap of the index \<open>i\<close> in both loops.\<close>

definition nextIdx :: "nat \<Rightarrow> u64 list \<Rightarrow> (nat \<times> u64 list) option" where
  "nextIdx i s =
     (if i + 1 \<ge> mt_N then do {
        l \<leftarrow> aget s (mt_N - 1);
        s' \<leftarrow> aset s 0 l;
        Some (1, s')
      }
      else Some (i + 1, s))"

fun mt_seedLoop1 :: "nat \<Rightarrow> u64 list \<Rightarrow> nat \<Rightarrow> nat \<Rightarrow> u64 list \<Rightarrow> (nat \<times> u64 list) option" where
  "mt_seedLoop1 0 bigSeed i j s = Some (i, s)"
| "mt_seedLoop1 (Suc k) bigSeed i j s = do {
     prev \<leftarrow> aget s (i - 1);
     cur \<leftarrow> aget s i;
     b \<leftarrow> aget bigSeed j;
     s1 \<leftarrow> aset s i (((cur XOR ((prev XOR drop_bit 30 prev) * 1664525)) + ((b AND 0xffffffff) + of_nat j)) AND 0xffffffff);
     (i', s2) \<leftarrow> nextIdx i s1;
     mt_seedLoop1 k bigSeed i' (if j + 1 \<ge> length bigSeed then 0 else j + 1) s2
   }"

fun mt_seedLoop2 :: "nat \<Rightarrow> nat \<Rightarrow> u64 list \<Rightarrow> u64 list option" where
  "mt_seedLoop2 0 i s = Some s"
| "mt_seedLoop2 (Suc k) i s = do {
     prev \<leftarrow> aget s (i - 1);
     cur \<leftarrow> aget s i;
     s1 \<leftarrow> aset s i (((cur XOR ((prev XOR drop_bit 30 prev) * 1566083941)) - of_nat i) AND 0xffffffff);
     (i', s2) \<leftarrow> nextIdx i s1;
     mt_seedLoop2 k i' s2
   }"

definition mt_seedArray :: "MTRand \<Rightarrow> u64 list \<Rightarrow> MTRand option" where
  "mt_seedArray g bigSeed = do {
     s \<leftarrow> mt_initialize 19650218 (mstate g);
     (i, s1) \<leftarrow> mt_seedLoop1 (if mt_N > length bigSeed then mt_N else length bigSeed) bigSeed 1 0 s;
     s2 \<leftarrow> mt_seedLoop2 (mt_N - 1) i s1;
     s3 \<leftarrow> aset s2 0 0x80000000;
     mt_reload (g\<lparr>mstate := s3\<rparr>)
   }"

definition mt_temper :: "u64 \<Rightarrow> u64" where
  "mt_temper x =
     (let s1 = x XOR drop_bit 11 x;
          s2 = s1 XOR (push_bit 7 s1 AND 0x9d2c5680);
          s3 = s2 XOR (push_bit 15 s2 AND 0xefc60000)
      in s3 XOR drop_bit 18 s3)"

definition mt_randInt :: "MTRand \<Rightarrow> (MTRand \<times> u64) option" where
  "mt_randInt g = do {
     g1 \<leftarrow> (if left g = 0 then mt_reload g else Some g);
     x \<leftarrow> aget (mstate g1) (pNext g1);
     Some (g1\<lparr>left := left g1 - 1, pNext := pNext g1 + 1\<rparr>, mt_temper x)
   }"

definition mt_used :: "u64 \<Rightarrow> u64" where
  "mt_used n =
     (let u = n OR drop_bit 1 n;
          u = u OR drop_bit 2 u;
          u = u OR drop_bit 4 u;
          u = u OR drop_bit 8 u
      in u OR drop_bit 16 u)"

text \<open>The rejection loop; a run that draws for ever is \<open>None\<close>.\<close>

partial_function (option) mt_draw :: "u64 \<Rightarrow> u64 \<Rightarrow> MTRand \<Rightarrow> (MTRand \<times> u64) option" where
  "mt_draw used n g = do {
     (g', r) \<leftarrow> mt_randInt g;
     if r AND used > n then mt_draw used n g' else Some (g', r AND used)
   }"

definition mt_randIntN :: "MTRand \<Rightarrow> u64 \<Rightarrow> (MTRand \<times> u64) option" where
  "mt_randIntN g n = mt_draw (mt_used n) n g"

text \<open>Saving to and loading from an array of \<open>N + 1\<close> words, and the copy of a generator.\<close>

definition mt_save :: "MTRand \<Rightarrow> u64 list" where
  "mt_save g = mstate g @ [of_nat (left g)]"

definition mt_load :: "MTRand \<Rightarrow> u64 list \<Rightarrow> MTRand option" where
  "mt_load g la = do {
     l \<leftarrow> aget la mt_N;
     Some (g\<lparr>mstate := take mt_N la, left := unat l, pNext := mt_N - unat l\<rparr>)
   }"

definition mt_copy :: "MTRand \<Rightarrow> MTRand" where
  "mt_copy g = \<lparr>mstate = mstate g, pNext = mt_N - left g, left = left g\<rparr>"

section \<open>Well-formed generators\<close>

text \<open>State words fit in 32 bits although they are stored in 64.\<close>

definition u32v :: "u64 \<Rightarrow> bool" where
  "u32v x = (take_bit 32 x = x)"

definition mt_ok :: "MTRand \<Rightarrow> bool" where
  "mt_ok g = (length (mstate g) = mt_N \<and> list_all u32v (mstate g) \<and> left g \<le> mt_N \<and> pNext g = mt_N - left g)"

named_theorems u32v_intros

lemma u32v_bit: "u32v x \<longleftrightarrow> (\<forall>n \<ge> 32. \<not> bit x n)"
proof
  assume "u32v x"
  then have *: "take_bit 32 x = x" by (simp add: u32v_def)
  show "\<forall>n \<ge> 32. \<not> bit x n"
  proof (intro allI impI)
    fix n :: nat assume "32 \<le> n"
    then have "\<not> bit (take_bit 32 x) n" by (simp add: bit_take_bit_iff)
    then show "\<not> bit x n" using * by simp
  qed
next
  assume "\<forall>n \<ge> 32. \<not> bit x n"
  then show "u32v x" unfolding u32v_def
    by (intro bit_word_eqI) (metis bit_take_bit_iff not_less)
qed

lemma u32v_xor [u32v_intros]: "u32v a \<Longrightarrow> u32v b \<Longrightarrow> u32v (a XOR b)"
  by (simp add: u32v_bit bit_simps)

lemma u32v_or [u32v_intros]: "u32v a \<Longrightarrow> u32v b \<Longrightarrow> u32v (a OR b)"
  by (simp add: u32v_bit bit_simps)

lemma u32v_and1 [u32v_intros]: "u32v b \<Longrightarrow> u32v (a AND b)"
  by (simp add: u32v_bit bit_simps)

lemma u32v_drop [u32v_intros]: "u32v a \<Longrightarrow> u32v (drop_bit k a)"
  by (simp add: u32v_bit bit_simps)

lemma u32v_consts [u32v_intros]:
  "u32v 0xffffffff" "u32v 0x80000000" "u32v 0x7fffffff" "u32v 0x9908b0df" "u32v 0" "u32v 0x9d2c5680" "u32v 0xefc60000"
  by (simp_all add: u32v_def)

lemma u32v_less: "u32v x \<longleftrightarrow> unat x < 2 ^ 32"
  by (simp add: u32v_def word_unat_eq_iff unsigned_take_bit_eq take_bit_nat_eq_self_iff)

lemma u32v_twist: "u32v m \<Longrightarrow> u32v (twist m a b)"
  unfolding twist_def mixBits_def hiBit_def loBits_def magic_def
  by (intro u32v_intros) (auto intro: u32v_intros)

lemma u32v_temper: "u32v x \<Longrightarrow> u32v (mt_temper x)"
  unfolding mt_temper_def Let_def by (intro u32v_intros)

lemma mt_twistLoop_total:
  assumes "length s = mt_N" "list_all u32v s" "p + n < mt_N" "q + n \<le> mt_N"
  shows "\<exists>s'. mt_twistLoop n p q s = Some s' \<and> length s' = mt_N \<and> list_all u32v s'"
  using assms
proof (induction n arbitrary: p q s)
  case 0
  then show ?case by simp
next
  case (Suc n)
  have "list_all u32v (s[p := twist (s ! q) (s ! p) (s ! (p + 1))])"
    using Suc.prems by (intro list_all_update u32v_twist) (auto simp: list_all_nth)
  with Suc.IH [of "s[p := twist (s ! q) (s ! p) (s ! (p + 1))]" "p + 1" "q + 1"] Suc.prems
  show ?case by simp
qed

lemma mt_idx: "0 < mt_N" "mt_N - 1 < mt_N" "mt_M - 1 < mt_N" "mt_M < mt_N" "1 < mt_N"
  by (simp_all add: mt_N_def mt_M_def)

lemma mt_reloadState_total:
  assumes "length s = mt_N" "list_all u32v s"
  shows "\<exists>s'. mt_reloadState s = Some s' \<and> length s' = mt_N \<and> list_all u32v s'"
proof -
  obtain s1 where s1: "mt_twistLoop (mt_N - mt_M) 0 mt_M s = Some s1" "length s1 = mt_N" "list_all u32v s1"
    using mt_twistLoop_total [OF assms, of 0 "mt_N - mt_M" mt_M] mt_idx by (auto simp: mt_M_def)
  have "mt_N - mt_M + (mt_M - 1) < mt_N" "0 + (mt_M - 1) \<le> mt_N" by (simp_all add: mt_N_def mt_M_def)
  from mt_twistLoop_total [OF s1(2,3) this]
  obtain s2 where s2: "mt_twistLoop (mt_M - 1) (mt_N - mt_M) 0 s1 = Some s2" "length s2 = mt_N" "list_all u32v s2"
    by blast
  have "u32v (s2 ! (mt_M - 1))" using s2 mt_idx by (simp add: list_all_nth)
  then have "list_all u32v (s2[mt_N - 1 := twist (s2 ! (mt_M - 1)) (s2 ! (mt_N - 1)) (s2 ! 0)])"
    using s2(3) by (intro list_all_update u32v_twist)
  then show ?thesis using s2(2) mt_idx
    unfolding mt_reloadState_def s1(1) s2(1) Option.bind.bind_lunit by simp
qed

lemma mt_reload_ok:
  assumes "length (mstate g) = mt_N" "list_all u32v (mstate g)"
  shows "\<exists>g'. mt_reload g = Some g' \<and> mt_ok g' \<and> left g' = mt_N"
  using mt_reloadState_total [OF assms] by (auto simp: mt_reload_def mt_ok_def)

lemma mt_initLoop_total:
  assumes "length s = mt_N" "list_all u32v s" "0 < i" "i + n \<le> mt_N"
  shows "\<exists>s'. mt_initLoop n i s = Some s' \<and> length s' = mt_N \<and> list_all u32v s'"
  using assms
proof (induction n arbitrary: i s)
  case 0
  then show ?case by simp
next
  case (Suc n)
  let ?s = "s[i := (1812433253 * (s ! (i - 1) XOR drop_bit 30 (s ! (i - 1))) + of_nat i) AND 0xffffffff]"
  have "list_all u32v ?s" using Suc.prems by (intro list_all_update u32v_intros) auto
  with Suc.IH [of ?s "i + 1"] Suc.prems show ?case by simp
qed

lemma mt_initialize_total:
  assumes "length s = mt_N" "list_all u32v s"
  shows "\<exists>s'. mt_initialize seed s = Some s' \<and> length s' = mt_N \<and> list_all u32v s'"
proof -
  have "list_all u32v (s[0 := seed AND 0xffffffff])" using assms by (intro list_all_update u32v_intros)
  with mt_initLoop_total [of "s[0 := seed AND 0xffffffff]" 1 "mt_N - 1"] assms(1) mt_idx
  show ?thesis by (simp add: mt_initialize_def)
qed

lemma mt_seed_ok:
  assumes "length (mstate g) = mt_N" "list_all u32v (mstate g)"
  shows "\<exists>g'. mt_seed g n = Some g' \<and> mt_ok g'"
proof -
  obtain s where s: "mt_initialize n (mstate g) = Some s" "length s = mt_N" "list_all u32v s"
    using mt_initialize_total [OF assms] by blast
  then obtain g' where "mt_reload (g\<lparr>mstate := s\<rparr>) = Some g'" "mt_ok g'"
    using mt_reload_ok [of "g\<lparr>mstate := s\<rparr>"] by auto
  then show ?thesis using s(1) by (simp add: mt_seed_def)
qed

lemma MTRand_new_ok: "\<exists>g. MTRand_new n = Some g \<and> mt_ok g"
  unfolding MTRand_new_def
  by (rule mt_seed_ok) (simp_all add: mt_blank_def list_all_iff u32v_intros)

definition idx_ok :: "nat \<Rightarrow> bool" where "idx_ok i = (0 < i \<and> i < mt_N)"

lemma nextIdx_total:
  assumes "length s = mt_N" "list_all u32v s" "idx_ok i"
  shows "\<exists>i' s'. nextIdx i s = Some (i', s') \<and> length s' = mt_N \<and> list_all u32v s' \<and> idx_ok i'"
proof (cases "i + 1 \<ge> mt_N")
  case True
  have "list_all u32v (s[0 := s ! (mt_N - 1)])"
    using assms mt_idx by (intro list_all_update) (auto simp: list_all_nth)
  then show ?thesis using True assms mt_idx by (simp add: nextIdx_def idx_ok_def)
next
  case False
  then show ?thesis using assms by (simp add: nextIdx_def idx_ok_def)
qed

lemma mt_seedLoop1_total:
  assumes "length s = mt_N" "list_all u32v s" "idx_ok i" "j < length b"
  shows "\<exists>i' s'. mt_seedLoop1 k b i j s = Some (i', s') \<and> length s' = mt_N \<and> list_all u32v s' \<and> idx_ok i'"
  using assms
proof (induction k arbitrary: i j s)
  case 0
  then show ?case by simp
next
  case (Suc k)
  let ?s = "s[i := ((s ! i XOR ((s ! (i - 1) XOR drop_bit 30 (s ! (i - 1))) * 1664525)) + ((b ! j AND 0xffffffff) + of_nat j))
     AND 0xffffffff]"
  have s: "length ?s = mt_N" "list_all u32v ?s" using Suc.prems by (auto intro!: list_all_update u32v_intros)
  obtain i' s' where n: "nextIdx i ?s = Some (i', s')" "length s' = mt_N" "list_all u32v s'" "idx_ok i'"
    using nextIdx_total [OF s Suc.prems(3)] by blast
  have j: "(if j + 1 \<ge> length b then 0 else j + 1) < length b" using Suc.prems(4) by auto
  have i: "i < length s" "i - 1 < length s" using Suc.prems(1,3) by (auto simp: idx_ok_def)
  show ?case using Suc.IH [OF n(2-4) j] i n(1) Suc.prems(4) by simp
qed

lemma mt_seedLoop2_total:
  assumes "length s = mt_N" "list_all u32v s" "idx_ok i"
  shows "\<exists>s'. mt_seedLoop2 k i s = Some s' \<and> length s' = mt_N \<and> list_all u32v s'"
  using assms
proof (induction k arbitrary: i s)
  case 0
  then show ?case by simp
next
  case (Suc k)
  let ?s = "s[i := ((s ! i XOR ((s ! (i - 1) XOR drop_bit 30 (s ! (i - 1))) * 1566083941)) - of_nat i) AND 0xffffffff]"
  have s: "length ?s = mt_N" "list_all u32v ?s" using Suc.prems by (auto intro!: list_all_update u32v_intros)
  obtain i' s' where n: "nextIdx i ?s = Some (i', s')" "length s' = mt_N" "list_all u32v s'" "idx_ok i'"
    using nextIdx_total [OF s Suc.prems(3)] by blast
  have i: "i < length s" "i - 1 < length s" using Suc.prems(1,3) by (auto simp: idx_ok_def)
  show ?case using Suc.IH [OF n(2-4)] i n(1) by simp
qed

lemma mt_seedArray_ok:
  assumes "length (mstate g) = mt_N" "list_all u32v (mstate g)" "b \<noteq> []"
  shows "\<exists>g'. mt_seedArray g b = Some g' \<and> mt_ok g'"
proof -
  obtain s where s: "mt_initialize 19650218 (mstate g) = Some s" "length s = mt_N" "list_all u32v s"
    using mt_initialize_total [OF assms(1,2)] by blast
  have "idx_ok 1" by (simp add: idx_ok_def mt_N_def)
  then obtain i s1 where s1: "mt_seedLoop1 (if mt_N > length b then mt_N else length b) b 1 0 s = Some (i, s1)"
      "length s1 = mt_N" "list_all u32v s1" "idx_ok i"
    using mt_seedLoop1_total [OF s(2,3)] assms(3) by blast
  obtain s2 where s2: "mt_seedLoop2 (mt_N - 1) i s1 = Some s2" "length s2 = mt_N" "list_all u32v s2"
    using mt_seedLoop2_total [OF s1(2-4)] by blast
  have s3: "aset s2 0 0x80000000 = Some (s2[0 := 0x80000000])" using s2(2) mt_idx by simp
  have "list_all u32v (s2[0 := 0x80000000])" using s2 by (intro list_all_update u32v_intros)
  with mt_reload_ok [of "g\<lparr>mstate := s2[0 := 0x80000000]\<rparr>"] s2(2)
  obtain g' where "mt_reload (g\<lparr>mstate := s2[0 := 0x80000000]\<rparr>) = Some g'" "mt_ok g'" by auto
  then show ?thesis
    unfolding mt_seedArray_def s(1) Option.bind.bind_lunit s1(1) s2(1) s3 prod.case by blast
qed

lemma mt_randInt_ok:
  assumes "mt_ok g"
  shows "\<exists>g' x. mt_randInt g = Some (g', x) \<and> mt_ok g' \<and> u32v x"
proof -
  obtain g1 where g1: "(if left g = 0 then mt_reload g else Some g) = Some g1" "mt_ok g1" "0 < left g1"
    using mt_reload_ok [of g] assms by (cases "left g = 0") (use mt_idx in \<open>auto simp: mt_ok_def\<close>)
  then have "pNext g1 < length (mstate g1)" "u32v (mstate g1 ! pNext g1)"
    by (auto simp: mt_ok_def list_all_nth)
  then show ?thesis
    unfolding mt_randInt_def g1(1) using g1(2,3) by (auto simp: mt_ok_def u32v_temper)
qed

lemma mt_load_save: "mt_ok g \<Longrightarrow> mt_load g0 (mt_save g) = Some g"
proof -
  assume ok: "mt_ok g"
  then have "unat (of_nat (left g) :: u64) = left g"
    by (simp add: mt_ok_def mt_N_def unat_of_nat take_bit_nat_eq_self)
  then show ?thesis using ok by (cases g) (simp add: mt_load_def mt_save_def mt_ok_def nth_append)
qed

text \<open>When \<open>n + 1\<close> is a power of two the first draw passes.\<close>

lemma mt_randIntN_pow2:
  assumes "mt_ok g" "mt_used n = n"
  shows "\<exists>g' x. mt_randIntN g n = Some (g', x) \<and> mt_ok g' \<and> x \<le> n"
proof -
  obtain g' r where "mt_randInt g = Some (g', r)" "mt_ok g'" using mt_randInt_ok [OF assms(1)] by blast
  moreover have "\<not> n < r AND n" "r AND n \<le> n" by (simp_all add: word_and_le1 not_less)
  ultimately show ?thesis
    using assms(2) by (simp add: mt_randIntN_def mt_draw.simps [of n n g])
qed

text \<open>The smearing of \<open>mt_used\<close>: the mask has all bits up to the highest of \<open>n\<close>, so every number up to \<open>n\<close> passes it.\<close>

lemma smear_step:
  fixes u n :: u64
  assumes "\<And>i. bit u i \<longleftrightarrow> (\<exists>j < k. bit n (i + j))"
  shows "bit (u OR drop_bit k u) i \<longleftrightarrow> (\<exists>j < k + k. bit n (i + j))"
proof -
  have "(\<exists>j < k + k. bit n (i + j)) \<longleftrightarrow> (\<exists>j < k. bit n (i + j)) \<or> (\<exists>j < k. bit n (i + k + j))"
  proof
    assume "\<exists>j < k + k. bit n (i + j)"
    then obtain j where j: "j < k + k" "bit n (i + j)" by blast
    show "(\<exists>j < k. bit n (i + j)) \<or> (\<exists>j < k. bit n (i + k + j))"
    proof (cases "j < k")
      case True
      then show ?thesis using j by blast
    next
      case False
      then have "j - k < k" "i + k + (j - k) = i + j" using j by simp_all
      then show ?thesis using j by metis
    qed
  next
    assume "(\<exists>j < k. bit n (i + j)) \<or> (\<exists>j < k. bit n (i + k + j))"
    then show "\<exists>j < k + k. bit n (i + j)"
    proof
      assume "\<exists>j < k. bit n (i + j)"
      then obtain j where "j < k" "bit n (i + j)" by blast
      then show ?thesis by (intro exI [of _ j]) simp
    next
      assume "\<exists>j < k. bit n (i + k + j)"
      then obtain j where "j < k" "bit n (i + k + j)" by blast
      then show ?thesis by (intro exI [of _ "k + j"]) (simp add: add.assoc)
    qed
  qed
  moreover have "bit (u OR drop_bit k u) i \<longleftrightarrow> bit u i \<or> bit u (i + k)" by (simp add: bit_or_iff bit_drop_bit_eq add.commute)
  ultimately show ?thesis unfolding assms by blast
qed

lemma mt_used_bits: "bit (mt_used n) i \<longleftrightarrow> (\<exists>j < 32. bit n (i + j))"
proof -
  define u1 where "u1 = n OR drop_bit 1 n"
  define u2 where "u2 = u1 OR drop_bit 2 u1"
  define u3 where "u3 = u2 OR drop_bit 4 u2"
  define u4 where "u4 = u3 OR drop_bit 8 u3"
  have "bit n i \<longleftrightarrow> (\<exists>j < 1. bit n (i + j))" for i by simp
  from smear_step [OF this] have 1: "bit u1 i \<longleftrightarrow> (\<exists>j < 2. bit n (i + j))" for i by (simp add: u1_def numeral_2_eq_2)
  from smear_step [OF 1] have 2: "bit u2 i \<longleftrightarrow> (\<exists>j < 4. bit n (i + j))" for i by (simp add: u2_def)
  from smear_step [OF 2] have 3: "bit u3 i \<longleftrightarrow> (\<exists>j < 8. bit n (i + j))" for i by (simp add: u3_def)
  from smear_step [OF 3] have 4: "bit u4 i \<longleftrightarrow> (\<exists>j < 16. bit n (i + j))" for i by (simp add: u4_def)
  have "mt_used n = u4 OR drop_bit 16 u4" by (simp add: mt_used_def Let_def u1_def u2_def u3_def u4_def)
  then show ?thesis using smear_step [OF 4] by simp
qed

lemma mt_used_mask:
  assumes "unat n < 2 ^ 32" "n \<noteq> 0"
  shows "\<exists>t < 32. mt_used n = mask (Suc t) \<and> 2 ^ t \<le> unat n \<and> unat n < 2 ^ Suc t"
proof -
  have "1 \<le> unat n" using assms(2) by (simp add: Suc_le_eq unat_gt_0)
  then obtain t where t: "2 ^ t \<le> unat n" "unat n < 2 ^ Suc t" using ex_power_ivl1 [of 2 "unat n"] by auto
  have "(2 :: nat) ^ t < 2 ^ 32" using t(1) assms(1) by linarith
  then have t32: "t < 32" by (rule power_less_imp_less_exp [rotated]) simp
  have b: "bit n j \<longleftrightarrow> j < 64 \<and> bit (unat n) j" for j by (auto simp: bit_unsigned_iff dest: bit_imp_le_length)
  have "unat n div 2 ^ t = 1" using t by (simp add: div_nat_eqI)
  then have "bit (unat n) t" by (simp add: bit_iff_odd)
  then have top: "bit n t" using t32 b by simp
  have above: "\<not> bit n j" if "t < j" for j
  proof -
    have "(2 :: nat) ^ Suc t \<le> 2 ^ j" using that by (intro power_increasing) simp_all
    then have "unat n div 2 ^ j = 0" using t(2) by simp
    then have "\<not> bit (unat n) j" by (simp add: bit_iff_odd)
    then show ?thesis using b by simp
  qed
  have "mt_used n = mask (Suc t)"
  proof (rule bit_word_eqI)
    fix i
    assume i: "i < LENGTH(64)"
    show "bit (mt_used n) i \<longleftrightarrow> bit (mask (Suc t) :: u64) i"
    proof (cases "i \<le> t")
      case True
      then have "t - i < 32" "i + (t - i) = t" using t32 by simp_all
      then have "bit (mt_used n) i" unfolding mt_used_bits using top by metis
      then show ?thesis using True i by (simp add: bit_mask_iff)
    next
      case False
      then show ?thesis unfolding mt_used_bits using above by (auto simp: bit_mask_iff)
    qed
  qed
  then show ?thesis using t t32 by blast
qed

lemma mt_used_keeps:
  assumes "unat n < 2 ^ 32" "m \<le> n"
  shows "m AND mt_used n = m"
proof (cases "n = 0")
  case True
  then show ?thesis using assms(2) by simp
next
  case False
  from mt_used_mask [OF assms(1) False] obtain t where t: "mt_used n = mask (Suc t)" "unat n < 2 ^ Suc t" by blast
  then have "unat m < 2 ^ Suc t" using assms(2) by (simp add: word_le_nat_alt)
  then have "take_bit (Suc t) m = m" by (simp add: word_unat_eq_iff unsigned_take_bit_eq take_bit_nat_eq_self_iff)
  then show ?thesis unfolding t(1) by (simp add: take_bit_eq_mask)
qed

lemma mt_used_half: "unat n < 2 ^ 32 \<Longrightarrow> unat (mt_used n) \<le> 2 * unat n"
proof (cases "n = 0")
  case True
  then show ?thesis by (simp add: mt_used_def)
next
  case False
  assume "unat n < 2 ^ 32"
  from mt_used_mask [OF this False] obtain t where t: "mt_used n = mask (Suc t)" "2 ^ t \<le> unat n" "t < 32" by blast
  have "take_bit (Suc t) (mt_used n) = mt_used n" unfolding t(1) by (simp add: take_bit_eq_mask)
  then have "take_bit (Suc t) (unat (mt_used n)) = unat (mt_used n)" by (metis unsigned_take_bit_eq)
  then have "unat (mt_used n) < 2 ^ Suc t" by (metis take_bit_nat_less_exp)
  then show ?thesis using t(2) by simp
qed

text \<open>The numbers of the stream.\<close>

fun mt_nth :: "nat \<Rightarrow> MTRand \<Rightarrow> (MTRand \<times> u64) option" where
  "mt_nth 0 g = mt_randInt g"
| "mt_nth (Suc k) g = do { (g', r) \<leftarrow> mt_randInt g; mt_nth k g' }"

definition first_pass :: "u64 \<Rightarrow> u64 \<Rightarrow> MTRand \<Rightarrow> nat \<Rightarrow> MTRand \<times> u64 \<Rightarrow> bool" where
  "first_pass used n g k y \<longleftrightarrow> (\<exists>r. mt_nth k g = Some (fst y, r) \<and> snd y = r AND used \<and> snd y \<le> n)
     \<and> (\<forall>i < k. \<exists>gi ri. mt_nth i g = Some (gi, ri) \<and> n < ri AND used)"

lemma mt_draw_first:
  assumes "mt_draw used n g = Some y"
  shows "\<exists>k. first_pass used n g k y"
proof (rule mt_draw.raw_induct [where P = "\<lambda>used n g y. \<exists>k. first_pass used n g k y", OF _ assms])
  fix draw and used n :: u64 and g y
  assume IH: "\<And>used n g y. draw used n g = Some y \<Longrightarrow> \<exists>k. first_pass used n g k y"
    and run: "mt_randInt g \<bind> (\<lambda>(g', r). if r AND used > n then draw used n g' else Some (g', r AND used)) = Some y"
  from run obtain g' r where gr: "mt_randInt g = Some (g', r)" by (auto elim!: bind_Some_elim)
  show "\<exists>k. first_pass used n g k y"
  proof (cases "n < r AND used")
    case False
    then have "first_pass used n g 0 y" using run gr by (auto simp: first_pass_def)
    then show ?thesis by blast
  next
    case True
    then obtain k where k: "first_pass used n g' k y" using IH [of used n g' y] run gr by auto
    have "\<exists>gi ri. mt_nth i g = Some (gi, ri) \<and> n < ri AND used" if "i < Suc k" for i
      using that k gr True by (cases i) (auto simp: first_pass_def)
    then have "first_pass used n g (Suc k) y" using k gr by (simp add: first_pass_def)
    then show ?thesis by blast
  qed
qed

lemma mt_draw_reaches: "first_pass used n g k y \<Longrightarrow> mt_draw used n g = Some y"
proof (induction k arbitrary: g)
  case 0
  then obtain r where "mt_randInt g = Some (fst y, r)" "snd y = r AND used" "\<not> n < r AND used" by (auto simp: first_pass_def)
  then show ?case by (cases y) (simp add: mt_draw.simps [of used n g])
next
  case (Suc k)
  from Suc.prems obtain g' r where gr: "mt_randInt g = Some (g', r)" "n < r AND used"
    unfolding first_pass_def by (metis mt_nth.simps(1) zero_less_Suc)
  have "first_pass used n g' k y"
    using Suc.prems gr unfolding first_pass_def by (auto dest: spec [of _ "Suc _"])
  from Suc.IH [OF this] show ?case using gr by (subst mt_draw.simps) simp
qed

section \<open>Properties\<close>

definition mt_draws :: "MTRand \<Rightarrow> unit list \<Rightarrow> MTRand option" where
  "mt_draws = run_all (\<lambda>g _. map_option fst (mt_randInt g))"

lemma mt_draws_ok: "mt_ok g \<Longrightarrow> \<exists>g'. mt_draws g us = Some g' \<and> mt_ok g'"
  unfolding mt_draws_def by (rule run_all_total [where I = mt_ok]) (use mt_randInt_ok in force)+

text \<open>
  Claim C18.  Every 32-bit draw of a seeded generator succeeds and fits in 32 bits, however many
  numbers are drawn: the generator stays well formed, with the read pointer \<open>left\<close> words before
  the end of the state, through all its reloads.
\<close>

theorem mt_stream_safe:
  "\<exists>g g' x. MTRand_new seed = Some g \<and> mt_draws g us = Some g' \<and> mt_ok g' \<and> map_option snd (mt_randInt g') = Some x \<and> unat x < 2 ^ 32"
proof -
  obtain g where g: "MTRand_new seed = Some g" "mt_ok g" using MTRand_new_ok by blast
  obtain g' where g': "mt_draws g us = Some g'" "mt_ok g'" using mt_draws_ok [OF g(2)] by blast
  obtain g'' x where "mt_randInt g' = Some (g'', x)" "u32v x" using mt_randInt_ok [OF g'(2)] by blast
  then show ?thesis using g(1) g' by (auto simp: u32v_less)
qed

text \<open>
  Loading what a well-formed generator saved gives back that generator, whatever the
  state of the generator that loads it.
\<close>

theorem mt_save_load_roundtrip:
  assumes "mt_ok g"
  shows "mt_load g0 (mt_save g) = Some g"
  by (rule mt_load_save [OF assms])

theorem mt_save_load_roundtrip_witness:
  "\<exists>g. MTRand_new 5489 = Some g \<and> mt_load mt_blank (mt_save g) = Some g"
  using MTRand_new_ok [of 5489] mt_save_load_roundtrip by blast

text \<open>
  Claim C19.  The draw in a range up to \<open>n < 2 ^ 32\<close> is rejection sampling: it returns exactly if some number of the stream passes
  the mask, and then with the first that does, masked, and the state after it.  Every number up to \<open>n\<close> passes the mask unchanged, and
  the mask is at most \<open>2 n\<close>.
\<close>

theorem mt_randIntN_rejection:
  assumes "unat n < 2 ^ 32"
  shows "(mt_randIntN g n = Some (g', x) \<longleftrightarrow>
        (\<exists>k r. mt_nth k g = Some (g', r) \<and> x = r AND mt_used n \<and> x \<le> n
           \<and> (\<forall>i < k. \<exists>gi ri. mt_nth i g = Some (gi, ri) \<and> n < ri AND mt_used n)))
     \<and> (\<forall>m \<le> n. m AND mt_used n = m) \<and> unat (mt_used n) \<le> 2 * unat n"
proof -
  have "mt_randIntN g n = Some (g', x) \<longleftrightarrow> (\<exists>k. first_pass (mt_used n) n g k (g', x))"
    unfolding mt_randIntN_def using mt_draw_first mt_draw_reaches by blast
  then show ?thesis using mt_used_keeps [OF assms] mt_used_half [OF assms] by (auto simp: first_pass_def)
qed

theorem mt_randIntN_rejection_witness:
  "\<exists>g g' x. MTRand_new 7 = Some g \<and> mt_randIntN g 255 = Some (g', x) \<and> x \<le> 255 \<and> unat (mt_used 5) \<le> 10"
proof -
  obtain g where g: "MTRand_new 7 = Some g" "mt_ok g" using MTRand_new_ok by blast
  obtain g' r where r: "mt_randInt g = Some (g', r)" using mt_randInt_ok [OF g(2)] by blast
  have u: "mt_used 255 = 255" by (simp add: mt_used_def)
  have "unat (255 :: u64) < 2 ^ 32" by simp
  from mt_randIntN_rejection [OF this, of g g' "r AND 255"] r u have "mt_randIntN g 255 = Some (g', r AND 255)"
    by (simp add: word_and_le1) (metis less_nat_zero_code mt_nth.simps(1))
  moreover have "unat (mt_used 5) \<le> 10" using mt_randIntN_rejection [of 5] by simp
  ultimately show ?thesis using g(1) by (auto simp: word_and_le1)
qed

end
