(* ===== verification/ReplPolicies.thy ===== *)
theory ReplPolicies
  imports MemHier MTRand
begin

text \<open>
  The replacement policies of \<open>src/src/repl_policies.h\<close>.

  Line ids index arrays and are naturals.  A candidate set (\<open>SetAssocCands\<close> or \<open>ZCands\<close>) is the list
  of the ids its iterator yields.  The coherence controller is asked for the sharers and the
  validity of a line; these two queries are the pair \<open>cc\<close>, a parameter of the functions that use it.
  A request pointer is an option, \<open>None\<close> for the null pointer.
\<close>

type_synonym cc_view = "(nat \<Rightarrow> u32 option) \<times> (nat \<Rightarrow> bool option)"

definition view_numSharers :: "cc_view \<Rightarrow> nat \<Rightarrow> u32 option" where
  "view_numSharers cc lid = fst cc lid"

definition view_isValid :: "cc_view \<Rightarrow> nat \<Rightarrow> bool option" where
  "view_isValid cc lid = snd cc lid"

definition u32_m1 :: nat where "u32_m1 = 4294967295"

section \<open>LRUReplPolicy\<close>

record LRUReplPolicy =
  ltimestamp :: u64
  larray :: "u64 list"
  lnumLines :: u32

definition LRUReplPolicy_new :: "u32 \<Rightarrow> LRUReplPolicy" where
  "LRUReplPolicy_new n = \<lparr>ltimestamp = 1, larray = replicate (unat n) 0, lnumLines = n\<rparr>"

definition lru_update :: "LRUReplPolicy \<Rightarrow> nat \<Rightarrow> MemReq option \<Rightarrow> LRUReplPolicy option" where
  "lru_update p lid req = do {
     a \<leftarrow> aset (larray p) lid (ltimestamp p);
     Some (p\<lparr>larray := a, ltimestamp := ltimestamp p + 1\<rparr>)
   }"

definition lru_replaced :: "LRUReplPolicy \<Rightarrow> nat \<Rightarrow> LRUReplPolicy option" where
  "lru_replaced p lid = do {
     a \<leftarrow> aset (larray p) lid 0;
     Some (p\<lparr>larray := a\<rparr>)
   }"

text \<open>\<open>score\<close>: the template parameter \<open>sharersAware\<close> is the first argument.\<close>

definition lru_score :: "bool \<Rightarrow> cc_view \<Rightarrow> LRUReplPolicy \<Rightarrow> nat \<Rightarrow> u64 option" where
  "lru_score sharersAware cc p lid = do {
     sh \<leftarrow> (if sharersAware then view_numSharers cc lid else Some 0);
     t \<leftarrow> aget (larray p) lid;
     v \<leftarrow> view_isValid cc lid;
     Some (ucast sh * ltimestamp p + t * of_bool v)
   }"

text \<open>The loop of \<open>rank\<close>; the score is cut to 32 bits when it is assigned to \<open>s\<close>.\<close>

fun lru_rankLoop :: "bool \<Rightarrow> cc_view \<Rightarrow> LRUReplPolicy \<Rightarrow> nat list \<Rightarrow> nat \<Rightarrow> u64 \<Rightarrow> nat option" where
  "lru_rankLoop aw cc p [] bestCand bestScore = Some bestCand"
| "lru_rankLoop aw cc p (ci # cands) bestCand bestScore = do {
     sc \<leftarrow> lru_score aw cc p ci;
     let s = (ucast sc :: u32);
     lru_rankLoop aw cc p cands (if ucast s < bestScore then ci else bestCand) (c_MIN (ucast s) bestScore)
   }"

definition lru_rank :: "bool \<Rightarrow> cc_view \<Rightarrow> LRUReplPolicy \<Rightarrow> MemReq option \<Rightarrow> nat list \<Rightarrow> (LRUReplPolicy \<times> nat) option" where
  "lru_rank aw cc p req cands = do {
     c \<leftarrow> lru_rankLoop aw cc p cands u32_m1 (- 1);
     Some (p, c)
   }"

section \<open>TreeLRUReplPolicy\<close>

record TreeLRUReplPolicy =
  tlru :: LRUReplPolicy
  tcandArray :: "nat list"
  tnumCands :: u32
  tcandIdx :: u32

definition TreeLRUReplPolicy_new :: "u32 \<Rightarrow> u32 \<Rightarrow> TreeLRUReplPolicy option" where
  "TreeLRUReplPolicy_new n numCands = do {
     _ \<leftarrow> require (numCands AND (numCands - 1) = 0);
     Some \<lparr>tlru = LRUReplPolicy_new n, tcandArray = replicate (unat numCands) 0, tnumCands = numCands, tcandIdx = 0\<rparr>
   }"

definition tree_recordCandidate :: "TreeLRUReplPolicy \<Rightarrow> nat \<Rightarrow> TreeLRUReplPolicy option" where
  "tree_recordCandidate p lid = do {
     a \<leftarrow> aset (tcandArray p) (unat (tcandIdx p)) lid;
     Some (p\<lparr>tcandArray := a, tcandIdx := tcandIdx p + 1\<rparr>)
   }"

text \<open>The youngest timestamp among the candidates \<open>[i, j)\<close>.\<close>

fun tree_maxTs :: "TreeLRUReplPolicy \<Rightarrow> nat list \<Rightarrow> u64 \<Rightarrow> u64 option" where
  "tree_maxTs p [] t = Some t"
| "tree_maxTs p (i # is) t = do {
     lid \<leftarrow> aget (tcandArray p) i;
     ts \<leftarrow> aget (larray (tlru p)) lid;
     tree_maxTs p is (c_MAX t ts)
   }"

text \<open>The halving loop; it is given the width of the interval as fuel, which halves each time.\<close>

fun tree_descend :: "nat \<Rightarrow> TreeLRUReplPolicy \<Rightarrow> nat \<Rightarrow> nat \<Rightarrow> nat option" where
  "tree_descend 0 p start e = Some start"
| "tree_descend (Suc fuel) p start e =
     (if e - start > 1 then do {
        let pivot = start + (e - start) div 2;
        t1 \<leftarrow> tree_maxTs p [start..<pivot] 0;
        t2 \<leftarrow> tree_maxTs p [pivot..<e] 0;
        (if t1 > t2 then tree_descend fuel p pivot e else tree_descend fuel p start pivot)
      }
      else Some start)"

definition tree_getBestCandidate :: "TreeLRUReplPolicy \<Rightarrow> nat option" where
  "tree_getBestCandidate p = do {
     _ \<leftarrow> require (tcandIdx p = tnumCands p);
     start \<leftarrow> tree_descend (unat (tnumCands p)) p 0 (unat (tnumCands p));
     aget (tcandArray p) start
   }"

definition tree_replaced :: "TreeLRUReplPolicy \<Rightarrow> nat \<Rightarrow> TreeLRUReplPolicy option" where
  "tree_replaced p lid = do {
     l \<leftarrow> lru_replaced (tlru p) lid;
     Some (p\<lparr>tcandIdx := 0, tlru := l\<rparr>)
   }"

text \<open>\<open>update\<close> and \<open>rankCands\<close> are inherited: both bindings call the \<open>rank\<close> of \<open>LRUReplPolicy<true>\<close>.\<close>

definition tree_update :: "TreeLRUReplPolicy \<Rightarrow> nat \<Rightarrow> MemReq option \<Rightarrow> TreeLRUReplPolicy option" where
  "tree_update p lid req = do {
     l \<leftarrow> lru_update (tlru p) lid req;
     Some (p\<lparr>tlru := l\<rparr>)
   }"

definition tree_rank :: "cc_view \<Rightarrow> TreeLRUReplPolicy \<Rightarrow> MemReq option \<Rightarrow> nat list \<Rightarrow> (TreeLRUReplPolicy \<times> nat) option" where
  "tree_rank cc p req cands = do {
     (l, c) \<leftarrow> lru_rank True cc (tlru p) req cands;
     Some (p\<lparr>tlru := l\<rparr>, c)
   }"

section \<open>The legacy rank\<close>

text \<open>\<open>LegacyReplPolicy::rank\<close> over the policy's own \<open>recordCandidate\<close> and \<open>getBestCandidate\<close>.\<close>

definition legacy_rank :: "('s \<Rightarrow> nat \<Rightarrow> 's option) \<Rightarrow> ('s \<Rightarrow> ('s \<times> nat) option) \<Rightarrow> 's \<Rightarrow> MemReq option \<Rightarrow>
    nat list \<Rightarrow> ('s \<times> nat) option" where
  "legacy_rank recordCandidate getBestCandidate p req cands = do {
     p' \<leftarrow> run_all recordCandidate p cands;
     getBestCandidate p'
   }"

section \<open>NRUReplPolicy\<close>

record NRUReplPolicy =
  narray :: "u32 list"
  ncandArray :: "nat list"
  nnumLines :: u32
  nnumCands :: u32
  youngLines :: u32
  ncandVal :: u32
  ncandIdx :: u32

definition NRUReplPolicy_new :: "u32 \<Rightarrow> u32 \<Rightarrow> NRUReplPolicy" where
  "NRUReplPolicy_new n numCands =
     \<lparr>narray = replicate (unat n) 0, ncandArray = replicate (unat numCands) 0, nnumLines = n,
      nnumCands = numCands, youngLines = 0, ncandVal = push_bit 20 1, ncandIdx = 0\<rparr>"

definition nru_update :: "NRUReplPolicy \<Rightarrow> nat \<Rightarrow> MemReq option \<Rightarrow> NRUReplPolicy option" where
  "nru_update p lid req = do {
     v \<leftarrow> aget (narray p) lid;
     let young = youngLines p + (1 - drop_bit 1 v);
     a \<leftarrow> aset (narray p) lid (v OR 2);
     if young \<ge> nnumLines p div 2
     then Some (p\<lparr>narray := map (drop_bit 1) a, youngLines := 0\<rparr>)
     else Some (p\<lparr>narray := a, youngLines := young\<rparr>)
   }"

definition nru_recordCandidate :: "NRUReplPolicy \<Rightarrow> nat \<Rightarrow> NRUReplPolicy option" where
  "nru_recordCandidate p lid = do {
     iVal \<leftarrow> aget (narray p) lid;
     if iVal < ncandVal p then do {
       ca \<leftarrow> aset (ncandArray p) 0 lid;
       Some (p\<lparr>ncandVal := iVal, ncandArray := ca, ncandIdx := 1\<rparr>)
     }
     else if iVal = ncandVal p then do {
       ca \<leftarrow> aset (ncandArray p) (unat (ncandIdx p)) lid;
       Some (p\<lparr>ncandArray := ca, ncandIdx := ncandIdx p + 1\<rparr>)
     }
     else Some p
   }"

definition nru_getBestCandidate :: "NRUReplPolicy \<Rightarrow> (NRUReplPolicy \<times> nat) option" where
  "nru_getBestCandidate p = do {
     _ \<leftarrow> require (ncandIdx p > 0);
     c \<leftarrow> aget (ncandArray p) (unat (youngLines p mod ncandIdx p));
     Some (p, c)
   }"

definition nru_rank :: "NRUReplPolicy \<Rightarrow> MemReq option \<Rightarrow> nat list \<Rightarrow> (NRUReplPolicy \<times> nat) option" where
  "nru_rank = legacy_rank nru_recordCandidate nru_getBestCandidate"

definition nru_replaced :: "NRUReplPolicy \<Rightarrow> nat \<Rightarrow> NRUReplPolicy option" where
  "nru_replaced p lid = do {
     a \<leftarrow> aset (narray p) lid 0;
     Some (p\<lparr>ncandVal := push_bit 20 1, ncandIdx := 0, narray := a\<rparr>)
   }"

section \<open>RandReplPolicy\<close>

text \<open>
  The random generator is the state \<open>'r\<close>; \<open>randInt rnd n\<close> draws a number up to \<open>n\<close>.  The code
  uses \<open>mt_randIntN\<close> of the Mersenne twister, whose rejection loop has no bound.
\<close>

record 'r RandReplPolicy =
  rcandArray :: "nat list"
  rnumCands :: u32
  rrnd :: 'r
  rcandIdx :: u32

definition RandReplPolicy_new :: "u32 \<Rightarrow> 'r \<Rightarrow> 'r RandReplPolicy" where
  "RandReplPolicy_new numCands rnd =
     \<lparr>rcandArray = replicate (unat numCands) 0, rnumCands = numCands, rrnd = rnd, rcandIdx = 0\<rparr>"

definition rand_update :: "'r RandReplPolicy \<Rightarrow> nat \<Rightarrow> MemReq option \<Rightarrow> 'r RandReplPolicy option" where
  "rand_update p lid req = Some p"

definition rand_recordCandidate :: "'r RandReplPolicy \<Rightarrow> nat \<Rightarrow> 'r RandReplPolicy option" where
  "rand_recordCandidate p lid = do {
     a \<leftarrow> aset (rcandArray p) (unat (rcandIdx p)) lid;
     Some (p\<lparr>rcandArray := a, rcandIdx := rcandIdx p + 1\<rparr>)
   }"

definition rand_getBestCandidate :: "('r \<Rightarrow> u64 \<Rightarrow> ('r \<times> u64) option) \<Rightarrow> 'r RandReplPolicy \<Rightarrow> ('r RandReplPolicy \<times> nat) option" where
  "rand_getBestCandidate randInt p = do {
     _ \<leftarrow> require (rcandIdx p = rnumCands p);
     (rnd', idx) \<leftarrow> randInt (rrnd p) (ucast (rnumCands p - 1));
     c \<leftarrow> aget (rcandArray p) (unat (ucast idx :: u32));
     Some (p\<lparr>rrnd := rnd'\<rparr>, c)
   }"

definition rand_rank :: "('r \<Rightarrow> u64 \<Rightarrow> ('r \<times> u64) option) \<Rightarrow> 'r RandReplPolicy \<Rightarrow> MemReq option \<Rightarrow> nat list \<Rightarrow>
    ('r RandReplPolicy \<times> nat) option" where
  "rand_rank randInt = legacy_rank rand_recordCandidate (rand_getBestCandidate randInt)"

definition rand_replaced :: "'r RandReplPolicy \<Rightarrow> nat \<Rightarrow> 'r RandReplPolicy option" where
  "rand_replaced p lid = Some (p\<lparr>rcandIdx := 0\<rparr>)"

section \<open>LFUReplPolicy\<close>

record LFUInfo =
  ts :: u64
  accs :: u64

record Rank =
  lfuInfo :: LFUInfo
  rsharers :: u32
  rvalid :: bool

record LFUReplPolicy =
  ftimestamp :: u64
  fbestCandidate :: int
  farray :: "LFUInfo list"
  fnumLines :: u32
  fbestRank :: Rank

definition Rank_reset :: Rank where
  "Rank_reset = \<lparr>lfuInfo = \<lparr>ts = 0, accs = 0\<rparr>, rsharers = 0, rvalid = False\<rparr>"

definition Rank_lessThan :: "Rank \<Rightarrow> Rank \<Rightarrow> u64 \<Rightarrow> bool" where
  "Rank_lessThan r other curTs =
     (if \<not> rvalid r \<and> rvalid other then True
      else if rvalid r = rvalid other then
        (if rsharers r = 0 \<and> rsharers other > 0 then True
         else if rsharers r > 0 \<and> rsharers other = 0 then False
         else if accs (lfuInfo r) = 0 then True
         else if accs (lfuInfo other) = 0 then False
         else (curTs - ts (lfuInfo r)) div accs (lfuInfo r) > (curTs - ts (lfuInfo other)) div accs (lfuInfo other))
      else False)"

definition LFUReplPolicy_new :: "u32 \<Rightarrow> LFUReplPolicy" where
  "LFUReplPolicy_new n =
     \<lparr>ftimestamp = 1, fbestCandidate = -1, farray = replicate (unat n) \<lparr>ts = 0, accs = 0\<rparr>, fnumLines = n,
      fbestRank = Rank_reset\<rparr>"

text \<open>The division by \<open>acc + 1\<close> is by zero when the count has wrapped to its maximum.\<close>

definition lfu_update :: "LFUReplPolicy \<Rightarrow> nat \<Rightarrow> MemReq option \<Rightarrow> LFUReplPolicy option" where
  "lfu_update p lid req = do {
     i \<leftarrow> aget (farray p) lid;
     _ \<leftarrow> require (accs i + 1 \<noteq> 0);
     a \<leftarrow> aset (farray p) lid \<lparr>ts = (accs i * ts i + ftimestamp p) div (accs i + 1), accs = accs i + 1\<rparr>;
     Some (p\<lparr>farray := a, ftimestamp := ftimestamp p + 1000\<rparr>)
   }"

definition lfu_recordCandidate :: "cc_view \<Rightarrow> LFUReplPolicy \<Rightarrow> nat \<Rightarrow> LFUReplPolicy option" where
  "lfu_recordCandidate cc p lid = do {
     i \<leftarrow> aget (farray p) lid;
     sh \<leftarrow> view_numSharers cc lid;
     v \<leftarrow> view_isValid cc lid;
     let candRank = \<lparr>lfuInfo = i, rsharers = sh, rvalid = v\<rparr>;
     if fbestCandidate p = -1 \<or> Rank_lessThan candRank (fbestRank p) (ftimestamp p)
     then Some (p\<lparr>fbestRank := candRank, fbestCandidate := int lid\<rparr>)
     else Some p
   }"

definition lfu_getBestCandidate :: "LFUReplPolicy \<Rightarrow> (LFUReplPolicy \<times> nat) option" where
  "lfu_getBestCandidate p = do {
     _ \<leftarrow> require (fbestCandidate p \<noteq> -1);
     Some (p, nat (fbestCandidate p))
   }"

definition lfu_rank :: "cc_view \<Rightarrow> LFUReplPolicy \<Rightarrow> MemReq option \<Rightarrow> nat list \<Rightarrow> (LFUReplPolicy \<times> nat) option" where
  "lfu_rank cc = legacy_rank (lfu_recordCandidate cc) lfu_getBestCandidate"

definition lfu_replaced :: "LFUReplPolicy \<Rightarrow> nat \<Rightarrow> LFUReplPolicy option" where
  "lfu_replaced p lid = do {
     i \<leftarrow> aget (farray p) lid;
     a \<leftarrow> aset (farray p) lid (i\<lparr>accs := 0\<rparr>);
     Some (p\<lparr>fbestCandidate := -1, fbestRank := Rank_reset, farray := a\<rparr>)
   }"

section \<open>ProfViolReplPolicy\<close>

text \<open>
  The profiling policy extends a policy \<open>T\<close>, whose state is \<open>'t\<close> and whose operations are arguments; the code uses it over LRU.
  \<open>startReplacement\<close> records the cycle of the request that starts a replacement; \<open>rankCands\<close> is the inherited one, and the one of LRU
  does not call \<open>startReplacement\<close>, so over LRU \<open>replCycle\<close> keeps its initial value.
\<close>

record AccTimes =
  aread :: u64
  awrite :: u64

record 't ProfViol =
  base :: 't
  accTimes :: "AccTimes list"
  profRAW :: u64
  profWAR :: u64
  profRAR :: u64
  profWAW :: u64
  profNoViolAcc :: u64
  profAAE :: u64
  profNoViolEv :: u64
  replCycle :: u64

definition ProfViol_init :: "'t \<Rightarrow> u32 \<Rightarrow> 't ProfViol" where
  "ProfViol_init b n =
     \<lparr>base = b, accTimes = replicate (unat n) \<lparr>aread = 0, awrite = 0\<rparr>, profRAW = 0, profWAR = 0, profRAR = 0,
      profWAW = 0, profNoViolAcc = 0, profAAE = 0, profNoViolEv = 0, replCycle = 0\<rparr>"

definition prof_readViol :: "AccTimes \<Rightarrow> u64 \<Rightarrow> bool option" where
  "prof_readViol t cycle =
     (if cycle < c_MIN (aread t) (awrite t) then Some (aread t < awrite t)
      else if cycle < aread t then Some True
      else do { _ \<leftarrow> require (cycle < awrite t); Some False })"

definition prof_update :: "('t \<Rightarrow> nat \<Rightarrow> MemReq option \<Rightarrow> 't option) \<Rightarrow> 't ProfViol \<Rightarrow> nat \<Rightarrow> MemReq option \<Rightarrow>
    't ProfViol option" where
  "prof_update upd p lid reqp = do {
     b1 \<leftarrow> upd (base p) lid reqp;
     req \<leftarrow> reqp;
     let read = (rtype req = GETS);
     _ \<leftarrow> require (read \<or> rtype req = GETX);
     let cycle = rcycle req;
     t \<leftarrow> aget (accTimes p) lid;
     p1 \<leftarrow> (if cycle < c_MAX (aread t) (awrite t) then do {
              readViol \<leftarrow> prof_readViol t cycle;
              Some (if read then (if readViol then p\<lparr>profRAR := profRAR p + 1\<rparr> else p\<lparr>profRAW := profRAW p + 1\<rparr>)
                    else (if readViol then p\<lparr>profWAR := profWAR p + 1\<rparr> else p\<lparr>profWAW := profWAW p + 1\<rparr>))
            }
            else Some (p\<lparr>profNoViolAcc := profNoViolAcc p + 1\<rparr>));
     a \<leftarrow> aset (accTimes p1) lid (if read then t\<lparr>aread := c_MAX (aread t) cycle\<rparr> else t\<lparr>awrite := c_MAX (awrite t) cycle\<rparr>);
     b2 \<leftarrow> upd b1 lid reqp;
     Some (p1\<lparr>accTimes := a, base := b2\<rparr>)
   }"

definition prof_startReplacement :: "('t \<Rightarrow> MemReq option \<Rightarrow> 't) \<Rightarrow> 't ProfViol \<Rightarrow> MemReq option \<Rightarrow> 't ProfViol option" where
  "prof_startReplacement start p reqp = do {
     let b = start (base p) reqp;
     req \<leftarrow> reqp;
     Some (p\<lparr>base := b, replCycle := rcycle req\<rparr>)
   }"

definition prof_replaced :: "('t \<Rightarrow> nat \<Rightarrow> 't option) \<Rightarrow> 't ProfViol \<Rightarrow> nat \<Rightarrow> 't ProfViol option" where
  "prof_replaced repl p lid = do {
     b \<leftarrow> repl (base p) lid;
     t \<leftarrow> aget (accTimes p) lid;
     let p1 = (if replCycle p < c_MAX (aread t) (awrite t) then p\<lparr>profAAE := profAAE p + 1\<rparr>
               else p\<lparr>profNoViolEv := profNoViolEv p + 1\<rparr>);
     a \<leftarrow> aset (accTimes p1) lid \<lparr>aread = 0, awrite = 0\<rparr>;
     Some (p1\<lparr>base := b, accTimes := a\<rparr>)
   }"

definition prof_rank :: "('t \<Rightarrow> MemReq option \<Rightarrow> nat list \<Rightarrow> ('t \<times> nat) option) \<Rightarrow> 't ProfViol \<Rightarrow> MemReq option \<Rightarrow>
    nat list \<Rightarrow> ('t ProfViol \<times> nat) option" where
  "prof_rank rank p req cands = do {
     (b, c) \<leftarrow> rank (base p) req cands;
     Some (p\<lparr>base := b\<rparr>, c)
   }"

section \<open>The contract of a replacement policy\<close>

text \<open>
  What a cache array relies on, for a policy of \<open>n\<close> lines that is asked to rank \<open>k\<close> candidates at a
  time: updates never fail, the victim is one of the candidates, and \<open>replaced\<close> gets the policy
  ready for the next ranking.  \<open>good\<close> are the requests an update may be called with; \<open>fresh\<close> and \<open>ranked\<close> are the states before and after a ranking.
\<close>

locale repl_policy =
  fixes update :: "'s \<Rightarrow> nat \<Rightarrow> MemReq option \<Rightarrow> 's option"
    and replaced :: "'s \<Rightarrow> nat \<Rightarrow> 's option"
    and rank :: "'s \<Rightarrow> MemReq option \<Rightarrow> nat list \<Rightarrow> ('s \<times> nat) option"
    and n :: nat
    and k :: nat
    and fresh :: "'s \<Rightarrow> bool"
    and ranked :: "'s \<Rightarrow> bool"
    and good :: "MemReq option \<Rightarrow> bool"
  assumes update_fresh: "fresh s \<Longrightarrow> lid < n \<Longrightarrow> good req \<Longrightarrow> \<exists>s'. update s lid req = Some s' \<and> fresh s'"
    and update_ranked: "ranked s \<Longrightarrow> lid < n \<Longrightarrow> good req \<Longrightarrow> \<exists>s'. update s lid req = Some s' \<and> ranked s'"
    and rank_fresh: "fresh s \<Longrightarrow> cands \<noteq> [] \<Longrightarrow> length cands = k \<Longrightarrow> set cands \<subseteq> {..<n} \<Longrightarrow>
      \<exists>s' c. rank s req cands = Some (s', c) \<and> c \<in> set cands \<and> ranked s'"
    and replaced_ranked: "ranked s \<Longrightarrow> lid < n \<Longrightarrow> \<exists>s'. replaced s lid = Some s' \<and> fresh s'"

text \<open>The queries of the coherence controller succeed on the lines of the cache.\<close>

definition view_ok :: "cc_view \<Rightarrow> nat \<Rightarrow> bool" where
  "view_ok cc n = (\<forall>i < n. view_numSharers cc i \<noteq> None \<and> view_isValid cc i \<noteq> None)"

definition lru_ok :: "nat \<Rightarrow> LRUReplPolicy \<Rightarrow> bool" where
  "lru_ok n p = (length (larray p) = n)"

lemma ucast_u32_less: "ucast (s :: u32) < (- 1 :: u64)"
proof -
  have "unat (- 1 :: u64) = 18446744073709551615" by (simp add: unsigned_minus_1_eq_mask mask_eq_exp_minus_1)
  moreover have "unat (ucast s :: u64) < 4294967296" using unat_u32_lt [of s] by simp
  ultimately show ?thesis unfolding word_less_nat_alt by linarith
qed

lemma lru_score_ok:
  assumes "lru_ok n p" "view_ok cc n" "i < n"
  shows "\<exists>sc. lru_score aw cc p i = Some sc"
  using assms by (auto simp: lru_score_def lru_ok_def view_ok_def)

definition score32 :: "u64 \<Rightarrow> u64" where
  "score32 sc = ucast (ucast sc :: u32)"

lemma lru_rankLoop_step:
  "lru_score aw cc p i = Some sc \<Longrightarrow> lru_rankLoop aw cc p (i # cs) b s
     = lru_rankLoop aw cc p cs (if score32 sc < s then i else b) (c_MIN (score32 sc) s)"
  by (simp add: score32_def Let_def)

lemma lru_rankLoop_mem:
  assumes "lru_ok n p" "view_ok cc n" "set cands \<subseteq> {..<n}"
  shows "\<exists>c. lru_rankLoop aw cc p cands b s = Some c \<and> (c = b \<or> c \<in> set cands)"
  using assms(3)
proof (induction cands arbitrary: b s)
  case Nil
  then show ?case by simp
next
  case (Cons i cands)
  have "i < n" "set cands \<subseteq> {..<n}" using Cons.prems by auto
  from lru_score_ok [OF assms(1,2) this(1)] obtain sc where sc: "lru_score aw cc p i = Some sc" by blast
  define b' where "b' = (if score32 sc < s then i else b)"
  obtain c where "lru_rankLoop aw cc p cands b' (c_MIN (score32 sc) s) = Some c" "c = b' \<or> c \<in> set cands"
    using Cons.IH [OF \<open>set cands \<subseteq> {..<n}\<close>] by blast
  moreover have "b' = b \<or> b' = i" by (simp add: b'_def)
  ultimately show ?case unfolding lru_rankLoop_step [OF sc] b'_def [symmetric] by auto
qed

lemma lru_rank_mem:
  assumes "lru_ok n p" "view_ok cc n" "set cands \<subseteq> {..<n}" "cands \<noteq> []"
  shows "\<exists>c. lru_rank aw cc p req cands = Some (p, c) \<and> c \<in> set cands"
proof -
  obtain i cs where ics: "cands = i # cs" using assms(4) by (cases cands) auto
  then have "i < n" "set cs \<subseteq> {..<n}" using assms(3) by auto
  from lru_score_ok [OF assms(1,2) this(1)] obtain sc where sc: "lru_score aw cc p i = Some sc" by blast
  have "score32 sc < - 1" unfolding score32_def by (rule ucast_u32_less)
  then have "lru_rankLoop aw cc p cands u32_m1 (- 1) = lru_rankLoop aw cc p cs i (c_MIN (score32 sc) (- 1))"
    unfolding ics lru_rankLoop_step [OF sc] by simp
  moreover obtain c where "lru_rankLoop aw cc p cs i (c_MIN (score32 sc) (- 1)) = Some c" "c = i \<or> c \<in> set cs"
    using lru_rankLoop_mem [OF assms(1,2) \<open>set cs \<subseteq> {..<n}\<close>] by blast
  ultimately show ?thesis using ics by (auto simp: lru_rank_def)
qed

interpretation lru: repl_policy lru_update lru_replaced "lru_rank aw cc" n k
  "\<lambda>p. lru_ok n p \<and> view_ok cc n" "\<lambda>p. lru_ok n p \<and> view_ok cc n" "\<lambda>_. True" for aw cc n k
proof unfold_locales
  fix p req and cands :: "nat list"
  assume "lru_ok n p \<and> view_ok cc n" "cands \<noteq> []" "set cands \<subseteq> {..<n}"
  with lru_rank_mem [of n p cc cands aw req]
  show "\<exists>s' c. lru_rank aw cc p req cands = Some (s', c) \<and> c \<in> set cands \<and> lru_ok n s' \<and> view_ok cc n"
    by blast
qed (simp_all add: lru_update_def lru_replaced_def lru_ok_def)

definition tree_ok :: "nat \<Rightarrow> TreeLRUReplPolicy \<Rightarrow> bool" where
  "tree_ok n p = lru_ok n (tlru p)"

interpretation tree: repl_policy tree_update tree_replaced "tree_rank cc" n k
  "\<lambda>p. tree_ok n p \<and> view_ok cc n" "\<lambda>p. tree_ok n p \<and> view_ok cc n" "\<lambda>_. True" for cc n k
proof unfold_locales
  fix p req and cands :: "nat list"
  assume a: "tree_ok n p \<and> view_ok cc n" "cands \<noteq> []" "set cands \<subseteq> {..<n}"
  with lru_rank_mem [of n "tlru p" cc cands True req]
  obtain c where "lru_rank True cc (tlru p) req cands = Some (tlru p, c)" "c \<in> set cands"
    by (auto simp: tree_ok_def)
  then show "\<exists>s' c. tree_rank cc p req cands = Some (s', c) \<and> c \<in> set cands \<and> tree_ok n s' \<and> view_ok cc n"
    using a(1) by (simp add: tree_rank_def tree_ok_def)
qed (simp_all add: tree_update_def tree_replaced_def lru_update_def lru_replaced_def lru_ok_def tree_ok_def)

text \<open>Recording candidates one by one, with the list of those recorded so far.\<close>

lemma run_all_prefix:
  assumes step: "\<And>R p i. J R p \<Longrightarrow> i \<in> set cands \<Longrightarrow> length R < length cands \<Longrightarrow> \<exists>p'. f p i = Some p' \<and> J (R @ [i]) p'"
    and "J [] p"
  shows "\<exists>p'. run_all f p cands = Some p' \<and> J cands p'"
proof -
  have "\<exists>p'. run_all f p cs = Some p' \<and> J (R @ cs) p'" if "cands = R @ cs" "J R p" for R cs p
    using that
  proof (induction cs arbitrary: R p)
    case Nil
    then show ?case by simp
  next
    case (Cons i cs)
    from step [OF Cons.prems(2), of i] Cons.prems(1) obtain p1 where "f p i = Some p1" "J (R @ [i]) p1" by auto
    with Cons.IH [of "R @ [i]" p1] Cons.prems(1) show ?case by auto
  qed
  from this [of "[]" cands p] assms(2) show ?thesis by simp
qed

definition nru_ok :: "nat \<Rightarrow> nat \<Rightarrow> NRUReplPolicy \<Rightarrow> bool" where
  "nru_ok n k p = (length (narray p) = n \<and> length (ncandArray p) = k \<and> k < 2 ^ 32
     \<and> (\<forall>i < n. narray p ! i < push_bit 20 1))"

definition nru_fresh :: "nat \<Rightarrow> nat \<Rightarrow> NRUReplPolicy \<Rightarrow> bool" where
  "nru_fresh n k p = (nru_ok n k p \<and> ncandVal p = push_bit 20 1 \<and> ncandIdx p = 0)"

text \<open>After the candidates \<open>R\<close>: the recorded ones are those of minimal age.\<close>

definition nru_recorded :: "nat \<Rightarrow> nat \<Rightarrow> nat list \<Rightarrow> NRUReplPolicy \<Rightarrow> bool" where
  "nru_recorded n k R p = (nru_ok n k p \<and> unat (ncandIdx p) \<le> length R
     \<and> (R = [] \<longrightarrow> ncandVal p = push_bit 20 1 \<and> ncandIdx p = 0)
     \<and> (R \<noteq> [] \<longrightarrow> 0 < ncandIdx p)
     \<and> (\<forall>r \<in> set R. ncandVal p \<le> narray p ! r)
     \<and> (\<forall>j < unat (ncandIdx p). ncandArray p ! j \<in> set R \<and> narray p ! (ncandArray p ! j) = ncandVal p))"

lemma nru_recordCandidate_keeps: "nru_recordCandidate p i = Some p' \<Longrightarrow> narray p' = narray p \<and> youngLines p' = youngLines p"
  by (auto simp: nru_recordCandidate_def elim!: bind_Some_elim split: if_splits)

lemma nru_recordCandidate_step:
  assumes rec: "nru_recorded n k R p" and i: "i < n" and room: "length R < k"
  shows "\<exists>p'. nru_recordCandidate p i = Some p' \<and> nru_recorded n k (R @ [i]) p'"
proof -
  have len: "length (narray p) = n" "length (ncandArray p) = k" and k: "k < 2 ^ 32"
    and small: "narray p ! i < push_bit 20 1" and idx: "unat (ncandIdx p) \<le> length R"
    using rec i by (auto simp: nru_recorded_def nru_ok_def)
  consider (lt) "narray p ! i < ncandVal p" | (eq) "narray p ! i = ncandVal p" | (gt) "ncandVal p < narray p ! i"
    by fastforce
  then show ?thesis
  proof cases
    case lt
    let ?p = "p\<lparr>ncandVal := narray p ! i, ncandArray := (ncandArray p)[0 := i], ncandIdx := 1\<rparr>"
    have "nru_recordCandidate p i = Some ?p"
      using lt i room len by (simp add: nru_recordCandidate_def)
    moreover have "narray p ! i \<le> narray p ! r" if "r \<in> set R" for r
      using rec that lt by (auto simp: nru_recorded_def intro: order_trans [OF less_imp_le])
    then have "nru_recorded n k (R @ [i]) ?p"
      using rec room len(2) by (auto simp: nru_recorded_def nru_ok_def)
    ultimately show ?thesis by blast
  next
    case eq
    have ne: "R \<noteq> []" using rec eq small by (auto simp: nru_recorded_def)
    let ?p = "p\<lparr>ncandArray := (ncandArray p)[unat (ncandIdx p) := i], ncandIdx := ncandIdx p + 1\<rparr>"
    have lt: "unat (ncandIdx p) < k" using idx room by simp
    then have suc: "unat (ncandIdx p + 1) = unat (ncandIdx p) + 1" using k by (subst unat_add_no_wrap) simp_all
    have "nru_recordCandidate p i = Some ?p"
      using eq i lt len by (simp add: nru_recordCandidate_def)
    moreover have "nru_recorded n k (R @ [i]) ?p"
      unfolding nru_recorded_def
    proof (intro conjI allI impI ballI)
      show "nru_ok n k ?p" using rec by (simp add: nru_recorded_def nru_ok_def)
      show "unat (ncandIdx ?p) \<le> length (R @ [i])" using suc idx by simp
      show "0 < ncandIdx ?p" using suc by (simp add: word_less_nat_alt)
      fix r assume "r \<in> set (R @ [i])"
      then show "ncandVal ?p \<le> narray ?p ! r" using rec eq by (auto simp: nru_recorded_def)
    next
      fix j assume "j < unat (ncandIdx ?p)"
      then have "j < unat (ncandIdx p) \<or> j = unat (ncandIdx p)" using suc by auto
      then show "ncandArray ?p ! j \<in> set (R @ [i])" "narray ?p ! (ncandArray ?p ! j) = ncandVal ?p"
        using rec eq lt len(2) by (auto simp: nru_recorded_def)
    qed (use ne in simp_all)
    ultimately show ?thesis by blast
  next
    case gt
    have ne: "R \<noteq> []" using rec gt small by (auto simp: nru_recorded_def)
    have "nru_recordCandidate p i = Some p"
      using gt i len by (auto simp: nru_recordCandidate_def)
    moreover have "nru_recorded n k (R @ [i]) p"
      using rec gt ne by (auto simp: nru_recorded_def)
    ultimately show ?thesis by blast
  qed
qed

lemma nru_rank_ok:
  assumes fresh: "nru_fresh n k p" and cands: "cands \<noteq> []" "length cands = k" "set cands \<subseteq> {..<n}"
  shows "\<exists>p' c. nru_rank p req cands = Some (p', c) \<and> c \<in> set cands \<and> nru_ok n k p'
     \<and> (\<forall>r \<in> set cands. narray p ! c \<le> narray p ! r)"
proof -
  have init: "nru_recorded n k [] p \<and> narray p = narray p" using fresh by (simp add: nru_recorded_def nru_fresh_def)
  have step: "\<exists>p'. nru_recordCandidate q i = Some p' \<and> nru_recorded n k (R @ [i]) p' \<and> narray p' = narray p"
    if *: "nru_recorded n k R q \<and> narray q = narray p" "i \<in> set cands" "length R < length cands" for R q i
  proof -
    have "i < n" "length R < k" using *(2,3) cands by auto
    then obtain q' where "nru_recordCandidate q i = Some q'" "nru_recorded n k (R @ [i]) q'"
      using nru_recordCandidate_step [of n k R q i] *(1) by blast
    then show ?thesis using nru_recordCandidate_keeps *(1) by metis
  qed
  have "\<exists>q. run_all nru_recordCandidate p cands = Some q \<and> nru_recorded n k cands q \<and> narray q = narray p"
    by (rule run_all_prefix [where J = "\<lambda>R q. nru_recorded n k R q \<and> narray q = narray p"]) (fact step, fact init)
  then obtain q where q: "run_all nru_recordCandidate p cands = Some q" "nru_recorded n k cands q" "narray q = narray p"
    by blast
  have pos: "0 < ncandIdx q" and idx: "unat (ncandIdx q) \<le> k" and len: "length (ncandArray q) = k"
    using q(2) cands by (auto simp: nru_recorded_def nru_ok_def)
  let ?j = "unat (youngLines q mod ncandIdx q)"
  have "youngLines q mod ncandIdx q < ncandIdx q" using pos by (simp add: word_mod_less_divisor)
  then have j: "?j < unat (ncandIdx q)" by (simp add: word_less_nat_alt)
  then have "nru_rank p req cands = Some (q, ncandArray q ! ?j)"
    using q(1) pos idx len by (simp add: nru_rank_def legacy_rank_def nru_getBestCandidate_def)
  then show ?thesis using q(2,3) j by (auto simp: nru_recorded_def)
qed

lemma nru_update_keeps:
  assumes ok: "nru_ok n k p" and i: "i < n"
  shows "\<exists>p'. nru_update p i req = Some p' \<and> nru_ok n k p' \<and> ncandVal p' = ncandVal p \<and> ncandIdx p' = ncandIdx p"
proof -
  have len: "length (narray p) = n" and small: "\<forall>j < n. narray p ! j < push_bit 20 1"
    using ok by (auto simp: nru_ok_def)
  have or2: "v OR 2 < push_bit 20 1" if "v < push_bit 20 1" for v :: u32
  proof -
    have "unat v < 2 ^ 20" using that by (simp add: word_less_nat_alt push_bit_eq_mult)
    then have "take_bit 20 v = v" by (simp add: word_unat_eq_iff unsigned_take_bit_eq take_bit_nat_eq_self)
    then have "take_bit 20 (v OR 2) = v OR 2" by (simp add: take_bit_or)
    then have "unat (v OR 2) < 2 ^ 20" by (metis take_bit_nat_less_exp unsigned_take_bit_eq)
    then show ?thesis by (simp add: word_less_nat_alt push_bit_eq_mult)
  qed
  have shr: "drop_bit 1 v < push_bit 20 1" if "v < push_bit 20 1" for v :: u32
  proof -
    have "unat (drop_bit 1 v) = unat v div 2" unfolding unsigned_drop_bit_eq by (simp add: drop_bit_eq_div take_bit_nat_eq_self)
    then have "unat (drop_bit 1 v) \<le> unat v" by simp
    then show ?thesis using that by (simp add: word_less_nat_alt)
  qed
  let ?a = "(narray p)[i := narray p ! i OR 2]"
  have a: "\<forall>j < n. ?a ! j < push_bit 20 1" using small or2 i len by (auto simp: nth_list_update)
  then have "\<forall>j < n. map (drop_bit 1) ?a ! j < push_bit 20 1" using shr len by simp
  then show ?thesis using a ok i len by (auto simp: nru_update_def nru_ok_def Let_def)
qed

interpretation nru: repl_policy nru_update nru_replaced nru_rank n k "nru_fresh n k" "nru_ok n k" "\<lambda>_. True" for n k
proof unfold_locales
  fix p lid req assume "nru_fresh n k p" "lid < n"
  then show "\<exists>s'. nru_update p lid req = Some s' \<and> nru_fresh n k s'"
    using nru_update_keeps [of n k p lid req] by (auto simp: nru_fresh_def)
next
  fix p lid req assume "nru_ok n k p" "lid < n"
  then show "\<exists>s'. nru_update p lid req = Some s' \<and> nru_ok n k s'"
    using nru_update_keeps [of n k p lid req] by auto
next
  fix p req and cands :: "nat list"
  assume "nru_fresh n k p" "cands \<noteq> []" "length cands = k" "set cands \<subseteq> {..<n}"
  then show "\<exists>s' c. nru_rank p req cands = Some (s', c) \<and> c \<in> set cands \<and> nru_ok n k s'"
    using nru_rank_ok by blast
next
  fix p lid assume "nru_ok n k p" "lid < n"
  then show "\<exists>s'. nru_replaced p lid = Some s' \<and> nru_fresh n k s'"
    by (auto simp: nru_replaced_def nru_fresh_def nru_ok_def nth_list_update word_less_nat_alt)
qed

section \<open>Random and profiling policies\<close>

text \<open>The contract of the generator: \<open>randInt n\<close> returns a number up to \<open>n\<close>.\<close>

definition randInt_ok :: "('r \<Rightarrow> u64 \<Rightarrow> ('r \<times> u64) option) \<Rightarrow> bool" where
  "randInt_ok randInt = (\<forall>r m. \<exists>r' i. randInt r m = Some (r', i) \<and> i \<le> m)"

definition rand_ok :: "nat \<Rightarrow> 'r RandReplPolicy \<Rightarrow> bool" where
  "rand_ok k p = (length (rcandArray p) = k \<and> unat (rnumCands p) = k \<and> 0 < k)"

definition rand_recorded :: "nat \<Rightarrow> nat list \<Rightarrow> 'r RandReplPolicy \<Rightarrow> bool" where
  "rand_recorded k R p = (rand_ok k p \<and> unat (rcandIdx p) = length R \<and> length R \<le> k \<and> take (length R) (rcandArray p) = R)"

lemma rand_recordCandidate_step:
  assumes "rand_recorded k R p" "length R < k"
  shows "\<exists>p'. rand_recordCandidate p i = Some p' \<and> rand_recorded k (R @ [i]) p'"
proof -
  have idx: "unat (rcandIdx p) = length R" and len: "length (rcandArray p) = k" and tk: "take (length R) (rcandArray p) = R"
    and k: "k < 4294967296"
    using assms unat_u32_lt [of "rnumCands p"] by (simp_all add: rand_recorded_def rand_ok_def)
  have suc: "unat (rcandIdx p + 1) = Suc (length R)"
    using idx assms(2) k by (subst unat_add_no_wrap) simp_all
  have "take (Suc (length R)) ((rcandArray p)[length R := i]) = R @ [i]"
    using tk assms(2) len by (simp add: take_Suc_conv_app_nth)
  then show ?thesis
    using assms idx len suc by (simp add: rand_recordCandidate_def rand_recorded_def rand_ok_def)
qed

lemma rand_rank_mem:
  assumes "randInt_ok randInt" "rand_recorded k [] p" "length cands = k"
  shows "\<exists>p' c. rand_rank randInt p req cands = Some (p', c) \<and> c \<in> set cands \<and> rand_ok k p'"
proof -
  from run_all_prefix [of "rand_recorded k" cands rand_recordCandidate p] rand_recordCandidate_step [of k] assms(2,3)
  obtain q where q: "run_all rand_recordCandidate p cands = Some q" "rand_recorded k cands q" by blast
  obtain r idx where ri: "randInt (rrnd q) (ucast (rnumCands q - 1)) = Some (r, idx)" "idx \<le> ucast (rnumCands q - 1)"
    using assms(1) unfolding randInt_ok_def by blast
  have num: "unat (rnumCands q) = k" "0 < k" "length (rcandArray q) = k" "rcandArray q = cands" "unat (rcandIdx q) = k"
    using q(2) assms(3) by (auto simp: rand_recorded_def rand_ok_def)
  then have "rcandIdx q = rnumCands q" by (simp add: word_unat_eq_iff)
  have "unat (rnumCands q - 1) = k - 1"
    using num by (subst unat_sub_no_wrap) (simp_all add: word_le_nat_alt)
  moreover have "unat (ucast (rnumCands q - 1) :: u64) = unat (rnumCands q - 1)" by simp
  ultimately have le: "unat idx \<le> k - 1" using ri(2) by (simp add: word_le_nat_alt)
  moreover have "k < 2 ^ 32" using num(1) unat_u32_lt [of "rnumCands q"] by simp
  ultimately have "unat (ucast idx :: u32) = unat idx" by (intro unat_ucast_down) simp
  then have lt: "unat (ucast idx :: u32) < k" using le num(2) by simp
  have "rand_rank randInt p req cands = Some (q\<lparr>rrnd := r\<rparr>, cands ! unat (ucast idx :: u32))"
    using q(1) \<open>rcandIdx q = rnumCands q\<close> ri lt num by (simp add: rand_rank_def legacy_rank_def rand_getBestCandidate_def)
  then show ?thesis using q(2) lt assms(3) by (simp add: rand_recorded_def rand_ok_def)
qed

interpretation rand: repl_policy rand_update rand_replaced "rand_rank randInt" n k
  "\<lambda>p. rand_recorded k [] p \<and> randInt_ok randInt" "\<lambda>p. rand_ok k p \<and> randInt_ok randInt" "\<lambda>_. True" for randInt n k
proof unfold_locales
  fix p :: "'a RandReplPolicy" and req and cands :: "nat list"
  assume "rand_recorded k [] p \<and> randInt_ok randInt" "length cands = k"
  with rand_rank_mem [of randInt k p cands req]
  show "\<exists>s' c. rand_rank randInt p req cands = Some (s', c) \<and> c \<in> set cands \<and> rand_ok k s' \<and> randInt_ok randInt"
    by blast
qed (simp_all add: rand_update_def rand_replaced_def rand_recorded_def rand_ok_def)

lemma prof_readViol_total: "cycle < c_MAX (aread t) (awrite t) \<Longrightarrow> \<exists>b. prof_readViol t cycle = Some b"
  by (auto simp: prof_readViol_def less_max_iff_disj)

text \<open>The requests a profiling policy accepts.\<close>

definition prof_good :: "MemReq option \<Rightarrow> bool" where
  "prof_good r = (case r of None \<Rightarrow> False | Some q \<Rightarrow> rtype q = GETS \<or> rtype q = GETX)"

definition prof_ok :: "nat \<Rightarrow> ('t \<Rightarrow> bool) \<Rightarrow> 't ProfViol \<Rightarrow> bool" where
  "prof_ok n P p = (P (base p) \<and> length (accTimes p) = n)"

lemma prof_update_ok:
  assumes upd: "\<And>s lid. P s \<Longrightarrow> lid < n \<Longrightarrow> \<exists>s'. upd s lid r = Some s' \<and> P s'"
    and ok: "prof_ok n P p" "lid < n" "prof_good r"
  shows "\<exists>p'. prof_update upd p lid r = Some p' \<and> prof_ok n P p'"
proof -
  obtain q where q: "r = Some q" "rtype q = GETS \<or> rtype q = GETX"
    using ok(3) by (auto simp: prof_good_def split: option.splits)
  obtain b1 where b1: "upd (base p) lid (Some q) = Some b1" "P b1" using upd ok q(1) by (auto simp: prof_ok_def)
  obtain b2 where b2: "upd b1 lid (Some q) = Some b2" "P b2" using upd ok(2) b1(2) q(1) by auto
  show ?thesis
  proof (cases "rcycle q < c_MAX (aread (accTimes p ! lid)) (awrite (accTimes p ! lid))")
    case True
    with prof_readViol_total obtain v where "prof_readViol (accTimes p ! lid) (rcycle q) = Some v" by blast
    with True show ?thesis using ok b1 b2 q by (auto simp: prof_update_def prof_ok_def Let_def)
  next
    case False
    then show ?thesis using ok b1 b2 q by (auto simp: prof_update_def prof_ok_def Let_def)
  qed
qed

context repl_policy
begin

lemma prof_rank_ok:
  assumes "prof_ok n fresh p" "cands \<noteq> []" "length cands = k" "set cands \<subseteq> {..<n}"
  shows "\<exists>p' c. prof_rank rank p req cands = Some (p', c) \<and> c \<in> set cands \<and> prof_ok n ranked p'"
proof -
  obtain s' c where "rank (base p) req cands = Some (s', c)" "c \<in> set cands" "ranked s'"
    using rank_fresh [of "base p" cands req] assms by (auto simp: prof_ok_def)
  then show ?thesis using assms(1) by (simp add: prof_rank_def prof_ok_def)
qed

lemma prof_replaced_ok:
  assumes "prof_ok n ranked p" "lid < n"
  shows "\<exists>p'. prof_replaced replaced p lid = Some p' \<and> prof_ok n fresh p'"
proof -
  obtain s' where "replaced (base p) lid = Some s'" "fresh s'"
    using replaced_ranked [of "base p" lid] assms by (auto simp: prof_ok_def)
  then show ?thesis using assms by (simp add: prof_replaced_def prof_ok_def Let_def)
qed

end

interpretation prof_lru: repl_policy "prof_update lru_update" "prof_replaced lru_replaced" "prof_rank (lru_rank aw cc)" n k
  "prof_ok n (\<lambda>p. lru_ok n p \<and> view_ok cc n)" "prof_ok n (\<lambda>p. lru_ok n p \<and> view_ok cc n)" prof_good for aw cc n k
proof unfold_locales
  fix p lid req
  assume a: "prof_ok n (\<lambda>p. lru_ok n p \<and> view_ok cc n) p" "lid < n" "prof_good req"
  show "\<exists>s'. prof_update lru_update p lid req = Some s' \<and> prof_ok n (\<lambda>p. lru_ok n p \<and> view_ok cc n) s'"
    by (rule prof_update_ok [OF _ a]) (rule lru.update_fresh, simp_all)
qed (rule lru.prof_rank_ok lru.prof_replaced_ok; assumption)+

section \<open>Least frequently used\<close>

text \<open>The two keys that come before the frequency: validity, then whether the line is shared.\<close>

definition lfu_key :: "bool \<Rightarrow> u32 \<Rightarrow> nat" where
  "lfu_key v sh = (if v then 2 else 0) + (if sh > 0 then 1 else 0)"

definition line_key :: "cc_view \<Rightarrow> nat \<Rightarrow> nat" where
  "line_key cc lid = lfu_key (the (view_isValid cc lid)) (the (view_numSharers cc lid))"

definition lfu_recorded :: "nat \<Rightarrow> cc_view \<Rightarrow> nat list \<Rightarrow> LFUReplPolicy \<Rightarrow> bool" where
  "lfu_recorded n cc R p = (length (farray p) = n \<and> (fbestCandidate p = -1 \<longleftrightarrow> R = [])
     \<and> (R \<noteq> [] \<longrightarrow> (\<exists>b \<in> set R. fbestCandidate p = int b
            \<and> lfu_key (rvalid (fbestRank p)) (rsharers (fbestRank p)) = line_key cc b \<and> (\<forall>r \<in> set R. line_key cc b \<le> line_key cc r))))"

lemma lessThan_key:
  "Rank_lessThan r s t \<Longrightarrow> lfu_key (rvalid r) (rsharers r) \<le> lfu_key (rvalid s) (rsharers s)"
  "\<not> Rank_lessThan r s t \<Longrightarrow> lfu_key (rvalid s) (rsharers s) \<le> lfu_key (rvalid r) (rsharers r)"
  by (auto simp: Rank_lessThan_def lfu_key_def word_gt_0 split: if_splits)

lemma lfu_recordCandidate_step:
  assumes rec: "lfu_recorded n cc R p" and cc: "view_ok cc n" and i: "i < n"
  shows "\<exists>p'. lfu_recordCandidate cc p i = Some p' \<and> lfu_recorded n cc (R @ [i]) p'"
proof -
  obtain sh v where q: "view_numSharers cc i = Some sh" "view_isValid cc i = Some v"
    using cc i by (auto simp: view_ok_def)
  then have key: "line_key cc i = lfu_key v sh" by (simp add: line_key_def)
  have len: "length (farray p) = n" using rec by (simp add: lfu_recorded_def)
  let ?c = "\<lparr>lfuInfo = farray p ! i, rsharers = sh, rvalid = v\<rparr>"
  let ?new = "p\<lparr>fbestRank := ?c, fbestCandidate := int i\<rparr>"
  consider (first) "R = []" | (less) "R \<noteq> []" "Rank_lessThan ?c (fbestRank p) (ftimestamp p)"
    | (keep) "R \<noteq> []" "\<not> Rank_lessThan ?c (fbestRank p) (ftimestamp p)" by blast
  then show ?thesis
  proof cases
    case first
    then have "lfu_recordCandidate cc p i = Some ?new"
      using rec q i len by (simp add: lfu_recordCandidate_def lfu_recorded_def)
    then show ?thesis using first len key by (simp add: lfu_recorded_def)
  next
    case less
    then have "lfu_recordCandidate cc p i = Some ?new"
      using q i len by (simp add: lfu_recordCandidate_def)
    moreover have "lfu_key v sh \<le> line_key cc r" if "r \<in> set R" for r
      using lessThan_key(1) [OF less(2)] rec less(1) that by (fastforce simp: lfu_recorded_def)
    ultimately show ?thesis using len key by (simp add: lfu_recorded_def)
  next
    case keep
    have "fbestCandidate p \<noteq> -1" using rec keep(1) by (simp add: lfu_recorded_def)
    then have "lfu_recordCandidate cc p i = Some p"
      using keep q i len by (simp add: lfu_recordCandidate_def)
    moreover have "lfu_recorded n cc (R @ [i]) p"
      using lessThan_key(2) [OF keep(2)] rec keep(1) key by (auto simp: lfu_recorded_def)
    ultimately show ?thesis by blast
  qed
qed

lemma lfu_rank_key:
  assumes "length (farray p) = n" "fbestCandidate p = -1" "view_ok cc n" "set cands \<subseteq> {..<n}" "cands \<noteq> []"
  shows "\<exists>p' c. lfu_rank cc p req cands = Some (p', c) \<and> c \<in> set cands \<and> (\<forall>r \<in> set cands. line_key cc c \<le> line_key cc r)"
proof -
  have "\<exists>q. run_all (lfu_recordCandidate cc) p cands = Some q \<and> lfu_recorded n cc cands q"
    by (rule run_all_prefix, rule lfu_recordCandidate_step) (use assms in \<open>auto simp: lfu_recorded_def\<close>)
  then obtain q where q: "run_all (lfu_recordCandidate cc) p cands = Some q" "lfu_recorded n cc cands q" by blast
  then obtain b where "b \<in> set cands" "fbestCandidate q = int b" "\<forall>r \<in> set cands. line_key cc b \<le> line_key cc r"
    using assms(5) by (auto simp: lfu_recorded_def)
  then show ?thesis using q(1) by (simp add: lfu_rank_def legacy_rank_def lfu_getBestCandidate_def)
qed

section \<open>LRU against a history\<close>

datatype lru_event = Touch nat | Fill nat

definition lru_event :: "LRUReplPolicy \<Rightarrow> lru_event \<Rightarrow> LRUReplPolicy option" where
  "lru_event p e = (case e of Touch l \<Rightarrow> lru_update p l None | Fill l \<Rightarrow> lru_replaced p l)"

fun touches :: "lru_event list \<Rightarrow> nat" where
  "touches [] = 0"
| "touches (Touch m # h) = Suc (touches h)"
| "touches (Fill m # h) = touches h"

text \<open>The time of the last use of line \<open>l\<close>, newest event first; zero when it was not used since it was filled.\<close>

fun last_use :: "lru_event list \<Rightarrow> nat \<Rightarrow> nat" where
  "last_use [] l = 0"
| "last_use (Touch m # h) l = (if m = l then Suc (touches h) else last_use h l)"
| "last_use (Fill m # h) l = (if m = l then 0 else last_use h l)"

lemma touches_le: "touches h \<le> length h"
  by (induction h rule: touches.induct) auto

lemma last_use_le: "last_use h l \<le> touches h"
  by (induction h l rule: last_use.induct) auto

lemma lru_history:
  assumes "run_all lru_event (LRUReplPolicy_new n) h = Some p" "length h < 2 ^ 63"
  shows "unat (ltimestamp p) = Suc (touches (rev h)) \<and> length (larray p) = unat n
    \<and> (\<forall>l < unat n. unat (larray p ! l) = last_use (rev h) l)"
  using assms
proof (induction h arbitrary: p rule: rev_induct)
  case Nil
  then show ?case by (auto simp: LRUReplPolicy_new_def)
next
  case (snoc e h)
  then obtain q where q: "run_all lru_event (LRUReplPolicy_new n) h = Some q" "lru_event q e = Some p"
    by (auto simp: run_all_snoc elim!: bind_Some_elim)
  have IH: "unat (ltimestamp q) = Suc (touches (rev h))" "length (larray q) = unat n"
      "\<forall>l < unat n. unat (larray q ! l) = last_use (rev h) l"
    using snoc.IH [OF q(1)] snoc.prems(2) by auto
  have "Suc (touches (rev h)) < 2 ^ 63" using touches_le [of "rev h"] snoc.prems(2) by simp
  then have suc: "unat (ltimestamp q + 1) = Suc (Suc (touches (rev h)))"
    using IH(1) by (subst unat_add_no_wrap) simp_all
  show ?case
  proof (cases e)
    case (Touch m)
    then have "m < unat n" "p = q\<lparr>larray := (larray q)[m := ltimestamp q], ltimestamp := ltimestamp q + 1\<rparr>"
      using q(2) IH(2) by (auto simp: lru_event_def lru_update_def elim!: bind_Some_elim)
    then show ?thesis using IH suc Touch by (simp add: nth_list_update)
  next
    case (Fill m)
    then have "m < unat n" "p = q\<lparr>larray := (larray q)[m := 0]\<rparr>"
      using q(2) IH(2) by (auto simp: lru_event_def lru_replaced_def elim!: bind_Some_elim)
    then show ?thesis using IH Fill by (simp add: nth_list_update)
  qed
qed

text \<open>The victim of the rank loop has the least score, as the loop sees it: cut to 32 bits.\<close>

lemma lru_rankLoop_least:
  assumes "\<forall>i \<in> set cands. lru_score aw cc p i = Some (sc i)"
    and "lru_rankLoop aw cc p cands b s = Some c"
  shows "(c = b \<and> (\<forall>i \<in> set cands. s \<le> score32 (sc i)))
    \<or> (c \<in> set cands \<and> score32 (sc c) < s \<and> (\<forall>i \<in> set cands. score32 (sc c) \<le> score32 (sc i)))"
  using assms
proof (induction cands arbitrary: b s)
  case Nil
  then show ?case by simp
next
  case (Cons i cs)
  have sc: "lru_score aw cc p i = Some (sc i)" and cs: "\<forall>i \<in> set cs. lru_score aw cc p i = Some (sc i)"
    using Cons.prems(1) by auto
  have run: "lru_rankLoop aw cc p cs (if score32 (sc i) < s then i else b) (c_MIN (score32 (sc i)) s) = Some c"
    using Cons.prems(2) unfolding lru_rankLoop_step [OF sc] .
  show ?case
  proof (cases "score32 (sc i) < s")
    case True
    then have "c_MIN (score32 (sc i)) s = score32 (sc i)" by simp
    with Cons.IH [OF cs run] True show ?thesis by auto
  next
    case False
    then have "c_MIN (score32 (sc i)) s = s" by simp
    with Cons.IH [OF cs run] False show ?thesis by auto
  qed
qed

lemma lru_rank_least:
  assumes "\<forall>i \<in> set cands. lru_score aw cc p i = Some (sc i)" "lru_rank aw cc p req cands = Some (p', c)" "cands \<noteq> []"
  shows "c \<in> set cands" "\<forall>i \<in> set cands. score32 (sc c) \<le> score32 (sc i)"
proof -
  have run: "lru_rankLoop aw cc p cands u32_m1 (- 1) = Some c"
    using assms(2) by (auto simp: lru_rank_def elim!: bind_Some_elim)
  have "score32 (sc i) < - 1" for i unfolding score32_def by (rule ucast_u32_less)
  then have "\<not> (\<forall>i \<in> set cands. - 1 \<le> score32 (sc i))" using assms(3) by (cases cands) (auto simp: not_le)
  with lru_rankLoop_least [OF assms(1) run]
  show "c \<in> set cands" "\<forall>i \<in> set cands. score32 (sc c) \<le> score32 (sc i)" by auto
qed

lemma unat_score32: "unat (score32 sc) = unat sc mod 2 ^ 32"
  by (simp add: score32_def unsigned_ucast_eq take_bit_eq_mod unat_word_ariths)

text \<open>Without sharer awareness the score of a line is its last use, or zero when the line is invalid.\<close>

definition lru_key :: "cc_view \<Rightarrow> lru_event list \<Rightarrow> nat \<Rightarrow> nat" where
  "lru_key cc h l = (if the (view_isValid cc l) then last_use (rev h) l else 0)"

lemma lru_history_score:
  assumes "run_all lru_event (LRUReplPolicy_new n) h = Some p" "length h < 2 ^ 63" "view_ok cc (unat n)" "l < unat n"
  shows "\<exists>sc. lru_score False cc p l = Some sc \<and> unat sc = lru_key cc h l"
proof -
  have "length (larray p) = unat n" "unat (larray p ! l) = last_use (rev h) l"
    using lru_history [OF assms(1,2)] assms(4) by auto
  then show ?thesis using assms(3,4) by (auto simp: lru_score_def view_ok_def lru_key_def)
qed

lemma lru_update_clock: "lru_update p lid req = Some p' \<Longrightarrow> ltimestamp p' = ltimestamp p + 1"
  by (auto simp: lru_update_def elim!: bind_Some_elim)

section \<open>Properties\<close>

text \<open>
  Claim C12.  The policy LRU (without sharer awareness) evicts a least recently used line: after any
  history of fewer than 2^32 updates and replacements from a new policy, ranking any non-empty set
  of lines returns one of them, an invalid line if there is one and otherwise one whose last
  update is the oldest; the policy itself does not change.
\<close>

theorem lru_evicts_oldest:
  assumes "run_all lru_event (LRUReplPolicy_new n) h = Some p" "length h < 2 ^ 32"
    and "view_ok cc (unat n)" "set cands \<subseteq> {..<unat n}" "cands \<noteq> []"
  shows "\<exists>c. lru_rank False cc p req cands = Some (p, c) \<and> c \<in> set cands
    \<and> (\<forall>i \<in> set cands. lru_key cc h c \<le> lru_key cc h i)"
proof -
  have "length h < 2 ^ 63" using assms(2) by simp
  note score = lru_history_score [OF assms(1) this assms(3)]
  define sc where "sc i = the (lru_score False cc p i)" for i
  have sc: "\<forall>i \<in> set cands. lru_score False cc p i = Some (sc i)" "\<forall>i \<in> set cands. unat (sc i) = lru_key cc h i"
    using score assms(4) unfolding sc_def by (fastforce dest: subsetD)+
  have small: "lru_key cc h i < 2 ^ 32" for i
    using last_use_le [of "rev h" i] touches_le [of "rev h"] assms(2) by (simp add: lru_key_def)
  have key: "unat (score32 (sc i)) = lru_key cc h i" if "i \<in> set cands" for i
    using sc(2) that small by (simp add: unat_score32)
  have "lru_ok (unat n) p" using lru_history [OF assms(1) \<open>length h < 2 ^ 63\<close>] by (simp add: lru_ok_def)
  from lru_rank_mem [OF this assms(3,4,5)] obtain c where c: "lru_rank False cc p req cands = Some (p, c)" by blast
  from lru_rank_least [OF sc(1) c assms(5)] have "c \<in> set cands" "\<forall>i \<in> set cands. score32 (sc c) \<le> score32 (sc i)" .
  then show ?thesis using c key by (auto simp: word_le_nat_alt)
qed

theorem lru_evicts_oldest_witness:
  "\<exists>p c. run_all lru_event (LRUReplPolicy_new 3) [Touch 0, Touch 1, Fill 2, Touch 2, Touch 0] = Some p
    \<and> lru_rank False (\<lambda>_. Some 0, \<lambda>_. Some True) p None [0, 1, 2] = Some (p, c) \<and> c = 1"
proof -
  let ?cc = "(\<lambda>_. Some 0, \<lambda>_. Some True) :: cc_view" and ?h = "[Touch 0, Touch 1, Fill 2, Touch 2, Touch 0]"
  have "run_all lru_event (LRUReplPolicy_new 3) ?h = Some \<lparr>ltimestamp = 5, larray = [4, 2, 3], lnumLines = 3\<rparr>"
    by code_simp
  then obtain p where p: "run_all lru_event (LRUReplPolicy_new 3) ?h = Some p" by blast
  have "view_ok ?cc (unat (3 :: u32))" by (simp add: view_ok_def view_numSharers_def view_isValid_def)
  moreover have "set [0, 1, 2] \<subseteq> {..<unat (3 :: u32)}" by auto
  ultimately obtain c where "lru_rank False ?cc p None [0, 1, 2] = Some (p, c)" "c \<in> set [0, 1, 2]"
      "\<forall>i \<in> set [0, 1, 2]. lru_key ?cc ?h c \<le> lru_key ?cc ?h i"
    using lru_evicts_oldest [OF p, of ?cc "[0, 1, 2]" None] by auto
  then show ?thesis using p by (auto simp: lru_key_def view_isValid_def)
qed

lemma touches_replicate: "touches (replicate m (Touch l) @ h) = m + touches h"
  by (induction m) auto

lemma last_use_replicate:
  "last_use (replicate m (Touch l) @ h) i = (if i = l \<and> 0 < m then m + touches h else last_use h i)"
  by (induction m) (auto simp: touches_replicate)

lemma lru_event_runs:
  "length (larray p) = k \<Longrightarrow> l < k \<Longrightarrow> \<exists>q. run_all lru_event p (replicate m (Touch l)) = Some q \<and> length (larray q) = k"
proof (induction m arbitrary: p)
  case 0
  then show ?case by simp
next
  case (Suc m)
  let ?q = "p\<lparr>larray := (larray p)[l := ltimestamp p], ltimestamp := ltimestamp p + 1\<rparr>"
  have "lru_event p (Touch l) = Some ?q" using Suc.prems by (simp add: lru_event_def lru_update_def)
  then show ?case using Suc.IH [of ?q] Suc.prems by simp
qed

text \<open>
  Claim C13.  The bound of 2^32 updates is needed, because \<open>rank\<close> assigns the 64-bit score to a
  32-bit variable: there is a history of 2^32 updates of a two-line policy after which the rank
  picks the line used last and keeps the one that was used first and never again.
\<close>

theorem lru_wrap_evicts_newest:
  "\<exists>h p. run_all lru_event (LRUReplPolicy_new 2) h = Some p \<and> last_use (rev h) 0 < last_use (rev h) 1
    \<and> lru_rank False (\<lambda>_. Some 0, \<lambda>_. Some True) p None [0, 1] = Some (p, 1)"
proof -
  let ?cc = "(\<lambda>_. Some 0, \<lambda>_. Some True) :: cc_view"
  define m :: nat where "m = 2 ^ 32 - 1"
  let ?h = "Touch 0 # replicate m (Touch 1)"
  have "lru_event (LRUReplPolicy_new 2) (Touch 0) = Some \<lparr>ltimestamp = 2, larray = [1, 0], lnumLines = 2\<rparr>"
    by code_simp
  then obtain p where p: "run_all lru_event (LRUReplPolicy_new 2) ?h = Some p"
    using lru_event_runs [of "\<lparr>ltimestamp = 2, larray = [1, 0], lnumLines = 2\<rparr>" 2 1 m] by auto
  have len: "length ?h < 2 ^ 63" by (simp add: m_def)
  have rev: "rev ?h = replicate m (Touch 1) @ [Touch 0]" by simp
  have uses: "last_use (rev ?h) 0 = 1" "last_use (rev ?h) 1 = 2 ^ 32"
    unfolding rev last_use_replicate by (simp_all add: m_def)
  have ok: "view_ok ?cc (unat (2 :: u32))" by (simp add: view_ok_def view_numSharers_def view_isValid_def)
  obtain s0 where s0: "lru_score False ?cc p 0 = Some s0" "unat s0 = 1"
    using lru_history_score [OF p len ok, of 0] uses(1) by (auto simp: lru_key_def view_isValid_def)
  obtain s1 where s1: "lru_score False ?cc p 1 = Some s1" "unat s1 = 2 ^ 32"
    using lru_history_score [OF p len ok, of 1] uses(2) by (auto simp: lru_key_def view_isValid_def)
  have cut: "score32 s0 = 1" "score32 s1 = 0" using s0(2) s1(2) by (simp_all add: word_unat_eq_iff unat_score32)
  have "lru_ok 2 p" using lru_history [OF p len] by (simp add: lru_ok_def)
  moreover have "view_ok ?cc 2" using ok by simp
  ultimately obtain c where c: "lru_rank False ?cc p None [0, 1] = Some (p, c)"
    using lru_rank_mem [of 2 p ?cc "[0, 1]" False None] by auto
  have sc: "\<forall>i \<in> set [0, 1]. lru_score False ?cc p i = Some (if i = 0 then s0 else s1)" using s0(1) s1(1) by simp
  have "c \<in> {0, 1}" "c \<noteq> 0" using lru_rank_least [OF sc c] cut by auto
  then have "lru_rank False ?cc p None [0, 1] = Some (p, 1)" using c by auto
  moreover have "last_use (rev ?h) 0 < last_use (rev ?h) 1" unfolding uses by simp
  ultimately show ?thesis using p by blast
qed

text \<open>
  Claim C14.  The policy NRU, ready for a ranking of exactly its number of candidates, returns one
  of the candidates, and no candidate has a smaller age value.
\<close>

theorem nru_evicts_not_recent:
  assumes "nru_fresh n k p" "cands \<noteq> []" "length cands = k" "set cands \<subseteq> {..<n}"
  shows "\<exists>p' c. nru_rank p req cands = Some (p', c) \<and> c \<in> set cands \<and> (\<forall>i \<in> set cands. narray p ! c \<le> narray p ! i)"
  using nru_rank_ok [OF assms, of req] by blast

theorem nru_evicts_not_recent_witness:
  "\<exists>p p' c. run_all (\<lambda>p l. nru_update p l None) (NRUReplPolicy_new 8 3) [0, 2, 0] = Some p
    \<and> nru_rank p None [0, 1, 2] = Some (p', c) \<and> c = 1"
proof -
  let ?p = "\<lparr>narray = [2, 0, 2, 0, 0, 0, 0, 0], ncandArray = [0, 0, 0], nnumLines = 8, nnumCands = 3, youngLines = 2,
    ncandVal = push_bit 20 1, ncandIdx = 0\<rparr>"
  have run: "run_all (\<lambda>p l. nru_update p l None) (NRUReplPolicy_new 8 3) [0, 2, 0] = Some ?p"
    by code_simp
  have "nru_fresh 8 3 ?p"
  proof -
    have "\<forall>x \<in> set (narray ?p). x < push_bit 20 1" by simp
    then have "\<forall>i < length (narray ?p). narray ?p ! i < push_bit 20 1" using nth_mem by blast
    then show ?thesis by (simp add: nru_fresh_def nru_ok_def)
  qed
  from nru_evicts_not_recent [OF this, of "[0, 1, 2]" None]
  obtain p' c where "nru_rank ?p None [0, 1, 2] = Some (p', c)" "c \<in> set [0, 1, 2]"
      "\<forall>i \<in> set [0, 1, 2]. narray ?p ! c \<le> narray ?p ! i" by auto
  then show ?thesis using run by (auto simp: word_le_nat_alt)
qed

text \<open>
  The policy LFU, ready for a ranking, returns a candidate of the lowest class: an
  invalid line if there is one, and among lines of equal validity one without sharers if there is one.
\<close>

theorem lfu_prefers_invalid_unshared:
  assumes "length (farray p) = n" "fbestCandidate p = -1" "view_ok cc n" "set cands \<subseteq> {..<n}" "cands \<noteq> []"
  shows "\<exists>p' c. lfu_rank cc p req cands = Some (p', c) \<and> c \<in> set cands \<and> (\<forall>i \<in> set cands. line_key cc c \<le> line_key cc i)"
  by (rule lfu_rank_key [OF assms])

theorem lfu_prefers_invalid_unshared_witness:
  "\<exists>p' c. lfu_rank (\<lambda>l. Some (if l = 0 then 1 else 0), \<lambda>l. Some (l \<noteq> 2)) (LFUReplPolicy_new 3) None [0, 1, 2] = Some (p', c) \<and> c = 2"
proof -
  let ?cc = "(\<lambda>l. Some (if l = 0 then 1 else 0), \<lambda>l. Some (l \<noteq> 2)) :: cc_view"
  have "view_ok ?cc 3" by (simp add: view_ok_def view_numSharers_def view_isValid_def)
  then obtain p' c where "lfu_rank ?cc (LFUReplPolicy_new 3) None [0, 1, 2] = Some (p', c)" "c \<in> set [0, 1, 2]"
      "\<forall>i \<in> set [0, 1, 2]. line_key ?cc c \<le> line_key ?cc i"
    using lfu_prefers_invalid_unshared [of "LFUReplPolicy_new 3" 3 ?cc "[0, 1, 2]" None]
    by (auto simp: LFUReplPolicy_new_def)
  then show ?thesis by (auto simp: line_key_def lfu_key_def view_isValid_def view_numSharers_def)
qed

text \<open>
   The profiling policy calls the update of the policy it extends twice: over LRU each
  update advances the clock by two, for every request it accepts.
\<close>

theorem prof_updates_twice:
  assumes "prof_update lru_update p lid req = Some p'"
  shows "ltimestamp (base p') = ltimestamp (base p) + 2"
proof -
  obtain b1 b2 where "lru_update (base p) lid req = Some b1" "lru_update b1 lid req = Some b2" "base p' = b2"
    using assms by (auto simp: prof_update_def Let_def elim!: bind_Some_elim split: if_splits)
  then show ?thesis by (simp add: lru_update_clock)
qed

theorem prof_updates_twice_witness:
  "\<exists>p'. prof_update lru_update (ProfViol_init (LRUReplPolicy_new 1) 1) 0 (Some \<lparr>lineAddr = 5, rtype = GETS, childId = 0,
       rstate = I, rcycle = 7, initialState = I, srcId = 0, flags = 0\<rparr>) = Some p' \<and> ltimestamp (base p') = 3"
proof -
  let ?r = "\<lparr>lineAddr = 5, rtype = GETS, childId = 0, rstate = I, rcycle = 7, initialState = I, srcId = 0, flags = 0\<rparr> :: MemReq"
  obtain p' where p': "prof_update lru_update (ProfViol_init (LRUReplPolicy_new 1) 1) 0 (Some ?r) = Some p'"
    by (simp add: prof_update_def ProfViol_init_def lru_update_def LRUReplPolicy_new_def)
  from prof_updates_twice [OF this] show ?thesis
    using p' by (simp add: ProfViol_init_def LRUReplPolicy_new_def)
qed

end
