(* ===== verification/Hash.thy ===== *)
theory Hash
  imports MTRand
begin

text \<open>
  The hash families of \<open>src/src/hash.h\<close> and \<open>src/src/hash.cpp\<close>: the H3 family with its matrix of random
  words, the memoizing SHA-1 family over the digest function of PolarSSL, which is a parameter
  here, and the identity family.
\<close>

type_synonym hash_fn = "u32 \<Rightarrow> u64 \<Rightarrow> u64 option"

section \<open>H3HashFamily\<close>

record H3HashFamily =
  numFuncs :: u32
  resShift :: u32
  hMatrix :: "u64 list"

definition h3_shift :: "u32 \<Rightarrow> u32 option" where
  "h3_shift outputBits =
     (if outputBits \<le> 8 then Some 3
      else if outputBits \<le> 16 then Some 2
      else if outputBits \<le> 32 then Some 1
      else if outputBits \<le> 64 then Some 0
      else None)"

definition h3_words :: "u32 \<Rightarrow> nat" where
  "h3_words shift = drop_bit (unat shift) 64"

text \<open>A matrix word: 64 draws, one bit each.  Words are drawn and stored in index order.\<close>

fun h3_word :: "nat \<Rightarrow> MTRand \<Rightarrow> u64 \<Rightarrow> (MTRand \<times> u64) option" where
  "h3_word 0 g val = Some (g, val)"
| "h3_word (Suc n) g val = do {
     (g', r) \<leftarrow> mt_randInt g;
     h3_word n g' (if r mod 2 = 0 then push_bit 1 val + 1 else push_bit 1 val)
   }"

fun h3_fill :: "nat \<Rightarrow> nat \<Rightarrow> MTRand \<Rightarrow> u64 list \<Rightarrow> u64 list option" where
  "h3_fill 0 i g m = Some m"
| "h3_fill (Suc n) i g m = do {
     (g', v) \<leftarrow> h3_word 64 g 0;
     m' \<leftarrow> aset m i v;
     h3_fill n (i + 1) g' m'
   }"

text \<open>The size of the matrix is a 32-bit product.\<close>

definition H3HashFamily_new :: "u32 \<Rightarrow> u32 \<Rightarrow> u64 \<Rightarrow> H3HashFamily option" where
  "H3HashFamily_new numFunctions outputBits randSeed = do {
     g \<leftarrow> MTRand_new randSeed;
     s \<leftarrow> h3_shift outputBits;
     let size = unat (of_nat (h3_words s) * numFunctions :: u32);
     m \<leftarrow> h3_fill (unat numFunctions * h3_words s) 0 g (replicate size 0);
     Some \<lparr>numFuncs = numFunctions, resShift = s, hMatrix = m\<rparr>
   }"

definition rotl :: "nat \<Rightarrow> u64 \<Rightarrow> u64" where
  "rotl k x = push_bit k x OR drop_bit (64 - k) x"

text \<open>One round of the unrolled loop, over the eight words from \<open>base\<close>.\<close>

definition h3_round :: "u64 list \<Rightarrow> u64 \<Rightarrow> nat \<Rightarrow> u64 \<Rightarrow> u64 option" where
  "h3_round m val b res = do {
     m0 \<leftarrow> aget m b; m1 \<leftarrow> aget m (b + 1); m2 \<leftarrow> aget m (b + 2); m3 \<leftarrow> aget m (b + 3);
     m4 \<leftarrow> aget m (b + 4); m5 \<leftarrow> aget m (b + 5); m6 \<leftarrow> aget m (b + 6); m7 \<leftarrow> aget m (b + 7);
     let res = res XOR ((val AND m0) XOR rotl 1 (val AND m1) XOR rotl 2 (val AND m2) XOR rotl 3 (val AND m3));
     let res = res XOR (rotl 4 (val AND m4) XOR rotl 5 (val AND m5) XOR rotl 6 (val AND m6) XOR rotl 7 (val AND m7));
     Some (rotl 8 res)
   }"

fun h3_rounds :: "nat \<Rightarrow> u64 list \<Rightarrow> u64 \<Rightarrow> nat \<Rightarrow> u64 \<Rightarrow> u64 option" where
  "h3_rounds 0 m val b res = Some res"
| "h3_rounds (Suc n) m val b res = do {
     res' \<leftarrow> h3_round m val b res;
     h3_rounds n m val (b + 8) res'
   }"

definition h3_fold :: "u32 \<Rightarrow> u64 \<Rightarrow> u64" where
  "h3_fold shift res =
     (if shift = 1 then drop_bit 32 res XOR res
      else if shift = 2 then (let r = drop_bit 32 res XOR res in drop_bit 16 r XOR r)
      else if shift = 3 then (let r = drop_bit 32 res XOR res; r = drop_bit 16 r XOR r in drop_bit 8 r XOR r)
      else res)"

text \<open>\<open>base\<close> is a 32-bit sum in the code; \<open>id << (6 - resShift)\<close> wraps.\<close>

definition h3_hash :: "H3HashFamily \<Rightarrow> hash_fn" where
  "h3_hash h fid val = do {
     _ \<leftarrow> require (fid < numFuncs h);
     let base = unat (push_bit (6 - unat (resShift h)) fid);
     res \<leftarrow> h3_rounds (h3_words (resShift h) div 8) (hMatrix h) val base 0;
     Some (h3_fold (resShift h) res)
   }"

text \<open>The simpler code quoted in the comment above \<open>hash\<close>, for a 64-bit hash.\<close>

fun h3_ref :: "nat \<Rightarrow> u64 list \<Rightarrow> u64 \<Rightarrow> nat \<Rightarrow> u64 \<Rightarrow> u64 option" where
  "h3_ref 0 m val b res = Some res"
| "h3_ref (Suc n) m val b res = do {
     w \<leftarrow> aget m b;
     h3_ref n m val (b + 1) (rotl 1 (res XOR (val AND w)))
   }"

section \<open>SHA1HashFamily and IdHashFamily\<close>

text \<open>\<open>sha1\<close> maps a buffer of sixteen words to the five 32-bit words of the digest.\<close>

record SHA1HashFamily =
  snumFuncs :: nat
  numPasses :: nat
  memoizedVal :: u64
  memoizedHashes :: "u32 list"

definition SHA1HashFamily_new :: "nat \<Rightarrow> SHA1HashFamily" where
  "SHA1HashFamily_new n =
     \<lparr>snumFuncs = n, numPasses = n div 5 + 1, memoizedVal = 0, memoizedHashes = replicate ((n div 5 + 1) * 5) 0\<rparr>"

definition sha_xor :: "u64 list \<Rightarrow> u32 list \<Rightarrow> nat \<Rightarrow> u64 list" where
  "sha_xor buf mh i =
     map (\<lambda>j. if j < 5 then buf ! j XOR ucast (mh ! ((i - 1) * 5 + j)) else buf ! j) [0..<length buf]"

text \<open>The passes \<open>i, i + 1, ...\<close>, \<open>n\<close> of them; each writes its five words of \<open>memoizedHashes\<close>.\<close>

fun sha_passes :: "(u64 list \<Rightarrow> u32 list) \<Rightarrow> nat \<Rightarrow> nat \<Rightarrow> u64 list \<Rightarrow> u32 list \<Rightarrow> u32 list" where
  "sha_passes sha1 0 i buf mh = mh"
| "sha_passes sha1 (Suc n) i buf mh =
     (let buf' = (if i > 0 then sha_xor buf mh i else buf)
      in sha_passes sha1 n (i + 1) buf' (take (i * 5) mh @ sha1 buf' @ drop (i * 5 + 5) mh))"

definition sha_hash :: "(u64 list \<Rightarrow> u32 list) \<Rightarrow> SHA1HashFamily \<Rightarrow> u32 \<Rightarrow> u64 \<Rightarrow> (SHA1HashFamily \<times> u64) option" where
  "sha_hash sha1 h fid val = do {
     _ \<leftarrow> require (unat fid < snumFuncs h);
     if val = memoizedVal h then do {
       x \<leftarrow> aget (memoizedHashes h) (unat fid);
       Some (h, ucast x)
     }
     else do {
       let mh = sha_passes sha1 (numPasses h) 0 (replicate 16 val) (memoizedHashes h);
       x \<leftarrow> aget mh (unat fid);
       Some (h\<lparr>memoizedHashes := mh, memoizedVal := val\<rparr>, ucast x)
     }
   }"

definition id_hash :: hash_fn where
  "id_hash fid val = Some val"

section \<open>H3 is total on the families its constructor builds\<close>

definition h3_ok :: "H3HashFamily \<Rightarrow> bool" where
  "h3_ok h = (resShift h \<le> 3 \<and> length (hMatrix h) = unat (numFuncs h) * h3_words (resShift h)
     \<and> unat (numFuncs h) * h3_words (resShift h) < 2 ^ 32)"

lemma h3_word_total: "mt_ok g \<Longrightarrow> \<exists>g' v. h3_word n g val = Some (g', v) \<and> mt_ok g'"
proof (induction n arbitrary: g val)
  case 0
  then show ?case by simp
next
  case (Suc n)
  obtain g' r where "mt_randInt g = Some (g', r)" "mt_ok g'" using mt_randInt_ok [OF Suc.prems] by blast
  then show ?case using Suc.IH by simp
qed

lemma h3_fill_total:
  "mt_ok g \<Longrightarrow> i + n \<le> length m \<Longrightarrow> \<exists>m'. h3_fill n i g m = Some m' \<and> length m' = length m"
proof (induction n arbitrary: i g m)
  case 0
  then show ?case by simp
next
  case (Suc n)
  obtain g' v where "h3_word 64 g 0 = Some (g', v)" "mt_ok g'" using h3_word_total [OF Suc.prems(1)] by blast
  then show ?case using Suc.IH [of g' "i + 1" "m[i := v]"] Suc.prems(2) by simp
qed

lemma h3_words_cases: "s \<le> 3 \<Longrightarrow> (s = 0 \<and> h3_words s = 64) \<or> (s = 1 \<and> h3_words s = 32) \<or> (s = 2 \<and> h3_words s = 16) \<or> (s = 3 \<and> h3_words s = 8)"
proof -
  assume "s \<le> 3"
  then have "unat s \<le> 3" by (simp add: word_le_nat_alt)
  then have "unat s = 0 \<or> unat s = 1 \<or> unat s = 2 \<or> unat s = 3" by linarith
  then have "s = 0 \<or> s = 1 \<or> s = 2 \<or> s = 3" by (auto simp: word_unat_eq_iff)
  then show ?thesis by (auto simp: h3_words_def drop_bit_nat_def)
qed

lemma H3HashFamily_new_ok:
  assumes "outputBits \<le> 64" "unat numFunctions < 2 ^ 26"
  shows "\<exists>h. H3HashFamily_new numFunctions outputBits seed = Some h \<and> h3_ok h \<and> numFuncs h = numFunctions"
proof -
  obtain g where g: "MTRand_new seed = Some g" "mt_ok g" using MTRand_new_ok by blast
  obtain s where s: "h3_shift outputBits = Some s" using assms(1)
    by (cases "h3_shift outputBits") (auto simp: h3_shift_def split: if_splits)
  then have s3: "s \<le> 3" by (auto simp: h3_shift_def split: if_splits)
  have w: "h3_words s \<le> 64" using h3_words_cases [OF s3] by auto
  have lt: "h3_words s * unat numFunctions < 2 ^ 32"
  proof -
    have "h3_words s * unat numFunctions \<le> 64 * unat numFunctions" using w by (rule mult_le_mono1)
    also have "64 * unat numFunctions < 64 * 2 ^ 26" using assms(2) by linarith
    finally show ?thesis by simp
  qed
  have "unat (of_nat (h3_words s) * numFunctions :: u32) = h3_words s * unat numFunctions"
    using lt w by (simp add: unat_word_ariths unat_of_nat take_bit_nat_eq_self)
  then have size: "unat (of_nat (h3_words s) * numFunctions :: u32) = unat numFunctions * h3_words s"
    by (simp add: mult.commute)
  obtain m where "h3_fill (unat numFunctions * h3_words s) 0 g (replicate (unat numFunctions * h3_words s) 0) = Some m"
      "length m = unat numFunctions * h3_words s"
    using h3_fill_total [OF g(2), of 0 "unat numFunctions * h3_words s" "replicate (unat numFunctions * h3_words s) 0"] by auto
  moreover have "unat numFunctions * h3_words s < 2 ^ 32" using lt by (simp add: mult.commute)
  ultimately show ?thesis unfolding H3HashFamily_new_def g(1) s Let_def size Option.bind.bind_lunit
    using s3 by (simp add: h3_ok_def)
qed

lemma h3_round_total: "b + 8 \<le> length m \<Longrightarrow> \<exists>r. h3_round m val b res = Some r"
  by (simp add: h3_round_def Let_def)

lemma h3_rounds_total: "b + 8 * n \<le> length m \<Longrightarrow> \<exists>r. h3_rounds n m val b res = Some r"
proof (induction n arbitrary: b res)
  case 0
  then show ?case by simp
next
  case (Suc n)
  obtain r where "h3_round m val b res = Some r" using h3_round_total [of b m] Suc.prems by auto
  then show ?case using Suc.IH [of "b + 8"] Suc.prems by simp
qed

text \<open>The words of function \<open>fid\<close> are the \<open>fid\<close>-th block of the matrix.\<close>

lemma h3_base:
  assumes "h3_ok h" "fid < numFuncs h"
  shows "unat (push_bit (6 - unat (resShift h)) fid) = unat fid * h3_words (resShift h)"
    "unat fid * h3_words (resShift h) + h3_words (resShift h) \<le> length (hMatrix h)"
proof -
  let ?w = "h3_words (resShift h)"
  have s: "resShift h \<le> 3" using assms(1) by (simp add: h3_ok_def)
  have "Suc (unat fid) * ?w \<le> unat (numFuncs h) * ?w"
    using assms(2) by (intro mult_le_mono1) (simp add: word_less_nat_alt)
  then show le: "unat fid * ?w + ?w \<le> length (hMatrix h)" using assms(1) by (simp add: h3_ok_def)
  have w: "?w = 2 ^ (6 - unat (resShift h))" using h3_words_cases [OF s] by auto
  have "unat fid * ?w < 2 ^ 32"
    using le assms(1) by (simp add: h3_ok_def)
  then show "unat (push_bit (6 - unat (resShift h)) fid) = unat fid * ?w"
    unfolding w by (simp add: unsigned_push_bit_eq take_bit_nat_eq_self push_bit_nat_def)
qed

lemma h3_hash_total:
  assumes "h3_ok h" "fid < numFuncs h"
  shows "\<exists>r. h3_hash h fid val = Some r"
proof -
  have "h3_words (resShift h) = 8 * (h3_words (resShift h) div 8)"
    using h3_words_cases [of "resShift h"] assms(1) by (auto simp: h3_ok_def)
  with h3_base [OF assms] h3_rounds_total [of "unat fid * h3_words (resShift h)" "h3_words (resShift h) div 8" "hMatrix h" val 0]
  obtain r where "h3_rounds (h3_words (resShift h) div 8) (hMatrix h) val (unat (push_bit (6 - unat (resShift h)) fid)) 0 = Some r"
    by auto
  then show ?thesis using assms(2) by (simp add: h3_hash_def Let_def)
qed

section \<open>H3 is linear over exclusive or\<close>

lemma bit_rotl: "k \<le> 64 \<Longrightarrow> n < 64 \<Longrightarrow> bit (rotl k x) n = bit x (if n < k then 64 + n - k else n - k)"
proof -
  assume "k \<le> 64" "n < 64"
  moreover have "\<not> bit x (64 - k + n)" if "k \<le> n"
    using that \<open>k \<le> 64\<close> bit_imp_le_length [of x "64 - k + n"] by auto
  ultimately show ?thesis by (auto simp: rotl_def bit_simps)
qed

lemma rotl_xor: "k \<le> 64 \<Longrightarrow> rotl k (a XOR b) = rotl k a XOR rotl k b"
  by (intro bit_word_eqI) (simp add: bit_rotl bit_simps)

lemma and_xor_left: "(a XOR b) AND (m :: u64) = (a AND m) XOR (b AND m)"
  by (intro bit_word_eqI) (auto simp: bit_simps)

lemma drop_bit_xor64: "drop_bit k (a XOR b :: u64) = drop_bit k a XOR drop_bit k b"
  by (intro bit_word_eqI) (simp add: bit_simps)

lemma h3_round_xor:
  assumes "h3_round m a k ra = Some x" "h3_round m b k rb = Some y"
  shows "h3_round m (a XOR b) k (ra XOR rb) = Some (x XOR y)"
proof -
  have len: "k + 7 < length m" using assms(1) by (auto simp: h3_round_def elim!: bind_Some_elim)
  then show ?thesis using assms
    by (auto simp: h3_round_def Let_def rotl_xor and_xor_left ac_simps)
qed

lemma h3_rounds_xor:
  assumes "h3_rounds n m a k ra = Some x" "h3_rounds n m b k rb = Some y"
  shows "h3_rounds n m (a XOR b) k (ra XOR rb) = Some (x XOR y)"
  using assms
proof (induction n arbitrary: k ra rb)
  case 0
  then show ?case by simp
next
  case (Suc n)
  then obtain ra' rb' where "h3_round m a k ra = Some ra'" "h3_round m b k rb = Some rb'"
      "h3_rounds n m a (k + 8) ra' = Some x" "h3_rounds n m b (k + 8) rb' = Some y"
    by (auto elim!: bind_Some_elim)
  then show ?case using Suc.IH h3_round_xor by simp
qed

lemma h3_fold_xor: "h3_fold s (a XOR b) = h3_fold s a XOR h3_fold s b"
  by (simp add: h3_fold_def Let_def drop_bit_xor64 ac_simps)

section \<open>SHA-1 families\<close>

text \<open>The memoized hashes of a value, from scratch.\<close>

definition sha_ok :: "(u64 list \<Rightarrow> u32 list) \<Rightarrow> SHA1HashFamily \<Rightarrow> bool" where
  "sha_ok sha1 h = (length (memoizedHashes h) = numPasses h * 5 \<and> numPasses h = snumFuncs h div 5 + 1)"

definition sha_memo :: "(u64 list \<Rightarrow> u32 list) \<Rightarrow> SHA1HashFamily \<Rightarrow> bool" where
  "sha_memo sha1 h = (\<exists>mh0. length mh0 = numPasses h * 5
     \<and> memoizedHashes h = sha_passes sha1 (numPasses h) 0 (replicate 16 (memoizedVal h)) mh0)"

text \<open>A pass only reads hashes that earlier passes wrote, so what was there before does not matter.\<close>

lemma sha_xor_cong: "take (i * 5) a = take (i * 5) b \<Longrightarrow> 0 < i \<Longrightarrow> length a = length b \<Longrightarrow> i * 5 \<le> length a \<Longrightarrow> sha_xor buf a i = sha_xor buf b i"
proof -
  assume t: "take (i * 5) a = take (i * 5) b" and i: "0 < i" "length a = length b" "i * 5 \<le> length a"
  have "a ! ((i - 1) * 5 + j) = b ! ((i - 1) * 5 + j)" if "j < 5" for j
  proof -
    have "(i - 1) * 5 + j < i * 5" using that i(1) by (cases i) auto
    then have "take (i * 5) a ! ((i - 1) * 5 + j) = a ! ((i - 1) * 5 + j)"
      "take (i * 5) b ! ((i - 1) * 5 + j) = b ! ((i - 1) * 5 + j)" by simp_all
    then show ?thesis using t by simp
  qed
  then show ?thesis by (simp add: sha_xor_def)
qed

lemma sha_passes_cong:
  assumes sha: "\<And>b. length (sha1 b) = 5"
  shows "take (i * 5) a = take (i * 5) b \<Longrightarrow> length a = (i + n) * 5 \<Longrightarrow> length b = (i + n) * 5 \<Longrightarrow>
    sha_passes sha1 n i buf a = sha_passes sha1 n i buf b"
proof (induction n arbitrary: i a b buf)
  case 0
  then show ?case by simp
next
  case (Suc n)
  have buf: "(if i > 0 then sha_xor buf a i else buf) = (if i > 0 then sha_xor buf b i else buf)"
    using sha_xor_cong [OF Suc.prems(1)] Suc.prems(2,3) by auto
  let ?d = "sha1 (if i > 0 then sha_xor buf b i else buf)"
  have "take ((i + 1) * 5) (take (i * 5) a @ ?d @ drop (i * 5 + 5) a) = take ((i + 1) * 5) (take (i * 5) b @ ?d @ drop (i * 5 + 5) b)"
    using Suc.prems sha by simp
  then show ?case
    unfolding sha_passes.simps buf Let_def
    by (rule Suc.IH) (use Suc.prems sha in simp_all)
qed

lemma sha_passes_length:
  assumes sha: "\<And>b. length (sha1 b) = 5"
  shows "length mh = (i + n) * 5 \<Longrightarrow> length (sha_passes sha1 n i buf mh) = (i + n) * 5"
proof (induction n arbitrary: i mh buf)
  case 0
  then show ?case by simp
next
  case (Suc n)
  then show ?case
    unfolding sha_passes.simps Let_def using Suc.IH [of _ "i + 1"] sha by simp
qed

section \<open>Properties\<close>

text \<open>
  Claim C17.  An H3 family that the constructor built for up to 64 output bits hashes every value
  with every one of its functions, and each function is linear over exclusive or: the hash of
  \<open>a XOR b\<close> is the exclusive or of the hashes of \<open>a\<close> and \<open>b\<close>.
\<close>

theorem h3_linear:
  assumes "outputBits \<le> 64" "unat numFunctions < 2 ^ 26" "fid < numFunctions"
  shows "\<exists>h x y. H3HashFamily_new numFunctions outputBits seed = Some h
    \<and> h3_hash h fid a = Some x \<and> h3_hash h fid b = Some y \<and> h3_hash h fid (a XOR b) = Some (x XOR y)"
proof -
  obtain h where h: "H3HashFamily_new numFunctions outputBits seed = Some h" "h3_ok h" "numFuncs h = numFunctions"
    using H3HashFamily_new_ok [OF assms(1,2)] by blast
  have fid: "fid < numFuncs h" using assms(3) h(3) by simp
  obtain x y where xy: "h3_hash h fid a = Some x" "h3_hash h fid b = Some y"
    using h3_hash_total [OF h(2) fid] by blast
  let ?n = "h3_words (resShift h) div 8" and ?b = "unat (push_bit (6 - unat (resShift h)) fid)"
  obtain x' y' where r: "h3_rounds ?n (hMatrix h) a ?b 0 = Some x'" "x = h3_fold (resShift h) x'"
      "h3_rounds ?n (hMatrix h) b ?b 0 = Some y'" "y = h3_fold (resShift h) y'"
    using xy by (auto simp: h3_hash_def Let_def elim!: bind_Some_elim split: if_splits)
  have "h3_rounds ?n (hMatrix h) (a XOR b) ?b 0 = Some (x' XOR y')" using h3_rounds_xor [OF r(1,3)] by simp
  then have "h3_hash h fid (a XOR b) = Some (x XOR y)" using fid r(2,4) by (simp add: h3_hash_def Let_def h3_fold_xor)
  then show ?thesis using h(1) xy by blast
qed

theorem h3_linear_witness:
  "\<exists>h x y. H3HashFamily_new 4 32 123132127 = Some h \<and> h3_hash h 3 12 = Some x \<and> h3_hash h 3 10 = Some y
     \<and> h3_hash h 3 6 = Some (x XOR y)"
proof -
  have "(12 :: u64) XOR 10 = 6" by simp
  then show ?thesis using h3_linear [of 32 4 3 123132127 12 10] by simp
qed

text \<open>
   The unrolled loop does not compute what the simpler code in the comment above it
  computes: on a matrix with a single one in its second word they give different hashes of 1.
\<close>

theorem h3_unrolled_differs_from_comment:
  "h3_rounds 8 ((replicate 64 0)[1 := 1]) 1 0 0 = Some 2 \<and> h3_ref 64 ((replicate 64 0)[1 := 1]) 1 0 0 = Some (2 ^ 63)"
proof
  show "h3_rounds 8 ((replicate 64 0)[1 := 1]) 1 0 0 = Some 2" by code_simp
  show "h3_ref 64 ((replicate 64 0)[1 := 1]) 1 0 0 = Some (2 ^ 63)" by code_simp
qed

text \<open>
   When a SHA-1 family hashes a value that is not the memoized one, the result depends only
  on the value and the number of functions, not on what was hashed before.
\<close>

theorem sha_hash_pure:
  assumes "\<And>b. length (sha1 b) = 5" "sha_ok sha1 h" "sha_ok sha1 h'" "snumFuncs h = snumFuncs h'"
    and "val \<noteq> memoizedVal h" "val \<noteq> memoizedVal h'"
  shows "map_option snd (sha_hash sha1 h fid val) = map_option snd (sha_hash sha1 h' fid val)"
proof -
  have np: "numPasses h = numPasses h'" "length (memoizedHashes h) = (0 + numPasses h') * 5"
      "length (memoizedHashes h') = (0 + numPasses h') * 5"
    using assms(2-4) by (simp_all add: sha_ok_def)
  have "sha_passes sha1 (numPasses h') 0 (replicate 16 val) (memoizedHashes h)
      = sha_passes sha1 (numPasses h') 0 (replicate 16 val) (memoizedHashes h')"
    by (rule sha_passes_cong [OF assms(1) _ np(2,3)]) simp
  then show ?thesis using assms(4-6) np(1) by (simp add: sha_hash_def Let_def aget_def)
qed

theorem sha_hash_pure_witness:
  "\<exists>h1 h2. sha_hash (\<lambda>b. replicate 5 (ucast (hd b))) (SHA1HashFamily_new 7) 2 9 = Some (h1, 9)
     \<and> sha_hash (\<lambda>b. replicate 5 (ucast (hd b))) h1 2 4 = Some (h2, 4)"
proof -
  let ?sha = "\<lambda>b. replicate 5 (ucast (hd b :: u64)) :: u32 list"
  have 1: "sha_hash ?sha (SHA1HashFamily_new 7) 2 9
      = Some (\<lparr>snumFuncs = 7, numPasses = 2, memoizedVal = 9, memoizedHashes = [9, 9, 9, 9, 9, 0, 0, 0, 0, 0]\<rparr>, 9)" (is "_ = Some (?h1, 9)")
    by code_simp
  have 2: "map_option snd (sha_hash ?sha (SHA1HashFamily_new 7) 2 4) = Some 4" by code_simp
  have "map_option snd (sha_hash ?sha ?h1 2 4) = map_option snd (sha_hash ?sha (SHA1HashFamily_new 7) 2 4)"
    by (rule sha_hash_pure) (simp_all add: sha_ok_def SHA1HashFamily_new_def)
  then show ?thesis using 1 2 by auto
qed

text \<open>
   The hash of 0 depends on the history: a new family answers 0 from its empty memo, but
  after another value was hashed it answers the digest of 0.
\<close>

theorem sha_hash_zero_stale:
  assumes "\<And>b. length (sha1 b) = 5"
  shows "map_option snd (sha_hash sha1 (SHA1HashFamily_new 1) 0 0) = Some 0
    \<and> (sha_hash sha1 (SHA1HashFamily_new 1) 0 5 \<bind> (\<lambda>(h, _). map_option snd (sha_hash sha1 h 0 0)))
        = Some (ucast (sha1 (replicate 16 0) ! 0))"
proof -
  have "sha1 b \<noteq> []" for b using assms [of b] by auto
  then show ?thesis using assms
    by (simp add: sha_hash_def SHA1HashFamily_new_def nth_append Let_def aget_def)
qed

theorem sha_hash_zero_stale_witness:
  "map_option snd (sha_hash (\<lambda>b. replicate 5 8) (SHA1HashFamily_new 1) 0 0) = Some 0
    \<and> (sha_hash (\<lambda>b. replicate 5 8) (SHA1HashFamily_new 1) 0 5
        \<bind> (\<lambda>(h, _). map_option snd (sha_hash (\<lambda>b. replicate 5 8) h 0 0))) = Some 8"
  using sha_hash_zero_stale [of "\<lambda>b. replicate 5 8"] by simp

end
