(* ===== verification/CacheArrays.thy ===== *)
theory CacheArrays
  imports ReplPolicies Hash
begin

text \<open>
  The cache arrays of \<open>src/src/cache_arrays.h\<close> and \<open>src/src/cache_arrays.cpp\<close>: the set-associative array
  and the contract that a cache relies on; the zcache is in theory \<open>ZCache\<close>.  Line ids and array positions are naturals; \<open>lookup\<close> returns an integer, -1 on
  a miss.  The replacement policy is its state, a field of the array, together with the
  table \<open>ReplPolicy\<close> of its virtual functions; the hash family is a function that may fail.
  The result of \<open>preinsert\<close> is the new state, the candidate and the address to write back.
\<close>

record 's ReplPolicy =
  rpUpdate :: "'s \<Rightarrow> nat \<Rightarrow> MemReq option \<Rightarrow> 's option"
  rpReplaced :: "'s \<Rightarrow> nat \<Rightarrow> 's option"
  rpRank :: "'s \<Rightarrow> MemReq option \<Rightarrow> nat list \<Rightarrow> ('s \<times> nat) option"

text \<open>The ids a \<open>SetAssocCands\<close> iterates over, from \<open>b\<close> up to \<open>e\<close>.\<close>

definition SetAssocCands :: "u32 \<Rightarrow> u32 \<Rightarrow> nat list" where
  "SetAssocCands b e = [unat b..<unat e]"

section \<open>SetAssocArray\<close>

record 's SetAssocArray =
  sarray :: "u64 list"
  srp :: 's
  snumLines :: u32
  snumSets :: u32
  sassoc :: u32
  ssetMask :: u32

definition SetAssocArray_new :: "'s \<Rightarrow> u32 \<Rightarrow> u32 \<Rightarrow> 's SetAssocArray option" where
  "SetAssocArray_new rp numLines assoc = do {
     _ \<leftarrow> require (assoc \<noteq> 0);
     let numSets = numLines div assoc;
     _ \<leftarrow> require (isPow2 numSets);
     Some \<lparr>sarray = replicate (unat numLines) 0, srp = rp, snumLines = numLines, snumSets = numSets,
       sassoc = assoc, ssetMask = numSets - 1\<rparr>
   }"

definition sa_first :: "hash_fn \<Rightarrow> 's SetAssocArray \<Rightarrow> u64 \<Rightarrow> u32 option" where
  "sa_first hf a addr = do {
     h \<leftarrow> hf 0 addr;
     let st = (ucast (h AND ucast (ssetMask a)) :: u32);
     Some (st * sassoc a)
   }"

fun sa_scan :: "'s ReplPolicy \<Rightarrow> 's SetAssocArray \<Rightarrow> u64 \<Rightarrow> MemReq option \<Rightarrow> bool \<Rightarrow> nat list \<Rightarrow> ('s SetAssocArray \<times> int) option" where
  "sa_scan rp a addr req updateReplacement [] = Some (a, -1)"
| "sa_scan rp a addr req updateReplacement (i # ids) = do {
     x \<leftarrow> aget (sarray a) i;
     if x = addr then
       (if updateReplacement then do { s \<leftarrow> rpUpdate rp (srp a) i req; Some (a\<lparr>srp := s\<rparr>, int i) }
        else Some (a, int i))
     else sa_scan rp a addr req updateReplacement ids
   }"

definition sa_lookup :: "'s ReplPolicy \<Rightarrow> hash_fn \<Rightarrow> 's SetAssocArray \<Rightarrow> u64 \<Rightarrow> MemReq option \<Rightarrow> bool \<Rightarrow>
    ('s SetAssocArray \<times> int) option" where
  "sa_lookup rp hf a addr req updateReplacement = do {
     first \<leftarrow> sa_first hf a addr;
     sa_scan rp a addr req updateReplacement [unat first..<unat (first + sassoc a)]
   }"

definition sa_preinsert :: "'s ReplPolicy \<Rightarrow> hash_fn \<Rightarrow> 's SetAssocArray \<Rightarrow> u64 \<Rightarrow> MemReq option \<Rightarrow>
    ('s SetAssocArray \<times> nat \<times> u64) option" where
  "sa_preinsert rp hf a addr req = do {
     first \<leftarrow> sa_first hf a addr;
     (s, candidate) \<leftarrow> rpRank rp (srp a) req (SetAssocCands first (first + sassoc a));
     wb \<leftarrow> aget (sarray a) candidate;
     Some (a\<lparr>srp := s\<rparr>, candidate, wb)
   }"

definition sa_postinsert :: "'s ReplPolicy \<Rightarrow> 's SetAssocArray \<Rightarrow> u64 \<Rightarrow> MemReq option \<Rightarrow> nat \<Rightarrow> 's SetAssocArray option" where
  "sa_postinsert rp a addr req candidate = do {
     s \<leftarrow> rpReplaced rp (srp a) candidate;
     arr \<leftarrow> aset (sarray a) candidate addr;
     s' \<leftarrow> rpUpdate rp s candidate req;
     Some (a\<lparr>sarray := arr, srp := s'\<rparr>)
   }"

section \<open>The contract of a cache array\<close>

text \<open>
  What a cache relies on: \<open>lookup\<close> finds exactly the lines that are present, an insertion is split into
  \<open>preinsert\<close>, which chooses a line and reports its address, and \<open>postinsert\<close>, which puts the new address
  there and nowhere else.  \<open>pending a addr c\<close> is the state between the two, \<open>good\<close> the requests the
  policy accepts.
\<close>

locale cache_array =
  fixes lookup :: "'a \<Rightarrow> u64 \<Rightarrow> MemReq option \<Rightarrow> bool \<Rightarrow> ('a \<times> int) option"
    and preinsert :: "'a \<Rightarrow> u64 \<Rightarrow> MemReq option \<Rightarrow> ('a \<times> nat \<times> u64) option"
    and postinsert :: "'a \<Rightarrow> u64 \<Rightarrow> MemReq option \<Rightarrow> nat \<Rightarrow> 'a option"
    and lines :: "'a \<Rightarrow> u64 list"
    and ok :: "'a \<Rightarrow> bool"
    and pending :: "'a \<Rightarrow> u64 \<Rightarrow> nat \<Rightarrow> bool"
    and good :: "MemReq option \<Rightarrow> bool"
  assumes lines_unique: "ok a \<Longrightarrow> i < length (lines a) \<Longrightarrow> j < length (lines a) \<Longrightarrow> lines a ! i = lines a ! j \<Longrightarrow> lines a ! i \<noteq> 0 \<Longrightarrow> i = j"
    and lookup_hit: "ok a \<Longrightarrow> addr \<noteq> 0 \<Longrightarrow> good req \<or> \<not> upd \<Longrightarrow> addr \<in> set (lines a) \<Longrightarrow>
      \<exists>a' i. lookup a addr req upd = Some (a', int i) \<and> i < length (lines a) \<and> lines a ! i = addr \<and> ok a' \<and> lines a' = lines a"
    and lookup_miss: "ok a \<Longrightarrow> addr \<noteq> 0 \<Longrightarrow> addr \<notin> set (lines a) \<Longrightarrow> lookup a addr req upd = Some (a, -1)"
    and preinsert_ok: "ok a \<Longrightarrow> addr \<noteq> 0 \<Longrightarrow> addr \<notin> set (lines a) \<Longrightarrow>
      \<exists>a' c. preinsert a addr req = Some (a', c, lines a ! c) \<and> c < length (lines a) \<and> lines a' = lines a \<and> pending a' addr c"
    and postinsert_ok: "pending a addr c \<Longrightarrow> good req \<Longrightarrow>
      \<exists>a'. postinsert a addr req c = Some a' \<and> ok a' \<and> lines a' = (lines a)[c := addr]"
begin

text \<open>After an insertion the new line is found, the evicted one is not, and the others are where they were.\<close>

lemma insert_then_lookup:
  assumes "ok a" "addr \<noteq> 0" "addr \<notin> set (lines a)" "good req"
  shows "\<exists>a1 a2 c. preinsert a addr req = Some (a1, c, lines a ! c) \<and> postinsert a1 addr req c = Some a2 \<and> ok a2
    \<and> (\<exists>a3. lookup a2 addr req upd = Some (a3, int c) \<and> lines a3 = (lines a)[c := addr])
    \<and> (lines a ! c \<noteq> 0 \<longrightarrow> lookup a2 (lines a ! c) req upd = Some (a2, -1))
    \<and> (\<forall>i < length (lines a). i \<noteq> c \<longrightarrow> lines a ! i \<noteq> 0 \<longrightarrow> (\<exists>a3. lookup a2 (lines a ! i) req upd = Some (a3, int i)))"
proof -
  obtain a1 c where pre: "preinsert a addr req = Some (a1, c, lines a ! c)" "c < length (lines a)" "lines a1 = lines a"
      "pending a1 addr c" using preinsert_ok [OF assms(1-3)] by blast
  obtain a2 where post: "postinsert a1 addr req c = Some a2" "ok a2" "lines a2 = (lines a)[c := addr]"
    using postinsert_ok [OF pre(4) assms(4)] pre(3) by auto
  have len: "length (lines a2) = length (lines a)" using post(3) by simp
  have found: "\<exists>a3. lookup a2 (lines a2 ! i) req upd = Some (a3, int i) \<and> lines a3 = lines a2"
    if i: "i < length (lines a)" "lines a2 ! i \<noteq> 0" for i
  proof -
    have "lines a2 ! i \<in> set (lines a2)" using i len by simp
    then obtain a3 j where j: "lookup a2 (lines a2 ! i) req upd = Some (a3, int j)" "j < length (lines a2)"
        "lines a2 ! j = lines a2 ! i" "lines a3 = lines a2"
      using lookup_hit [OF post(2) i(2)] assms(4) by blast
    then have "j = i" using lines_unique [OF post(2), of j i] i len by simp
    then show ?thesis using j by blast
  qed
  have "lookup a2 (lines a ! c) req upd = Some (a2, -1)" if "lines a ! c \<noteq> 0"
  proof -
    have "lines a ! c \<notin> set (lines a2)"
    proof
      assume "lines a ! c \<in> set (lines a2)"
      then obtain j where j: "j < length (lines a)" "lines a2 ! j = lines a ! c" using len by (metis in_set_conv_nth)
      show False
      proof (cases "j = c")
        case True
        then show False using j post(3) pre(2) assms(3) by auto
      next
        case False
        then have "lines a ! j = lines a ! c" using j post(3) by simp
        then show False using lines_unique [OF assms(1) j(1) pre(2)] False that by simp
      qed
    qed
    then show ?thesis using lookup_miss [OF post(2) that] by simp
  qed
  moreover have "\<exists>a3. lookup a2 addr req upd = Some (a3, int c) \<and> lines a3 = (lines a)[c := addr]"
    using found [OF pre(2)] post(3) pre(2) assms(2) by simp
  moreover have "\<exists>a3. lookup a2 (lines a ! i) req upd = Some (a3, int i)"
    if "i < length (lines a)" "i \<noteq> c" "lines a ! i \<noteq> 0" for i
    using found [OF that(1)] that post(3) by auto
  ultimately show ?thesis using pre post by blast
qed

end

section \<open>The set-associative array keeps the contract\<close>

definition hash_total :: "hash_fn \<Rightarrow> nat \<Rightarrow> bool" where
  "hash_total hf ways = (\<forall>w addr. unat w < ways \<longrightarrow> hf w addr \<noteq> None)"

lemma hash_total_id: "hash_total id_hash k"
  by (simp add: hash_total_def id_hash_def)

lemma hash_total_h3: "h3_ok h \<Longrightarrow> k \<le> unat (numFuncs h) \<Longrightarrow> hash_total (h3_hash h) k"
  using h3_hash_total [of h] by (fastforce simp: hash_total_def word_less_nat_alt)

text \<open>A hash cut by the mask of a power of two is below it.\<close>

lemma mask_below:
  assumes "isPow2 m" shows "unat (h AND ucast (m - 1 :: u32) :: u64) < unat m"
proof -
  have "0 < unat m" using assms by (simp add: isPow2_def unat_gt_0)
  moreover from this have "unat (m - 1) = unat m - unat (1 :: u32)"
    by (intro unat_sub_no_wrap) (simp add: word_le_nat_alt)
  ultimately have "unat (m - 1) < unat m" by simp
  moreover have "h AND ucast (m - 1 :: u32) \<le> ucast (m - 1 :: u32)" by (rule word_and_le1)
  then have "unat (h AND ucast (m - 1 :: u32)) \<le> unat (m - 1)" by (simp add: word_le_nat_alt)
  ultimately show ?thesis by linarith
qed

definition sa_wf :: "nat \<Rightarrow> nat \<Rightarrow> hash_fn \<Rightarrow> 's SetAssocArray \<Rightarrow> bool" where
  "sa_wf n k hf a = (length (sarray a) = n \<and> unat (sassoc a) = k \<and> 0 < k \<and> isPow2 (snumSets a)
     \<and> ssetMask a = snumSets a - 1 \<and> unat (snumSets a) * k \<le> n \<and> n < 2 ^ 32 \<and> hash_total hf 1)"

text \<open>The first line of the set of an address.\<close>

definition sa_base :: "hash_fn \<Rightarrow> 's SetAssocArray \<Rightarrow> u64 \<Rightarrow> nat" where
  "sa_base hf a addr = (case sa_first hf a addr of None \<Rightarrow> 0 | Some f \<Rightarrow> unat f)"

definition sa_placed :: "nat \<Rightarrow> hash_fn \<Rightarrow> 's SetAssocArray \<Rightarrow> bool" where
  "sa_placed k hf a = (\<forall>i < length (sarray a). sarray a ! i \<noteq> 0 \<longrightarrow>
     sa_base hf a (sarray a ! i) \<le> i \<and> i < sa_base hf a (sarray a ! i) + k)"

definition addrs_unique :: "u64 list \<Rightarrow> bool" where
  "addrs_unique xs = (\<forall>i < length xs. \<forall>j < length xs. xs ! i = xs ! j \<longrightarrow> xs ! i \<noteq> 0 \<longrightarrow> i = j)"

lemma addrs_uniqueD: "addrs_unique xs \<Longrightarrow> i < length xs \<Longrightarrow> j < length xs \<Longrightarrow> xs ! i = xs ! j \<Longrightarrow> xs ! i \<noteq> 0 \<Longrightarrow> i = j"
  by (simp add: addrs_unique_def)

lemma addrs_unique_update:
  assumes "addrs_unique xs" "v \<notin> set xs" shows "addrs_unique (xs[c := v])"
  unfolding addrs_unique_def
proof (intro allI impI)
  fix i j assume *: "i < length (xs[c := v])" "j < length (xs[c := v])" "xs[c := v] ! i = xs[c := v] ! j" "xs[c := v] ! i \<noteq> 0"
  show "i = j"
    using * assms addrs_uniqueD [OF assms(1), of i j] nth_mem [of i xs] nth_mem [of j xs]
    by (cases "c = i"; cases "c = j") (auto simp: nth_list_update)
qed

lemma sa_base_frame [simp]: "sa_base hf (a\<lparr>srp := s\<rparr>) addr = sa_base hf a addr" "sa_base hf (a\<lparr>sarray := xs\<rparr>) addr = sa_base hf a addr"
  by (simp_all add: sa_base_def sa_first_def)

lemma sa_placed_update:
  assumes "sa_placed k hf a" "sa_base hf a addr \<le> c" "c < sa_base hf a addr + k"
  shows "sa_placed k hf (a\<lparr>sarray := (sarray a)[c := addr], srp := s\<rparr>)"
  unfolding sa_placed_def
proof (intro allI impI)
  fix i assume "i < length (sarray (a\<lparr>sarray := (sarray a)[c := addr], srp := s\<rparr>))"
    "sarray (a\<lparr>sarray := (sarray a)[c := addr], srp := s\<rparr>) ! i \<noteq> 0"
  then show "sa_base hf (a\<lparr>sarray := (sarray a)[c := addr], srp := s\<rparr>) (sarray (a\<lparr>sarray := (sarray a)[c := addr], srp := s\<rparr>) ! i) \<le> i
    \<and> i < sa_base hf (a\<lparr>sarray := (sarray a)[c := addr], srp := s\<rparr>) (sarray (a\<lparr>sarray := (sarray a)[c := addr], srp := s\<rparr>) ! i) + k"
    using assms by (cases "i = c") (simp_all add: sa_placed_def)
qed

lemma sa_first_total:
  assumes "sa_wf n k hf a"
  shows "\<exists>f. sa_first hf a addr = Some f \<and> unat f = sa_base hf a addr \<and> unat (f + sassoc a) = sa_base hf a addr + k
    \<and> sa_base hf a addr + k \<le> n"
proof -
  obtain h where h: "hf 0 addr = Some h" using assms by (fastforce simp: sa_wf_def hash_total_def)
  let ?h = "h AND ucast (ssetMask a)"
  define s where "s = (ucast ?h :: u32)"
  have lt: "unat ?h < unat (snumSets a)" using mask_below [of "snumSets a" h] assms by (simp add: sa_wf_def)
  have "unat s = unat ?h" unfolding s_def
    using less_trans [OF lt unat_u32_lt] by (intro unat_ucast_down) simp
  then have "Suc (unat s) * k \<le> unat (snumSets a) * k" using lt by (intro mult_le_mono1) simp
  then have le: "unat s * k + k \<le> n" using assms by (simp add: sa_wf_def)
  have n: "n < 2 ^ 32" and k: "unat (sassoc a) = k" "0 < k" using assms by (simp_all add: sa_wf_def)
  have f: "sa_first hf a addr = Some (s * sassoc a)" by (simp add: sa_first_def h s_def)
  have u: "unat (s * sassoc a) = unat s * k" using le n k by (simp add: unat_word_ariths)
  moreover have "unat (s * sassoc a + sassoc a) = unat s * k + k"
    using le n k u by (subst unat_add_no_wrap) simp_all
  ultimately show ?thesis using f le by (simp add: sa_base_def)
qed

text \<open>The array between two insertions, with a policy state that satisfies \<open>P\<close>, and in the middle of one.\<close>

definition sa_inv :: "nat \<Rightarrow> nat \<Rightarrow> hash_fn \<Rightarrow> ('s \<Rightarrow> bool) \<Rightarrow> 's SetAssocArray \<Rightarrow> bool" where
  "sa_inv n k hf P a = (sa_wf n k hf a \<and> sa_placed k hf a \<and> addrs_unique (sarray a) \<and> P (srp a))"

definition sa_mid :: "nat \<Rightarrow> nat \<Rightarrow> hash_fn \<Rightarrow> ('s \<Rightarrow> bool) \<Rightarrow> 's SetAssocArray \<Rightarrow> u64 \<Rightarrow> nat \<Rightarrow> bool" where
  "sa_mid n k hf Q a addr c = (sa_wf n k hf a \<and> sa_placed k hf a \<and> addrs_unique (sarray a) \<and> Q (srp a)
     \<and> addr \<notin> set (sarray a) \<and> sa_base hf a addr \<le> c \<and> c < sa_base hf a addr + k)"

locale set_assoc = repl_policy update replaced rank n k fresh ranked good
  for update :: "'s \<Rightarrow> nat \<Rightarrow> MemReq option \<Rightarrow> 's option"
    and replaced :: "'s \<Rightarrow> nat \<Rightarrow> 's option"
    and rank :: "'s \<Rightarrow> MemReq option \<Rightarrow> nat list \<Rightarrow> ('s \<times> nat) option"
    and n :: nat
    and k :: nat
    and fresh :: "'s \<Rightarrow> bool"
    and ranked :: "'s \<Rightarrow> bool"
    and good :: "MemReq option \<Rightarrow> bool" +
  fixes hf :: hash_fn
begin

abbreviation table :: "'s ReplPolicy" where
  "table \<equiv> \<lparr>rpUpdate = update, rpReplaced = replaced, rpRank = rank\<rparr>"

abbreviation sa_ok :: "'s SetAssocArray \<Rightarrow> bool" where
  "sa_ok \<equiv> sa_inv n k hf fresh"

abbreviation sa_pending :: "'s SetAssocArray \<Rightarrow> u64 \<Rightarrow> nat \<Rightarrow> bool" where
  "sa_pending \<equiv> sa_mid n k hf ranked"

lemma sa_scan_miss:
  "\<forall>i \<in> set ids. i < length (sarray a) \<and> sarray a ! i \<noteq> addr \<Longrightarrow> sa_scan rp a addr req upd ids = Some (a, -1)"
  by (induction ids) simp_all

lemma sa_scan_hit:
  assumes "i \<in> set ids" "\<forall>j \<in> set ids. j < length (sarray a)" "sarray a ! i = addr" "addr \<noteq> 0"
    "addrs_unique (sarray a)" "upd \<longrightarrow> (\<exists>s'. rpUpdate rp (srp a) i req = Some s' \<and> P s')" "P (srp a)"
  shows "\<exists>s'. sa_scan rp a addr req upd ids = Some (a\<lparr>srp := s'\<rparr>, int i) \<and> P s'"
  using assms(1,2)
proof (induction ids)
  case Nil
  then show ?case by simp
next
  case (Cons j ids)
  show ?case
  proof (cases "sarray a ! j = addr")
    case True
    then have "j = i" using addrs_uniqueD [OF assms(5), of j i] Cons.prems assms(3,4) by auto
    have hit: "i < length (sarray a)" "sarray a ! i = addr" using Cons.prems True \<open>j = i\<close> by auto
    show ?thesis
    proof (cases upd)
      case True
      then obtain s' where "rpUpdate rp (srp a) i req = Some s'" "P s'" using assms(6) by blast
      then show ?thesis using hit True \<open>j = i\<close> by (intro exI [of _ s']) simp
    next
      case False
      then show ?thesis using hit \<open>j = i\<close> assms(7) by (auto intro!: exI [of _ "srp a"])
    qed
  next
    case False
    then show ?thesis using Cons assms(3) by auto
  qed
qed

lemma contract_lookup_hit:
  assumes ok: "sa_ok a" and "addr \<noteq> 0" "good req \<or> \<not> upd" "addr \<in> set (sarray a)"
  shows "\<exists>a' i. sa_lookup table hf a addr req upd = Some (a', int i) \<and> i < length (sarray a) \<and> sarray a ! i = addr
     \<and> sa_ok a' \<and> sarray a' = sarray a"
proof -
  obtain i where i: "i < length (sarray a)" "sarray a ! i = addr" using assms(4) by (metis in_set_conv_nth)
  have wf: "sa_wf n k hf a" and un: "addrs_unique (sarray a)" and fr: "fresh (srp a)" and len: "length (sarray a) = n"
    using ok by (simp_all add: sa_inv_def sa_wf_def)
  obtain f where f: "sa_first hf a addr = Some f" "unat f = sa_base hf a addr" "unat (f + sassoc a) = sa_base hf a addr + k"
      "sa_base hf a addr + k \<le> n" using sa_first_total [OF wf] by blast
  have mem: "i \<in> set [unat f..<unat (f + sassoc a)]"
    using ok i assms(2) f(2,3) by (auto simp: sa_inv_def sa_placed_def)
  have "upd \<longrightarrow> (\<exists>s'. rpUpdate table (srp a) i req = Some s' \<and> fresh s')"
    using update_fresh [OF fr, of i req] i(1) len assms(3) by auto
  with sa_scan_hit [OF mem _ i(2) assms(2) un, of upd table req fresh] fr f(3,4) len
  obtain s' where "sa_scan table a addr req upd [unat f..<unat (f + sassoc a)] = Some (a\<lparr>srp := s'\<rparr>, int i)" "fresh s'" by auto
  moreover have "sa_ok (a\<lparr>srp := s'\<rparr>)" using ok \<open>fresh s'\<close> by (simp add: sa_inv_def sa_wf_def sa_placed_def)
  ultimately show ?thesis using f(1) i by (auto simp: sa_lookup_def)
qed

lemma contract_lookup_miss:
  assumes "sa_ok a" "addr \<notin> set (sarray a)"
  shows "sa_lookup table hf a addr req upd = Some (a, -1)"
proof -
  have wf: "sa_wf n k hf a" and len: "length (sarray a) = n" using assms(1) by (simp_all add: sa_inv_def sa_wf_def)
  obtain f where f: "sa_first hf a addr = Some f" "unat (f + sassoc a) \<le> n" using sa_first_total [OF wf] by metis
  then have "sa_scan table a addr req upd [unat f..<unat (f + sassoc a)] = Some (a, -1)"
    using len assms(2) by (intro sa_scan_miss) auto
  then show ?thesis by (simp add: sa_lookup_def f(1))
qed

lemma contract_preinsert:
  assumes "sa_ok a" "addr \<notin> set (sarray a)"
  shows "\<exists>a' c. sa_preinsert table hf a addr req = Some (a', c, sarray a ! c) \<and> c < length (sarray a) \<and> sarray a' = sarray a
     \<and> sa_pending a' addr c"
proof -
  have wf: "sa_wf n k hf a" and fr: "fresh (srp a)" and len: "length (sarray a) = n" and k: "0 < k"
    using assms(1) by (simp_all add: sa_inv_def sa_wf_def)
  obtain f where f: "sa_first hf a addr = Some f" "unat f = sa_base hf a addr" "unat (f + sassoc a) = sa_base hf a addr + k"
      "sa_base hf a addr + k \<le> n" using sa_first_total [OF wf] by blast
  let ?c = "SetAssocCands f (f + sassoc a)"
  have c: "?c \<noteq> []" "length ?c = k" "set ?c \<subseteq> {..<n}" using f k by (auto simp: SetAssocCands_def)
  obtain s c where sc: "rank (srp a) req ?c = Some (s, c)" "c \<in> set ?c" "ranked s" using rank_fresh [OF fr c] by blast
  have mem: "sa_base hf a addr \<le> c" "c < sa_base hf a addr + k" "c < n" using sc(2) f by (auto simp: SetAssocCands_def)
  have "sa_preinsert table hf a addr req = Some (a\<lparr>srp := s\<rparr>, c, sarray a ! c)"
    using f(1) sc(1) mem(3) len by (simp add: sa_preinsert_def)
  moreover have "sa_pending (a\<lparr>srp := s\<rparr>) addr c"
    using assms sc(3) mem by (simp add: sa_mid_def sa_inv_def sa_wf_def sa_placed_def)
  ultimately show ?thesis using mem(3) len by auto
qed

lemma contract_postinsert:
  assumes pend: "sa_pending a addr c" and req: "good req"
  shows "\<exists>a'. sa_postinsert table a addr req c = Some a' \<and> sa_ok a' \<and> sarray a' = (sarray a)[c := addr]"
proof -
  have wf: "sa_wf n k hf a" and rk: "ranked (srp a)" and len: "length (sarray a) = n"
    and c: "sa_base hf a addr \<le> c" "c < sa_base hf a addr + k"
    using pend by (simp_all add: sa_mid_def sa_wf_def)
  have cn: "c < n" using sa_first_total [OF wf, of addr] c by auto
  obtain s1 where s1: "replaced (srp a) c = Some s1" "fresh s1" using replaced_ranked [OF rk cn] by blast
  obtain s2 where s2: "update s1 c req = Some s2" "fresh s2" using update_fresh [OF s1(2) cn req] by blast
  let ?a = "a\<lparr>sarray := (sarray a)[c := addr], srp := s2\<rparr>"
  have "sa_postinsert table a addr req c = Some ?a" using s1 s2 cn len by (simp add: sa_postinsert_def)
  moreover have "addrs_unique ((sarray a)[c := addr])" using pend by (intro addrs_unique_update) (auto simp: sa_mid_def)
  then have "sa_ok ?a" using pend s2(2) sa_placed_update [OF _ c, of s2] by (simp add: sa_inv_def sa_mid_def sa_wf_def)
  ultimately show ?thesis by auto
qed

lemma contract: "cache_array (sa_lookup table hf) (sa_preinsert table hf) (sa_postinsert table) sarray sa_ok sa_pending good"
proof unfold_locales
  fix a i j assume "sa_ok a" "i < length (sarray a)" "j < length (sarray a)" "sarray a ! i = sarray a ! j" "sarray a ! i \<noteq> 0"
  then show "i = j" using addrs_uniqueD [of "sarray a" i j] by (simp add: sa_inv_def)
qed (rule contract_lookup_hit contract_lookup_miss contract_preinsert contract_postinsert; assumption)+

end

text \<open>A new array is empty and well formed.\<close>

lemma SetAssocArray_new_inv:
  assumes "SetAssocArray_new rp numLines assoc = Some a" "hash_total hf 1" "P rp"
  shows "sa_inv (unat numLines) (unat assoc) hf P a"
proof -
  have *: "assoc \<noteq> 0" "isPow2 (numLines div assoc)"
    "a = \<lparr>sarray = replicate (unat numLines) 0, srp = rp, snumLines = numLines, snumSets = numLines div assoc,
       sassoc = assoc, ssetMask = numLines div assoc - 1\<rparr>"
    using assms(1) by (auto simp: SetAssocArray_new_def Let_def split: if_splits)
  have "unat (numLines div assoc) * unat assoc \<le> unat numLines" by (simp add: unat_div)
  moreover have "0 < unat assoc" using *(1) by (simp add: unat_gt_0)
  moreover have "unat numLines < 2 ^ 32" using unat_u32_lt [of numLines] by simp
  ultimately show ?thesis using * assms(2,3) by (simp add: sa_inv_def sa_wf_def sa_placed_def addrs_unique_def)
qed

section \<open>The policies under a set-associative array\<close>

interpretation sa_lru: set_assoc lru_update lru_replaced "lru_rank aw cc" n k
  "\<lambda>p. lru_ok n p \<and> view_ok cc n" "\<lambda>p. lru_ok n p \<and> view_ok cc n" "\<lambda>_. True" hf for aw cc n k hf
  by (rule set_assoc.intro) (rule lru.repl_policy_axioms)

interpretation sa_tree: set_assoc tree_update tree_replaced "tree_rank cc" n k
  "\<lambda>p. tree_ok n p \<and> view_ok cc n" "\<lambda>p. tree_ok n p \<and> view_ok cc n" "\<lambda>_. True" hf for cc n k hf
  by (rule set_assoc.intro) (rule tree.repl_policy_axioms)

interpretation sa_nru: set_assoc nru_update nru_replaced nru_rank n k "nru_fresh n k" "nru_ok n k" "\<lambda>_. True" hf for n k hf
  by (rule set_assoc.intro) (rule nru.repl_policy_axioms)

interpretation sa_lru_array: cache_array
  "sa_lookup \<lparr>rpUpdate = lru_update, rpReplaced = lru_replaced, rpRank = lru_rank aw cc\<rparr> hf"
  "sa_preinsert \<lparr>rpUpdate = lru_update, rpReplaced = lru_replaced, rpRank = lru_rank aw cc\<rparr> hf"
  "sa_postinsert \<lparr>rpUpdate = lru_update, rpReplaced = lru_replaced, rpRank = lru_rank aw cc\<rparr>"
  sarray "sa_inv n k hf (\<lambda>p. lru_ok n p \<and> view_ok cc n)" "sa_mid n k hf (\<lambda>p. lru_ok n p \<and> view_ok cc n)" "\<lambda>_. True"
  for aw cc n k hf
  by (rule sa_lru.contract)

interpretation sa_nru_array: cache_array
  "sa_lookup \<lparr>rpUpdate = nru_update, rpReplaced = nru_replaced, rpRank = nru_rank\<rparr> hf"
  "sa_preinsert \<lparr>rpUpdate = nru_update, rpReplaced = nru_replaced, rpRank = nru_rank\<rparr> hf"
  "sa_postinsert \<lparr>rpUpdate = nru_update, rpReplaced = nru_replaced, rpRank = nru_rank\<rparr>"
  sarray "sa_inv n k hf (nru_fresh n k)" "sa_mid n k hf (nru_ok n k)" "\<lambda>_. True"
  for n k hf
  by (rule sa_nru.contract)

section \<open>Properties\<close>

text \<open>
  Claim C16.  A set-associative array under LRU never fails on a miss and behaves as a map from
  addresses to lines: after inserting an absent address it is found on the victim's line, the
  evicted address is not found any more, and every other address keeps its line.
\<close>

theorem set_assoc_insert_lookup:
  assumes "sa_inv n k hf (\<lambda>p. lru_ok n p \<and> view_ok cc n) a" "addr \<noteq> 0" "addr \<notin> set (sarray a)"
    and rp: "rp = \<lparr>rpUpdate = lru_update, rpReplaced = lru_replaced, rpRank = lru_rank aw cc\<rparr>"
  shows "\<exists>a1 a2 c. sa_preinsert rp hf a addr req = Some (a1, c, sarray a ! c) \<and> sa_postinsert rp a1 addr req c = Some a2
    \<and> sa_inv n k hf (\<lambda>p. lru_ok n p \<and> view_ok cc n) a2
    \<and> (\<exists>a3. sa_lookup rp hf a2 addr req upd = Some (a3, int c) \<and> sarray a3 = (sarray a)[c := addr])
    \<and> (sarray a ! c \<noteq> 0 \<longrightarrow> sa_lookup rp hf a2 (sarray a ! c) req upd = Some (a2, -1))
    \<and> (\<forall>i < length (sarray a). i \<noteq> c \<longrightarrow> sarray a ! i \<noteq> 0 \<longrightarrow> (\<exists>a3. sa_lookup rp hf a2 (sarray a ! i) req upd = Some (a3, int i)))"
  unfolding rp by (rule sa_lru_array.insert_then_lookup [OF assms(1-3) TrueI])

theorem set_assoc_insert_lookup_witness:
  "\<exists>a a1 a2 a3 c. SetAssocArray_new (LRUReplPolicy_new 8) 8 2 = Some a
    \<and> sa_preinsert \<lparr>rpUpdate = lru_update, rpReplaced = lru_replaced, rpRank = lru_rank False (\<lambda>_. Some 0, \<lambda>_. Some True)\<rparr> id_hash a 5 None = Some (a1, c, sarray a ! c)
    \<and> sa_postinsert \<lparr>rpUpdate = lru_update, rpReplaced = lru_replaced, rpRank = lru_rank False (\<lambda>_. Some 0, \<lambda>_. Some True)\<rparr> a1 5 None c = Some a2
    \<and> sa_lookup \<lparr>rpUpdate = lru_update, rpReplaced = lru_replaced, rpRank = lru_rank False (\<lambda>_. Some 0, \<lambda>_. Some True)\<rparr> id_hash a2 5 None True = Some (a3, int c)"
proof -
  let ?cc = "(\<lambda>_. Some 0, \<lambda>_. Some True) :: cc_view"
  have "isPow2 (4 :: u32)" by (simp add: isPow2_def)
  then obtain a where a: "SetAssocArray_new (LRUReplPolicy_new 8) 8 2 = Some a" "sarray a = replicate 8 0"
    by (simp add: SetAssocArray_new_def Let_def)
  have "lru_ok 8 (LRUReplPolicy_new 8) \<and> view_ok ?cc 8"
    by (simp add: lru_ok_def LRUReplPolicy_new_def view_ok_def view_numSharers_def view_isValid_def)
  with SetAssocArray_new_inv [OF a(1) hash_total_id, of "\<lambda>p. lru_ok 8 p \<and> view_ok ?cc 8"]
  have inv: "sa_inv 8 2 id_hash (\<lambda>p. lru_ok 8 p \<and> view_ok ?cc 8) a" by simp
  have "5 \<notin> set (sarray a)" using a(2) by simp
  from set_assoc_insert_lookup [OF inv _ this refl, of False None True] show ?thesis using a(1) by auto
qed

text \<open>
   Address 0 is the mark of an empty line: a lookup of address 0 in a new set-associative
  array is a hit on the first line of its set, not a miss.
\<close>

theorem set_assoc_zero_hits_empty:
  assumes "SetAssocArray_new s numLines assoc = Some a" "hash_total hf 1"
  shows "\<exists>i. sa_lookup rp hf a 0 req False = Some (a, int i) \<and> i < unat numLines"
proof -
  have wf: "sa_wf (unat numLines) (unat assoc) hf a"
    using SetAssocArray_new_inv [OF assms, of "\<lambda>_. True"] by (simp add: sa_inv_def)
  have arr: "sarray a = replicate (unat numLines) 0"
    using assms(1) by (auto simp: SetAssocArray_new_def Let_def split: if_splits)
  obtain f where f: "sa_first hf a 0 = Some f" "unat (f + sassoc a) = unat f + unat assoc" "unat f + unat assoc \<le> unat numLines"
    using sa_first_total [OF wf, of 0] by metis
  have "0 < unat assoc" using wf by (simp add: sa_wf_def)
  then have ids: "[unat f..<unat (f + sassoc a)] = unat f # [Suc (unat f)..<unat (f + sassoc a)]" "unat f < unat numLines"
    using f(2,3) by (simp_all add: upt_conv_Cons)
  then show ?thesis unfolding sa_lookup_def f(1) Option.bind.bind_lunit ids(1) by (intro exI [of _ "unat f"]) (simp add: arr)
qed

theorem set_assoc_zero_hits_empty_witness:
  "\<exists>a i. SetAssocArray_new (LRUReplPolicy_new 8) 8 2 = Some a
    \<and> sa_lookup \<lparr>rpUpdate = lru_update, rpReplaced = lru_replaced, rpRank = lru_rank False (\<lambda>_. Some 0, \<lambda>_. Some True)\<rparr>
          id_hash a 0 None False = Some (a, int i) \<and> i < 8"
proof -
  let ?rp = "\<lparr>rpUpdate = lru_update, rpReplaced = lru_replaced, rpRank = lru_rank False (\<lambda>_. Some 0, \<lambda>_. Some True)\<rparr>"
  have "isPow2 (4 :: u32)" by (simp add: isPow2_def)
  then obtain a where a: "SetAssocArray_new (LRUReplPolicy_new 8) 8 2 = Some a" by (simp add: SetAssocArray_new_def Let_def)
  from set_assoc_zero_hits_empty [OF this hash_total_id, of ?rp None] show ?thesis using a by auto
qed

end
