(* ===== verification/ZCache.thy ===== *)
theory ZCache
  imports CacheArrays "HOL-Library.Multiset"
begin

text \<open>
  The zcache array \<open>ZArray\<close> of \<open>src/src/cache_arrays.cpp\<close>: a line lives in one of several ways at the position
  its hash gives, a miss walks the lines that could move to make room, and the insertion moves the lines on the path
  from the victim to a position of the new address.
\<close>

section \<open>ZArray\<close>

record ZWalkInfo =
  wpos :: nat
  wline :: nat
  wparent :: int

definition ZWalkInfo_set :: "nat \<Rightarrow> nat \<Rightarrow> int \<Rightarrow> ZWalkInfo" where
  "ZWalkInfo_set p i x = \<lparr>wpos = p, wline = i, wparent = x\<rparr>"

text \<open>The ids a \<open>ZCands\<close> iterates over.\<close>

definition ZCands :: "ZWalkInfo list \<Rightarrow> nat list" where
  "ZCands ws = map wline ws"

record 's ZArray =
  zarray :: "u64 list"
  zlookupArray :: "nat list"
  zrp :: 's
  znumLines :: u32
  znumSets :: u32
  zways :: u32
  zcands :: u32
  zsetMask :: u32
  swapArray :: "nat list"
  swapArrayLen :: nat
  lastCandIdx :: nat
  statSwaps :: u64

definition ZArray_new :: "'s \<Rightarrow> u32 \<Rightarrow> u32 \<Rightarrow> u32 \<Rightarrow> 's ZArray option" where
  "ZArray_new rp numLines ways cands = do {
     _ \<leftarrow> require (ways > 1);
     _ \<leftarrow> require (cands \<ge> ways);
     _ \<leftarrow> require (numLines mod ways = 0);
     let numSets = numLines div ways;
     _ \<leftarrow> require (isPow2 numSets);
     Some \<lparr>zarray = replicate (unat numLines) 0, zlookupArray = [0..<unat numLines], zrp = rp, znumLines = numLines,
       znumSets = numSets, zways = ways, zcands = cands, zsetMask = numSets - 1,
       swapArray = replicate (unat (cands div ways + 2)) 0, swapArrayLen = 0, lastCandIdx = 0, statSwaps = 0\<rparr>
   }"

text \<open>
  \<open>w*numSets + (hf->hash(w, lineAddr) & setMask)\<close>, a 64-bit index in \<open>lookup\<close>; \<open>preinsert\<close> keeps it in
  the 32-bit variable \<open>pos\<close>.
\<close>

definition z_idx :: "hash_fn \<Rightarrow> 's ZArray \<Rightarrow> u32 \<Rightarrow> u64 \<Rightarrow> u64 option" where
  "z_idx hf z w addr = do {
     h \<leftarrow> hf w addr;
     Some (ucast (w * znumSets z) + (h AND ucast (zsetMask z)))
   }"

definition z_pos :: "hash_fn \<Rightarrow> 's ZArray \<Rightarrow> u32 \<Rightarrow> u64 \<Rightarrow> nat option" where
  "z_pos hf z w addr = do {
     i \<leftarrow> z_idx hf z w addr;
     Some (unat (ucast i :: u32))
   }"

fun z_scan :: "'s ReplPolicy \<Rightarrow> hash_fn \<Rightarrow> 's ZArray \<Rightarrow> u64 \<Rightarrow> MemReq option \<Rightarrow> bool \<Rightarrow> nat list \<Rightarrow> ('s ZArray \<times> int) option" where
  "z_scan rp hf z addr req updateReplacement [] = Some (z, -1)"
| "z_scan rp hf z addr req updateReplacement (w # ws) = do {
     i \<leftarrow> z_idx hf z (of_nat w) addr;
     lineId \<leftarrow> aget (zlookupArray z) (unat i);
     x \<leftarrow> aget (zarray z) lineId;
     if x = addr then
       (if updateReplacement then do { s \<leftarrow> rpUpdate rp (zrp z) lineId req; Some (z\<lparr>zrp := s\<rparr>, int lineId) }
        else Some (z, int lineId))
     else z_scan rp hf z addr req updateReplacement ws
   }"

definition z_lookup :: "'s ReplPolicy \<Rightarrow> hash_fn \<Rightarrow> 's ZArray \<Rightarrow> u64 \<Rightarrow> MemReq option \<Rightarrow> bool \<Rightarrow> ('s ZArray \<times> int) option" where
  "z_lookup rp hf z addr req updateReplacement = do {
     _ \<leftarrow> require (addr \<noteq> 0);
     z_scan rp hf z addr req updateReplacement [0..<unat (zways z)]
   }"

text \<open>The walk: the candidates, their number and \<open>all_valid\<close>.  Entries not yet written are never read.\<close>

record z_walk =
  candidates :: "ZWalkInfo list"
  numCandidates :: nat
  all_valid :: bool

fun z_seeds :: "hash_fn \<Rightarrow> 's ZArray \<Rightarrow> u64 \<Rightarrow> nat list \<Rightarrow> z_walk \<Rightarrow> z_walk option" where
  "z_seeds hf z addr [] k = Some k"
| "z_seeds hf z addr (w # ws) k = do {
     p \<leftarrow> z_pos hf z (of_nat w) addr;
     lineId \<leftarrow> aget (zlookupArray z) p;
     c \<leftarrow> aset (candidates k) w (ZWalkInfo_set p lineId (-1));
     x \<leftarrow> aget (zarray z) lineId;
     z_seeds hf z addr ws (k\<lparr>candidates := c, all_valid := all_valid k \<and> x \<noteq> 0\<rparr>)
   }"

fun z_expand :: "hash_fn \<Rightarrow> 's ZArray \<Rightarrow> nat \<Rightarrow> nat \<Rightarrow> u64 \<Rightarrow> nat list \<Rightarrow> z_walk \<Rightarrow> z_walk option" where
  "z_expand hf z fringeStart fringeId fringeAddr [] k = Some k"
| "z_expand hf z fringeStart fringeId fringeAddr (w # ws) k = do {
     p \<leftarrow> z_pos hf z (of_nat w) fringeAddr;
     lineId \<leftarrow> aget (zlookupArray z) p;
     c \<leftarrow> aset (candidates k) (numCandidates k) (ZWalkInfo_set p lineId (int fringeStart));
     x \<leftarrow> aget (zarray z) lineId;
     z_expand hf z fringeStart fringeId fringeAddr ws
       (k\<lparr>candidates := c, all_valid := all_valid k \<and> x \<noteq> 0, numCandidates := numCandidates k + of_bool (lineId \<noteq> fringeId)\<rparr>)
   }"

text \<open>The breadth-first expansion; a run that does not end is \<open>None\<close>.\<close>

partial_function (option) z_bfs :: "hash_fn \<Rightarrow> 's ZArray \<Rightarrow> nat \<Rightarrow> z_walk \<Rightarrow> z_walk option" where
  "z_bfs hf z fringeStart k =
     (if numCandidates k < unat (zcands z) \<and> all_valid k then do {
        c \<leftarrow> aget (candidates k) fringeStart;
        let fringeId = wline c;
        fringeAddr \<leftarrow> aget (zarray z) fringeId;
        _ \<leftarrow> require (fringeAddr \<noteq> 0);
        k' \<leftarrow> z_expand hf z fringeStart fringeId fringeAddr [0..<unat (zways z)] k;
        z_bfs hf z (fringeStart + 1) k'
      }
      else Some k)"

text \<open>The least index whose candidate is the given line.\<close>

fun z_minIdx :: "nat \<Rightarrow> ZWalkInfo list \<Rightarrow> nat \<Rightarrow> nat option" where
  "z_minIdx best [] i = None"
| "z_minIdx best (c # cs) i = (if wline c = best then Some i else z_minIdx best cs (i + 1))"

text \<open>The path from a candidate to its seed, written into the swap array; parents come earlier.\<close>

partial_function (option) z_path :: "ZWalkInfo list \<Rightarrow> int \<Rightarrow> nat \<Rightarrow> nat list \<Rightarrow> (nat list \<times> nat) option" where
  "z_path cs i swapIdx sw =
     (if i \<ge> 0 then do {
        c \<leftarrow> aget cs (nat i);
        sw' \<leftarrow> aset sw swapIdx (wpos c);
        z_path cs (wparent c) (swapIdx + 1) sw'
      }
      else Some (sw, swapIdx))"

definition z_preinsert :: "'s ReplPolicy \<Rightarrow> hash_fn \<Rightarrow> 's ZArray \<Rightarrow> u64 \<Rightarrow> MemReq option \<Rightarrow> ('s ZArray \<times> nat \<times> u64) option" where
  "z_preinsert rp hf z addr req = do {
     let k0 = \<lparr>candidates = replicate (unat (zcands z + zways z)) (ZWalkInfo_set 0 0 0), numCandidates = unat (zways z), all_valid = True\<rparr>;
     k1 \<leftarrow> z_seeds hf z addr [0..<unat (zways z)] k0;
     k \<leftarrow> z_bfs hf z 0 k1;
     _ \<leftarrow> require (\<not> all_valid k \<or> numCandidates k \<ge> unat (zcands z));
     let num = (if numCandidates k > unat (zcands z) then unat (zcands z) else numCandidates k);
     let cs = take num (candidates k);
     (s, best) \<leftarrow> rpRank rp (zrp z) req (ZCands cs);
     _ \<leftarrow> require (best < unat (znumLines z));
     minIdx \<leftarrow> z_minIdx best cs 0;
     (sw, len) \<leftarrow> z_path (candidates k) (int minIdx) 0 (swapArray z);
     _ \<leftarrow> require (len > 0);
     wb \<leftarrow> aget (zarray z) best;
     Some (z\<lparr>zrp := s, lastCandIdx := minIdx, swapArray := sw, swapArrayLen := len\<rparr>, best, wb)
   }"

fun z_swaps :: "nat list \<Rightarrow> nat list \<Rightarrow> nat list \<Rightarrow> nat list option" where
  "z_swaps sw [] la = Some la"
| "z_swaps sw (i # is) la = do {
     p \<leftarrow> aget sw i;
     q \<leftarrow> aget sw (i + 1);
     l \<leftarrow> aget la q;
     la' \<leftarrow> aset la p l;
     z_swaps sw is la'
   }"

definition z_postinsert :: "'s ReplPolicy \<Rightarrow> 's ZArray \<Rightarrow> u64 \<Rightarrow> MemReq option \<Rightarrow> nat \<Rightarrow> 's ZArray option" where
  "z_postinsert rp z addr req candidate = do {
     p0 \<leftarrow> aget (swapArray z) 0;
     l0 \<leftarrow> aget (zlookupArray z) p0;
     _ \<leftarrow> require (l0 = candidate);
     la \<leftarrow> z_swaps (swapArray z) [0..<swapArrayLen z - 1] (zlookupArray z);
     pe \<leftarrow> aget (swapArray z) (swapArrayLen z - 1);
     la' \<leftarrow> aset la pe candidate;
     s \<leftarrow> rpReplaced rp (zrp z) candidate;
     arr \<leftarrow> aset (zarray z) candidate addr;
     s' \<leftarrow> rpUpdate rp s candidate req;
     Some (z\<lparr>zlookupArray := la', zarray := arr, zrp := s', statSwaps := statSwaps z + of_nat (swapArrayLen z - 1)\<rparr>)
   }"

section \<open>Positions\<close>

definition z_wf :: "nat \<Rightarrow> hash_fn \<Rightarrow> 's ZArray \<Rightarrow> bool" where
  "z_wf n hf z = (length (zarray z) = n \<and> length (zlookupArray z) = n \<and> distinct (zlookupArray z) \<and> set (zlookupArray z) \<subseteq> {..<n}
     \<and> unat (znumLines z) = n \<and> isPow2 (znumSets z) \<and> zsetMask z = znumSets z - 1 \<and> n = unat (zways z) * unat (znumSets z)
     \<and> 1 < zways z \<and> zways z \<le> zcands z \<and> unat (zcands z) + unat (zways z) < 2 ^ 31
     \<and> length (swapArray z) = unat (zcands z div zways z + 2) \<and> hash_total hf (unat (zways z)))"

lemma z_wfD:
  assumes "z_wf n hf z"
  shows "length (zarray z) = n" "length (zlookupArray z) = n" "distinct (zlookupArray z)" "set (zlookupArray z) \<subseteq> {..<n}"
    "unat (znumLines z) = n" "1 < unat (zways z)" "unat (zways z) \<le> unat (zcands z)" "unat (zcands z) + unat (zways z) < 2 ^ 31"
    "length (swapArray z) = unat (zcands z) div unat (zways z) + 2" "hash_total hf (unat (zways z))"
    "n = unat (zways z) * unat (znumSets z)" "n < 2 ^ 32"
proof -
  have "unat (zcands z div zways z + 2) = unat (zcands z) div unat (zways z) + 2"
  proof -
    have "unat (zcands z) div unat (zways z) \<le> unat (zcands z)" by simp
    moreover have "unat (zcands z) < 2147483648" using assms by (simp add: z_wf_def)
    ultimately have "unat (zcands z div zways z) + 2 < 4294967296" unfolding unat_div by linarith
    then show ?thesis by (subst unat_add_no_wrap) (simp_all add: unat_div)
  qed
  then show "length (swapArray z) = unat (zcands z) div unat (zways z) + 2" using assms by (simp add: z_wf_def)
  show "1 < unat (zways z)" "unat (zways z) \<le> unat (zcands z)" using assms by (simp_all add: z_wf_def word_less_nat_alt word_le_nat_alt)
  show "n < 2 ^ 32" using assms unat_u32_lt [of "znumLines z"] by (auto simp: z_wf_def)
  show "set (zlookupArray z) \<subseteq> {..<n}" using assms unfolding z_wf_def by blast
qed (use assms in \<open>simp_all add: z_wf_def\<close>)

text \<open>The position of an address in way \<open>w\<close>.\<close>

definition zp :: "hash_fn \<Rightarrow> 's ZArray \<Rightarrow> nat \<Rightarrow> u64 \<Rightarrow> nat" where
  "zp hf z w addr = (case z_pos hf z (of_nat w) addr of None \<Rightarrow> 0 | Some p \<Rightarrow> p)"

lemma z_pos_total:
  assumes wf: "z_wf n hf z" and w: "w < unat (zways z)"
  shows "z_pos hf z (of_nat w) addr = Some (zp hf z w addr)" "zp hf z w addr < n"
    "zp hf z w addr div unat (znumSets z) = w" "\<exists>i. z_idx hf z (of_nat w) addr = Some i \<and> unat i = zp hf z w addr"
proof -
  have uw: "unat (of_nat w :: u32) = w" using less_trans [OF w unat_u32_lt] by (simp add: unat_of_nat take_bit_nat_eq_self)
  obtain h where h: "hf (of_nat w) addr = Some h" using wf w uw by (fastforce simp: z_wf_def hash_total_def)
  let ?m = "unat (h AND ucast (zsetMask z))" and ?s = "unat (znumSets z)"
  have m: "?m < ?s" using mask_below [of "znumSets z" h] wf by (simp add: z_wf_def)
  have "Suc w * ?s \<le> unat (zways z) * ?s" using w by (intro mult_le_mono1) simp
  then have le: "w * ?s + ?s \<le> n" and n: "n < 2 ^ 32" using wf unat_u32_lt [of "znumLines z"] by (auto simp: z_wf_def)
  have "unat (of_nat w * znumSets z :: u32) = w * ?s" using le n uw m by (simp add: unat_word_ariths)
  define x where "x = (ucast (of_nat w * znumSets z :: u32) + (h AND ucast (zsetMask z)) :: u64)"
  have x: "unat x = w * ?s + ?m" unfolding x_def
    using \<open>unat (of_nat w * znumSets z :: u32) = w * ?s\<close> le n m by (subst unat_add_no_wrap) simp_all
  then have "unat (ucast x :: u32) = w * ?s + ?m"
    using le n m by (subst unat_ucast_down) simp_all
  moreover have idx: "z_idx hf z (of_nat w) addr = Some x" by (simp add: z_idx_def h x_def)
  ultimately have p: "z_pos hf z (of_nat w) addr = Some (w * ?s + ?m)" by (simp add: z_pos_def)
  then have zp: "zp hf z w addr = w * ?s + ?m" by (simp add: zp_def)
  show "z_pos hf z (of_nat w) addr = Some (zp hf z w addr)" using p zp by simp
  show "zp hf z w addr < n" using zp le m by simp
  show "zp hf z w addr div ?s = w" using zp m by simp
  show "\<exists>i. z_idx hf z (of_nat w) addr = Some i \<and> unat i = zp hf z w addr" using idx x zp by simp
qed

lemma zp_frame [simp]:
  "zp hf (z\<lparr>zrp := s\<rparr>) = zp hf z" "zp hf (z\<lparr>zarray := xs\<rparr>) = zp hf z" "zp hf (z\<lparr>zlookupArray := la\<rparr>) = zp hf z"
  "zp hf (z\<lparr>swapArray := la\<rparr>) = zp hf z" "zp hf (z\<lparr>swapArrayLen := i\<rparr>) = zp hf z" "zp hf (z\<lparr>lastCandIdx := i\<rparr>) = zp hf z"
  "zp hf (z\<lparr>statSwaps := c\<rparr>) = zp hf z"
  by (simp_all add: zp_def z_pos_def z_idx_def fun_eq_iff)

text \<open>Every line that holds an address sits at a position of that address.\<close>

definition z_placed :: "hash_fn \<Rightarrow> 's ZArray \<Rightarrow> bool" where
  "z_placed hf z = (\<forall>p < length (zlookupArray z). let x = zarray z ! (zlookupArray z ! p)
     in x \<noteq> 0 \<longrightarrow> (\<exists>w < unat (zways z). p = zp hf z w x))"

definition z_inv :: "nat \<Rightarrow> hash_fn \<Rightarrow> ('s \<Rightarrow> bool) \<Rightarrow> 's ZArray \<Rightarrow> bool" where
  "z_inv n hf P z = (z_wf n hf z \<and> z_placed hf z \<and> addrs_unique (zarray z) \<and> P (zrp z))"

lemma perm_surj:
  assumes "distinct xs" "set xs \<subseteq> {..<n}" "length xs = n" "l < n"
  shows "\<exists>p < n. xs ! p = l"
proof -
  have "card (set xs) = n" using assms(1,3) by (simp add: distinct_card)
  then have "set xs = {..<n}" using assms(2) by (intro card_subset_eq) auto
  then show ?thesis using assms(3,4) by (metis in_set_conv_nth lessThan_iff)
qed

lemma z_line_pos:
  assumes "z_wf n hf z" "z_placed hf z" "l < n" "zarray z ! l \<noteq> 0"
  shows "\<exists>w < unat (zways z). zlookupArray z ! zp hf z w (zarray z ! l) = l"
proof -
  obtain p where p: "p < n" "zlookupArray z ! p = l"
    using perm_surj [of "zlookupArray z" n l] assms(1,3) by (auto simp: z_wf_def)
  then show ?thesis using assms(2,4) z_wfD(2) [OF assms(1)] unfolding z_placed_def Let_def by metis
qed

section \<open>Lookup\<close>

lemma z_lookup_step:
  assumes "z_wf n hf z" "w < unat (zways z)"
  shows "zlookupArray z ! zp hf z w addr < n"
  using z_pos_total(2) [OF assms, of addr] z_wfD(2,4) [OF assms(1)] nth_mem by (metis lessThan_iff subsetD)

lemma z_scan_miss:
  assumes wf: "z_wf n hf z" and "addr \<notin> set (zarray z)"
  shows "set ws \<subseteq> {..<unat (zways z)} \<Longrightarrow> z_scan rp hf z addr req upd ws = Some (z, -1)"
proof (induction ws)
  case Nil
  then show ?case by simp
next
  case (Cons w ws)
  have w: "w < unat (zways z)" using Cons.prems by simp
  note pos = z_pos_total [OF wf w, of addr]
  have len: "length (zlookupArray z) = n" "length (zarray z) = n" using wf by (simp_all add: z_wf_def)
  have "zarray z ! (zlookupArray z ! zp hf z w addr) \<noteq> addr"
    using assms(2) z_lookup_step [OF wf w] len by (metis nth_mem)
  then show ?case using Cons pos len z_lookup_step [OF wf w, of addr] by auto
qed

lemma z_scan_hit:
  assumes wf: "z_wf n hf z" and un: "addrs_unique (zarray z)" and l: "l < n" "zarray z ! l = addr" "addr \<noteq> 0"
    and upd: "upd \<longrightarrow> (\<exists>s'. rpUpdate rp (zrp z) l req = Some s' \<and> P s')" and P: "P (zrp z)"
  shows "set ws \<subseteq> {..<unat (zways z)} \<Longrightarrow> w \<in> set ws \<Longrightarrow> zlookupArray z ! zp hf z w addr = l \<Longrightarrow>
    \<exists>s'. z_scan rp hf z addr req upd ws = Some (z\<lparr>zrp := s'\<rparr>, int l) \<and> P s'"
proof (induction ws)
  case Nil
  then show ?case by simp
next
  case (Cons v ws)
  have v: "v < unat (zways z)" using Cons.prems(1) by simp
  note pos = z_pos_total [OF wf v, of addr]
  have len: "length (zlookupArray z) = n" "length (zarray z) = n" using wf by (simp_all add: z_wf_def)
  note lt = z_lookup_step [OF wf v, of addr]
  show ?case
  proof (cases "zarray z ! (zlookupArray z ! zp hf z v addr) = addr")
    case True
    then have eq: "zlookupArray z ! zp hf z v addr = l"
      using addrs_uniqueD [OF un] lt l len by metis
    show ?thesis
    proof (cases upd)
      case True
      then obtain s' where "rpUpdate rp (zrp z) l req = Some s'" "P s'" using upd by blast
      then show ?thesis using eq pos len l True by (intro exI [of _ s']) auto
    next
      case False
      then show ?thesis using eq pos len l P by (intro exI [of _ "zrp z"]) auto
    qed
  next
    case False
    then have "w \<in> set ws" using Cons.prems(2,3) l(2) by auto
    then show ?thesis using Cons False pos len lt by auto
  qed
qed

section \<open>The walk\<close>

definition z_entry :: "hash_fn \<Rightarrow> 's ZArray \<Rightarrow> u64 \<Rightarrow> ZWalkInfo list \<Rightarrow> nat \<Rightarrow> bool" where
  "z_entry hf z addr C i = (wpos (C ! i) < length (zlookupArray z) \<and> wline (C ! i) = zlookupArray z ! wpos (C ! i)
     \<and> ((wparent (C ! i) = -1 \<and> (\<exists>w < unat (zways z). wpos (C ! i) = zp hf z w addr))
       \<or> (\<exists>j. wparent (C ! i) = int j \<and> j + unat (zways z) \<le> i
              \<and> (\<exists>w < unat (zways z). wpos (C ! i) = zp hf z w (zarray z ! wline (C ! j))))))"

text \<open>
  Round \<open>f\<close> of the walk, with the ways \<open>D\<close> of candidate \<open>f\<close> expanded: parents do not decrease along
  the candidates, and every line that an expanded candidate leads to is among its children.
\<close>

definition z_children :: "hash_fn \<Rightarrow> 's ZArray \<Rightarrow> ZWalkInfo list \<Rightarrow> nat \<Rightarrow> nat \<Rightarrow> nat \<Rightarrow> bool" where
  "z_children hf z C num j w = (let l = zlookupArray z ! zp hf z w (zarray z ! wline (C ! j))
     in l = wline (C ! j) \<or> (\<exists>i < num. wparent (C ! i) = int j \<and> wline (C ! i) = l))"

definition z_round :: "hash_fn \<Rightarrow> 's ZArray \<Rightarrow> u64 \<Rightarrow> nat \<Rightarrow> nat set \<Rightarrow> z_walk \<Rightarrow> bool" where
  "z_round hf z addr f D k =
     (length (candidates k) = unat (zcands z) + unat (zways z) \<and> f + unat (zways z) \<le> numCandidates k
     \<and> (\<forall>i < numCandidates k. z_entry hf z addr (candidates k) i)
     \<and> (\<forall>i < numCandidates k. wparent (candidates k ! i) \<le> int f)
     \<and> (\<forall>i' < numCandidates k. \<forall>i < i'. wparent (candidates k ! i) \<le> wparent (candidates k ! i'))
     \<and> (\<forall>j w. w < unat (zways z) \<longrightarrow> (j < f \<or> j = f \<and> w \<in> D) \<longrightarrow> z_children hf z (candidates k) (numCandidates k) j w)
     \<and> (all_valid k \<longrightarrow> (\<forall>i < numCandidates k. zarray z ! wline (candidates k ! i) \<noteq> 0)))"

lemma z_entry_update:
  "i < m \<Longrightarrow> z_entry hf z addr C i \<Longrightarrow> z_entry hf z addr (C[m := e]) i"
  unfolding z_entry_def by (auto simp: nth_list_update)

lemma z_children_update:
  assumes "z_children hf z C m j w" "j < m" "m \<le> m'"
  shows "z_children hf z (C[m := e]) m' j w"
proof -
  have C: "C[m := e] ! i = C ! i" if "i < m" for i using that by simp
  let ?l = "zlookupArray z ! zp hf z w (zarray z ! wline (C ! j))"
  from assms(1) consider "?l = wline (C ! j)" | i where "i < m" "wparent (C ! i) = int j" "wline (C ! i) = ?l"
    unfolding z_children_def Let_def by blast
  then show ?thesis
  proof cases
    case 1
    then show ?thesis unfolding z_children_def Let_def C [OF assms(2)] by simp
  next
    case 2
    then show ?thesis unfolding z_children_def Let_def C [OF assms(2)]
      using C [OF 2(1)] assms(3) by (intro disjI2 exI [of _ i]) simp
  qed
qed

lemma z_round_step:
  assumes wf: "z_wf n hf z" and rd: "z_round hf z addr f D k" and w: "w < unat (zways z)"
    and room: "numCandidates k < length (candidates k)" and fid: "fid = wline (candidates k ! f)" and fa: "fa = zarray z ! fid"
    and line: "lineId = zlookupArray z ! zp hf z w fa"
    and k': "k' = k\<lparr>candidates := (candidates k)[numCandidates k := ZWalkInfo_set (zp hf z w fa) lineId (int f)],
        all_valid := all_valid k \<and> zarray z ! lineId \<noteq> 0, numCandidates := numCandidates k + of_bool (lineId \<noteq> fid)\<rparr>"
  shows "z_round hf z addr f (insert w D) k'"
proof -
  let ?C = "candidates k" and ?m = "numCandidates k" and ?e = "ZWalkInfo_set (zp hf z w fa) lineId (int f)"
  let ?C' = "?C[?m := ?e]" and ?W = "unat (zways z)"
  have fm: "f + ?W \<le> ?m" and f: "f < ?m" using rd z_wfD(6) [OF wf] by (auto simp: z_round_def)
  have old: "i < ?m \<Longrightarrow> ?C' ! i = ?C ! i" for i by simp
  have new: "?C' ! ?m = ?e" using room by simp
  have ent: "z_entry hf z addr ?C' i" if "i < ?m" for i
  proof -
    have "z_entry hf z addr ?C i" using rd that by (simp add: z_round_def)
    then show ?thesis by (rule z_entry_update [OF that])
  qed
  have chl: "z_children hf z ?C' m' j v" if "v < ?W" "j < f \<or> j = f \<and> v \<in> D" "?m \<le> m'" for j v m'
    using z_children_update [of hf z ?C ?m j v m' ?e] rd that f by (auto simp: z_round_def)
  have ent_new: "z_entry hf z addr ?C' ?m"
    unfolding z_entry_def new using z_pos_total(2) [OF wf w, of fa] z_wfD(2) [OF wf] line fm w fa fid f
    by (auto simp: ZWalkInfo_set_def)
  show ?thesis
  proof (cases "lineId = fid")
    case True
    have "z_children hf z ?C' ?m f w" using True line fid fa f by (simp add: z_children_def Let_def)
    then have "z_children hf z ?C' ?m j v" if "v < ?W" "j < f \<or> j = f \<and> v \<in> insert w D" for j v
      using chl [of v j ?m] that by auto
    then show ?thesis using rd True ent unfolding k' z_round_def by (simp add: old)
  next
    case False
    have "z_children hf z ?C' (Suc ?m) f w"
      using new line fid fa f unfolding z_children_def Let_def by (auto simp: ZWalkInfo_set_def intro!: exI [of _ ?m])
    then have c: "z_children hf z ?C' (Suc ?m) j v" if "v < ?W" "j < f \<or> j = f \<and> v \<in> insert w D" for j v
      using chl [of v j "Suc ?m"] that by auto
    have par: "wparent ?e = int f" "wline ?e = lineId" by (simp_all add: ZWalkInfo_set_def)
    have 1: "\<forall>i < Suc ?m. z_entry hf z addr ?C' i" using ent ent_new by (auto simp: less_Suc_eq)
    have 2: "\<forall>i < Suc ?m. wparent (?C' ! i) \<le> int f" using rd new par old by (auto simp: less_Suc_eq z_round_def)
    have 3: "\<forall>i' < Suc ?m. \<forall>i < i'. wparent (?C' ! i) \<le> wparent (?C' ! i')"
      using rd new par old by (auto simp: less_Suc_eq z_round_def)
    have 4: "all_valid k \<and> zarray z ! lineId \<noteq> 0 \<longrightarrow> (\<forall>i < Suc ?m. zarray z ! wline (?C' ! i) \<noteq> 0)"
      using rd new par old by (auto simp: less_Suc_eq z_round_def)
    show ?thesis using rd False 1 2 3 4 c fm unfolding k' z_round_def by simp
  qed
qed

lemma z_expand_total:
  assumes wf: "z_wf n hf z" and fid: "fid = wline (candidates k ! f)" and fa: "fa = zarray z ! fid"
  shows "z_round hf z addr f D k \<Longrightarrow> set ws \<subseteq> {..<unat (zways z)} \<Longrightarrow> fid = wline (candidates k ! f) \<Longrightarrow>
    numCandidates k + length ws \<le> length (candidates k) \<Longrightarrow>
    \<exists>k'. z_expand hf z f fid fa ws k = Some k' \<and> z_round hf z addr f (D \<union> set ws) k' \<and> numCandidates k \<le> numCandidates k'
      \<and> numCandidates k' \<le> numCandidates k + length ws
      \<and> ((\<exists>w \<in> set ws. zlookupArray z ! zp hf z w fa \<noteq> fid) \<longrightarrow> numCandidates k < numCandidates k')"
proof (induction ws arbitrary: k D)
  case Nil
  then show ?case by simp
next
  case (Cons w ws)
  have w: "w < unat (zways z)" and ws: "set ws \<subseteq> {..<unat (zways z)}" using Cons.prems(2) by auto
  let ?l = "zlookupArray z ! zp hf z w fa"
  let ?k = "k\<lparr>candidates := (candidates k)[numCandidates k := ZWalkInfo_set (zp hf z w fa) ?l (int f)],
        all_valid := all_valid k \<and> zarray z ! ?l \<noteq> 0, numCandidates := numCandidates k + of_bool (?l \<noteq> fid)\<rparr>"
  have room: "numCandidates k < length (candidates k)" using Cons.prems(4) by simp
  have rd: "z_round hf z addr f (insert w D) ?k"
    by (rule z_round_step [OF wf Cons.prems(1) w room Cons.prems(3) fa refl refl])
  have "f < numCandidates k" using Cons.prems(1) z_wfD(6) [OF wf] by (auto simp: z_round_def)
  then have fid': "fid = wline (candidates ?k ! f)" using Cons.prems(3) by simp
  have room': "numCandidates ?k + length ws \<le> length (candidates ?k)" using Cons.prems(4) by simp
  have run: "z_expand hf z f fid fa (w # ws) k = z_expand hf z f fid fa ws ?k"
    using z_pos_total(1,2) [OF wf w, of fa] z_lookup_step [OF wf w, of fa] z_wfD(1,2) [OF wf] room by simp
  from Cons.IH [OF rd ws fid' room'] obtain k' where k': "z_expand hf z f fid fa ws ?k = Some k'"
      "z_round hf z addr f (insert w D \<union> set ws) k'" "numCandidates ?k \<le> numCandidates k'"
      "numCandidates k' \<le> numCandidates ?k + length ws"
      "(\<exists>w \<in> set ws. zlookupArray z ! zp hf z w fa \<noteq> fid) \<longrightarrow> numCandidates ?k < numCandidates k'" by blast
  show ?case
  proof (intro exI conjI impI)
    show "z_expand hf z f fid fa (w # ws) k = Some k'" using run k'(1) by simp
    show "z_round hf z addr f (D \<union> set (w # ws)) k'" using k'(2) by simp
    show "numCandidates k \<le> numCandidates k'" using k'(3) by simp
    have "numCandidates ?k \<le> numCandidates k + 1" by simp
    then show "numCandidates k' \<le> numCandidates k + length (w # ws)" using k'(4) by simp
    assume "\<exists>w \<in> set (w # ws). zlookupArray z ! zp hf z w fa \<noteq> fid"
    then show "numCandidates k < numCandidates k'" using k'(3,5) by (cases "?l = fid") auto
  qed
qed

text \<open>Two ways of an address lead to different lines, so a candidate always has a child.\<close>

lemma z_child_exists:
  assumes wf: "z_wf n hf z"
  shows "\<exists>w \<in> {..<unat (zways z)}. zlookupArray z ! zp hf z w fa \<noteq> l"
proof -
  have w: "0 < unat (zways z)" "1 < unat (zways z)" using z_wfD(6) [OF wf] by simp_all
  have "zp hf z 0 fa \<noteq> zp hf z 1 fa"
    using z_pos_total(3) [OF wf w(1), of fa] z_pos_total(3) [OF wf w(2), of fa] by auto
  then have "zlookupArray z ! zp hf z 0 fa \<noteq> zlookupArray z ! zp hf z 1 fa"
    using z_pos_total(2) [OF wf w(1), of fa] z_pos_total(2) [OF wf w(2), of fa] z_wfD(2,3) [OF wf]
    by (simp add: nth_eq_iff_index_eq)
  then have "zlookupArray z ! zp hf z 0 fa \<noteq> l \<or> zlookupArray z ! zp hf z 1 fa \<noteq> l" by metis
  then show ?thesis using w by blast
qed

lemma z_round_next:
  assumes wf: "z_wf n hf z" and rd: "z_round hf z addr f D k" and D: "{..<unat (zways z)} \<subseteq> D"
    and grow: "f + 1 + unat (zways z) \<le> numCandidates k"
  shows "z_round hf z addr (f + 1) {} k"
proof -
  have "z_children hf z (candidates k) (numCandidates k) j w" if "w < unat (zways z)" "j < f + 1" for j w
  proof -
    have "j < f \<or> j = f \<and> w \<in> D" using that D by auto
    then show ?thesis using rd that(1) unfolding z_round_def by blast
  qed
  then show ?thesis using rd grow unfolding z_round_def by (auto dest!: spec)
qed

lemma z_bfs_total:
  assumes wf: "z_wf n hf z"
  shows "z_round hf z addr f {} k \<Longrightarrow>
    \<exists>k' f'. z_bfs hf z f k = Some k' \<and> z_round hf z addr f' {} k' \<and> (\<not> all_valid k' \<or> unat (zcands z) \<le> numCandidates k')"
proof (induction "unat (zcands z) - numCandidates k" arbitrary: f k rule: less_induct)
  case less
  show ?case
  proof (cases "numCandidates k < unat (zcands z) \<and> all_valid k")
    case False
    then have "z_bfs hf z f k = Some k" by (subst z_bfs.simps) (simp only: if_False)
    then show ?thesis using less.prems False by auto
  next
    case True
    have len: "length (candidates k) = unat (zcands z) + unat (zways z)" and f: "f + unat (zways z) \<le> numCandidates k"
      using less.prems by (simp_all add: z_round_def)
    have fm: "f < numCandidates k" using f z_wfD(6) [OF wf] by simp
    let ?fid = "wline (candidates k ! f)"
    have ent: "z_entry hf z addr (candidates k) f" using less.prems fm by (simp add: z_round_def)
    have fid: "?fid < n" using ent z_wfD(2,4) [OF wf] nth_mem unfolding z_entry_def by (metis lessThan_iff subsetD)
    have fa: "zarray z ! ?fid \<noteq> 0" using less.prems True fm by (simp add: z_round_def)
    obtain k' where k': "z_expand hf z f ?fid (zarray z ! ?fid) [0..<unat (zways z)] k = Some k'"
        "z_round hf z addr f ({} \<union> set [0..<unat (zways z)]) k'"
        "(\<exists>w \<in> set [0..<unat (zways z)]. zlookupArray z ! zp hf z w (zarray z ! ?fid) \<noteq> ?fid) \<longrightarrow> numCandidates k < numCandidates k'"
      using z_expand_total [OF wf refl refl less.prems, of "[0..<unat (zways z)]"] True len by force
    have grow: "numCandidates k < numCandidates k'" using k'(3) z_child_exists [OF wf] by (auto simp: atLeast0LessThan)
    have rd: "z_round hf z addr (f + 1) {} k'"
      using z_round_next [OF wf k'(2)] f grow by (auto simp: atLeast0LessThan)
    have run: "z_bfs hf z f k = z_bfs hf z (f + 1) k'"
      by (subst z_bfs.simps) (use True fm fid fa k'(1) len z_wfD(1) [OF wf] in \<open>simp add: Let_def\<close>)
    have "unat (zcands z) - numCandidates k' < unat (zcands z) - numCandidates k" using True grow by linarith
    from less.hyps [OF this rd] show ?thesis using run by simp
  qed
qed

text \<open>The seeds.\<close>

lemma z_seeds_total:
  assumes wf: "z_wf n hf z"
  shows "v \<le> unat (zways z) \<Longrightarrow> length (candidates k) = unat (zcands z) + unat (zways z) \<Longrightarrow>
    (\<forall>i < v. candidates k ! i = ZWalkInfo_set (zp hf z i addr) (zlookupArray z ! zp hf z i addr) (-1)) \<Longrightarrow>
    (all_valid k \<longrightarrow> (\<forall>i < v. zarray z ! wline (candidates k ! i) \<noteq> 0)) \<Longrightarrow>
    \<exists>k'. z_seeds hf z addr [v..<unat (zways z)] k = Some k' \<and> length (candidates k') = unat (zcands z) + unat (zways z)
      \<and> numCandidates k' = numCandidates k
      \<and> (\<forall>i < unat (zways z). candidates k' ! i = ZWalkInfo_set (zp hf z i addr) (zlookupArray z ! zp hf z i addr) (-1))
      \<and> (all_valid k' \<longrightarrow> (\<forall>i < unat (zways z). zarray z ! wline (candidates k' ! i) \<noteq> 0))"
proof (induction "unat (zways z) - v" arbitrary: v k)
  case 0
  then show ?case by simp
next
  case (Suc d)
  have v: "v < unat (zways z)" using Suc.hyps(2) by simp
  let ?l = "zlookupArray z ! zp hf z v addr"
  let ?k = "k\<lparr>candidates := (candidates k)[v := ZWalkInfo_set (zp hf z v addr) ?l (-1)], all_valid := all_valid k \<and> zarray z ! ?l \<noteq> 0\<rparr>"
  have run: "z_seeds hf z addr [v..<unat (zways z)] k = z_seeds hf z addr [Suc v..<unat (zways z)] ?k"
    using v z_pos_total(1,2) [OF wf v, of addr] z_lookup_step [OF wf v, of addr] z_wfD(1,2) [OF wf] Suc.prems(2)
    by (simp add: upt_conv_Cons)
  have new: "candidates ?k ! v = ZWalkInfo_set (zp hf z v addr) ?l (-1)" using v Suc.prems(2) by simp
  have old: "candidates ?k ! i = candidates k ! i" if "i < v" for i using that by simp
  have a: "\<forall>i < Suc v. candidates ?k ! i = ZWalkInfo_set (zp hf z i addr) (zlookupArray z ! zp hf z i addr) (-1)"
    using new old Suc.prems(3) by (metis less_Suc_eq)
  have "wline (candidates ?k ! v) = ?l" using new by (simp add: ZWalkInfo_set_def)
  then have b: "all_valid ?k \<longrightarrow> (\<forall>i < Suc v. zarray z ! wline (candidates ?k ! i) \<noteq> 0)"
    using old Suc.prems(4) by (auto simp: less_Suc_eq simp del: nth_list_update_eq)
  from Suc.hyps(1) [of "Suc v" ?k] Suc.hyps(2) v Suc.prems(2) a b run show ?case by simp
qed

lemma z_walk_total:
  assumes wf: "z_wf n hf z"
  shows "\<exists>k1 k f. z_seeds hf z addr [0..<unat (zways z)] \<lparr>candidates = replicate (unat (zcands z + zways z)) (ZWalkInfo_set 0 0 0),
      numCandidates = unat (zways z), all_valid = True\<rparr> = Some k1 \<and> z_bfs hf z 0 k1 = Some k
    \<and> z_round hf z addr f {} k \<and> (\<not> all_valid k \<or> unat (zcands z) \<le> numCandidates k)"
proof -
  let ?k0 = "\<lparr>candidates = replicate (unat (zcands z + zways z)) (ZWalkInfo_set 0 0 0), numCandidates = unat (zways z), all_valid = True\<rparr>"
  have "unat (zcands z + zways z) = unat (zcands z) + unat (zways z)"
    using z_wfD(8) [OF wf] by (subst unat_add_no_wrap) simp_all
  then have len: "length (candidates ?k0) = unat (zcands z) + unat (zways z)" by simp
  obtain k1 where k1: "z_seeds hf z addr [0..<unat (zways z)] ?k0 = Some k1"
      "length (candidates k1) = unat (zcands z) + unat (zways z)" "numCandidates k1 = unat (zways z)"
      "\<forall>i < unat (zways z). candidates k1 ! i = ZWalkInfo_set (zp hf z i addr) (zlookupArray z ! zp hf z i addr) (-1)"
      "all_valid k1 \<longrightarrow> (\<forall>i < unat (zways z). zarray z ! wline (candidates k1 ! i) \<noteq> 0)"
    using z_seeds_total [OF wf _ len, of 0 addr] by auto
  have "z_entry hf z addr (candidates k1) i" if "i < unat (zways z)" for i
    using k1(4) that z_pos_total(2) [OF wf that, of addr] z_wfD(2) [OF wf] by (auto simp: z_entry_def ZWalkInfo_set_def)
  moreover have "wparent (candidates k1 ! i) = -1" if "i < unat (zways z)" for i
    using k1(4) that by (simp add: ZWalkInfo_set_def)
  ultimately have "z_round hf z addr 0 {} k1" using k1(2,3,5) by (simp add: z_round_def)
  from z_bfs_total [OF wf this] show ?thesis using k1(1) by blast
qed

section \<open>The path of the victim\<close>

lemma z_minIdx_found:
  "best \<in> set (map wline cs) \<Longrightarrow> \<exists>m < length cs. z_minIdx best cs i = Some (i + m) \<and> wline (cs ! m) = best \<and> (\<forall>j < m. wline (cs ! j) \<noteq> best)"
proof (induction cs arbitrary: i)
  case Nil
  then show ?case by simp
next
  case (Cons c cs)
  show ?case
  proof (cases "wline c = best")
    case True
    then show ?thesis by (intro exI [of _ 0]) simp
  next
    case False
    with Cons obtain m where "m < length cs" "z_minIdx best cs (i + 1) = Some (i + 1 + m)" "wline (cs ! m) = best"
        "\<forall>j < m. wline (cs ! j) \<noteq> best" by fastforce
    then show ?thesis using False by (intro exI [of _ "Suc m"]) (auto simp: less_Suc_eq_0_disj)
  qed
qed

text \<open>A chain of candidates from a child to its seed.\<close>

fun z_chain :: "ZWalkInfo list \<Rightarrow> nat list \<Rightarrow> bool" where
  "z_chain C [] = False"
| "z_chain C [i] = (wparent (C ! i) = -1)"
| "z_chain C (i # j # is) = (wparent (C ! i) = int j \<and> z_chain C (j # is))"

lemma z_chain_exists:
  assumes ent: "\<forall>i < num. z_entry hf z addr C i" and W: "0 < unat (zways z)"
  shows "m < num \<Longrightarrow> \<exists>is. z_chain C (m # is) \<and> length is \<le> m div unat (zways z) \<and> (\<forall>i \<in> set is. i < m) \<and> sorted_wrt (>) (m # is)"
proof (induction m rule: less_induct)
  case (less m)
  have "z_entry hf z addr C m" using ent less.prems by blast
  then consider "wparent (C ! m) = -1" | j where "wparent (C ! m) = int j" "j + unat (zways z) \<le> m"
    unfolding z_entry_def by blast
  then show ?case
  proof cases
    case 1
    then show ?thesis by (intro exI [of _ "[]"]) simp
  next
    case 2
    have jm: "j < m" using 2(2) W by linarith
    then obtain js where js: "z_chain C (j # js)" "length js \<le> j div unat (zways z)" "\<forall>i \<in> set js. i < j" "sorted_wrt (>) (j # js)"
      using less.IH [OF jm] less.prems by auto
    have "Suc (j div unat (zways z)) \<le> m div unat (zways z)"
      using div_le_mono [OF 2(2), of "unat (zways z)"] W by (simp add: div_add_self2)
    then have "length (j # js) \<le> m div unat (zways z)" using js(2) by simp
    moreover have "\<forall>i \<in> set (j # js). i < m" using js(3) jm by auto
    ultimately show ?thesis using js(1,4) 2(1) by (intro exI [of _ "j # js"]) simp
  qed
qed

lemma z_path_chain:
  "z_chain C is \<Longrightarrow> \<forall>i \<in> set is. i < length C \<Longrightarrow> s + length is \<le> length sw \<Longrightarrow>
    \<exists>sw'. z_path C (int (hd is)) s sw = Some (sw', s + length is) \<and> length sw' = length sw
      \<and> take (s + length is) sw' = take s sw @ map (\<lambda>i. wpos (C ! i)) is"
proof (induction C "is" arbitrary: s sw rule: z_chain.induct)
  case (1 C)
  then show ?case by simp
next
  case (2 C i)
  let ?sw = "sw[s := wpos (C ! i)]"
  have "z_path C (-1) (s + 1) ?sw = Some (?sw, s + 1)" by (subst z_path.simps) simp
  then have "z_path C (int i) s sw = Some (?sw, s + 1)"
    by (subst z_path.simps) (use 2 in simp)
  then show ?case using 2 by (simp add: take_Suc_conv_app_nth)
next
  case (3 C i j "is")
  let ?sw = "sw[s := wpos (C ! i)]"
  have room: "s + 1 + length (j # is) \<le> length ?sw" using 3(4) by simp
  have "z_path C (int i) s sw = z_path C (int j) (s + 1) ?sw"
    by (subst z_path.simps) (use 3 in simp)
  moreover obtain sw' where "z_path C (int j) (s + 1) ?sw = Some (sw', s + 1 + length (j # is))" "length sw' = length sw"
      "take (s + 1 + length (j # is)) sw' = take (s + 1) ?sw @ map (\<lambda>i. wpos (C ! i)) (j # is)"
    using "3.IH" [OF _ _ room] 3(2,3) by auto
  moreover have "take (s + 1) ?sw = take s sw @ [wpos (C ! i)]" using 3(4) by (simp add: take_Suc_conv_app_nth)
  ultimately show ?case by simp
qed

text \<open>
  In a walk the parent of the first candidate of its line is the first candidate of its own
  line, so the lines on the path of the victim are distinct.
\<close>

definition z_first :: "ZWalkInfo list \<Rightarrow> nat \<Rightarrow> bool" where
  "z_first C i = (\<forall>j < i. wline (C ! j) \<noteq> wline (C ! i))"

lemma z_first_parent:
  assumes wf: "z_wf n hf z" and rd: "z_round hf z addr f {} k" and i: "i < numCandidates k" "z_first (candidates k) i"
    and par: "wparent (candidates k ! i) = int j"
  shows "z_first (candidates k) j"
  unfolding z_first_def
proof (intro allI impI notI)
  let ?C = "candidates k"
  fix j' assume j': "j' < j" and eq: "wline (?C ! j') = wline (?C ! j)"
  have "j \<le> f" using rd i(1) par unfolding z_round_def by fastforce
  have ent: "z_entry hf z addr ?C i" using rd i(1) by (simp add: z_round_def)
  then obtain w where w: "w < unat (zways z)" "wpos (?C ! i) = zp hf z w (zarray z ! wline (?C ! j))"
      and line: "wline (?C ! i) = zlookupArray z ! wpos (?C ! i)" and ji: "j < i"
    using par z_wfD(6) [OF wf] unfolding z_entry_def by fastforce
  have "z_children hf z ?C (numCandidates k) j' w" using rd w(1) j' \<open>j \<le> f\<close> unfolding z_round_def by fastforce
  then have "wline (?C ! i) = wline (?C ! j') \<or> (\<exists>i' < numCandidates k. wparent (?C ! i') = int j' \<and> wline (?C ! i') = wline (?C ! i))"
    unfolding z_children_def Let_def eq using w(2) line by simp
  then show False
  proof
    assume "wline (?C ! i) = wline (?C ! j')"
    then show False using i(2) j' ji unfolding z_first_def by (metis less_trans)
  next
    assume "\<exists>i' < numCandidates k. wparent (?C ! i') = int j' \<and> wline (?C ! i') = wline (?C ! i)"
    then obtain i' where i': "i' < numCandidates k" "wparent (?C ! i') = int j'" "wline (?C ! i') = wline (?C ! i)" by blast
    have "\<not> i' < i" using i(2) i'(3) unfolding z_first_def by blast
    moreover have "i' \<noteq> i" using i'(2) par j' by auto
    ultimately have "i < i'" by simp
    then have "wparent (?C ! i) \<le> wparent (?C ! i')" using rd i'(1) unfolding z_round_def by blast
    then show False using par i'(2) j' by simp
  qed
qed

lemma z_chain_first:
  assumes wf: "z_wf n hf z" and rd: "z_round hf z addr f {} k"
  shows "z_chain (candidates k) is \<Longrightarrow> \<forall>i \<in> set is. i < numCandidates k \<Longrightarrow> z_first (candidates k) (hd is) \<Longrightarrow>
    \<forall>i \<in> set is. z_first (candidates k) i"
proof (induction "is")
  case Nil
  then show ?case by simp
next
  case (Cons i js)
  show ?case
  proof (cases js)
    case Nil
    then show ?thesis using Cons.prems(3) by simp
  next
    case (Cons j ks)
    have c: "wparent (candidates k ! i) = int j" "z_chain (candidates k) js" "i < numCandidates k" "z_first (candidates k) i"
      using Cons.prems Cons by simp_all
    have "z_first (candidates k) (hd js)" using z_first_parent [OF wf rd c(3,4,1)] Cons by simp
    then have "\<forall>i \<in> set js. z_first (candidates k) i" using Cons.IH [OF c(2)] Cons.prems(2) by simp
    then show ?thesis using c(4) by simp
  qed
qed

lemma firsts_distinct:
  "sorted_wrt (>) is \<Longrightarrow> \<forall>i \<in> set is. z_first C i \<Longrightarrow> distinct (map (\<lambda>i. wline (C ! i)) is)"
proof (induction "is")
  case Nil
  then show ?case by simp
next
  case (Cons i "is")
  have "wline (C ! i) \<notin> (\<lambda>i. wline (C ! i)) ` set is"
    using Cons.prems unfolding z_first_def by fastforce
  then show ?case using Cons by simp
qed

section \<open>Moving the lines\<close>

fun z_rot :: "nat list \<Rightarrow> nat list \<Rightarrow> nat \<Rightarrow> nat list" where
  "z_rot la [] c = la"
| "z_rot la [p] c = la[p := c]"
| "z_rot la (p # q # ps) c = z_rot (la[p := la ! q]) (q # ps) c"

lemma z_rot_length [simp]: "length (z_rot la ps c) = length la"
  by (induction la ps c rule: z_rot.induct) auto

lemma z_rot_mset:
  "distinct (p # ps) \<Longrightarrow> set (p # ps) \<subseteq> {..<length la} \<Longrightarrow> mset (z_rot la (p # ps) c) = mset (la[p := c])"
proof (induction la "p # ps" c arbitrary: p ps rule: z_rot.induct)
  case (2 la p c)
  then show ?case by simp
next
  case (3 la p q ps c)
  let ?la = "la[p := c]"
  have ne: "p \<noteq> q" "p < length la" "q < length la" using 3(2,3) by auto
  have "mset (z_rot (la[p := la ! q]) (q # ps) c) = mset ((la[p := la ! q])[q := c])"
    using 3 by simp
  also have "(la[p := la ! q])[q := c] = ?la[p := ?la ! q, q := ?la ! p]" using ne by simp
  also have "mset \<dots> = mset ?la" using ne by (intro mset_swap) simp_all
  finally show ?case by simp
qed

lemma z_rot_other: "p \<notin> set ps \<Longrightarrow> z_rot la ps c ! p = la ! p"
  by (induction la ps c rule: z_rot.induct) auto

lemma z_rot_path:
  "distinct ps \<Longrightarrow> set ps \<subseteq> {..<length la} \<Longrightarrow> t < length ps \<Longrightarrow>
    z_rot la ps c ! (ps ! t) = (if Suc t < length ps then la ! (ps ! Suc t) else c)"
proof (induction la ps c arbitrary: t rule: z_rot.induct)
  case (1 la c)
  then show ?case by simp
next
  case (2 la p c)
  then show ?case by simp
next
  case (3 la p q ps c)
  show ?case
  proof (cases t)
    case 0
    then show ?thesis using 3(2,3) by (simp add: z_rot_other)
  next
    case (Suc u)
    have "z_rot (la[p := la ! q]) (q # ps) c ! ((q # ps) ! u)
        = (if Suc u < length (q # ps) then la[p := la ! q] ! ((q # ps) ! Suc u) else c)"
      using 3 Suc by (intro "3.IH") auto
    moreover have "(q # ps) ! Suc u \<noteq> p" if "Suc u < length (q # ps)"
      using 3(2) nth_mem [OF that] by auto
    ultimately show ?thesis using Suc by (auto simp: nth_list_update)
  qed
qed

lemma z_swaps_rot:
  assumes "swap = pre @ ps @ suf" "ps \<noteq> []" "set ps \<subseteq> {..<length la}"
  shows "\<exists>la'. z_swaps swap [length pre..<length pre + length ps - 1] la = Some la' \<and> length la' = length la
    \<and> la'[last ps := c] = z_rot la ps c"
  using assms
proof (induction ps arbitrary: pre la)
  case Nil
  then show ?case by simp
next
  case (Cons p ps)
  show ?case
  proof (cases ps)
    case Nil
    then show ?thesis using Cons.prems by simp
  next
    case (Cons q qs)
    let ?la = "la[p := la ! q]"
    have "[length pre..<length pre + length (p # ps) - 1] = length pre # [length (pre @ [p])..<length (pre @ [p]) + length ps - 1]"
      by (subst upt_conv_Cons) (simp_all add: Cons)
    moreover have "aget swap (length pre) = Some p" "aget swap (length pre + 1) = Some q"
      using Cons.prems(1) Cons by (simp_all add: nth_append)
    moreover have "p < length la" "q < length la" using Cons.prems(3) Cons by auto
    ultimately have "z_swaps swap [length pre..<length pre + length (p # ps) - 1] la
        = z_swaps swap [length (pre @ [p])..<length (pre @ [p]) + length ps - 1] ?la" by simp
    moreover obtain la' where "z_swaps swap [length (pre @ [p])..<length (pre @ [p]) + length ps - 1] ?la = Some la'"
        "length la' = length ?la" "la'[last ps := c] = z_rot ?la ps c"
      using Cons.IH [of "pre @ [p]" ?la] Cons.prems Cons by auto
    ultimately show ?thesis using Cons by simp
  qed
qed

text \<open>
  Between \<open>preinsert\<close> and \<open>postinsert\<close> the swap array holds the positions of the path: each but the
  last is a position of the address in the line of the next, the last one of the new address.
\<close>

definition z_moves :: "hash_fn \<Rightarrow> 's ZArray \<Rightarrow> u64 \<Rightarrow> nat list \<Rightarrow> bool" where
  "z_moves hf z addr ps =
     (ps \<noteq> [] \<and> distinct ps \<and> set ps \<subseteq> {..<length (zlookupArray z)}
     \<and> (\<forall>t. Suc t < length ps \<longrightarrow> (\<exists>w < unat (zways z). ps ! t = zp hf z w (zarray z ! (zlookupArray z ! (ps ! Suc t)))))
     \<and> (\<exists>w < unat (zways z). last ps = zp hf z w addr))"

definition z_mid :: "nat \<Rightarrow> hash_fn \<Rightarrow> ('s \<Rightarrow> bool) \<Rightarrow> 's ZArray \<Rightarrow> u64 \<Rightarrow> nat \<Rightarrow> bool" where
  "z_mid n hf Q z addr c = (z_inv n hf Q z \<and> addr \<notin> set (zarray z) \<and> addr \<noteq> 0 \<and> c < n
     \<and> (\<exists>ps. take (swapArrayLen z) (swapArray z) = ps \<and> length ps = swapArrayLen z \<and> z_moves hf z addr ps \<and> zlookupArray z ! hd ps = c))"

lemma z_chain_last: "z_chain C is \<Longrightarrow> wparent (C ! last is) = -1"
  by (induction C "is" rule: z_chain.induct) auto

lemma z_chain_nth: "z_chain C is \<Longrightarrow> Suc t < length is \<Longrightarrow> wparent (C ! (is ! t)) = int (is ! Suc t)"
proof (induction C "is" arbitrary: t rule: z_chain.induct)
  case (3 C i j "is")
  then show ?case by (cases t) auto
qed simp_all

lemma z_moves_chain:
  assumes wf: "z_wf n hf z" and rd: "z_round hf z addr f {} k" and ch: "z_chain (candidates k) is"
    and lt: "\<forall>i \<in> set is. i < numCandidates k" and dist: "distinct (map (\<lambda>i. wline (candidates k ! i)) is)"
  shows "z_moves hf z addr (map (\<lambda>i. wpos (candidates k ! i)) is)"
proof -
  let ?C = "candidates k" and ?ps = "map (\<lambda>i. wpos (candidates k ! i)) is"
  have ent: "z_entry hf z addr ?C i" if "i \<in> set is" for i using rd lt that by (simp add: z_round_def)
  have line: "wline (?C ! i) = zlookupArray z ! wpos (?C ! i)" "wpos (?C ! i) < length (zlookupArray z)" if "i \<in> set is" for i
    using ent [OF that] by (simp_all add: z_entry_def)
  have ne: "is \<noteq> []" using ch by auto
  have "map (\<lambda>p. zlookupArray z ! p) ?ps = map (\<lambda>i. wline (?C ! i)) is" using line(1) by simp
  then have "distinct ?ps" using dist by (metis distinct_map)
  moreover have "set ?ps \<subseteq> {..<length (zlookupArray z)}" using line(2) by auto
  moreover have "\<exists>w < unat (zways z). ?ps ! t = zp hf z w (zarray z ! (zlookupArray z ! (?ps ! Suc t)))"
    if t: "Suc t < length ?ps" for t
  proof -
    have mem: "is ! t \<in> set is" "is ! Suc t \<in> set is" using t by simp_all
    have "wparent (?C ! (is ! t)) = int (is ! Suc t)" using z_chain_nth [OF ch] t by simp
    with ent [OF mem(1)] obtain w where "w < unat (zways z)" "wpos (?C ! (is ! t)) = zp hf z w (zarray z ! wline (?C ! (is ! Suc t)))"
      unfolding z_entry_def by auto
    then show ?thesis using t line(1) [OF mem(2)] by auto
  qed
  moreover have "\<exists>w < unat (zways z). last ?ps = zp hf z w addr"
    using ent [of "last is"] z_chain_last [OF ch] ne unfolding z_entry_def by (auto simp: last_map)
  ultimately show ?thesis using ne by (simp add: z_moves_def)
qed

lemma z_wf_frame:
  "z_wf n hf (z\<lparr>zrp := s, lastCandIdx := i, swapArray := sw, swapArrayLen := l\<rparr>) = z_wf n hf z" if "length sw = length (swapArray z)"
  using that by (simp add: z_wf_def)

lemma z_inv_zrp: "z_inv n hf P z \<Longrightarrow> Q s \<Longrightarrow> z_inv n hf Q (z\<lparr>zrp := s\<rparr>)"
  unfolding z_inv_def z_wf_def z_placed_def by (auto simp: Let_def)

locale zcache =
  fixes update :: "'s \<Rightarrow> nat \<Rightarrow> MemReq option \<Rightarrow> 's option"
    and replaced :: "'s \<Rightarrow> nat \<Rightarrow> 's option"
    and rank :: "'s \<Rightarrow> MemReq option \<Rightarrow> nat list \<Rightarrow> ('s \<times> nat) option"
    and n :: nat
    and fresh :: "'s \<Rightarrow> bool"
    and ranked :: "'s \<Rightarrow> bool"
    and good :: "MemReq option \<Rightarrow> bool"
    and hf :: hash_fn
  assumes policy: "repl_policy update replaced rank n k fresh ranked good"
begin

abbreviation ztable :: "'s ReplPolicy" where
  "ztable \<equiv> \<lparr>rpUpdate = update, rpReplaced = replaced, rpRank = rank\<rparr>"

abbreviation z_ok :: "'s ZArray \<Rightarrow> bool" where
  "z_ok \<equiv> z_inv n hf fresh"

lemma z_contract_hit:
  assumes "z_ok z" "addr \<noteq> 0" "good req \<or> \<not> upd" "addr \<in> set (zarray z)"
  shows "\<exists>z' i. z_lookup ztable hf z addr req upd = Some (z', int i) \<and> i < length (zarray z) \<and> zarray z ! i = addr
     \<and> z_ok z' \<and> zarray z' = zarray z"
proof -
  have wf: "z_wf n hf z" and pl: "z_placed hf z" and un: "addrs_unique (zarray z)" and fr: "fresh (zrp z)"
    using assms(1) by (simp_all add: z_inv_def)
  obtain l where l: "l < n" "zarray z ! l = addr" using assms(4) z_wfD(1) [OF wf] by (metis in_set_conv_nth)
  obtain w where w: "w < unat (zways z)" "zlookupArray z ! zp hf z w addr = l"
    using z_line_pos [OF wf pl l(1)] l(2) assms(2) by auto
  have upd: "upd \<longrightarrow> (\<exists>s'. rpUpdate ztable (zrp z) l req = Some s' \<and> fresh s')"
    using repl_policy.update_fresh [OF policy fr l(1), of req] assms(3) by auto
  from z_scan_hit [OF wf un l assms(2) upd fr, of "[0..<unat (zways z)]" w] w
  obtain s' where run: "z_scan ztable hf z addr req upd [0..<unat (zways z)] = Some (z\<lparr>zrp := s'\<rparr>, int l)" "fresh s'"
    by (auto simp: atLeast0LessThan)
  have "z_ok (z\<lparr>zrp := s'\<rparr>)" using z_inv_zrp [OF assms(1), of fresh] run(2) by simp
  then show ?thesis using run(1) assms(2) l z_wfD(1) [OF wf] by (auto simp: z_lookup_def)
qed

lemma z_contract_miss:
  assumes "z_ok z" "addr \<noteq> 0" "addr \<notin> set (zarray z)"
  shows "z_lookup ztable hf z addr req upd = Some (z, -1)"
  using z_scan_miss [of n hf z addr "[0..<unat (zways z)]" ztable req upd] assms
  by (simp add: z_lookup_def z_inv_def atLeast0LessThan)

lemma z_contract_preinsert:
  assumes ok: "z_ok z" and addr: "addr \<noteq> 0" "addr \<notin> set (zarray z)"
  shows "\<exists>z' c. z_preinsert ztable hf z addr req = Some (z', c, zarray z ! c) \<and> c < length (zarray z) \<and> zarray z' = zarray z
     \<and> z_mid n hf ranked z' addr c"
proof -
  have wf: "z_wf n hf z" and fr: "fresh (zrp z)" using ok by (simp_all add: z_inv_def)
  note d = z_wfD [OF wf]
  obtain k1 k f where walk: "z_seeds hf z addr [0..<unat (zways z)] \<lparr>candidates = replicate (unat (zcands z + zways z)) (ZWalkInfo_set 0 0 0),
      numCandidates = unat (zways z), all_valid = True\<rparr> = Some k1" "z_bfs hf z 0 k1 = Some k"
    and rd: "z_round hf z addr f {} k" and fin: "\<not> all_valid k \<or> unat (zcands z) \<le> numCandidates k"
    using z_walk_total [OF wf] by blast
  let ?C = "candidates k"
  define num where "num = (if numCandidates k > unat (zcands z) then unat (zcands z) else numCandidates k)"
  have num: "num \<le> numCandidates k" "num \<le> unat (zcands z)" "0 < num" "num \<le> length ?C" "numCandidates k \<le> numCandidates k"
    using rd d(6,7) by (auto simp: num_def z_round_def)
  have len: "length ?C = unat (zcands z) + unat (zways z)" using rd by (simp add: z_round_def)
  let ?cs = "take num ?C"
  have ent: "z_entry hf z addr ?C i" if "i < num" for i using rd num(1) that by (simp add: z_round_def)
  have lines: "wline (?C ! i) < n" if "i < num" for i
    using ent [OF that] d(2,4) nth_mem unfolding z_entry_def by (metis lessThan_iff subsetD)
  have cands: "ZCands ?cs \<noteq> []" "set (ZCands ?cs) \<subseteq> {..<n}"
    using num(3,4) lines by (auto simp: ZCands_def in_set_conv_nth)
  obtain s best where rank: "rank (zrp z) req (ZCands ?cs) = Some (s, best)" "best \<in> set (ZCands ?cs)" "ranked s"
    using repl_policy.rank_fresh [OF policy fr cands(1) refl cands(2)] by blast
  have best: "best < n" using rank(2) cands(2) by auto
  obtain m where m: "m < length ?cs" "z_minIdx best ?cs 0 = Some (0 + m)" "wline (?cs ! m) = best" "\<forall>j < m. wline (?cs ! j) \<noteq> best"
    using z_minIdx_found [of best ?cs 0] rank(2) by (auto simp: ZCands_def)
  have mn: "m < num" "m < unat (zcands z)" using m(1) num by simp_all
  have first: "z_first ?C m" using m(3,4) mn(1) by (simp add: z_first_def)
  obtain js where js: "z_chain ?C (m # js)" "length js \<le> m div unat (zways z)" "\<forall>i \<in> set js. i < m" "sorted_wrt (>) (m # js)"
    using z_chain_exists [of num hf z addr ?C m] ent d(6) mn(1) by auto
  have below: "\<forall>i \<in> set (m # js). i < numCandidates k" "\<forall>i \<in> set (m # js). i < length ?C"
    using js(3) mn(1) num(1,4) by auto
  have firsts: "\<forall>i \<in> set (m # js). z_first ?C i" using z_chain_first [OF wf rd js(1) below(1)] first by simp
  let ?ps = "map (\<lambda>i. wpos (?C ! i)) (m # js)"
  have moves: "z_moves hf z addr ?ps"
    by (rule z_moves_chain [OF wf rd js(1) below(1) firsts_distinct [OF js(4) firsts]])
  have "m div unat (zways z) \<le> unat (zcands z) div unat (zways z)" using mn(2) by (intro div_le_mono) simp
  then have room: "0 + length (m # js) \<le> length (swapArray z)" using js(2) d(9) by simp
  obtain sw where sw: "z_path ?C (int m) 0 (swapArray z) = Some (sw, length (m # js))" "length sw = length (swapArray z)"
      "take (length (m # js)) sw = ?ps"
    using z_path_chain [OF js(1) below(2) room] by auto
  let ?z = "z\<lparr>zrp := s, lastCandIdx := m, swapArray := sw, swapArrayLen := length (m # js)\<rparr>"
  have run: "z_preinsert ztable hf z addr req = Some (?z, best, zarray z ! best)"
    unfolding z_preinsert_def Let_def walk(1) Option.bind.bind_lunit walk(2) num_def [symmetric]
    using fin rank(1) best d(1,5) m(2) sw(1) by simp
  have "zlookupArray z ! hd ?ps = best" using ent [OF mn(1)] m(3) mn(1) by (simp add: z_entry_def)
  moreover have "z_inv n hf ranked ?z"
    using ok rank(3) z_wf_frame [OF sw(2)] by (simp add: z_inv_def z_placed_def)
  moreover have "z_moves hf ?z addr ?ps" using moves by (simp add: z_moves_def)
  ultimately have "z_mid n hf ranked ?z addr best" using addr best sw(3) by (simp add: z_mid_def)
  then show ?thesis using run best d(1) by auto
qed

lemma z_contract_postinsert:
  assumes mid: "z_mid n hf ranked z addr c" and req: "good req"
  shows "\<exists>z'. z_postinsert ztable z addr req c = Some z' \<and> z_ok z' \<and> zarray z' = (zarray z)[c := addr]"
proof -
  define ps where "ps = take (swapArrayLen z) (swapArray z)"
  let ?la = "zlookupArray z"
  have wf: "z_wf n hf z" and pl: "z_placed hf z" and un: "addrs_unique (zarray z)" and rk: "ranked (zrp z)"
    and addr: "addr \<notin> set (zarray z)" "addr \<noteq> 0" and c: "c < n" "?la ! hd ps = c"
    and mv: "z_moves hf z addr ps" and lps: "length ps = swapArrayLen z"
    using mid by (auto simp: z_mid_def z_inv_def ps_def)
  note d = z_wfD [OF wf]
  have ps: "ps \<noteq> []" "distinct ps" "set ps \<subseteq> {..<length ?la}"
    and step: "\<And>t. Suc t < length ps \<Longrightarrow> \<exists>w < unat (zways z). ps ! t = zp hf z w (zarray z ! (?la ! (ps ! Suc t)))"
    and seed: "\<exists>w < unat (zways z). last ps = zp hf z w addr"
    using mv by (auto simp: z_moves_def)
  obtain p0 pt where p0: "ps = p0 # pt" using ps(1) by (cases ps) auto
  have sw: "swapArray z = [] @ ps @ drop (swapArrayLen z) (swapArray z)" by (simp add: ps_def)
  obtain la1 where la1: "z_swaps (swapArray z) [0..<swapArrayLen z - 1] ?la = Some la1" "length la1 = length ?la"
      "la1[last ps := c] = z_rot ?la ps c"
    using z_swaps_rot [OF sw ps(1,3), of c] lps by auto
  let ?la2 = "z_rot ?la ps c"
  have nth: "aget (swapArray z) t = Some (ps ! t)" if "t < length ps" for t
    using that by (subst sw) (simp add: nth_append aget_def)
  have "last ps \<in> set ps" "p0 \<in> set ps" using last_in_set [OF ps(1)] p0 by simp_all
  then have lt: "last ps < length ?la" "p0 < length ?la" using ps(3) by blast+
  obtain s1 where s1: "replaced (zrp z) c = Some s1" "fresh s1" using repl_policy.replaced_ranked [OF policy rk c(1)] by blast
  obtain s2 where s2: "update s1 c req = Some s2" "fresh s2" using repl_policy.update_fresh [OF policy s1(2) c(1) req] by blast
  let ?z = "z\<lparr>zlookupArray := ?la2, zarray := (zarray z)[c := addr], zrp := s2, statSwaps := statSwaps z + of_nat (swapArrayLen z - 1)\<rparr>"
  have len1: "swapArrayLen z - 1 < length ps" using ps(1) unfolding lps [symmetric] by simp
  have g0: "aget (swapArray z) 0 = Some p0" "aget ?la p0 = Some c" using nth [of 0] ps(1) p0 lt(2) c(2) by simp_all
  have ge: "aget (swapArray z) (swapArrayLen z - 1) = Some (last ps)"
    using nth [OF len1] ps(1) lps by (simp only: last_conv_nth not_False_eq_True)
  have sets: "aset la1 (last ps) c = Some ?la2" "aset (zarray z) c addr = Some ((zarray z)[c := addr])"
    using la1(2,3) lt(1) c(1) d(1) by (simp_all add: aset_def)
  have run: "z_postinsert ztable z addr req c = Some ?z"
    unfolding z_postinsert_def g0 Option.bind.bind_lunit la1(1) ge sets using s1(1) s2(1) by simp
  have rot: "mset ?la2 = mset ?la"
  proof -
    have "mset ?la2 = mset (?la[p0 := c])" unfolding p0 using ps(2,3) p0 by (intro z_rot_mset) auto
    also have "?la[p0 := c] = ?la" using c(2) p0 by (metis list.sel(1) list_update_id)
    finally show ?thesis .
  qed
  have perm: "distinct ?la2" "set ?la2 \<subseteq> {..<n}"
    using d(3,4) mset_eq_imp_distinct_iff [OF rot] mset_eq_setD [OF rot] by simp_all
  have other: "?la ! q \<noteq> c" if "q < length ?la" "q \<noteq> p0" for q
    using d(3) that lt(2) c(2) p0 by (auto simp: nth_eq_iff_index_eq)
  have "z_placed hf ?z"
    unfolding z_placed_def Let_def
  proof (intro allI impI)
    fix p assume p: "p < length (zlookupArray ?z)" and x: "zarray ?z ! (zlookupArray ?z ! p) \<noteq> 0"
    have p': "p < length ?la" using p by simp
    consider "p \<notin> set ps" | t where "p = ps ! t" "Suc t < length ps" | "p = last ps"
      using ps(1) by (metis in_set_conv_nth last_conv_nth Suc_lessI diff_Suc_1)
    then show "\<exists>w < unat (zways ?z). p = zp hf ?z w (zarray ?z ! (zlookupArray ?z ! p))"
    proof cases
      case 1
      then have "?la2 ! p = ?la ! p" "?la ! p \<noteq> c" using z_rot_other other [OF p'] p0 by auto
      then show ?thesis using pl p' x by (auto simp: z_placed_def Let_def)
    next
      case 2
      then have "?la2 ! p = ?la ! (ps ! Suc t)" using z_rot_path [OF ps(2,3), of t c] by simp
      moreover have "ps ! Suc t < length ?la" using 2(2) ps(3) nth_mem by blast
      moreover have "ps ! Suc t \<noteq> p0" using ps(2) 2(2) p0 by (metis Suc_less_eq distinct.simps(2) length_Cons nth_Cons_Suc nth_mem)
      ultimately have "zarray ?z ! (zlookupArray ?z ! p) = zarray z ! (?la ! (ps ! Suc t))" using other [of "ps ! Suc t"] by (simp add: nth_list_update_neq [of c])
      then show ?thesis using step [OF 2(2)] 2(1) by simp
    next
      case 3
      then have "?la2 ! p = c" using z_rot_path [OF ps(2,3), of "length ps - 1" c] ps(1) by (simp add: last_conv_nth)
      then show ?thesis using seed 3 c(1) d(1) by auto
    qed
  qed
  moreover have "z_wf n hf ?z" using wf perm unfolding z_wf_def by auto
  ultimately have "z_ok ?z" using addrs_unique_update [OF un addr(1)] s2(2) by (simp add: z_inv_def)
  then show ?thesis using run by auto
qed

lemma z_contract: "cache_array (z_lookup ztable hf) (z_preinsert ztable hf) (z_postinsert ztable) zarray z_ok (z_mid n hf ranked) good"
proof unfold_locales
  fix a i j assume "z_ok a" "i < length (zarray a)" "j < length (zarray a)" "zarray a ! i = zarray a ! j" "zarray a ! i \<noteq> 0"
  then show "i = j" using addrs_uniqueD [of "zarray a" i j] by (simp add: z_inv_def)
qed (rule z_contract_hit z_contract_miss z_contract_preinsert z_contract_postinsert; assumption)+

end

text \<open>A new zcache is well formed.\<close>

lemma ZArray_new_inv:
  assumes "ZArray_new rp numLines ways cands = Some z" "hash_total hf (unat ways)" "P rp" "unat cands + unat ways < 2 ^ 31"
  shows "z_inv (unat numLines) hf P z"
proof -
  have *: "1 < ways" "ways \<le> cands" "numLines mod ways = 0" "isPow2 (numLines div ways)"
    "z = \<lparr>zarray = replicate (unat numLines) 0, zlookupArray = [0..<unat numLines], zrp = rp, znumLines = numLines,
       znumSets = numLines div ways, zways = ways, zcands = cands, zsetMask = numLines div ways - 1,
       swapArray = replicate (unat (cands div ways + 2)) 0, swapArrayLen = 0, lastCandIdx = 0, statSwaps = 0\<rparr>"
    using assms(1) by (auto simp: ZArray_new_def Let_def split: if_splits)
  have "unat (numLines mod ways) = 0" using *(3) by simp
  then have "unat numLines mod unat ways = 0" by (simp add: unat_mod)
  then have "unat numLines = unat ways * unat (numLines div ways)" by (simp add: unat_div mod_0_imp_dvd)
  then show ?thesis using * assms(2-4)
    by (simp add: z_inv_def z_wf_def z_placed_def addrs_unique_def atLeast0LessThan)
qed

interpretation z_lru: zcache lru_update lru_replaced "lru_rank aw cc" n
  "\<lambda>p. lru_ok n p \<and> view_ok cc n" "\<lambda>p. lru_ok n p \<and> view_ok cc n" "\<lambda>_. True" hf for aw cc n hf
  by (rule zcache.intro) (rule lru.repl_policy_axioms)

interpretation z_lru_array: cache_array
  "z_lookup \<lparr>rpUpdate = lru_update, rpReplaced = lru_replaced, rpRank = lru_rank aw cc\<rparr> hf"
  "z_preinsert \<lparr>rpUpdate = lru_update, rpReplaced = lru_replaced, rpRank = lru_rank aw cc\<rparr> hf"
  "z_postinsert \<lparr>rpUpdate = lru_update, rpReplaced = lru_replaced, rpRank = lru_rank aw cc\<rparr>"
  zarray "z_inv n hf (\<lambda>p. lru_ok n p \<and> view_ok cc n)" "z_mid n hf (\<lambda>p. lru_ok n p \<and> view_ok cc n)" "\<lambda>_. True"
  for aw cc n hf
  by (rule z_lru.z_contract)

section \<open>Properties\<close>

text \<open>
  Claim C15.  A zcache under LRU never trips an assertion on a miss and keeps every line findable:
  inserting an absent address \<open>addr\<close> into a well-formed array succeeds, after it \<open>addr\<close> is found on
  the victim's line, the evicted address is not found any more, and every other address is
  found on the line it had, although lines have moved to other positions.
\<close>

theorem zcache_insert_lookup:
  assumes "z_inv n hf (\<lambda>p. lru_ok n p \<and> view_ok cc n) z" "addr \<noteq> 0" "addr \<notin> set (zarray z)"
    and rp: "rp = \<lparr>rpUpdate = lru_update, rpReplaced = lru_replaced, rpRank = lru_rank aw cc\<rparr>"
  shows "\<exists>z1 z2 c. z_preinsert rp hf z addr req = Some (z1, c, zarray z ! c) \<and> z_postinsert rp z1 addr req c = Some z2
    \<and> z_inv n hf (\<lambda>p. lru_ok n p \<and> view_ok cc n) z2
    \<and> (\<exists>z3. z_lookup rp hf z2 addr req upd = Some (z3, int c) \<and> zarray z3 = (zarray z)[c := addr])
    \<and> (zarray z ! c \<noteq> 0 \<longrightarrow> z_lookup rp hf z2 (zarray z ! c) req upd = Some (z2, -1))
    \<and> (\<forall>i < length (zarray z). i \<noteq> c \<longrightarrow> zarray z ! i \<noteq> 0 \<longrightarrow> (\<exists>z3. z_lookup rp hf z2 (zarray z ! i) req upd = Some (z3, int i)))"
  unfolding rp by (rule z_lru_array.insert_then_lookup [OF assms(1-3) TrueI])

theorem zcache_insert_lookup_witness:
  "\<exists>z z1 z2 z3 c. ZArray_new (LRUReplPolicy_new 8) 8 2 4 = Some z
    \<and> z_preinsert \<lparr>rpUpdate = lru_update, rpReplaced = lru_replaced, rpRank = lru_rank False (\<lambda>_. Some 0, \<lambda>_. Some True)\<rparr> id_hash z 5 None = Some (z1, c, 0)
    \<and> z_postinsert \<lparr>rpUpdate = lru_update, rpReplaced = lru_replaced, rpRank = lru_rank False (\<lambda>_. Some 0, \<lambda>_. Some True)\<rparr> z1 5 None c = Some z2
    \<and> z_lookup \<lparr>rpUpdate = lru_update, rpReplaced = lru_replaced, rpRank = lru_rank False (\<lambda>_. Some 0, \<lambda>_. Some True)\<rparr> id_hash z2 5 None True = Some (z3, int c)"
proof -
  let ?cc = "(\<lambda>_. Some 0, \<lambda>_. Some True) :: cc_view"
  have "isPow2 (4 :: u32)" by (simp add: isPow2_def)
  then obtain z where z: "ZArray_new (LRUReplPolicy_new 8) 8 2 4 = Some z" "zarray z = replicate 8 0"
    by (simp add: ZArray_new_def Let_def)
  have "hash_total id_hash (unat (2 :: u32))" by (rule hash_total_id)
  moreover have "lru_ok 8 (LRUReplPolicy_new 8) \<and> view_ok ?cc 8"
    by (simp add: lru_ok_def LRUReplPolicy_new_def view_ok_def view_numSharers_def view_isValid_def)
  ultimately have inv: "z_inv 8 id_hash (\<lambda>p. lru_ok 8 p \<and> view_ok ?cc 8) z"
    using ZArray_new_inv [OF z(1), of id_hash "\<lambda>p. lru_ok 8 p \<and> view_ok ?cc 8"] by simp
  have "5 \<notin> set (zarray z)" using z(2) by simp
  from zcache_insert_lookup [OF inv _ this refl, of False None True] z
  obtain z1 z2 z3 c where *: "z_preinsert \<lparr>rpUpdate = lru_update, rpReplaced = lru_replaced, rpRank = lru_rank False ?cc\<rparr> id_hash z 5 None = Some (z1, c, zarray z ! c)"
    "z_postinsert \<lparr>rpUpdate = lru_update, rpReplaced = lru_replaced, rpRank = lru_rank False ?cc\<rparr> z1 5 None c = Some z2"
    "z_lookup \<lparr>rpUpdate = lru_update, rpReplaced = lru_replaced, rpRank = lru_rank False ?cc\<rparr> id_hash z2 5 None True = Some (z3, int c)"
    by auto
  have "c < 8" using *(1) z(2)
    by (auto simp: z_preinsert_def Let_def elim!: bind_Some_elim split: if_splits prod.splits)
  then have "zarray z ! c = 0" using z(2) by simp
  then show ?thesis using * z(1) by auto
qed

end
