(* ===== verification/TimingEvents.thy ===== *)
theory TimingEvents
  imports Bits "HOL-Library.Multiset"
begin

text \<open>
  The graph of timing events of \<open>src/src/timing_event.h\<close>: events in a store, addressed by their
  position, with the children lists in the blocks of the code.  Building the graph is modelled here;
  its simulation is in \<open>ContentionSim\<close>.  The store only grows: the code recycles the memory of events,
  the model marks them as done.
\<close>

section \<open>Events and their store\<close>

datatype EventState = EV_INVALID | EV_NONE | EV_QUEUED | EV_RUNNING | EV_HELD | EV_DONE

text \<open>A block has \<open>TIMING_BLOCK_EVENTS\<close> slots that may be null.  Blocks are chained, the newest first.\<close>

type_synonym block = "nat option list"

definition TIMING_BLOCK_EVENTS :: nat where "TIMING_BLOCK_EVENTS = 3"

definition TimingEventBlock_new :: block where
  "TimingEventBlock_new = replicate TIMING_BLOCK_EVENTS None"

text \<open>The union of a single child and the chain of blocks.\<close>

datatype children = NoChild | Child nat | Blocks "block list"

text \<open>
  The class of an event decides its virtual functions.  Of the subclasses, the delay event and the three
  events of the recorder are named: issue, with its recorder and its zero-load-latency cycle; dispatch, with that cycle;
  response, with the recorder it reports to, if it still does.  Any other one is a number that the simulation gets the
  behaviour of as a parameter.
\<close>

datatype ev_class = Delay | Issue nat u64 | Dispatch u64 | Resp "nat option" | Other nat

record TimingEvent =
  evClass :: ev_class
  evState :: EventState
  evCycle :: u64
  minStartCycle :: u64
  evChildren :: children
  domain :: int
  numChildren :: u32
  numParents :: u32
  preDelay :: u32
  postDelay :: u32

type_synonym events = "TimingEvent list"

definition TimingEvent_new :: "ev_class \<Rightarrow> u32 \<Rightarrow> u32 \<Rightarrow> int \<Rightarrow> TimingEvent" where
  "TimingEvent_new k pre post dm =
     \<lparr>evClass = k, evState = EV_NONE, evCycle = 0, minStartCycle = -1, evChildren = NoChild, domain = dm,
      numChildren = 0, numParents = 0, preDelay = pre, postDelay = post\<rparr>"

text \<open>\<open>new (evRec) ...\<close>: the store and the address of the new event.\<close>

definition alloc :: "events \<Rightarrow> TimingEvent \<Rightarrow> events \<times> nat" where
  "alloc s e = (s @ [e], length s)"

definition DelayEvent_new :: "u32 \<Rightarrow> TimingEvent" where
  "DelayEvent_new d = TimingEvent_new Delay d 0 (-1)"

definition setMinStartCycle :: "events \<Rightarrow> nat \<Rightarrow> u64 \<Rightarrow> events option" where
  "setMinStartCycle s e c = do { ev \<leftarrow> aget s e; Some (s[e := ev\<lparr>minStartCycle := c\<rparr>]) }"

definition setPreDelay :: "events \<Rightarrow> nat \<Rightarrow> u32 \<Rightarrow> events option" where
  "setPreDelay s e d = do { ev \<leftarrow> aget s e; Some (s[e := ev\<lparr>preDelay := d\<rparr>]) }"

definition setPostDelay :: "events \<Rightarrow> nat \<Rightarrow> u32 \<Rightarrow> events option" where
  "setPostDelay s e d = do { ev \<leftarrow> aget s e; Some (s[e := ev\<lparr>postDelay := d\<rparr>]) }"

section \<open>Children\<close>

text \<open>The events of a block up to the first null one.\<close>

fun block_events :: "block \<Rightarrow> nat list" where
  "block_events (Some e # b) = e # block_events b"
| "block_events (None # b) = []"
| "block_events [] = []"

text \<open>The children in the order in which \<open>visitChildren\<close> passes them to its visitor.\<close>

definition visitChildren :: "TimingEvent \<Rightarrow> nat list option" where
  "visitChildren ev =
     (if numChildren ev = 0 then Some []
      else (case evChildren ev of
          NoChild \<Rightarrow> None
        | Child c \<Rightarrow> if numChildren ev = 1 then Some [c] else None
        | Blocks bs \<Rightarrow> if numChildren ev = 1 then None else do {
            let visited = concat (map block_events bs);
            _ \<leftarrow> require (of_nat (length visited) = numChildren ev);
            Some visited
          }))"

text \<open>
  \<open>propagateDomain\<close> recurses through the children.  Every call gives a domain to an event without one, so the
  number of events bounds the depth; it is the fuel.
\<close>

fun propagateDomain :: "nat \<Rightarrow> int \<Rightarrow> events \<Rightarrow> nat \<Rightarrow> events option" where
  "propagateDomain 0 dm s e = None"
| "propagateDomain (Suc k) dm s e = do {
     ev \<leftarrow> aget s e;
     _ \<leftarrow> require (domain ev = -1);
     cs \<leftarrow> visitChildren ev;
     run_all (\<lambda>s c. do { ch \<leftarrow> aget s c; if domain ch = -1 then propagateDomain k dm s c else Some s })
       (s[e := ev\<lparr>domain := dm\<rparr>]) cs
   }"

text \<open>The new child goes to the single slot, to a first block of two, or to the next slot of the newest block.\<close>

definition pushChild :: "TimingEvent \<Rightarrow> nat \<Rightarrow> TimingEvent option" where
  "pushChild ev c =
     (if numChildren ev = 0 then Some (ev\<lparr>numChildren := 1, evChildren := Child c\<rparr>)
      else if numChildren ev = 1 then
        (case evChildren ev of
           Child f \<Rightarrow> Some (ev\<lparr>evChildren := Blocks [TimingEventBlock_new [0 := Some f, 1 := Some c]], numChildren := 2\<rparr>)
         | _ \<Rightarrow> None)
      else
        (case evChildren ev of
           Blocks bs \<Rightarrow> do {
             let idx = unat (numChildren ev mod of_nat TIMING_BLOCK_EVENTS);
             let bs' = (if idx = 0 then TimingEventBlock_new # bs else bs);
             b \<leftarrow> aget bs' 0;
             b' \<leftarrow> aset b idx (Some c);
             Some (ev\<lparr>evChildren := Blocks (bs'[0 := b']), numChildren := numChildren ev + 1\<rparr>)
           }
         | _ \<Rightarrow> None))"

definition addChild :: "events \<Rightarrow> nat \<Rightarrow> nat \<Rightarrow> events option" where
  "addChild s e childEv = do {
     ev \<leftarrow> aget s e;
     _ \<leftarrow> require (evState ev = EV_NONE \<or> evState ev = EV_QUEUED);
     ch \<leftarrow> aget s childEv;
     _ \<leftarrow> require (evState ch = EV_NONE);
     ev' \<leftarrow> pushChild ev childEv;
     let s1 = s[e := ev'];
     ch1 \<leftarrow> aget s1 childEv;
     s2 \<leftarrow> (if domain ev' \<noteq> -1 \<and> domain ch1 = -1 then propagateDomain (length s1) (domain ev') s1 childEv else Some s1);
     ch2 \<leftarrow> aget s2 childEv;
     Some (s2[childEv := ch2\<lparr>numParents := numParents ch2 + 1\<rparr>])
   }"

section \<open>States of an event\<close>

definition hold :: "events \<Rightarrow> nat \<Rightarrow> events option" where
  "hold s e = do { ev \<leftarrow> aget s e; _ \<leftarrow> require (evState ev = EV_RUNNING); Some (s[e := ev\<lparr>evState := EV_HELD\<rparr>]) }"

definition release :: "events \<Rightarrow> nat \<Rightarrow> events option" where
  "release s e = do { ev \<leftarrow> aget s e; _ \<leftarrow> require (evState ev = EV_HELD); Some (s[e := ev\<lparr>evState := EV_RUNNING\<rparr>]) }"

definition setRunning :: "events \<Rightarrow> nat \<Rightarrow> events option" where
  "setRunning s e = do { ev \<leftarrow> aget s e; _ \<leftarrow> require (evState ev = EV_NONE); Some (s[e := ev\<lparr>evState := EV_RUNNING\<rparr>]) }"

section \<open>The children of a well-formed event\<close>

definition block_of :: "nat list \<Rightarrow> block" where
  "block_of xs = map Some xs @ replicate (TIMING_BLOCK_EVENTS - length xs) None"

lemma block_events_of [simp]: "block_events (block_of xs) = xs"
proof -
  have "block_events (map Some xs @ replicate n None) = xs" for n
    by (induction xs) (auto simp: gr0_conv_Suc, cases n, simp_all)
  then show ?thesis by (simp add: block_of_def)
qed

text \<open>Every block is full except perhaps the newest, which holds one to three children.\<close>

definition kids_ok :: "TimingEvent \<Rightarrow> bool" where
  "kids_ok ev =
     (if numChildren ev = 0 then True
      else if numChildren ev = 1 then (\<exists>c. evChildren ev = Child c)
      else (\<exists>xs xss. evChildren ev = Blocks (map block_of (xs # xss)) \<and> 1 \<le> length xs \<and> length xs \<le> 3
              \<and> list_all (\<lambda>ys. length ys = 3) xss \<and> unat (numChildren ev) = length xs + 3 * length xss))"

lemma kids_ok_Blocks:
  assumes "numChildren ev \<noteq> 0" "numChildren ev \<noteq> 1" "evChildren ev = Blocks (map block_of (xs # xss))" "1 \<le> length xs" "length xs \<le> 3"
    "list_all (\<lambda>ys. length ys = 3) xss" "unat (numChildren ev) = length xs + 3 * length xss"
  shows "kids_ok ev"
  using assms unfolding kids_ok_def by auto

definition kids :: "TimingEvent \<Rightarrow> nat list" where
  "kids ev = (case visitChildren ev of Some cs \<Rightarrow> cs | None \<Rightarrow> [])"

lemma length_full: "list_all (\<lambda>ys. length ys = 3) xss \<Longrightarrow> length (concat xss) = 3 * length xss"
  by (induction xss) auto

text \<open>The visitor's count agrees with the children it visits.\<close>

lemma visitChildren_ok: "kids_ok ev \<Longrightarrow> visitChildren ev = Some (kids ev)"
proof -
  assume ok: "kids_ok ev"
  have "visitChildren ev \<noteq> None"
  proof (cases "numChildren ev = 0 \<or> numChildren ev = 1")
    case True
    then show ?thesis using ok by (auto simp: visitChildren_def kids_ok_def)
  next
    case False
    then obtain xs xss where k: "evChildren ev = Blocks (map block_of (xs # xss))"
      "list_all (\<lambda>ys. length ys = 3) xss" "unat (numChildren ev) = length xs + 3 * length xss"
      using ok unfolding kids_ok_def by auto
    have "length (concat (map block_events (map block_of (xs # xss)))) = unat (numChildren ev)"
      using k(2,3) length_full [OF k(2)] by (simp add: comp_def)
    then have "of_nat (length (concat (map block_events (map block_of (xs # xss))))) = numChildren ev" by simp
    then show ?thesis using False k(1) unfolding visitChildren_def by (simp add: Let_def)
  qed
  then show ?thesis by (auto simp: kids_def)
qed

lemma kids_Blocks:
  assumes "numChildren ev \<noteq> 0" "numChildren ev \<noteq> 1" "evChildren ev = Blocks (map block_of xss)"
    "unat (numChildren ev) = length (concat xss)"
  shows "kids ev = concat xss"
proof -
  have "of_nat (length (concat xss)) = numChildren ev" by (simp flip: assms(4))
  then show ?thesis using assms(1-3) by (simp add: kids_def visitChildren_def comp_def)
qed

lemma unat_mod3: "unat ((n :: u32) mod of_nat TIMING_BLOCK_EVENTS) = unat n mod 3"
  by (simp add: unat_mod TIMING_BLOCK_EVENTS_def)

lemma block_of_snoc: "length xs < 3 \<Longrightarrow> (block_of xs)[length xs := Some c] = block_of (xs @ [c])"
proof -
  assume "length xs < 3"
  then obtain n where "TIMING_BLOCK_EVENTS - length xs = Suc n" by (metis TIMING_BLOCK_EVENTS_def Suc_diff_Suc)
  then have "replicate (TIMING_BLOCK_EVENTS - length xs) (None :: nat option) = None # replicate n None"
    "TIMING_BLOCK_EVENTS - length (xs @ [c]) = n" by simp_all
  then show ?thesis by (simp add: block_of_def list_update_append)
qed

lemma pushChild_ok:
  assumes ok: "kids_ok ev" and n: "unat (numChildren ev) + 1 < 2 ^ 32"
  shows "\<exists>nc ch. pushChild ev c = Some (ev\<lparr>numChildren := nc, evChildren := ch\<rparr>)
     \<and> kids_ok (ev\<lparr>numChildren := nc, evChildren := ch\<rparr>) \<and> nc = numChildren ev + 1
     \<and> mset (kids (ev\<lparr>numChildren := nc, evChildren := ch\<rparr>)) = add_mset c (mset (kids ev))"
proof -
  consider "numChildren ev = 0" | "numChildren ev = 1" | "numChildren ev \<noteq> 0" "numChildren ev \<noteq> 1" by blast
  then show ?thesis
  proof cases
    case 1
    then show ?thesis
      by (intro exI [of _ 1] exI [of _ "Child c"]) (simp add: pushChild_def kids_ok_def kids_def visitChildren_def)
  next
    case 2
    then obtain f where f: "evChildren ev = Child f" using ok by (auto simp: kids_ok_def)
    have b: "TimingEventBlock_new [0 := Some f, 1 := Some c] = block_of [f, c]"
      by (simp add: TimingEventBlock_new_def block_of_def TIMING_BLOCK_EVENTS_def numeral_eq_Suc)
    let ?e = "ev\<lparr>numChildren := 2, evChildren := Blocks (map block_of [[f, c]])\<rparr>"
    have k: "kids ?e = concat [[f, c]]" by (rule kids_Blocks) simp_all
    have "kids ev = [f]" using 2 f by (simp add: kids_def visitChildren_def)
    moreover have "kids_ok ?e" by (rule kids_ok_Blocks [where xs = "[f, c]" and xss = "[]"]) simp_all
    ultimately show ?thesis using 2 f b k
      by (intro exI [of _ 2] exI [of _ "Blocks (map block_of [[f, c]])"]) (simp add: pushChild_def)
  next
    case 3
    then obtain xs xss where k: "evChildren ev = Blocks (map block_of (xs # xss))" "1 \<le> length xs" "length xs \<le> 3"
      "list_all (\<lambda>ys. length ys = 3) xss" "unat (numChildren ev) = length xs + 3 * length xss"
      using ok unfolding kids_ok_def by auto
    have len: "unat (numChildren ev) = length (concat (xs # xss))" using k(5) length_full [OF k(4)] by simp
    have kev: "kids ev = concat (xs # xss)" by (rule kids_Blocks [OF 3 k(1) len])
    have nc: "unat (numChildren ev + 1) = unat (numChildren ev) + 1" using n by (intro unat_add_no_wrap [THEN trans]) simp_all
    then have ne: "numChildren ev + 1 \<noteq> 0" "numChildren ev + 1 \<noteq> 1"
      using 3 by (auto simp: unat_eq_0 dest: arg_cong [where f = unat])
    show ?thesis
    proof (cases "length xs = 3")
      case True
      let ?xss = "[c] # xs # xss"
      let ?e = "ev\<lparr>numChildren := numChildren ev + 1, evChildren := Blocks (map block_of ?xss)\<rparr>"
      have idx: "unat (numChildren ev mod of_nat TIMING_BLOCK_EVENTS) = 0" unfolding unat_mod3 using k(5) True by simp
      have b: "TimingEventBlock_new [0 := Some c] = block_of [c]"
        by (simp add: TimingEventBlock_new_def block_of_def TIMING_BLOCK_EVENTS_def numeral_eq_Suc)
      have "aset TimingEventBlock_new 0 (Some c) = Some (block_of [c])"
        using b by (simp add: TimingEventBlock_new_def TIMING_BLOCK_EVENTS_def)
      then have run: "pushChild ev c = Some ?e" using 3 k(1) idx by (simp add: pushChild_def Let_def)
      have "kids ?e = concat ?xss" using ne nc len by (intro kids_Blocks) simp_all
      moreover have "kids_ok ?e" using ne nc k(4,5) True
        by (intro kids_ok_Blocks [where xs = "[c]" and xss = "xs # xss"]) simp_all
      ultimately show ?thesis using run kev by (intro exI) (auto simp: add.commute)
    next
      case False
      then have lt: "length xs < 3" using k(3) by simp
      let ?xss = "(xs @ [c]) # xss"
      let ?e = "ev\<lparr>numChildren := numChildren ev + 1, evChildren := Blocks (map block_of ?xss)\<rparr>"
      have idx: "unat (numChildren ev mod of_nat TIMING_BLOCK_EVENTS) = length xs" unfolding unat_mod3 using k(5) lt by simp
      have "length (block_of xs) = 3" using lt by (simp add: block_of_def TIMING_BLOCK_EVENTS_def)
      then have "aset (block_of xs) (length xs) (Some c) = Some (block_of (xs @ [c]))" using lt block_of_snoc by simp
      then have run: "pushChild ev c = Some ?e" using 3 k(1,2) idx by (auto simp: pushChild_def Let_def)
      have "kids ?e = concat ?xss" using ne nc len by (intro kids_Blocks) simp_all
      moreover have "kids_ok ?e" using ne nc k(4,5) lt
        by (intro kids_ok_Blocks [where xs = "xs @ [c]" and xss = xss]) simp_all
      ultimately show ?thesis using run kev by (intro exI) (auto simp: add.commute)
    qed
  qed
qed

section \<open>Propagation of domains\<close>

definition ev_wf :: "events \<Rightarrow> bool" where
  "ev_wf s = list_all (\<lambda>ev. kids_ok ev \<and> list_all (\<lambda>c. c < length s) (kids ev)) s"

lemma ev_wfD: "ev_wf s \<Longrightarrow> e < length s \<Longrightarrow> kids_ok (s ! e)" "ev_wf s \<Longrightarrow> e < length s \<Longrightarrow> list_all (\<lambda>c. c < length s) (kids (s ! e))"
  by (auto simp: ev_wf_def list_all_length)

text \<open>Updates of fields that say nothing of the children.\<close>

lemma visitChildren_frame [simp]:
  "visitChildren (ev\<lparr>domain := d\<rparr>) = visitChildren ev" "visitChildren (ev\<lparr>numParents := n\<rparr>) = visitChildren ev"
  "visitChildren (ev\<lparr>evState := st\<rparr>) = visitChildren ev" "visitChildren (ev\<lparr>evCycle := c\<rparr>) = visitChildren ev"
  "visitChildren (ev\<lparr>minStartCycle := c\<rparr>) = visitChildren ev" "visitChildren (ev\<lparr>preDelay := p\<rparr>) = visitChildren ev"
  "visitChildren (ev\<lparr>postDelay := p\<rparr>) = visitChildren ev" "visitChildren (ev\<lparr>evClass := k\<rparr>) = visitChildren ev"
  by (simp_all add: visitChildren_def split: children.split)

lemma kids_frame [simp]:
  "kids (ev\<lparr>domain := d\<rparr>) = kids ev" "kids (ev\<lparr>numParents := n\<rparr>) = kids ev" "kids (ev\<lparr>evState := st\<rparr>) = kids ev"
  "kids (ev\<lparr>evCycle := c\<rparr>) = kids ev" "kids (ev\<lparr>minStartCycle := c\<rparr>) = kids ev" "kids (ev\<lparr>preDelay := p\<rparr>) = kids ev"
  "kids (ev\<lparr>postDelay := p\<rparr>) = kids ev" "kids (ev\<lparr>evClass := k\<rparr>) = kids ev"
  by (simp_all add: kids_def)

lemma kids_ok_frame [simp]:
  "kids_ok (ev\<lparr>domain := d\<rparr>) = kids_ok ev" "kids_ok (ev\<lparr>numParents := n\<rparr>) = kids_ok ev" "kids_ok (ev\<lparr>evState := st\<rparr>) = kids_ok ev"
  "kids_ok (ev\<lparr>evCycle := c\<rparr>) = kids_ok ev" "kids_ok (ev\<lparr>minStartCycle := c\<rparr>) = kids_ok ev" "kids_ok (ev\<lparr>preDelay := p\<rparr>) = kids_ok ev"
  "kids_ok (ev\<lparr>postDelay := p\<rparr>) = kids_ok ev" "kids_ok (ev\<lparr>evClass := k\<rparr>) = kids_ok ev"
  by (simp_all add: kids_ok_def)

lemma ev_wf_update: "ev_wf s \<Longrightarrow> kids_ok ev \<Longrightarrow> list_all (\<lambda>c. c < length s) (kids ev) \<Longrightarrow> ev_wf (s[e := ev])"
  by (simp add: ev_wf_def list_all_update)

text \<open>\<open>s'\<close> is \<open>s\<close> with some events that had no domain in_domain to \<open>dm\<close>.\<close>

definition domained :: "int \<Rightarrow> events \<Rightarrow> events \<Rightarrow> bool" where
  "domained dm s s' = (length s' = length s \<and>
     (\<forall>i < length s. s' ! i = s ! i \<or> domain (s ! i) = -1 \<and> s' ! i = (s ! i)\<lparr>domain := dm\<rparr>))"

definition undomained :: "events \<Rightarrow> nat set" where
  "undomained s = {i. i < length s \<and> domain (s ! i) = -1}"

lemma finite_undomained [simp]: "finite (undomained s)"
  by (simp add: undomained_def)

lemma domained_refl [simp]: "domained dm s s"
  by (simp add: domained_def)

lemma domained_trans: "dm \<noteq> -1 \<Longrightarrow> domained dm s s1 \<Longrightarrow> domained dm s1 s2 \<Longrightarrow> domained dm s s2"
proof -
  assume dm: "dm \<noteq> -1" and a: "domained dm s s1" "domained dm s1 s2"
  have "s2 ! i = s ! i \<or> domain (s ! i) = -1 \<and> s2 ! i = (s ! i)\<lparr>domain := dm\<rparr>" if i: "i < length s" for i
  proof -
    have "s1 ! i = s ! i \<or> domain (s ! i) = -1 \<and> s1 ! i = (s ! i)\<lparr>domain := dm\<rparr>"
      "s2 ! i = s1 ! i \<or> domain (s1 ! i) = -1 \<and> s2 ! i = (s1 ! i)\<lparr>domain := dm\<rparr>"
      using a i by (auto simp: domained_def)
    then show ?thesis using dm by auto
  qed
  then show "domained dm s s2" using a by (simp add: domained_def)
qed

lemma domained_wf: "ev_wf s \<Longrightarrow> domained dm s s' \<Longrightarrow> ev_wf s'"
  unfolding ev_wf_def domained_def list_all_length by (metis kids_frame(1) kids_ok_frame(1))

lemma domained_undomained: "dm \<noteq> -1 \<Longrightarrow> domained dm s s' \<Longrightarrow> undomained s' \<subseteq> undomained s"
  by (auto simp: undomained_def domained_def)

lemma domained_kids: "domained dm s s' \<Longrightarrow> i < length s \<Longrightarrow> kids (s' ! i) = kids (s ! i)"
  by (auto simp: domained_def)

text \<open>
  The events that propagation from \<open>c\<close> is to reach: \<open>c\<close>, if it has no domain, and the children
  without a domain of the ones it reaches.
\<close>

inductive unreached :: "events \<Rightarrow> nat \<Rightarrow> nat \<Rightarrow> bool" for s c where
  base: "c \<in> undomained s \<Longrightarrow> unreached s c c"
| step: "unreached s c i \<Longrightarrow> j \<in> set (kids (s ! i)) \<Longrightarrow> j \<in> undomained s \<Longrightarrow> unreached s c j"

lemma unreached_undomained: "unreached s c i \<Longrightarrow> i \<in> undomained s"
  by (induction rule: unreached.induct) auto

lemma unreached_source: "unreached s c i \<Longrightarrow> c \<in> undomained s"
  by (induction rule: unreached.induct) auto

lemma unreached_trans: "unreached s c i \<Longrightarrow> unreached s i j \<Longrightarrow> unreached s c j"
  by (rotate_tac, induction rule: unreached.induct) (auto intro: unreached.step)

lemma unreached_mono:
  "unreached s1 c i \<Longrightarrow> undomained s1 \<subseteq> undomained s \<Longrightarrow> (\<And>j. j \<in> undomained s1 \<Longrightarrow> kids (s1 ! j) = kids (s ! j)) \<Longrightarrow> unreached s c i"
proof (induction rule: unreached.induct)
  case base
  then show ?case by (auto intro: unreached.base)
next
  case (step i j)
  then have "kids (s1 ! i) = kids (s ! i)" using unreached_undomained by blast
  then show ?case using step by (auto intro: unreached.step [of s c i])
qed

text \<open>
  From \<open>s\<close> to \<open>s'\<close> only events reached from \<open>C\<close> got a domain, and no child of one of them is left without.
\<close>

definition spread :: "int \<Rightarrow> nat set \<Rightarrow> events \<Rightarrow> events \<Rightarrow> bool" where
  "spread dm C s s' = (domained dm s s' \<and>
     (\<forall>i \<in> undomained s - undomained s'. (\<exists>c \<in> C. unreached s c i) \<and> set (kids (s ! i)) \<inter> undomained s' = {}))"

lemma spread_refl [simp]: "spread dm C s s"
  by (simp add: spread_def)

lemma spread_mono: "spread dm C s s' \<Longrightarrow> C \<subseteq> D \<Longrightarrow> spread dm D s s'"
  unfolding spread_def by blast

lemma spread_trans:
  assumes "dm \<noteq> -1" "spread dm C s s1" "spread dm C s1 s2"
  shows "spread dm C s s2"
proof -
  have d: "domained dm s s1" "domained dm s1 s2" using assms by (simp_all add: spread_def)
  have u: "undomained s1 \<subseteq> undomained s" "undomained s2 \<subseteq> undomained s1"
    using domained_undomained [OF assms(1)] d by blast+
  have k: "kids (s1 ! j) = kids (s ! j)" if "j \<in> undomained s1" for j
    using domained_kids [OF d(1)] that d(1) by (simp add: undomained_def domained_def)
  have "(\<exists>c \<in> C. unreached s c i) \<and> set (kids (s ! i)) \<inter> undomained s2 = {}" if i: "i \<in> undomained s - undomained s2" for i
  proof (cases "i \<in> undomained s1")
    case True
    then have "(\<exists>c \<in> C. unreached s1 c i) \<and> set (kids (s1 ! i)) \<inter> undomained s2 = {}" using assms(3) i by (simp add: spread_def)
    then show ?thesis using unreached_mono [OF _ u(1) k] k [OF True] by auto
  next
    case False
    then show ?thesis using assms(2) i u(2) unfolding spread_def by blast
  qed
  then show ?thesis using domained_trans [OF assms(1) d] by (simp add: spread_def)
qed

text \<open>As much fuel as there are events without a domain is enough, on any graph.\<close>

lemma propagateDomain_ok:
  assumes "ev_wf s" "e < length s" "domain (s ! e) = -1" "dm \<noteq> -1" "card (undomained s) \<le> k"
  shows "\<exists>s'. propagateDomain k dm s e = Some s' \<and> spread dm {e} s s' \<and> domain (s' ! e) = dm"
  using assms(1-3,5)
proof (induction k arbitrary: s e)
  case 0
  then have "undomained s = {}" by simp
  then show ?case using 0 by (auto simp: undomained_def)
next
  case (Suc k)
  let ?s = "s[e := (s ! e)\<lparr>domain := dm\<rparr>]"
  let ?f = "\<lambda>s c. do { ch \<leftarrow> aget s c; if domain ch = -1 then propagateDomain k dm s c else Some s }"
  note ev = ev_wfD [OF Suc.prems(1,2)]
  have wf1: "ev_wf ?s" using ev by (intro ev_wf_update Suc.prems(1)) simp_all
  have d1: "domained dm s ?s" using Suc.prems(2,3) by (simp add: domained_def nth_list_update)
  have e: "e \<in> undomained s" and u1: "undomained ?s = undomained s - {e}"
    using Suc.prems(2,3) assms(4) by (auto simp: undomained_def nth_list_update)
  then have fuel: "card (undomained ?s) \<le> k" using Suc.prems(4) by simp
  have loop: "\<exists>s'. run_all ?f s1 cs = Some s' \<and> spread dm (set cs) s1 s' \<and> set cs \<inter> undomained s' = {}"
    if "ev_wf s1" "card (undomained s1) \<le> k" "list_all (\<lambda>c. c < length s1) cs" for s1 cs
    using that
  proof (induction cs arbitrary: s1)
    case Nil
    then show ?case by simp
  next
    case (Cons c cs)
    have c: "c < length s1" using Cons.prems(3) by simp
    obtain s2 where s2: "?f s1 c = Some s2" "spread dm {c} s1 s2" "c \<notin> undomained s2"
    proof (cases "domain (s1 ! c) = -1")
      case True
      then show ?thesis using that Suc.IH [OF Cons.prems(1) c True Cons.prems(2)] c assms(4) by (auto simp: undomained_def)
    next
      case False
      then show ?thesis using that [of s1] c by (simp add: undomained_def)
    qed
    have d: "domained dm s1 s2" using s2(2) by (simp add: spread_def)
    have "card (undomained s2) \<le> k"
      using card_mono [OF finite_undomained domained_undomained [OF assms(4) d]] Cons.prems(2) by simp
    moreover have "list_all (\<lambda>c. c < length s2) cs" using Cons.prems(3) d by (simp add: domained_def)
    ultimately obtain s' where s': "run_all ?f s2 cs = Some s'" "spread dm (set cs) s2 s'" "set cs \<inter> undomained s' = {}"
      using Cons.IH domained_wf [OF Cons.prems(1) d] by blast
    have "run_all ?f s1 (c # cs) = Some s'" unfolding run_all.simps s2(1) by (simp add: s'(1))
    moreover have "spread dm (set (c # cs)) s1 s'"
      by (rule spread_trans [OF assms(4) spread_mono [OF s2(2)] spread_mono [OF s'(2)]]) auto
    moreover have "c \<notin> undomained s'"
      using s2(3) s'(2) domained_undomained [OF assms(4)] unfolding spread_def by blast
    ultimately show ?case using s'(3) by auto
  qed
  obtain s' where s': "run_all ?f ?s (kids (s ! e)) = Some s'" "spread dm (set (kids (s ! e))) ?s s'"
    "set (kids (s ! e)) \<inter> undomained s' = {}"
    using loop [OF wf1 fuel, of "kids (s ! e)"] ev(2) by auto
  have d2: "domained dm ?s s'" using s'(2) by (simp add: spread_def)
  have "propagateDomain (Suc k) dm s e = Some s'"
    using Suc.prems(2,3) visitChildren_ok [OF ev(1)] s'(1) by simp
  moreover have "domain (s' ! e) = dm" using d2 Suc.prems(2) assms(4) by (auto simp: domained_def)
  moreover have "unreached s e i \<and> set (kids (s ! i)) \<inter> undomained s' = {}" if i: "i \<in> undomained s - undomained s'" for i
  proof (cases "i = e")
    case True
    then show ?thesis using s'(3) e by (auto intro: unreached.base)
  next
    case False
    then have k: "(\<exists>c \<in> set (kids (s ! e)). unreached ?s c i) \<and> set (kids (?s ! i)) \<inter> undomained s' = {}"
      using s'(2) i u1 by (simp add: spread_def)
    then obtain c where c: "c \<in> set (kids (s ! e))" "unreached ?s c i" by blast
    have "unreached s c i"
      by (rule unreached_mono [OF c(2)]) (use u1 Suc.prems(2) in \<open>auto simp: nth_list_update\<close>)
    moreover have "unreached s e c"
      using unreached.step [OF unreached.base [OF e] c(1)] unreached_source [OF \<open>unreached s c i\<close>] by blast
    ultimately show ?thesis using k False by (auto dest: unreached_trans)
  qed
  ultimately show ?case using domained_trans [OF assms(4) d1 d2] by (simp add: spread_def)
qed

text \<open>The events reached are the ones that get the domain.\<close>

lemma spread_all:
  assumes "dm \<noteq> -1" "spread dm {c} s s'" "domain (s' ! c) = dm" "c < length s" "i < length s" "ev_wf s"
  shows "s' ! i = (if unreached s c i then (s ! i)\<lparr>domain := dm\<rparr> else s ! i)"
proof -
  have d: "domained dm s s'" using assms(2) by (simp add: spread_def)
  then have len: "length s' = length s" by (simp add: domained_def)
  have in_s': "i \<notin> undomained s'" if "unreached s c i" for i
    using that
  proof (induction rule: unreached.induct)
    case base
    then show ?case using assms(1,3) by (simp add: undomained_def)
  next
    case (step i j)
    then show ?case using assms(2) unreached_undomained [OF step.hyps(1)] unfolding spread_def by blast
  qed
  show ?thesis
  proof (cases "unreached s c i")
    case True
    then show ?thesis using in_s' [OF True] d assms(5) len unreached_undomained [OF True]
      by (auto simp: domained_def undomained_def)
  next
    case False
    then have "i \<notin> undomained s - undomained s'" using assms(2) unfolding spread_def by blast
    then show ?thesis using False d assms(1,5) len by (auto simp: domained_def undomained_def)
  qed
qed

text \<open>
  The parent with its new child, the child with its new parent, and every event of \<open>D\<close> in domain \<open>dm\<close>;
  the fields of the events are else as they were.
\<close>

definition in_domain :: "bool \<Rightarrow> int \<Rightarrow> TimingEvent \<Rightarrow> TimingEvent" where
  "in_domain b dm ev = (if b then ev\<lparr>domain := dm\<rparr> else ev)"

lemma in_domain_fields [simp]:
  "evClass (in_domain b dm ev) = evClass ev" "evState (in_domain b dm ev) = evState ev" "evCycle (in_domain b dm ev) = evCycle ev"
  "minStartCycle (in_domain b dm ev) = minStartCycle ev" "evChildren (in_domain b dm ev) = evChildren ev"
  "numChildren (in_domain b dm ev) = numChildren ev" "numParents (in_domain b dm ev) = numParents ev" "preDelay (in_domain b dm ev) = preDelay ev"
  "postDelay (in_domain b dm ev) = postDelay ev" "kids (in_domain b dm ev) = kids ev" "kids_ok (in_domain b dm ev) = kids_ok ev"
  by (simp_all add: in_domain_def)

text \<open>What adding a child does, on any graph, field by field.\<close>

lemma addChild_run:
  assumes "ev_wf s" "e < length s" "c < length s" "e \<noteq> c" "evState (s ! e) = EV_NONE \<or> evState (s ! e) = EV_QUEUED"
    "evState (s ! c) = EV_NONE" "unat (numChildren (s ! e)) + 1 < 2 ^ 32"
  shows "\<exists>s' ch. addChild s e c = Some s' \<and> ev_wf s' \<and> length s' = length s
    \<and> mset (kids (s' ! e)) = add_mset c (mset (kids (s ! e)))
    \<and> s' ! e = (s ! e)\<lparr>numChildren := numChildren (s ! e) + 1, evChildren := ch\<rparr>
    \<and> s' ! c = (in_domain (domain (s ! e) \<noteq> -1 \<and> unreached s c c) (domain (s ! e)) (s ! c))\<lparr>numParents := numParents (s ! c) + 1\<rparr>
    \<and> (\<forall>i < length s. i \<noteq> e \<longrightarrow> i \<noteq> c \<longrightarrow>
         s' ! i = in_domain (domain (s ! e) \<noteq> -1 \<and> unreached s c i) (domain (s ! e)) (s ! i))"
proof -
  note ev = ev_wfD [OF assms(1,2)]
  let ?D = "domain (s ! e)"
  obtain ch where p: "pushChild (s ! e) c = Some ((s ! e)\<lparr>numChildren := numChildren (s ! e) + 1, evChildren := ch\<rparr>)"
    "kids_ok ((s ! e)\<lparr>numChildren := numChildren (s ! e) + 1, evChildren := ch\<rparr>)"
    "mset (kids ((s ! e)\<lparr>numChildren := numChildren (s ! e) + 1, evChildren := ch\<rparr>)) = add_mset c (mset (kids (s ! e)))"
    using pushChild_ok [OF ev(1) assms(7), of c] by blast
  let ?e = "(s ! e)\<lparr>numChildren := numChildren (s ! e) + 1, evChildren := ch\<rparr>"
  let ?s = "s[e := (s ! e)\<lparr>numChildren := numChildren (s ! e) + 1, evChildren := ch\<rparr>]"
  have "set (kids ?e) = insert c (set (kids (s ! e)))" using p(3) by (metis set_mset_add_mset_insert set_mset_mset)
  then have wf1: "ev_wf ?s" using ev(2) assms(1,3) p(2) by (intro ev_wf_update) (simp_all add: list_all_iff)
  have un: "undomained ?s = undomained s" using assms(2) by (auto simp: undomained_def nth_list_update split: if_splits)
  have same: "unreached ?s c i = unreached s c i" if "?D \<noteq> -1" for i
    by (intro iffI; erule unreached_mono) (use un that assms(2) in \<open>auto simp: undomained_def nth_list_update split: if_splits\<close>)
  obtain s2 where s2: "(if domain ?e \<noteq> -1 \<and> domain (s ! c) = -1 then propagateDomain (length s) (domain ?e) ?s c else Some ?s) = Some s2"
    "length s2 = length s" "ev_wf s2" "\<forall>i < length s. s2 ! i = in_domain (?D \<noteq> -1 \<and> unreached s c i) ?D (?s ! i)"
  proof (cases "domain ?e \<noteq> -1 \<and> domain (s ! c) = -1")
    case True
    then have D: "?D \<noteq> -1" "domain (?s ! c) = -1" using assms(4) by simp_all
    have "undomained ?s \<subseteq> {..<length s}" by (auto simp: undomained_def)
    then have "card (undomained ?s) \<le> length s" using card_mono [of "{..<length s}" "undomained ?s"] by simp
    then obtain s' where s': "propagateDomain (length s) ?D ?s c = Some s'" "spread ?D {c} ?s s'" "domain (s' ! c) = ?D"
      using propagateDomain_ok [OF wf1 _ D(2,1), of "length s"] assms(3) by auto
    have d: "domained ?D ?s s'" using s'(2) by (simp add: spread_def)
    have "s' ! i = in_domain (?D \<noteq> -1 \<and> unreached s c i) ?D (?s ! i)" if "i < length s" for i
      using spread_all [OF D(1) s'(2,3), of i] wf1 assms(3) that same [OF D(1)] D(1) by (simp add: in_domain_def)
    then show ?thesis using that [of s'] s'(1) True d domained_wf [OF wf1 d] by (simp add: domained_def)
  next
    case False
    have "\<not> (?D \<noteq> -1 \<and> unreached s c i)" for i
      using False unreached_source [of s c i] by (auto simp: undomained_def)
    then have "\<forall>i < length s. ?s ! i = in_domain (?D \<noteq> -1 \<and> unreached s c i) ?D (?s ! i)" by (simp only: in_domain_def if_False simp_thms)
    then show ?thesis using that [of ?s] wf1 False by auto
  qed
  let ?r = "s2[c := (s2 ! c)\<lparr>numParents := numParents (s2 ! c) + 1\<rparr>]"
  have run: "addChild s e c = Some ?r"
    unfolding addChild_def using assms(2-6) p(1) s2(1,2) by (auto simp: Let_def)
  have "ev_wf ?r" using ev_wfD [OF s2(3), of c] s2(2) assms(3) by (intro ev_wf_update s2(3)) simp_all
  moreover have "\<not> (?D \<noteq> -1 \<and> unreached s c e)" using unreached_undomained by (auto simp: undomained_def)
  then have "?r ! e = ?e" using s2(4) assms(2,4) by (simp add: in_domain_def)
  moreover have "?r ! c = (in_domain (?D \<noteq> -1 \<and> unreached s c c) ?D (s ! c))\<lparr>numParents := numParents (s ! c) + 1\<rparr>"
    using s2(2,4) assms(3,4) by simp
  moreover have "?r ! i = in_domain (?D \<noteq> -1 \<and> unreached s c i) ?D (s ! i)" if "i < length s" "i \<noteq> e" "i \<noteq> c" for i
    using s2(4) that by simp
  ultimately show ?thesis using run p(3) s2(2) by (intro exI [of _ ?r] exI [of _ ch]) simp
qed

text \<open>
  Claim C23.  \<open>addChild\<close> returns and does exactly its job, on any graph of events, cyclic ones included, between a
  parent that is not executed yet and another event not yet scheduled.  The parent has one child more, and a
  later visit meets the child once more than before; nothing else of the parent changes.  The child
  counts one parent more.  If the parent has a domain, the events that move to it are exactly those reached from the child
  through events without a domain (the child itself included, if it has none); apart from the domain of these, no
  field of any other event changes, and no event changes its domain if the parent has none.
\<close>

theorem addChild_ok:
  assumes "ev_wf s" "e < length s" "c < length s" "e \<noteq> c" "evState (s ! e) = EV_NONE \<or> evState (s ! e) = EV_QUEUED"
    "evState (s ! c) = EV_NONE" "unat (numChildren (s ! e)) + 1 < 2 ^ 32"
  shows "\<exists>s' ch. addChild s e c = Some s' \<and> ev_wf s' \<and> length s' = length s
    \<and> mset (kids (s' ! e)) = add_mset c (mset (kids (s ! e)))
    \<and> s' ! e = (s ! e)\<lparr>numChildren := numChildren (s ! e) + 1, evChildren := ch\<rparr>
    \<and> s' ! c = (if domain (s ! e) \<noteq> -1 \<and> domain (s ! c) = -1 then (s ! c)\<lparr>domain := domain (s ! e)\<rparr> else s ! c)
         \<lparr>numParents := numParents (s ! c) + 1\<rparr>
    \<and> (\<forall>i < length s. i \<noteq> e \<longrightarrow> i \<noteq> c \<longrightarrow>
         s' ! i = (if domain (s ! e) \<noteq> -1 \<and> unreached s c i then (s ! i)\<lparr>domain := domain (s ! e)\<rparr> else s ! i))"
proof -
  have "unreached s c c = (domain (s ! c) = -1)"
    using assms(3) unreached_undomained [of s c c] by (auto simp: undomained_def intro: unreached.base)
  then show ?thesis using addChild_run [OF assms] unfolding in_domain_def by simp
qed

theorem addChild_ok_witness:
  "\<exists>s'. addChild [(TimingEvent_new Delay 3 0 7)\<lparr>numChildren := 1, evChildren := Child 3\<rparr>,
                (DelayEvent_new 5)\<lparr>numChildren := 1, evChildren := Child 2\<rparr>, (DelayEvent_new 1)\<lparr>numParents := 1\<rparr>,
                TimingEvent_new Delay 2 0 7] 0 1 = Some s'
     \<and> mset (kids (s' ! 0)) = {#1, 3#} \<and> numParents (s' ! 1) = 1 \<and> domain (s' ! 1) = 7
     \<and> s' ! 2 = (DelayEvent_new 1)\<lparr>numParents := 1, domain := 7\<rparr> \<and> s' ! 3 = TimingEvent_new Delay 2 0 7"
proof -
  let ?p = "(TimingEvent_new Delay 3 0 7)\<lparr>numChildren := 1, evChildren := Child 3\<rparr>"
  let ?c = "(DelayEvent_new 5)\<lparr>numChildren := 1, evChildren := Child 2\<rparr>"
  let ?g = "(DelayEvent_new 1)\<lparr>numParents := 1\<rparr>" and ?q = "TimingEvent_new Delay 2 0 7"
  let ?s = "[?p, ?c, ?g, ?q]"
  have k: "kids ?p = [3]" "kids ?c = [2]" "kids ?g = []" "kids ?q = []"
    by (simp_all add: kids_def visitChildren_def DelayEvent_new_def TimingEvent_new_def)
  have wf: "ev_wf ?s" unfolding ev_wf_def using k by (simp add: kids_ok_def TimingEvent_new_def DelayEvent_new_def)
  have u: "undomained ?s = {1, 2}"
    by (auto simp: undomained_def less_Suc_eq DelayEvent_new_def TimingEvent_new_def numeral_eq_Suc)
  have "unreached ?s 1 2"
    by (rule unreached.step [OF unreached.base]) (use u k in simp_all)
  moreover have "\<not> unreached ?s 1 3" using unreached_undomained [of ?s 1 3] u by auto
  ultimately have u: "unreached ?s 1 2" "\<not> unreached ?s 1 3" by simp_all
  have f: "evState ?p = EV_NONE" "evState ?c = EV_NONE" "numChildren ?p = 1" "domain ?p = 7" "domain ?c = -1" "numParents ?c = 0"
    by (simp_all add: DelayEvent_new_def TimingEvent_new_def)
  have n: "?s ! 0 = ?p" "?s ! 1 = ?c" "?s ! 2 = ?g" "?s ! 3 = ?q" "length ?s = 4" by simp_all
  have h: "(0 :: nat) < 4" "(1 :: nat) < 4" "(0 :: nat) \<noteq> 1" "unat (numChildren ?p) + 1 < 2 ^ 32" by simp_all
  obtain s' ch where s': "addChild ?s 0 1 = Some s'" "mset (kids (s' ! 0)) = add_mset 1 (mset (kids ?p))"
    "s' ! 1 = (if domain ?p \<noteq> -1 \<and> domain ?c = -1 then ?c\<lparr>domain := domain ?p\<rparr> else ?c)\<lparr>numParents := numParents ?c + 1\<rparr>"
    "\<forall>i < 4. i \<noteq> 0 \<longrightarrow> i \<noteq> 1 \<longrightarrow> s' ! i = (if domain ?p \<noteq> -1 \<and> unreached ?s 1 i then (?s ! i)\<lparr>domain := domain ?p\<rparr> else ?s ! i)"
    using addChild_ok [OF wf, of 0 1, unfolded n, OF h(1,2,3) disjI1 [OF f(1)] f(2) h(4)] by blast
  have "s' ! 2 = ?g\<lparr>domain := 7\<rparr>" "s' ! 3 = ?q" using s'(4) [rule_format, of 2] s'(4) [rule_format, of 3] u f n by simp_all
  then show ?thesis using s'(1-3) f k by (intro exI [of _ s']) simp
qed

section \<open>Growing a graph\<close>

text \<open>A sound graph whose events have at most \<open>B\<close> children, and what building keeps of the events there are.\<close>

definition ev_le :: "nat \<Rightarrow> events \<Rightarrow> bool" where
  "ev_le B s = (ev_wf s \<and> (\<forall>i < length s. unat (numChildren (s ! i)) \<le> B))"

definition kept :: "events \<Rightarrow> events \<Rightarrow> bool" where
  "kept s s' = (length s \<le> length s' \<and> (\<forall>i < length s. evClass (s' ! i) = evClass (s ! i) \<and> evState (s' ! i) = evState (s ! i)
     \<and> minStartCycle (s' ! i) = minStartCycle (s ! i) \<and> preDelay (s' ! i) = preDelay (s ! i)
     \<and> set (kids (s ! i)) \<subseteq> set (kids (s' ! i))))"

lemma kept_refl [simp]: "kept s s"
  by (simp add: kept_def)

lemma kept_trans: "kept s s1 \<Longrightarrow> kept s1 s2 \<Longrightarrow> kept s s2"
  unfolding kept_def by simp (meson order.strict_trans2 subset_trans)

lemma ev_le_mono: "ev_le B s \<Longrightarrow> B \<le> C \<Longrightarrow> ev_le C s"
  unfolding ev_le_def by (meson order_trans)

lemma addChild_step:
  assumes "ev_le B s" "B + 1 < 2 ^ 32" "e < length s" "c < length s" "e \<noteq> c" "evState (s ! e) = EV_NONE \<or> evState (s ! e) = EV_QUEUED"
    "evState (s ! c) = EV_NONE"
  shows "\<exists>s'. addChild s e c = Some s' \<and> ev_le (B + 1) s' \<and> kept s s' \<and> length s' = length s \<and> c \<in> set (kids (s' ! e))"
proof -
  have n: "unat (numChildren (s ! i)) \<le> B" if "i < length s" for i using assms(1) that by (simp add: ev_le_def)
  then have lt: "unat (numChildren (s ! e)) + 1 < 2 ^ 32" using assms(2,3) by (meson add_le_mono1 le_less_trans)
  have wf: "ev_wf s" using assms(1) by (simp add: ev_le_def)
  obtain s' ch where s': "addChild s e c = Some s'" "ev_wf s'" "length s' = length s" "mset (kids (s' ! e)) = add_mset c (mset (kids (s ! e)))"
    "s' ! e = (s ! e)\<lparr>numChildren := numChildren (s ! e) + 1, evChildren := ch\<rparr>"
    "s' ! c = (in_domain (domain (s ! e) \<noteq> -1 \<and> unreached s c c) (domain (s ! e)) (s ! c))\<lparr>numParents := numParents (s ! c) + 1\<rparr>"
    "\<forall>i < length s. i \<noteq> e \<longrightarrow> i \<noteq> c \<longrightarrow> s' ! i = in_domain (domain (s ! e) \<noteq> -1 \<and> unreached s c i) (domain (s ! e)) (s ! i)"
    using addChild_run [OF wf assms(3-7) lt] by blast
  have e: "set (kids (s' ! e)) = insert c (set (kids (s ! e)))" using s'(4) by (metis set_mset_add_mset_insert set_mset_mset)
  have "unat (numChildren (s ! e) + 1) = unat (numChildren (s ! e)) + 1" using lt by (simp add: unat_add_no_wrap)
  then have same: "evClass (s' ! i) = evClass (s ! i) \<and> evState (s' ! i) = evState (s ! i) \<and> minStartCycle (s' ! i) = minStartCycle (s ! i)
      \<and> preDelay (s' ! i) = preDelay (s ! i) \<and> set (kids (s ! i)) \<subseteq> set (kids (s' ! i)) \<and> unat (numChildren (s' ! i)) \<le> B + 1"
    if i: "i < length s" for i
  proof -
    consider "i = e" | "i = c" "i \<noteq> e" | "i \<noteq> e" "i \<noteq> c" by blast
    then show ?thesis
    proof cases
      case 1
      have "evClass (s' ! e) = evClass (s ! e)" "evState (s' ! e) = evState (s ! e)" "minStartCycle (s' ! e) = minStartCycle (s ! e)"
        "preDelay (s' ! e) = preDelay (s ! e)" "numChildren (s' ! e) = numChildren (s ! e) + 1"
        unfolding s'(5) by simp_all
      then show ?thesis using 1 n [OF i] e \<open>unat (numChildren (s ! e) + 1) = _\<close> by auto
    next
      case 2
      then show ?thesis using s'(6) n [OF i] by simp
    next
      case 3
      then show ?thesis using s'(7) n [OF i] i by simp
    qed
  qed
  then show ?thesis using s'(1,2,3) e by (auto simp: ev_le_def kept_def)
qed

text \<open>A new event at the end.\<close>

lemma kids_ok_new [simp]: "kids_ok (TimingEvent_new k pre post dm)" "kids (TimingEvent_new k pre post dm) = []"
  by (simp_all add: kids_ok_def kids_def visitChildren_def TimingEvent_new_def)

lemma ev_le_snoc: "ev_le B s \<Longrightarrow> ev_le B (s @ [TimingEvent_new k pre post dm])"
proof -
  assume le: "ev_le B s"
  have "list_all (\<lambda>ev. kids_ok ev \<and> list_all (\<lambda>c. c < length s) (kids ev)) s" using le by (simp add: ev_le_def ev_wf_def)
  then have "ev_wf (s @ [TimingEvent_new k pre post dm])" by (fastforce simp: ev_wf_def list_all_iff)
  moreover have "numChildren (TimingEvent_new k pre post dm) = 0" by (simp add: TimingEvent_new_def)
  ultimately show ?thesis using le by (auto simp: ev_le_def nth_append)
qed

lemma ev_le_update:
  assumes "ev_le B s" "i < length s" "kids_ok ev = kids_ok (s ! i)" "kids ev = kids (s ! i)" "numChildren ev = numChildren (s ! i)"
  shows "ev_le B (s[i := ev])"
proof -
  have wf: "ev_wf s" using assms(1) by (simp add: ev_le_def)
  have "ev_wf (s[i := ev])" using ev_wf_update [OF wf] ev_wfD [OF wf assms(2)] assms(3,4) by simp
  then show ?thesis using assms by (simp add: ev_le_def nth_list_update)
qed

end
