(* ===== verification/Caches.thy ===== *)
theory Caches
  imports Coherence CacheArrays TimingEvents
begin

text \<open>
  \<open>Cache\<close> (\<open>src/src/cache.h\<close>, \<open>src/src/cache.cpp\<close>) and \<open>FilterCache\<close> (\<open>src/src/filter_cache.h\<close>), with the event
  recorder of \<open>src/src/event_recorder.h\<close> that an access reads.  A cache puts together a coherence
  controller, an array and a replacement policy; the controller and the array are given by the
  tables of their virtual functions.  The policy asks the controller for the state of lines,
  so the array's table depends on the view of the controller.
\<close>

section \<open>EventRecorder\<close>

text \<open>The records of an access.  Events are positions in the event store; a null pointer is \<open>None\<close>.\<close>

record TimingRecord =
  traddr :: Address
  reqCycle :: u64
  trespCycle :: u64
  trtype :: AccessType
  startEvent :: "nat option"
  endEvent :: "nat option"

definition tr_isValid :: "TimingRecord \<Rightarrow> bool" where
  "tr_isValid t = (startEvent t \<noteq> None)"

definition tr_clear :: "TimingRecord \<Rightarrow> TimingRecord" where
  "tr_clear t = t\<lparr>startEvent := None\<rparr>"

record EventRecorder =
  er_tr :: TimingRecord
  ersrcId :: u32
  lastGapCycles :: u64
  lastStartSlack :: u64

definition pushRecord :: "EventRecorder \<Rightarrow> TimingRecord \<Rightarrow> EventRecorder option" where
  "pushRecord e rc = do {
     _ \<leftarrow> require (\<not> tr_isValid (er_tr e));
     _ \<leftarrow> require (tr_isValid rc);
     Some (e\<lparr>er_tr := rc\<rparr>)
   }"

definition popRecord :: "EventRecorder \<Rightarrow> EventRecorder \<times> TimingRecord" where
  "popRecord e = (e\<lparr>er_tr := tr_clear (er_tr e)\<rparr>, er_tr e)"

definition hasRecord :: "EventRecorder \<Rightarrow> bool" where
  "hasRecord e = tr_isValid (er_tr e)"

definition getSlack :: "EventRecorder \<Rightarrow> u64 \<Rightarrow> u64" where
  "getSlack e origStartCycle = origStartCycle + lastStartSlack e"

definition setStartSlack :: "EventRecorder \<Rightarrow> u64 \<Rightarrow> EventRecorder" where
  "setStartSlack e s = (if lastStartSlack e \<noteq> s then e\<lparr>lastStartSlack := s\<rparr> else e)"

definition setGapCycles :: "EventRecorder \<Rightarrow> u64 \<Rightarrow> EventRecorder" where
  "setGapCycles e g = e\<lparr>lastGapCycles := g\<rparr>"

section \<open>Cache\<close>

record ('c, 'w) CC =
  ccStartAccess :: "MemReq \<Rightarrow> (MemReq \<times> bool) option"
  ccShouldAllocate :: "'c \<Rightarrow> MemReq \<Rightarrow> bool option"
  ccProcessEviction :: "'c \<Rightarrow> 'w \<Rightarrow> MemReq \<Rightarrow> Address \<Rightarrow> nat \<Rightarrow> u64 \<Rightarrow> ('c \<times> 'w \<times> u64) option"
  ccProcessAccess :: "'c \<Rightarrow> 'w \<Rightarrow> MemReq \<Rightarrow> int \<Rightarrow> u64 \<Rightarrow> ('c \<times> 'w \<times> MESIState \<times> u64) option"
  ccProcessInv :: "'c \<Rightarrow> 'w \<Rightarrow> InvReq \<Rightarrow> nat \<Rightarrow> u64 \<Rightarrow> ('c \<times> 'w \<times> bool \<times> u64) option"
  ccView :: "'c \<Rightarrow> cc_view"

record 'a CacheArray =
  caLookup :: "'a \<Rightarrow> u64 \<Rightarrow> MemReq option \<Rightarrow> bool \<Rightarrow> ('a \<times> int) option"
  caPreinsert :: "'a \<Rightarrow> u64 \<Rightarrow> MemReq option \<Rightarrow> ('a \<times> nat \<times> u64) option"
  caPostinsert :: "'a \<Rightarrow> u64 \<Rightarrow> MemReq option \<Rightarrow> nat \<Rightarrow> 'a option"

text \<open>
  The event recorders of the system and the event store live in the world; the recorders are a table by source id that
  may hold null pointers.
\<close>

record 'w recorders =
  getRec :: "'w \<Rightarrow> u32 \<Rightarrow> EventRecorder option"
  setRec :: "'w \<Rightarrow> u32 \<Rightarrow> EventRecorder \<Rightarrow> 'w"
  getEvs :: "'w \<Rightarrow> events"
  setEvs :: "'w \<Rightarrow> events \<Rightarrow> 'w"

record ('c, 'a) Cache =
  ccc :: 'c
  carray :: 'a
  cnumLines :: u32
  accLat :: u32
  invLat :: u32

definition Cache_new :: "u32 \<Rightarrow> 'c \<Rightarrow> 'a \<Rightarrow> u32 \<Rightarrow> u32 \<Rightarrow> ('c, 'a) Cache" where
  "Cache_new numLines cc arr al il = \<lparr>ccc = cc, carray = arr, cnumLines = numLines, accLat = al, invLat = il\<rparr>"

text \<open>The record of a writeback during the eviction, taken from the recorder.\<close>

definition takeWb :: "'w recorders \<Rightarrow> 'w \<Rightarrow> u32 \<Rightarrow> 'w \<times> TimingRecord option" where
  "takeWb rcs w src =
     (case getRec rcs w src of
        None \<Rightarrow> (w, None)
      | Some e \<Rightarrow>
          if hasRecord e then (let (e', rc) = popRecord e in (setRec rcs w src e', Some rc))
          else (w, None))"

text \<open>Stitching the record of the writeback and the one of the access together.\<close>

definition stitch :: "'w recorders \<Rightarrow> 'w \<Rightarrow> MemReq \<Rightarrow> TimingRecord option \<Rightarrow> 'w option" where
  "stitch rcs w req wbAcc =
     (case wbAcc of
        None \<Rightarrow> Some w
      | Some wb \<Rightarrow> do {
          evRec \<leftarrow> getRec rcs w (srcId req);
          if \<not> hasRecord evRec then do {
            e \<leftarrow> pushRecord evRec (wb\<lparr>endEvent := None\<rparr>);
            Some (setRec rcs w (srcId req) e)
          }
          else do {
            let (e1, ac) = popRecord evRec;
            _ \<leftarrow> require (reqCycle wb \<ge> rcycle req);
            _ \<leftarrow> require (reqCycle ac \<ge> rcycle req);
            wbEv \<leftarrow> startEvent wb;
            accEv \<leftarrow> startEvent ac;
            let (s1, startEv) = alloc (getEvs rcs w) (DelayEvent_new 0);
            let (s2, dWbEv) = alloc s1 (DelayEvent_new (ucast (reqCycle wb - rcycle req)));
            let (s3, dAccEv) = alloc s2 (DelayEvent_new (ucast (reqCycle ac - rcycle req)));
            s4 \<leftarrow> setMinStartCycle s3 startEv (rcycle req);
            s5 \<leftarrow> setMinStartCycle s4 dWbEv (rcycle req);
            s6 \<leftarrow> setMinStartCycle s5 dAccEv (rcycle req);
            s7 \<leftarrow> addChild s6 startEv dWbEv;
            s8 \<leftarrow> addChild s7 dWbEv wbEv;
            s9 \<leftarrow> addChild s8 startEv dAccEv;
            s10 \<leftarrow> addChild s9 dAccEv accEv;
            e2 \<leftarrow> pushRecord e1 (ac\<lparr>reqCycle := rcycle req, startEvent := Some startEv\<rparr>);
            Some (setRec rcs (setEvs rcs w s10) (srcId req) e2)
          }
        })"

text \<open>The result is the cache, the world, \<open>*req.state\<close> and the response cycle.\<close>

definition cache_access :: "('c, 'w) CC \<Rightarrow> (cc_view \<Rightarrow> 'a CacheArray) \<Rightarrow> 'w recorders \<Rightarrow> ('c, 'a) Cache \<Rightarrow> 'w \<Rightarrow> MemReq \<Rightarrow>
    (('c, 'a) Cache \<times> 'w \<times> MESIState \<times> u64) option" where
  "cache_access cc ar rcs ca w req0 = do {
     (req, skipAccess) \<leftarrow> ccStartAccess cc req0;
     (ca', w', st, respCycle) \<leftarrow>
       (if skipAccess then Some (ca, w, rstate req, rcycle req)
        else do {
          let updateReplacement = (rtype req = GETS \<or> rtype req = GETX);
          (a1, lineId) \<leftarrow> caLookup (ar (ccView cc (ccc ca))) (carray ca) (lineAddr req) (Some req) updateReplacement;
          let resp = rcycle req + ucast (accLat ca);
          alloc \<leftarrow> (if lineId = -1 then ccShouldAllocate cc (ccc ca) req else Some False);
          (c2, a2, w2, lineId2) \<leftarrow>
            (if alloc then do {
               (a', cand, wbLineAddr) \<leftarrow> caPreinsert (ar (ccView cc (ccc ca))) a1 (lineAddr req) (Some req);
               (c', w', _) \<leftarrow> ccProcessEviction cc (ccc ca) w req wbLineAddr cand resp;
               a'' \<leftarrow> caPostinsert (ar (ccView cc c')) a' (lineAddr req) (Some req) cand;
               Some (c', a'', w', int cand)
             }
             else Some (ccc ca, a1, w, lineId));
          let (w3, wbAcc) = takeWb rcs w2 (srcId req);
          (c4, w4, st, resp') \<leftarrow> ccProcessAccess cc c2 w3 req lineId2 resp;
          w5 \<leftarrow> stitch rcs w4 req wbAcc;
          Some (ca\<lparr>ccc := c4, carray := a2\<rparr>, w5, st, resp')
        });
     _ \<leftarrow> require (respCycle \<ge> rcycle req);
     Some (ca', w', st, respCycle)
   }"

text \<open>\<open>startInvalidate\<close> only takes a lock, so \<open>invalidate\<close> is \<open>finishInvalidate\<close>.\<close>

definition cache_finishInvalidate :: "('c, 'w) CC \<Rightarrow> (cc_view \<Rightarrow> 'a CacheArray) \<Rightarrow> ('c, 'a) Cache \<Rightarrow> 'w \<Rightarrow> InvReq \<Rightarrow>
    (('c, 'a) Cache \<times> 'w \<times> bool \<times> u64) option" where
  "cache_finishInvalidate cc ar ca w req = do {
     (a1, lineId) \<leftarrow> caLookup (ar (ccView cc (ccc ca))) (carray ca) (ilineAddr req) None False;
     _ \<leftarrow> require (lineId \<noteq> -1);
     let respCycle = icycle req + ucast (invLat ca);
     (c', w', wb, resp) \<leftarrow> ccProcessInv cc (ccc ca) w req (nat lineId) respCycle;
     Some (ca\<lparr>ccc := c', carray := a1\<rparr>, w', wb, resp)
   }"

text \<open>The tables of the two controllers and of the set-associative array.\<close>

definition MESITerminalCC_ops :: "(MESIBottomCC, 'w) parent_access \<Rightarrow> (MESIBottomCC, 'w) CC" where
  "MESITerminalCC_ops acc =
     \<lparr>ccStartAccess = term_startAccess, ccShouldAllocate = term_shouldAllocate,
      ccProcessEviction = term_processEviction acc,
      ccProcessAccess = (\<lambda>b w req lineId cy. do { (b', w', r) \<leftarrow> term_processAccess acc b w req lineId cy False; Some (b', w', rstate req, r) }),
      ccProcessInv = (\<lambda>b w req lineId cy. do { (b', wb, r) \<leftarrow> term_processInv b req lineId cy; Some (b', w, wb, r) }),
      ccView = (\<lambda>b. (\<lambda>l. Some (term_numSharers b l), bcc_isValid b))\<rparr>"

definition MESICC_ops :: "(MESICC, 'w) parent_access \<Rightarrow> 'w child_inval \<Rightarrow> (MESICC, 'w) CC" where
  "MESICC_ops acc invc =
     \<lparr>ccStartAccess = cc_startAccess, ccShouldAllocate = cc_shouldAllocate,
      ccProcessEviction = cc_processEviction acc invc,
      ccProcessAccess = (\<lambda>c w req lineId cy. do { (c', w', st, r, _) \<leftarrow> cc_processAccess acc invc c w req lineId cy; Some (c', w', st, r) }),
      ccProcessInv = cc_processInv invc,
      ccView = (\<lambda>c. (cc_numSharers c, cc_isValid c))\<rparr>"

definition lru_table :: "bool \<Rightarrow> cc_view \<Rightarrow> LRUReplPolicy ReplPolicy" where
  "lru_table sharersAware cc = \<lparr>rpUpdate = lru_update, rpReplaced = lru_replaced, rpRank = lru_rank sharersAware cc\<rparr>"

definition SetAssocArray_ops :: "(cc_view \<Rightarrow> 's ReplPolicy) \<Rightarrow> hash_fn \<Rightarrow> cc_view \<Rightarrow> 's SetAssocArray CacheArray" where
  "SetAssocArray_ops rp hf v = \<lparr>caLookup = sa_lookup (rp v) hf, caPreinsert = sa_preinsert (rp v) hf, caPostinsert = sa_postinsert (rp v)\<rparr>"

section \<open>FilterCache\<close>

text \<open>
  A filter cache is a \<open>Cache\<close> with a terminal controller over a set-associative array without hashing,
  under LRU: the initialization code accepts no other configuration.
\<close>

record FilterEntry =
  rdAddr :: Address
  wrAddr :: Address
  availCycle :: u64

definition FilterEntry_clear :: FilterEntry where
  "FilterEntry_clear = \<lparr>rdAddr = 0, wrAddr = 0, availCycle = 0\<rparr>"

type_synonym l1_cache = "(MESIBottomCC, LRUReplPolicy SetAssocArray) Cache"

record FilterCache =
  fcache :: l1_cache
  filterArray :: "FilterEntry list"
  fsetMask :: Address
  fnumSets :: u32
  fsrcId :: u32
  reqFlags :: u32
  fGETSHit :: u64
  fGETXHit :: u64
  fGETSCycles :: u64
  fGETXCycles :: u64

definition FilterCache_new :: "u32 \<Rightarrow> l1_cache \<Rightarrow> FilterCache" where
  "FilterCache_new numSets ca =
     \<lparr>fcache = ca, filterArray = replicate (unat numSets) FilterEntry_clear, fsetMask = ucast (numSets - 1), fnumSets = numSets,
      fsrcId = -1, reqFlags = 0, fGETSHit = 0, fGETXHit = 0, fGETSCycles = 0, fGETXCycles = 0\<rparr>"

definition setSourceId :: "FilterCache \<Rightarrow> u32 \<Rightarrow> FilterCache" where
  "setSourceId f i = f\<lparr>fsrcId := i\<rparr>"

definition setFlags :: "FilterCache \<Rightarrow> u32 \<Rightarrow> FilterCache" where
  "setFlags f fl = f\<lparr>reqFlags := fl\<rparr>"

definition l1_access :: "(MESIBottomCC, 'w) parent_access \<Rightarrow> 'w recorders \<Rightarrow> l1_cache \<Rightarrow> 'w \<Rightarrow> MemReq \<Rightarrow>
    (l1_cache \<times> 'w \<times> MESIState \<times> u64) option" where
  "l1_access acc = cache_access (MESITerminalCC_ops acc) (SetAssocArray_ops (lru_table False) id_hash)"

definition fc_replace :: "(MESIBottomCC, 'w) parent_access \<Rightarrow> 'w recorders \<Rightarrow> Address \<Rightarrow> FilterCache \<Rightarrow> 'w \<Rightarrow> Address \<Rightarrow> nat \<Rightarrow>
    bool \<Rightarrow> u64 \<Rightarrow> (FilterCache \<times> 'w \<times> u64) option" where
  "fc_replace acc rcs procMask f w vLineAddr idx isLoad curCycle = do {
     let pLineAddr = procMask OR vLineAddr;
     let req = \<lparr>lineAddr = pLineAddr, rtype = (if isLoad then GETS else GETX), childId = 0, rstate = I, rcycle = curCycle,
                initialState = I, srcId = fsrcId f, flags = reqFlags f\<rparr>;
     (ca, w', _, respCycle) \<leftarrow> l1_access acc rcs (fcache f) w req;
     e \<leftarrow> aget (filterArray f) idx;
     let e' = e\<lparr>wrAddr := (if isLoad then -1 else vLineAddr), rdAddr := vLineAddr,
                availCycle := (if rdAddr e \<noteq> vLineAddr then respCycle else availCycle e)\<rparr>;
     fa \<leftarrow> aset (filterArray f) idx e';
     Some (f\<lparr>fcache := ca, filterArray := fa\<rparr>, w', respCycle)
   }"

definition fc_load :: "(MESIBottomCC, 'w) parent_access \<Rightarrow> 'w recorders \<Rightarrow> Address \<Rightarrow> nat \<Rightarrow> FilterCache \<Rightarrow> 'w \<Rightarrow> Address \<Rightarrow> u64 \<Rightarrow>
    (FilterCache \<times> 'w \<times> u64) option" where
  "fc_load acc rcs procMask lineBits f w vAddr curCycle = do {
     let vLineAddr = drop_bit lineBits vAddr;
     let idx = unat (ucast (vLineAddr AND fsetMask f) :: u32);
     e \<leftarrow> aget (filterArray f) idx;
     (f', w', respCycle) \<leftarrow>
       (if vLineAddr = rdAddr e then Some (f\<lparr>fGETSHit := fGETSHit f + 1\<rparr>, w, c_MAX curCycle (availCycle e))
        else fc_replace acc rcs procMask f w vLineAddr idx True curCycle);
     Some (f'\<lparr>fGETSCycles := fGETSCycles f' + (respCycle - curCycle)\<rparr>, w', respCycle)
   }"

definition fc_store :: "(MESIBottomCC, 'w) parent_access \<Rightarrow> 'w recorders \<Rightarrow> Address \<Rightarrow> nat \<Rightarrow> FilterCache \<Rightarrow> 'w \<Rightarrow> Address \<Rightarrow> u64 \<Rightarrow>
    (FilterCache \<times> 'w \<times> u64) option" where
  "fc_store acc rcs procMask lineBits f w vAddr curCycle = do {
     let vLineAddr = drop_bit lineBits vAddr;
     let idx = unat (ucast (vLineAddr AND fsetMask f) :: u32);
     e \<leftarrow> aget (filterArray f) idx;
     (f', w', respCycle) \<leftarrow>
       (if vLineAddr = wrAddr e then Some (f\<lparr>fGETXHit := fGETXHit f + 1\<rparr>, w, c_MAX curCycle (availCycle e))
        else fc_replace acc rcs procMask f w vLineAddr idx False curCycle);
     Some (f'\<lparr>fGETXCycles := fGETXCycles f' + (respCycle - curCycle)\<rparr>, w', respCycle)
   }"

definition fc_invalidate :: "(MESIBottomCC, 'w) parent_access \<Rightarrow> Address \<Rightarrow> FilterCache \<Rightarrow> 'w \<Rightarrow> InvReq \<Rightarrow>
    (FilterCache \<times> 'w \<times> bool \<times> u64) option" where
  "fc_invalidate acc procMask f w req = do {
     let idx = unat (ucast (ilineAddr req AND fsetMask f) :: u32);
     e \<leftarrow> aget (filterArray f) idx;
     fa \<leftarrow> (if rdAddr e OR procMask = ilineAddr req then aset (filterArray f) idx (e\<lparr>wrAddr := -1, rdAddr := -1\<rparr>)
           else Some (filterArray f));
     (ca, w', wb, respCycle) \<leftarrow>
       cache_finishInvalidate (MESITerminalCC_ops acc) (SetAssocArray_ops (lru_table False) id_hash) (fcache f) w req;
     Some (f\<lparr>fcache := ca, filterArray := fa\<rparr>, w', wb, respCycle)
   }"

definition fc_contextSwitch :: "FilterCache \<Rightarrow> FilterCache" where
  "fc_contextSwitch f = f\<lparr>filterArray := map (\<lambda>_. FilterEntry_clear) (filterArray f)\<rparr>"

section \<open>An access of a terminal cache\<close>

text \<open>The array of an L1 cache, for any view of a controller of \<open>n\<close> lines.\<close>

lemma l1_array:
  assumes "view_ok v n"
  shows "cache_array (caLookup (SetAssocArray_ops (lru_table aw) hf v)) (caPreinsert (SetAssocArray_ops (lru_table aw) hf v))
     (caPostinsert (SetAssocArray_ops (lru_table aw) hf v)) sarray (sa_inv n k hf (lru_ok n)) (sa_mid n k hf (lru_ok n)) (\<lambda>_. True)"
  using sa_lru.contract [where n = n and k = k and cc = v and aw = aw and hf = hf] assms by (simp add: SetAssocArray_ops_def lru_table_def)

definition l1_inv :: "nat \<Rightarrow> nat \<Rightarrow> nat \<Rightarrow> l1_cache \<Rightarrow> bool" where
  "l1_inv n k np ca = (sa_inv n k id_hash (lru_ok n) (carray ca) \<and> length (barray (ccc ca)) = n
     \<and> length (parentRTTs (ccc ca)) = np \<and> 0 < np
     \<and> (\<forall>i < n. sarray (carray ca) ! i = 0 \<longrightarrow> barray (ccc ca) ! i = I))"

text \<open>\<open>holds ca addr l st\<close>: line \<open>l\<close> of the cache holds \<open>addr\<close> in state \<open>st\<close>.\<close>

definition holds :: "l1_cache \<Rightarrow> Address \<Rightarrow> nat \<Rightarrow> MESIState \<Rightarrow> bool" where
  "holds ca addr l st = (l < length (sarray (carray ca)) \<and> l < length (barray (ccc ca)) \<and> sarray (carray ca) ! l = addr
     \<and> barray (ccc ca) ! l = st)"

definition no_records :: "'w recorders \<Rightarrow> 'w \<Rightarrow> bool" where
  "no_records rcs w = (\<forall>src. case getRec rcs w src of None \<Rightarrow> True | Some e \<Rightarrow> \<not> hasRecord e)"

lemma takeWb_none: "no_records rcs w \<Longrightarrow> takeWb rcs w src = (w, None)"
proof -
  assume "no_records rcs w"
  then have "case getRec rcs w src of None \<Rightarrow> True | Some e \<Rightarrow> \<not> hasRecord e" unfolding no_records_def by blast
  then show ?thesis by (cases "getRec rcs w src") (simp_all add: takeWb_def)
qed

lemma stitch_none [simp]: "stitch rcs w req None = Some w"
  by (simp add: stitch_def)

lemma l1_view_ok: "length (barray b) = n \<Longrightarrow> view_ok (ccView (MESITerminalCC_ops acc) b) n"
  by (simp add: view_ok_def view_numSharers_def view_isValid_def MESITerminalCC_ops_def bcc_isValid_def)

lemma sa_base_ops: "sa_inv n k hf P a \<Longrightarrow> sa_inv n k hf Q a' \<Longrightarrow> ssetMask a' = ssetMask a \<Longrightarrow> sassoc a' = sassoc a \<Longrightarrow>
    sa_base hf a' addr = sa_base hf a addr"
  by (simp add: sa_base_def sa_first_def)

text \<open>The lookup and the insertion leave the geometry of the array alone.\<close>

lemma sa_scan_geometry: "sa_scan rp a addr req upd ids = Some (a', i) \<Longrightarrow> ssetMask a' = ssetMask a \<and> sassoc a' = sassoc a"
  by (induction ids) (auto elim!: bind_Some_elim split: if_splits)

lemma sa_lookup_geometry: "sa_lookup rp hf a addr req upd = Some (a', i) \<Longrightarrow> ssetMask a' = ssetMask a \<and> sassoc a' = sassoc a"
  by (auto simp: sa_lookup_def elim!: bind_Some_elim dest: sa_scan_geometry)

lemma sa_preinsert_geometry: "sa_preinsert rp hf a addr req = Some (a', c, wb) \<Longrightarrow> ssetMask a' = ssetMask a \<and> sassoc a' = sassoc a"
  by (auto simp: sa_preinsert_def elim!: bind_Some_elim)

lemma sa_postinsert_geometry: "sa_postinsert rp a addr req c = Some a' \<Longrightarrow> ssetMask a' = ssetMask a \<and> sassoc a' = sassoc a"
  by (auto simp: sa_postinsert_def elim!: bind_Some_elim)

context bcc_port
begin

lemma l1_place_ok:
  assumes inv: "l1_inv n k np ca" and wok: "wok w" and addr: "lineAddr req \<noteq> 0" and cy: "unat cy < 2 ^ 61"
  shows "\<exists>a1 lineId. caLookup (SetAssocArray_ops (lru_table False) id_hash (ccView (MESITerminalCC_ops acc) (ccc ca))) (carray ca) (lineAddr req) (Some req) True
        = Some (a1, lineId)
    \<and> (\<exists>c2 a2 w2 l. (if lineId = -1 then do {
             (a', cand, wb) \<leftarrow> caPreinsert (SetAssocArray_ops (lru_table False) id_hash (ccView (MESITerminalCC_ops acc) (ccc ca))) a1 (lineAddr req) (Some req);
             (c', w', _) \<leftarrow> ccProcessEviction (MESITerminalCC_ops acc) (ccc ca) w req wb cand cy;
             a'' \<leftarrow> caPostinsert (SetAssocArray_ops (lru_table False) id_hash (ccView (MESITerminalCC_ops acc) c')) a' (lineAddr req) (Some req) cand;
             Some (c', a'', w', int cand)
           } else Some (ccc ca, a1, w, lineId)) = Some (c2, a2, w2, int l)
      \<and> wok w2 \<and> fr w2 = fr w \<and> sa_inv n k id_hash (lru_ok n) a2 \<and> l < n \<and> sarray a2 ! l = lineAddr req
      \<and> (\<forall>i < n. i \<noteq> l \<longrightarrow> sarray a2 ! i = sarray (carray ca) ! i) \<and> bcc_ok c2
      \<and> length (barray c2) = n \<and> (\<forall>i < n. i \<noteq> l \<longrightarrow> barray c2 ! i = barray (ccc ca) ! i)
      \<and> ssetMask a2 = ssetMask (carray ca) \<and> sassoc a2 = sassoc (carray ca))"
proof -
  let ?v = "ccView (MESITerminalCC_ops acc) (ccc ca)" and ?a = "carray ca" and ?b = "ccc ca"
  let ?ar = "SetAssocArray_ops (lru_table False) id_hash"
  have ok: "sa_inv n k id_hash (lru_ok n) ?a" and len: "length (barray ?b) = n" and bok: "bcc_ok ?b"
    using inv by (simp_all add: l1_inv_def bcc_ok_def)
  have lena: "length (sarray ?a) = n" using ok by (simp add: sa_inv_def sa_wf_def)
  note arr = l1_array [OF l1_view_ok [OF len, of acc], of False id_hash k]
  show ?thesis
  proof (cases "lineAddr req \<in> set (sarray ?a)")
    case True
    from cache_array.lookup_hit [OF arr ok addr _ True, where req = "Some req" and upd = True]
    obtain a1 i where l: "caLookup (?ar ?v) ?a (lineAddr req) (Some req) True = Some (a1, int i)" "i < n"
        "sarray ?a ! i = lineAddr req" "sa_inv n k id_hash (lru_ok n) a1" "sarray a1 = sarray ?a"
      using lena by auto
    then show ?thesis using wok len bok sa_lookup_geometry [of "lru_table False ?v"]
      by (intro exI [of _ a1] exI [of _ "int i"] conjI exI [of _ ?b] exI [of _ a1] exI [of _ w] exI [of _ i])
        (auto simp: SetAssocArray_ops_def)
  next
    case False
    have l: "caLookup (?ar ?v) ?a (lineAddr req) (Some req) True = Some (?a, -1)"
      by (rule cache_array.lookup_miss [OF arr ok addr False])
    obtain a' c where p: "caPreinsert (?ar ?v) ?a (lineAddr req) (Some req) = Some (a', c, sarray ?a ! c)" "c < n" "sarray a' = sarray ?a"
        "sa_mid n k id_hash (lru_ok n) a' (lineAddr req) c"
      using cache_array.preinsert_ok [OF arr ok addr False, where req = "Some req"] lena by auto
    have "unat cy < 2 ^ 62" using cy by simp
    from bcc_processEviction_ok [OF wok bok this, of c False "sarray ?a ! c" "srcId req"] p(2) len
    obtain w' cy' where e: "ccProcessEviction (MESITerminalCC_ops acc) ?b w req (sarray ?a ! c) c cy
        = Some (?b\<lparr>barray := (barray ?b)[c := I]\<rparr>, w', cy')" "wok w'" "fr w' = fr w"
      by (auto simp: MESITerminalCC_ops_def term_processEviction_def)
    let ?b' = "?b\<lparr>barray := (barray ?b)[c := I]\<rparr>"
    have len': "length (barray ?b') = n" using len by simp
    note arr' = l1_array [OF l1_view_ok [OF len', of acc], of False id_hash k]
    obtain a2 where q: "caPostinsert (?ar (ccView (MESITerminalCC_ops acc) ?b')) a' (lineAddr req) (Some req) c = Some a2"
        "sa_inv n k id_hash (lru_ok n) a2" "sarray a2 = (sarray a')[c := lineAddr req]"
      using cache_array.postinsert_ok [OF arr' p(4) TrueI, where req = "Some req"] by blast
    have geo: "ssetMask a2 = ssetMask ?a" "sassoc a2 = sassoc ?a"
      using sa_preinsert_geometry [of "lru_table False ?v" id_hash ?a "lineAddr req" "Some req" a' c] p(1)
        sa_postinsert_geometry [of "lru_table False (ccView (MESITerminalCC_ops acc) ?b')" a' "lineAddr req" "Some req" c a2] q(1)
      by (simp_all add: SetAssocArray_ops_def)
    have "bcc_ok ?b'" using bok by (simp add: bcc_ok_def)
    then show ?thesis using l p q e geo len' lena
      by (intro exI [of _ ?a] exI [of _ "-1"] conjI exI [of _ ?b'] exI [of _ a2] exI [of _ w'] exI [of _ c]) auto
  qed
qed

lemma l1_access_ok:
  assumes inv: "l1_inv n k np ca" and wok: "wok w" and recs: "\<And>w. wok w \<Longrightarrow> no_records rcs w"
    and addr: "lineAddr req \<noteq> 0" and type: "rtype req = GETS \<or> rtype req = GETX" and st: "rstate req = I" "initialState req = I"
    and fl: "\<not> flag_is (flags req) PUTX_KEEPEXCL" and cy: "unat (rcycle req) < 2 ^ 60"
  shows "\<exists>ca' w' resp l s. l1_access acc rcs ca w req = Some (ca', w', I, resp) \<and> wok w' \<and> l1_inv n k np ca'
    \<and> unat (rcycle req) + unat (accLat ca) \<le> unat resp \<and> unat resp < unat (rcycle req) + 2 ^ 33
    \<and> holds ca' (lineAddr req) l s \<and> s \<noteq> I \<and> (rtype req = GETX \<longrightarrow> s = M)
    \<and> (\<forall>i < n. i \<noteq> l \<longrightarrow> sarray (carray ca') ! i = sarray (carray ca) ! i \<and> barray (ccc ca') ! i = barray (ccc ca) ! i)
    \<and> ssetMask (carray ca') = ssetMask (carray ca) \<and> sassoc (carray ca') = sassoc (carray ca)"
proof -
  let ?cy = "rcycle req + ucast (accLat ca)"
  have u: "unat (accLat ca) < 4294967296" by simp
  have "unat (rcycle req) + unat (ucast (accLat ca) :: u64) < 2 ^ LENGTH(64)"
    using cy u by (simp del: unat_u32_lt)
  then have ucy: "unat ?cy = unat (rcycle req) + unat (accLat ca)" by (subst unat_add_no_wrap) simp_all
  have lt: "unat ?cy < unat (rcycle req) + 2 ^ 32" unfolding ucy using u by (simp del: unat_u32_lt)
  then have cy61: "unat ?cy < 2 ^ 61" using cy by simp
  have start: "ccStartAccess (MESITerminalCC_ops acc) req = Some (req, False)"
    using type st by (auto simp: MESITerminalCC_ops_def term_startAccess_def CheckForMESIRace_def)
  have upd: "(rtype req = GETS \<or> rtype req = GETX) = True" using type by simp
  have alloc: "(if i = -1 then ccShouldAllocate (MESITerminalCC_ops acc) b req else Some False) = Some (i = -1)" for i :: int and b
    by (simp add: MESITerminalCC_ops_def term_shouldAllocate_def)
  obtain a1 lineId c2 a2 w2 l where place: "caLookup (SetAssocArray_ops (lru_table False) id_hash (ccView (MESITerminalCC_ops acc) (ccc ca))) (carray ca) (lineAddr req) (Some req) True
        = Some (a1, lineId)"
      "(if lineId = -1 then do {
             (a', cand, wb) \<leftarrow> caPreinsert (SetAssocArray_ops (lru_table False) id_hash (ccView (MESITerminalCC_ops acc) (ccc ca))) a1 (lineAddr req) (Some req);
             (c', w', _) \<leftarrow> ccProcessEviction (MESITerminalCC_ops acc) (ccc ca) w req wb cand ?cy;
             a'' \<leftarrow> caPostinsert (SetAssocArray_ops (lru_table False) id_hash (ccView (MESITerminalCC_ops acc) c')) a' (lineAddr req) (Some req) cand;
             Some (c', a'', w', int cand)
           } else Some (ccc ca, a1, w, lineId)) = Some (c2, a2, w2, int l)"
      and p: "wok w2" "sa_inv n k id_hash (lru_ok n) a2" "l < n" "sarray a2 ! l = lineAddr req"
        "\<forall>i < n. i \<noteq> l \<longrightarrow> sarray a2 ! i = sarray (carray ca) ! i" "bcc_ok c2" "length (barray c2) = n"
        "\<forall>i < n. i \<noteq> l \<longrightarrow> barray c2 ! i = barray (ccc ca) ! i" "ssetMask a2 = ssetMask (carray ca)" "sassoc a2 = sassoc (carray ca)"
    using l1_place_ok [OF inv wok addr cy61] by blast
  have cy62: "unat ?cy < 2 ^ 62" using cy61 by simp
  have l: "l < length (barray c2)" using p(3,7) by simp
  obtain b' w' s cy' where acc: "bcc_processAccess acc c2 w2 (lineAddr req) l (rtype req) ?cy (srcId req) (flags req) = Some (b', w', cy')"
      "barray b' = (barray c2)[l := s]" "bcc_ok b'" "wok w'" "fetched (rtype req) (flags req) (barray c2 ! l) s"
      "unat ?cy \<le> unat cy'" "unat cy' < unat ?cy + 2 ^ 32"
    using bcc_processAccess_ok [OF p(1,6) cy62 l fl, of "rtype req" "lineAddr req" "srcId req"] type by auto
  have pa: "ccProcessAccess (MESITerminalCC_ops acc) c2 w2 req (int l) ?cy = Some (b', w', I, cy')"
    using acc(1) st by (simp add: MESITerminalCC_ops_def term_processAccess_def)
  have ge: "rcycle req \<le> cy'" using acc(6) ucy by (simp add: word_le_nat_alt)
  let ?ca = "ca\<lparr>ccc := b', carray := a2\<rparr>"
  have run: "l1_access acc rcs ca w req = Some (?ca, w', I, cy')"
    unfolding l1_access_def cache_access_def start Option.bind.bind_lunit prod.case if_False Let_def upd place(1) alloc place(2)
      takeWb_none [OF recs [OF p(1)]] pa stitch_none
    using ge by simp
  have s: "s \<noteq> I" "rtype req = GETX \<longrightarrow> s = M"
    using acc(5) type by (auto simp: fetched_def split: if_splits)
  have lena: "length (sarray a2) = n" using p(2) by (simp add: sa_inv_def sa_wf_def)
  have "l1_inv n k np ?ca"
    using inv p acc(2,3) addr unfolding l1_inv_def bcc_ok_def by (auto simp: nth_list_update)
  moreover have "holds ?ca (lineAddr req) l s" using p(3,4,7) acc(2) lena by (simp add: holds_def)
  moreover have "unat (rcycle req) + unat (accLat ca) \<le> unat cy'" "unat cy' < unat (rcycle req) + 2 ^ 33"
    using acc(6,7) ucy u by (simp_all del: unat_u32_lt)
  moreover have "\<forall>i < n. i \<noteq> l \<longrightarrow> sarray (carray ?ca) ! i = sarray (carray ca) ! i \<and> barray (ccc ?ca) ! i = barray (ccc ca) ! i"
    using p(5,8) acc(2) by simp
  ultimately show ?thesis using run acc(4) s p(9,10)
    by (intro exI [of _ ?ca] exI [of _ w'] exI [of _ cy'] exI [of _ l] exI [of _ s]) simp
qed

lemma l1_invalidate_ok:
  assumes inv: "l1_inv n k np ca" and held: "holds ca (ilineAddr req) l s" and addr: "ilineAddr req \<noteq> 0" and s: "s \<noteq> I"
    and t: "itype req = INVX \<longrightarrow> s = E \<or> s = M" "itype req = FWD \<longrightarrow> s = S"
  shows "\<exists>ca' wb resp s'. cache_finishInvalidate (MESITerminalCC_ops acc) (SetAssocArray_ops (lru_table False) id_hash) ca w req = Some (ca', w, wb, resp)
    \<and> l1_inv n k np ca' \<and> sarray (carray ca') = sarray (carray ca)
    \<and> barray (ccc ca') = (barray (ccc ca))[l := s'] \<and> (itype req = INV \<longrightarrow> s' = I)
    \<and> ssetMask (carray ca') = ssetMask (carray ca) \<and> sassoc (carray ca') = sassoc (carray ca)"
proof -
  let ?v = "ccView (MESITerminalCC_ops acc) (ccc ca)"
  have ok: "sa_inv n k id_hash (lru_ok n) (carray ca)" and len: "length (barray (ccc ca)) = n" using inv by (simp_all add: l1_inv_def)
  have lena: "length (sarray (carray ca)) = n" using ok by (simp add: sa_inv_def sa_wf_def)
  have l: "l < n" "sarray (carray ca) ! l = ilineAddr req" "barray (ccc ca) ! l = s" using held len by (auto simp: holds_def)
  note arr = l1_array [OF l1_view_ok [OF len, of acc], of False id_hash k]
  have mem: "ilineAddr req \<in> set (sarray (carray ca))" using l lena by (metis nth_mem)
  obtain a1 i where look: "caLookup (SetAssocArray_ops (lru_table False) id_hash ?v) (carray ca) (ilineAddr req) None False = Some (a1, int i)"
      "i < n" "sarray (carray ca) ! i = ilineAddr req" "sa_inv n k id_hash (lru_ok n) a1" "sarray a1 = sarray (carray ca)"
    using cache_array.lookup_hit [OF arr ok addr _ mem, where req = None and upd = False] lena by auto
  have "i = l" using cache_array.lines_unique [OF arr ok, of i l] look(2,3) l(1,2) lena addr by simp
  obtain b' wb s' where b': "bcc_processInval (ccc ca) l (itype req) (writeback req) = Some (b', wb)"
      "barray b' = (barray (ccc ca))[l := s']" "itype req = INV \<longrightarrow> s' = I" "length (parentRTTs b') = length (parentRTTs (ccc ca))"
  proof (cases "itype req")
    case INV
    then show ?thesis using that [of "(ccc ca)\<lparr>barray := (barray (ccc ca))[l := I], profINV := profINV (ccc ca) + 1\<rparr>" "if s = M then True else writeback req" I]
        l len s by (simp add: bcc_processInval_def set_state_def)
  next
    case INVX
    then have "s = E \<or> s = M" using t by simp
    then show ?thesis using that [of "(ccc ca)\<lparr>barray := (barray (ccc ca))[l := S], profINVX := profINVX (ccc ca) + 1\<rparr>" "if s = M then True else writeback req" S]
        l len s INVX by (auto simp: bcc_processInval_def set_state_def)
  next
    case FWD
    then have "s = S" using t by simp
    moreover from this have "barray (ccc ca) = (barray (ccc ca))[l := S]" using l(3) by (metis list_update_id)
    ultimately show ?thesis using that [of "(ccc ca)\<lparr>profFWD := profFWD (ccc ca) + 1\<rparr>" "writeback req" S]
        l len s FWD by (auto simp: bcc_processInval_def set_state_def)
  qed
  let ?ca = "ca\<lparr>ccc := b', carray := a1\<rparr>"
  have "cache_finishInvalidate (MESITerminalCC_ops acc) (SetAssocArray_ops (lru_table False) id_hash) ca w req
      = Some (?ca, w, wb, icycle req + ucast (invLat ca))"
    using look(1) \<open>i = l\<close> b'(1) by (simp add: cache_finishInvalidate_def MESITerminalCC_ops_def term_processInv_def)
  moreover have "l1_inv n k np ?ca" using inv look(4,5) b'(2,4) l addr by (auto simp: l1_inv_def nth_list_update)
  moreover have "ssetMask a1 = ssetMask (carray ca)" "sassoc a1 = sassoc (carray ca)"
    using look(1) sa_lookup_geometry by (fastforce simp: SetAssocArray_ops_def)+
  ultimately show ?thesis using look(5) b'(2,3) by auto
qed

end

section \<open>The filter only hits on lines the cache holds\<close>

text \<open>
  The addresses of a process: a line address has fewer than \<open>64 - lineBits\<close> bits, and the process mask
  only sets bits above.
\<close>

definition mask_ok :: "Address \<Rightarrow> nat \<Rightarrow> bool" where
  "mask_ok procMask lineBits = (0 < lineBits \<and> lineBits \<le> 32 \<and> take_bit (64 - lineBits) procMask = 0)"

definition line_ok :: "nat \<Rightarrow> Address \<Rightarrow> bool" where
  "line_ok lineBits v = (take_bit (64 - lineBits) v = v)"

lemma line_ok_shift: "lineBits < 64 \<Longrightarrow> line_ok lineBits (drop_bit lineBits v)"
  unfolding line_ok_def
  by (intro bit_word_eqI) (auto simp: bit_simps dest: bit_imp_le_length)

lemma line_ok_inj:
  assumes "mask_ok m b" "line_ok b v" "line_ok b v'" "m OR v = m OR v'"
  shows "v = v'"
proof (rule bit_word_eqI)
  fix n assume n: "n < LENGTH(64)"
  have m: "\<not> bit m n" if "n < 64 - b"
  proof -
    have "\<not> bit (take_bit (64 - b) m) n" using assms(1) by (simp add: mask_ok_def)
    then show ?thesis using that by (simp add: bit_take_bit_iff)
  qed
  have v: "\<not> bit x n" if "line_ok b x" "\<not> n < 64 - b" for x :: u64
  proof -
    have "bit x n = bit (take_bit (64 - b) x) n" using that(1) by (simp add: line_ok_def)
    then show ?thesis using that(2) by (simp add: bit_take_bit_iff)
  qed
  have "bit (m OR v) n = bit (m OR v') n" using assms(4) by simp
  then show "bit v n = bit v' n" using m v [OF assms(2)] v [OF assms(3)] by (cases "n < 64 - b") (simp_all add: bit_simps)
qed

lemma mask_and_small:
  assumes "mask_ok m b" "unat s < 2 ^ 32"
  shows "(m OR v) AND s = v AND (s :: u64)"
proof (rule bit_word_eqI)
  fix n assume "n < LENGTH(64)"
  have "\<not> bit s n" if "\<not> n < 32"
  proof -
    have "take_bit 32 s = s" using assms(2) by (simp add: word_unat_eq_iff unsigned_take_bit_eq take_bit_nat_eq_self_iff)
    then have "bit s n = bit (take_bit 32 s) n" by simp
    then show ?thesis using that by (simp add: bit_take_bit_iff)
  qed
  moreover have "\<not> bit m n" if "n < 32"
  proof -
    have "n < 64 - b" using that assms(1) by (auto simp: mask_ok_def)
    moreover have "\<not> bit (take_bit (64 - b) m) n" using assms(1) by (simp add: mask_ok_def)
    ultimately show ?thesis by (simp add: bit_take_bit_iff)
  qed
  ultimately show "bit ((m OR v) AND s) n = bit (v AND s) n" by (auto simp: bit_simps)
qed

definition fc_idx :: "FilterCache \<Rightarrow> Address \<Rightarrow> nat" where
  "fc_idx f v = unat (ucast (v AND fsetMask f) :: u32)"

definition entry_ok :: "Address \<Rightarrow> nat \<Rightarrow> FilterCache \<Rightarrow> nat \<Rightarrow> FilterEntry \<Rightarrow> bool" where
  "entry_ok m b f i e =
     ((rdAddr e \<noteq> -1 \<and> rdAddr e \<noteq> 0 \<longrightarrow> line_ok b (rdAddr e) \<and> fc_idx f (rdAddr e) = i
          \<and> (\<exists>l s. holds (fcache f) (m OR rdAddr e) l s \<and> s \<noteq> I))
      \<and> (wrAddr e \<noteq> -1 \<and> wrAddr e \<noteq> 0 \<longrightarrow> wrAddr e = rdAddr e \<and> (\<exists>l. holds (fcache f) (m OR wrAddr e) l M)))"

definition fc_inv :: "nat \<Rightarrow> nat \<Rightarrow> nat \<Rightarrow> Address \<Rightarrow> nat \<Rightarrow> FilterCache \<Rightarrow> bool" where
  "fc_inv n k np m b f = (l1_inv n k np (fcache f) \<and> fsetMask f = ucast (ssetMask (carray (fcache f)))
     \<and> length (filterArray f) = unat (snumSets (carray (fcache f)))
     \<and> (\<forall>i < length (filterArray f). entry_ok m b f i (filterArray f ! i)))"

text \<open>Without hashing a line of the set-associative array tells the index of its address.\<close>

lemma id_base:
  assumes "sa_wf n k id_hash a"
  shows "sa_base id_hash a addr = unat (ucast (addr AND ucast (ssetMask a)) :: u32) * k"
    "unat (ucast (addr AND ucast (ssetMask a)) :: u32) < unat (snumSets a)"
proof -
  let ?h = "addr AND ucast (ssetMask a)" and ?s = "unat (snumSets a)"
  have lt: "unat ?h < ?s" using mask_below [of "snumSets a" addr] assms by (simp add: sa_wf_def)
  then have u: "unat (ucast ?h :: u32) = unat ?h" using less_trans [OF lt unat_u32_lt] by (intro unat_ucast_down) simp
  show "unat (ucast ?h :: u32) < ?s" using u lt by simp
  have k: "unat (sassoc a) = k" and n: "?s * k \<le> n" "n < 2 ^ 32" using assms by (simp_all add: sa_wf_def)
  have "unat ?h * k \<le> ?s * k" using lt by (intro mult_le_mono1) simp
  then have "unat ?h * k < 2 ^ 32" using n by linarith
  then have "unat ((ucast ?h :: u32) * sassoc a) = unat (ucast ?h :: u32) * k"
    using u k by (simp add: unat_word_ariths)
  then show "sa_base id_hash a addr = unat (ucast ?h :: u32) * k" by (simp add: sa_base_def sa_first_def id_hash_def)
qed

lemma id_line_set:
  assumes "sa_inv n k id_hash P a" "l < n" "sarray a ! l \<noteq> 0"
  shows "l div k = unat (ucast (sarray a ! l AND ucast (ssetMask a)) :: u32)"
proof -
  have wf: "sa_wf n k id_hash a" and pl: "sa_placed k id_hash a" using assms(1) by (simp_all add: sa_inv_def)
  let ?i = "unat (ucast (sarray a ! l AND ucast (ssetMask a)) :: u32)"
  have "?i * k \<le> l" "l < ?i * k + k" using pl assms(2,3) wf id_base(1) [OF wf] by (auto simp: sa_placed_def sa_wf_def)
  then show ?thesis by (intro div_nat_eqI) (simp_all add: algebra_simps)
qed

lemma holds_mask_index:
  assumes "l1_inv n k np ca" "mask_ok m b" "holds ca (m OR v) l s" "m OR v \<noteq> 0" "l < n"
  shows "l div k = unat (ucast (v AND ucast (ssetMask (carray ca))) :: u32)"
proof -
  have sa: "sa_inv n k id_hash (lru_ok n) (carray ca)" and at: "sarray (carray ca) ! l = m OR v"
    using assms(1,3) by (simp_all add: l1_inv_def holds_def)
  have "unat (ucast (ssetMask (carray ca)) :: u64) < 2 ^ 32" by simp
  from mask_and_small [OF assms(2) this, of v] id_line_set [OF sa assms(5)] at assms(4) show ?thesis by simp
qed

text \<open>An entry survives a change of the cache that leaves its line alone.\<close>

lemma entry_ok_keep:
  assumes e: "entry_ok m b f i e" and inv: "l1_inv n k np (fcache f)" and inv': "l1_inv n k np (fcache f')"
    and mask: "fsetMask f' = fsetMask f"
    and keep: "\<And>j. j < n \<Longrightarrow> j \<noteq> l \<Longrightarrow> sarray (carray (fcache f')) ! j = sarray (carray (fcache f)) ! j
          \<and> barray (ccc (fcache f')) ! j = barray (ccc (fcache f)) ! j"
    and apart: "\<And>s. rdAddr e \<noteq> -1 \<Longrightarrow> rdAddr e \<noteq> 0 \<Longrightarrow> \<not> holds (fcache f) (m OR rdAddr e) l s"
  shows "entry_ok m b f' i e"
proof -
  have move: "holds (fcache f') addr j s" if "holds (fcache f) addr j s" "j \<noteq> l" for addr j s
    using that inv inv' keep [of j] by (simp add: holds_def l1_inv_def sa_inv_def sa_wf_def)
  have "rdAddr e \<noteq> -1 \<and> rdAddr e \<noteq> 0 \<longrightarrow> (\<exists>j s. holds (fcache f') (m OR rdAddr e) j s \<and> s \<noteq> I)"
  proof (intro impI)
    assume rd: "rdAddr e \<noteq> -1 \<and> rdAddr e \<noteq> 0"
    then obtain j s where h: "holds (fcache f) (m OR rdAddr e) j s" "s \<noteq> I" using e by (auto simp: entry_ok_def)
    then have "j \<noteq> l" using apart rd by blast
    then show "\<exists>j s. holds (fcache f') (m OR rdAddr e) j s \<and> s \<noteq> I" using move h by blast
  qed
  moreover have "wrAddr e \<noteq> -1 \<and> wrAddr e \<noteq> 0 \<longrightarrow> (\<exists>j. holds (fcache f') (m OR wrAddr e) j M)"
  proof (intro impI)
    assume wr: "wrAddr e \<noteq> -1 \<and> wrAddr e \<noteq> 0"
    then obtain j where h: "holds (fcache f) (m OR wrAddr e) j M" and eq: "wrAddr e = rdAddr e" using e by (auto simp: entry_ok_def)
    then have "j \<noteq> l" using apart wr by metis
    then show "\<exists>j. holds (fcache f') (m OR wrAddr e) j M" using move h by blast
  qed
  ultimately show ?thesis using e mask by (auto simp: entry_ok_def fc_idx_def)
qed

text \<open>A bound on the cycles at which the lines of the filter become available.\<close>

definition fc_avail :: "nat \<Rightarrow> FilterCache \<Rightarrow> bool" where
  "fc_avail B f = list_all (\<lambda>e. unat (availCycle e) \<le> B) (filterArray f)"

lemma fc_avail_mono: "fc_avail B f \<Longrightarrow> B \<le> C \<Longrightarrow> fc_avail C f"
  by (auto simp: fc_avail_def list_all_iff intro: order_trans)

lemma fc_avail_counters [simp]:
  "fc_avail B (f\<lparr>fGETSHit := x\<rparr>) = fc_avail B f" "fc_avail B (f\<lparr>fGETXHit := x\<rparr>) = fc_avail B f"
  "fc_avail B (f\<lparr>fGETSCycles := y\<rparr>) = fc_avail B f" "fc_avail B (f\<lparr>fGETXCycles := y\<rparr>) = fc_avail B f"
  by (simp_all add: fc_avail_def)

lemma fc_avail_contextSwitch [simp]: "fc_avail B (fc_contextSwitch f)"
  by (simp add: fc_avail_def fc_contextSwitch_def FilterEntry_clear_def list_all_iff)

context bcc_port
begin

lemma fc_replace_ok:
  assumes inv: "fc_inv n k np m b f" and m: "mask_ok m b" and v: "line_ok b v" "m OR v \<noteq> 0"
    and wok: "wok w" and recs: "\<And>w. wok w \<Longrightarrow> no_records rcs w"
    and fl: "\<not> flag_is (reqFlags f) PUTX_KEEPEXCL" and cy: "unat cy < 2 ^ 60"
  shows "\<exists>f' w' resp. fc_replace acc rcs m f w v (fc_idx f v) ld cy = Some (f', w', resp) \<and> wok w' \<and> fc_inv n k np m b f'
    \<and> unat cy \<le> unat resp \<and> reqFlags f' = reqFlags f
    \<and> (\<forall>B. fc_avail B f \<and> unat cy \<le> B \<longrightarrow> unat resp \<le> B + 2 ^ 33 \<and> fc_avail (B + 2 ^ 33) f')"
proof -
  let ?i = "fc_idx f v" and ?ca = "fcache f"
  let ?req = "\<lparr>lineAddr = m OR v, rtype = (if ld then GETS else GETX), childId = 0, rstate = I, rcycle = cy,
                initialState = I, srcId = fsrcId f, flags = reqFlags f\<rparr>"
  have l1: "l1_inv n k np ?ca" and mask: "fsetMask f = ucast (ssetMask (carray ?ca))"
    and len: "length (filterArray f) = unat (snumSets (carray ?ca))"
    and ents: "\<And>i. i < length (filterArray f) \<Longrightarrow> entry_ok m b f i (filterArray f ! i)"
    using inv by (simp_all add: fc_inv_def)
  have wf: "sa_wf n k id_hash (carray ?ca)" using l1 by (simp add: l1_inv_def sa_inv_def)
  have i: "?i < length (filterArray f)" using id_base(2) [OF wf, of v] len mask by (simp add: fc_idx_def)
  have get: "rtype ?req = GETS \<or> rtype ?req = GETX" by simp
  have pre: "lineAddr ?req \<noteq> 0" "rstate ?req = I" "initialState ?req = I" "\<not> flag_is (flags ?req) PUTX_KEEPEXCL" "unat (rcycle ?req) < 2 ^ 60"
    using v(2) fl cy by simp_all
  obtain ca' w' resp l s where a0: "l1_access acc rcs ?ca w ?req = Some (ca', w', I, resp)" "wok w'" "l1_inv n k np ca'"
      "unat (rcycle ?req) + unat (accLat ?ca) \<le> unat resp" "unat resp < unat (rcycle ?req) + 2 ^ 33"
      "holds ca' (lineAddr ?req) l s" "s \<noteq> I" "rtype ?req = GETX \<longrightarrow> s = M"
      "\<forall>i < n. i \<noteq> l \<longrightarrow> sarray (carray ca') ! i = sarray (carray ?ca) ! i \<and> barray (ccc ca') ! i = barray (ccc ?ca) ! i"
      "ssetMask (carray ca') = ssetMask (carray ?ca)" "sassoc (carray ca') = sassoc (carray ?ca)"
    using l1_access_ok [OF l1 wok recs pre(1) get pre(2-5)] by blast
  then have a: "l1_access acc rcs ?ca w ?req = Some (ca', w', I, resp)" "wok w'" "l1_inv n k np ca'"
      "unat cy + unat (accLat ?ca) \<le> unat resp" "holds ca' (m OR v) l s" "s \<noteq> I" "\<not> ld \<longrightarrow> s = M"
      "\<forall>i < n. i \<noteq> l \<longrightarrow> sarray (carray ca') ! i = sarray (carray ?ca) ! i \<and> barray (ccc ca') ! i = barray (ccc ?ca) ! i"
      "ssetMask (carray ca') = ssetMask (carray ?ca)" "sassoc (carray ca') = sassoc (carray ?ca)"
    by simp_all
  define e' where "e' = (filterArray f ! ?i)\<lparr>wrAddr := (if ld then -1 else v), rdAddr := v,
      availCycle := (if rdAddr (filterArray f ! ?i) \<noteq> v then resp else availCycle (filterArray f ! ?i))\<rparr>"
  let ?f = "f\<lparr>fcache := ca', filterArray := (filterArray f)[?i := e']\<rparr>"
  have run: "fc_replace acc rcs m f w v ?i ld cy = Some (?f, w', resp)"
    using a(1) i by (simp add: fc_replace_def Let_def e'_def)
  have lc: "l < n" using a(3,5) by (simp add: holds_def l1_inv_def)
  have idx: "fc_idx ?f = fc_idx f" by (simp add: fc_idx_def fun_eq_iff)
  have sets: "snumSets (carray ca') = snumSets (carray ?ca)"
  proof -
    have "ssetMask (carray ca') = snumSets (carray ca') - 1" "ssetMask (carray ?ca) = snumSets (carray ?ca) - 1"
      using a(3) l1 by (simp_all add: l1_inv_def sa_inv_def sa_wf_def)
    then show ?thesis using a(9) by (metis add_diff_cancel_right' diff_add_cancel)
  qed
  have l1': "l1_inv n k np (fcache ?f)" using a(3) by simp
  have "entry_ok m b ?f j (filterArray ?f ! j)" if j: "j < length (filterArray f)" for j
  proof (cases "j = ?i")
    case True
    then have "filterArray ?f ! j = e'" using i by simp
    then show ?thesis using True a(5,6,7) v(1) idx by (auto simp: entry_ok_def e'_def)
  next
    case False
    let ?e = "filterArray f ! j"
    have "entry_ok m b ?f j ?e"
    proof (rule entry_ok_keep [OF ents [OF j] l1 l1', where l = l])
      fix s' assume rd: "rdAddr ?e \<noteq> -1" "rdAddr ?e \<noteq> 0"
      have r: "line_ok b (rdAddr ?e)" "fc_idx f (rdAddr ?e) = j" using ents [OF j] rd by (simp_all add: entry_ok_def)
      show "\<not> holds ?ca (m OR rdAddr ?e) l s'"
      proof
        assume h: "holds ?ca (m OR rdAddr ?e) l s'"
        have "m OR rdAddr ?e \<noteq> 0" using rd(2) by (simp add: bit_eq_iff bit_simps) blast
        from holds_mask_index [OF l1 m h this lc] holds_mask_index [OF a(3) m a(5) v(2) lc] a(9)
        have "fc_idx f (rdAddr ?e) = fc_idx f v" by (simp add: fc_idx_def mask)
        then show False using r(2) False by simp
      qed
    qed (use a(8) in simp_all)
    then show ?thesis using False by simp
  qed
  then have inv': "fc_inv n k np m b ?f" using a(3,9) mask len sets by (simp add: fc_inv_def)
  have "unat resp \<le> B + 2 ^ 33 \<and> fc_avail (B + 2 ^ 33) ?f" if B: "fc_avail B f" "unat cy \<le> B" for B
  proof -
    have r: "unat resp \<le> B + 2 ^ 33" using a0(5) B(2) by simp
    have all: "list_all (\<lambda>e. unat (availCycle e) \<le> B + 2 ^ 33) (filterArray f)"
      using fc_avail_mono [OF B(1), of "B + 2 ^ 33"] by (simp add: fc_avail_def)
    moreover have "unat (availCycle e') \<le> B + 2 ^ 33" using r list_all_nth [OF all i] by (simp add: e'_def)
    ultimately show ?thesis using r by (simp add: fc_avail_def list_all_update)
  qed
  then show ?thesis using run a(2,4) inv' by auto
qed

text \<open>A hit changes counters only.\<close>

lemma entry_ok_counters [simp]:
  "entry_ok m b (f\<lparr>fGETSHit := x\<rparr>) = entry_ok m b f" "entry_ok m b (f\<lparr>fGETXHit := x\<rparr>) = entry_ok m b f"
  "entry_ok m b (f\<lparr>fGETSCycles := y\<rparr>) = entry_ok m b f" "entry_ok m b (f\<lparr>fGETXCycles := y\<rparr>) = entry_ok m b f"
  by (simp_all add: entry_ok_def fc_idx_def fun_eq_iff)

lemma fc_inv_counters:
  "fc_inv n k np m b f \<Longrightarrow> fc_inv n k np m b (f\<lparr>fGETSHit := x, fGETSCycles := y\<rparr>)"
  "fc_inv n k np m b f \<Longrightarrow> fc_inv n k np m b (f\<lparr>fGETXHit := x, fGETXCycles := y\<rparr>)"
  "fc_inv n k np m b f \<Longrightarrow> fc_inv n k np m b (f\<lparr>fGETSCycles := y\<rparr>)"
  "fc_inv n k np m b f \<Longrightarrow> fc_inv n k np m b (f\<lparr>fGETXCycles := y\<rparr>)"
  by (simp_all add: fc_inv_def)

lemma fc_index: "fc_inv n k np m b f \<Longrightarrow> fc_idx f v < length (filterArray f)"
  using id_base(2) [of n k "carray (fcache f)" v] by (simp add: fc_inv_def l1_inv_def sa_inv_def fc_idx_def)

lemma fc_load_ok:
  assumes inv: "fc_inv n k np m b f" and m: "mask_ok m b" and v: "m OR drop_bit b v \<noteq> 0"
    and wok: "wok w" and recs: "\<And>w. wok w \<Longrightarrow> no_records rcs w"
    and fl: "\<not> flag_is (reqFlags f) PUTX_KEEPEXCL" and cy: "unat cy < 2 ^ 60"
  shows "\<exists>f' w' resp. fc_load acc rcs m b f w v cy = Some (f', w', resp) \<and> wok w' \<and> fc_inv n k np m b f' \<and> unat cy \<le> unat resp
    \<and> reqFlags f' = reqFlags f
    \<and> (\<forall>B. fc_avail B f \<and> unat cy \<le> B \<longrightarrow> unat resp \<le> B + 2 ^ 33 \<and> fc_avail (B + 2 ^ 33) f')"
proof -
  let ?v = "drop_bit b v"
  have line: "line_ok b ?v" using m by (intro line_ok_shift) (simp add: mask_ok_def)
  note i = fc_index [OF inv, of ?v]
  show ?thesis
  proof (cases "?v = rdAddr (filterArray f ! fc_idx f ?v)")
    case True
    have "unat (max cy (availCycle (filterArray f ! fc_idx f ?v))) \<le> B + 2 ^ 33 \<and> fc_avail (B + 2 ^ 33) f"
      if "fc_avail B f" "unat cy \<le> B" for B
      using that i fc_avail_mono [of B f "B + 2 ^ 33"] by (auto simp: fc_avail_def list_all_length max_def)
    then show ?thesis using i wok inv True
      by (auto simp: fc_load_def Let_def fc_idx_def [symmetric] word_le_nat_alt [symmetric] intro: fc_inv_counters)
  next
    case False
    from fc_replace_ok [OF inv m line v wok recs fl cy, of True] obtain f' w' resp
      where "fc_replace acc rcs m f w ?v (fc_idx f ?v) True cy = Some (f', w', resp)" "wok w'" "fc_inv n k np m b f'"
        "unat cy \<le> unat resp" "reqFlags f' = reqFlags f"
        "\<forall>B. fc_avail B f \<and> unat cy \<le> B \<longrightarrow> unat resp \<le> B + 2 ^ 33 \<and> fc_avail (B + 2 ^ 33) f'" by blast
    then show ?thesis using False i
      by (auto simp: fc_load_def Let_def fc_idx_def [symmetric] intro: fc_inv_counters)
  qed
qed

lemma fc_store_ok:
  assumes inv: "fc_inv n k np m b f" and m: "mask_ok m b" and v: "m OR drop_bit b v \<noteq> 0"
    and wok: "wok w" and recs: "\<And>w. wok w \<Longrightarrow> no_records rcs w"
    and fl: "\<not> flag_is (reqFlags f) PUTX_KEEPEXCL" and cy: "unat cy < 2 ^ 60"
  shows "\<exists>f' w' resp. fc_store acc rcs m b f w v cy = Some (f', w', resp) \<and> wok w' \<and> fc_inv n k np m b f' \<and> unat cy \<le> unat resp
    \<and> reqFlags f' = reqFlags f
    \<and> (\<forall>B. fc_avail B f \<and> unat cy \<le> B \<longrightarrow> unat resp \<le> B + 2 ^ 33 \<and> fc_avail (B + 2 ^ 33) f')"
proof -
  let ?v = "drop_bit b v"
  have line: "line_ok b ?v" using m by (intro line_ok_shift) (simp add: mask_ok_def)
  note i = fc_index [OF inv, of ?v]
  show ?thesis
  proof (cases "?v = wrAddr (filterArray f ! fc_idx f ?v)")
    case True
    have "unat (max cy (availCycle (filterArray f ! fc_idx f ?v))) \<le> B + 2 ^ 33 \<and> fc_avail (B + 2 ^ 33) f"
      if "fc_avail B f" "unat cy \<le> B" for B
      using that i fc_avail_mono [of B f "B + 2 ^ 33"] by (auto simp: fc_avail_def list_all_length max_def)
    then show ?thesis using i wok inv True
      by (auto simp: fc_store_def Let_def fc_idx_def [symmetric] word_le_nat_alt [symmetric] intro: fc_inv_counters)
  next
    case False
    from fc_replace_ok [OF inv m line v wok recs fl cy, of False] obtain f' w' resp
      where "fc_replace acc rcs m f w ?v (fc_idx f ?v) False cy = Some (f', w', resp)" "wok w'" "fc_inv n k np m b f'"
        "unat cy \<le> unat resp" "reqFlags f' = reqFlags f"
        "\<forall>B. fc_avail B f \<and> unat cy \<le> B \<longrightarrow> unat resp \<le> B + 2 ^ 33 \<and> fc_avail (B + 2 ^ 33) f'" by blast
    then show ?thesis using False i
      by (auto simp: fc_store_def Let_def fc_idx_def [symmetric] intro: fc_inv_counters)
  qed
qed

lemma fc_invalidate_ok:
  assumes inv: "fc_inv n k np m b f" and m: "mask_ok m b" and held: "holds (fcache f) (ilineAddr req) l s"
    and addr: "ilineAddr req \<noteq> 0" and s: "s \<noteq> I" and t: "itype req = INVX \<longrightarrow> s = E \<or> s = M" "itype req = FWD \<longrightarrow> s = S"
    and same: "m' = m \<or> m OR rdAddr (filterArray f ! fc_idx f (ilineAddr req)) \<noteq> ilineAddr req"
  shows "\<exists>f' wb resp. fc_invalidate acc m' f w req = Some (f', w, wb, resp) \<and> fc_inv n k np m b f' \<and> reqFlags f' = reqFlags f"
proof -
  let ?i = "fc_idx f (ilineAddr req)" and ?ca = "fcache f"
  have l1: "l1_inv n k np ?ca" and mask: "fsetMask f = ucast (ssetMask (carray ?ca))"
    and len: "length (filterArray f) = unat (snumSets (carray ?ca))"
    and ents: "\<And>i. i < length (filterArray f) \<Longrightarrow> entry_ok m b f i (filterArray f ! i)"
    using inv by (simp_all add: fc_inv_def)
  obtain ca' wb resp s' where r: "cache_finishInvalidate (MESITerminalCC_ops acc) (SetAssocArray_ops (lru_table False) id_hash) ?ca w req = Some (ca', w, wb, resp)"
      "l1_inv n k np ca'" "sarray (carray ca') = sarray (carray ?ca)" "barray (ccc ca') = (barray (ccc ?ca))[l := s']"
      "ssetMask (carray ca') = ssetMask (carray ?ca)"
    using l1_invalidate_ok [OF l1 held addr s t] by blast
  have i: "?i < length (filterArray f)" by (rule fc_index [OF inv])
  let ?e = "filterArray f ! ?i"
  define fa where "fa = (if rdAddr ?e OR m' = ilineAddr req then (filterArray f)[?i := ?e\<lparr>wrAddr := -1, rdAddr := -1\<rparr>] else filterArray f)"
  let ?f = "f\<lparr>fcache := ca', filterArray := fa\<rparr>"
  have run: "fc_invalidate acc m' f w req = Some (?f, w, wb, resp)"
    using i r(1) by (simp add: fc_invalidate_def fc_idx_def [symmetric] fa_def Let_def)
  have sets: "snumSets (carray ca') = snumSets (carray ?ca)"
  proof -
    have "ssetMask (carray ca') = snumSets (carray ca') - 1" "ssetMask (carray ?ca) = snumSets (carray ?ca) - 1"
      using r(2) l1 by (simp_all add: l1_inv_def sa_inv_def sa_wf_def)
    then show ?thesis using r(5) by (metis add_diff_cancel_right' diff_add_cancel)
  qed
  have small: "unat (fsetMask f) < 2 ^ 32" by (simp add: mask)
  have l1': "l1_inv n k np (fcache ?f)" using r(2) by simp
  have "entry_ok m b ?f j (fa ! j)" if j: "j < length (filterArray f)" for j
  proof (cases "j = ?i \<and> rdAddr ?e OR m' = ilineAddr req")
    case True
    then have "fa ! j = ?e\<lparr>wrAddr := -1, rdAddr := -1\<rparr>" using i by (simp add: fa_def)
    then show ?thesis by (simp add: entry_ok_def)
  next
    case False
    let ?ej = "filterArray f ! j"
    have keep: "fa ! j = ?ej" using False by (auto simp: fa_def)
    have "entry_ok m b ?f j ?ej"
    proof (rule entry_ok_keep [OF ents [OF j] l1 l1', where l = l])
      fix s' assume rd: "rdAddr ?ej \<noteq> -1" "rdAddr ?ej \<noteq> 0"
      show "\<not> holds ?ca (m OR rdAddr ?ej) l s'"
      proof
        assume "holds ?ca (m OR rdAddr ?ej) l s'"
        then have eq: "ilineAddr req = m OR rdAddr ?ej" using held by (simp add: holds_def)
        have "fc_idx f (rdAddr ?ej) = j" using ents [OF j] rd by (simp add: entry_ok_def)
        then have "?i = j" unfolding fc_idx_def eq mask_and_small [OF m small] .
        then show False using False eq same by (auto simp: or.commute)
      qed
    qed (use r(3,4) in simp_all)
    then show ?thesis using keep by simp
  qed
  moreover have "length fa = length (filterArray f)" by (simp add: fa_def)
  ultimately have "fc_inv n k np m b ?f" using r(2,5) mask len sets by (simp add: fc_inv_def)
  then show ?thesis using run by auto
qed

lemma fc_contextSwitch_ok: "fc_inv n k np m b f \<Longrightarrow> fc_inv n k np m' b (fc_contextSwitch f)"
  by (auto simp: fc_inv_def fc_contextSwitch_def entry_ok_def FilterEntry_clear_def)

end

lemma fc_replace_entry:
  assumes "fc_replace acc rcs m f w v i ld cy = Some (f', w', r)"
  shows "i < length (filterArray f) \<longrightarrow> rdAddr (filterArray f' ! i) = v" "wrAddr (filterArray f' ! i) = (if ld then -1 else v)" "length (filterArray f') = length (filterArray f)"
  using assms by (auto simp: fc_replace_def Let_def elim!: bind_Some_elim)

section \<open>Runs of a filter cache over memory\<close>

text \<open>
  An operation on the filter cache of a core whose parents are fixed-latency memories: a load or store
  of the core, an invalidation from above, which a thread of the process with the given mask carries out, or a context switch to the
  process with the given mask.  The first part of a state is the mask of the process that runs on the core.
\<close>

datatype fc_op = Load Address u64 | Store Address u64 | Invalidate Address InvReq | ContextSwitch Address

type_synonym fc_state = "FilterCache \<times> unit \<times> SimpleMemory list"

definition no_recorders :: "'w recorders" where
  "no_recorders = \<lparr>getRec = \<lambda>_ _. None, setRec = \<lambda>w _ _. w, getEvs = \<lambda>_. [], setEvs = \<lambda>w _. w\<rparr>"

definition fc_apply :: "nat \<Rightarrow> Address \<times> fc_state \<Rightarrow> fc_op \<Rightarrow> (Address \<times> fc_state) option" where
  "fc_apply b s op = (case s of (m, f, w) \<Rightarrow>
     (case op of
        Load v cy \<Rightarrow> do { (f', w', _) \<leftarrow> fc_load mem_parents no_recorders m b f w v cy; Some (m, f', w') }
      | Store v cy \<Rightarrow> do { (f', w', _) \<leftarrow> fc_store mem_parents no_recorders m b f w v cy; Some (m, f', w') }
      | Invalidate m' req \<Rightarrow> do { (f', w', _, _) \<leftarrow> fc_invalidate mem_parents m' f w req; Some (m, f', w') }
      | ContextSwitch m' \<Rightarrow> Some (m', fc_contextSwitch f, w)))"

text \<open>
  What callers guarantee: line address 0 is never accessed, cycles do not wrap, a parent only
  invalidates a line the cache holds, in a state the type of the invalidation is meant for.
\<close>

definition inv_legal :: "InvReq \<Rightarrow> MESIState \<Rightarrow> bool" where
  "inv_legal req s = (s \<noteq> I \<and> (itype req = INVX \<longrightarrow> s = E \<or> s = M) \<and> (itype req = FWD \<longrightarrow> s = S))"

definition fc_legal :: "nat \<Rightarrow> Address \<times> fc_state \<Rightarrow> fc_op \<Rightarrow> bool" where
  "fc_legal b s op = (case s of (m, f, w) \<Rightarrow>
     (case op of
        Load v cy \<Rightarrow> m OR drop_bit b v \<noteq> 0 \<and> unat cy < 2 ^ 60
      | Store v cy \<Rightarrow> m OR drop_bit b v \<noteq> 0 \<and> unat cy < 2 ^ 60
      | Invalidate m' req \<Rightarrow> ilineAddr req \<noteq> 0
          \<and> (\<exists>l < length (barray (ccc (fcache f))). holds (fcache f) (ilineAddr req) l (barray (ccc (fcache f)) ! l)
               \<and> inv_legal req (barray (ccc (fcache f)) ! l))
      | ContextSwitch m' \<Rightarrow> mask_ok m' b))"

text \<open>
  The filter compares the address of an invalidation under the mask of the process that carries it out.  An operation is
  \<open>tame\<close> unless it is an invalidation by a foreign process of the very line that the filter entry of its index stands for.
\<close>

definition fc_tame :: "Address \<times> fc_state \<Rightarrow> fc_op \<Rightarrow> bool" where
  "fc_tame s op = (case s of (m, f, w) \<Rightarrow>
     (case op of
        Invalidate m' req \<Rightarrow> m' = m \<or> m OR rdAddr (filterArray f ! fc_idx f (ilineAddr req)) \<noteq> ilineAddr req
      | _ \<Rightarrow> True))"

inductive fc_reach :: "nat \<Rightarrow> Address \<times> fc_state \<Rightarrow> Address \<times> fc_state \<Rightarrow> bool" for b s0 where
  start: "fc_reach b s0 s0"
| step: "fc_reach b s0 s \<Longrightarrow> fc_legal b s op \<Longrightarrow> fc_tame s op \<Longrightarrow> fc_apply b s op = Some s' \<Longrightarrow> fc_reach b s0 s'"

inductive_cases fc_reachE: "fc_reach b s0 s"

definition mem_ok :: "nat \<Rightarrow> 'c \<times> SimpleMemory list \<Rightarrow> bool" where
  "mem_ok np w = (length (snd w) = np \<and> list_all (\<lambda>m. 0 < slatency m) (snd w))"

interpretation l1_mem: bcc_port mem_parents "mem_ok np" np "\<lambda>_. ()" for np
proof unfold_locales
  fix w :: "'c \<times> SimpleMemory list" and pid and req :: MemReq and s
  obtain x ms where w: "w = (x, ms)" by (cases w)
  assume a: "mem_ok np w" "pid < np" "unat (rcycle req) < 2 ^ 62" "\<not> req_is req PUTX_KEEPEXCL"
  then have m: "pid < length ms" "0 < slatency (ms ! pid)" by (auto simp: mem_ok_def w list_all_length)
  have "unat (rcycle req) + 2 ^ 32 \<le> 2 ^ 64" using a(3) by simp
  from SimpleMemory_access_ok [OF m(2) this a(4)] obtain st cy where
    "SimpleMemory_access (ms ! pid) req = Some (st, cy)" "answer_ok req st"
    "unat cy = unat (rcycle req) + unat (slatency (ms ! pid))" by blast
  then show "\<exists>w' st cy. mem_parents s w pid req = Some (s, w', st, cy) \<and> mem_ok np w' \<and> () = ()
      \<and> answer_ok req st \<and> unat (rcycle req) \<le> unat cy"
    using m(1) a(1) by (simp add: mem_parents_def w)
qed

lemma no_recorders [simp]: "no_records no_recorders w"
  by (simp add: no_records_def no_recorders_def)

definition fc_ok :: "nat \<Rightarrow> nat \<Rightarrow> nat \<Rightarrow> Address \<Rightarrow> nat \<Rightarrow> fc_state \<Rightarrow> bool" where
  "fc_ok n k np m b s = (fc_inv n k np m b (fst s) \<and> mem_ok np (snd s) \<and> \<not> flag_is (reqFlags (fst s)) PUTX_KEEPEXCL)"

text \<open>A legal operation never fails, and keeps the invariant if it is tame.\<close>

lemma fc_apply_ok:
  assumes ok: "fc_ok n k np m b s" and m: "mask_ok m b" and legal: "fc_legal b (m, s) op" and tame: "fc_tame (m, s) op"
  shows "\<exists>m' s'. fc_apply b (m, s) op = Some (m', s') \<and> fc_ok n k np m' b s' \<and> mask_ok m' b"
proof -
  obtain f w where s: "s = (f, w)" by (cases s)
  have inv: "fc_inv n k np m b f" and wok: "mem_ok np w" and fl: "\<not> flag_is (reqFlags f) PUTX_KEEPEXCL"
    using ok by (simp_all add: fc_ok_def s)
  show ?thesis
  proof (cases op)
    case (Load v cy)
    then have "m OR drop_bit b v \<noteq> 0" "unat cy < 2 ^ 60" using legal by (simp_all add: fc_legal_def s)
    with l1_mem.fc_load_ok [OF inv m _ wok no_recorders fl] obtain f' w' r
      where "fc_load mem_parents no_recorders m b f w v cy = Some (f', w', r)" "mem_ok np w'" "fc_inv n k np m b f'" "reqFlags f' = reqFlags f" by blast
    then show ?thesis using fl m Load by (simp add: fc_apply_def s fc_ok_def)
  next
    case (Store v cy)
    then have "m OR drop_bit b v \<noteq> 0" "unat cy < 2 ^ 60" using legal by (simp_all add: fc_legal_def s)
    with l1_mem.fc_store_ok [OF inv m _ wok no_recorders fl] obtain f' w' r
      where "fc_store mem_parents no_recorders m b f w v cy = Some (f', w', r)" "mem_ok np w'" "fc_inv n k np m b f'" "reqFlags f' = reqFlags f" by blast
    then show ?thesis using fl m Store by (simp add: fc_apply_def s fc_ok_def)
  next
    case (Invalidate m' req)
    then obtain l where l: "holds (fcache f) (ilineAddr req) l (barray (ccc (fcache f)) ! l)" "inv_legal req (barray (ccc (fcache f)) ! l)"
        and addr: "ilineAddr req \<noteq> 0" using legal by (auto simp: fc_legal_def s)
    have "m' = m \<or> m OR rdAddr (filterArray f ! fc_idx f (ilineAddr req)) \<noteq> ilineAddr req" using tame Invalidate by (simp add: fc_tame_def s)
    then obtain f' wb r where "fc_invalidate mem_parents m' f w req = Some (f', w, wb, r)" "fc_inv n k np m b f'" "reqFlags f' = reqFlags f"
      using l1_mem.fc_invalidate_ok [OF inv m l(1) addr] l(2) unfolding inv_legal_def by blast
    then show ?thesis using fl wok m Invalidate by (simp add: fc_apply_def s fc_ok_def)
  next
    case (ContextSwitch m')
    then have "mask_ok m' b" using legal by (simp add: fc_legal_def s)
    then show ?thesis using l1_mem.fc_contextSwitch_ok [OF inv, of m'] fl wok ContextSwitch
      by (simp add: fc_apply_def s fc_ok_def fc_contextSwitch_def)
  qed
qed

lemma fc_reach_ok:
  "fc_reach b s0 s \<Longrightarrow> fc_ok n k np (fst s0) b (snd s0) \<Longrightarrow> mask_ok (fst s0) b \<Longrightarrow> fc_ok n k np (fst s) b (snd s) \<and> mask_ok (fst s) b"
proof (induction rule: fc_reach.induct)
  case start
  then show ?case by simp
next
  case (step s op s')
  then show ?case using fc_apply_ok [of n k np "fst s" b "snd s" op] by (cases s) auto
qed

text \<open>A new filter cache over a new array and a new terminal controller.\<close>

definition L1_new :: "u32 \<Rightarrow> u32 \<Rightarrow> nat \<Rightarrow> u32 \<Rightarrow> u32 \<Rightarrow> FilterCache option" where
  "L1_new numLines ways np al il = do {
     a \<leftarrow> SetAssocArray_new (LRUReplPolicy_new numLines) numLines ways;
     Some (FilterCache_new (snumSets a) (Cache_new numLines (MESITerminalCC_new numLines 0 np None) a al il))
   }"

lemma L1_new_ok:
  assumes "L1_new numLines ways np al il = Some f" "0 < np" "mask_ok m b" "length ms = np" "list_all (\<lambda>x. 0 < slatency x) ms"
  shows "fc_ok (unat numLines) (unat ways) np m b (f, (), ms)"
proof -
  obtain a where a: "SetAssocArray_new (LRUReplPolicy_new numLines) numLines ways = Some a"
      "f = FilterCache_new (snumSets a) (Cache_new numLines (MESITerminalCC_new numLines 0 np None) a al il)"
    using assms(1) by (auto simp: L1_new_def elim!: bind_Some_elim)
  have sa: "sa_inv (unat numLines) (unat ways) id_hash (lru_ok (unat numLines)) a"
    using SetAssocArray_new_inv [OF a(1) hash_total_id] by (simp add: lru_ok_def LRUReplPolicy_new_def)
  then have "ssetMask a = snumSets a - 1" by (simp add: sa_inv_def sa_wf_def)
  moreover have "l1_inv (unat numLines) (unat ways) np (fcache f)"
    using sa assms(2) by (simp add: a(2) FilterCache_new_def Cache_new_def l1_inv_def MESITerminalCC_new_def MESIBottomCC_init_def MESIBottomCC_new_def)
  moreover have "flag_is 0 PUTX_KEEPEXCL = False" by (simp add: flag_is_def)
  ultimately show ?thesis using assms(4,5)
    by (simp add: fc_ok_def fc_inv_def a(2) FilterCache_new_def Cache_new_def mem_ok_def entry_ok_def FilterEntry_clear_def)
qed

section \<open>Properties\<close>

text \<open>
  Claim C20.  The filter never lies while the lines of a process are invalidated by its own threads.  Take a filter cache as the simulator builds
  it (a set-associative LRU array without hashing, a terminal controller, fixed-latency
  memories as parents) and let the core load and store, parents invalidate and contexts switch between processes, in any order, where no
  invalidation is carried out by a thread of a foreign process on the line that a filter entry stands for.
  In every state that is reached, a filter entry for a non-zero line that would be a load hit
  stands for a line that the cache holds in a valid state, and one that would be a store hit for a
  line that the cache holds modified; and the next such operation trips no assertion.
\<close>

theorem filter_hits_sound:
  assumes "L1_new numLines ways np al il = Some f0" "0 < np" "mask_ok m0 b" "length ms = np" "list_all (\<lambda>x. 0 < slatency x) ms"
    and "fc_reach b (m0, f0, (), ms) (m, f, w)"
  shows "(\<forall>i < length (filterArray f). let e = filterArray f ! i in
        (rdAddr e \<noteq> -1 \<and> rdAddr e \<noteq> 0 \<longrightarrow> (\<exists>l s. holds (fcache f) (m OR rdAddr e) l s \<and> s \<noteq> I))
      \<and> (wrAddr e \<noteq> -1 \<and> wrAddr e \<noteq> 0 \<longrightarrow> (\<exists>l. holds (fcache f) (m OR wrAddr e) l M)))
    \<and> (fc_legal b (m, f, w) op \<and> fc_tame (m, f, w) op \<longrightarrow> fc_apply b (m, f, w) op \<noteq> None)"
proof -
  have ok: "fc_ok (unat numLines) (unat ways) np m b (f, w)" and mk: "mask_ok m b"
    using fc_reach_ok [OF assms(6)] L1_new_ok [OF assms(1-5)] assms(3) by simp_all
  then have "\<forall>i < length (filterArray f). let e = filterArray f ! i in
      (rdAddr e \<noteq> -1 \<and> rdAddr e \<noteq> 0 \<longrightarrow> (\<exists>l s. holds (fcache f) (m OR rdAddr e) l s \<and> s \<noteq> I))
    \<and> (wrAddr e \<noteq> -1 \<and> wrAddr e \<noteq> 0 \<longrightarrow> (\<exists>l. holds (fcache f) (m OR wrAddr e) l M))"
    unfolding fc_ok_def fc_inv_def entry_ok_def Let_def by simp
  moreover have "fc_legal b (m, f, w) op \<and> fc_tame (m, f, w) op \<longrightarrow> fc_apply b (m, f, w) op \<noteq> None"
    using fc_apply_ok [OF ok mk] by blast
  ultimately show ?thesis by blast
qed

lemma store_run:
  "\<exists>f0 f w. L1_new 4 2 1 3 3 = Some f0 \<and> fc_ok 4 2 1 0 6 (f0, (), [\<lparr>slatency = 100\<rparr>])
     \<and> fc_apply 6 (0, f0, (), [\<lparr>slatency = 100\<rparr>]) (Store 320 10) = Some (0, f, w)
     \<and> fc_reach 6 (0, f0, (), [\<lparr>slatency = 100\<rparr>]) (0, f, w)
     \<and> length (filterArray f) = 2 \<and> rdAddr (filterArray f ! 1) = 5 \<and> wrAddr (filterArray f ! 1) = 5"
proof -
  let ?ms = "[\<lparr>slatency = 100\<rparr>]"
  have "map_option (\<lambda>f. (map wrAddr (filterArray f), fc_idx f 5)) (L1_new 4 2 1 3 3) = Some ([0, 0], 1)" by code_simp
  then obtain f0 where f0: "L1_new 4 2 1 3 3 = Some f0" "map wrAddr (filterArray f0) = [0, 0]" "fc_idx f0 5 = 1" by auto
  have m: "mask_ok 0 6" by (simp add: mask_ok_def)
  from L1_new_ok [OF f0(1) _ m, of ?ms] have ok: "fc_ok 4 2 1 0 6 (f0, (), ?ms)" by simp
  have lg: "fc_legal 6 (0, f0, (), ?ms) (Store 320 10)" "fc_tame (0, f0, (), ?ms) (Store 320 10)" by (simp_all add: fc_legal_def fc_tame_def)
  from fc_apply_ok [OF ok m lg]
  obtain f w where f: "fc_apply 6 (0, f0, (), ?ms) (Store 320 10) = Some (0, f, w)" by (auto simp: fc_apply_def elim!: bind_Some_elim)
  have len0: "length (filterArray f0) = 2" using f0(2) by (metis length_map length_Cons list.size(3) One_nat_def Suc_1)
  have "wrAddr (filterArray f0 ! 1) = 0" using f0(2) len0 by (metis nth_map nth_Cons_Suc nth_Cons_0 One_nat_def lessI Suc_1)
  then obtain f1 r where r: "fc_replace mem_parents no_recorders 0 f0 ((), ?ms) 5 1 False 10 = Some (f1, w, r)" "filterArray f = filterArray f1"
    using f f0(3) len0 by (auto simp: fc_apply_def fc_store_def Let_def fc_idx_def elim!: bind_Some_elim)
  have "wrAddr (filterArray f ! 1) = 5" "rdAddr (filterArray f ! 1) = 5" "length (filterArray f) = 2"
    using fc_replace_entry [OF r(1)] r(2) len0 by simp_all
  moreover have "fc_reach 6 (0, f0, (), ?ms) (0, f, w)" by (rule fc_reach.step [OF fc_reach.start lg f])
  ultimately show ?thesis using f0(1) ok f by blast
qed

theorem filter_hits_sound_witness:
  "\<exists>f0 f w l. L1_new 4 2 1 3 3 = Some f0 \<and> fc_apply 6 (0, f0, (), [\<lparr>slatency = 100\<rparr>]) (Store 320 10) = Some (0, f, w)
     \<and> wrAddr (filterArray f ! 1) = 5 \<and> holds (fcache f) 5 l M"
proof -
  from store_run obtain f0 f w where f: "L1_new 4 2 1 3 3 = Some f0" "fc_apply 6 (0, f0, (), [\<lparr>slatency = 100\<rparr>]) (Store 320 10) = Some (0, f, w)"
    "fc_reach 6 (0, f0, (), [\<lparr>slatency = 100\<rparr>]) (0, f, w)" "length (filterArray f) = 2" "wrAddr (filterArray f ! 1) = 5" by blast
  have m: "mask_ok 0 6" by (simp add: mask_ok_def)
  have "\<exists>l. holds (fcache f) (0 OR wrAddr (filterArray f ! 1)) l M"
    using filter_hits_sound [OF f(1) _ m _ _ f(3), of "ContextSwitch 0", THEN conjunct1, rule_format, of 1] f(4,5) by (simp add: Let_def)
  then have "\<exists>l. holds (fcache f) 5 l M" unfolding f(5) by simp
  then show ?thesis using f(1,2,5) by blast
qed

text \<open>
  What tameness excludes: a thread of another process invalidates the line of a filter entry.  The entry stays, under a mask that does
  not match, and the next load of the line hits in the filter although the cache no longer holds it.
\<close>

lemma masks_differ:
  assumes "mask_ok m b" "mask_ok m' b" "line_ok b v" "m OR v = m' OR v"
  shows "m = m'"
proof (rule bit_word_eqI)
  fix n assume "n < LENGTH(64)"
  have lo: "\<not> bit x n" if "mask_ok x b" "n < 64 - b" for x
  proof -
    have "\<not> bit (take_bit (64 - b) x) n" using that(1) by (simp add: mask_ok_def)
    then show ?thesis using that(2) by (simp add: bit_take_bit_iff)
  qed
  have hi: "\<not> bit v n" if "\<not> n < 64 - b"
  proof -
    have "bit v n = bit (take_bit (64 - b) v) n" using assms(3) by (simp add: line_ok_def)
    then show ?thesis using that by (simp add: bit_take_bit_iff)
  qed
  have "bit (m OR v) n = bit (m' OR v) n" using assms(4) by simp
  then show "bit m n = bit m' n" using lo [OF assms(1)] lo [OF assms(2)] hi by (cases "n < 64 - b") (simp_all add: bit_or_iff)
qed

theorem foreign_invalidation_leaves_hit:
  assumes ok: "fc_ok n k np m b (f, w)" and m: "mask_ok m b" "mask_ok m' b" "m' \<noteq> m"
    and i: "i < length (filterArray f)" and v: "v = rdAddr (filterArray f ! i)" "v \<noteq> -1" "v \<noteq> 0"
    and req: "ilineAddr req = m OR v" "itype req = INV" and va: "drop_bit b vAddr = v"
  shows "\<exists>f' wb resp f''. fc_invalidate mem_parents m' f w req = Some (f', w, wb, resp)
    \<and> (\<forall>l s. holds (fcache f') (m OR v) l s \<longrightarrow> s = I)
    \<and> fc_load mem_parents no_recorders m b f' w vAddr cy = Some (f'', w, max cy (availCycle (filterArray f ! i)))
    \<and> fGETSHit f'' = fGETSHit f + 1"
proof -
  have inv: "fc_inv n k np m b f" using ok by (simp add: fc_ok_def)
  then have l1: "l1_inv n k np (fcache f)" and mask: "fsetMask f = ucast (ssetMask (carray (fcache f)))"
    and ent: "entry_ok m b f i (filterArray f ! i)" using i by (simp_all add: fc_inv_def)
  from ent v obtain l s where held: "holds (fcache f) (m OR v) l s" "s \<noteq> I" and line: "line_ok b v" and idx: "fc_idx f v = i"
    by (auto simp: entry_ok_def)
  have nz: "m OR v \<noteq> 0" using v(3) by (simp add: or_eq_0_iff)
  obtain ca' wb resp where r: "cache_finishInvalidate (MESITerminalCC_ops mem_parents) (SetAssocArray_ops (lru_table False) id_hash) (fcache f) w req
        = Some (ca', w, wb, resp)" "l1_inv n k np ca'" "sarray (carray ca') = sarray (carray (fcache f))"
      "barray (ccc ca') = (barray (ccc (fcache f)))[l := I]"
    using l1_mem.l1_invalidate_ok [OF l1, of req l s w] held nz req by auto
  have small: "unat (fsetMask f) < 2 ^ 32" by (simp add: mask)
  have ix: "fc_idx f (ilineAddr req) = i" using idx mask_and_small [OF m(1) small, of v] by (simp add: fc_idx_def req(1))
  have ne: "v OR m' \<noteq> ilineAddr req" using masks_differ [OF m(1,2) line] m(3) by (auto simp: req(1) or.commute)
  let ?f = "f\<lparr>fcache := ca', filterArray := filterArray f\<rparr>"
  have run: "fc_invalidate mem_parents m' f w req = Some (?f, w, wb, resp)"
    using i r(1) ne ix by (simp add: fc_invalidate_def fc_idx_def [symmetric] Let_def v(1) [symmetric])
  have "s' = I" if h: "holds (fcache ?f) (m OR v) l' s'" for l' s'
  proof -
    have len: "length (sarray (carray (fcache f))) = n" "length (barray (ccc (fcache f))) = n"
      and u: "addrs_unique (sarray (carray (fcache f)))" using l1 by (simp_all add: l1_inv_def sa_inv_def sa_wf_def)
    have "l' = l" using u h held nz len r(3,4) by (auto simp: addrs_unique_def holds_def)
    then show ?thesis using h held r(4) by (auto simp: holds_def)
  qed
  moreover have "\<exists>f''. fc_load mem_parents no_recorders m b ?f w vAddr cy = Some (f'', w, max cy (availCycle (filterArray f ! i)))
      \<and> fGETSHit f'' = fGETSHit f + 1"
    using i idx va v(1) by (simp add: fc_load_def Let_def fc_idx_def)
  ultimately show ?thesis using run by blast
qed

theorem foreign_invalidation_leaves_hit_witness:
  "\<exists>f0 f w f' wb resp f''. L1_new 4 2 1 3 3 = Some f0 \<and> fc_apply 6 (0, f0, (), [\<lparr>slatency = 100\<rparr>]) (Store 320 10) = Some (0, f, w)
     \<and> fc_invalidate mem_parents (2 ^ 58) f w \<lparr>ilineAddr = 5, itype = INV, writeback = False, icycle = 20, isrcId = 0\<rparr> = Some (f', w, wb, resp)
     \<and> (\<forall>l s. holds (fcache f') 5 l s \<longrightarrow> s = I)
     \<and> (\<exists>resp'. fc_load mem_parents no_recorders 0 6 f' w 320 30 = Some (f'', w, resp')) \<and> fGETSHit f'' = fGETSHit f + 1"
proof -
  let ?req = "\<lparr>ilineAddr = 5, itype = INV, writeback = False, icycle = 20, isrcId = 0\<rparr> :: InvReq"
  from store_run obtain f0 f w where f: "L1_new 4 2 1 3 3 = Some f0" "fc_ok 4 2 1 0 6 (f0, (), [\<lparr>slatency = 100\<rparr>])"
    "fc_apply 6 (0, f0, (), [\<lparr>slatency = 100\<rparr>]) (Store 320 10) = Some (0, f, w)"
    "fc_reach 6 (0, f0, (), [\<lparr>slatency = 100\<rparr>]) (0, f, w)" "length (filterArray f) = 2" "rdAddr (filterArray f ! 1) = 5" by blast
  have m: "mask_ok 0 6" "mask_ok (2 ^ 58) 6" "(2 ^ 58 :: u64) \<noteq> 0" by (simp_all add: mask_ok_def)
  have ok: "fc_ok 4 2 1 0 6 (f, w)" using fc_reach_ok [OF f(4)] f(2) m(1) by simp
  have i: "1 < length (filterArray f)" and v: "5 = rdAddr (filterArray f ! 1)" using f(5,6) by simp_all
  have r: "ilineAddr ?req = 0 OR 5" "itype ?req = INV" and a: "drop_bit 6 320 = (5 :: u64)" and n: "(5 :: u64) \<noteq> -1" "(5 :: u64) \<noteq> 0" by simp_all
  from foreign_invalidation_leaves_hit [OF ok m i v n r a, of 30] obtain f' wb resp f'' where
    "fc_invalidate mem_parents (2 ^ 58) f w ?req = Some (f', w, wb, resp)" "\<forall>l s. holds (fcache f') (0 OR 5) l s \<longrightarrow> s = I"
    "fc_load mem_parents no_recorders 0 6 f' w 320 30 = Some (f'', w, max 30 (availCycle (filterArray f ! 1)))" "fGETSHit f'' = fGETSHit f + 1"
    by blast
  then show ?thesis using f(1,3) unfolding or.left_neutral by blast
qed

text \<open>
  Claim C21.  Line address 0 is excluded for a reason: entries are cleared to 0, so in a new filter
  cache a load from line 0 counts as a hit and takes no time, although the cache holds no line at all.
\<close>

theorem filter_zero_false_hit:
  assumes "L1_new numLines ways np al il = Some f" "drop_bit b v = 0"
  shows "\<exists>f'. fc_load acc rcs m b f w v cy = Some (f', w, cy) \<and> fGETSHit f' = 1 \<and> (\<forall>i. barray (ccc (fcache f')) ! i = I \<or> unat numLines \<le> i)"
proof -
  obtain a where a: "SetAssocArray_new (LRUReplPolicy_new numLines) numLines ways = Some a"
      "f = FilterCache_new (snumSets a) (Cache_new numLines (MESITerminalCC_new numLines 0 np None) a al il)"
    using assms(1) by (auto simp: L1_new_def elim!: bind_Some_elim)
  have "isPow2 (snumSets a)" using a(1) by (auto simp: SetAssocArray_new_def Let_def split: if_splits)
  then have "0 < unat (snumSets a)" by (simp add: isPow2_def unat_gt_0)
  then have e: "aget (filterArray f) 0 = Some FilterEntry_clear" by (simp add: a(2) FilterCache_new_def)
  have "max cy 0 = cy" by (simp add: max_def)
  then show ?thesis using e assms(2)
    by (simp add: fc_load_def Let_def FilterEntry_clear_def a(2) FilterCache_new_def Cache_new_def MESITerminalCC_new_def
        MESIBottomCC_init_def MESIBottomCC_new_def) (metis nth_replicate not_le)
qed

theorem filter_zero_false_hit_witness:
  "\<exists>f f'. L1_new 4 2 1 3 3 = Some f \<and> fc_load mem_parents no_recorders 0 6 f ((), [\<lparr>slatency = 100\<rparr>]) 8 10 = Some (f', ((), [\<lparr>slatency = 100\<rparr>]), 10)
     \<and> fGETSHit f' = 1"
proof -
  have "L1_new 4 2 1 3 3 \<noteq> None" by code_simp
  then obtain f where f: "L1_new 4 2 1 3 3 = Some f" by blast
  from filter_zero_false_hit [OF f, of 6 8 mem_parents no_recorders 0 "((), [\<lparr>slatency = 100\<rparr>])" 10] show ?thesis using f by auto
qed

text \<open>
  Claim C22.  An access of a terminal cache over memory takes at least the access latency and puts the
  line in place: after a load or a store of a non-zero line the cache holds it, in a valid
  state, and modified after a store; at most one other line, the victim's, is affected.
\<close>

theorem l1_access_places_line:
  assumes "l1_inv n k np ca" "mem_ok np w" "lineAddr req \<noteq> 0" "rtype req = GETS \<or> rtype req = GETX" "rstate req = I" "initialState req = I"
    "\<not> flag_is (flags req) PUTX_KEEPEXCL" "unat (rcycle req) < 2 ^ 60"
  shows "\<exists>ca' w' resp l s. l1_access mem_parents no_recorders ca w req = Some (ca', w', I, resp) \<and> l1_inv n k np ca'
    \<and> unat (rcycle req) + unat (accLat ca) \<le> unat resp \<and> holds ca' (lineAddr req) l s \<and> s \<noteq> I \<and> (rtype req = GETX \<longrightarrow> s = M)
    \<and> (\<forall>i < n. i \<noteq> l \<longrightarrow> sarray (carray ca') ! i = sarray (carray ca) ! i \<and> barray (ccc ca') ! i = barray (ccc ca) ! i)"
  using l1_mem.l1_access_ok [OF assms(1,2) no_recorders assms(3-8)] by blast

theorem l1_access_places_line_witness:
  "\<exists>f ca' w' resp l. L1_new 4 2 1 3 3 = Some f
     \<and> l1_access mem_parents no_recorders (fcache f) ((), [\<lparr>slatency = 100\<rparr>])
          \<lparr>lineAddr = 9, rtype = GETX, childId = 0, rstate = I, rcycle = 7, initialState = I, srcId = 0, flags = 0\<rparr> = Some (ca', w', I, resp)
     \<and> 10 \<le> unat resp \<and> holds ca' 9 l M"
proof -
  let ?req = "\<lparr>lineAddr = 9, rtype = GETX, childId = 0, rstate = I, rcycle = 7, initialState = I, srcId = 0, flags = 0\<rparr> :: MemReq"
  have "map_option (\<lambda>f. accLat (fcache f)) (L1_new 4 2 1 3 3) = Some 3" by code_simp
  then obtain f where f: "L1_new 4 2 1 3 3 = Some f" "accLat (fcache f) = 3" by auto
  have "mask_ok 0 6" by (simp add: mask_ok_def)
  from L1_new_ok [OF f(1) _ this, of "[\<lparr>slatency = 100\<rparr>]"]
  have inv: "l1_inv 4 2 1 (fcache f)" "mem_ok 1 ((), [\<lparr>slatency = 100\<rparr>])" by (simp_all add: fc_ok_def fc_inv_def)
  have "\<not> flag_is 0 PUTX_KEEPEXCL" by (simp add: flag_is_def)
  with l1_access_places_line [OF inv, of ?req] f show ?thesis by auto
qed

end
