(* ===== verification/Tracer.thy ===== *)
theory Tracer
  imports Caches Legos
begin

text \<open>
  What the three core models of the tracer (\<open>src/src/MeMo\<close>) share: the decoded blocks of
  \<open>src/src/decoder.h\<close> and \<open>src/src/core.h\<close>, the instruction counters that cut the trace into slices
  (\<open>src/src/zsim.cpp\<close>), the ports through which a model reaches its filter cache and its recorder,
  the loops of the fetch stage and of the phase barrier, and the state all models have.
\<close>

section \<open>Decoded basic blocks\<close>

type_synonym u16 = "16 word"

lemma unat_u16_lt: "unat (x :: u16) < 65536"
  using unsigned_less [of x, where 'a = nat] by simp

lemma unat_ucast_u16_u64 [simp]: "unat (ucast (x :: u16) :: u64) = unat x"
  by (simp add: unsigned_ucast_eq take_bit_nat_eq_self_iff less_trans [OF unat_u16_lt])

lemma unat_ucast_u16_u32 [simp]: "unat (ucast (x :: u16) :: u32) = unat x"
  by (simp add: unsigned_ucast_eq take_bit_nat_eq_self_iff less_trans [OF unat_u16_lt])

datatype UopType = UOP_GENERAL | UOP_LOAD | UOP_STORE | UOP_STORE_ADDR | UOP_FENCE

record DynUop =
  rs0 :: u16
  rs1 :: u16
  rd0 :: u16
  rd1 :: u16
  lat :: u16
  decCycle :: u16
  utype :: UopType
  portMask :: u8
  extraSlots :: u8

text \<open>The length of \<open>uop\<close> is the field \<open>uops\<close> of the code.\<close>

record DynBbl =
  bblAddr :: u64
  approxInstrs :: u32
  uop :: "DynUop list"

record BblInfo =
  bblIdx :: u32
  binstrs :: u32
  bbytes :: u32
  oooBbl :: DynBbl

definition FETCH_STAGE :: u64 where "FETCH_STAGE = 1"
definition DECODE_STAGE :: u64 where "DECODE_STAGE = 4"
definition ISSUE_STAGE :: u64 where "ISSUE_STAGE = 7"
definition DISPATCH_STAGE :: u64 where "DISPATCH_STAGE = 13"
definition L1I_LAT :: u64 where "L1I_LAT = 3"
definition L1D_LAT :: u64 where "L1D_LAT = 4"

lemmas stage_defs = FETCH_STAGE_def DECODE_STAGE_def ISSUE_STAGE_def DISPATCH_STAGE_def L1I_LAT_def L1D_LAT_def

section \<open>Instruction counters and slices\<close>

text \<open>
  The counters are globals of the simulator.  \<open>dumped\<close> is the log of the values of \<open>total_icount\<close> at
  which the statistics were dumped, in place of the output.
\<close>

record Counters =
  interval_size :: u64
  interval_pcount :: u64
  interval_icount :: u64
  total_pcount :: u64
  total_icount :: u64
  dumped :: "u64 list"

definition Counters_new :: "u64 \<Rightarrow> Counters" where
  "Counters_new sz = \<lparr>interval_size = sz, interval_pcount = 0, interval_icount = 0, total_pcount = 0, total_icount = 0, dumped = []\<rparr>"

definition all_instr_full_count_always :: "Counters \<Rightarrow> Counters" where
  "all_instr_full_count_always g = g\<lparr>total_pcount := total_pcount g + 1\<rparr>"

definition all_instr_full_count_no_rep :: "Counters \<Rightarrow> Counters" where
  "all_instr_full_count_no_rep g = g\<lparr>total_icount := total_icount g + 1\<rparr>"

definition all_instr_full_count_with_rep :: "u32 \<Rightarrow> Counters \<Rightarrow> Counters" where
  "all_instr_full_count_with_rep repCnt g = (if repCnt > 0 then g\<lparr>total_icount := total_icount g + 1\<rparr> else g)"

definition all_instr_intervals_count_always :: "Counters \<Rightarrow> Counters" where
  "all_instr_intervals_count_always g = g\<lparr>total_pcount := total_pcount g + 1, interval_pcount := interval_pcount g + 1\<rparr>"

definition all_instr_intervals_count_no_rep :: "Counters \<Rightarrow> Counters" where
  "all_instr_intervals_count_no_rep g = g\<lparr>total_icount := total_icount g + 1, interval_icount := interval_icount g + 1\<rparr>"

definition all_instr_intervals_count_with_rep :: "u32 \<Rightarrow> Counters \<Rightarrow> Counters" where
  "all_instr_intervals_count_with_rep repCnt g =
     (if repCnt > 0 then g\<lparr>total_icount := total_icount g + 1, interval_icount := interval_icount g + 1\<rparr> else g)"

text \<open>The end of every \<open>bbl\<close>: a slice that has reached its size is dumped.\<close>

definition endInterval :: "Counters \<Rightarrow> Counters" where
  "endInterval g =
     (if interval_icount g \<ge> interval_size g
      then g\<lparr>dumped := dumped g @ [total_icount g], interval_icount := 0, interval_pcount := 0\<rparr>
      else g)"

text \<open>The size of a cache line, a 32-bit number in the code.\<close>

definition lineSize :: "nat \<Rightarrow> u32" where
  "lineSize lineBits = push_bit lineBits 1"

section \<open>Ports of a core model\<close>

text \<open>
  The filter cache and the recorder of a core live in a world \<open>'w\<close>.  Loads and stores return the cycle
  at which the line is available; the recorder's operations return the updated clock.
\<close>

record 'w CorePorts =
  l1Load :: "'w \<Rightarrow> Address \<Rightarrow> u64 \<Rightarrow> ('w \<times> u64) option"
  l1Store :: "'w \<Rightarrow> Address \<Rightarrow> u64 \<Rightarrow> ('w \<times> u64) option"
  l1ContextSwitch :: "'w \<Rightarrow> 'w"
  recRecord :: "'w \<Rightarrow> u64 \<Rightarrow> u64 \<Rightarrow> u64 \<Rightarrow> 'w option"
  recJoin :: "'w \<Rightarrow> u64 \<Rightarrow> ('w \<times> u64) option"
  recLeave :: "'w \<Rightarrow> u64 \<Rightarrow> 'w option"
  recSimStart :: "'w \<Rightarrow> u64 \<Rightarrow> ('w \<times> u64) option"
  recSimEnd :: "'w \<Rightarrow> u64 \<Rightarrow> ('w \<times> u64) option"

record ZInfo =
  phaseLength :: u32
  globPhaseCycles :: u64

text \<open>The state all core models have.  \<open>prevBbl\<close> is a pointer that may be null.\<close>

record CoreState =
  phaseEndCycle :: u64
  curCycle :: u64
  regScoreboard :: "u64 list"
  prevBbl :: "BblInfo option"
  decodeCycle :: u64
  instrs :: u64

section \<open>Loops of the fetch stage and of the phase barrier\<close>

text \<open>
  \<open>for (fetchAddr = bblAddr; fetchAddr < endAddr; fetchAddr += step) body\<close>.  The address wraps, so the
  loop may not end; \<open>None\<close> also stands for that.
\<close>

partial_function (option) fetchLoop :: "(u64 \<Rightarrow> 's \<Rightarrow> 's option) \<Rightarrow> u64 \<Rightarrow> u64 \<Rightarrow> u64 \<Rightarrow> 's \<Rightarrow> 's option" where
  "fetchLoop body step endAddr fetchAddr s =
     (if fetchAddr < endAddr then Option.bind (body fetchAddr s) (fetchLoop body step endAddr (fetchAddr + step))
      else Some s)"

text \<open>
  \<open>while (curCycle > phaseEndCycle)\<close> of the \<open>BblFunc\<close> functions.  The barrier is a parameter: it may change
  the core and tells whether the thread has lost it.
\<close>

partial_function (option) phaseLoop ::
    "u32 \<Rightarrow> ('c CoreState_scheme \<Rightarrow> 'w \<Rightarrow> ('c CoreState_scheme \<times> 'w \<times> bool) option) \<Rightarrow> 'c CoreState_scheme \<Rightarrow> 'w \<Rightarrow>
     ('c CoreState_scheme \<times> 'w) option" where
  "phaseLoop plen takeBarrier c w =
     (if curCycle c > phaseEndCycle c then
        Option.bind (takeBarrier (c\<lparr>phaseEndCycle := phaseEndCycle c + ucast plen\<rparr>) w)
          (\<lambda>r. case r of (c', w', switched) \<Rightarrow> if switched then Some (c', w') else phaseLoop plen takeBarrier c' w')
      else Some (c, w))"

declare fetchLoop.simps [code] phaseLoop.simps [code]

text \<open>The addresses a fetch loop visits.\<close>

fun fetch_addrs :: "nat \<Rightarrow> u64 \<Rightarrow> u64 \<Rightarrow> u64 list" where
  "fetch_addrs 0 step a = []"
| "fetch_addrs (Suc n) step a = a # fetch_addrs n step (a + step)"

definition fetch_count :: "u64 \<Rightarrow> u64 \<Rightarrow> u64 \<Rightarrow> nat" where
  "fetch_count step endAddr a = (unat endAddr - unat a + unat step - 1) div unat step"

lemma length_fetch_addrs [simp]: "length (fetch_addrs n step a) = n"
  by (induction n arbitrary: a) simp_all

lemma fetch_count_step:
  assumes "0 < unat step" "unat endAddr + unat step \<le> 2 ^ 64" "a < endAddr"
  shows "fetch_count step endAddr a = Suc (fetch_count step endAddr (a + step))"
proof -
  have lt: "unat a < unat endAddr" using assms(3) by (simp add: word_less_nat_alt)
  then have u: "unat (a + step) = unat a + unat step" using assms(2) by (intro unat_add_no_wrap) simp
  show ?thesis
  proof (cases "unat step \<le> unat endAddr - unat a")
    case True
    then have "unat endAddr - unat a + unat step - 1 = (unat endAddr - (unat a + unat step) + unat step - 1) + unat step"
      using assms(1) lt by simp
    then have "(unat endAddr - unat a + unat step - 1) div unat step
        = Suc ((unat endAddr - (unat a + unat step) + unat step - 1) div unat step)"
      using assms(1) by (metis add.commute div_add_self2 less_numeral_extra(3) plus_1_eq_Suc)
    then show ?thesis by (simp add: fetch_count_def u)
  next
    case False
    then have "(unat endAddr - unat a + unat step - 1) div unat step = 1"
      using lt by (intro div_nat_eqI) simp_all
    moreover have "(unat endAddr - (unat a + unat step) + unat step - 1) div unat step = 0"
      using False assms(1) by simp
    ultimately show ?thesis by (simp add: fetch_count_def u)
  qed
qed

lemma fetchLoop_eq:
  assumes "0 < unat step" "unat endAddr + unat step \<le> 2 ^ 64"
  shows "fetchLoop body step endAddr a s = run_all (\<lambda>s x. body x s) s (fetch_addrs (fetch_count step endAddr a) step a)"
proof (induction "fetch_count step endAddr a" arbitrary: a s)
  case 0
  then have "\<not> a < endAddr" using fetch_count_step [OF assms] by auto
  then show ?case using 0 [symmetric] by (subst fetchLoop.simps) simp
next
  case (Suc n)
  have lt: "a < endAddr"
  proof (rule ccontr)
    assume "\<not> a < endAddr"
    then have "unat endAddr - unat a = 0" by (simp add: word_less_nat_alt)
    then have "fetch_count step endAddr a = 0" using assms(1) by (simp add: fetch_count_def)
    with Suc.hyps(2) show False by simp
  qed
  from fetch_count_step [OF assms lt] Suc.hyps(2) have n: "n = fetch_count step endAddr (a + step)" by simp
  have "fetchLoop body step endAddr (a + step) = (\<lambda>s. run_all (\<lambda>s x. body x s) s (fetch_addrs n step (a + step)))"
    using Suc.hyps(1) [OF n] n by (intro ext) simp
  then show ?case using lt by (subst fetchLoop.simps) (simp add: Suc.hyps(2) [symmetric])
qed

text \<open>With step 0 the loop never ends.\<close>

lemma fetchLoop_zero_step: "a < endAddr \<Longrightarrow> fetchLoop body 0 endAddr a s = None"
proof (rule ccontr)
  assume "a < endAddr" "fetchLoop body 0 endAddr a s \<noteq> None"
  then obtain r where "fetchLoop body 0 endAddr a s = Some r" by blast
  then have "0 = (0::u64) \<longrightarrow> \<not> a < endAddr"
    by (rule fetchLoop.raw_induct [where P = "\<lambda>body step endAddr a s r. step = 0 \<longrightarrow> \<not> a < endAddr", rotated])
       (auto split: if_splits elim!: bind_Some_elim)
  with \<open>a < endAddr\<close> show False by simp
qed

text \<open>
  A barrier that neither takes the core away nor moves its clock lets the loop end, with the core in
  the phase of its clock.
\<close>

lemma phaseLoop_ends:
  assumes barrier: "\<And>c w. P c w \<Longrightarrow> \<exists>c' w'. takeBarrier c w = Some (c', w', False)
        \<and> curCycle c' = curCycle c \<and> phaseEndCycle c' = phaseEndCycle c \<and> P c' w'"
    and keep: "\<And>c w x. P c w \<Longrightarrow> P (c\<lparr>phaseEndCycle := x\<rparr>) w"
    and "0 < plen" "unat (curCycle c) + unat plen < 2 ^ 64" "P c w"
  shows "\<exists>c' w'. phaseLoop plen takeBarrier c w = Some (c', w') \<and> P c' w' \<and> curCycle c' = curCycle c
    \<and> curCycle c \<le> phaseEndCycle c' \<and> (phaseEndCycle c < curCycle c \<longrightarrow> unat (phaseEndCycle c') < unat (curCycle c) + unat plen)
    \<and> (curCycle c \<le> phaseEndCycle c \<longrightarrow> c' = c \<and> w' = w)"
  using assms(4,5)
proof (induction "unat (curCycle c) - unat (phaseEndCycle c)" arbitrary: c w rule: less_induct)
  case less
  show ?case
  proof (cases "phaseEndCycle c < curCycle c")
    case False
    then show ?thesis using less.prems by (subst phaseLoop.simps) auto
  next
    case True
    let ?c = "c\<lparr>phaseEndCycle := phaseEndCycle c + ucast plen\<rparr>"
    have lt: "unat (phaseEndCycle c) < unat (curCycle c)" using True by (simp add: word_less_nat_alt)
    then have u: "unat (phaseEndCycle ?c) = unat (phaseEndCycle c) + unat plen"
      using less.prems(1) by (simp add: unat_add_no_wrap)
    from barrier [OF keep [OF less.prems(2), of "phaseEndCycle c + ucast plen"]] obtain c1 w1 where b: "takeBarrier ?c w = Some (c1, w1, False)"
      "curCycle c1 = curCycle c" "phaseEndCycle c1 = phaseEndCycle ?c" "P c1 w1" by auto
    have "0 < unat plen" using assms(3) by (simp add: unat_gt_0)
    then have dec: "unat (curCycle c1) - unat (phaseEndCycle c1) < unat (curCycle c) - unat (phaseEndCycle c)"
      using lt u b(2,3) by simp
    have nowrap: "unat (curCycle c1) + unat plen < 2 ^ 64" using less.prems(1) b(2) by simp
    obtain c' w' where r: "phaseLoop plen takeBarrier c1 w1 = Some (c', w')" "P c' w'" "curCycle c' = curCycle c"
       "curCycle c \<le> phaseEndCycle c'" "phaseEndCycle c1 < curCycle c \<longrightarrow> unat (phaseEndCycle c') < unat (curCycle c) + unat plen"
       "curCycle c \<le> phaseEndCycle c1 \<longrightarrow> c' = c1"
      using less.hyps [OF dec nowrap b(4)] b(2) by auto
    have "unat (phaseEndCycle c') < unat (curCycle c) + unat plen"
      using r(5,6) u b(3) lt by (cases "phaseEndCycle c1 < curCycle c") (auto simp: not_less)
    then show ?thesis using True r b(1) by (subst phaseLoop.simps) auto
  qed
qed

section \<open>The contract of the ports\<close>

text \<open>
  What a model relies on: an access to the L1 cache returns, not before it was made, and adds at most \<open>L\<close>
  cycles to a bound \<open>B\<close> on the clocks; the recorder takes what it is given.  \<open>good\<close> are the addresses that may be
  accessed, \<open>ok B w\<close> says that the world is sound and its clocks are within \<open>B\<close>.
\<close>

locale core_port =
  fixes pt :: "'w CorePorts" and ok :: "nat \<Rightarrow> 'w \<Rightarrow> bool" and good :: "Address \<Rightarrow> bool" and L :: nat
  assumes ok_mono: "ok B w \<Longrightarrow> B \<le> C \<Longrightarrow> ok C w"
    and l1_load: "ok B w \<Longrightarrow> good a \<Longrightarrow> unat cy \<le> B \<Longrightarrow> B < 2 ^ 60 \<Longrightarrow>
      \<exists>w' r. l1Load pt w a cy = Some (w', r) \<and> ok (B + L) w' \<and> unat cy \<le> unat r \<and> unat r \<le> B + L"
    and l1_store: "ok B w \<Longrightarrow> good a \<Longrightarrow> unat cy \<le> B \<Longrightarrow> B < 2 ^ 60 \<Longrightarrow>
      \<exists>w' r. l1Store pt w a cy = Some (w', r) \<and> ok (B + L) w' \<and> unat cy \<le> unat r \<and> unat r \<le> B + L"
    and recording: "ok B w \<Longrightarrow> \<exists>w'. recRecord pt w x d r = Some w' \<and> ok B w'"

text \<open>
  The recorder of a core alone.  Any one that takes what it is given makes, with a filter cache over
  fixed-latency memories, ports that keep the contract with \<open>L = 2 ^ 33\<close>.
\<close>

record 'r RecPorts =
  rpRecord :: "'r \<Rightarrow> u64 \<Rightarrow> u64 \<Rightarrow> u64 \<Rightarrow> 'r option"
  rpJoin :: "'r \<Rightarrow> u64 \<Rightarrow> ('r \<times> u64) option"
  rpLeave :: "'r \<Rightarrow> u64 \<Rightarrow> 'r option"
  rpSimStart :: "'r \<Rightarrow> u64 \<Rightarrow> ('r \<times> u64) option"
  rpSimEnd :: "'r \<Rightarrow> u64 \<Rightarrow> ('r \<times> u64) option"

definition fc_ports :: "Address \<Rightarrow> nat \<Rightarrow> 'r RecPorts \<Rightarrow> (fc_state \<times> 'r) CorePorts" where
  "fc_ports m b rp =
     \<lparr>l1Load = (\<lambda>((f, ms), r) a cy. do { (f', ms', t) \<leftarrow> fc_load mem_parents no_recorders m b f ms a cy; Some (((f', ms'), r), t) }),
      l1Store = (\<lambda>((f, ms), r) a cy. do { (f', ms', t) \<leftarrow> fc_store mem_parents no_recorders m b f ms a cy; Some (((f', ms'), r), t) }),
      l1ContextSwitch = (\<lambda>((f, ms), r). ((fc_contextSwitch f, ms), r)),
      recRecord = (\<lambda>(s, r) x d y. do { r' \<leftarrow> rpRecord rp r x d y; Some (s, r') }),
      recJoin = (\<lambda>(s, r) cy. do { (r', t) \<leftarrow> rpJoin rp r cy; Some ((s, r'), t) }),
      recLeave = (\<lambda>(s, r) cy. do { r' \<leftarrow> rpLeave rp r cy; Some (s, r') }),
      recSimStart = (\<lambda>(s, r) cy. do { (r', t) \<leftarrow> rpSimStart rp r cy; Some ((s, r'), t) }),
      recSimEnd = (\<lambda>(s, r) cy. do { (r', t) \<leftarrow> rpSimEnd rp r cy; Some ((s, r'), t) })\<rparr>"

definition fc_world_ok :: "nat \<Rightarrow> nat \<Rightarrow> nat \<Rightarrow> Address \<Rightarrow> nat \<Rightarrow> ('r \<Rightarrow> bool) \<Rightarrow> nat \<Rightarrow> fc_state \<times> 'r \<Rightarrow> bool" where
  "fc_world_ok n k np m b rok B w = (fc_ok n k np m b (fst w) \<and> fc_avail B (fst (fst w)) \<and> rok (snd w))"

definition fc_good :: "Address \<Rightarrow> nat \<Rightarrow> Address \<Rightarrow> bool" where
  "fc_good m b a = (m OR drop_bit b a \<noteq> 0)"

lemma fc_ports_contract:
  assumes m: "mask_ok m b" and rec: "\<And>r x d y. rok r \<Longrightarrow> \<exists>r'. rpRecord rp r x d y = Some r' \<and> rok r'"
  shows "core_port (fc_ports m b rp) (fc_world_ok n k np m b rok) (fc_good m b) (2 ^ 33)"
proof (unfold_locales)
  fix B C and w :: "fc_state \<times> 'a"
  show "fc_world_ok n k np m b rok B w \<Longrightarrow> B \<le> C \<Longrightarrow> fc_world_ok n k np m b rok C w"
    by (auto simp: fc_world_ok_def intro: fc_avail_mono)
next
  fix B a and cy :: u64 and w :: "fc_state \<times> 'a"
  obtain f ms r where w: "w = ((f, ms), r)" by (metis prod.exhaust)
  assume a: "fc_world_ok n k np m b rok B w" "fc_good m b a" "unat cy \<le> B" "B < 2 ^ 60"
  have inv: "fc_inv n k np m b f" "mem_ok np ms" "\<not> flag_is (reqFlags f) PUTX_KEEPEXCL" "fc_avail B f" "rok r"
    using a(1) by (simp_all add: fc_world_ok_def fc_ok_def w)
  have cy: "m OR drop_bit b a \<noteq> 0" "unat cy < 2 ^ 60" using a(2-4) by (simp_all add: fc_good_def)
  from l1_mem.fc_load_ok [OF inv(1) m cy(1) inv(2) no_recorders inv(3) cy(2)] obtain f' ms' t where
    "fc_load mem_parents no_recorders m b f ms a cy = Some (f', ms', t)" "mem_ok np ms'" "fc_inv n k np m b f'" "unat cy \<le> unat t"
    "reqFlags f' = reqFlags f" "\<forall>B. fc_avail B f \<and> unat cy \<le> B \<longrightarrow> unat t \<le> B + 2 ^ 33 \<and> fc_avail (B + 2 ^ 33) f'" by blast
  then show "\<exists>w' t. l1Load (fc_ports m b rp) w a cy = Some (w', t) \<and> fc_world_ok n k np m b rok (B + 2 ^ 33) w'
      \<and> unat cy \<le> unat t \<and> unat t \<le> B + 2 ^ 33"
    using inv(3-5) a(3) by (auto simp: fc_ports_def w fc_world_ok_def fc_ok_def)
  from l1_mem.fc_store_ok [OF inv(1) m cy(1) inv(2) no_recorders inv(3) cy(2)] obtain f' ms' t where
    "fc_store mem_parents no_recorders m b f ms a cy = Some (f', ms', t)" "mem_ok np ms'" "fc_inv n k np m b f'" "unat cy \<le> unat t"
    "reqFlags f' = reqFlags f" "\<forall>B. fc_avail B f \<and> unat cy \<le> B \<longrightarrow> unat t \<le> B + 2 ^ 33 \<and> fc_avail (B + 2 ^ 33) f'" by blast
  then show "\<exists>w' t. l1Store (fc_ports m b rp) w a cy = Some (w', t) \<and> fc_world_ok n k np m b rok (B + 2 ^ 33) w'
      \<and> unat cy \<le> unat t \<and> unat t \<le> B + 2 ^ 33"
    using inv(3-5) a(3) by (auto simp: fc_ports_def w fc_world_ok_def fc_ok_def)
next
  fix B and w :: "fc_state \<times> 'a" and x d y :: u64
  assume "fc_world_ok n k np m b rok B w"
  then show "\<exists>w'. recRecord (fc_ports m b rp) w x d y = Some w' \<and> fc_world_ok n k np m b rok B w'"
    using rec [of "snd w" x d y] by (cases w) (auto simp: fc_ports_def fc_world_ok_def)
qed

section \<open>Well-formed blocks and their dataflow\<close>

text \<open>Registers within the scoreboard of \<open>n\<close> registers, of which register 0 stands for none.\<close>

definition uop_ok :: "nat \<Rightarrow> DynUop \<Rightarrow> bool" where
  "uop_ok n u = (unat (rs0 u) < n \<and> unat (rs1 u) < n \<and> unat (rd0 u) < n \<and> unat (rd1 u) < n)"

definition dec_sorted :: "DynUop list \<Rightarrow> bool" where
  "dec_sorted us = sorted (map (\<lambda>u. unat (decCycle u)) us)"

definition block_ok :: "nat \<Rightarrow> DynUop list \<Rightarrow> bool" where
  "block_ok n us = (list_all (uop_ok n) us \<and> dec_sorted us)"

text \<open>
  The dataflow of a block on its own: \<open>flow lt us f r\<close> bounds from below when register \<open>r\<close> is ready after
  the uops \<open>us\<close>, each of latency at least \<open>lt u\<close>, when register \<open>r\<close> was ready at \<open>f r\<close> before.
\<close>

definition src_ready :: "(u16 \<Rightarrow> nat) \<Rightarrow> u16 \<Rightarrow> nat" where
  "src_ready f r = (if r = 0 then 0 else f r)"

fun flow :: "(DynUop \<Rightarrow> nat) \<Rightarrow> DynUop list \<Rightarrow> (u16 \<Rightarrow> nat) \<Rightarrow> u16 \<Rightarrow> nat" where
  "flow lt [] f = f"
| "flow lt (u # us) f =
     (let d = max (src_ready f (rs0 u)) (src_ready f (rs1 u)) + lt u in flow lt us (f(rd0 u := d, rd1 u := d)))"

definition sb_after :: "nat \<Rightarrow> (u16 \<Rightarrow> nat) \<Rightarrow> 'c CoreState_scheme \<Rightarrow> bool" where
  "sb_after n f c = (\<forall>r. r \<noteq> 0 \<and> unat r < n \<longrightarrow> f r \<le> unat (regScoreboard c ! unat r))"

text \<open>The number of uops of a type.\<close>

definition ops_of :: "UopType \<Rightarrow> DynUop list \<Rightarrow> nat" where
  "ops_of t us = length (filter (\<lambda>u. utype u = t) us)"

lemma ops_of_simps [simp]: "ops_of t [] = 0" "ops_of t (u # us) = of_bool (utype u = t) + ops_of t us"
  by (simp_all add: ops_of_def)

lemma flow_append: "flow lt (us @ vs) f = flow lt vs (flow lt us f)"
  by (induction us arbitrary: f) (simp_all add: Let_def)

lemma unat_suc_bool: "unat (i :: u32) + of_bool b < 2 ^ 32 \<Longrightarrow> unat (i + of_bool b) = unat i + of_bool b"
  by (cases b) (simp_all add: unat_add_no_wrap)

text \<open>All clocks of the shared state within a bound.\<close>

definition core_ok :: "nat \<Rightarrow> nat \<Rightarrow> 'c CoreState_scheme \<Rightarrow> bool" where
  "core_ok n B c = (length (regScoreboard c) = n \<and> 0 < n \<and> list_all (\<lambda>x. unat x \<le> B) (regScoreboard c)
     \<and> unat (curCycle c) \<le> B \<and> unat (decodeCycle c) \<le> B)"

lemma core_ok_mono: "core_ok n B c \<Longrightarrow> B \<le> C \<Longrightarrow> core_ok n C c"
  by (auto simp: core_ok_def list_all_iff intro: order_trans)

lemma core_ok_sb: "core_ok n B c \<Longrightarrow> r < n \<Longrightarrow> unat (regScoreboard c ! r) \<le> B"
  by (auto simp: core_ok_def list_all_length)

lemma nth_update_twice: "i < length xs \<Longrightarrow> xs[a := v, b := v] ! i = (if i = a \<or> i = b then v else xs ! i)"
  by (cases "i = b") (auto simp: nth_list_update)

lemma decDiff:
  assumes "unat (prev :: u32) \<le> unat (dc :: u16)" "unat d + 2 ^ 16 < 2 ^ 64"
  shows "unat (d + ucast (ucast dc - prev) :: u64) = unat d + (unat dc - unat prev)"
proof -
  have "prev \<le> ucast dc" using assms(1) by (simp add: word_le_nat_alt)
  then have "unat (ucast dc - prev :: u32) = unat dc - unat prev" by (simp add: unat_sub)
  then show ?thesis using assms(2) unat_u16_lt [of dc] by (subst unat_add_u64) simp_all
qed

text \<open>The lines of a fetch: at most one more than the bytes.\<close>

lemma fetch_count_le: "0 < unat step \<Longrightarrow> fetch_count step endAddr a \<le> unat endAddr - unat a + unat step - 1"
  by (simp add: fetch_count_def)

lemma unat_lineSize: "lineBits < 32 \<Longrightarrow> unat (lineSize lineBits) = 2 ^ lineBits"
  by (simp add: lineSize_def push_bit_eq_mult unat_two_power)

lemma unat_addr_bytes:
  "unat (addr :: u64) + unat (bytes :: u32) < 2 ^ 64 \<Longrightarrow> unat (addr + ucast bytes) = unat addr + unat bytes"
  by (simp add: unat_add_u64)

end
