(* ===== verification/CacheModel.thy ===== *)
theory CacheModel
  imports Tracer
begin

text \<open>
  The cache model of the tracer (\<open>src/src/MeMo/CacheModel.h\<close>, \<open>src/src/MeMo/CacheModel.cpp\<close>): it executes the uops of a
  block in order against the L1 data cache and takes everything else as ideal.
\<close>

section \<open>State\<close>

record CacheModel = CoreState +
  ooo_width :: u32
  ooo_prf_ports :: u32
  loadAddrs :: "Address list"
  storeAddrs :: "Address list"
  loads :: u32
  stores :: u32
  lastStoreCommitCycle :: u64
  lastStoreAddrCommitCycle :: u64

text \<open>
  The constructor leaves the address arrays and their counters as the memory has them; the arguments
  \<open>la\<close>, \<open>sa\<close>, \<open>l\<close> and \<open>s\<close> are that contents, \<open>nregs\<close> is \<open>MAX_REGISTERS\<close>, a number that depends on Pin's.
\<close>

definition CacheModel_new :: "ZInfo \<Rightarrow> nat \<Rightarrow> OOOParams \<Rightarrow> Address list \<Rightarrow> Address list \<Rightarrow> u32 \<Rightarrow> u32 \<Rightarrow> CacheModel" where
  "CacheModel_new zi nregs p la sa l s =
     \<lparr>phaseEndCycle = ucast (phaseLength zi), curCycle = 0, regScoreboard = replicate nregs 0, prevBbl = None,
      decodeCycle = DECODE_STAGE, instrs = 0, ooo_width = width p, ooo_prf_ports = prf_ports p,
      loadAddrs = la, storeAddrs = sa, loads = l, stores = s, lastStoreCommitCycle = 0, lastStoreAddrCommitCycle = 0\<rparr>"

definition cm_getPhaseCycles :: "ZInfo \<Rightarrow> CacheModel \<Rightarrow> u64" where
  "cm_getPhaseCycles zi c = curCycle c mod ucast (phaseLength zi)"

definition cm_contextSwitch :: "'w CorePorts \<Rightarrow> int \<Rightarrow> CacheModel \<Rightarrow> 'w \<Rightarrow> CacheModel \<times> 'w" where
  "cm_contextSwitch pt gid c w =
     (if gid = -1 then (c\<lparr>prevBbl := None\<rparr>, l1ContextSwitch pt w) else (c, w))"

section \<open>Memory operations of a block\<close>

definition cm_load :: "Address \<Rightarrow> CacheModel \<Rightarrow> CacheModel option" where
  "cm_load addr c = do {
     la \<leftarrow> aset (loadAddrs c) (unat (loads c)) addr;
     Some (c\<lparr>loadAddrs := la, loads := loads c + 1\<rparr>)
   }"

definition cm_store :: "Address \<Rightarrow> CacheModel \<Rightarrow> CacheModel option" where
  "cm_store addr c = do {
     sa \<leftarrow> aset (storeAddrs c) (unat (stores c)) addr;
     Some (c\<lparr>storeAddrs := sa, stores := stores c + 1\<rparr>)
   }"

definition cm_predFalseLoad :: "CacheModel \<Rightarrow> CacheModel option" where
  "cm_predFalseLoad c = do {
     la \<leftarrow> aset (loadAddrs c) (unat (loads c)) (-1);
     Some (c\<lparr>loadAddrs := la, loads := loads c + 1\<rparr>)
   }"

definition cm_predFalseStore :: "CacheModel \<Rightarrow> CacheModel option" where
  "cm_predFalseStore c = do {
     sa \<leftarrow> aset (storeAddrs c) (unat (stores c)) (-1);
     Some (c\<lparr>storeAddrs := sa, stores := stores c + 1\<rparr>)
   }"

definition cm_PredLoadFunc :: "Address \<Rightarrow> bool \<Rightarrow> CacheModel \<Rightarrow> CacheModel option" where
  "cm_PredLoadFunc addr pred c = (if pred then cm_load addr c else cm_predFalseLoad c)"

definition cm_PredStoreFunc :: "Address \<Rightarrow> bool \<Rightarrow> CacheModel \<Rightarrow> CacheModel option" where
  "cm_PredStoreFunc addr pred c = (if pred then cm_store addr c else cm_predFalseStore c)"

section \<open>Simulation of a block\<close>

text \<open>The loop variables: the core, its world, \<open>loadIdx\<close>, \<open>storeIdx\<close> and \<open>prevDecCycle\<close>.\<close>

record 'w cm_loop =
  lcore :: CacheModel
  lworld :: 'w
  loadIdx :: u32
  storeIdx :: u32
  prevDecCycle :: u32

text \<open>The switch on the type of the uop; the second result is the commit cycle.\<close>

definition cm_lsu :: "'w CorePorts \<Rightarrow> DynUop \<Rightarrow> 'w cm_loop \<Rightarrow> u64 \<Rightarrow> ('w cm_loop \<times> u64) option" where
  "cm_lsu pt u k dispatchCycle = (let c = lcore k in
     (case utype u of
        UOP_GENERAL \<Rightarrow> Some (k, dispatchCycle + ucast (lat u))
      | UOP_LOAD \<Rightarrow> do {
          let d = c_MAX (lastStoreAddrCommitCycle c + 1) dispatchCycle;
          addr \<leftarrow> aget (loadAddrs c) (unat (loadIdx k));
          (w', reqSatisfiedCycle) \<leftarrow>
            (if addr \<noteq> -1 then do {
               (w1, avail) \<leftarrow> l1Load pt (lworld k) addr d;
               let r = avail + L1D_LAT;
               w2 \<leftarrow> recRecord pt w1 (curCycle c) d r;
               Some (w2, r)
             }
             else Some (lworld k, d));
          Some (k\<lparr>lworld := w', loadIdx := loadIdx k + 1\<rparr>, reqSatisfiedCycle)
        }
      | UOP_STORE \<Rightarrow> do {
          let d = c_MAX (lastStoreAddrCommitCycle c + 1) dispatchCycle;
          addr \<leftarrow> aget (storeAddrs c) (unat (storeIdx k));
          (w1, avail) \<leftarrow> l1Store pt (lworld k) addr d;
          let reqSatisfiedCycle = avail + L1D_LAT;
          w2 \<leftarrow> recRecord pt w1 (curCycle c) d reqSatisfiedCycle;
          let c' = c\<lparr>lastStoreCommitCycle := c_MAX (lastStoreCommitCycle c) reqSatisfiedCycle\<rparr>;
          Some (k\<lparr>lcore := c', lworld := w2, storeIdx := storeIdx k + 1\<rparr>, reqSatisfiedCycle)
        }
      | UOP_STORE_ADDR \<Rightarrow> do {
          let commitCycle = dispatchCycle + ucast (lat u);
          Some (k\<lparr>lcore := c\<lparr>lastStoreAddrCommitCycle := c_MAX (lastStoreAddrCommitCycle c) commitCycle\<rparr>\<rparr>, commitCycle)
        }
      | UOP_FENCE \<Rightarrow> do {
          let commitCycle = dispatchCycle + ucast (lat u);
          Some (k\<lparr>lcore := c\<lparr>lastStoreAddrCommitCycle :=
                    c_MAX commitCycle (c_MAX (lastStoreAddrCommitCycle c) (lastStoreCommitCycle c))\<rparr>\<rparr>, commitCycle)
        }))"

text \<open>Decode, operands and the issue of a uop, up to the dispatch cycle.\<close>

definition cm_issue :: "DynUop \<Rightarrow> 'w cm_loop \<Rightarrow> ('w cm_loop \<times> u64) option" where
  "cm_issue u k = do {
     let c = lcore k;
     let decDiff = ucast (decCycle u) - prevDecCycle k;
     let dec = decodeCycle c + ucast decDiff;
     let cur = c_MAX (curCycle c) dec;
     sb \<leftarrow> aset (regScoreboard c) 0 cur;
     c0 \<leftarrow> aget sb (unat (rs0 u));
     c1 \<leftarrow> aget sb (unat (rs1 u));
     let cOps = c_MAX c0 c1;
     let dispatchCycle = c_MAX cOps (c_MAX cur cur + (DISPATCH_STAGE - ISSUE_STAGE));
     Some (k\<lparr>lcore := c\<lparr>decodeCycle := dec, curCycle := c_MAX cur dispatchCycle, regScoreboard := sb\<rparr>,
             prevDecCycle := ucast (decCycle u)\<rparr>, dispatchCycle)
   }"

definition cm_uop :: "'w CorePorts \<Rightarrow> 'w cm_loop \<Rightarrow> DynUop \<Rightarrow> 'w cm_loop option" where
  "cm_uop pt k u = do {
     (k1, dispatchCycle) \<leftarrow> cm_issue u k;
     (k2, commitCycle) \<leftarrow> cm_lsu pt u k1 dispatchCycle;
     sb \<leftarrow> aset (regScoreboard (lcore k2)) (unat (rd0 u)) commitCycle;
     sb' \<leftarrow> aset sb (unat (rd1 u)) commitCycle;
     Some (k2\<lparr>lcore := (lcore k2)\<lparr>regScoreboard := sb'\<rparr>\<rparr>)
   }"

text \<open>One iteration of the instruction fetch.\<close>

definition cm_fetch :: "'w CorePorts \<Rightarrow> u64 \<Rightarrow> u64 \<Rightarrow> 'w \<times> u64 \<Rightarrow> ('w \<times> u64) option" where
  "cm_fetch pt cur fetchAddr s = (case s of (w, fetchCycle) \<Rightarrow> do {
     let fetchLat = L1I_LAT;
     w' \<leftarrow> recRecord pt w cur cur (cur + fetchLat);
     Some (w', fetchCycle + fetchLat)
   })"

definition cm_bbl :: "'w CorePorts \<Rightarrow> nat \<Rightarrow> Address \<Rightarrow> BblInfo \<Rightarrow> CacheModel \<Rightarrow> 'w \<Rightarrow> Counters \<Rightarrow> (CacheModel \<times> 'w \<times> Counters) option" where
  "cm_bbl pt lineBits addr info c w g =
     (case prevBbl c of
        None \<Rightarrow> Some (c\<lparr>prevBbl := Some info, loads := 0, stores := 0\<rparr>, w, g)
      | Some pb \<Rightarrow> do {
          k \<leftarrow> run_all (cm_uop pt) \<lparr>lcore = c\<lparr>prevBbl := Some info\<rparr>, lworld = w, loadIdx = 0, storeIdx = 0, prevDecCycle = 0\<rparr>
                 (uop (oooBbl pb));
          let c1 = (lcore k)\<lparr>instrs := instrs (lcore k) + ucast (binstrs pb)\<rparr>;
          _ \<leftarrow> require (instrs c1 = total_pcount g);
          _ \<leftarrow> require (loadIdx k = loads c1);
          _ \<leftarrow> require (storeIdx k = stores c1);
          let c2 = c1\<lparr>loads := 0, stores := 0\<rparr>;
          let fetchCycle = decodeCycle c2 - (DECODE_STAGE - FETCH_STAGE);
          (w', fetchCycle') \<leftarrow>
            fetchLoop (cm_fetch pt (curCycle c2)) (ucast (lineSize lineBits)) (addr + ucast (bbytes info)) addr (lworld k, fetchCycle);
          let dec = decodeCycle c2 + 1;
          let minFetchDecCycle = fetchCycle' + (DECODE_STAGE - FETCH_STAGE);
          Some (c2\<lparr>decodeCycle := (if minFetchDecCycle > dec then minFetchDecCycle else dec)\<rparr>, w', endInterval g)
        })"

section \<open>Phases\<close>

definition cm_advance :: "u64 \<Rightarrow> CacheModel \<Rightarrow> CacheModel option" where
  "cm_advance targetCycle c = do {
     _ \<leftarrow> require (targetCycle > curCycle c);
     Some (c\<lparr>decodeCycle := decodeCycle c + (targetCycle - curCycle c), curCycle := targetCycle\<rparr>)
   }"

definition cm_join :: "'w CorePorts \<Rightarrow> ZInfo \<Rightarrow> CacheModel \<Rightarrow> 'w \<Rightarrow> (CacheModel \<times> 'w) option" where
  "cm_join pt zi c w = do {
     (w', targetCycle) \<leftarrow> recJoin pt w (curCycle c);
     c' \<leftarrow> (if targetCycle > curCycle c then cm_advance targetCycle c else Some c);
     Some (c'\<lparr>phaseEndCycle := globPhaseCycles zi + ucast (phaseLength zi)\<rparr>, w')
   }"

definition cm_leave :: "'w CorePorts \<Rightarrow> CacheModel \<Rightarrow> 'w \<Rightarrow> (CacheModel \<times> 'w) option" where
  "cm_leave pt c w = do { w' \<leftarrow> recLeave pt w (curCycle c); Some (c, w') }"

definition cm_cSimStart :: "'w CorePorts \<Rightarrow> CacheModel \<Rightarrow> 'w \<Rightarrow> (CacheModel \<times> 'w) option" where
  "cm_cSimStart pt c w = do {
     (w', targetCycle) \<leftarrow> recSimStart pt w (curCycle c);
     _ \<leftarrow> require (targetCycle \<ge> curCycle c);
     c' \<leftarrow> (if targetCycle > curCycle c then cm_advance targetCycle c else Some c);
     Some (c', w')
   }"

definition cm_cSimEnd :: "'w CorePorts \<Rightarrow> CacheModel \<Rightarrow> 'w \<Rightarrow> (CacheModel \<times> 'w) option" where
  "cm_cSimEnd pt c w = do {
     (w', targetCycle) \<leftarrow> recSimEnd pt w (curCycle c);
     _ \<leftarrow> require (targetCycle \<ge> curCycle c);
     c' \<leftarrow> (if targetCycle > curCycle c then cm_advance targetCycle c else Some c);
     Some (c', w')
   }"

text \<open>\<open>BblFunc\<close>; the barrier is that of the thread and the core.\<close>

definition cm_BblFunc :: "'w CorePorts \<Rightarrow> nat \<Rightarrow> ZInfo \<Rightarrow> (CacheModel \<Rightarrow> 'w \<Rightarrow> (CacheModel \<times> 'w \<times> bool) option) \<Rightarrow>
    Address \<Rightarrow> BblInfo \<Rightarrow> CacheModel \<Rightarrow> 'w \<Rightarrow> Counters \<Rightarrow> (CacheModel \<times> 'w \<times> Counters) option" where
  "cm_BblFunc pt lineBits zi takeBarrier addr info c w g = do {
     (c1, w1, g1) \<leftarrow> cm_bbl pt lineBits addr info c w g;
     (c2, w2) \<leftarrow> phaseLoop (phaseLength zi) takeBarrier c1 w1;
     Some (c2, w2, g1)
   }"

section \<open>A uop\<close>

definition cm_ok :: "nat \<Rightarrow> nat \<Rightarrow> CacheModel \<Rightarrow> bool" where
  "cm_ok n B c = (core_ok n B c \<and> unat (lastStoreCommitCycle c) \<le> B \<and> unat (lastStoreAddrCommitCycle c) \<le> B)"

lemma cm_ok_mono: "cm_ok n B c \<Longrightarrow> B \<le> C \<Longrightarrow> cm_ok n C c"
  by (auto simp: cm_ok_def intro: core_ok_mono)

text \<open>The least latency of a uop: a load whose predicate is false takes no time.\<close>

definition cm_lat :: "DynUop \<Rightarrow> nat" where
  "cm_lat u = (case utype u of UOP_LOAD \<Rightarrow> 0 | UOP_STORE \<Rightarrow> 4 | _ \<Rightarrow> unat (lat u))"

lemma cm_issue_ok:
  assumes ok: "cm_ok n B (lcore k)" and B: "B + 2 ^ 17 < 2 ^ 60" and u: "uop_ok n u" "unat (prevDecCycle k) \<le> unat (decCycle u)"
    and sb: "sb_after n f (lcore k)"
  shows "\<exists>c d. cm_issue u k = Some (k\<lparr>lcore := c, prevDecCycle := ucast (decCycle u)\<rparr>, d)
    \<and> cm_ok n (B + 2 ^ 17) c \<and> unat d \<le> B + 2 ^ 17 \<and> sb_after n f c
    \<and> unat (curCycle (lcore k)) + 6 \<le> unat (curCycle c) \<and> curCycle c = d
    \<and> src_ready f (rs0 u) \<le> unat d \<and> src_ready f (rs1 u) \<le> unat d
    \<and> unat (decodeCycle c) = unat (decodeCycle (lcore k)) + (unat (decCycle u) - unat (prevDecCycle k))
    \<and> loads c = loads (lcore k) \<and> stores c = stores (lcore k) \<and> loadAddrs c = loadAddrs (lcore k) \<and> storeAddrs c = storeAddrs (lcore k)
    \<and> instrs c = instrs (lcore k) \<and> prevBbl c = prevBbl (lcore k) \<and> phaseEndCycle c = phaseEndCycle (lcore k)"
proof -
  let ?c = "lcore k"
  have c: "core_ok n B ?c" "length (regScoreboard ?c) = n" "0 < n" using ok by (simp_all add: cm_ok_def core_ok_def)
  have dec: "unat (decodeCycle ?c) \<le> B" "unat (curCycle ?c) \<le> B" using c(1) by (simp_all add: core_ok_def)
  define dc where "dc = decodeCycle ?c + ucast (ucast (decCycle u) - prevDecCycle k)"
  have udc: "unat dc = unat (decodeCycle ?c) + (unat (decCycle u) - unat (prevDecCycle k))"
    unfolding dc_def by (rule decDiff [OF u(2)]) (use dec B in simp)
  have udc': "unat dc \<le> B + 65535" unfolding udc using dec unat_u16_lt [of "decCycle u"] by simp
  define cur where "cur = max (curCycle ?c) dc"
  have ucur: "unat cur \<le> B + 65535" "unat (curCycle ?c) \<le> unat cur" unfolding cur_def unat_max using dec udc' by simp_all
  define sb where "sb = (regScoreboard ?c)[0 := cur]"
  have lsb: "length sb = n" using c by (simp add: sb_def)
  have sbB: "unat (sb ! r) \<le> B + 65535" if "r < n" for r
    using core_ok_sb [OF c(1) that] ucur that c by (auto simp: sb_def nth_list_update)
  define c0 where "c0 = sb ! unat (rs0 u)"
  define c1 where "c1 = sb ! unat (rs1 u)"
  have cB: "unat c0 \<le> B + 65535" "unat c1 \<le> B + 65535"
    using u(1) sbB by (simp_all add: uop_ok_def c0_def c1_def)
  have six: "unat (cur + (DISPATCH_STAGE - ISSUE_STAGE)) = unat cur + 6"
    using ucur B by (simp add: stage_defs unat_add_u64)
  define d where "d = max (max c0 c1) (cur + (DISPATCH_STAGE - ISSUE_STAGE))"
  have d: "unat d \<le> B + 65541" "unat cur + 6 \<le> unat d" "unat c0 \<le> unat d" "unat c1 \<le> unat d"
    unfolding d_def unat_max six using ucur cB by simp_all
  have maxd: "max cur d = d" using d(2) by (simp add: max_def word_le_nat_alt)
  let ?c' = "?c\<lparr>decodeCycle := dc, curCycle := d, regScoreboard := sb\<rparr>"
  have run: "cm_issue u k = Some (k\<lparr>lcore := ?c', prevDecCycle := ucast (decCycle u)\<rparr>, d)"
    using c(2,3) u(1) lsb maxd unfolding uop_ok_def
    by (simp add: cm_issue_def Let_def dc_def [symmetric] cur_def [symmetric] sb_def [symmetric] c0_def [symmetric] c1_def [symmetric] d_def [symmetric])
  have src: "src_ready f (rs0 u) \<le> unat c0" "src_ready f (rs1 u) \<le> unat c1"
    using sb u(1) c(2) by (auto simp: src_ready_def sb_after_def uop_ok_def c0_def c1_def sb_def nth_list_update unat_eq_0)
  have "unat (sb ! i) \<le> B + 2 ^ 17" if "i < length sb" for i using sbB [of i] that lsb by simp
  then have "list_all (\<lambda>x. unat x \<le> B + 2 ^ 17) sb" unfolding list_all_length by blast
  then have "cm_ok n (B + 2 ^ 17) ?c'" using ok c lsb d(1) udc' unfolding cm_ok_def core_ok_def by simp
  moreover have "sb_after n f ?c'" using sb c(2) by (auto simp: sb_after_def sb_def nth_list_update unat_eq_0)
  ultimately show ?thesis using run d src udc ucur(2) by (intro exI [of _ ?c'] exI [of _ d]) simp
qed

text \<open>The memory operation of a uop has its address.\<close>

definition has_addr :: "(Address \<Rightarrow> bool) \<Rightarrow> DynUop \<Rightarrow> 'w cm_loop \<Rightarrow> bool" where
  "has_addr good u k =
     (case utype u of
        UOP_LOAD \<Rightarrow> unat (loadIdx k) < length (loadAddrs (lcore k)) \<and>
          (loadAddrs (lcore k) ! unat (loadIdx k) \<noteq> -1 \<longrightarrow> good (loadAddrs (lcore k) ! unat (loadIdx k)))
      | UOP_STORE \<Rightarrow> unat (storeIdx k) < length (storeAddrs (lcore k)) \<and> good (storeAddrs (lcore k) ! unat (storeIdx k))
      | _ \<Rightarrow> True)"

text \<open>What neither the switch on the type nor a whole uop changes.\<close>

definition same_block :: "'w cm_loop \<Rightarrow> 'w cm_loop \<Rightarrow> bool" where
  "same_block k k' = (loads (lcore k') = loads (lcore k) \<and> stores (lcore k') = stores (lcore k)
     \<and> loadAddrs (lcore k') = loadAddrs (lcore k) \<and> storeAddrs (lcore k') = storeAddrs (lcore k) \<and> instrs (lcore k') = instrs (lcore k)
     \<and> prevBbl (lcore k') = prevBbl (lcore k) \<and> phaseEndCycle (lcore k') = phaseEndCycle (lcore k))"

lemma same_block_trans: "same_block k k1 \<Longrightarrow> same_block k1 k2 \<Longrightarrow> same_block k k2"
  by (simp add: same_block_def)

lemma same_block_refl [simp]: "same_block k k"
  by (simp add: same_block_def)

context core_port
begin

lemma cm_lsu_ok:
  assumes ok: "cm_ok n B (lcore k)" and w: "ok B (lworld k)" and d: "unat d \<le> B" and B: "B + 2 ^ 17 + L < 2 ^ 60"
    and addr: "has_addr good u k"
  shows "\<exists>k' cc. cm_lsu pt u k d = Some (k', cc) \<and> cm_ok n (B + 2 ^ 17 + L) (lcore k') \<and> ok (B + 2 ^ 17 + L) (lworld k')
    \<and> unat d + cm_lat u \<le> unat cc \<and> unat cc \<le> B + 2 ^ 17 + L \<and> same_block k k'
    \<and> regScoreboard (lcore k') = regScoreboard (lcore k) \<and> curCycle (lcore k') = curCycle (lcore k)
    \<and> decodeCycle (lcore k') = decodeCycle (lcore k) \<and> prevDecCycle k' = prevDecCycle k
    \<and> loadIdx k' = loadIdx k + of_bool (utype u = UOP_LOAD) \<and> storeIdx k' = storeIdx k + of_bool (utype u = UOP_STORE)"
proof -
  let ?c = "lcore k" and ?B = "B + 2 ^ 17 + L"
  have last: "unat (lastStoreCommitCycle ?c) \<le> B" "unat (lastStoreAddrCommitCycle ?c) \<le> B" using ok by (simp_all add: cm_ok_def)
  have ok': "cm_ok n ?B ?c" by (rule cm_ok_mono [OF ok]) simp
  have w': "ok ?B (lworld k)" by (rule ok_mono [OF w]) simp
  have lat: "unat (d + ucast (lat u)) = unat d + unat (lat u)"
    using d B unat_u16_lt [of "lat u"] by (subst unat_add_u64) simp_all
  have latB: "unat d + unat (lat u) \<le> ?B" using d unat_u16_lt [of "lat u"] by simp
  define e where "e = max (lastStoreAddrCommitCycle ?c + 1) d"
  have "unat (lastStoreAddrCommitCycle ?c + 1) \<le> B + 1" using last(2) B by (subst unat_add_u64) simp_all
  then have e: "unat e \<le> B + 1" "unat d \<le> unat e" using d by (simp_all add: e_def unat_max)
  have w1: "ok (B + 1) (lworld k)" by (rule ok_mono [OF w]) simp
  have four: "unat (r + L1D_LAT) = unat r + 4" if "unat r \<le> B + 1 + L" for r
    using that B by (simp add: stage_defs unat_add_u64)
  show ?thesis
  proof (cases "utype u")
    case UOP_GENERAL
    then show ?thesis using ok' w' lat latB by (auto simp: cm_lsu_def cm_lat_def)
  next
    case UOP_STORE_ADDR
    then show ?thesis using ok' w' lat latB
      by (auto simp: cm_lsu_def cm_lat_def cm_ok_def core_ok_def unat_max same_block_def Let_def)
  next
    case UOP_FENCE
    then show ?thesis using ok' w' lat latB
      by (auto simp: cm_lsu_def cm_lat_def cm_ok_def core_ok_def unat_max same_block_def Let_def)
  next
    case UOP_LOAD
    let ?a = "loadAddrs ?c ! unat (loadIdx k)"
    have a: "unat (loadIdx k) < length (loadAddrs ?c)" "?a \<noteq> -1 \<longrightarrow> good ?a" using addr UOP_LOAD by (simp_all add: has_addr_def)
    show ?thesis
    proof (cases "?a = -1")
      case True
      then show ?thesis using UOP_LOAD a(1) ok' w' e
        by (auto simp: cm_lsu_def cm_lat_def Let_def e_def [symmetric] same_block_def)
    next
      case False
      have "B + 1 < 2 ^ 60" using B by simp
      from l1_load [OF w1 a(2) [rule_format, OF False] e(1) this] obtain w2 r where
        l: "l1Load pt (lworld k) ?a e = Some (w2, r)" "ok (B + 1 + L) w2" "unat e \<le> unat r" "unat r \<le> B + 1 + L" by blast
      obtain w3 where s: "recRecord pt w2 (curCycle ?c) e (r + L1D_LAT) = Some w3" "ok (B + 1 + L) w3" using recording [OF l(2)] by blast
      have "ok ?B w3" by (rule ok_mono [OF s(2)]) simp
      then show ?thesis using UOP_LOAD a(1) False ok' e l s(1) four [OF l(4)]
        by (auto simp: cm_lsu_def cm_lat_def Let_def e_def [symmetric] same_block_def)
    qed
  next
    case UOP_STORE
    let ?a = "storeAddrs ?c ! unat (storeIdx k)"
    have a: "unat (storeIdx k) < length (storeAddrs ?c)" "good ?a" using addr UOP_STORE by (simp_all add: has_addr_def)
    have "B + 1 < 2 ^ 60" using B by simp
    from l1_store [OF w1 a(2) e(1) this] obtain w2 r where
      l: "l1Store pt (lworld k) ?a e = Some (w2, r)" "ok (B + 1 + L) w2" "unat e \<le> unat r" "unat r \<le> B + 1 + L" by blast
    obtain w3 where s: "recRecord pt w2 (curCycle ?c) e (r + L1D_LAT) = Some w3" "ok (B + 1 + L) w3" using recording [OF l(2)] by blast
    have "ok ?B w3" by (rule ok_mono [OF s(2)]) simp
    then show ?thesis using UOP_STORE a(1) ok' e l s(1) four [OF l(4)]
      by (auto simp: cm_lsu_def cm_lat_def cm_ok_def core_ok_def unat_max Let_def e_def [symmetric] same_block_def)
  qed
qed

lemma cm_uop_ok:
  assumes ok: "cm_ok n B (lcore k)" and w: "ok B (lworld k)" and B: "B + 2 ^ 18 + L < 2 ^ 60"
    and u: "uop_ok n u" "unat (prevDecCycle k) \<le> unat (decCycle u)" and addr: "has_addr good u k" and sb: "sb_after n f (lcore k)"
  shows "\<exists>k'. cm_uop pt k u = Some k' \<and> cm_ok n (B + 2 ^ 18 + L) (lcore k') \<and> ok (B + 2 ^ 18 + L) (lworld k')
    \<and> sb_after n (flow cm_lat [u] f) (lcore k') \<and> unat (curCycle (lcore k)) + 6 \<le> unat (curCycle (lcore k'))
    \<and> unat (decodeCycle (lcore k')) = unat (decodeCycle (lcore k)) + (unat (decCycle u) - unat (prevDecCycle k))
    \<and> unat (prevDecCycle k') = unat (decCycle u) \<and> same_block k k'
    \<and> loadIdx k' = loadIdx k + of_bool (utype u = UOP_LOAD) \<and> storeIdx k' = storeIdx k + of_bool (utype u = UOP_STORE)"
proof -
  have B17: "B + 2 ^ 17 < 2 ^ 60" using B by simp
  obtain c d where i: "cm_issue u k = Some (k\<lparr>lcore := c, prevDecCycle := ucast (decCycle u)\<rparr>, d)" "cm_ok n (B + 2 ^ 17) c"
    "unat d \<le> B + 2 ^ 17" "sb_after n f c" "unat (curCycle (lcore k)) + 6 \<le> unat (curCycle c)"
    "src_ready f (rs0 u) \<le> unat d" "src_ready f (rs1 u) \<le> unat d"
    "unat (decodeCycle c) = unat (decodeCycle (lcore k)) + (unat (decCycle u) - unat (prevDecCycle k))"
    and fr: "loads c = loads (lcore k)" "stores c = stores (lcore k)" "loadAddrs c = loadAddrs (lcore k)" "storeAddrs c = storeAddrs (lcore k)"
      "instrs c = instrs (lcore k)" "prevBbl c = prevBbl (lcore k)" "phaseEndCycle c = phaseEndCycle (lcore k)"
    using cm_issue_ok [OF ok B17 u sb] by blast
  let ?k1 = "k\<lparr>lcore := c, prevDecCycle := ucast (decCycle u)\<rparr>"
  have w1: "ok (B + 2 ^ 17) (lworld ?k1)" using ok_mono [OF w, of "B + 2 ^ 17"] by simp
  have a1: "has_addr good u ?k1" using addr fr by (simp add: has_addr_def split: UopType.splits)
  have c1: "cm_ok n (B + 2 ^ 17) (lcore ?k1)" using i(2) by simp
  have B': "B + 2 ^ 17 + 2 ^ 17 + L < 2 ^ 60" using B by simp
  obtain k2 cc where l: "cm_lsu pt u ?k1 d = Some (k2, cc)" "cm_ok n (B + 2 ^ 18 + L) (lcore k2)" "ok (B + 2 ^ 18 + L) (lworld k2)"
    "unat d + cm_lat u \<le> unat cc" "unat cc \<le> B + 2 ^ 18 + L" "same_block ?k1 k2" "regScoreboard (lcore k2) = regScoreboard c"
    "curCycle (lcore k2) = curCycle c" "decodeCycle (lcore k2) = decodeCycle c" "prevDecCycle k2 = ucast (decCycle u)"
    "loadIdx k2 = loadIdx k + of_bool (utype u = UOP_LOAD)" "storeIdx k2 = storeIdx k + of_bool (utype u = UOP_STORE)"
    using cm_lsu_ok [OF c1 w1 i(3) B' a1] by (simp add: add.assoc) blast
  let ?sb = "(regScoreboard c)[unat (rd0 u) := cc, unat (rd1 u) := cc]"
  let ?k' = "k2\<lparr>lcore := (lcore k2)\<lparr>regScoreboard := ?sb\<rparr>\<rparr>"
  have len: "length (regScoreboard c) = n" using i(2) by (simp add: cm_ok_def core_ok_def)
  have run: "cm_uop pt k u = Some ?k'" using i(1) l(1,7) u(1) len by (simp add: cm_uop_def uop_ok_def)
  have "cm_ok n (B + 2 ^ 18 + L) (lcore ?k')" using l(2,5,7) by (simp add: cm_ok_def core_ok_def list_all_update)
  moreover have "sb_after n (flow cm_lat [u] f) (lcore ?k')"
  proof (unfold sb_after_def, intro allI impI)
    fix r :: u16
    assume r: "r \<noteq> 0 \<and> unat r < n"
    have val: "regScoreboard (lcore ?k') ! unat r = (if r = rd0 u \<or> r = rd1 u then cc else regScoreboard c ! unat r)"
      using r len by (simp add: nth_update_twice word_unat_eq_iff)
    have "flow cm_lat [u] f r = (if r = rd0 u \<or> r = rd1 u then max (src_ready f (rs0 u)) (src_ready f (rs1 u)) + cm_lat u else f r)"
      by (simp add: Let_def)
    then show "flow cm_lat [u] f r \<le> unat (regScoreboard (lcore ?k') ! unat r)"
      unfolding val using i(4,6,7) l(4) r by (auto simp: sb_after_def)
  qed
  moreover have "same_block k ?k'" using fr l(6) by (simp add: same_block_def)
  ultimately show ?thesis using run i(5,8) l(3,8-12) by (intro exI [of _ ?k']) simp
qed

end

section \<open>The uops of a block\<close>

text \<open>The addresses recorded for a block cover its memory uops.\<close>

definition addrs_cover :: "(Address \<Rightarrow> bool) \<Rightarrow> DynUop list \<Rightarrow> nat \<Rightarrow> nat \<Rightarrow> CacheModel \<Rightarrow> bool" where
  "addrs_cover good us i j c =
     (i + ops_of UOP_LOAD us \<le> length (loadAddrs c) \<and> j + ops_of UOP_STORE us \<le> length (storeAddrs c)
      \<and> i + ops_of UOP_LOAD us < 2 ^ 32 \<and> j + ops_of UOP_STORE us < 2 ^ 32
      \<and> (\<forall>x < i + ops_of UOP_LOAD us. loadAddrs c ! x \<noteq> -1 \<longrightarrow> good (loadAddrs c ! x))
      \<and> (\<forall>x < j + ops_of UOP_STORE us. good (storeAddrs c ! x)))"

context core_port
begin

lemma cm_uops_ok:
  assumes "cm_ok n B (lcore k)" "ok B (lworld k)" "B + length us * (2 ^ 18 + L) < 2 ^ 60"
    "list_all (uop_ok n) us" "dec_sorted us" "us \<noteq> [] \<longrightarrow> unat (prevDecCycle k) \<le> unat (decCycle (hd us))"
    "addrs_cover good us (unat (loadIdx k)) (unat (storeIdx k)) (lcore k)" "sb_after n f (lcore k)"
  shows "\<exists>k'. run_all (cm_uop pt) k us = Some k' \<and> cm_ok n (B + length us * (2 ^ 18 + L)) (lcore k')
    \<and> ok (B + length us * (2 ^ 18 + L)) (lworld k') \<and> sb_after n (flow cm_lat us f) (lcore k')
    \<and> unat (curCycle (lcore k)) + 6 * length us \<le> unat (curCycle (lcore k'))
    \<and> unat (decodeCycle (lcore k')) = unat (decodeCycle (lcore k)) + (if us = [] then 0 else unat (decCycle (last us)) - unat (prevDecCycle k))
    \<and> same_block k k' \<and> unat (loadIdx k') = unat (loadIdx k) + ops_of UOP_LOAD us \<and> unat (storeIdx k') = unat (storeIdx k) + ops_of UOP_STORE us"
  using assms
proof (induction us arbitrary: k B f)
  case Nil
  then show ?case by simp
next
  case (Cons u us)
  have B: "B + 2 ^ 18 + L < 2 ^ 60" using Cons.prems(3) by simp
  have u: "uop_ok n u" "unat (prevDecCycle k) \<le> unat (decCycle u)" using Cons.prems(4,6) by simp_all
  have cov: "addrs_cover good (u # us) (unat (loadIdx k)) (unat (storeIdx k)) (lcore k)" by (rule Cons.prems(7))
  have a: "has_addr good u k" using cov by (auto simp: has_addr_def addrs_cover_def split: UopType.splits)
  obtain k1 where k1: "cm_uop pt k u = Some k1" "cm_ok n (B + 2 ^ 18 + L) (lcore k1)" "ok (B + 2 ^ 18 + L) (lworld k1)"
    "sb_after n (flow cm_lat [u] f) (lcore k1)" "unat (curCycle (lcore k)) + 6 \<le> unat (curCycle (lcore k1))"
    "unat (decodeCycle (lcore k1)) = unat (decodeCycle (lcore k)) + (unat (decCycle u) - unat (prevDecCycle k))"
    "unat (prevDecCycle k1) = unat (decCycle u)" "same_block k k1"
    "loadIdx k1 = loadIdx k + of_bool (utype u = UOP_LOAD)" "storeIdx k1 = storeIdx k + of_bool (utype u = UOP_STORE)"
    using cm_uop_ok [OF Cons.prems(1,2) B u a Cons.prems(8)] by blast
  have idx: "unat (loadIdx k1) = unat (loadIdx k) + of_bool (utype u = UOP_LOAD)" "unat (storeIdx k1) = unat (storeIdx k) + of_bool (utype u = UOP_STORE)"
    unfolding k1(9,10) using cov by (intro unat_suc_bool; simp add: addrs_cover_def)+
  have cov1: "addrs_cover good us (unat (loadIdx k1)) (unat (storeIdx k1)) (lcore k1)"
    using cov k1(8) unfolding idx addrs_cover_def same_block_def by (simp add: add.assoc)
  have B1: "(B + 2 ^ 18 + L) + length us * (2 ^ 18 + L) < 2 ^ 60" using Cons.prems(3) by (simp add: algebra_simps)
  have srt: "dec_sorted us" "us \<noteq> [] \<longrightarrow> unat (prevDecCycle k1) \<le> unat (decCycle (hd us))"
    using Cons.prems(5) k1(7) by (cases us; simp add: dec_sorted_def)+
  have all: "list_all (uop_ok n) us" using Cons.prems(4) by simp
  obtain k' where k': "run_all (cm_uop pt) k1 us = Some k'" "cm_ok n ((B + 2 ^ 18 + L) + length us * (2 ^ 18 + L)) (lcore k')"
    "ok ((B + 2 ^ 18 + L) + length us * (2 ^ 18 + L)) (lworld k')" "sb_after n (flow cm_lat us (flow cm_lat [u] f)) (lcore k')"
    "unat (curCycle (lcore k1)) + 6 * length us \<le> unat (curCycle (lcore k'))"
    "unat (decodeCycle (lcore k')) = unat (decodeCycle (lcore k1)) + (if us = [] then 0 else unat (decCycle (last us)) - unat (prevDecCycle k1))"
    "same_block k1 k'" "unat (loadIdx k') = unat (loadIdx k1) + ops_of UOP_LOAD us" "unat (storeIdx k') = unat (storeIdx k1) + ops_of UOP_STORE us"
    using Cons.IH [OF k1(2,3) B1 all srt cov1 k1(4)] by blast
  have eq: "B + length (u # us) * (2 ^ 18 + L) = (B + 2 ^ 18 + L) + length us * (2 ^ 18 + L)" by (simp add: algebra_simps)
  have last_le: "us \<noteq> [] \<Longrightarrow> unat (decCycle u) \<le> unat (decCycle (last us))"
    using Cons.prems(5) by (auto simp: dec_sorted_def)
  have dec: "unat (decodeCycle (lcore k')) = unat (decodeCycle (lcore k)) + (unat (decCycle (last (u # us))) - unat (prevDecCycle k))"
    using k'(6) k1(6,7) u(2) last_le by (cases "us = []") auto
  have "run_all (cm_uop pt) k (u # us) = Some k'" using k1(1) k'(1) by simp
  moreover have "sb_after n (flow cm_lat (u # us) f) (lcore k')" using k'(4) flow_append [of cm_lat "[u]" us f] by simp
  ultimately show ?case unfolding eq
    using k'(2,3,5,8,9) k1(5) same_block_trans [OF k1(8) k'(7)] idx dec by (intro exI [of _ k']) simp
qed

end

section \<open>A block\<close>

context core_port
begin

lemma cm_fetch_run:
  assumes "ok B w"
  shows "\<exists>w'. run_all (\<lambda>s a. cm_fetch pt cur a s) (w, fc) as = Some (w', fc + 3 * of_nat (length as)) \<and> ok B w'"
  using assms
proof (induction "as" arbitrary: w fc)
  case Nil
  then show ?case by simp
next
  case (Cons a xs)
  obtain w1 where w1: "recRecord pt w cur cur (cur + L1I_LAT) = Some w1" "ok B w1" using recording [OF Cons.prems] by blast
  from Cons.IH [OF w1(2), of "fc + L1I_LAT"] show ?case using w1(1) by (auto simp: cm_fetch_def stage_defs algebra_simps)
qed

lemma cm_bbl_ok:
  assumes c: "cm_ok n B c" "ok B w" and pb: "prevBbl c = Some pb" and blk: "block_ok n (uop (oooBbl pb))"
    and cov: "addrs_cover good (uop (oooBbl pb)) 0 0 c"
    and cnt: "unat (loads c) = ops_of UOP_LOAD (uop (oooBbl pb))" "unat (stores c) = ops_of UOP_STORE (uop (oooBbl pb))"
      "instrs c + ucast (binstrs pb) = total_pcount g"
    and lb: "lineBits < 32" "unat addr + unat (bbytes info) + 2 ^ lineBits \<le> 2 ^ 64"
    and B: "B + length (uop (oooBbl pb)) * (2 ^ 18 + L) + 2 ^ 35 < 2 ^ 60" and sb: "sb_after n f c"
  shows "\<exists>c' w'. cm_bbl pt lineBits addr info c w g = Some (c', w', endInterval g)
    \<and> cm_ok n (B + length (uop (oooBbl pb)) * (2 ^ 18 + L) + 2 ^ 35) c' \<and> ok (B + length (uop (oooBbl pb)) * (2 ^ 18 + L) + 2 ^ 35) w'
    \<and> loads c' = 0 \<and> stores c' = 0 \<and> instrs c' = total_pcount g \<and> prevBbl c' = Some info \<and> phaseEndCycle c' = phaseEndCycle c
    \<and> length (loadAddrs c') = length (loadAddrs c) \<and> length (storeAddrs c') = length (storeAddrs c)
    \<and> unat (curCycle c) + 6 * length (uop (oooBbl pb)) \<le> unat (curCycle c')
    \<and> sb_after n (flow cm_lat (uop (oooBbl pb)) f) c'
    \<and> unat (decodeCycle c') = unat (decodeCycle c) + (if uop (oooBbl pb) = [] then 0 else unat (decCycle (last (uop (oooBbl pb)))))
        + max 1 (3 * fetch_count (ucast (lineSize lineBits)) (addr + ucast (bbytes info)) addr)"
proof -
  let ?us = "uop (oooBbl pb)" and ?B = "B + length (uop (oooBbl pb)) * (2 ^ 18 + L)"
  let ?k0 = "\<lparr>lcore = c\<lparr>prevBbl := Some info\<rparr>, lworld = w, loadIdx = 0, storeIdx = 0, prevDecCycle = 0\<rparr>"
  have k0: "cm_ok n B (lcore ?k0)" "ok B (lworld ?k0)" "addrs_cover good ?us (unat (loadIdx ?k0)) (unat (storeIdx ?k0)) (lcore ?k0)"
    "sb_after n f (lcore ?k0)" "?us \<noteq> [] \<longrightarrow> unat (prevDecCycle ?k0) \<le> unat (decCycle (hd ?us))" "?B < 2 ^ 60"
    using c cov sb B by (simp_all add: cm_ok_def core_ok_def addrs_cover_def sb_after_def)
  have blk': "list_all (uop_ok n) ?us" "dec_sorted ?us" using blk by (simp_all add: block_ok_def)
  obtain k where k: "run_all (cm_uop pt) ?k0 ?us = Some k" "cm_ok n ?B (lcore k)" "ok ?B (lworld k)" "sb_after n (flow cm_lat ?us f) (lcore k)"
    "unat (curCycle c) + 6 * length ?us \<le> unat (curCycle (lcore k))"
    "unat (decodeCycle (lcore k)) = unat (decodeCycle c) + (if ?us = [] then 0 else unat (decCycle (last ?us)))"
    "same_block ?k0 k" "unat (loadIdx k) = ops_of UOP_LOAD ?us" "unat (storeIdx k) = ops_of UOP_STORE ?us"
    using cm_uops_ok [OF k0(1,2,6) blk' k0(5,3,4)] by auto
  have same: "loads (lcore k) = loads c" "stores (lcore k) = stores c" "loadAddrs (lcore k) = loadAddrs c" "storeAddrs (lcore k) = storeAddrs c"
    "instrs (lcore k) = instrs c" "prevBbl (lcore k) = Some info" "phaseEndCycle (lcore k) = phaseEndCycle c"
    using k(7) by (simp_all add: same_block_def)
  have idx: "loadIdx k = loads (lcore k)" "storeIdx k = stores (lcore k)" using k(8,9) cnt(1,2) same by (simp_all add: word_unat_eq_iff)
  define ls where "ls = (ucast (lineSize lineBits) :: u64)"
  have ls: "unat ls = 2 ^ lineBits" by (simp add: ls_def unat_lineSize lb(1))
  have "(2 :: nat) ^ lineBits \<le> 2 ^ 31" using lb(1) by (intro power_increasing) simp_all
  then have ls': "0 < unat ls" "unat ls \<le> 2 ^ 31" unfolding ls by simp_all
  define m where "m = fetch_count ls (addr + ucast (bbytes info)) addr"
  have endA: "unat (addr + ucast (bbytes info)) = unat addr + unat (bbytes info)"
  proof (rule unat_addr_bytes)
    have "(0 :: nat) < 2 ^ lineBits" by simp
    then show "unat addr + unat (bbytes info) < 2 ^ 64" using lb(2) by linarith
  qed
  then have "unat (addr + ucast (bbytes info)) + unat ls \<le> 2 ^ 64" using lb(2) ls by simp
  note loop = fetchLoop_eq [OF ls'(1) this]
  have "m \<le> unat (bbytes info) + unat ls" unfolding m_def using fetch_count_le [OF ls'(1), of "addr + ucast (bbytes info)" addr] endA by simp
  moreover have "unat (bbytes info) < 2 ^ 32" by simp
  ultimately have m: "m < 2 ^ 33" using ls'(2) by (simp del: unat_u32_lt)
  define d where "d = decodeCycle (lcore k)"
  have d: "unat d \<le> ?B" using k(2) by (simp add: cm_ok_def core_ok_def d_def)
  obtain w' where w': "run_all (\<lambda>s a. cm_fetch pt (curCycle (lcore k)) a s) (lworld k, d - 3) (fetch_addrs m ls addr) = Some (w', d - 3 + 3 * of_nat m)" "ok ?B w'"
    using cm_fetch_run [OF k(3), of "curCycle (lcore k)" "d - 3" "fetch_addrs m ls addr"] by auto
  have um: "unat (3 * of_nat m :: u64) = 3 * m" using m by (simp add: unat_word_ariths unat_of_nat)
  have ud: "unat (d + 1) = unat d + 1" "unat (d + 3 * of_nat m) = unat d + 3 * m"
    using d B m by (simp_all add: unat_add_u64 um)
  let ?d' = "if d + 3 * of_nat m > d + 1 then d + 3 * of_nat m else d + 1"
  have d': "unat ?d' = unat d + max 1 (3 * m)" using ud by (auto simp: word_less_nat_alt)
  let ?c' = "(lcore k)\<lparr>instrs := instrs (lcore k) + ucast (binstrs pb), loads := 0, stores := 0, decodeCycle := ?d'\<rparr>"
  have run: "cm_bbl pt lineBits addr info c w g = Some (?c', w', endInterval g)"
    unfolding cm_bbl_def pb option.case k(1) Option.bind.bind_lunit Let_def
    using idx same cnt(3) w'(1) by (simp add: ls_def [symmetric] loop m_def [symmetric] d_def [symmetric] stage_defs)
  have okB: "ok (?B + 2 ^ 35) w'" by (rule ok_mono [OF w'(2)]) simp
  have c'ok: "cm_ok n (?B + 2 ^ 35) ?c'" using cm_ok_mono [OF k(2), of "?B + 2 ^ 35"] d' d m by (simp add: cm_ok_def core_ok_def)
  have "sb_after n (flow cm_lat ?us f) ?c'" using k(4) by (simp add: sb_after_def)
  then show ?thesis using run okB c'ok k(5,6) same cnt(3) d'
    unfolding m_def [symmetric] ls_def [symmetric] by (intro exI [of _ ?c'] exI [of _ w']) (simp add: d_def)
qed

end

end
