(* ===== verification/FetchModel.thy ===== *)
theory FetchModel
  imports Tracer Tage
begin

text \<open>
  The fetch model of the tracer (\<open>src/src/MeMo/FetchModel.h\<close>, \<open>src/src/MeMo/FetchModel.cpp\<close>): it drives the branch
  predictor and the L1 instruction cache and takes the execution as ideal.
\<close>

section \<open>State\<close>

record FetchModel = CoreState +
  fm_width :: u32
  fm_fetch_bytes :: u32
  profFetchStalls :: u64
  branchPred :: BranchPredictorTage
  branchPc :: Address
  branchTaken :: bool
  branchTakenNpc :: Address
  branchNotTakenNpc :: Address
  mispredBranches :: u64

text \<open>
  The constructor leaves the direction and the targets of the branch as the memory has them; \<open>t\<close>, \<open>tn\<close> and \<open>nn\<close>
  are that contents.  It may fail, in the constructor of the predictor.
\<close>

definition FetchModel_new :: "ZInfo \<Rightarrow> nat \<Rightarrow> OOOParams \<Rightarrow> bool \<Rightarrow> Address \<Rightarrow> Address \<Rightarrow> FetchModel option" where
  "FetchModel_new zi nregs p t tn nn = do {
     bp \<leftarrow> BranchPredictorTage_new (ucast (tage_num_tables p)) (ucast (tage_index_size p));
     Some \<lparr>phaseEndCycle = ucast (phaseLength zi), curCycle = 0, regScoreboard = replicate nregs 0, prevBbl = None,
      decodeCycle = DECODE_STAGE, instrs = 0, fm_width = width p, fm_fetch_bytes = fetch_bytes_per_cycle p,
      profFetchStalls = 0, branchPred = bp, branchPc = 0, branchTaken = t, branchTakenNpc = tn, branchNotTakenNpc = nn,
      mispredBranches = 0\<rparr>
   }"

definition fm_getPhaseCycles :: "ZInfo \<Rightarrow> FetchModel \<Rightarrow> u64" where
  "fm_getPhaseCycles zi c = curCycle c mod ucast (phaseLength zi)"

definition fm_contextSwitch :: "'w CorePorts \<Rightarrow> int \<Rightarrow> FetchModel \<Rightarrow> 'w \<Rightarrow> FetchModel \<times> 'w" where
  "fm_contextSwitch pt gid c w =
     (if gid = -1 then (c\<lparr>prevBbl := None\<rparr>, l1ContextSwitch pt w) else (c, w))"

definition fm_branch :: "Address \<Rightarrow> bool \<Rightarrow> Address \<Rightarrow> Address \<Rightarrow> FetchModel \<Rightarrow> FetchModel" where
  "fm_branch pc taken takenNpc notTakenNpc c =
     c\<lparr>branchPc := pc, branchTaken := taken, branchTakenNpc := takenNpc, branchNotTakenNpc := notTakenNpc\<rparr>"

section \<open>Simulation of a block\<close>

text \<open>The execution of a uop: the core, \<open>prevDecCycle\<close> and \<open>lastCommitCycle\<close>.\<close>

definition fm_uop :: "FetchModel \<times> u32 \<times> u64 \<Rightarrow> DynUop \<Rightarrow> (FetchModel \<times> u32 \<times> u64) option" where
  "fm_uop s u = (case s of (c, prevDecCycle, _) \<Rightarrow> do {
     let decDiff = ucast (decCycle u) - prevDecCycle;
     let dec = decodeCycle c + ucast decDiff;
     let cur = c_MAX (curCycle c) dec;
     sb \<leftarrow> aset (regScoreboard c) 0 cur;
     c0 \<leftarrow> aget sb (unat (rs0 u));
     c1 \<leftarrow> aget sb (unat (rs1 u));
     let cOps = c_MAX c0 c1;
     let dispatchCycle = c_MAX cOps (c_MAX cur cur + (DISPATCH_STAGE - ISSUE_STAGE));
     let commitCycle = dispatchCycle + ucast (lat u);
     sb1 \<leftarrow> aset sb (unat (rd0 u)) commitCycle;
     sb2 \<leftarrow> aset sb1 (unat (rd1 u)) commitCycle;
     Some (c\<lparr>decodeCycle := dec, curCycle := cur, regScoreboard := sb2\<rparr>, ucast (decCycle u), commitCycle)
   })"

text \<open>
  The wrong-path fetches after a misprediction: at most \<open>n\<close> more, the next being number \<open>i\<close>, until one answers
  after \<open>lastCommitCycle\<close>.  Dividing by a fetch width of 0 is undefined.
\<close>

fun fm_wrongPath :: "'w CorePorts \<Rightarrow> nat \<Rightarrow> u32 \<Rightarrow> u32 \<Rightarrow> u64 \<Rightarrow> u64 \<Rightarrow> Address \<Rightarrow> u32 \<Rightarrow> u64 \<Rightarrow> 'w \<Rightarrow> 'w option" where
  "fm_wrongPath pt 0 ls fetchBytes cur lastCommitCycle wrongPathAddr i reqCy w = Some w"
| "fm_wrongPath pt (Suc n) ls fetchBytes cur lastCommitCycle wrongPathAddr i reqCy w = do {
     (w1, avail) \<leftarrow> l1Load pt w (wrongPathAddr + ucast (ls * i)) cur;
     let fetchLat = avail - cur;
     w2 \<leftarrow> recRecord pt w1 cur cur (cur + fetchLat);
     let respCycle = reqCy + fetchLat;
     if respCycle > lastCommitCycle then Some w2
     else do {
       _ \<leftarrow> require (fetchBytes \<noteq> 0);
       fm_wrongPath pt n ls fetchBytes cur lastCommitCycle wrongPathAddr (i + 1) (respCycle + ucast (ls div fetchBytes)) w2
     }
   }"

text \<open>\<open>5*64/lineSize\<close>, the bound of that loop.\<close>

definition wrongPathLines :: "u32 \<Rightarrow> nat" where
  "wrongPathLines ls = unat ((5 * 64 :: u32) div ls)"

text \<open>
  Branch prediction: the core with the predictor and the count of mispredictions, the world, and the fetch cycle.
  The predictor itself may fail, on a state that is not well formed.
\<close>

definition fm_predict :: "'w CorePorts \<Rightarrow> nat \<Rightarrow> FetchModel \<Rightarrow> 'w \<Rightarrow> u64 \<Rightarrow> u64 \<Rightarrow> (FetchModel \<times> 'w \<times> u64) option" where
  "fm_predict pt lineBits c w lastCommitCycle fetchCycle = do {
     let branchTarget = (if branchTaken c then branchTakenNpc c else branchNotTakenNpc c);
     if branchPc c = 0 then Some (c, w, fetchCycle)
     else do {
       (bp, correct) \<leftarrow> predict (branchPred c) (branchPc c) (branchTaken c) branchTarget;
       let c1 = c\<lparr>branchPred := bp\<rparr>;
       if correct then Some (c1\<lparr>branchPc := 0\<rparr>, w, fetchCycle)
       else do {
         _ \<leftarrow> require (lineSize lineBits \<noteq> 0);
         let wrongPathAddr = (if branchTaken c then branchNotTakenNpc c else branchTakenNpc c);
         w' \<leftarrow> fm_wrongPath pt (wrongPathLines (lineSize lineBits)) (lineSize lineBits) (fm_fetch_bytes c) (curCycle c)
                 lastCommitCycle wrongPathAddr 0 fetchCycle w;
         Some (c1\<lparr>mispredBranches := mispredBranches c + 1, branchPc := 0\<rparr>, w', lastCommitCycle)
       }
     }
   }"

text \<open>One iteration of the instruction fetch.\<close>

definition fm_fetch :: "'w CorePorts \<Rightarrow> u64 \<Rightarrow> u64 \<Rightarrow> 'w \<times> u64 \<Rightarrow> ('w \<times> u64) option" where
  "fm_fetch pt cur fetchAddr s = (case s of (w, fetchCycle) \<Rightarrow> do {
     (w1, avail) \<leftarrow> l1Load pt w fetchAddr cur;
     let fetchLat = avail - cur;
     w2 \<leftarrow> recRecord pt w1 cur cur (cur + fetchLat);
     Some (w2, fetchCycle + fetchLat)
   })"

definition fm_bbl :: "'w CorePorts \<Rightarrow> nat \<Rightarrow> Address \<Rightarrow> BblInfo \<Rightarrow> FetchModel \<Rightarrow> 'w \<Rightarrow> Counters \<Rightarrow> (FetchModel \<times> 'w \<times> Counters) option" where
  "fm_bbl pt lineBits addr info c w g =
     (case prevBbl c of
        None \<Rightarrow> Some (c\<lparr>prevBbl := Some info\<rparr>, w, g)
      | Some pb \<Rightarrow> do {
          (c1, _, lastCommitCycle) \<leftarrow> run_all fm_uop (c\<lparr>prevBbl := Some info\<rparr>, 0, 0) (uop (oooBbl pb));
          let c2 = c1\<lparr>instrs := instrs c1 + ucast (binstrs pb)\<rparr>;
          _ \<leftarrow> require (instrs c2 = total_pcount g);
          let fetchCycle = decodeCycle c2 - (DECODE_STAGE - FETCH_STAGE);
          (c3, w3, fetchCycle1) \<leftarrow> fm_predict pt lineBits c2 w lastCommitCycle fetchCycle;
          (w4, fetchCycle2) \<leftarrow>
            fetchLoop (fm_fetch pt (curCycle c3)) (ucast (min (lineSize lineBits) (fm_fetch_bytes c3)))
              (addr + ucast (bbytes info)) addr (w3, fetchCycle1);
          let dec = decodeCycle c3 + 1;
          let minFetchDecCycle = fetchCycle2 + (DECODE_STAGE - FETCH_STAGE);
          Some ((if minFetchDecCycle > dec
                 then c3\<lparr>profFetchStalls := profFetchStalls c3 + (minFetchDecCycle - dec), decodeCycle := minFetchDecCycle\<rparr>
                 else c3\<lparr>decodeCycle := dec\<rparr>), w4, endInterval g)
        })"

section \<open>Phases\<close>

definition fm_advance :: "u64 \<Rightarrow> FetchModel \<Rightarrow> FetchModel option" where
  "fm_advance targetCycle c = do {
     _ \<leftarrow> require (targetCycle > curCycle c);
     Some (c\<lparr>decodeCycle := decodeCycle c + (targetCycle - curCycle c), curCycle := targetCycle\<rparr>)
   }"

definition fm_join :: "'w CorePorts \<Rightarrow> ZInfo \<Rightarrow> FetchModel \<Rightarrow> 'w \<Rightarrow> (FetchModel \<times> 'w) option" where
  "fm_join pt zi c w = do {
     (w', targetCycle) \<leftarrow> recJoin pt w (curCycle c);
     c' \<leftarrow> (if targetCycle > curCycle c then fm_advance targetCycle c else Some c);
     Some (c'\<lparr>phaseEndCycle := globPhaseCycles zi + ucast (phaseLength zi)\<rparr>, w')
   }"

definition fm_leave :: "'w CorePorts \<Rightarrow> FetchModel \<Rightarrow> 'w \<Rightarrow> (FetchModel \<times> 'w) option" where
  "fm_leave pt c w = do { w' \<leftarrow> recLeave pt w (curCycle c); Some (c, w') }"

definition fm_cSimStart :: "'w CorePorts \<Rightarrow> FetchModel \<Rightarrow> 'w \<Rightarrow> (FetchModel \<times> 'w) option" where
  "fm_cSimStart pt c w = do {
     (w', targetCycle) \<leftarrow> recSimStart pt w (curCycle c);
     _ \<leftarrow> require (targetCycle \<ge> curCycle c);
     c' \<leftarrow> (if targetCycle > curCycle c then fm_advance targetCycle c else Some c);
     Some (c', w')
   }"

definition fm_cSimEnd :: "'w CorePorts \<Rightarrow> FetchModel \<Rightarrow> 'w \<Rightarrow> (FetchModel \<times> 'w) option" where
  "fm_cSimEnd pt c w = do {
     (w', targetCycle) \<leftarrow> recSimEnd pt w (curCycle c);
     _ \<leftarrow> require (targetCycle \<ge> curCycle c);
     c' \<leftarrow> (if targetCycle > curCycle c then fm_advance targetCycle c else Some c);
     Some (c', w')
   }"

definition fm_BblFunc :: "'w CorePorts \<Rightarrow> nat \<Rightarrow> ZInfo \<Rightarrow> (FetchModel \<Rightarrow> 'w \<Rightarrow> (FetchModel \<times> 'w \<times> bool) option) \<Rightarrow>
    Address \<Rightarrow> BblInfo \<Rightarrow> FetchModel \<Rightarrow> 'w \<Rightarrow> Counters \<Rightarrow> (FetchModel \<times> 'w \<times> Counters) option" where
  "fm_BblFunc pt lineBits zi takeBarrier addr info c w g = do {
     (c1, w1, g1) \<leftarrow> fm_bbl pt lineBits addr info c w g;
     (c2, w2) \<leftarrow> phaseLoop (phaseLength zi) takeBarrier c1 w1;
     Some (c2, w2, g1)
   }"

section \<open>The uops of a block\<close>

definition fm_lat :: "DynUop \<Rightarrow> nat" where
  "fm_lat u = unat (lat u)"

definition fm_same :: "FetchModel \<Rightarrow> FetchModel \<Rightarrow> bool" where
  "fm_same c c' = (branchPred c' = branchPred c \<and> branchPc c' = branchPc c \<and> branchTaken c' = branchTaken c
     \<and> branchTakenNpc c' = branchTakenNpc c \<and> branchNotTakenNpc c' = branchNotTakenNpc c \<and> mispredBranches c' = mispredBranches c
     \<and> profFetchStalls c' = profFetchStalls c \<and> instrs c' = instrs c \<and> prevBbl c' = prevBbl c \<and> fm_fetch_bytes c' = fm_fetch_bytes c)"

lemma fm_same_trans: "fm_same c c1 \<Longrightarrow> fm_same c1 c2 \<Longrightarrow> fm_same c c2"
  by (simp add: fm_same_def)

lemma fm_uop_ok:
  assumes ok: "core_ok n B c" and B: "B + 2 ^ 18 < 2 ^ 60" and u: "uop_ok n u" "unat prev \<le> unat (decCycle u)" and sb: "sb_after n f c"
  shows "\<exists>c' cc. fm_uop (c, prev, lc) u = Some (c', ucast (decCycle u), cc) \<and> core_ok n (B + 2 ^ 18) c' \<and> fm_same c c'
    \<and> unat cc \<le> B + 2 ^ 18 \<and> sb_after n (flow fm_lat [u] f) c' \<and> unat (curCycle c) \<le> unat (curCycle c')
    \<and> unat (curCycle c') + 6 + fm_lat u \<le> unat cc \<and> src_ready f (rs0 u) + fm_lat u \<le> unat cc \<and> src_ready f (rs1 u) + fm_lat u \<le> unat cc
    \<and> unat (decodeCycle c') = unat (decodeCycle c) + (unat (decCycle u) - unat prev) \<and> unat (decodeCycle c') \<le> unat (curCycle c')"
proof -
  have c: "length (regScoreboard c) = n" "0 < n" using ok by (simp_all add: core_ok_def)
  have dec: "unat (decodeCycle c) \<le> B" "unat (curCycle c) \<le> B" using ok by (simp_all add: core_ok_def)
  define dc where "dc = decodeCycle c + ucast (ucast (decCycle u) - prev)"
  have udc: "unat dc = unat (decodeCycle c) + (unat (decCycle u) - unat prev)"
    unfolding dc_def by (rule decDiff [OF u(2)]) (use dec B in simp)
  have udc': "unat dc \<le> B + 65535" unfolding udc using dec unat_u16_lt [of "decCycle u"] by simp
  define cur where "cur = max (curCycle c) dc"
  have ucur: "unat cur \<le> B + 65535" "unat (curCycle c) \<le> unat cur" "unat dc \<le> unat cur" unfolding cur_def unat_max using dec udc' by simp_all
  define sb where "sb = (regScoreboard c)[0 := cur]"
  have lsb: "length sb = n" using c by (simp add: sb_def)
  have sbB: "unat (sb ! r) \<le> B + 65535" if "r < n" for r
    using core_ok_sb [OF ok that] ucur that c by (auto simp: sb_def nth_list_update)
  define c0 where "c0 = sb ! unat (rs0 u)"
  define c1 where "c1 = sb ! unat (rs1 u)"
  have cB: "unat c0 \<le> B + 65535" "unat c1 \<le> B + 65535" using u(1) sbB by (simp_all add: uop_ok_def c0_def c1_def)
  have six: "unat (cur + (DISPATCH_STAGE - ISSUE_STAGE)) = unat cur + 6" using ucur B by (simp add: stage_defs unat_add_u64)
  define d where "d = max (max c0 c1) (cur + (DISPATCH_STAGE - ISSUE_STAGE))"
  have d: "unat d \<le> B + 65541" "unat cur + 6 \<le> unat d" "unat c0 \<le> unat d" "unat c1 \<le> unat d"
    unfolding d_def unat_max six using ucur cB by simp_all
  define cc where "cc = d + ucast (lat u)"
  have cc: "unat cc = unat d + fm_lat u" unfolding cc_def fm_lat_def using d(1) B unat_u16_lt [of "lat u"] by (subst unat_add_u64) simp_all
  have ccB: "unat cc \<le> B + 2 ^ 18" unfolding cc using d(1) unat_u16_lt [of "lat u"] by (simp add: fm_lat_def)
  let ?sb = "sb[unat (rd0 u) := cc, unat (rd1 u) := cc]"
  let ?c' = "c\<lparr>decodeCycle := dc, curCycle := cur, regScoreboard := ?sb\<rparr>"
  have run: "fm_uop (c, prev, lc) u = Some (?c', ucast (decCycle u), cc)"
    using c u(1) lsb unfolding uop_ok_def
    by (simp add: fm_uop_def Let_def dc_def [symmetric] cur_def [symmetric] sb_def [symmetric] c0_def [symmetric] c1_def [symmetric]
        d_def [symmetric] cc_def [symmetric])
  have src: "src_ready f (rs0 u) \<le> unat c0" "src_ready f (rs1 u) \<le> unat c1"
    using sb u(1) c(1) by (auto simp: src_ready_def sb_after_def uop_ok_def c0_def c1_def sb_def nth_list_update unat_eq_0)
  have "unat (sb ! i) \<le> B + 2 ^ 18" if "i < length sb" for i using sbB [of i] that lsb by simp
  then have "list_all (\<lambda>x. unat x \<le> B + 2 ^ 18) sb" unfolding list_all_length by blast
  then have "core_ok n (B + 2 ^ 18) ?c'" using c(2) lsb ucur(1) udc' ccB unfolding core_ok_def by (simp add: list_all_update)
  moreover have "sb_after n (flow fm_lat [u] f) ?c'"
  proof (unfold sb_after_def, intro allI impI)
    fix r :: u16
    assume r: "r \<noteq> 0 \<and> unat r < n"
    have val: "regScoreboard ?c' ! unat r = (if r = rd0 u \<or> r = rd1 u then cc else regScoreboard c ! unat r)"
      using r lsb c(1) by (simp add: nth_update_twice word_unat_eq_iff sb_def)
    have "flow fm_lat [u] f r = (if r = rd0 u \<or> r = rd1 u then max (src_ready f (rs0 u)) (src_ready f (rs1 u)) + fm_lat u else f r)"
      by (simp add: Let_def)
    then show "flow fm_lat [u] f r \<le> unat (regScoreboard ?c' ! unat r)"
      unfolding val using src d(3,4) cc r sb by (auto simp: sb_after_def)
  qed
  ultimately show ?thesis using run ccB ucur(2,3) cc d src udc
    by (intro exI [of _ ?c'] exI [of _ cc]) (simp add: fm_same_def)
qed

lemma fm_uops_ok:
  assumes "core_ok n B c" "B + length us * 2 ^ 18 < 2 ^ 60" "list_all (uop_ok n) us" "dec_sorted us"
    "us \<noteq> [] \<longrightarrow> unat prev \<le> unat (decCycle (hd us))" "sb_after n f c" "unat lc \<le> B"
  shows "\<exists>c' prev' cc. run_all fm_uop (c, prev, lc) us = Some (c', prev', cc) \<and> core_ok n (B + length us * 2 ^ 18) c' \<and> fm_same c c'
    \<and> unat cc \<le> B + length us * 2 ^ 18 \<and> sb_after n (flow fm_lat us f) c' \<and> unat (curCycle c) \<le> unat (curCycle c')
    \<and> (us \<noteq> [] \<longrightarrow> unat (curCycle c') + 6 + fm_lat (last us) \<le> unat cc \<and> flow fm_lat us f (rd0 (last us)) \<le> unat cc)
    \<and> (us = [] \<longrightarrow> cc = lc)
    \<and> unat (decodeCycle c') = unat (decodeCycle c) + (if us = [] then 0 else unat (decCycle (last us)) - unat prev)"
  using assms
proof (induction us arbitrary: c prev lc B f)
  case Nil
  then show ?case by (simp add: fm_same_def)
next
  case (Cons u us)
  have B: "B + 2 ^ 18 < 2 ^ 60" using Cons.prems(2) by simp
  have u: "uop_ok n u" "unat prev \<le> unat (decCycle u)" using Cons.prems(3,5) by simp_all
  obtain c1 cc1 where c1: "fm_uop (c, prev, lc) u = Some (c1, ucast (decCycle u), cc1)" "core_ok n (B + 2 ^ 18) c1" "fm_same c c1"
    "unat cc1 \<le> B + 2 ^ 18" "sb_after n (flow fm_lat [u] f) c1" "unat (curCycle c) \<le> unat (curCycle c1)"
    "unat (curCycle c1) + 6 + fm_lat u \<le> unat cc1" "src_ready f (rs0 u) + fm_lat u \<le> unat cc1" "src_ready f (rs1 u) + fm_lat u \<le> unat cc1"
    "unat (decodeCycle c1) = unat (decodeCycle c) + (unat (decCycle u) - unat prev)"
    using fm_uop_ok [OF Cons.prems(1) B u Cons.prems(6)] by blast
  have B1: "(B + 2 ^ 18) + length us * 2 ^ 18 < 2 ^ 60" using Cons.prems(2) by simp
  have srt: "dec_sorted us" "us \<noteq> [] \<longrightarrow> unat (ucast (decCycle u) :: u32) \<le> unat (decCycle (hd us))"
    using Cons.prems(4) by (cases us; simp add: dec_sorted_def)+
  have all: "list_all (uop_ok n) us" using Cons.prems(3) by simp
  obtain c' prev' cc where r: "run_all fm_uop (c1, ucast (decCycle u), cc1) us = Some (c', prev', cc)"
    "core_ok n ((B + 2 ^ 18) + length us * 2 ^ 18) c'" "fm_same c1 c'" "unat cc \<le> (B + 2 ^ 18) + length us * 2 ^ 18"
    "sb_after n (flow fm_lat us (flow fm_lat [u] f)) c'" "unat (curCycle c1) \<le> unat (curCycle c')"
    "us \<noteq> [] \<longrightarrow> unat (curCycle c') + 6 + fm_lat (last us) \<le> unat cc \<and> flow fm_lat us (flow fm_lat [u] f) (rd0 (last us)) \<le> unat cc"
    "us = [] \<longrightarrow> cc = cc1"
    "unat (decodeCycle c') = unat (decodeCycle c1) + (if us = [] then 0 else unat (decCycle (last us)) - unat (ucast (decCycle u) :: u32))"
    using Cons.IH [OF c1(2) B1 all srt c1(5,4)] by blast
  have run: "run_all fm_uop (c, prev, lc) (u # us) = Some (c', prev', cc)" using c1(1) r(1) by simp
  have fl: "flow fm_lat (u # us) f = flow fm_lat us (flow fm_lat [u] f)" by (simp add: Let_def)
  have eq: "B + length (u # us) * 2 ^ 18 = (B + 2 ^ 18) + length us * 2 ^ 18" by simp
  have last_le: "us \<noteq> [] \<Longrightarrow> unat (decCycle u) \<le> unat (decCycle (last us))" using Cons.prems(4) by (auto simp: dec_sorted_def)
  have dec: "unat (decodeCycle c') = unat (decodeCycle c) + (unat (decCycle (last (u # us))) - unat prev)"
    using r(9) c1(10) u(2) last_le by (cases "us = []") auto
  have lst: "unat (curCycle c') + 6 + fm_lat (last (u # us)) \<le> unat cc \<and> flow fm_lat (u # us) f (rd0 (last (u # us))) \<le> unat cc"
  proof (cases "us = []")
    case True
    then have "c' = c1" "cc = cc1" using r(1,8) by simp_all
    then show ?thesis using c1(7-9) True by (simp add: Let_def)
  next
    case False
    then show ?thesis using r(7) unfolding fl by simp
  qed
  show ?case unfolding eq fl
    using run r(2,4,5,6) c1(6) fm_same_trans [OF c1(3) r(3)] dec lst fl by (intro exI [of _ c'] exI [of _ prev'] exI [of _ cc]) simp
qed

section \<open>Prediction and fetch\<close>

text \<open>The predictor is asked, and answers wrongly.\<close>

definition mispredicted :: "FetchModel \<Rightarrow> bool" where
  "mispredicted c = (branchPc c \<noteq> 0 \<and>
     (case predict (branchPred c) (branchPc c) (branchTaken c) (if branchTaken c then branchTakenNpc c else branchNotTakenNpc c) of
        Some (_, correct) \<Rightarrow> \<not> correct | None \<Rightarrow> False))"

definition wrong_addr :: "FetchModel \<Rightarrow> Address" where
  "wrong_addr c = (if branchTaken c then branchNotTakenNpc c else branchTakenNpc c)"

lemma wrongPathLines_le: "wrongPathLines ls \<le> 320"
proof -
  have "unat ((5 * 64 :: u32) div ls) \<le> unat (5 * 64 :: u32)" by (simp add: unat_div div_le_dividend)
  then show ?thesis by (simp add: wrongPathLines_def)
qed

context core_port
begin

lemma fm_wrongPath_ok:
  assumes "fb \<noteq> 0" "\<forall>j < n. good (a + ucast (ls * (i + of_nat j)))" "ok B w" "unat cur \<le> B" "B + n * L < 2 ^ 60"
  shows "\<exists>w'. fm_wrongPath pt n ls fb cur lc a i rq w = Some w' \<and> ok (B + n * L) w'"
  using assms(2-5)
proof (induction n arbitrary: i rq w B)
  case 0
  then show ?case by simp
next
  case (Suc n)
  have g: "good (a + ucast (ls * i))" using Suc.prems(1) [rule_format, of 0] by simp
  have "B < 2 ^ 60" using Suc.prems(4) by simp
  from l1_load [OF Suc.prems(2) g Suc.prems(3) this] obtain w1 r where
    l: "l1Load pt w (a + ucast (ls * i)) cur = Some (w1, r)" "ok (B + L) w1" by blast
  obtain w2 where w2: "recRecord pt w1 cur cur (cur + (r - cur)) = Some w2" "ok (B + L) w2" using recording [OF l(2)] by blast
  have "\<forall>j < n. good (a + ucast (ls * (i + 1 + of_nat j)))"
    using Suc.prems(1) by (metis Suc_less_eq add.assoc of_nat_Suc)
  moreover have "unat cur \<le> B + L" "(B + L) + n * L < 2 ^ 60" using Suc.prems(3,4) by (simp_all add: algebra_simps)
  ultimately obtain w' where w': "fm_wrongPath pt n ls fb cur lc a (i + 1) (rq + (r - cur) + ucast (ls div fb)) w2 = Some w'" "ok (B + L + n * L) w'"
    using Suc.IH [OF _ w2(2)] by blast
  have eq: "B + Suc n * L = B + L + n * L" by simp
  have "ok (B + Suc n * L) w2" by (rule ok_mono [OF w2(2)]) simp
  then show ?case using assms(1) l(1) w2(1) w' unfolding eq by (simp add: Let_def)
qed

lemma fm_predict_ok:
  assumes wf: "tage_wf (branchPred c)" and w: "ok B w" "unat (curCycle c) \<le> B" and B: "B + 320 * L < 2 ^ 60"
    and ls: "lineSize lb \<noteq> 0" "fm_fetch_bytes c \<noteq> 0"
    and g: "mispredicted c \<longrightarrow> (\<forall>j < wrongPathLines (lineSize lb). good (wrong_addr c + ucast (lineSize lb * of_nat j)))"
  shows "\<exists>bp w'. fm_predict pt lb c w lc fcy = Some (c\<lparr>branchPred := bp, branchPc := 0, mispredBranches := mispredBranches c + of_bool (mispredicted c)\<rparr>,
        w', if mispredicted c then lc else fcy) \<and> ok (B + 320 * L) w' \<and> tage_wf bp"
proof -
  let ?tgt = "if branchTaken c then branchTakenNpc c else branchNotTakenNpc c"
  have w320: "ok (B + 320 * L) w" by (rule ok_mono [OF w(1)]) simp
  show ?thesis
  proof (cases "branchPc c = 0")
    case True
    have "c\<lparr>branchPred := branchPred c, branchPc := 0, mispredBranches := mispredBranches c + of_bool (mispredicted c)\<rparr> = c"
      using True by (simp add: mispredicted_def)
    then show ?thesis using True w320 wf by (intro exI [of _ "branchPred c"] exI [of _ w]) (simp add: fm_predict_def mispredicted_def)
  next
    case False
    obtain bp r where p: "predict (branchPred c) (branchPc c) (branchTaken c) ?tgt = Some (bp, r)" "tage_wf bp"
      using tage_predict_total [OF wf] by blast
    show ?thesis
    proof (cases r)
      case True
      then show ?thesis using False p w320 by (intro exI [of _ bp] exI [of _ w]) (simp add: fm_predict_def mispredicted_def)
    next
      case False
      then have m: "mispredicted c" using \<open>branchPc c \<noteq> 0\<close> p by (simp add: mispredicted_def)
      let ?n = "wrongPathLines (lineSize lb)"
      have n: "?n \<le> 320" by (rule wrongPathLines_le)
      then have nL: "?n * L \<le> 320 * L" by simp
      have "B + ?n * L < 2 ^ 60" using B nL by linarith
      moreover have "\<forall>j < ?n. good (wrong_addr c + ucast (lineSize lb * (0 + of_nat j)))" using g m by simp
      ultimately obtain w' where w': "fm_wrongPath pt ?n (lineSize lb) (fm_fetch_bytes c) (curCycle c) lc (wrong_addr c) 0 fcy w = Some w'"
          "ok (B + ?n * L) w'"
        using fm_wrongPath_ok [OF ls(2) _ w] by blast
      have "ok (B + 320 * L) w'" by (rule ok_mono [OF w'(2)]) (use nL in simp)
      then show ?thesis using False p w'(1) ls(1) m \<open>branchPc c \<noteq> 0\<close>
        by (intro exI [of _ bp] exI [of _ w']) (simp add: fm_predict_def Let_def wrong_addr_def)
    qed
  qed
qed

lemma fm_fetch_run:
  assumes "ok B w" "list_all good as" "unat cur \<le> B" "B + length as * L \<le> A" "unat fcy + length as * A < 2 ^ 60" "A < 2 ^ 60"
  shows "\<exists>w' fcy'. run_all (\<lambda>s a. fm_fetch pt cur a s) (w, fcy) as = Some (w', fcy') \<and> ok (B + length as * L) w'
    \<and> unat fcy \<le> unat fcy' \<and> unat fcy' \<le> unat fcy + length as * A"
  using assms
proof (induction "as" arbitrary: w fcy B)
  case Nil
  then show ?case by simp
next
  case (Cons a xs)
  have g: "good a" "list_all good xs" using Cons.prems(2) by simp_all
  have "B < 2 ^ 60" using Cons.prems(4,6) by simp
  from l1_load [OF Cons.prems(1) g(1) Cons.prems(3) this] obtain w1 r where
    l: "l1Load pt w a cur = Some (w1, r)" "ok (B + L) w1" "unat cur \<le> unat r" "unat r \<le> B + L" by blast
  obtain w2 where w2: "recRecord pt w1 cur cur (cur + (r - cur)) = Some w2" "ok (B + L) w2" using recording [OF l(2)] by blast
  have "cur \<le> r" using l(3) by (simp add: word_le_nat_alt)
  then have lat: "unat (r - cur) = unat r - unat cur" by (rule unat_sub)
  have rA: "unat r \<le> A" using l(4) Cons.prems(4) by simp
  have "unat fcy + unat (r - cur) < 2 ^ 64" using lat rA Cons.prems(5) by simp
  then have f1: "unat (fcy + (r - cur)) = unat fcy + (unat r - unat cur)" by (subst unat_add_u64) (simp_all add: lat)
  have f1A: "unat (fcy + (r - cur)) \<le> unat fcy + A" unfolding f1 using rA by simp
  have "unat cur \<le> B + L" "(B + L) + length xs * L \<le> A" "unat (fcy + (r - cur)) + length xs * A < 2 ^ 60"
    using Cons.prems(3,4,5) f1A by simp_all
  from Cons.IH [OF w2(2) g(2) this Cons.prems(6)] obtain w' fcy' where
    r': "run_all (\<lambda>s a. fm_fetch pt cur a s) (w2, fcy + (r - cur)) xs = Some (w', fcy')" "ok (B + L + length xs * L) w'"
      "unat (fcy + (r - cur)) \<le> unat fcy'" "unat fcy' \<le> unat (fcy + (r - cur)) + length xs * A" by blast
  have "fm_fetch pt cur a (w, fcy) = Some (w2, fcy + (r - cur))" using l(1) w2(1) by (simp add: fm_fetch_def)
  then show ?case using r' f1 f1A by (simp add: add.assoc)
qed

end

section \<open>A block\<close>

text \<open>The stride of the fetch and the number of fetches of a block.\<close>

definition fm_step :: "nat \<Rightarrow> FetchModel \<Rightarrow> u64" where
  "fm_step lb c = ucast (min (lineSize lb) (fm_fetch_bytes c))"

definition fm_fetches :: "nat \<Rightarrow> FetchModel \<Rightarrow> Address \<Rightarrow> BblInfo \<Rightarrow> nat" where
  "fm_fetches lb c addr info = fetch_count (fm_step lb c) (addr + ucast (bbytes info)) addr"

text \<open>A bound on the clocks after a block of \<open>n\<close> uops and \<open>k\<close> fetches.\<close>

definition fm_bound :: "nat \<Rightarrow> nat \<Rightarrow> nat \<Rightarrow> nat \<Rightarrow> nat" where
  "fm_bound L B n k = (k + 2) * (B + n * 2 ^ 18 + (320 + k) * L) + 8"

text \<open>The addresses the model fetches in a block.\<close>

definition fm_addrs_ok :: "(Address \<Rightarrow> bool) \<Rightarrow> nat \<Rightarrow> FetchModel \<Rightarrow> Address \<Rightarrow> BblInfo \<Rightarrow> bool" where
  "fm_addrs_ok good lb c addr info =
     (list_all good (fetch_addrs (fm_fetches lb c addr info) (fm_step lb c) addr)
      \<and> (mispredicted c \<longrightarrow> (\<forall>j < wrongPathLines (lineSize lb). good (wrong_addr c + ucast (lineSize lb * of_nat j)))))"

context core_port
begin

lemma fm_bbl_ok:
  assumes c: "core_ok n B c" "tage_wf (branchPred c)" "ok B w" "4 \<le> decodeCycle c" and pb: "prevBbl c = Some pb"
    and blk: "block_ok n (uop (oooBbl pb))" and cnt: "instrs c + ucast (binstrs pb) = total_pcount g"
    and lb: "lb < 32" "fm_fetch_bytes c \<noteq> 0" "unat addr + unat (bbytes info) + 2 ^ 32 \<le> 2 ^ 64"
    and g: "fm_addrs_ok good lb c addr info"
    and B: "fm_bound L B (length (uop (oooBbl pb))) (fm_fetches lb c addr info) < 2 ^ 60" and sb: "sb_after n f c"
  shows "\<exists>c' w'. fm_bbl pt lb addr info c w g = Some (c', w', endInterval g)
    \<and> core_ok n (fm_bound L B (length (uop (oooBbl pb))) (fm_fetches lb c addr info)) c'
    \<and> ok (fm_bound L B (length (uop (oooBbl pb))) (fm_fetches lb c addr info)) w' \<and> tage_wf (branchPred c')
    \<and> branchPc c' = 0 \<and> instrs c' = total_pcount g \<and> prevBbl c' = Some info \<and> 4 \<le> decodeCycle c'
    \<and> mispredBranches c' = mispredBranches c + of_bool (mispredicted c)
    \<and> unat (decodeCycle c') = unat (decodeCycle c) + (if uop (oooBbl pb) = [] then 0 else unat (decCycle (last (uop (oooBbl pb)))))
        + 1 + unat (profFetchStalls c' - profFetchStalls c)
    \<and> (mispredicted c \<and> uop (oooBbl pb) \<noteq> [] \<longrightarrow>
         flow fm_lat (uop (oooBbl pb)) f (rd0 (last (uop (oooBbl pb)))) + 3 \<le> unat (decodeCycle c')
       \<and> unat (curCycle c') + 6 + fm_lat (last (uop (oooBbl pb))) + 3 \<le> unat (decodeCycle c'))
    \<and> sb_after n (flow fm_lat (uop (oooBbl pb)) f) c' \<and> fm_fetch_bytes c' = fm_fetch_bytes c"
proof -
  let ?us = "uop (oooBbl pb)" and ?k = "fm_fetches lb c addr info"
  define Bu where "Bu = B + length ?us * 2 ^ 18"
  define A where "A = Bu + (320 + ?k) * L"
  have bnd: "fm_bound L B (length ?us) ?k = (?k + 2) * A + 8" by (simp add: fm_bound_def A_def Bu_def)
  have A60: "?k * A + 2 * A + 8 < 2 ^ 60" using B unfolding bnd by (simp add: algebra_simps)
  have BuA: "Bu \<le> A" "B \<le> Bu" "Bu + 320 * L \<le> A" "Bu + 320 * L + ?k * L = A" by (simp_all add: A_def Bu_def algebra_simps)
  let ?c = "c\<lparr>prevBbl := Some info\<rparr>"
  have c0: "core_ok n B ?c" "sb_after n f ?c" using c(1) sb by (simp_all add: core_ok_def sb_after_def)
  have blk': "list_all (uop_ok n) ?us" "dec_sorted ?us" using blk by (simp_all add: block_ok_def)
  have Bu60: "B + length ?us * 2 ^ 18 < 2 ^ 60" using A60 BuA(1) by (simp add: Bu_def)
  have z: "?us \<noteq> [] \<longrightarrow> unat (0 :: u32) \<le> unat (decCycle (hd ?us))" "unat (0 :: u64) \<le> B" by simp_all
  obtain c1 pv cc where u: "run_all fm_uop (?c, 0, 0) ?us = Some (c1, pv, cc)" "core_ok n Bu c1" "fm_same ?c c1" "unat cc \<le> Bu"
    "sb_after n (flow fm_lat ?us f) c1"
    "?us \<noteq> [] \<longrightarrow> unat (curCycle c1) + 6 + fm_lat (last ?us) \<le> unat cc \<and> flow fm_lat ?us f (rd0 (last ?us)) \<le> unat cc"
    "unat (decodeCycle c1) = unat (decodeCycle c) + (if ?us = [] then 0 else unat (decCycle (last ?us)))"
    using fm_uops_ok [OF c0(1) Bu60 blk' z(1) c0(2) z(2)] unfolding Bu_def by auto
  have same: "fm_fetch_bytes c1 = fm_fetch_bytes c" "branchPred c1 = branchPred c"
     "mispredBranches c1 = mispredBranches c" "profFetchStalls c1 = profFetchStalls c" "instrs c1 = instrs c" "prevBbl c1 = Some info"
    using u(3) by (simp_all add: fm_same_def)
  let ?c2 = "c1\<lparr>instrs := instrs c1 + ucast (binstrs pb)\<rparr>" and ?d = "decodeCycle c1"
  have mp2: "mispredicted ?c2 = mispredicted c" "wrong_addr ?c2 = wrong_addr c" using u(3) by (simp_all add: fm_same_def mispredicted_def wrong_addr_def)
  have d: "unat ?d \<le> Bu" "4 \<le> unat ?d" "unat (curCycle c1) \<le> Bu" using u(2,7) c(4) by (simp_all add: core_ok_def word_le_nat_alt)
  have wBu: "ok Bu w" by (rule ok_mono [OF c(3) BuA(2)])
  have ls: "lineSize lb \<noteq> 0" using unat_lineSize [OF lb(1)] by (metis power_not_zero unat_0 zero_neq_numeral)
  have B320: "Bu + 320 * L < 2 ^ 60" using A60 BuA(3) by simp
  have wr: "mispredicted ?c2 \<longrightarrow> (\<forall>j < wrongPathLines (lineSize lb). good (wrong_addr ?c2 + ucast (lineSize lb * of_nat j)))"
    using g unfolding mp2 by (simp add: fm_addrs_ok_def)
  let ?m = "mispredicted c" and ?f0 = "?d - 3"
  obtain bp w1 where p: "fm_predict pt lb ?c2 w cc ?f0 = Some (?c2\<lparr>branchPred := bp, branchPc := 0, mispredBranches := mispredBranches c + of_bool ?m\<rparr>,
      w1, if ?m then cc else ?f0)" "ok (Bu + 320 * L) w1" "tage_wf bp"
    using fm_predict_ok [OF _ wBu _ B320 ls, of ?c2 cc ?f0] c(2) d(3) same lb(2) wr unfolding mp2 by auto
  let ?c3 = "?c2\<lparr>branchPred := bp, branchPc := 0, mispredBranches := mispredBranches c + of_bool ?m\<rparr>"
  define fc1 where "fc1 = (if ?m then cc else ?f0)"
  have uf0: "unat ?f0 = unat ?d - 3" using d(2) by (subst unat_sub) (simp_all add: word_le_nat_alt)
  have fc1: "unat fc1 \<le> Bu" unfolding fc1_def using u(4) d(1) uf0 by (cases ?m) simp_all
  define st where "st = fm_step lb c"
  have lsz: "unat (lineSize lb) = 2 ^ lb" by (rule unat_lineSize [OF lb(1)])
  have st0: "unat st = min (2 ^ lb) (unat (fm_fetch_bytes c))" by (simp add: st_def fm_step_def min_def word_le_nat_alt lsz)
  then have st: "0 < unat st" using lb(2) by (simp add: unat_gt_0)
  have "unat st < 2 ^ 32" unfolding st_def fm_step_def by simp
  moreover have endA: "unat (addr + ucast (bbytes info)) = unat addr + unat (bbytes info)" by (rule unat_addr_bytes) (use lb(3) in simp)
  ultimately have "unat (addr + ucast (bbytes info)) + unat st \<le> 2 ^ 64" using lb(3) by linarith
  note loop = fetchLoop_eq [OF st this]
  let ?as = "fetch_addrs ?k st addr"
  have gas: "list_all good ?as" using g by (simp add: fm_addrs_ok_def st_def)
  have "unat (curCycle c1) \<le> Bu + 320 * L" "Bu + 320 * L + length ?as * L \<le> A" "unat fc1 + length ?as * A < 2 ^ 60" "A < 2 ^ 60"
    using d(3) BuA(1,4) fc1 A60 by simp_all
  from fm_fetch_run [OF p(2) gas this] obtain w2 fc2 where
    r: "run_all (\<lambda>s a. fm_fetch pt (curCycle c1) a s) (w1, fc1) ?as = Some (w2, fc2)" "ok A w2" "unat fc1 \<le> unat fc2"
       "unat fc2 \<le> unat fc1 + ?k * A" using BuA(4) by auto
  have uf: "unat (fc2 + 3) = unat fc2 + 3" "unat (?d + 1) = unat ?d + 1"
    using r(4) fc1 d(1) A60 BuA(1) by (simp_all add: unat_add_u64)
  let ?c4 = "if fc2 + 3 > ?d + 1 then ?c3\<lparr>profFetchStalls := profFetchStalls c + (fc2 + 3 - (?d + 1)), decodeCycle := fc2 + 3\<rparr>
             else ?c3\<lparr>decodeCycle := ?d + 1\<rparr>"
  have fetch: "fetchLoop (fm_fetch pt (curCycle c1)) (ucast (min (lineSize lb) (fm_fetch_bytes c)))
      (addr + ucast (bbytes info)) addr (w1, fc1) = Some (w2, fc2)"
    using r(1) unfolding loop [unfolded st_def fm_step_def] by (simp only: fm_fetches_def st_def fm_step_def)
  define c4 where "c4 = ?c4"
  have run: "fm_bbl pt lb addr info c w g = Some (c4, w2, endInterval g)"
    unfolding fm_bbl_def pb option.case u(1) Option.bind.bind_lunit Let_def prod.case
    using p(1) cnt same(1,4,5) fetch by (simp add: stage_defs fc1_def [symmetric] c4_def)
  have dc: "unat (decodeCycle c4) = max (unat fc2 + 3) (unat ?d + 1)" using uf by (simp add: word_less_nat_alt c4_def)
  have stl: "unat (profFetchStalls c4 - profFetchStalls c) = unat (decodeCycle c4) - (unat ?d + 1)"
  proof (cases "fc2 + 3 > ?d + 1")
    case True
    then have "unat (fc2 + 3 - (?d + 1)) = unat (fc2 + 3) - unat (?d + 1)" by (intro unat_sub) simp
    then show ?thesis using True uf by (simp add: c4_def)
  next
    case False
    then show ?thesis using uf same(4) by (simp add: c4_def)
  qed
  have top: "unat (decodeCycle c4) \<le> (?k + 2) * A + 8" unfolding dc using r(4) fc1 BuA(1) d(1) by (simp add: algebra_simps)
  have AA: "A \<le> (?k + 2) * A + 8" by (simp add: algebra_simps)
  have fields: "regScoreboard c4 = regScoreboard c1" "curCycle c4 = curCycle c1" "branchPred c4 = bp" "branchPc c4 = 0"
    "instrs c4 = total_pcount g" "prevBbl c4 = Some info" "mispredBranches c4 = mispredBranches c + of_bool ?m" "fm_fetch_bytes c4 = fm_fetch_bytes c"
    using same cnt by (simp_all add: c4_def)
  have "core_ok n ((?k + 2) * A + 8) c1" by (rule core_ok_mono [OF u(2)]) (use BuA(1) AA in linarith)
  then have cok: "core_ok n ((?k + 2) * A + 8) c4" using top unfolding core_ok_def fields by blast
  have wok: "ok ((?k + 2) * A + 8) w2" by (rule ok_mono [OF r(2) AA])
  have sbf: "sb_after n (flow fm_lat ?us f) c4" using u(5) unfolding sb_after_def fields .
  have mis: "flow fm_lat ?us f (rd0 (last ?us)) + 3 \<le> unat (decodeCycle c4) \<and> unat (curCycle c1) + 6 + fm_lat (last ?us) + 3 \<le> unat (decodeCycle c4)"
    if "?m" "?us \<noteq> []"
  proof -
    have "unat cc \<le> unat fc2" using r(3) that(1) by (simp add: fc1_def)
    moreover have "unat (curCycle c1) + 6 + fm_lat (last ?us) \<le> unat cc" "flow fm_lat ?us f (rd0 (last ?us)) \<le> unat cc" using u(6) that(2) by simp_all
    moreover have "unat fc2 + 3 \<le> unat (decodeCycle c4)" unfolding dc by simp
    ultimately show ?thesis by linarith
  qed
  have "unat (decodeCycle c4) = unat (decodeCycle c) + (if ?us = [] then 0 else unat (decCycle (last ?us))) + 1 + unat (profFetchStalls c4 - profFetchStalls c)"
    unfolding stl u(7) [symmetric] using dc by simp
  moreover have "4 \<le> decodeCycle c4" using dc d(2) by (simp add: word_le_nat_alt)
  ultimately show ?thesis unfolding bnd
    using run cok wok p(3) fields(3-8) sbf mis unfolding fields(2) [symmetric] by (intro exI [of _ c4] exI [of _ w2]) simp
qed

end

end
