(* ===== verification/IssueModel.thy ===== *)
theory IssueModel
  imports Tracer
begin

text \<open>
  The issue model of the tracer (\<open>src/src/MeMo/IssueModel.h\<close>, \<open>src/src/MeMo/IssueModel.cpp\<close>): issue width, register
  file ports, the instruction window, the reorder buffer and the load, store and uop queues of
  \<open>src/src/legos.h\<close>, over an ideal memory.
\<close>

section \<open>State\<close>

record FwdEntry =
  fwdAddr :: Address
  storeCycle :: u64

definition FwdEntry_set :: "Address \<Rightarrow> u64 \<Rightarrow> FwdEntry" where
  "FwdEntry_set a c = \<lparr>fwdAddr = a, storeCycle = c\<rparr>"

definition FWD_ENTRIES :: nat where "FWD_ENTRIES = 32"

record IssueModel = CoreState +
  im_width :: u32
  im_prf_ports :: u32
  profIssueStalls :: u64
  im_loadAddrs :: "Address list"
  im_storeAddrs :: "Address list"
  im_lastStoreCommitCycle :: u64
  im_lastStoreAddrCommitCycle :: u64
  loadQueue :: ReorderBuffer
  storeQueue :: ReorderBuffer
  curCycleRFReads :: u32
  curCycleIssuedUops :: u32
  insWindow :: WindowStructure
  rob :: ReorderBuffer
  uopQueue :: CycleQueue
  fwdArray :: "FwdEntry list"

text \<open>
  The constructor leaves the address arrays, the commit cycles of the last store and the forwarding array
  as the memory has them; the record \<open>raw\<close> is that contents.
\<close>

record RawMemory =
  raw_loadAddrs :: "Address list"
  raw_storeAddrs :: "Address list"
  raw_lastStore :: u64
  raw_lastStoreAddr :: u64
  raw_fwd :: "FwdEntry list"
  raw_lastPort :: u8

definition IssueModel_new :: "ZInfo \<Rightarrow> nat \<Rightarrow> OOOParams \<Rightarrow> RawMemory \<Rightarrow> IssueModel" where
  "IssueModel_new zi nregs p raw =
     \<lparr>phaseEndCycle = ucast (phaseLength zi), curCycle = 0, regScoreboard = replicate nregs 0, prevBbl = None,
      decodeCycle = DECODE_STAGE, instrs = 0, im_width = width p, im_prf_ports = prf_ports p, profIssueStalls = 0,
      im_loadAddrs = raw_loadAddrs raw, im_storeAddrs = raw_storeAddrs raw,
      im_lastStoreCommitCycle = raw_lastStore raw, im_lastStoreAddrCommitCycle = raw_lastStoreAddr raw,
      loadQueue = ReorderBuffer_new (load_queue_cap p) (width p), storeQueue = ReorderBuffer_new (store_queue_cap p) (width p),
      curCycleRFReads = 0, curCycleIssuedUops = 0, insWindow = WindowStructure_new 8192 (ins_win_cap p) (raw_lastPort raw),
      rob = ReorderBuffer_new (rob_cap p) (width p), uopQueue = CycleQueue_new (issue_queue_cap p), fwdArray = raw_fwd raw\<rparr>"

definition im_getPhaseCycles :: "ZInfo \<Rightarrow> IssueModel \<Rightarrow> u64" where
  "im_getPhaseCycles zi c = curCycle c mod ucast (phaseLength zi)"

definition im_contextSwitch :: "int \<Rightarrow> IssueModel \<Rightarrow> IssueModel" where
  "im_contextSwitch gid c = (if gid = -1 then c\<lparr>prevBbl := None\<rparr> else c)"

section \<open>A uop\<close>

text \<open>\<open>insWindow->advancePos(curCycle)\<close>, once and several times.\<close>

definition im_advancePos :: "IssueModel \<Rightarrow> IssueModel option" where
  "im_advancePos c = do {
     (w, cur) \<leftarrow> advancePos (insWindow c) (curCycle c);
     Some (c\<lparr>insWindow := w, curCycle := cur\<rparr>)
   }"

fun im_advances :: "nat \<Rightarrow> IssueModel \<Rightarrow> IssueModel option" where
  "im_advances 0 c = Some c"
| "im_advances (Suc n) c = Option.bind (im_advancePos c) (im_advances n)"

text \<open>Decode and the uop queue.\<close>

definition im_decode :: "DynUop \<Rightarrow> u32 \<Rightarrow> IssueModel \<Rightarrow> IssueModel option" where
  "im_decode u prevDecCycle c = do {
     let decDiff = ucast (decCycle u) - prevDecCycle;
     q \<leftarrow> queue_minAllocCycle (uopQueue c);
     let c1 = c\<lparr>decodeCycle := c_MAX (decodeCycle c + ucast decDiff) q\<rparr>;
     c2 \<leftarrow> (if decodeCycle c1 > curCycle c1 then do {
              let cdDiff = (ucast (decodeCycle c1 - curCycle c1) :: u32);
              im_advances (unat cdDiff) (c1\<lparr>curCycleIssuedUops := 0, curCycleRFReads := 0\<rparr>)
            }
            else Some c1);
     uq \<leftarrow> markLeave (uopQueue c2) (curCycle c2);
     Some (c2\<lparr>uopQueue := uq\<rparr>)
   }"

text \<open>The issue width.\<close>

definition im_width_limit :: "IssueModel \<Rightarrow> IssueModel option" where
  "im_width_limit c = do {
     c1 \<leftarrow> (if curCycleIssuedUops c \<ge> im_width c
            then im_advancePos (c\<lparr>profIssueStalls := profIssueStalls c + 1, curCycleIssuedUops := 0, curCycleRFReads := 0\<rparr>)
            else Some c);
     Some (c1\<lparr>curCycleIssuedUops := curCycleIssuedUops c1 + 1\<rparr>)
   }"

text \<open>The operands and the register file ports; the results are the core and the ready cycles of the operands.\<close>

definition im_operands :: "DynUop \<Rightarrow> IssueModel \<Rightarrow> (IssueModel \<times> u64 \<times> u64) option" where
  "im_operands u c = do {
     sb \<leftarrow> aset (regScoreboard c) 0 (curCycle c);
     c0 \<leftarrow> aget sb (unat (rs0 u));
     c1 \<leftarrow> aget sb (unat (rs1 u));
     let reads = curCycleRFReads c + ((if c0 < curCycle c then 1 else 0) + (if c1 < curCycle c then 1 else 0));
     let c' = c\<lparr>regScoreboard := sb, curCycleRFReads := reads\<rparr>;
     c'' \<leftarrow> (if reads > im_prf_ports c
            then im_advancePos (c'\<lparr>curCycleRFReads := reads - im_prf_ports c, curCycleIssuedUops := 0\<rparr>)
            else Some c');
     Some (c'', c0, c1)
   }"

text \<open>Dispatch: the slot in the window.  The second result is the dispatch cycle.\<close>

definition im_dispatch :: "DynUop \<Rightarrow> u64 \<Rightarrow> u64 \<Rightarrow> IssueModel \<Rightarrow> (IssueModel \<times> u64) option" where
  "im_dispatch u c0 c1 c = do {
     c2 \<leftarrow> rob_minAllocCycle (rob c);
     let c3 = curCycle c;
     let cOps = c_MAX c0 c1;
     let dispatchCycle = c_MAX cOps (c_MAX c2 c3 + (DISPATCH_STAGE - ISSUE_STAGE));
     (w, cur, d) \<leftarrow> schedule (insWindow c) (curCycle c) dispatchCycle (portMask u) (ucast (extraSlots u));
     let c' = c\<lparr>insWindow := w, curCycle := cur\<rparr>;
     Some ((if cur > c3 then c'\<lparr>curCycleIssuedUops := 0, curCycleRFReads := 0\<rparr> else c'), d)
   }"

definition fwdIdx :: "Address \<Rightarrow> nat" where
  "fwdIdx addr = unat (ucast (drop_bit 2 addr AND of_nat (FWD_ENTRIES - 1)) :: u32)"

text \<open>The switch on the type: the core, \<open>loadIdx\<close>, \<open>storeIdx\<close> and the commit cycle.\<close>

definition im_lsu :: "DynUop \<Rightarrow> u64 \<Rightarrow> u32 \<Rightarrow> u32 \<Rightarrow> IssueModel \<Rightarrow> (IssueModel \<times> u32 \<times> u32 \<times> u64) option" where
  "im_lsu u dispatchCycle li si c =
     (case utype u of
        UOP_GENERAL \<Rightarrow> Some (c, li, si, dispatchCycle + ucast (lat u))
      | UOP_LOAD \<Rightarrow> do {
          lqCycle \<leftarrow> rob_minAllocCycle (loadQueue c);
          let d1 = (if lqCycle > dispatchCycle then lqCycle else dispatchCycle);
          let d2 = c_MAX (im_lastStoreAddrCommitCycle c + 1) d1;
          addr \<leftarrow> aget (im_loadAddrs c) (unat li);
          let r = d2 + L1D_LAT;
          fw \<leftarrow> aget (fwdArray c) (fwdIdx addr);
          let commitCycle = (if fwdAddr fw = addr then c_MAX r (storeCycle fw) else r);
          lq \<leftarrow> markRetire (loadQueue c) commitCycle;
          Some (c\<lparr>loadQueue := lq\<rparr>, li + 1, si, commitCycle)
        }
      | UOP_STORE \<Rightarrow> do {
          sqCycle \<leftarrow> rob_minAllocCycle (storeQueue c);
          let d1 = (if sqCycle > dispatchCycle then sqCycle else dispatchCycle);
          let d2 = c_MAX (im_lastStoreAddrCommitCycle c + 1) d1;
          addr \<leftarrow> aget (im_storeAddrs c) (unat si);
          let commitCycle = d2 + L1D_LAT;
          fa \<leftarrow> aset (fwdArray c) (fwdIdx addr) (FwdEntry_set addr commitCycle);
          sq \<leftarrow> markRetire (storeQueue c) commitCycle;
          Some (c\<lparr>fwdArray := fa, im_lastStoreCommitCycle := c_MAX (im_lastStoreCommitCycle c) commitCycle, storeQueue := sq\<rparr>,
                li, si + 1, commitCycle)
        }
      | UOP_STORE_ADDR \<Rightarrow> do {
          let commitCycle = dispatchCycle + ucast (lat u);
          Some (c\<lparr>im_lastStoreAddrCommitCycle := c_MAX (im_lastStoreAddrCommitCycle c) commitCycle\<rparr>, li, si, commitCycle)
        }
      | UOP_FENCE \<Rightarrow> do {
          let commitCycle = dispatchCycle + ucast (lat u);
          Some (c\<lparr>im_lastStoreAddrCommitCycle :=
                 c_MAX commitCycle (c_MAX (im_lastStoreAddrCommitCycle c) (im_lastStoreCommitCycle c + ucast (lat u)))\<rparr>,
                li, si, commitCycle)
        })"

text \<open>A uop: the core, \<open>loadIdx\<close>, \<open>storeIdx\<close> and \<open>prevDecCycle\<close>.\<close>

definition im_uop :: "IssueModel \<times> u32 \<times> u32 \<times> u32 \<Rightarrow> DynUop \<Rightarrow> (IssueModel \<times> u32 \<times> u32 \<times> u32) option" where
  "im_uop s u = (case s of (c, li, si, prevDecCycle) \<Rightarrow> do {
     a \<leftarrow> im_decode u prevDecCycle c;
     b \<leftarrow> im_width_limit a;
     (e, c0, c1) \<leftarrow> im_operands u b;
     (f, dispatchCycle) \<leftarrow> im_dispatch u c0 c1 e;
     (g, li', si', commitCycle) \<leftarrow> im_lsu u dispatchCycle li si f;
     r \<leftarrow> markRetire (rob g) commitCycle;
     sb1 \<leftarrow> aset (regScoreboard g) (unat (rd0 u)) commitCycle;
     sb2 \<leftarrow> aset sb1 (unat (rd1 u)) commitCycle;
     Some (g\<lparr>rob := r, regScoreboard := sb2\<rparr>, li', si', ucast (decCycle u))
   })"

text \<open>
  The cycle in which a uop is issued, that is the present cycle when its way through the back end starts, and
  the issue cycles of the uops of a block.
\<close>

definition im_issueCycle :: "IssueModel \<times> u32 \<times> u32 \<times> u32 \<Rightarrow> DynUop \<Rightarrow> u64 option" where
  "im_issueCycle s u = (case s of (c, li, si, prevDecCycle) \<Rightarrow> do {
     a \<leftarrow> im_decode u prevDecCycle c;
     b \<leftarrow> im_width_limit a;
     (e, _, _) \<leftarrow> im_operands u b;
     Some (curCycle e)
   })"

fun im_issues :: "IssueModel \<times> u32 \<times> u32 \<times> u32 \<Rightarrow> DynUop list \<Rightarrow> u64 list option" where
  "im_issues s [] = Some []"
| "im_issues s (u # us) = do {
     k \<leftarrow> im_issueCycle s u;
     s' \<leftarrow> im_uop s u;
     ks \<leftarrow> im_issues s' us;
     Some (k # ks)
   }"

section \<open>A block and the phases\<close>

definition im_bbl :: "BblInfo \<Rightarrow> IssueModel \<Rightarrow> Counters \<Rightarrow> (IssueModel \<times> Counters) option" where
  "im_bbl info c g =
     (case prevBbl c of
        None \<Rightarrow> Some (c\<lparr>prevBbl := Some info\<rparr>, g)
      | Some pb \<Rightarrow> do {
          (c1, _, _, _) \<leftarrow> run_all im_uop (c\<lparr>prevBbl := Some info\<rparr>, 0, 0, 0) (uop (oooBbl pb));
          let c2 = c1\<lparr>instrs := instrs c1 + ucast (binstrs pb)\<rparr>;
          _ \<leftarrow> require (instrs c2 = total_pcount g);
          Some (c2, endInterval g)
        })"

definition im_advance :: "u64 \<Rightarrow> IssueModel \<Rightarrow> IssueModel option" where
  "im_advance targetCycle c = do {
     _ \<leftarrow> require (targetCycle > curCycle c);
     (w, cur) \<leftarrow> longAdvance (insWindow c) (curCycle c) targetCycle;
     _ \<leftarrow> require (targetCycle = cur);
     Some (c\<lparr>decodeCycle := decodeCycle c + (targetCycle - curCycle c), insWindow := w, curCycle := cur,
             curCycleRFReads := 0, curCycleIssuedUops := 0\<rparr>)
   }"

definition im_join :: "'w CorePorts \<Rightarrow> ZInfo \<Rightarrow> IssueModel \<Rightarrow> 'w \<Rightarrow> (IssueModel \<times> 'w) option" where
  "im_join pt zi c w = do {
     (w', targetCycle) \<leftarrow> recJoin pt w (curCycle c);
     c' \<leftarrow> (if targetCycle > curCycle c then im_advance targetCycle c else Some c);
     Some (c'\<lparr>phaseEndCycle := globPhaseCycles zi + ucast (phaseLength zi)\<rparr>, w')
   }"

definition im_leave :: "'w CorePorts \<Rightarrow> IssueModel \<Rightarrow> 'w \<Rightarrow> (IssueModel \<times> 'w) option" where
  "im_leave pt c w = do { w' \<leftarrow> recLeave pt w (curCycle c); Some (c, w') }"

definition im_cSimStart :: "'w CorePorts \<Rightarrow> IssueModel \<Rightarrow> 'w \<Rightarrow> (IssueModel \<times> 'w) option" where
  "im_cSimStart pt c w = do {
     (w', targetCycle) \<leftarrow> recSimStart pt w (curCycle c);
     _ \<leftarrow> require (targetCycle \<ge> curCycle c);
     c' \<leftarrow> (if targetCycle > curCycle c then im_advance targetCycle c else Some c);
     Some (c', w')
   }"

definition im_cSimEnd :: "'w CorePorts \<Rightarrow> IssueModel \<Rightarrow> 'w \<Rightarrow> (IssueModel \<times> 'w) option" where
  "im_cSimEnd pt c w = do {
     (w', targetCycle) \<leftarrow> recSimEnd pt w (curCycle c);
     _ \<leftarrow> require (targetCycle \<ge> curCycle c);
     c' \<leftarrow> (if targetCycle > curCycle c then im_advance targetCycle c else Some c);
     Some (c', w')
   }"

definition im_BblFunc :: "ZInfo \<Rightarrow> (IssueModel \<Rightarrow> 'w \<Rightarrow> (IssueModel \<times> 'w \<times> bool) option) \<Rightarrow>
    BblInfo \<Rightarrow> IssueModel \<Rightarrow> 'w \<Rightarrow> Counters \<Rightarrow> (IssueModel \<times> 'w \<times> Counters) option" where
  "im_BblFunc zi takeBarrier info c w g = do {
     (c1, g1) \<leftarrow> im_bbl info c g;
     (c2, w2) \<leftarrow> phaseLoop (phaseLength zi) takeBarrier c1 w;
     Some (c2, w2, g1)
   }"

section \<open>The structures within a bound\<close>

text \<open>All cycles the structures hold are at most \<open>B\<close>.\<close>

definition rob_ok :: "nat \<Rightarrow> ReorderBuffer \<Rightarrow> bool" where
  "rob_ok B r = (rob_inv r \<and> list_all (\<lambda>x. unat x \<le> B) (rbuf r) \<and> unat (curRetireCycle r) \<le> B)"

definition queue_ok :: "nat \<Rightarrow> CycleQueue \<Rightarrow> bool" where
  "queue_ok B q = (queue_inv q \<and> list_all (\<lambda>x. unat x \<le> B) (qbuf q))"

definition win_ok :: "nat \<Rightarrow> WindowStructure \<Rightarrow> u64 \<Rightarrow> bool" where
  "win_ok B w cur = (win_inv w cur \<and> H w = 8192 \<and> 0 < WSZ w \<and> occupancy w \<le> WSZ w \<and> within B w cur)"

lemma ring_ok_mono: "rob_ok B r \<Longrightarrow> B \<le> C \<Longrightarrow> rob_ok C r" "queue_ok B q \<Longrightarrow> B \<le> C \<Longrightarrow> queue_ok C q"
  by (auto simp: rob_ok_def queue_ok_def list_all_iff intro: order_trans)

lemma win_ok_mono: "win_ok B w cur \<Longrightarrow> B \<le> C \<Longrightarrow> win_ok C w cur"
  by (auto simp: win_ok_def intro: within_mono)

lemma rob_minAlloc_ok: "rob_ok B r \<Longrightarrow> \<exists>q. rob_minAllocCycle r = Some q \<and> unat q \<le> B"
  by (auto simp: rob_ok_def rob_inv_def ring_inv_def rob_minAllocCycle_def list_all_length word_less_nat_alt)

lemma queue_minAlloc_ok: "queue_ok B q \<Longrightarrow> \<exists>x. queue_minAllocCycle q = Some x \<and> unat x \<le> B"
  by (auto simp: queue_ok_def queue_inv_def ring_inv_def queue_minAllocCycle_def list_all_length word_less_nat_alt)

lemma unat_retireCycle: "rob_ok B r \<Longrightarrow> B + 1 < 2 ^ 64 \<Longrightarrow> unat (curRetireCycle (retireCycle r c)) \<le> max (B + 1) (unat c)"
  by (auto simp: retireCycle_def rob_ok_def unat_add_u64 max_def)

lemma markRetire_ok:
  assumes "rob_ok B r" "unat c \<le> D" "B + 1 \<le> D" "D < 2 ^ 64"
  shows "\<exists>r'. markRetire r c = Some r' \<and> rob_ok D r'"
proof -
  have inv: "rob_inv r" using assms(1) by (simp add: rob_ok_def)
  then have i: "unat (ridx r) < length (rbuf r)" by (simp add: rob_inv_def ring_inv_def word_less_nat_alt)
  obtain r' where r': "markRetire r c = Some r'" "rob_inv r'" "curRetireCycle r' = curRetireCycle (retireCycle r c)"
    using markRetire_eq [OF inv] by blast
  have "rbuf r' = (rbuf r)[unat (ridx r) := curRetireCycle (retireCycle r c)]"
    using r'(1) i by (auto simp: markRetire_def Let_def)
  moreover have "unat (curRetireCycle (retireCycle r c)) \<le> D" using unat_retireCycle [OF assms(1), of c] assms(2-4) by simp
  moreover have "list_all (\<lambda>x. unat x \<le> D) (rbuf r)" using assms(1,3) by (auto simp: rob_ok_def list_all_iff)
  ultimately show ?thesis using r' by (simp add: rob_ok_def list_all_update)
qed

lemma markLeave_ok:
  assumes "queue_ok B q" "unat c \<le> D" "B \<le> D"
  shows "\<exists>q'. markLeave q c = Some q' \<and> queue_ok D q'"
proof -
  have inv: "queue_inv q" using assms(1) by (simp add: queue_ok_def)
  then have i: "unat (qidx q) < length (qbuf q)" by (simp add: queue_inv_def ring_inv_def word_less_nat_alt)
  obtain q' where q': "markLeave q c = Some q'" "queue_inv q'" using cq.mark_ring [OF inv] by blast
  have "qbuf q' = (qbuf q)[unat (qidx q) := c]" using q'(1) i by (auto simp: markLeave_def Let_def)
  moreover have "list_all (\<lambda>x. unat x \<le> D) (qbuf q)" using assms(1,3) by (auto simp: queue_ok_def list_all_iff)
  ultimately show ?thesis using q' assms(2) by (simp add: queue_ok_def list_all_update)
qed

lemma advancePos_ok:
  assumes "win_ok B w cur" "unat cur + 1 + 16384 \<le> D" "B \<le> D" "D < 2 ^ 60"
  shows "\<exists>w'. advancePos w cur = Some (w', cur + 1) \<and> win_ok D w' (cur + 1) \<and> unat (cur + 1) = unat cur + 1"
proof -
  have inv: "win_inv w cur" and fr: "H w = 8192" "0 < WSZ w" "occupancy w \<le> WSZ w" "within B w cur"
    using assms(1) by (simp_all add: win_ok_def)
  have c: "unat (cur + 1) = unat cur + 1" using assms(2,4) by (simp add: unat_add_u64)
  have "unat cur + 2 ^ 33 < 2 ^ 64" using assms(2,4) by simp
  from advancePos_later [OF inv this] obtain w' where w': "advancePos w cur = Some (w', cur + 1)"
    "later w cur w' (cur + 1)" "unat (occupancy w') \<le> unat (occupancy w)" by auto
  have l: "win_inv w' (cur + 1)" "H w' = 8192" "WSZ w' = WSZ w" using w'(2) fr by (simp_all add: later_def)
  have "within D w' (cur + 1)" by (rule within_later [OF fr(4) w'(2) _ assms(3)]) (use assms(2) c fr in simp)
  then show ?thesis using w' l c fr by (auto simp: win_ok_def word_le_nat_alt)
qed

lemma schedule_ok:
  assumes "win_ok B w cur" "m \<noteq> 0" "unat sched \<le> B" "B < 2 ^ 60" "unat sched + 8192 < unat cur + 2 ^ 32"
  shows "\<exists>w' cur' sc. schedule w cur sched m 0 = Some (w', cur', sc) \<and> win_ok (B + 16386) w' cur' \<and> unat cur \<le> unat cur'
    \<and> unat cur' \<le> unat sc \<and> unat sched \<le> unat sc \<and> unat sc \<le> B + 16385"
proof -
  have inv: "win_inv w cur" and fr: "H w = 8192" "0 < WSZ w" "occupancy w \<le> WSZ w" "within B w cur"
    using assms(1) by (simp_all add: win_ok_def)
  have "2 * B + 2 ^ 35 < 2 ^ 64" "unat sched + unat (H w) < unat cur + 2 ^ 32" using assms(4,5) fr by simp_all
  note s = schedule_within [OF inv assms(2) fr(2-4) this assms(3)]
  have h: "unat (H w) = 8192" using fr(1) by simp
  have "B + 1 + 2 * unat (H w) = B + 16385" "B + 2 + 2 * unat (H w) = B + 16386" unfolding h by simp_all
  then show ?thesis using s fr(1,2) unfolding win_ok_def by metis
qed

section \<open>The invariant\<close>

text \<open>The clocks run from \<open>lo\<close> to \<open>B\<close>; \<open>n\<close> registers.\<close>

definition im_ok :: "nat \<Rightarrow> nat \<Rightarrow> nat \<Rightarrow> IssueModel \<Rightarrow> bool" where
  "im_ok n lo B c =
     (core_ok n B c \<and> lo \<le> unat (curCycle c) \<and> 0 < im_width c \<and> curCycleIssuedUops c \<le> im_width c
      \<and> win_ok B (insWindow c) (curCycle c) \<and> rob_ok B (rob c) \<and> rob_ok B (loadQueue c) \<and> rob_ok B (storeQueue c)
      \<and> queue_ok B (uopQueue c) \<and> unat (im_lastStoreCommitCycle c) \<le> B \<and> unat (im_lastStoreAddrCommitCycle c) \<le> B
      \<and> length (fwdArray c) = FWD_ENTRIES \<and> list_all (\<lambda>e. unat (storeCycle e) \<le> B) (fwdArray c))"

lemma im_ok_mono: "im_ok n lo B c \<Longrightarrow> B \<le> C \<Longrightarrow> im_ok n lo C c"
  by (auto simp: im_ok_def list_all_iff intro: core_ok_mono win_ok_mono ring_ok_mono order_trans)

text \<open>What no stage of a uop touches.\<close>

definition im_frame :: "IssueModel \<Rightarrow> IssueModel \<Rightarrow> bool" where
  "im_frame c c' = (prevBbl c' = prevBbl c \<and> instrs c' = instrs c \<and> phaseEndCycle c' = phaseEndCycle c
     \<and> im_width c' = im_width c \<and> im_prf_ports c' = im_prf_ports c \<and> im_loadAddrs c' = im_loadAddrs c \<and> im_storeAddrs c' = im_storeAddrs c)"

text \<open>The issue slots of the machine up to the present cycle.\<close>

definition im_slots :: "IssueModel \<Rightarrow> nat" where
  "im_slots c = unat (im_width c) * unat (curCycle c) + unat (curCycleIssuedUops c)"

text \<open>A stage keeps the invariant with clocks up to \<open>D\<close>, never goes back and gives no slot back.\<close>

definition im_step :: "nat \<Rightarrow> nat \<Rightarrow> nat \<Rightarrow> IssueModel \<Rightarrow> IssueModel \<Rightarrow> bool" where
  "im_step n lo D c c' = (im_ok n lo D c' \<and> im_frame c c' \<and> unat (curCycle c) \<le> unat (curCycle c') \<and> im_slots c \<le> im_slots c')"

lemma im_step_trans: "im_step n lo D c c1 \<Longrightarrow> im_step n lo D' c1 c2 \<Longrightarrow> im_step n lo D' c c2"
  by (simp add: im_step_def im_frame_def)

text \<open>Going on to a later cycle with the counters of the cycle reset loses no slot.\<close>

lemma im_slots_reset:
  assumes "curCycleIssuedUops c \<le> im_width c" "unat (curCycle c) < k"
  shows "im_slots c \<le> unat (im_width c) * k"
proof -
  have "im_slots c \<le> unat (im_width c) * (unat (curCycle c) + 1)" using assms(1) by (simp add: im_slots_def word_le_nat_alt)
  also have "\<dots> \<le> unat (im_width c) * k" using assms(2) by (intro mult_le_mono2) simp
  finally show ?thesis .
qed

text \<open>A stage that stays in the present cycle counts \<open>k\<close> more uops issued in it.\<close>

definition im_tick :: "nat \<Rightarrow> IssueModel \<Rightarrow> IssueModel \<Rightarrow> bool" where
  "im_tick k c c' = (curCycle c' = curCycle c \<longrightarrow> unat (curCycleIssuedUops c') = unat (curCycleIssuedUops c) + k)"

lemma im_advancePos_curCycle: "im_advancePos c = Some c' \<Longrightarrow> curCycle c' = curCycle c + 1"
  by (auto simp: im_advancePos_def advancePos_def Let_def split: bind_splits if_splits)

section \<open>The stages of a uop\<close>

lemma im_advances_ok:
  assumes "win_ok B (insWindow c) (curCycle c)" "unat (curCycle c) + m + 16384 \<le> D" "B \<le> D" "D < 2 ^ 60"
  shows "\<exists>w'. im_advances m c = Some (c\<lparr>insWindow := w', curCycle := curCycle c + of_nat m\<rparr>)
    \<and> win_ok D w' (curCycle c + of_nat m) \<and> unat (curCycle c + of_nat m) = unat (curCycle c) + m"
  using assms
proof (induction m arbitrary: c B)
  case 0
  then show ?case by (intro exI [of _ "insWindow c"]) (auto intro: win_ok_mono)
next
  case (Suc m)
  have D1: "unat (curCycle c) + 1 + 16384 \<le> D" using Suc.prems(2) by simp
  obtain w1 where w1: "advancePos (insWindow c) (curCycle c) = Some (w1, curCycle c + 1)" "win_ok D w1 (curCycle c + 1)"
    "unat (curCycle c + 1) = unat (curCycle c) + 1" using advancePos_ok [OF Suc.prems(1) D1 Suc.prems(3,4)] by blast
  let ?c1 = "c\<lparr>insWindow := w1, curCycle := curCycle c + 1\<rparr>"
  have p: "win_ok D (insWindow ?c1) (curCycle ?c1)" "unat (curCycle ?c1) + m + 16384 \<le> D" using w1(2,3) Suc.prems(2) by simp_all
  from Suc.IH [OF p order_refl Suc.prems(4)] obtain w' where "im_advances m ?c1 = Some (?c1\<lparr>insWindow := w', curCycle := curCycle ?c1 + of_nat m\<rparr>)"
    "win_ok D w' (curCycle ?c1 + of_nat m)" "unat (curCycle ?c1 + of_nat m) = unat (curCycle ?c1) + m" by blast
  then show ?case using w1(1,3) by (intro exI [of _ w']) (simp add: im_advancePos_def add.assoc)
qed

lemma im_decode_ok:
  assumes ok: "im_ok n lo B c" and B: "B + 2 ^ 17 < 2 ^ 60" "B + 2 ^ 17 < lo + 2 ^ 32"
    and prev: "unat prev \<le> unat (decCycle u)"
  shows "\<exists>c'. im_decode u prev c = Some c' \<and> im_step n lo (B + 2 ^ 17) c c' \<and> regScoreboard c' = regScoreboard c \<and> im_tick 0 c c'"
proof -
  let ?D = "B + 2 ^ 17"
  have parts: "core_ok n B c" "lo \<le> unat (curCycle c)" "curCycleIssuedUops c \<le> im_width c"
    "win_ok B (insWindow c) (curCycle c)" "queue_ok B (uopQueue c)" using ok by (simp_all add: im_ok_def)
  have dec: "unat (decodeCycle c) \<le> B" "unat (curCycle c) \<le> B" using parts(1) by (simp_all add: core_ok_def)
  obtain q where q: "queue_minAllocCycle (uopQueue c) = Some q" "unat q \<le> B" using queue_minAlloc_ok [OF parts(5)] by blast
  define dc where "dc = decodeCycle c + ucast (ucast (decCycle u) - prev)"
  have "unat dc = unat (decodeCycle c) + (unat (decCycle u) - unat prev)"
    unfolding dc_def by (rule decDiff [OF prev]) (use dec B in simp)
  then have udc: "unat dc \<le> B + 65535" using dec unat_u16_lt [of "decCycle u"] by simp
  define d where "d = max dc q"
  have d: "unat d \<le> B + 65535" unfolding d_def unat_max using udc q(2) by simp
  have cw: "unat (curCycle c) + 16384 \<le> B" using parts(4) unfolding win_ok_def within_def by (elim conjE) simp
  define c2 where "c2 = (if curCycle c < d then im_advances (unat (ucast (d - curCycle c) :: u32))
      (c\<lparr>decodeCycle := d, curCycleIssuedUops := 0, curCycleRFReads := 0\<rparr>) else Some (c\<lparr>decodeCycle := d\<rparr>))"
  obtain w k iu rf where c2: "c2 = Some (c\<lparr>decodeCycle := d, insWindow := w, curCycle := k, curCycleIssuedUops := iu, curCycleRFReads := rf\<rparr>)"
    "win_ok ?D w k" "unat (curCycle c) \<le> unat k" "unat k \<le> B + 65535" "iu \<le> im_width c"
    "im_slots c \<le> unat (im_width c) * unat k + unat iu" "k = curCycle c \<longrightarrow> iu = curCycleIssuedUops c"
  proof (cases "curCycle c < d")
    case False
    have "win_ok ?D (insWindow c) (curCycle c)" by (rule win_ok_mono [OF parts(4)]) simp
    then show ?thesis using False parts(3) dec
      by (intro that [where w = "insWindow c" and k = "curCycle c" and iu = "curCycleIssuedUops c" and rf = "curCycleRFReads c"])
        (simp_all add: c2_def im_slots_def)
  next
    case True
    then have lt: "unat (curCycle c) < unat d" by (simp add: word_less_nat_alt)
    have diff: "unat (d - curCycle c) = unat d - unat (curCycle c)" using lt by (simp add: unat_sub word_le_nat_alt)
    have "unat d - unat (curCycle c) < 2 ^ 32" using d B(2) parts(2) by simp
    then have m: "unat (ucast (d - curCycle c) :: u32) = unat d - unat (curCycle c)"
      using diff by (simp add: unsigned_ucast_eq take_bit_nat_eq_self_iff)
    let ?c1 = "c\<lparr>decodeCycle := d, curCycleIssuedUops := 0, curCycleRFReads := 0\<rparr>"
    have "win_ok B (insWindow ?c1) (curCycle ?c1)" "unat (curCycle ?c1) + (unat d - unat (curCycle c)) + 16384 \<le> ?D"
      using parts(4) d lt by simp_all
    from im_advances_ok [OF this _ B(1)] obtain w' where w': "im_advances (unat d - unat (curCycle c)) ?c1
        = Some (?c1\<lparr>insWindow := w', curCycle := curCycle ?c1 + of_nat (unat d - unat (curCycle c))\<rparr>)"
      "win_ok ?D w' (curCycle ?c1 + of_nat (unat d - unat (curCycle c)))"
      "unat (curCycle ?c1 + of_nat (unat d - unat (curCycle c))) = unat (curCycle ?c1) + (unat d - unat (curCycle c))" by auto
    have kd: "curCycle c + of_nat (unat d - unat (curCycle c)) = d" using w'(3) lt by (simp add: word_unat_eq_iff)
    have "d \<noteq> curCycle c" using True by auto
    then show ?thesis using True w' d lt im_slots_reset [OF parts(3) lt] unfolding m kd
      by (intro that [where w = w' and k = d and iu = 0 and rf = 0]) (simp_all add: c2_def m kd)
  qed
  obtain uq where uq: "markLeave (uopQueue c) k = Some uq" "queue_ok ?D uq"
    using markLeave_ok [OF parts(5), of k ?D] c2(4) by auto
  let ?c' = "c\<lparr>decodeCycle := d, insWindow := w, curCycle := k, curCycleIssuedUops := iu, curCycleRFReads := rf, uopQueue := uq\<rparr>"
  have "im_decode u prev c = do { x \<leftarrow> c2; uq \<leftarrow> markLeave (uopQueue x) (curCycle x); Some (x\<lparr>uopQueue := uq\<rparr>) }"
    by (simp add: im_decode_def q(1) Let_def dc_def [symmetric] d_def [symmetric] c2_def)
  then have run: "im_decode u prev c = Some ?c'" using c2(1) uq(1) by simp
  have okD: "im_ok n lo ?D c" by (rule im_ok_mono [OF ok]) simp
  have "im_ok n lo ?D ?c'" using okD c2(2-5) uq(2) d parts(2) by (simp add: im_ok_def core_ok_def)
  then have "im_step n lo ?D c ?c'" using c2(3,6) by (simp add: im_step_def im_frame_def im_slots_def)
  then show ?thesis using run c2(7) by (intro exI [of _ ?c']) (simp add: im_tick_def)
qed

lemma im_width_limit_ok:
  assumes ok: "im_ok n lo B c" and B: "B + 16386 < 2 ^ 60"
  shows "\<exists>c'. im_width_limit c = Some c' \<and> im_step n lo (B + 16385) c c' \<and> regScoreboard c' = regScoreboard c
    \<and> im_slots c' = im_slots c + 1 \<and> im_tick 1 c c'"
proof -
  let ?D = "B + 16385"
  have parts: "core_ok n B c" "lo \<le> unat (curCycle c)" "curCycleIssuedUops c \<le> im_width c" "0 < im_width c"
    "win_ok B (insWindow c) (curCycle c)" using ok by (simp_all add: im_ok_def)
  have okD: "im_ok n lo ?D c" by (rule im_ok_mono [OF ok]) simp
  have cur: "unat (curCycle c) \<le> B" using parts(1) by (simp add: core_ok_def)
  show ?thesis
  proof (cases "im_width c \<le> curCycleIssuedUops c")
    case False
    then have lt: "curCycleIssuedUops c < im_width c" by simp
    from unat_suc_u32 [OF this] have s: "unat (curCycleIssuedUops c + 1) = unat (curCycleIssuedUops c) + 1" .
    let ?c' = "c\<lparr>curCycleIssuedUops := curCycleIssuedUops c + 1\<rparr>"
    have "curCycleIssuedUops c + 1 \<le> im_width c" using lt s by (simp add: word_le_nat_alt word_less_nat_alt)
    then have "im_ok n lo ?D ?c'" using okD by (simp add: im_ok_def core_ok_def)
    moreover have "im_slots ?c' = im_slots c + 1" using s by (simp add: im_slots_def)
    ultimately show ?thesis using False s by (intro exI [of _ ?c']) (simp add: im_width_limit_def im_step_def im_frame_def im_tick_def)
  next
    case True
    then have full: "curCycleIssuedUops c = im_width c" using parts(3) by simp
    have "unat (curCycle c) + 1 + 16384 \<le> ?D" "?D < 2 ^ 60" using cur B by simp_all
    from advancePos_ok [OF parts(5) this(1) _ this(2)] obtain w' where w': "advancePos (insWindow c) (curCycle c) = Some (w', curCycle c + 1)"
      "win_ok ?D w' (curCycle c + 1)" "unat (curCycle c + 1) = unat (curCycle c) + 1" by auto
    let ?c' = "c\<lparr>profIssueStalls := profIssueStalls c + 1, curCycleRFReads := 0, insWindow := w', curCycle := curCycle c + 1, curCycleIssuedUops := 1\<rparr>"
    have "im_width_limit c = Some ?c'" using True w'(1) by (simp add: im_width_limit_def im_advancePos_def)
    moreover have "1 \<le> im_width c" using parts(4) by (simp add: word_le_nat_alt word_less_nat_alt)
    then have "im_ok n lo ?D ?c'" using okD w'(2,3) cur by (simp add: im_ok_def core_ok_def)
    moreover have "im_slots ?c' = im_slots c + 1" using w'(3) full by (simp add: im_slots_def)
    ultimately show ?thesis using w'(3) by (intro exI [of _ ?c']) (simp add: im_step_def im_frame_def im_tick_def)
  qed
qed

lemma im_operands_tick: "im_operands u c = Some (c', c0, c1) \<Longrightarrow> im_tick 0 c c'"
  by (auto simp: im_operands_def im_tick_def Let_def dest!: im_advancePos_curCycle split: bind_splits if_splits)

lemma im_dispatch_tick: "im_dispatch u c0 c1 c = Some (c', d) \<Longrightarrow> im_tick 0 c c'"
  by (auto simp: im_dispatch_def im_tick_def Let_def split: bind_splits if_splits)

lemma im_lsu_tick: "im_lsu u d li si c = Some (c', li', si', k) \<Longrightarrow> curCycle c' = curCycle c \<and> curCycleIssuedUops c' = curCycleIssuedUops c"
  by (auto simp: im_lsu_def Let_def split: bind_splits UopType.splits)

text \<open>
  The register file stall resets the count of issued uops although the uop it moves is still to issue: the new cycle starts with this
  uop and \<open>width\<close> free slots.
\<close>

lemma rf_stall_not_counted:
  "im_operands u c = Some (c', c0, c1) \<Longrightarrow> curCycle c' \<noteq> curCycle c \<Longrightarrow> curCycle c' = curCycle c + 1 \<and> curCycleIssuedUops c' = 0"
  by (auto simp: im_operands_def im_advancePos_def advancePos_def Let_def split: bind_splits if_splits)

lemma im_operands_ok:
  assumes ok: "im_ok n lo B c" and B: "B + 16386 < 2 ^ 60" and u: "uop_ok n u" and sb: "sb_after n f c"
  shows "\<exists>c' c0 c1. im_operands u c = Some (c', c0, c1) \<and> im_step n lo (B + 16385) c c' \<and> sb_after n f c'
    \<and> unat c0 \<le> B \<and> unat c1 \<le> B \<and> src_ready f (rs0 u) \<le> unat c0 \<and> src_ready f (rs1 u) \<le> unat c1"
proof -
  let ?D = "B + 16385"
  have parts: "core_ok n B c" "lo \<le> unat (curCycle c)" "curCycleIssuedUops c \<le> im_width c"
    "win_ok B (insWindow c) (curCycle c)" using ok by (simp_all add: im_ok_def)
  have okD: "im_ok n lo ?D c" by (rule im_ok_mono [OF ok]) simp
  have cur: "unat (curCycle c) \<le> B" "length (regScoreboard c) = n" "0 < n" using parts(1) by (simp_all add: core_ok_def)
  define sb0 where "sb0 = (regScoreboard c)[0 := curCycle c]"
  have len: "length sb0 = n" using cur by (simp add: sb0_def)
  have val: "unat (sb0 ! r) \<le> B" if "r < n" for r
    using core_ok_sb [OF parts(1) that] cur that by (auto simp: sb0_def nth_list_update)
  have all: "list_all (\<lambda>x. unat x \<le> B) sb0" using val len by (simp add: list_all_length)
  have src: "src_ready f r \<le> unat (sb0 ! unat r)" if "unat r < n" for r :: u16
    using sb that cur by (cases "r = 0") (auto simp: src_ready_def sb0_def sb_after_def nth_list_update unat_eq_zero)
  define c0 where "c0 = sb0 ! unat (rs0 u)"
  define c1 where "c1 = sb0 ! unat (rs1 u)"
  have c01: "unat c0 \<le> B" "unat c1 \<le> B" "src_ready f (rs0 u) \<le> unat c0" "src_ready f (rs1 u) \<le> unat c1"
    using u val src by (simp_all add: c0_def c1_def uop_ok_def)
  have get: "aset (regScoreboard c) 0 (curCycle c) = Some sb0" "aget sb0 (unat (rs0 u)) = Some c0" "aget sb0 (unat (rs1 u)) = Some c1"
    using u len cur by (simp_all add: c0_def c1_def uop_ok_def sb0_def)
  define reads where "reads = curCycleRFReads c + ((if c0 < curCycle c then 1 else 0) + (if c1 < curCycle c then 1 else 0))"
  have sbD: "list_all (\<lambda>x. unat x \<le> ?D) sb0" using all by (auto simp: list_all_iff)
  show ?thesis
  proof (cases "reads > im_prf_ports c")
    case False
    let ?c' = "c\<lparr>regScoreboard := sb0, curCycleRFReads := reads\<rparr>"
    have "im_operands u c = Some (?c', c0, c1)" using False by (simp add: im_operands_def get Let_def reads_def [symmetric])
    moreover have "im_ok n lo ?D ?c'" using okD sbD len cur by (simp add: im_ok_def core_ok_def)
    moreover have "sb_after n f ?c'" using sb by (auto simp: sb_after_def sb0_def nth_list_update unat_eq_zero)
    ultimately show ?thesis using c01
      by (intro exI [of _ ?c'] exI [of _ c0] exI [of _ c1]) (simp add: im_step_def im_frame_def im_slots_def)
  next
    case True
    have "unat (curCycle c) + 1 + 16384 \<le> ?D" "?D < 2 ^ 60" using cur B by simp_all
    from advancePos_ok [OF parts(4) this(1) _ this(2)] obtain w' where w': "advancePos (insWindow c) (curCycle c) = Some (w', curCycle c + 1)"
      "win_ok ?D w' (curCycle c + 1)" "unat (curCycle c + 1) = unat (curCycle c) + 1" by auto
    let ?c' = "c\<lparr>regScoreboard := sb0, curCycleRFReads := reads - im_prf_ports c, curCycleIssuedUops := 0, insWindow := w', curCycle := curCycle c + 1\<rparr>"
    have "im_operands u c = Some (?c', c0, c1)" using True w'(1)
      by (simp add: im_operands_def get Let_def reads_def [symmetric] im_advancePos_def)
    moreover have "im_ok n lo ?D ?c'" using okD sbD len cur w'(2,3) by (simp add: im_ok_def core_ok_def)
    moreover have "sb_after n f ?c'" using sb by (auto simp: sb_after_def sb0_def nth_list_update unat_eq_zero)
    moreover have "im_slots c \<le> im_slots ?c'" using im_slots_reset [OF parts(3), of "unat (curCycle c) + 1"] w'(3) by (simp add: im_slots_def)
    ultimately show ?thesis using c01 w'(3)
      by (intro exI [of _ ?c'] exI [of _ c0] exI [of _ c1]) (simp add: im_step_def im_frame_def)
  qed
qed

lemma im_dispatch_ok:
  assumes ok: "im_ok n lo B c" and B: "B + 2 ^ 15 < 2 ^ 60" "B + 2 ^ 15 < lo + 2 ^ 32" and m: "portMask u \<noteq> 0" "extraSlots u = 0"
    and ops: "unat c0 \<le> B" "unat c1 \<le> B"
  shows "\<exists>c' d. im_dispatch u c0 c1 c = Some (c', d) \<and> im_step n lo (B + 16400) c c' \<and> regScoreboard c' = regScoreboard c
    \<and> unat c0 \<le> unat d \<and> unat c1 \<le> unat d \<and> unat (curCycle c) + 6 \<le> unat d \<and> unat d \<le> B + 16400"
proof -
  have parts: "core_ok n B c" "lo \<le> unat (curCycle c)" "curCycleIssuedUops c \<le> im_width c"
    "win_ok B (insWindow c) (curCycle c)" "rob_ok B (rob c)" using ok by (simp_all add: im_ok_def)
  have cur: "unat (curCycle c) \<le> B" using parts(1) by (simp add: core_ok_def)
  obtain c2 where c2: "rob_minAllocCycle (rob c) = Some c2" "unat c2 \<le> B" using rob_minAlloc_ok [OF parts(5)] by blast
  define m0 where "m0 = max c2 (curCycle c)"
  have m0: "unat m0 \<le> B" "unat (curCycle c) \<le> unat m0" unfolding m0_def unat_max using c2(2) cur by simp_all
  have six: "unat (m0 + (DISPATCH_STAGE - ISSUE_STAGE)) = unat m0 + 6" using m0(1) B by (simp add: stage_defs unat_add_u64)
  define s where "s = max (max c0 c1) (m0 + (DISPATCH_STAGE - ISSUE_STAGE))"
  have s: "unat s \<le> B + 6" "unat c0 \<le> unat s" "unat c1 \<le> unat s" "unat (curCycle c) + 6 \<le> unat s"
    unfolding s_def unat_max six using m0 ops by simp_all
  have w: "win_ok (B + 6) (insWindow c) (curCycle c)" by (rule win_ok_mono [OF parts(4)]) simp
  have "B + 6 < 2 ^ 60" "unat s + 8192 < unat (curCycle c) + 2 ^ 32" using B s(1) parts(2) by simp_all
  from schedule_ok [OF w m(1) s(1) this] obtain w' k d where sch: "schedule (insWindow c) (curCycle c) s (portMask u) 0 = Some (w', k, d)"
    "win_ok (B + 6 + 16386) w' k" "unat (curCycle c) \<le> unat k" "unat k \<le> unat d" "unat s \<le> unat d" "unat d \<le> B + 6 + 16385" by blast
  define c' where "c' = (if curCycle c < k then c\<lparr>insWindow := w', curCycle := k, curCycleIssuedUops := 0, curCycleRFReads := 0\<rparr>
      else c\<lparr>insWindow := w', curCycle := k\<rparr>)"
  have run: "im_dispatch u c0 c1 c = Some (c', d)"
    using sch(1) m(2) by (simp add: im_dispatch_def c2(1) Let_def m0_def [symmetric] s_def [symmetric] c'_def)
  have okD: "im_ok n lo (B + 16400) c" by (rule im_ok_mono [OF ok]) simp
  have w'D: "win_ok (B + 16400) w' k" by (rule win_ok_mono [OF sch(2)]) simp
  have kD: "unat k \<le> B + 16400" "lo \<le> unat k" using sch parts(2) by simp_all
  have okc': "im_ok n lo (B + 16400) c'" using okD w'D kD by (simp add: im_ok_def core_ok_def c'_def)
  have slots: "im_slots c \<le> im_slots c'"
  proof (cases "curCycle c < k")
    case True
    then have "unat (curCycle c) < unat k" by (simp add: word_less_nat_alt)
    from im_slots_reset [OF parts(3) this] True show ?thesis by (simp add: c'_def im_slots_def)
  next
    case False
    then have "k = curCycle c" using sch(3) by (simp add: word_less_nat_alt word_unat_eq_iff)
    then show ?thesis by (simp add: c'_def im_slots_def)
  qed
  have fr: "im_frame c c'" "regScoreboard c' = regScoreboard c" "curCycle c' = k" by (simp_all add: im_frame_def c'_def)
  show ?thesis using run okc' slots fr sch(3,5,6) s by (intro exI [of _ c'] exI [of _ d]) (simp add: im_step_def)
qed

text \<open>The least latency of a uop in this model.\<close>

definition im_lat :: "DynUop \<Rightarrow> nat" where
  "im_lat u = (case utype u of UOP_LOAD \<Rightarrow> 4 | UOP_STORE \<Rightarrow> 4 | _ \<Rightarrow> unat (lat u))"

definition im_has_addr :: "DynUop \<Rightarrow> u32 \<Rightarrow> u32 \<Rightarrow> IssueModel \<Rightarrow> bool" where
  "im_has_addr u li si c = (case utype u of UOP_LOAD \<Rightarrow> unat li < length (im_loadAddrs c)
     | UOP_STORE \<Rightarrow> unat si < length (im_storeAddrs c) | _ \<Rightarrow> True)"

lemma fwdIdx_lt: "fwdIdx a < FWD_ENTRIES"
proof -
  have "unat (drop_bit 2 a AND 31 :: u64) \<le> 31" using word_and_le1 [of "drop_bit 2 a" 31] by (simp add: word_le_nat_alt)
  moreover have "unat (ucast (drop_bit 2 a AND 31 :: u64) :: u32) \<le> unat (drop_bit 2 a AND 31 :: u64)"
    by (simp add: unsigned_ucast_eq take_bit_nat_less_eq_self)
  ultimately have "unat (ucast (drop_bit 2 a AND 31 :: u64) :: u32) \<le> 31" by (rule order_trans [rotated])
  then show ?thesis by (simp add: fwdIdx_def FWD_ENTRIES_def)
qed

text \<open>What the switch on the type changes: the clocks stay, the bound grows by the latency.\<close>

lemma im_lsu_ok:
  assumes ok: "im_ok n lo B c" and d: "unat d \<le> B" and B: "B + 2 ^ 17 < 2 ^ 60" and addr: "im_has_addr u li si c"
  shows "\<exists>c' k. im_lsu u d li si c = Some (c', li + of_bool (utype u = UOP_LOAD), si + of_bool (utype u = UOP_STORE), k)
    \<and> im_step n lo (B + 2 ^ 17 - 1) c c' \<and> regScoreboard c' = regScoreboard c \<and> im_slots c' = im_slots c
    \<and> unat d + im_lat u \<le> unat k \<and> unat k \<le> B + 2 ^ 17 - 1"
proof -
  let ?D = "B + 2 ^ 17 - 1"
  have okD: "im_ok n lo ?D c" by (rule im_ok_mono [OF ok]) simp
  have p: "rob_ok B (loadQueue c)" "rob_ok B (storeQueue c)" "unat (im_lastStoreCommitCycle c) \<le> B" "unat (im_lastStoreAddrCommitCycle c) \<le> B"
    "length (fwdArray c) = FWD_ENTRIES" "list_all (\<lambda>e. unat (storeCycle e) \<le> B) (fwdArray c)" using ok by (simp_all add: im_ok_def)
  have late: "unat (d + ucast (lat u)) = unat d + unat (lat u)" using d B unat_u16_lt [of "lat u"] by (simp add: unat_add_u64)
  have L16: "unat (lat u) \<le> 65535" using unat_u16_lt [of "lat u"] by simp
  define s1 where "s1 = im_lastStoreAddrCommitCycle c + 1"
  have s1: "unat s1 \<le> B + 1" using p(4) B by (simp add: s1_def unat_add_u64)
  define at where "at q = max s1 (if q > d then q else d)" for q
  have at: "unat d \<le> unat (at q)" "unat (at q) \<le> B + 1" "unat (at q + L1D_LAT) = unat (at q) + 4" if "unat q \<le> B" for q
    unfolding at_def unat_max using s1 d that B by (auto simp: word_less_nat_alt stage_defs unat_add_u64 unat_max not_less)
  show ?thesis
  proof (cases "utype u")
    case UOP_GENERAL
    then show ?thesis using okD late L16 d
      by (intro exI [of _ c]) (simp add: im_lsu_def im_step_def im_frame_def im_lat_def)
  next
    case UOP_LOAD
    obtain q where q: "rob_minAllocCycle (loadQueue c) = Some q" "unat q \<le> B" using rob_minAlloc_ok [OF p(1)] by blast
    obtain a where a: "aget (im_loadAddrs c) (unat li) = Some a" using addr UOP_LOAD by (simp add: im_has_addr_def)
    obtain fw where fw: "aget (fwdArray c) (fwdIdx a) = Some fw" "unat (storeCycle fw) \<le> B"
      using p(5,6) fwdIdx_lt [of a] by (auto simp: list_all_length)
    define k where "k = (if fwdAddr fw = a then max (at q + L1D_LAT) (storeCycle fw) else at q + L1D_LAT)"
    have k: "unat d + 4 \<le> unat k" "unat k \<le> B + 5" using at [OF q(2)] fw(2) by (auto simp: k_def unat_max)
    obtain lq where lq: "markRetire (loadQueue c) k = Some lq" "rob_ok ?D lq"
      using markRetire_ok [OF p(1), of k ?D] k(2) B by auto
    have "im_lsu u d li si c = Some (c\<lparr>loadQueue := lq\<rparr>, li + 1, si, k)"
      using lq(1) UOP_LOAD unfolding k_def
      by (cases "fwdAddr fw = a") (simp_all add: im_lsu_def q(1) a fw(1) Let_def s1_def [symmetric] at_def [symmetric])
    moreover have "im_ok n lo ?D (c\<lparr>loadQueue := lq\<rparr>)" using okD lq(2) by (simp add: im_ok_def core_ok_def)
    ultimately show ?thesis using UOP_LOAD k
      by (intro exI [of _ "c\<lparr>loadQueue := lq\<rparr>"] exI [of _ k]) (simp add: im_step_def im_frame_def im_lat_def im_slots_def)
  next
    case UOP_STORE
    obtain q where q: "rob_minAllocCycle (storeQueue c) = Some q" "unat q \<le> B" using rob_minAlloc_ok [OF p(2)] by blast
    obtain a where a: "aget (im_storeAddrs c) (unat si) = Some a" using addr UOP_STORE by (simp add: im_has_addr_def)
    define k where "k = at q + L1D_LAT"
    have k: "unat d + 4 \<le> unat k" "unat k \<le> B + 5" using at [OF q(2)] by (auto simp: k_def)
    define fa where "fa = (fwdArray c)[fwdIdx a := FwdEntry_set a k]"
    have fa: "aset (fwdArray c) (fwdIdx a) (FwdEntry_set a k) = Some fa" using p(5) fwdIdx_lt [of a] by (simp add: fa_def)
    have "list_all (\<lambda>e. unat (storeCycle e) \<le> ?D) (fwdArray c)" using okD by (simp add: im_ok_def)
    then have faD: "list_all (\<lambda>e. unat (storeCycle e) \<le> ?D) fa" "length fa = FWD_ENTRIES"
      using k(2) p(5) by (simp_all add: fa_def list_all_update FwdEntry_set_def)
    obtain sq where sq: "markRetire (storeQueue c) k = Some sq" "rob_ok ?D sq"
      using markRetire_ok [OF p(2), of k ?D] k(2) B by auto
    let ?c' = "c\<lparr>fwdArray := fa, im_lastStoreCommitCycle := max (im_lastStoreCommitCycle c) k, storeQueue := sq\<rparr>"
    have "im_lsu u d li si c = Some (?c', li, si + 1, k)"
      using UOP_STORE by (simp add: im_lsu_def q(1) a Let_def s1_def [symmetric] at_def [symmetric] k_def [symmetric] fa sq(1))
    moreover have "im_ok n lo ?D ?c'" using okD sq(2) faD k(2) p(3) by (simp add: im_ok_def core_ok_def unat_max)
    ultimately show ?thesis using UOP_STORE k
      by (intro exI [of _ ?c'] exI [of _ k]) (simp add: im_step_def im_frame_def im_lat_def im_slots_def)
  next
    case UOP_STORE_ADDR
    let ?c' = "c\<lparr>im_lastStoreAddrCommitCycle := max (im_lastStoreAddrCommitCycle c) (d + ucast (lat u))\<rparr>"
    have "im_ok n lo ?D ?c'" using okD late L16 d p(4) by (simp add: im_ok_def core_ok_def unat_max)
    then show ?thesis using UOP_STORE_ADDR late L16 d
      by (intro exI [of _ ?c']) (simp add: im_lsu_def Let_def im_step_def im_frame_def im_lat_def im_slots_def)
  next
    case UOP_FENCE
    have "unat (im_lastStoreCommitCycle c + ucast (lat u)) = unat (im_lastStoreCommitCycle c) + unat (lat u)"
      using p(3) B L16 by (simp add: unat_add_u64)
    then have l: "unat (im_lastStoreCommitCycle c + ucast (lat u)) \<le> B + 65535" using p(3) L16 by simp
    let ?c' = "c\<lparr>im_lastStoreAddrCommitCycle :=
                 max (d + ucast (lat u)) (max (im_lastStoreAddrCommitCycle c) (im_lastStoreCommitCycle c + ucast (lat u)))\<rparr>"
    have "im_ok n lo ?D ?c'" using okD late L16 d p(4) l by (simp add: im_ok_def core_ok_def unat_max)
    then show ?thesis using UOP_FENCE late L16 d
      by (intro exI [of _ ?c']) (simp add: im_lsu_def Let_def im_step_def im_frame_def im_lat_def im_slots_def)
  qed
qed

section \<open>A uop and a block\<close>

text \<open>
  The uop that takes the core from \<open>c\<close> to \<open>c'\<close> is issued in cycle \<open>k\<close>: in the present cycle only if it has a free slot, which
  it takes if the core stays in that cycle.
\<close>

definition im_issued :: "IssueModel \<Rightarrow> u64 \<Rightarrow> IssueModel \<Rightarrow> bool" where
  "im_issued c k c' = (unat (curCycle c) \<le> unat k \<and> unat k \<le> unat (curCycle c')
     \<and> (k = curCycle c \<longrightarrow> unat (curCycleIssuedUops c) + 1 \<le> unat (im_width c))
     \<and> (curCycle c' = curCycle c \<longrightarrow> unat (curCycleIssuedUops c') = unat (curCycleIssuedUops c) + 1))"

text \<open>
  Issue cycles \<open>ks\<close> of uops that take the core from \<open>c\<close> on: they never decrease, the present cycle issues no more than it has slots
  left, and a later one at most one more than \<open>width\<close>: the uop that a stall of the register file ports moves to the next cycle takes no slot
  in it.
\<close>

definition issue_limit :: "IssueModel \<Rightarrow> u64 list \<Rightarrow> IssueModel \<Rightarrow> bool" where
  "issue_limit c ks c' = (sorted (map unat ks)
     \<and> (\<forall>k \<in> set ks. unat (curCycle c) \<le> unat k \<and> unat k \<le> unat (curCycle c'))
     \<and> count_list ks (curCycle c) + unat (curCycleIssuedUops c) \<le> unat (im_width c)
     \<and> (\<forall>k. count_list ks k \<le> unat (im_width c) + 1))"

lemma issue_limit_Cons:
  assumes i: "im_issued c k c1" and l: "issue_limit c1 ks c'" and w: "im_width c1 = im_width c" "curCycleIssuedUops c \<le> im_width c"
    and last: "unat (curCycle c1) \<le> unat (curCycle c')"
  shows "issue_limit c (k # ks) c'"
proof -
  have none: "count_list ks j = 0" if "unat j < unat (curCycle c1)" for j
    using l that by (auto simp: issue_limit_def count_list_0_iff)
  have i': "unat (curCycle c) \<le> unat k" "unat k \<le> unat (curCycle c1)" using i by (simp_all add: im_issued_def)
  have w': "unat (curCycleIssuedUops c) \<le> unat (im_width c)" using w(2) by (simp add: word_le_nat_alt)
  have here: "count_list ks (curCycle c1) + unat (curCycleIssuedUops c1) \<le> unat (im_width c)"
    "count_list ks j \<le> unat (im_width c) + 1" for j using l w by (simp_all add: issue_limit_def)
  have "sorted (map unat (k # ks))" "\<forall>j \<in> set (k # ks). unat (curCycle c) \<le> unat j \<and> unat j \<le> unat (curCycle c')"
    using i' l last by (auto simp: issue_limit_def)
  moreover have "count_list (k # ks) (curCycle c) + unat (curCycleIssuedUops c) \<le> unat (im_width c)"
  proof (cases "curCycle c1 = curCycle c")
    case True
    then have "k = curCycle c" using i' by (simp add: word_unat_eq_iff)
    then show ?thesis using here(1) i True by (simp add: im_issued_def)
  next
    case False
    then have "unat (curCycle c1) \<noteq> unat (curCycle c)" by (simp add: word_unat_eq_iff)
    then have "unat (curCycle c) < unat (curCycle c1)" using i' by linarith
    then have "count_list ks (curCycle c) = 0" by (rule none)
    then show ?thesis using i w' by (simp add: im_issued_def)
  qed
  moreover have "count_list (k # ks) j \<le> unat (im_width c) + 1" for j
  proof (cases "k = j")
    case True
    show ?thesis
    proof (cases "curCycle c1 = k")
      case True
      then show ?thesis using here(1) \<open>k = j\<close> by simp
    next
      case False
      then have "unat (curCycle c1) \<noteq> unat k" by (simp add: word_unat_eq_iff)
      then have "unat k < unat (curCycle c1)" using i' by linarith
      then show ?thesis using none [of k] \<open>k = j\<close> by simp
    qed
  next
    case False
    then show ?thesis using here(2) by simp
  qed
  ultimately show ?thesis unfolding issue_limit_def by blast
qed

lemma im_uop_ok:
  assumes ok: "im_ok n lo B c" and B: "B + 2 ^ 19 < 2 ^ 60" "B + 2 ^ 19 < lo + 2 ^ 32"
    and u: "uop_ok n u" "portMask u \<noteq> 0" "extraSlots u = 0" "unat prev \<le> unat (decCycle u)" "im_has_addr u li si c"
    and sb: "sb_after n f c"
  shows "\<exists>c'. im_uop (c, li, si, prev) u = Some (c', li + of_bool (utype u = UOP_LOAD), si + of_bool (utype u = UOP_STORE), ucast (decCycle u))
    \<and> im_step n lo (B + 2 ^ 19) c c' \<and> im_slots c + 1 \<le> im_slots c' \<and> sb_after n (flow im_lat [u] f) c'
    \<and> (\<exists>k. im_issueCycle (c, li, si, prev) u = Some k \<and> im_issued c k c')"
proof -
  have B1: "B + 2 ^ 17 < 2 ^ 60" "B + 2 ^ 17 < lo + 2 ^ 32" using B by simp_all
  obtain a where a: "im_decode u prev c = Some a" "im_step n lo (B + 2 ^ 17) c a" "regScoreboard a = regScoreboard c" "im_tick 0 c a"
    using im_decode_ok [OF ok B1 u(4)] by blast
  let ?B1 = "B + 2 ^ 17"
  have aok: "im_ok n lo ?B1 a" and B2: "?B1 + 16386 < 2 ^ 60" using a(2) B by (simp_all add: im_step_def)
  obtain b where b: "im_width_limit a = Some b" "im_step n lo (?B1 + 16385) a b" "regScoreboard b = regScoreboard a" "im_slots b = im_slots a + 1" "im_tick 1 a b"
    using im_width_limit_ok [OF aok B2] by blast
  let ?B2 = "?B1 + 16385"
  have bok: "im_ok n lo ?B2 b" and B3: "?B2 + 16386 < 2 ^ 60" and bsb: "sb_after n f b"
    using b(2,3) a(3) B sb by (simp_all add: im_step_def sb_after_def)
  obtain e c0 c1 where e: "im_operands u b = Some (e, c0, c1)" "im_step n lo (?B2 + 16385) b e" "sb_after n f e"
    "unat c0 \<le> ?B2" "unat c1 \<le> ?B2" "src_ready f (rs0 u) \<le> unat c0" "src_ready f (rs1 u) \<le> unat c1"
    using im_operands_ok [OF bok B3 u(1) bsb] by blast
  let ?B3 = "?B2 + 16385"
  have eok: "im_ok n lo ?B3 e" and B4: "?B3 + 2 ^ 15 < 2 ^ 60" "?B3 + 2 ^ 15 < lo + 2 ^ 32" "unat c0 \<le> ?B3" "unat c1 \<le> ?B3"
    using e(2,4,5) B by (simp_all add: im_step_def)
  obtain g d where g: "im_dispatch u c0 c1 e = Some (g, d)" "im_step n lo (?B3 + 16400) e g" "regScoreboard g = regScoreboard e"
    "unat c0 \<le> unat d" "unat c1 \<le> unat d" "unat d \<le> ?B3 + 16400"
    using im_dispatch_ok [OF eok B4(1,2) u(2,3) B4(3,4)] by blast
  let ?B4 = "?B3 + 16400"
  have fr: "im_step n lo ?B4 c g" using a(2) b(2) e(2) g(2) im_step_trans by blast
  have gok: "im_ok n lo ?B4 g" and B5: "?B4 + 2 ^ 17 < 2 ^ 60" using g(2) B by (simp_all add: im_step_def)
  have addr: "im_has_addr u li si g" using u(5) fr by (simp add: im_has_addr_def im_step_def im_frame_def split: UopType.splits)
  obtain h k where h: "im_lsu u d li si g = Some (h, li + of_bool (utype u = UOP_LOAD), si + of_bool (utype u = UOP_STORE), k)"
    "im_step n lo (?B4 + 2 ^ 17 - 1) g h" "regScoreboard h = regScoreboard g" "unat d + im_lat u \<le> unat k" "unat k \<le> ?B4 + 2 ^ 17 - 1"
    using im_lsu_ok [OF gok g(6) B5 addr] by blast
  let ?D = "B + 2 ^ 19"
  have stp: "im_step n lo (?B4 + 2 ^ 17 - 1) c h" by (rule im_step_trans [OF fr h(2)])
  have hok: "im_ok n lo ?D h" by (rule im_ok_mono [where B = "?B4 + 2 ^ 17 - 1"]) (use stp in \<open>simp_all add: im_step_def\<close>)
  have kD: "unat k \<le> ?D" using h(5) by simp
  have hrob: "rob_ok (?B4 + 2 ^ 17 - 1) (rob h)" using h(2) by (simp add: im_step_def im_ok_def)
  obtain r where r: "markRetire (rob h) k = Some r" "rob_ok ?D r"
    using markRetire_ok [OF hrob, of k ?D] kD B by auto
  have len: "length (regScoreboard h) = n" using hok by (simp add: im_ok_def core_ok_def)
  let ?sb = "(regScoreboard h)[unat (rd0 u) := k, unat (rd1 u) := k]"
  let ?c' = "h\<lparr>rob := r, regScoreboard := ?sb\<rparr>"
  have run: "im_uop (c, li, si, prev) u = Some (?c', li + of_bool (utype u = UOP_LOAD), si + of_bool (utype u = UOP_STORE), ucast (decCycle u))"
    using a(1) b(1) e(1) g(1) h(1) r(1) len u(1) by (simp add: im_uop_def uop_ok_def)
  have "im_ok n lo ?D ?c'" using hok r(2) kD by (simp add: im_ok_def core_ok_def list_all_update)
  then have "im_step n lo ?D c ?c'" using stp by (auto simp: im_step_def im_frame_def im_slots_def)
  moreover have "im_slots c + 1 \<le> im_slots ?c'"
    using a(2) b(4) e(2) g(2) h(2) by (simp add: im_step_def im_slots_def)
  moreover have "sb_after n (flow im_lat [u] f) ?c'"
  proof (unfold sb_after_def, intro allI impI)
    fix x :: u16
    assume x: "x \<noteq> 0 \<and> unat x < n"
    have val: "regScoreboard ?c' ! unat x = (if x = rd0 u \<or> x = rd1 u then k else regScoreboard e ! unat x)"
      using x len h(3) g(3) by (simp add: nth_update_twice word_unat_eq_iff)
    have "flow im_lat [u] f x = (if x = rd0 u \<or> x = rd1 u then max (src_ready f (rs0 u)) (src_ready f (rs1 u)) + im_lat u else f x)"
      by (simp add: Let_def)
    then show "flow im_lat [u] f x \<le> unat (regScoreboard ?c' ! unat x)"
      unfolding val using e(3,6,7) g(4,5) h(4) x by (auto simp: sb_after_def)
  qed
  moreover have "im_issueCycle (c, li, si, prev) u = Some (curCycle e)" by (simp add: im_issueCycle_def a(1) b(1) e(1))
  moreover have "im_issued c (curCycle e) ?c'"
  proof -
    have l: "curCycle h = curCycle g" "curCycleIssuedUops h = curCycleIssuedUops g" using im_lsu_tick [OF h(1)] by simp_all
    have m: "unat (curCycle c) \<le> unat (curCycle a)" "unat (curCycle a) \<le> unat (curCycle b)" "unat (curCycle b) \<le> unat (curCycle e)"
      "unat (curCycle e) \<le> unat (curCycle g)" using a(2) b(2) e(2) g(2) by (simp_all add: im_step_def)
    have "curCycleIssuedUops b \<le> im_width b" using bok by (simp add: im_ok_def)
    moreover have "im_width b = im_width c" using a(2) b(2) by (simp add: im_step_def im_frame_def)
    ultimately have w: "unat (curCycleIssuedUops b) \<le> unat (im_width c)" by (simp add: word_le_nat_alt)
    show ?thesis
      using l m w a(4) b(5) im_operands_tick [OF e(1)] im_dispatch_tick [OF g(1)]
      by (auto simp: im_issued_def im_tick_def word_unat_eq_iff)
  qed
  ultimately show ?thesis using run by (intro exI [of _ ?c']) simp
qed

definition im_block_ok :: "nat \<Rightarrow> DynUop list \<Rightarrow> bool" where
  "im_block_ok n us = (block_ok n us \<and> list_all (\<lambda>u. portMask u \<noteq> 0 \<and> extraSlots u = 0) us)"

lemma im_uops_ok:
  assumes "im_ok n lo B c" "B + length us * 2 ^ 19 < 2 ^ 60" "B + length us * 2 ^ 19 < lo + 2 ^ 32"
    "im_block_ok n us" "us \<noteq> [] \<longrightarrow> unat prev \<le> unat (decCycle (hd us))"
    "unat li + ops_of UOP_LOAD us \<le> length (im_loadAddrs c)" "unat li + ops_of UOP_LOAD us < 2 ^ 32"
    "unat si + ops_of UOP_STORE us \<le> length (im_storeAddrs c)" "unat si + ops_of UOP_STORE us < 2 ^ 32"
    "sb_after n f c"
  shows "\<exists>c' li' si' prev'. run_all im_uop (c, li, si, prev) us = Some (c', li', si', prev')
    \<and> im_step n lo (B + length us * 2 ^ 19) c c' \<and> im_slots c + length us \<le> im_slots c' \<and> sb_after n (flow im_lat us f) c'
    \<and> (\<exists>ks. im_issues (c, li, si, prev) us = Some ks \<and> length ks = length us \<and> issue_limit c ks c')"
  using assms
proof (induction us arbitrary: c li si prev B f)
  case Nil
  then show ?case by (simp add: im_step_def im_frame_def issue_limit_def im_ok_def word_le_nat_alt)
next
  case (Cons u us)
  have B: "B + 2 ^ 19 < 2 ^ 60" "B + 2 ^ 19 < lo + 2 ^ 32" using Cons.prems(2,3) by simp_all
  have blk: "im_block_ok n us" "us \<noteq> [] \<longrightarrow> unat (decCycle u) \<le> unat (decCycle (hd us))"
    using Cons.prems(4) by (cases us; simp add: im_block_ok_def block_ok_def dec_sorted_def)+
  have u: "uop_ok n u" "portMask u \<noteq> 0" "extraSlots u = 0" "unat prev \<le> unat (decCycle u)"
    using Cons.prems(4,5) by (simp_all add: im_block_ok_def block_ok_def)
  have a: "im_has_addr u li si c" using Cons.prems(6,8) by (cases "utype u") (simp_all add: im_has_addr_def)
  let ?li = "li + of_bool (utype u = UOP_LOAD)" and ?si = "si + of_bool (utype u = UOP_STORE)"
  obtain c1 where c1: "im_uop (c, li, si, prev) u = Some (c1, ?li, ?si, ucast (decCycle u))" "im_step n lo (B + 2 ^ 19) c c1"
    "im_slots c + 1 \<le> im_slots c1" "sb_after n (flow im_lat [u] f) c1"
    and "\<exists>k. im_issueCycle (c, li, si, prev) u = Some k \<and> im_issued c k c1"
    using im_uop_ok [OF Cons.prems(1) B u a Cons.prems(10)] by blast
  then obtain k where k: "im_issueCycle (c, li, si, prev) u = Some k" "im_issued c k c1" by blast
  have li: "unat ?li = unat li + of_bool (utype u = UOP_LOAD)" by (rule unat_suc_bool) (use Cons.prems(7) in simp)
  have si: "unat ?si = unat si + of_bool (utype u = UOP_STORE)" by (rule unat_suc_bool) (use Cons.prems(9) in simp)
  have c1ok: "im_ok n lo (B + 2 ^ 19) c1" and addrs: "im_loadAddrs c1 = im_loadAddrs c" "im_storeAddrs c1 = im_storeAddrs c"
    using c1(2) by (simp_all add: im_step_def im_frame_def)
  have "\<exists>c' li' si' prev'. run_all im_uop (c1, ?li, ?si, ucast (decCycle u)) us = Some (c', li', si', prev')
    \<and> im_step n lo ((B + 2 ^ 19) + length us * 2 ^ 19) c1 c' \<and> im_slots c1 + length us \<le> im_slots c' \<and> sb_after n (flow im_lat us (flow im_lat [u] f)) c'
    \<and> (\<exists>ks. im_issues (c1, ?li, ?si, ucast (decCycle u)) us = Some ks \<and> length ks = length us \<and> issue_limit c1 ks c')"
    by (rule Cons.IH [OF c1ok _ _ blk(1) _ _ _ _ _ c1(4)]) (use Cons.prems(2,3,6-9) blk(2) in \<open>simp_all only: li si addrs, simp_all\<close>)
  then obtain c' li' si' prev' where r: "run_all im_uop (c1, ?li, ?si, ucast (decCycle u)) us = Some (c', li', si', prev')"
    "im_step n lo ((B + 2 ^ 19) + length us * 2 ^ 19) c1 c'" "im_slots c1 + length us \<le> im_slots c'"
    "sb_after n (flow im_lat us (flow im_lat [u] f)) c'"
    and "\<exists>ks. im_issues (c1, ?li, ?si, ucast (decCycle u)) us = Some ks \<and> length ks = length us \<and> issue_limit c1 ks c'" by blast
  then obtain ks where ks: "im_issues (c1, ?li, ?si, ucast (decCycle u)) us = Some ks" "length ks = length us" "issue_limit c1 ks c'" by blast
  have "im_issues (c, li, si, prev) (u # us) = Some (k # ks)" using k(1) c1(1) ks(1) by simp
  moreover have "issue_limit c (k # ks) c'"
    by (rule issue_limit_Cons [OF k(2) ks(3)]) (use c1(2) r(2) Cons.prems(1) in \<open>simp_all add: im_step_def im_frame_def im_ok_def\<close>)
  moreover have "B + length (u # us) * 2 ^ 19 = (B + 2 ^ 19) + length us * 2 ^ 19" by simp
  moreover have "sb_after n (flow im_lat (u # us) f) c'" using r(4) flow_append [of im_lat "[u]" us f] by simp
  ultimately have "run_all im_uop (c, li, si, prev) (u # us) = Some (c', li', si', prev')
    \<and> im_step n lo (B + length (u # us) * 2 ^ 19) c c' \<and> im_slots c + length (u # us) \<le> im_slots c' \<and> sb_after n (flow im_lat (u # us) f) c'
    \<and> (\<exists>ks. im_issues (c, li, si, prev) (u # us) = Some ks \<and> length ks = length (u # us) \<and> issue_limit c ks c')"
    using r(1,3) c1(1,3) im_step_trans [OF c1(2) r(2)] ks(2) by (simp add: add.assoc)
  then show ?case by blast
qed

text \<open>
  A block goes through: no assertion fails, the clocks grow by at most \<open>2 ^ 19\<close> per uop, the issue cycles keep to the
  limit and no register is ready before its dataflow.
\<close>

lemma im_bbl_ok:
  assumes c: "im_ok n lo B c" and pb: "prevBbl c = Some pb" and blk: "im_block_ok n (uop (oooBbl pb))"
    and addrs: "ops_of UOP_LOAD (uop (oooBbl pb)) \<le> length (im_loadAddrs c)" "ops_of UOP_STORE (uop (oooBbl pb)) \<le> length (im_storeAddrs c)"
    and len: "B + length (uop (oooBbl pb)) * 2 ^ 19 < lo + 2 ^ 32" "B + length (uop (oooBbl pb)) * 2 ^ 19 < 2 ^ 60"
    and cnt: "instrs c + ucast (binstrs pb) = total_pcount g" and sb: "sb_after n f c"
  shows "\<exists>c'. im_bbl info c g = Some (c', endInterval g) \<and> im_ok n lo (B + length (uop (oooBbl pb)) * 2 ^ 19) c'
    \<and> prevBbl c' = Some info \<and> instrs c' = total_pcount g \<and> phaseEndCycle c' = phaseEndCycle c
    \<and> unat (curCycle c) \<le> unat (curCycle c')
    \<and> length (uop (oooBbl pb)) \<le> unat (im_width c) * (unat (curCycle c') - unat (curCycle c) + 1)
    \<and> sb_after n (flow im_lat (uop (oooBbl pb)) f) c'
    \<and> (\<exists>ks. im_issues (c\<lparr>prevBbl := Some info\<rparr>, 0, 0, 0) (uop (oooBbl pb)) = Some ks \<and> length ks = length (uop (oooBbl pb))
         \<and> issue_limit c ks c')"
proof -
  let ?us = "uop (oooBbl pb)" and ?D = "B + length (uop (oooBbl pb)) * 2 ^ 19"
  let ?c0 = "c\<lparr>prevBbl := Some info\<rparr>"
  have ops: "ops_of t ?us \<le> length ?us" for t by (simp add: ops_of_def)
  have "unat (curCycle c) \<le> B" "lo \<le> unat (curCycle c)" using c by (simp_all add: im_ok_def core_ok_def)
  then have "length ?us < 2 ^ 32" using len(1) by simp
  then have o32: "ops_of UOP_LOAD ?us < 2 ^ 32" "ops_of UOP_STORE ?us < 2 ^ 32" using ops le_less_trans by blast+
  have c0: "im_ok n lo B ?c0" "sb_after n f ?c0" using c sb by (simp_all add: im_ok_def core_ok_def sb_after_def)
  have "\<exists>c' li' si' prev'. run_all im_uop (?c0, 0, 0, 0) ?us = Some (c', li', si', prev')
    \<and> im_step n lo ?D ?c0 c' \<and> im_slots ?c0 + length ?us \<le> im_slots c' \<and> sb_after n (flow im_lat ?us f) c'
    \<and> (\<exists>ks. im_issues (?c0, 0, 0, 0) ?us = Some ks \<and> length ks = length ?us \<and> issue_limit ?c0 ks c')"
    by (rule im_uops_ok [OF c0(1) len(2,1) blk _ _ _ _ _ c0(2)]) (use addrs o32 in simp_all)
  then obtain c1 li si prev where c1: "run_all im_uop (?c0, 0, 0, 0) ?us = Some (c1, li, si, prev)"
    "im_step n lo ?D ?c0 c1" "im_slots ?c0 + length ?us \<le> im_slots c1" "sb_after n (flow im_lat ?us f) c1"
    and "\<exists>ks. im_issues (?c0, 0, 0, 0) ?us = Some ks \<and> length ks = length ?us \<and> issue_limit ?c0 ks c1" by blast
  then obtain ks where ks: "im_issues (?c0, 0, 0, 0) ?us = Some ks" "length ks = length ?us" "issue_limit ?c0 ks c1" by blast
  have fr: "prevBbl c1 = Some info" "instrs c1 = instrs c" "phaseEndCycle c1 = phaseEndCycle c" "im_width c1 = im_width c"
    "unat (curCycle c) \<le> unat (curCycle c1)" "im_ok n lo ?D c1" using c1(2) by (simp_all add: im_step_def im_frame_def)
  let ?c' = "c1\<lparr>instrs := instrs c1 + ucast (binstrs pb)\<rparr>"
  have run: "im_bbl info c g = Some (?c', endInterval g)" using c1(1) fr(2) cnt by (simp add: im_bbl_def pb)
  have "im_ok n lo ?D ?c'" using fr(6) by (simp add: im_ok_def core_ok_def)
  moreover have "length ?us \<le> unat (im_width c) * (unat (curCycle c1) - unat (curCycle c) + 1)"
  proof -
    have i: "unat (curCycleIssuedUops c1) \<le> unat (im_width c)" using fr(4,6) by (simp add: im_ok_def word_le_nat_alt)
    have "unat (im_width c) * unat (curCycle c) + length ?us \<le> unat (im_width c) * unat (curCycle c1) + unat (im_width c)"
      using c1(3) i fr(4) by (simp add: im_slots_def)
    moreover have "unat (im_width c) * unat (curCycle c1)
        = unat (im_width c) * unat (curCycle c) + unat (im_width c) * (unat (curCycle c1) - unat (curCycle c))"
      using fr(5) by (simp add: add_mult_distrib2 [symmetric])
    ultimately show ?thesis by (simp add: add_mult_distrib2)
  qed
  moreover have "sb_after n (flow im_lat ?us f) ?c'" using c1(4) by (simp add: sb_after_def)
  moreover have "issue_limit c ks ?c'" using ks(3) by (simp add: issue_limit_def)
  ultimately show ?thesis using run fr cnt ks(1,2) by (intro exI [of _ ?c']) simp
qed

section \<open>A new core\<close>

definition raw_ok :: "nat \<Rightarrow> RawMemory \<Rightarrow> bool" where
  "raw_ok B raw = (unat (raw_lastStore raw) \<le> B \<and> unat (raw_lastStoreAddr raw) \<le> B \<and> length (raw_fwd raw) = FWD_ENTRIES
     \<and> list_all (\<lambda>e. unat (storeCycle e) \<le> B) (raw_fwd raw))"

lemma im_ok_new:
  assumes "0 < n" "0 < width p" "0 < load_queue_cap p" "0 < store_queue_cap p" "0 < ins_win_cap p" "0 < rob_cap p" "0 < issue_queue_cap p"
    "raw_ok B raw" "16384 \<le> B"
  shows "im_ok n 0 B (IssueModel_new zi n p raw)"
proof -
  have rob: "rob_ok B (ReorderBuffer_new sz w)" if "0 < sz" for sz w
    using that rob_inv_new [OF that] by (simp add: rob_ok_def ReorderBuffer_new_def list_all_length)
  have q: "queue_ok B (CycleQueue_new (issue_queue_cap p))"
    using queue_inv_new [OF assms(7)] by (simp add: queue_ok_def CycleQueue_new_def list_all_length)
  have "win_inv (WindowStructure_new 8192 (ins_win_cap p) (raw_lastPort raw)) 0" by (rule win_inv_new) simp_all
  then have "win_ok B (WindowStructure_new 8192 (ins_win_cap p) (raw_lastPort raw)) 0"
    using assms(5,9) by (simp add: win_ok_def within_def WindowStructure_new_def)
  then show ?thesis using assms rob q
    by (simp add: im_ok_def core_ok_def IssueModel_new_def raw_ok_def list_all_length stage_defs)
qed

text \<open>
  Claim C24.  A block in the issue model.  On a core whose clocks lie in a window of \<open>2 ^ 32\<close> cycles, a block of
  one-slot uops with registers in range, a port each and ordered decode cycles is issued without tripping an
  assertion or leaving an array, and the core stays well formed, its clocks growing by at most \<open>2 ^ 19\<close> cycles a uop.
  The uops are issued in order, in cycles between the clock before and the clock after the block: in the present cycle no more than
  it has slots left, in any later one at most \<open>width + 1\<close> (the uop that a stall of the register file ports moves to the next cycle
  is not counted there), and over the block no more than \<open>width\<close> per cycle passed.  Every register is ready no earlier
  than the latencies along the dataflow of the block allow.
\<close>

theorem issue_model_block:
  assumes "im_ok n lo B c" "prevBbl c = Some pb" "im_block_ok n (uop (oooBbl pb))"
    "ops_of UOP_LOAD (uop (oooBbl pb)) \<le> length (im_loadAddrs c)" "ops_of UOP_STORE (uop (oooBbl pb)) \<le> length (im_storeAddrs c)"
    "B + length (uop (oooBbl pb)) * 2 ^ 19 < lo + 2 ^ 32" "B + length (uop (oooBbl pb)) * 2 ^ 19 < 2 ^ 60"
    "instrs c + ucast (binstrs pb) = total_pcount g" "sb_after n f c"
  shows "\<exists>c' ks. im_bbl info c g = Some (c', endInterval g) \<and> im_ok n lo (B + length (uop (oooBbl pb)) * 2 ^ 19) c'
    \<and> prevBbl c' = Some info \<and> instrs c' = total_pcount g \<and> unat (curCycle c) \<le> unat (curCycle c')
    \<and> im_issues (c\<lparr>prevBbl := Some info\<rparr>, 0, 0, 0) (uop (oooBbl pb)) = Some ks \<and> length ks = length (uop (oooBbl pb))
    \<and> sorted (map unat ks) \<and> (\<forall>k \<in> set ks. unat (curCycle c) \<le> unat k \<and> unat k \<le> unat (curCycle c'))
    \<and> count_list ks (curCycle c) + unat (curCycleIssuedUops c) \<le> unat (im_width c)
    \<and> (\<forall>k. count_list ks k \<le> unat (im_width c) + 1)
    \<and> length ks \<le> unat (im_width c) * (unat (curCycle c') - unat (curCycle c) + 1)
    \<and> sb_after n (flow im_lat (uop (oooBbl pb)) f) c'"
  using im_bbl_ok [OF assms, of info] unfolding issue_limit_def by (elim exE conjE) (intro exI conjI; assumption?; simp)

text \<open>A new core of width 1 and a block of a load into register 1 and two uops that need it.\<close>

definition ex_uop :: "u16 \<Rightarrow> u16 \<Rightarrow> u16 \<Rightarrow> u16 \<Rightarrow> UopType \<Rightarrow> DynUop" where
  "ex_uop s d l dc t = \<lparr>rs0 = s, rs1 = 0, rd0 = d, rd1 = 0, lat = l, decCycle = dc, utype = t, portMask = 4, extraSlots = 0\<rparr>"

definition ex_block :: BblInfo where
  "ex_block = \<lparr>bblIdx = 0, binstrs = 3, bbytes = 12,
     oooBbl = \<lparr>bblAddr = 4096, approxInstrs = 0, uop = [ex_uop 0 1 4 0 UOP_LOAD, ex_uop 1 2 1 0 UOP_GENERAL, ex_uop 2 3 7 1 UOP_GENERAL]\<rparr>\<rparr>"

definition ex_params :: OOOParams where
  "ex_params = \<lparr>width = 1, prf_ports = 3, load_queue_cap = 4, store_queue_cap = 4, rob_cap = 8, ins_win_cap = 4, issue_queue_cap = 4,
     PAg_bhr_log_cap = 1, PAg_bhr_bits = 1, PAg_pht_log_cap = 1, tage_num_tables = 1, tage_index_size = 1, fetch_bytes_per_cycle = 16\<rparr>"

definition ex_raw :: RawMemory where
  "ex_raw = \<lparr>raw_loadAddrs = replicate 4 0, raw_storeAddrs = replicate 4 0, raw_lastStore = 0, raw_lastStoreAddr = 0,
     raw_fwd = replicate 32 (FwdEntry_set 0 0), raw_lastPort = 0\<rparr>"

definition ex_counters :: Counters where
  "ex_counters = (Counters_new 100)\<lparr>total_pcount := 3\<rparr>"

definition ex_zinfo :: ZInfo where
  "ex_zinfo = \<lparr>phaseLength = 10000, globPhaseCycles = 0\<rparr>"

theorem issue_model_block_witness:
  "\<exists>c'. im_bbl ex_block ((IssueModel_new ex_zinfo 4 ex_params ex_raw)\<lparr>prevBbl := Some ex_block\<rparr>) ex_counters = Some (c', endInterval ex_counters)
     \<and> 2 \<le> unat (curCycle c') \<and> 12 \<le> unat (regScoreboard c' ! 3)"
proof -
  let ?c = "(IssueModel_new ex_zinfo 4 ex_params ex_raw)\<lparr>prevBbl := Some ex_block\<rparr>"
  have "im_ok 4 0 16384 (IssueModel_new ex_zinfo 4 ex_params ex_raw)"
    by (rule im_ok_new) (simp_all add: ex_params_def ex_raw_def raw_ok_def FWD_ENTRIES_def FwdEntry_set_def list_all_length)
  then have c: "im_ok 4 0 16384 ?c" by (simp add: im_ok_def core_ok_def)
  have sb: "sb_after 4 (\<lambda>_. 0) ?c" by (simp add: sb_after_def)
  have pre: "prevBbl ?c = Some ex_block" "im_block_ok 4 (uop (oooBbl ex_block))"
    "ops_of UOP_LOAD (uop (oooBbl ex_block)) \<le> length (im_loadAddrs ?c)" "ops_of UOP_STORE (uop (oooBbl ex_block)) \<le> length (im_storeAddrs ?c)"
    "16384 + length (uop (oooBbl ex_block)) * 2 ^ 19 < 0 + 2 ^ 32" "16384 + length (uop (oooBbl ex_block)) * 2 ^ 19 < 2 ^ 60"
    "instrs ?c + ucast (binstrs ex_block) = total_pcount ex_counters"
    by (simp_all add: ex_block_def ex_uop_def im_block_ok_def block_ok_def dec_sorted_def uop_ok_def IssueModel_new_def ex_raw_def ex_counters_def)
  obtain c' and ks :: "u64 list" where c': "im_bbl ex_block ?c ex_counters = Some (c', endInterval ex_counters)"
    "length ks = length (uop (oooBbl ex_block))" "length ks \<le> unat (im_width ?c) * (unat (curCycle c') - unat (curCycle ?c) + 1)"
    "sb_after 4 (flow im_lat (uop (oooBbl ex_block)) (\<lambda>_. 0)) c'"
    using issue_model_block [OF c pre sb, of ex_block] by blast
  have "length (uop (oooBbl ex_block)) = 3" by (simp add: ex_block_def)
  then have c'3: "3 \<le> unat (im_width ?c) * (unat (curCycle c') - unat (curCycle ?c) + 1)" using c'(2,3) by simp
  have "12 \<le> unat (regScoreboard c' ! 3)"
    using c'(4) [unfolded sb_after_def, rule_format, of 3] by (simp add: ex_block_def ex_uop_def im_lat_def src_ready_def Let_def)
  moreover have "2 \<le> unat (curCycle c')" using c'3 by (simp add: IssueModel_new_def ex_params_def)
  ultimately show ?thesis using c'(1) by blast
qed

end
