(* ===== verification/PrioQueue.thy ===== *)
theory PrioQueue
  imports Bits
begin

text \<open>
  The queue of the contention simulation (\<open>src/src/prio_queue.h\<close>): a ring of \<open>B\<close> blocks of 64 cycles for
  the near future and a sorted map for the elements further out.  Elements are addresses; those of one cycle
  form a list through their \<open>next\<close> field, which belongs to the queue.  The refinement: the queue holds a
  map from elements to cycles and takes out an element of the least cycle.
\<close>

section \<open>The queue\<close>

type_synonym links = "nat \<Rightarrow> nat option"

record PQBlock =
  pb_array :: "nat option list"
  pb_occ :: u64

definition PQBlock_new :: PQBlock where
  "PQBlock_new = \<lparr>pb_array = replicate 64 None, pb_occ = 0\<rparr>"

definition PQBlock_dequeue :: "links \<Rightarrow> PQBlock \<Rightarrow> (links \<times> PQBlock \<times> nat \<times> nat) option" where
  "PQBlock_dequeue nx b = do {
     _ \<leftarrow> require (pb_occ b \<noteq> 0);
     let pos = ctz (pb_occ b);
     head \<leftarrow> aget (pb_array b) pos;
     res \<leftarrow> head;
     let nxt = nx res;
     arr \<leftarrow> aset (pb_array b) pos nxt;
     Some (nx(res := None), b\<lparr>pb_array := arr, pb_occ := (if nxt = None then pb_occ b XOR push_bit pos 1 else pb_occ b)\<rparr>, res, pos)
   }"

definition PQBlock_enqueue :: "links \<Rightarrow> PQBlock \<Rightarrow> nat \<Rightarrow> nat \<Rightarrow> (links \<times> PQBlock) option" where
  "PQBlock_enqueue nx b obj pos = do {
     _ \<leftarrow> require (nx obj = None);
     head \<leftarrow> aget (pb_array b) pos;
     arr \<leftarrow> aset (pb_array b) pos (Some obj);
     Some (nx(obj := head), b\<lparr>pb_array := arr, pb_occ := pb_occ b OR push_bit pos 1\<rparr>)
   }"

text \<open>The far-element map is a list of pairs sorted by cycle, equal cycles in order of insertion.\<close>

record PrioQueue =
  pq_blocks :: "PQBlock list"
  feMap :: "(u64 \<times> nat) list"
  curBlock :: u64
  elems :: u64

definition PrioQueue_new :: "u32 \<Rightarrow> PrioQueue" where
  "PrioQueue_new B = \<lparr>pq_blocks = replicate (unat B) PQBlock_new, feMap = [], curBlock = 0, elems = 0\<rparr>"

definition feInsert :: "u64 \<Rightarrow> nat \<Rightarrow> (u64 \<times> nat) list \<Rightarrow> (u64 \<times> nat) list" where
  "feInsert cycle obj m = takeWhile (\<lambda>e. fst e \<le> cycle) m @ (cycle, obj) # dropWhile (\<lambda>e. fst e \<le> cycle) m"

text \<open>Putting an element into the block of its cycle.\<close>

definition pq_blockEnqueue :: "u32 \<Rightarrow> links \<Rightarrow> PrioQueue \<Rightarrow> nat \<Rightarrow> u64 \<Rightarrow> (links \<times> PrioQueue) option" where
  "pq_blockEnqueue B nx q obj cycle = do {
     let i = unat (cycle div 64 mod ucast B);
     b \<leftarrow> aget (pq_blocks q) i;
     (nx', b') \<leftarrow> PQBlock_enqueue nx b obj (unat (cycle mod 64));
     Some (nx', q\<lparr>pq_blocks := (pq_blocks q)[i := b']\<rparr>)
   }"

definition pq_enqueue :: "u32 \<Rightarrow> links \<Rightarrow> PrioQueue \<Rightarrow> nat \<Rightarrow> u64 \<Rightarrow> (links \<times> PrioQueue) option" where
  "pq_enqueue B nx q obj cycle = do {
     let absBlock = cycle div 64;
     _ \<leftarrow> require (absBlock \<ge> curBlock q);
     (nx', q') \<leftarrow> (if absBlock < curBlock q + ucast B then pq_blockEnqueue B nx q obj cycle
                    else Some (nx, q\<lparr>feMap := feInsert cycle obj (feMap q)\<rparr>));
     Some (nx', q'\<lparr>elems := elems q + 1\<rparr>)
   }"

text \<open>The far elements before \<open>topCycle\<close> move to the blocks; the list \<open>it\<close> is what the iterator has left.\<close>

fun pq_fill :: "u32 \<Rightarrow> u64 \<Rightarrow> links \<Rightarrow> PrioQueue \<Rightarrow> (u64 \<times> nat) list \<Rightarrow> (links \<times> PrioQueue) option" where
  "pq_fill B topCycle nx q [] = Some (nx, q\<lparr>feMap := []\<rparr>)"
| "pq_fill B topCycle nx q ((cycle, obj) # it) =
     (if cycle < topCycle then do {
        _ \<leftarrow> require (cycle div 64 \<ge> curBlock q);
        _ \<leftarrow> require (cycle div 64 < curBlock q + ucast B);
        (nx', q') \<leftarrow> pq_blockEnqueue B nx q obj cycle;
        pq_fill B topCycle nx' q' it
      }
      else Some (nx, q\<lparr>feMap := (cycle, obj) # it\<rparr>))"

text \<open>One round of the search for a block that has elements, and the search.\<close>

definition pq_nextBlock :: "u32 \<Rightarrow> links \<Rightarrow> PrioQueue \<Rightarrow> (links \<times> PrioQueue) option" where
  "pq_nextBlock B nx q = (let q1 = q\<lparr>curBlock := curBlock q + 1\<rparr> in
     if curBlock q1 mod ucast (B div 2) = 0 \<and> feMap q1 \<noteq> []
     then pq_fill B ((curBlock q1 + ucast B) * 64) nx q1 (feMap q1)
     else Some (nx, q1))"

partial_function (option) pq_seek :: "u32 \<Rightarrow> links \<Rightarrow> PrioQueue \<Rightarrow> (links \<times> PrioQueue) option" where
  "pq_seek B nx q = do {
     b \<leftarrow> aget (pq_blocks q) (unat (curBlock q mod ucast B));
     if pb_occ b \<noteq> 0 then Some (nx, q)
     else Option.bind (pq_nextBlock B nx q) (\<lambda>(nx', q'). pq_seek B nx' q')
   }"

declare pq_seek.simps [code]

text \<open>The element and its cycle.\<close>

definition pq_dequeue :: "u32 \<Rightarrow> links \<Rightarrow> PrioQueue \<Rightarrow> (links \<times> PrioQueue \<times> nat \<times> u64) option" where
  "pq_dequeue B nx q = do {
     _ \<leftarrow> require (elems q \<noteq> 0);
     (nx1, q1) \<leftarrow> pq_seek B nx q;
     let i = unat (curBlock q1 mod ucast B);
     b \<leftarrow> aget (pq_blocks q1) i;
     (nx2, b', obj, offset) \<leftarrow> PQBlock_dequeue nx1 b;
     Some (nx2, q1\<lparr>pq_blocks := (pq_blocks q1)[i := b'], elems := elems q1 - 1\<rparr>, obj, curBlock q1 * 64 + of_nat offset)
   }"

definition pq_size :: "PrioQueue \<Rightarrow> u64" where
  "pq_size q = elems q"

text \<open>The cycle of the first element in the blocks number \<open>i\<close> to \<open>i + n - 1\<close> from \<open>curBlock\<close>, if there is one.\<close>

fun pq_scan :: "u32 \<Rightarrow> PrioQueue \<Rightarrow> nat \<Rightarrow> nat \<Rightarrow> u64 option option" where
  "pq_scan B q i 0 = Some None"
| "pq_scan B q i (Suc n) = do {
     b \<leftarrow> aget (pq_blocks q) (unat ((curBlock q + of_nat i) mod ucast B));
     if pb_occ b \<noteq> 0 then Some (Some ((curBlock q + of_nat i) * 64 + of_nat (ctz (pb_occ b))))
     else pq_scan B q (Suc i) n
   }"

definition pq_firstCycle :: "u32 \<Rightarrow> PrioQueue \<Rightarrow> u64 option" where
  "pq_firstCycle B q = do {
     _ \<leftarrow> require (elems q \<noteq> 0);
     near \<leftarrow> pq_scan B q 0 (unat (B div 2));
     (case near of
        Some cycle \<Rightarrow> Some cycle
      | None \<Rightarrow> do {
          rest \<leftarrow> pq_scan B q (unat (B div 2)) (unat B - unat (B div 2));
          (case (rest, feMap q) of
             (Some cycle, []) \<Rightarrow> Some cycle
           | (Some cycle, e # _) \<Rightarrow> Some (c_MIN cycle (fst e))
           | (None, []) \<Rightarrow> None
           | (None, e # _) \<Rightarrow> Some (fst e))
        })
   }"

section \<open>Lists through the \<open>next\<close> fields\<close>

fun chain :: "links \<Rightarrow> nat option \<Rightarrow> nat list \<Rightarrow> bool" where
  "chain nx h [] = (h = None)"
| "chain nx h (x # xs) = (h = Some x \<and> chain nx (nx x) xs)"

lemma chain_frame [simp]: "x \<notin> set xs \<Longrightarrow> chain (nx(x := v)) h xs = chain nx h xs"
  by (induction xs arbitrary: h) auto

lemma chain_None [simp]: "chain nx None xs = (xs = [])"
  by (cases xs) auto

section \<open>The representation\<close>

text \<open>
  \<open>blocks_rep N nx bl cb L\<close>: the blocks \<open>bl\<close> store, for the cycles of the \<open>N\<close> blocks from \<open>cb\<close> on, the lists \<open>L\<close>,
  and no other element has a successor.
\<close>

definition in_range :: "nat \<Rightarrow> nat \<Rightarrow> nat \<Rightarrow> bool" where
  "in_range N cb c = (cb * 64 \<le> c \<and> c < (cb + N) * 64)"

definition blocks_rep :: "nat \<Rightarrow> links \<Rightarrow> PQBlock list \<Rightarrow> nat \<Rightarrow> (nat \<Rightarrow> nat list) \<Rightarrow> bool" where
  "blocks_rep N nx bl cb L =
     (length bl = N \<and> 0 < N \<and> (\<forall>i < N. length (pb_array (bl ! i)) = 64)
      \<and> (\<forall>c. in_range N cb c \<longrightarrow> chain nx (pb_array (bl ! (c div 64 mod N)) ! (c mod 64)) (L c)
            \<and> bit (pb_occ (bl ! (c div 64 mod N))) (c mod 64) = (L c \<noteq> []))
      \<and> (\<forall>c. \<not> in_range N cb c \<longrightarrow> L c = [])
      \<and> (\<forall>c. distinct (L c)) \<and> (\<forall>c d x. x \<in> set (L c) \<longrightarrow> x \<in> set (L d) \<longrightarrow> c = d)
      \<and> (\<forall>x. (\<forall>c. x \<notin> set (L c)) \<longrightarrow> nx x = None))"

lemma mod_window:
  assumes "(a :: nat) mod N = b mod N" "x \<le> a" "a < x + N" "x \<le> b" "b < x + N"
  shows "a = b"
proof -
  have *: "a = b" if eq: "a mod N = b mod N" and r: "x \<le> a" "b < x + N" "a \<le> b" for a b :: nat
  proof -
    obtain q where "b = a + N * q" using mod_eq_nat1E [OF eq [symmetric] r(3)] by blast
    moreover from this have "N * q < N" using r by linarith
    ultimately show ?thesis by (cases q) simp_all
  qed
  show ?thesis using *[of a b] *[of b a] assms by (cases "a \<le> b") simp_all
qed

text \<open>A slot of the ring stands for one cycle of the range.\<close>

lemma in_range_div: "in_range N cb c \<longleftrightarrow> cb \<le> c div 64 \<and> c div 64 < cb + N"
  by (auto simp: in_range_def div_less_iff_less_mult less_eq_div_iff_mult_less_eq)

lemma slot_cycle:
  assumes "in_range N cb c" "in_range N cb d" "c div 64 mod N = d div 64 mod N" "c mod 64 = d mod 64"
  shows "c = d"
proof -
  have "c div 64 = d div 64" by (rule mod_window [OF assms(3), of cb]) (use assms(1,2) in \<open>simp_all add: in_range_div\<close>)
  then show ?thesis using assms(4) by (metis div_mult_mod_eq)
qed

section \<open>Blocks\<close>

lemma bit_slot: "p < 64 \<Longrightarrow> bit (2 ^ p :: u64) k = (k = p)"
  by (auto simp: bit_exp_iff)

lemma unat_slot:
  "unat ((c :: u64) div 64 mod ucast (B :: u32)) = unat c div 64 mod unat B" "unat (c mod 64) = unat c mod 64"
  by (simp_all add: unat_mod unat_div)

lemma unat_mul64: "unat (x :: u64) * 64 < 2 ^ 64 \<Longrightarrow> unat (x * 64) = unat x * 64"
  by (simp add: unat_mult_lem [THEN iffD1])

lemma blocks_repD:
  assumes "blocks_rep N nx bl cb L"
  shows "length bl = N" "0 < N" "i < N \<Longrightarrow> length (pb_array (bl ! i)) = 64" "distinct (L c)"
    "x \<in> set (L c) \<Longrightarrow> x \<in> set (L d) \<Longrightarrow> c = d" "(\<And>c. x \<notin> set (L c)) \<Longrightarrow> nx x = None" "\<not> in_range N cb c \<Longrightarrow> L c = []"
    "in_range N cb c \<Longrightarrow> chain nx (pb_array (bl ! (c div 64 mod N)) ! (c mod 64)) (L c)"
    "in_range N cb c \<Longrightarrow> bit (pb_occ (bl ! (c div 64 mod N))) (c mod 64) = (L c \<noteq> [])"
  using assms by (auto simp: blocks_rep_def)

text \<open>Changing the list of one cycle: what the new block and links must satisfy.\<close>

lemma blocks_rep_update:
  assumes rep: "blocks_rep N nx bl cb L" and c: "in_range N cb c"
    and b: "length (pb_array b) = 64" "chain nx' (pb_array b ! (c mod 64)) xs" "bit (pb_occ b) (c mod 64) = (xs \<noteq> [])"
    and same: "\<And>p. p < 64 \<Longrightarrow> p \<noteq> c mod 64 \<Longrightarrow> pb_array b ! p = pb_array (bl ! (c div 64 mod N)) ! p
        \<and> bit (pb_occ b) p = bit (pb_occ (bl ! (c div 64 mod N))) p"
    and links: "\<And>d h. d \<noteq> c \<Longrightarrow> chain nx' h (L d) = chain nx h (L d)"
    and xs: "distinct xs" "\<And>d x. d \<noteq> c \<Longrightarrow> x \<in> set xs \<Longrightarrow> x \<notin> set (L d)"
    and none: "\<And>x. x \<notin> set xs \<Longrightarrow> (\<And>d. d \<noteq> c \<Longrightarrow> x \<notin> set (L d)) \<Longrightarrow> nx' x = None"
  shows "blocks_rep N nx' (bl[c div 64 mod N := b]) cb (L(c := xs))"
proof -
  note r = blocks_repD [OF rep]
  have i: "c div 64 mod N < length bl" using r(1,2) by simp
  have slots: "chain nx' (pb_array (bl[c div 64 mod N := b] ! (d div 64 mod N)) ! (d mod 64)) ((L(c := xs)) d)
      \<and> bit (pb_occ (bl[c div 64 mod N := b] ! (d div 64 mod N))) (d mod 64) = ((L(c := xs)) d \<noteq> [])"
    if d: "in_range N cb d" for d
  proof (cases "d = c")
    case True
    then show ?thesis using b i by simp
  next
    case False
    have old: "chain nx (pb_array (bl ! (d div 64 mod N)) ! (d mod 64)) (L d)"
      "bit (pb_occ (bl ! (d div 64 mod N))) (d mod 64) = (L d \<noteq> [])" using r(8,9) [OF d] by simp_all
    show ?thesis
    proof (cases "d div 64 mod N = c div 64 mod N")
      case True
      then have "d mod 64 \<noteq> c mod 64" using slot_cycle [OF d c True] False by blast
      then show ?thesis using same [of "d mod 64"] old links False i True by simp
    next
      case False
      then show ?thesis using old links \<open>d \<noteq> c\<close> by simp
    qed
  qed
  have other: "x = y" if "z \<in> set ((L(c := xs)) x)" "z \<in> set ((L(c := xs)) y)" for x y z
    using that r(5) [of z x y] xs(2) by (cases "x = c"; cases "y = c") auto
  have free: "nx' x = None" if "\<forall>d. x \<notin> set ((L(c := xs)) d)" for x
    using that by (intro none) (metis fun_upd_same, metis fun_upd_other)
  show ?thesis unfolding blocks_rep_def
  proof (intro conjI)
    show "length (bl[c div 64 mod N := b]) = N" using r(1) by simp
    show "\<forall>i < N. length (pb_array (bl[c div 64 mod N := b] ! i)) = 64"
      using r(1,3) b(1) by (simp add: nth_list_update)
    show "\<forall>d. \<not> in_range N cb d \<longrightarrow> (L(c := xs)) d = []" using r(7) c by auto
    show "\<forall>d. distinct ((L(c := xs)) d)" using r(4) xs(1) by simp
  qed (use r(1,2) slots other free in blast)+
qed

lemma block_enqueue_ok:
  assumes rep: "blocks_rep (unat B) nx (pq_blocks q) cb L" and c: "in_range (unat B) cb (unat c)" and new: "\<And>d. obj \<notin> set (L d)"
  shows "\<exists>nx' bl. pq_blockEnqueue B nx q obj c = Some (nx', q\<lparr>pq_blocks := bl\<rparr>)
    \<and> blocks_rep (unat B) nx' bl cb (L(unat c := obj # L (unat c)))"
proof -
  let ?N = "unat B" and ?c = "unat c"
  note r = blocks_repD [OF rep]
  have i: "?c div 64 mod ?N < length (pq_blocks q)" using r(1,2) by simp
  define b where "b = pq_blocks q ! (?c div 64 mod ?N)"
  have arr: "length (pb_array b) = 64" using r(1,3) i by (simp add: b_def)
  let ?h = "pb_array b ! (?c mod 64)"
  let ?nx = "nx(obj := ?h)" and ?b = "b\<lparr>pb_array := (pb_array b)[?c mod 64 := Some obj], pb_occ := pb_occ b OR push_bit (?c mod 64) 1\<rparr>"
  have old: "chain nx ?h (L ?c)" using r(8) [OF c] by (simp add: b_def)
  have "nx obj = None" using r(6) new by blast
  then have run: "pq_blockEnqueue B nx q obj c = Some (?nx, q\<lparr>pq_blocks := (pq_blocks q)[?c div 64 mod ?N := ?b]\<rparr>)"
    using i arr unfolding pq_blockEnqueue_def PQBlock_enqueue_def unat_slot Let_def by (simp add: b_def)
  have "blocks_rep ?N ?nx ((pq_blocks q)[?c div 64 mod ?N := ?b]) cb (L(?c := obj # L ?c))"
  proof (rule blocks_rep_update [OF rep c])
    show "chain ?nx (pb_array ?b ! (?c mod 64)) (obj # L ?c)" using old arr new by simp
    show "distinct (obj # L ?c)" using r(4) new by simp
    show "d \<noteq> ?c \<Longrightarrow> x \<in> set (obj # L ?c) \<Longrightarrow> x \<notin> set (L d)" for d x using r(5) new by auto
    show "x \<notin> set (obj # L ?c) \<Longrightarrow> (\<And>d. d \<noteq> ?c \<Longrightarrow> x \<notin> set (L d)) \<Longrightarrow> ?nx x = None" for x
      using r(6) [of x] by (metis fun_upd_other list.set_intros)
  qed (use arr new in \<open>simp_all add: bit_or_iff bit_slot b_def\<close>)
  then show ?thesis using run by blast
qed

lemma block_dequeue_ok:
  assumes rep: "blocks_rep N nx bl cb L" and occ: "pb_occ (bl ! (cb mod N)) \<noteq> 0"
  shows "\<exists>p x xs nx' b. PQBlock_dequeue nx (bl ! (cb mod N)) = Some (nx', b, x, p) \<and> p < 64 \<and> L (cb * 64 + p) = x # xs
    \<and> blocks_rep N nx' (bl[cb mod N := b]) cb (L(cb * 64 + p := xs)) \<and> (\<forall>d < cb * 64 + p. L d = [])"
proof -
  note r = blocks_repD [OF rep]
  let ?b = "bl ! (cb mod N)"
  let ?p = "ctz (pb_occ ?b)"
  note p = ctz_bit [OF occ]
  have p64: "?p < 64" using p(1) by simp
  define c where "c = cb * 64 + ?p"
  have c: "in_range N cb c" "c div 64 = cb" "c mod 64 = ?p" using p64 r(2) by (simp_all add: in_range_def c_def)
  have ne: "L c \<noteq> []" using r(9) [OF c(1)] p(2) c by simp
  then obtain x xs where L: "L c = x # xs" by (cases "L c") auto
  have ch: "pb_array ?b ! ?p = Some x" "chain nx (nx x) xs" using r(8) [OF c(1)] c L by simp_all
  have arr: "length (pb_array ?b) = 64" using r(2,3) by simp
  let ?nx = "nx(x := None)"
  let ?b' = "?b\<lparr>pb_array := (pb_array ?b)[?p := nx x], pb_occ := (if nx x = None then pb_occ ?b XOR push_bit ?p 1 else pb_occ ?b)\<rparr>"
  have run: "PQBlock_dequeue nx ?b = Some (?nx, ?b', x, ?p)" using occ ch(1) arr p64 by (simp add: PQBlock_dequeue_def Let_def)
  have xin: "x \<notin> set xs" using r(4) [of c] L by simp
  have last: "xs = [] \<longleftrightarrow> nx x = None" using ch(2) by (cases xs) auto
  have "blocks_rep N ?nx (bl[c div 64 mod N := ?b']) cb (L(c := xs))"
  proof (rule blocks_rep_update [OF rep c(1)])
    show "chain ?nx (pb_array ?b' ! (c mod 64)) xs" using ch(2) xin arr p64 c by simp
    show "bit (pb_occ ?b') (c mod 64) = (xs \<noteq> [])" using p(2) last c by (simp add: bit_xor_iff bit_slot p64)
    show "distinct xs" using r(4) [of c] L by simp
    show "d \<noteq> c \<Longrightarrow> y \<in> set xs \<Longrightarrow> y \<notin> set (L d)" for d y using r(5) [of y c d] L by auto
    have "x \<notin> set (L d)" if "d \<noteq> c" for d using r(5) [of x c d] that L by auto
    then show "d \<noteq> c \<Longrightarrow> chain ?nx h (L d) = chain nx h (L d)" for d h by simp
    show "y \<notin> set xs \<Longrightarrow> (\<And>d. d \<noteq> c \<Longrightarrow> y \<notin> set (L d)) \<Longrightarrow> ?nx y = None" for y
      using r(6) [of y] L by (metis fun_upd_apply set_ConsD)
  qed (use arr c p64 in \<open>simp_all add: bit_xor_iff bit_slot\<close>)
  moreover have "L d = []" if "d < c" for d
  proof (cases "in_range N cb d")
    case False
    then show ?thesis using r(7) by blast
  next
    case True
    then have "d div 64 = cb" using that c(2) by (metis div_le_mono in_range_div le_antisym less_imp_le)
    moreover from this have "d mod 64 < ?p" using that c by (metis div_mult_mod_eq nat_add_left_cancel_less)
    then have "\<not> bit (pb_occ ?b) (d mod 64)" by (rule ctz_lower)
    ultimately show ?thesis using r(9) [OF True] by simp
  qed
  ultimately show ?thesis using run p64 L c(2) by (intro exI [of _ ?p] exI [of _ x] exI [of _ xs] exI [of _ ?nx] exI [of _ ?b']) (simp add: c_def)
qed

section \<open>The queue as a map from elements to cycles\<close>

definition content :: "(nat \<Rightarrow> nat list) \<Rightarrow> (u64 \<times> nat) list \<Rightarrow> nat \<Rightarrow> nat \<Rightarrow> bool" where
  "content L m x c = (x \<in> set (L c) \<or> (\<exists>w. (w, x) \<in> set m \<and> unat w = c))"

text \<open>No far element is before this cycle.\<close>

definition far_floor :: "u32 \<Rightarrow> nat \<Rightarrow> nat" where
  "far_floor B cb = (cb div unat (B div 2) * unat (B div 2) + unat B) * 64"

definition far_ok :: "nat \<Rightarrow> (nat \<Rightarrow> nat list) \<Rightarrow> (u64 \<times> nat) list \<Rightarrow> bool" where
  "far_ok c0 L m = (sorted (map fst m) \<and> distinct (map snd m) \<and> (\<forall>w x. (w, x) \<in> set m \<longrightarrow> c0 \<le> unat w \<and> (\<forall>c. x \<notin> set (L c))))"

definition pq_lists :: "u32 \<Rightarrow> links \<Rightarrow> PrioQueue \<Rightarrow> (nat \<Rightarrow> nat list) \<Rightarrow> (nat \<Rightarrow> nat option) \<Rightarrow> bool" where
  "pq_lists B nx q L A =
     (2 \<le> unat B \<and> blocks_rep (unat B) nx (pq_blocks q) (unat (curBlock q)) L
      \<and> far_ok (far_floor B (unat (curBlock q))) L (feMap q)
      \<and> (\<forall>x c. A x = Some c \<longleftrightarrow> content L (feMap q) x c)
      \<and> finite (Map.dom A) \<and> unat (elems q) = card (Map.dom A)
      \<and> (\<forall>x c. A x = Some c \<longrightarrow> c < 2 ^ 63) \<and> unat (curBlock q) < 2 ^ 57)"

definition pq_rep :: "u32 \<Rightarrow> links \<times> PrioQueue \<Rightarrow> (nat \<Rightarrow> nat option) \<Rightarrow> bool" where
  "pq_rep B s A = (\<exists>L. pq_lists B (fst s) (snd s) L A)"

lemma far_floor_bounds:
  assumes "2 \<le> unat B"
  shows "(cb + unat (B div 2)) * 64 \<le> far_floor B cb" "cb * 64 + 64 \<le> far_floor B cb" "0 < unat (B div 2)"
    "unat (B div 2) \<le> unat B" "far_floor B cb \<le> (cb + unat B) * 64"
proof -
  have h: "unat (B div 2) = unat B div 2" by (simp add: unat_div)
  show pos: "0 < unat (B div 2)" and le: "unat (B div 2) \<le> unat B" using assms by (simp_all add: h)
  have "cb < cb div unat (B div 2) * unat (B div 2) + unat (B div 2)"
    using pos by (metis add.commute dividend_less_div_times mult.commute)
  then have "cb + unat (B div 2) \<le> cb div unat (B div 2) * unat (B div 2) + unat B" using h by linarith
  then show a: "(cb + unat (B div 2)) * 64 \<le> far_floor B cb" by (simp add: far_floor_def)
  then show "cb * 64 + 64 \<le> far_floor B cb" using pos by (simp add: algebra_simps)
  have "cb div unat (B div 2) * unat (B div 2) \<le> cb" by simp
  then show "far_floor B cb \<le> (cb + unat B) * 64" unfolding far_floor_def by (intro mult_le_mono1 add_le_mono1)
qed

lemma far_ok_mono: "far_ok c L m \<Longrightarrow> d \<le> c \<Longrightarrow> far_ok d L m"
  by (auto simp: far_ok_def intro: order_trans)

text \<open>Going past an empty block.\<close>

lemma blocks_rep_shift:
  assumes rep: "blocks_rep N nx bl cb L" and occ: "pb_occ (bl ! (cb mod N)) = 0"
  shows "blocks_rep N nx bl (cb + 1) L" "c div 64 = cb \<Longrightarrow> L c = []"
proof -
  note r = blocks_repD [OF rep]
  have empty: "L c = []" "in_range N cb c" if "c div 64 = cb" for c
    using r(9) [of c] that occ r(2) by (simp_all add: in_range_div)
  then show "c div 64 = cb \<Longrightarrow> L c = []" by simp
  have slots: "chain nx (pb_array (bl ! (c div 64 mod N)) ! (c mod 64)) (L c)
      \<and> bit (pb_occ (bl ! (c div 64 mod N))) (c mod 64) = (L c \<noteq> [])" if c: "in_range N (cb + 1) c" for c
  proof (cases "in_range N cb c")
    case True
    then show ?thesis using r(8,9) by blast
  next
    case False
    then have d: "c div 64 = cb + N" using c by (auto simp: in_range_div)
    let ?d = "cb * 64 + c mod 64"
    have "L ?d = []" "in_range N cb ?d" using empty [of ?d] by simp_all
    then show ?thesis using r(7) [OF False] r(8) [of ?d] occ d by simp
  qed
  have out: "L c = []" if "\<not> in_range N (cb + 1) c" for c
  proof (cases "in_range N cb c")
    case True
    then have "c div 64 = cb" using that by (auto simp: in_range_div)
    then show ?thesis using empty by blast
  next
    case False
    then show ?thesis using r(7) by blast
  qed
  show "blocks_rep N nx bl (cb + 1) L" unfolding blocks_rep_def
  proof (intro conjI)
    show "\<forall>i < N. length (pb_array (bl ! i)) = 64" using r(3) by blast
    show "\<forall>c. in_range N (cb + 1) c \<longrightarrow> chain nx (pb_array (bl ! (c div 64 mod N)) ! (c mod 64)) (L c)
      \<and> bit (pb_occ (bl ! (c div 64 mod N))) (c mod 64) = (L c \<noteq> [])" using slots by blast
    show "\<forall>c. \<not> in_range N (cb + 1) c \<longrightarrow> L c = []" using out by blast
  qed (use r(1,2,4-6) in blast)+
qed

text \<open>Moving far elements keeps the contents.\<close>

lemma pq_fill_ok:
  assumes "blocks_rep (unat B) nx (pq_blocks q) cb L" "far_ok (cb * 64) L it" "unat (curBlock q) = cb" "cb < 2 ^ 57"
    "unat tp = (cb + unat B) * 64"
  shows "\<exists>nx' bl L' rest. pq_fill B tp nx q it = Some (nx', q\<lparr>pq_blocks := bl, feMap := rest\<rparr>)
    \<and> blocks_rep (unat B) nx' bl cb L' \<and> far_ok (unat tp) L' rest \<and> (\<forall>x c. content L' rest x c \<longleftrightarrow> content L it x c)"
  using assms
proof (induction it arbitrary: nx q L)
  case Nil
  then show ?case
    by (intro exI [of _ nx] exI [of _ "pq_blocks q"] exI [of _ L] exI [of _ "[]"]) (simp add: far_ok_def)
next
  case (Cons e it)
  obtain c x where e: "e = (c, x)" by (cases e)
  have far: "cb * 64 \<le> unat c" "\<And>d. x \<notin> set (L d)" "far_ok (cb * 64) L it" "\<And>w y. (w, y) \<in> set it \<Longrightarrow> c \<le> w \<and> y \<noteq> x"
    using Cons.prems(2) by (force simp: far_ok_def e)+
  show ?case
  proof (cases "c < tp")
    case False
    then have tp: "unat tp \<le> unat c" by (simp add: not_less word_le_nat_alt)
    have "unat tp \<le> unat w" if "(w, y) \<in> set (e # it)" for w y
      using that far(4) [of w y] tp by (auto simp: e word_le_nat_alt)
    then have "far_ok (unat tp) L (e # it)" using Cons.prems(2) unfolding far_ok_def by blast
    then show ?thesis using False Cons.prems(1) e
      by (intro exI [of _ nx] exI [of _ "pq_blocks q"] exI [of _ L] exI [of _ "e # it"]) simp
  next
    case True
    then have r: "in_range (unat B) cb (unat c)" using far(1) Cons.prems(5) by (simp add: in_range_def word_less_nat_alt)
    have "unat (curBlock q + ucast B) = cb + unat B" using Cons.prems(3,4) unat_u32_lt [of B] by (subst unat_add_u64) (simp_all del: unat_u32_lt)
    then have chk: "curBlock q \<le> c div 64" "c div 64 < curBlock q + ucast B"
      using r Cons.prems(3) by (simp_all add: in_range_div word_le_nat_alt word_less_nat_alt unat_div)
    obtain nx1 bl where b: "pq_blockEnqueue B nx q x c = Some (nx1, q\<lparr>pq_blocks := bl\<rparr>)"
      "blocks_rep (unat B) nx1 bl cb (L(unat c := x # L (unat c)))" using block_enqueue_ok [OF Cons.prems(1) r far(2)] by blast
    let ?q = "q\<lparr>pq_blocks := bl\<rparr>" and ?L = "L(unat c := x # L (unat c))"
    have "blocks_rep (unat B) nx1 (pq_blocks ?q) cb ?L" "unat (curBlock ?q) = cb" using b(2) Cons.prems(3) by simp_all
    moreover have "far_ok (cb * 64) ?L it" using far(3,4) by (auto simp: far_ok_def)
    ultimately obtain nx' bl' L' rest where f: "pq_fill B tp nx1 ?q it = Some (nx', ?q\<lparr>pq_blocks := bl', feMap := rest\<rparr>)"
      "blocks_rep (unat B) nx' bl' cb L'" "far_ok (unat tp) L' rest" "\<forall>y d. content L' rest y d \<longleftrightarrow> content ?L it y d"
      using Cons.IH [of nx1 ?q ?L] Cons.prems(4,5) by blast
    have "content ?L it y d \<longleftrightarrow> content L (e # it) y d" for y d by (auto simp: content_def e)
    moreover have "pq_fill B tp nx q (e # it) = Some (nx', q\<lparr>pq_blocks := bl', feMap := rest\<rparr>)"
      using True chk b(1) f(1) by (simp add: e)
    ultimately show ?thesis using f(2-4) by (intro exI [of _ nx'] exI [of _ bl'] exI [of _ L'] exI [of _ rest]) simp
  qed
qed

section \<open>The search for the next block\<close>

lemma pq_listsD:
  assumes "pq_lists B nx q L A"
  shows "2 \<le> unat B" "blocks_rep (unat B) nx (pq_blocks q) (unat (curBlock q)) L"
    "far_ok (far_floor B (unat (curBlock q))) L (feMap q)" "A x = Some c \<longleftrightarrow> content L (feMap q) x c"
    "finite (Map.dom A)" "unat (elems q) = card (Map.dom A)" "A x = Some c \<Longrightarrow> c < 2 ^ 63" "unat (curBlock q) < 2 ^ 57"
  using assms unfolding pq_lists_def by blast+

text \<open>No element is before the current block.\<close>

lemma pq_lists_lower:
  assumes "pq_lists B nx q L A" "A x = Some c"
  shows "unat (curBlock q) * 64 \<le> c"
proof -
  note r = pq_listsD [OF assms(1)]
  have "content L (feMap q) x c" using r(4) assms(2) by blast
  then consider "x \<in> set (L c)" | w where "(w, x) \<in> set (feMap q)" "unat w = c" by (auto simp: content_def)
  then show ?thesis
  proof cases
    case 1
    then have "L c \<noteq> []" by auto
    then have "in_range (unat B) (unat (curBlock q)) c" using blocks_repD(7) [OF r(2), of c] by blast
    then show ?thesis by (simp add: in_range_def)
  next
    case 2
    then have "far_floor B (unat (curBlock q)) \<le> c" using r(3) by (auto simp: far_ok_def)
    then show ?thesis using far_floor_bounds(2) [OF r(1), of "unat (curBlock q)"] by linarith
  qed
qed

lemma pq_nextBlock_ok:
  assumes q: "pq_lists B nx q L A" and occ: "pb_occ (pq_blocks q ! (unat (curBlock q) mod unat B)) = 0" and x: "A x = Some c"
  shows "\<exists>nx' q' L'. pq_nextBlock B nx q = Some (nx', q') \<and> pq_lists B nx' q' L' A \<and> unat (curBlock q') = unat (curBlock q) + 1
    \<and> unat (curBlock q') \<le> c div 64 \<and> elems q' = elems q"
proof -
  note r = pq_listsD [OF q]
  let ?cb = "unat (curBlock q)" and ?N = "unat B" and ?h = "unat (B div 2)"
  note ff = far_floor_bounds [OF r(1)]
  have le: "?cb + 1 \<le> c div 64"
  proof -
    have "content L (feMap q) x c" using r(4) x by blast
    then consider "x \<in> set (L c)" | w where "(w, x) \<in> set (feMap q)" "unat w = c" by (auto simp: content_def)
    then show ?thesis
    proof cases
      case 1
      then have "c div 64 \<noteq> ?cb" using blocks_rep_shift(2) [OF r(2) occ, of c] by auto
      moreover have "?cb \<le> c div 64" using pq_lists_lower [OF q x] by (simp add: less_eq_div_iff_mult_less_eq)
      ultimately show ?thesis by linarith
    next
      case 2
      then have "far_floor B ?cb \<le> c" using r(3) by (auto simp: far_ok_def)
      then have "(?cb + 1) * 64 \<le> c" using ff(2) [of ?cb] by simp
      then show ?thesis by (simp add: less_eq_div_iff_mult_less_eq)
    qed
  qed
  have "c < 2 ^ 63" using r(7) x by blast
  then have cb57: "?cb + 1 < 2 ^ 57" using le by (simp add: less_mult_imp_div_less)
  then have cb1: "unat (curBlock q + 1) = ?cb + 1" by (intro unat_add_u64 [THEN trans]) simp_all
  have rep1: "blocks_rep ?N nx (pq_blocks q) (?cb + 1) L" by (rule blocks_rep_shift(1) [OF r(2) occ])
  have far1: "far_ok ((?cb + 1) * 64) L (feMap q)" by (rule far_ok_mono [OF r(3)]) (use ff(2) [of ?cb] in simp)
  let ?q1 = "q\<lparr>curBlock := curBlock q + 1\<rparr>"
  have uh: "unat (curBlock ?q1 mod ucast (B div 2)) = (?cb + 1) mod ?h" by (simp add: unat_mod cb1)
  show ?thesis
  proof (cases "(?cb + 1) mod ?h = 0 \<and> feMap q \<noteq> []")
    case True
    have N32: "?N < 2 ^ 32" by (rule unat_u32_lt [THEN less_le_trans]) simp
    then have sum: "unat (curBlock q + 1 + ucast B) = ?cb + 1 + ?N"
      using cb57 by (subst unat_add_u64) (simp_all add: cb1 del: unat_u32_lt)
    have "(?cb + 1 + ?N) * 64 < 2 ^ 64" using cb57 N32 by (simp del: unat_u32_lt)
    then have "unat ((curBlock q + 1 + ucast B) * 64) = (?cb + 1 + ?N) * 64" using unat_mul64 [of "curBlock q + 1 + ucast B"] sum by presburger
    moreover have "curBlock ?q1 = curBlock q + 1" by simp
    ultimately have tp: "unat ((curBlock ?q1 + ucast B) * 64) = (?cb + 1 + ?N) * 64" by (simp only:)
    have cbq: "unat (curBlock ?q1) = ?cb + 1" and rep1': "blocks_rep ?N nx (pq_blocks ?q1) (?cb + 1) L"
      using cb1 rep1 by simp_all
    obtain nx' bl L' rest where f: "pq_fill B ((curBlock ?q1 + ucast B) * 64) nx ?q1 (feMap q) = Some (nx', ?q1\<lparr>pq_blocks := bl, feMap := rest\<rparr>)"
      "blocks_rep ?N nx' bl (?cb + 1) L'" "far_ok (unat ((curBlock ?q1 + ucast B) * 64)) L' rest"
      "\<forall>x c. content L' rest x c \<longleftrightarrow> content L (feMap q) x c"
      using pq_fill_ok [OF rep1' far1 cbq cb57 tp] by blast
    have "(?cb + 1) div ?h * ?h + (?cb + 1) mod ?h = ?cb + 1" by (rule div_mult_mod_eq)
    then have "(?cb + 1) div ?h * ?h = ?cb + 1" using conjunct1 [OF True] by linarith
    then have "far_floor B (?cb + 1) = (?cb + 1 + ?N) * 64" by (simp only: far_floor_def)
    then have "far_ok (far_floor B (?cb + 1)) L' rest" using f(3) tp by simp
    then have "pq_lists B nx' (?q1\<lparr>pq_blocks := bl, feMap := rest\<rparr>) L' A"
      using q f(2,4) cb1 cb57 by (simp add: pq_lists_def)
    moreover have "pq_nextBlock B nx q = Some (nx', ?q1\<lparr>pq_blocks := bl, feMap := rest\<rparr>)"
      using True f(1) uh by (simp add: pq_nextBlock_def unat_eq_0 [symmetric])
    ultimately show ?thesis using cb1 le by (intro exI [of _ nx'] exI [of _ "?q1\<lparr>pq_blocks := bl, feMap := rest\<rparr>"] exI [of _ L']) simp
  next
    case False
    have "far_ok (far_floor B (?cb + 1)) L (feMap q)"
    proof (cases "feMap q = []")
      case True
      then show ?thesis by (simp add: far_ok_def)
    next
      case nonempty: False
      then have "(?cb + 1) mod ?h \<noteq> 0" using False by simp
      then have "(?cb + 1) div ?h = ?cb div ?h" by (simp add: div_Suc)
      then show ?thesis using r(3) by (simp add: far_floor_def)
    qed
    then have "pq_lists B nx ?q1 L A" using q rep1 cb1 cb57 by (simp add: pq_lists_def)
    moreover have "pq_nextBlock B nx q = Some (nx, ?q1)"
      using False uh by (auto simp: pq_nextBlock_def unat_eq_0 [symmetric])
    ultimately show ?thesis using cb1 le by (intro exI [of _ nx] exI [of _ ?q1] exI [of _ L]) simp
  qed
qed

lemma pq_seek_ok:
  assumes "pq_lists B nx q L A" "A x = Some c"
  shows "\<exists>nx' q' L'. pq_seek B nx q = Some (nx', q') \<and> pq_lists B nx' q' L' A \<and> elems q' = elems q
    \<and> pb_occ (pq_blocks q' ! (unat (curBlock q') mod unat B)) \<noteq> 0"
  using assms
proof (induction "c div 64 - unat (curBlock q)" arbitrary: nx q L rule: less_induct)
  case less
  note r = pq_listsD [OF less.prems(1)]
  have i: "unat (curBlock q mod ucast B) = unat (curBlock q) mod unat B" by (simp add: unat_mod)
  have "unat (curBlock q) mod unat B < length (pq_blocks q)" using blocks_repD(1,2) [OF r(2)] by simp
  then have get: "aget (pq_blocks q) (unat (curBlock q mod ucast B)) = Some (pq_blocks q ! (unat (curBlock q) mod unat B))"
    unfolding i by simp
  show ?case
  proof (cases "pb_occ (pq_blocks q ! (unat (curBlock q) mod unat B)) = 0")
    case False
    then show ?thesis using less.prems get by (subst pq_seek.simps) auto
  next
    case True
    obtain nx1 q1 L1 where s: "pq_nextBlock B nx q = Some (nx1, q1)" "pq_lists B nx1 q1 L1 A"
      "unat (curBlock q1) = unat (curBlock q) + 1" "unat (curBlock q1) \<le> c div 64" "elems q1 = elems q"
      using pq_nextBlock_ok [OF less.prems(1) True less.prems(2)] by blast
    have "c div 64 - unat (curBlock q1) < c div 64 - unat (curBlock q)" using s(3,4) by linarith
    from less.hyps [OF this s(2) less.prems(2)] show ?thesis
      using True get s(1,5) by (subst pq_seek.simps) auto
  qed
qed

section \<open>The operations\<close>

lemma feInsert_split:
  "\<exists>m1 m2. m = m1 @ m2 \<and> feInsert c x m = m1 @ (c, x) # m2 \<and> (\<forall>e \<in> set m1. fst e \<le> c)
     \<and> (sorted (map fst m) \<longrightarrow> (\<forall>e \<in> set m2. c < fst e))"
proof -
  let ?P = "\<lambda>e :: u64 \<times> nat. fst e \<le> c"
  have "c < fst e" if "sorted (map fst m)" "e \<in> set (dropWhile ?P m)" for e
  proof -
    from that(2) obtain h t where h: "dropWhile ?P m = h # t" by (cases "dropWhile ?P m") auto
    have "sorted (map fst (takeWhile ?P m @ h # t))" using that(1) h by (metis takeWhile_dropWhile_id)
    then have "fst h \<le> fst e" using that(2) h by (auto simp: sorted_append)
    moreover have "\<not> fst h \<le> c" using hd_dropWhile [of ?P m] h by simp
    ultimately show ?thesis by simp
  qed
  then show ?thesis
    by (intro exI [of _ "takeWhile ?P m"] exI [of _ "dropWhile ?P m"]) (auto simp: feInsert_def dest: set_takeWhileD)
qed

lemma set_feInsert: "set (feInsert c x m) = insert (c, x) (set m)"
  using feInsert_split [of m c x] by auto

lemma sorted_feInsert: "sorted (map fst m) \<Longrightarrow> sorted (map fst (feInsert c x m))"
proof -
  assume s: "sorted (map fst m)"
  obtain m1 m2 where "m = m1 @ m2" "feInsert c x m = m1 @ (c, x) # m2" "\<forall>e \<in> set m1. fst e \<le> c" "\<forall>e \<in> set m2. c < fst e"
    using feInsert_split [of m c x] s by blast
  then show ?thesis using s by (auto simp: sorted_append intro: less_imp_le)
qed

lemma distinct_feInsert: "distinct (map snd m) \<Longrightarrow> x \<notin> snd ` set m \<Longrightarrow> distinct (map snd (feInsert c x m))"
  using feInsert_split [of m c x] by auto

lemma pq_enqueue_ok:
  assumes q: "pq_rep B (nx, q) A" and new: "A x = None" and c: "unat (curBlock q) * 64 \<le> unat c" "unat c < 2 ^ 63"
    and n: "card (Map.dom A) + 1 < 2 ^ 64"
  shows "\<exists>nx' q'. pq_enqueue B nx q x c = Some (nx', q') \<and> pq_rep B (nx', q') (A(x \<mapsto> unat c)) \<and> curBlock q' = curBlock q"
proof -
  obtain L where q: "pq_lists B nx q L A" using q by (auto simp: pq_rep_def)
  note r = pq_listsD [OF q]
  let ?cb = "unat (curBlock q)" and ?N = "unat B"
  have fresh: "x \<notin> set (L d)" "(w, x) \<notin> set (feMap q)" for d w
    using r(4) [of x] new by (auto simp: content_def)
  have "unat (curBlock q + ucast B) = ?cb + ?N" using r(8) unat_u32_lt [of B] by (subst unat_add_u64) (simp_all del: unat_u32_lt)
  then have near: "c div 64 < curBlock q + ucast B \<longleftrightarrow> unat c div 64 < ?cb + ?N" by (simp add: word_less_nat_alt unat_div)
  have chk: "curBlock q \<le> c div 64" using c(1) by (simp add: word_le_nat_alt unat_div less_eq_div_iff_mult_less_eq)
  have el: "unat (elems q + 1) = card (Map.dom (A(x \<mapsto> unat c)))"
    using n r(5,6) new by (simp add: unat_add_u64 domIff)
  have low: "\<forall>y d. (A(x \<mapsto> unat c)) y = Some d \<longrightarrow> d < 2 ^ 63" using r(7) c(2) by auto
  show ?thesis
  proof (cases "unat c div 64 < ?cb + ?N")
    case True
    then have rg: "in_range ?N ?cb (unat c)" using c(1) by (simp add: in_range_div less_eq_div_iff_mult_less_eq)
    obtain nx' bl where b: "pq_blockEnqueue B nx q x c = Some (nx', q\<lparr>pq_blocks := bl\<rparr>)"
      "blocks_rep ?N nx' bl ?cb (L(unat c := x # L (unat c)))" using block_enqueue_ok [OF r(2) rg fresh(1)] by blast
    let ?L = "L(unat c := x # L (unat c))" and ?q = "q\<lparr>pq_blocks := bl, elems := elems q + 1\<rparr>"
    have "far_ok (far_floor B ?cb) ?L (feMap q)" using r(3) fresh(2) by (auto simp: far_ok_def)
    moreover have "(A(x \<mapsto> unat c)) y = Some d \<longleftrightarrow> content ?L (feMap q) y d" for y d
      using r(4) [of y d] r(4) [of x d] new fresh(2) by (auto simp: content_def)
    ultimately have "pq_lists B nx' ?q ?L (A(x \<mapsto> unat c))"
      using q b(2) el low by (simp add: pq_lists_def)
    moreover have "pq_enqueue B nx q x c = Some (nx', ?q)" using True near chk b(1) by (simp add: pq_enqueue_def)
    ultimately show ?thesis by (intro exI [of _ nx'] exI [of _ ?q]) (auto simp: pq_rep_def)
  next
    case False
    let ?m = "feInsert c x (feMap q)" and ?q = "q\<lparr>feMap := feInsert c x (feMap q), elems := elems q + 1\<rparr>"
    have "(?cb + ?N) * 64 \<le> unat c" using False by (simp add: not_less less_eq_div_iff_mult_less_eq)
    then have "far_floor B ?cb \<le> unat c" using far_floor_bounds(5) [OF r(1), of ?cb] by linarith
    then have "far_ok (far_floor B ?cb) L ?m"
      using r(3) fresh sorted_feInsert [of "feMap q" c x] distinct_feInsert [of "feMap q" x c]
      by (force simp: far_ok_def set_feInsert)
    moreover have "(A(x \<mapsto> unat c)) y = Some d \<longleftrightarrow> content L ?m y d" for y d
      using r(4) [of y d] new fresh by (auto simp: content_def set_feInsert)
    ultimately have "pq_lists B nx ?q L (A(x \<mapsto> unat c))"
      using q el low by (simp add: pq_lists_def)
    moreover have "pq_enqueue B nx q x c = Some (nx, ?q)" using False near chk by (simp add: pq_enqueue_def)
    ultimately show ?thesis by (intro exI [of _ nx] exI [of _ ?q]) (auto simp: pq_rep_def)
  qed
qed

lemma pq_dequeue_ok:
  assumes q: "pq_rep B (nx, q) A" and ne: "A \<noteq> Map.empty"
  shows "\<exists>nx' q' x c. pq_dequeue B nx q = Some (nx', q', x, c) \<and> A x = Some (unat c) \<and> (\<forall>y d. A y = Some d \<longrightarrow> unat c \<le> d)
    \<and> pq_rep B (nx', q') (A(x := None)) \<and> unat (curBlock q') * 64 \<le> unat c"
proof -
  obtain L0 where q0: "pq_lists B nx q L0 A" using q by (auto simp: pq_rep_def)
  obtain x0 c0 where x0: "A x0 = Some c0" using ne by (metis ext not_Some_eq)
  have "Map.dom A \<noteq> {}" using x0 by auto
  then have "unat (elems q) \<noteq> 0" using pq_listsD(5,6) [OF q0] by auto
  then have el: "elems q \<noteq> 0" by auto
  obtain nx1 q1 L where s: "pq_seek B nx q = Some (nx1, q1)" "pq_lists B nx1 q1 L A" "elems q1 = elems q"
    "pb_occ (pq_blocks q1 ! (unat (curBlock q1) mod unat B)) \<noteq> 0" using pq_seek_ok [OF q0 x0] by blast
  note r = pq_listsD [OF s(2)]
  let ?cb = "unat (curBlock q1)" and ?N = "unat B"
  have i: "unat (curBlock q1 mod ucast B) = ?cb mod ?N" by (simp add: unat_mod)
  have il: "?cb mod ?N < length (pq_blocks q1)" using blocks_repD(1,2) [OF r(2)] by simp
  obtain p x xs nx2 b where d: "PQBlock_dequeue nx1 (pq_blocks q1 ! (?cb mod ?N)) = Some (nx2, b, x, p)" "p < 64"
    "L (?cb * 64 + p) = x # xs" "blocks_rep ?N nx2 ((pq_blocks q1)[?cb mod ?N := b]) ?cb (L(?cb * 64 + p := xs))"
    "\<forall>d < ?cb * 64 + p. L d = []" using block_dequeue_ok [OF r(2) s(4)] by blast
  let ?c = "?cb * 64 + p" and ?L = "L(?cb * 64 + p := xs)"
  let ?q = "q1\<lparr>pq_blocks := (pq_blocks q1)[?cb mod ?N := b], elems := elems q1 - 1\<rparr>"
  have uc: "unat (curBlock q1 * 64 + of_nat p) = ?c"
    using r(8) d(2) unat_mul64 [of "curBlock q1"] by (subst unat_add_u64) (simp_all add: unat_of_nat)
  have run: "pq_dequeue B nx q = Some (nx2, ?q, x, curBlock q1 * 64 + of_nat p)"
    using el s(1,3) d(1) il by (simp add: pq_dequeue_def i Let_def)
  have Ax: "A x = Some ?c" using r(4) d(3) by (simp add: content_def)
  have least: "?c \<le> d" if "A y = Some d" for y d
  proof -
    have "content L (feMap q1) y d" using that r(4) by blast
    then consider "y \<in> set (L d)" | w where "(w, y) \<in> set (feMap q1)" "unat w = d" by (auto simp: content_def)
    then show ?thesis
    proof cases
      case 1
      then show ?thesis using d(5) by (metis empty_iff empty_set not_less)
    next
      case 2
      then have "far_floor B ?cb \<le> d" using r(3) by (auto simp: far_ok_def)
      then show ?thesis using far_floor_bounds(2) [OF r(1), of ?cb] d(2) by linarith
    qed
  qed
  have xc: "x \<in> set (L ?c)" "x \<notin> set xs" using d(3) blocks_repD(4) [OF r(2), of ?c] by simp_all
  have only1: "x \<notin> set (?L e)" for e using blocks_repD(5) [OF r(2) xc(1), of e] xc(2) by (cases "e = ?c") auto
  have only2: "(w, x) \<notin> set (feMap q1)" for w using r(3) xc(1) unfolding far_ok_def by blast
  note only = only1 only2
  have iff: "(A(x := None)) y = Some e \<longleftrightarrow> content ?L (feMap q1) y e" for y e
    using r(4) [of y e] only d(3) by (auto simp: content_def)
  have low: "e < 2 ^ 63" if "content ?L (feMap q1) y e" for y e
    using that iff [of y e] r(7) [of y e] by (auto split: if_splits)
  have "set (?L e) \<subseteq> set (L e)" for e using d(3) by auto
  then have far: "far_ok (far_floor B ?cb) ?L (feMap q1)" using r(3) unfolding far_ok_def by blast
  have el1: "unat (elems q1 - 1) = card (Map.dom (A(x := None)))"
  proof -
    have "1 \<le> elems q1" using el s(3) by (simp add: word_le_nat_alt Suc_le_eq unat_gt_0)
    then have "unat (elems q1 - 1) = unat (elems q1) - 1" by (simp add: unat_sub)
    then show ?thesis using r(5,6) Ax by (simp add: domIff)
  qed
  have "pq_lists B nx2 ?q ?L (A(x := None))" unfolding pq_lists_def
    using r(1,5,8) d(4) iff low far el1 by (intro conjI allI impI) simp_all
  then have "pq_rep B (nx2, ?q) (A(x := None))" by (auto simp: pq_rep_def)
  then show ?thesis using run Ax least uc
    by (intro exI [of _ nx2] exI [of _ ?q] exI [of _ x] exI [of _ "curBlock q1 * 64 + of_nat p"]) simp
qed

lemma pq_scan_ok:
  assumes "pq_lists B nx q L A" "i + n \<le> unat B" "\<forall>d < (unat (curBlock q) + i) * 64. L d = []"
  shows "(\<exists>c. pq_scan B q i n = Some (Some c) \<and> L (unat c) \<noteq> [] \<and> (\<forall>d < unat c. L d = []) \<and> unat c < (unat (curBlock q) + i + n) * 64)
    \<or> (pq_scan B q i n = Some None \<and> (\<forall>d < (unat (curBlock q) + i + n) * 64. L d = []))"
  using assms(2,3)
proof (induction n arbitrary: i)
  case 0
  then show ?case by simp
next
  case (Suc n)
  note r = pq_listsD [OF assms(1)] and b = blocks_repD [OF pq_listsD(2) [OF assms(1)]]
  let ?cb = "unat (curBlock q)" and ?N = "unat B"
  have i: "i < ?N" using Suc.prems(1) by simp
  have i32: "i < 2 ^ 32" using i unat_u32_lt [of B] by (simp del: unat_u32_lt)
  then have ui: "unat (of_nat i :: u64) = i" by (simp add: unat_of_nat)
  have ub: "unat (curBlock q + of_nat i) = ?cb + i" using r(8) i32 ui by (subst unat_add_u64) simp_all
  have um: "unat ((curBlock q + of_nat i) mod ucast B) = (?cb + i) mod ?N" by (simp add: unat_mod ub)
  have lt: "(?cb + i) mod ?N < length (pq_blocks q)" using b(1,2) by simp
  define bl where "bl = pq_blocks q ! ((?cb + i) mod ?N)"
  have get: "aget (pq_blocks q) (unat ((curBlock q + of_nat i) mod ucast B)) = Some bl" unfolding um bl_def using lt by simp
  have bits: "bit (pb_occ bl) (c mod 64) = (L c \<noteq> [])" if "c div 64 = ?cb + i" for c
    using b(9) [of c] that i by (simp add: in_range_div bl_def)
  show ?case
  proof (cases "pb_occ bl = 0")
    case True
    have "L d = []" if "d < (?cb + Suc i) * 64" for d
    proof (cases "d < (?cb + i) * 64")
      case True
      then show ?thesis using Suc.prems(2) by blast
    next
      case False
      then have "d div 64 = ?cb + i" using that by (intro div_nat_eqI) simp_all
      then show ?thesis using bits [of d] \<open>pb_occ bl = 0\<close> by simp
    qed
    then have "\<forall>d < (?cb + Suc i) * 64. L d = []" by blast
    from Suc.IH [OF _ this] Suc.prems(1) show ?thesis using get True by simp
  next
    case False
    note p = ctz_bit [OF False]
    let ?p = "ctz (pb_occ bl)" and ?c = "(curBlock q + of_nat i) * 64 + of_nat (ctz (pb_occ bl)) :: u64"
    have p64: "?p < 64" using p(1) by simp
    have "unat ((curBlock q + of_nat i) * 64) = (?cb + i) * 64"
      using unat_mul64 [of "curBlock q + of_nat i"] r(8) i32 unfolding ub by simp
    then have uc: "unat ?c = (?cb + i) * 64 + ?p"
      using r(8) i32 p64 by (subst unat_add_u64) (simp_all add: unat_of_nat)
    have d1: "unat ?c div 64 = ?cb + i" using uc p64 by (intro div_nat_eqI) simp_all
    have "unat ?c mod 64 = ?p" using div_mult_mod_eq [of "unat ?c" 64] uc unfolding d1 by linarith
    note dm = d1 this
    have "L (unat ?c) \<noteq> []" using bits [OF dm(1)] p(2) dm(2) by simp
    moreover have "L d = []" if "d < unat ?c" for d
    proof (cases "d < (?cb + i) * 64")
      case True
      then show ?thesis using Suc.prems(2) by blast
    next
      case False
      then have "d div 64 = ?cb + i" using that uc p64 by (intro div_nat_eqI) simp_all
      moreover from this have "d mod 64 < ?p" using that uc by (metis div_mult_mod_eq nat_add_left_cancel_less)
      then have "\<not> bit (pb_occ bl) (d mod 64)" by (rule ctz_lower)
      ultimately show ?thesis using bits [of d] by simp
    qed
    moreover have "unat ?c < (?cb + i + Suc n) * 64" using uc p64 by simp
    moreover have "pq_scan B q i (Suc n) = Some (Some ?c)" using get False by simp
    ultimately show ?thesis by blast
  qed
qed

lemma pq_firstCycle_ok:
  assumes q: "pq_rep B (nx, q) A" and ne: "A \<noteq> Map.empty"
  shows "\<exists>c x. pq_firstCycle B q = Some c \<and> A x = Some (unat c) \<and> (\<forall>y d. A y = Some d \<longrightarrow> unat c \<le> d)"
proof -
  obtain L where q: "pq_lists B nx q L A" using q by (auto simp: pq_rep_def)
  note r = pq_listsD [OF q]
  let ?cb = "unat (curBlock q)" and ?N = "unat B" and ?h = "unat (B div 2)"
  note ff = far_floor_bounds [OF r(1)]
  obtain x0 c0 where x0: "A x0 = Some c0" using ne by (metis ext not_Some_eq)
  have "Map.dom A \<noteq> {}" using x0 by auto
  then have "unat (elems q) \<noteq> 0" using r(5,6) by auto
  then have el: "elems q \<noteq> 0" by auto
  have none: "\<forall>d < (?cb + 0) * 64. L d = []" using blocks_repD(7) [OF r(2)] by (auto simp: in_range_def)
  have con: "content L (feMap q) y d" if "A y = Some d" for y d using r(4) that by blast
  have nearI: ?thesis if f: "pq_firstCycle B q = Some c" "L (unat c) \<noteq> []" "\<forall>d < unat c. L d = []"
    and far: "\<forall>w x. (w, x) \<in> set (feMap q) \<longrightarrow> unat c \<le> unat w" for c
  proof -
    obtain x where "x \<in> set (L (unat c))" using f(2) by (cases "L (unat c)") auto
    then have "A x = Some (unat c)" using r(4) by (simp add: content_def)
    moreover have "unat c \<le> d" if "A y = Some d" for y d
      using con [OF that] f(3) far unfolding content_def by (metis empty_iff empty_set not_less)
    ultimately show ?thesis using f(1) by blast
  qed
  have fmin: "unat (fst e) \<le> unat w" if "feMap q = e # m" "(w, x) \<in> set (feMap q)" for e m w x
    using r(3) that by (auto simp: far_ok_def word_le_nat_alt)
  have hdI: ?thesis if f: "pq_firstCycle B q = Some (fst e)" "feMap q = e # m" and late: "\<forall>d < unat (fst e). L d = []" for e m
  proof -
    obtain w x where e: "e = (w, x)" by (cases e)
    have "A x = Some (unat w)" using r(4) f(2) e by (auto simp: content_def)
    moreover have "unat w \<le> d" if "A y = Some d" for y d
      using con [OF that] late fmin [OF f(2)] unfolding content_def e by (metis empty_iff empty_set fst_conv not_less)
    ultimately show ?thesis using f(1) e by auto
  qed
  have i0: "0 + ?h \<le> ?N" using ff(4) by simp
  consider (near) c where "pq_scan B q 0 ?h = Some (Some c)" "L (unat c) \<noteq> []" "\<forall>d < unat c. L d = []" "unat c < (?cb + ?h) * 64"
    | (later) "pq_scan B q 0 ?h = Some None" "\<forall>d < (?cb + ?h) * 64. L d = []"
    using pq_scan_ok [OF q i0 none] by auto
  then show ?thesis
  proof cases
    case near
    have "unat c \<le> unat w" if "(w, x) \<in> set (feMap q)" for w x
      using r(3) that near(4) ff(1) [of ?cb] by (force simp: far_ok_def)
    moreover have "pq_firstCycle B q = Some c" using el near(1) by (simp add: pq_firstCycle_def)
    ultimately show ?thesis using nearI near(2,3) by blast
  next
    case later
    have iN: "?h + (?N - ?h) \<le> ?N" using ff(4) by simp
    have run: "pq_firstCycle B q = Option.bind (pq_scan B q ?h (?N - ?h)) (\<lambda>rest. case (rest, feMap q) of
             (Some cycle, []) \<Rightarrow> Some cycle | (Some cycle, e # _) \<Rightarrow> Some (c_MIN cycle (fst e))
           | (None, []) \<Rightarrow> None | (None, e # _) \<Rightarrow> Some (fst e))" using el later(1) by (simp add: pq_firstCycle_def)
    consider (some) c where "pq_scan B q ?h (?N - ?h) = Some (Some c)" "L (unat c) \<noteq> []" "\<forall>d < unat c. L d = []"
      | (no) "pq_scan B q ?h (?N - ?h) = Some None" "\<forall>d < (?cb + ?N) * 64. L d = []"
      using pq_scan_ok [OF q iN later(2)] ff(4) by auto
    then show ?thesis
    proof cases
      case some
      show ?thesis
      proof (cases "feMap q")
        case Nil
        then show ?thesis using nearI [OF _ some(2,3)] run some(1) by simp
      next
        case (Cons e m)
        show ?thesis
        proof (cases "c \<le> fst e")
          case True
          then have f: "pq_firstCycle B q = Some c" using run some(1) Cons by simp
          have "\<forall>w x. (w, x) \<in> set (feMap q) \<longrightarrow> unat c \<le> unat w"
            using True fmin [OF Cons] by (auto simp: word_le_nat_alt intro: order_trans)
          then show ?thesis using nearI [OF f some(2,3)] by blast
        next
          case False
          then have f: "pq_firstCycle B q = Some (fst e)" using run some(1) Cons by (simp add: min_def)
          have "\<forall>d < unat (fst e). L d = []" using False some(3) by (simp add: word_le_nat_alt)
          then show ?thesis using hdI [OF f Cons] by blast
        qed
      qed
    next
      case no
      have L0: "L d = []" for d using no(2) blocks_repD(7) [OF r(2), of d] by (cases "in_range ?N ?cb d") (auto simp: in_range_def)
      show ?thesis
      proof (cases "feMap q")
        case Nil
        then show ?thesis using con [OF x0] L0 by (simp add: content_def)
      next
        case (Cons e m)
        then have f: "pq_firstCycle B q = Some (fst e)" using run no(1) by simp
        show ?thesis using hdI [OF f Cons] L0 by blast
      qed
    qed
  qed
qed

lemma pq_rep_new: "2 \<le> unat B \<Longrightarrow> pq_rep B (\<lambda>_. None, PrioQueue_new B) Map.empty"
proof -
  assume B: "2 \<le> unat B"
  have "blocks_rep (unat B) (\<lambda>_. None) (replicate (unat B) PQBlock_new) 0 (\<lambda>_. [])"
    using B by (simp add: blocks_rep_def PQBlock_new_def)
  then have "pq_lists B (\<lambda>_. None) (PrioQueue_new B) (\<lambda>_. []) Map.empty"
    using B by (simp add: pq_lists_def PrioQueue_new_def far_ok_def content_def)
  then show ?thesis by (auto simp: pq_rep_def)
qed

section \<open>The interface of the queue\<close>

text \<open>
  What the contention simulation relies on: \<open>rep s A\<close> abstracts the queue to a map from elements to
  cycles, and \<open>low s\<close> is a cycle before which nothing may be enqueued.
\<close>

locale cycle_queue =
  fixes rep :: "'s \<Rightarrow> (nat \<Rightarrow> nat option) \<Rightarrow> bool" and low :: "'s \<Rightarrow> nat"
    and enq :: "'s \<Rightarrow> nat \<Rightarrow> u64 \<Rightarrow> 's option"
    and deq :: "'s \<Rightarrow> ('s \<times> nat \<times> u64) option"
    and first :: "'s \<Rightarrow> u64 option"
    and size :: "'s \<Rightarrow> u64"
  assumes rep_finite: "rep s A \<Longrightarrow> finite (Map.dom A)"
    and enq_rep: "rep s A \<Longrightarrow> A x = None \<Longrightarrow> low s \<le> unat c \<Longrightarrow> unat c < 2 ^ 63 \<Longrightarrow> card (Map.dom A) + 1 < 2 ^ 64 \<Longrightarrow>
      \<exists>s'. enq s x c = Some s' \<and> rep s' (A(x \<mapsto> unat c)) \<and> low s' = low s"
    and deq_rep: "rep s A \<Longrightarrow> A \<noteq> Map.empty \<Longrightarrow>
      \<exists>s' x c. deq s = Some (s', x, c) \<and> A x = Some (unat c) \<and> (\<forall>y d. A y = Some d \<longrightarrow> unat c \<le> d)
        \<and> rep s' (A(x := None)) \<and> low s' \<le> unat c"
    and first_rep: "rep s A \<Longrightarrow> A \<noteq> Map.empty \<Longrightarrow>
      \<exists>c x. first s = Some c \<and> A x = Some (unat c) \<and> (\<forall>y d. A y = Some d \<longrightarrow> unat c \<le> d)"
    and size_rep: "rep s A \<Longrightarrow> unat (size s) = card (Map.dom A)"
begin

text \<open>\<open>firstCycle\<close> is the cycle of the element that comes out next.\<close>

lemma first_deq:
  assumes "rep s A" "A \<noteq> Map.empty" "deq s = Some (s', x, c)"
  shows "first s = Some c"
proof -
  obtain d y where d: "first s = Some d" "A y = Some (unat d)" "\<forall>z e. A z = Some e \<longrightarrow> unat d \<le> e"
    using first_rep [OF assms(1,2)] by blast
  have c: "A x = Some (unat c)" "\<forall>z e. A z = Some e \<longrightarrow> unat c \<le> e" using deq_rep [OF assms(1,2)] assms(3) by auto
  have "unat d = unat c" using c(2) [rule_format, OF d(2)] d(3) [rule_format, OF c(1)] by simp
  then show ?thesis using d(1) by (simp add: word_unat_eq_iff)
qed

lemma size_zero: "rep s A \<Longrightarrow> size s = 0 \<longleftrightarrow> A = Map.empty"
proof -
  assume rep: "rep s A"
  have "size s = 0 \<longleftrightarrow> card (Map.dom A) = 0" using size_rep [OF rep] by (metis unat_eq_0)
  then show ?thesis using rep_finite [OF rep] by (metis card_eq_0_iff dom_eq_empty_conv)
qed

text \<open>A queue filled in any order and drained.\<close>

fun drain :: "nat \<Rightarrow> 's \<Rightarrow> (nat \<times> u64) list option" where
  "drain 0 s = Some []"
| "drain (Suc n) s = do { (s', x, c) \<leftarrow> deq s; xs \<leftarrow> drain n s'; Some ((x, c) # xs) }"

lemma drain_sorted:
  "rep s A \<Longrightarrow> n = card (Map.dom A) \<Longrightarrow>
     \<exists>xs. drain n s = Some xs \<and> sorted (map snd xs) \<and> distinct (map fst xs) \<and> (\<forall>x c. (x, c) \<in> set xs \<longleftrightarrow> A x = Some (unat c))"
proof (induction n arbitrary: s A)
  case 0
  then have "A = Map.empty" using rep_finite [of s A] by simp
  then show ?case by simp
next
  case (Suc n)
  then have ne: "A \<noteq> Map.empty" by auto
  obtain s' x c where d: "deq s = Some (s', x, c)" "A x = Some (unat c)" "\<forall>y d. A y = Some d \<longrightarrow> unat c \<le> d" "rep s' (A(x := None))"
    using deq_rep [OF Suc.prems(1) ne] by blast
  have "x \<in> Map.dom A" using d(2) by auto
  then have "n = card (Map.dom (A(x := None)))" using Suc.prems(2) rep_finite [OF Suc.prems(1)] by simp
  from Suc.IH [OF d(4) this] obtain xs where xs: "drain n s' = Some xs" "sorted (map snd xs)" "distinct (map fst xs)"
    "\<forall>y e. (y, e) \<in> set xs \<longleftrightarrow> (A(x := None)) y = Some (unat e)" by blast
  have "c \<le> e" if "(y, e) \<in> set xs" for y e
    using xs(4) d(3) that by (auto simp: word_le_nat_alt split: if_splits)
  then have "sorted (map snd ((x, c) # xs))" using xs(2) by auto
  moreover have "distinct (map fst ((x, c) # xs))" using xs(3,4) by auto
  moreover have "(y, e) \<in> set ((x, c) # xs) \<longleftrightarrow> A y = Some (unat e)" for y e
    using xs(4) d(2) by (auto simp: word_unat_eq_iff split: if_splits)
  ultimately show ?case using d(1) xs(1) by (intro exI [of _ "(x, c) # xs"]) simp
qed

end

text \<open>The queues of the simulation have \<open>PQ_BLOCKS\<close> blocks.\<close>

definition PQ_BLOCKS :: u32 where "PQ_BLOCKS = 1024"

definition pq_enq :: "links \<times> PrioQueue \<Rightarrow> nat \<Rightarrow> u64 \<Rightarrow> (links \<times> PrioQueue) option" where
  "pq_enq s x c = pq_enqueue PQ_BLOCKS (fst s) (snd s) x c"

definition pq_deq :: "links \<times> PrioQueue \<Rightarrow> ((links \<times> PrioQueue) \<times> nat \<times> u64) option" where
  "pq_deq s = do { (nx, q, x, c) \<leftarrow> pq_dequeue PQ_BLOCKS (fst s) (snd s); Some ((nx, q), x, c) }"

interpretation pq: cycle_queue "pq_rep PQ_BLOCKS" "\<lambda>s. unat (curBlock (snd s)) * 64" pq_enq pq_deq "\<lambda>s. pq_firstCycle PQ_BLOCKS (snd s)" "\<lambda>s. pq_size (snd s)"
proof unfold_locales
  fix s A
  assume rep: "pq_rep PQ_BLOCKS s A"
  then show "finite (Map.dom A)" and "unat (pq_size (snd s)) = card (Map.dom A)"
    by (auto simp: pq_rep_def pq_size_def dest: pq_listsD(5,6))
  have rep': "pq_rep PQ_BLOCKS (fst s, snd s) A" using rep by simp
  show "\<exists>c x. pq_firstCycle PQ_BLOCKS (snd s) = Some c \<and> A x = Some (unat c) \<and> (\<forall>y d. A y = Some d \<longrightarrow> unat c \<le> d)" if "A \<noteq> Map.empty"
    by (rule pq_firstCycle_ok [OF rep' that])
  show "\<exists>s' x c. pq_deq s = Some (s', x, c) \<and> A x = Some (unat c) \<and> (\<forall>y d. A y = Some d \<longrightarrow> unat c \<le> d)
      \<and> pq_rep PQ_BLOCKS s' (A(x := None)) \<and> unat (curBlock (snd s')) * 64 \<le> unat c" if "A \<noteq> Map.empty"
    using pq_dequeue_ok [OF rep' that] unfolding pq_deq_def by force
  fix x c
  assume "A x = None" "unat (curBlock (snd s)) * 64 \<le> unat (c :: u64)" "unat c < 2 ^ 63" "card (Map.dom A) + 1 < 2 ^ 64"
  from pq_enqueue_ok [OF rep' this] show "\<exists>s'. pq_enq s x c = Some s' \<and> pq_rep PQ_BLOCKS s' (A(x \<mapsto> unat c))
      \<and> unat (curBlock (snd s')) * 64 = unat (curBlock (snd s)) * 64" unfolding pq_enq_def by force
qed

text \<open>
  Claim C25.  The priority queue refines a map from elements to cycles, the far elements, the ring of blocks and
  the lists through the elements included.  On a non-empty queue \<open>firstCycle\<close> is the least cycle, \<open>dequeue\<close> ends and
  takes out an element of that cycle and only it, and after that any element that is not in the queue can be enqueued from that
  cycle on, without tripping the assertion on past blocks.
\<close>

theorem prio_queue_refines:
  assumes "pq_rep B (nx, q) A" "A \<noteq> Map.empty"
  shows "\<exists>nx' q' x c. pq_firstCycle B q = Some c \<and> pq_dequeue B nx q = Some (nx', q', x, c) \<and> A x = Some (unat c)
    \<and> (\<forall>y d. A y = Some d \<longrightarrow> unat c \<le> d) \<and> pq_rep B (nx', q') (A(x := None))
    \<and> (\<forall>y e. (A(x := None)) y = None \<and> c \<le> e \<and> e < 2 ^ 63 \<and> card (Map.dom A) + 1 < 2 ^ 64 \<longrightarrow>
          (\<exists>nx2 q2. pq_enqueue B nx' q' y e = Some (nx2, q2) \<and> pq_rep B (nx2, q2) (A(x := None, y \<mapsto> unat e))))"
proof -
  obtain nx' q' x c where d: "pq_dequeue B nx q = Some (nx', q', x, c)" "A x = Some (unat c)" "\<forall>y d. A y = Some d \<longrightarrow> unat c \<le> d"
    "pq_rep B (nx', q') (A(x := None))" "unat (curBlock q') * 64 \<le> unat c" using pq_dequeue_ok [OF assms] by blast
  obtain f z where f: "pq_firstCycle B q = Some f" "A z = Some (unat f)" "\<forall>y d. A y = Some d \<longrightarrow> unat f \<le> d"
    using pq_firstCycle_ok [OF assms] by blast
  have "unat f = unat c" using d(2,3) f(2,3) by (meson le_antisym)
  then have fc: "f = c" by (simp add: word_unat_eq_iff)
  have "\<exists>nx2 q2. pq_enqueue B nx' q' y e = Some (nx2, q2) \<and> pq_rep B (nx2, q2) (A(x := None, y \<mapsto> unat e))"
    if y: "(A(x := None)) y = None" and e: "c \<le> e" "e < 2 ^ 63" and n: "card (Map.dom A) + 1 < 2 ^ 64" for y e
  proof -
    have lo: "unat (curBlock q') * 64 \<le> unat e" "unat e < 2 ^ 63" using d(5) e by (simp_all add: word_le_nat_alt word_less_nat_alt)
    obtain L where "pq_lists B nx q L A" using assms(1) by (auto simp: pq_rep_def)
    then have "card (Map.dom (A(x := None))) \<le> card (Map.dom A)" by (intro card_mono) (auto simp: pq_lists_def split: if_splits)
    then have n': "card (Map.dom (A(x := None))) + 1 < 2 ^ 64" using n by linarith
    show ?thesis using pq_enqueue_ok [OF d(4) y lo n'] by blast
  qed
  then show ?thesis using d f(1) fc by blast
qed

text \<open>A queue of two blocks with a far element.\<close>

theorem prio_queue_refines_witness:
  "\<exists>nx1 q1 nx2 q2 nx3 q3. pq_enqueue 2 (\<lambda>_. None) (PrioQueue_new 2) 7 500 = Some (nx1, q1)
     \<and> pq_enqueue 2 nx1 q1 3 70 = Some (nx2, q2) \<and> pq_firstCycle 2 q2 = Some 70 \<and> pq_dequeue 2 nx2 q2 = Some (nx3, q3, 3, 70)"
proof -
  have new: "pq_rep 2 (\<lambda>_. None, PrioQueue_new 2) Map.empty" by (rule pq_rep_new) simp
  have b0: "curBlock (PrioQueue_new 2) = 0" by (simp add: PrioQueue_new_def)
  obtain nx1 q1 where e1: "pq_enqueue 2 (\<lambda>_. None) (PrioQueue_new 2) 7 500 = Some (nx1, q1)" "pq_rep 2 (nx1, q1) [7 \<mapsto> 500]" "curBlock q1 = 0"
    using pq_enqueue_ok [OF new, where x = 7 and c = 500] b0 by auto
  obtain nx2 q2 where e2: "pq_enqueue 2 nx1 q1 3 70 = Some (nx2, q2)" "pq_rep 2 (nx2, q2) [7 \<mapsto> 500, 3 \<mapsto> 70]"
    using pq_enqueue_ok [OF e1(2), where x = 3 and c = 70] e1(3) by auto
  obtain nx3 q3 x c where d: "pq_firstCycle 2 q2 = Some c" "pq_dequeue 2 nx2 q2 = Some (nx3, q3, x, c)"
    "[7 \<mapsto> 500, 3 \<mapsto> (70 :: nat)] (x :: nat) = Some (unat c)" "\<forall>y d. [7 \<mapsto> 500, 3 \<mapsto> (70 :: nat)] (y :: nat) = Some d \<longrightarrow> unat c \<le> d"
    using prio_queue_refines [OF e2(2)] by auto
  have "unat c \<le> 70" using d(4) [rule_format, of 3 70] by simp
  then have "x = 3" "unat c = 70" using d(3) by (auto split: if_splits)
  then have "c = 70" by (simp add: word_unat_eq_iff)
  then show ?thesis using e1(1) e2(1) d(1,2) \<open>x = 3\<close> by blast
qed

end
