(* ===== verification/ContentionSim.thy ===== *)
theory ContentionSim
  imports TimingEvents PrioQueue
begin

text \<open>
  The contention simulation (\<open>src/src/contention_sim.h\<close>, \<open>src/src/contention_sim.cpp\<close>) and the part of the timing
  events that runs in it (\<open>src/src/timing_event.h\<close>, \<open>src/src/timing_event.cpp\<close>): enqueueing, the notification of
  children, and a phase of a thread with one domain or with several.  Crossings between domains and the
  threads themselves are not modelled.
\<close>

section \<open>State\<close>

record DomainData =
  dpq :: PrioQueue
  domCycle :: u64
  dprio :: u32
  queuePrio :: u64

record ContentionSim =
  domains :: "DomainData list"
  lastLimit :: u64
  inCSim :: bool

text \<open>The world of the simulation: the events, their \<open>next\<close> fields, and the simulation itself.\<close>

record sim =
  evs :: events
  nexts :: links
  csim :: ContentionSim

text \<open>The constructor; the number of domains must be a multiple of the number of simulation threads.\<close>

definition ContentionSim_new :: "u32 \<Rightarrow> u32 \<Rightarrow> ContentionSim option" where
  "ContentionSim_new numDomains numSimThreads = do {
     _ \<leftarrow> require (numSimThreads \<noteq> 0 \<and> numDomains mod numSimThreads = 0);
     Some \<lparr>domains = replicate (unat numDomains) \<lparr>dpq = PrioQueue_new PQ_BLOCKS, domCycle = 0, dprio = 0, queuePrio = 0\<rparr>,
       lastLimit = 0, inCSim = False\<rparr>
   }"

definition getCurCycle :: "ContentionSim \<Rightarrow> u32 \<Rightarrow> u64 option" where
  "getCurCycle cs d = do {
     dd \<leftarrow> aget (domains cs) (unat d);
     _ \<leftarrow> require (0 \<le> sint (domCycle dd));
     Some (domCycle dd)
   }"

definition setPrio :: "ContentionSim \<Rightarrow> u32 \<Rightarrow> u32 \<Rightarrow> ContentionSim option" where
  "setPrio cs d p = do {
     dd \<leftarrow> aget (domains cs) (unat d);
     Some (cs\<lparr>domains := (domains cs)[unat d := dd\<lparr>dprio := p\<rparr>]\<rparr>)
   }"

text \<open>The queue operations of a domain on the world.\<close>

definition domEnqueue :: "'x sim_scheme \<Rightarrow> nat \<Rightarrow> nat \<Rightarrow> u64 \<Rightarrow> 'x sim_scheme option" where
  "domEnqueue w d e cycle = do {
     dd \<leftarrow> aget (domains (csim w)) d;
     (nx, q) \<leftarrow> pq_enq (nexts w, dpq dd) e cycle;
     Some (w\<lparr>nexts := nx, csim := (csim w)\<lparr>domains := (domains (csim w))[d := dd\<lparr>dpq := q\<rparr>]\<rparr>\<rparr>)
   }"

section \<open>Enqueueing\<close>

text \<open>
  \<open>pl\<close> is \<open>zinfo->phaseLength\<close>; ten times it is a 32-bit product.  An event without a domain would read out of
  the array of domains.
\<close>

definition cs_enqueue :: "u32 \<Rightarrow> 'x sim_scheme \<Rightarrow> nat \<Rightarrow> u64 \<Rightarrow> 'x sim_scheme option" where
  "cs_enqueue pl w e cycle = do {
     _ \<leftarrow> require (inCSim (csim w));
     ev \<leftarrow> aget (evs w) e;
     _ \<leftarrow> require (cycle \<ge> lastLimit (csim w));
     _ \<leftarrow> require (cycle < lastLimit (csim w) + ucast (10 * pl) + 1000000);
     _ \<leftarrow> require (0 \<le> domain ev);
     dd \<leftarrow> aget (domains (csim w)) (nat (domain ev));
     _ \<leftarrow> require (cycle \<ge> domCycle dd);
     _ \<leftarrow> require (numParents ev = 0);
     domEnqueue w (nat (domain ev)) e cycle
   }"

definition cs_enqueueSynced :: "u32 \<Rightarrow> 'x sim_scheme \<Rightarrow> nat \<Rightarrow> u64 \<Rightarrow> 'x sim_scheme option" where
  "cs_enqueueSynced pl w e cycle = do {
     _ \<leftarrow> require (\<not> inCSim (csim w));
     ev \<leftarrow> aget (evs w) e;
     _ \<leftarrow> require (domain ev \<noteq> -1);
     _ \<leftarrow> require (0 \<le> domain ev);
     _ \<leftarrow> require (cycle \<ge> lastLimit (csim w));
     _ \<leftarrow> require (cycle < lastLimit (csim w) + ucast (10 * pl) + 10000);
     _ \<leftarrow> require (numParents ev = 0);
     domEnqueue w (nat (domain ev)) e cycle
   }"

section \<open>Events in the simulation\<close>

definition putEv :: "'x sim_scheme \<Rightarrow> nat \<Rightarrow> TimingEvent \<Rightarrow> 'x sim_scheme" where
  "putEv w e ev = w\<lparr>evs := (evs w)[e := ev]\<rparr>"

text \<open>\<open>TimingEvent::queue\<close> and \<open>requeue\<close>.\<close>

definition ev_queue :: "u32 \<Rightarrow> 'x sim_scheme \<Rightarrow> nat \<Rightarrow> u64 \<Rightarrow> 'x sim_scheme option" where
  "ev_queue pl w e cycle = do {
     ev \<leftarrow> aget (evs w) e;
     _ \<leftarrow> require (evState ev = EV_NONE \<and> numParents ev = 0);
     cs_enqueueSynced pl (putEv w e (ev\<lparr>evState := EV_QUEUED\<rparr>)) e cycle
   }"

definition ev_requeue :: "u32 \<Rightarrow> 'x sim_scheme \<Rightarrow> nat \<Rightarrow> u64 \<Rightarrow> 'x sim_scheme option" where
  "ev_requeue pl w e cycle = do {
     ev \<leftarrow> aget (evs w) e;
     _ \<leftarrow> require (numParents ev = 0);
     _ \<leftarrow> require (evState ev = EV_RUNNING \<or> evState ev = EV_HELD);
     cs_enqueue pl (putEv w e (ev\<lparr>evState := EV_QUEUED\<rparr>)) e cycle
   }"

text \<open>\<open>TimingEvent::parentDone\<close>: the event whose last parent is done is enqueued.\<close>

definition base_parentDone :: "u32 \<Rightarrow> 'x sim_scheme \<Rightarrow> nat \<Rightarrow> u64 \<Rightarrow> 'x sim_scheme option" where
  "base_parentDone pl w e startCycle = do {
     ev \<leftarrow> aget (evs w) e;
     _ \<leftarrow> require (numParents ev \<noteq> 0);
     let ev1 = ev\<lparr>evCycle := c_MAX (evCycle ev) startCycle, numParents := numParents ev - 1\<rparr>;
     (if numParents ev1 = 0 then do {
        _ \<leftarrow> require (evState ev1 = EV_NONE);
        cs_enqueue pl (putEv w e (ev1\<lparr>evState := EV_QUEUED\<rparr>)) e (evCycle ev1 + ucast (preDelay ev1))
      }
      else Some (putEv w e ev1))
   }"

text \<open>
  \<open>parentDone\<close>: a delay event whose last parent is done is done itself and notifies its children at once; any other event takes the base class's
  method.  Every level of the recursion finishes a delay event, so the number of events bounds its depth; it is the fuel.
\<close>

fun ev_parentDone :: "nat \<Rightarrow> u32 \<Rightarrow> 'x sim_scheme \<Rightarrow> nat \<Rightarrow> u64 \<Rightarrow> 'x sim_scheme option" where
  "ev_parentDone 0 pl w e startCycle = None"
| "ev_parentDone (Suc k) pl w e startCycle = do {
     ev \<leftarrow> aget (evs w) e;
     let ev1 = ev\<lparr>evCycle := c_MAX (evCycle ev) startCycle, numParents := numParents ev - 1\<rparr>;
     (if evClass ev = Delay then
        (if numParents ev1 = 0 then do {
           let doneCycle = evCycle ev1 + ucast (preDelay ev1);
           cs \<leftarrow> visitChildren ev1;
           run_all (\<lambda>w c. ev_parentDone k pl w c (doneCycle + ucast (postDelay ev1))) (putEv w e (ev1\<lparr>evState := EV_DONE\<rparr>)) cs
         }
         else Some (putEv w e ev1))
      else base_parentDone pl w e startCycle)
   }"

definition ev_done :: "u32 \<Rightarrow> 'x sim_scheme \<Rightarrow> nat \<Rightarrow> u64 \<Rightarrow> 'x sim_scheme option" where
  "ev_done pl w e doneCycle = do {
     ev \<leftarrow> aget (evs w) e;
     _ \<leftarrow> require (evState ev = EV_RUNNING);
     cs \<leftarrow> visitChildren ev;
     let fuel = length (evs w);
     run_all (\<lambda>w c. ev_parentDone fuel pl w c (doneCycle + ucast (postDelay ev))) (putEv w e (ev\<lparr>evState := EV_DONE\<rparr>)) cs
   }"

text \<open>
  The virtual functions \<open>simulate\<close>: what the recorder does when an issue event starts, and the simulation of
  the classes defined elsewhere, are in a table.
\<close>

record 'x ev_methods =
  onIssue :: "nat \<Rightarrow> nat \<Rightarrow> u64 \<Rightarrow> u64 \<Rightarrow> 'x sim_scheme \<Rightarrow> 'x sim_scheme option"
  onOther :: "nat \<Rightarrow> nat \<Rightarrow> u64 \<Rightarrow> 'x sim_scheme \<Rightarrow> 'x sim_scheme option"

definition issue_simulate :: "'x ev_methods \<Rightarrow> u32 \<Rightarrow> nat \<Rightarrow> u64 \<Rightarrow> 'x sim_scheme \<Rightarrow> nat \<Rightarrow> u64 \<Rightarrow> 'x sim_scheme option" where
  "issue_simulate vt pl r zll w e startCycle = do { w' \<leftarrow> onIssue vt r e zll startCycle w; ev_done pl w' e startCycle }"

definition dispatch_simulate :: "u32 \<Rightarrow> 'x sim_scheme \<Rightarrow> nat \<Rightarrow> u64 \<Rightarrow> 'x sim_scheme option" where
  "dispatch_simulate pl w e startCycle = ev_done pl w e startCycle"

definition resp_simulate :: "u32 \<Rightarrow> 'x sim_scheme \<Rightarrow> nat \<Rightarrow> u64 \<Rightarrow> 'x sim_scheme option" where
  "resp_simulate pl w e startCycle = do {
     ev \<leftarrow> aget (evs w) e;
     ev_done pl (putEv w e (ev\<lparr>evClass := Resp None\<rparr>)) e startCycle
   }"

definition ev_simulate :: "'x ev_methods \<Rightarrow> u32 \<Rightarrow> 'x sim_scheme \<Rightarrow> nat \<Rightarrow> u64 \<Rightarrow> 'x sim_scheme option" where
  "ev_simulate vt pl w e startCycle = do {
     ev \<leftarrow> aget (evs w) e;
     (case evClass ev of
        Delay \<Rightarrow> None
      | Issue r zll \<Rightarrow> issue_simulate vt pl r zll w e startCycle
      | Dispatch zll \<Rightarrow> dispatch_simulate pl w e startCycle
      | Resp r \<Rightarrow> resp_simulate pl w e startCycle
      | Other k \<Rightarrow> onOther vt k e startCycle w)
   }"

lemmas simulate_defs = ev_simulate_def issue_simulate_def dispatch_simulate_def resp_simulate_def

definition ev_run :: "'x ev_methods \<Rightarrow> u32 \<Rightarrow> 'x sim_scheme \<Rightarrow> nat \<Rightarrow> u64 \<Rightarrow> 'x sim_scheme option" where
  "ev_run vt pl w e startCycle = do {
     ev \<leftarrow> aget (evs w) e;
     _ \<leftarrow> require (evState ev = EV_NONE \<or> evState ev = EV_QUEUED);
     _ \<leftarrow> require (startCycle \<ge> minStartCycle ev);
     ev_simulate vt pl (putEv w e (ev\<lparr>evState := EV_RUNNING\<rparr>)) e startCycle
   }"

section \<open>A phase of a domain\<close>

definition setDomCycle :: "'x sim_scheme \<Rightarrow> nat \<Rightarrow> u64 \<Rightarrow> 'x sim_scheme option" where
  "setDomCycle w d c = do {
     dd \<leftarrow> aget (domains (csim w)) d;
     Some (w\<lparr>csim := (csim w)\<lparr>domains := (domains (csim w))[d := dd\<lparr>domCycle := c\<rparr>]\<rparr>\<rparr>)
   }"

text \<open>One round of the loop of \<open>simulatePhaseThread\<close>, for the domain \<open>d\<close> with an event before the limit.\<close>

definition phaseStep :: "'x ev_methods \<Rightarrow> u32 \<Rightarrow> u64 \<Rightarrow> nat \<Rightarrow> 'x sim_scheme \<Rightarrow> 'x sim_scheme option" where
  "phaseStep vt pl lim d w = do {
     dd \<leftarrow> aget (domains (csim w)) d;
     ((nx, q), te, cycle) \<leftarrow> pq_deq (nexts w, dpq dd);
     _ \<leftarrow> require (cycle \<ge> domCycle dd);
     let w1 = w\<lparr>nexts := nx, csim := (csim w)\<lparr>domains := (domains (csim w))[d := dd\<lparr>dpq := q, domCycle := cycle\<rparr>]\<rparr>\<rparr>;
     w2 \<leftarrow> ev_run vt pl w1 te cycle;
     dd2 \<leftarrow> aget (domains (csim w2)) d;
     newCycle \<leftarrow> (if pq_size (dpq dd2) \<noteq> 0 then pq_firstCycle PQ_BLOCKS (dpq dd2) else Some lim);
     _ \<leftarrow> require (newCycle \<ge> cycle);
     setDomCycle w2 d newCycle
   }"

partial_function (option) phaseRun :: "'x ev_methods \<Rightarrow> u32 \<Rightarrow> u64 \<Rightarrow> nat \<Rightarrow> 'x sim_scheme \<Rightarrow> 'x sim_scheme option" where
  "phaseRun vt pl lim d w = do {
     dd \<leftarrow> aget (domains (csim w)) d;
     more \<leftarrow> (if pq_size (dpq dd) \<noteq> 0 then do { f \<leftarrow> pq_firstCycle PQ_BLOCKS (dpq dd); Some (f < lim) } else Some False);
     if more then Option.bind (phaseStep vt pl lim d w) (phaseRun vt pl lim d)
     else Some w
   }"

declare phaseRun.simps [code]

definition simulatePhaseThread :: "'x ev_methods \<Rightarrow> u32 \<Rightarrow> u64 \<Rightarrow> nat \<Rightarrow> 'x sim_scheme \<Rightarrow> 'x sim_scheme option" where
  "simulatePhaseThread vt pl lim d w = do { w' \<leftarrow> phaseRun vt pl lim d w; setDomCycle w' d lim }"

text \<open>
  The other branch of \<open>simulatePhaseThread\<close>, for a thread of several domains: ready domains in the order of their \<open>queuePrio\<close>, and
  two stacks of stalled ones, whose priority is not 0.  The order of ready domains of equal priority is left to the standard
  library; the model takes the first.  An event taken from a stalled domain is simulated without the checks of \<open>run\<close>.
\<close>

record 'x mdoms =
  mworld :: "'x sim_scheme"
  domPq :: "nat list"
  stalledQueue :: "nat list"
  nextStalledQueue :: "nat list"
  numFinished :: nat

fun minDomain :: "DomainData list \<Rightarrow> nat \<Rightarrow> nat list \<Rightarrow> nat option" where
  "minDomain ds m [] = Some m"
| "minDomain ds m (d # xs) = do {
     a \<leftarrow> aget ds d;
     b \<leftarrow> aget ds m;
     minDomain ds (if queuePrio a < queuePrio b then d else m) xs
   }"

definition ev_runStalled :: "'x ev_methods \<Rightarrow> u32 \<Rightarrow> 'x sim_scheme \<Rightarrow> nat \<Rightarrow> u64 \<Rightarrow> 'x sim_scheme option" where
  "ev_runStalled vt pl w e startCycle = do {
     ev \<leftarrow> aget (evs w) e;
     ev_simulate vt pl (putEv w e (ev\<lparr>evState := EV_RUNNING\<rparr>)) e startCycle
   }"

text \<open>A turn of domain \<open>d\<close>: whether it is finished, and the world.\<close>

definition domainTurn :: "('x sim_scheme \<Rightarrow> nat \<Rightarrow> u64 \<Rightarrow> 'x sim_scheme option) \<Rightarrow> u64 \<Rightarrow> nat \<Rightarrow> 'x sim_scheme \<Rightarrow> (bool \<times> 'x sim_scheme) option" where
  "domainTurn run lim d w = do {
     dd \<leftarrow> aget (domains (csim w)) d;
     idle \<leftarrow> (if pq_size (dpq dd) \<noteq> 0 then do { f \<leftarrow> pq_firstCycle PQ_BLOCKS (dpq dd); Some (f > lim) } else Some True);
     (if idle then do { w' \<leftarrow> setDomCycle w d lim; Some (True, w') }
      else do {
        ((nx, q), te, cycle) \<leftarrow> pq_deq (nexts w, dpq dd);
        let w1 = w\<lparr>nexts := nx, csim := (csim w)\<lparr>domains := (domains (csim w))[d := dd\<lparr>dpq := q, domCycle := cycle\<rparr>]\<rparr>\<rparr>;
        w2 \<leftarrow> run w1 te cycle;
        dd2 \<leftarrow> aget (domains (csim w2)) d;
        newCycle \<leftarrow> (if pq_size (dpq dd2) \<noteq> 0 then pq_firstCycle PQ_BLOCKS (dpq dd2) else Some lim);
        Some (False, w2\<lparr>csim := (csim w2)\<lparr>domains := (domains (csim w2))[d := dd2\<lparr>domCycle := newCycle, queuePrio := newCycle\<rparr>]\<rparr>\<rparr>)
      })
   }"

definition dom_prio :: "'x sim_scheme \<Rightarrow> nat \<Rightarrow> u32 option" where
  "dom_prio w d = do { dd \<leftarrow> aget (domains (csim w)) d; Some (dprio dd) }"

text \<open>The loop over ready domains and the one over stalled domains, which gives way as soon as a domain is ready.\<close>

partial_function (option) readyLoop :: "'x ev_methods \<Rightarrow> u32 \<Rightarrow> u64 \<Rightarrow> 'x mdoms \<Rightarrow> 'x mdoms option" where
  "readyLoop vt pl lim m =
     (case domPq m of
        [] \<Rightarrow> Some m
      | x # xs \<Rightarrow> do {
          d \<leftarrow> minDomain (domains (csim (mworld m))) x xs;
          (fin, w) \<leftarrow> domainTurn (ev_run vt pl) lim d (mworld m);
          let m1 = m\<lparr>mworld := w, domPq := remove1 d (domPq m)\<rparr>;
          (if fin then readyLoop vt pl lim (m1\<lparr>numFinished := numFinished m1 + 1\<rparr>)
           else do {
             pr \<leftarrow> dom_prio w d;
             readyLoop vt pl lim (if pr = 0 then m1\<lparr>domPq := d # domPq m1\<rparr> else m1\<lparr>stalledQueue := d # stalledQueue m1\<rparr>)
           })
        })"

partial_function (option) stalledLoop :: "'x ev_methods \<Rightarrow> u32 \<Rightarrow> u64 \<Rightarrow> 'x mdoms \<Rightarrow> 'x mdoms option" where
  "stalledLoop vt pl lim m =
     (case stalledQueue m of
        [] \<Rightarrow> Some m
      | d # ds \<Rightarrow> do {
          (fin, w) \<leftarrow> domainTurn (ev_runStalled vt pl) lim d (mworld m);
          let m1 = m\<lparr>mworld := w, stalledQueue := ds\<rparr>;
          m2 \<leftarrow> (if fin then Some (m1\<lparr>numFinished := numFinished m1 + 1\<rparr>)
                 else do {
                   pr \<leftarrow> dom_prio w d;
                   Some (if pr = 0 then m1\<lparr>domPq := d # domPq m1\<rparr> else m1\<lparr>nextStalledQueue := d # nextStalledQueue m1\<rparr>)
                 });
          (if domPq m2 \<noteq> [] then Some m2 else stalledLoop vt pl lim m2)
        })"

partial_function (option) domainsLoop :: "'x ev_methods \<Rightarrow> u32 \<Rightarrow> u64 \<Rightarrow> nat \<Rightarrow> 'x mdoms \<Rightarrow> 'x mdoms option" where
  "domainsLoop vt pl lim thDomains m =
     (if numFinished m < thDomains then do {
        m1 \<leftarrow> readyLoop vt pl lim m;
        m2 \<leftarrow> stalledLoop vt pl lim m1;
        domainsLoop vt pl lim thDomains
          (if stalledQueue m2 = [] then m2\<lparr>stalledQueue := nextStalledQueue m2, nextStalledQueue := stalledQueue m2\<rparr> else m2)
      }
      else Some m)"

declare readyLoop.simps [code] stalledLoop.simps [code] domainsLoop.simps [code]

definition simulateDomains :: "'x ev_methods \<Rightarrow> u32 \<Rightarrow> u64 \<Rightarrow> nat \<Rightarrow> nat \<Rightarrow> 'x sim_scheme \<Rightarrow> 'x sim_scheme option" where
  "simulateDomains vt pl lim firstDomain supDomain w = do {
     m \<leftarrow> domainsLoop vt pl lim (supDomain - firstDomain)
       \<lparr>mworld = w, domPq = [firstDomain..<supDomain], stalledQueue = [], nextStalledQueue = [], numFinished = 0\<rparr>;
     Some (mworld m)
   }"

text \<open>\<open>simThreadLoop\<close> runs this for its domains, \<open>thDomains\<close> of them from \<open>thid * thDomains\<close> on.\<close>

definition simThread :: "'x ev_methods \<Rightarrow> u32 \<Rightarrow> u64 \<Rightarrow> nat \<Rightarrow> nat \<Rightarrow> 'x sim_scheme \<Rightarrow> 'x sim_scheme option" where
  "simThread vt pl lim thDomains thid w =
     (if thDomains = 1 then simulatePhaseThread vt pl lim thid w
      else simulateDomains vt pl lim (thid * thDomains) ((thid + 1) * thDomains) w)"

text \<open>
  \<open>simulatePhase\<close> for \<open>numSimThreads\<close> threads with equally many domains each.  Without crossings domains share no event, so the order in which
  the threads run does not matter; the model runs them in turn.  \<open>start\<close> and \<open>stop\<close> are the \<open>cSimStart\<close> and \<open>cSimEnd\<close> calls of
  the cores, \<open>skip\<close> is \<open>skipContention\<close>.
\<close>

definition simulatePhase :: "'x ev_methods \<Rightarrow> u32 \<Rightarrow> bool \<Rightarrow> nat \<Rightarrow> ('x sim_scheme \<Rightarrow> 'x sim_scheme option) \<Rightarrow> ('x sim_scheme \<Rightarrow> 'x sim_scheme option) \<Rightarrow>
    u64 \<Rightarrow> 'x sim_scheme \<Rightarrow> 'x sim_scheme option" where
  "simulatePhase vt pl skip numSimThreads start stop lim w =
     (if skip then Some w
      else do {
        _ \<leftarrow> require (lim \<ge> lastLimit (csim w));
        w1 \<leftarrow> start w;
        w2 \<leftarrow> run_all (\<lambda>w t. simThread vt pl lim (length (domains (csim w1)) div numSimThreads) t w)
               (w1\<lparr>csim := (csim w1)\<lparr>inCSim := True\<rparr>\<rparr>) [0..<numSimThreads];
        w3 \<leftarrow> stop (w2\<lparr>csim := (csim w2)\<lparr>inCSim := False\<rparr>\<rparr>);
        Some (w3\<lparr>csim := (csim w3)\<lparr>lastLimit := lim\<rparr>\<rparr>)
      })"

section \<open>The graph of events in the simulation\<close>

text \<open>The edges into an event from events that are not done.\<close>

definition out_edges :: "TimingEvent \<Rightarrow> nat \<Rightarrow> nat" where
  "out_edges ev c = (if evState ev = EV_DONE then 0 else count_list (kids ev) c)"

definition in_edges :: "events \<Rightarrow> nat \<Rightarrow> nat" where
  "in_edges s c = (\<Sum>e < length s. out_edges (s ! e) c)"

lemma in_edges_update:
  assumes "e < length s"
  shows "in_edges (s[e := ev]) c + out_edges (s ! e) c = in_edges s c + out_edges ev c"
proof -
  have "in_edges s c = out_edges (s ! e) c + (\<Sum>i \<in> {..<length s} - {e}. out_edges (s ! i) c)"
    unfolding in_edges_def by (rule sum.remove) (use assms in simp_all)
  moreover have "in_edges (s[e := ev]) c = out_edges (s[e := ev] ! e) c + (\<Sum>i \<in> {..<length s} - {e}. out_edges (s[e := ev] ! i) c)"
    unfolding in_edges_def length_list_update by (rule sum.remove) (use assms in simp_all)
  moreover have "(\<Sum>i \<in> {..<length s} - {e}. out_edges (s[e := ev] ! i) c) = (\<Sum>i \<in> {..<length s} - {e}. out_edges (s ! i) c)"
    by (rule sum.cong) auto
  ultimately show ?thesis using assms by simp
qed

text \<open>
  The count of parents of an event is the number of edges into it; \<open>P\<close> are edges whose parent is done and
  that wait for their \<open>parentDone\<close>.
\<close>

definition event_ok :: "events \<Rightarrow> nat list \<Rightarrow> nat \<Rightarrow> bool" where
  "event_ok s P c =
     (evState (s ! c) \<in> {EV_NONE, EV_QUEUED, EV_DONE}
      \<and> (if evState (s ! c) = EV_DONE then in_edges s c + count_list P c = 0
         else unat (numParents (s ! c)) = in_edges s c + count_list P c)
      \<and> (evState (s ! c) = EV_QUEUED \<longrightarrow> numParents (s ! c) = 0 \<and> evClass (s ! c) \<noteq> Delay))"

definition graph_ok :: "events \<Rightarrow> nat list \<Rightarrow> bool" where
  "graph_ok s P = (ev_wf s \<and> (\<forall>c \<in> set P. c < length s) \<and> (\<forall>c < length s. event_ok s P c))"

text \<open>
  Bounds on when an event starts, or when a delay event is done: from \<open>lb\<close> to \<open>ub\<close>.  They agree along every edge, and
  no event has to wait beyond its earliest start.
\<close>

definition edge_ok :: "(nat \<Rightarrow> nat) \<Rightarrow> (nat \<Rightarrow> nat) \<Rightarrow> events \<Rightarrow> nat \<Rightarrow> nat \<Rightarrow> bool" where
  "edge_ok lb ub s e c = (lb c \<le> lb e + unat (postDelay (s ! e)) + unat (preDelay (s ! c))
     \<and> ub e + unat (postDelay (s ! e)) + unat (preDelay (s ! c)) \<le> ub c)"

definition timed :: "(nat \<Rightarrow> nat) \<Rightarrow> (nat \<Rightarrow> nat) \<Rightarrow> events \<Rightarrow> bool" where
  "timed lb ub s = (\<forall>e < length s. evState (s ! e) \<noteq> EV_DONE \<longrightarrow>
     unat (evCycle (s ! e)) + unat (preDelay (s ! e)) \<le> ub e
     \<and> (evClass (s ! e) \<noteq> Delay \<longrightarrow> unat (minStartCycle (s ! e)) \<le> lb e) \<and> (\<forall>c \<in> set (kids (s ! e)). edge_ok lb ub s e c))"

text \<open>The classes and domains of the events of the domain \<open>d\<close>; \<open>known\<close> are the recorders there are.\<close>

definition class_ok :: "(nat \<Rightarrow> bool) \<Rightarrow> nat \<Rightarrow> TimingEvent \<Rightarrow> bool" where
  "class_ok known d ev = (case evClass ev of Delay \<Rightarrow> True | Issue r _ \<Rightarrow> known r \<and> domain ev = int d | Other _ \<Rightarrow> False | _ \<Rightarrow> domain ev = int d)"

definition queued_ok :: "(nat \<Rightarrow> bool) \<Rightarrow> nat \<Rightarrow> (nat \<Rightarrow> nat) \<Rightarrow> (nat \<Rightarrow> nat) \<Rightarrow> nat \<Rightarrow> (nat \<Rightarrow> nat option) \<Rightarrow> events \<Rightarrow> bool" where
  "queued_ok known d lb ub now A s =
     ((\<forall>c. A c \<noteq> None \<longleftrightarrow> c < length s \<and> evState (s ! c) = EV_QUEUED)
      \<and> (\<forall>c t. A c = Some t \<longrightarrow> now \<le> t \<and> lb c \<le> t \<and> t \<le> ub c)
      \<and> (\<forall>c < length s. evState (s ! c) \<noteq> EV_DONE \<longrightarrow> class_ok known d (s ! c)))"

text \<open>The queue and the clock of the domain.\<close>

definition dom_ok :: "u32 \<Rightarrow> nat \<Rightarrow> (nat \<Rightarrow> nat) \<Rightarrow> nat \<Rightarrow> (nat \<Rightarrow> nat option) \<Rightarrow> 'x sim_scheme \<Rightarrow> bool" where
  "dom_ok pl d ub now A w =
     (d < length (domains (csim w)) \<and> pq_rep PQ_BLOCKS (nexts w, dpq (domains (csim w) ! d)) A
      \<and> unat (curBlock (dpq (domains (csim w) ! d))) * 64 \<le> now \<and> unat (domCycle (domains (csim w) ! d)) \<le> now
      \<and> inCSim (csim w) \<and> unat (lastLimit (csim w)) \<le> now \<and> length (evs w) < 2 ^ 62
      \<and> unat (lastLimit (csim w)) + unat (10 * pl) + 1000000 < 2 ^ 63
      \<and> (\<forall>e. ub e < unat (lastLimit (csim w)) + unat (10 * pl) + 1000000))"

definition sim_ok :: "u32 \<Rightarrow> (nat \<Rightarrow> bool) \<Rightarrow> nat \<Rightarrow> (nat \<Rightarrow> nat) \<Rightarrow> (nat \<Rightarrow> nat) \<Rightarrow> nat \<Rightarrow> nat list \<Rightarrow> (nat \<Rightarrow> nat option) \<Rightarrow> 'x sim_scheme \<Rightarrow> bool" where
  "sim_ok pl known d lb ub now P A w =
     (graph_ok (evs w) P \<and> timed lb ub (evs w) \<and> queued_ok known d lb ub now A (evs w) \<and> dom_ok pl d ub now A w)"

text \<open>What running events change: nothing goes back, and no other component moves.\<close>

definition undone :: "events \<Rightarrow> nat set" where
  "undone s = {e. e < length s \<and> evState (s ! e) \<noteq> EV_DONE}"

text \<open>
  From \<open>s\<close> to \<open>s'\<close> no event is executed whose earliest start is \<open>m\<close> or later.  A delay event is not executed: it is done at once with its last parent,
  whatever its delay.
\<close>

definition before :: "(nat \<Rightarrow> nat) \<Rightarrow> nat \<Rightarrow> events \<Rightarrow> events \<Rightarrow> bool" where
  "before lb m s s' = (\<forall>i < length s. (evClass (s' ! i) = Delay \<longleftrightarrow> evClass (s ! i) = Delay)
     \<and> (evState (s ! i) \<noteq> EV_DONE \<and> evState (s' ! i) = EV_DONE \<and> evClass (s ! i) \<noteq> Delay \<longrightarrow> lb i < m))"

lemma before_refl [simp]: "before lb m s s"
  by (auto simp: before_def)

lemma before_trans: "before lb m s s1 \<Longrightarrow> before lb m s1 s2 \<Longrightarrow> length s1 = length s \<Longrightarrow> before lb m s s2"
  unfolding before_def by metis

definition grows :: "'x sim_scheme \<Rightarrow> (nat \<Rightarrow> nat option) \<Rightarrow> 'x sim_scheme \<Rightarrow> (nat \<Rightarrow> nat option) \<Rightarrow> bool" where
  "grows w A w' A' =
     (length (evs w') = length (evs w) \<and> undone (evs w') \<subseteq> undone (evs w) \<and> (\<forall>x t. A x = Some t \<longrightarrow> A' x = Some t)
      \<and> (\<forall>i < length (evs w). preDelay (evs w' ! i) = preDelay (evs w ! i)) \<and> (\<forall>lb. before lb 0 (evs w) (evs w')) \<and> sim.more w' = sim.more w)"

lemma grows_refl [simp]: "grows w A w A"
  by (simp add: grows_def)

lemma grows_trans: "grows w A w1 A1 \<Longrightarrow> grows w1 A1 w2 A2 \<Longrightarrow> grows w A w2 A2"
  unfolding grows_def by (auto intro: before_trans)

lemma before_mono: "before lb m s s' \<Longrightarrow> m \<le> n \<Longrightarrow> before lb n s s'"
  unfolding before_def by (meson less_le_trans)

lemma finite_undone [simp]: "finite (undone s)"
  by (simp add: undone_def)

text \<open>Updating one event.\<close>

lemma timed_update:
  assumes t: "timed lb ub s" and e: "e < length s" "evState (s ! e) \<noteq> EV_DONE"
    and same: "preDelay ev = preDelay (s ! e)" "postDelay ev = postDelay (s ! e)" "kids ev = kids (s ! e)"
      "minStartCycle ev = minStartCycle (s ! e)" "evClass ev = Delay \<longleftrightarrow> evClass (s ! e) = Delay"
    and c: "unat (evCycle ev) + unat (preDelay ev) \<le> ub e"
  shows "timed lb ub (s[e := ev])"
proof -
  have pre: "preDelay (s[e := ev] ! i) = preDelay (s ! i)" "postDelay (s[e := ev] ! i) = postDelay (s ! i)" for i
    using same e(1) by (cases "i = e"; simp)+
  have "edge_ok lb ub (s[e := ev]) i j = edge_ok lb ub s i j" for i j by (simp add: edge_ok_def pre)
  then show ?thesis using t c e same by (auto simp: timed_def nth_list_update)
qed

lemma graph_okD:
  assumes "graph_ok s P"
  shows "ev_wf s" "c \<in> set P \<Longrightarrow> c < length s" "c < length s \<Longrightarrow> event_ok s P c"
  using assms by (simp_all add: graph_ok_def)

lemma out_edges_same: "kids ev = kids ev' \<Longrightarrow> evState ev \<noteq> EV_DONE \<Longrightarrow> evState ev' \<noteq> EV_DONE \<Longrightarrow> out_edges ev c = out_edges ev' c"
  by (simp add: out_edges_def)

text \<open>A pending edge is counted by its child.\<close>

lemma pending_child:
  assumes "graph_ok s (c # P)"
  shows "c < length s" "evState (s ! c) = EV_NONE" "numParents (s ! c) \<noteq> 0"
    "unat (numParents (s ! c) - 1) = in_edges s c + count_list P c"
proof -
  note g = graph_okD [OF assms]
  show c: "c < length s" using g(2) by simp
  have e: "event_ok s (c # P) c" using g(3) [OF c] .
  then have n: "unat (numParents (s ! c)) = in_edges s c + count_list P c + 1" "evState (s ! c) \<noteq> EV_DONE"
    by (auto simp: event_ok_def split: if_splits)
  then show nz: "numParents (s ! c) \<noteq> 0" by auto
  then show "evState (s ! c) = EV_NONE" using e n by (auto simp: event_ok_def)
  have "1 \<le> numParents (s ! c)" using nz by (simp add: word_le_nat_alt Suc_le_eq unat_gt_0)
  then show "unat (numParents (s ! c) - 1) = in_edges s c + count_list P c" using n by (simp add: unat_sub)
qed

text \<open>Counting it down.\<close>

lemma graph_ok_count:
  assumes g: "graph_ok s (c # P)" and ev: "kids ev = kids (s ! c)" "kids_ok ev" "numParents ev = numParents (s ! c) - 1"
    "evState ev = EV_NONE \<or> (evState ev = EV_QUEUED \<and> numParents ev = 0 \<and> evClass ev \<noteq> Delay)"
  shows "graph_ok (s[c := ev]) P"
proof -
  note p = pending_child [OF g] and gd = graph_okD [OF g]
  have nd: "evState ev \<noteq> EV_DONE" using ev(4) by auto
  have ie: "in_edges (s[c := ev]) x = in_edges s x" for x
    using in_edges_update [OF p(1), of ev x] out_edges_same [OF ev(1) nd, of x] p(2) by simp
  have "event_ok (s[c := ev]) P x" if x: "x < length s" for x
  proof (cases "x = c")
    case True
    then show ?thesis using p ev(3,4) nd by (auto simp: event_ok_def ie)
  next
    case False
    then have "count_list (c # P) x = count_list P x" by auto
    then have "event_ok (s[c := ev]) P x = event_ok s (c # P) x" using False by (simp only: event_ok_def ie nth_list_update_neq not_sym simp_thms)
    then show ?thesis using gd(3) [OF x] by simp
  qed
  moreover have "ev_wf (s[c := ev])" using ev_wf_update [OF gd(1)] ev(1,2) ev_wfD(2) [OF gd(1) p(1)] by simp
  ultimately show ?thesis using gd(2) by (simp add: graph_ok_def)
qed

text \<open>A finished event hands its edges over.\<close>

lemma graph_ok_done:
  assumes g: "ev_wf s" "c < length s" "\<forall>x < length s. x \<noteq> c \<longrightarrow> event_ok s Q x" "\<forall>x \<in> set P. x < length s"
    and Q: "\<forall>x. x \<noteq> c \<longrightarrow> count_list Q x = count_list P x" and zero: "in_edges s c + count_list P c = 0"
    and c: "evState (s ! c) \<noteq> EV_DONE" and ev: "kids ev = kids (s ! c)" "kids_ok ev" "evState ev = EV_DONE"
  shows "graph_ok (s[c := ev]) (kids (s ! c) @ P)"
proof -
  have ie: "in_edges (s[c := ev]) x + count_list (kids (s ! c)) x = in_edges s x" for x
    using in_edges_update [OF g(2), of ev x] c ev(3) by (simp add: out_edges_def)
  have "event_ok (s[c := ev]) (kids (s ! c) @ P) x" if x: "x < length s" for x
  proof (cases "x = c")
    case True
    then show ?thesis using ie [of c] zero g(2) ev(3) by (simp add: event_ok_def)
  next
    case False
    then show ?thesis using g(3) x Q ie [of x] by (auto simp: event_ok_def split: if_splits)
  qed
  moreover have k: "list_all (\<lambda>x. x < length s) (kids (s ! c))" using ev_wfD(2) [OF g(1,2)] .
  moreover have "ev_wf (s[c := ev])" using ev_wf_update [OF g(1)] ev(1,2) k by simp
  ultimately show ?thesis using g(4) by (auto simp: graph_ok_def list_all_iff)
qed

section \<open>Notifying the children\<close>

lemma putEv_simps [simp]:
  "evs (putEv w e ev) = (evs w)[e := ev]" "nexts (putEv w e ev) = nexts w" "csim (putEv w e ev) = csim w"
  "sim.more (putEv w e ev) = sim.more w"
  by (simp_all add: putEv_def)

lemma dom_ok_evs: "dom_ok pl d ub now A w \<Longrightarrow> length (evs w') = length (evs w) \<Longrightarrow> nexts w' = nexts w \<Longrightarrow> csim w' = csim w \<Longrightarrow> dom_ok pl d ub now A w'"
  by (simp add: dom_ok_def)

lemma queued_dom: "queued_ok known d lb ub now A s \<Longrightarrow> Map.dom A \<subseteq> {..<length s}"
  unfolding queued_ok_def by (auto simp: domIff)

lemma cs_enqueue_ok:
  assumes dm: "dom_ok pl d ub now A w" and c: "c < length (evs w)" "domain (evs w ! c) = int d" "numParents (evs w ! c) = 0"
    and A: "A c = None" "Map.dom A \<subseteq> {..<length (evs w)}" and t: "now \<le> unat t" "unat t \<le> ub c"
  shows "\<exists>w'. cs_enqueue pl w c t = Some w' \<and> dom_ok pl d ub now (A(c \<mapsto> unat t)) w' \<and> evs w' = evs w \<and> sim.more w' = sim.more w"
proof -
  have dk: "d < length (domains (csim w))" "pq_rep PQ_BLOCKS (nexts w, dpq (domains (csim w) ! d)) A"
    "unat (curBlock (dpq (domains (csim w) ! d))) * 64 \<le> now" "unat (domCycle (domains (csim w) ! d)) \<le> now"
    "inCSim (csim w)" "unat (lastLimit (csim w)) \<le> now" "length (evs w) < 2 ^ 62"
    "unat (lastLimit (csim w)) + unat (10 * pl) + 1000000 < 2 ^ 63"
    "ub c < unat (lastLimit (csim w)) + unat (10 * pl) + 1000000" using dm by (simp_all add: dom_ok_def)
  let ?dd = "domains (csim w) ! d"
  have "card (Map.dom A) \<le> length (evs w)" using card_mono [OF _ A(2)] by simp
  then have n: "card (Map.dom A) + 1 < 2 ^ 64" using dk(7) by simp
  have t63: "unat t < 2 ^ 63" using t(2) dk(8,9) by linarith
  have low: "unat (curBlock (snd (nexts w, dpq ?dd))) * 64 \<le> unat t" using dk(3) t(1) by simp
  obtain nx q where q: "pq_enq (nexts w, dpq ?dd) c t = Some (nx, q)" "pq_rep PQ_BLOCKS (nx, q) (A(c \<mapsto> unat t))"
    "unat (curBlock q) * 64 = unat (curBlock (dpq ?dd)) * 64" using pq.enq_rep [OF dk(2) A(1) low t63 n] by auto
  let ?w = "w\<lparr>nexts := nx, csim := (csim w)\<lparr>domains := (domains (csim w))[d := ?dd\<lparr>dpq := q\<rparr>]\<rparr>\<rparr>"
  have "unat (lastLimit (csim w) + ucast (10 * pl)) = unat (lastLimit (csim w)) + unat (10 * pl)"
    using dk(8) by (subst unat_add_u64) (simp_all del: unat_u32_lt)
  then have "unat (lastLimit (csim w) + ucast (10 * pl) + 1000000) = unat (lastLimit (csim w)) + unat (10 * pl) + 1000000"
    using dk(8) by (subst unat_add_u64) (simp_all del: unat_u32_lt)
  then have chk: "lastLimit (csim w) \<le> t" "t < lastLimit (csim w) + ucast (10 * pl) + 1000000" "domCycle ?dd \<le> t"
    using dk(4,6,9) t by (simp_all add: word_le_nat_alt word_less_nat_alt del: unat_u32_lt)
  have "cs_enqueue pl w c t = Some ?w"
    using dk(1,5) c chk q(1) by (simp add: cs_enqueue_def domEnqueue_def)
  moreover have "dom_ok pl d ub now (A(c \<mapsto> unat t)) ?w"
    using dm dk(1) q(2,3) by (simp add: dom_ok_def)
  ultimately show ?thesis by (intro exI [of _ ?w]) simp
qed

text \<open>The step of an induction: every child in a list, given that one child can be notified.\<close>

lemma notify_all:
  assumes one: "\<And>w A c P. sim_ok pl known d lb ub now (c # P) A (w :: 'x sim_scheme) \<Longrightarrow> lb c \<le> unat t + unat (preDelay (evs w ! c)) \<Longrightarrow>
      unat t + unat (preDelay (evs w ! c)) \<le> ub c \<Longrightarrow> card (undone (evs w)) < k \<Longrightarrow>
      \<exists>w' A'. f w c = Some w' \<and> sim_ok pl known d lb ub now P A' w' \<and> grows w A w' A'"
    and "sim_ok pl known d lb ub now (cs @ P) A w" "card (undone (evs w)) < k"
    and "\<forall>c \<in> set cs. lb c \<le> unat (t :: u64) + unat (preDelay (evs w ! c)) \<and> unat t + unat (preDelay (evs w ! c)) \<le> ub c"
  shows "\<exists>w' A'. run_all f w cs = Some w' \<and> sim_ok pl known d lb ub now P A' w' \<and> grows w A w' A'"
  using assms(2-4)
proof (induction cs arbitrary: w A)
  case Nil
  then show ?case by (intro exI [of _ w] exI [of _ A]) simp
next
  case (Cons c cs)
  have s: "sim_ok pl known d lb ub now (c # (cs @ P)) A w" using Cons.prems(1) by simp
  obtain w1 A1 where w1: "f w c = Some w1" "sim_ok pl known d lb ub now (cs @ P) A1 w1" "grows w A w1 A1"
    using one [OF s] Cons.prems(2,3) by auto
  have "card (undone (evs w1)) \<le> card (undone (evs w))" using w1(3) by (intro card_mono) (auto simp: grows_def)
  then have k: "card (undone (evs w1)) < k" using Cons.prems(2) by linarith
  have "\<forall>c \<in> set cs. c < length (evs w)" using s by (simp add: sim_ok_def graph_ok_def)
  then have t: "\<forall>c \<in> set cs. lb c \<le> unat t + unat (preDelay (evs w1 ! c)) \<and> unat t + unat (preDelay (evs w1 ! c)) \<le> ub c"
    using Cons.prems(3) w1(3) by (simp add: grows_def)
  obtain w' A' where w': "run_all f w1 cs = Some w'" "sim_ok pl known d lb ub now P A' w'" "grows w1 A1 w' A'"
    using Cons.IH [OF w1(2) k t] by blast
  have "run_all f w (c # cs) = Some w'" using w1(1) w'(1) by simp
  then show ?case using w'(2) grows_trans [OF w1(3) w'(3)] by blast
qed

text \<open>
  \<open>parentDone\<close> with enough fuel: it counts the edge down, and if it was the last one it enqueues the event or passes the
  delay on.
\<close>

lemma ev_parentDone_ok:
  assumes "sim_ok pl known d lb ub now (c # P) A w" "now \<le> unat t" "lb c \<le> unat t + unat (preDelay (evs w ! c))"
    "unat t + unat (preDelay (evs w ! c)) \<le> ub c" "card (undone (evs w)) < k"
  shows "\<exists>w' A'. ev_parentDone k pl w c t = Some w' \<and> sim_ok pl known d lb ub now P A' w' \<and> grows w A w' A'"
  using assms
proof (induction k arbitrary: w c P A t)
  case 0
  then show ?case by simp
next
  case (Suc k)
  let ?s = "evs w"
  let ?ev = "?s ! c"
  have parts: "graph_ok ?s (c # P)" "timed lb ub ?s" "queued_ok known d lb ub now A ?s" "dom_ok pl d ub now A w"
    using Suc.prems(1) by (simp_all add: sim_ok_def)
  note p = pending_child [OF parts(1)] and g = graph_okD [OF parts(1)]
  have ub63: "ub x < 2 ^ 63" for x using parts(4) unfolding dom_ok_def by (meson less_trans)
  have kid: "unat (evCycle ?ev) + unat (preDelay ?ev) \<le> ub c" "\<forall>x \<in> set (kids ?ev). edge_ok lb ub ?s c x"
    "evClass ?ev \<noteq> Delay \<Longrightarrow> unat (minStartCycle ?ev) \<le> lb c"
    using parts(2) p(1,2) by (auto simp: timed_def)
  define tm where "tm = max (evCycle ?ev) t"
  have tm: "unat tm + unat (preDelay ?ev) \<le> ub c" "unat t \<le> unat tm"
    unfolding tm_def unat_max using kid(1) Suc.prems(4) by simp_all
  define n where "n = numParents ?ev - 1"
  let ?ev1 = "?ev\<lparr>evCycle := tm, numParents := n\<rparr>"
  have get: "aget ?s c = Some ?ev" using p(1) by simp
  have kids_ev: "kids_ok ?ev" "visitChildren ?ev1 = Some (kids ?ev)"
    using ev_wfD(1) [OF g(1) p(1)] visitChildren_ok [of ?ev] by simp_all
  have "A c \<noteq> None \<longleftrightarrow> c < length ?s \<and> evState ?ev = EV_QUEUED" using parts(3) unfolding queued_ok_def by blast
  then have Ac: "A c = None" using p(2) by simp
  have sum: "unat (tm + ucast (preDelay ?ev)) = unat tm + unat (preDelay ?ev)"
    using tm(1) ub63 [of c] by (subst unat_add_u64) simp_all
  have cls: "class_ok known d ?ev" using parts(3) p(1,2) by (simp add: queued_ok_def)
  show ?case
  proof (cases "n = 0")
    case False
    let ?w = "putEv w c ?ev1"
    have run: "ev_parentDone (Suc k) pl w c t = Some ?w"
      using False p(3) get by (simp add: base_parentDone_def Let_def tm_def n_def)
    have "graph_ok (evs ?w) P" unfolding putEv_simps
      by (rule graph_ok_count [OF parts(1)]) (use kids_ev p(2) in \<open>simp_all add: n_def\<close>)
    moreover have "timed lb ub (evs ?w)" unfolding putEv_simps
      by (rule timed_update [OF parts(2) p(1)]) (use p(2) tm in simp_all)
    moreover have "queued_ok known d lb ub now A (evs ?w)"
      using parts(3) p(1,2) cls by (auto simp: queued_ok_def nth_list_update class_ok_def split: ev_class.splits)
    moreover have "dom_ok pl d ub now A ?w" by (rule dom_ok_evs [OF parts(4)]) simp_all
    ultimately have "sim_ok pl known d lb ub now P A ?w" by (simp add: sim_ok_def)
    moreover have "grows w A ?w A" using p(1,2) by (auto simp: grows_def undone_def before_def nth_list_update split: if_splits)
    ultimately show ?thesis using run by blast
  next
    case zero: True
    show ?thesis
    proof (cases "evClass ?ev = Delay")
      case False
      let ?ev2 = "?ev1\<lparr>evState := EV_QUEUED\<rparr>" and ?T = "tm + ucast (preDelay ?ev)"
      let ?w = "putEv w c ?ev2"
      have dm: "dom_ok pl d ub now A ?w" by (rule dom_ok_evs [OF parts(4)]) simp_all
      have dc: "domain ?ev = int d" using cls False by (simp add: class_ok_def split: ev_class.splits)
      have sub: "Map.dom A \<subseteq> {..<length (evs ?w)}" using queued_dom [OF parts(3)] by simp
      have e2: "c < length (evs ?w)" "domain (evs ?w ! c) = int d" "numParents (evs ?w ! c) = 0" using p(1) dc zero by simp_all
      have t2: "now \<le> unat ?T" "unat ?T \<le> ub c" "lb c \<le> unat ?T" using sum tm Suc.prems(2,3) by linarith+
      obtain w' where w': "cs_enqueue pl ?w c ?T = Some w'" "dom_ok pl d ub now (A(c \<mapsto> unat ?T)) w'" "evs w' = evs ?w" "sim.more w' = sim.more ?w"
        using cs_enqueue_ok [OF dm e2 Ac sub t2(1,2)] by blast
      have one: "numParents ?ev = 1" using zero by (simp add: n_def)
      have run: "ev_parentDone (Suc k) pl w c t = Some w'"
        using False p(2) one get zero w'(1) by (simp add: base_parentDone_def Let_def tm_def [symmetric] n_def [symmetric])
      have "graph_ok (evs w') P" unfolding w'(3) putEv_simps
        by (rule graph_ok_count [OF parts(1)]) (use kids_ev zero False in \<open>simp_all add: n_def\<close>)
      moreover have "timed lb ub (evs w')" unfolding w'(3) putEv_simps
        by (rule timed_update [OF parts(2) p(1)]) (use p(2) tm in simp_all)
      moreover have "queued_ok known d lb ub now (A(c \<mapsto> unat ?T)) (evs w')" unfolding w'(3)
        using parts(3) p(1,2) cls t2 by (auto simp: queued_ok_def nth_list_update class_ok_def split: ev_class.splits)
      ultimately have "sim_ok pl known d lb ub now P (A(c \<mapsto> unat ?T)) w'" using w'(2) by (simp add: sim_ok_def)
      moreover have "grows w A w' (A(c \<mapsto> unat ?T))"
        using p(1,2) Ac w'(3,4) by (auto simp: grows_def undone_def before_def nth_list_update split: if_splits)
      ultimately show ?thesis using run by blast
    next
      case True
      let ?ev2 = "?ev1\<lparr>evState := EV_DONE\<rparr>" and ?D = "tm + ucast (preDelay ?ev) + ucast (postDelay ?ev)"
      let ?w = "putEv w c ?ev2"
      have "unat n = 0" using zero by simp
      then have cnt: "in_edges ?s c + count_list P c = 0" using p(4) by (simp add: n_def)
      have g2: "graph_ok (evs ?w) (kids ?ev @ P)" unfolding putEv_simps
        by (rule graph_ok_done [where Q = "c # P", OF g(1) p(1)]) (use g(2,3) cnt p(2) kids_ev in auto)
      have "timed lb ub (evs ?w)" unfolding putEv_simps
        by (rule timed_update [OF parts(2) p(1)]) (use p(2) tm in simp_all)
      moreover have "queued_ok known d lb ub now A (evs ?w)"
        using parts(3) p(1,2) by (auto simp: queued_ok_def nth_list_update)
      moreover have "dom_ok pl d ub now A ?w" by (rule dom_ok_evs [OF parts(4)]) simp_all
      ultimately have s2: "sim_ok pl known d lb ub now (kids ?ev @ P) A ?w" using g2 by (simp add: sim_ok_def)
      have un: "undone (evs ?w) = undone ?s - {c}" using p(1) by (auto simp: undone_def nth_list_update)
      have "c \<in> undone ?s" using p(1,2) by (simp add: undone_def)
      then have "card (undone (evs ?w)) < card (undone ?s)" unfolding un by (intro card_Diff1_less) simp_all
      then have fuel: "card (undone (evs ?w)) < k" using Suc.prems(5) by linarith
      have pre: "preDelay (evs ?w ! x) = preDelay (?s ! x)" for x using p(1) by (cases "x = c") simp_all
      have "unat ?D = unat tm + unat (preDelay ?ev) + unat (postDelay ?ev)" if ne: "kids ?ev \<noteq> []"
      proof -
        obtain x where "x \<in> set (kids ?ev)" using ne by (cases "kids ?ev") auto
        then have "ub c + unat (postDelay ?ev) \<le> ub x" using kid(2) by (auto simp: edge_ok_def)
        then show ?thesis using tm(1) sum ub63 [of x] by (subst unat_add_u64) simp_all
      qed
      note Dsum = this
      have D: "now \<le> unat ?D" "lb x \<le> unat ?D + unat (preDelay (?s ! x))" "unat ?D + unat (preDelay (?s ! x)) \<le> ub x"
        if x: "x \<in> set (kids ?ev)" for x
      proof -
        have "edge_ok lb ub ?s c x" using kid(2) x by blast
        moreover have "kids ?ev \<noteq> []" using x by auto
        note Dsum [OF this]
        ultimately show "now \<le> unat ?D" "lb x \<le> unat ?D + unat (preDelay (?s ! x))" "unat ?D + unat (preDelay (?s ! x)) \<le> ub x"
          using tm Suc.prems(2,3) unfolding edge_ok_def by linarith+
      qed
      have t: "\<forall>x \<in> set (kids ?ev). lb x \<le> unat ?D + unat (preDelay (evs ?w ! x)) \<and> unat ?D + unat (preDelay (evs ?w ! x)) \<le> ub x"
        using D(2,3) unfolding pre by blast
      have "\<exists>w' A'. run_all (\<lambda>w c. ev_parentDone k pl w c ?D) ?w (kids ?ev) = Some w' \<and> sim_ok pl known d lb ub now P A' w' \<and> grows ?w A w' A'"
      proof (cases "kids ?ev = []")
        case True
        then show ?thesis using s2 by (intro exI [of _ ?w] exI [of _ A]) simp
      next
        case False
        then have nd: "now \<le> unat ?D" using D(1) [of "hd (kids ?ev)"] by simp
        show ?thesis by (rule notify_all [OF _ s2 fuel t]) (rule Suc.IH [OF _ nd])
      qed
      then obtain w' A' where w': "run_all (\<lambda>w c. ev_parentDone k pl w c ?D) ?w (kids ?ev) = Some w'"
        "sim_ok pl known d lb ub now P A' w'" "grows ?w A w' A'" by blast
      have "ev_parentDone (Suc k) pl w c t = Some w'"
        using True get zero w'(1) kids_ev(2) by (simp add: base_parentDone_def Let_def tm_def [symmetric] n_def [symmetric])
      moreover have "before lb' 0 ?s (evs ?w)" for lb' using True p(1) by (auto simp: before_def nth_list_update split: if_splits)
      ultimately have "ev_parentDone (Suc k) pl w c t = Some w'" "grows w A ?w A" using un pre by (auto simp: grows_def)
      then show ?thesis using w'(2) grows_trans [OF _ w'(3)] by blast
    qed
  qed
qed

section \<open>A phase\<close>

text \<open>The recorders' part of the simulation: it never fails for a recorder that is known and leaves the simulation alone.\<close>

locale event_reports =
  fixes vt :: "'x ev_methods" and known :: "nat \<Rightarrow> bool" and live :: "'x \<Rightarrow> bool"
  assumes report: "live (sim.more w) \<Longrightarrow> known r \<Longrightarrow> \<exists>w'. onIssue vt r e zll c w = Some w' \<and> live (sim.more w')
      \<and> evs w' = evs w \<and> nexts w' = nexts w \<and> csim w' = csim w"
begin

text \<open>Running a queued event that has been taken out of the queue.\<close>

lemma ev_run_ok:
  assumes g: "graph_ok (evs w) []" "timed lb ub (evs w)" "queued_ok known d lb ub now A (evs w)" and dm: "dom_ok pl d ub now (A(e := None)) w"
    and e: "A e = Some now" "unat cy = now" and live: "live (sim.more w)"
  shows "\<exists>w' A'. ev_run vt pl w e cy = Some w' \<and> sim_ok pl known d lb ub now [] A' w' \<and> live (sim.more w')
    \<and> undone (evs w') \<subset> undone (evs w) \<and> length (evs w') = length (evs w) \<and> evState (evs w' ! e) = EV_DONE
    \<and> (\<forall>x t. A x = Some t \<longrightarrow> x \<noteq> e \<longrightarrow> A' x = Some t) \<and> before lb (now + 1) (evs w) (evs w')"
proof -
  let ?s = "evs w"
  let ?ev = "?s ! e"
  have q: "A e \<noteq> None \<longleftrightarrow> e < length ?s \<and> evState ?ev = EV_QUEUED" "now \<le> now \<and> lb e \<le> now \<and> now \<le> ub e"
    using g(3) e(1) unfolding queued_ok_def by blast+
  then have e1: "e < length ?s" "evState ?ev = EV_QUEUED" using e(1) by simp_all
  have cls: "class_ok known d ?ev" using g(3) e1 by (simp add: queued_ok_def)
  have eok: "event_ok ?s [] e" using graph_okD(3) [OF g(1) e1(1)] .
  then have cnt: "in_edges ?s e = 0" "evClass ?ev \<noteq> Delay" using e1(2) by (auto simp: event_ok_def)
  have wf: "ev_wf ?s" by (rule graph_okD(1) [OF g(1)])
  have kids_ev: "kids_ok ?ev" "visitChildren ?ev = Some (kids ?ev)" using ev_wfD(1) [OF wf e1(1)] visitChildren_ok by blast+
  have min: "minStartCycle ?ev \<le> cy" and kid: "\<forall>x \<in> set (kids ?ev). edge_ok lb ub ?s e x"
    using g(2) e1 cnt(2) q(2) e(2) by (auto simp: timed_def word_le_nat_alt intro: order_trans)
  have ub63: "ub x < 2 ^ 63" for x using dm unfolding dom_ok_def by (meson less_trans)
  have done_ok: "\<exists>w' A'. ev_done pl v e cy = Some w' \<and> sim_ok pl known d lb ub now [] A' w' \<and> sim.more w' = sim.more v
      \<and> undone (evs w') \<subset> undone ?s \<and> length (evs w') = length ?s \<and> evState (evs w' ! e) = EV_DONE
      \<and> (\<forall>x t. A x = Some t \<longrightarrow> x \<noteq> e \<longrightarrow> A' x = Some t) \<and> before lb (now + 1) ?s (evs w')"
    if v: "evs v = ?s[e := ev]" "nexts v = nexts w" "csim v = csim w" "evState ev = EV_RUNNING" "kids ev = kids ?ev"
      "kids_ok ev" "postDelay ev = postDelay ?ev" "preDelay ev = preDelay ?ev" "evClass ev \<noteq> Delay" for v :: "'a sim_scheme" and ev
  proof -
    let ?d = "ev\<lparr>evState := EV_DONE\<rparr>" and ?D = "cy + ucast (postDelay ?ev)"
    let ?v = "putEv v e ?d"
    have evs: "evs ?v = ?s[e := ?d]" by (simp add: v(1))
    have all: "\<forall>x < length ?s. x \<noteq> e \<longrightarrow> event_ok ?s [] x" using graph_okD(3) [OF g(1)] by blast
    have nd: "evState ?ev \<noteq> EV_DONE" using e1(2) by simp
    have kd: "kids ?d = kids ?ev" "kids_ok ?d" "evState ?d = EV_DONE" using v(5,6) by simp_all
    have zero: "in_edges ?s e + count_list [] e = 0" using cnt(1) by simp
    have "graph_ok (?s[e := ?d]) (kids ?ev @ [])" by (rule graph_ok_done [OF wf e1(1) all _ _ zero nd kd]) simp_all
    then have ok: "graph_ok (evs ?v) (kids ?ev)" unfolding evs by simp
    have pre: "preDelay (evs ?v ! x) = preDelay (?s ! x)" and post: "postDelay (evs ?v ! x) = postDelay (?s ! x)" for x
      unfolding evs using e1(1) v(7,8) by (simp_all add: nth_list_update)
    have edge: "edge_ok lb ub (evs ?v) i j = edge_ok lb ub ?s i j" for i j unfolding edge_ok_def pre post ..
    have td: "timed lb ub (evs ?v)" unfolding timed_def
    proof (intro allI impI)
      fix i
      assume i: "i < length (evs ?v)" "evState (evs ?v ! i) \<noteq> EV_DONE"
      have "i \<noteq> e"
      proof
        assume "i = e"
        then show False using i(2) e1(1) unfolding evs by simp
      qed
      then have same: "evs ?v ! i = ?s ! i" "i < length ?s" using i(1) unfolding evs by simp_all
      then show "unat (evCycle (evs ?v ! i)) + unat (preDelay (evs ?v ! i)) \<le> ub i
        \<and> (evClass (evs ?v ! i) \<noteq> Delay \<longrightarrow> unat (minStartCycle (evs ?v ! i)) \<le> lb i) \<and> (\<forall>c \<in> set (kids (evs ?v ! i)). edge_ok lb ub (evs ?v) i c)"
        using g(2) i(2) unfolding timed_def same(1) edge by blast
    qed
    have qd: "queued_ok known d lb ub now (A(e := None)) (evs ?v)" unfolding evs
      using g(3) e1 by (auto simp: queued_ok_def nth_list_update)
    have "dom_ok pl d ub now (A(e := None)) ?v" by (rule dom_ok_evs [OF dm]) (simp_all add: v)
    then have s2: "sim_ok pl known d lb ub now (kids ?ev @ []) (A(e := None)) ?v" using ok td qd by (simp add: sim_ok_def)
    have un: "undone (evs ?v) = undone ?s - {e}" using e1(1) unfolding undone_def evs by (auto simp: nth_list_update)
    have "e \<in> undone ?s" using e1 by (simp add: undone_def)
    then have un': "undone (evs ?v) \<subset> undone ?s" using un by blast
    have "undone ?s \<subseteq> {..<length ?s}" by (auto simp: undone_def)
    then have "card (undone ?s) \<le> length ?s" using card_mono [of "{..<length ?s}"] by simp
    then have fuel: "card (undone (evs ?v)) < length (evs v)"
      using psubset_card_mono [OF finite_undone un'] by (simp add: v(1))
    have "unat ?D = now + unat (postDelay ?ev)" if ne: "kids ?ev \<noteq> []"
    proof -
      obtain x where "x \<in> set (kids ?ev)" using ne by (cases "kids ?ev") auto
      then have "ub e + unat (postDelay ?ev) \<le> ub x" using kid by (auto simp: edge_ok_def)
      then show ?thesis using q(2) ub63 [of x] e(2) by (subst unat_add_u64) simp_all
    qed
    note Dsum = this
    have D: "now \<le> unat ?D" "lb x \<le> unat ?D + unat (preDelay (?s ! x))" "unat ?D + unat (preDelay (?s ! x)) \<le> ub x"
      if x: "x \<in> set (kids ?ev)" for x
    proof -
      have "edge_ok lb ub ?s e x" using kid x by blast
      moreover have "kids ?ev \<noteq> []" using x by auto
      note Dsum [OF this]
      ultimately show "now \<le> unat ?D" "lb x \<le> unat ?D + unat (preDelay (?s ! x))" "unat ?D + unat (preDelay (?s ! x)) \<le> ub x"
        using q(2) unfolding edge_ok_def by linarith+
    qed
    have t: "\<forall>x \<in> set (kids ?ev). lb x \<le> unat ?D + unat (preDelay (evs ?v ! x)) \<and> unat ?D + unat (preDelay (evs ?v ! x)) \<le> ub x"
      using D(2,3) unfolding pre by blast
    have "\<exists>w' A'. run_all (\<lambda>w c. ev_parentDone (length (evs v)) pl w c ?D) ?v (kids ?ev) = Some w'
        \<and> sim_ok pl known d lb ub now [] A' w' \<and> grows ?v (A(e := None)) w' A'"
    proof (cases "kids ?ev = []")
      case True
      then show ?thesis using s2 by (intro exI [of _ ?v] exI [of _ "A(e := None)"]) simp
    next
      case False
      then have nd: "now \<le> unat ?D" using D(1) [of "hd (kids ?ev)"] by simp
      show ?thesis by (rule notify_all [OF _ s2 fuel t]) (rule ev_parentDone_ok [OF _ nd])
    qed
    then obtain w' A' where w': "run_all (\<lambda>w c. ev_parentDone (length (evs v)) pl w c ?D) ?v (kids ?ev) = Some w'"
      "sim_ok pl known d lb ub now [] A' w'" "grows ?v (A(e := None)) w' A'" by blast
    have "visitChildren ev = Some (kids ?ev)" using visitChildren_ok [OF v(6)] v(5) by simp
    then have "ev_done pl v e cy = Some w'" using w'(1) e1(1) v(4,7) by (simp add: ev_done_def v(1))
    moreover have "undone (evs w') \<subset> undone ?s" "e \<notin> undone (evs w')" using un' un w'(3) by (auto simp: grows_def)
    moreover have "length (evs w') = length ?s" using w'(3) unfolding grows_def evs by simp
    moreover have "evState (evs w' ! e) = EV_DONE" using calculation(3,4) e1(1) by (simp add: undone_def)
    moreover have "before lb (now + 1) ?s (evs ?v)" unfolding evs
      using q(2) v(9) cnt(2) e1(1) by (auto simp: before_def nth_list_update split: if_splits)
    then have "before lb (now + 1) ?s (evs w')"
      by (rule before_trans) (use w'(3) before_mono [of lb 0 "evs ?v" "evs w'" "now + 1"] v(1) in \<open>simp_all add: grows_def evs\<close>)
    ultimately show ?thesis using w'(2,3) by (auto simp: grows_def)
  qed
  let ?r = "?ev\<lparr>evState := EV_RUNNING\<rparr>"
  let ?w = "putEv w e ?r"
  have run: "ev_run vt pl w e cy = ev_simulate vt pl ?w e cy" using e1 min by (simp add: ev_run_def)
  have rk: "kids_ok ?r" "kids ?r = kids ?ev" using kids_ev by simp_all
  show ?thesis
  proof (cases "evClass ?ev")
    case Delay
    then show ?thesis using cnt(2) by simp
  next
    case (Issue r zll)
    have "known r" using cls Issue by (simp add: class_ok_def)
    then obtain v where v: "onIssue vt r e zll cy ?w = Some v" "live (sim.more v)" "evs v = evs ?w" "nexts v = nexts ?w" "csim v = csim ?w"
      using report [where w = ?w and r = r and e = e and zll = zll and c = cy] live by auto
    have "ev_simulate vt pl ?w e cy = ev_done pl v e cy" using Issue e1(1) v(1) by (simp add: simulate_defs)
    then show ?thesis using done_ok [of v ?r] v(2-5) rk Issue run by (simp del: kids_frame kids_ok_frame) metis
  next
    case (Dispatch zll)
    have "ev_simulate vt pl ?w e cy = ev_done pl ?w e cy" using Dispatch e1(1) by (simp add: simulate_defs)
    then show ?thesis using done_ok [of ?w ?r] rk Dispatch run live by simp metis
  next
    case (Resp r)
    let ?r2 = "?r\<lparr>evClass := Resp None\<rparr>"
    have "ev_simulate vt pl ?w e cy = ev_done pl (putEv ?w e ?r2) e cy" using Resp e1(1) by (simp add: simulate_defs)
    then show ?thesis using done_ok [of "putEv ?w e ?r2" ?r2] rk run live by simp metis
  next
    case (Other k)
    then show ?thesis using cls by (simp add: class_ok_def)
  qed
qed

text \<open>Time passes: every clock and every cycle of the queue is at or after the new time.\<close>

lemma sim_ok_later:
  assumes s: "sim_ok pl known d lb ub now [] A w" and c: "\<forall>x t. A x = Some t \<longrightarrow> later \<le> t" and d: "unat nc = later"
    and b: "unat (curBlock (dpq (domains (csim w) ! d))) * 64 \<le> later" "unat (lastLimit (csim w)) \<le> later"
  shows "\<exists>w'. setDomCycle w d nc = Some w' \<and> sim_ok pl known d lb ub later [] A w' \<and> evs w' = evs w \<and> sim.more w' = sim.more w
    \<and> domCycle (domains (csim w') ! d) = nc \<and> dpq (domains (csim w') ! d) = dpq (domains (csim w) ! d)
    \<and> lastLimit (csim w') = lastLimit (csim w) \<and> length (domains (csim w')) = length (domains (csim w))"
proof -
  have dm: "d < length (domains (csim w))" using s by (simp add: sim_ok_def dom_ok_def)
  then show ?thesis using s c d b
    by (auto simp: setDomCycle_def sim_ok_def dom_ok_def queued_ok_def)
qed

text \<open>One round: the earliest event runs, and the clock moves to the next one, or to the limit.\<close>

lemma phaseStep_ok:
  assumes s: "sim_ok pl known d lb ub now [] A w" and live: "live (sim.more w)"
    and some: "A y = Some t" "t < unat lim"
  shows "\<exists>w' A' now'. phaseStep vt pl lim d w = Some w' \<and> sim_ok pl known d lb ub now' [] A' w' \<and> live (sim.more w')
    \<and> undone (evs w') \<subset> undone (evs w) \<and> length (evs w') = length (evs w)
    \<and> (\<forall>x t. A x = Some t \<longrightarrow> A' x = Some t \<or> evState (evs w' ! x) = EV_DONE)
    \<and> (\<forall>x t. A x = Some t \<longrightarrow> unat lim \<le> t \<longrightarrow> A' x = Some t) \<and> before lb (unat lim) (evs w) (evs w')
    \<and> unat (curBlock (dpq (domains (csim w') ! d))) * 64 \<le> unat lim \<and> unat (lastLimit (csim w')) \<le> unat lim"
proof -
  let ?dd = "domains (csim w) ! d"
  have parts: "graph_ok (evs w) []" "timed lb ub (evs w)" "queued_ok known d lb ub now A (evs w)" "dom_ok pl d ub now A w"
    using s by (simp_all add: sim_ok_def)
  have dm: "d < length (domains (csim w))" "pq_rep PQ_BLOCKS (nexts w, dpq ?dd) A" "unat (domCycle ?dd) \<le> now"
    using parts(4) by (simp_all add: dom_ok_def)
  have ne: "A \<noteq> Map.empty" using some(1) by auto
  obtain nx q e cy where q: "pq_deq (nexts w, dpq ?dd) = Some ((nx, q), e, cy)" "A e = Some (unat cy)"
    "\<forall>x t. A x = Some t \<longrightarrow> unat cy \<le> t" "pq_rep PQ_BLOCKS (nx, q) (A(e := None))" "unat (curBlock q) * 64 \<le> unat cy"
    using pq.deq_rep [OF dm(2) ne] by force
  have lt: "unat cy < unat lim" using q(3) some by (meson le_less_trans)
  have nc: "now \<le> unat cy" using parts(3) q(2) unfolding queued_ok_def by blast
  let ?w1 = "w\<lparr>nexts := nx, csim := (csim w)\<lparr>domains := (domains (csim w))[d := ?dd\<lparr>dpq := q, domCycle := cy\<rparr>]\<rparr>\<rparr>"
  have "dom_ok pl d ub (unat cy) (A(e := None)) ?w1"
    using parts(4) dm(1) q(4,5) nc by (simp add: dom_ok_def)
  moreover have "queued_ok known d lb ub (unat cy) A (evs ?w1)" using parts(3) q(3) by (auto simp: queued_ok_def)
  ultimately obtain w2 A2 where w2: "ev_run vt pl ?w1 e cy = Some w2" "sim_ok pl known d lb ub (unat cy) [] A2 w2" "live (sim.more w2)"
    "undone (evs w2) \<subset> undone (evs w)" "length (evs w2) = length (evs w)" "evState (evs w2 ! e) = EV_DONE"
    "\<forall>x t. A x = Some t \<longrightarrow> x \<noteq> e \<longrightarrow> A2 x = Some t" "before lb (unat cy + 1) (evs w) (evs w2)"
    using ev_run_ok [of ?w1 lb ub d "unat cy" A pl e cy] parts(1,2) q(2) live by auto
  let ?d2 = "domains (csim w2) ! d"
  have d2: "d < length (domains (csim w2))" "pq_rep PQ_BLOCKS (nexts w2, dpq ?d2) A2"
    "unat (curBlock (dpq ?d2)) * 64 \<le> unat cy" "unat (lastLimit (csim w2)) \<le> unat cy"
    using w2(2) by (simp_all add: sim_ok_def dom_ok_def)
  have A2: "\<forall>x t. A2 x = Some t \<longrightarrow> unat cy \<le> t" using w2(2) by (simp add: sim_ok_def queued_ok_def)
  obtain nw where nw: "(if pq_size (dpq ?d2) \<noteq> 0 then pq_firstCycle PQ_BLOCKS (dpq ?d2) else Some lim) = Some nw" "cy \<le> nw"
    "\<forall>x t. A2 x = Some t \<longrightarrow> unat nw \<le> t"
  proof (cases "A2 = Map.empty")
    case True
    then have "pq_size (dpq ?d2) = 0" using pq.size_zero [OF d2(2)] by simp
    then show ?thesis using that [of lim] True lt by (simp add: word_le_nat_alt)
  next
    case False
    then have "pq_size (dpq ?d2) \<noteq> 0" using pq.size_zero [OF d2(2)] by simp
    moreover obtain c x where "pq_firstCycle PQ_BLOCKS (dpq ?d2) = Some c" "A2 x = Some (unat c)" "\<forall>y d. A2 y = Some d \<longrightarrow> unat c \<le> d"
      using pq.first_rep [OF d2(2) False] by auto
    ultimately show ?thesis using that [of c] A2 by (auto simp: word_le_nat_alt)
  qed
  have le: "unat cy \<le> unat nw" using nw(2) by (simp add: word_le_nat_alt)
  have b: "unat (curBlock (dpq ?d2)) * 64 \<le> unat nw" "unat (lastLimit (csim w2)) \<le> unat nw" using d2(3,4) le by linarith+
  obtain w' where w': "setDomCycle w2 d nw = Some w'" "sim_ok pl known d lb ub (unat nw) [] A2 w'" "evs w' = evs w2" "sim.more w' = sim.more w2"
    "dpq (domains (csim w') ! d) = dpq ?d2" "lastLimit (csim w') = lastLimit (csim w2)"
    using sim_ok_later [OF w2(2) nw(3) refl b] by blast
  have "domCycle ?dd \<le> cy" using dm(3) nc by (simp add: word_le_nat_alt)
  then have "phaseStep vt pl lim d w = Some w'" using dm(1) q(1) w2(1) d2(1) nw(1,2) w'(1) by (simp add: phaseStep_def)
  moreover have "A2 x = Some t \<or> evState (evs w2 ! x) = EV_DONE" if "A x = Some t" for x t using w2(6,7) that by (cases "x = e") auto
  moreover have "unat (curBlock (dpq ?d2)) * 64 \<le> unat lim" "unat (lastLimit (csim w2)) \<le> unat lim" using d2(3,4) lt by linarith+
  moreover have "A2 x = Some t" if "A x = Some t" "unat lim \<le> t" for x t using w2(7) that q(2) lt by (cases "x = e") auto
  moreover have "before lb (unat lim) (evs w) (evs w2)" by (rule before_mono [OF w2(8)]) (use lt in simp)
  ultimately show ?thesis using w' w2(3-5) by (intro exI [of _ w'] exI [of _ A2] exI [of _ "unat nw"]) auto
qed

text \<open>The loop ends: every round finishes an event.\<close>

lemma phaseRun_ok:
  assumes "sim_ok pl known d lb ub now [] A w" "live (sim.more w)"
    "unat (curBlock (dpq (domains (csim w) ! d))) * 64 \<le> unat lim" "unat (lastLimit (csim w)) \<le> unat lim"
  shows "\<exists>w' A' now'. phaseRun vt pl lim d w = Some w' \<and> sim_ok pl known d lb ub now' [] A' w' \<and> live (sim.more w')
    \<and> undone (evs w') \<subseteq> undone (evs w) \<and> length (evs w') = length (evs w)
    \<and> (\<forall>x t. A' x = Some t \<longrightarrow> unat lim \<le> t) \<and> (\<forall>x t. A x = Some t \<longrightarrow> A' x = Some t \<or> evState (evs w' ! x) = EV_DONE)
    \<and> (\<forall>x t. A x = Some t \<longrightarrow> unat lim \<le> t \<longrightarrow> A' x = Some t) \<and> before lb (unat lim) (evs w) (evs w')
    \<and> unat (curBlock (dpq (domains (csim w') ! d))) * 64 \<le> unat lim \<and> unat (lastLimit (csim w')) \<le> unat lim"
  using assms
proof (induction "card (undone (evs w))" arbitrary: w A now rule: less_induct)
  case less
  let ?dd = "domains (csim w) ! d"
  have dm: "d < length (domains (csim w))" "pq_rep PQ_BLOCKS (nexts w, dpq ?dd) A"
    using less.prems(1) by (simp_all add: sim_ok_def dom_ok_def)
  obtain more where more: "(if pq_size (dpq ?dd) \<noteq> 0 then do { f \<leftarrow> pq_firstCycle PQ_BLOCKS (dpq ?dd); Some (f < lim) } else Some False) = Some more"
    "more \<longleftrightarrow> (\<exists>y t. A y = Some t \<and> t < unat lim)"
  proof (cases "A = Map.empty")
    case True
    then show ?thesis using pq.size_zero [OF dm(2)] that [of False] by simp
  next
    case False
    then have "pq_size (dpq ?dd) \<noteq> 0" using pq.size_zero [OF dm(2)] by simp
    moreover obtain c x where c: "pq_firstCycle PQ_BLOCKS (dpq ?dd) = Some c" "A x = Some (unat c)" "\<forall>y d. A y = Some d \<longrightarrow> unat c \<le> d"
      using pq.first_rep [OF dm(2) False] by auto
    moreover have "c < lim \<longleftrightarrow> (\<exists>y t. A y = Some t \<and> t < unat lim)"
      using c(2,3) by (auto simp: word_less_nat_alt intro: le_less_trans)
    ultimately show ?thesis using that [of "c < lim"] by simp
  qed
  have run: "phaseRun vt pl lim d w = (if more then Option.bind (phaseStep vt pl lim d w) (phaseRun vt pl lim d) else Some w)"
    using dm(1) more(1) by (subst phaseRun.simps) simp
  show ?case
  proof (cases more)
    case False
    then have "\<forall>x t. A x = Some t \<longrightarrow> unat lim \<le> t" using more(2) by (meson not_le)
    then show ?thesis using run False less.prems by (intro exI [of _ w] exI [of _ A] exI [of _ now]) auto
  next
    case True
    then obtain y t where y: "A y = Some t" "t < unat lim" using more(2) by blast
    obtain w1 A1 now1 where w1: "phaseStep vt pl lim d w = Some w1" "sim_ok pl known d lb ub now1 [] A1 w1" "live (sim.more w1)"
      "undone (evs w1) \<subset> undone (evs w)" "length (evs w1) = length (evs w)"
      "\<forall>x t. A x = Some t \<longrightarrow> A1 x = Some t \<or> evState (evs w1 ! x) = EV_DONE"
      "unat (curBlock (dpq (domains (csim w1) ! d))) * 64 \<le> unat lim" "unat (lastLimit (csim w1)) \<le> unat lim"
      and far1: "\<forall>x t. A x = Some t \<longrightarrow> unat lim \<le> t \<longrightarrow> A1 x = Some t" "before lb (unat lim) (evs w) (evs w1)"
      using phaseStep_ok [OF less.prems(1,2) y] by blast
    have "card (undone (evs w1)) < card (undone (evs w))" using w1(4) by (intro psubset_card_mono) simp_all
    from less.hyps [OF this w1(2,3,7,8)] obtain w' A' now' where w': "phaseRun vt pl lim d w1 = Some w'"
      "sim_ok pl known d lb ub now' [] A' w'" "live (sim.more w')" "undone (evs w') \<subseteq> undone (evs w1)" "length (evs w') = length (evs w1)"
      "\<forall>x t. A' x = Some t \<longrightarrow> unat lim \<le> t" "\<forall>x t. A1 x = Some t \<longrightarrow> A' x = Some t \<or> evState (evs w' ! x) = EV_DONE"
      "unat (curBlock (dpq (domains (csim w') ! d))) * 64 \<le> unat lim" "unat (lastLimit (csim w')) \<le> unat lim"
      and far2: "\<forall>x t. A1 x = Some t \<longrightarrow> unat lim \<le> t \<longrightarrow> A' x = Some t" "before lb (unat lim) (evs w1) (evs w')"
      by blast
    have "evState (evs w' ! x) = EV_DONE" if A: "A x = Some t" "A' x \<noteq> Some t" for x t
    proof -
      have x: "x < length (evs w)" using less.prems(1) A(1) unfolding sim_ok_def queued_ok_def by (metis option.distinct(1))
      show ?thesis
      proof (rule ccontr)
        assume nd: "evState (evs w' ! x) \<noteq> EV_DONE"
        then have "x \<in> undone (evs w')" using x w'(5) w1(5) by (simp add: undone_def)
        then have "x \<in> undone (evs w1)" using w'(4) by blast
        then have "A1 x = Some t" using w1(6) A(1) by (auto simp: undone_def)
        then show False using w'(7) nd A(2) by blast
      qed
    qed
    moreover have "phaseRun vt pl lim d w = Some w'" using run True w1(1) w'(1) by simp
    moreover have "undone (evs w') \<subseteq> undone (evs w)" "length (evs w') = length (evs w)" using w'(4,5) w1(4,5) by auto
    moreover have "before lb (unat lim) (evs w) (evs w')" by (rule before_trans [OF far1(2) far2(2) w1(5)])
    moreover have "\<forall>x t. A x = Some t \<longrightarrow> unat lim \<le> t \<longrightarrow> A' x = Some t" using far1(1) far2(1) by blast
    ultimately show ?thesis using w' by blast
  qed
qed

lemma simulatePhaseThread_ok:
  assumes s: "sim_ok pl known d lb ub now [] A w" and live: "live (sim.more w)" and lim: "now \<le> unat lim"
  shows "\<exists>w' A'. simulatePhaseThread vt pl lim d w = Some w' \<and> sim_ok pl known d lb ub (unat lim) [] A' w' \<and> live (sim.more w')
    \<and> (\<forall>x t. A x = Some t \<and> t < unat lim \<longrightarrow> evState (evs w' ! x) = EV_DONE) \<and> undone (evs w') \<subseteq> undone (evs w)
    \<and> (\<forall>x < length (evs w'). evState (evs w' ! x) = EV_QUEUED \<longrightarrow> (\<exists>t \<ge> unat lim. A' x = Some t))
    \<and> domCycle (domains (csim w') ! d) = lim
    \<and> (\<forall>x t. A x = Some t \<longrightarrow> unat lim \<le> t \<longrightarrow> A' x = Some t) \<and> before lb (unat lim) (evs w) (evs w')"
proof -
  have "unat (curBlock (dpq (domains (csim w) ! d))) * 64 \<le> unat lim" "unat (lastLimit (csim w)) \<le> unat lim"
    using s lim by (auto simp: sim_ok_def dom_ok_def)
  then obtain w1 A1 now1 where w1: "phaseRun vt pl lim d w = Some w1" "sim_ok pl known d lb ub now1 [] A1 w1" "live (sim.more w1)"
    "undone (evs w1) \<subseteq> undone (evs w)" "length (evs w1) = length (evs w)"
    "\<forall>x t. A1 x = Some t \<longrightarrow> unat lim \<le> t" "\<forall>x t. A x = Some t \<longrightarrow> A1 x = Some t \<or> evState (evs w1 ! x) = EV_DONE"
    "unat (curBlock (dpq (domains (csim w1) ! d))) * 64 \<le> unat lim" "unat (lastLimit (csim w1)) \<le> unat lim"
    "\<forall>x t. A x = Some t \<longrightarrow> unat lim \<le> t \<longrightarrow> A1 x = Some t" "before lb (unat lim) (evs w) (evs w1)"
    using phaseRun_ok [OF s live] by blast
  obtain w' where w': "setDomCycle w1 d lim = Some w'" "sim_ok pl known d lb ub (unat lim) [] A1 w'" "evs w' = evs w1" "sim.more w' = sim.more w1"
    "domCycle (domains (csim w') ! d) = lim"
    using sim_ok_later [OF w1(2,6) refl w1(8,9)] by blast
  have "simulatePhaseThread vt pl lim d w = Some w'" using w1(1) w'(1) by (simp add: simulatePhaseThread_def)
  moreover have "evState (evs w' ! x) = EV_DONE" if "A x = Some t" "t < unat lim" for x t
    using w1(6,7) that w'(3) by (metis not_le)
  moreover have "\<exists>t \<ge> unat lim. A1 x = Some t" if "x < length (evs w')" "evState (evs w' ! x) = EV_QUEUED" for x
    using w'(2) that w1(6) unfolding sim_ok_def queued_ok_def by (metis option.exhaust)
  ultimately show ?thesis using w' w1(3,4,10,11) by (intro exI [of _ w'] exI [of _ A1]) auto
qed

end

end
