(* ===== verification/Recorder.thy ===== *)
theory Recorder
  imports ContentionSim Tracer
begin

text \<open>
  The recorder of an out-of-order core (\<open>src/src/ooo_core_recorder.h\<close>, \<open>src/src/ooo_core_recorder.cpp\<close>): it builds the graph of
  events of a core while the core runs ahead in the bound phase, hears in the weave phase when its issue events start, and moves
  the clock of the core by what contention has added.  The system has one domain, so no crossings are produced; the identifiers
  of events only serve traces and are left out.
\<close>

section \<open>State\<close>

datatype RecState = HALTED | RUNNING | DRAINING

record FutureResponse =
  frZll :: u64
  frEv :: "nat option"

text \<open>
  \<open>futureResponses\<close> is a priority queue of the standard library: its container is a list here, of which the code takes
  out an element of the least cycle.  The order of the others in the container is left to the library.
\<close>

record OOOCoreRecorder =
  recState :: RecState
  gapCycles :: u64
  eventRecorder :: EventRecorder
  lastEvProduced :: "nat option"
  futureResponses :: "FutureResponse list"
  lastEvSimulatedZllStartCycle :: u64
  lastEvSimulatedStartCycle :: u64
  totalGapCycles :: u64
  totalHaltedCycles :: u64
  lastUnhaltedCycle :: u64
  recDomain :: u32

text \<open>
  The constructor; \<open>tr\<close>, \<open>src\<close> and \<open>slack\<close> are what the event recorder's memory holds, a record of which only the validity is cleared.
\<close>

definition OOOCoreRecorder_new :: "u32 \<Rightarrow> TimingRecord \<Rightarrow> u32 \<Rightarrow> u64 \<Rightarrow> OOOCoreRecorder" where
  "OOOCoreRecorder_new dm tr src slack =
     \<lparr>recState = HALTED, gapCycles = 0,
      eventRecorder = setGapCycles \<lparr>er_tr = tr_clear tr, ersrcId = src, lastGapCycles = 0, lastStartSlack = slack\<rparr> 0,
      lastEvProduced = None, futureResponses = [], lastEvSimulatedZllStartCycle = 0, lastEvSimulatedStartCycle = 0,
      totalGapCycles = 0, totalHaltedCycles = 0, lastUnhaltedCycle = 0, recDomain = dm\<rparr>"

text \<open>The world of the simulation with the recorders of the cores; a recorder is addressed by its position.\<close>

type_synonym recsim = "OOOCoreRecorder list sim_scheme"

definition recs :: "recsim \<Rightarrow> OOOCoreRecorder list" where
  "recs w = sim.more w"

definition putRec :: "recsim \<Rightarrow> nat \<Rightarrow> OOOCoreRecorder \<Rightarrow> recsim" where
  "putRec w r rc = sim.more_update (\<lambda>rs. rs[r := rc]) w"

lemma putRec_simps [simp]:
  "evs (putRec w r rc) = evs w" "nexts (putRec w r rc) = nexts w" "csim (putRec w r rc) = csim w" "recs (putRec w r rc) = (recs w)[r := rc]"
  by (simp_all add: putRec_def recs_def)

section \<open>Events of the recorder\<close>

text \<open>The operations of the event store on the world.\<close>

definition onEvs :: "(events \<Rightarrow> events option) \<Rightarrow> recsim \<Rightarrow> recsim option" where
  "onEvs f w = do { s \<leftarrow> f (evs w); Some (w\<lparr>evs := s\<rparr>) }"

definition newEvent :: "TimingEvent \<Rightarrow> recsim \<Rightarrow> recsim \<times> nat" where
  "newEvent ev w = (let (s, e) = alloc (evs w) ev in (w\<lparr>evs := s\<rparr>, e))"

definition OOOIssueEvent_new :: "u32 \<Rightarrow> u64 \<Rightarrow> nat \<Rightarrow> int \<Rightarrow> TimingEvent" where
  "OOOIssueEvent_new pre zll r dm = TimingEvent_new (Issue r zll) pre 0 dm"

definition OOODispatchEvent_new :: "u64 \<Rightarrow> u64 \<Rightarrow> int \<Rightarrow> TimingEvent" where
  "OOODispatchEvent_new pre zll dm = TimingEvent_new (Dispatch zll) (ucast pre) 0 dm"

definition OOORespEvent_new :: "u64 \<Rightarrow> nat \<Rightarrow> int \<Rightarrow> TimingEvent" where
  "OOORespEvent_new pre r dm = TimingEvent_new (Resp (Some r)) (ucast pre) 0 dm"

text \<open>\<open>ev->zllStartCycle\<close> of an issue event.\<close>

definition ev_zll :: "recsim \<Rightarrow> nat \<Rightarrow> u64 option" where
  "ev_zll w e = do { ev \<leftarrow> aget (evs w) e; (case evClass ev of Issue r z \<Rightarrow> Some z | _ \<Rightarrow> None) }"

text \<open>\<open>fr.ev->cRec == this\<close>.\<close>

definition ev_reportsTo :: "recsim \<Rightarrow> nat \<Rightarrow> nat \<Rightarrow> bool option" where
  "ev_reportsTo w r e = do { ev \<leftarrow> aget (evs w) e; (case evClass ev of Resp c \<Rightarrow> Some (c = Some r) | _ \<Rightarrow> None) }"

text \<open>A delay event from \<open>a\<close> to \<open>b\<close> that may start at \<open>mn\<close>, if that is set.\<close>

definition linkDelayed :: "nat \<Rightarrow> nat \<Rightarrow> u32 \<Rightarrow> u64 option \<Rightarrow> recsim \<Rightarrow> recsim option" where
  "linkDelayed a b delay mn w = do {
     let (w1, dl) = newEvent (DelayEvent_new delay) w;
     w2 \<leftarrow> (case mn of Some m \<Rightarrow> onEvs (\<lambda>s. setMinStartCycle s dl m) w1 | None \<Rightarrow> Some w1);
     w3 \<leftarrow> onEvs (\<lambda>s. addChild s a dl) w2;
     onEvs (\<lambda>s. addChild s dl b) w3
   }"

text \<open>The first of the responses with the least cycle, and the others.\<close>

fun minResp :: "FutureResponse \<Rightarrow> FutureResponse list \<Rightarrow> FutureResponse" where
  "minResp m [] = m"
| "minResp m (f # fs) = minResp (if frZll f < frZll m then f else m) fs"

text \<open>
  The loop of \<open>addIssueEvent\<close> over the responses before \<open>zllCycle\<close>: it links those that are still to come to the
  event \<open>e\<close> and returns the queue left and the last cycle.  \<open>lz\<close> is the cycle of the last issue event.
\<close>

fun linkResponses :: "nat \<Rightarrow> u64 \<Rightarrow> u64 \<Rightarrow> nat \<Rightarrow> FutureResponse list \<Rightarrow> u64 \<Rightarrow> recsim \<Rightarrow> (FutureResponse list \<times> u64 \<times> recsim) option" where
  "linkResponses k zllCycle lz e [] maxCycle w = Some ([], maxCycle, w)"
| "linkResponses 0 zllCycle lz e (f # fs) maxCycle w = None"
| "linkResponses (Suc k) zllCycle lz e (f # fs) maxCycle w =
     (let first = minResp f fs in
      if frZll first \<ge> zllCycle then Some (f # fs, maxCycle, w)
      else (case frEv first of
          None \<Rightarrow> linkResponses k zllCycle lz e (remove1 first (f # fs)) maxCycle w
        | Some x \<Rightarrow> do {
            w1 \<leftarrow> onEvs (\<lambda>s. addChild s x e) w;
            _ \<leftarrow> require (maxCycle \<le> frZll first);
            _ \<leftarrow> require (frZll first \<ge> lz);
            linkResponses k zllCycle lz e (remove1 first (f # fs)) (frZll first) w1
          }))"

section \<open>The bound phase\<close>

text \<open>\<open>addIssueEvent\<close>: a new issue event after the last one and after the responses before it.\<close>

definition addIssueEvent :: "nat \<Rightarrow> u64 \<Rightarrow> recsim \<Rightarrow> recsim option" where
  "addIssueEvent r issueCycle w = do {
     rc \<leftarrow> aget (recs w) r;
     lst \<leftarrow> lastEvProduced rc;
     let zllCycle = issueCycle - gapCycles rc;
     lz \<leftarrow> ev_zll w lst;
     _ \<leftarrow> require (zllCycle \<ge> lz);
     let (w1, ev) = newEvent (OOOIssueEvent_new 0 zllCycle r (sint (recDomain rc))) w;
     let n = length (futureResponses rc);
     (fs, maxCycle, w2) \<leftarrow> linkResponses n zllCycle lz ev (futureResponses rc) 0 w1;
     let pd = (if maxCycle \<noteq> 0 then (if maxCycle < zllCycle then ucast (zllCycle - maxCycle) else 0) else 0 :: u32);
     w3 \<leftarrow> onEvs (\<lambda>s. setPreDelay s ev pd) w2;
     let issueDelay = ucast (zllCycle - lz - ucast pd);
     l \<leftarrow> aget (evs w3) lst;
     w4 \<leftarrow> linkDelayed lst ev issueDelay (Some (minStartCycle l)) w3;
     w5 \<leftarrow> onEvs (\<lambda>s. setMinStartCycle s ev issueCycle) w4;
     Some (putRec w5 r (rc\<lparr>futureResponses := fs, lastEvProduced := Some ev\<rparr>))
   }"

definition or_notifyJoin :: "ZInfo \<Rightarrow> nat \<Rightarrow> u64 \<Rightarrow> recsim \<Rightarrow> (recsim \<times> u64) option" where
  "or_notifyJoin zi r cur w = do {
     rc \<leftarrow> aget (recs w) r;
     (w', c) \<leftarrow> (case recState rc of
         HALTED \<Rightarrow> do {
           _ \<leftarrow> require (lastEvProduced rc = None);
           let c = globPhaseCycles zi;
           _ \<leftarrow> require (lastUnhaltedCycle rc \<le> c);
           let o1 = rc\<lparr>totalGapCycles := totalGapCycles rc + gapCycles rc, gapCycles := 0, eventRecorder := setGapCycles (eventRecorder rc) 0,
                      totalHaltedCycles := totalHaltedCycles rc + (c - lastUnhaltedCycle rc)\<rparr>;
           let (w1, ev) = newEvent (OOOIssueEvent_new 0 (c - gapCycles o1) r (sint (recDomain rc))) w;
           w2 \<leftarrow> onEvs (\<lambda>s. setMinStartCycle s ev c) w1;
           w3 \<leftarrow> ev_queue (phaseLength zi) w2 ev c;
           Some (putRec w3 r (o1\<lparr>lastEvProduced := Some ev, eventRecorder := setStartSlack (eventRecorder o1) 0\<rparr>), c)
         }
       | DRAINING \<Rightarrow> do {
           _ \<leftarrow> require (cur \<ge> globPhaseCycles zi);
           _ \<leftarrow> require (lastEvProduced rc \<noteq> None);
           w1 \<leftarrow> addIssueEvent r cur w;
           Some (w1, cur)
         }
       | RUNNING \<Rightarrow> None);
     rc' \<leftarrow> aget (recs w') r;
     Some (putRec w' r (rc'\<lparr>recState := RUNNING\<rparr>), c)
   }"

definition or_notifyLeave :: "nat \<Rightarrow> u64 \<Rightarrow> recsim \<Rightarrow> recsim option" where
  "or_notifyLeave r cur w = do {
     rc \<leftarrow> aget (recs w) r;
     _ \<leftarrow> require (recState rc = RUNNING);
     lst \<leftarrow> lastEvProduced rc;
     lz \<leftarrow> ev_zll w lst;
     _ \<leftarrow> require (cur - gapCycles rc \<ge> lz);
     addIssueEvent r cur (putRec w r (rc\<lparr>recState := DRAINING\<rparr>))
   }"

text \<open>
  \<open>recordAccess\<close>: an access with a record gets an issue event, a dispatch event after the responses before it, the events of the
  memory system, and a response event; a writeback is hung under the last issue event.
\<close>

definition recordAccess :: "nat \<Rightarrow> u64 \<Rightarrow> u64 \<Rightarrow> u64 \<Rightarrow> recsim \<Rightarrow> recsim option" where
  "recordAccess r cur dispatchCycle respCycle w = do {
     rc \<leftarrow> aget (recs w) r;
     _ \<leftarrow> require (hasRecord (eventRecorder rc));
     let (er, tr) = popRecord (eventRecorder rc);
     let w0 = putRec w r (rc\<lparr>eventRecorder := er\<rparr>);
     start \<leftarrow> startEvent tr;
     (if IsGet (trtype tr) then do {
        end \<leftarrow> endEvent tr;
        w1 \<leftarrow> addIssueEvent r cur w0;
        o1 \<leftarrow> aget (recs w1) r;
        lst \<leftarrow> lastEvProduced o1;
        let (w2, dDisp) = newEvent (DelayEvent_new (ucast (dispatchCycle - cur))) w1;
        w3 \<leftarrow> onEvs (\<lambda>s. setMinStartCycle s dDisp cur) w2;
        let (w4, dispEv) = newEvent (OOODispatchEvent_new 0 dispatchCycle (-1)) w3;
        w5 \<leftarrow> onEvs (\<lambda>s. setMinStartCycle s dispEv dispatchCycle) w4;
        let zllDispatchCycle = dispatchCycle - gapCycles o1;
        w6 \<leftarrow> run_all (\<lambda>w fr. case frEv fr of
            Some x \<Rightarrow> if frZll fr < zllDispatchCycle then linkDelayed x dispEv (ucast (zllDispatchCycle - frZll fr)) None w else Some w
          | None \<Rightarrow> Some w) w5 (futureResponses o1);
        let (w7, dUp) = newEvent (DelayEvent_new (ucast (reqCycle tr - dispatchCycle))) w6;
        w8 \<leftarrow> onEvs (\<lambda>s. setMinStartCycle s dUp dispatchCycle) w7;
        w9 \<leftarrow> onEvs (\<lambda>s. addChild s lst dDisp) w8;
        w10 \<leftarrow> onEvs (\<lambda>s. addChild s dDisp dispEv) w9;
        w11 \<leftarrow> onEvs (\<lambda>s. addChild s dispEv dUp) w10;
        w12 \<leftarrow> onEvs (\<lambda>s. addChild s dUp start) w11;
        _ \<leftarrow> require (respCycle \<ge> trespCycle tr);
        let downDelay = (ucast (respCycle - trespCycle tr) :: u32);
        let (w13, respEv) = newEvent (OOORespEvent_new (ucast downDelay) r (sint (recDomain o1))) w12;
        w14 \<leftarrow> onEvs (\<lambda>s. setMinStartCycle s respEv respCycle) w13;
        w15 \<leftarrow> onEvs (\<lambda>s. addChild s end respEv) w14;
        Some (putRec w15 r (o1\<lparr>futureResponses := futureResponses o1 @ [\<lparr>frZll = respCycle - gapCycles o1, frEv = Some respEv\<rparr>]\<rparr>))
      }
      else do {
        lst \<leftarrow> lastEvProduced rc;
        linkDelayed lst start (ucast (reqCycle tr - cur)) (Some cur) w0
      })
   }"

definition or_record :: "nat \<Rightarrow> u64 \<Rightarrow> u64 \<Rightarrow> u64 \<Rightarrow> recsim \<Rightarrow> recsim option" where
  "or_record r cur dispatchCycle respCycle w = do {
     rc \<leftarrow> aget (recs w) r;
     (if hasRecord (eventRecorder rc) then recordAccess r cur dispatchCycle respCycle w else Some w)
   }"

section \<open>Between the phases\<close>

definition or_cSimStart :: "ZInfo \<Rightarrow> nat \<Rightarrow> u64 \<Rightarrow> recsim \<Rightarrow> (recsim \<times> u64) option" where
  "or_cSimStart zi r cur w = do {
     rc \<leftarrow> aget (recs w) r;
     let nextPhaseCycle = globPhaseCycles zi + ucast (phaseLength zi);
     (case recState rc of
        HALTED \<Rightarrow> Some (w, cur)
      | RUNNING \<Rightarrow> do {
          _ \<leftarrow> require (cur > nextPhaseCycle);
          lst \<leftarrow> lastEvProduced rc;
          lz \<leftarrow> ev_zll w lst;
          _ \<leftarrow> require (lz \<le> cur - gapCycles rc);
          (if lz < nextPhaseCycle - gapCycles rc then do { w1 \<leftarrow> addIssueEvent r nextPhaseCycle w; Some (w1, cur) }
           else Some (w, cur))
        }
      | DRAINING \<Rightarrow>
          Some (putRec w r (rc\<lparr>futureResponses := []\<rparr>), if cur < nextPhaseCycle then nextPhaseCycle else cur))
   }"

text \<open>Forgetting the responses that have been simulated.\<close>

definition dropSimulated :: "recsim \<Rightarrow> nat \<Rightarrow> FutureResponse \<Rightarrow> FutureResponse option" where
  "dropSimulated w r fr = (case frEv fr of
     None \<Rightarrow> Some fr
   | Some x \<Rightarrow> do { mine \<leftarrow> ev_reportsTo w r x; Some (if mine then fr else fr\<lparr>frEv := None\<rparr>) })"

fun mapM :: "('a \<Rightarrow> 'b option) \<Rightarrow> 'a list \<Rightarrow> 'b list option" where
  "mapM f [] = Some []"
| "mapM f (x # xs) = do { y \<leftarrow> f x; ys \<leftarrow> mapM f xs; Some (y # ys) }"

definition or_cSimEnd :: "nat \<Rightarrow> u64 \<Rightarrow> recsim \<Rightarrow> (recsim \<times> u64) option" where
  "or_cSimEnd r cur w = do {
     rc \<leftarrow> aget (recs w) r;
     (if recState rc = HALTED then Some (w, cur)
      else do {
        let lastEvCycle1 = lastEvSimulatedZllStartCycle rc + gapCycles rc;
        let lastEvCycle2 = lastEvSimulatedStartCycle rc;
        _ \<leftarrow> require (lastEvCycle1 \<le> cur);
        _ \<leftarrow> require (lastEvCycle2 \<le> cur);
        _ \<leftarrow> require (\<not> lastEvCycle1 > lastEvCycle2);
        let skew = lastEvCycle2 - lastEvCycle1;
        let gap = gapCycles rc + skew;
        fs \<leftarrow> mapM (dropSimulated w r) (futureResponses rc);
        let o1 = rc\<lparr>gapCycles := gap, eventRecorder := setGapCycles (eventRecorder rc) gap, futureResponses := fs\<rparr>;
        (if lastEvProduced rc = None then do {
           _ \<leftarrow> require (recState rc = DRAINING);
           _ \<leftarrow> require (fs = []);
           Some (putRec w r (o1\<lparr>lastUnhaltedCycle := lastEvSimulatedStartCycle rc, recState := HALTED\<rparr>), cur + skew)
         }
         else Some (putRec w r o1, cur + skew))
      })
   }"

section \<open>The weave phase\<close>

definition reportIssueEventSimulated :: "nat \<Rightarrow> nat \<Rightarrow> u64 \<Rightarrow> u64 \<Rightarrow> recsim \<Rightarrow> recsim option" where
  "reportIssueEventSimulated r e zllStartCycle startCycle w = do {
     rc \<leftarrow> aget (recs w) r;
     let o1 = rc\<lparr>lastEvSimulatedZllStartCycle := zllStartCycle, lastEvSimulatedStartCycle := startCycle\<rparr>;
     let o2 = (if lastEvProduced o1 = Some e then o1\<lparr>lastEvProduced := None\<rparr> else o1);
     Some (putRec w r (o2\<lparr>eventRecorder := setStartSlack (eventRecorder o2) (startCycle - zllStartCycle)\<rparr>))
   }"

definition recorder_methods :: "OOOCoreRecorder list ev_methods" where
  "recorder_methods = \<lparr>onIssue = reportIssueEventSimulated, onOther = \<lambda>k e c w. None\<rparr>"

section \<open>Statistics\<close>

definition getUnhaltedCycles :: "ZInfo \<Rightarrow> OOOCoreRecorder \<Rightarrow> u64 \<Rightarrow> u64" where
  "getUnhaltedCycles zi rc cur =
     (let cycle = c_MAX cur (globPhaseCycles zi);
          haltedCycles = totalHaltedCycles rc + (if recState rc = HALTED then cycle - lastUnhaltedCycle rc else 0)
      in cycle - haltedCycles)"

definition getContentionCycles :: "OOOCoreRecorder \<Rightarrow> u64" where
  "getContentionCycles rc = totalGapCycles rc + gapCycles rc"

section \<open>Building the graph\<close>

text \<open>Operations on the store leave the rest of the world alone and keep what there is.\<close>

definition moved :: "recsim \<Rightarrow> recsim \<Rightarrow> bool" where
  "moved w w' = (nexts w' = nexts w \<and> csim w' = csim w \<and> recs w' = recs w \<and> kept (evs w) (evs w'))"

lemma moved_refl [simp]: "moved w w"
  by (simp add: moved_def)

lemma moved_trans: "moved w w1 \<Longrightarrow> moved w1 w2 \<Longrightarrow> moved w w2"
  unfolding moved_def by (auto intro: kept_trans)

lemma movedD: "moved w w' \<Longrightarrow> i < length (evs w) \<Longrightarrow> i < length (evs w') \<and> evClass (evs w' ! i) = evClass (evs w ! i)
    \<and> evState (evs w' ! i) = evState (evs w ! i) \<and> minStartCycle (evs w' ! i) = minStartCycle (evs w ! i) \<and> preDelay (evs w' ! i) = preDelay (evs w ! i)"
  by (auto simp: moved_def kept_def)

lemma moved_kids: "moved w w' \<Longrightarrow> i < length (evs w) \<Longrightarrow> x \<in> set (kids (evs w ! i)) \<Longrightarrow> x \<in> set (kids (evs w' ! i))"
  by (auto simp: moved_def kept_def)

text \<open>Events that may get children.\<close>

definition open_ev :: "recsim \<Rightarrow> nat \<Rightarrow> bool" where
  "open_ev w x = (x < length (evs w) \<and> (evState (evs w ! x) = EV_NONE \<or> evState (evs w ! x) = EV_QUEUED))"

lemma open_moved: "moved w w' \<Longrightarrow> open_ev w x \<Longrightarrow> open_ev w' x"
  using movedD by (auto simp: open_ev_def)

lemma addChild_w:
  assumes "ev_le B (evs w)" "B + 1 < 2 ^ 32" "open_ev w a" "b < length (evs w)" "evState (evs w ! b) = EV_NONE" "a \<noteq> b"
  shows "\<exists>w'. onEvs (\<lambda>s. addChild s a b) w = Some w' \<and> ev_le (B + 1) (evs w') \<and> moved w w' \<and> length (evs w') = length (evs w)
    \<and> b \<in> set (kids (evs w' ! a))"
  using addChild_step [OF assms(1,2) _ assms(4,6) _ assms(5)] assms(3) by (auto simp: onEvs_def moved_def open_ev_def recs_def)

lemma newEvent_ok:
  assumes "newEvent (TimingEvent_new k p q d) w = (w', e)" "ev_le B (evs w)"
  shows "e = length (evs w)" "length (evs w') = Suc (length (evs w))" "ev_le B (evs w')" "moved w w'" "evs w' ! e = TimingEvent_new k p q d"
    "open_ev w' e" "evState (evs w' ! e) = EV_NONE"
  using assms ev_le_snoc [OF assms(2)]
  by (auto simp: newEvent_def alloc_def moved_def kept_def nth_append recs_def open_ev_def TimingEvent_new_def)

text \<open>Setting a field of an event that is new.\<close>

lemma setMin_w:
  assumes "ev_le B (evs w1)" "moved w w1" "e < length (evs w1)" "length (evs w) \<le> e"
  shows "\<exists>w'. onEvs (\<lambda>s. setMinStartCycle s e c) w1 = Some w' \<and> ev_le B (evs w') \<and> moved w w' \<and> length (evs w') = length (evs w1)
    \<and> evs w' = (evs w1)[e := (evs w1 ! e)\<lparr>minStartCycle := c\<rparr>]"
  using assms ev_le_update [OF assms(1,3), of "(evs w1 ! e)\<lparr>minStartCycle := c\<rparr>"]
  by (auto simp: onEvs_def setMinStartCycle_def moved_def kept_def recs_def)

lemma setPre_w:
  assumes "ev_le B (evs w1)" "moved w w1" "e < length (evs w1)" "length (evs w) \<le> e"
  shows "\<exists>w'. onEvs (\<lambda>s. setPreDelay s e c) w1 = Some w' \<and> ev_le B (evs w') \<and> moved w w' \<and> length (evs w') = length (evs w1)
    \<and> evs w' = (evs w1)[e := (evs w1 ! e)\<lparr>preDelay := c\<rparr>]"
  using assms ev_le_update [OF assms(1,3), of "(evs w1 ! e)\<lparr>preDelay := c\<rparr>"]
  by (auto simp: onEvs_def setPreDelay_def moved_def kept_def recs_def)

lemma linkDelayed_ok:
  assumes le: "ev_le B (evs w)" "B + 2 < 2 ^ 32" and a: "open_ev w a" and b: "b < length (evs w)" "evState (evs w ! b) = EV_NONE"
  shows "\<exists>w' dl. linkDelayed a b delay mn w = Some w' \<and> ev_le (B + 2) (evs w') \<and> moved w w' \<and> dl \<in> set (kids (evs w' ! a))
    \<and> b \<in> set (kids (evs w' ! dl)) \<and> preDelay (evs w' ! dl) = delay \<and> evClass (evs w' ! dl) = Delay"
proof -
  obtain w1 dl where n: "newEvent (DelayEvent_new delay) w = (w1, dl)" by fastforce
  note w1 = newEvent_ok [OF n [unfolded DelayEvent_new_def] le(1)]
  obtain w2 where w2: "(case mn of Some m \<Rightarrow> onEvs (\<lambda>s. setMinStartCycle s dl m) w1 | None \<Rightarrow> Some w1) = Some w2" "ev_le B (evs w2)"
    "moved w w2" "length (evs w2) = length (evs w1)" "evState (evs w2 ! dl) = EV_NONE" "preDelay (evs w2 ! dl) = delay" "evClass (evs w2 ! dl) = Delay"
  proof (cases mn)
    case None
    then show ?thesis using that [of w1] w1 by (simp add: TimingEvent_new_def)
  next
    case (Some m)
    then show ?thesis using that setMin_w [OF w1(3,4), of dl m] w1 by (auto simp: TimingEvent_new_def)
  qed
  have d: "dl < length (evs w2)" "a \<noteq> dl" "dl \<noteq> b" using w1(1,2) w2(4) a b(1) by (auto simp: open_ev_def)
  have B1: "B + 1 < 2 ^ 32" using le(2) by simp
  obtain w3 where w3: "onEvs (\<lambda>s. addChild s a dl) w2 = Some w3" "ev_le (B + 1) (evs w3)" "moved w2 w3" "length (evs w3) = length (evs w2)"
    "dl \<in> set (kids (evs w3 ! a))" using addChild_w [OF w2(2) B1 open_moved [OF w2(3) a] d(1) w2(5) d(2)] by blast
  have m3: "moved w w3" by (rule moved_trans [OF w2(3) w3(3)])
  have o3: "open_ev w3 dl" using open_moved [OF w3(3)] d(1) w2(5) by (simp add: open_ev_def)
  have b3: "b < length (evs w3)" "evState (evs w3 ! b) = EV_NONE" using movedD [OF m3 b(1)] b(2) by simp_all
  have B2: "(B + 1) + 1 < 2 ^ 32" using le(2) by simp
  obtain w4 where w4: "onEvs (\<lambda>s. addChild s dl b) w3 = Some w4" "ev_le ((B + 1) + 1) (evs w4)" "moved w3 w4" "b \<in> set (kids (evs w4 ! dl))"
    using addChild_w [OF w3(2) B2 o3 b3 d(3)] by blast
  have "a < length (evs w3)" using open_moved [OF m3 a] by (simp add: open_ev_def)
  then have "dl \<in> set (kids (evs w4 ! a))" using moved_kids [OF w4(3) _ w3(5)] by blast
  moreover have "linkDelayed a b delay mn w = Some w4" using n w2(1) w3(1) w4(1) by (simp add: linkDelayed_def)
  moreover have "preDelay (evs w4 ! dl) = delay" "evClass (evs w4 ! dl) = Delay"
    using movedD [OF moved_trans [OF w3(3) w4(3)] d(1)] w2(6,7) by simp_all
  moreover have "ev_le (B + 2) (evs w4)" using w4(2) by (simp add: numeral_2_eq_2)
  ultimately show ?thesis using w4(4) moved_trans [OF m3 w4(3)] by blast
qed

lemma minResp_in: "minResp m fs \<in> set (m # fs) \<and> (\<forall>x \<in> set (m # fs). frZll (minResp m fs) \<le> frZll x)"
proof (induction fs arbitrary: m)
  case (Cons f fs)
  define n where "n = (if frZll f < frZll m then f else m)"
  have "minResp m (f # fs) = minResp n fs" "frZll n \<le> frZll f" "frZll n \<le> frZll m" "n = f \<or> n = m" by (auto simp: n_def)
  then show ?case using Cons [of n] by (auto intro: order_trans)
qed simp

text \<open>The responses a recorder waits for.\<close>

definition resps_ok :: "recsim \<Rightarrow> nat \<Rightarrow> u64 \<Rightarrow> FutureResponse list \<Rightarrow> bool" where
  "resps_ok w r z fs = (\<forall>f \<in> set fs. z \<le> frZll f \<and> (\<forall>x. frEv f = Some x \<longrightarrow> open_ev w x \<and> (\<exists>c. evClass (evs w ! x) = Resp c)))"

lemma resps_moved: "resps_ok w r z fs \<Longrightarrow> moved w w' \<Longrightarrow> resps_ok w' r z fs"
  using movedD open_moved by (fastforce simp: resps_ok_def open_ev_def)

lemma linkResponses_ok:
  assumes "k = length fs" "resps_ok w r lz fs" "ev_le B (evs w)" "B + length fs < 2 ^ 32" "e < length (evs w)" "evState (evs w ! e) = EV_NONE"
    "evClass (evs w ! e) = Issue r z" "\<forall>f \<in> set fs. mc \<le> frZll f" "mc = 0 \<or> lz \<le> mc \<and> mc < zc"
  shows "\<exists>fs' mc' w'. linkResponses k zc lz e fs mc w = Some (fs', mc', w') \<and> set fs' \<subseteq> set fs \<and> (\<forall>f \<in> set fs'. zc \<le> frZll f)
    \<and> (mc' = 0 \<or> lz \<le> mc' \<and> mc' < zc) \<and> ev_le (B + length fs) (evs w') \<and> moved w w' \<and> length fs' \<le> length fs"
  using assms
proof (induction k arbitrary: fs mc w B)
  case 0
  then show ?case by (auto simp: moved_def)
next
  case (Suc k)
  obtain f gs where fs: "fs = f # gs" using Suc.prems(1) by (cases fs) auto
  let ?m = "minResp f gs"
  let ?r = "remove1 ?m fs"
  have m: "?m \<in> set fs" "\<forall>x \<in> set fs. frZll ?m \<le> frZll x" using minResp_in [of f gs] fs by simp_all
  show ?case
  proof (cases "zc \<le> frZll ?m")
    case True
    then have "\<forall>f \<in> set fs. zc \<le> frZll f" using m(2) by (meson order_trans)
    moreover have "linkResponses (Suc k) zc lz e fs mc w = Some (fs, mc, w)" using True fs by simp
    moreover have "ev_le (B + length fs) (evs w)" using ev_le_mono [OF Suc.prems(3)] by simp
    ultimately show ?thesis using Suc.prems(9) by (intro exI [of _ fs] exI [of _ mc] exI [of _ w]) simp
  next
    case False
    have k: "k = length ?r" using Suc.prems(1) m(1) by (simp add: length_remove1)
    then have len: "length fs = Suc (length ?r)" using Suc.prems(1) by simp
    have sub: "set ?r \<subseteq> set fs" by (rule set_remove1_subset)
    have r: "resps_ok w r lz ?r" using Suc.prems(2) sub by (auto simp: resps_ok_def)
    have mm: "lz \<le> frZll ?m" "mc \<le> frZll ?m" using Suc.prems(2,8) m(1) by (auto simp: resps_ok_def)
    show ?thesis
    proof (cases "frEv ?m")
      case None
      have step: "linkResponses (Suc k) zc lz e fs mc w = linkResponses k zc lz e ?r mc w" using False None fs by (simp add: Let_def)
      have B: "B + length ?r < 2 ^ 32" "\<forall>f \<in> set ?r. mc \<le> frZll f" using Suc.prems(4,8) len sub by auto
      obtain fs' mc' w' where w': "linkResponses k zc lz e ?r mc w = Some (fs', mc', w')" "set fs' \<subseteq> set ?r" "\<forall>f \<in> set fs'. zc \<le> frZll f"
        "mc' = 0 \<or> lz \<le> mc' \<and> mc' < zc" "ev_le (B + length ?r) (evs w')" "moved w w'" "length fs' \<le> length ?r"
        using Suc.IH [OF k r Suc.prems(3) B(1) Suc.prems(5,6,7) B(2) Suc.prems(9)] by blast
      have "ev_le (B + length fs) (evs w')" using ev_le_mono [OF w'(5)] len by simp
      moreover have "set fs' \<subseteq> set fs" "length fs' \<le> length fs" using w'(2,7) sub len by auto
      ultimately show ?thesis using step w'(1,3,4,6) by auto
    next
      case (Some x)
      then have x: "open_ev w x" "x \<noteq> e" using Suc.prems(2,7) m(1) by (auto simp: resps_ok_def)
      have B1: "B + 1 < 2 ^ 32" using Suc.prems(4) len by simp
      obtain w1 where w1: "onEvs (\<lambda>s. addChild s x e) w = Some w1" "ev_le (B + 1) (evs w1)" "moved w w1" "length (evs w1) = length (evs w)"
        using addChild_w [OF Suc.prems(3) B1 x(1) Suc.prems(5,6) x(2)] by blast
      have step: "linkResponses (Suc k) zc lz e fs mc w = linkResponses k zc lz e ?r (frZll ?m) w1"
        using False Some fs w1(1) mm by (simp add: Let_def)
      have e1: "e < length (evs w1)" "evState (evs w1 ! e) = EV_NONE" "evClass (evs w1 ! e) = Issue r z"
        using movedD [OF w1(3) Suc.prems(5)] Suc.prems(6,7) by simp_all
      have B: "B + 1 + length ?r < 2 ^ 32" "\<forall>f \<in> set ?r. frZll ?m \<le> frZll f" using Suc.prems(4) len sub m(2) by auto
      have mc: "frZll ?m = 0 \<or> lz \<le> frZll ?m \<and> frZll ?m < zc" using mm(1) False by (simp add: not_le)
      obtain fs' mc' w' where w': "linkResponses k zc lz e ?r (frZll ?m) w1 = Some (fs', mc', w')" "set fs' \<subseteq> set ?r" "\<forall>f \<in> set fs'. zc \<le> frZll f"
        "mc' = 0 \<or> lz \<le> mc' \<and> mc' < zc" "ev_le (B + 1 + length ?r) (evs w')" "moved w1 w'" "length fs' \<le> length ?r"
        using Suc.IH [OF k resps_moved [OF r w1(3)] w1(2) B(1) e1 B(2) mc] by blast
      have "set fs' \<subseteq> set fs" "length fs' \<le> length fs" using w'(2,7) sub len by auto
      then show ?thesis using step w'(1,3-5) moved_trans [OF w1(3) w'(6)] len by auto
    qed
  qed
qed

text \<open>The last issue event of a recorder, and a sound recorder in the bound phase.\<close>

definition last_ok :: "recsim \<Rightarrow> nat \<Rightarrow> nat \<Rightarrow> u64 \<Rightarrow> bool" where
  "last_ok w r l z = (open_ev w l \<and> evClass (evs w ! l) = Issue r z)"

definition rec_ok :: "nat \<Rightarrow> nat \<Rightarrow> recsim \<Rightarrow> bool" where
  "rec_ok B r w = (r < length (recs w) \<and> ev_le B (evs w) \<and> lastGapCycles (eventRecorder (recs w ! r)) = gapCycles (recs w ! r)
     \<and> length (futureResponses (recs w ! r)) \<le> B
     \<and> (case lastEvProduced (recs w ! r) of
          None \<Rightarrow> recState (recs w ! r) = HALTED \<and> futureResponses (recs w ! r) = []
        | Some l \<Rightarrow> recState (recs w ! r) \<noteq> HALTED \<and> (\<exists>z. last_ok w r l z \<and> resps_ok w r z (futureResponses (recs w ! r)))))"

text \<open>The delays between two issue events add up to the time between them.\<close>

definition spaced :: "recsim \<Rightarrow> nat \<Rightarrow> nat \<Rightarrow> u64 \<Rightarrow> u64 \<Rightarrow> bool" where
  "spaced w l e z z' = (\<exists>dl. dl \<in> set (kids (evs w ! l)) \<and> e \<in> set (kids (evs w ! dl)) \<and> evClass (evs w ! dl) = Delay
     \<and> (unat z' - unat z < 2 ^ 32 \<longrightarrow> unat (preDelay (evs w ! dl)) + unat (preDelay (evs w ! e)) = unat z' - unat z))"

lemma issue_delays:
  assumes z: "z \<le> z'" "unat z' - unat z < 2 ^ 32" and mc: "mc = 0 \<or> z \<le> mc \<and> mc < (z' :: u64)"
    and pd: "pd = (if mc \<noteq> 0 then (if mc < z' then ucast (z' - mc) else 0) else 0 :: u32)"
  shows "unat (ucast (z' - z - ucast pd) :: u32) + unat pd = unat z' - unat z"
proof -
  have le: "unat z \<le> unat z'" using z(1) by (simp add: word_le_nat_alt)
  have d: "unat (z' - z) = unat z' - unat z" using z(1) by (simp add: unat_sub)
  have pdle: "unat pd \<le> unat z' - unat z"
  proof (cases "mc \<noteq> 0 \<and> mc < z'")
    case True
    then have m: "z \<le> mc" "mc \<le> z'" using mc by auto
    have "unat (ucast (z' - mc) :: u32) \<le> unat (z' - mc)" by (simp add: unsigned_ucast_eq take_bit_nat_less_eq_self)
    also have "\<dots> = unat z' - unat mc" using m(2) by (simp add: unat_sub)
    also have "\<dots> \<le> unat z' - unat z" using m(1) by (simp add: word_le_nat_alt)
    finally show ?thesis using True pd by simp
  qed (use pd in auto)
  then have "ucast pd \<le> z' - z" using d by (simp add: word_le_nat_alt)
  then have "unat (z' - z - ucast pd) = unat z' - unat z - unat pd" using d by (simp add: unat_sub)
  moreover have "unat (ucast (z' - z - ucast pd) :: u32) = unat (z' - z - ucast pd)"
    using calculation z(2) by (simp add: unsigned_ucast_eq take_bit_nat_eq_self_iff)
  ultimately show ?thesis using pdle by simp
qed

lemma addIssueEvent_ok:
  assumes r: "r < length (recs w)" and le: "ev_le B (evs w)" "B + length (futureResponses (recs w ! r)) + 2 < 2 ^ 32"
    and l: "lastEvProduced (recs w ! r) = Some l" "last_ok w r l z" and fs: "resps_ok w r z (futureResponses (recs w ! r))"
    and z: "z \<le> cy - gapCycles (recs w ! r)"
  shows "\<exists>w' e fs'. addIssueEvent r cy w = Some w' \<and> ev_le (B + length (futureResponses (recs w ! r)) + 2) (evs w')
    \<and> recs w' = (recs w)[r := (recs w ! r)\<lparr>futureResponses := fs', lastEvProduced := Some e\<rparr>] \<and> length fs' \<le> length (futureResponses (recs w ! r))
    \<and> last_ok w' r e (cy - gapCycles (recs w ! r)) \<and> minStartCycle (evs w' ! e) = cy \<and> evState (evs w' ! e) = EV_NONE
    \<and> resps_ok w' r (cy - gapCycles (recs w ! r)) fs' \<and> spaced w' l e z (cy - gapCycles (recs w ! r))
    \<and> kept (evs w) (evs w') \<and> nexts w' = nexts w \<and> csim w' = csim w"
proof -
  let ?rc = "recs w ! r"
  let ?zc = "cy - gapCycles ?rc" and ?F = "futureResponses ?rc"
  obtain w1 e where n: "newEvent (OOOIssueEvent_new 0 ?zc r (sint (recDomain ?rc))) w = (w1, e)" by fastforce
  note w1 = newEvent_ok [OF n [unfolded OOOIssueEvent_new_def] le(1)]
  have lst: "open_ev w l" "evClass (evs w ! l) = Issue r z" "l < length (evs w)" using l(2) by (simp_all add: last_ok_def open_ev_def)
  have e1: "e < length (evs w1)" "evClass (evs w1 ! e) = Issue r ?zc" using w1 by (simp_all add: TimingEvent_new_def)
  have B1: "B + length ?F < 2 ^ 32" using le(2) by simp
  obtain fs' mc w2 where w2: "linkResponses (length ?F) ?zc z e ?F 0 w1 = Some (fs', mc, w2)" "set fs' \<subseteq> set ?F" "\<forall>f \<in> set fs'. ?zc \<le> frZll f"
    "mc = 0 \<or> z \<le> mc \<and> mc < ?zc" "ev_le (B + length ?F) (evs w2)" "moved w1 w2" "length fs' \<le> length ?F"
    using linkResponses_ok [OF refl resps_moved [OF fs w1(4)] w1(3) B1 e1(1) w1(7) e1(2), where mc = 0 and zc = ?zc] by auto
  define pd where "pd = (if mc \<noteq> 0 then (if mc < ?zc then ucast (?zc - mc) else 0) else 0 :: u32)"
  have m2: "moved w w2" by (rule moved_trans [OF w1(4) w2(6)])
  have e2: "e < length (evs w2)" "evClass (evs w2 ! e) = Issue r ?zc" "evState (evs w2 ! e) = EV_NONE"
    using movedD [OF w2(6) e1(1)] e1(2) w1(7) by simp_all
  have new: "length (evs w) \<le> e" using w1(1) by simp
  obtain w3 where w3: "onEvs (\<lambda>s. setPreDelay s e pd) w2 = Some w3" "ev_le (B + length ?F) (evs w3)" "moved w w3"
    "evs w3 = (evs w2)[e := (evs w2 ! e)\<lparr>preDelay := pd\<rparr>]" using setPre_w [OF w2(5) m2 e2(1) new] by blast
  have e3: "e < length (evs w3)" "evClass (evs w3 ! e) = Issue r ?zc" "evState (evs w3 ! e) = EV_NONE" "preDelay (evs w3 ! e) = pd"
    using e2 by (simp_all add: w3(4))
  let ?id = "ucast (?zc - z - ucast pd) :: u32"
  obtain w4 dl where w4: "linkDelayed l e ?id (Some (minStartCycle (evs w3 ! l))) w3 = Some w4" "ev_le (B + length ?F + 2) (evs w4)" "moved w3 w4"
    "dl \<in> set (kids (evs w4 ! l))" "e \<in> set (kids (evs w4 ! dl))" "preDelay (evs w4 ! dl) = ?id" "evClass (evs w4 ! dl) = Delay"
    using linkDelayed_ok [OF w3(2) le(2) open_moved [OF w3(3) lst(1)] e3(1,3)] by blast
  have e4: "e < length (evs w4)" "evClass (evs w4 ! e) = Issue r ?zc" "evState (evs w4 ! e) = EV_NONE" "preDelay (evs w4 ! e) = pd"
    using movedD [OF w4(3) e3(1)] e3(2-4) by simp_all
  have m4: "moved w w4" by (rule moved_trans [OF w3(3) w4(3)])
  obtain w5 where w5: "onEvs (\<lambda>s. setMinStartCycle s e cy) w4 = Some w5" "ev_le (B + length ?F + 2) (evs w5)" "moved w w5"
    "evs w5 = (evs w4)[e := (evs w4 ! e)\<lparr>minStartCycle := cy\<rparr>]" using setMin_w [OF w4(2) m4 e4(1) new] by blast
  have same: "kids (evs w5 ! i) = kids (evs w4 ! i)" "evClass (evs w5 ! i) = evClass (evs w4 ! i)" "preDelay (evs w5 ! i) = preDelay (evs w4 ! i)"
    "evState (evs w5 ! i) = evState (evs w4 ! i)" for i using e4(1) by (simp_all add: w5(4) nth_list_update)
  let ?w = "putRec w5 r (?rc\<lparr>futureResponses := fs', lastEvProduced := Some e\<rparr>)"
  have "aget (evs w) l = Some (evs w ! l)" "l < length (evs w3)" using lst(3) open_moved [OF w3(3) lst(1)] by (simp_all add: open_ev_def)
  then have run: "addIssueEvent r cy w = Some ?w"
    using r l(1) lst z n w2(1) w3(1) w4(1) w5(1)
    by (simp add: addIssueEvent_def ev_zll_def Let_def pd_def [symmetric])
  have "resps_ok w r ?zc fs'" using fs w2(2,3) by (auto simp: resps_ok_def)
  then have "resps_ok w5 r ?zc fs'" by (rule resps_moved) (rule w5(3))
  then have "resps_ok ?w r ?zc fs'" by (simp add: resps_ok_def open_ev_def)
  moreover have "last_ok ?w r e ?zc" "minStartCycle (evs ?w ! e) = cy" "evState (evs ?w ! e) = EV_NONE"
    using e4 by (simp_all add: last_ok_def open_ev_def w5(4))
  moreover have "spaced ?w l e z ?zc" unfolding spaced_def
    using w4(4-7) e4(4) issue_delays [OF z _ w2(4) pd_def] by (intro exI [of _ dl]) (simp add: same)
  moreover have "recs ?w = (recs w)[r := ?rc\<lparr>futureResponses := fs', lastEvProduced := Some e\<rparr>]" "kept (evs w) (evs ?w)"
    "nexts ?w = nexts w" "csim ?w = csim w" using w5(3) by (simp_all add: moved_def)
  ultimately show ?thesis using run w5(2) w2(7) by (intro exI [of _ ?w] exI [of _ e] exI [of _ fs']) simp
qed

section \<open>The recorder in the bound phase\<close>

lemma rec_ok_issue:
  assumes "rec_ok B r w" "2 * B + 2 < 2 ^ 32" "lastEvProduced (recs w ! r) = Some l" "last_ok w r l z" "z \<le> cy - gapCycles (recs w ! r)"
  shows "\<exists>w' e. addIssueEvent r cy w = Some w' \<and> rec_ok (2 * B + 2) r w' \<and> recState (recs w' ! r) = recState (recs w ! r)
    \<and> gapCycles (recs w' ! r) = gapCycles (recs w ! r) \<and> lastEvProduced (recs w' ! r) = Some e
    \<and> last_ok w' r e (cy - gapCycles (recs w ! r)) \<and> minStartCycle (evs w' ! e) = cy \<and> spaced w' l e z (cy - gapCycles (recs w ! r))"
proof -
  let ?F = "futureResponses (recs w ! r)"
  have o: "r < length (recs w)" "ev_le B (evs w)" "lastGapCycles (eventRecorder (recs w ! r)) = gapCycles (recs w ! r)" "length ?F \<le> B"
    "recState (recs w ! r) \<noteq> HALTED" "resps_ok w r z ?F"
    using assms(1,3,4) by (auto simp: rec_ok_def last_ok_def)
  have B: "B + length ?F + 2 < 2 ^ 32" using assms(2) o(4) by simp
  obtain w' e fs' where w': "addIssueEvent r cy w = Some w'" "ev_le (B + length ?F + 2) (evs w')"
    "recs w' = (recs w)[r := (recs w ! r)\<lparr>futureResponses := fs', lastEvProduced := Some e\<rparr>]" "length fs' \<le> length ?F"
    "last_ok w' r e (cy - gapCycles (recs w ! r))" "minStartCycle (evs w' ! e) = cy" "resps_ok w' r (cy - gapCycles (recs w ! r)) fs'"
    "spaced w' l e z (cy - gapCycles (recs w ! r))"
    using addIssueEvent_ok [OF o(1,2) B assms(3,4) o(6) assms(5)] by blast
  have "ev_le (2 * B + 2) (evs w')" by (rule ev_le_mono [OF w'(2)]) (use o(4) in simp)
  moreover have "length fs' \<le> 2 * B + 2" using w'(4) o(4) by simp
  ultimately have "rec_ok (2 * B + 2) r w'" using o w' by (auto simp: rec_ok_def)
  then show ?thesis using w' o(1) by (intro exI [of _ w'] exI [of _ e]) simp
qed

lemma rec_ok_state:
  assumes "rec_ok B r w" "lastEvProduced (recs w ! r) \<noteq> None" "st \<noteq> HALTED"
  shows "rec_ok B r (putRec w r ((recs w ! r)\<lparr>recState := st\<rparr>))"
  using assms by (auto simp: rec_ok_def last_ok_def resps_ok_def open_ev_def split: option.splits)

text \<open>From \<open>w\<close> to \<open>w'\<close> the recorder got a new last issue event at \<open>cy\<close>, the time between it and the one before spent on the way.\<close>

definition issue_added :: "nat \<Rightarrow> u64 \<Rightarrow> recsim \<Rightarrow> recsim \<Rightarrow> bool" where
  "issue_added r cy w w' = (\<exists>l z e. lastEvProduced (recs w ! r) = Some l \<and> last_ok w r l z \<and> lastEvProduced (recs w' ! r) = Some e
     \<and> last_ok w' r e (cy - gapCycles (recs w ! r)) \<and> minStartCycle (evs w' ! e) = cy \<and> spaced w' l e z (cy - gapCycles (recs w ! r)))"

text \<open>The last issue event is not after zero-load cycle \<open>zll\<close>.\<close>

definition last_until :: "recsim \<Rightarrow> nat \<Rightarrow> u64 \<Rightarrow> bool" where
  "last_until w r zll = (\<forall>l z. lastEvProduced (recs w ! r) = Some l \<and> last_ok w r l z \<longrightarrow> z \<le> zll)"

lemma rec_ok_live:
  assumes "rec_ok B r w" "recState (recs w ! r) \<noteq> HALTED"
  obtains l z where "lastEvProduced (recs w ! r) = Some l" "last_ok w r l z" "ev_zll w l = Some z"
proof -
  obtain l where l: "lastEvProduced (recs w ! r) = Some l" using assms by (cases "lastEvProduced (recs w ! r)") (auto simp: rec_ok_def)
  then obtain z where "last_ok w r l z" using assms(1) by (auto simp: rec_ok_def)
  then show thesis using that l by (simp add: last_ok_def open_ev_def ev_zll_def)
qed

lemma rec_ok_more: "rec_ok B r w \<Longrightarrow> rec_ok (2 * B + 2) r w"
  using ev_le_mono [of B "evs w" "2 * B + 2"] by (auto simp: rec_ok_def)

lemma addIssueEvent_added:
  assumes "rec_ok B r w" "2 * B + 2 < 2 ^ 32" "recState (recs w ! r) \<noteq> HALTED" "last_until w r (cy - gapCycles (recs w ! r))"
  shows "\<exists>w'. addIssueEvent r cy w = Some w' \<and> rec_ok (2 * B + 2) r w' \<and> recState (recs w' ! r) = recState (recs w ! r) \<and> issue_added r cy w w'"
proof -
  obtain l z where l: "lastEvProduced (recs w ! r) = Some l" "last_ok w r l z" by (rule rec_ok_live [OF assms(1,3)])
  have "z \<le> cy - gapCycles (recs w ! r)" using assms(4) l by (simp add: last_until_def)
  from rec_ok_issue [OF assms(1,2) l this] show ?thesis using l unfolding issue_added_def by blast
qed

lemma recorder_leaves:
  assumes "rec_ok B r w" "2 * B + 2 < 2 ^ 32" "recState (recs w ! r) = RUNNING" "last_until w r (cur - gapCycles (recs w ! r))"
  shows "\<exists>w'. or_notifyLeave r cur w = Some w' \<and> rec_ok (2 * B + 2) r w' \<and> recState (recs w' ! r) = DRAINING \<and> issue_added r cur w w'"
proof -
  obtain l z where l: "lastEvProduced (recs w ! r) = Some l" "last_ok w r l z" "ev_zll w l = Some z"
    using rec_ok_live [OF assms(1)] assms(3) by auto
  have r: "r < length (recs w)" using assms(1) by (simp add: rec_ok_def)
  let ?w = "putRec w r ((recs w ! r)\<lparr>recState := DRAINING\<rparr>)"
  have ok: "rec_ok B r ?w" by (rule rec_ok_state [OF assms(1)]) (simp_all add: l(1))
  have lu: "last_until ?w r (cur - gapCycles (recs ?w ! r))" "recState (recs ?w ! r) \<noteq> HALTED"
    using assms(4) r by (simp_all add: last_until_def last_ok_def open_ev_def)
  obtain w' where w': "addIssueEvent r cur ?w = Some w'" "rec_ok (2 * B + 2) r w'" "recState (recs w' ! r) = DRAINING" "issue_added r cur ?w w'"
    using addIssueEvent_added [OF ok assms(2) lu(2,1)] r by auto
  have "issue_added r cur w w'" using w'(4) r by (simp add: issue_added_def last_ok_def open_ev_def)
  moreover have "z \<le> cur - gapCycles (recs w ! r)" using assms(4) l(1,2) by (simp add: last_until_def)
  ultimately show ?thesis using w'(1-3) r assms(3) l by (simp add: or_notifyLeave_def)
qed

lemma recorder_rejoins:
  assumes "rec_ok B r w" "2 * B + 2 < 2 ^ 32" "recState (recs w ! r) = DRAINING" "last_until w r (cur - gapCycles (recs w ! r))"
    "globPhaseCycles zi \<le> cur"
  shows "\<exists>w'. or_notifyJoin zi r cur w = Some (w', cur) \<and> rec_ok (2 * B + 2) r w' \<and> recState (recs w' ! r) = RUNNING \<and> issue_added r cur w w'"
proof -
  obtain l z where l: "lastEvProduced (recs w ! r) = Some l" "last_ok w r l z" "ev_zll w l = Some z"
    using rec_ok_live [OF assms(1)] assms(3) by auto
  have r: "r < length (recs w)" using assms(1) by (simp add: rec_ok_def)
  obtain w1 where w1: "addIssueEvent r cur w = Some w1" "rec_ok (2 * B + 2) r w1" "issue_added r cur w w1"
    using addIssueEvent_added [OF assms(1,2) _ assms(4)] assms(3) by auto
  let ?w = "putRec w1 r ((recs w1 ! r)\<lparr>recState := RUNNING\<rparr>)"
  have r1: "r < length (recs w1)" "lastEvProduced (recs w1 ! r) \<noteq> None" using w1(2,3) by (auto simp: rec_ok_def issue_added_def)
  have "or_notifyJoin zi r cur w = Some (?w, cur)" using r r1 assms(3,5) l(1) w1(1) by (simp add: or_notifyJoin_def)
  moreover have "rec_ok (2 * B + 2) r ?w" by (rule rec_ok_state [OF w1(2) r1(2)]) simp
  moreover have "issue_added r cur w ?w" using w1(3) r1(1) by (simp add: issue_added_def last_ok_def open_ev_def spaced_def)
  ultimately show ?thesis using r1(1) by (intro exI [of _ ?w]) simp
qed

text \<open>
  What joining from a halt asks of the rest: the domain exists, no weave phase runs, the queue of the domain is sound with contents \<open>A\<close>
  and takes the present phase's first cycle, and the recorder was not halted later than that.
\<close>

definition joinable :: "ZInfo \<Rightarrow> nat \<Rightarrow> (nat \<Rightarrow> nat option) \<Rightarrow> recsim \<Rightarrow> bool" where
  "joinable zi r A w =
     (let d = unat (recDomain (recs w ! r)); c = globPhaseCycles zi in
      lastUnhaltedCycle (recs w ! r) \<le> c \<and> d < 2 ^ 31 \<and> d < length (domains (csim w)) \<and> \<not> inCSim (csim w)
      \<and> pq_rep PQ_BLOCKS (nexts w, dpq (domains (csim w) ! d)) A \<and> Map.dom A \<subseteq> {..<length (evs w)} \<and> length (evs w) < 2 ^ 62
      \<and> unat (curBlock (dpq (domains (csim w) ! d))) * 64 \<le> unat c \<and> unat c < 2 ^ 63
      \<and> lastLimit (csim w) \<le> c \<and> c < lastLimit (csim w) + ucast (10 * phaseLength zi) + 10000)"

lemma recs_update [simp]: "recs (w\<lparr>evs := s\<rparr>) = recs w" "recs (w\<lparr>nexts := n\<rparr>) = recs w" "recs (w\<lparr>csim := c\<rparr>) = recs w"
  by (simp_all add: recs_def)

lemma putRec_twice [simp]: "putRec (putRec w r a) r b = putRec w r b"
  by (simp add: putRec_def)

lemma recorder_joins_halted:
  assumes ok: "rec_ok B r w" and halted: "recState (recs w ! r) = HALTED" and j: "joinable zi r A w"
  shows "\<exists>w' e. or_notifyJoin zi r cur w = Some (w', globPhaseCycles zi) \<and> rec_ok B r w' \<and> recState (recs w' ! r) = RUNNING
    \<and> gapCycles (recs w' ! r) = 0 \<and> lastEvProduced (recs w' ! r) = Some e \<and> last_ok w' r e (globPhaseCycles zi)
    \<and> evState (evs w' ! e) = EV_QUEUED \<and> A e = None
    \<and> pq_rep PQ_BLOCKS (nexts w', dpq (domains (csim w') ! unat (recDomain (recs w ! r)))) (A(e \<mapsto> unat (globPhaseCycles zi)))
    \<and> totalHaltedCycles (recs w' ! r) = totalHaltedCycles (recs w ! r) + (globPhaseCycles zi - lastUnhaltedCycle (recs w ! r))"
proof -
  let ?rc = "recs w ! r" and ?c = "globPhaseCycles zi"
  define d where "d = unat (recDomain ?rc)"
  let ?dd = "domains (csim w) ! d"
  have r: "r < length (recs w)" "ev_le B (evs w)" "lastEvProduced ?rc = None" "futureResponses ?rc = []"
    using ok halted by (auto simp: rec_ok_def split: option.splits)
  have jd: "lastUnhaltedCycle ?rc \<le> ?c" "d < 2 ^ 31" "d < length (domains (csim w))" "\<not> inCSim (csim w)"
    "pq_rep PQ_BLOCKS (nexts w, dpq ?dd) A" "Map.dom A \<subseteq> {..<length (evs w)}" "length (evs w) < 2 ^ 62"
    "unat (curBlock (dpq ?dd)) * 64 \<le> unat ?c" "unat ?c < 2 ^ 63" "lastLimit (csim w) \<le> ?c"
    "?c < lastLimit (csim w) + ucast (10 * phaseLength zi) + 10000"
    using j unfolding joinable_def Let_def d_def by blast+
  have dm: "sint (recDomain ?rc) = int d" using jd(2) unfolding d_def by (rule sint_small)
  let ?e = "length (evs w)"
  let ?new = "(TimingEvent_new (Issue r ?c) 0 0 (int d))\<lparr>minStartCycle := ?c\<rparr>"
  let ?ev = "?new\<lparr>evState := EV_QUEUED\<rparr>"
  have Ae: "A ?e = None" using jd(6) by auto
  have "card (Map.dom A) \<le> length (evs w)" using card_mono [OF _ jd(6)] by simp
  then have n: "card (Map.dom A) + 1 < 2 ^ 64" using jd(7) by simp
  have low: "unat (curBlock (snd (nexts w, dpq ?dd))) * 64 \<le> unat ?c" using jd(8) by simp
  obtain nx q where q: "pq_enq (nexts w, dpq ?dd) ?e ?c = Some (nx, q)" "pq_rep PQ_BLOCKS (nx, q) (A(?e \<mapsto> unat ?c))"
    using pq.enq_rep [OF jd(5) Ae low jd(9) n] by auto
  let ?rc' = "?rc\<lparr>totalGapCycles := totalGapCycles ?rc + gapCycles ?rc, gapCycles := 0,
      totalHaltedCycles := totalHaltedCycles ?rc + (?c - lastUnhaltedCycle ?rc), lastEvProduced := Some ?e,
      eventRecorder := setStartSlack (setGapCycles (eventRecorder ?rc) 0) 0, recState := RUNNING\<rparr>"
  let ?w = "putRec (w\<lparr>evs := evs w @ [?ev], nexts := nx,
      csim := (csim w)\<lparr>domains := (domains (csim w))[d := ?dd\<lparr>dpq := q\<rparr>]\<rparr>\<rparr>) r ?rc'"
  let ?w1 = "w\<lparr>evs := evs w @ [TimingEvent_new (Issue r ?c) 0 0 (int d)]\<rparr>" and ?w2 = "w\<lparr>evs := evs w @ [?new]\<rparr>"
  let ?w3 = "w\<lparr>evs := evs w @ [?ev], nexts := nx, csim := (csim w)\<lparr>domains := (domains (csim w))[d := ?dd\<lparr>dpq := q\<rparr>]\<rparr>\<rparr>"
  have 1: "newEvent (OOOIssueEvent_new 0 (?c - 0) r (sint (recDomain ?rc))) w = (?w1, ?e)"
    unfolding dm by (simp add: newEvent_def alloc_def OOOIssueEvent_new_def)
  have 2: "onEvs (\<lambda>s. setMinStartCycle s ?e ?c) ?w1 = Some ?w2"
    by (simp add: onEvs_def setMinStartCycle_def nth_append)
  have nw: "evState ?new = EV_NONE" "numParents ?new = 0" "domain ?new = int d" by (simp_all add: TimingEvent_new_def)
  have p2: "putEv ?w2 ?e ?ev = w\<lparr>evs := evs w @ [?ev]\<rparr>" by (simp add: putEv_def)
  have "cs_enqueueSynced (phaseLength zi) (w\<lparr>evs := evs w @ [?ev]\<rparr>) ?e ?c = Some ?w3"
    using jd(3,4,10,11) q(1) nw by (simp add: cs_enqueueSynced_def domEnqueue_def nth_append)
  then have 3: "ev_queue (phaseLength zi) ?w2 ?e ?c = Some ?w3" using nw by (simp add: ev_queue_def nth_append putEv_def)
  have run: "or_notifyJoin zi r cur w = Some (?w, ?c)"
    using r(1,3) halted jd(1) 1 2 3 by (simp add: or_notifyJoin_def Let_def recs_update putRec_twice)
  have evs': "evs ?w = evs w @ [?ev]" and rw: "recs ?w ! r = ?rc'" "length (recs ?w) = length (recs w)" using r(1) by simp_all
  have "ev_le B (evs w @ [TimingEvent_new (Issue r ?c) 0 0 (int d)])" by (rule ev_le_snoc [OF r(2)])
  from ev_le_update [OF this, of ?e ?ev] have le: "ev_le B (evs ?w)" unfolding evs' by (simp add: nth_append)
  have last: "last_ok ?w r ?e ?c" unfolding last_ok_def open_ev_def evs' by (simp add: TimingEvent_new_def nth_append)
  have "rec_ok B r ?w" unfolding rec_ok_def rw
    using r(1,4) le last by (auto simp: resps_ok_def setStartSlack_def setGapCycles_def)
  moreover have "pq_rep PQ_BLOCKS (nexts ?w, dpq (domains (csim ?w) ! d)) (A(?e \<mapsto> unat ?c))" using q(2) jd(3) by simp
  moreover have "evState (evs ?w ! ?e) = EV_QUEUED" unfolding evs' by (simp add: nth_append)
  moreover have "recState (recs ?w ! r) = RUNNING" "gapCycles (recs ?w ! r) = 0" "lastEvProduced (recs ?w ! r) = Some ?e"
    "totalHaltedCycles (recs ?w ! r) = totalHaltedCycles ?rc + (?c - lastUnhaltedCycle ?rc)" unfolding rw(1) by simp_all
  ultimately show ?thesis using run last Ae unfolding d_def [symmetric] by blast
qed

text \<open>The start of the weave phase of a running core.\<close>

lemma recorder_weave_start:
  assumes ok: "rec_ok B r w" "2 * B + 2 < 2 ^ 32" and st: "recState (recs w ! r) = RUNNING"
    and nx: "next = globPhaseCycles zi + ucast (phaseLength zi)" "next < cur" and lu: "last_until w r (cur - gapCycles (recs w ! r))"
  shows "\<exists>w'. or_cSimStart zi r cur w = Some (w', cur) \<and> rec_ok (2 * B + 2) r w' \<and> recState (recs w' ! r) = RUNNING
    \<and> (if \<exists>l z. lastEvProduced (recs w ! r) = Some l \<and> last_ok w r l z \<and> z < next - gapCycles (recs w ! r)
        then issue_added r next w w' else w' = w)"
proof -
  obtain l z where l: "lastEvProduced (recs w ! r) = Some l" "last_ok w r l z" "ev_zll w l = Some z"
    using rec_ok_live [OF ok(1)] st by auto
  have r: "r < length (recs w)" using ok(1) by (simp add: rec_ok_def)
  have uniq: "z' = z" if "last_ok w r l z'" for z' using that l(2) by (simp add: last_ok_def)
  have zc: "z \<le> cur - gapCycles (recs w ! r)" using lu l(1,2) by (simp add: last_until_def)
  show ?thesis
  proof (cases "z < next - gapCycles (recs w ! r)")
    case True
    have "last_until w r (next - gapCycles (recs w ! r))" using True l(1) uniq by (auto simp: last_until_def)
    then obtain w' where w': "addIssueEvent r next w = Some w'" "rec_ok (2 * B + 2) r w'" "recState (recs w' ! r) = RUNNING" "issue_added r next w w'"
      using addIssueEvent_added [OF ok] st by auto
    have "or_cSimStart zi r cur w = Some (w', cur)" using r st nx l zc True w'(1) by (simp add: or_cSimStart_def Let_def)
    then show ?thesis using w' True l(1,2) by auto
  next
    case False
    have "or_cSimStart zi r cur w = Some (w, cur)" using r st nx l zc False by (simp add: or_cSimStart_def Let_def)
    then show ?thesis using rec_ok_more [OF ok(1)] st False l(1) uniq by auto
  qed
qed


text \<open>A running core that joined at cycle 5 and leaves at cycle 20.\<close>

definition ex_recorder :: OOOCoreRecorder where
  "ex_recorder = OOOCoreRecorder_new 0 \<lparr>traddr = 0, reqCycle = 0, trespCycle = 0, trtype = GETS, startEvent = None, endEvent = None\<rparr> 0 0"

definition ex_running :: recsim where
  "ex_running = \<lparr>evs = [(OOOIssueEvent_new 0 5 0 0)\<lparr>minStartCycle := 5, evState := EV_QUEUED\<rparr>], nexts = \<lambda>_. None,
     csim = the (ContentionSim_new 1 1), \<dots> = [ex_recorder\<lparr>recState := RUNNING, lastEvProduced := Some 0\<rparr>]\<rparr>"


section \<open>The clock of the core after contention\<close>

lemma mapM_dropSimulated:
  assumes "\<forall>f \<in> set fs. \<forall>x. frEv f = Some x \<longrightarrow> x < length (evs w) \<and> (\<exists>c. evClass (evs w ! x) = Resp c)"
  shows "\<exists>fs'. mapM (dropSimulated w r) fs = Some fs' \<and> map frZll fs' = map frZll fs"
  using assms
proof (induction fs)
  case (Cons f fs)
  have "\<exists>f'. dropSimulated w r f = Some f' \<and> frZll f' = frZll f"
  proof (cases "frEv f")
    case (Some x)
    then obtain c where "x < length (evs w)" "evClass (evs w ! x) = Resp c" using Cons.prems by auto
    then show ?thesis using Some by (simp add: dropSimulated_def ev_reportsTo_def)
  qed (simp add: dropSimulated_def)
  then show ?case using Cons by auto
qed simp

text \<open>
  Claim C28.  Contention moves the clock of a core, but not its zero-load clock.  When the last issue event that was simulated in a
  weave phase started at \<open>start\<close>, not before its zero-load cycle allows and not after the core's clock, the end of the phase does not panic, moves the clock by
  exactly the delay that event met, so that the zero-load clock \<open>curCycle - gapCycles\<close> stays the same, accounts the move
  as contention, and halts the core if and only if that event was the last one it produced.
\<close>

theorem recorder_clock_skew:
  assumes "r < length (recs w)" "recState (recs w ! r) \<noteq> HALTED" "lastEvProduced (recs w ! r) = Some l"
    and "unat zll + unat (gapCycles (recs w ! r)) \<le> unat start" "start \<le> cur"
    and "\<forall>f \<in> set (futureResponses (recs w ! r)). \<forall>x. frEv f = Some x \<longrightarrow> x < length (evs w) \<and> (\<exists>c. evClass (evs w ! x) = Resp c)"
    and "l = e \<Longrightarrow> recState (recs w ! r) = DRAINING \<and> futureResponses (recs w ! r) = []"
  shows "\<exists>w1 w2 cur'. reportIssueEventSimulated r e zll start w = Some w1 \<and> or_cSimEnd r cur w1 = Some (w2, cur')
    \<and> cur' - gapCycles (recs w2 ! r) = cur - gapCycles (recs w ! r) \<and> gapCycles (recs w2 ! r) = start - zll
    \<and> cur' = cur + (start - (zll + gapCycles (recs w ! r)))
    \<and> getContentionCycles (recs w2 ! r) - getContentionCycles (recs w ! r) = cur' - cur
    \<and> lastGapCycles (eventRecorder (recs w2 ! r)) = gapCycles (recs w2 ! r)
    \<and> (recState (recs w2 ! r) = HALTED \<longleftrightarrow> l = e) \<and> (l = e \<longrightarrow> lastUnhaltedCycle (recs w2 ! r) = start)"
proof -
  let ?rc = "recs w ! r"
  let ?p = "?rc\<lparr>lastEvSimulatedZllStartCycle := zll, lastEvSimulatedStartCycle := start\<rparr>"
  define o1 where "o1 = (if l = e then ?p\<lparr>lastEvProduced := None\<rparr> else ?p)\<lparr>eventRecorder := setStartSlack (eventRecorder ?rc) (start - zll)\<rparr>"
  let ?w1 = "putRec w r o1"
  have r1: "reportIssueEventSimulated r e zll start w = Some ?w1"
    using assms(1,3) by (auto simp: reportIssueEventSimulated_def Let_def o1_def)
  have o1: "recState o1 = recState ?rc" "gapCycles o1 = gapCycles ?rc" "futureResponses o1 = futureResponses ?rc"
    "lastEvSimulatedZllStartCycle o1 = zll" "lastEvSimulatedStartCycle o1 = start" "lastEvProduced o1 = (if l = e then None else Some l)"
    "totalGapCycles o1 = totalGapCycles ?rc" using assms(3) by (simp_all add: o1_def)
  obtain fs where fs: "mapM (dropSimulated ?w1 r) (futureResponses ?rc) = Some fs" "map frZll fs = map frZll (futureResponses ?rc)"
    using mapM_dropSimulated [of "futureResponses ?rc" ?w1 r] assms(6) by auto
  have sum: "unat (zll + gapCycles ?rc) = unat zll + unat (gapCycles ?rc)"
    by (rule unat_add_u64) (rule le_less_trans [OF assms(4)], use unsigned_less [of start, where 'a = nat] in simp)
  then have c: "zll + gapCycles ?rc \<le> start" using assms(4) by (simp add: word_le_nat_alt)
  then have chk: "zll + gapCycles ?rc \<le> cur" "\<not> start < zll + gapCycles ?rc" using assms(5) by simp_all
  let ?sk = "start - (zll + gapCycles ?rc)"
  define o2 where "o2 = o1\<lparr>gapCycles := gapCycles o1 + ?sk, eventRecorder := setGapCycles (eventRecorder o1) (gapCycles o1 + ?sk), futureResponses := fs\<rparr>"
  define o3 where "o3 = (if l = e then o2\<lparr>lastUnhaltedCycle := start, recState := HALTED\<rparr> else o2)"
  have "or_cSimEnd r cur ?w1 = Some (putRec ?w1 r o3, cur + ?sk)"
    using assms(1,2,5,7) chk fs by (auto simp: or_cSimEnd_def Let_def o1 o3_def o2_def)
  moreover have "recs (putRec ?w1 r o3) ! r = o3" using assms(1) by simp
  moreover have "gapCycles o3 = start - zll" "lastGapCycles (eventRecorder o3) = gapCycles o3" "totalGapCycles o3 = totalGapCycles ?rc"
    "recState o3 = HALTED \<longleftrightarrow> l = e" "l = e \<longrightarrow> lastUnhaltedCycle o3 = start"
    using assms(2) by (simp_all add: o3_def o2_def o1 setGapCycles_def algebra_simps)
  ultimately show ?thesis using r1
    by (rule_tac x = ?w1 in exI, rule_tac x = "putRec ?w1 r o3" in exI, rule_tac x = "cur + ?sk" in exI)
      (simp add: getContentionCycles_def algebra_simps)
qed

text \<open>An event that should have started at cycle 15 starts at 18.\<close>

theorem recorder_clock_skew_witness:
  "\<exists>w1 w2. reportIssueEventSimulated 0 1 15 18 ex_running = Some w1 \<and> or_cSimEnd 0 40 w1 = Some (w2, 43) \<and> gapCycles (recs w2 ! 0) = 3"
proof -
  have rw: "recs ex_running ! 0 = ex_recorder\<lparr>recState := RUNNING, lastEvProduced := Some 0\<rparr>" "length (recs ex_running) = 1"
    by (simp_all add: recs_def ex_running_def)
  have o: "gapCycles ex_recorder = 0" "futureResponses ex_recorder = []" by (simp_all add: ex_recorder_def OOOCoreRecorder_new_def)
  have "\<exists>w1 w2 cur'. reportIssueEventSimulated 0 1 15 18 ex_running = Some w1 \<and> or_cSimEnd 0 40 w1 = Some (w2, cur')
     \<and> gapCycles (recs w2 ! 0) = 18 - 15 \<and> cur' = 40 + (18 - (15 + gapCycles (recs ex_running ! 0)))"
    using recorder_clock_skew [where w = ex_running and r = 0 and l = 0 and e = 1 and zll = 15 and start = 18 and cur = 40]
    by (simp add: rw o) blast
  then show ?thesis using o by (simp add: rw)
qed

section \<open>The weave phase ends\<close>

text \<open>What the simulation of events needs of the recorders.\<close>

interpretation reports: event_reports recorder_methods "\<lambda>r. r < n" "\<lambda>rs. length rs = n" for n
proof
  fix w :: recsim and r e :: nat and zll c :: u64
  assume "length (sim.more w) = n" "r < n"
  then show "\<exists>w'. onIssue recorder_methods r e zll c w = Some w' \<and> length (sim.more w') = n
      \<and> evs w' = evs w \<and> nexts w' = nexts w \<and> csim w' = csim w"
    by (auto simp: recorder_methods_def reportIssueEventSimulated_def recs_def putRec_def Let_def)
qed

text \<open>
  Claim C26.  A weave phase ends, and ends at its limit.  In a domain whose graph of events counts its parents right, whose delays keep every event
  between its earliest start and a bound, and whose queue holds the queued events, the simulation of a
  phase returns without tripping an assertion; every event that was queued before the limit has been executed, every one that was queued at or after the limit
  is still queued for its cycle, no event (other than the delay events, which are done with their last parent) whose earliest start is the limit or later has been
  executed, all that is still queued is at or after the limit, the clock of the domain is at the limit, and the state is again sound.
\<close>

theorem phase_completes:
  assumes "sim_ok pl (\<lambda>r. r < length (recs w)) d lb ub now [] A w" "now \<le> unat lim"
  shows "\<exists>w' A'. simulatePhaseThread recorder_methods pl lim d w = Some w'
    \<and> (\<forall>x t. A x = Some t \<and> t < unat lim \<longrightarrow> evState (evs w' ! x) = EV_DONE)
    \<and> (\<forall>x t. A x = Some t \<and> unat lim \<le> t \<longrightarrow> evState (evs w' ! x) = EV_QUEUED \<and> A' x = Some t)
    \<and> (\<forall>x < length (evs w). evState (evs w ! x) \<noteq> EV_DONE \<and> evClass (evs w ! x) \<noteq> Delay \<and> unat lim \<le> lb x \<longrightarrow> evState (evs w' ! x) \<noteq> EV_DONE)
    \<and> (\<forall>x < length (evs w'). evState (evs w' ! x) = EV_QUEUED \<longrightarrow> (\<exists>t \<ge> unat lim. A' x = Some t))
    \<and> domCycle (domains (csim w') ! d) = lim \<and> sim_ok pl (\<lambda>r. r < length (recs w')) d lb ub (unat lim) [] A' w'"
proof -
  have n: "length (sim.more w) = length (recs w)" by (simp add: recs_def)
  obtain w' A' where w': "simulatePhaseThread recorder_methods pl lim d w = Some w'"
    "sim_ok pl (\<lambda>r. r < length (recs w)) d lb ub (unat lim) [] A' w'" "length (sim.more w') = length (recs w)"
    "\<forall>x t. A x = Some t \<and> t < unat lim \<longrightarrow> evState (evs w' ! x) = EV_DONE"
    "\<forall>x < length (evs w'). evState (evs w' ! x) = EV_QUEUED \<longrightarrow> (\<exists>t \<ge> unat lim. A' x = Some t)"
    "domCycle (domains (csim w') ! d) = lim"
    "\<forall>x t. A x = Some t \<longrightarrow> unat lim \<le> t \<longrightarrow> A' x = Some t" "before lb (unat lim) (evs w) (evs w')"
    using reports.simulatePhaseThread_ok [OF assms(1) n assms(2)] by blast
  have q: "A' x \<noteq> None \<longleftrightarrow> x < length (evs w') \<and> evState (evs w' ! x) = EV_QUEUED" for x
    using w'(2) unfolding sim_ok_def queued_ok_def by blast
  have "evState (evs w' ! x) = EV_QUEUED \<and> A' x = Some t" if "A x = Some t" "unat lim \<le> t" for x t
    using w'(7) q [of x] that by auto
  moreover have "evState (evs w' ! x) \<noteq> EV_DONE"
    if "x < length (evs w)" "evState (evs w ! x) \<noteq> EV_DONE" "evClass (evs w ! x) \<noteq> Delay" "unat lim \<le> lb x" for x
    using w'(8) that by (auto simp: before_def)
  moreover have "length (recs w') = length (recs w)" using w'(3) by (simp add: recs_def)
  ultimately show ?thesis using w'(1,2,4-6) by (intro exI [of _ w'] exI [of _ A']) simp
qed

text \<open>
  Two cores' worth of one chain: an issue event queued at cycle 5, then a delay of 3 and another issue event, which has a delay of 2 of its
  own and starts at cycle 10.
\<close>

definition ex_chain :: events where
  "ex_chain =
     [(OOOIssueEvent_new 0 5 0 0)\<lparr>minStartCycle := 5, evState := EV_QUEUED, numChildren := 1, evChildren := Child 1\<rparr>,
      (DelayEvent_new 3)\<lparr>numChildren := 1, evChildren := Child 2, numParents := 1, domain := 0\<rparr>,
      (OOOIssueEvent_new 2 10 0 0)\<lparr>minStartCycle := 10, numParents := 1\<rparr>]"

definition ex_sim :: "links \<Rightarrow> PrioQueue \<Rightarrow> recsim" where
  "ex_sim nx q = \<lparr>evs = ex_chain, nexts = nx,
     csim = \<lparr>domains = [\<lparr>dpq = q, domCycle = 0, dprio = 0, queuePrio = 0\<rparr>], lastLimit = 0, inCSim = True\<rparr>, \<dots> = [ex_recorder]\<rparr>"

definition ex_time :: "nat \<Rightarrow> nat" where
  "ex_time e = [5, 8, 10, 0] ! (min e 3)"

lemma ex_chain_ok:
  "graph_ok ex_chain []" "timed ex_time ex_time ex_chain"
  "queued_ok (\<lambda>r. r < 1) 0 ex_time ex_time 0 [0 \<mapsto> 5] ex_chain"
proof -
  have kid: "kids (ex_chain ! 0) = [1]" "kids (ex_chain ! Suc 0) = [2]" "kids (ex_chain ! 2) = []"
    and ok: "\<forall>i < 3. kids_ok (ex_chain ! i)"
    and st: "evState (ex_chain ! 0) = EV_QUEUED" "evState (ex_chain ! Suc 0) = EV_NONE" "evState (ex_chain ! 2) = EV_NONE"
    and np: "numParents (ex_chain ! 0) = 0" "numParents (ex_chain ! Suc 0) = 1" "numParents (ex_chain ! 2) = 1"
    and cl: "evClass (ex_chain ! 0) = Issue 0 5" "evClass (ex_chain ! Suc 0) = Delay" "evClass (ex_chain ! 2) = Issue 0 10"
    and cy: "\<forall>i < 3. evCycle (ex_chain ! i) = 0 \<and> postDelay (ex_chain ! i) = 0 \<and> domain (ex_chain ! i) = 0"
    and pr: "preDelay (ex_chain ! 0) = 0" "preDelay (ex_chain ! Suc 0) = 3" "preDelay (ex_chain ! 2) = 2"
    and ms: "minStartCycle (ex_chain ! 0) = 5" "minStartCycle (ex_chain ! 2) = 10"
    and len: "length ex_chain = 3"
    by (auto simp: ex_chain_def OOOIssueEvent_new_def DelayEvent_new_def TimingEvent_new_def kids_def visitChildren_def kids_ok_def
        less_Suc_eq numeral_eq_Suc)
  have all: "(\<forall>i < 3. P i) \<longleftrightarrow> P 0 \<and> P (Suc 0) \<and> P (2 :: nat)" for P by (auto simp: less_Suc_eq numeral_eq_Suc)
  have ie: "in_edges ex_chain c = out_edges (ex_chain ! 0) c + out_edges (ex_chain ! Suc 0) c + out_edges (ex_chain ! 2) c" for c
    unfolding in_edges_def len by (simp add: numeral_eq_Suc)
  have "ev_wf ex_chain" using ok unfolding ev_wf_def list_all_length len all by (simp add: kid)
  then show "graph_ok ex_chain []" unfolding graph_ok_def len all
    by (simp add: event_ok_def ie out_edges_def kid st np cl)
  show "timed ex_time ex_time ex_chain" using cy unfolding timed_def len all
    by (simp add: edge_ok_def ex_time_def kid st cl pr ms)
  have "c < 3 \<Longrightarrow> evState (ex_chain ! c) = EV_QUEUED \<Longrightarrow> c = 0" for c using st by (auto simp: less_Suc_eq numeral_eq_Suc)
  then show "queued_ok (\<lambda>r. r < 1) 0 ex_time ex_time 0 [0 \<mapsto> 5] ex_chain" using cy unfolding queued_ok_def len all
    by (auto simp: class_ok_def st cl ex_time_def)
qed

theorem phase_completes_witness:
  "\<exists>nx q w'. pq_enq (\<lambda>_. None, PrioQueue_new PQ_BLOCKS) 0 5 = Some (nx, q)
     \<and> simulatePhaseThread recorder_methods 10000 10 0 (ex_sim nx q) = Some w' \<and> evState (evs w' ! 0) = EV_DONE
     \<and> evState (evs w' ! 2) \<noteq> EV_DONE \<and> domCycle (domains (csim w') ! 0) = 10"
proof -
  have new: "pq_rep PQ_BLOCKS (\<lambda>_. None, PrioQueue_new PQ_BLOCKS) Map.empty" by (rule pq_rep_new) (simp add: PQ_BLOCKS_def)
  obtain nx q where q: "pq_enq (\<lambda>_. None, PrioQueue_new PQ_BLOCKS) 0 5 = Some (nx, q)" "pq_rep PQ_BLOCKS (nx, q) [0 \<mapsto> 5]" "unat (curBlock q) * 64 = 0"
    using pq.enq_rep [OF new, where x = 0 and c = 5] by (auto simp: PrioQueue_new_def)
  let ?w = "ex_sim nx q"
  have len: "length (recs ?w) = 1" by (simp add: recs_def ex_sim_def)
  have "ex_time e < 11" for e by (cases "e < 3") (auto simp: ex_time_def less_Suc_eq numeral_eq_Suc)
  then have "ex_time e < unat (lastLimit (csim ?w)) + unat (10 * (10000 :: u32)) + 1000000" for e by (rule less_trans) (simp add: ex_sim_def)
  moreover have "length (evs ?w) < 2 ^ 62" by (simp add: ex_sim_def ex_chain_def)
  ultimately have "dom_ok 10000 0 ex_time 0 [0 \<mapsto> 5] ?w" using q(2,3) unfolding dom_ok_def by (simp add: ex_sim_def)
  then have "sim_ok 10000 (\<lambda>r. r < length (recs ?w)) 0 ex_time ex_time 0 [] [0 \<mapsto> 5] ?w"
    using ex_chain_ok by (simp add: sim_ok_def len) (simp add: ex_sim_def)
  from phase_completes [OF this, of 10] obtain w' where w': "simulatePhaseThread recorder_methods 10000 10 0 ?w = Some w'"
    "\<forall>x t. [0 \<mapsto> 5] x = Some t \<and> t < unat (10 :: u64) \<longrightarrow> evState (evs w' ! x) = EV_DONE"
    "\<forall>x < length (evs ?w). evState (evs ?w ! x) \<noteq> EV_DONE \<and> evClass (evs ?w ! x) \<noteq> Delay \<and> unat (10 :: u64) \<le> ex_time x \<longrightarrow> evState (evs w' ! x) \<noteq> EV_DONE"
    "domCycle (domains (csim w') ! 0) = 10" by auto
  have "evState (evs w' ! 2) \<noteq> EV_DONE"
    using w'(3) [rule_format, of 2] by (simp add: ex_sim_def ex_chain_def OOOIssueEvent_new_def TimingEvent_new_def ex_time_def)
  then show ?thesis using w'(1,4) w'(2) [rule_format, of 0 5] q(1) by auto
qed

end
