(* ===== verification/CoreSystem.thy ===== *)
theory CoreSystem
  imports CacheModel FetchModel IssueModel Recorder
begin

text \<open>
  A core with its surroundings: the cache and fetch models of the tracer run over a filter cache with fixed-latency memories
  (\<open>src/src/filter_cache.h\<close>) and an out-of-order recorder (\<open>src/src/ooo_core_recorder.cpp\<close>).  The theorems here put the components
  together and say what the core models promise as they are wired.  The filter caches work with one process mask: the blocks, and the
  invalidations between them, are those of one process.  What an invalidation by a thread of another process does to a filter cache is in \<open>Caches\<close>
  (\<open>foreign_invalidation_leaves_hit\<close>).
\<close>

section \<open>The recorder behind the ports\<close>

definition rec_ports :: "ZInfo \<Rightarrow> nat \<Rightarrow> recsim RecPorts" where
  "rec_ports zi r =
     \<lparr>rpRecord = (\<lambda>w x d y. or_record r x d y w), rpJoin = (\<lambda>w cy. or_notifyJoin zi r cy w), rpLeave = (\<lambda>w cy. or_notifyLeave r cy w),
      rpSimStart = (\<lambda>w cy. or_cSimStart zi r cy w), rpSimEnd = (\<lambda>w cy. or_cSimEnd r cy w)\<rparr>"

text \<open>Memories of fixed latency leave no record, so the recorder has nothing to take.\<close>

definition no_record :: "nat \<Rightarrow> recsim \<Rightarrow> bool" where
  "no_record r w = (r < length (recs w) \<and> \<not> hasRecord (eventRecorder (recs w ! r)))"

lemma rec_contract:
  assumes "mask_ok m b"
  shows "core_port (fc_ports m b (rec_ports zi r)) (fc_world_ok n k np m b (no_record r)) (fc_good m b) (2 ^ 33)"
  by (rule fc_ports_contract [OF assms]) (auto simp: rec_ports_def or_record_def no_record_def)

text \<open>The configuration with lines of 64 bytes, for any process.\<close>

definition procMask :: "nat \<Rightarrow> u32 \<Rightarrow> Address" where
  "procMask lineBits procIdx = push_bit (64 - lineBits) (ucast procIdx)"

lemma mask_ok_procMask: "0 < b \<Longrightarrow> b \<le> 32 \<Longrightarrow> mask_ok (procMask b p) b"
  by (simp add: mask_ok_def procMask_def take_bit_push_bit)

interpretation core64: core_port "fc_ports (procMask 6 p) 6 (rec_ports zi r)" "fc_world_ok n k np (procMask 6 p) 6 (no_record r)" "fc_good (procMask 6 p) 6"
  "2 ^ 33" for p zi r n k np
  by (rule rec_contract) (simp add: mask_ok_procMask)

section \<open>Blocks\<close>

text \<open>
  Claim C29.  A block in the cache model.  On a sound core over a sound filter cache and a recorder, a block with registers in range and ordered decode
  cycles, whose loads and stores have been reported at addresses the cache takes, runs without tripping an assertion or leaving an array.
  The core, the cache and the recorder stay sound with bounded clocks, the address lists are reset, the clock advances by
  at least six cycles a uop, no register is ready before the latencies along the dataflow allow, and the decode clock moves by the
  decode cycles of the block and by what fetching the lines of the next block takes, if that is longer than a cycle.
\<close>

theorem cache_model_block:
  assumes "mask_ok m b" "b < 32" "cm_ok n B c" "fc_world_ok nl k np m b (no_record r) B w"
    and "prevBbl c = Some pb" "block_ok n (uop (oooBbl pb))" "addrs_cover (fc_good m b) (uop (oooBbl pb)) 0 0 c"
    and "unat (loads c) = ops_of UOP_LOAD (uop (oooBbl pb))" "unat (stores c) = ops_of UOP_STORE (uop (oooBbl pb))"
    and "instrs c + ucast (binstrs pb) = total_pcount g" "unat addr + unat (bbytes info) + 2 ^ b \<le> 2 ^ 64"
    and "B + length (uop (oooBbl pb)) * (2 ^ 18 + 2 ^ 33) + 2 ^ 35 < 2 ^ 60" "sb_after n f c"
  shows "\<exists>c' w'. cm_bbl (fc_ports m b (rec_ports zi r)) b addr info c w g = Some (c', w', endInterval g)
    \<and> cm_ok n (B + length (uop (oooBbl pb)) * (2 ^ 18 + 2 ^ 33) + 2 ^ 35) c'
    \<and> fc_world_ok nl k np m b (no_record r) (B + length (uop (oooBbl pb)) * (2 ^ 18 + 2 ^ 33) + 2 ^ 35) w'
    \<and> loads c' = 0 \<and> stores c' = 0 \<and> instrs c' = total_pcount g \<and> prevBbl c' = Some info
    \<and> unat (curCycle c) + 6 * length (uop (oooBbl pb)) \<le> unat (curCycle c')
    \<and> sb_after n (flow cm_lat (uop (oooBbl pb)) f) c'
    \<and> unat (decodeCycle c') = unat (decodeCycle c) + (if uop (oooBbl pb) = [] then 0 else unat (decCycle (last (uop (oooBbl pb)))))
        + max 1 (3 * fetch_count (ucast (lineSize b)) (addr + ucast (bbytes info)) addr)"
  using core_port.cm_bbl_ok [OF rec_contract [OF assms(1), where zi = zi and r = r and n = nl and k = k and np = np] assms(3,4-10,2,11-13)] by blast

text \<open>A core whose block loads from line 64 of a new cache.\<close>

definition ex_cache_core :: CacheModel where
  "ex_cache_core = (CacheModel_new ex_zinfo 4 ex_params [4096] [0] 0 0)\<lparr>prevBbl := Some ex_block, loads := 1\<rparr>"

definition ex_cache_block :: BblInfo where
  "ex_cache_block = \<lparr>bblIdx = 1, binstrs = 1, bbytes = 80, oooBbl = \<lparr>bblAddr = 8192, approxInstrs = 0, uop = []\<rparr>\<rparr>"

lemma ex_world:
  assumes "L1_new 4 2 1 3 3 = Some f0"
  shows "fc_world_ok 4 2 1 0 6 (no_record 0) 16384 ((f0, (), [\<lparr>slatency = 100\<rparr>]), ex_running)"
proof -
  have m: "mask_ok 0 6" by (simp add: mask_ok_def)
  have "fc_ok 4 2 1 0 6 (f0, (), [\<lparr>slatency = 100\<rparr>])" using L1_new_ok [OF assms _ m, of "[\<lparr>slatency = 100\<rparr>]"] by simp
  moreover have "fc_avail 16384 f0" using assms
    by (auto simp: L1_new_def FilterCache_new_def FilterEntry_clear_def fc_avail_def list_all_length Let_def elim!: bind_Some_elim)
  moreover have "no_record 0 ex_running"
    by (simp add: no_record_def ex_running_def recs_def ex_recorder_def OOOCoreRecorder_new_def setGapCycles_def hasRecord_def tr_isValid_def tr_clear_def)
  ultimately show ?thesis by (simp add: fc_world_ok_def)
qed

theorem cache_model_block_witness:
  "\<exists>f0 c' w'. L1_new 4 2 1 3 3 = Some f0
     \<and> cm_bbl (fc_ports 0 6 (rec_ports ex_zinfo 0)) 6 8192 ex_cache_block ex_cache_core ((f0, (), [\<lparr>slatency = 100\<rparr>]), ex_running) ex_counters
         = Some (c', w', endInterval ex_counters)
     \<and> 18 \<le> unat (curCycle c') \<and> unat (decodeCycle c') = 11"
proof -
  have "L1_new 4 2 1 3 3 \<noteq> None" by code_simp
  then obtain f0 where f0: "L1_new 4 2 1 3 3 = Some f0" by blast
  let ?w = "((f0, (), [\<lparr>slatency = 100\<rparr>]), ex_running)"
  have m: "mask_ok 0 6" by (simp add: mask_ok_def)
  have "cm_ok 4 16384 ex_cache_core" "sb_after 4 (\<lambda>_. 0) ex_cache_core"
    by (simp_all add: ex_cache_core_def CacheModel_new_def cm_ok_def core_ok_def sb_after_def DECODE_STAGE_def list_all_length)
  moreover have "addrs_cover (fc_good 0 6) (uop (oooBbl ex_block)) 0 0 ex_cache_core"
    by (simp add: addrs_cover_def ex_block_def ex_uop_def ex_cache_core_def CacheModel_new_def fc_good_def drop_bit_eq_div)
  ultimately obtain c' w' where c': "cm_bbl (fc_ports 0 6 (rec_ports ex_zinfo 0)) 6 8192 ex_cache_block ex_cache_core ?w ex_counters = Some (c', w', endInterval ex_counters)"
    "unat (curCycle ex_cache_core) + 6 * length (uop (oooBbl ex_block)) \<le> unat (curCycle c')"
    "unat (decodeCycle c') = unat (decodeCycle ex_cache_core) + (if uop (oooBbl ex_block) = [] then 0 else unat (decCycle (last (uop (oooBbl ex_block)))))
        + max 1 (3 * fetch_count (ucast (lineSize 6)) (8192 + ucast (bbytes ex_cache_block)) 8192)"
    using cache_model_block [OF m _ _ ex_world [OF f0], of 4 ex_cache_core ex_block ex_counters 8192 ex_cache_block "\<lambda>_. 0" ex_zinfo]
    by (auto simp: ex_block_def ex_uop_def block_ok_def dec_sorted_def uop_ok_def ex_cache_core_def CacheModel_new_def ex_counters_def Counters_new_def ex_cache_block_def)
  have "curCycle ex_cache_core = 0" "decodeCycle ex_cache_core = 4" by (simp_all add: ex_cache_core_def CacheModel_new_def DECODE_STAGE_def)
  moreover have "length (uop (oooBbl ex_block)) = 3" "decCycle (last (uop (oooBbl ex_block))) = 1" by (simp_all add: ex_block_def ex_uop_def)
  moreover have "fetch_count (ucast (lineSize 6)) (8192 + ucast (bbytes ex_cache_block)) 8192 = 2"
    by (simp add: fetch_count_def ex_cache_block_def lineSize_def push_bit_eq_mult)
  ultimately show ?thesis using f0 c' by (intro exI [of _ f0] exI [of _ c'] exI [of _ w']) (simp add: ex_block_def)
qed

text \<open>
  Claim C30.  A block in the fetch model.  On a sound core with a well-formed branch predictor, over a sound filter cache and a recorder, a block runs
  without tripping an assertion and everything stays sound with bounded clocks.  The pending branch is resolved and counted as mispredicted
  exactly when the predictor is wrong, the decode clock moves by the decode cycles of the block, one, and the fetch stalls that are
  counted; after a misprediction the front end restarts only after the last uop of the block, which waits for its operands along the dataflow, has committed.
\<close>

theorem fetch_model_block:
  assumes "mask_ok m b" "b < 32" "core_ok n B c" "tage_wf (branchPred c)" "fc_world_ok nl k np m b (no_record r) B w" "4 \<le> decodeCycle c"
    and "prevBbl c = Some pb" "block_ok n (uop (oooBbl pb))" "instrs c + ucast (binstrs pb) = total_pcount g" "fm_fetch_bytes c \<noteq> 0"
    and "unat addr + unat (bbytes info) + 2 ^ 32 \<le> 2 ^ 64" "fm_addrs_ok (fc_good m b) b c addr info"
    and "fm_bound (2 ^ 33) B (length (uop (oooBbl pb))) (fm_fetches b c addr info) < 2 ^ 60" "sb_after n f c"
  shows "\<exists>c' w'. fm_bbl (fc_ports m b (rec_ports zi r)) b addr info c w g = Some (c', w', endInterval g)
    \<and> core_ok n (fm_bound (2 ^ 33) B (length (uop (oooBbl pb))) (fm_fetches b c addr info)) c'
    \<and> fc_world_ok nl k np m b (no_record r) (fm_bound (2 ^ 33) B (length (uop (oooBbl pb))) (fm_fetches b c addr info)) w'
    \<and> tage_wf (branchPred c') \<and> branchPc c' = 0 \<and> instrs c' = total_pcount g \<and> prevBbl c' = Some info
    \<and> mispredBranches c' = mispredBranches c + of_bool (mispredicted c)
    \<and> unat (decodeCycle c') = unat (decodeCycle c) + (if uop (oooBbl pb) = [] then 0 else unat (decCycle (last (uop (oooBbl pb)))))
        + 1 + unat (profFetchStalls c' - profFetchStalls c)
    \<and> (mispredicted c \<and> uop (oooBbl pb) \<noteq> [] \<longrightarrow> flow fm_lat (uop (oooBbl pb)) f (rd0 (last (uop (oooBbl pb)))) + 3 \<le> unat (decodeCycle c'))
    \<and> sb_after n (flow fm_lat (uop (oooBbl pb)) f) c'"
  using core_port.fm_bbl_ok [OF rec_contract [OF assms(1), where zi = zi and r = r and n = nl and k = k and np = np]
    assms(3-9,2,10-14)] by blast

text \<open>A new core with a taken branch pending.\<close>

definition ex_fetch_params :: OOOParams where
  "ex_fetch_params = ex_params\<lparr>tage_num_tables := 4, tage_index_size := 10\<rparr>"

theorem fetch_model_block_witness:
  "\<exists>f0 c c' w'. L1_new 4 2 1 3 3 = Some f0 \<and> FetchModel_new ex_zinfo 4 ex_fetch_params True 8192 12288 = Some c
     \<and> fm_bbl (fc_ports 0 6 (rec_ports ex_zinfo 0)) 6 8192 ex_cache_block (c\<lparr>prevBbl := Some ex_block, branchPc := 4096\<rparr>)
          ((f0, (), [\<lparr>slatency = 100\<rparr>]), ex_running) ex_counters = Some (c', w', endInterval ex_counters)
     \<and> branchPc c' = 0 \<and> 6 \<le> unat (decodeCycle c')"
proof -
  have "L1_new 4 2 1 3 3 \<noteq> None" by code_simp
  then obtain f0 where f0: "L1_new 4 2 1 3 3 = Some f0" by blast
  obtain bp where bp: "BranchPredictorTage_new 4 10 = Some bp" "tage_wf bp" using tage_wf_new [of 4 10] by auto
  obtain c0 where c0: "FetchModel_new ex_zinfo 4 ex_fetch_params True 8192 12288 = Some c0" and
    f: "branchPred c0 = bp" "curCycle c0 = 0" "decodeCycle c0 = 4" "regScoreboard c0 = replicate 4 0" "instrs c0 = 0" "fm_fetch_bytes c0 = 16"
      "branchTaken c0" "branchTakenNpc c0 = 8192" "branchNotTakenNpc c0 = 12288"
    using bp(1) by (auto simp: FetchModel_new_def ex_fetch_params_def ex_params_def DECODE_STAGE_def)
  let ?c = "c0\<lparr>prevBbl := Some ex_block, branchPc := 4096\<rparr>" and ?w = "((f0, (), [\<lparr>slatency = 100\<rparr>]), ex_running)"
  have m: "mask_ok 0 6" by (simp add: mask_ok_def)
  have ok: "core_ok 4 16384 ?c" "sb_after 4 (\<lambda>_. 0) ?c" "tage_wf (branchPred ?c)" "4 \<le> decodeCycle ?c"
    using f bp(2) by (simp_all add: core_ok_def sb_after_def list_all_length)
  have blk: "block_ok 4 (uop (oooBbl ex_block))" "length (uop (oooBbl ex_block)) = 3" "uop (oooBbl ex_block) \<noteq> []"
    "decCycle (last (uop (oooBbl ex_block))) = 1" by (simp_all add: ex_block_def ex_uop_def block_ok_def dec_sorted_def uop_ok_def)
  have step: "fm_step 6 ?c = 16" using f(6) by (simp add: fm_step_def lineSize_def push_bit_eq_mult)
  have k: "fm_fetches 6 ?c 8192 ex_cache_block = 5" unfolding fm_fetches_def step by (simp add: fetch_count_def ex_cache_block_def)
  have lines: "wrongPathLines (lineSize 6) = 5" by (simp add: wrongPathLines_def lineSize_def push_bit_eq_mult)
  have wrong: "wrong_addr ?c = 12288" using f by (simp add: wrong_addr_def)
  have "j = 0 \<or> j = 1 \<or> j = 2 \<or> j = 3 \<or> j = 4" if "j < 5" for j :: nat using that by linarith
  then have five: "(\<forall>j < 5. P j) \<longleftrightarrow> P 0 \<and> P 1 \<and> P 2 \<and> P 3 \<and> P (4 :: nat)" for P by fastforce
  have "list_all (fc_good 0 6) (fetch_addrs 5 16 8192)" by code_simp
  moreover have "\<forall>j < 5. fc_good 0 6 (12288 + ucast (lineSize 6 * of_nat j))"
    unfolding five by code_simp
  ultimately have addrs: "fm_addrs_ok (fc_good 0 6) 6 ?c 8192 ex_cache_block" unfolding fm_addrs_ok_def k step lines wrong by blast
  have bnd: "fm_bound (2 ^ 33) 16384 (length (uop (oooBbl ex_block))) (fm_fetches 6 ?c 8192 ex_cache_block) < 2 ^ 60"
    unfolding k blk(2) fm_bound_def by simp
  have cnt: "instrs ?c + ucast (binstrs ex_block) = total_pcount ex_counters" "fm_fetch_bytes ?c \<noteq> 0" "prevBbl ?c = Some ex_block"
    "unat (8192 :: u64) + unat (bbytes ex_cache_block) + 2 ^ 32 \<le> 2 ^ 64"
    using f by (simp_all add: ex_block_def ex_counters_def Counters_new_def ex_cache_block_def)
  obtain c' w' where c': "fm_bbl (fc_ports 0 6 (rec_ports ex_zinfo 0)) 6 8192 ex_cache_block ?c ?w ex_counters = Some (c', w', endInterval ex_counters)"
    "branchPc c' = 0" "unat (decodeCycle c') = unat (decodeCycle ?c) + (if uop (oooBbl ex_block) = [] then 0
      else unat (decCycle (last (uop (oooBbl ex_block))))) + 1 + unat (profFetchStalls c' - profFetchStalls ?c)"
    using fetch_model_block [OF m _ ok(1,3) ex_world [OF f0] ok(4) cnt(3) blk(1) cnt(1,2,4) addrs bnd ok(2), where zi = ex_zinfo] by auto
  have "6 \<le> unat (decodeCycle c')" unfolding c'(3) using blk(3,4) f(3) by simp
  then show ?thesis using f0 c0 c'(1,2) by blast
qed

section \<open>Where the models part from the trace\<close>

text \<open>Uops leave the count of instructions alone.\<close>

lemma cm_uop_instrs: "cm_uop pt k u = Some k' \<Longrightarrow> instrs (lcore k') = instrs (lcore k)"
proof -
  have iss: "cm_issue u k = Some (k', x) \<Longrightarrow> instrs (lcore k') = instrs (lcore k)" for k k' :: "'a cm_loop" and x
    by (auto simp: cm_issue_def Let_def elim!: bind_Some_elim)
  have lsu: "cm_lsu pt u k x = Some (k', y) \<Longrightarrow> instrs (lcore k') = instrs (lcore k)" for k k' x y
    by (cases "utype u") (auto simp: cm_lsu_def Let_def elim!: bind_Some_elim)
  show "cm_uop pt k u = Some k' \<Longrightarrow> instrs (lcore k') = instrs (lcore k)"
    by (auto simp: cm_uop_def elim!: bind_Some_elim dest!: iss lsu)
qed

lemma fm_uop_instrs: "fm_uop s u = Some s' \<Longrightarrow> instrs (fst s') = instrs (fst s)"
  by (auto simp: fm_uop_def Let_def elim!: bind_Some_elim split: prod.splits)

lemma im_advances_instrs: "im_advances n c = Some c' \<Longrightarrow> instrs c' = instrs c"
  by (induction n arbitrary: c) (auto simp: im_advancePos_def elim!: bind_Some_elim)

lemma im_lsu_instrs: "im_lsu u d li si c = Some (c', r) \<Longrightarrow> instrs c' = instrs c"
  by (auto simp: im_lsu_def Let_def elim!: bind_Some_elim split: UopType.splits)

lemma im_uop_instrs: "im_uop s u = Some s' \<Longrightarrow> instrs (fst s') = instrs (fst s)"
proof -
  have dec: "im_decode u p c = Some c' \<Longrightarrow> instrs c' = instrs c" for p c c'
    by (auto simp: im_decode_def Let_def elim!: bind_Some_elim dest!: im_advances_instrs split: if_splits)
  have wid: "im_width_limit c = Some c' \<Longrightarrow> instrs c' = instrs c" for c c'
    by (auto simp: im_width_limit_def im_advancePos_def elim!: bind_Some_elim split: if_splits)
  have opr: "im_operands u c = Some (c', x) \<Longrightarrow> instrs c' = instrs c" for c c' x
    by (auto simp: im_operands_def im_advancePos_def Let_def elim!: bind_Some_elim split: if_splits)
  have dis: "im_dispatch u x y c = Some (c', z) \<Longrightarrow> instrs c' = instrs c" for x y c c' z
    by (auto simp: im_dispatch_def Let_def elim!: bind_Some_elim split: if_splits)
  show "im_uop s u = Some s' \<Longrightarrow> instrs (fst s') = instrs (fst s)"
    by (auto simp: im_uop_def elim!: bind_Some_elim split: prod.splits dest!: dec wid opr dis im_lsu_instrs)
qed

lemma run_all_fixed:
  assumes "run_all f s xs = Some s'" "\<And>s x s'. f s x = Some s' \<Longrightarrow> v s' = v s"
  shows "v s' = v s"
  using run_all_inv [where I = "\<lambda>t. v t = v s" and f = f, OF _ refl assms(1)] assms(2) by metis

text \<open>
  Claim C31.  A context switch loses a block.  In all three models, a core whose count of instructions agrees with the trace once its pending
  block is counted, and which is switched to no thread, drops that block, takes the next block without a check, and
  then fails the assertion \<open>instrs == total_pcount\<close> at the block after it, even though every instruction was counted.
\<close>

theorem context_switch_loses_block:
  assumes "binstrs pb \<noteq> 0" "total_pcount g' = total_pcount g + ucast (binstrs blk)"
    and "prevBbl c = Some pb" "instrs c + ucast (binstrs pb) = total_pcount g"
    and "prevBbl d = Some pb" "instrs d + ucast (binstrs pb) = total_pcount g"
    and "prevBbl e = Some pb" "instrs e + ucast (binstrs pb) = total_pcount g"
  shows "(\<exists>c2. cm_bbl pt lb a1 blk (fst (cm_contextSwitch pt (-1) c w)) (snd (cm_contextSwitch pt (-1) c w)) g = Some (c2, snd (cm_contextSwitch pt (-1) c w), g)
            \<and> cm_bbl pt lb a2 blk' c2 (snd (cm_contextSwitch pt (-1) c w)) g' = None)
    \<and> (\<exists>d2. fm_bbl pt lb a1 blk (fst (fm_contextSwitch pt (-1) d w)) (snd (fm_contextSwitch pt (-1) d w)) g = Some (d2, snd (fm_contextSwitch pt (-1) d w), g)
            \<and> fm_bbl pt lb a2 blk' d2 (snd (fm_contextSwitch pt (-1) d w)) g' = None)
    \<and> (\<exists>e2. im_bbl blk (im_contextSwitch (-1) e) g = Some (e2, g) \<and> im_bbl blk' e2 g' = None)"
proof -
  have "(ucast (binstrs pb) :: u64) \<noteq> 0" using assms(1) by (metis unat_eq_0 unat_ucast_up)
  then have bad: "n + ucast (binstrs blk) \<noteq> total_pcount g'" if "n + ucast (binstrs pb) = total_pcount g" for n :: u64
    using that unfolding assms(2) by (metis add.commute add_cancel_left_right add_left_cancel)
  have "run_all (cm_uop pt) k us = Some k' \<Longrightarrow> instrs (lcore k') = instrs (lcore k)" for k k' us
    by (erule run_all_fixed [where v = "\<lambda>k. instrs (lcore k)"]) (rule cm_uop_instrs)
  note cmr = this
  have "run_all fm_uop s us = Some s' \<Longrightarrow> instrs (fst s') = instrs (fst s)" for s s' us
    by (erule run_all_fixed [where v = "\<lambda>s. instrs (fst s)"]) (rule fm_uop_instrs)
  note fmr = this
  have "run_all im_uop s us = Some s' \<Longrightarrow> instrs (fst s') = instrs (fst s)" for s s' us
    by (erule run_all_fixed [where v = "\<lambda>s. instrs (fst s)"]) (rule im_uop_instrs)
  note imr = this
  have cm: "cm_bbl pt lb a2 blk' c2 v g' = None" if "prevBbl c2 = Some blk" "instrs c2 = instrs c" for c2 v
  proof (cases "run_all (cm_uop pt) \<lparr>lcore = c2\<lparr>prevBbl := Some blk'\<rparr>, lworld = v, loadIdx = 0, storeIdx = 0, prevDecCycle = 0\<rparr> (uop (oooBbl blk))")
    case (Some k)
    then have "instrs (lcore k) = instrs c" using cmr [OF Some] that(2) by simp
    then show ?thesis using Some that(1) bad [OF assms(4)] by (simp add: cm_bbl_def Let_def)
  qed (simp add: cm_bbl_def that(1))
  have fm: "fm_bbl pt lb a2 blk' d2 v g' = None" if "prevBbl d2 = Some blk" "instrs d2 = instrs d" for d2 v
  proof (cases "run_all fm_uop (d2\<lparr>prevBbl := Some blk'\<rparr>, 0, 0) (uop (oooBbl blk))")
    case (Some s)
    then have "instrs (fst s) = instrs d" using fmr [OF Some] that(2) by simp
    then show ?thesis using Some that(1) bad [OF assms(6)] by (cases s) (simp add: fm_bbl_def Let_def)
  qed (simp add: fm_bbl_def that(1))
  have im: "im_bbl blk' e2 g' = None" if "prevBbl e2 = Some blk" "instrs e2 = instrs e" for e2
  proof (cases "run_all im_uop (e2\<lparr>prevBbl := Some blk'\<rparr>, 0, 0, 0) (uop (oooBbl blk))")
    case (Some s)
    then have "instrs (fst s) = instrs e" using imr [OF Some] that(2) by simp
    then show ?thesis using Some that(1) bad [OF assms(8)] by (cases s) (simp add: im_bbl_def Let_def)
  qed (simp add: im_bbl_def that(1))
  show ?thesis
    by (intro conjI; (simp add: cm_bbl_def [of _ _ _ blk] cm_contextSwitch_def cm | simp add: fm_bbl_def [of _ _ _ blk] fm_contextSwitch_def fm
      | simp add: im_bbl_def [of blk] im_contextSwitch_def im))
qed

text \<open>A pending block of three instructions, then one of one instruction.\<close>

theorem context_switch_loses_block_witness:
  "\<exists>e2. im_bbl ex_cache_block (im_contextSwitch (-1) ((IssueModel_new ex_zinfo 4 ex_params ex_raw)\<lparr>prevBbl := Some ex_block\<rparr>)) ex_counters = Some (e2, ex_counters)
     \<and> im_bbl ex_block e2 (ex_counters\<lparr>total_pcount := 4\<rparr>) = None"
proof -
  let ?pt = "fc_ports 0 6 (rec_ports ex_zinfo 0)"
  obtain f where f: "FetchModel_new ex_zinfo 4 ex_fetch_params True 8192 12288 = Some f" "instrs f = 0"
    using tage_wf_new [of 4 10] by (auto simp: FetchModel_new_def ex_fetch_params_def ex_params_def)
  show ?thesis
    using context_switch_loses_block [where pb = ex_block and blk = ex_cache_block and g = ex_counters and g' = "ex_counters\<lparr>total_pcount := 4\<rparr>"
      and c = ex_cache_core and d = "f\<lparr>prevBbl := Some ex_block\<rparr>" and e = "(IssueModel_new ex_zinfo 4 ex_params ex_raw)\<lparr>prevBbl := Some ex_block\<rparr>"
      and pt = ?pt and blk' = ex_block] f(2)
    by (simp add: ex_block_def ex_cache_block_def ex_counters_def Counters_new_def ex_cache_core_def CacheModel_new_def IssueModel_new_def)
qed

text \<open>
  Predicated accesses in the cache model: a load whose predicate is false does not reach the cache, but a store whose
  predicate is false stores to address -1 and is recorded.
\<close>

lemma pred_false_load:
  assumes "cm_predFalseLoad c = Some (lcore k)" "utype u = UOP_LOAD" "loadIdx k = loads c"
  shows "cm_lsu pt u k d = Some (k\<lparr>loadIdx := loadIdx k + 1\<rparr>, max (lastStoreAddrCommitCycle c + 1) d)"
proof -
  have n: "unat (loads c) < length (loadAddrs c)" and k: "lcore k = c\<lparr>loadAddrs := (loadAddrs c)[unat (loads c) := -1], loads := loads c + 1\<rparr>"
    using assms(1) by (auto simp: cm_predFalseLoad_def elim!: bind_Some_elim)
  show ?thesis using n by (simp add: cm_lsu_def assms(2,3) k)
qed

lemma pred_false_store:
  assumes "cm_predFalseStore c = Some (lcore k)" "utype u = UOP_STORE" "storeIdx k = stores c"
    and "l1Store pt (lworld k) (-1) (max (lastStoreAddrCommitCycle c + 1) d) = Some (w1, t)"
    and "recRecord pt w1 (curCycle c) (max (lastStoreAddrCommitCycle c + 1) d) (t + L1D_LAT) = Some w2"
  shows "\<exists>k'. cm_lsu pt u k d = Some (k', t + L1D_LAT) \<and> lworld k' = w2"
proof -
  have n: "unat (stores c) < length (storeAddrs c)" and k: "lcore k = c\<lparr>storeAddrs := (storeAddrs c)[unat (stores c) := -1], stores := stores c + 1\<rparr>"
    using assms(1) by (auto simp: cm_predFalseStore_def elim!: bind_Some_elim)
  show ?thesis using n assms(4,5) by (simp add: cm_lsu_def assms(2,3) k Let_def)
qed

end
