(* ===== verification/SlabAlloc.thy ===== *)
theory SlabAlloc
  imports Bits
begin

text \<open>
  The allocator of timing events (\<open>src/src/slab_alloc.h\<close>): 64 KB slabs, aligned to their size, from which objects are cut off in
  turn, and which are used again once all their objects are freed.  Slabs live in a map from their addresses; the
  locks are not modelled, as operations are run one at a time.
\<close>

section \<open>Slabs\<close>

definition SLAB_SIZE :: u64 where "SLAB_SIZE = 65536"
definition SLAB_MASK :: u64 where "SLAB_MASK = NOT (SLAB_SIZE - 1)"

text \<open>The header takes 16 bytes: a pointer to the allocator and two counters.\<close>

definition SLAB_HEADER :: u64 where "SLAB_HEADER = 16"
definition BUF_SIZE :: u32 where "BUF_SIZE = 65520"

record Slab =
  liveElems :: u32
  usedBytes :: u32

definition Slab_clear :: Slab where
  "Slab_clear = \<lparr>liveElems = 0, usedBytes = 0\<rparr>"

text \<open>\<open>Slab::alloc\<close> for the slab at address \<open>a\<close>; a full slab returns a null pointer.\<close>

definition Slab_alloc :: "u64 \<Rightarrow> Slab \<Rightarrow> u32 \<Rightarrow> Slab \<times> u64 option" where
  "Slab_alloc a s bytes =
     (let ptr = a + SLAB_HEADER + ucast (usedBytes s);
          s1 = s\<lparr>usedBytes := usedBytes s + bytes\<rparr>
      in if usedBytes s1 < BUF_SIZE then (s1\<lparr>liveElems := liveElems s1 + 1\<rparr>, Some ptr) else (s1, None))"

section \<open>The allocator\<close>

record SlabAlloc =
  slabs :: "u64 \<Rightarrow> Slab option"
  curSlab :: u64
  freeList :: "u64 list"
  liveSlabs :: u32
  memaligned :: nat

text \<open>
  \<open>gm_memalign\<close> is a parameter: \<open>ma i\<close> is the address that call number \<open>i\<close> returns.
\<close>

definition allocSlab :: "(nat \<Rightarrow> u64) \<Rightarrow> SlabAlloc \<Rightarrow> SlabAlloc option" where
  "allocSlab ma sa =
     (if freeList sa \<noteq> [] then do {
        _ \<leftarrow> require (last (freeList sa) \<noteq> 0);
        Some (sa\<lparr>curSlab := last (freeList sa), freeList := butlast (freeList sa), liveSlabs := liveSlabs sa + 1\<rparr>)
      }
      else do {
        let a = ma (memaligned sa);
        _ \<leftarrow> require (a AND SLAB_MASK = a);
        Some (sa\<lparr>slabs := (slabs sa)(a \<mapsto> Slab_clear), curSlab := a, memaligned := memaligned sa + 1, liveSlabs := liveSlabs sa + 1\<rparr>)
      })"

definition SlabAlloc_new :: "(nat \<Rightarrow> u64) \<Rightarrow> SlabAlloc option" where
  "SlabAlloc_new ma = allocSlab ma \<lparr>slabs = Map.empty, curSlab = 0, freeList = [], liveSlabs = 0, memaligned = 0\<rparr>"

definition curAlloc :: "SlabAlloc \<Rightarrow> u32 \<Rightarrow> (SlabAlloc \<times> u64 option) option" where
  "curAlloc sa sz = do {
     s \<leftarrow> slabs sa (curSlab sa);
     let (s', p) = Slab_alloc (curSlab sa) s sz;
     Some (sa\<lparr>slabs := (slabs sa)(curSlab sa \<mapsto> s')\<rparr>, p)
   }"

definition slab_alloc :: "(nat \<Rightarrow> u64) \<Rightarrow> SlabAlloc \<Rightarrow> u64 \<Rightarrow> (SlabAlloc \<times> u64) option" where
  "slab_alloc ma sa sz = do {
     _ \<leftarrow> require (sz < SLAB_SIZE);
     (sa1, p) \<leftarrow> curAlloc sa (ucast sz);
     (sa2, ptr) \<leftarrow> (case p of
         Some ptr \<Rightarrow> Some (sa1, ptr)
       | None \<Rightarrow> do { sa2 \<leftarrow> allocSlab ma sa1; (sa3, p') \<leftarrow> curAlloc sa2 (ucast sz); ptr \<leftarrow> p'; Some (sa3, ptr) });
     _ \<leftarrow> require (ptr AND SLAB_MASK = curSlab sa2);
     Some (sa2, ptr)
   }"

definition freeSlab :: "SlabAlloc \<Rightarrow> u64 \<Rightarrow> SlabAlloc option" where
  "freeSlab sa a = do {
     let sa1 = sa\<lparr>slabs := (slabs sa)(a \<mapsto> Slab_clear)\<rparr>;
     let sa2 = (if a \<noteq> curSlab sa1 then sa1\<lparr>freeList := freeList sa1 @ [a], liveSlabs := liveSlabs sa1 - 1\<rparr> else sa1);
     _ \<leftarrow> require (liveSlabs sa2 \<noteq> 0);
     Some sa2
   }"

text \<open>\<open>slab::freeElem\<close>: the slab of an element is found by masking its address.\<close>

definition slab_freeElem :: "SlabAlloc \<Rightarrow> u64 \<Rightarrow> SlabAlloc option" where
  "slab_freeElem sa elem = do {
     let a = elem AND SLAB_MASK;
     s \<leftarrow> slabs sa a;
     let prevLiveElems = liveElems s;
     let sa1 = sa\<lparr>slabs := (slabs sa)(a \<mapsto> s\<lparr>liveElems := liveElems s - 1\<rparr>)\<rparr>;
     _ \<leftarrow> require (prevLiveElems \<noteq> 0 \<and> prevLiveElems < usedBytes s);
     (if prevLiveElems = 1 then freeSlab sa1 a else Some sa1)
   }"

section \<open>Addresses\<close>

definition aligned :: "u64 \<Rightarrow> bool" where
  "aligned a = (a AND SLAB_MASK = a)"

lemma mask_slab: "SLAB_MASK = NOT (mask 16)"
  by (simp add: SLAB_MASK_def SLAB_SIZE_def mask_eq_exp_minus_1)

lemma slab_of:
  assumes "aligned a" "unat x < 2 ^ 16"
  shows "(a + x) AND SLAB_MASK = a" "unat (a + x) = unat a + unat x"
proof -
  have x: "x AND mask 16 = x"
    using assms(2) by (simp add: take_bit_eq_mask [symmetric] word_unat_eq_iff unsigned_take_bit_eq take_bit_nat_eq_self_iff)
  have dis: "a AND x = 0"
  proof (rule bit_eqI)
    fix n
    assume "possible_bit TYPE(64 word) n"
    have "bit a n \<Longrightarrow> \<not> bit (mask 16 :: u64) n"
      using assms(1) unfolding aligned_def mask_slab by (metis bit_and_iff bit_not_iff)
    moreover have "bit x n \<Longrightarrow> bit (mask 16 :: u64) n" using x by (metis bit_and_iff)
    ultimately show "bit (a AND x) n = bit 0 n" by (auto simp: bit_and_iff)
  qed
  then have sum: "a + x = a OR x" by (simp add: disjunctive_add_eq_or)
  have "x AND NOT (mask 16) = 0" using x by (metis (no_types) bit.conj_cancel_right and.assoc and_zero_eq)
  moreover have "(a OR x) AND SLAB_MASK = (a AND SLAB_MASK) OR (x AND SLAB_MASK)" by (simp add: bit.conj_disj_distrib2)
  ultimately show "(a + x) AND SLAB_MASK = a" using assms(1) unfolding sum aligned_def mask_slab by simp
  have "unat (a OR x) = unat a OR unat x" by (simp add: unsigned_or_eq)
  moreover have "unat a AND unat x = 0" using dis by (metis unat_0 unsigned_and_eq)
  ultimately show "unat (a + x) = unat a + unat x" unfolding sum by (simp add: disjunctive_add_eq_or)
qed

section \<open>Live blocks\<close>

text \<open>
  The documented behaviour of \<open>gm_memalign\<close>: aligned addresses that are not null (it panics rather than return null), and another one for each of the first \<open>2 ^ 31\<close> slabs, which is twice the
  memory a process can address.
\<close>

definition memalign_ok :: "(nat \<Rightarrow> u64) \<Rightarrow> bool" where
  "memalign_ok ma = (inj_on ma {..<2 ^ 31} \<and> (\<forall>i. aligned (ma i) \<and> ma i \<noteq> 0))"

text \<open>The live objects of a slab, as offsets in its buffer and sizes.\<close>

definition slab_ok :: "Slab \<Rightarrow> (nat \<times> nat) set \<Rightarrow> bool" where
  "slab_ok s L = (finite L \<and> card L = unat (liveElems s) \<and> (\<Sum>b \<in> L. snd b) \<le> unat (usedBytes s) \<and> unat (usedBytes s) < 2 ^ 17
     \<and> (\<forall>b \<in> L. 2 \<le> snd b \<and> fst b + snd b < 65520 \<and> fst b + snd b \<le> unat (usedBytes s))
     \<and> (\<forall>b \<in> L. \<forall>c \<in> L. b \<noteq> c \<longrightarrow> fst b + snd b \<le> fst c \<or> fst c + snd c \<le> fst b))"

definition sa_ok :: "(nat \<Rightarrow> u64) \<Rightarrow> SlabAlloc \<Rightarrow> (u64 \<Rightarrow> (nat \<times> nat) set) \<Rightarrow> bool" where
  "sa_ok ma sa B = (dom (slabs sa) = ma ` {..<memaligned sa} \<and> (\<forall>a s. slabs sa a = Some s \<longrightarrow> slab_ok s (B a))
     \<and> (\<forall>a. slabs sa a = None \<longrightarrow> B a = {}) \<and> (\<exists>s. slabs sa (curSlab sa) = Some s \<and> unat (usedBytes s) < 65520) \<and> distinct (freeList sa)
     \<and> (\<forall>a \<in> set (freeList sa). slabs sa a = Some Slab_clear \<and> a \<noteq> curSlab sa)
     \<and> unat (liveSlabs sa) + length (freeList sa) = memaligned sa)"

lemma slab_ok_clear [simp]: "slab_ok Slab_clear L \<longleftrightarrow> L = {}"
  by (auto simp: slab_ok_def Slab_clear_def)

lemma slab_ok_alloc:
  assumes ok: "slab_ok s L" and n: "2 \<le> unat n" "unat n < 65520" and u: "unat (usedBytes s) < 65520" and r: "Slab_alloc a s n = (s', p)"
  shows "case p of None \<Rightarrow> slab_ok s' L \<and> 65520 \<le> unat (usedBytes s) + unat n
     | Some q \<Rightarrow> q = a + SLAB_HEADER + ucast (usedBytes s) \<and> unat (usedBytes s) + unat n < 65520 \<and> unat (usedBytes s') < 65520
         \<and> slab_ok s' (insert (unat (usedBytes s), unat n) L)"
proof -
  let ?u = "unat (usedBytes s)"
  have sum: "unat (usedBytes s + n) = ?u + unat n" using n u by (intro unat_add_no_wrap) simp
  note o = ok [unfolded slab_ok_def]
  have new: "(?u, unat n) \<notin> L" using o n(1) by force
  have le: "2 * card L \<le> (\<Sum>b \<in> L. snd b)" using sum_mono [of L "\<lambda>_. 2" snd] o by simp
  have "card L \<le> ?u" using le o by linarith
  then have live: "unat (liveElems s + 1) = unat (liveElems s) + 1" using o u by (intro unat_add_no_wrap [THEN trans]) simp_all
  show ?thesis
  proof (cases "usedBytes s + n < BUF_SIZE")
    case False
    then have "s' = s\<lparr>usedBytes := usedBytes s + n\<rparr>" "p = None" using r by (auto simp: Slab_alloc_def Let_def)
    moreover have "65520 \<le> ?u + unat n" using False sum by (simp add: word_less_nat_alt BUF_SIZE_def)
    moreover have "\<forall>b \<in> L. fst b + snd b \<le> ?u + unat n" using o by (auto intro: trans_le_add1)
    ultimately show ?thesis using o n u by (simp add: slab_ok_def sum)
  next
    case True
    then have s': "s' = s\<lparr>usedBytes := usedBytes s + n, liveElems := liveElems s + 1\<rparr>" "p = Some (a + SLAB_HEADER + ucast (usedBytes s))"
      using r by (auto simp: Slab_alloc_def Let_def)
    have lt: "?u + unat n < 65520" using True sum by (simp add: word_less_nat_alt BUF_SIZE_def)
    have "\<forall>b \<in> L. fst b + snd b \<le> ?u" using o by blast
    then have "slab_ok s' (insert (?u, unat n) L)" unfolding s'(1)
      using o n(1) lt new by (auto simp: slab_ok_def sum live)
    then show ?thesis using s' lt sum by simp
  qed
qed

lemma slab_ok_free:
  assumes ok: "slab_ok s L" and b: "b \<in> L"
  shows "liveElems s \<noteq> 0" "liveElems s < usedBytes s" "slab_ok (s\<lparr>liveElems := liveElems s - 1\<rparr>) (L - {b})" "liveElems s = 1 \<longleftrightarrow> L = {b}"
proof -
  note o = ok [unfolded slab_ok_def]
  have "finite L" "L \<noteq> {}" using o b by auto
  then have pos: "0 < card L" by (simp add: card_gt_0_iff)
  then show nz: "liveElems s \<noteq> 0" using o by auto
  have "2 * card L \<le> (\<Sum>b \<in> L. snd b)" using sum_mono [of L "\<lambda>_. 2" snd] o by simp
  then have "card L < unat (usedBytes s)" using o pos by linarith
  then show "liveElems s < usedBytes s" using o by (simp add: word_less_nat_alt)
  have "1 \<le> liveElems s" using nz by (simp add: word_le_nat_alt unat_gt_0 Suc_le_eq)
  then have "unat (liveElems s - 1) = card (L - {b})" using o b by (simp add: unat_sub)
  moreover have "(\<Sum>c \<in> L - {b}. snd c) \<le> (\<Sum>c \<in> L. snd c)" using o by (intro sum_mono2) auto
  ultimately show "slab_ok (s\<lparr>liveElems := liveElems s - 1\<rparr>) (L - {b})" using o by (auto simp: slab_ok_def)
  have "liveElems s = 1 \<longleftrightarrow> card L = 1" using o by (metis unat_1 word_unat_eq_iff)
  also have "\<dots> \<longleftrightarrow> L = {b}" using b by (auto simp: card_1_singleton_iff)
  finally show "liveElems s = 1 \<longleftrightarrow> L = {b}" .
qed

text \<open>A slab to allocate from.\<close>

lemma allocSlab_ok:
  assumes ma: "memalign_ok ma" and m: "memaligned sa < 2 ^ 31"
    and d: "dom (slabs sa) = ma ` {..<memaligned sa}" "\<forall>a s. slabs sa a = Some s \<longrightarrow> slab_ok s (B a)" "\<forall>a. slabs sa a = None \<longrightarrow> B a = {}"
      "distinct (freeList sa)" "\<forall>a \<in> set (freeList sa). slabs sa a = Some Slab_clear"
      "unat (liveSlabs sa) + length (freeList sa) = memaligned sa"
  shows "\<exists>sa'. allocSlab ma sa = Some sa' \<and> sa_ok ma sa' B \<and> slabs sa' (curSlab sa') = Some Slab_clear"
proof -
  have live: "unat (liveSlabs sa + 1) = unat (liveSlabs sa) + 1" using m d(6) by (intro unat_add_no_wrap [THEN trans]) simp_all
  show ?thesis
  proof (cases "freeList sa" rule: rev_cases)
    case (snoc fs a)
    have "a \<in> dom (slabs sa)" using snoc d(5) by auto
    then have "a \<noteq> 0" using ma unfolding d(1) memalign_ok_def by auto
    with snoc show ?thesis using d live by (auto simp: allocSlab_def sa_ok_def) (auto simp: Slab_clear_def)
  next
    case Nil
    let ?a = "ma (memaligned sa)"
    have "inj_on ma {..<2 ^ 31}" using ma by (simp add: memalign_ok_def)
    from inj_on_image_mem_iff [OF this, of "memaligned sa" "{..<memaligned sa}"]
    have "?a \<notin> ma ` {..<memaligned sa}" using m by (simp add: lessThan_subset_iff)
    then have new: "slabs sa ?a = None" using d(1) by blast
    have al: "?a AND SLAB_MASK = ?a" using ma by (simp add: memalign_ok_def aligned_def)
    let ?sa = "sa\<lparr>slabs := (slabs sa)(?a \<mapsto> Slab_clear), curSlab := ?a, memaligned := memaligned sa + 1, liveSlabs := liveSlabs sa + 1\<rparr>"
    have "allocSlab ma sa = Some ?sa" using Nil al by (simp add: allocSlab_def Let_def)
    moreover have "dom ((slabs sa)(?a \<mapsto> Slab_clear)) = ma ` {..<memaligned sa + 1}" using d(1) by (simp add: lessThan_Suc)
    then have "sa_ok ma ?sa B" using d new live Nil by (auto simp: sa_ok_def) (auto simp: Slab_clear_def)
    ultimately show ?thesis by simp
  qed
qed

text \<open>An allocation takes memory that no live object has.\<close>

definition block_at :: "u64 \<Rightarrow> nat \<times> nat \<Rightarrow> u64 \<times> nat" where
  "block_at a b = (a + SLAB_HEADER + of_nat (fst b), snd b)"

definition live_blocks :: "(u64 \<Rightarrow> (nat \<times> nat) set) \<Rightarrow> (u64 \<times> nat) set" where
  "live_blocks B = {block_at a b | a b. b \<in> B a}"

lemma live_blocks_insert: "live_blocks (B(a := insert b (B a))) = insert (block_at a b) (live_blocks B)"
proof -
  have "c \<in> (B(a := insert b (B a))) x \<longleftrightarrow> c \<in> B x \<or> x = a \<and> c = b" for c x by auto
  then show ?thesis unfolding live_blocks_def by blast
qed

lemma live_blocks_remove:
  assumes inj: "\<And>x c. c \<in> B x \<Longrightarrow> block_at a b = block_at x c \<Longrightarrow> a = x \<and> b = c"
  shows "live_blocks (B(a := B a - {b})) = live_blocks B - {block_at a b}"
proof (rule set_eqI)
  fix y
  have upd: "c \<in> (B(a := B a - {b})) x \<longleftrightarrow> c \<in> B x \<and> \<not> (x = a \<and> c = b)" for c x by auto
  have "y \<in> live_blocks (B(a := B a - {b})) \<longleftrightarrow> (\<exists>x c. y = block_at x c \<and> c \<in> B x \<and> \<not> (x = a \<and> c = b))"
    unfolding live_blocks_def mem_Collect_eq upd ..
  also have "\<dots> \<longleftrightarrow> (\<exists>x c. y = block_at x c \<and> c \<in> B x \<and> y \<noteq> block_at a b)" using inj by metis
  finally show "y \<in> live_blocks (B(a := B a - {b})) \<longleftrightarrow> y \<in> live_blocks B - {block_at a b}" by (auto simp: live_blocks_def)
qed

lemma curAlloc_ok:
  assumes ok: "sa_ok ma sa B" and s: "slabs sa (curSlab sa) = Some s" and n: "2 \<le> unat sz" "unat sz < 65520"
  shows "\<exists>sa' p. curAlloc sa sz = Some (sa', p) \<and> curSlab sa' = curSlab sa \<and> memaligned sa' = memaligned sa \<and>
    (case p of
       Some q \<Rightarrow> q = curSlab sa + SLAB_HEADER + ucast (usedBytes s) \<and> unat (usedBytes s) + unat sz < 65520
         \<and> sa_ok ma sa' (B(curSlab sa := insert (unat (usedBytes s), unat sz) (B (curSlab sa))))
     | None \<Rightarrow> 65520 \<le> unat (usedBytes s) + unat sz \<and> dom (slabs sa') = ma ` {..<memaligned sa'} \<and> (\<forall>a s. slabs sa' a = Some s \<longrightarrow> slab_ok s (B a))
         \<and> (\<forall>a. slabs sa' a = None \<longrightarrow> B a = {}) \<and> distinct (freeList sa') \<and> (\<forall>a \<in> set (freeList sa'). slabs sa' a = Some Slab_clear)
         \<and> unat (liveSlabs sa') + length (freeList sa') = memaligned sa')"
proof -
  obtain s' p where r: "Slab_alloc (curSlab sa) s sz = (s', p)" by fastforce
  have u: "unat (usedBytes s) < 65520" "slab_ok s (B (curSlab sa))" using ok s by (auto simp: sa_ok_def)
  note a = slab_ok_alloc [OF u(2) n u(1) r]
  have run: "curAlloc sa sz = Some (sa\<lparr>slabs := (slabs sa)(curSlab sa \<mapsto> s')\<rparr>, p)" using s r by (simp add: curAlloc_def)
  show ?thesis
  proof (cases p)
    case None
    then show ?thesis using run a ok s by (auto simp: sa_ok_def)
  next
    case (Some q)
    let ?B = "B(curSlab sa := insert (unat (usedBytes s), unat sz) (B (curSlab sa)))"
    have "sa_ok ma (sa\<lparr>slabs := (slabs sa)(curSlab sa \<mapsto> s')\<rparr>) ?B" using a ok s Some by (auto simp: sa_ok_def)
    then show ?thesis using run a Some by simp
  qed
qed

lemma slab_alloc_ok:
  assumes ma: "memalign_ok ma" and ok: "sa_ok ma sa B" and n: "2 \<le> sz" "sz < 65520" and l: "memaligned sa < 2 ^ 31"
  shows "\<exists>sa' a off. slab_alloc ma sa sz = Some (sa', a + SLAB_HEADER + of_nat off) \<and> off + unat sz < 65520 \<and> (\<forall>b \<in> B a. fst b + snd b \<le> off)
    \<and> sa_ok ma sa' (B(a := insert (off, unat sz) (B a)))"
proof -
  have sz: "unat (ucast sz :: u32) = unat sz" "2 \<le> unat sz" "unat sz < 65520" using n
    by (simp_all add: unat_ucast_down word_le_nat_alt word_less_nat_alt)
  have lt: "sz < SLAB_SIZE" using n(2) by (simp add: SLAB_SIZE_def word_less_nat_alt)
  have mask: "(a + SLAB_HEADER + of_nat off) AND SLAB_MASK = a" if "a \<in> dom (slabs sa)" "off < 65520" "dom (slabs sa) = ma ` {..<k}" for a off k and sa :: SlabAlloc
  proof -
    have "aligned a" using that(1,3) ma by (auto simp: memalign_ok_def)
    moreover have "unat (SLAB_HEADER + of_nat off) < 2 ^ 16" using that(2) by (simp add: SLAB_HEADER_def unat_word_ariths unat_of_nat)
    ultimately show ?thesis using slab_of(1) by (simp add: add.assoc)
  qed
  obtain s where s: "slabs sa (curSlab sa) = Some s" using ok by (auto simp: sa_ok_def)
  have n32: "2 \<le> unat (ucast sz :: u32)" "unat (ucast sz :: u32) < 65520" unfolding sz(1) using sz(2,3) .
  obtain sa1 p where c: "curAlloc sa (ucast sz) = Some (sa1, p)" "curSlab sa1 = curSlab sa" "memaligned sa1 = memaligned sa"
    and p: "case p of
       Some q \<Rightarrow> q = curSlab sa + SLAB_HEADER + ucast (usedBytes s) \<and> unat (usedBytes s) + unat (ucast sz :: u32) < 65520
         \<and> sa_ok ma sa1 (B(curSlab sa := insert (unat (usedBytes s), unat (ucast sz :: u32)) (B (curSlab sa))))
     | None \<Rightarrow> 65520 \<le> unat (usedBytes s) + unat (ucast sz :: u32) \<and> dom (slabs sa1) = ma ` {..<memaligned sa1} \<and> (\<forall>a s. slabs sa1 a = Some s \<longrightarrow> slab_ok s (B a))
         \<and> (\<forall>a. slabs sa1 a = None \<longrightarrow> B a = {}) \<and> distinct (freeList sa1) \<and> (\<forall>a \<in> set (freeList sa1). slabs sa1 a = Some Slab_clear)
         \<and> unat (liveSlabs sa1) + length (freeList sa1) = memaligned sa1"
    using curAlloc_ok [OF ok s n32] by blast
  show ?thesis
  proof (cases p)
    case (Some q)
    have q: "q = curSlab sa + SLAB_HEADER + of_nat (unat (usedBytes s))" "unat (usedBytes s) + unat sz < 65520"
      "sa_ok ma sa1 (B(curSlab sa := insert (unat (usedBytes s), unat sz) (B (curSlab sa))))"
      using p Some sz(1) by (simp_all add: word_unat_eq_iff)
    have "q AND SLAB_MASK = curSlab sa1" unfolding c(2) q(1) by (rule mask) (use q(2) ok in \<open>auto simp: sa_ok_def\<close>)
    then have "slab_alloc ma sa sz = Some (sa1, q)" using lt c(1) Some by (simp add: slab_alloc_def)
    moreover have "\<forall>b \<in> B (curSlab sa). fst b + snd b \<le> unat (usedBytes s)" using ok s by (simp add: sa_ok_def slab_ok_def)
    ultimately show ?thesis using q by blast
  next
    case None
    then obtain sa2 where sa2: "allocSlab ma sa1 = Some sa2" "sa_ok ma sa2 B" "slabs sa2 (curSlab sa2) = Some Slab_clear"
      using allocSlab_ok [OF ma, of sa1 B] p l c(3) by auto
    have z: "usedBytes Slab_clear = 0" by (simp add: Slab_clear_def)
    obtain sa3 p' where c3: "curAlloc sa2 (ucast sz) = Some (sa3, p')" "curSlab sa3 = curSlab sa2" and
      p': "case p' of
       Some q \<Rightarrow> q = curSlab sa2 + SLAB_HEADER \<and> sa_ok ma sa3 (B(curSlab sa2 := insert (0, unat (ucast sz :: u32)) (B (curSlab sa2))))
     | None \<Rightarrow> 65520 \<le> unat (ucast sz :: u32)"
      using curAlloc_ok [OF sa2(2,3) n32] unfolding z by (auto split: option.splits)
    then obtain q where q: "p' = Some q" "q = curSlab sa2 + SLAB_HEADER + of_nat 0" "sa_ok ma sa3 (B(curSlab sa2 := insert (0, unat sz) (B (curSlab sa2))))"
      using sz by (auto split: option.splits)
    have "q AND SLAB_MASK = curSlab sa3" unfolding c3(2) q(2) by (rule mask) (use sa2(2) in \<open>auto simp: sa_ok_def\<close>)
    then have "slab_alloc ma sa sz = Some (sa3, q)" using lt c(1) None sa2(1) c3(1) q(1) by (simp add: slab_alloc_def)
    moreover have "slab_ok Slab_clear (B (curSlab sa2))" using sa2(2,3) unfolding sa_ok_def by blast
    then have "B (curSlab sa2) = {}" by simp
    ultimately show ?thesis using q sz(3) by (intro exI [of _ sa3] exI [of _ "curSlab sa2"] exI [of _ 0]) simp
  qed
qed

text \<open>Freeing one finds its slab and takes it out.\<close>

lemma sa_ok_slab: "sa_ok ma sa B \<Longrightarrow> b \<in> B a \<Longrightarrow> \<exists>s. slabs sa a = Some s \<and> slab_ok s (B a)"
  unfolding sa_ok_def by (metis empty_iff option.exhaust)

lemma block_at_slab:
  assumes "memalign_ok ma" "sa_ok ma sa B" "b \<in> B a"
  shows "fst (block_at a b) AND SLAB_MASK = a" "unat (fst (block_at a b)) = unat a + 16 + fst b" "fst b + snd b < 65520" "a \<in> dom (slabs sa)" "aligned a"
proof -
  obtain s where s: "slabs sa a = Some s" "slab_ok s (B a)" using sa_ok_slab [OF assms(2,3)] by blast
  then show d: "a \<in> dom (slabs sa)" by blast
  then show al: "aligned a" using assms(1,2) by (auto simp: sa_ok_def memalign_ok_def)
  show b: "fst b + snd b < 65520" using s(2) assms(3) by (auto simp: slab_ok_def)
  then have u: "unat (SLAB_HEADER + of_nat (fst b)) = 16 + fst b" by (simp add: SLAB_HEADER_def unat_word_ariths unat_of_nat)
  then have "unat (SLAB_HEADER + of_nat (fst b)) < 2 ^ 16" using b by simp
  note so = slab_of [OF al this]
  show "fst (block_at a b) AND SLAB_MASK = a" "unat (fst (block_at a b)) = unat a + 16 + fst b"
    using so u by (simp_all add: block_at_def add.assoc)
qed

lemma block_at_inj:
  assumes "memalign_ok ma" "sa_ok ma sa B" "b \<in> B a" "b' \<in> B a'" "block_at a b = block_at a' b'"
  shows "a = a' \<and> b = b'"
proof -
  note x = block_at_slab [OF assms(1,2,3)] and y = block_at_slab [OF assms(1,2,4)]
  have "a = a'" using x(1) y(1) assms(5) by simp
  moreover have "fst b = fst b'" using x(2) y(2) assms(5) calculation by simp
  moreover have "snd b = snd b'" using assms(5) by (simp add: block_at_def)
  ultimately show ?thesis by (simp add: prod_eq_iff)
qed

lemma slab_free_ok:
  assumes ma: "memalign_ok ma" and ok: "sa_ok ma sa B" and b: "b \<in> B a" and n: "memaligned sa < 2 ^ 31"
  shows "\<exists>sa'. slab_freeElem sa (fst (block_at a b)) = Some sa' \<and> sa_ok ma sa' (B(a := B a - {b})) \<and> memaligned sa' = memaligned sa"
proof -
  note at = block_at_slab [OF ma ok b]
  obtain s where s: "slabs sa a = Some s" "slab_ok s (B a)" using sa_ok_slab [OF ok b] by blast
  note fr = slab_ok_free [OF s(2) b]
  let ?s = "s\<lparr>liveElems := liveElems s - 1\<rparr>" and ?B = "B(a := B a - {b})"
  have "s \<noteq> Slab_clear" using s(2) b by auto
  then have notfree: "a \<notin> set (freeList sa)" using ok s(1) by (auto simp: sa_ok_def)
  show ?thesis
  proof (cases "liveElems s = 1")
    case False
    then have "slab_freeElem sa (fst (block_at a b)) = Some (sa\<lparr>slabs := (slabs sa)(a \<mapsto> ?s)\<rparr>)"
      using s(1) at(1) fr(1,2) by (simp add: slab_freeElem_def Let_def)
    moreover have "sa_ok ma (sa\<lparr>slabs := (slabs sa)(a \<mapsto> ?s)\<rparr>) ?B" using ok s(1) fr(3) notfree by (auto simp: sa_ok_def)
    ultimately show ?thesis by simp
  next
    case True
    then have empty: "B a - {b} = {}" using fr(4) by simp
    have cnt: "unat (liveSlabs sa) + length (freeList sa) = memaligned sa" "distinct (freeList sa)" using ok by (simp_all add: sa_ok_def)
    let ?sa = "sa\<lparr>slabs := (slabs sa)(a \<mapsto> Slab_clear)\<rparr>"
    have run: "slab_freeElem sa (fst (block_at a b)) = freeSlab (sa\<lparr>slabs := (slabs sa)(a \<mapsto> ?s)\<rparr>) a"
      using True s(1) at(1) fr(1,2) by (simp add: slab_freeElem_def Let_def)
    have D: "dom (slabs sa) = ma ` {..<memaligned sa}" "curSlab sa \<in> dom (slabs sa)" "set (freeList sa) \<subseteq> dom (slabs sa) - {curSlab sa}"
      using ok by (auto simp: sa_ok_def)
    have "card (dom (slabs sa)) = memaligned sa" using D(1) ma n by (simp add: card_image memalign_ok_def inj_on_subset [of ma "{..<2 ^ 31}"])
    then have fin: "finite (dom (slabs sa))" "card (dom (slabs sa)) = memaligned sa" using D(1) by simp_all
    show ?thesis
    proof (cases "a = curSlab sa")
      case True
      have "length (freeList sa) = card (set (freeList sa))" using cnt(2) by (simp add: distinct_card)
      also have "\<dots> \<le> card (dom (slabs sa) - {curSlab sa})" using D(3) fin(1) by (intro card_mono) simp_all
      also have "\<dots> < memaligned sa" using fin D(2) by (metis card_Diff1_less)
      finally have "liveSlabs sa \<noteq> 0" using cnt(1) by (metis add_0 less_irrefl unat_0)
      then have "freeSlab (sa\<lparr>slabs := (slabs sa)(a \<mapsto> ?s)\<rparr>) a = Some ?sa" using True by (simp add: freeSlab_def Let_def)
      moreover have "sa_ok ma ?sa ?B" using ok True empty notfree by (auto simp: sa_ok_def) (auto simp: Slab_clear_def)
      ultimately show ?thesis using run by simp
    next
      case False
      let ?f = "?sa\<lparr>freeList := freeList sa @ [a], liveSlabs := liveSlabs sa - 1\<rparr>"
      have "length (a # freeList sa) = card (set (a # freeList sa))" using cnt(2) notfree by (simp add: distinct_card del: length_Cons set_simps)
      also have "\<dots> \<le> card (dom (slabs sa) - {curSlab sa})" using D(3) fin(1) at(4) False by (intro card_mono) auto
      also have "\<dots> < memaligned sa" using fin D(2) by (metis card_Diff1_less)
      finally have two: "2 \<le> unat (liveSlabs sa)" using cnt(1) by simp
      then have "1 \<le> liveSlabs sa" by (simp add: word_le_nat_alt)
      then have sub: "unat (liveSlabs sa - 1) = unat (liveSlabs sa) - 1" by (simp add: unat_sub)
      then have "liveSlabs sa - 1 \<noteq> 0" using two by (metis One_nat_def Suc_1 diff_is_0_eq not_less_eq_eq unat_0)
      then have "freeSlab (sa\<lparr>slabs := (slabs sa)(a \<mapsto> ?s)\<rparr>) a = Some ?f" using False by (simp add: freeSlab_def Let_def)
      moreover have "sa_ok ma ?f ?B" using ok False empty notfree two sub s(1) by (auto simp: sa_ok_def)
      ultimately show ?thesis using run by simp
    qed
  qed
qed

text \<open>Objects of different slabs are apart anyway.\<close>

lemma aligned_mod: "aligned a \<Longrightarrow> unat a mod 65536 = 0"
proof -
  assume "aligned a"
  then have a: "a AND NOT (mask 16) = a" by (simp add: aligned_def mask_slab)
  have "a AND mask 16 = (a AND NOT (mask 16)) AND mask 16" unfolding a ..
  also have "\<dots> = 0" by (simp add: and.assoc)
  finally have "take_bit 16 a = 0" by (simp add: take_bit_eq_mask)
  then have "take_bit 16 (unat a) = 0" by (metis unsigned_0 unsigned_take_bit_eq)
  then show ?thesis by (simp add: take_bit_eq_mod)
qed

lemma blocks_apart:
  assumes ma: "memalign_ok ma" and ok: "sa_ok ma sa B" and b: "b \<in> B a" and c: "c \<in> B a'"
    and same: "a = a' \<Longrightarrow> fst b + snd b \<le> fst c \<or> fst c + snd c \<le> fst b"
  shows "unat (fst (block_at a b)) + snd b \<le> unat (fst (block_at a' c)) \<or> unat (fst (block_at a' c)) + snd c \<le> unat (fst (block_at a b))"
proof -
  note x = block_at_slab [OF ma ok b] and y = block_at_slab [OF ma ok c]
  show ?thesis
  proof (cases "a = a'")
    case True
    then show ?thesis using same x(2) y(2) by auto
  next
    case False
    obtain i where i: "unat a = i * 65536" using aligned_mod [OF x(5)] by (metis mod_0_imp_dvd dvd_def mult.commute)
    obtain j where j: "unat a' = j * 65536" using aligned_mod [OF y(5)] by (metis mod_0_imp_dvd dvd_def mult.commute)
    have "i \<noteq> j" using False i j by (auto simp: word_unat_eq_iff)
    then show ?thesis using x(2,3) y(2,3) i j by linarith
  qed
qed

section \<open>Histories\<close>

text \<open>The states an allocator reaches, with the objects it has given out and not taken back.\<close>

inductive slab_reach :: "(nat \<Rightarrow> u64) \<Rightarrow> SlabAlloc \<Rightarrow> (u64 \<times> nat) set \<Rightarrow> bool" for ma where
  new: "SlabAlloc_new ma = Some sa \<Longrightarrow> slab_reach ma sa {}"
| alloc: "slab_reach ma sa L \<Longrightarrow> 2 \<le> sz \<Longrightarrow> sz < 65520 \<Longrightarrow> slab_alloc ma sa sz = Some (sa', p) \<Longrightarrow> memaligned sa' < 2 ^ 31 \<Longrightarrow>
    slab_reach ma sa' (insert (p, unat sz) L)"
| free: "slab_reach ma sa L \<Longrightarrow> (p, z) \<in> L \<Longrightarrow> slab_freeElem sa p = Some sa' \<Longrightarrow> slab_reach ma sa' (L - {(p, z)})"

lemma slab_reach_ok:
  assumes "memalign_ok ma" "slab_reach ma sa L"
  shows "\<exists>B. sa_ok ma sa B \<and> L = live_blocks B \<and> memaligned sa < 2 ^ 31"
  using assms(2)
proof induction
  case (new sa)
  have "\<exists>sa'. allocSlab ma \<lparr>slabs = Map.empty, curSlab = 0, freeList = [], liveSlabs = 0, memaligned = 0\<rparr> = Some sa'
      \<and> sa_ok ma sa' (\<lambda>_. {}) \<and> slabs sa' (curSlab sa') = Some Slab_clear"
    by (rule allocSlab_ok [OF assms(1)]) simp_all
  then have "sa_ok ma sa (\<lambda>_. {})" using new by (simp add: SlabAlloc_new_def)
  moreover have "memaligned sa = 1" using new by (auto simp: SlabAlloc_new_def allocSlab_def Let_def elim!: bind_Some_elim split: if_splits)
  ultimately show ?case by (intro exI [of _ "\<lambda>_. {}"]) (simp add: live_blocks_def)
next
  case (alloc sa L sz sa' p)
  then obtain B where B: "sa_ok ma sa B" "L = live_blocks B" "memaligned sa < 2 ^ 31" by blast
  from slab_alloc_ok [OF assms(1) B(1) alloc.hyps(2,3) B(3)] alloc.hyps(4) obtain a off where
    p: "p = a + SLAB_HEADER + of_nat off" "sa_ok ma sa' (B(a := insert (off, unat sz) (B a)))" by auto
  have "insert (p, unat sz) L = live_blocks (B(a := insert (off, unat sz) (B a)))"
    unfolding B(2) p(1) live_blocks_insert by (simp add: block_at_def)
  then show ?case using p(2) alloc.hyps(5) by blast
next
  case (free sa L p z sa')
  then obtain B where B: "sa_ok ma sa B" "L = live_blocks B" "memaligned sa < 2 ^ 31" by blast
  then obtain a b where b: "b \<in> B a" "(p, z) = block_at a b" using free.hyps(2) by (auto simp: live_blocks_def)
  have n: "memaligned sa < 2 ^ 31" by (rule B(3))
  obtain s1 where s1: "slab_freeElem sa p = Some s1" "sa_ok ma s1 (B(a := B a - {b}))" "memaligned s1 = memaligned sa"
    using slab_free_ok [OF assms(1) B(1) b(1) n] b(2) by (metis fst_conv)
  have "live_blocks (B(a := B a - {b})) = live_blocks B - {block_at a b}"
    by (rule live_blocks_remove) (use block_at_inj [OF assms(1) B(1) b(1)] in auto)
  then have "live_blocks (B(a := B a - {b})) = L - {(p, z)}" using B(2) b(2) by simp
  moreover have "sa' = s1" using s1(1) free.hyps(3) by simp
  ultimately show ?case using s1(2,3) n by metis
qed

text \<open>
  Claim C40.  Objects of the event allocator never overlap.  Over any allocator of aligned, distinct slabs, in every state reached by
  allocations of 2 to 65519 bytes and frees of live objects, another such allocation succeeds and gives memory that no live object
  has, however slabs were recycled, live objects do not overlap, and every live object can be freed: its slab is found by
  masking its address, and no assertion is tripped.
\<close>

theorem slab_objects_disjoint:
  assumes "memalign_ok ma" "slab_reach ma sa L" "2 \<le> sz" "sz < 65520"
  shows "\<exists>sa' p. slab_alloc ma sa sz = Some (sa', p) \<and> (\<forall>(q, z) \<in> L. unat p + unat sz \<le> unat q \<or> unat q + z \<le> unat p)
    \<and> (\<forall>(q, z) \<in> L. \<exists>sa'. slab_freeElem sa q = Some sa')
    \<and> (\<forall>(q, z) \<in> L. \<forall>(q', z') \<in> L. (q, z) = (q', z') \<or> unat q + z \<le> unat q' \<or> unat q' + z' \<le> unat q)"
proof -
  obtain B where B: "sa_ok ma sa B" "L = live_blocks B" "memaligned sa < 2 ^ 31" using slab_reach_ok [OF assms(1,2)] by blast
  then have l: "unat (liveSlabs sa) + 1 < 2 ^ 32" and n: "memaligned sa < 2 ^ 31" by (simp_all add: sa_ok_def)
  obtain sa' a off where r: "slab_alloc ma sa sz = Some (sa', a + SLAB_HEADER + of_nat off)" "\<forall>b \<in> B a. fst b + snd b \<le> off"
    "sa_ok ma sa' (B(a := insert (off, unat sz) (B a)))" using slab_alloc_ok [OF assms(1) B(1) assms(3,4) n] by blast
  let ?B = "B(a := insert (off, unat sz) (B a))" and ?p = "fst (block_at a (off, unat sz))"
  have p: "?p = a + SLAB_HEADER + of_nat off" by (simp add: block_at_def)
  have blk: "\<exists>a' c. c \<in> B a' \<and> q = fst (block_at a' c) \<and> z = snd c" if "(q, z) \<in> L" for q z
    using that unfolding B(2) live_blocks_def block_at_def by auto
  have apart: "unat ?p + unat sz \<le> unat q \<or> unat q + z \<le> unat ?p" if qz: "(q, z) \<in> L" for q z
  proof -
    obtain a' c where c: "c \<in> B a'" "q = fst (block_at a' c)" "z = snd c" using blk [OF qz] by blast
    have "(off, unat sz) \<in> ?B a" "c \<in> ?B a'" using c(1) by auto
    from blocks_apart [OF assms(1) r(3) this] show ?thesis using c r(2) by auto
  qed
  have fr: "\<exists>sa'. slab_freeElem sa q = Some sa'" if qz: "(q, z) \<in> L" for q z
    using blk [OF qz] slab_free_ok [OF assms(1) B(1) _ n] by blast
  have two: "(q, z) = (q', z') \<or> unat q + z \<le> unat q' \<or> unat q' + z' \<le> unat q" if qz: "(q, z) \<in> L" "(q', z') \<in> L" for q z q' z'
  proof -
    obtain a' c where c: "c \<in> B a'" "q = fst (block_at a' c)" "z = snd c" using blk [OF qz(1)] by blast
    obtain a'' e where e: "e \<in> B a''" "q' = fst (block_at a'' e)" "z' = snd e" using blk [OF qz(2)] by blast
    obtain s where s: "slabs sa a' = Some s" "slab_ok s (B a')" using sa_ok_slab [OF B(1) c(1)] by blast
    show ?thesis
    proof (cases "a' = a'' \<and> c = e")
      case False
      then have "a' = a'' \<Longrightarrow> fst c + snd c \<le> fst e \<or> fst e + snd e \<le> fst c" using s(2) c(1) e(1) by (auto simp: slab_ok_def)
      from blocks_apart [OF assms(1) B(1) c(1) e(1) this] show ?thesis using c e by simp
    qed (use c e in simp)
  qed
  show ?thesis using r(1) apart fr two unfolding p [symmetric] by blast
qed

text \<open>Slabs at consecutive multiples of 64 KB; two objects of 24 bytes.\<close>

definition ex_memalign :: "nat \<Rightarrow> u64" where
  "ex_memalign i = push_bit 16 (of_nat (i mod 2 ^ 31 + 1))"

lemma ex_memalign_ok: "memalign_ok ex_memalign"
proof -
  have un: "unat (ex_memalign n) = (n mod 2 ^ 31 + 1) * 65536" for n
  proof -
    have k: "unat (push_bit 16 (of_nat (k + 1)) :: u64) = (k + 1) * 65536" if "k < 2 ^ 31" for k
      using that by (simp add: push_bit_eq_mult unat_word_ariths unat_of_nat)
    show ?thesis unfolding ex_memalign_def by (rule k) simp
  qed
  have "inj_on ex_memalign {..<2 ^ 31}"
  proof (rule inj_onI)
    fix i j :: nat
    assume ij: "i \<in> {..<2 ^ 31}" "j \<in> {..<2 ^ 31}" "ex_memalign i = ex_memalign j"
    then have "(i mod 2 ^ 31 + 1) * 65536 = (j mod 2 ^ 31 + 1) * 65536" using un by metis
    then show "i = j" using ij(1,2) by simp
  qed
  moreover have "aligned (ex_memalign i)" for i
    unfolding aligned_def by (rule bit_word_eqI) (auto simp: mask_slab ex_memalign_def bit_simps)
  moreover have "ex_memalign i \<noteq> 0" for i using un [of i] by (metis mult_is_0 not_one_le_zero le_add2 unat_0 zero_neq_numeral)
  ultimately show ?thesis by (simp add: memalign_ok_def)
qed

theorem slab_objects_disjoint_witness:
  "\<exists>sa sa1 sa2 q. SlabAlloc_new ex_memalign = Some sa \<and> slab_alloc ex_memalign sa 24 = Some (sa1, 65552) \<and> slab_alloc ex_memalign sa1 24 = Some (sa2, q)
     \<and> (65576 \<le> unat q \<or> unat q + 24 \<le> 65552)"
proof -
  have z: "ex_memalign 0 = 65536" by (simp add: ex_memalign_def)
  let ?sa = "\<lparr>slabs = [65536 \<mapsto> Slab_clear], curSlab = 65536, freeList = [], liveSlabs = 1, memaligned = 1\<rparr>"
  let ?s1 = "\<lparr>slabs = [65536 \<mapsto> \<lparr>liveElems = 1, usedBytes = 24\<rparr>], curSlab = 65536, freeList = [], liveSlabs = 1, memaligned = 1\<rparr>"
  have m: "(65552 :: u64) AND SLAB_MASK = 65536" "(65536 :: u64) AND SLAB_MASK = 65536" by (simp_all add: SLAB_MASK_def SLAB_SIZE_def)
  have new: "SlabAlloc_new ex_memalign = Some ?sa" by (simp add: SlabAlloc_new_def allocSlab_def z m)
  have al: "slab_alloc ex_memalign ?sa 24 = Some (?s1, 65552)" using m
    by (simp add: slab_alloc_def curAlloc_def Slab_alloc_def Slab_clear_def SLAB_SIZE_def BUF_SIZE_def SLAB_HEADER_def)
  have "slab_reach ex_memalign ?s1 {(65552, 24)}" using slab_reach.alloc [OF slab_reach.new [OF new] _ _ al] by simp
  from slab_objects_disjoint [OF ex_memalign_ok this, of 24] obtain sa2 q where
    "slab_alloc ex_memalign ?s1 24 = Some (sa2, q)" "unat q + 24 \<le> 65552 \<or> 65576 \<le> unat q" by auto
  then show ?thesis using new al by blast
qed

end
