(* ===== verification/IntrusiveList.thy ===== *)
theory IntrusiveList
  imports Prelude
begin

text \<open>
  The doubly linked lists that thread through their own elements (\<open>src/src/intrusive_list.h\<close>).  A store maps the
  pointers of elements to their links; a null pointer is \<open>None\<close>, and so is following a pointer to nothing.  The
  operations of a list take its address \<open>l\<close>, the store and its head.
\<close>

section \<open>Nodes and lists\<close>

record ('p, 'l) InListNode =
  next_node :: "'p option"
  prev_node :: "'p option"
  owner :: "'l option"

type_synonym ('p, 'l) links = "'p \<Rightarrow> ('p, 'l) InListNode option"

definition InListNode_new :: "('p, 'l) InListNode" where
  "InListNode_new = \<lparr>next_node = None, prev_node = None, owner = None\<rparr>"

definition mod_node :: "('p, 'l) links \<Rightarrow> 'p \<Rightarrow> (('p, 'l) InListNode \<Rightarrow> ('p, 'l) InListNode) \<Rightarrow> ('p, 'l) links option" where
  "mod_node h p f = map_option (\<lambda>n. h(p \<mapsto> f n)) (h p)"

definition mod_if :: "('p, 'l) links \<Rightarrow> 'p option \<Rightarrow> (('p, 'l) InListNode \<Rightarrow> ('p, 'l) InListNode) \<Rightarrow> ('p, 'l) links option" where
  "mod_if h q f = (case q of None \<Rightarrow> Some h | Some p \<Rightarrow> mod_node h p f)"

definition unlink :: "'l \<Rightarrow> ('p, 'l) links \<Rightarrow> 'p \<Rightarrow> ('p, 'l) links option" where
  "unlink l h e = do {
     n \<leftarrow> h e;
     h1 \<leftarrow> mod_if h (next_node n) (\<lambda>m. m\<lparr>prev_node := prev_node n\<rparr>);
     n1 \<leftarrow> h1 e;
     h2 \<leftarrow> mod_if h1 (prev_node n1) (\<lambda>m. m\<lparr>next_node := next_node n1\<rparr>);
     h3 \<leftarrow> mod_node h2 e (\<lambda>m. m\<lparr>next_node := None, prev_node := None\<rparr>);
     n3 \<leftarrow> h3 e;
     _ \<leftarrow> require (owner n3 = Some l);
     mod_node h3 e (\<lambda>m. m\<lparr>owner := None\<rparr>)
   }"

definition linkPrev :: "'l \<Rightarrow> ('p, 'l) links \<Rightarrow> 'p \<Rightarrow> 'p \<Rightarrow> ('p, 'l) links option" where
  "linkPrev l h e p = do {
     n \<leftarrow> h e;
     _ \<leftarrow> require (owner n = None);
     _ \<leftarrow> require (prev_node n = None \<and> next_node n = None);
     np \<leftarrow> h p;
     h1 \<leftarrow> (case next_node np of
         None \<Rightarrow> Some h
       | Some q \<Rightarrow> do {
           nq \<leftarrow> h q;
           _ \<leftarrow> require (prev_node nq = Some p);
           h1 \<leftarrow> mod_node h q (\<lambda>m. m\<lparr>prev_node := Some e\<rparr>);
           np1 \<leftarrow> h1 p;
           mod_node h1 e (\<lambda>m. m\<lparr>next_node := next_node np1\<rparr>)
         });
     h2 \<leftarrow> mod_node h1 p (\<lambda>m. m\<lparr>next_node := Some e\<rparr>);
     mod_node h2 e (\<lambda>m. m\<lparr>prev_node := Some p, owner := Some l\<rparr>)
   }"

record 'p InList =
  head :: "'p option"
  tail :: "'p option"
  elems :: u64

definition InList_new :: "'p InList" where
  "InList_new = \<lparr>head = None, tail = None, elems = 0\<rparr>"

definition list_empty :: "'p InList \<Rightarrow> bool" where
  "list_empty L = (head L = None)"

definition push_front :: "'l \<Rightarrow> ('p, 'l) links \<Rightarrow> 'p InList \<Rightarrow> 'p \<Rightarrow> (('p, 'l) links \<times> 'p InList) option" where
  "push_front l h L e = do {
     n \<leftarrow> h e;
     _ \<leftarrow> require (next_node n = None \<and> prev_node n = None \<and> owner n = None);
     (h1, L1) \<leftarrow> (case head L of
         None \<Rightarrow> Some (h, L\<lparr>head := Some e, tail := Some e\<rparr>)
       | Some x \<Rightarrow> do {
           nx \<leftarrow> h x;
           _ \<leftarrow> require (prev_node nx = None \<and> owner nx = Some l);
           h1 \<leftarrow> mod_node h e (\<lambda>m. m\<lparr>next_node := Some x\<rparr>);
           h2 \<leftarrow> mod_node h1 x (\<lambda>m. m\<lparr>prev_node := Some e\<rparr>);
           Some (h2, L\<lparr>head := Some e\<rparr>)
         });
     h2 \<leftarrow> mod_node h1 e (\<lambda>m. m\<lparr>owner := Some l\<rparr>);
     Some (h2, L1\<lparr>elems := elems L1 + 1\<rparr>)
   }"

definition push_back :: "'l \<Rightarrow> ('p, 'l) links \<Rightarrow> 'p InList \<Rightarrow> 'p \<Rightarrow> (('p, 'l) links \<times> 'p InList) option" where
  "push_back l h L e = do {
     n \<leftarrow> h e;
     _ \<leftarrow> require (next_node n = None \<and> prev_node n = None \<and> owner n = None);
     (h1, L1) \<leftarrow> (if list_empty L then do {
           h1 \<leftarrow> mod_node h e (\<lambda>m. m\<lparr>owner := Some l\<rparr>);
           Some (h1, L\<lparr>head := Some e, tail := Some e\<rparr>)
         } else do {
           t \<leftarrow> tail L;
           h1 \<leftarrow> linkPrev l h e t;
           Some (h1, L\<lparr>tail := Some e\<rparr>)
         });
     Some (h1, L1\<lparr>elems := elems L1 + 1\<rparr>)
   }"

definition pop_front :: "'l \<Rightarrow> ('p, 'l) links \<Rightarrow> 'p InList \<Rightarrow> (('p, 'l) links \<times> 'p InList) option" where
  "pop_front l h L = (case head L of
       None \<Rightarrow> Some (h, L)
     | Some e \<Rightarrow> do {
         n \<leftarrow> h e;
         let L1 = L\<lparr>head := next_node n\<rparr>;
         h1 \<leftarrow> unlink l h e;
         let L2 = (if head L1 = None then L1\<lparr>tail := None\<rparr> else L1);
         Some (h1, L2\<lparr>elems := elems L2 - 1\<rparr>)
       })"

definition pop_back :: "'l \<Rightarrow> ('p, 'l) links \<Rightarrow> 'p InList \<Rightarrow> (('p, 'l) links \<times> 'p InList) option" where
  "pop_back l h L = (if list_empty L then Some (h, L) else do {
     e \<leftarrow> tail L;
     n \<leftarrow> h e;
     let L1 = L\<lparr>tail := prev_node n\<rparr>;
     h1 \<leftarrow> unlink l h e;
     let L2 = (if tail L1 = None then L1\<lparr>head := None\<rparr> else L1);
     Some (h1, L2\<lparr>elems := elems L2 - 1\<rparr>)
   })"

definition list_remove :: "'l \<Rightarrow> ('p, 'l) links \<Rightarrow> 'p InList \<Rightarrow> 'p \<Rightarrow> (('p, 'l) links \<times> 'p InList) option" where
  "list_remove l h L e = do {
     n \<leftarrow> h e;
     let L1 = (if head L = Some e then L\<lparr>head := next_node n\<rparr> else L);
     let L2 = (if tail L1 = Some e then L1\<lparr>tail := prev_node n\<rparr> else L1);
     h1 \<leftarrow> unlink l h e;
     Some (h1, L2\<lparr>elems := elems L2 - 1\<rparr>)
   }"

definition insertAfter :: "'l \<Rightarrow> ('p, 'l) links \<Rightarrow> 'p InList \<Rightarrow> 'p \<Rightarrow> 'p \<Rightarrow> (('p, 'l) links \<times> 'p InList) option" where
  "insertAfter l h L p e = do {
     n \<leftarrow> h e;
     _ \<leftarrow> require (owner n = None);
     np \<leftarrow> h p;
     _ \<leftarrow> require (owner np = Some l);
     h1 \<leftarrow> linkPrev l h e p;
     let L1 = (if tail L = Some p then L\<lparr>tail := Some e\<rparr> else L);
     Some (h1, L1\<lparr>elems := elems L1 + 1\<rparr>)
   }"

section \<open>The list a store holds\<close>

definition first_of :: "'p list \<Rightarrow> 'p option \<Rightarrow> 'p option" where
  "first_of xs q = (case xs of [] \<Rightarrow> q | y # _ \<Rightarrow> Some y)"

definition last_of :: "'p option \<Rightarrow> 'p list \<Rightarrow> 'p option" where
  "last_of p xs = (if xs = [] then p else Some (List.last xs))"

text \<open>\<open>dll h l p xs q\<close>: the elements \<open>xs\<close> are linked in order, between the neighbours \<open>p\<close> and \<open>q\<close>.\<close>

fun dll :: "('p, 'l) links \<Rightarrow> 'l \<Rightarrow> 'p option \<Rightarrow> 'p list \<Rightarrow> 'p option \<Rightarrow> bool" where
  "dll h l p [] q = True"
| "dll h l p (x # xs) q =
     (h x = Some \<lparr>next_node = first_of xs q, prev_node = p, owner = Some l\<rparr> \<and> dll h l (Some x) xs q)"

definition list_rep :: "'l \<Rightarrow> ('p, 'l) links \<Rightarrow> 'p InList \<Rightarrow> 'p list \<Rightarrow> bool" where
  "list_rep l h L xs \<longleftrightarrow> distinct xs \<and> dll h l None xs None \<and> head L = first_of xs None
     \<and> tail L = last_of None xs \<and> elems L = of_nat (length xs)"

definition loose :: "('p, 'l) links \<Rightarrow> 'p \<Rightarrow> bool" where
  "loose h e = (h e = Some InListNode_new)"

lemma first_of_simps [simp]:
  "first_of [] q = q" "first_of (x # xs) q = Some x" "first_of (xs @ ys) q = first_of xs (first_of ys q)"
  by (auto simp: first_of_def split: list.splits)

lemma last_of_simps [simp]:
  "last_of p [] = p" "last_of p (x # xs) = last_of (Some x) xs" "last_of p (xs @ ys) = last_of (last_of p xs) ys"
  by (auto simp: last_of_def)

lemma dll_append [simp]:
  "dll h l p (xs @ ys) q \<longleftrightarrow> dll h l p xs (first_of ys q) \<and> dll h l (last_of p xs) ys q"
  by (induction xs arbitrary: p) auto

lemma dll_other: "x \<notin> set xs \<Longrightarrow> dll (h(x := v)) l p xs q = dll h l p xs q"
  by (induction xs arbitrary: p) auto

lemma dll_cong: "\<forall>x\<in>set xs. h' x = h x \<Longrightarrow> dll h' l p xs q = dll h l p xs q"
  by (induction xs arbitrary: p) auto

lemma list_rep_frame: "list_rep l h L xs \<Longrightarrow> \<forall>x\<in>set xs. h' x = h x \<Longrightarrow> list_rep l h' L xs"
  unfolding list_rep_def using dll_cong [of xs h' h] by metis

text \<open>Only the last link of a segment depends on what follows it, only the first on what precedes it.\<close>

lemma dll_relink_next:
  assumes "dll h l p xs q" "distinct xs" "xs \<noteq> []"
  shows "dll (h(List.last xs \<mapsto> (the (h (List.last xs)))\<lparr>next_node := q'\<rparr>)) l p xs q'"
  using assms
proof (induction xs arbitrary: p)
  case Nil
  then show ?case by simp
next
  case (Cons x xs)
  show ?case
  proof (cases "xs = []")
    case True
    then show ?thesis using Cons.prems by simp
  next
    case False
    then have "x \<noteq> List.last xs" using Cons.prems(2) by (metis distinct.simps(2) last_in_set)
    moreover have "first_of xs q = first_of xs q'" using False by (cases xs) auto
    ultimately show ?thesis using Cons False by simp
  qed
qed

lemma dll_relink_prev:
  assumes "dll h l p (x # xs) q" "x \<notin> set xs"
  shows "dll (h(x \<mapsto> (the (h x))\<lparr>prev_node := p'\<rparr>)) l p' (x # xs) q"
  using assms by (simp add: dll_other)


lemma unlink_ok:
  assumes d: "dll h l None (xs @ e # ys) None" and u: "distinct (xs @ e # ys)"
  shows "\<exists>h'. unlink l h e = Some h' \<and> dll h' l None (xs @ ys) None \<and> loose h' e
           \<and> (\<forall>x. x \<notin> set (xs @ e # ys) \<longrightarrow> h' x = h x)"
proof (cases xs rule: rev_cases)
  case Nil
  then show ?thesis using d u
    by (cases ys) (auto simp: unlink_def mod_if_def mod_node_def loose_def InListNode_new_def dll_other)
next
  case (snoc as a)
  then show ?thesis using d u
    by (cases ys) (auto simp: unlink_def mod_if_def mod_node_def loose_def InListNode_new_def dll_other)
qed

lemma linkPrev_ok:
  assumes d: "dll h l None (xs @ p # ys) None" and u: "distinct (xs @ p # ys)" and e: "loose h e" "e \<notin> set (xs @ p # ys)"
  shows "\<exists>h'. linkPrev l h e p = Some h' \<and> dll h' l None (xs @ p # e # ys) None
           \<and> (\<forall>x. x \<notin> set (xs @ p # e # ys) \<longrightarrow> h' x = h x)"
  using assms
  by (cases ys) (auto simp: linkPrev_def mod_if_def mod_node_def loose_def InListNode_new_def dll_other)

lemma list_rep_in: "list_rep l h L xs \<Longrightarrow> x \<in> set xs \<Longrightarrow> \<exists>n. h x = Some n \<and> owner n = Some l"
  unfolding list_rep_def by (auto dest!: split_list)

lemma list_rep_loose: "list_rep l h L xs \<Longrightarrow> loose h e \<Longrightarrow> e \<notin> set xs"
  using list_rep_in [of l h L xs e] by (auto simp: loose_def InListNode_new_def)

section \<open>The operations on the represented list\<close>

lemma list_rep_new: "list_rep l h InList_new []"
  by (simp add: list_rep_def InList_new_def)

lemma list_empty_rep: "list_rep l h L xs \<Longrightarrow> list_empty L \<longleftrightarrow> xs = []"
  by (cases xs) (auto simp: list_rep_def list_empty_def)

lemma head_rep: "list_rep l h L xs \<Longrightarrow> head L = (if xs = [] then None else Some (hd xs))"
  by (cases xs) (auto simp: list_rep_def)

lemma tail_rep: "list_rep l h L xs \<Longrightarrow> tail L = (if xs = [] then None else Some (List.last xs))"
  by (auto simp: list_rep_def last_of_def)

lemma push_front_ok:
  assumes "list_rep l h L xs" "loose h e"
  shows "\<exists>h' L'. push_front l h L e = Some (h', L') \<and> list_rep l h' L' (e # xs)
           \<and> (\<forall>x. x \<notin> set (e # xs) \<longrightarrow> h' x = h x)"
proof -
  have "e \<notin> set xs" by (rule list_rep_loose [OF assms])
  then show ?thesis using assms
    by (cases xs) (auto simp: push_front_def list_rep_def mod_node_def loose_def InListNode_new_def dll_other)
qed

lemma push_back_ok:
  assumes "list_rep l h L xs" "loose h e"
  shows "\<exists>h' L'. push_back l h L e = Some (h', L') \<and> list_rep l h' L' (xs @ [e])
           \<and> (\<forall>x. x \<notin> set (e # xs) \<longrightarrow> h' x = h x)"
proof (cases xs rule: rev_cases)
  case Nil
  then show ?thesis using assms
    by (auto simp: push_back_def list_rep_def mod_node_def loose_def InListNode_new_def list_empty_def)
next
  case (snoc as a)
  have n: "e \<notin> set xs" by (rule list_rep_loose [OF assms])
  from linkPrev_ok [of h l as a "[]" e] assms n snoc
  obtain h' where "linkPrev l h e a = Some h'" "dll h' l None (xs @ [e]) None" "\<forall>x. x \<notin> set (e # xs) \<longrightarrow> h' x = h x"
    by (auto simp: list_rep_def)
  moreover have "\<not> list_empty L" using assms(1) snoc by (simp add: list_empty_rep)
  ultimately show ?thesis using assms n snoc
    by (auto simp: push_back_def list_rep_def loose_def InListNode_new_def)
qed

lemma list_remove_ok:
  assumes "list_rep l h L (xs @ e # ys)"
  shows "\<exists>h' L'. list_remove l h L e = Some (h', L') \<and> list_rep l h' L' (xs @ ys) \<and> loose h' e
           \<and> (\<forall>x. x \<notin> set (xs @ e # ys) \<longrightarrow> h' x = h x)"
proof -
  from unlink_ok [of h l xs e ys] assms
  obtain h' where h': "unlink l h e = Some h'" "dll h' l None (xs @ ys) None" "loose h' e"
      "\<forall>x. x \<notin> set (xs @ e # ys) \<longrightarrow> h' x = h x"
    unfolding list_rep_def by blast
  have d: "distinct (xs @ e # ys)" and h: "head L = first_of (xs @ e # ys) None" and t: "tail L = last_of None (xs @ e # ys)"
    and n: "h e = Some \<lparr>next_node = first_of ys None, prev_node = last_of None xs, owner = Some l\<rparr>"
    and el: "elems L = of_nat (length (xs @ e # ys))"
    using assms by (auto simp: list_rep_def)
  have h1: "(if head L = Some e then first_of ys None else head L) = first_of (xs @ ys) None"
    using h d by (cases xs) auto
  have t1: "(if tail L = Some e then last_of None xs else tail L) = last_of None (xs @ ys)"
    using t d by (cases ys rule: rev_cases) auto
  show ?thesis using h' d h1 t1 n el
    by (auto simp: list_remove_def list_rep_def split: if_splits)
qed


lemma list_rep_cases: "list_rep l h L xs \<Longrightarrow> e \<in> set xs \<Longrightarrow> \<exists>as bs. xs = as @ e # bs \<and> e \<notin> set as \<and> e \<notin> set bs"
  unfolding list_rep_def by (metis distinct.simps(2) distinct_append not_distinct_conv_prefix split_list_first)

lemma pop_front_ok:
  assumes "list_rep l h L (e # xs)"
  shows "\<exists>h' L'. pop_front l h L = Some (h', L') \<and> list_rep l h' L' xs \<and> loose h' e
           \<and> (\<forall>x. x \<notin> set (e # xs) \<longrightarrow> h' x = h x)"
proof -
  from unlink_ok [of h l "[]" e xs] assms
  obtain h' where h': "unlink l h e = Some h'" "dll h' l None xs None" "loose h' e"
      "\<forall>x. x \<notin> set (e # xs) \<longrightarrow> h' x = h x"
    unfolding list_rep_def by auto
  then show ?thesis using assms
    by (cases xs) (auto simp: pop_front_def list_rep_def)
qed

lemma pop_front_empty: "list_rep l h L [] \<Longrightarrow> pop_front l h L = Some (h, L)"
  by (simp add: pop_front_def list_rep_def)

lemma pop_back_ok:
  assumes "list_rep l h L (xs @ [e])"
  shows "\<exists>h' L'. pop_back l h L = Some (h', L') \<and> list_rep l h' L' xs \<and> loose h' e
           \<and> (\<forall>x. x \<notin> set (xs @ [e]) \<longrightarrow> h' x = h x)"
proof -
  from unlink_ok [of h l xs e "[]"] assms
  obtain h' where h': "unlink l h e = Some h'" "dll h' l None xs None" "loose h' e"
      "\<forall>x. x \<notin> set (xs @ [e]) \<longrightarrow> h' x = h x"
    unfolding list_rep_def by auto
  moreover have "\<not> list_empty L" using assms by (simp add: list_empty_rep)
  ultimately show ?thesis using assms
    by (cases xs rule: rev_cases) (auto simp: pop_back_def list_rep_def)
qed

lemma pop_back_empty: "list_rep l h L [] \<Longrightarrow> pop_back l h L = Some (h, L)"
  by (simp add: pop_back_def list_rep_def list_empty_def)

lemma insertAfter_ok:
  assumes "list_rep l h L (xs @ p # ys)" "loose h e"
  shows "\<exists>h' L'. insertAfter l h L p e = Some (h', L') \<and> list_rep l h' L' (xs @ p # e # ys)
           \<and> (\<forall>x. x \<notin> set (xs @ p # e # ys) \<longrightarrow> h' x = h x)"
proof -
  have n: "e \<notin> set (xs @ p # ys)" by (rule list_rep_loose [OF assms])
  from linkPrev_ok [of h l xs p ys e] assms n
  obtain h' where h': "linkPrev l h e p = Some h'" "dll h' l None (xs @ p # e # ys) None"
      "\<forall>x. x \<notin> set (xs @ p # e # ys) \<longrightarrow> h' x = h x"
    unfolding list_rep_def by blast
  have d: "distinct (xs @ p # ys)" and h: "head L = first_of (xs @ p # ys) None" and t: "tail L = last_of None (xs @ p # ys)"
    and el: "elems L = of_nat (length (xs @ p # ys))" and o: "\<exists>m. h p = Some m \<and> owner m = Some l"
    using assms list_rep_in [OF assms(1), of p] by (auto simp: list_rep_def)
  have t1: "(if tail L = Some p then Some e else tail L) = last_of None (xs @ p # e # ys)"
    using t d by (cases ys rule: rev_cases) auto
  define L1 where "L1 = (if tail L = Some p then L\<lparr>tail := Some e\<rparr> else L)"
  have run: "insertAfter l h L p e = Some (h', L1\<lparr>elems := elems L1 + 1\<rparr>)"
    using h'(1) o assms(2) by (auto simp: insertAfter_def L1_def loose_def InListNode_new_def)
  have "tail L1 = last_of None (xs @ p # e # ys)" "head L1 = head L" "elems L1 = elems L"
    using t1 by (simp_all add: L1_def split: if_splits)
  then have "list_rep l h' (L1\<lparr>elems := elems L1 + 1\<rparr>) (xs @ p # e # ys)"
    using h' d h el n by (auto simp: list_rep_def)
  with run h' show ?thesis by blast
qed

section \<open>A list as an abstract sequence\<close>

datatype 'p list_op = PushFront 'p | PushBack 'p | PopFront | PopBack | Remove 'p | InsertAfter 'p 'p

fun list_exec :: "'l \<Rightarrow> ('p, 'l) links \<times> 'p InList \<Rightarrow> 'p list_op \<Rightarrow> (('p, 'l) links \<times> 'p InList) option" where
  "list_exec l (h, L) (PushFront e) = push_front l h L e"
| "list_exec l (h, L) (PushBack e) = push_back l h L e"
| "list_exec l (h, L) PopFront = pop_front l h L"
| "list_exec l (h, L) PopBack = pop_back l h L"
| "list_exec l (h, L) (Remove e) = list_remove l h L e"
| "list_exec l (h, L) (InsertAfter p e) = insertAfter l h L p e"

fun insert_after :: "'p \<Rightarrow> 'p \<Rightarrow> 'p list \<Rightarrow> 'p list" where
  "insert_after p e [] = []"
| "insert_after p e (x # xs) = (if x = p then x # e # xs else x # insert_after p e xs)"

fun seq_exec :: "'p list \<Rightarrow> 'p list_op \<Rightarrow> 'p list" where
  "seq_exec xs (PushFront e) = e # xs"
| "seq_exec xs (PushBack e) = xs @ [e]"
| "seq_exec xs PopFront = tl xs"
| "seq_exec xs PopBack = butlast xs"
| "seq_exec xs (Remove e) = remove1 e xs"
| "seq_exec xs (InsertAfter p e) = insert_after p e xs"

fun op_legal :: "'p set \<Rightarrow> 'p list \<Rightarrow> 'p list_op \<Rightarrow> bool" where
  "op_legal U xs (PushFront e) = (e \<in> U \<and> e \<notin> set xs)"
| "op_legal U xs (PushBack e) = (e \<in> U \<and> e \<notin> set xs)"
| "op_legal U xs PopFront = True"
| "op_legal U xs PopBack = True"
| "op_legal U xs (Remove e) = (e \<in> set xs)"
| "op_legal U xs (InsertAfter p e) = (p \<in> set xs \<and> e \<in> U \<and> e \<notin> set xs)"

fun ops_legal :: "'p set \<Rightarrow> 'p list \<Rightarrow> 'p list_op list \<Rightarrow> bool" where
  "ops_legal U xs [] = True"
| "ops_legal U xs (a # as) = (op_legal U xs a \<and> ops_legal U (seq_exec xs a) as)"

definition list_sim :: "'p set \<Rightarrow> 'l \<Rightarrow> ('p, 'l) links \<times> 'p InList \<Rightarrow> 'p list \<Rightarrow> bool" where
  "list_sim U l s xs \<longleftrightarrow> list_rep l (fst s) (snd s) xs \<and> set xs \<subseteq> U \<and> (\<forall>x\<in>U - set xs. loose (fst s) x)"

lemma insert_after_split: "p \<notin> set as \<Longrightarrow> insert_after p e (as @ p # bs) = as @ p # e # bs"
  by (induction as) auto

lemma list_sim_step:
  assumes s: "list_sim U l s xs" and a: "op_legal U xs a"
  shows "\<exists>s'. list_exec l s a = Some s' \<and> list_sim U l s' (seq_exec xs a)"
proof -
  obtain h L where s': "s = (h, L)" by (cases s)
  have r: "list_rep l h L xs" and U: "set xs \<subseteq> U" and lo: "\<And>x. x \<in> U \<Longrightarrow> x \<notin> set xs \<Longrightarrow> loose h x"
    and d: "distinct xs"
    using s by (auto simp: list_sim_def s' list_rep_def)
  show ?thesis
  proof (cases a)
    case (PushFront e)
    then show ?thesis using push_front_ok [OF r, of e] a U lo by (fastforce simp: s' list_sim_def loose_def)
  next
    case (PushBack e)
    then show ?thesis using push_back_ok [OF r, of e] a U lo by (fastforce simp: s' list_sim_def loose_def)
  next
    case PopFront
    show ?thesis
    proof (cases xs)
      case Nil
      then show ?thesis using PopFront r U lo by (auto simp: s' pop_front_empty list_sim_def)
    next
      case (Cons e ys)
      then show ?thesis using PopFront pop_front_ok [of l h L e ys] r U lo d
        by (fastforce simp: s' list_sim_def loose_def)
    qed
  next
    case PopBack
    show ?thesis
    proof (cases xs rule: rev_cases)
      case Nil
      then show ?thesis using PopBack r U lo by (auto simp: s' pop_back_empty list_sim_def)
    next
      case (snoc ys e)
      then show ?thesis using PopBack pop_back_ok [of l h L ys e] r U lo d
        by (fastforce simp: s' list_sim_def loose_def)
    qed
  next
    case (Remove e)
    then obtain as bs where x: "xs = as @ e # bs" "e \<notin> set as" "e \<notin> set bs" using a list_rep_cases [OF r, of e] by auto
    then have "remove1 e xs = as @ bs" by (simp add: remove1_append)
    then show ?thesis using Remove list_remove_ok [of l h L as e bs] r U lo x
      by (fastforce simp: s' list_sim_def loose_def)
  next
    case (InsertAfter p e)
    then obtain as bs where x: "xs = as @ p # bs" "p \<notin> set as" "p \<notin> set bs" using a list_rep_cases [OF r, of p] by auto
    then have "insert_after p e xs = as @ p # e # bs" by (simp add: insert_after_split)
    then show ?thesis using InsertAfter insertAfter_ok [of l h L as p bs e] r U lo x a
      by (fastforce simp: s' list_sim_def loose_def)
  qed
qed

lemma list_sim_run:
  "list_sim U l s xs \<Longrightarrow> ops_legal U xs ops \<Longrightarrow>
     \<exists>s'. run_all (list_exec l) s ops = Some s' \<and> list_sim U l s' (foldl seq_exec xs ops)"
proof (induction ops arbitrary: s xs)
  case Nil
  then show ?case by simp
next
  case (Cons a ops)
  then obtain s1 where "list_exec l s a = Some s1" "list_sim U l s1 (seq_exec xs a)"
    using list_sim_step [of U l s xs a] by auto
  then show ?case using Cons by auto
qed


section \<open>The interface of the clients\<close>

text \<open>
  What the clients that keep elements in order of use rely on: \<open>rep l h L xs\<close> reads the list \<open>L\<close> at address \<open>l\<close> in
  the store \<open>h\<close>.  Operations on one list leave the other lists of the store alone.
\<close>

locale recency_lists =
  fixes rep :: "'l \<Rightarrow> 'h \<Rightarrow> 'L \<Rightarrow> 'p list \<Rightarrow> bool"
    and idle :: "'h \<Rightarrow> 'p \<Rightarrow> bool"
    and remove :: "'l \<Rightarrow> 'h \<Rightarrow> 'L \<Rightarrow> 'p \<Rightarrow> ('h \<times> 'L) option"
    and push :: "'l \<Rightarrow> 'h \<Rightarrow> 'L \<Rightarrow> 'p \<Rightarrow> ('h \<times> 'L) option"
  assumes remove: "\<And>l h L xs e. rep l h L xs \<Longrightarrow> e \<in> set xs \<Longrightarrow>
      \<exists>h' L'. remove l h L e = Some (h', L') \<and> rep l h' L' (remove1 e xs) \<and> idle h' e
        \<and> (\<forall>k M ys. rep k h M ys \<longrightarrow> set ys \<inter> set xs = {} \<longrightarrow> rep k h' M ys)"
    and push: "\<And>l h L xs e. rep l h L xs \<Longrightarrow> idle h e \<Longrightarrow>
      \<exists>h' L'. push l h L e = Some (h', L') \<and> rep l h' L' (e # xs)
        \<and> (\<forall>k M ys. rep k h M ys \<longrightarrow> set ys \<inter> set (e # xs) = {} \<longrightarrow> rep k h' M ys)"
begin

lemma move_front:
  assumes "rep l h L xs" "e \<in> set xs"
  shows "\<exists>h1 L1 h2 L2. remove l h L e = Some (h1, L1) \<and> push l h1 L1 e = Some (h2, L2) \<and> rep l h2 L2 (e # remove1 e xs)
           \<and> (\<forall>k M ys. rep k h M ys \<longrightarrow> set ys \<inter> set xs = {} \<longrightarrow> rep k h2 M ys)"
proof -
  from remove [OF assms] obtain h1 L1 where 1: "remove l h L e = Some (h1, L1)" "rep l h1 L1 (remove1 e xs)" "idle h1 e"
    "\<forall>k M ys. rep k h M ys \<longrightarrow> set ys \<inter> set xs = {} \<longrightarrow> rep k h1 M ys" by blast
  from push [OF 1(2,3)] obtain h2 L2 where 2: "push l h1 L1 e = Some (h2, L2)" "rep l h2 L2 (e # remove1 e xs)"
    "\<forall>k M ys. rep k h1 M ys \<longrightarrow> set ys \<inter> set (e # remove1 e xs) = {} \<longrightarrow> rep k h2 M ys" by blast
  have "set (e # remove1 e xs) \<subseteq> set xs" using assms(2) set_remove1_subset [of e xs] by auto
  then show ?thesis using 1 2 by blast
qed

lemma move_list:
  assumes "rep l h L xs" "e \<in> set xs" "rep k h M ys" "set ys \<inter> set xs = {}"
  shows "\<exists>h1 L1 h2 M2. remove l h L e = Some (h1, L1) \<and> push k h1 M e = Some (h2, M2) \<and> rep k h2 M2 (e # ys)
           \<and> (distinct xs \<longrightarrow> rep l h2 L1 (remove1 e xs))
           \<and> (\<forall>i N zs. rep i h N zs \<longrightarrow> set zs \<inter> (set xs \<union> set ys) = {} \<longrightarrow> rep i h2 N zs)"
proof -
  from remove [OF assms(1,2)] obtain h1 L1 where 1: "remove l h L e = Some (h1, L1)" "rep l h1 L1 (remove1 e xs)" "idle h1 e"
    "\<forall>k M ys. rep k h M ys \<longrightarrow> set ys \<inter> set xs = {} \<longrightarrow> rep k h1 M ys" by blast
  from 1(4) assms(3,4) have "rep k h1 M ys" by blast
  from push [OF this 1(3)] obtain h2 M2 where 2: "push k h1 M e = Some (h2, M2)" "rep k h2 M2 (e # ys)"
    "\<forall>i N zs. rep i h1 N zs \<longrightarrow> set zs \<inter> set (e # ys) = {} \<longrightarrow> rep i h2 N zs" by blast
  have "set (remove1 e xs) \<inter> set (e # ys) = {}" if "distinct xs"
    using that assms(4) set_remove1_subset [of e xs] by auto
  moreover have "rep i h2 N zs" if "rep i h N zs" "set zs \<inter> (set xs \<union> set ys) = {}" for i N zs
  proof -
    have "set zs \<inter> set xs = {}" "set zs \<inter> set (e # ys) = {}" using that(2) assms(2) by auto
    then show ?thesis using 1(4) 2(3) that(1) by blast
  qed
  ultimately show ?thesis using 1(1,2) 2 by blast
qed

end

lemma list_rep_remove1:
  assumes "list_rep l h L xs" "e \<in> set xs"
  shows "\<exists>h' L'. list_remove l h L e = Some (h', L') \<and> list_rep l h' L' (remove1 e xs) \<and> loose h' e
           \<and> (\<forall>x. x \<notin> set xs \<longrightarrow> h' x = h x)"
proof -
  from list_rep_cases [OF assms] obtain as bs where "xs = as @ e # bs" "e \<notin> set as" by blast
  then show ?thesis using list_remove_ok [of l h L as e bs] assms(1) by (simp add: remove1_append)
qed

interpretation inlist: recency_lists list_rep loose list_remove push_front
proof unfold_locales
  fix l :: 'a and h :: "('b, 'a) links" and L xs e
  assume "list_rep l h L xs" "e \<in> set xs"
  then show "\<exists>h' L'. list_remove l h L e = Some (h', L') \<and> list_rep l h' L' (remove1 e xs) \<and> loose h' e
        \<and> (\<forall>k M ys. list_rep k h M ys \<longrightarrow> set ys \<inter> set xs = {} \<longrightarrow> list_rep k h' M ys)"
    using list_rep_remove1 [of l h L xs e] by (metis disjoint_iff list_rep_frame)
next
  fix l :: 'a and h :: "('b, 'a) links" and L xs e
  assume "list_rep l h L xs" "loose h e"
  then show "\<exists>h' L'. push_front l h L e = Some (h', L') \<and> list_rep l h' L' (e # xs)
        \<and> (\<forall>k M ys. list_rep k h M ys \<longrightarrow> set ys \<inter> set (e # xs) = {} \<longrightarrow> list_rep k h' M ys)"
    using push_front_ok [of l h L xs e] by (metis disjoint_iff list_rep_frame)
qed

text \<open>
  Claim C32. The intrusive list refines a sequence: from a store whose elements \<open>U\<close> are in no list, any run of pushes,
  pops, removals and insertions in which only loose elements are added and only members are removed or inserted after
  trips no assertion, and leaves the linked list that holds the sequence the abstract operations compute, with its
  first and last element at the head and the tail and its length (modulo \<open>2^64\<close>) in the counter, and the other elements
  of \<open>U\<close> loose.
\<close>

theorem intrusive_list_refines:
  assumes "\<forall>x\<in>U. loose h x" and "ops_legal U [] ops" and "xs = foldl seq_exec [] ops"
  shows "\<exists>h' L'. run_all (list_exec l) (h, InList_new) ops = Some (h', L')
           \<and> dll h' l None xs None
           \<and> head L' = (if xs = [] then None else Some (hd xs)) \<and> tail L' = (if xs = [] then None else Some (List.last xs))
           \<and> elems L' = of_nat (length xs) \<and> distinct xs \<and> (\<forall>x\<in>U - set xs. loose h' x)"
proof -
  have "list_sim U l (h, InList_new) []" using assms(1) by (simp add: list_sim_def list_rep_new)
  from list_sim_run [OF this assms(2)] obtain h' L' where
    s: "run_all (list_exec l) (h, InList_new) ops = Some (h', L')" "list_sim U l (h', L') xs"
    using assms(3) by auto
  then have r: "list_rep l h' L' xs" by (simp add: list_sim_def)
  then show ?thesis using s head_rep [OF r] tail_rep [OF r]
    by (auto simp: list_sim_def list_rep_def)
qed

theorem intrusive_list_refines_witness:
  "\<exists>h' L'. run_all (list_exec (0 :: nat)) ((\<lambda>_. Some InListNode_new), InList_new)
       [PushFront (1 :: nat), PushBack 2, InsertAfter 1 3, PopFront, Remove 2, PushFront 4] = Some (h', L')
     \<and> dll h' 0 None [4, 3] None \<and> head L' = Some 4 \<and> tail L' = Some 3 \<and> elems L' = 2 \<and> loose h' 1"
proof -
  let ?ops = "[PushFront 1, PushBack 2, InsertAfter 1 3, PopFront, Remove 2, PushFront (4 :: nat)]"
  have "\<forall>x\<in>{1, 2, 3, 4}. loose (\<lambda>_ :: nat. Some InListNode_new) x" "ops_legal {1, 2, 3, 4} [] ?ops" "[4, 3] = foldl seq_exec [] ?ops"
    by (simp_all add: loose_def)
  from intrusive_list_refines [OF this, where l = "0 :: nat"] show ?thesis
    by (auto simp del: run_all.simps)
qed

end
