(* ===== verification/LruStack.thy ===== *)
theory LruStack
  imports Prelude
begin

text \<open>
  The recency stack of a reference string, the reference model of true LRU replacement: which references hit in a fully
  associative memory of \<open>n\<close> lines.  Theories \<open>IdealArrays\<close> and \<open>UMon\<close> relate the code to it.  Address 0 marks an
  empty line in both.
\<close>

text \<open>The distinct addresses of a reference string, the one used last first.\<close>

definition stack_push :: "u64 list \<Rightarrow> u64 \<Rightarrow> u64 list" where
  "stack_push s x = x # removeAll x s"

definition lru_stack :: "u64 list \<Rightarrow> u64 list" where
  "lru_stack xs = foldl stack_push [] xs"

text \<open>Which references hit in a fully associative memory of \<open>n\<close> lines, by stack distance.\<close>

fun stack_hits :: "nat \<Rightarrow> u64 list \<Rightarrow> u64 list \<Rightarrow> bool list" where
  "stack_hits n s [] = []"
| "stack_hits n s (x # xs) = (x \<in> set (take n s)) # stack_hits n (stack_push s x) xs"

lemma take_remove1: "take m (remove1 x t) = (if x \<in> set (take (Suc m) t) then remove1 x (take (Suc m) t) else take m t)"
proof (induction t arbitrary: m)
  case Nil
  then show ?case by simp
next
  case (Cons y t)
  then show ?case by (cases m) auto
qed

lemma stack_take:
  assumes "distinct s" "0 \<notin> set s" "x \<noteq> 0" "0 < n"
  shows "take n (stack_push s x @ replicate n 0) = x # (if x \<in> set (take n (s @ replicate n 0))
           then remove1 x (take n (s @ replicate n 0)) else take (n - 1) (s @ replicate n 0))"
proof -
  obtain m where n: "n = Suc m" using assms(4) by (cases n) auto
  have "removeAll x s @ replicate n 0 = remove1 x (s @ replicate n 0)"
    using assms by (simp add: distinct_remove1_removeAll [symmetric] remove1_append remove1_idem)
  then have "take n (stack_push s x @ replicate n 0) = x # take m (remove1 x (s @ replicate n 0))"
    by (simp add: stack_push_def n)
  then show ?thesis by (simp add: take_remove1 n)
qed

lemma stack_push_ok: "distinct s \<Longrightarrow> 0 \<notin> set s \<Longrightarrow> x \<noteq> 0 \<Longrightarrow> distinct (stack_push s x) \<and> 0 \<notin> set (stack_push s x)"
  by (simp add: stack_push_def distinct_removeAll)

lemma stack_top: "0 < n \<Longrightarrow> x \<noteq> 0 \<Longrightarrow> x \<in> set (take n (s @ replicate n 0)) \<longleftrightarrow> x \<in> set (take n s)"
  by (auto dest: in_set_takeD)


text \<open>The references that miss in \<open>n\<close> lines.\<close>

definition stack_misses :: "nat \<Rightarrow> u64 list \<Rightarrow> nat" where
  "stack_misses n xs = length (filter Not (stack_hits n [] xs))"

lemma stack_hits_snoc: "stack_hits n s (xs @ [x]) = stack_hits n s xs @ [x \<in> set (take n (foldl stack_push s xs))]"
  by (induction xs arbitrary: s) auto

lemma stack_misses_snoc:
  "stack_misses n (xs @ [x]) = stack_misses n xs + (if x \<in> set (take n (lru_stack xs)) then 0 else 1)"
  by (simp add: stack_misses_def stack_hits_snoc lru_stack_def)

lemma stack_misses_Nil [simp]: "stack_misses n [] = 0"
  by (simp add: stack_misses_def)

lemma lru_stack_snoc: "lru_stack (xs @ [x]) = stack_push (lru_stack xs) x"
  by (simp add: lru_stack_def)

lemma lru_stack_ok: "0 \<notin> set xs \<Longrightarrow> distinct (lru_stack xs) \<and> 0 \<notin> set (lru_stack xs)"
proof (induction xs rule: rev_induct)
  case Nil
  then show ?case by (simp add: lru_stack_def)
next
  case (snoc x xs)
  then show ?case using stack_push_ok [of "lru_stack xs" x] by (simp add: lru_stack_snoc)
qed

end
