(* ===== verification/IdealArrays.thy ===== *)
theory IdealArrays
  imports CacheArrays IntrusiveList LruStack
begin

text \<open>
  The fully associative cache array with true LRU replacement (\<open>IdealLRUArray\<close> of \<open>src/src/ideal_arrays.h\<close>).  Its
  entries are threaded through an intrusive list, most recently used first; entry \<open>i\<close> is element \<open>i\<close> of the store of
  links and its \<open>lineId\<close> is \<open>i\<close>.  The proxy replacement policy, whose operations only panic, is not modelled.
\<close>

section \<open>The array\<close>

record IdealLRUArray =
  ia_addrs :: "u64 list"
  ia_links :: "(nat, unit) links"
  lruList :: "nat InList"
  lineMap :: "u64 \<Rightarrow> u32 option"
  ia_numLines :: u32

text \<open>The loop of the constructor: entry \<open>i\<close> is built in the zeroed array and pushed to the list.\<close>

definition ia_newEntry :: "(nat, unit) links \<times> nat InList \<Rightarrow> nat \<Rightarrow> ((nat, unit) links \<times> nat InList) option" where
  "ia_newEntry s i = push_front () ((fst s)(i \<mapsto> InListNode_new)) (snd s) i"

definition IdealLRUArray_new :: "u32 \<Rightarrow> IdealLRUArray option" where
  "IdealLRUArray_new numLines = do {
     (h, L) \<leftarrow> run_all ia_newEntry (Map.empty, InList_new) [0..<unat numLines];
     Some \<lparr>ia_addrs = replicate (unat numLines) 0, ia_links = h, lruList = L, lineMap = Map.empty, ia_numLines = numLines\<rparr>
   }"

text \<open>\<open>lruList.remove(e)\<close> followed by \<open>lruList.push_front(e)\<close>.\<close>

definition ia_touch :: "IdealLRUArray \<Rightarrow> nat \<Rightarrow> IdealLRUArray option" where
  "ia_touch a e = do {
     (h1, L1) \<leftarrow> list_remove () (ia_links a) (lruList a) e;
     (h2, L2) \<leftarrow> push_front () h1 L1 e;
     Some (a\<lparr>ia_links := h2, lruList := L2\<rparr>)
   }"

definition ia_lookup :: "IdealLRUArray \<Rightarrow> u64 \<Rightarrow> MemReq option \<Rightarrow> bool \<Rightarrow> (IdealLRUArray \<times> int) option" where
  "ia_lookup a addr req updateReplacement = (case lineMap a addr of
       None \<Rightarrow> Some (a, -1)
     | Some lineId \<Rightarrow>
         if updateReplacement then do { a' \<leftarrow> ia_touch a (unat lineId); Some (a', sint lineId) }
         else Some (a, sint lineId))"

definition ia_preinsert :: "IdealLRUArray \<Rightarrow> u64 \<Rightarrow> MemReq option \<Rightarrow> (IdealLRUArray \<times> nat \<times> u64) option" where
  "ia_preinsert a addr req = do {
     e \<leftarrow> tail (lruList a);
     wb \<leftarrow> aget (ia_addrs a) e;
     Some (a, e, wb)
   }"

definition ia_postinsert :: "IdealLRUArray \<Rightarrow> u64 \<Rightarrow> MemReq option \<Rightarrow> nat \<Rightarrow> IdealLRUArray option" where
  "ia_postinsert a addr req lineId = do {
     old \<leftarrow> aget (ia_addrs a) lineId;
     let m = (lineMap a)(old := None);
     _ \<leftarrow> require (m addr = None);
     arr \<leftarrow> aset (ia_addrs a) lineId addr;
     ia_touch (a\<lparr>ia_addrs := arr, lineMap := m(addr \<mapsto> of_nat lineId)\<rparr>) lineId
   }"

text \<open>The accesses of a cache to its array, as in \<open>Cache::access\<close>: a lookup and, on a miss, an insertion.\<close>

definition ia_access :: "IdealLRUArray \<Rightarrow> u64 \<Rightarrow> (IdealLRUArray \<times> bool) option" where
  "ia_access a addr = do {
     (a1, lineId) \<leftarrow> ia_lookup a addr None True;
     (if lineId = -1 then do {
        (a2, c, wb) \<leftarrow> ia_preinsert a1 addr None;
        a3 \<leftarrow> ia_postinsert a2 addr None c;
        Some (a3, False)
      } else Some (a1, True))
   }"

fun ia_run :: "IdealLRUArray \<Rightarrow> u64 list \<Rightarrow> (IdealLRUArray \<times> bool list) option" where
  "ia_run a [] = Some (a, [])"
| "ia_run a (x # xs) = do { (a1, h) \<leftarrow> ia_access a x; (a2, hs) \<leftarrow> ia_run a1 xs; Some (a2, h # hs) }"

lemma small_nat [simp]: "i < 2147483648 \<Longrightarrow> unat (word_of_nat i :: u32) = i"
  by (simp add: unat_of_nat take_bit_nat_eq_self_iff)

section \<open>The invariant\<close>

text \<open>\<open>us\<close> are the entries in order of use.  Only addresses other than 0 are tracked: empty entries hold 0.\<close>

definition ia_ord :: "nat \<Rightarrow> IdealLRUArray \<Rightarrow> nat list \<Rightarrow> bool" where
  "ia_ord n a us \<longleftrightarrow> n < 2 ^ 31 \<and> 0 < n \<and> length (ia_addrs a) = n
     \<and> list_rep () (ia_links a) (lruList a) us \<and> set us = {0..<n}
     \<and> (\<forall>x i. x \<noteq> 0 \<longrightarrow> lineMap a x = Some i \<longrightarrow> unat i < n \<and> ia_addrs a ! unat i = x)
     \<and> (\<forall>i < n. ia_addrs a ! i \<noteq> 0 \<longrightarrow> lineMap a (ia_addrs a ! i) = Some (of_nat i))"

definition ia_ok :: "nat \<Rightarrow> IdealLRUArray \<Rightarrow> bool" where
  "ia_ok n a \<longleftrightarrow> (\<exists>us. ia_ord n a us)"

lemma ia_new_ok:
  assumes "0 < n" "n < 2 ^ 31"
  shows "\<exists>a. IdealLRUArray_new (of_nat n) = Some a \<and> ia_ord n a (rev [0..<n]) \<and> ia_addrs a = replicate n 0"
proof -
  have "\<exists>h L. run_all ia_newEntry (Map.empty, InList_new) [0..<k] = Some (h, L) \<and> list_rep () h L (rev [0..<k])" for k
  proof (induction k)
    case 0
    then show ?case by (simp add: list_rep_new)
  next
    case (Suc k)
    then obtain h L where h: "run_all ia_newEntry (Map.empty, InList_new) [0..<k] = Some (h, L)" "list_rep () h L (rev [0..<k])"
      by blast
    have "list_rep () (h(k \<mapsto> InListNode_new)) L (rev [0..<k])" by (rule list_rep_frame [OF h(2)]) auto
    moreover have "loose (h(k \<mapsto> InListNode_new)) k" by (simp add: loose_def)
    ultimately obtain h' L' where p: "push_front () (h(k \<mapsto> InListNode_new)) L k = Some (h', L')" "list_rep () h' L' (k # rev [0..<k])"
      using push_front_ok [of "()" "h(k \<mapsto> InListNode_new)" L "rev [0..<k]" k] by auto
    then have "ia_newEntry (h, L) k = Some (h', L')" by (simp add: ia_newEntry_def)
    then have "run_all ia_newEntry (Map.empty, InList_new) [0..<Suc k] = Some (h', L')" using h(1)
      by (simp only: upt_Suc_append run_all_snoc bind.bind_lunit zero_le)
    then show ?case using \<open>list_rep () h' L' (k # rev [0..<k])\<close> by auto
  qed
  from this [of n] obtain h L where "run_all ia_newEntry (Map.empty, InList_new) [0..<n] = Some (h, L)" "list_rep () h L (rev [0..<n])"
    by blast
  moreover have "unat (of_nat n :: u32) = n" using assms by (simp add: unat_of_nat take_bit_nat_eq_self_iff)
  ultimately show ?thesis using assms by (auto simp: IdealLRUArray_new_def ia_ord_def)
qed

lemma ia_touch_ok:
  assumes "ia_ord n a us" "e < n"
  shows "\<exists>a'. ia_touch a e = Some a' \<and> ia_ord n a' (e # remove1 e us) \<and> ia_addrs a' = ia_addrs a \<and> lineMap a' = lineMap a"
proof -
  have r: "list_rep () (ia_links a) (lruList a) us" and e: "e \<in> set us" and d: "distinct us" using assms
    by (auto simp: ia_ord_def list_rep_def)
  from inlist.move_front [OF r e] obtain h1 L1 h2 L2 where
    m: "list_remove () (ia_links a) (lruList a) e = Some (h1, L1)" "push_front () h1 L1 e = Some (h2, L2)"
       "list_rep () h2 L2 (e # remove1 e us)" by blast
  have "insert e (set (remove1 e us)) = {0..<n}" using e d assms(1) by (auto simp: ia_ord_def)
  then show ?thesis using assms(1) m by (auto simp: ia_touch_def ia_ord_def)
qed


lemma ia_lookup_hit:
  assumes "ia_ord n a us" "e < n" "ia_addrs a ! e \<noteq> 0"
  shows "\<exists>a'. ia_lookup a (ia_addrs a ! e) req upd = Some (a', int e) \<and> ia_addrs a' = ia_addrs a
           \<and> ia_ord n a' (if upd then e # remove1 e us else us)"
proof -
  have n: "n < 2 ^ 31" using assms(1) by (simp add: ia_ord_def)
  then have e: "unat (of_nat e :: u32) = e" using assms(2) by simp
  have "sint (of_nat e :: u32) = int e" using sint_small [of "of_nat e"] e n assms(2) by simp
  moreover have "lineMap a (ia_addrs a ! e) = Some (of_nat e)" using assms by (simp add: ia_ord_def)
  ultimately show ?thesis using ia_touch_ok [OF assms(1,2)] assms(1) e by (auto simp: ia_lookup_def)
qed

lemma ia_lookup_miss:
  assumes "ia_ord n a us" "addr \<noteq> 0" "addr \<notin> set (ia_addrs a)"
  shows "ia_lookup a addr req upd = Some (a, -1)"
proof -
  have "lineMap a addr = None"
  proof (cases "lineMap a addr")
    case (Some i)
    then have "unat i < length (ia_addrs a)" "ia_addrs a ! unat i = addr" using assms(1,2) by (auto simp: ia_ord_def)
    then show ?thesis using assms(3) by (metis nth_mem)
  qed simp
  then show ?thesis by (simp add: ia_lookup_def)
qed

lemma ia_unique:
  assumes "ia_ord n a us" "i < n" "j < n" "ia_addrs a ! i = ia_addrs a ! j" "ia_addrs a ! i \<noteq> 0"
  shows "i = j"
proof -
  have m: "lineMap a (ia_addrs a ! k) = Some (of_nat k)" if "k < n" "ia_addrs a ! k \<noteq> 0" for k
    using assms(1) that by (simp add: ia_ord_def)
  have "(of_nat i :: u32) = of_nat j" using m [OF assms(2,5)] m [OF assms(3)] assms(4,5) by simp
  then have "unat (of_nat i :: u32) = unat (of_nat j :: u32)" by simp
  moreover have "n < 2 ^ 31" using assms(1) by (simp add: ia_ord_def)
  ultimately show ?thesis using assms(2,3) by simp
qed

lemma ia_victim:
  assumes "ia_ord n a us"
  shows "us \<noteq> []" "ia_preinsert a addr req = Some (a, List.last us, ia_addrs a ! List.last us)" "List.last us < n"
proof -
  show u: "us \<noteq> []" using assms by (auto simp: ia_ord_def)
  then show "List.last us < n" using assms last_in_set [OF u] by (auto simp: ia_ord_def)
  then show "ia_preinsert a addr req = Some (a, List.last us, ia_addrs a ! List.last us)"
    using assms u tail_rep [of "()" "ia_links a" "lruList a" us] by (auto simp: ia_preinsert_def ia_ord_def)
qed

lemma ia_postinsert_ok:
  assumes o: "ia_ord n a us" and c: "c < n" and x: "addr \<noteq> 0" "addr \<notin> set (ia_addrs a)"
  shows "\<exists>a'. ia_postinsert a addr req c = Some a' \<and> ia_addrs a' = (ia_addrs a)[c := addr] \<and> ia_ord n a' (c # remove1 c us)"
proof -
  let ?m = "(lineMap a)(ia_addrs a ! c := None)"
  let ?a = "a\<lparr>ia_addrs := (ia_addrs a)[c := addr], lineMap := ?m(addr \<mapsto> of_nat c)\<rparr>"
  have len: "length (ia_addrs a) = n" and n: "n < 2 ^ 31" using o by (auto simp: ia_ord_def)
  have u: "unat (of_nat i :: u32) = i" if "i < n" for i using n that by simp
  have m: "unat i < n \<and> ia_addrs a ! unat i = y" if "lineMap a y = Some i" "y \<noteq> 0" for y i
    using o that by (auto simp: ia_ord_def)
  have none: "lineMap a addr = None"
  proof (cases "lineMap a addr")
    case (Some i)
    then show ?thesis using m [of addr i] x len by (metis nth_mem)
  qed simp
  have "unat i < n \<and> (ia_addrs a)[c := addr] ! unat i = y" if "(?m(addr \<mapsto> of_nat c)) y = Some i" "y \<noteq> 0" for y i
    using that m [of y i] c len u by (auto simp: nth_list_update split: if_splits)
  moreover have "(?m(addr \<mapsto> of_nat c)) ((ia_addrs a)[c := addr] ! i) = Some (of_nat i)"
    if i: "i < n" "(ia_addrs a)[c := addr] ! i \<noteq> 0" for i
  proof (cases "i = c")
    case True
    then show ?thesis using len c by simp
  next
    case False
    then have "ia_addrs a ! i \<noteq> 0" using i by simp
    moreover have "ia_addrs a ! i \<noteq> addr" using x(2) i(1) len by (metis nth_mem)
    moreover have "ia_addrs a ! i \<noteq> ia_addrs a ! c" using ia_unique [OF o i(1) c] calculation(1) False by auto
    ultimately show ?thesis using False o i(1) by (simp add: ia_ord_def)
  qed
  ultimately have "ia_ord n ?a us" using o len unfolding ia_ord_def by simp
  from ia_touch_ok [OF this c] show ?thesis using none len c by (auto simp: ia_postinsert_def)
qed

interpretation ideal: cache_array ia_lookup ia_preinsert ia_postinsert ia_addrs "ia_ok n"
    "\<lambda>a addr c. ia_ok n a \<and> addr \<noteq> 0 \<and> addr \<notin> set (ia_addrs a) \<and> c < n" "\<lambda>_. True"
proof unfold_locales
  fix a i j
  assume a: "ia_ok n a" "i < length (ia_addrs a)" "j < length (ia_addrs a)" "ia_addrs a ! i = ia_addrs a ! j" "ia_addrs a ! i \<noteq> 0"
  then obtain us where "ia_ord n a us" by (auto simp: ia_ok_def)
  then show "i = j" using ia_unique [of n a us i j] a by (simp add: ia_ord_def)
next
  fix a addr upd and req :: "MemReq option"
  assume a: "ia_ok n a" "addr \<in> set (ia_addrs a)" "addr \<noteq> 0"
  then obtain us i where o: "ia_ord n a us" and i: "i < length (ia_addrs a)" "ia_addrs a ! i = addr"
    by (auto simp: ia_ok_def in_set_conv_nth)
  then have "i < n" by (simp add: ia_ord_def)
  from ia_lookup_hit [OF o this, of req upd] i a(3)
  show "\<exists>a' i. ia_lookup a addr req upd = Some (a', int i) \<and> i < length (ia_addrs a) \<and> ia_addrs a ! i = addr
      \<and> ia_ok n a' \<and> ia_addrs a' = ia_addrs a" by (auto simp: ia_ok_def split: if_splits)
next
  fix a addr upd and req :: "MemReq option"
  assume "ia_ok n a" "addr \<noteq> 0" "addr \<notin> set (ia_addrs a)"
  then show "ia_lookup a addr req upd = Some (a, -1)" using ia_lookup_miss by (auto simp: ia_ok_def)
next
  fix a addr and req :: "MemReq option"
  assume a: "ia_ok n a" "addr \<noteq> 0" "addr \<notin> set (ia_addrs a)"
  then obtain us where o: "ia_ord n a us" by (auto simp: ia_ok_def)
  then show "\<exists>a' c. ia_preinsert a addr req = Some (a', c, ia_addrs a ! c) \<and> c < length (ia_addrs a) \<and> ia_addrs a' = ia_addrs a
      \<and> ia_ok n a' \<and> addr \<noteq> 0 \<and> addr \<notin> set (ia_addrs a') \<and> c < n"
    using ia_victim [OF o] a by (auto simp: ia_ord_def)
next
  fix a addr c and req :: "MemReq option"
  assume "ia_ok n a \<and> addr \<noteq> 0 \<and> addr \<notin> set (ia_addrs a) \<and> c < n"
  then show "\<exists>a'. ia_postinsert a addr req c = Some a' \<and> ia_ok n a' \<and> ia_addrs a' = (ia_addrs a)[c := addr]"
    using ia_postinsert_ok by (fastforce simp: ia_ok_def)
qed


section \<open>The array and the recency stack\<close>

definition ia_sim :: "nat \<Rightarrow> IdealLRUArray \<Rightarrow> u64 list \<Rightarrow> bool" where
  "ia_sim n a s \<longleftrightarrow> (\<exists>us. ia_ord n a us \<and> map ((!) (ia_addrs a)) us = take n (s @ replicate n 0) \<and> distinct s \<and> 0 \<notin> set s)"

lemma map_remove1_at: "\<forall>i\<in>set us. f i = f e \<longrightarrow> i = e \<Longrightarrow> map f (remove1 e us) = remove1 (f e) (map f us)"
  by (induction us) auto

lemma ia_access_sim:
  assumes "ia_sim n a s" "x \<noteq> 0"
  shows "\<exists>a'. ia_access a x = Some (a', x \<in> set (take n s)) \<and> ia_sim n a' (stack_push s x)"
proof -
  let ?t = "take n (s @ replicate n 0)"
  from assms(1) obtain us where o: "ia_ord n a us" and m: "map ((!) (ia_addrs a)) us = ?t"
    and s: "distinct s" "0 \<notin> set s" by (auto simp: ia_sim_def)
  have n: "0 < n" and us: "set us = {0..<n}" "distinct us" and len: "length (ia_addrs a) = n"
    using o by (auto simp: ia_ord_def list_rep_def)
  have all: "set (ia_addrs a) = set ?t"
  proof -
    have "set ?t = (!) (ia_addrs a) ` {0..<n}" using m us(1) by (metis list.set_map)
    then show ?thesis using len by (auto simp: set_conv_nth image_iff)
  qed
  note top = stack_top [OF n assms(2), of s] and st = stack_take [OF s assms(2) n] and ok = stack_push_ok [OF s assms(2)]
  show ?thesis
  proof (cases "x \<in> set ?t")
    case True
    then obtain e where e: "e < n" "ia_addrs a ! e = x" using all len by (metis in_set_conv_nth)
    from ia_lookup_hit [OF o e(1), of None True] e assms(2) obtain a' where
      a': "ia_lookup a x None True = Some (a', int e)" "ia_addrs a' = ia_addrs a" "ia_ord n a' (e # remove1 e us)" by auto
    have "\<forall>i\<in>set us. ia_addrs a ! i = ia_addrs a ! e \<longrightarrow> i = e"
      using ia_unique [OF o] us(1) e assms(2) by auto
    then have "map ((!) (ia_addrs a)) (e # remove1 e us) = x # remove1 x ?t"
      using map_remove1_at [of us "(!) (ia_addrs a)" e] e(2) m by simp
    then have "ia_sim n a' (stack_push s x)" using a'(2,3) st True ok unfolding ia_sim_def by auto
    then show ?thesis using a'(1) True top by (auto simp: ia_access_def)
  next
    case False
    then have x: "x \<notin> set (ia_addrs a)" using all by simp
    let ?c = "List.last us"
    note v = ia_victim [OF o]
    from ia_postinsert_ok [OF o v(3) assms(2) x, of None] obtain a' where
      a': "ia_postinsert a x None ?c = Some a'" "ia_addrs a' = (ia_addrs a)[?c := x]" "ia_ord n a' (?c # remove1 ?c us)" by blast
    have bl: "us = butlast us @ [?c]" using v(1) by simp
    then have nc: "?c \<notin> set (butlast us)" using us(2) by (metis distinct_append not_distinct_conv_prefix append_Nil2 distinct_butlast)
    have "remove1 ?c us = butlast us" using bl nc by (metis remove1_append remove1.simps(2) append_Nil2)
    moreover have "map ((!) ((ia_addrs a)[?c := x])) (butlast us) = map ((!) (ia_addrs a)) (butlast us)"
      using nc by (metis (no_types, lifting) map_cong nth_list_update_neq)
    moreover have "map ((!) (ia_addrs a)) (butlast us) = take (n - 1) (s @ replicate n 0)"
      unfolding map_butlast m by (rule butlast_take) simp
    ultimately have "map ((!) (ia_addrs a')) (?c # remove1 ?c us) = x # take (n - 1) (s @ replicate n 0)"
      using a'(2) v(3) len by simp
    then have "ia_sim n a' (stack_push s x)" using a'(3) st False ok unfolding ia_sim_def by metis
    then show ?thesis using ia_lookup_miss [OF o assms(2) x] v(2) a'(1) False top
      by (auto simp: ia_access_def)
  qed
qed

lemma ia_run_sim:
  "ia_sim n a s \<Longrightarrow> 0 \<notin> set xs \<Longrightarrow> \<exists>a'. ia_run a xs = Some (a', stack_hits n s xs) \<and> ia_sim n a' (foldl stack_push s xs)"
proof (induction xs arbitrary: a s)
  case Nil
  then show ?case by simp
next
  case (Cons x xs)
  from ia_access_sim [OF Cons.prems(1), of x] Cons.prems(2) obtain a1 where
    "ia_access a x = Some (a1, x \<in> set (take n s))" "ia_sim n a1 (stack_push s x)" by auto
  with Cons.IH [of a1 "stack_push s x"] Cons.prems(2) show ?case by auto
qed

lemma ia_new_sim: "0 < n \<Longrightarrow> n < 2 ^ 31 \<Longrightarrow> \<exists>a. IdealLRUArray_new (of_nat n) = Some a \<and> ia_sim n a []"
proof -
  assume n: "0 < n" "n < 2 ^ 31"
  from ia_new_ok [OF n] obtain a where a: "IdealLRUArray_new (of_nat n) = Some a" "ia_ord n a (rev [0..<n])" "ia_addrs a = replicate n 0"
    by blast
  have "map ((!) (replicate n 0)) (rev [0..<n]) = replicate n (0 :: u64)" by (rule nth_equalityI) (auto simp: rev_nth)
  then show ?thesis using a by (auto simp: ia_sim_def)
qed

text \<open>
  Claim C33. The ideal array is true LRU: from its construction with \<open>n\<close> lines on, any string of references to lines other
  than 0 runs without tripping an assertion, each reference hits exactly if its line is among the \<open>n\<close> lines used last
  before it (its stack distance is below \<open>n\<close>), and at the end the array holds exactly the \<open>n\<close> lines used last.
\<close>

theorem ideal_lru_stack:
  assumes "0 < n" "n < 2 ^ 31" "0 \<notin> set xs"
  shows "\<exists>a a'. IdealLRUArray_new (of_nat n) = Some a \<and> ia_run a xs = Some (a', stack_hits n [] xs)
           \<and> set (ia_addrs a') - {0} = set (take n (lru_stack xs))"
proof -
  from ia_new_sim [OF assms(1,2)] obtain a where a: "IdealLRUArray_new (of_nat n) = Some a" "ia_sim n a []" by blast
  from ia_run_sim [OF a(2) assms(3)] obtain a' where r: "ia_run a xs = Some (a', stack_hits n [] xs)" "ia_sim n a' (lru_stack xs)"
    by (auto simp: lru_stack_def)
  from r(2) obtain us where o: "ia_ord n a' us" "map ((!) (ia_addrs a')) us = take n (lru_stack xs @ replicate n 0)"
      "0 \<notin> set (lru_stack xs)" by (auto simp: ia_sim_def)
  have "set (ia_addrs a') = (!) (ia_addrs a') ` set us" using o(1) by (auto simp: ia_ord_def set_conv_nth image_iff)
  then have "set (ia_addrs a') = set (take n (lru_stack xs @ replicate n 0))" using o(2) by (metis list.set_map)
  then have "set (ia_addrs a') - {0} = set (take n (lru_stack xs))" using o(3) by (auto dest: in_set_takeD)
  then show ?thesis using a(1) r(1) by blast
qed

theorem ideal_lru_stack_witness:
  "\<exists>a a'. IdealLRUArray_new 2 = Some a \<and> ia_run a [5, 6, 5, 7, 6] = Some (a', [False, False, True, False, False])
     \<and> set (ia_addrs a') - {0} = {6, 7}"
  using ideal_lru_stack [of 2 "[5, 6, 5, 7, 6]"]
  by (simp add: lru_stack_def stack_push_def del: ia_run.simps)

section \<open>Line 0\<close>

text \<open>A run over lines other than 0 never maps line 0.\<close>

lemma ia_access_map0: "ia_access a x = Some (a', h) \<Longrightarrow> x \<noteq> 0 \<Longrightarrow> lineMap a 0 = None \<Longrightarrow> lineMap a' 0 = None"
  by (auto simp: ia_access_def ia_lookup_def ia_preinsert_def ia_postinsert_def ia_touch_def Let_def
      split: bind_splits option.splits if_splits)

lemma ia_run_map0: "ia_run a xs = Some (a', hs) \<Longrightarrow> 0 \<notin> set xs \<Longrightarrow> lineMap a 0 = None \<Longrightarrow> lineMap a' 0 = None"
proof (induction xs arbitrary: a hs)
  case (Cons x xs)
  then obtain a1 h hs1 where "ia_access a x = Some (a1, h)" "ia_run a1 xs = Some (a', hs1)" by (auto split: bind_splits)
  then show ?case using Cons.IH Cons.prems(2,3) ia_access_map0 by auto
qed simp

lemma ia_run_append:
  "ia_run a (xs @ ys) = do { (a1, h) \<leftarrow> ia_run a xs; (a2, h') \<leftarrow> ia_run a1 ys; Some (a2, h @ h') }"
proof (induction xs arbitrary: a)
  case Nil
  then show ?case by (cases "ia_run a ys") auto
next
  case (Cons x xs)
  then show ?case by (simp add: case_prod_unfold)
qed

text \<open>A reference to line 0 while it is not mapped: a miss that writes address 0 to the entry of the victim.\<close>

lemma ia_access_zero:
  assumes o: "ia_ord n a us" and m: "lineMap a 0 = None"
  shows "\<exists>a'. ia_access a 0 = Some (a', False) \<and> ia_addrs a' = (ia_addrs a)[List.last us := 0]
    \<and> ia_ord n a' (List.last us # remove1 (List.last us) us) \<and> lineMap a' 0 = Some (of_nat (List.last us))"
proof -
  let ?c = "List.last us"
  let ?m = "(lineMap a)(ia_addrs a ! ?c := None)"
  let ?a = "a\<lparr>ia_addrs := (ia_addrs a)[?c := 0], lineMap := ?m(0 \<mapsto> of_nat ?c)\<rparr>"
  note v = ia_victim [OF o]
  have len: "length (ia_addrs a) = n" using o by (simp add: ia_ord_def)
  have "unat i < n \<and> (ia_addrs a)[?c := 0] ! unat i = y" if y: "y \<noteq> 0" "?m y = Some i" for y i
  proof -
    have "unat i < n" "ia_addrs a ! unat i = y" "y \<noteq> ia_addrs a ! ?c" using o y by (auto simp: ia_ord_def split: if_splits)
    then show ?thesis by (metis nth_list_update_neq)
  qed
  moreover have "?m ((ia_addrs a)[?c := 0] ! i) = Some (of_nat i)" if i: "i < n" "(ia_addrs a)[?c := 0] ! i \<noteq> 0" for i
  proof -
    have ne: "i \<noteq> ?c" using i len v(3) by auto
    then have "ia_addrs a ! i \<noteq> 0" using i by simp
    moreover have "ia_addrs a ! i \<noteq> ia_addrs a ! ?c" using ia_unique [OF o i(1) v(3)] calculation ne by auto
    ultimately show ?thesis using ne o i(1) by (simp add: ia_ord_def)
  qed
  ultimately have "ia_ord n ?a us" using o len unfolding ia_ord_def by simp
  from ia_touch_ok [OF this v(3)] obtain a' where a': "ia_touch ?a ?c = Some a'" "ia_ord n a' (?c # remove1 ?c us)"
    "ia_addrs a' = (ia_addrs a)[?c := 0]" "lineMap a' = ?m(0 \<mapsto> of_nat ?c)" by auto
  have "ia_postinsert a 0 None ?c = Some a'" using a'(1) m len v(3) by (simp add: ia_postinsert_def Let_def)
  then have "ia_access a 0 = Some (a', False)" using m v(2) by (simp add: ia_access_def ia_lookup_def)
  then show ?thesis using a' by simp
qed

text \<open>Filling an empty entry with another line takes line 0 out of the map.\<close>

lemma ia_access_fills:
  assumes o: "ia_ord n a us" and y: "y \<noteq> 0" "y \<notin> set (ia_addrs a)" and e: "ia_addrs a ! List.last us = 0"
  shows "\<exists>a'. ia_access a y = Some (a', False) \<and> ia_addrs a' = (ia_addrs a)[List.last us := y]
    \<and> ia_ord n a' (List.last us # remove1 (List.last us) us) \<and> lineMap a' 0 = None"
proof -
  note v = ia_victim [OF o]
  from ia_postinsert_ok [OF o v(3) y] obtain a' where a': "ia_postinsert a y None (List.last us) = Some a'"
    "ia_addrs a' = (ia_addrs a)[List.last us := y]" "ia_ord n a' (List.last us # remove1 (List.last us) us)" by blast
  have "lineMap a' 0 = None" using a'(1) y(1) e by (auto simp: ia_postinsert_def ia_touch_def Let_def split: bind_splits if_splits)
  then show ?thesis using a' v(2) ia_lookup_miss [OF o y] by (simp add: ia_access_def)
qed

lemma set_lru_stack: "set (lru_stack xs) = set xs"
  by (induction xs rule: rev_induct) (auto simp: lru_stack_snoc stack_push_def, simp add: lru_stack_def)

lemma stack_hits_append: "stack_hits n s (xs @ ys) = stack_hits n s xs @ stack_hits n (foldl stack_push s xs) ys"
  by (induction xs arbitrary: s) auto

text \<open>
  Claim C34. Line 0 is lost.  Empty entries hold address 0, and filling one erases address 0 from the map although another
  entry holds line 0.  So in any array that was used for lines other than 0 only and has at least two empty entries left, a reference to line 0, one to a
  line not yet used and line 0 again all miss; in the reference model of true LRU the last one hits.
\<close>

theorem ideal_loses_line_zero:
  assumes n: "n < 2 ^ 31" and xs: "0 \<notin> set xs" "card (set xs) + 2 \<le> n" and y: "y \<noteq> 0" "y \<notin> set xs"
  shows "\<exists>a a'. IdealLRUArray_new (of_nat n) = Some a \<and> ia_run a (xs @ [0, y, 0]) = Some (a', stack_hits n [] xs @ [False, False, False])
    \<and> stack_hits n [] (xs @ [0, y, 0]) = stack_hits n [] xs @ [False, False, True]"
proof -
  let ?s = "lru_stack xs"
  let ?k = "length ?s"
  have s: "distinct ?s" "0 \<notin> set ?s" "set ?s = set xs" using lru_stack_ok [OF xs(1)] set_lru_stack by auto
  then have k: "?k + 2 \<le> n" using xs(2) by (metis distinct_card)
  have "0 < n" using k by simp
  from ia_new_sim [OF this n] obtain a where a: "IdealLRUArray_new (of_nat n) = Some a" "ia_sim n a []" by blast
  have "lineMap a 0 = None" using a(1) by (auto simp: IdealLRUArray_new_def split: bind_splits)
  moreover obtain b where b: "ia_run a xs = Some (b, stack_hits n [] xs)" "ia_sim n b ?s"
    using ia_run_sim [OF a(2) xs(1)] by (auto simp: lru_stack_def)
  ultimately have m0: "lineMap b 0 = None" using ia_run_map0 xs(1) by blast
  obtain us where o: "ia_ord n b us" "map ((!) (ia_addrs b)) us = take n (?s @ replicate n 0)" using b(2) by (auto simp: ia_sim_def)
  have "take n (?s @ replicate n 0) = ?s @ replicate (n - ?k) 0" using k by simp
  then have us: "map ((!) (ia_addrs b)) us = ?s @ replicate (n - ?k) 0" using o(2) by simp
  have set_us: "set us = {0..<n}" "length (ia_addrs b) = n" using o(1) by (simp_all add: ia_ord_def)
  have all: "set (ia_addrs b) = set ?s \<union> {0}"
  proof -
    have "set (ia_addrs b) = (!) (ia_addrs b) ` set us" using set_us by (auto simp: set_conv_nth image_iff)
    also have "\<dots> = set (?s @ replicate (n - ?k) 0)" using us by (metis list.set_map)
    finally show ?thesis using k by simp
  qed
  let ?c = "List.last us"
  note v = ia_victim [OF o(1)]
  have c0: "ia_addrs b ! ?c = 0" using last_map [OF v(1), of "(!) (ia_addrs b)"] us k by simp
  obtain b1 where b1: "ia_access b 0 = Some (b1, False)" "ia_addrs b1 = ia_addrs b" "ia_ord n b1 (?c # remove1 ?c us)"
    using ia_access_zero [OF o(1) m0] c0 by (metis list_update_id)
  have bl: "us = butlast us @ [?c]" using v(1) by simp
  have d: "distinct us" using o(1) by (simp add: ia_ord_def list_rep_def)
  have "?c \<notin> set (butlast us)" using bl d by (metis distinct_append not_distinct_conv_prefix append_Nil2 distinct_butlast)
  then have rm: "remove1 ?c us = butlast us" using bl by (metis remove1_append remove1.simps(2) append_Nil2)
  have mb: "map ((!) (ia_addrs b)) (butlast us) = ?s @ replicate (n - ?k - 1) 0"
    unfolding map_butlast us using k by (simp add: butlast_append butlast_conv_take min_def)
  then have "butlast us \<noteq> []" using k by auto
  then have e1: "ia_addrs b1 ! List.last (?c # remove1 ?c us) = 0"
    using last_map [of "butlast us" "(!) (ia_addrs b)"] mb k rm b1(2) by simp
  have y1: "y \<notin> set (ia_addrs b1)" using y s(3) all b1(2) by auto
  obtain b2 where b2: "ia_access b1 y = Some (b2, False)" "lineMap b2 0 = None" "\<exists>us2. ia_ord n b2 us2"
    using ia_access_fills [OF b1(3) y(1) y1 e1] by blast
  obtain b3 where "ia_access b2 0 = Some (b3, False)" using ia_access_zero b2(2,3) by blast
  then have "ia_run a (xs @ [0, y, 0]) = Some (b3, stack_hits n [] xs @ [False, False, False])"
    unfolding ia_run_append using b(1) b1(1) b2(1) by simp
  moreover have "stack_hits n [] (xs @ [0, y, 0]) = stack_hits n [] xs @ [False, False, True]"
    using k s y xs(1) unfolding stack_hits_append
    by (cases n; cases "n - 1") (auto simp: lru_stack_def [symmetric] stack_push_def dest: in_set_takeD)
  ultimately show ?thesis using a(1) by blast
qed

theorem ideal_loses_line_zero_witness:
  "\<exists>a a'. IdealLRUArray_new 4 = Some a \<and> ia_run a [7, 0, 5, 0] = Some (a', [False, False, False, False])"
  using ideal_loses_line_zero [of 4 "[7]" 5] by (simp del: ia_run.simps) blast

end
