(* ===== verification/UMon.thy ===== *)
theory UMon
  imports Complex_Main LruStack Hash
begin

text \<open>
  Utility monitors (\<open>src/src/utility_monitor.h\<close>, \<open>utility_monitor.cpp\<close>, \<open>monitor.cpp\<close>): a sampled tag directory whose
  sets are singly linked lists in order of use, with a hit counter for every position.  A node pointer is an index into
  the nodes of its set.  The H3 family of the monitor is the hash function \<open>hf\<close>.
\<close>

section \<open>A monitor\<close>

record UNode =
  uaddr :: u64
  unext :: "nat option"

record UMon =
  umonLines :: u32
  samplingFactor :: u32
  ubuckets :: u32
  usets :: u32
  samplingFactorBits :: u64
  setsBits :: u64
  curWayHits :: "u64 list"
  curMisses :: u64
  unodes :: "UNode list list"
  uheads :: "nat list"

lemma drop_bit_decr: "drop_bit (Suc 0) (t :: u32) \<noteq> 0 \<Longrightarrow> unat (drop_bit (Suc 0) t) < unat t"
proof -
  assume "drop_bit (Suc 0) t \<noteq> 0"
  then have "t \<noteq> 0" by auto
  then have "0 < unat t" by (simp add: unat_gt_0)
  moreover have "unat (drop_bit (Suc 0) t) = unat t div 2" by (simp add: drop_bit_Suc unat_div_distrib)
  ultimately show ?thesis by simp
qed

text \<open>\<open>while (tmp >>= 1) bits++\<close>\<close>

function shift_count :: "u32 \<Rightarrow> u64" where
  "shift_count tmp = (let t = drop_bit 1 tmp in if t \<noteq> 0 then 1 + shift_count t else 0)"
  by auto

termination shift_count
  by (relation "measure unat") (simp_all add: drop_bit_decr)

definition UMon_set :: "nat \<Rightarrow> UNode list" where
  "UMon_set nb = map (\<lambda>j. \<lparr>uaddr = 0, unext = (if j < nb - 1 then Some (Suc j) else None)\<rparr>) [0..<nb]"

definition UMon_new :: "u32 \<Rightarrow> u32 \<Rightarrow> u32 \<Rightarrow> UMon option" where
  "UMon_new bankLines mlines nb = do {
     _ \<leftarrow> require (mlines \<noteq> 0);
     let factor = bankLines div mlines;
     _ \<leftarrow> require (nb \<noteq> 0);
     let nsets = mlines div nb;
     Some \<lparr>umonLines = mlines, samplingFactor = factor, ubuckets = nb, usets = nsets,
       samplingFactorBits = shift_count factor, setsBits = shift_count nsets,
       curWayHits = replicate (unat nb) 0, curMisses = 0,
       unodes = replicate (unat nsets) (UMon_set (unat nb)), uheads = replicate (unat nsets) 0\<rparr>
   }"

text \<open>The low \<open>b\<close> bits: \<open>~((uint64_t)-1LL << b)\<close>.\<close>

definition low_mask :: "u64 \<Rightarrow> u64" where
  "low_mask b = NOT (push_bit (unat b) (- 1))"

text \<open>The search for the line in the list of its set: the previous node, the node it ends at, and the hit position.\<close>

fun um_walk :: "UNode list \<Rightarrow> u64 \<Rightarrow> nat \<Rightarrow> nat option \<Rightarrow> nat \<Rightarrow> nat list \<Rightarrow> (nat option \<times> nat \<times> nat option) option" where
  "um_walk ns addr nb prev cur [] = Some (prev, cur, None)"
| "um_walk ns addr nb prev cur (b # bs) = do {
     n \<leftarrow> aget ns cur;
     if uaddr n = addr then Some (prev, cur, Some b)
     else if b < nb - 1 then do { nx \<leftarrow> unext n; um_walk ns addr nb (Some cur) nx bs }
     else um_walk ns addr nb prev cur bs
   }"

text \<open>Moving node \<open>cur\<close> to the front.\<close>

definition um_front :: "UNode list \<Rightarrow> nat \<Rightarrow> nat option \<Rightarrow> nat \<Rightarrow> (UNode list \<times> nat) option" where
  "um_front ns head prev cur = (case prev of
       None \<Rightarrow> Some (ns, head)
     | Some p \<Rightarrow> do {
         n \<leftarrow> aget ns cur;
         np \<leftarrow> aget ns p;
         ns1 \<leftarrow> aset ns p (np\<lparr>unext := unext n\<rparr>);
         n1 \<leftarrow> aget ns1 cur;
         ns2 \<leftarrow> aset ns1 cur (n1\<lparr>unext := Some head\<rparr>);
         Some (ns2, cur)
       })"

definition um_access :: "hash_fn \<Rightarrow> UMon \<Rightarrow> u64 \<Rightarrow> UMon option" where
  "um_access hf u addr = do {
     let sampleMask = low_mask (samplingFactorBits u);
     h0 \<leftarrow> hf 0 addr;
     (if h0 AND sampleMask \<noteq> 0 then Some u
      else do {
        h1 \<leftarrow> hf 1 addr;
        let set = unat (h1 AND low_mask (setsBits u));
        ns \<leftarrow> aget (unodes u) set;
        head \<leftarrow> aget (uheads u) set;
        (prev, cur, hit) \<leftarrow> um_walk ns addr (unat (ubuckets u)) None head [0..<unat (ubuckets u)];
        (u1, ns1) \<leftarrow> (case hit of
            Some b \<Rightarrow> do {
              k \<leftarrow> aget (curWayHits u) b;
              hits \<leftarrow> aset (curWayHits u) b (k + 1);
              Some (u\<lparr>curWayHits := hits\<rparr>, ns) }
          | None \<Rightarrow> do {
              n \<leftarrow> aget ns cur;
              _ \<leftarrow> require (unext n = None);
              ns1 \<leftarrow> aset ns cur (n\<lparr>uaddr := addr\<rparr>);
              Some (u\<lparr>curMisses := curMisses u + 1\<rparr>, ns1) });
        (ns2, head2) \<leftarrow> um_front ns1 head prev cur;
        Some (u1\<lparr>unodes := (unodes u1)[set := ns2], uheads := (uheads u1)[set := head2]\<rparr>)
      })
   }"

definition um_getNumAccesses :: "UMon \<Rightarrow> u64 option" where
  "um_getNumAccesses u =
     run_all (\<lambda>total i. do { h \<leftarrow> aget (curWayHits u) (unat (ubuckets u) - i - 1); Some (total + h) }) (curMisses u) [0..<unat (ubuckets u)]"

text \<open>\<open>getMisses\<close> fills the caller's array \<open>misses\<close>.\<close>

definition um_missStep :: "UMon \<Rightarrow> u64 list \<times> u64 \<Rightarrow> nat \<Rightarrow> (u64 list \<times> u64) option" where
  "um_missStep u s i = do {
     m \<leftarrow> aset (fst s) (unat (ubuckets u) - i) (snd s);
     h \<leftarrow> aget (curWayHits u) (unat (ubuckets u) - i - 1);
     Some (m, snd s + h)
   }"

definition um_getMisses :: "UMon \<Rightarrow> u64 list \<Rightarrow> u64 list option" where
  "um_getMisses u misses = do {
     (m, total) \<leftarrow> run_all (um_missStep u) (misses, curMisses u) [0..<unat (ubuckets u)];
     aset m 0 total
   }"

definition um_startNextInterval :: "UMon \<Rightarrow> UMon" where
  "um_startNextInterval u = u\<lparr>curMisses := 0, curWayHits := replicate (length (curWayHits u)) 0\<rparr>"


declare shift_count.simps [simp del]

section \<open>The list of a set\<close>

text \<open>\<open>upath ns p xs\<close>: following the links from \<open>p\<close> visits the nodes \<open>xs\<close>.\<close>

fun upath :: "UNode list \<Rightarrow> nat option \<Rightarrow> nat list \<Rightarrow> bool" where
  "upath ns p [] = (p = None)"
| "upath ns p (x # xs) = (p = Some x \<and> x < length ns \<and> upath ns (unext (ns ! x)) xs)"

fun last_node :: "nat option \<Rightarrow> nat list \<Rightarrow> nat option" where
  "last_node p [] = p"
| "last_node p (x # xs) = last_node (Some x) xs"

lemma last_node_snoc [simp]: "last_node p (xs @ [x]) = Some x"
  by (induction xs arbitrary: p) auto

lemma upath_other: "y \<notin> set xs \<Longrightarrow> upath (ns[y := v]) p xs = upath ns p xs"
  by (induction xs arbitrary: p) auto

lemma upath_cong: "length ns' = length ns \<Longrightarrow> \<forall>y. unext (ns' ! y) = unext (ns ! y) \<Longrightarrow> upath ns' q zs = upath ns q zs"
  by (induction zs arbitrary: q) auto

lemma upath_in: "upath ns p xs \<Longrightarrow> set xs \<subseteq> {..<length ns}"
  by (induction xs arbitrary: p) auto

lemma um_walk_hit:
  assumes "upath ns (Some h) (ys @ x # zs)" "\<forall>y\<in>set ys. uaddr (ns ! y) \<noteq> a" "uaddr (ns ! x) = a" "b + length (ys @ x # zs) = nb"
  shows "um_walk ns a nb prev h [b..<nb] = Some (last_node prev ys, x, Some (b + length ys))"
  using assms
proof (induction ys arbitrary: h b prev)
  case Nil
  then show ?case by (simp add: upt_conv_Cons)
next
  case (Cons y ys)
  have h: "h = y" "y < length ns" "upath ns (unext (ns ! y)) (ys @ x # zs)" using Cons.prems(1) by auto
  then obtain nx where nx: "unext (ns ! y) = Some nx" "upath ns (Some nx) (ys @ x # zs)" by (cases ys) auto
  have "um_walk ns a nb (Some y) nx [Suc b..<nb] = Some (last_node (Some y) ys, x, Some (Suc b + length ys))"
    using Cons.IH [OF nx(2), of "Suc b"] Cons.prems by simp
  moreover have "b < nb - 1" "[b..<nb] = b # [Suc b..<nb]" using Cons.prems(4) by (auto simp: upt_conv_Cons)
  ultimately show ?case using h nx(1) Cons.prems(2) by simp
qed

lemma um_walk_miss:
  assumes "upath ns (Some h) (ys @ [x])" "\<forall>y\<in>set (ys @ [x]). uaddr (ns ! y) \<noteq> a" "b + length (ys @ [x]) = nb"
  shows "um_walk ns a nb prev h [b..<nb] = Some (last_node prev ys, x, None)"
  using assms
proof (induction ys arbitrary: h b prev)
  case Nil
  then show ?case by (simp add: upt_conv_Cons)
next
  case (Cons y ys)
  have h: "h = y" "y < length ns" "upath ns (unext (ns ! y)) (ys @ [x])" using Cons.prems(1) by auto
  then obtain nx where nx: "unext (ns ! y) = Some nx" "upath ns (Some nx) (ys @ [x])" by (cases ys) auto
  have "um_walk ns a nb (Some y) nx [Suc b..<nb] = Some (last_node (Some y) ys, x, None)"
    using Cons.IH [OF nx(2), of "Suc b"] Cons.prems by simp
  moreover have "b < nb - 1" "[b..<nb] = b # [Suc b..<nb]" using Cons.prems(3) by (auto simp: upt_conv_Cons)
  ultimately show ?case using h nx(1) Cons.prems(2) by simp
qed

text \<open>Unlinking the node after \<open>p\<close>.\<close>

lemma upath_skip:
  assumes "upath ns q (ys @ [p] @ x # zs)" "distinct (ys @ [p] @ x # zs)"
  shows "upath (ns[p := (ns ! p)\<lparr>unext := unext (ns ! x)\<rparr>]) q (ys @ p # zs)"
  using assms by (induction ys arbitrary: q) (auto simp: upath_other)

lemma um_front_ok:
  assumes "upath ns (Some h) (ys @ x # zs)" "distinct (ys @ x # zs)"
  shows "\<exists>ns' h'. um_front ns h (last_node None ys) x = Some (ns', h') \<and> upath ns' (Some h') (x # ys @ zs)
           \<and> length ns' = length ns \<and> (\<forall>y. uaddr (ns' ! y) = uaddr (ns ! y))"
proof (cases ys rule: rev_cases)
  case Nil
  then show ?thesis using assms by (simp add: um_front_def)
next
  case (snoc ys' p)
  let ?n1 = "ns[p := (ns ! p)\<lparr>unext := unext (ns ! x)\<rparr>]"
  let ?n2 = "?n1[x := (?n1 ! x)\<lparr>unext := Some h\<rparr>]"
  have in_ns: "x < length ns" "p < length ns" using upath_in [OF assms(1)] snoc by auto
  have "upath ?n1 (Some h) (ys' @ p # zs)" using upath_skip [of ns "Some h" ys' p x zs] assms snoc by simp
  then have "upath ?n2 (Some h) (ys @ zs)" using assms(2) snoc by (simp add: upath_other)
  moreover have "um_front ns h (last_node None ys) x = Some (?n2, x)" using in_ns snoc by (simp add: um_front_def)
  ultimately show ?thesis using in_ns by (auto simp: nth_list_update)
qed


section \<open>Sets as recency stacks\<close>

text \<open>A set of \<open>nb\<close> nodes that holds the addresses \<open>as\<close> in order of use.\<close>

definition um_set :: "nat \<Rightarrow> UNode list \<Rightarrow> nat \<Rightarrow> u64 list \<Rightarrow> bool" where
  "um_set nb ns h as \<longleftrightarrow> length ns = nb \<and> (\<exists>xs. upath ns (Some h) xs \<and> distinct xs \<and> set xs = {..<nb} \<and> map (\<lambda>x. uaddr (ns ! x)) xs = as)"

lemma um_set_length: "um_set nb ns h as \<Longrightarrow> length as = nb"
  unfolding um_set_def by (metis card_lessThan distinct_card length_map)

lemma um_hit_ok:
  assumes s: "um_set nb ns h as" and b: "b < nb" "as ! b = a" "a \<notin> set (take b as)"
  shows "\<exists>prev cur ns' h'. um_walk ns a nb None h [0..<nb] = Some (prev, cur, Some b) \<and> um_front ns h prev cur = Some (ns', h')
           \<and> um_set nb ns' h' (a # remove1 a as)"
proof -
  from s obtain xs where xs: "upath ns (Some h) xs" "distinct xs" "set xs = {..<nb}" "map (\<lambda>x. uaddr (ns ! x)) xs = as"
    and len: "length ns = nb" by (auto simp: um_set_def)
  have lx: "length xs = nb" using um_set_length [OF s] xs(4) by auto
  let ?ys = "take b xs" and ?x = "xs ! b" and ?zs = "drop (Suc b) xs"
  have sp: "xs = ?ys @ ?x # ?zs" using b(1) lx by (simp add: id_take_nth_drop)
  have ax: "uaddr (ns ! ?x) = a" using b xs(4) lx by auto
  have no: "\<forall>y\<in>set ?ys. uaddr (ns ! y) \<noteq> a" using b(3) xs(4) by (auto simp: take_map)
  have "um_walk ns a nb None h [0..<nb] = Some (last_node None ?ys, ?x, Some b)"
    using um_walk_hit [of ns h ?ys ?x ?zs a 0 nb None] sp xs(1) no ax lx b(1) by simp
  moreover from um_front_ok [of ns h ?ys ?x ?zs] sp xs(1,2) obtain ns' h' where
    f: "um_front ns h (last_node None ?ys) ?x = Some (ns', h')" "upath ns' (Some h') (?x # ?ys @ ?zs)" "length ns' = length ns"
       "\<forall>y. uaddr (ns' ! y) = uaddr (ns ! y)" by auto
  moreover have "distinct (?x # ?ys @ ?zs)" "set (?x # ?ys @ ?zs) = {..<nb}"
  proof -
    have "distinct (?ys @ ?x # ?zs)" "set (?ys @ ?x # ?zs) = {..<nb}" using sp xs(2,3) by simp_all
    then show "distinct (?x # ?ys @ ?zs)" "set (?x # ?ys @ ?zs) = {..<nb}" by auto
  qed
  moreover have "map (\<lambda>x. uaddr (ns' ! x)) (?x # ?ys @ ?zs) = a # remove1 a as"
  proof -
    have "as = map (\<lambda>x. uaddr (ns ! x)) ?ys @ a # map (\<lambda>x. uaddr (ns ! x)) ?zs"
      using xs(4) sp ax by (metis list.simps(9) map_append)
    moreover have "a \<notin> set (map (\<lambda>x. uaddr (ns ! x)) ?ys)" using no by auto
    ultimately show ?thesis using ax f(4) by (simp add: remove1_append)
  qed
  ultimately show ?thesis using len unfolding um_set_def by metis
qed

lemma um_miss_ok:
  assumes s: "um_set nb ns h as" and nb: "0 < nb" and a: "a \<notin> set as"
  shows "\<exists>prev cur n ns' h'. um_walk ns a nb None h [0..<nb] = Some (prev, cur, None) \<and> cur < length ns \<and> n = ns ! cur \<and> unext n = None
           \<and> um_front (ns[cur := n\<lparr>uaddr := a\<rparr>]) h prev cur = Some (ns', h') \<and> um_set nb ns' h' (a # butlast as)"
proof -
  from s obtain xs where xs: "upath ns (Some h) xs" "distinct xs" "set xs = {..<nb}" "map (\<lambda>x. uaddr (ns ! x)) xs = as"
    and len: "length ns = nb" by (auto simp: um_set_def)
  then obtain ys x where sp: "xs = ys @ [x]" using nb by (cases xs rule: rev_cases) auto
  have lx: "length xs = nb" using um_set_length [OF s] xs(4) by auto
  have no: "\<forall>y\<in>set (ys @ [x]). uaddr (ns ! y) \<noteq> a" using a xs(4) sp by auto
  have w: "um_walk ns a nb None h [0..<nb] = Some (last_node None ys, x, None)"
    using um_walk_miss [of ns h ys x a 0 nb None] sp xs(1) no lx by simp
  have x: "x < length ns" using xs(3) sp len by auto
  have "upath ns q (ys @ [x]) \<Longrightarrow> unext (ns ! x) = None" for q by (induction ys arbitrary: q) auto
  then have nx: "unext (ns ! x) = None" using xs(1) sp by blast
  let ?n = "ns[x := (ns ! x)\<lparr>uaddr := a\<rparr>]"
  have "\<forall>y. unext (?n ! y) = unext (ns ! y)"
  proof
    fix y
    show "unext (?n ! y) = unext (ns ! y)" by (cases "x = y") (use x in simp_all)
  qed
  then have keep: "upath ?n q zs = upath ns q zs" for q zs by (intro upath_cong) simp_all
  have "upath ?n (Some h) (ys @ x # [])" "distinct (ys @ x # [])" using xs(1,2) sp by (simp_all only: keep)
  from um_front_ok [OF this] obtain ns' h' where
    f: "um_front ?n h (last_node None ys) x = Some (ns', h')" "upath ns' (Some h') (x # ys)" "length ns' = length ?n"
       "\<forall>y. uaddr (ns' ! y) = uaddr (?n ! y)" unfolding append_Nil2 by blast
  have "x \<notin> set ys" using xs(2) sp by simp
  then have "\<forall>y\<in>set ys. ?n ! y = ns ! y" by (metis nth_list_update_neq)
  then have "map (\<lambda>y. uaddr (ns' ! y)) (x # ys) = a # butlast as"
    using f(4) x xs(2,4) sp by (auto simp: butlast_append)
  moreover have "distinct (x # ys)" "set (x # ys) = {..<nb}" using xs(2,3) sp by auto
  ultimately have "um_set nb ns' h' (a # butlast as)" using f(2,3) len unfolding um_set_def by (metis length_list_update)
  then show ?thesis using w x nx f(1) by blast
qed


section \<open>The miss curve\<close>

text \<open>The references a set of the monitor sees.\<close>

definition um_goes :: "hash_fn \<Rightarrow> UMon \<Rightarrow> nat \<Rightarrow> u64 \<Rightarrow> bool" where
  "um_goes hf u s a \<longleftrightarrow> (\<exists>h0 h1. hf 0 a = Some h0 \<and> h0 AND low_mask (samplingFactorBits u) = 0
     \<and> hf 1 a = Some h1 \<and> unat (h1 AND low_mask (setsBits u)) = s)"

definition um_refs :: "hash_fn \<Rightarrow> UMon \<Rightarrow> u64 list \<Rightarrow> nat \<Rightarrow> u64 list" where
  "um_refs hf u xs s = filter (um_goes hf u s) xs"

definition um_curve :: "hash_fn \<Rightarrow> UMon \<Rightarrow> u64 list \<Rightarrow> nat \<Rightarrow> nat" where
  "um_curve hf u xs b = (\<Sum>s < unat (usets u). stack_misses b (um_refs hf u xs s))"

definition um_shape :: "UMon \<Rightarrow> bool" where
  "um_shape u \<longleftrightarrow> 0 < unat (ubuckets u) \<and> length (unodes u) = unat (usets u) \<and> length (uheads u) = unat (usets u)
     \<and> length (curWayHits u) = unat (ubuckets u) \<and> (\<forall>h. unat (h AND low_mask (setsBits u)) < unat (usets u))"

definition um_same :: "UMon \<Rightarrow> UMon \<Rightarrow> bool" where
  "um_same u u' \<longleftrightarrow> umonLines u' = umonLines u \<and> samplingFactor u' = samplingFactor u \<and> ubuckets u' = ubuckets u \<and> usets u' = usets u
     \<and> samplingFactorBits u' = samplingFactorBits u \<and> setsBits u' = setsBits u"

text \<open>The monitor \<open>u\<close> after the references \<open>xs\<close>.\<close>

definition um_after :: "hash_fn \<Rightarrow> u64 list \<Rightarrow> UMon \<Rightarrow> bool" where
  "um_after hf xs u \<longleftrightarrow> um_shape u
     \<and> (\<forall>s < unat (usets u). um_set (unat (ubuckets u)) (unodes u ! s) (uheads u ! s)
           (take (unat (ubuckets u)) (lru_stack (um_refs hf u xs s) @ replicate (unat (ubuckets u)) 0)))
     \<and> (\<forall>b \<le> unat (ubuckets u). curMisses u + sum_list (drop b (curWayHits u)) = of_nat (um_curve hf u xs b))"

lemma um_goes_same: "um_same u u' \<Longrightarrow> um_goes hf u' = um_goes hf u"
  by (simp add: um_same_def um_goes_def fun_eq_iff)

lemma um_curve_same:
  assumes "um_same u u'"
  shows "um_refs hf u' = um_refs hf u" "um_curve hf u' = um_curve hf u"
proof -
  show r: "um_refs hf u' = um_refs hf u" by (intro ext) (simp add: um_refs_def um_goes_same [OF assms])
  have "usets u' = usets u" using assms by (simp add: um_same_def)
  then show "um_curve hf u' = um_curve hf u" by (intro ext) (simp add: um_curve_def r)
qed

lemma sum_drop_update:
  fixes xs :: "u64 list"
  shows "k < length xs \<Longrightarrow> sum_list (drop b (xs[k := xs ! k + 1])) = sum_list (drop b xs) + (if b \<le> k then 1 else 0)"
proof (induction xs arbitrary: k b)
  case Nil
  then show ?case by simp
next
  case (Cons x xs)
  show ?case
  proof (cases k)
    case 0
    then show ?thesis by (cases b) (simp_all add: add_ac)
  next
    case (Suc j)
    with Cons.prems Cons.IH [of j "b - 1"] Cons.IH [of j 0] show ?thesis by (cases b) (simp_all add: add_ac)
  qed
qed

lemma um_curve_snoc:
  assumes s: "s < unat (usets u)" and g: "\<And>t. um_goes hf u t x \<longleftrightarrow> t = s"
  shows "um_curve hf u (xs @ [x]) b = um_curve hf u xs b + (if x \<in> set (take b (lru_stack (um_refs hf u xs s))) then 0 else 1)"
proof -
  have r: "um_refs hf u (xs @ [x]) t = (if t = s then um_refs hf u xs t @ [x] else um_refs hf u xs t)" for t
    using g [of t] by (simp add: um_refs_def)
  let ?d = "(if x \<in> set (take b (lru_stack (um_refs hf u xs s))) then 0 else 1 :: nat)"
  have "um_curve hf u (xs @ [x]) b = (\<Sum>t < unat (usets u). stack_misses b (um_refs hf u xs t) + (if t = s then ?d else 0))"
    unfolding um_curve_def by (rule sum.cong) (simp_all add: r stack_misses_snoc)
  also have "\<dots> = um_curve hf u xs b + (\<Sum>t < unat (usets u). if t = s then ?d else 0)"
    unfolding um_curve_def by (rule sum.distrib)
  also have "(\<Sum>t < unat (usets u). if t = s then ?d else 0) = ?d" using s by (simp add: sum.delta)
  finally show ?thesis .
qed

lemma um_curve_skip: "(\<And>t. \<not> um_goes hf u t x) \<Longrightarrow> um_refs hf u (xs @ [x]) = um_refs hf u xs"
  "(\<And>t. \<not> um_goes hf u t x) \<Longrightarrow> um_curve hf u (xs @ [x]) = um_curve hf u xs"
  by (auto simp: um_refs_def um_curve_def fun_eq_iff)

text \<open>The position at which a line other than 0 is found in the prefix of a stack.\<close>

lemma stack_position:
  assumes "0 \<notin> set s" "distinct s" "x \<noteq> 0" "k < n" "take n (s @ replicate n 0) ! k = x"
  shows "x \<notin> set (take k (take n (s @ replicate n 0)))" "x \<in> set (take b s) \<longleftrightarrow> k < b"
proof -
  have k: "k < length s" using assms(3-5) by (auto simp: nth_append split: if_splits)
  then have xk: "s ! k = x" using assms(4,5) by (simp add: nth_append)
  then have iff: "x \<in> set (take b s) \<longleftrightarrow> k < b" for b
    using k assms(2) by (auto simp: in_set_conv_nth nth_eq_iff_index_eq)
  then show "x \<in> set (take b s) \<longleftrightarrow> k < b" by blast
  have "take k (take n (s @ replicate n 0)) = take k s" using k assms(4) by simp
  then show "x \<notin> set (take k (take n (s @ replicate n 0)))" using iff [of k] by simp
qed


lemma um_access_ok:
  assumes u: "um_after hf xs u" and x: "x \<noteq> 0" "0 \<notin> set xs" and hf: "hf 0 x = Some h0" "hf 1 x = Some h1"
  shows "\<exists>u'. um_access hf u x = Some u' \<and> um_after hf (xs @ [x]) u' \<and> um_same u u'"
proof (cases "h0 AND low_mask (samplingFactorBits u) = 0")
  case False
  then have skip: "\<not> um_goes hf u t x" for t using hf by (simp add: um_goes_def)
  have "um_after hf (xs @ [x]) u" using u um_curve_skip [OF skip, of xs] by (simp add: um_after_def)
  then show ?thesis using False hf(1) by (simp add: um_access_def um_same_def)
next
  case True
  let ?s = "unat (h1 AND low_mask (setsBits u))" and ?nb = "unat (ubuckets u)"
  let ?st = "lru_stack (um_refs hf u xs ?s)"
  let ?t = "take ?nb (?st @ replicate ?nb 0)"
  have sh: "0 < ?nb" "length (unodes u) = unat (usets u)" "length (uheads u) = unat (usets u)" "length (curWayHits u) = ?nb"
    and s: "?s < unat (usets u)" using u by (simp_all add: um_after_def um_shape_def)
  have set: "um_set ?nb (unodes u ! ?s) (uheads u ! ?s) ?t" using u s by (simp add: um_after_def)
  have go: "um_goes hf u t x \<longleftrightarrow> t = ?s" for t using hf True by (auto simp: um_goes_def)
  have refs: "um_refs hf u (xs @ [x]) t = (if t = ?s then um_refs hf u xs t @ [x] else um_refs hf u xs t)" for t
    using go [of t] by (simp add: um_refs_def)
  have st: "distinct ?st" "0 \<notin> set ?st" using lru_stack_ok [of "um_refs hf u xs ?s"] x(2) by (auto simp: um_refs_def)
  have push: "take ?nb (lru_stack (um_refs hf u (xs @ [x]) ?s) @ replicate ?nb 0) =
      x # (if x \<in> set ?t then remove1 x ?t else butlast ?t)"
  proof -
    have "butlast ?t = take (?nb - 1) (?st @ replicate ?nb 0)" by (rule butlast_take) simp
    moreover have "lru_stack (um_refs hf u (xs @ [x]) ?s) = stack_push ?st x" using refs [of ?s] by (simp add: lru_stack_snoc)
    ultimately show ?thesis using stack_take [OF st x(1) sh(1)] by (simp only:)
  qed
  have curve: "um_curve hf u (xs @ [x]) b = um_curve hf u xs b + (if x \<in> set (take b ?st) then 0 else 1)" for b
    by (rule um_curve_snoc [OF s go])
  have old: "curMisses u + sum_list (drop b (curWayHits u)) = of_nat (um_curve hf u xs b)" if "b \<le> ?nb" for b
    using u that by (simp add: um_after_def)
  have fin: "um_after hf (xs @ [x]) u'" if
    "um_same u u'" "unodes u' = (unodes u)[?s := ns']" "uheads u' = (uheads u)[?s := h']" "length (curWayHits u') = ?nb"
    "um_set ?nb ns' h' (x # (if x \<in> set ?t then remove1 x ?t else butlast ?t))"
    "\<And>b. b \<le> ?nb \<Longrightarrow> curMisses u' + sum_list (drop b (curWayHits u')) =
        of_nat (um_curve hf u xs b) + (if x \<in> set (take b ?st) then 0 else 1)" for u' ns' h'
  proof -
    have "um_shape u'" using that(1-4) u by (simp add: um_after_def um_shape_def um_same_def)
    moreover have "um_set ?nb (unodes u' ! t) (uheads u' ! t) (take ?nb (lru_stack (um_refs hf u (xs @ [x]) t) @ replicate ?nb 0))"
      if t: "t < unat (usets u)" for t
    proof (cases "t = ?s")
      case True
      then show ?thesis using that sh s push \<open>um_set ?nb ns' h' _\<close> \<open>unodes u' = _\<close> \<open>uheads u' = _\<close> by simp
    next
      case False
      then show ?thesis using t u refs [of t] \<open>unodes u' = _\<close> \<open>uheads u' = _\<close> by (simp add: um_after_def)
    qed
    moreover have "usets u' = usets u" "ubuckets u' = ubuckets u" using that(1) by (simp_all add: um_same_def)
    ultimately show ?thesis using that(6) curve um_curve_same [OF that(1), of hf] by (simp add: um_after_def)
  qed
  show ?thesis
  proof (cases "x \<in> set ?t")
    case hit: True
    obtain k where k: "k < ?nb" "?t ! k = x" using hit um_set_length [OF set] by (metis in_set_conv_nth)
    note pos = stack_position [OF st(2,1) x(1) k]
    from um_hit_ok [OF set k pos(1)] obtain prev cur ns' h' where
      w: "um_walk (unodes u ! ?s) x ?nb None (uheads u ! ?s) [0..<?nb] = Some (prev, cur, Some k)"
         "um_front (unodes u ! ?s) (uheads u ! ?s) prev cur = Some (ns', h')" "um_set ?nb ns' h' (x # remove1 x ?t)" by blast
    let ?h = "(curWayHits u)[k := curWayHits u ! k + 1]"
    let ?u = "u\<lparr>curWayHits := ?h, unodes := (unodes u)[?s := ns'], uheads := (uheads u)[?s := h']\<rparr>"
    have "curMisses ?u + sum_list (drop b (curWayHits ?u)) = of_nat (um_curve hf u xs b) + (if x \<in> set (take b ?st) then 0 else 1)"
      if "b \<le> ?nb" for b
      using sum_drop_update [of k "curWayHits u" b] k(1) sh(4) old [OF that] pos(2) [of b] by (auto simp: add_ac)
    note sums = this
    have m: "um_set ?nb ns' h' (x # (if x \<in> set ?t then remove1 x ?t else butlast ?t))" unfolding if_P [OF hit] by (rule w(3))
    have "um_after hf (xs @ [x]) ?u" by (rule fin [OF _ _ _ _ m sums]) (use sh in \<open>simp_all add: um_same_def\<close>)
    moreover have "um_access hf u x = Some ?u" using hf True sh s w k(1) by (simp add: um_access_def Let_def)
    ultimately show ?thesis by (auto simp: um_same_def)
  next
    case miss: False
    from um_miss_ok [OF set sh(1) miss] obtain prev cur n ns' h' where
      w: "um_walk (unodes u ! ?s) x ?nb None (uheads u ! ?s) [0..<?nb] = Some (prev, cur, None)"
         "cur < length (unodes u ! ?s)" "n = unodes u ! ?s ! cur" "unext n = None"
         "um_front ((unodes u ! ?s)[cur := n\<lparr>uaddr := x\<rparr>]) (uheads u ! ?s) prev cur = Some (ns', h')"
         "um_set ?nb ns' h' (x # butlast ?t)" by blast
    let ?u = "u\<lparr>curMisses := curMisses u + 1, unodes := (unodes u)[?s := ns'], uheads := (uheads u)[?s := h']\<rparr>"
    have "x \<notin> set (take b ?st)" if "b \<le> ?nb" for b
    proof
      assume "x \<in> set (take b ?st)"
      then have "x \<in> set (take ?nb ?st)" by (rule subsetD [OF set_take_subset_set_take [OF that]])
      then show False using miss by simp
    qed
    then have "curMisses ?u + sum_list (drop b (curWayHits ?u)) = of_nat (um_curve hf u xs b) + (if x \<in> set (take b ?st) then 0 else 1)"
      if "b \<le> ?nb" for b
      using old [OF that] that by (simp add: add_ac)
    note sums = this
    have m: "um_set ?nb ns' h' (x # (if x \<in> set ?t then remove1 x ?t else butlast ?t))" unfolding if_not_P [OF miss] by (rule w(6))
    have "um_after hf (xs @ [x]) ?u" by (rule fin [OF _ _ _ _ m sums]) (use sh in \<open>simp_all add: um_same_def\<close>)
    moreover have "um_access hf u x = Some ?u" using hf True sh s w by (simp add: um_access_def Let_def)
    ultimately show ?thesis by (auto simp: um_same_def)
  qed
qed


lemma shift_count_bound: "t \<noteq> 0 \<Longrightarrow> 2 ^ unat (shift_count t) \<le> unat t \<and> unat (shift_count t) < 32"
proof (induction t rule: shift_count.induct)
  case (1 t)
  have half: "unat (drop_bit 1 t) = unat t div 2" by (simp add: drop_bit_Suc unat_div_distrib)
  show ?case
  proof (cases "drop_bit 1 t = 0")
    case True
    then have "shift_count t = 0" by (subst shift_count.simps) simp
    moreover have "0 < unat t" using 1(2) by (simp add: unat_gt_0)
    ultimately show ?thesis by simp
  next
    case False
    let ?k = "unat (shift_count (drop_bit 1 t))"
    have ih: "2 ^ ?k \<le> unat t div 2" "?k < 32" using 1(1) [OF refl False False] half by simp_all
    have "shift_count t = 1 + shift_count (drop_bit 1 t)" using False by (subst shift_count.simps) simp
    then have sc: "unat (shift_count t) = Suc ?k" using ih(2) by (simp add: unat_word_ariths)
    have "2 ^ Suc ?k \<le> unat t" using ih(1) by simp
    moreover have "Suc ?k < 32"
    proof (rule ccontr)
      assume "\<not> Suc ?k < 32"
      then have "(2 :: nat) ^ 32 \<le> 2 ^ Suc ?k" by (intro power_increasing) simp_all
      then show False using \<open>2 ^ Suc ?k \<le> unat t\<close> unat_u32_lt [of t] by simp
    qed
    ultimately show ?thesis by (simp only: sc)
  qed
qed

lemma low_mask_below: "unat b < 64 \<Longrightarrow> unat (h AND low_mask b) < 2 ^ unat b"
proof -
  assume b: "unat b < 64"
  have "low_mask b = mask (unat b)" by (simp add: low_mask_def push_bit_minus_one minus_exp_eq_not_mask)
  then have "h AND low_mask b = take_bit (unat b) h" by (simp add: take_bit_eq_mask)
  then show ?thesis by (simp add: unsigned_take_bit_eq)
qed

lemma um_new_ok:
  assumes "0 < unat nb" "nb \<le> mlines"
  shows "\<exists>u. UMon_new bankLines mlines nb = Some u \<and> um_after hf [] u \<and> ubuckets u = nb \<and> usets u = mlines div nb"
proof -
  let ?nb = "unat nb" and ?sets = "mlines div nb"
  have m: "0 < unat mlines" using assms by (simp add: word_le_nat_alt)
  have s: "unat ?sets = unat mlines div ?nb" by (simp add: unat_div_distrib)
  have "0 < unat ?sets" using assms s by (simp add: word_le_nat_alt div_greater_zero_iff)
  then have "?sets \<noteq> 0" by (simp add: unat_gt_0)
  then have "unat (h AND low_mask (shift_count ?sets)) < unat ?sets" for h
    using shift_count_bound [of ?sets] low_mask_below [of "shift_count ?sets" h] by linarith
  moreover have "um_set ?nb (UMon_set ?nb) 0 (replicate ?nb 0)"
  proof -
    have "upath (UMon_set ?nb) (Some j) [j..<?nb]" if "j < ?nb" for j
      using that
    proof (induction "?nb - j" arbitrary: j)
      case 0
      then show ?case by simp
    next
      case (Suc d)
      have j: "[j..<?nb] = j # [Suc j..<?nb]" using Suc.prems by (rule upt_conv_Cons)
      have n: "length (UMon_set ?nb) = ?nb" "unext (UMon_set ?nb ! j) = (if j < ?nb - 1 then Some (Suc j) else None)"
        using Suc.prems by (simp_all add: UMon_set_def)
      show ?case
      proof (cases "Suc j < ?nb")
        case True
        have "upath (UMon_set ?nb) (Some (Suc j)) [Suc j..<?nb]" by (rule Suc.hyps(1)) (use Suc.hyps(2) True in simp_all)
        then show ?thesis using True Suc.prems n unfolding j by simp
      next
        case False
        then have "[Suc j..<?nb] = []" "\<not> j < ?nb - 1" by simp_all
        then show ?thesis using Suc.prems n unfolding j by simp
      qed
    qed
    then show ?thesis using assms(1) by (auto simp: um_set_def UMon_set_def intro!: exI [of _ "[0..<?nb]"] nth_equalityI)
  qed
  moreover have "sum_list (drop b (replicate ?nb (0 :: u64))) = 0" for b by (simp add: sum_list_replicate)
  ultimately have after: "um_after hf [] \<lparr>umonLines = mlines, samplingFactor = bankLines div mlines, ubuckets = nb, usets = ?sets,
       samplingFactorBits = shift_count (bankLines div mlines), setsBits = shift_count ?sets,
       curWayHits = replicate ?nb 0, curMisses = 0,
       unodes = replicate (unat ?sets) (UMon_set ?nb), uheads = replicate (unat ?sets) 0\<rparr>"
    using assms(1) by (simp add: um_after_def um_shape_def um_refs_def um_curve_def lru_stack_def)
  have "nb \<noteq> 0" "mlines \<noteq> 0" using assms(1) m by (auto simp: unat_gt_0)
  then show ?thesis using after by (simp add: UMon_new_def Let_def)
qed

lemma um_run_ok:
  assumes "um_after hf ys u" "0 \<notin> set xs" "0 \<notin> set ys" "\<And>x. \<exists>h0 h1. hf 0 x = Some h0 \<and> hf 1 x = Some h1"
  shows "\<exists>u'. run_all (um_access hf) u xs = Some u' \<and> um_after hf (ys @ xs) u' \<and> um_same u u'"
  using assms(1-3)
proof (induction xs arbitrary: u ys)
  case Nil
  then show ?case by (simp add: um_same_def)
next
  case (Cons x xs)
  obtain h0 h1 where "hf 0 x = Some h0" "hf 1 x = Some h1" using assms(4) by blast
  from um_access_ok [OF Cons.prems(1) _ Cons.prems(3) this] Cons.prems(2) obtain u1 where
    u1: "um_access hf u x = Some u1" "um_after hf (ys @ [x]) u1" "um_same u u1" by auto
  with Cons.IH [of "ys @ [x]" u1] Cons.prems show ?case by (auto simp: um_same_def)
qed

lemma um_getMisses_ok:
  assumes u: "um_shape u" and m: "length misses = Suc (unat (ubuckets u))"
  shows "\<exists>m. um_getMisses u misses = Some m \<and> length m = Suc (unat (ubuckets u))
           \<and> (\<forall>b \<le> unat (ubuckets u). m ! b = curMisses u + sum_list (drop b (curWayHits u)))"
proof -
  let ?nb = "unat (ubuckets u)"
  let ?c = "\<lambda>b. curMisses u + sum_list (drop b (curWayHits u))"
  let ?I = "\<lambda>i s. length (fst s) = Suc ?nb \<and> snd s = ?c (?nb - i) \<and> (\<forall>b \<le> ?nb. ?nb - i < b \<longrightarrow> fst s ! b = ?c b)"
  have len: "length (curWayHits u) = ?nb" using u by (simp add: um_shape_def)
  have "\<exists>s. run_all (um_missStep u) (misses, curMisses u) [0..<?nb] = Some s \<and> ?I ?nb s"
  proof (rule run_all_upto [where I = ?I])
    show "?I 0 (misses, curMisses u)" using m len by simp
    fix i s
    assume i: "i < ?nb" and s: "?I i s"
    let ?j = "?nb - i - 1"
    have "drop ?j (curWayHits u) = curWayHits u ! ?j # drop (?nb - i) (curWayHits u)"
      using i len Cons_nth_drop_Suc [of ?j "curWayHits u"] by (simp add: Suc_diff_Suc)
    then have "?c ?j = ?c (?nb - i) + curWayHits u ! ?j" by (simp add: add_ac)
    moreover have "b \<le> ?nb \<Longrightarrow> ?nb - Suc i < b \<Longrightarrow> b = ?nb - i \<or> ?nb - i < b" for b using i by linarith
    ultimately show "\<exists>s'. um_missStep u s i = Some s' \<and> ?I (Suc i) s'"
      using s i len by (auto simp: um_missStep_def nth_list_update)
  qed
  then obtain s where s: "run_all (um_missStep u) (misses, curMisses u) [0..<?nb] = Some s" "?I ?nb s" by blast
  have "(fst s)[0 := snd s] ! b = ?c b" if "b \<le> ?nb" for b using s(2) that by (cases b) auto
  then show ?thesis using s by (auto simp: um_getMisses_def split: prod.splits)
qed


section \<open>The monitors of a cache\<close>

text \<open>
  One monitor per partition and a cache of their miss curves.  Interpolated curves are computed in double precision:
  \<open>rnd\<close> is the rounding of a rational to a double, applied after every operation.
\<close>

record UMonMonitor =
  mbuckets :: u32
  missCache :: "u32 list"
  missCacheValid :: bool
  monitors :: "UMon list"

definition mm_add :: "u32 \<Rightarrow> u32 \<Rightarrow> u32 \<Rightarrow> UMon list \<Rightarrow> nat \<Rightarrow> UMon list option" where
  "mm_add numLines mlines nb ms i = do { m \<leftarrow> UMon_new numLines mlines nb; Some (ms @ [m]) }"

definition UMonMonitor_new :: "u32 \<Rightarrow> u32 \<Rightarrow> u32 \<Rightarrow> u32 \<Rightarrow> u32 \<Rightarrow> UMonMonitor option" where
  "UMonMonitor_new numLines mlines nb numPartitions nbuckets = do {
     _ \<leftarrow> require (numPartitions > 0);
     ms \<leftarrow> run_all (mm_add numLines mlines nb) [] [0..<unat numPartitions];
     Some \<lparr>mbuckets = nbuckets, missCache = replicate (unat (nbuckets * numPartitions)) 0, missCacheValid = False, monitors = ms\<rparr>
   }"

definition mm_access :: "hash_fn \<Rightarrow> UMonMonitor \<Rightarrow> u32 \<Rightarrow> u64 \<Rightarrow> UMonMonitor option" where
  "mm_access hf mm part addr = do {
     _ \<leftarrow> require (unat part < length (monitors mm));
     m \<leftarrow> aget (monitors mm) (unat part);
     m' \<leftarrow> um_access hf m addr;
     _ \<leftarrow> require (\<not> missCacheValid mm);
     Some (mm\<lparr>monitors := (monitors mm)[unat part := m'], missCacheValid := False\<rparr>)
   }"

definition mm_getNumAccesses :: "UMonMonitor \<Rightarrow> u32 \<Rightarrow> u32 option" where
  "mm_getNumAccesses mm part = do {
     m \<leftarrow> aget (monitors mm) (unat part);
     n \<leftarrow> um_getNumAccesses m;
     Some (ucast n)
   }"

text \<open>The value between two points of the curve, at \<open>k/ratio\<close> of the way.\<close>

definition mm_between :: "(rat \<Rightarrow> rat) \<Rightarrow> u64 \<Rightarrow> u64 \<Rightarrow> nat \<Rightarrow> nat \<Rightarrow> u32" where
  "mm_between rnd x0 x1 k ratio =
     (let m0 = rnd (of_nat (unat x0)); m1 = rnd (of_nat (unat x1));
          frac = rnd (of_nat k / of_nat ratio);
          m = rnd (rnd (m0 * rnd (1 - frac)) + rnd (m1 * frac))
      in ucast (word_of_int \<lfloor>m\<rfloor> :: u64))"

definition mm_upsample :: "(rat \<Rightarrow> rat) \<Rightarrow> u64 list \<Rightarrow> nat \<Rightarrow> nat \<Rightarrow> nat \<Rightarrow> nat \<Rightarrow> u32 list \<Rightarrow> nat \<Rightarrow> u32 list option" where
  "mm_upsample rnd um nb nbuckets ratio off c j = do {
     x0 \<leftarrow> aget um j;
     c1 \<leftarrow> aset c (off + ratio * j) (ucast x0);
     x1 \<leftarrow> aget um (j + 1);
     c2 \<leftarrow> run_all (\<lambda>c k. aset c (off + ratio * j + k) (mm_between rnd x0 x1 k ratio)) c1 [1..<ratio];
     z \<leftarrow> aget um nb;
     aset c2 (off + nbuckets) (ucast z)
   }"

text \<open>\<open>getMissCurve\<close>, with \<open>misses\<close> the part of the cache from \<open>off\<close> on; the local array has one entry per bucket.\<close>

definition mm_getMissCurve :: "(rat \<Rightarrow> rat) \<Rightarrow> UMonMonitor \<Rightarrow> u32 list \<Rightarrow> nat \<Rightarrow> nat \<Rightarrow> u32 list option" where
  "mm_getMissCurve rnd mm c off part = do {
     m \<leftarrow> aget (monitors mm) part;
     let nb = unat (ubuckets m);
     let nbuckets = unat (mbuckets mm);
     um \<leftarrow> um_getMisses m (replicate nb 0);
     (if nb \<ge> nbuckets then do {
        _ \<leftarrow> require (nbuckets \<noteq> 0);
        let ratio = nb div nbuckets;
        _ \<leftarrow> require (nb mod nbuckets = 0);
        c1 \<leftarrow> run_all (\<lambda>c j. do { x \<leftarrow> aget um (j * ratio); aset c (off + j) (ucast x) }) c [0..<nbuckets];
        z \<leftarrow> aget um nb;
        aset c1 (off + nbuckets) (ucast z)
      } else do {
        _ \<leftarrow> require (nb \<noteq> 0);
        let ratio = nbuckets div nb;
        _ \<leftarrow> require (nbuckets mod nb = 0);
        run_all (mm_upsample rnd um nb nbuckets ratio off) c [0..<nb]
      })
   }"

definition mm_getMissCurves :: "(rat \<Rightarrow> rat) \<Rightarrow> UMonMonitor \<Rightarrow> u32 list option" where
  "mm_getMissCurves rnd mm =
     run_all (\<lambda>c p. mm_getMissCurve rnd mm c (p * unat (mbuckets mm)) p) (missCache mm) [0..<length (monitors mm)]"

definition mm_get :: "(rat \<Rightarrow> rat) \<Rightarrow> UMonMonitor \<Rightarrow> u32 \<Rightarrow> u32 \<Rightarrow> (UMonMonitor \<times> u32) option" where
  "mm_get rnd mm part bucket = do {
     _ \<leftarrow> require (unat part < length (monitors mm));
     mm1 \<leftarrow> (if missCacheValid mm then Some mm
             else do { c \<leftarrow> mm_getMissCurves rnd mm; Some (mm\<lparr>missCache := c, missCacheValid := True\<rparr>) });
     x \<leftarrow> aget (missCache mm1) (unat (part * mbuckets mm1 + bucket));
     Some (mm1, x)
   }"

definition mm_reset :: "UMonMonitor \<Rightarrow> UMonMonitor" where
  "mm_reset mm = mm\<lparr>monitors := map um_startNextInterval (monitors mm), missCacheValid := False\<rparr>"

section \<open>Accesses to any line\<close>

text \<open>What a monitor keeps over accesses to any lines, address 0 included: its sets stay lists of all their nodes.\<close>

definition um_safe :: "UMon \<Rightarrow> bool" where
  "um_safe u \<longleftrightarrow> um_shape u \<and> (\<forall>s < unat (usets u). \<exists>as. um_set (unat (ubuckets u)) (unodes u ! s) (uheads u ! s) as)"

lemma um_set_access:
  assumes s: "um_set nb ns h as" and nb: "0 < nb"
  shows "\<exists>prev cur hit ns1 ns' h' as'. um_walk ns a nb None h [0..<nb] = Some (prev, cur, hit)
     \<and> (case hit of Some b \<Rightarrow> b < nb \<and> ns1 = ns
        | None \<Rightarrow> cur < length ns \<and> unext (ns ! cur) = None \<and> ns1 = ns[cur := (ns ! cur)\<lparr>uaddr := a\<rparr>])
     \<and> um_front ns1 h prev cur = Some (ns', h') \<and> um_set nb ns' h' as'"
proof (cases "a \<in> set as")
  case True
  define b where "b = (LEAST i. i < nb \<and> as ! i = a)"
  have "\<exists>i. i < nb \<and> as ! i = a" using True um_set_length [OF s] by (metis in_set_conv_nth)
  then have b: "b < nb \<and> as ! b = a" unfolding b_def by (rule LeastI_ex)
  moreover have "\<not> (i < nb \<and> as ! i = a)" if "i < b" for i using not_less_Least [of i] that unfolding b_def by blast
  then have "a \<notin> set (take b as)" using b um_set_length [OF s] by (auto simp: in_set_conv_nth)
  ultimately show ?thesis using um_hit_ok [OF s, of b a] by fastforce
next
  case False
  then show ?thesis using um_miss_ok [OF s nb] by fastforce
qed

lemma um_access_safe:
  assumes u: "um_safe u" and hf: "hf 0 x = Some h0" "hf 1 x = Some h1"
  shows "\<exists>u'. um_access hf u x = Some u' \<and> um_safe u'"
proof (cases "h0 AND low_mask (samplingFactorBits u) = 0")
  case False
  then show ?thesis using hf(1) u by (simp add: um_access_def)
next
  case True
  let ?s = "unat (h1 AND low_mask (setsBits u))" and ?nb = "unat (ubuckets u)"
  have sh: "0 < ?nb" "length (unodes u) = unat (usets u)" "length (uheads u) = unat (usets u)" "length (curWayHits u) = ?nb"
    "?s < unat (usets u)" using u by (simp_all add: um_safe_def um_shape_def)
  then obtain as where as: "um_set ?nb (unodes u ! ?s) (uheads u ! ?s) as" using u by (auto simp: um_safe_def)
  obtain prev cur hit ns1 ns' h' as' where w: "um_walk (unodes u ! ?s) x ?nb None (uheads u ! ?s) [0..<?nb] = Some (prev, cur, hit)"
    "case hit of Some b \<Rightarrow> b < ?nb \<and> ns1 = unodes u ! ?s
        | None \<Rightarrow> cur < length (unodes u ! ?s) \<and> unext (unodes u ! ?s ! cur) = None \<and> ns1 = (unodes u ! ?s)[cur := (unodes u ! ?s ! cur)\<lparr>uaddr := x\<rparr>]"
    "um_front ns1 (uheads u ! ?s) prev cur = Some (ns', h')" "um_set ?nb ns' h' as'"
    using um_set_access [OF as sh(1)] by blast
  define u1 where "u1 = (case hit of Some b \<Rightarrow> u\<lparr>curWayHits := (curWayHits u)[b := curWayHits u ! b + 1]\<rparr> | None \<Rightarrow> u\<lparr>curMisses := curMisses u + 1\<rparr>)"
  let ?u = "u1\<lparr>unodes := (unodes u)[?s := ns'], uheads := (uheads u)[?s := h']\<rparr>"
  have u1: "unodes u1 = unodes u" "uheads u1 = uheads u" "ubuckets u1 = ubuckets u" "usets u1 = usets u" "setsBits u1 = setsBits u"
    "length (curWayHits u1) = ?nb" using sh(4) by (simp_all add: u1_def split: option.split)
  have "um_access hf u x = Some ?u"
    using hf True sh w u1(1,2) by (cases hit) (simp_all add: um_access_def Let_def u1_def)
  moreover have "um_safe ?u" using u sh w(4) u1 by (auto simp: um_safe_def um_shape_def nth_list_update)
  ultimately show ?thesis by blast
qed

lemma um_new_safe: "0 < unat nb \<Longrightarrow> nb \<le> mlines \<Longrightarrow> \<exists>u. UMon_new bankLines mlines nb = Some u \<and> um_safe u"
  using um_new_ok [of nb mlines bankLines] by (fastforce simp: um_after_def um_safe_def)

text \<open>The monitors of \<open>parts\<close> partitions while no curve is cached.\<close>

definition mm_ok :: "nat \<Rightarrow> UMonMonitor \<Rightarrow> bool" where
  "mm_ok parts mm \<longleftrightarrow> length (monitors mm) = parts \<and> \<not> missCacheValid mm \<and> (\<forall>m \<in> set (monitors mm). um_safe m)"

lemma mm_access_ok:
  assumes "mm_ok parts mm" "unat q < parts" "hf 0 x = Some h0" "hf 1 x = Some h1"
  shows "\<exists>mm'. mm_access hf mm q x = Some mm' \<and> mm_ok parts mm'"
proof -
  have "um_safe (monitors mm ! unat q)" using assms(1,2) by (auto simp: mm_ok_def)
  from um_access_safe [where hf = hf and x = x, OF this assms(3,4)] obtain m where m: "um_access hf (monitors mm ! unat q) x = Some m" "um_safe m" by blast
  then show ?thesis using assms(1,2) by (auto simp: mm_access_def mm_ok_def dest: set_update_subset_insert [THEN subsetD])
qed

lemma mm_new_ok:
  assumes "0 < unat nb" "nb \<le> mlines" "0 < unat parts"
  shows "\<exists>mm. UMonMonitor_new bankLines mlines nb parts buckets = Some mm \<and> mm_ok (unat parts) mm"
proof -
  obtain u where u: "UMon_new bankLines mlines nb = Some u" "um_safe u" using um_new_safe [OF assms(1,2)] by blast
  have "run_all (mm_add bankLines mlines nb) [] [0..<k] = Some (replicate k u)" for k
    by (induction k) (auto simp: run_all_snoc mm_add_def u(1) replicate_append_same)
  moreover have "parts > 0" using assms(3) by (simp add: word_less_nat_alt)
  ultimately show ?thesis using u(2) by (auto simp: UMonMonitor_new_def mm_ok_def)
qed

section \<open>Properties\<close>

text \<open>
  Claim C38. The miss curve of a utility monitor is exact: after any string of references to lines other than 0, entry \<open>b\<close>
  of the curve is the number of sampled references that miss when every sampled set is a true LRU set of \<open>b\<close> ways, for
  every \<open>b\<close> up to the number of buckets at once (modulo \<open>2^64\<close>).
\<close>

theorem umon_miss_curve:
  assumes "0 < unat nb" "nb \<le> mlines" "0 \<notin> set xs" "\<And>x. \<exists>h0 h1. hf 0 x = Some h0 \<and> hf 1 x = Some h1"
  shows "\<exists>u u' m. UMon_new bankLines mlines nb = Some u \<and> run_all (um_access hf) u xs = Some u'
     \<and> um_getMisses u' (replicate (Suc (unat nb)) 0) = Some m
     \<and> (\<forall>b \<le> unat nb. m ! b = of_nat (\<Sum>s < unat (mlines div nb). stack_misses b (filter (um_goes hf u s) xs)))"
proof -
  from um_new_ok [OF assms(1,2)] obtain u where
    u: "UMon_new bankLines mlines nb = Some u" "um_after hf [] u" "ubuckets u = nb" "usets u = mlines div nb" by blast
  from um_run_ok [OF u(2) assms(3) _ assms(4)] obtain u' where
    u': "run_all (um_access hf) u xs = Some u'" "um_after hf xs u'" "um_same u u'" by auto
  have nb: "ubuckets u' = nb" using u'(3) u(3) by (simp add: um_same_def)
  from um_getMisses_ok [of u' "replicate (Suc (unat nb)) 0"] u'(2) nb obtain m where
    m: "um_getMisses u' (replicate (Suc (unat nb)) 0) = Some m"
       "\<forall>b \<le> unat nb. m ! b = curMisses u' + sum_list (drop b (curWayHits u'))" by (auto simp: um_after_def)
  have "m ! b = of_nat (\<Sum>s < unat (mlines div nb). stack_misses b (filter (um_goes hf u s) xs))" if "b \<le> unat nb" for b
    using m(2) that u'(2) nb um_curve_same [OF u'(3), of hf] u(4) by (simp add: um_after_def um_curve_def um_refs_def)
  then show ?thesis using u(1) u'(1) m(1) by blast
qed

theorem umon_miss_curve_witness:
  "\<exists>u u' m. UMon_new 64 8 2 = Some u \<and> run_all (um_access (\<lambda>i x. Some x)) u [8, 40, 8, 72, 40] = Some u'
     \<and> um_getMisses u' (replicate 3 0) = Some m
     \<and> (\<forall>b \<le> 2. m ! b = of_nat (\<Sum>s < 4. stack_misses b (filter (um_goes (\<lambda>i x. Some x) u s) [8, 40, 8, 72, 40])))"
proof -
  have e: "unat (8 div 2 :: u32) = 4" "Suc 2 = (3 :: nat)" "unat (2 :: u32) = 2" by simp_all
  have "0 < unat (2 :: u32)" "(2 :: u32) \<le> 8" "0 \<notin> set [8, 40, 8, 72, 40 :: u64]"
    "\<And>x. \<exists>h0 h1. Some (x :: u64) = Some h0 \<and> Some x = Some h1" by simp_all
  from umon_miss_curve [where hf = "\<lambda>i x. Some x" and bankLines = 64, OF this] show ?thesis unfolding e .
qed

text \<open>
  Claim C39. Miss curves cannot be read: \<open>getMissCurve\<close> hands \<open>getMisses\<close> an array with one entry per bucket, and the
  curve has one entry more, so the first \<open>get\<close> of an interval writes past the array.
\<close>

theorem umon_get_overflows:
  assumes "unat part < length (monitors mm)" "\<not> missCacheValid mm" "\<forall>m\<in>set (monitors mm). um_shape m"
  shows "mm_get rnd mm part bucket = None"
proof -
  let ?m = "monitors mm ! 0"
  have l: "0 < length (monitors mm)" using assms(1) by linarith
  then have "um_shape ?m" using assms(3) by simp
  then have nb: "0 < unat (ubuckets ?m)" by (simp add: um_shape_def)
  then have "[0..<unat (ubuckets ?m)] = 0 # [1..<unat (ubuckets ?m)]" by (simp add: upt_conv_Cons)
  then have "um_getMisses ?m (replicate (unat (ubuckets ?m)) 0) = None"
    by (simp add: um_getMisses_def um_missStep_def aset_def)
  then have "mm_getMissCurve rnd mm c 0 0 = None" for c using l by (simp add: mm_getMissCurve_def)
  moreover have "[0..<length (monitors mm)] = 0 # [1..<length (monitors mm)]" using l by (simp add: upt_conv_Cons)
  ultimately have "mm_getMissCurves rnd mm = None" by (simp add: mm_getMissCurves_def)
  then show ?thesis using assms(2) by (simp add: mm_get_def)
qed

theorem umon_get_overflows_witness:
  "\<exists>mm. UMonMonitor_new 64 8 2 1 2 = Some mm \<and> mm_get (\<lambda>x. x) mm 0 1 = None"
proof -
  from um_new_ok [of 2 8 64 "\<lambda>i x. Some x"] obtain u where u: "UMon_new 64 8 2 = Some u" "um_shape u" by (auto simp: um_after_def)
  then have "UMonMonitor_new 64 8 2 1 2 = Some \<lparr>mbuckets = 2, missCache = replicate 2 0, missCacheValid = False, monitors = [u]\<rparr>"
    by (simp add: UMonMonitor_new_def mm_add_def)
  moreover have "mm_get (\<lambda>x. x) \<lparr>mbuckets = 2, missCache = replicate 2 0, missCacheValid = False, monitors = [u]\<rparr> 0 1 = None"
    by (rule umon_get_overflows) (use u in simp_all)
  ultimately show ?thesis by blast
qed

end
