(* ===== verification/PartRepl.thy ===== *)
theory PartRepl
  imports ReplPolicies UMon
begin

text \<open>
  Partitioned replacement: the mappers from requests to partitions (\<open>src/src/partition_mapper.h\<close> and
  \<open>partition_mapper.cpp\<close>) and way partitioning (\<open>WayPartReplPolicy\<close> of \<open>src/src/part_repl_policies.h\<close>).
  A mapper is its number of partitions with a function that may fail; the process a request belongs to, the global
  \<open>procIdx\<close>, and the groups of the processes are arguments.  The monitor of a policy is its state \<open>'m\<close> with a function
  \<open>macc\<close> for \<open>PartitionMonitor::access\<close>; theory \<open>UMon\<close> holds the one of the code.
\<close>

section \<open>Partition mappers\<close>

record PartMapper =
  getNumPartitions :: u32
  getPartition :: "MemReq \<Rightarrow> u32 option"

definition CorePartMapper :: "u32 \<Rightarrow> PartMapper" where
  "CorePartMapper numCores = \<lparr>getNumPartitions = numCores, getPartition = (\<lambda>req. Some (srcId req))\<rparr>"

definition InstrDataPartMapper :: PartMapper where
  "InstrDataPartMapper = \<lparr>getNumPartitions = 2, getPartition = (\<lambda>req. Some (flags req AND IFETCH))\<rparr>"

definition InstrDataCorePartMapper :: "u32 \<Rightarrow> PartMapper" where
  "InstrDataCorePartMapper numCores = \<lparr>getNumPartitions = 2 * numCores,
     getPartition = (\<lambda>req. let instr = (flags req AND IFETCH \<noteq> 0) in Some (srcId req + (if instr then numCores else 0)))\<rparr>"

definition ProcessPartMapper :: "u32 \<Rightarrow> u32 \<Rightarrow> PartMapper" where
  "ProcessPartMapper procIdx numProcs = \<lparr>getNumPartitions = numProcs,
     getPartition = (\<lambda>req. do { _ \<leftarrow> require (procIdx < numProcs); Some procIdx })\<rparr>"

definition InstrDataProcessPartMapper :: "u32 \<Rightarrow> u32 \<Rightarrow> PartMapper" where
  "InstrDataProcessPartMapper procIdx numProcs = \<lparr>getNumPartitions = 2 * numProcs,
     getPartition = (\<lambda>req. do {
       _ \<leftarrow> require (procIdx < numProcs);
       let instr = (flags req AND IFETCH \<noteq> 0);
       Some (procIdx + (if instr then numProcs else 0)) })\<rparr>"

definition ProcessGroupPartMapper :: "u32 \<Rightarrow> u32 list \<Rightarrow> u32 \<Rightarrow> PartMapper" where
  "ProcessGroupPartMapper procIdx groupIdxs numProcGroups = \<lparr>getNumPartitions = numProcGroups,
     getPartition = (\<lambda>req. do {
       groupIdx \<leftarrow> aget groupIdxs (unat procIdx);
       _ \<leftarrow> require (groupIdx < numProcGroups);
       Some groupIdx })\<rparr>"

section \<open>Way partitioning\<close>

definition amod :: "'x list \<Rightarrow> nat \<Rightarrow> ('x \<Rightarrow> 'x) \<Rightarrow> 'x list option" where
  "amod xs i f = do { x \<leftarrow> aget xs i; aset xs i (f x) }"

record PartInfo =
  psize :: u64
  targetSize :: u64
  profHits :: u64
  profMisses :: u64
  profSelfEvictions :: u64
  profExtEvictions :: u64

record WayPartInfo =
  waddr :: u64
  wts :: u64
  wpart :: u32

record 'm WayPartReplPolicy =
  wmonitor :: 'm
  wmapper :: PartMapper
  wpartInfo :: "PartInfo list"
  wpartitions :: u32
  wtotalSize :: u32
  waySize :: u32
  ways :: u32
  warray :: "WayPartInfo list"
  wayPartIndex :: "u32 list"
  testMode :: bool
  wbestId :: int
  wcandIdx :: u32
  incomingLinePart :: u32
  incomingLineAddr :: u64
  wtimestamp :: u64

definition PartInfo_zero :: PartInfo where
  "PartInfo_zero = \<lparr>psize = 0, targetSize = 0, profHits = 0, profMisses = 0, profSelfEvictions = 0, profExtEvictions = 0\<rparr>"

text \<open>The initial assignment of way \<open>w\<close>; the index array grows with the loop.\<close>

definition way_assign :: "u32 \<Rightarrow> u32 \<Rightarrow> u32 \<Rightarrow> PartInfo list \<times> u32 list \<Rightarrow> nat \<Rightarrow> (PartInfo list \<times> u32 list) option" where
  "way_assign parts nways wsize s w = do {
     let p = of_nat w * parts div nways;
     idx \<leftarrow> aset (snd s) w p;
     infos \<leftarrow> amod (fst s) (unat p) (\<lambda>i. i\<lparr>targetSize := targetSize i + ucast wsize\<rparr>);
     Some (infos, idx)
   }"

text \<open>\<open>part0\<close> and \<open>addr0\<close> are the values of the two fields that the constructor leaves uninitialised.\<close>

definition WayPartReplPolicy_new :: "'m \<Rightarrow> PartMapper \<Rightarrow> u64 \<Rightarrow> u32 \<Rightarrow> bool \<Rightarrow> u32 \<Rightarrow> u64 \<Rightarrow> 'm WayPartReplPolicy option" where
  "WayPartReplPolicy_new monitor mapper nlines nways test part0 addr0 = do {
     let tot = (ucast nlines :: u32);
     let parts = getNumPartitions mapper;
     _ \<leftarrow> require (nways \<noteq> 0);
     let wsize = tot div nways;
     _ \<leftarrow> require (wsize * nways = tot);
     infos \<leftarrow> amod (replicate (unat parts) PartInfo_zero) 0 (\<lambda>i. i\<lparr>psize := ucast tot\<rparr>);
     (infos', idx) \<leftarrow> run_all (way_assign parts nways wsize) (infos, replicate (unat nways) 0) [0..<unat nways];
     Some \<lparr>wmonitor = monitor, wmapper = mapper, wpartInfo = infos', wpartitions = parts, wtotalSize = tot,
       waySize = wsize, ways = nways, warray = replicate (unat tot) \<lparr>waddr = 0, wts = 0, wpart = 0\<rparr>,
       wayPartIndex = idx, testMode = test, wbestId = -1, wcandIdx = 0, incomingLinePart = part0,
       incomingLineAddr = addr0, wtimestamp = 1\<rparr>
   }"

definition way_update :: "('m \<Rightarrow> u32 \<Rightarrow> u64 \<Rightarrow> 'm option) \<Rightarrow> 'm WayPartReplPolicy \<Rightarrow> nat \<Rightarrow> MemReq option \<Rightarrow> 'm WayPartReplPolicy option" where
  "way_update macc p lid req = do {
     e \<leftarrow> aget (warray p) lid;
     (infos, part) \<leftarrow> (if wts e > 0 then do {
         infos \<leftarrow> amod (wpartInfo p) (unat (wpart e)) (\<lambda>i. i\<lparr>profHits := profHits i + 1\<rparr>);
         Some (infos, wpart e)
       } else do {
         let oldPart = wpart e;
         let newPart = incomingLinePart p;
         infos \<leftarrow> (if oldPart \<noteq> newPart then do {
             i1 \<leftarrow> amod (wpartInfo p) (unat oldPart) (\<lambda>i. i\<lparr>psize := psize i - 1, profExtEvictions := profExtEvictions i + 1\<rparr>);
             amod i1 (unat newPart) (\<lambda>i. i\<lparr>psize := psize i + 1\<rparr>)
           } else amod (wpartInfo p) (unat oldPart) (\<lambda>i. i\<lparr>profSelfEvictions := profSelfEvictions i + 1\<rparr>));
         infos' \<leftarrow> amod infos (unat newPart) (\<lambda>i. i\<lparr>profMisses := profMisses i + 1\<rparr>);
         Some (infos', newPart)
       });
     arr \<leftarrow> aset (warray p) lid (e\<lparr>wpart := part, wts := wtimestamp p\<rparr>);
     m \<leftarrow> macc (wmonitor p) part (waddr e);
     Some (p\<lparr>wpartInfo := infos, warray := arr, wtimestamp := wtimestamp p + 1, wmonitor := m\<rparr>)
   }"

definition way_startReplacement :: "'m WayPartReplPolicy \<Rightarrow> MemReq option \<Rightarrow> 'm WayPartReplPolicy option" where
  "way_startReplacement p reqp = do {
     _ \<leftarrow> require (wcandIdx p = 0);
     _ \<leftarrow> require (wbestId p = -1);
     req \<leftarrow> reqp;
     part \<leftarrow> getPartition (wmapper p) req;
     Some (p\<lparr>incomingLinePart := part, incomingLineAddr := lineAddr req\<rparr>)
   }"

text \<open>Whether candidate \<open>c\<close> replaces the best one so far.\<close>

definition way_better :: "bool \<Rightarrow> u32 \<Rightarrow> WayPartInfo \<Rightarrow> WayPartInfo \<Rightarrow> bool" where
  "way_better test part c best =
     (if test \<or> (wpart c = part \<and> wpart best = part) then wts c < wts best
      else if wpart c = part \<and> wpart best \<noteq> part then False
      else if wpart c \<noteq> part \<and> wpart best = part then True
      else wts c < wts best)"

definition way_recordCandidate :: "'m WayPartReplPolicy \<Rightarrow> nat \<Rightarrow> 'm WayPartReplPolicy option" where
  "way_recordCandidate p lid = do {
     _ \<leftarrow> require (wcandIdx p < ways p);
     c \<leftarrow> aget (warray p) lid;
     best \<leftarrow> (if wbestId p \<ge> 0 then map_option Some (aget (warray p) (nat (wbestId p))) else Some None);
     let way = wcandIdx p;
     let p1 = p\<lparr>wcandIdx := way + 1\<rparr>;
     fill \<leftarrow> (if testMode p then Some True else do { q \<leftarrow> aget (wayPartIndex p) (unat way); Some (q = incomingLinePart p) });
     (if fill then
        (case best of
           None \<Rightarrow> Some (p1\<lparr>wbestId := int lid\<rparr>)
         | Some b \<Rightarrow> if way_better (testMode p) (incomingLinePart p) c b then Some (p1\<lparr>wbestId := int lid\<rparr>) else Some p1)
      else Some p1)
   }"

definition way_getBestCandidate :: "'m WayPartReplPolicy \<Rightarrow> ('m WayPartReplPolicy \<times> nat) option" where
  "way_getBestCandidate p = do { _ \<leftarrow> require (wbestId p \<ge> 0); Some (p, nat (wbestId p)) }"

definition way_rank :: "'m WayPartReplPolicy \<Rightarrow> MemReq option \<Rightarrow> nat list \<Rightarrow> ('m WayPartReplPolicy \<times> nat) option" where
  "way_rank p req cands = do {
     p1 \<leftarrow> way_startReplacement p req;
     legacy_rank way_recordCandidate way_getBestCandidate p1 req cands
   }"

definition way_replaced :: "'m WayPartReplPolicy \<Rightarrow> nat \<Rightarrow> 'm WayPartReplPolicy option" where
  "way_replaced p lid = do {
     arr \<leftarrow> amod (warray p) lid (\<lambda>e. e\<lparr>wts := 0, waddr := incomingLineAddr p\<rparr>);
     Some (p\<lparr>wcandIdx := 0, wbestId := -1, warray := arr\<rparr>)
   }"

text \<open>\<open>setPartitionSizes\<close>: partition \<open>q\<close> gets the next \<open>waysPart[q]\<close> ways.\<close>

definition way_fillPart :: "u32 \<Rightarrow> u32 list \<times> u32 \<Rightarrow> nat \<Rightarrow> (u32 list \<times> u32) option" where
  "way_fillPart q s i = do { idx \<leftarrow> aset (fst s) (unat (snd s)) q; Some (idx, snd s + 1) }"

definition way_sizePart :: "u32 \<Rightarrow> u32 \<Rightarrow> u32 list \<Rightarrow> PartInfo list \<times> u32 list \<times> u32 \<Rightarrow> nat \<Rightarrow> (PartInfo list \<times> u32 list \<times> u32) option" where
  "way_sizePart tot nways waysPart s q = do {
     k \<leftarrow> aget waysPart q;
     _ \<leftarrow> require (nways \<noteq> 0);
     infos \<leftarrow> amod (fst s) q (\<lambda>i. i\<lparr>targetSize := ucast (tot * k div nways)\<rparr>);
     (idx, cur) \<leftarrow> run_all (way_fillPart (of_nat q)) (snd s) [0..<unat k];
     Some (infos, idx, cur)
   }"

definition way_setPartitionSizes :: "'m WayPartReplPolicy \<Rightarrow> u32 list \<Rightarrow> 'm WayPartReplPolicy option" where
  "way_setPartitionSizes p waysPart = do {
     (infos, idx, curWay) \<leftarrow> run_all (way_sizePart (wtotalSize p) (ways p) waysPart) (wpartInfo p, wayPartIndex p, 0)
                               [0..<unat (wpartitions p)];
     _ \<leftarrow> require (curWay = ways p);
     Some (p\<lparr>wpartInfo := infos, wayPartIndex := idx\<rparr>)
   }"


section \<open>The victim\<close>

lemma amod_Some: "amod xs i f = Some ys \<longleftrightarrow> i < length xs \<and> ys = xs[i := f (xs ! i)]"
  by (auto simp: amod_def aget_def aset_def)

lemma amod_in [simp]: "i < length xs \<Longrightarrow> amod xs i f = Some (xs[i := f (xs ! i)])"
  by (simp add: amod_def)

text \<open>The order of candidates: lines of other partitions first, then by age; in test mode by age only.\<close>

definition way_le :: "bool \<Rightarrow> u32 \<Rightarrow> WayPartInfo \<Rightarrow> WayPartInfo \<Rightarrow> bool" where
  "way_le test part x y =
     (if test \<or> (wpart x = part \<longleftrightarrow> wpart y = part) then wts x \<le> wts y else wpart x \<noteq> part)"

lemma way_le_refl [simp]: "way_le t q x x"
  by (simp add: way_le_def)

lemma way_le_trans: "way_le t q x y \<Longrightarrow> way_le t q y z \<Longrightarrow> way_le t q x z"
  by (auto simp: way_le_def split: if_splits)

lemma way_better_le: "way_better t q c b \<Longrightarrow> way_le t q c b" "\<not> way_better t q c b \<Longrightarrow> way_le t q b c"
  by (auto simp: way_better_def way_le_def split: if_splits)

lemma unat_below_u32: "j < unat (x :: u32) \<Longrightarrow> unat (of_nat j :: u32) = j"
  using less_trans [OF _ unat_u32_lt] by (simp add: unat_of_nat take_bit_nat_eq_self_iff)

text \<open>Whether the incoming line may be put in way \<open>w\<close>.\<close>

definition way_fillable :: "'m WayPartReplPolicy \<Rightarrow> nat \<Rightarrow> bool" where
  "way_fillable p w \<longleftrightarrow> testMode p \<or> wayPartIndex p ! w = incomingLinePart p"

text \<open>The policy \<open>q\<close> after \<open>j\<close> of the candidates \<open>cs\<close> were recorded from \<open>p\<close>.\<close>

definition way_recorded :: "'m WayPartReplPolicy \<Rightarrow> nat list \<Rightarrow> nat \<Rightarrow> 'm WayPartReplPolicy \<Rightarrow> bool" where
  "way_recorded p cs j q \<longleftrightarrow> (\<exists>b. q = p\<lparr>wcandIdx := of_nat j, wbestId := b\<rparr>
     \<and> ((b = -1 \<and> (\<forall>w < j. \<not> way_fillable p w))
        \<or> (\<exists>w < j. way_fillable p w \<and> b = int (cs ! w)
             \<and> (\<forall>v < j. way_fillable p v \<longrightarrow>
                   way_le (testMode p) (incomingLinePart p) (warray p ! (cs ! w)) (warray p ! (cs ! v))))))"

lemma way_recorded_none: "\<forall>w < j. \<not> way_fillable p w \<Longrightarrow> way_recorded p cs j (p\<lparr>wcandIdx := of_nat j, wbestId := -1\<rparr>)"
  unfolding way_recorded_def by blast

lemma way_recorded_some:
  assumes "w < j" "way_fillable p w" "\<forall>v < j. way_fillable p v \<longrightarrow>
     way_le (testMode p) (incomingLinePart p) (warray p ! (cs ! w)) (warray p ! (cs ! v))"
  shows "way_recorded p cs j (p\<lparr>wcandIdx := of_nat j, wbestId := int (cs ! w)\<rparr>)"
  unfolding way_recorded_def using assms by blast

lemma way_record_step:
  assumes r: "way_recorded p cs j q" and j: "j < length cs" and k: "length cs = unat (ways p)" "length (wayPartIndex p) = unat (ways p)"
    and cs: "set cs \<subseteq> {..<length (warray p)}"
  shows "\<exists>q'. way_recordCandidate q (cs ! j) = Some q' \<and> way_recorded p cs (Suc j) q'"
proof -
  from r obtain b where q: "q = p\<lparr>wcandIdx := of_nat j, wbestId := b\<rparr>"
    and b: "(b = -1 \<and> (\<forall>w < j. \<not> way_fillable p w)) \<or> (\<exists>w < j. way_fillable p w \<and> b = int (cs ! w)
             \<and> (\<forall>v < j. way_fillable p v \<longrightarrow>
                   way_le (testMode p) (incomingLinePart p) (warray p ! (cs ! w)) (warray p ! (cs ! v))))"
    unfolding way_recorded_def by blast
  have u: "unat (of_nat j :: u32) = j" using j k(1) by (simp add: unat_below_u32)
  then have lt: "(of_nat j :: u32) < ways p" using j k(1) by (simp add: word_less_nat_alt)
  have inc: "(of_nat j :: u32) + 1 = of_nat (Suc j)" by simp
  have in_cs: "cs ! v < length (warray p)" if "v < length cs" for v using cs that by (meson lessThan_iff nth_mem subsetD)
  let ?le = "\<lambda>x y. way_le (testMode p) (incomingLinePart p) (warray p ! x) (warray p ! y)"
  define q' where "q' = (if way_fillable p j \<and> (b = -1 \<or> way_better (testMode p) (incomingLinePart p) (warray p ! (cs ! j)) (warray p ! nat b))
      then p\<lparr>wcandIdx := of_nat (Suc j), wbestId := int (cs ! j)\<rparr> else p\<lparr>wcandIdx := of_nat (Suc j), wbestId := b\<rparr>)"
  have best: "b \<ge> 0 \<Longrightarrow> nat b < length (warray p)" using b in_cs j by fastforce
  have fill: "j < length (wayPartIndex p)" using j k by simp
  have "way_recordCandidate q (cs ! j) = Some q'"
  proof (cases "b = -1")
    case True
    then show ?thesis using lt in_cs [OF j] fill by (simp add: way_recordCandidate_def q u inc q'_def way_fillable_def Let_def)
  next
    case False
    then have "b \<ge> 0" "nat b < length (warray p)" using b best by auto
    then show ?thesis using False lt in_cs [OF j] fill by (simp add: way_recordCandidate_def q u inc q'_def way_fillable_def Let_def)
  qed
  moreover have "way_recorded p cs (Suc j) q'"
  proof (cases "b = -1")
    case True
    then have no: "\<forall>w < j. \<not> way_fillable p w" using b by auto
    show ?thesis
    proof (cases "way_fillable p j")
      case f: True
      have "way_recorded p cs (Suc j) (p\<lparr>wcandIdx := of_nat (Suc j), wbestId := int (cs ! j)\<rparr>)"
        by (rule way_recorded_some) (use no f in \<open>auto simp: less_Suc_eq\<close>)
      then show ?thesis using True f by (simp add: q'_def)
    next
      case f: False
      have "way_recorded p cs (Suc j) (p\<lparr>wcandIdx := of_nat (Suc j), wbestId := -1\<rparr>)"
        by (rule way_recorded_none) (use no f in \<open>auto simp: less_Suc_eq\<close>)
      then show ?thesis using True f by (simp add: q'_def)
    qed
  next
    case False
    then obtain w where w: "w < j" "way_fillable p w" "b = int (cs ! w)" "\<forall>v < j. way_fillable p v \<longrightarrow> ?le (cs ! w) (cs ! v)"
      using b by blast
    show ?thesis
    proof (cases "way_fillable p j \<and> way_better (testMode p) (incomingLinePart p) (warray p ! (cs ! j)) (warray p ! nat b)")
      case True
      then have "?le (cs ! j) (cs ! w)" using w(3) way_better_le(1) by simp
      then have "\<forall>v < Suc j. way_fillable p v \<longrightarrow> ?le (cs ! j) (cs ! v)" using w(4) way_le_trans by (auto simp: less_Suc_eq)
      then show ?thesis using True way_recorded_some [of j "Suc j" p cs] by (simp add: q'_def)
    next
      case no: False
      then have "way_fillable p j \<Longrightarrow> ?le (cs ! w) (cs ! j)" using w(3) way_better_le(2) by simp
      then have "\<forall>v < Suc j. way_fillable p v \<longrightarrow> ?le (cs ! w) (cs ! v)" using w(4) by (auto simp: less_Suc_eq)
      then have "way_recorded p cs (Suc j) (p\<lparr>wcandIdx := of_nat (Suc j), wbestId := b\<rparr>)"
        using way_recorded_some [of w "Suc j" p cs] w by simp
      then show ?thesis using no False by (auto simp: q'_def)
    qed
  qed
  ultimately show ?thesis by blast
qed

lemma way_record_all:
  assumes "wcandIdx p = 0" "wbestId p = -1" "length cs = unat (ways p)" "length (wayPartIndex p) = unat (ways p)"
    "set cs \<subseteq> {..<length (warray p)}"
  shows "\<exists>q. run_all way_recordCandidate p cs = Some q \<and> way_recorded p cs (length cs) q"
proof (rule run_all_nth)
  have "p\<lparr>wcandIdx := of_nat 0, wbestId := -1\<rparr> = p" using assms(1,2) by (cases p) simp
  then show "way_recorded p cs 0 p" using way_recorded_none [of 0 p cs] by simp
qed (use way_record_step assms(3-5) in blast)

text \<open>A policy that is ready for the next replacement.\<close>

definition way_ready :: "nat \<Rightarrow> 'm WayPartReplPolicy \<Rightarrow> bool" where
  "way_ready n p \<longleftrightarrow> wcandIdx p = 0 \<and> wbestId p = -1 \<and> ways p \<noteq> 0 \<and> length (wayPartIndex p) = unat (ways p) \<and> length (warray p) = n"

lemma way_rank_ok:
  assumes p: "way_ready n p" and cs: "length cs = unat (ways p)" "set cs \<subseteq> {..<n}"
    and g: "getPartition (wmapper p) req = Some part" and w: "w < length cs" "testMode p \<or> wayPartIndex p ! w = part"
  shows "\<exists>v. way_rank p (Some req) cs = Some (p\<lparr>wcandIdx := of_nat (length cs), wbestId := int (cs ! v),
             incomingLinePart := part, incomingLineAddr := lineAddr req\<rparr>, cs ! v) \<and> v < length cs \<and> (testMode p \<or> wayPartIndex p ! v = part)
           \<and> (\<forall>u < length cs. testMode p \<or> wayPartIndex p ! u = part \<longrightarrow>
                way_le (testMode p) part (warray p ! (cs ! v)) (warray p ! (cs ! u)))"
proof -
  let ?p = "p\<lparr>incomingLinePart := part, incomingLineAddr := lineAddr req\<rparr>"
  have start: "way_startReplacement p (Some req) = Some ?p" using p g by (simp add: way_startReplacement_def way_ready_def)
  have f: "way_fillable ?p u \<longleftrightarrow> testMode p \<or> wayPartIndex p ! u = part" for u by (simp add: way_fillable_def)
  from way_record_all [of ?p cs] p cs obtain q where
    q: "run_all way_recordCandidate ?p cs = Some q" "way_recorded ?p cs (length cs) q" by (auto simp: way_ready_def)
  then obtain v where v: "v < length cs" "way_fillable ?p v" "q = ?p\<lparr>wcandIdx := of_nat (length cs), wbestId := int (cs ! v)\<rparr>"
    "\<forall>u < length cs. way_fillable ?p u \<longrightarrow> way_le (testMode p) part (warray p ! (cs ! v)) (warray p ! (cs ! u))"
    unfolding way_recorded_def using w f by auto
  have "way_rank p (Some req) cs = Some (q, cs ! v)"
    using start q(1) v(3) by (simp add: way_rank_def legacy_rank_def way_getBestCandidate_def)
  moreover have "q = p\<lparr>wcandIdx := of_nat (length cs), wbestId := int (cs ! v),
             incomingLinePart := part, incomingLineAddr := lineAddr req\<rparr>" using v(3) by simp
  ultimately show ?thesis using v(1,2,4) unfolding f by blast
qed


section \<open>Partition sizes\<close>

text \<open>The lines of partition \<open>q\<close>.\<close>

definition way_count :: "WayPartInfo list \<Rightarrow> u32 \<Rightarrow> nat" where
  "way_count arr q = length (filter (\<lambda>e. wpart e = q) arr)"

text \<open>
  The state between replacements (and, with \<open>way_sizes\<close> alone, during one): every line has a partition, the sizes count
  the lines of each, and the monitor is in a state it accepts accesses in.
\<close>

definition way_sizes :: "('m \<Rightarrow> bool) \<Rightarrow> nat \<Rightarrow> 'm WayPartReplPolicy \<Rightarrow> bool" where
  "way_sizes mon n p \<longleftrightarrow> length (warray p) = n \<and> n < 2 ^ 32 \<and> mon (wmonitor p)
     \<and> length (wpartInfo p) = unat (wpartitions p) \<and> incomingLinePart p < wpartitions p
     \<and> (\<forall>e\<in>set (warray p). wpart e < wpartitions p)
     \<and> (\<forall>q < wpartitions p. psize (wpartInfo p ! unat q) = of_nat (way_count (warray p) q))"

definition monitor_ok :: "('m \<Rightarrow> bool) \<Rightarrow> ('m \<Rightarrow> u32 \<Rightarrow> u64 \<Rightarrow> 'm option) \<Rightarrow> u32 \<Rightarrow> bool" where
  "monitor_ok mon macc parts \<longleftrightarrow> (\<forall>m q a. mon m \<longrightarrow> q < parts \<longrightarrow> (\<exists>m'. macc m q a = Some m' \<and> mon m'))"

lemma way_count_update:
  assumes "i < length arr"
  shows "way_count (arr[i := e]) q + (if wpart (arr ! i) = q then 1 else 0) = way_count arr q + (if wpart e = q then 1 else 0)"
  using assms
proof (induction arr arbitrary: i)
  case Nil
  then show ?case by simp
next
  case (Cons x arr)
  then show ?case by (cases i) (auto simp: way_count_def)
qed

lemma way_count_same: "i < length arr \<Longrightarrow> wpart e = wpart (arr ! i) \<Longrightarrow> way_count (arr[i := e]) q = way_count arr q"
  using way_count_update [of i arr e q] by simp

text \<open>The counters of the partitions after an update.\<close>

lemma way_move_sizes:
  assumes len: "length infos = unat parts" and i: "i < length arr" and q: "wpart (arr ! i) < parts" "wpart e < parts"
    and s: "\<forall>q < parts. psize (infos ! unat q) = of_nat (way_count arr q)" and ne: "wpart (arr ! i) \<noteq> wpart e"
    and i1: "infos1 = infos[unat (wpart (arr ! i)) := f (infos ! unat (wpart (arr ! i)))]" "\<And>x. psize (f x) = psize x - 1"
    and i2: "infos2 = infos1[unat (wpart e) := g (infos1 ! unat (wpart e))]" "\<And>x. psize (g x) = psize x + 1"
  shows "\<forall>q < parts. psize (infos2 ! unat q) = of_nat (way_count (arr[i := e]) q)"
proof (intro allI impI)
  fix r
  assume r: "r < parts"
  have lt: "unat r < length infos" "unat (wpart (arr ! i)) < length infos" "unat (wpart e) < length infos"
    using r q len by (simp_all add: word_less_nat_alt)
  have c: "way_count (arr[i := e]) r + (if wpart (arr ! i) = r then 1 else 0) = way_count arr r + (if wpart e = r then 1 else 0)"
    by (rule way_count_update [OF i])
  have psz: "psize (infos ! unat r) = of_nat (way_count arr r)" using s r by blast
  consider (old) "r = wpart (arr ! i)" | (new) "r = wpart e" | (other) "r \<noteq> wpart (arr ! i)" "r \<noteq> wpart e" by blast
  then show "psize (infos2 ! unat r) = of_nat (way_count (arr[i := e]) r)"
  proof cases
    case old
    then have "way_count arr r = Suc (way_count (arr[i := e]) r)" using c ne by auto
    moreover have "unat (wpart e) \<noteq> unat r" using old ne by (metis word_unat_eq_iff)
    ultimately show ?thesis using psz lt old ne i1 i2 by simp
  next
    case new
    then have "way_count (arr[i := e]) r = Suc (way_count arr r)" using c ne by auto
    moreover have "unat (wpart (arr ! i)) \<noteq> unat r" using new ne by (metis word_unat_eq_iff)
    ultimately show ?thesis using psz lt new ne i1 i2 by (simp add: add.commute)
  next
    case other
    then have "way_count (arr[i := e]) r = way_count arr r" using c by auto
    moreover have "unat (wpart (arr ! i)) \<noteq> unat r" "unat (wpart e) \<noteq> unat r" using other by (metis word_unat_eq_iff)+
    ultimately show ?thesis using psz i1 i2 by simp
  qed
qed


lemma way_update_ok:
  assumes p: "way_sizes mon n p" and m: "monitor_ok mon macc (wpartitions p)" and i: "lid < n"
  shows "\<exists>p'. way_update macc p lid req = Some p' \<and> way_sizes mon n p' \<and> wmapper p' = wmapper p \<and> wpartitions p' = wpartitions p
     \<and> ways p' = ways p \<and> wayPartIndex p' = wayPartIndex p \<and> testMode p' = testMode p \<and> wcandIdx p' = wcandIdx p
     \<and> wbestId p' = wbestId p"
proof -
  let ?e = "warray p ! lid"
  have len: "length (warray p) = n" "length (wpartInfo p) = unat (wpartitions p)" and inc: "incomingLinePart p < wpartitions p"
    and all: "\<forall>e\<in>set (warray p). wpart e < wpartitions p"
    and sz: "\<forall>q < wpartitions p. psize (wpartInfo p ! unat q) = of_nat (way_count (warray p) q)"
    using p by (simp_all add: way_sizes_def)
  have e: "wpart ?e < wpartitions p" using all i len by simp
  have acc: "\<exists>m'. macc (wmonitor p) q a = Some m' \<and> mon m'" if "q < wpartitions p" for q a
    using m p that unfolding monitor_ok_def way_sizes_def by blast
  have ib: "unat (wpart ?e) < length (wpartInfo p)" "unat (incomingLinePart p) < length (wpartInfo p)"
    using e inc len by (simp_all add: word_less_nat_alt)
  show ?thesis
  proof (cases "wts ?e > 0")
    case True
    let ?e' = "?e\<lparr>wpart := wpart ?e, wts := wtimestamp p\<rparr>"
    obtain m' where "macc (wmonitor p) (wpart ?e) (waddr ?e) = Some m'" "mon m'" using acc [OF e] by blast
    moreover have "\<forall>q < wpartitions p. psize ((wpartInfo p)[unat (wpart ?e) := (wpartInfo p ! unat (wpart ?e))\<lparr>profHits := x\<rparr>] ! unat q)
         = of_nat (way_count ((warray p)[lid := ?e']) q)" for x
      using sz way_count_same [of lid "warray p" ?e'] i len e ib(1) by (auto simp: nth_list_update)
    ultimately show ?thesis using p True i len ib inc all e
      by (auto simp: way_update_def way_sizes_def dest: set_update_subset_insert [THEN subsetD])
  next
    case False
    let ?q = "incomingLinePart p"
    let ?e' = "?e\<lparr>wpart := ?q, wts := wtimestamp p\<rparr>"
    obtain m' where m': "macc (wmonitor p) ?q (waddr ?e) = Some m'" "mon m'" using acc [OF inc] by blast
    have all': "\<forall>e\<in>set ((warray p)[lid := ?e']). wpart e < wpartitions p"
      using all inc by (auto dest: set_update_subset_insert [THEN subsetD])
    show ?thesis
    proof (cases "wpart ?e = ?q")
      case True
      have "\<forall>q < wpartitions p. psize ((wpartInfo p)[unat ?q := (wpartInfo p ! unat ?q)\<lparr>profSelfEvictions := x, profMisses := y\<rparr>] ! unat q)
         = of_nat (way_count ((warray p)[lid := ?e']) q)" for x y
        using sz way_count_same [of lid "warray p" ?e'] i len inc True ib(2) by (auto simp: nth_list_update)
      then show ?thesis using p True False m' all' i len ib inc
        by (simp add: way_update_def way_sizes_def Let_def)
    next
      case ne: False
      let ?f = "\<lambda>x. x\<lparr>psize := psize x - 1, profExtEvictions := profExtEvictions x + 1\<rparr>"
      let ?g = "\<lambda>x. x\<lparr>psize := psize x + 1, profMisses := profMisses x + 1\<rparr>"
      let ?i1 = "(wpartInfo p)[unat (wpart ?e) := ?f (wpartInfo p ! unat (wpart ?e))]"
      let ?i2 = "?i1[unat ?q := ?g (?i1 ! unat ?q)]"
      have "\<forall>q < wpartitions p. psize (?i2 ! unat q) = of_nat (way_count ((warray p)[lid := ?e']) q)"
        by (rule way_move_sizes [OF len(2) _ _ _ sz, where f = ?f and g = ?g])
          (use i len e inc ne in simp_all)
      moreover have "way_update macc p lid req = Some (p\<lparr>wpartInfo := ?i2, warray := (warray p)[lid := ?e'],
          wtimestamp := wtimestamp p + 1, wmonitor := m'\<rparr>)"
        using False ne m' i len ib by (simp add: way_update_def Let_def)
      ultimately show ?thesis using p m' all' len inc by (simp add: way_sizes_def)
    qed
  qed
qed


lemma way_replaced_ok:
  assumes p: "way_sizes mon n p" and c: "c < n"
  shows "\<exists>p'. way_replaced p c = Some p' \<and> way_sizes mon n p' \<and> wcandIdx p' = 0 \<and> wbestId p' = -1
     \<and> wmapper p' = wmapper p \<and> wpartitions p' = wpartitions p \<and> ways p' = ways p \<and> wayPartIndex p' = wayPartIndex p
     \<and> testMode p' = testMode p"
proof -
  let ?e = "(warray p ! c)\<lparr>wts := 0, waddr := incomingLineAddr p\<rparr>"
  have len: "c < length (warray p)" using p c by (simp add: way_sizes_def)
  then have "way_count ((warray p)[c := ?e]) q = way_count (warray p) q" for q using way_count_same [of c "warray p" ?e] by simp
  moreover have "\<forall>e\<in>set ((warray p)[c := ?e]). wpart e < wpartitions p"
    using p len by (auto simp: way_sizes_def dest: set_update_subset_insert [THEN subsetD])
  ultimately show ?thesis using p len by (auto simp: way_replaced_def way_sizes_def)
qed

datatype way_event = WHit nat MemReq | WFill "nat list" MemReq

text \<open>What a cache array asks of the policy for a hit on a line, and for a miss with its candidates.\<close>

fun way_exec :: "('m \<Rightarrow> u32 \<Rightarrow> u64 \<Rightarrow> 'm option) \<Rightarrow> 'm WayPartReplPolicy \<Rightarrow> way_event \<Rightarrow> 'm WayPartReplPolicy option" where
  "way_exec macc p (WHit lid req) = way_update macc p lid (Some req)"
| "way_exec macc p (WFill cands req) = do {
     (p1, c) \<leftarrow> way_rank p (Some req) cands;
     p2 \<leftarrow> way_replaced p1 c;
     way_update macc p2 c (Some req)
   }"

text \<open>The partition of a request is known, and it owns a way of the index \<open>idx\<close>.\<close>

definition way_owns :: "PartMapper \<Rightarrow> bool \<Rightarrow> u32 list \<Rightarrow> MemReq \<Rightarrow> bool" where
  "way_owns mapper test idx req \<longleftrightarrow> (case getPartition mapper req of None \<Rightarrow> False
     | Some q \<Rightarrow> q < getNumPartitions mapper \<and> (test \<or> q \<in> set idx))"

fun way_legal :: "nat \<Rightarrow> 'm WayPartReplPolicy \<Rightarrow> way_event \<Rightarrow> bool" where
  "way_legal n p (WHit lid req) = (lid < n)"
| "way_legal n p (WFill cands req) =
     (length cands = unat (ways p) \<and> 0 < unat (ways p) \<and> set cands \<subseteq> {..<n} \<and> way_owns (wmapper p) (testMode p) (wayPartIndex p) req)"

definition way_fixed :: "'m WayPartReplPolicy \<Rightarrow> 'm WayPartReplPolicy \<Rightarrow> bool" where
  "way_fixed p p' \<longleftrightarrow> wmapper p' = wmapper p \<and> wpartitions p' = wpartitions p \<and> ways p' = ways p
     \<and> wayPartIndex p' = wayPartIndex p \<and> testMode p' = testMode p"

lemma way_legal_fixed: "way_fixed p p' \<Longrightarrow> way_legal n p' ev = way_legal n p ev"
  by (cases ev) (auto simp: way_fixed_def)

definition way_inv :: "('m \<Rightarrow> bool) \<Rightarrow> nat \<Rightarrow> 'm WayPartReplPolicy \<Rightarrow> bool" where
  "way_inv mon n p \<longleftrightarrow> way_ready n p \<and> way_sizes mon n p \<and> getNumPartitions (wmapper p) = wpartitions p"

lemma way_fill_ok:
  assumes p: "way_inv mon n p" and m: "monitor_ok mon macc (wpartitions p)" and l: "way_legal n p (WFill cs req)"
  shows "\<exists>p1 v p'. way_rank p (Some req) cs = Some (p1, cs ! v) \<and> way_exec macc p (WFill cs req) = Some p' \<and> way_inv mon n p' \<and> way_fixed p p'
     \<and> v < length cs \<and> (testMode p \<or> getPartition (wmapper p) req = Some (wayPartIndex p ! v))
     \<and> (\<forall>q u. getPartition (wmapper p) req = Some q \<longrightarrow> u < length cs \<longrightarrow> testMode p \<or> wayPartIndex p ! u = q \<longrightarrow>
          way_le (testMode p) q (warray p ! (cs ! v)) (warray p ! (cs ! u)))"
proof -
  from l obtain q where q: "getPartition (wmapper p) req = Some q" "q < wpartitions p" "testMode p \<or> q \<in> set (wayPartIndex p)"
    and cs: "length cs = unat (ways p)" "0 < length cs" "set cs \<subseteq> {..<n}"
    using p by (auto simp: way_owns_def way_inv_def split: option.splits)
  have r: "way_ready n p" and sz: "way_sizes mon n p" using p by (simp_all add: way_inv_def)
  have "\<exists>w < length cs. testMode p \<or> wayPartIndex p ! w = q"
    using q(3) cs r by (auto simp: in_set_conv_nth way_ready_def)
  then obtain w where w: "w < length cs" "testMode p \<or> wayPartIndex p ! w = q" by blast
  let ?p1 = "\<lambda>v. p\<lparr>wcandIdx := of_nat (length cs), wbestId := int (cs ! v), incomingLinePart := q, incomingLineAddr := lineAddr req\<rparr>"
  from way_rank_ok [OF r cs(1,3) q(1) w] obtain v where v: "way_rank p (Some req) cs = Some (?p1 v, cs ! v)" "v < length cs"
    "testMode p \<or> wayPartIndex p ! v = q"
    "\<forall>u < length cs. testMode p \<or> wayPartIndex p ! u = q \<longrightarrow> way_le (testMode p) q (warray p ! (cs ! v)) (warray p ! (cs ! u))"
    by blast
  have vn: "cs ! v < n" using v(2) cs(3) by (meson lessThan_iff nth_mem subsetD)
  have "way_sizes mon n (?p1 v)" using sz q(2) by (simp add: way_sizes_def)
  from way_replaced_ok [OF this vn] obtain p2 where p2: "way_replaced (?p1 v) (cs ! v) = Some p2" "way_sizes mon n p2" "wcandIdx p2 = 0"
    "wbestId p2 = -1" "wmapper p2 = wmapper p" "wpartitions p2 = wpartitions p" "ways p2 = ways p" "wayPartIndex p2 = wayPartIndex p"
    "testMode p2 = testMode p" by auto
  from way_update_ok [OF p2(2) _ vn, of macc "Some req"] m p2(6) obtain p3 where
    p3: "way_update macc p2 (cs ! v) (Some req) = Some p3" "way_sizes mon n p3" "wmapper p3 = wmapper p2"
    "wpartitions p3 = wpartitions p2" "ways p3 = ways p2" "wayPartIndex p3 = wayPartIndex p2" "testMode p3 = testMode p2"
    "wcandIdx p3 = wcandIdx p2" "wbestId p3 = wbestId p2" by auto
  have "way_exec macc p (WFill cs req) = Some p3" using v(1) p2(1) p3(1) by simp
  moreover have "way_inv mon n p3" using p3 p2 r p by (simp add: way_inv_def way_ready_def way_sizes_def)
  moreover have "way_fixed p p3" using p3 p2 by (simp add: way_fixed_def)
  moreover have "testMode p \<or> getPartition (wmapper p) req = Some (wayPartIndex p ! v)" using v(3) q(1) by auto
  moreover have "\<forall>q u. getPartition (wmapper p) req = Some q \<longrightarrow> u < length cs \<longrightarrow> testMode p \<or> wayPartIndex p ! u = q \<longrightarrow>
          way_le (testMode p) q (warray p ! (cs ! v)) (warray p ! (cs ! u))" using v(4) q(1) by simp
  ultimately show ?thesis using v(1,2) by blast
qed

lemma way_exec_ok:
  assumes p: "way_inv mon n p" and m: "monitor_ok mon macc (wpartitions p)" and l: "way_legal n p ev"
  shows "\<exists>p'. way_exec macc p ev = Some p' \<and> way_inv mon n p' \<and> way_fixed p p'"
proof (cases ev)
  case (WHit lid req)
  then have "way_sizes mon n p" "lid < n" using p l by (simp_all add: way_inv_def)
  from way_update_ok [OF this(1) m this(2), of "Some req"] WHit p show ?thesis
    by (auto simp: way_inv_def way_ready_def way_fixed_def way_sizes_def)
next
  case (WFill cs req)
  then show ?thesis using way_fill_ok [of mon n p macc cs req] p m l by blast
qed

lemma way_run_ok:
  assumes "way_inv mon n p" "monitor_ok mon macc (wpartitions p)" "\<forall>ev\<in>set evs. way_legal n p ev"
  shows "\<exists>p'. run_all (way_exec macc) p evs = Some p' \<and> way_inv mon n p' \<and> way_fixed p p'"
  using assms
proof (induction evs arbitrary: p)
  case Nil
  then show ?case by (simp add: way_fixed_def)
next
  case (Cons ev evs)
  from way_exec_ok [OF Cons.prems(1,2), of ev] Cons.prems(3) obtain p1 where
    p1: "way_exec macc p ev = Some p1" "way_inv mon n p1" "way_fixed p p1" by auto
  have "\<exists>p'. run_all (way_exec macc) p1 evs = Some p' \<and> way_inv mon n p' \<and> way_fixed p1 p'"
    using Cons.IH [OF p1(2)] Cons.prems(2,3) p1(3) way_legal_fixed [OF p1(3)] by (auto simp: way_fixed_def)
  then show ?case using p1 by (auto simp: way_fixed_def)
qed


section \<open>Time stamps\<close>

text \<open>
  What an event does to the lines, as in the history of an LRU policy: a hit uses a line, a miss fills the victim and uses it.
\<close>

fun way_use :: "'m WayPartReplPolicy \<Rightarrow> way_event \<Rightarrow> lru_event list option" where
  "way_use p (WHit lid req) = Some [Touch lid]"
| "way_use p (WFill cands req) = do { (_, c) \<leftarrow> way_rank p (Some req) cands; Some [Fill c, Touch c] }"

fun way_uses :: "('m \<Rightarrow> u32 \<Rightarrow> u64 \<Rightarrow> 'm option) \<Rightarrow> 'm WayPartReplPolicy \<Rightarrow> way_event list \<Rightarrow> lru_event list option" where
  "way_uses macc p [] = Some []"
| "way_uses macc p (ev # evs) = do { h \<leftarrow> way_use p ev; p' \<leftarrow> way_exec macc p ev; hs \<leftarrow> way_uses macc p' evs; Some (h @ hs) }"

text \<open>The time stamps of the lines are the times of their last use in the history \<open>h\<close>.\<close>

definition way_stamped :: "lru_event list \<Rightarrow> 'm WayPartReplPolicy \<Rightarrow> bool" where
  "way_stamped h p \<longleftrightarrow> wtimestamp p = of_nat (Suc (touches (rev h)))
     \<and> (\<forall>i < length (warray p). wts (warray p ! i) = of_nat (last_use (rev h) i))"

lemma way_update_stamps:
  "way_update macc p lid req = Some p' \<Longrightarrow> lid < length (warray p) \<and> length (warray p') = length (warray p) \<and> wtimestamp p' = wtimestamp p + 1
     \<and> (\<forall>i < length (warray p). wts (warray p' ! i) = (if i = lid then wtimestamp p else wts (warray p ! i)))"
  by (auto simp: way_update_def Let_def aget_def aset_def nth_list_update split: bind_splits if_splits)

lemma way_replaced_stamps:
  "way_replaced p c = Some p' \<Longrightarrow> length (warray p') = length (warray p) \<and> wtimestamp p' = wtimestamp p
     \<and> (\<forall>i < length (warray p). i \<noteq> c \<longrightarrow> wts (warray p' ! i) = wts (warray p ! i))"
  by (auto simp: way_replaced_def amod_Some split: bind_splits)

lemma way_recordCandidate_stamps: "way_recordCandidate p c = Some p' \<Longrightarrow> warray p' = warray p \<and> wtimestamp p' = wtimestamp p"
  by (auto simp: way_recordCandidate_def Let_def split: bind_splits if_splits option.splits)

lemma way_recordAll_stamps: "run_all way_recordCandidate p cs = Some p' \<Longrightarrow> warray p' = warray p \<and> wtimestamp p' = wtimestamp p"
  by (induction cs arbitrary: p) (auto dest: way_recordCandidate_stamps split: bind_splits)

lemma way_rank_stamps: "way_rank p req cs = Some (p', c) \<Longrightarrow> warray p' = warray p \<and> wtimestamp p' = wtimestamp p"
  by (auto simp: way_rank_def legacy_rank_def way_startReplacement_def way_getBestCandidate_def dest!: way_recordAll_stamps split: bind_splits if_splits)

lemma way_exec_stamps:
  assumes "way_stamped h p" "way_use p ev = Some u" "way_exec macc p ev = Some p'"
  shows "way_stamped (h @ u) p'" "touches (rev (h @ u)) = Suc (touches (rev h))"
proof -
  have "way_stamped (h @ u) p' \<and> touches (rev (h @ u)) = Suc (touches (rev h))"
  proof (cases ev)
    case (WHit lid req)
    then show ?thesis using assms way_update_stamps [of macc p lid "Some req" p'] by (auto simp: way_stamped_def)
  next
    case (WFill cs req)
    then obtain p1 c where c: "way_rank p (Some req) cs = Some (p1, c)" "u = [Fill c, Touch c]" using assms(2) by (auto split: bind_splits)
    then obtain p2 where p2: "way_replaced p1 c = Some p2" "way_update macc p2 c (Some req) = Some p'"
      using assms(3) WFill by (auto split: bind_splits)
    show ?thesis
      using assms(1) c way_rank_stamps [OF c(1)] way_replaced_stamps [OF p2(1)] way_update_stamps [OF p2(2)]
      by (auto simp: way_stamped_def)
  qed
  then show "way_stamped (h @ u) p'" "touches (rev (h @ u)) = Suc (touches (rev h))" by simp_all
qed

lemma way_use_total: "way_exec macc p ev = Some p' \<Longrightarrow> \<exists>u. way_use p ev = Some u"
  by (cases ev) (auto split: bind_splits)

lemma way_run_stamps:
  assumes "way_stamped h p" "run_all (way_exec macc) p evs = Some p'"
  shows "\<exists>u. way_uses macc p evs = Some u \<and> way_stamped (h @ u) p' \<and> touches (rev (h @ u)) = touches (rev h) + length evs"
  using assms
proof (induction evs arbitrary: h p)
  case Nil
  then show ?case by simp
next
  case (Cons ev evs)
  then obtain p1 where p1: "way_exec macc p ev = Some p1" "run_all (way_exec macc) p1 evs = Some p'" by (auto split: bind_splits)
  obtain u where u: "way_use p ev = Some u" using way_use_total [OF p1(1)] by blast
  note s = way_exec_stamps [OF Cons.prems(1) u p1(1)]
  obtain u' where "way_uses macc p1 evs = Some u'" "way_stamped ((h @ u) @ u') p'"
    "touches (rev ((h @ u) @ u')) = touches (rev (h @ u)) + length evs" using Cons.IH [OF s(1) p1(2)] by blast
  then show ?case using u p1(1) s(2) by simp
qed

text \<open>While the clock does not wrap, comparing time stamps compares last uses.\<close>

lemma way_stamped_le:
  assumes "way_stamped h p" "touches (rev h) < 2 ^ 63" "i < length (warray p)" "j < length (warray p)"
  shows "wts (warray p ! i) \<le> wts (warray p ! j) \<longleftrightarrow> last_use (rev h) i \<le> last_use (rev h) j"
proof -
  have "last_use (rev h) k < 2 ^ 64" for k using last_use_le [of "rev h" k] assms(2) by simp
  then have "unat (of_nat (last_use (rev h) k) :: u64) = last_use (rev h) k" for k by (simp add: unat_of_nat take_bit_nat_eq_self_iff)
  then show ?thesis using assms(1,3,4) by (simp add: way_stamped_def word_le_nat_alt)
qed


section \<open>Construction and sizing\<close>

definition way_assigned :: "nat \<Rightarrow> nat \<Rightarrow> PartInfo list \<Rightarrow> nat \<Rightarrow> PartInfo list \<times> u32 list \<Rightarrow> bool" where
  "way_assigned np nw infos j s \<longleftrightarrow> length (fst s) = np \<and> length (snd s) = nw \<and> (\<forall>q < np. psize (fst s ! q) = psize (infos ! q))
     \<and> (\<forall>w < j. snd s ! w = of_nat (w * np div nw))"

lemma way_assign_step:
  assumes s: "way_assigned (unat parts) (unat nways) infos w s" and w: "w < unat nways" and b: "unat nways * unat parts < 2 ^ 32"
    and np: "0 < unat parts"
  shows "\<exists>s'. way_assign parts nways wsize s w = Some s' \<and> way_assigned (unat parts) (unat nways) infos (Suc w) s'"
proof -
  let ?q = "w * unat parts div unat nways"
  have uw: "unat (of_nat w :: u32) = w" by (rule unat_below_u32 [OF w])
  have le: "w * unat parts < 2 ^ 32" using w b by (meson le_less_trans less_imp_le mult_le_mono1)
  then have m: "unat (of_nat w * parts) = w * unat parts" using uw by (simp add: unat_word_ariths)
  have u: "unat (of_nat w * parts div nways) = ?q" using m by (simp add: unat_div_distrib)
  have p: "(of_nat w * parts div nways :: u32) = of_nat ?q" by (simp add: u [symmetric])
  have "?q < unat parts" using w np by (simp add: less_mult_imp_div_less mult.commute)
  then show ?thesis using s w u p by (auto simp: way_assign_def way_assigned_def less_Suc_eq nth_list_update)
qed

text \<open>Every partition gets a way when there are at least as many ways as partitions.\<close>

lemma way_share:
  assumes "q < np" "np \<le> nw"
  shows "\<exists>w < nw. w * np div nw = (q :: nat)"
proof -
  let ?w = "(q * nw + np - 1) div np"
  have np: "0 < np" using assms by simp
  have lo: "q * nw \<le> ?w * np"
  proof -
    have "q * nw + np - 1 < np + np * ?w" by (rule dividend_less_times_div [OF np])
    then show ?thesis using np by (simp add: mult.commute)
  qed
  have "?w * np \<le> q * nw + np - 1" by simp
  moreover have "q * nw + np - 1 < Suc q * nw" using assms(2) np by simp
  ultimately have "?w * np < Suc q * nw" by (rule le_less_trans)
  then have d: "?w * np div nw = q" using lo by (simp add: div_nat_eqI mult.commute)
  have "Suc q * nw \<le> np * nw" using assms(1) by (simp add: Suc_leI del: mult_Suc)
  with \<open>?w * np < Suc q * nw\<close> have "?w * np < np * nw" by (rule less_le_trans)
  then have "?w < nw" by (metis mult.commute mult_less_cancel2)
  with d show ?thesis by blast
qed

lemma way_new_ok:
  assumes n: "0 < n" "n < 2 ^ 32" "unat nways dvd n" "0 < unat nways" and np: "0 < unat (getNumPartitions mapper)"
    "unat nways * unat (getNumPartitions mapper) < 2 ^ 32" and part0: "part0 < getNumPartitions mapper" and mon: "mon m"
  shows "\<exists>p. WayPartReplPolicy_new m mapper (of_nat n) nways test part0 addr0 = Some p \<and> way_inv mon n p
     \<and> wmapper p = mapper \<and> ways p = nways \<and> testMode p = test \<and> wmonitor p = m
     \<and> (\<forall>w < unat nways. wayPartIndex p ! w = of_nat (w * unat (getNumPartitions mapper) div unat nways))"
proof -
  let ?P = "getNumPartitions mapper" and ?t = "ucast (of_nat n :: u64) :: u32"
  have "unat (of_nat n :: u64) = n" using n by (simp add: unat_of_nat take_bit_nat_eq_self_iff)
  then have t: "unat ?t = n" using unat_ucast_down [of "of_nat n :: u64"] n by simp
  have ts: "?t div nways * nways = ?t"
  proof -
    have "unat (?t div nways) * unat nways = n" using t n by (simp add: unat_div_distrib)
    then have "unat (?t div nways * nways) = n" using n by (simp add: unat_word_ariths)
    then show ?thesis using t by (simp add: word_unat_eq_iff)
  qed
  let ?i = "(replicate (unat ?P) PartInfo_zero)[0 := PartInfo_zero\<lparr>psize := ucast ?t\<rparr>]"
  have "\<exists>s. run_all (way_assign ?P nways (?t div nways)) (?i, replicate (unat nways) 0) [0..<unat nways] = Some s
      \<and> way_assigned (unat ?P) (unat nways) ?i (unat nways) s"
    by (rule run_all_upto [where I = "way_assigned (unat ?P) (unat nways) ?i"])
      (use way_assign_step np in \<open>simp_all add: way_assigned_def\<close>)
  then obtain infos idx where s: "run_all (way_assign ?P nways (?t div nways)) (?i, replicate (unat nways) 0) [0..<unat nways] = Some (infos, idx)"
      "way_assigned (unat ?P) (unat nways) ?i (unat nways) (infos, idx)" by auto
  let ?p = "\<lparr>wmonitor = m, wmapper = mapper, wpartInfo = infos, wpartitions = ?P, wtotalSize = ?t,
       waySize = ?t div nways, ways = nways, warray = replicate n \<lparr>waddr = 0, wts = 0, wpart = 0\<rparr>,
       wayPartIndex = idx, testMode = test, wbestId = -1, wcandIdx = 0, incomingLinePart = part0,
       incomingLineAddr = addr0, wtimestamp = 1\<rparr>"
  have new: "WayPartReplPolicy_new m mapper (of_nat n) nways test part0 addr0 = Some ?p"
    using ts n(4) np(1) s(1) t by (simp add: WayPartReplPolicy_new_def Let_def word_unat_eq_iff [of nways 0])
  have cnt: "way_count (replicate n \<lparr>waddr = 0, wts = 0, wpart = 0\<rparr>) q = (if q = 0 then n else 0)" for q
    by (simp add: way_count_def)
  have "(ucast ?t :: u64) = of_nat n" using t by (metis of_nat_unat unat_ucast_up ucast_id)
  then have "\<forall>q < ?P. psize (infos ! unat q) = of_nat (if q = 0 then n else 0)"
    using s(2) by (auto simp: way_assigned_def word_less_nat_alt nth_list_update PartInfo_zero_def word_unat_eq_iff)
  then have "way_sizes mon n ?p" using s(2) n part0 np(1) mon cnt
    by (auto simp: way_sizes_def way_assigned_def word_less_nat_alt)
  then show ?thesis using new s(2) n(4) by (auto simp: way_inv_def way_ready_def way_assigned_def)
qed


lemma way_fillPart_run:
  assumes "unat c \<le> length idx" "unat c + k < 2 ^ 32"
  shows "run_all (way_fillPart q) (idx, c) [0..<k] = (if unat c + k \<le> length idx
           then Some (take (unat c) idx @ replicate k q @ drop (unat c + k) idx, c + of_nat k) else None)"
  using assms(2)
proof (induction k)
  case 0
  then show ?case using assms(1) by simp
next
  case (Suc k)
  have u: "unat (c + of_nat k) = unat c + k" using Suc.prems by (simp add: unat_word_ariths unat_of_nat take_bit_nat_eq_self_iff)
  show ?case
  proof (cases "unat c + k < length idx")
    case True
    have "(take (unat c) idx @ replicate k q @ drop (unat c + k) idx)[unat c + k := q] =
        take (unat c) idx @ replicate (Suc k) q @ drop (unat c + Suc k) idx"
      using True by (simp add: list_update_append Cons_nth_drop_Suc [symmetric] replicate_app_Cons_same)
    then show ?thesis using Suc True u by (simp add: run_all_append way_fillPart_def add.commute add.left_commute del: replicate_Suc)
  next
    case False
    then show ?thesis using Suc u by (auto simp: run_all_append way_fillPart_def aset_def)
  qed
qed

text \<open>The first way of partition \<open>q\<close>.\<close>

definition way_seg :: "u32 list \<Rightarrow> nat \<Rightarrow> nat" where
  "way_seg waysPart q = sum_list (map unat (take q waysPart))"

lemma way_seg_Suc: "q < length wp \<Longrightarrow> way_seg wp (Suc q) = way_seg wp q + unat (wp ! q)"
  by (simp add: way_seg_def take_Suc_conv_app_nth)

lemma way_seg_mono: "q \<le> r \<Longrightarrow> way_seg wp q \<le> way_seg wp r"
  unfolding way_seg_def by (metis le_add1 map_append min.absorb_iff1 min.commute sum_list_append take_add le_Suc_ex)

definition way_sized :: "u32 list \<Rightarrow> PartInfo list \<Rightarrow> nat \<Rightarrow> nat \<Rightarrow> PartInfo list \<times> u32 list \<times> u32 \<Rightarrow> bool" where
  "way_sized wp infos nw q s \<longleftrightarrow> (case s of (infos', idx, cur) \<Rightarrow>
     length infos' = length infos \<and> (\<forall>r < length infos. psize (infos' ! r) = psize (infos ! r)) \<and> length idx = nw
     \<and> unat cur = way_seg wp q
     \<and> (\<forall>r < q. \<forall>w. way_seg wp r \<le> w \<longrightarrow> w < way_seg wp (Suc r) \<longrightarrow> idx ! w = of_nat r))"

lemma way_sizePart_step:
  assumes s: "way_sized wp infos nw q s" and q: "q < length wp" "length wp = length infos" and b: "way_seg wp (Suc q) < 2 ^ 32"
    and le: "way_seg wp q \<le> nw" and ways: "nways \<noteq> 0"
  shows "if way_seg wp (Suc q) \<le> nw then \<exists>s'. way_sizePart tot nways wp s q = Some s' \<and> way_sized wp infos nw (Suc q) s'
         else way_sizePart tot nways wp s q = None"
proof -
  obtain infos' idx cur where s': "s = (infos', idx, cur)" by (metis prod_cases3)
  have f: "length infos' = length infos" "\<forall>r < length infos. psize (infos' ! r) = psize (infos ! r)" "length idx = nw" "unat cur = way_seg wp q"
    "\<forall>r < q. \<forall>w. way_seg wp r \<le> w \<longrightarrow> w < way_seg wp (Suc r) \<longrightarrow> idx ! w = of_nat r"
    using s by (simp_all add: way_sized_def s')
  let ?k = "unat (wp ! q)"
  have seg: "way_seg wp (Suc q) = unat cur + ?k" using way_seg_Suc [OF q(1)] f(4) by simp
  have run: "run_all (way_fillPart (of_nat q)) (idx, cur) [0..<?k] = (if unat cur + ?k \<le> nw
      then Some (take (unat cur) idx @ replicate ?k (of_nat q) @ drop (unat cur + ?k) idx, cur + of_nat ?k) else None)"
    using way_fillPart_run [of cur idx ?k "of_nat q"] f(3,4) le b seg by simp
  show ?thesis
  proof (cases "way_seg wp (Suc q) \<le> nw")
    case True
    let ?idx = "take (unat cur) idx @ replicate ?k (of_nat q) @ drop (unat cur + ?k) idx"
    have "?idx ! w = of_nat r" if "r < Suc q" "way_seg wp r \<le> w" "w < way_seg wp (Suc r)" for r w
    proof (cases "r = q")
      case True
      then show ?thesis using that seg f(3,4) le by (auto simp: nth_append)
    next
      case False
      then have "r < q" "w < way_seg wp q" using that way_seg_mono [of "Suc r" q wp] by auto
      then show ?thesis using that f(3-5) le by (auto simp: nth_append)
    qed
    moreover have "unat (cur + wp ! q) = way_seg wp (Suc q)" using b seg by (simp add: unat_word_ariths)
    ultimately show ?thesis using True run seg q f ways
      by (auto simp: way_sizePart_def way_sized_def s' nth_list_update)
  next
    case False
    then show ?thesis using run seg q f(1) by (auto simp: way_sizePart_def s')
  qed
qed

lemma way_sizePart_run:
  assumes wp: "length wp = length infos" "way_seg wp (length wp) < 2 ^ 32" and idx: "length idx = nw" and q: "q \<le> length wp" and ways: "nways \<noteq> 0"
  shows "if way_seg wp q \<le> nw then \<exists>s'. run_all (way_sizePart tot nways wp) (infos, idx, 0) [0..<q] = Some s' \<and> way_sized wp infos nw q s'
         else run_all (way_sizePart tot nways wp) (infos, idx, 0) [0..<q] = None"
  using q
proof (induction q)
  case 0
  then show ?case using idx by (simp add: way_seg_def way_sized_def)
next
  case (Suc q)
  have b: "way_seg wp (Suc q) < 2 ^ 32" using way_seg_mono [OF Suc.prems] wp(2) by (rule le_less_trans)
  have mono: "way_seg wp q \<le> way_seg wp (Suc q)" by (rule way_seg_mono) simp
  show ?case
  proof (cases "way_seg wp q \<le> nw")
    case True
    then obtain s where "run_all (way_sizePart tot nways wp) (infos, idx, 0) [0..<q] = Some s" "way_sized wp infos nw q s"
      using Suc by auto
    with way_sizePart_step [of wp infos nw q s nways tot] Suc.prems wp(1) b True ways show ?thesis
      by (auto simp: run_all_append split: if_splits)
  next
    case False
    then show ?thesis using Suc mono by (simp add: run_all_append)
  qed
qed


section \<open>Properties\<close>



text \<open>The utility monitors over the H3 family of the code keep the contract.\<close>

lemma umon_is_monitor:
  assumes "\<And>x. \<exists>h0 h1. hf 0 x = Some h0 \<and> hf 1 x = Some h1"
  shows "monitor_ok (mm_ok (unat parts)) (mm_access hf) parts"
  unfolding monitor_ok_def using mm_access_ok assms by (metis word_less_nat_alt)

lemma umon_hash: "\<exists>h. H3HashFamily_new 2 32 0xF000BAAD = Some h \<and> (\<forall>x. \<exists>h0 h1. h3_hash h 0 x = Some h0 \<and> h3_hash h 1 x = Some h1)"
proof -
  obtain h where h: "H3HashFamily_new 2 32 0xF000BAAD = Some h" "h3_ok h" "numFuncs h = 2"
    using H3HashFamily_new_ok [of 32 2 "0xF000BAAD"] by auto
  then have "\<exists>r. h3_hash h f x = Some r" if "f < 2" for f x using h3_hash_total [OF h(2), of f] that by simp
  then show ?thesis using h(1) by auto
qed


text \<open>
  Claim C37. The two partitions of \<open>InstrDataPartMapper\<close> do not exist for instruction fetches: the mapper returns the
  value of the fetch flag, 2, as the partition, one past the last, so from any state of a policy over this mapper that
  does not test, a miss of an instruction fetch finds no way to fill and trips an assertion.
\<close>

theorem instr_data_mapper_fails:
  assumes "way_inv mon n p" "wmapper p = InstrDataPartMapper" "\<not> testMode p" "\<forall>q\<in>set (wayPartIndex p). q < wpartitions p"
    and "req_is req IFETCH" "length cs = unat (ways p)" "set cs \<subseteq> {..<n}"
  shows "getPartition InstrDataPartMapper req = Some 2 \<and> way_exec macc p (WFill cs req) = None"
proof -
  have "bit (flags req) 1" using assms(5) and_exp_eq_0_iff_not_bit [of "flags req" 1]
    by (auto simp: req_is_def flag_is_def IFETCH_def push_bit_eq_mult)
  then have "flags req AND IFETCH = 2" by (auto intro!: bit_eqI simp: IFETCH_def bit_simps)
  then have g: "getPartition InstrDataPartMapper req = Some 2" by (simp add: InstrDataPartMapper_def)
  have two: "wpartitions p = 2" using assms(1,2) by (simp add: way_inv_def InstrDataPartMapper_def)
  let ?p = "p\<lparr>incomingLinePart := 2, incomingLineAddr := lineAddr req\<rparr>"
  have r: "way_ready n p" using assms(1) by (simp add: way_inv_def)
  have start: "way_startReplacement p (Some req) = Some ?p" using r g assms(2) by (simp add: way_startReplacement_def way_ready_def)
  have no: "\<not> way_fillable ?p w" if "w < length cs" for w
  proof -
    have "wayPartIndex p ! w < 2" using that assms(4,6) r two by (simp add: way_ready_def)
    then show ?thesis using assms(3) by (auto simp: way_fillable_def)
  qed
  from way_record_all [of ?p cs] r assms(6,7) obtain q where
    q: "run_all way_recordCandidate ?p cs = Some q" "way_recorded ?p cs (length cs) q" by (auto simp: way_ready_def)
  then have "wbestId q = -1" using no unfolding way_recorded_def by auto
  then have "way_rank p (Some req) cs = None" using start q(1)
    by (simp add: way_rank_def legacy_rank_def way_getBestCandidate_def)
  then show ?thesis using g by simp
qed


theorem instr_data_mapper_fails_witness:
  "\<exists>p. WayPartReplPolicy_new () InstrDataPartMapper 8 4 False 0 0 = Some p
     \<and> way_exec (\<lambda>m q a. Some m) p (WFill [0, 1, 2, 3] \<lparr>lineAddr = 5, rtype = GETS, childId = 0, rstate = I, rcycle = 0,
           initialState = I, srcId = 0, flags = 2\<rparr>) = None"
proof -
  let ?r = "\<lparr>lineAddr = 5, rtype = GETS, childId = 0, rstate = I, rcycle = 0, initialState = I, srcId = 0, flags = 2\<rparr>"
  have "\<exists>p. WayPartReplPolicy_new () InstrDataPartMapper (of_nat 8) 4 False 0 0 = Some p \<and> way_inv (\<lambda>_. True) 8 p
     \<and> wmapper p = InstrDataPartMapper \<and> ways p = 4 \<and> testMode p = False \<and> wmonitor p = ()
     \<and> (\<forall>w < unat (4 :: u32). wayPartIndex p ! w = of_nat (w * unat (getNumPartitions InstrDataPartMapper) div unat (4 :: u32)))"
    by (rule way_new_ok) (simp_all add: InstrDataPartMapper_def)
  then obtain p where p: "WayPartReplPolicy_new () InstrDataPartMapper 8 4 False 0 0 = Some p" "way_inv (\<lambda>_. True) 8 p"
      "wmapper p = InstrDataPartMapper" "ways p = 4" "\<not> testMode p" "\<forall>w < 4. wayPartIndex p ! w = of_nat (w * 2 div 4)"
    by (auto simp: InstrDataPartMapper_def)
  have "length (wayPartIndex p) = 4" "wpartitions p = 2" using p(2-4) by (auto simp: way_inv_def way_ready_def InstrDataPartMapper_def)
  moreover have "(of_nat (w * 2 div 4) :: u32) < 2" if "w < 4" for w
  proof -
    have "w = 0 \<or> w = 1 \<or> w = 2 \<or> w = 3" using that by linarith
    then show ?thesis by auto
  qed
  ultimately have "\<forall>q\<in>set (wayPartIndex p). q < wpartitions p" using p(6) by (auto simp: in_set_conv_nth)
  from instr_data_mapper_fails [OF p(2,3,5) this, of ?r "[0, 1, 2, 3]" "\<lambda>m q a. Some m"] p(1,4) show ?thesis
    by (auto simp: req_is_def flag_is_def IFETCH_def simp del: way_exec.simps)
qed

text \<open>
  Claim C36. A resize of the partitions of a way-partitioned cache succeeds exactly if the ways handed out add up to the ways
  of the cache; then every partition owns the block of ways it was given, in order, and the sizes stay true.
\<close>

theorem way_resize:
  assumes p: "way_inv mon n p" and wp: "length wp = unat (wpartitions p)" "sum_list (map unat wp) < 2 ^ 32"
  shows "(way_setPartitionSizes p wp = None \<longleftrightarrow> sum_list (map unat wp) \<noteq> unat (ways p))
     \<and> (\<forall>p'. way_setPartitionSizes p wp = Some p' \<longrightarrow> way_inv mon n p' \<and> length (wayPartIndex p') = unat (ways p)
          \<and> (\<forall>q < length wp. \<forall>w. sum_list (map unat (take q wp)) \<le> w \<longrightarrow> w < sum_list (map unat (take (Suc q) wp)) \<longrightarrow>
                wayPartIndex p' ! w = of_nat q))"
proof -
  let ?K = "way_seg wp (length wp)" and ?nw = "unat (ways p)"
  let ?run = "run_all (way_sizePart (wtotalSize p) (ways p) wp) (wpartInfo p, wayPartIndex p, 0) [0..<unat (wpartitions p)]"
  have K: "?K = sum_list (map unat wp)" by (simp add: way_seg_def)
  have len: "length wp = length (wpartInfo p)" "length (wayPartIndex p) = ?nw"
    using p wp(1) by (simp_all add: way_inv_def way_sizes_def way_ready_def)
  have r: "if ?K \<le> ?nw then \<exists>s'. ?run = Some s' \<and> way_sized wp (wpartInfo p) ?nw (length wp) s' else ?run = None"
    unfolding wp(1) [symmetric] by (rule way_sizePart_run [OF len(1) _ len(2) order_refl]) (use wp(2) K p in \<open>simp_all add: way_inv_def way_ready_def\<close>)
  show ?thesis
  proof (cases "?K \<le> ?nw")
    case False
    then have "way_setPartitionSizes p wp = None" using r by (simp add: way_setPartitionSizes_def)
    then show ?thesis using False K by auto
  next
    case True
    then obtain infos idx cur where s: "?run = Some (infos, idx, cur)" "way_sized wp (wpartInfo p) ?nw (length wp) (infos, idx, cur)"
      using r by auto
    then have cur: "cur = ways p \<longleftrightarrow> ?K = ?nw" by (simp add: way_sized_def word_unat_eq_iff)
    have res: "way_setPartitionSizes p wp = (if ?K = ?nw then Some (p\<lparr>wpartInfo := infos, wayPartIndex := idx\<rparr>) else None)"
      using s(1) cur by (simp add: way_setPartitionSizes_def)
    have "way_inv mon n (p\<lparr>wpartInfo := infos, wayPartIndex := idx\<rparr>)"
      using p s(2) by (auto simp: way_inv_def way_ready_def way_sizes_def way_sized_def word_less_nat_alt)
    moreover have "\<forall>q < length wp. \<forall>w. sum_list (map unat (take q wp)) \<le> w \<longrightarrow> w < sum_list (map unat (take (Suc q) wp)) \<longrightarrow> idx ! w = of_nat q"
      "length idx = ?nw"
      using s(2) by (simp_all add: way_sized_def way_seg_def)
    ultimately show ?thesis using res K by auto
  qed
qed

theorem way_resize_witness:
  "\<exists>p p'. WayPartReplPolicy_new () (CorePartMapper 2) 8 4 False 0 0 = Some p \<and> way_setPartitionSizes p [1, 3] = Some p'
     \<and> wayPartIndex p' = [0, 1, 1, 1] \<and> way_setPartitionSizes p [1, 4] = None"
proof -
  have "\<exists>p. WayPartReplPolicy_new () (CorePartMapper 2) (of_nat 8) 4 False 0 0 = Some p \<and> way_inv (\<lambda>_. True) 8 p
     \<and> wmapper p = CorePartMapper 2 \<and> ways p = 4 \<and> testMode p = False \<and> wmonitor p = ()
     \<and> (\<forall>w < unat (4 :: u32). wayPartIndex p ! w = of_nat (w * unat (getNumPartitions (CorePartMapper 2)) div unat (4 :: u32)))"
    by (rule way_new_ok) (simp_all add: CorePartMapper_def)
  then obtain p where p: "WayPartReplPolicy_new () (CorePartMapper 2) 8 4 False 0 0 = Some p" "way_inv (\<lambda>_. True) 8 p" "ways p = 4"
      "wpartitions p = 2" by (auto simp: CorePartMapper_def way_inv_def)
  note t = way_resize [OF p(2)]
  from t [of "[1, 3]"] p(3,4) obtain p' where p': "way_setPartitionSizes p [1, 3] = Some p'" by auto
  have l: "length (wayPartIndex p') = 4" and seg: "sum_list (map unat (take q [1, 3 :: u32])) \<le> w \<Longrightarrow>
       w < sum_list (map unat (take (Suc q) [1, 3 :: u32])) \<Longrightarrow> wayPartIndex p' ! w = of_nat q" if "q < 2" for q w
    using t [of "[1, 3]"] p(3,4) p' that by auto
  have "wayPartIndex p' ! 0 = 0" "wayPartIndex p' ! 1 = 1" "wayPartIndex p' ! 2 = 1" "wayPartIndex p' ! 3 = 1"
    using seg [of 0 0] seg [of 1 1] seg [of 1 2] seg [of 1 3] by simp_all
  moreover have "wayPartIndex p' = [wayPartIndex p' ! 0, wayPartIndex p' ! 1, wayPartIndex p' ! 2, wayPartIndex p' ! 3]"
    using l [of 0] by (auto simp: length_Suc_conv eval_nat_numeral)
  ultimately have "wayPartIndex p' = [0, 1, 1, 1]" by simp
  moreover have "way_setPartitionSizes p [1, 4] = None" using t [of "[1, 4]"] p(3,4) by auto
  ultimately show ?thesis using p(1) p' by blast
qed

end
