(* ===== verification/Barrier.thy ===== *)
theory Barrier
  imports Prelude
begin

text \<open>
  The phase barrier with join and leave and a bound on the threads that run (\<open>src/src/barrier.h\<close>).  Its operations run
  under the lock of the scheduler, so they are atomic; a thread whose state is waiting after an operation is blocked
  on its futex until another operation sets it running.  The callback at the end of a phase, with the state \<open>'w\<close> of its
  callee, and the random generator with the state \<open>'r\<close> are parameters.
\<close>

section \<open>The barrier\<close>

datatype BState = OFFLINE | WAITING | RUNNING | LEFT

definition MAX_THREADS :: nat where "MAX_THREADS = 2048"

record ThreadSyncInfo =
  bstate :: BState
  futexWord :: u32
  lastIdx :: u32

record ('r, 'w) Barrier =
  parallelThreads :: u32
  threadList :: "ThreadSyncInfo list"
  runList :: "u32 list"
  runListSize :: u32
  curThreadIdx :: u32
  runningThreads :: u32
  leftThreads :: u32
  phaseCount :: u32
  brnd :: 'r
  bsched :: 'w

record ('r, 'w) BarrierEnv =
  env_randInt :: "'r \<Rightarrow> u32 \<Rightarrow> ('r \<times> u32) option"
  env_callback :: "'w \<Rightarrow> 'w option"

text \<open>\<open>idx0\<close> are the values of the positions, which the constructor leaves uninitialised.\<close>

definition Barrier_new :: "u32 \<Rightarrow> u32 list \<Rightarrow> 'r \<Rightarrow> 'w \<Rightarrow> ('r, 'w) Barrier" where
  "Barrier_new parallel idx0 r w =
     \<lparr>parallelThreads = parallel,
      threadList = map (\<lambda>i. \<lparr>bstate = OFFLINE, futexWord = 0, lastIdx = i\<rparr>) idx0,
      runList = replicate MAX_THREADS 0, runListSize = 0, curThreadIdx = 0, runningThreads = 0, leftThreads = 0,
      phaseCount = 0, brnd = r, bsched = w\<rparr>"

definition setThread :: "('r, 'w) Barrier \<Rightarrow> u32 \<Rightarrow> (ThreadSyncInfo \<Rightarrow> ThreadSyncInfo) \<Rightarrow> ('r, 'w) Barrier option" where
  "setThread b t f = do {
     x \<leftarrow> aget (threadList b) (unat t);
     tl \<leftarrow> aset (threadList b) (unat t) (f x);
     Some (b\<lparr>threadList := tl\<rparr>)
   }"

definition setRun :: "('r, 'w) Barrier \<Rightarrow> u32 \<Rightarrow> u32 \<Rightarrow> ('r, 'w) Barrier option" where
  "setRun b i t = do { rl \<leftarrow> aset (runList b) (unat i) t; Some (b\<lparr>runList := rl\<rparr>) }"

text \<open>One round of the loop of \<open>checkRunList\<close>.\<close>

definition wakeStep :: "('r, 'w) Barrier \<Rightarrow> ('r, 'w) Barrier option" where
  "wakeStep b = do {
     let idx = curThreadIdx b;
     let b1 = b\<lparr>curThreadIdx := idx + 1\<rparr>;
     wtid \<leftarrow> aget (runList b1) (unat idx);
     t \<leftarrow> aget (threadList b1) (unat wtid);
     (if bstate t = WAITING then do {
        b2 \<leftarrow> setThread b1 wtid (\<lambda>x. x\<lparr>bstate := RUNNING, lastIdx := idx\<rparr>);
        _ \<leftarrow> require (futexWord t = 1);
        b3 \<leftarrow> setThread b2 wtid (\<lambda>x. x\<lparr>futexWord := 0\<rparr>);
        Some (b3\<lparr>runningThreads := runningThreads b3 + 1\<rparr>)
      } else Some b1)
   }"

lemma setThread_fields:
  assumes "setThread b t f = Some b'"
  shows "runList b' = runList b" "runListSize b' = runListSize b" "curThreadIdx b' = curThreadIdx b"
    "runningThreads b' = runningThreads b" "leftThreads b' = leftThreads b" "parallelThreads b' = parallelThreads b"
    "phaseCount b' = phaseCount b" "brnd b' = brnd b" "bsched b' = bsched b"
  using assms by (auto simp: setThread_def elim!: bind_Some_elim)

lemma wakeStep_cur:
  assumes "wakeStep b = Some b'"
  shows "curThreadIdx b' = curThreadIdx b + 1 \<and> runListSize b' = runListSize b"
  using assms by (auto simp: wakeStep_def Let_def setThread_fields elim!: bind_Some_elim split: if_splits)

function checkRunList :: "('r, 'w) Barrier \<Rightarrow> ('r, 'w) Barrier option" where
  "checkRunList b =
     (if runningThreads b < parallelThreads b \<and> curThreadIdx b < runListSize b
      then (case wakeStep b of None \<Rightarrow> None | Some b' \<Rightarrow> checkRunList b')
      else Some b)"
  by auto

lemma unat_inc_u32: "(i :: u32) < j \<Longrightarrow> unat (i + 1) = Suc (unat i)"
proof -
  assume "i < j"
  then have "unat i < unat j" by (simp add: word_less_nat_alt)
  then have "Suc (unat i) < 4294967296" using unat_u32_lt [of j] by linarith
  then show ?thesis by (simp add: unat_word_ariths)
qed

termination checkRunList
proof (relation "measure (\<lambda>b. unat (runListSize b) - unat (curThreadIdx b))")
  show "wf (measure (\<lambda>b :: ('r, 'w) Barrier. unat (runListSize b) - unat (curThreadIdx b)))" by simp
next
  fix b b' :: "('r, 'w) Barrier"
  assume "runningThreads b < parallelThreads b \<and> curThreadIdx b < runListSize b" "wakeStep b = Some b'"
  then show "(b', b) \<in> measure (\<lambda>b. unat (runListSize b) - unat (curThreadIdx b))"
    using wakeStep_cur [of b b'] by (auto simp: unat_inc_u32 word_less_nat_alt)
qed

declare checkRunList.simps [simp del]

text \<open>One round of the loop that takes the threads that left off the list: the barrier, the index and the new size.\<close>

definition cleanStep :: "('r, 'w) Barrier \<Rightarrow> u32 \<Rightarrow> u32 \<Rightarrow> (('r, 'w) Barrier \<times> u32 \<times> u32) option" where
  "cleanStep b idx newSize = do {
     wtid \<leftarrow> aget (runList b) (unat idx);
     t \<leftarrow> aget (threadList b) (unat wtid);
     (if bstate t = LEFT then do {
        b1 \<leftarrow> setThread b wtid (\<lambda>x. x\<lparr>bstate := OFFLINE\<rparr>);
        stid \<leftarrow> aget (runList b1) (unat (newSize - 1));
        b2 \<leftarrow> setRun b1 idx stid;
        b3 \<leftarrow> setThread b2 stid (\<lambda>x. x\<lparr>lastIdx := idx\<rparr>);
        Some (b3, idx, newSize - 1)
      } else Some (b, idx + 1, newSize))
   }"

lemma cleanStep_less:
  assumes "cleanStep b idx newSize = Some (b', idx', newSize')" "idx < newSize"
  shows "unat newSize' - unat idx' < unat newSize - unat idx"
proof -
  have n: "unat idx < unat newSize" using assms(2) by (simp add: word_less_nat_alt)
  have "(idx' = idx \<and> newSize' = newSize - 1) \<or> (idx' = idx + 1 \<and> newSize' = newSize)"
    using assms(1) by (auto simp: cleanStep_def elim!: bind_Some_elim split: if_splits)
  moreover have "unat (newSize - 1) = unat newSize - 1" using n by (simp add: unat_sub word_le_nat_alt)
  ultimately show ?thesis using n unat_inc_u32 [OF assms(2)] by auto
qed

function cleanLoop :: "('r, 'w) Barrier \<Rightarrow> u32 \<Rightarrow> u32 \<Rightarrow> (('r, 'w) Barrier \<times> u32) option" where
  "cleanLoop b idx newSize =
     (if idx < newSize
      then (case cleanStep b idx newSize of None \<Rightarrow> None | Some (b', idx', newSize') \<Rightarrow> cleanLoop b' idx' newSize')
      else Some (b, newSize))"
  by auto

termination cleanLoop
  by (relation "measure (\<lambda>(b, i, n). unat n - unat i)") (auto dest: cleanStep_less)

declare cleanLoop.simps [simp del]

definition shuffleStep :: "('r, 'w) BarrierEnv \<Rightarrow> ('r, 'w) Barrier \<Rightarrow> nat \<Rightarrow> ('r, 'w) Barrier option" where
  "shuffleStep env b n = do {
     let i = of_nat n;
     (r, j) \<leftarrow> env_randInt env (brnd b) i;
     let b0 = b\<lparr>brnd := r\<rparr>;
     itid \<leftarrow> aget (runList b0) (unat i);
     jtid \<leftarrow> aget (runList b0) (unat j);
     b1 \<leftarrow> setRun b0 i jtid;
     b2 \<leftarrow> setRun b1 j itid;
     b3 \<leftarrow> setThread b2 itid (\<lambda>x. x\<lparr>lastIdx := j\<rparr>);
     setThread b3 jtid (\<lambda>x. x\<lparr>lastIdx := i\<rparr>)
   }"

definition checkEndPhase :: "('r, 'w) BarrierEnv \<Rightarrow> ('r, 'w) Barrier \<Rightarrow> ('r, 'w) Barrier option" where
  "checkEndPhase env b =
     (if curThreadIdx b = runListSize b \<and> runningThreads b = 0 then
        (if leftThreads b = runListSize b then Some b
         else do {
           w \<leftarrow> env_callback env (bsched b);
           let b1 = b\<lparr>bsched := w, curThreadIdx := 0, phaseCount := phaseCount b + 1\<rparr>;
           b2 \<leftarrow> (if phaseCount b AND 31 = 0 then do {
               _ \<leftarrow> require (runListSize b1 > 0);
               (b2, newSize) \<leftarrow> cleanLoop b1 0 (runListSize b1);
               _ \<leftarrow> require (runListSize b2 - newSize = leftThreads b2);
               Some (b2\<lparr>leftThreads := 0, runListSize := newSize\<rparr>)
             } else Some b1);
           (if parallelThreads b2 < runListSize b2
            then run_all (shuffleStep env) b2 (rev [1..<unat (runListSize b2)])
            else Some b2)
         })
      else Some b)"

definition tryWakeNext :: "('r, 'w) BarrierEnv \<Rightarrow> ('r, 'w) Barrier \<Rightarrow> ('r, 'w) Barrier option" where
  "tryWakeNext env b = do { b1 \<leftarrow> checkRunList b; b2 \<leftarrow> checkEndPhase env b1; checkRunList b2 }"

section \<open>Join, leave, sync\<close>

definition bar_join :: "('r, 'w) BarrierEnv \<Rightarrow> ('r, 'w) Barrier \<Rightarrow> u32 \<Rightarrow> ('r, 'w) Barrier option" where
  "bar_join env b tid = do {
     t \<leftarrow> aget (threadList b) (unat tid);
     _ \<leftarrow> require (bstate t = LEFT \<or> bstate t = OFFLINE);
     b1 \<leftarrow> (if bstate t = OFFLINE then do {
         b1 \<leftarrow> setRun b (runListSize b) tid;
         Some (b1\<lparr>runListSize := runListSize b + 1\<rparr>)
       } else do {
         let b1 = b\<lparr>leftThreads := leftThreads b - 1\<rparr>;
         let last = lastIdx t;
         (if curThreadIdx b1 > last then do {
            let cur = curThreadIdx b1 - 1;
            rtid \<leftarrow> aget (runList b1) (unat last);
            _ \<leftarrow> require (tid = rtid);
            otherTid \<leftarrow> aget (runList b1) (unat cur);
            b2 \<leftarrow> setRun (b1\<lparr>curThreadIdx := cur\<rparr>) last otherTid;
            b3 \<leftarrow> setRun b2 cur tid;
            b4 \<leftarrow> setThread b3 otherTid (\<lambda>x. x\<lparr>lastIdx := last\<rparr>);
            setThread b4 tid (\<lambda>x. x\<lparr>lastIdx := cur\<rparr>)
          } else Some b1)
       });
     b2 \<leftarrow> setThread b1 tid (\<lambda>x. x\<lparr>bstate := WAITING, futexWord := 1\<rparr>);
     tryWakeNext env b2
   }"

definition bar_leave :: "('r, 'w) BarrierEnv \<Rightarrow> ('r, 'w) Barrier \<Rightarrow> u32 \<Rightarrow> ('r, 'w) Barrier option" where
  "bar_leave env b tid = do {
     t \<leftarrow> aget (threadList b) (unat tid);
     (if bstate t = RUNNING then do {
        b1 \<leftarrow> setThread b tid (\<lambda>x. x\<lparr>bstate := LEFT\<rparr>);
        tryWakeNext env (b1\<lparr>leftThreads := leftThreads b1 + 1, runningThreads := runningThreads b1 - 1\<rparr>)
      } else do {
        _ \<leftarrow> require (bstate t = WAITING);
        b1 \<leftarrow> setThread b tid (\<lambda>x. x\<lparr>bstate := LEFT\<rparr>);
        Some (b1\<lparr>leftThreads := leftThreads b1 + 1\<rparr>)
      })
   }"

definition bar_sync :: "('r, 'w) BarrierEnv \<Rightarrow> ('r, 'w) Barrier \<Rightarrow> u32 \<Rightarrow> ('r, 'w) Barrier option" where
  "bar_sync env b tid = do {
     t \<leftarrow> aget (threadList b) (unat tid);
     _ \<leftarrow> require (bstate t = RUNNING);
     b1 \<leftarrow> setThread b tid (\<lambda>x. x\<lparr>futexWord := 1, bstate := WAITING\<rparr>);
     tryWakeNext env (b1\<lparr>runningThreads := runningThreads b1 - 1\<rparr>)
   }"


section \<open>The invariant\<close>

definition bth :: "('r, 'w) Barrier \<Rightarrow> u32 \<Rightarrow> ThreadSyncInfo" where
  "bth b t = threadList b ! unat t"

definition bst :: "('r, 'w) Barrier \<Rightarrow> u32 \<Rightarrow> BState" where
  "bst b t = bstate (bth b t)"

text \<open>The threads on the run list, in order.\<close>

definition bron :: "('r, 'w) Barrier \<Rightarrow> u32 list" where
  "bron b = take (unat (runListSize b)) (runList b)"

definition bcount :: "u32 list \<Rightarrow> (u32 \<Rightarrow> BState) \<Rightarrow> BState \<Rightarrow> nat" where
  "bcount ts f s = card {t \<in> set ts. f t = s}"

text \<open>
  Positions: what is still to be scheduled in this phase does not run, threads that run or left know where they are, and
  threads that wait can be woken.
\<close>

definition b_places :: "u32 list \<Rightarrow> nat \<Rightarrow> (u32 \<Rightarrow> ThreadSyncInfo) \<Rightarrow> bool" where
  "b_places ts cur th \<longleftrightarrow> (\<forall>i < length ts.
     (cur \<le> i \<longrightarrow> bstate (th (ts ! i)) \<noteq> RUNNING)
     \<and> (bstate (th (ts ! i)) = RUNNING \<or> bstate (th (ts ! i)) = LEFT \<longrightarrow> unat (lastIdx (th (ts ! i))) = i)
     \<and> (bstate (th (ts ! i)) = WAITING \<longrightarrow> futexWord (th (ts ! i)) = 1))"

definition b_shape :: "('r, 'w) Barrier \<Rightarrow> bool" where
  "b_shape b \<longleftrightarrow> length (threadList b) = MAX_THREADS \<and> length (runList b) = MAX_THREADS
     \<and> unat (runListSize b) \<le> MAX_THREADS \<and> curThreadIdx b \<le> runListSize b \<and> runningThreads b \<le> parallelThreads b
     \<and> 0 < parallelThreads b \<and> distinct (bron b)
     \<and> (\<forall>t. t \<in> set (bron b) \<longleftrightarrow> unat t < MAX_THREADS \<and> bst b t \<noteq> OFFLINE)"

definition b_inv :: "('r, 'w) Barrier \<Rightarrow> bool" where
  "b_inv b \<longleftrightarrow> b_shape b \<and> b_places (bron b) (unat (curThreadIdx b)) (bth b)
     \<and> unat (runningThreads b) = bcount (bron b) (bst b) RUNNING \<and> unat (leftThreads b) = bcount (bron b) (bst b) LEFT"

lemma bron_length: "b_shape b \<Longrightarrow> length (bron b) = unat (runListSize b)"
  by (simp add: b_shape_def bron_def)

lemma bron_nth: "i < unat (runListSize b) \<Longrightarrow> bron b ! i = runList b ! i"
  by (simp add: bron_def)

lemma bron_member:
  assumes "b_shape b" "i < unat (runListSize b)"
  shows "bron b ! i \<in> set (bron b)" "unat (bron b ! i) < MAX_THREADS" "bst b (bron b ! i) \<noteq> OFFLINE"
proof -
  show "bron b ! i \<in> set (bron b)" using bron_length [OF assms(1)] assms(2) by simp
  then show "unat (bron b ! i) < MAX_THREADS" "bst b (bron b ! i) \<noteq> OFFLINE" using assms(1) unfolding b_shape_def by blast+
qed

lemma bcount_update:
  assumes "t \<in> set ts"
  shows "bcount ts (f(t := s)) r + (if f t = r then 1 else 0) = bcount ts f r + (if s = r then 1 else 0)"
proof -
  let ?Y = "{u \<in> set ts. u \<noteq> t \<and> f u = r}"
  have "{u \<in> set ts. (f(t := s)) u = r} = (if s = r then insert t ?Y else ?Y)" using assms by (auto split: if_splits)
  moreover have "{u \<in> set ts. f u = r} = (if f t = r then insert t ?Y else ?Y)" using assms by auto
  moreover have "finite ?Y" by simp
  ultimately show ?thesis by (simp add: bcount_def)
qed

lemma bcount_le: "bcount ts f r \<le> length ts"
  unfolding bcount_def by (rule order_trans [OF card_mono [of "set ts"] card_length]) auto

text \<open>The effect of \<open>setThread\<close>.\<close>

lemma setThread_ok:
  assumes "length (threadList b) = MAX_THREADS" "unat t < MAX_THREADS"
  shows "\<exists>b'. setThread b t f = Some b' \<and> length (threadList b') = MAX_THREADS \<and> bth b' = (bth b)(t := f (bth b t))"
proof -
  have "unat t \<noteq> unat u" if "u \<noteq> t" for u using that by (metis word_unat_eq_iff)
  then have "bth (b\<lparr>threadList := (threadList b)[unat t := f (threadList b ! unat t)]\<rparr>) = (bth b)(t := f (bth b t))"
    using assms by (auto simp: bth_def fun_eq_iff)
  then show ?thesis using assms by (simp add: setThread_def)
qed

lemma wakeStep_ok:
  assumes b: "b_inv b" and run: "runningThreads b < parallelThreads b" "curThreadIdx b < runListSize b"
  shows "\<exists>b'. wakeStep b = Some b' \<and> b_inv b' \<and> curThreadIdx b' = curThreadIdx b + 1 \<and> runList b' = runList b
     \<and> runListSize b' = runListSize b \<and> parallelThreads b' = parallelThreads b \<and> leftThreads b' = leftThreads b
     \<and> phaseCount b' = phaseCount b \<and> bsched b' = bsched b
     \<and> bst b' = (bst b)(bron b ! unat (curThreadIdx b) :=
           (if bst b (bron b ! unat (curThreadIdx b)) = WAITING then RUNNING else bst b (bron b ! unat (curThreadIdx b))))"
proof -
  let ?c = "unat (curThreadIdx b)"
  let ?t = "bron b ! ?c"
  have sh: "b_shape b" and pl: "b_places (bron b) ?c (bth b)" and cn: "unat (runningThreads b) = bcount (bron b) (bst b) RUNNING"
    "unat (leftThreads b) = bcount (bron b) (bst b) LEFT" using b by (simp_all add: b_inv_def)
  have len: "length (threadList b) = MAX_THREADS" "length (runList b) = MAX_THREADS" "unat (runListSize b) \<le> MAX_THREADS"
    and dist: "distinct (bron b)" using sh by (simp_all add: b_shape_def)
  have c: "?c < unat (runListSize b)" using run(2) by (simp add: word_less_nat_alt)
  have cl: "?c < length (bron b)" using c bron_length [OF sh] by simp
  have inc: "unat (curThreadIdx b + 1) = Suc ?c" by (rule unat_inc_u32 [OF run(2)])
  note t = bron_member [OF sh c]
  have get: "aget (runList b) ?c = Some ?t" using c len bron_nth [OF c] by simp
  have le: "curThreadIdx b + 1 \<le> runListSize b" using c inc by (simp add: word_le_nat_alt)
  have other: "i \<noteq> ?c \<Longrightarrow> i < length (bron b) \<Longrightarrow> bron b ! i \<noteq> ?t" for i
    using dist cl by (simp add: nth_eq_iff_index_eq)
  show ?thesis
  proof (cases "bst b ?t = WAITING")
    case False
    let ?b = "b\<lparr>curThreadIdx := curThreadIdx b + 1\<rparr>"
    have same: "bron ?b = bron b" "bth ?b = bth b" "bst ?b = bst b" by (simp_all add: bron_def bth_def bst_def fun_eq_iff)
    have "wakeStep b = Some ?b" using get False t(2) len by (simp add: wakeStep_def Let_def bst_def bth_def)
    moreover have "b_inv ?b" using b le inc unfolding b_inv_def b_shape_def b_places_def same by simp
    ultimately show ?thesis using False same(3) by (intro exI [of _ ?b]) auto
  next
    case True
    have fut: "futexWord (bth b ?t) = 1" using pl cl True by (auto simp: b_places_def bst_def)
    let ?b1 = "b\<lparr>curThreadIdx := curThreadIdx b + 1\<rparr>"
    have b1: "length (threadList ?b1) = MAX_THREADS" "bth ?b1 = bth b" using len by (simp_all add: bth_def fun_eq_iff)
    from setThread_ok [OF b1(1) t(2), of "\<lambda>x. x\<lparr>bstate := RUNNING, lastIdx := curThreadIdx b\<rparr>"] obtain b2 where
      b2: "setThread ?b1 ?t (\<lambda>x. x\<lparr>bstate := RUNNING, lastIdx := curThreadIdx b\<rparr>) = Some b2" "length (threadList b2) = MAX_THREADS"
        "bth b2 = (bth b)(?t := (bth b ?t)\<lparr>bstate := RUNNING, lastIdx := curThreadIdx b\<rparr>)" unfolding b1(2) by blast
    from setThread_ok [OF b2(2) t(2), of "\<lambda>x. x\<lparr>futexWord := 0\<rparr>"] obtain b3 where
      b3: "setThread b2 ?t (\<lambda>x. x\<lparr>futexWord := 0\<rparr>) = Some b3" "length (threadList b3) = MAX_THREADS"
        "bth b3 = (bth b)(?t := (bth b ?t)\<lparr>bstate := RUNNING, lastIdx := curThreadIdx b, futexWord := 0\<rparr>)" unfolding b2(3) by auto
    note fl = setThread_fields [OF b2(1)] setThread_fields [OF b3(1)]
    let ?b = "b3\<lparr>runningThreads := runningThreads b3 + 1\<rparr>"
    have step: "wakeStep b = Some ?b" using get True t(2) len b2(1) b3(1) fut
      by (simp add: wakeStep_def Let_def bst_def bth_def)
    have th: "bth ?b = (bth b)(?t := (bth b ?t)\<lparr>bstate := RUNNING, lastIdx := curThreadIdx b, futexWord := 0\<rparr>)"
      using b3(3) by (simp add: bth_def fun_eq_iff)
    then have st: "bst ?b = (bst b)(?t := RUNNING)" by (auto simp: bst_def fun_eq_iff)
    have ron: "bron ?b = bron b" using fl by (simp add: bron_def)
    have rinc: "unat (runningThreads b + 1) = Suc (unat (runningThreads b))" by (rule unat_inc_u32 [OF run(1)])
    then have rle: "runningThreads b + 1 \<le> parallelThreads b" using run(1) by (simp add: word_le_nat_alt word_less_nat_alt)
    have "b_shape ?b" using sh fl b3(2) le rle st t(2,3) unfolding b_shape_def ron by auto
    moreover have "b_places (bron ?b) (unat (curThreadIdx ?b)) (bth ?b)"
      unfolding b_places_def ron th
    proof (intro allI impI)
      fix i
      assume i: "i < length (bron b)"
      show "(unat (curThreadIdx ?b) \<le> i \<longrightarrow> bstate (((bth b)(?t := (bth b ?t)\<lparr>bstate := RUNNING, lastIdx := curThreadIdx b, futexWord := 0\<rparr>)) (bron b ! i)) \<noteq> RUNNING)
        \<and> (bstate (((bth b)(?t := (bth b ?t)\<lparr>bstate := RUNNING, lastIdx := curThreadIdx b, futexWord := 0\<rparr>)) (bron b ! i)) = RUNNING
            \<or> bstate (((bth b)(?t := (bth b ?t)\<lparr>bstate := RUNNING, lastIdx := curThreadIdx b, futexWord := 0\<rparr>)) (bron b ! i)) = LEFT \<longrightarrow>
            unat (lastIdx (((bth b)(?t := (bth b ?t)\<lparr>bstate := RUNNING, lastIdx := curThreadIdx b, futexWord := 0\<rparr>)) (bron b ! i))) = i)
        \<and> (bstate (((bth b)(?t := (bth b ?t)\<lparr>bstate := RUNNING, lastIdx := curThreadIdx b, futexWord := 0\<rparr>)) (bron b ! i)) = WAITING \<longrightarrow>
            futexWord (((bth b)(?t := (bth b ?t)\<lparr>bstate := RUNNING, lastIdx := curThreadIdx b, futexWord := 0\<rparr>)) (bron b ! i)) = 1)"
        using pl i other [of i] inc fl by (cases "i = ?c") (auto simp: b_places_def)
    qed
    moreover have "unat (runningThreads ?b) = bcount (bron ?b) (bst ?b) RUNNING" "unat (leftThreads ?b) = bcount (bron ?b) (bst ?b) LEFT"
      using bcount_update [OF t(1), of "bst b" RUNNING RUNNING] bcount_update [OF t(1), of "bst b" RUNNING LEFT] cn True rinc fl
      unfolding ron st by auto
    ultimately have "b_inv ?b" by (simp add: b_inv_def)
    then show ?thesis using step st fl True by simp
  qed
qed

section \<open>Waking threads\<close>

text \<open>\<open>woken b b'\<close>: the threads that waited between the two cursors run now, and nothing else is different.\<close>

definition woken :: "('r, 'w) Barrier \<Rightarrow> ('r, 'w) Barrier \<Rightarrow> bool" where
  "woken b b' \<longleftrightarrow> runList b' = runList b \<and> runListSize b' = runListSize b \<and> parallelThreads b' = parallelThreads b
     \<and> leftThreads b' = leftThreads b \<and> phaseCount b' = phaseCount b \<and> bsched b' = bsched b
     \<and> curThreadIdx b \<le> curThreadIdx b'
     \<and> (\<forall>t. bst b' t = (if bst b t = WAITING
            \<and> t \<in> set (take (unat (curThreadIdx b') - unat (curThreadIdx b)) (drop (unat (curThreadIdx b)) (bron b)))
          then RUNNING else bst b t))"

lemma woken_refl: "woken b b"
  by (simp add: woken_def)

lemma checkRunList_ok:
  "b_inv b \<Longrightarrow> \<exists>b'. checkRunList b = Some b' \<and> b_inv b' \<and> woken b b'
     \<and> (runningThreads b' = parallelThreads b' \<or> curThreadIdx b' = runListSize b')"
proof (induction b rule: checkRunList.induct)
  case (1 b)
  have sh: "b_shape b" using "1.prems" by (simp add: b_inv_def)
  show ?case
  proof (cases "runningThreads b < parallelThreads b \<and> curThreadIdx b < runListSize b")
    case False
    have "runningThreads b \<le> parallelThreads b" "curThreadIdx b \<le> runListSize b" using sh by (simp_all add: b_shape_def)
    then have "runningThreads b = parallelThreads b \<or> curThreadIdx b = runListSize b" using False by (auto simp: not_less)
    moreover have "checkRunList b = Some b" using False by (subst checkRunList.simps) (rule if_not_P)
    ultimately show ?thesis using "1.prems" woken_refl by blast
  next
    case True
    let ?c = "unat (curThreadIdx b)"
    let ?t = "bron b ! ?c"
    from wakeStep_ok [OF "1.prems"] True obtain bm where bm: "wakeStep b = Some bm" "b_inv bm"
      "curThreadIdx bm = curThreadIdx b + 1" "runList bm = runList b" "runListSize bm = runListSize b"
      "parallelThreads bm = parallelThreads b" "leftThreads bm = leftThreads b" "phaseCount bm = phaseCount b \<and> bsched bm = bsched b" "bsched bm = bsched b"
      "bst bm = (bst b)(?t := (if bst b ?t = WAITING then RUNNING else bst b ?t))" by blast
    from "1.IH" [OF True bm(1,2)] obtain b' where b': "checkRunList bm = Some b'" "b_inv b'" "woken bm b'"
      "runningThreads b' = parallelThreads b' \<or> curThreadIdx b' = runListSize b'" by blast
    have run: "checkRunList b = Some b'" using True bm(1) b'(1) by (subst checkRunList.simps) simp
    have inc: "unat (curThreadIdx bm) = Suc ?c" using unat_inc_u32 True bm(3) by auto
    have ron: "bron bm = bron b" using bm(4,5) by (simp add: bron_def)
    have cl: "?c < length (bron b)" using True bron_length [OF sh] by (simp add: word_less_nat_alt)
    have le: "Suc ?c \<le> unat (curThreadIdx b')" using b'(3) inc by (simp add: woken_def word_le_nat_alt)
    have "take (unat (curThreadIdx b') - ?c) (drop ?c (bron b))
      = ?t # take (unat (curThreadIdx b') - Suc ?c) (drop (Suc ?c) (bron b))"
      using cl le by (simp add: Cons_nth_drop_Suc [symmetric] take_Cons' Suc_diff_Suc)
    then have "woken b b'" using b'(3) bm le unfolding woken_def ron inc by (auto simp: word_le_nat_alt)
    then show ?thesis using run b'(2,4) by blast
  qed
qed

section \<open>The end of a phase\<close>

lemma swap_remove:
  assumes "distinct ts" "i < length ts"
  defines "us \<equiv> take (length ts - 1) (ts[i := ts ! (length ts - 1)])"
  shows "distinct us" "set us = set ts - {ts ! i}" "k < length ts - 1 \<Longrightarrow> us ! k = (if k = i then ts ! (length ts - 1) else ts ! k)"
proof -
  from assms(2) obtain vs z where ts: "ts = vs @ [z]" by (cases ts rule: rev_cases) auto
  have us: "us = (if i < length vs then vs[i := z] else vs)" using assms(2) by (auto simp: us_def ts list_update_append)
  have d: "distinct vs" "z \<notin> set vs" using assms(1) by (simp_all add: ts)
  show "distinct us" using d by (auto simp: us intro: distinct_list_update)
  show "set us = set ts - {ts ! i}"
  proof (cases "i < length vs")
    case True
    then have "set us = insert z (set vs - {vs ! i})" by (simp add: us set_update_distinct [OF d(1)])
    moreover have "vs ! i \<noteq> z" using d(2) True by (metis nth_mem)
    ultimately show ?thesis using True by (auto simp: ts nth_append)
  next
    case False
    then have "i = length vs" using assms(2) by (simp add: ts)
    then show ?thesis using d by (auto simp: us ts)
  qed
  show "k < length ts - 1 \<Longrightarrow> us ! k = (if k = i then ts ! (length ts - 1) else ts ! k)"
    using assms(2) by (auto simp: us ts nth_append nth_list_update)
qed

text \<open>The barrier as it will be when the first \<open>n\<close> entries of the list are kept and \<open>l\<close> of them have left.\<close>

definition bview :: "('r, 'w) Barrier \<Rightarrow> u32 \<Rightarrow> u32 \<Rightarrow> ('r, 'w) Barrier" where
  "bview b n l = b\<lparr>runListSize := n, leftThreads := l\<rparr>"

lemma bview_simps [simp]:
  "threadList (bview b n l) = threadList b" "runList (bview b n l) = runList b" "runListSize (bview b n l) = n"
  "leftThreads (bview b n l) = l" "curThreadIdx (bview b n l) = curThreadIdx b" "runningThreads (bview b n l) = runningThreads b"
  "parallelThreads (bview b n l) = parallelThreads b" "phaseCount (bview b n l) = phaseCount b"
  "bsched (bview b n l) = bsched b" "bth (bview b n l) = bth b" "bst (bview b n l) = bst b"
  "bron (bview b n l) = take (unat n) (runList b)"
  by (simp_all add: bview_def bth_def bst_def bron_def fun_eq_iff)

lemma b_inv_word_pos:
  assumes "b_inv b" "t \<in> set (bron b)" "bst b t = LEFT"
  shows "0 < unat (leftThreads b)"
proof -
  have "{t \<in> set (bron b). bst b t = LEFT} \<noteq> {}" using assms by blast
  then have "0 < bcount (bron b) (bst b) LEFT" unfolding bcount_def by (simp add: card_gt_0_iff)
  then show ?thesis using assms(1) by (simp add: b_inv_def)
qed

lemma unat_dec_u32: "0 < unat (x :: u32) \<Longrightarrow> unat (x - 1) = unat x - 1"
  by (simp add: unat_sub word_le_nat_alt)

text \<open>\<open>b\<close> is at rest: the cursor is at the front and nobody runs.\<close>

definition b_rest :: "('r, 'w) Barrier \<Rightarrow> ('r, 'w) Barrier \<Rightarrow> bool" where
  "b_rest b0 b \<longleftrightarrow> curThreadIdx b = 0 \<and> runningThreads b = 0 \<and> parallelThreads b = parallelThreads b0
     \<and> phaseCount b = phaseCount b0 \<and> bsched b = bsched b0"

definition clean_inv :: "('r, 'w) Barrier \<Rightarrow> ('r, 'w) Barrier \<Rightarrow> nat \<Rightarrow> u32 \<Rightarrow> bool" where
  "clean_inv b0 b i n \<longleftrightarrow> b_rest b0 b \<and> runListSize b = runListSize b0 \<and> leftThreads b = leftThreads b0 \<and> i \<le> unat n
     \<and> (\<forall>k < i. bst b (runList b ! k) \<noteq> LEFT)
     \<and> (\<forall>t. bst b t = bst b0 t \<or> bst b0 t = LEFT \<and> bst b t = OFFLINE)
     \<and> (\<exists>l. b_inv (bview b n l) \<and> n - l = runListSize b0 - leftThreads b0)"

lemma clean_invI:
  assumes "b_rest b0 b" "runListSize b = runListSize b0" "leftThreads b = leftThreads b0" "i \<le> unat n"
    "\<And>k. k < i \<Longrightarrow> bst b (runList b ! k) \<noteq> LEFT"
    "\<And>t. bst b t = bst b0 t \<or> bst b0 t = LEFT \<and> bst b t = OFFLINE"
    "b_inv (bview b n l)" "n - l = runListSize b0 - leftThreads b0"
  shows "clean_inv b0 b i n"
  unfolding clean_inv_def using assms by blast

lemma cleanStep_ok:
  assumes "clean_inv b0 b (unat idx) n" "idx < n"
  shows "\<exists>b' idx' n'. cleanStep b idx n = Some (b', idx', n') \<and> clean_inv b0 b' (unat idx') n'"
proof -
  let ?i = "unat idx" and ?z = "unat n - 1"
  let ?ts = "take (unat n) (runList b)"
  let ?t = "?ts ! ?i"
  from assms(1) obtain l where l: "b_inv (bview b n l)" "n - l = runListSize b0 - leftThreads b0"
    and rest: "b_rest b0 b" "runListSize b = runListSize b0" "leftThreads b = leftThreads b0"
    and pre: "\<And>k. k < ?i \<Longrightarrow> bst b (runList b ! k) \<noteq> LEFT"
    and sts: "\<And>t. bst b t = bst b0 t \<or> bst b0 t = LEFT \<and> bst b t = OFFLINE" by (auto simp: clean_inv_def)
  have n: "?i < unat n" using assms(2) by (simp add: word_less_nat_alt)
  have sh: "b_shape (bview b n l)" and pl: "b_places ?ts (unat (curThreadIdx b)) (bth b)"
    and cn: "unat (runningThreads b) = bcount ?ts (bst b) RUNNING" "unat l = bcount ?ts (bst b) LEFT"
    using l(1) by (simp_all add: b_inv_def)
  have len: "length (threadList b) = MAX_THREADS" "length (runList b) = MAX_THREADS" "unat n \<le> MAX_THREADS" "length ?ts = unat n"
    and dist: "distinct ?ts" and mem: "\<And>t. t \<in> set ?ts \<longleftrightarrow> unat t < MAX_THREADS \<and> bst b t \<noteq> OFFLINE"
    using sh by (simp_all add: b_shape_def)
  have t: "?t \<in> set ?ts" using n len(4) by (metis nth_mem)
  then have tm: "unat ?t < MAX_THREADS" using mem by blast
  have tr: "runList b ! ?i = ?t" using n by simp
  have get: "aget (runList b) ?i = Some ?t" using n len by simp
  show ?thesis
  proof (cases "bst b ?t = LEFT")
    case False
    have inc: "unat (idx + 1) = Suc ?i" by (rule unat_inc_u32 [OF assms(2)])
    have "cleanStep b idx n = Some (b, idx + 1, n)" using get False tm len by (simp add: cleanStep_def bst_def bth_def)
    moreover have "clean_inv b0 b (unat (idx + 1)) n"
    proof (rule clean_invI [OF rest _ _ sts l])
      show "unat (idx + 1) \<le> unat n" using n inc by simp
      show "bst b (runList b ! k) \<noteq> LEFT" if "k < unat (idx + 1)" for k
        using that pre [of k] False tr inc by (cases "k = ?i") auto
    qed
    ultimately show ?thesis by blast
  next
    case True
    let ?s = "?ts ! ?z"
    have z: "unat (n - 1) = ?z" "?z < unat n" using n unat_dec_u32 [of n] by simp_all
    have s: "?s \<in> set ?ts" using z len(4) by (metis nth_mem)
    then have sm: "unat ?s < MAX_THREADS" using mem by blast
    from setThread_ok [OF len(1) tm, of "\<lambda>x. x\<lparr>bstate := OFFLINE\<rparr>"] obtain b1 where
      b1: "setThread b ?t (\<lambda>x. x\<lparr>bstate := OFFLINE\<rparr>) = Some b1" "length (threadList b1) = MAX_THREADS"
        "bth b1 = (bth b)(?t := (bth b ?t)\<lparr>bstate := OFFLINE\<rparr>)" by blast
    let ?b2 = "b1\<lparr>runList := (runList b)[?i := ?s]\<rparr>"
    have b2: "length (threadList ?b2) = MAX_THREADS" "bth ?b2 = bth b1" using b1(2) by (simp_all add: bth_def fun_eq_iff)
    from setThread_ok [OF b2(1) sm, of "\<lambda>x. x\<lparr>lastIdx := idx\<rparr>"] obtain b3 where
      b3: "setThread ?b2 ?s (\<lambda>x. x\<lparr>lastIdx := idx\<rparr>) = Some b3" "length (threadList b3) = MAX_THREADS"
        "bth b3 = (bth b1)(?s := (bth b1 ?s)\<lparr>lastIdx := idx\<rparr>)" unfolding b2(2) by blast
    note f1 = setThread_fields [OF b1(1)] and f3 = setThread_fields [OF b3(1)]
    have st: "bst b3 = (bst b)(?t := OFFLINE)" by (auto simp: bst_def fun_eq_iff b3(3) b1(3))
    have step: "cleanStep b idx n = Some (b3, idx, n - 1)"
      using get True tm len n z b1(1) b3(1) f1 by (simp add: cleanStep_def setRun_def bst_def bth_def)
    let ?us = "take ?z ((runList b)[?i := ?s])"
    have us: "?us = take (length ?ts - 1) (?ts[?i := ?ts ! (length ?ts - 1)])"
      using n len by (simp add: take_update_swap min_def)
    note rm = swap_remove [OF dist, of ?i, folded us, unfolded len(4), OF n]
    have us_len: "length ?us = ?z" using len z by simp
    have lpos: "0 < unat l" using b_inv_word_pos [OF l(1), of ?t] t True by simp
    note ldec = unat_dec_u32 [OF lpos]
    have ron: "bron (bview b3 (n - 1) (l - 1)) = ?us" using f1 f3 z by simp
    have cur: "curThreadIdx b3 = 0" "curThreadIdx b = 0" using rest f1 f3 by (simp_all add: b_rest_def)
    have mem': "t \<in> set ?us \<longleftrightarrow> unat t < MAX_THREADS \<and> bst b3 t \<noteq> OFFLINE" for t
      unfolding rm(2) st using mem [of t] by auto
    have "b_shape (bview b3 (n - 1) (l - 1))"
      using sh f1 f3 b3(2) rm(1) mem' z len cur unfolding b_shape_def ron by simp
    moreover have "b_places ?us 0 (bth b3)"
      unfolding b_places_def
    proof (intro allI impI)
      fix k
      assume "k < length ?us"
      then have k: "k < ?z" by simp
      show "(0 \<le> k \<longrightarrow> bstate (bth b3 (?us ! k)) \<noteq> RUNNING)
        \<and> (bstate (bth b3 (?us ! k)) = RUNNING \<or> bstate (bth b3 (?us ! k)) = LEFT \<longrightarrow> unat (lastIdx (bth b3 (?us ! k))) = k)
        \<and> (bstate (bth b3 (?us ! k)) = WAITING \<longrightarrow> futexWord (bth b3 (?us ! k)) = 1)"
      proof (cases "k = ?i")
        case True
        then have uk: "?us ! k = ?s" using rm(3) [of k] k by simp
        moreover have "?us ! k \<noteq> ?t" using rm(2) k z len by (metis DiffD2 insertI1 length_take min.absorb2 nth_mem us_len)
        ultimately have "bth b3 (?us ! k) = (bth b ?s)\<lparr>lastIdx := idx\<rparr>" by (simp add: b3(3) b1(3))
        then show ?thesis using pl z(2) len(4) True cur uk unfolding b_places_def by simp
      next
        case False
        then have uk: "?us ! k = ?ts ! k" using rm(3) [of k] k by simp
        have "?ts ! k \<noteq> ?t" "?ts ! k \<noteq> ?s"
          using nth_eq_iff_index_eq [OF dist, of k ?i] nth_eq_iff_index_eq [OF dist, of k ?z] False k n z len(4) by auto
        then have "bth b3 (?us ! k) = bth b (?us ! k)" unfolding uk by (simp add: b3(3) b1(3))
        moreover have "k < unat n" "k < length (runList b)" using k z len by simp_all
        ultimately show ?thesis using pl z len(4) cur uk unfolding b_places_def by simp
      qed
    qed
    moreover have "bcount ?us (bst b3) RUNNING = bcount ?ts (bst b) RUNNING" "bcount ?us (bst b3) LEFT = bcount ?ts (bst b) LEFT - 1"
    proof -
      have "{x \<in> set ?us. bst b3 x = r} = {x \<in> set ?ts. bst b x = r} - {?t}" for r unfolding rm(2) st by auto
      then show "bcount ?us (bst b3) RUNNING = bcount ?ts (bst b) RUNNING" "bcount ?us (bst b3) LEFT = bcount ?ts (bst b) LEFT - 1"
        using True t by (simp_all add: bcount_def card_Diff_singleton)
    qed
    ultimately have "b_inv (bview b3 (n - 1) (l - 1))"
      using cn f1 f3 ldec cur unfolding b_inv_def ron by simp
    then have "clean_inv b0 b3 ?i (n - 1)"
    proof (rule clean_invI [rotated 6])
      show "b_rest b0 b3" "runListSize b3 = runListSize b0" "leftThreads b3 = leftThreads b0"
        using rest f1 f3 by (simp_all add: b_rest_def)
      show "?i \<le> unat (n - 1)" using n z by simp
      show "bst b3 (runList b3 ! k) \<noteq> LEFT" if "k < ?i" for k using pre [OF that] that f1 f3 st by simp
      show "bst b3 t = bst b0 t \<or> bst b0 t = LEFT \<and> bst b3 t = OFFLINE" for t using sts [of t] sts [of ?t] True by (simp add: st)
      show "n - 1 - (l - 1) = runListSize b0 - leftThreads b0" using l(2) by simp
    qed
    then show ?thesis using step by blast
  qed
qed

lemma cleanLoop_ok:
  "clean_inv b0 b (unat idx) n \<Longrightarrow> \<exists>b' n'. cleanLoop b idx n = Some (b', n') \<and> clean_inv b0 b' (unat n') n'"
proof (induction b idx n rule: cleanLoop.induct)
  case (1 b idx n)
  show ?case
  proof (cases "idx < n")
    case False
    then have "unat idx = unat n" using "1.prems" by (simp add: clean_inv_def word_less_nat_alt)
    then show ?thesis using "1.prems" False by (simp add: cleanLoop.simps [of b])
  next
    case True
    from cleanStep_ok [OF "1.prems" True] obtain b1 i1 n1 where
      s: "cleanStep b idx n = Some (b1, i1, n1)" "clean_inv b0 b1 (unat i1) n1" by blast
    from "1.IH" [OF True s(1) refl refl s(2)] show ?thesis using True s(1) by (simp add: cleanLoop.simps [of b])
  qed
qed

text \<open>The pass that takes the threads that left off the list succeeds, and its count agrees.\<close>

lemma clean_pass:
  assumes "b_inv b" "curThreadIdx b = 0" "runningThreads b = 0"
  shows "\<exists>b' n'. cleanLoop b 0 (runListSize b) = Some (b', n') \<and> runListSize b' - n' = leftThreads b'
     \<and> b_inv (bview b' n' 0) \<and> b_rest b b'
     \<and> (\<forall>t. unat t < MAX_THREADS \<longrightarrow> bst b' t = (if bst b t = LEFT then OFFLINE else bst b t))"
proof -
  have "bview b (runListSize b) (leftThreads b) = b" by (simp add: bview_def)
  then have "clean_inv b b (unat (0 :: u32)) (runListSize b)"
    using assms by (intro clean_invI [where l = "leftThreads b"]) (simp_all add: b_rest_def)
  from cleanLoop_ok [OF this] obtain b' n' where b': "cleanLoop b 0 (runListSize b) = Some (b', n')" "clean_inv b b' (unat n') n'"
    by blast
  from b'(2) obtain l where l: "b_inv (bview b' n' l)" "n' - l = runListSize b - leftThreads b"
    and rest: "b_rest b b'" "runListSize b' = runListSize b" "leftThreads b' = leftThreads b"
    and pre: "\<And>k. k < unat n' \<Longrightarrow> bst b' (runList b' ! k) \<noteq> LEFT"
    and sts: "\<And>t. bst b' t = bst b t \<or> bst b t = LEFT \<and> bst b' t = OFFLINE" by (auto simp: clean_inv_def)
  let ?ts = "take (unat n') (runList b')"
  have none: "\<forall>t \<in> set ?ts. bst b' t \<noteq> LEFT" using pre by (auto simp: in_set_conv_nth)
  then have "{t \<in> set ?ts. bst b' t = LEFT} = {}" by blast
  then have "bcount ?ts (bst b') LEFT = 0" by (simp only: bcount_def card.empty)
  then have "unat l = 0" using l(1) by (simp add: b_inv_def)
  then have l0: "l = 0" by (simp add: unat_eq_zero)
  have "bst b' t \<noteq> LEFT" if "unat t < MAX_THREADS" for t
    using none l(1) that by (cases "t \<in> set ?ts") (auto simp: b_inv_def b_shape_def)
  then have "bst b' t = (if bst b t = LEFT then OFFLINE else bst b t)" if "unat t < MAX_THREADS" for t
    using that sts [of t] by auto
  then show ?thesis using b'(1) l rest unfolding l0 by auto
qed

text \<open>What the barrier relies on: draws are in their range, and the callback returns from the state \<open>w\<close>.\<close>

definition rand_env :: "('r, 'w) BarrierEnv \<Rightarrow> bool" where
  "rand_env env \<longleftrightarrow> (\<forall>r i. \<exists>r' j. env_randInt env r i = Some (r', j) \<and> j \<le> i)"

definition env_at :: "('r, 'w) BarrierEnv \<Rightarrow> 'w \<Rightarrow> bool" where
  "env_at env w \<longleftrightarrow> rand_env env \<and> (\<exists>w'. env_callback env w = Some w')"

definition env_ok :: "('r, 'w) BarrierEnv \<Rightarrow> bool" where
  "env_ok env \<longleftrightarrow> (\<forall>w. env_at env w)"

text \<open>Two entries of the list change places and their threads are told.\<close>

lemma swap_places:
  assumes dist: "distinct ts" and n: "n < length ts" and j: "j < length ts" and k: "k < length ts"
    and w: "unat wn = n" "unat wj = j"
    and th1: "th1 = th(ts ! n := (th (ts ! n))\<lparr>lastIdx := wj\<rparr>)"
    and th2: "th2 = th1(ts ! j := (th1 (ts ! j))\<lparr>lastIdx := wn\<rparr>)"
  defines "u \<equiv> ts[n := ts ! j, j := ts ! n] ! k" and "m \<equiv> if k = j then n else if k = n then j else k"
  shows "(\<exists>w. th2 u = (th (ts ! m))\<lparr>lastIdx := w\<rparr> \<and> unat w = k) \<or> (m = k \<and> th2 u = th (ts ! k))"
proof (cases "k = j")
  case True
  have u: "u = ts ! n" using True n j by (simp add: u_def)
  have "ts ! n = ts ! j \<Longrightarrow> n = j" using nth_eq_iff_index_eq [OF dist] n j by simp
  then have "th2 u = (th (ts ! n))\<lparr>lastIdx := (if ts ! n = ts ! j then wn else wj)\<rparr> \<and>
      unat (if ts ! n = ts ! j then wn else wj) = k"
    unfolding u using True w by (simp add: th1 th2)
  then show ?thesis unfolding m_def if_P [OF True] by blast
next
  case False
  show ?thesis
  proof (cases "k = n")
    case True
    have u: "u = ts ! j" using True False n j by (simp add: u_def)
    have "ts ! n \<noteq> ts ! j" using nth_eq_iff_index_eq [OF dist, of n j] n j True False by simp
    then have "th2 u = (th (ts ! j))\<lparr>lastIdx := wn\<rparr>" unfolding u by (simp add: th1 th2)
    then show ?thesis using w True False by (auto simp: m_def)
  next
    case False2: False
    have u: "u = ts ! k" using False2 False k by (simp add: u_def)
    have "u \<noteq> ts ! n" "u \<noteq> ts ! j" unfolding u
      using nth_eq_iff_index_eq [OF dist, of k] False False2 k n j by simp_all
    then show ?thesis unfolding u using False False2 by (simp add: th1 th2 m_def)
  qed
qed

lemma shuffleStep_ok:
  assumes env: "rand_env env" and b: "b_inv b" "curThreadIdx b = 0" "runningThreads b = 0" and n: "n < unat (runListSize b)"
  shows "\<exists>b'. shuffleStep env b n = Some b' \<and> b_inv b' \<and> b_rest b b' \<and> runListSize b' = runListSize b
     \<and> leftThreads b' = leftThreads b \<and> bst b' = bst b"
proof -
  let ?ts = "bron b"
  have sh: "b_shape b" and pl: "b_places ?ts 0 (bth b)" using b by (simp_all add: b_inv_def)
  have len: "length (threadList b) = MAX_THREADS" "length (runList b) = MAX_THREADS" "unat (runListSize b) \<le> MAX_THREADS"
    and dist: "distinct ?ts" using sh by (simp_all add: b_shape_def)
  have n32: "n < 4294967296" using n unat_u32_lt [of "runListSize b"] by linarith
  then have un: "unat (of_nat n :: u32) = n" by (simp add: unat_of_nat)
  obtain r' j where rj: "env_randInt env (brnd b) (of_nat n) = Some (r', j)" "j \<le> of_nat n" using env unfolding rand_env_def by blast
  then have j: "unat j \<le> n" using un by (simp add: word_le_nat_alt)
  then have jl: "unat j < unat (runListSize b)" using n by simp
  let ?it = "?ts ! n" and ?jt = "?ts ! unat j"
  note it = bron_member [OF sh n] and jt = bron_member [OF sh jl]
  have get: "runList b ! n = ?it" "runList b ! unat j = ?jt" using n jl by (simp_all add: bron_nth)
  let ?b2 = "b\<lparr>brnd := r', runList := (runList b)[n := ?jt, unat j := ?it]\<rparr>"
  have b2: "length (threadList ?b2) = MAX_THREADS" "bth ?b2 = bth b" using len by (simp_all add: bth_def fun_eq_iff)
  from setThread_ok [OF b2(1) it(2), of "\<lambda>x. x\<lparr>lastIdx := j\<rparr>"] obtain b3 where
    b3: "setThread ?b2 ?it (\<lambda>x. x\<lparr>lastIdx := j\<rparr>) = Some b3" "length (threadList b3) = MAX_THREADS"
      "bth b3 = (bth b)(?it := (bth b ?it)\<lparr>lastIdx := j\<rparr>)" unfolding b2(2) by blast
  from setThread_ok [OF b3(2) jt(2), of "\<lambda>x. x\<lparr>lastIdx := of_nat n\<rparr>"] obtain b4 where
    b4: "setThread b3 ?jt (\<lambda>x. x\<lparr>lastIdx := of_nat n\<rparr>) = Some b4" "length (threadList b4) = MAX_THREADS"
      "bth b4 = (bth b3)(?jt := (bth b3 ?jt)\<lparr>lastIdx := of_nat n\<rparr>)" by blast
  note f3 = setThread_fields [OF b3(1)] and f4 = setThread_fields [OF b4(1)]
  have step: "shuffleStep env b n = Some b4"
    using rj(1) un n jl len get b3(1) b4(1) by (simp add: shuffleStep_def setRun_def Let_def)
  have st: "bst b4 = bst b" by (auto simp: bst_def fun_eq_iff b4(3) b3(3))
  have ron: "bron b4 = ?ts[n := ?jt, unat j := ?it]" using f3 f4 by (simp add: bron_def take_update_swap)
  have bl: "length ?ts = unat (runListSize b)" by (rule bron_length [OF sh])
  have set: "set (bron b4) = set ?ts" "distinct (bron b4)"
    unfolding ron using dist n jl bl by (simp_all add: set_swap distinct_swap)
  have "b_shape b4" using sh f3 f4 b4(2) len set unfolding b_shape_def st by simp
  moreover have "b_places (bron b4) 0 (bth b4)"
    unfolding b_places_def
  proof (intro allI impI)
    fix k
    assume "k < length (bron b4)"
    then have k: "k < length ?ts" by (simp add: ron)
    let ?u = "bron b4 ! k"
    have pk: "\<And>i. i < length ?ts \<Longrightarrow> bstate (bth b (?ts ! i)) \<noteq> RUNNING
        \<and> (bstate (bth b (?ts ! i)) = LEFT \<longrightarrow> unat (lastIdx (bth b (?ts ! i))) = i)
        \<and> (bstate (bth b (?ts ! i)) = WAITING \<longrightarrow> futexWord (bth b (?ts ! i)) = 1)"
      using pl by (simp add: b_places_def)
    let ?m = "if k = unat j then n else if k = n then unat j else k"
    have m: "?m < length ?ts" using k n jl bl by simp
    have "(\<exists>w. bth b4 ?u = (bth b (?ts ! ?m))\<lparr>lastIdx := w\<rparr> \<and> unat w = k) \<or> (?m = k \<and> bth b4 ?u = bth b (?ts ! k))"
      unfolding ron by (rule swap_places [OF dist _ _ k un refl b3(3) b4(3)]) (use n jl bl in simp_all)
    then have "(\<exists>w. bth b4 ?u = (bth b (?ts ! ?m))\<lparr>lastIdx := w\<rparr> \<and> unat w = k) \<or> bth b4 ?u = bth b (?ts ! k)" by blast
    then show "(0 \<le> k \<longrightarrow> bstate (bth b4 ?u) \<noteq> RUNNING)
      \<and> (bstate (bth b4 ?u) = RUNNING \<or> bstate (bth b4 ?u) = LEFT \<longrightarrow> unat (lastIdx (bth b4 ?u)) = k)
      \<and> (bstate (bth b4 ?u) = WAITING \<longrightarrow> futexWord (bth b4 ?u) = 1)"
      using pk [OF k] pk [OF m] by auto
  qed
  ultimately have "b_inv b4" using b f3 f4 set(1) unfolding b_inv_def st bcount_def by simp
  then show ?thesis using step st f3 f4 b by (auto simp: b_rest_def)
qed

lemma none_running:
  assumes "b_inv b" "runningThreads b = 0" "unat t < MAX_THREADS"
  shows "bst b t \<noteq> RUNNING"
proof
  assume r: "bst b t = RUNNING"
  have "bcount (bron b) (bst b) RUNNING = 0" using assms by (simp add: b_inv_def)
  then have "{t \<in> set (bron b). bst b t = RUNNING} = {}" by (simp add: bcount_def)
  moreover have "t \<in> set (bron b)" using assms r by (auto simp: b_inv_def b_shape_def)
  ultimately show False using r by blast
qed

lemma rewind_inv:
  assumes "b_inv b" "runningThreads b = 0"
  shows "b_inv (b\<lparr>bsched := w, curThreadIdx := 0, phaseCount := p\<rparr>)" (is "b_inv ?b")
proof -
  have same: "bron ?b = bron b" "bth ?b = bth b" "bst ?b = bst b" by (simp_all add: bron_def bth_def bst_def fun_eq_iff)
  have len: "length (bron b) = unat (runListSize b)" and sh: "b_shape b" using assms(1) by (simp_all add: bron_length b_inv_def)
  have "bst b (bron b ! i) \<noteq> RUNNING" if "i < length (bron b)" for i
    using none_running [OF assms] bron_member [OF sh] that len by simp
  then show ?thesis using assms unfolding b_inv_def b_shape_def b_places_def same bst_def by simp
qed

definition phase_over :: "('r, 'w) Barrier \<Rightarrow> bool" where
  "phase_over b \<longleftrightarrow> curThreadIdx b = runListSize b \<and> runningThreads b = 0 \<and> leftThreads b \<noteq> runListSize b"

definition new_phase :: "('r, 'w) BarrierEnv \<Rightarrow> ('r, 'w) Barrier \<Rightarrow> ('r, 'w) Barrier \<Rightarrow> bool" where
  "new_phase env b b' \<longleftrightarrow> phaseCount b' = phaseCount b + 1 \<and> env_callback env (bsched b) = Some (bsched b')
     \<and> parallelThreads b' = parallelThreads b
     \<and> (\<forall>t. unat t < MAX_THREADS \<longrightarrow> bst b' t = bst b t \<or> bst b t = LEFT \<and> bst b' t = OFFLINE)"

lemma shuffle_ok:
  assumes env: "rand_env env" and b: "b_inv b" "curThreadIdx b = 0" "runningThreads b = 0"
  shows "\<exists>b'. run_all (shuffleStep env) b (rev [1..<unat (runListSize b)]) = Some b' \<and> b_inv b' \<and> b_rest b b' \<and> bst b' = bst b"
proof -
  let ?I = "\<lambda>(_ :: nat) b'. b_inv b' \<and> b_rest b b' \<and> runListSize b' = runListSize b \<and> bst b' = bst b"
  have "\<exists>b2. shuffleStep env b1 (rev [1..<unat (runListSize b)] ! k) = Some b2 \<and> ?I (Suc k) b2"
    if "k < length (rev [1..<unat (runListSize b)])" "?I k b1" for k b1
  proof -
    have "rev [1..<unat (runListSize b)] ! k \<in> set (rev [1..<unat (runListSize b)])" using that(1) by (rule nth_mem)
    then have "rev [1..<unat (runListSize b)] ! k < unat (runListSize b1)" using that(2) by simp
    from shuffleStep_ok [OF env _ _ _ this] that(2) show ?thesis by (auto simp: b_rest_def)
  qed
  then have "\<exists>b'. run_all (shuffleStep env) b (rev [1..<unat (runListSize b)]) = Some b'
      \<and> ?I (length (rev [1..<unat (runListSize b)])) b'"
    by (rule run_all_nth) (use b in \<open>simp_all add: b_rest_def\<close>)
  then show ?thesis by blast
qed

lemma checkEndPhase_ok:
  assumes env: "env_at env (bsched b)" and b: "b_inv b"
  shows "\<exists>b'. checkEndPhase env b = Some b' \<and> b_inv b' \<and>
    (if phase_over b then new_phase env b b' \<and> curThreadIdx b' = 0 \<and> runningThreads b' = 0 else b' = b)"
proof (cases "phase_over b")
  case False
  then have "checkEndPhase env b = Some b" by (simp add: checkEndPhase_def phase_over_def)
  then show ?thesis using b False by simp
next
  case True
  then have o: "curThreadIdx b = runListSize b" "runningThreads b = 0" "leftThreads b \<noteq> runListSize b"
    by (simp_all add: phase_over_def)
  have rnd: "rand_env env" using env by (simp add: env_at_def)
  obtain w where w: "env_callback env (bsched b) = Some w" using env unfolding env_at_def by blast
  define b1 where "b1 = b\<lparr>bsched := w, curThreadIdx := 0, phaseCount := phaseCount b + 1\<rparr>"
  have b1: "b_inv b1" "curThreadIdx b1 = 0" "runningThreads b1 = 0" "phaseCount b1 = phaseCount b + 1" "bsched b1 = w"
    "parallelThreads b1 = parallelThreads b" "leftThreads b1 = leftThreads b" "runListSize b1 = runListSize b"
    using rewind_inv [OF b o(2)] o(2) by (simp_all add: b1_def)
  have st1: "bst b1 = bst b" by (simp add: b1_def bst_def bth_def fun_eq_iff)
  let ?clean = "if phaseCount b AND 31 = 0 then do {
               _ \<leftarrow> require (runListSize b1 > 0);
               (b2, newSize) \<leftarrow> cleanLoop b1 0 (runListSize b1);
               _ \<leftarrow> require (runListSize b2 - newSize = leftThreads b2);
               Some (b2\<lparr>leftThreads := 0, runListSize := newSize\<rparr>)
             } else Some b1"
  have "\<exists>b2. ?clean = Some b2 \<and> b_inv b2 \<and> b_rest b1 b2
      \<and> (\<forall>t. unat t < MAX_THREADS \<longrightarrow> bst b2 t = bst b t \<or> bst b t = LEFT \<and> bst b2 t = OFFLINE)"
  proof (cases "phaseCount b AND 31 = 0")
    case False
    then show ?thesis using b1 st1 by (simp add: b_rest_def)
  next
    case True
    have "bcount (bron b) (bst b) LEFT \<le> unat (runListSize b)"
      using bcount_le [of "bron b"] bron_length [of b] b by (simp add: b_inv_def)
    then have "unat (leftThreads b) \<le> unat (runListSize b)" using b by (simp add: b_inv_def)
    then have "runListSize b \<noteq> 0" using o(3) by (auto simp: unat_eq_zero)
    then have pos: "runListSize b1 > 0" using b1(8) by (simp add: word_gt_0)
    from clean_pass [OF b1(1,2,3)] obtain b' n' where c: "cleanLoop b1 0 (runListSize b1) = Some (b', n')"
      "runListSize b' - n' = leftThreads b'" "b_inv (bview b' n' 0)" "b_rest b1 b'"
      "\<And>t. unat t < MAX_THREADS \<Longrightarrow> bst b' t = (if bst b1 t = LEFT then OFFLINE else bst b1 t)" by blast
    have "?clean = Some (bview b' n' 0)" using True pos c(1,2) by (simp add: bview_def)
    moreover have "b_rest b1 (bview b' n' 0)" using c(4) by (simp add: b_rest_def)
    ultimately show ?thesis using c(3,5) st1 by auto
  qed
  then obtain b2 where b2: "?clean = Some b2" "b_inv b2" "b_rest b1 b2"
    "\<And>t. unat t < MAX_THREADS \<Longrightarrow> bst b2 t = bst b t \<or> bst b t = LEFT \<and> bst b2 t = OFFLINE" by blast
  have r2: "curThreadIdx b2 = 0" "runningThreads b2 = 0" using b2(3) by (simp_all add: b_rest_def)
  let ?shuf = "if parallelThreads b2 < runListSize b2
            then run_all (shuffleStep env) b2 (rev [1..<unat (runListSize b2)]) else Some b2"
  have "\<exists>b3. ?shuf = Some b3 \<and> b_inv b3 \<and> b_rest b2 b3 \<and> bst b3 = bst b2"
    using shuffle_ok [OF rnd b2(2) r2] b2(2) r2 by (auto simp: b_rest_def)
  then obtain b3 where b3: "?shuf = Some b3" "b_inv b3" "b_rest b2 b3" "bst b3 = bst b2" by blast
  have "checkEndPhase env b = do { b2 \<leftarrow> ?clean; (if parallelThreads b2 < runListSize b2
            then run_all (shuffleStep env) b2 (rev [1..<unat (runListSize b2)]) else Some b2) }"
    using o w unfolding checkEndPhase_def Let_def b1_def by simp
  also have "\<dots> = Some b3" unfolding b2(1) using b3(1) by simp
  finally have "checkEndPhase env b = Some b3" .
  moreover have "new_phase env b b3" using b2(3,4) b3(3,4) b1 w unfolding new_phase_def b_rest_def by simp
  ultimately show ?thesis using True b3(2,3) by (simp add: b_rest_def)
qed

section \<open>Waking the next threads\<close>

text \<open>No more threads can be set running, and if none runs, every thread on the list has left.\<close>

definition settled :: "('r, 'w) Barrier \<Rightarrow> bool" where
  "settled b \<longleftrightarrow> (runningThreads b = parallelThreads b \<or> curThreadIdx b = runListSize b)
     \<and> (runningThreads b = 0 \<longrightarrow> leftThreads b = runListSize b)"

lemma all_left:
  assumes b: "b_inv b" and r: "runningThreads b = 0" and w: "\<And>t. t \<in> set (bron b) \<Longrightarrow> bst b t \<noteq> WAITING"
  shows "leftThreads b = runListSize b"
proof -
  have sh: "b_shape b" using b by (simp add: b_inv_def)
  have "bst b t = LEFT" if "t \<in> set (bron b)" for t
    using none_running [OF b r, of t] w [OF that] that sh by (cases "bst b t") (auto simp: b_shape_def)
  then have "{t \<in> set (bron b). bst b t = LEFT} = set (bron b)" by blast
  then have "bcount (bron b) (bst b) LEFT = length (bron b)" using sh by (simp add: bcount_def b_shape_def distinct_card)
  then have "unat (leftThreads b) = unat (runListSize b)" using b bron_length [OF sh] by (simp add: b_inv_def)
  then show ?thesis by (simp add: word_unat_eq_iff)
qed

text \<open>The two ways the wake-up can go: the phase goes on, or it ends between the two scans of the list.\<close>

definition next_phase :: "('r, 'w) BarrierEnv \<Rightarrow> ('r, 'w) Barrier \<Rightarrow> ('r, 'w) Barrier \<Rightarrow> bool" where
  "next_phase env b b' \<longleftrightarrow> (\<exists>b1 b2. woken b b1 \<and> b_inv b1 \<and> phase_over b1 \<and> new_phase env b1 b2
       \<and> curThreadIdx b2 = 0 \<and> woken b2 b')"

lemma tryWakeNext_ok:
  assumes env: "env_at env (bsched b)" and b: "b_inv b"
  shows "\<exists>b'. tryWakeNext env b = Some b' \<and> b_inv b' \<and> settled b' \<and> parallelThreads b' = parallelThreads b
     \<and> (woken b b' \<or> next_phase env b b')"
proof -
  from checkRunList_ok [OF b] obtain b1 where b1: "checkRunList b = Some b1" "b_inv b1" "woken b b1"
    "runningThreads b1 = parallelThreads b1 \<or> curThreadIdx b1 = runListSize b1" by blast
  have env1: "env_at env (bsched b1)" using env b1(3) by (simp add: woken_def)
  from checkEndPhase_ok [OF env1 b1(2)] obtain b2 where b2: "checkEndPhase env b1 = Some b2" "b_inv b2"
    "if phase_over b1 then new_phase env b1 b2 \<and> curThreadIdx b2 = 0 \<and> runningThreads b2 = 0 else b2 = b1" by blast
  show ?thesis
  proof (cases "phase_over b1")
    case False
    then have "b2 = b1" using b2(3) by simp
    moreover have "checkRunList b1 = Some b1" by (subst checkRunList.simps, rule if_not_P) (use b1(4) in auto)
    ultimately have "tryWakeNext env b = Some b1" using b1(1) b2(1) by (simp add: tryWakeNext_def)
    moreover have "0 < parallelThreads b1" using b1(2) by (simp add: b_inv_def b_shape_def)
    then have "settled b1" using b1(4) False by (auto simp: settled_def phase_over_def)
    ultimately show ?thesis using b1 by (auto simp: woken_def)
  next
    case True
    then have n: "new_phase env b1 b2" "curThreadIdx b2 = 0" "runningThreads b2 = 0" using b2(3) by simp_all
    from checkRunList_ok [OF b2(2)] obtain b3 where b3: "checkRunList b2 = Some b3" "b_inv b3" "woken b2 b3"
      "runningThreads b3 = parallelThreads b3 \<or> curThreadIdx b3 = runListSize b3" by blast
    have tw: "tryWakeNext env b = Some b3" using b1(1) b2(1) b3(1) by (simp add: tryWakeNext_def)
    have par: "0 < parallelThreads b3" using b3(2) by (simp add: b_inv_def b_shape_def)
    have "leftThreads b3 = runListSize b3" if r: "runningThreads b3 = 0"
    proof (rule all_left [OF b3(2) r])
      fix t
      assume t: "t \<in> set (bron b3)"
      have c: "curThreadIdx b3 = runListSize b3" using b3(4) par r by auto
      have ron: "bron b3 = bron b2" using b3(3) by (simp add: woken_def bron_def)
      have sh: "b_shape b2" using b2(2) by (simp add: b_inv_def)
      have "take (unat (curThreadIdx b3) - unat (curThreadIdx b2)) (drop (unat (curThreadIdx b2)) (bron b2)) = bron b2"
        using c n(2) bron_length [OF sh] b3(3) by (simp add: woken_def)
      then have "bst b3 t = (if bst b2 t = WAITING then RUNNING else bst b2 t)"
        using b3(3) t ron by (simp add: woken_def)
      then show "bst b3 t \<noteq> WAITING" by (simp split: if_splits)
    qed
    then have "settled b3" using b3(4) by (simp add: settled_def)
    moreover have "next_phase env b b3" unfolding next_phase_def using b1(2,3) True n(1,2) b3(3) by blast
    moreover have "parallelThreads b3 = parallelThreads b" using b1(3) n(1) b3(3) by (simp add: woken_def new_phase_def)
    ultimately show ?thesis using tw b3(2) by blast
  qed
qed

section \<open>The operations keep the invariant\<close>

text \<open>One thread of the list gets a new record, and the counts follow.\<close>

lemma b_inv_restate:
  assumes b: "b_inv b" and t: "t \<in> set (bron b)"
    and same: "runList b' = runList b" "runListSize b' = runListSize b" "curThreadIdx b' = curThreadIdx b"
      "parallelThreads b' = parallelThreads b" "length (threadList b') = length (threadList b)"
    and th: "bth b' = (bth b)(t := x)"
    and x: "bstate x = WAITING \<and> futexWord x = 1
      \<or> bstate x = LEFT \<and> bst b t \<in> {RUNNING, LEFT} \<and> lastIdx x = lastIdx (bth b t)"
    and run: "unat (runningThreads b') + (if bst b t = RUNNING then 1 else 0) = unat (runningThreads b)"
    and left: "unat (leftThreads b') + (if bst b t = LEFT then 1 else 0) = unat (leftThreads b) + (if bstate x = LEFT then 1 else 0)"
  shows "b_inv b'"
proof -
  have sh: "b_shape b" and pl: "b_places (bron b) (unat (curThreadIdx b)) (bth b)"
    and cn: "unat (runningThreads b) = bcount (bron b) (bst b) RUNNING" "unat (leftThreads b) = bcount (bron b) (bst b) LEFT"
    using b by (simp_all add: b_inv_def)
  have ron: "bron b' = bron b" using same by (simp add: bron_def)
  have st: "bst b' = (bst b)(t := bstate x)" by (auto simp: bst_def fun_eq_iff th)
  have xr: "bstate x \<noteq> OFFLINE" "bstate x \<noteq> RUNNING" using x by auto
  have "bst b t \<noteq> OFFLINE" using sh t by (auto simp: b_shape_def)
  have "unat (runningThreads b') \<le> unat (parallelThreads b)" using run sh by (auto simp: b_shape_def word_le_nat_alt split: if_splits)
  then have "b_shape b'" using sh same t xr unfolding b_shape_def ron st by (auto simp: word_le_nat_alt)
  moreover have "b_places (bron b') (unat (curThreadIdx b')) (bth b')"
    unfolding b_places_def ron th same(3)
  proof (intro allI impI)
    fix i
    assume i: "i < length (bron b)"
    let ?th = "(bth b)(t := x)"
    show "(unat (curThreadIdx b) \<le> i \<longrightarrow> bstate (?th (bron b ! i)) \<noteq> RUNNING)
      \<and> (bstate (?th (bron b ! i)) = RUNNING \<or> bstate (?th (bron b ! i)) = LEFT \<longrightarrow> unat (lastIdx (?th (bron b ! i))) = i)
      \<and> (bstate (?th (bron b ! i)) = WAITING \<longrightarrow> futexWord (?th (bron b ! i)) = 1)"
      using pl i x by (cases "bron b ! i = t") (auto simp: b_places_def bst_def)
  qed
  moreover have "unat (runningThreads b') = bcount (bron b) (bst b') RUNNING" "unat (leftThreads b') = bcount (bron b) (bst b') LEFT"
    using bcount_update [OF t, of "bst b" "bstate x" RUNNING] bcount_update [OF t, of "bst b" "bstate x" LEFT] cn run left xr
    unfolding st by (auto split: if_splits)
  ultimately show ?thesis unfolding b_inv_def ron by blast
qed

lemma running_pos:
  assumes "b_inv b" "unat t < MAX_THREADS" "bst b t = RUNNING"
  shows "0 < unat (runningThreads b)"
proof -
  have "runningThreads b \<noteq> 0" using none_running [of b t] assms by auto
  then show ?thesis by (metis unat_eq_zero neq0_conv)
qed

lemma left_pos:
  assumes b: "b_inv b" and "unat t < MAX_THREADS" "bst b t = LEFT"
  shows "0 < unat (leftThreads b)"
  using b_inv_word_pos [OF b, of t] assms by (auto simp: b_inv_def b_shape_def)

lemma left_lt_size:
  assumes b: "b_inv b" and "unat t < MAX_THREADS" "bst b t \<notin> {OFFLINE, LEFT}"
  shows "unat (leftThreads b) < unat (runListSize b)"
proof -
  have sh: "b_shape b" and t: "t \<in> set (bron b)" using assms by (auto simp: b_inv_def b_shape_def)
  have "bcount (bron b) (bst b) LEFT < card (set (bron b))"
    unfolding bcount_def by (rule psubset_card_mono) (use t assms(3) in auto)
  then show ?thesis using b bron_length [OF sh] card_length [of "bron b"] by (simp add: b_inv_def)
qed

lemma bar_sync_ok:
  assumes env: "env_at env (bsched b)" and b: "b_inv b" and t: "unat tid < MAX_THREADS" "bst b tid = RUNNING"
  shows "\<exists>bm b'. bar_sync env b tid = Some b' \<and> b_inv bm \<and> tryWakeNext env bm = Some b'
     \<and> runList bm = runList b \<and> runListSize bm = runListSize b \<and> curThreadIdx bm = curThreadIdx b \<and> phaseCount bm = phaseCount b \<and> bsched bm = bsched b
     \<and> parallelThreads bm = parallelThreads b \<and> bst bm = (bst b)(tid := WAITING)"
proof -
  have sh: "b_shape b" and on: "tid \<in> set (bron b)" using b t by (auto simp: b_inv_def b_shape_def)
  have len: "length (threadList b) = MAX_THREADS" using sh by (simp add: b_shape_def)
  from setThread_ok [OF len t(1), of "\<lambda>x. x\<lparr>futexWord := 1, bstate := WAITING\<rparr>"] obtain b1 where
    b1: "setThread b tid (\<lambda>x. x\<lparr>futexWord := 1, bstate := WAITING\<rparr>) = Some b1" "length (threadList b1) = MAX_THREADS"
      "bth b1 = (bth b)(tid := (bth b tid)\<lparr>futexWord := 1, bstate := WAITING\<rparr>)" by blast
  note f = setThread_fields [OF b1(1)]
  let ?b = "b1\<lparr>runningThreads := runningThreads b1 - 1\<rparr>"
  have th: "bth ?b = (bth b)(tid := (bth b tid)\<lparr>futexWord := 1, bstate := WAITING\<rparr>)" using b1(3) by (simp add: bth_def fun_eq_iff)
  have rd: "unat (runningThreads b - 1) = unat (runningThreads b) - 1" "0 < unat (runningThreads b)"
    using running_pos [OF b t] unat_dec_u32 by auto
  have inv: "b_inv ?b"
    by (rule b_inv_restate [OF b on _ _ _ _ _ th]) (use f b1(2) len t rd in simp_all)
  have "bar_sync env b tid = tryWakeNext env ?b" using t len b1(1) by (simp add: bar_sync_def bst_def bth_def)
  moreover from tryWakeNext_ok [OF _ inv] env f obtain b' where "tryWakeNext env ?b = Some b'" by auto
  moreover have "bst ?b = (bst b)(tid := WAITING)" by (auto simp: bst_def fun_eq_iff th)
  ultimately show ?thesis using inv f by (intro exI [of _ ?b] exI [of _ b']) simp
qed

lemma bar_leave_ok:
  assumes env: "env_at env (bsched b)" and b: "b_inv b" and t: "unat tid < MAX_THREADS" "bst b tid = RUNNING"
  shows "\<exists>bm b'. bar_leave env b tid = Some b' \<and> b_inv bm \<and> tryWakeNext env bm = Some b'
     \<and> runList bm = runList b \<and> runListSize bm = runListSize b \<and> curThreadIdx bm = curThreadIdx b \<and> phaseCount bm = phaseCount b \<and> bsched bm = bsched b
     \<and> parallelThreads bm = parallelThreads b \<and> bst bm = (bst b)(tid := LEFT)"
proof -
  have sh: "b_shape b" and on: "tid \<in> set (bron b)" using b t by (auto simp: b_inv_def b_shape_def)
  have len: "length (threadList b) = MAX_THREADS" using sh by (simp add: b_shape_def)
  from setThread_ok [OF len t(1), of "\<lambda>x. x\<lparr>bstate := LEFT\<rparr>"] obtain b1 where
    b1: "setThread b tid (\<lambda>x. x\<lparr>bstate := LEFT\<rparr>) = Some b1" "length (threadList b1) = MAX_THREADS"
      "bth b1 = (bth b)(tid := (bth b tid)\<lparr>bstate := LEFT\<rparr>)" by blast
  note f = setThread_fields [OF b1(1)]
  let ?b = "b1\<lparr>leftThreads := leftThreads b1 + 1, runningThreads := runningThreads b1 - 1\<rparr>"
  have th: "bth ?b = (bth b)(tid := (bth b tid)\<lparr>bstate := LEFT\<rparr>)" using b1(3) by (simp add: bth_def fun_eq_iff)
  have rd: "unat (runningThreads b - 1) = unat (runningThreads b) - 1" "0 < unat (runningThreads b)"
    using running_pos [OF b t] unat_dec_u32 by auto
  have "leftThreads b < runListSize b" using left_lt_size [OF b t(1)] t(2) by (simp add: word_less_nat_alt)
  then have ld: "unat (leftThreads b + 1) = Suc (unat (leftThreads b))" by (rule unat_inc_u32)
  have inv: "b_inv ?b"
    by (rule b_inv_restate [OF b on _ _ _ _ _ th]) (use f b1(2) len t rd ld in simp_all)
  have "bar_leave env b tid = tryWakeNext env ?b" using t len b1(1) by (simp add: bar_leave_def bst_def bth_def)
  moreover from tryWakeNext_ok [OF _ inv] env f obtain b' where "tryWakeNext env ?b = Some b'" by auto
  moreover have "bst ?b = (bst b)(tid := LEFT)" by (auto simp: bst_def fun_eq_iff th)
  ultimately show ?thesis using inv f by (intro exI [of _ ?b] exI [of _ b']) simp
qed

text \<open>A thread that had left takes the place just before the cursor, so that it runs again in this phase.\<close>

lemma swap_inv:
  assumes b: "b_inv b" and i: "i < unat (curThreadIdx b)" and tid: "bron b ! i = tid" "bst b tid = LEFT"
    and cur: "cur = curThreadIdx b - 1" and wi: "unat wi = i"
    and b': "runList b' = (runList b)[i := bron b ! unat cur, unat cur := tid]" "runListSize b' = runListSize b"
      "curThreadIdx b' = cur" "runningThreads b' = runningThreads b" "leftThreads b' = leftThreads b"
      "parallelThreads b' = parallelThreads b" "length (threadList b') = length (threadList b)"
    and th1: "th1 = (bth b)(bron b ! unat cur := (bth b (bron b ! unat cur))\<lparr>lastIdx := wi\<rparr>)"
    and th: "bth b' = th1(tid := (th1 tid)\<lparr>lastIdx := cur\<rparr>)"
  shows "b_inv b' \<and> bst b' = bst b \<and> bron b' = (bron b)[unat cur := tid, i := bron b ! unat cur]"
proof -
  let ?ts = "bron b" and ?c = "unat cur"
  have sh: "b_shape b" and pl: "b_places ?ts (unat (curThreadIdx b)) (bth b)" using b by (simp_all add: b_inv_def)
  have len: "length ?ts = unat (runListSize b)" by (rule bron_length [OF sh])
  have dist: "distinct ?ts" and cs: "unat (curThreadIdx b) \<le> unat (runListSize b)" using sh by (simp_all add: b_shape_def word_le_nat_alt)
  have c: "unat (curThreadIdx b) = Suc ?c" using unat_dec_u32 [of "curThreadIdx b"] i cur by simp
  have cl: "?c < length ?ts" and il: "i < length ?ts" using c cs len i by simp_all
  have ron: "bron b' = ?ts[?c := ?ts ! i, i := ?ts ! ?c]"
    using b' tid by (cases "i = ?c") (simp_all add: bron_def take_update_swap list_update_swap)
  have st: "bst b' = bst b" by (auto simp: bst_def fun_eq_iff th th1)
  have set: "set (bron b') = set ?ts" "distinct (bron b')"
    unfolding ron using dist cl il by (simp_all add: set_swap distinct_swap)
  have "cur \<le> runListSize b" using c cs by (simp add: word_le_nat_alt)
  then have "b_shape b'" using sh b' set unfolding b_shape_def st by simp
  moreover have "b_places (bron b') ?c (bth b')"
    unfolding b_places_def
  proof (intro allI impI)
    fix k
    assume "k < length (bron b')"
    then have k: "k < length ?ts" by (simp add: ron)
    let ?u = "bron b' ! k"
    let ?m = "if k = i then ?c else if k = ?c then i else k"
    have m: "?m < length ?ts" using k cl il by simp
    have sw: "(\<exists>w. bth b' ?u = (bth b (?ts ! ?m))\<lparr>lastIdx := w\<rparr> \<and> unat w = k) \<or> (?m = k \<and> bth b' ?u = bth b (?ts ! k))"
      unfolding ron by (rule swap_places [OF dist cl il k refl wi th1]) (simp only: th tid(1))
    have run: "bstate (bth b (?ts ! ?m)) \<noteq> RUNNING" if "?c \<le> k"
    proof (cases "k = ?c")
      case True
      then have "?m = i" using i c by auto
      then show ?thesis using tid by (simp add: bst_def)
    next
      case False
      then have "?m = k" "unat (curThreadIdx b) \<le> k" using that i c by auto
      then show ?thesis using pl k by (simp add: b_places_def)
    qed
    have pm: "(bstate (bth b (?ts ! ?m)) = WAITING \<longrightarrow> futexWord (bth b (?ts ! ?m)) = 1)"
      "(bstate (bth b (?ts ! k)) = RUNNING \<or> bstate (bth b (?ts ! k)) = LEFT \<longrightarrow> unat (lastIdx (bth b (?ts ! k))) = k)"
      using pl k m unfolding b_places_def by blast+
    show "(?c \<le> k \<longrightarrow> bstate (bth b' ?u) \<noteq> RUNNING)
      \<and> (bstate (bth b' ?u) = RUNNING \<or> bstate (bth b' ?u) = LEFT \<longrightarrow> unat (lastIdx (bth b' ?u)) = k)
      \<and> (bstate (bth b' ?u) = WAITING \<longrightarrow> futexWord (bth b' ?u) = 1)"
      using sw
    proof
      assume "\<exists>w. bth b' ?u = (bth b (?ts ! ?m))\<lparr>lastIdx := w\<rparr> \<and> unat w = k"
      then obtain w where "bth b' ?u = (bth b (?ts ! ?m))\<lparr>lastIdx := w\<rparr>" "unat w = k" by blast
      then show ?thesis using run pm(1) by (simp split del: if_split)
    next
      assume "?m = k \<and> bth b' ?u = bth b (?ts ! k)"
      then show ?thesis using run pm by (simp split del: if_split)
    qed
  qed
  ultimately have "b_inv b'" using b b' unfolding b_inv_def st by (simp add: set bcount_def)
  then show ?thesis using st ron tid by simp
qed

text \<open>The threads that the cursor has passed in this phase.\<close>

definition past :: "('r, 'w) Barrier \<Rightarrow> u32 set" where
  "past b = set (take (unat (curThreadIdx b)) (bron b))"

lemma card_tids: "card {t :: u32. unat t < MAX_THREADS} \<le> MAX_THREADS"
proof -
  have "card {t :: u32. unat t < MAX_THREADS} \<le> card {..<MAX_THREADS}"
    by (rule card_inj_on_le [of unat]) (auto simp: inj_on_def word_unat_eq_iff)
  then show ?thesis by simp
qed

lemma size_room:
  assumes b: "b_inv b" and t: "unat tid < MAX_THREADS" "bst b tid = OFFLINE"
  shows "unat (runListSize b) < MAX_THREADS"
proof -
  have sh: "b_shape b" using b by (simp add: b_inv_def)
  have "set (bron b) \<subset> {t :: u32. unat t < MAX_THREADS}" using sh t unfolding b_shape_def by blast
  moreover have "finite {t :: u32. unat t < MAX_THREADS}" by simp
  ultimately have "card (set (bron b)) < card {t :: u32. unat t < MAX_THREADS}" by (simp add: psubset_card_mono)
  moreover have "card (set (bron b)) = unat (runListSize b)" using sh bron_length [OF sh] by (simp add: b_shape_def distinct_card)
  ultimately show ?thesis using card_tids by linarith
qed

lemma join_new_inv:
  assumes b: "b_inv b" and t: "unat tid < MAX_THREADS" "bst b tid = OFFLINE"
    and b': "runList b' = (runList b)[unat (runListSize b) := tid]" "runListSize b' = runListSize b + 1"
      "curThreadIdx b' = curThreadIdx b" "runningThreads b' = runningThreads b" "leftThreads b' = leftThreads b"
      "parallelThreads b' = parallelThreads b" "length (threadList b') = length (threadList b)"
      "bth b' = (bth b)(tid := (bth b tid)\<lparr>bstate := WAITING, futexWord := 1\<rparr>)"
  shows "b_inv b' \<and> past b' = past b - {tid}" "bron b' = bron b @ [tid]"
proof -
  have sh: "b_shape b" and pl: "b_places (bron b) (unat (curThreadIdx b)) (bth b)"
    and cn: "unat (runningThreads b) = bcount (bron b) (bst b) RUNNING" "unat (leftThreads b) = bcount (bron b) (bst b) LEFT"
    using b by (simp_all add: b_inv_def)
  have bl: "length (bron b) = unat (runListSize b)" by (rule bron_length [OF sh])
  have room: "unat (runListSize b) < MAX_THREADS" by (rule size_room [OF b t])
  have off: "tid \<notin> set (bron b)" using sh t by (simp add: b_shape_def)
  have len: "length (runList b) = MAX_THREADS" using sh by (simp add: b_shape_def)
  have sz: "unat (runListSize b + 1) = Suc (unat (runListSize b))"
    using room by (intro unat_inc_u32 [of _ "2048"]) (simp add: word_less_nat_alt MAX_THREADS_def)
  show ron: "bron b' = bron b @ [tid]" using b' sz len room by (simp add: bron_def take_Suc_conv_app_nth)
  have st: "bst b' = (bst b)(tid := WAITING)" by (auto simp: bst_def fun_eq_iff b'(8))
  have cs: "unat (curThreadIdx b) \<le> unat (runListSize b)" using sh by (simp add: b_shape_def word_le_nat_alt)
  have "b_shape b'"
    using sh b' off t room cs sz unfolding b_shape_def ron st by (auto simp: word_le_nat_alt)
  moreover have "b_places (bron b') (unat (curThreadIdx b')) (bth b')"
    unfolding b_places_def ron b'(3,8)
  proof (intro allI impI)
    fix i
    assume i: "i < length (bron b @ [tid])"
    let ?th = "(bth b)(tid := (bth b tid)\<lparr>bstate := WAITING, futexWord := 1\<rparr>)" and ?u = "(bron b @ [tid]) ! i"
    show "(unat (curThreadIdx b) \<le> i \<longrightarrow> bstate (?th ?u) \<noteq> RUNNING)
      \<and> (bstate (?th ?u) = RUNNING \<or> bstate (?th ?u) = LEFT \<longrightarrow> unat (lastIdx (?th ?u)) = i)
      \<and> (bstate (?th ?u) = WAITING \<longrightarrow> futexWord (?th ?u) = 1)"
    proof (cases "i < length (bron b)")
      case True
      then have "?u = bron b ! i" "bron b ! i \<noteq> tid" using off by (auto simp: nth_append)
      then show ?thesis using pl True by (simp add: b_places_def)
    next
      case False
      then have "?u = tid" using i by (simp add: nth_append)
      then show ?thesis by simp
    qed
  qed
  moreover have "bcount (bron b') (bst b') r = bcount (bron b) (bst b) r" if "r \<noteq> WAITING" for r
  proof -
    have "{t \<in> set (bron b'). bst b' t = r} = {t \<in> set (bron b). bst b t = r}" using off that unfolding ron st by auto
    then show ?thesis by (simp add: bcount_def)
  qed
  ultimately have "b_inv b'" using b' cn unfolding b_inv_def by simp
  moreover have "past b' = past b" using b' cs bl by (simp add: past_def ron)
  moreover have "tid \<notin> past b" using off by (auto simp: past_def dest: in_set_takeD)
  ultimately show "b_inv b' \<and> past b' = past b - {tid}" by simp
qed

text \<open>A thread that left and is back: the place it gets, before its state changes.\<close>

definition join_place :: "('r, 'w) Barrier \<Rightarrow> u32 \<Rightarrow> ('r, 'w) Barrier option" where
  "join_place b tid = do {
     t \<leftarrow> aget (threadList b) (unat tid);
     let b1 = b\<lparr>leftThreads := leftThreads b - 1\<rparr>;
     let last = lastIdx t;
     (if curThreadIdx b1 > last then do {
        let cur = curThreadIdx b1 - 1;
        rtid \<leftarrow> aget (runList b1) (unat last);
        _ \<leftarrow> require (tid = rtid);
        otherTid \<leftarrow> aget (runList b1) (unat cur);
        b2 \<leftarrow> setRun (b1\<lparr>curThreadIdx := cur\<rparr>) last otherTid;
        b3 \<leftarrow> setRun b2 cur tid;
        b4 \<leftarrow> setThread b3 otherTid (\<lambda>x. x\<lparr>lastIdx := last\<rparr>);
        setThread b4 tid (\<lambda>x. x\<lparr>lastIdx := cur\<rparr>)
      } else Some b1)
   }"

lemma join_place_ok:
  assumes b: "b_inv b" and t: "unat tid < MAX_THREADS" "bst b tid = LEFT"
  shows "\<exists>b1. join_place b tid = Some b1 \<and> b_inv (b1\<lparr>leftThreads := leftThreads b\<rparr>) \<and> leftThreads b1 = leftThreads b - 1
     \<and> bst b1 = bst b \<and> past b1 = past b - {tid} \<and> set (bron b1) = set (bron b) \<and> runningThreads b1 = runningThreads b
     \<and> parallelThreads b1 = parallelThreads b \<and> phaseCount b1 = phaseCount b \<and> bsched b1 = bsched b \<and> length (threadList b1) = MAX_THREADS"
proof -
  let ?ts = "bron b" and ?last = "lastIdx (bth b tid)" and ?cur = "curThreadIdx b - 1"
  have sh: "b_shape b" and pl: "b_places ?ts (unat (curThreadIdx b)) (bth b)" using b by (simp_all add: b_inv_def)
  have len: "length (threadList b) = MAX_THREADS" "length (runList b) = MAX_THREADS" "unat (runListSize b) \<le> MAX_THREADS"
    and dist: "distinct ?ts" and cs: "unat (curThreadIdx b) \<le> unat (runListSize b)"
    using sh by (simp_all add: b_shape_def word_le_nat_alt)
  have bl: "length ?ts = unat (runListSize b)" by (rule bron_length [OF sh])
  have "tid \<in> set ?ts" using sh t by (simp add: b_shape_def)
  then obtain i where i: "i < length ?ts" "?ts ! i = tid" by (auto simp: in_set_conv_nth)
  then have li: "unat ?last = i" using pl t by (auto simp: b_places_def bst_def)
  have get: "aget (threadList b) (unat tid) = Some (bth b tid)" using t len by (simp add: bth_def)
  have rl: "runList b ! i = tid" using bron_nth [of i b] i bl by simp
  show ?thesis
  proof (cases "curThreadIdx b > ?last")
    case False
    have jp: "join_place b tid = Some (b\<lparr>leftThreads := leftThreads b - 1\<rparr>)" using get False by (simp add: join_place_def Let_def)
    have "unat (curThreadIdx b) \<le> i" using False li by (simp add: word_less_nat_alt)
    then have "tid \<notin> past b" using dist i by (auto simp: past_def in_set_conv_nth nth_eq_iff_index_eq)
    then show ?thesis using jp b len by (simp add: past_def bron_def bst_def bth_def fun_eq_iff)
  next
    case True
    have ic: "i < unat (curThreadIdx b)" using True li by (simp add: word_less_nat_alt)
    have c: "unat (curThreadIdx b) = Suc (unat ?cur)" using unat_dec_u32 [of "curThreadIdx b"] ic by simp
    have cn: "unat ?cur < unat (runListSize b)" using c cs by simp
    let ?o = "?ts ! unat ?cur"
    have om: "unat ?o < MAX_THREADS" by (rule bron_member [OF sh cn])
    have og: "runList b ! unat ?cur = ?o" using bron_nth [OF cn] by simp
    let ?b3 = "b\<lparr>leftThreads := leftThreads b - 1, curThreadIdx := ?cur, runList := (runList b)[i := ?o, unat ?cur := tid]\<rparr>"
    have b3: "length (threadList ?b3) = MAX_THREADS" "bth ?b3 = bth b" using len by (simp_all add: bth_def fun_eq_iff)
    from setThread_ok [OF b3(1) om, of "\<lambda>x. x\<lparr>lastIdx := ?last\<rparr>"] obtain b4 where
      b4: "setThread ?b3 ?o (\<lambda>x. x\<lparr>lastIdx := ?last\<rparr>) = Some b4" "length (threadList b4) = MAX_THREADS"
        "bth b4 = (bth b)(?o := (bth b ?o)\<lparr>lastIdx := ?last\<rparr>)" unfolding b3(2) by blast
    from setThread_ok [OF b4(2) t(1), of "\<lambda>x. x\<lparr>lastIdx := ?cur\<rparr>"] obtain b5 where
      b5: "setThread b4 tid (\<lambda>x. x\<lparr>lastIdx := ?cur\<rparr>) = Some b5" "length (threadList b5) = MAX_THREADS"
        "bth b5 = (bth b4)(tid := (bth b4 tid)\<lparr>lastIdx := ?cur\<rparr>)" by blast
    note f4 = setThread_fields [OF b4(1)] and f5 = setThread_fields [OF b5(1)]
    have jp: "join_place b tid = Some b5"
      using get True li rl og cn i bl len b4(1) b5(1) by (simp add: join_place_def setRun_def Let_def)
    let ?b = "b5\<lparr>leftThreads := leftThreads b\<rparr>"
    have vw: "bth ?b = bth b5" "bst ?b = bst b5" "bron ?b = bron b5" by (simp_all add: bth_def bst_def bron_def fun_eq_iff)
    have sw: "b_inv ?b \<and> bst ?b = bst b \<and> bron ?b = ?ts[unat ?cur := tid, i := ?o]"
      by (rule swap_inv [OF b ic i(2) t(2) refl li _ _ _ _ _ _ _ b4(3)]) (use f4 f5 b5 len vw in simp_all)
    have "past b5 = past b - {tid}"
    proof -
      let ?us = "take (Suc (unat ?cur)) ?ts"
      have u: "length ?us = Suc (unat ?cur)" "distinct ?us" using cn bl dist by simp_all
      have "bron b5 = ?ts[i := ?o, unat ?cur := tid]"
        using sw vw i(2) list_update_id [of ?ts i] by (cases "i = unat ?cur") (simp_all add: list_update_swap)
      then have "take (unat ?cur) (bron b5) = take (length ?us - 1) (?us[i := ?us ! (length ?us - 1)])"
        using u(1) ic c by (simp add: take_update_swap min_def list_update_beyond)
      moreover have "?us ! i = tid" using ic c i by simp
      ultimately have "set (take (unat ?cur) (bron b5)) = set ?us - {tid}"
        using swap_remove(2) [OF u(2), of i] u(1) ic c by simp
      then show ?thesis using f4 f5 c by (simp add: past_def)
    qed
    moreover have "set (bron b5) = set ?ts"
      using set_swap [of "unat ?cur" ?ts i] sw vw i cn bl by simp
    moreover have "leftThreads b5 = leftThreads b - 1" "runningThreads b5 = runningThreads b"
      "parallelThreads b5 = parallelThreads b" "phaseCount b5 = phaseCount b" "bsched b5 = bsched b" using f4 f5 by simp_all
    moreover have "b_inv ?b" using sw by (rule conjunct1)
    moreover have "bst b5 = bst b" using sw unfolding vw by (rule conjunct1 [OF conjunct2])
    ultimately show ?thesis using jp b5(2) by (intro exI [of _ b5] conjI)
  qed
qed

lemma bar_join_LEFT:
  assumes "aget (threadList b) (unat tid) = Some t" "bstate t = LEFT"
  shows "bar_join env b tid = do {
     b1 \<leftarrow> join_place b tid;
     b2 \<leftarrow> setThread b1 tid (\<lambda>x. x\<lparr>bstate := WAITING, futexWord := 1\<rparr>);
     tryWakeNext env b2 }"
  using assms by (simp add: bar_join_def join_place_def Let_def)

lemma bar_join_ok:
  assumes env: "env_at env (bsched b)" and b: "b_inv b" and t: "unat tid < MAX_THREADS" "bst b tid = LEFT \<or> bst b tid = OFFLINE"
  shows "\<exists>bm b'. bar_join env b tid = Some b' \<and> b_inv bm \<and> tryWakeNext env bm = Some b' \<and> tid \<in> set (bron bm)
     \<and> past bm = past b - {tid} \<and> phaseCount bm = phaseCount b \<and> bsched bm = bsched b
     \<and> parallelThreads bm = parallelThreads b \<and> bst bm = (bst b)(tid := WAITING)"
proof -
  have sh: "b_shape b" using b by (simp add: b_inv_def)
  have len: "length (threadList b) = MAX_THREADS" "length (runList b) = MAX_THREADS" using sh by (simp_all add: b_shape_def)
  have get: "aget (threadList b) (unat tid) = Some (bth b tid)" using t len by (simp add: bth_def)
  let ?f = "\<lambda>x. x\<lparr>bstate := WAITING, futexWord := 1\<rparr>"
  show ?thesis
  proof (cases "bst b tid = OFFLINE")
    case True
    let ?b1 = "b\<lparr>runList := (runList b)[unat (runListSize b) := tid], runListSize := runListSize b + 1\<rparr>"
    have b1: "length (threadList ?b1) = MAX_THREADS" "bth ?b1 = bth b" using len by (simp_all add: bth_def fun_eq_iff)
    from setThread_ok [OF b1(1) t(1), of ?f] obtain b2 where b2: "setThread ?b1 tid ?f = Some b2"
      "length (threadList b2) = MAX_THREADS" "bth b2 = (bth b)(tid := ?f (bth b tid))" unfolding b1(2) by blast
    note f = setThread_fields [OF b2(1)]
    have inv: "b_inv b2 \<and> past b2 = past b - {tid}" "bron b2 = bron b @ [tid]"
      using join_new_inv [OF b t(1) True, of b2] f b2 len by simp_all
    have "bar_join env b tid = tryWakeNext env b2"
      using get True size_room [OF b t(1) True] len b2(1) by (simp add: bar_join_def setRun_def bst_def)
    moreover from tryWakeNext_ok [of env b2] inv(1) env f obtain b' where "tryWakeNext env b2 = Some b'" by auto
    moreover have "bst b2 = (bst b)(tid := WAITING)" by (auto simp: bst_def fun_eq_iff b2(3))
    ultimately show ?thesis using inv f by (intro exI [of _ b2] exI [of _ b']) simp
  next
    case False
    then have l: "bst b tid = LEFT" using t(2) by simp
    from join_place_ok [OF b t(1) l] obtain b1 where b1: "join_place b tid = Some b1" "b_inv (b1\<lparr>leftThreads := leftThreads b\<rparr>)"
      "leftThreads b1 = leftThreads b - 1" "bst b1 = bst b" "past b1 = past b - {tid}" "set (bron b1) = set (bron b)"
      "runningThreads b1 = runningThreads b" "parallelThreads b1 = parallelThreads b" "phaseCount b1 = phaseCount b"
      "length (threadList b1) = MAX_THREADS" "bsched b1 = bsched b" by blast
    from setThread_ok [OF b1(10) t(1), of ?f] obtain b2 where b2: "setThread b1 tid ?f = Some b2"
      "length (threadList b2) = MAX_THREADS" "bth b2 = (bth b1)(tid := ?f (bth b1 tid))" by blast
    note f = setThread_fields [OF b2(1)]
    let ?v = "b1\<lparr>leftThreads := leftThreads b\<rparr>"
    have vw: "bth ?v = bth b1" "bst ?v = bst b" "bron ?v = bron b1" using b1(4) by (simp_all add: bth_def bst_def bron_def fun_eq_iff)
    have on: "tid \<in> set (bron b1)" using sh t(1) False b1(6) by (simp add: b_shape_def)
    have lp: "0 < unat (leftThreads b)" by (rule left_pos [OF b t(1) l])
    have th: "bth b2 = (bth ?v)(tid := ?f (bth b1 tid))" using b2(3) vw by simp
    have inv: "b_inv b2"
      by (rule b_inv_restate [OF b1(2) _ _ _ _ _ _ th]) (use on vw f b1 b2(2) l lp unat_dec_u32 [OF lp] in simp_all)
    have "bar_join env b tid = tryWakeNext env b2"
      using bar_join_LEFT [OF get, of env] l b1(1) b2(1) by (simp add: bst_def)
    moreover from tryWakeNext_ok [OF _ inv] env f b1(11) obtain b' where "tryWakeNext env b2 = Some b'" by auto
    moreover have "bst b2 = (bst b)(tid := WAITING)" using b1(4) by (auto simp: bst_def fun_eq_iff b2(3))
    moreover have "past b2 = past b1" "bron b2 = bron b1" using f by (simp_all add: past_def bron_def)
    ultimately show ?thesis using inv f b1 on by (intro exI [of _ b2] exI [of _ b']) simp
  qed
qed

section \<open>Runs of the barrier\<close>

datatype BarOp = BJoin u32 | BLeave u32 | BSync u32

fun bar_tid :: "BarOp \<Rightarrow> u32" where
  "bar_tid (BJoin t) = t"
| "bar_tid (BLeave t) = t"
| "bar_tid (BSync t) = t"

fun bar_op :: "('r, 'w) BarrierEnv \<Rightarrow> ('r, 'w) Barrier \<Rightarrow> BarOp \<Rightarrow> ('r, 'w) Barrier option" where
  "bar_op env b (BJoin t) = bar_join env b t"
| "bar_op env b (BLeave t) = bar_leave env b t"
| "bar_op env b (BSync t) = bar_sync env b t"

text \<open>Who may call: a thread that is not in the barrier joins, a thread that runs leaves or syncs.\<close>

fun bar_legal :: "('r, 'w) Barrier \<Rightarrow> BarOp \<Rightarrow> bool" where
  "bar_legal b (BJoin t) \<longleftrightarrow> unat t < MAX_THREADS \<and> bst b t \<in> {OFFLINE, LEFT}"
| "bar_legal b (BLeave t) \<longleftrightarrow> unat t < MAX_THREADS \<and> bst b t = RUNNING"
| "bar_legal b (BSync t) \<longleftrightarrow> unat t < MAX_THREADS \<and> bst b t = RUNNING"

inductive bar_reach :: "('r, 'w) BarrierEnv \<Rightarrow> ('r, 'w) Barrier \<Rightarrow> ('r, 'w) Barrier \<Rightarrow> bool"
  for env b0 where
  start: "bar_reach env b0 b0"
| step: "bar_reach env b0 b \<Longrightarrow> bar_legal b op \<Longrightarrow> bar_op env b op = Some b' \<Longrightarrow> bar_reach env b0 b'"

definition running_count :: "('r, 'w) Barrier \<Rightarrow> nat" where
  "running_count b = card {t. unat t < MAX_THREADS \<and> bst b t = RUNNING}"

lemma new_inv:
  assumes "0 < par" "length idx0 = MAX_THREADS"
  shows "b_inv (Barrier_new par idx0 r w) \<and> settled (Barrier_new par idx0 r w)"
proof -
  let ?b = "Barrier_new par idx0 r w"
  have ron: "bron ?b = []" by (simp add: bron_def Barrier_new_def)
  have st: "bst ?b t = OFFLINE" if "unat t < MAX_THREADS" for t
    using that assms(2) by (simp add: bst_def bth_def Barrier_new_def)
  have "b_shape ?b" using assms st unfolding b_shape_def ron by (simp add: Barrier_new_def)
  then show ?thesis by (simp add: b_inv_def ron b_places_def bcount_def settled_def) (simp add: Barrier_new_def)
qed

lemma bar_op_ok:
  assumes env: "env_at env (bsched b)" and b: "b_inv b" and l: "bar_legal b op"
  shows "\<exists>bm b' s. bar_op env b op = Some b' \<and> b_inv bm \<and> b_inv b' \<and> settled b' \<and> parallelThreads b' = parallelThreads b
     \<and> past bm - {bar_tid op} = past b - {bar_tid op} \<and> (op \<noteq> BJoin (bar_tid op) \<longrightarrow> past bm = past b)
     \<and> phaseCount bm = phaseCount b \<and> bsched bm = bsched b \<and> bst bm = (bst b)(bar_tid op := s)
     \<and> s = (if op = BLeave (bar_tid op) then LEFT else WAITING)
     \<and> (op = BJoin (bar_tid op) \<longrightarrow> bar_tid op \<in> set (bron bm) - past bm)
     \<and> (woken bm b' \<or> next_phase env bm b')"
proof (cases op)
  case (BJoin t)
  then have "unat t < MAX_THREADS" "bst b t = LEFT \<or> bst b t = OFFLINE" using l by auto
  from bar_join_ok [OF env b this] obtain bm b' where j: "bar_join env b t = Some b'" "b_inv bm" "tryWakeNext env bm = Some b'"
    "t \<in> set (bron bm)" "past bm = past b - {t}" "phaseCount bm = phaseCount b" "bsched bm = bsched b"
    "parallelThreads bm = parallelThreads b" "bst bm = (bst b)(t := WAITING)" by blast
  have "env_at env (bsched bm)" using env j by simp
  from tryWakeNext_ok [OF this j(2)] j(3) have
    "b_inv b' \<and> settled b' \<and> parallelThreads b' = parallelThreads bm \<and> (woken bm b' \<or> next_phase env bm b')" by auto
  then show ?thesis using j BJoin by (intro exI [of _ bm] exI [of _ b'] exI [of _ WAITING]) simp
next
  case (BLeave t)
  then have "unat t < MAX_THREADS" "bst b t = RUNNING" using l by auto
  from bar_leave_ok [OF env b this] obtain bm b' where j: "bar_leave env b t = Some b'" "b_inv bm" "tryWakeNext env bm = Some b'"
    "runList bm = runList b" "runListSize bm = runListSize b" "curThreadIdx bm = curThreadIdx b"
    "phaseCount bm = phaseCount b" "bsched bm = bsched b"
    "parallelThreads bm = parallelThreads b" "bst bm = (bst b)(t := LEFT)" by blast
  have "env_at env (bsched bm)" using env j by simp
  from tryWakeNext_ok [OF this j(2)] j(3) have
    "b_inv b' \<and> settled b' \<and> parallelThreads b' = parallelThreads bm \<and> (woken bm b' \<or> next_phase env bm b')" by auto
  moreover have "past bm = past b" using j by (simp add: past_def bron_def)
  ultimately show ?thesis using j BLeave by (intro exI [of _ bm] exI [of _ b'] exI [of _ LEFT]) simp
next
  case (BSync t)
  then have "unat t < MAX_THREADS" "bst b t = RUNNING" using l by auto
  from bar_sync_ok [OF env b this] obtain bm b' where j: "bar_sync env b t = Some b'" "b_inv bm" "tryWakeNext env bm = Some b'"
    "runList bm = runList b" "runListSize bm = runListSize b" "curThreadIdx bm = curThreadIdx b"
    "phaseCount bm = phaseCount b" "bsched bm = bsched b"
    "parallelThreads bm = parallelThreads b" "bst bm = (bst b)(t := WAITING)" by blast
  have "env_at env (bsched bm)" using env j by simp
  from tryWakeNext_ok [OF this j(2)] j(3) have
    "b_inv b' \<and> settled b' \<and> parallelThreads b' = parallelThreads bm \<and> (woken bm b' \<or> next_phase env bm b')" by auto
  moreover have "past bm = past b" using j by (simp add: past_def bron_def)
  ultimately show ?thesis using j BSync by (intro exI [of _ bm] exI [of _ b'] exI [of _ WAITING]) simp
qed

text \<open>The effect of an operation on the threads and the phase.\<close>

definition active :: "('r, 'w) Barrier \<Rightarrow> u32 \<Rightarrow> bool" where
  "active b t \<longleftrightarrow> bst b t \<in> {WAITING, RUNNING}"

definition stays_in_phase :: "('r, 'w) Barrier \<Rightarrow> BarOp \<Rightarrow> ('r, 'w) Barrier \<Rightarrow> bool" where
  "stays_in_phase b op b' \<longleftrightarrow> phaseCount b' = phaseCount b \<and> bsched b' = bsched b
      \<and> (\<forall>t \<in> past b. bst b t = WAITING \<and> t \<noteq> bar_tid op \<longrightarrow> t \<in> past b' \<and> bst b' t = WAITING)
      \<and> (\<forall>t. op = BSync t \<longrightarrow> t \<in> past b' \<and> bst b' t = WAITING)
      \<and> (\<forall>t \<in> past b'. bst b' t = WAITING \<longrightarrow> t \<in> past b \<and> bst b t = WAITING \<and> t \<noteq> bar_tid op \<or> op = BSync t)
      \<and> (\<forall>t. t \<noteq> bar_tid op \<and> bst b t = RUNNING \<longrightarrow> bst b' t = RUNNING)"

definition ends_phase :: "('r, 'w) BarrierEnv \<Rightarrow> ('r, 'w) Barrier \<Rightarrow> BarOp \<Rightarrow> ('r, 'w) Barrier \<Rightarrow> bool" where
  "ends_phase env b op b' \<longleftrightarrow> phaseCount b' = phaseCount b + 1 \<and> env_callback env (bsched b) = Some (bsched b')
      \<and> (\<forall>t. op \<noteq> BJoin t)
      \<and> (\<forall>t. unat t < MAX_THREADS \<and> t \<noteq> bar_tid op \<longrightarrow>
             bst b t \<noteq> RUNNING \<and> (bst b t = WAITING \<longrightarrow> t \<in> past b))
      \<and> (\<forall>t \<in> past b'. bst b' t \<noteq> WAITING)"

lemma next_phase_past:
  assumes "woken b2 b'" "curThreadIdx b2 = 0" "t \<in> past b'"
  shows "bst b' t \<noteq> WAITING"
proof -
  have "bron b' = bron b2" using assms(1) by (simp add: woken_def bron_def)
  then have "t \<in> set (take (unat (curThreadIdx b') - unat (curThreadIdx b2)) (drop (unat (curThreadIdx b2)) (bron b2)))"
    using assms(2,3) by (simp add: past_def)
  then show ?thesis using assms(1) by (auto simp: woken_def split: if_splits)
qed

text \<open>The state \<open>bm\<close> in which an operation calls \<open>tryWakeNext\<close>.\<close>

definition bar_mid :: "('r, 'w) Barrier \<Rightarrow> BarOp \<Rightarrow> ('r, 'w) Barrier \<Rightarrow> bool" where
  "bar_mid b op bm \<longleftrightarrow> b_inv bm \<and> past bm - {bar_tid op} = past b - {bar_tid op} \<and> (op \<noteq> BJoin (bar_tid op) \<longrightarrow> past bm = past b)
     \<and> phaseCount bm = phaseCount b \<and> bsched bm = bsched b
     \<and> bst bm = (bst b)(bar_tid op := (if op = BLeave (bar_tid op) then LEFT else WAITING))
     \<and> (op = BJoin (bar_tid op) \<longrightarrow> bar_tid op \<in> set (bron bm) - past bm)"

lemma past_slice:
  assumes "b_shape b" "t \<in> past b"
  shows "t \<notin> set (take n (drop (unat (curThreadIdx b)) (bron b)))"
proof -
  have "distinct (take (unat (curThreadIdx b)) (bron b) @ drop (unat (curThreadIdx b)) (bron b))"
    using assms(1) by (simp add: b_shape_def)
  then have "t \<notin> set (drop (unat (curThreadIdx b)) (bron b))" using assms(2) unfolding past_def distinct_append by blast
  then show ?thesis by (auto dest: in_set_takeD)
qed

lemma woken_past:
  assumes sh: "b_shape b" and wk: "woken b b'"
  shows "t \<in> past b \<Longrightarrow> t \<in> past b' \<and> bst b' t = bst b t" "t \<in> past b' \<Longrightarrow> bst b' t = WAITING \<Longrightarrow> t \<in> past b \<and> bst b t = WAITING"
proof -
  have ron: "bron b' = bron b" and le: "unat (curThreadIdx b) \<le> unat (curThreadIdx b')"
    using wk by (simp_all add: woken_def bron_def word_le_nat_alt)
  let ?n = "unat (curThreadIdx b') - unat (curThreadIdx b)"
  have "take (unat (curThreadIdx b')) (bron b) = take (unat (curThreadIdx b)) (bron b) @ take ?n (drop (unat (curThreadIdx b)) (bron b))"
    using le by (metis le_add_diff_inverse take_add)
  then have split: "past b' = past b \<union> set (take ?n (drop (unat (curThreadIdx b)) (bron b)))" by (simp add: past_def ron)
  have st: "bst b' t = (if bst b t = WAITING \<and> t \<in> set (take ?n (drop (unat (curThreadIdx b)) (bron b))) then RUNNING else bst b t)" for t
    using wk by (simp add: woken_def)
  show "t \<in> past b \<Longrightarrow> t \<in> past b' \<and> bst b' t = bst b t" using past_slice [OF sh] by (simp add: split st)
  show "t \<in> past b' \<Longrightarrow> bst b' t = WAITING \<Longrightarrow> t \<in> past b \<and> bst b t = WAITING" by (auto simp: split st split: if_splits)
qed

lemma running_past:
  assumes b: "b_inv b" and r: "unat t < MAX_THREADS" "bst b t = RUNNING"
  shows "t \<in> past b"
proof -
  have "t \<in> set (bron b)" using b r by (auto simp: b_inv_def b_shape_def)
  then obtain i where i: "i < length (bron b)" "bron b ! i = t" by (auto simp: in_set_conv_nth)
  then have "i < unat (curThreadIdx b)" using b r(2) by (force simp: b_inv_def b_places_def bst_def not_less [symmetric])
  then show ?thesis using i unfolding past_def by (auto simp: in_set_conv_nth intro!: exI [of _ i])
qed

lemma mid_same:
  assumes b: "b_inv b" and l: "bar_legal b op" and m: "bar_mid b op bm" and wk: "woken bm b'"
  shows "stays_in_phase b op b'" "active b' t = (if t = bar_tid op then (\<forall>u. op \<noteq> BLeave u) else active b t)"
proof -
  let ?t = "bar_tid op"
  have inv: "b_inv bm" and p: "past bm - {?t} = past b - {?t}" "op \<noteq> BJoin ?t \<longrightarrow> past bm = past b"
    "phaseCount bm = phaseCount b" "bsched bm = bsched b" "op = BJoin ?t \<longrightarrow> ?t \<notin> past bm"
    and st: "bst bm = (bst b)(?t := (if op = BLeave ?t then LEFT else WAITING))" using m by (simp_all add: bar_mid_def)
  have sh: "b_shape bm" using inv by (simp add: b_inv_def)
  note keep = woken_past(1) [OF sh wk] and retn = woken_past(2) [OF sh wk]
  have sync: "t \<in> past b' \<and> bst b' t = WAITING" if "op = BSync t" for t
  proof -
    have "t \<in> past b" using running_past [OF b] l that by simp
    then show ?thesis using keep [of t] p(2) st that by simp
  qed
  have "t \<in> past b' \<and> bst b' t = WAITING" if "t \<in> past b" "bst b t = WAITING" "t \<noteq> ?t" for t
    using keep [of t] p(1) st that by auto
  moreover have "t \<in> past b \<and> bst b t = WAITING \<and> t \<noteq> ?t \<or> op = BSync t" if "t \<in> past b'" "bst b' t = WAITING" for t
  proof (cases "t = ?t")
    case True
    then show ?thesis using retn [OF that] st p(5) by (cases op) auto
  next
    case False
    then show ?thesis using retn [OF that] st p(1) by auto
  qed
  moreover have "bst b' t = RUNNING" if "t \<noteq> ?t" "bst b t = RUNNING" for t
    using wk st that by (simp add: woken_def)
  ultimately show "stays_in_phase b op b'" using sync wk p unfolding stays_in_phase_def by (simp add: woken_def)
  have "active b' t = active bm t" using wk by (simp add: woken_def active_def)
  then show "active b' t = (if t = ?t then (\<forall>u. op \<noteq> BLeave u) else active b t)"
    using st by (cases op) (auto simp: active_def)
qed

lemma mid_next:
  assumes l: "bar_legal b op" and m: "bar_mid b op bm" and nx: "next_phase env bm b'"
  shows "ends_phase env b op b'"
    "unat t < MAX_THREADS \<Longrightarrow> active b' t = (if t = bar_tid op then (\<forall>u. op \<noteq> BLeave u) else active b t)"
proof -
  let ?t = "bar_tid op"
  have inv: "b_inv bm" and p: "past bm - {?t} = past b - {?t}" "phaseCount bm = phaseCount b" "bsched bm = bsched b"
      "op = BJoin ?t \<longrightarrow> ?t \<notin> past bm"
    and st: "bst bm = (bst b)(?t := (if op = BLeave ?t then LEFT else WAITING))" using m by (simp_all add: bar_mid_def)
  have sh: "b_shape bm" using inv by (simp add: b_inv_def)
  have tm: "unat ?t < MAX_THREADS" using l by (cases op) auto
  obtain b1 b2 where n: "woken bm b1" "b_inv b1" "phase_over b1" "new_phase env b1 b2" "curThreadIdx b2 = 0" "woken b2 b'"
    using nx unfolding next_phase_def by blast
  have c1: "curThreadIdx b1 = runListSize b1" "runningThreads b1 = 0" using n(3) by (simp_all add: phase_over_def)
  have "past b1 = set (bron b1)" using bron_length [of b1] n(2) c1(1) by (simp add: past_def b_inv_def)
  then have every: "t \<in> past b1" if "unat t < MAX_THREADS" "bst b1 t \<noteq> OFFLINE" for t
    using n(2) that by (simp add: b_inv_def b_shape_def)
  have st1: "bst b1 t = (if bst bm t = WAITING \<and> bst b1 t = RUNNING then RUNNING else bst bm t)" for t
    using n(1) by (simp add: woken_def)
  have rest: "bst bm t \<noteq> RUNNING \<and> (bst bm t = WAITING \<longrightarrow> t \<in> past bm)" if t: "unat t < MAX_THREADS" for t
  proof -
    have idle: "bst b1 t \<noteq> RUNNING" by (rule none_running [OF n(2) c1(2) t])
    then have eq: "bst b1 t = bst bm t" using st1 [of t] by auto
    then show ?thesis using idle woken_past(2) [OF sh n(1) every [OF t]] by auto
  qed
  have "op \<noteq> BJoin t" for t
  proof
    assume j: "op = BJoin t"
    then have "bst bm t = WAITING" "t \<notin> past bm" using st p(4) by simp_all
    then show False using rest [of t] tm j by simp
  qed
  moreover have "bst b t \<noteq> RUNNING \<and> (bst b t = WAITING \<longrightarrow> t \<in> past b)" if "unat t < MAX_THREADS" "t \<noteq> ?t" for t
    using rest [OF that(1)] that(2) p(1) st by auto
  moreover have "phaseCount b' = phaseCount b + 1" "env_callback env (bsched b) = Some (bsched b')"
    using n(1,4,6) p by (simp_all add: woken_def new_phase_def)
  moreover have "bst b' t \<noteq> WAITING" if "t \<in> past b'" for t by (rule next_phase_past [OF n(6,5) that])
  ultimately show "ends_phase env b op b'" by (simp add: ends_phase_def)
  show "active b' t = (if t = ?t then (\<forall>u. op \<noteq> BLeave u) else active b t)" if t: "unat t < MAX_THREADS"
  proof -
    have "active b' t = active b2 t" using n(6) by (simp add: woken_def active_def)
    moreover have "active b2 t = active b1 t" using n(4) t by (auto simp: new_phase_def active_def)
    moreover have "active b1 t = active bm t" using n(1) by (simp add: woken_def active_def)
    ultimately show ?thesis using st by (cases op) (auto simp: active_def)
  qed
qed

lemma bar_op_effect:
  assumes env: "env_at env (bsched b)" and b: "b_inv b" and l: "bar_legal b op"
  shows "\<exists>b'. bar_op env b op = Some b' \<and> b_inv b' \<and> settled b' \<and> parallelThreads b' = parallelThreads b
     \<and> (\<forall>t. unat t < MAX_THREADS \<longrightarrow> active b' t = (if t = bar_tid op then (\<forall>u. op \<noteq> BLeave u) else active b t))
     \<and> (stays_in_phase b op b' \<or> ends_phase env b op b')"
proof -
  from bar_op_ok [OF env b l] obtain bm b' where op: "bar_op env b op = Some b'" "b_inv b'" "settled b'"
    "parallelThreads b' = parallelThreads b" and m: "bar_mid b op bm" and w: "woken bm b' \<or> next_phase env bm b'"
    unfolding bar_mid_def by blast
  from w have "(\<forall>t. unat t < MAX_THREADS \<longrightarrow> active b' t = (if t = bar_tid op then (\<forall>u. op \<noteq> BLeave u) else active b t))
     \<and> (stays_in_phase b op b' \<or> ends_phase env b op b')"
  proof
    assume "woken bm b'"
    with mid_same [OF b l m] show ?thesis by blast
  next
    assume "next_phase env bm b'"
    with mid_next [OF l m] show ?thesis by blast
  qed
  then show ?thesis using op by blast
qed

lemma reach_inv:
  assumes "bar_reach env (Barrier_new par idx0 r w) b" "env_ok env" "0 < par" "length idx0 = MAX_THREADS"
  shows "b_inv b \<and> settled b \<and> parallelThreads b = par"
  using assms
proof (induction rule: bar_reach.induct)
  case start
  then show ?case using new_inv [of par idx0 r w] by (simp add: Barrier_new_def)
next
  case (step b op b')
  then show ?case using bar_op_ok [of env b op] by (auto simp: env_ok_def)
qed

definition count_env :: "(nat, nat) BarrierEnv" where
  "count_env = \<lparr>env_randInt = (\<lambda>r i. Some (r, 0)), env_callback = (\<lambda>w. Some (w + 1))\<rparr>"

lemma count_env_ok: "env_ok count_env"
  by (simp add: env_ok_def env_at_def rand_env_def count_env_def)

lemma first_join_legal: "bar_legal (Barrier_new 1 (replicate MAX_THREADS 0) (0 :: nat) (0 :: nat)) (BJoin 0)"
  by (simp add: bst_def bth_def Barrier_new_def MAX_THREADS_def)

text \<open>
  Claim C11.  The barrier is safe and live: after any sequence of legal joins, leaves and syncs from the constructor, no
  more threads run than the limit allows, every further legal operation succeeds without one of its assertions failing, the
  barrier uses its limit while threads that have not run in the phase wait, and when no thread runs, no thread waits.
\<close>

theorem barrier_safe_and_live:
  assumes "env_ok env" and "0 < par" and "length idx0 = MAX_THREADS" and "bar_reach env (Barrier_new par idx0 r w) b"
  shows "running_count b \<le> unat par
    \<and> (\<forall>op. bar_legal b op \<longrightarrow> bar_op env b op \<noteq> None)
    \<and> (running_count b = unat par \<or> (\<forall>t. unat t < MAX_THREADS \<and> bst b t = WAITING \<longrightarrow> t \<in> past b))
    \<and> (running_count b = 0 \<longrightarrow> (\<forall>t. unat t < MAX_THREADS \<longrightarrow> bst b t \<noteq> WAITING))"
proof -
  have b: "b_inv b" and s: "settled b" and p: "parallelThreads b = par" using reach_inv [OF assms(4,1,2,3)] by simp_all
  have sh: "b_shape b" using b by (simp add: b_inv_def)
  have on: "t \<in> set (bron b)" if "unat t < MAX_THREADS" "bst b t \<noteq> OFFLINE" for t using sh that by (simp add: b_shape_def)
  have mem: "t \<in> set (bron b) \<longleftrightarrow> unat t < MAX_THREADS \<and> bst b t \<noteq> OFFLINE" for t using sh by (simp add: b_shape_def)
  have "{t. unat t < MAX_THREADS \<and> bst b t = RUNNING} = {t \<in> set (bron b). bst b t = RUNNING}"
    by (rule Collect_cong, subst mem) auto
  then have rc: "running_count b = unat (runningThreads b)" using b by (simp add: running_count_def b_inv_def bcount_def)
  have "runningThreads b \<le> par" using sh p by (simp add: b_shape_def)
  then have 1: "running_count b \<le> unat par" using rc by (simp add: word_le_nat_alt)
  have 2: "\<forall>op. bar_legal b op \<longrightarrow> bar_op env b op \<noteq> None" using bar_op_ok [OF _ b] assms(1) unfolding env_ok_def by blast
  have 3: "running_count b = unat par \<or> (\<forall>t. unat t < MAX_THREADS \<and> bst b t = WAITING \<longrightarrow> t \<in> past b)"
  proof (cases "runningThreads b = parallelThreads b")
    case True
    then show ?thesis using rc p by simp
  next
    case False
    then have "curThreadIdx b = runListSize b" using s by (simp add: settled_def)
    then have "past b = set (bron b)" using bron_length [OF sh] by (simp add: past_def)
    then show ?thesis using on by auto
  qed
  have 4: "\<forall>t. unat t < MAX_THREADS \<longrightarrow> bst b t \<noteq> WAITING" if "running_count b = 0"
  proof (intro allI impI)
    fix t :: u32
    assume t: "unat t < MAX_THREADS"
    have "runningThreads b = 0" using that rc by (simp add: unat_eq_zero)
    then have "leftThreads b = runListSize b" using s by (simp add: settled_def)
    then show "bst b t \<noteq> WAITING" using left_lt_size [OF b t] by auto
  qed
  show ?thesis using 1 2 3 4 by blast
qed

lemma first_join: "\<exists>b'. bar_op count_env (Barrier_new 1 (replicate MAX_THREADS 0) 0 0) (BJoin 0) = Some b'"
proof -
  have "b_inv (Barrier_new 1 (replicate MAX_THREADS 0) (0 :: nat) (0 :: nat))" by (rule conjunct1 [OF new_inv]) simp_all
  from bar_op_ok [OF _ this first_join_legal] count_env_ok show ?thesis unfolding env_ok_def by blast
qed

theorem barrier_safe_and_live_witness:
  "\<exists>b'. bar_op count_env (Barrier_new 1 (replicate MAX_THREADS 0) 0 0) (BJoin 0) = Some b' \<and> running_count b' \<le> 1"
proof -
  from first_join obtain b' where b': "bar_op count_env (Barrier_new 1 (replicate MAX_THREADS 0) 0 0) (BJoin 0) = Some b'" by blast
  then have r: "bar_reach count_env (Barrier_new 1 (replicate MAX_THREADS 0) 0 0) b'"
    by (rule bar_reach.step [OF bar_reach.start first_join_legal])
  have "running_count b' \<le> 1" using barrier_safe_and_live [OF count_env_ok _ _ r] by (simp add: MAX_THREADS_def)
  then show ?thesis using b' by blast
qed

text \<open>
  Claim C10.  The barrier is a barrier: an operation either leaves the phase as it is, and then no other thread that has
  had its turn in the phase and waits is set running, and a thread that syncs waits with them; or it is a leave or a sync, it
  ends the phase by one call of the callback, and no other thread was running or still had its turn to come.
\<close>

theorem barrier_phases:
  assumes "env_ok env" and "0 < par" and "length idx0 = MAX_THREADS" and "bar_reach env (Barrier_new par idx0 r w) b"
    and l: "bar_legal b op" and op: "bar_op env b op = Some b'"
  shows "(phaseCount b' = phaseCount b \<and> bsched b' = bsched b
      \<and> (\<forall>t \<in> past b. bst b t = WAITING \<and> t \<noteq> bar_tid op \<longrightarrow> t \<in> past b' \<and> bst b' t = WAITING)
      \<and> (\<forall>t. op = BSync t \<longrightarrow> t \<in> past b' \<and> bst b' t = WAITING))
    \<or> (phaseCount b' = phaseCount b + 1 \<and> env_callback env (bsched b) = Some (bsched b')
      \<and> (\<forall>t. op \<noteq> BJoin t)
      \<and> (\<forall>t. unat t < MAX_THREADS \<and> t \<noteq> bar_tid op \<longrightarrow>
             bst b t \<noteq> RUNNING \<and> (bst b t = WAITING \<longrightarrow> t \<in> past b)))"
proof -
  have b: "b_inv b" using reach_inv [OF assms(4,1,2,3)] by simp
  have "env_at env (bsched b)" using assms(1) by (simp add: env_ok_def)
  from bar_op_effect [OF this b l] op have "stays_in_phase b op b' \<or> ends_phase env b op b'" by auto
  then show ?thesis by (auto simp: stays_in_phase_def ends_phase_def)
qed

theorem barrier_phases_witness:
  "\<exists>b'. bar_op count_env (Barrier_new 1 (replicate MAX_THREADS 0) 0 0) (BJoin 0) = Some b' \<and> phaseCount b' = 0 \<and> bsched b' = 0"
proof -
  let ?b = "Barrier_new 1 (replicate MAX_THREADS 0) (0 :: nat) (0 :: nat)"
  from first_join obtain b' where b': "bar_op count_env ?b (BJoin 0) = Some b'" by blast
  have "(0 :: u32) < 1" by simp
  from barrier_phases [OF count_env_ok this length_replicate bar_reach.start first_join_legal b'] have "phaseCount b' = 0 \<and> bsched b' = 0"
    by (simp add: Barrier_new_def)
  then show ?thesis using b' by blast
qed

end
