(* ===== verification/Scheduler.thy ===== *)
theory Scheduler
  imports Barrier
begin

text \<open>
  The thread scheduler (\<open>src/src/scheduler.h\<close>, \<open>src/src/scheduler.cpp\<close>), over the phase barrier that it owns.  Every operation
  holds the scheduler's lock from its start until it returns or blocks, so it is one step here; where a thread
  blocks in the middle, what it does after it is woken is an operation of its own.  Pointers to threads are natural
  numbers; a context is its index; the queues are sequences (theory \<open>IntrusiveList\<close> shows that the lists of the code are
  that), with the checks the lists make.  The scheduler is the callee of its barrier, so its state is the callee state
  of the barrier.  What the scheduler tells the cores, and the call of the simulator's end-of-phase function, is a log.
  The random generator \<open>'g\<close> is a parameter.
\<close>

section \<open>State\<close>

datatype ThreadState = TH_STARTED | TH_RUNNING | TH_OUT | TH_BLOCKED | TH_SLEEPING | TH_QUEUED

datatype ContextState = IDLE | USED

datatype FutexJoinAction = FJA_NONE | FJA_WAKE | FJA_WAIT

record FutexJoinInfo =
  fjAction :: FutexJoinAction
  maxWakes :: u32
  wokenUp :: u32

record FakeLeaveInfo =
  fl_pc :: u64
  fl_syscallNumber :: int
  fl_arg0 :: u64
  fl_arg1 :: u64

record ThreadInfo =
  gid :: u32
  tstate :: ThreadState
  tcid :: u32
  handoffThread :: "nat option"
  tfutexWord :: u32
  needsJoin :: bool
  markedForSleep :: bool
  wakeupPhase :: u64
  tmask :: "bool list"
  fakeLeave :: "FakeLeaveInfo option"
  futexJoin :: FutexJoinInfo

record ContextInfo =
  cstate :: ContextState
  curThread :: "nat option"

datatype SchedCall = CoreJoin u32 | CoreLeave u32 | CoreSwitch u32 u32 | AtSync

record 'g Sched =
  threads :: "nat \<Rightarrow> ThreadInfo option"
  gidMap :: "(u32 \<times> nat) list"
  contexts :: "ContextInfo list"
  freeList :: "u32 list"
  runQueue :: "nat list"
  outQueue :: "nat list"
  sleepQueue :: "nat list"
  fakeLeaves :: "nat list"
  curPhase :: u64
  numPhases :: u64
  globPhaseCycles :: u64
  scheduledThreads :: u32
  blockingSyscalls :: "u64 list list"
  maxAllowedFutexWakeups :: u32
  unmatchedFutexWakeups :: u32
  srnd :: 'g
  calls :: "SchedCall list"

record 'g SchedCfg =
  numCores :: u32
  schedQuantum :: u32
  phaseLength :: u32
  has_atSync :: bool
  s_randInt :: "'g \<Rightarrow> u32 \<Rightarrow> ('g \<times> u32) option"

definition getGid :: "u32 \<Rightarrow> u32 \<Rightarrow> u32" where
  "getGid pid tid = (push_bit 16 pid) OR tid"

definition getPid :: "u32 \<Rightarrow> u32" where
  "getPid g = drop_bit 16 g"

definition getTid :: "u32 \<Rightarrow> u32" where
  "getTid g = g AND 0xFFFF"

text \<open>\<open>nj\<close> and \<open>wk\<close> are the fields that the constructor leaves uninitialised.\<close>

definition ThreadInfo_new :: "'g SchedCfg \<Rightarrow> u32 \<Rightarrow> bool list \<Rightarrow> bool \<Rightarrow> u32 \<times> u32 \<Rightarrow> ThreadInfo option" where
  "ThreadInfo_new cfg g msk nj wk = do {
     _ \<leftarrow> require (length msk = unat (numCores cfg));
     _ \<leftarrow> require (True \<in> set msk);
     Some \<lparr>gid = g, tstate = TH_STARTED, tcid = 0, handoffThread = None, tfutexWord = 0, needsJoin = nj,
       markedForSleep = False, wakeupPhase = 0, tmask = msk, fakeLeave = None,
       futexJoin = \<lparr>fjAction = FJA_NONE, maxWakes = fst wk, wokenUp = snd wk\<rparr>\<rparr>
   }"

definition Sched_new :: "'g SchedCfg \<Rightarrow> 'g \<Rightarrow> u64 \<Rightarrow> 'g Sched" where
  "Sched_new cfg g cycles =
     \<lparr>threads = Map.empty, gidMap = [], contexts = replicate (unat (numCores cfg)) \<lparr>cstate = IDLE, curThread = None\<rparr>,
      freeList = map of_nat [0..<unat (numCores cfg)], runQueue = [], outQueue = [], sleepQueue = [], fakeLeaves = [],
      curPhase = 0, numPhases = 0, globPhaseCycles = cycles, scheduledThreads = 0, blockingSyscalls = replicate MAX_THREADS [],
      maxAllowedFutexWakeups = 0, unmatchedFutexWakeups = 0, srnd = g, calls = []\<rparr>"

section \<open>Threads and queues\<close>

definition updThread :: "'g Sched \<Rightarrow> nat \<Rightarrow> (ThreadInfo \<Rightarrow> ThreadInfo) \<Rightarrow> 'g Sched option" where
  "updThread s p f = do { t \<leftarrow> threads s p; Some (s\<lparr>threads := (threads s)(p \<mapsto> f t)\<rparr>) }"

definition logCall :: "SchedCall \<Rightarrow> 'g Sched \<Rightarrow> 'g Sched" where
  "logCall c s = s\<lparr>calls := calls s @ [c]\<rparr>"

text \<open>A thread has one list node, so it can be pushed only if it is on none of the lists.\<close>

definition unqueued :: "'g Sched \<Rightarrow> nat \<Rightarrow> bool" where
  "unqueued s p \<longleftrightarrow> p \<notin> set (runQueue s) \<and> p \<notin> set (outQueue s) \<and> p \<notin> set (sleepQueue s)"

definition q_remove :: "'a \<Rightarrow> 'a list \<Rightarrow> 'a list option" where
  "q_remove x q = (if x \<in> set q then Some (remove1 x q) else None)"

definition runQueue_push :: "'g Sched \<Rightarrow> nat \<Rightarrow> 'g Sched option" where
  "runQueue_push s p = do { _ \<leftarrow> require (unqueued s p); Some (s\<lparr>runQueue := runQueue s @ [p]\<rparr>) }"

definition outQueue_push :: "'g Sched \<Rightarrow> nat \<Rightarrow> 'g Sched option" where
  "outQueue_push s p = do { _ \<leftarrow> require (unqueued s p); Some (s\<lparr>outQueue := outQueue s @ [p]\<rparr>) }"

definition runQueue_remove :: "'g Sched \<Rightarrow> nat \<Rightarrow> 'g Sched option" where
  "runQueue_remove s p = do { q \<leftarrow> q_remove p (runQueue s); Some (s\<lparr>runQueue := q\<rparr>) }"

definition outQueue_remove :: "'g Sched \<Rightarrow> nat \<Rightarrow> 'g Sched option" where
  "outQueue_remove s p = do { q \<leftarrow> q_remove p (outQueue s); Some (s\<lparr>outQueue := q\<rparr>) }"

definition sleepQueue_remove :: "'g Sched \<Rightarrow> nat \<Rightarrow> 'g Sched option" where
  "sleepQueue_remove s p = do { q \<leftarrow> q_remove p (sleepQueue s); Some (s\<lparr>sleepQueue := q\<rparr>) }"

definition freeList_push :: "'g Sched \<Rightarrow> u32 \<Rightarrow> 'g Sched option" where
  "freeList_push s c = do { _ \<leftarrow> require (c \<notin> set (freeList s)); Some (s\<lparr>freeList := freeList s @ [c]\<rparr>) }"

definition freeList_remove :: "'g Sched \<Rightarrow> u32 \<Rightarrow> 'g Sched option" where
  "freeList_remove s c = do { q \<leftarrow> q_remove c (freeList s); Some (s\<lparr>freeList := q\<rparr>) }"

text \<open>The ordered insertion of \<open>leave\<close>: behind all threads that do not wake later.\<close>

fun sleepInsert :: "(nat \<Rightarrow> u64) \<Rightarrow> nat \<Rightarrow> nat list \<Rightarrow> nat list" where
  "sleepInsert wp p [] = [p]"
| "sleepInsert wp p (x # xs) = (if wp x > wp p then p # x # xs else x # sleepInsert wp p xs)"

definition sleepQueue_insert :: "'g Sched \<Rightarrow> nat \<Rightarrow> 'g Sched option" where
  "sleepQueue_insert s p = do {
     _ \<leftarrow> require (unqueued s p);
     Some (s\<lparr>sleepQueue := sleepInsert (\<lambda>q. case threads s q of Some t \<Rightarrow> wakeupPhase t | None \<Rightarrow> 0) p (sleepQueue s)\<rparr>)
   }"

section \<open>Contexts\<close>

definition schedule :: "'g Sched \<Rightarrow> nat \<Rightarrow> u32 \<Rightarrow> 'g Sched option" where
  "schedule s p c = do {
     t \<leftarrow> threads s p;
     ctx \<leftarrow> aget (contexts s) (unat c);
     _ \<leftarrow> require (tstate t \<in> {TH_STARTED, TH_BLOCKED, TH_QUEUED});
     _ \<leftarrow> require (cstate ctx = IDLE);
     _ \<leftarrow> require (curThread ctx = None);
     s1 \<leftarrow> updThread s p (\<lambda>t. t\<lparr>tstate := TH_RUNNING, tcid := c\<rparr>);
     cs \<leftarrow> aset (contexts s1) (unat c) \<lparr>cstate = USED, curThread = Some p\<rparr>;
     Some (logCall (CoreSwitch c (gid t)) (s1\<lparr>contexts := cs, scheduledThreads := scheduledThreads s1 + 1\<rparr>))
   }"

definition deschedule :: "'g Sched \<Rightarrow> nat \<Rightarrow> u32 \<Rightarrow> ThreadState \<Rightarrow> 'g Sched option" where
  "deschedule s p c target = do {
     t \<leftarrow> threads s p;
     ctx \<leftarrow> aget (contexts s) (unat c);
     _ \<leftarrow> require (tstate t = TH_RUNNING \<or> tstate t = TH_OUT);
     _ \<leftarrow> require (cstate ctx = USED);
     _ \<leftarrow> require (c = tcid t);
     _ \<leftarrow> require (curThread ctx = Some p);
     _ \<leftarrow> require (target = TH_BLOCKED \<or> target = TH_QUEUED \<or> target = TH_SLEEPING);
     s1 \<leftarrow> updThread s p (\<lambda>t. t\<lparr>tstate := target\<rparr>);
     cs \<leftarrow> aset (contexts s1) (unat c) \<lparr>cstate = IDLE, curThread = None\<rparr>;
     Some (logCall (CoreSwitch c (- 1)) (s1\<lparr>contexts := cs, scheduledThreads := scheduledThreads s1 - 1\<rparr>))
   }"

definition wakeup :: "'g Sched \<Rightarrow> nat \<Rightarrow> bool \<Rightarrow> 'g Sched option" where
  "wakeup s p nj = do {
     t \<leftarrow> threads s p;
     _ \<leftarrow> require (tfutexWord t = 1);
     updThread s p (\<lambda>t. t\<lparr>needsJoin := nj, tfutexWord := 0\<rparr>)
   }"

section \<open>The policy\<close>

text \<open>The first of some contexts that a mask allows.\<close>

fun first_mask :: "bool list \<Rightarrow> u32 list \<Rightarrow> u32 option option" where
  "first_mask m [] = Some None"
| "first_mask m (c # cs) = do { x \<leftarrow> aget m (unat c); if x then Some (Some c) else first_mask m cs }"

fun first_out :: "'g Sched \<Rightarrow> bool list \<Rightarrow> nat list \<Rightarrow> nat option option" where
  "first_out s m [] = Some None"
| "first_out s m (p # ps) = do {
     t \<leftarrow> threads s p;
     x \<leftarrow> aget m (unat (tcid t));
     if x then Some (Some p) else first_out s m ps }"

fun first_queued :: "'g Sched \<Rightarrow> u32 \<Rightarrow> nat list \<Rightarrow> nat option option" where
  "first_queued s c [] = Some None"
| "first_queued s c (p # ps) = do {
     t \<leftarrow> threads s p;
     x \<leftarrow> aget (tmask t) (unat c);
     if x then Some (Some p) else first_queued s c ps }"

definition schedThread :: "'g SchedCfg \<Rightarrow> 'g Sched \<Rightarrow> nat \<Rightarrow> ('g Sched \<times> u32 option) option" where
  "schedThread cfg s p = do {
     t \<leftarrow> threads s p;
     _ \<leftarrow> require (tcid t < numCores cfg);
     ctx \<leftarrow> aget (contexts s) (unat (tcid t));
     x \<leftarrow> (if cstate ctx = IDLE then aget (tmask t) (unat (tcid t)) else Some False);
     (if x then do { s1 \<leftarrow> freeList_remove s (tcid t); Some (s1, Some (tcid t)) }
      else do {
        f \<leftarrow> first_mask (tmask t) (freeList s);
        (case f of
           Some c \<Rightarrow> do { s1 \<leftarrow> freeList_remove s c; Some (s1, Some c) }
         | None \<Rightarrow> do {
             q \<leftarrow> first_out s (tmask t) (outQueue s);
             (case q of
                Some o' \<Rightarrow> do {
                  ot \<leftarrow> threads s o';
                  s1 \<leftarrow> outQueue_remove s o';
                  s2 \<leftarrow> deschedule s1 o' (tcid ot) TH_BLOCKED;
                  Some (s2, Some (tcid ot))
                }
              | None \<Rightarrow> Some (s, None))
           })
      })
   }"

definition schedContext :: "'g Sched \<Rightarrow> u32 \<Rightarrow> ('g Sched \<times> nat option) option" where
  "schedContext s c = do {
     q \<leftarrow> first_queued s c (runQueue s);
     (case q of
        Some p \<Rightarrow> do { s1 \<leftarrow> runQueue_remove s p; Some (s1, Some p) }
      | None \<Rightarrow> Some (s, None))
   }"

definition swapAvail :: "'g SchedCfg \<Rightarrow> 'g \<times> u32 list \<Rightarrow> nat \<Rightarrow> ('g \<times> u32 list) option" where
  "swapAvail cfg ra n = do {
     let i = of_nat n;
     (r, j) \<leftarrow> s_randInt cfg (fst ra) i;
     x \<leftarrow> aget (snd ra) (unat i);
     y \<leftarrow> aget (snd ra) (unat j);
     v1 \<leftarrow> aset (snd ra) (unat i) y;
     v2 \<leftarrow> aset v1 (unat j) x;
     Some (r, v2)
   }"

text \<open>The loop over the run queue; only the thread just visited leaves the queue, so it is a walk over its elements.\<close>

fun tickLoop :: "'g Sched \<Rightarrow> nat list \<Rightarrow> u32 list \<Rightarrow> 'g Sched option" where
  "tickLoop s [] avail = Some s"
| "tickLoop s (p # ps) avail =
     (if avail = [] then Some s
      else do {
        t \<leftarrow> threads s p;
        f \<leftarrow> first_mask (tmask t) avail;
        (case f of
           None \<Rightarrow> tickLoop s ps avail
         | Some c \<Rightarrow> do {
             ctx \<leftarrow> aget (contexts s) (unat c);
             v \<leftarrow> curThread ctx;
             s1 \<leftarrow> updThread s v (\<lambda>t. t\<lparr>handoffThread := Some p\<rparr>);
             s2 \<leftarrow> runQueue_remove s1 p;
             tickLoop s2 ps (remove1 c avail)
           })
      })"

text \<open>\<open>printState\<close> panics on a context whose thread neither runs nor is out.\<close>

definition printState :: "'g Sched \<Rightarrow> unit option" where
  "printState s = require (\<forall>ctx \<in> set (contexts s). cstate ctx = USED \<longrightarrow>
     (case curThread ctx of None \<Rightarrow> False
      | Some p \<Rightarrow> (case threads s p of None \<Rightarrow> False | Some t \<Rightarrow> tstate t \<in> {TH_RUNNING, TH_OUT})))"

definition schedTick :: "'g SchedCfg \<Rightarrow> 'g Sched \<Rightarrow> 'g Sched option" where
  "schedTick cfg s = do {
     (r, avail) \<leftarrow> run_all (swapAvail cfg) (srnd s, map of_nat [0..<unat (numCores cfg)]) (rev [1..<unat (numCores cfg)]);
     s1 \<leftarrow> tickLoop (s\<lparr>srnd := r\<rparr>) (runQueue s) avail;
     _ \<leftarrow> printState s1;
     Some s1
   }"

section \<open>The end of a phase\<close>

text \<open>The sleepers whose phase has come, from the front of the queue \<open>q\<close>.\<close>

fun wakeSleepers :: "'g Sched \<Rightarrow> nat list \<Rightarrow> 'g Sched option" where
  "wakeSleepers s [] = Some s"
| "wakeSleepers s (p # ps) = do {
     t \<leftarrow> threads s p;
     (if wakeupPhase t \<le> curPhase s then do {
        _ \<leftarrow> require (wakeupPhase t = curPhase s);
        s1 \<leftarrow> updThread s p (\<lambda>t. t\<lparr>tstate := TH_BLOCKED\<rparr>);
        s2 \<leftarrow> wakeup s1 p False;
        wakeSleepers (s2\<lparr>sleepQueue := ps\<rparr>) ps
      } else Some s)
   }"

definition sched_callback :: "'g SchedCfg \<Rightarrow> 'g Sched \<Rightarrow> 'g Sched option" where
  "sched_callback cfg s = do {
     _ \<leftarrow> require (scheduledThreads s \<le> numCores cfg);
     let s0 = (if has_atSync cfg then logCall AtSync s else s);
     let s1 = s0\<lparr>numPhases := numPhases s0 + 1, globPhaseCycles := globPhaseCycles s0 + ucast (phaseLength cfg),
                 curPhase := curPhase s0 + 1\<rparr>;
     _ \<leftarrow> require (curPhase s1 = numPhases s1);
     s2 \<leftarrow> wakeSleepers s1 (sleepQueue s1);
     (if runQueue s2 = [] then Some s2
      else do {
        _ \<leftarrow> require (schedQuantum cfg \<noteq> 0);
        (if curPhase s2 mod ucast (schedQuantum cfg) = 0 then schedTick cfg s2 else Some s2)
      })
   }"

section \<open>Fake leaves and futexes\<close>

definition finishFakeLeave :: "'g Sched \<Rightarrow> nat \<Rightarrow> 'g Sched option" where
  "finishFakeLeave s p = do {
     t \<leftarrow> threads s p;
     _ \<leftarrow> require (fakeLeave t \<noteq> None);
     _ \<leftarrow> require (tstate t = TH_RUNNING);
     q \<leftarrow> q_remove p (fakeLeaves s);
     updThread (s\<lparr>fakeLeaves := q\<rparr>) p (\<lambda>t. t\<lparr>fakeLeave := None\<rparr>)
   }"

definition notifyFutexWakeStart :: "'g Sched \<Rightarrow> u32 \<Rightarrow> u32 \<Rightarrow> u32 \<Rightarrow> 'g Sched option" where
  "notifyFutexWakeStart s pid tid mw = do {
     p \<leftarrow> map_of (gidMap s) (getGid pid tid);
     t \<leftarrow> threads s p;
     _ \<leftarrow> require (fjAction (futexJoin t) = FJA_NONE);
     let mw' = (if mw < 16777216 then mw else 16777216);
     updThread (s\<lparr>maxAllowedFutexWakeups := maxAllowedFutexWakeups s + mw'\<rparr>) p
       (\<lambda>t. t\<lparr>futexJoin := (futexJoin t)\<lparr>maxWakes := mw'\<rparr>\<rparr>)
   }"

definition notifyFutexWakeEnd :: "'g Sched \<Rightarrow> u32 \<Rightarrow> u32 \<Rightarrow> u32 \<Rightarrow> 'g Sched option" where
  "notifyFutexWakeEnd s pid tid woken' = do {
     p \<leftarrow> map_of (gidMap s) (getGid pid tid);
     updThread s p (\<lambda>t. t\<lparr>futexJoin := (futexJoin t)\<lparr>fjAction := FJA_WAKE, wokenUp := woken'\<rparr>\<rparr>)
   }"

definition notifyFutexWaitWoken :: "'g Sched \<Rightarrow> u32 \<Rightarrow> u32 \<Rightarrow> 'g Sched option" where
  "notifyFutexWaitWoken s pid tid = do {
     p \<leftarrow> map_of (gidMap s) (getGid pid tid);
     updThread s p (\<lambda>t. t\<lparr>futexJoin := \<lparr>fjAction = FJA_WAIT, maxWakes = 0, wokenUp = 0\<rparr>\<rparr>)
   }"

definition futexWaitJoin :: "'g Sched \<Rightarrow> nat \<Rightarrow> 'g Sched option" where
  "futexWaitJoin s p = do {
     t \<leftarrow> threads s p;
     _ \<leftarrow> require (fjAction (futexJoin t) = FJA_WAIT);
     Some (if unmatchedFutexWakeups s \<ge> maxAllowedFutexWakeups s then s
           else s\<lparr>unmatchedFutexWakeups := unmatchedFutexWakeups s + 1\<rparr>)
   }"

text \<open>
  The waker adjusts the allowance and then waits, without the lock, until enough waiters have joined (\<open>wokenUp\<close> is covered) or two
  seconds have passed (\<open>timedOut\<close>); the second function is what it does when it has the lock again.
\<close>

definition futexWakeJoin :: "'g Sched \<Rightarrow> nat \<Rightarrow> 'g Sched option" where
  "futexWakeJoin s p = do {
     t \<leftarrow> threads s p;
     _ \<leftarrow> require (fjAction (futexJoin t) = FJA_WAKE);
     let mw = maxWakes (futexJoin t);
     let wk = wokenUp (futexJoin t);
     _ \<leftarrow> require (mw \<le> maxAllowedFutexWakeups s);
     _ \<leftarrow> require (wk \<le> mw);
     let s1 = s\<lparr>maxAllowedFutexWakeups := maxAllowedFutexWakeups s - (mw - wk)\<rparr>;
     _ \<leftarrow> require (unmatchedFutexWakeups s1 \<le> maxAllowedFutexWakeups s1);
     Some s1
   }"

definition futexWakeJoin_end :: "'g Sched \<Rightarrow> nat \<Rightarrow> bool \<Rightarrow> 'g Sched option" where
  "futexWakeJoin_end s p timedOut = do {
     t \<leftarrow> threads s p;
     let wk = wokenUp (futexJoin t);
     (if wk \<le> unmatchedFutexWakeups s
      then Some (s\<lparr>unmatchedFutexWakeups := unmatchedFutexWakeups s - wk, maxAllowedFutexWakeups := maxAllowedFutexWakeups s - wk\<rparr>)
      else if timedOut
      then Some (s\<lparr>unmatchedFutexWakeups := 0, maxAllowedFutexWakeups := maxAllowedFutexWakeups s - wk\<rparr>)
      else None)
   }"

section \<open>The operations of threads\<close>

type_synonym ('r, 'g) SchedBar = "('r, 'g Sched) Barrier"

definition sched_env :: "'g SchedCfg \<Rightarrow> ('r \<Rightarrow> u32 \<Rightarrow> ('r \<times> u32) option) \<Rightarrow> ('r, 'g Sched) BarrierEnv" where
  "sched_env cfg rnd = \<lparr>env_randInt = rnd, env_callback = sched_callback cfg\<rparr>"

definition sched_start :: "'g SchedCfg \<Rightarrow> 'g Sched \<Rightarrow> u32 \<Rightarrow> u32 \<Rightarrow> bool list \<Rightarrow> nat \<Rightarrow> bool \<Rightarrow> u32 \<times> u32 \<Rightarrow> 'g Sched option" where
  "sched_start cfg s pid tid msk p nj wk = do {
     let g = getGid pid tid;
     _ \<leftarrow> require (map_of (gidMap s) g = None);
     _ \<leftarrow> require (threads s p = None);
     t \<leftarrow> ThreadInfo_new cfg g msk nj wk;
     Some (s\<lparr>threads := (threads s)(p \<mapsto> t), gidMap := gidMap s @ [(g, p)]\<rparr>)
   }"

definition waitForContext :: "'g Sched \<Rightarrow> nat \<Rightarrow> 'g Sched option" where
  "waitForContext s p = updThread s p (\<lambda>t. t\<lparr>tfutexWord := 1\<rparr>)"

text \<open>The end of \<open>waitForContext\<close>, once the futex word has changed.\<close>

definition waitForContext_end :: "('r, 'g Sched) BarrierEnv \<Rightarrow> ('r, 'g) SchedBar \<Rightarrow> nat \<Rightarrow> ('r, 'g) SchedBar option" where
  "waitForContext_end env b p = do {
     t \<leftarrow> threads (bsched b) p;
     _ \<leftarrow> require (tfutexWord t \<noteq> 1);
     (if needsJoin t then bar_join env (b\<lparr>bsched := logCall (CoreJoin (tcid t)) (bsched b)\<rparr>) (tcid t) else Some b)
   }"

text \<open>A thread that gets a context joins the barrier with it.\<close>

definition startOn :: "('r, 'g Sched) BarrierEnv \<Rightarrow> ('r, 'g) SchedBar \<Rightarrow> 'g Sched \<Rightarrow> nat \<Rightarrow> u32 \<Rightarrow> ('r, 'g) SchedBar option" where
  "startOn env b s p c = do {
     s1 \<leftarrow> schedule s p c;
     bar_join env (b\<lparr>bsched := logCall (CoreJoin c) s1\<rparr>) c
   }"

text \<open>
  \<open>join\<close>.  A thread that woke others runs \<open>futexWakeJoin\<close> first, when it enters, and the rest of \<open>join\<close> when its wait is over.
\<close>

definition sched_join_enter :: "'g Sched \<Rightarrow> u32 \<Rightarrow> u32 \<Rightarrow> 'g Sched option" where
  "sched_join_enter s pid tid = do {
     p \<leftarrow> map_of (gidMap s) (getGid pid tid);
     t \<leftarrow> threads s p;
     (if fjAction (futexJoin t) = FJA_WAKE then futexWakeJoin s p else Some s)
   }"

definition sched_join :: "'g SchedCfg \<Rightarrow> ('r, 'g Sched) BarrierEnv \<Rightarrow> ('r, 'g) SchedBar \<Rightarrow> u32 \<Rightarrow> u32 \<Rightarrow> bool
    \<Rightarrow> ('r, 'g) SchedBar option" where
  "sched_join cfg env b pid tid timedOut = do {
     let s = bsched b;
     p \<leftarrow> map_of (gidMap s) (getGid pid tid);
     t \<leftarrow> threads s p;
     s1 \<leftarrow> (if fjAction (futexJoin t) \<noteq> FJA_NONE then do {
              s' \<leftarrow> (if fjAction (futexJoin t) = FJA_WAIT then futexWaitJoin s p else futexWakeJoin_end s p timedOut);
              updThread s' p (\<lambda>t. t\<lparr>futexJoin := (futexJoin t)\<lparr>fjAction := FJA_NONE\<rparr>\<rparr>)
            } else Some s);
     (if fakeLeave t \<noteq> None then do {
        s2 \<leftarrow> finishFakeLeave s1 p;
        Some (b\<lparr>bsched := s2\<rparr>)
      } else do {
        _ \<leftarrow> require (\<not> markedForSleep t);
        s2 \<leftarrow> (if tstate t = TH_SLEEPING then do {
                 s' \<leftarrow> sleepQueue_remove s1 p;
                 updThread s' p (\<lambda>t. t\<lparr>tstate := TH_BLOCKED\<rparr>)
               } else Some s1);
        (if tstate t = TH_OUT then do {
           s3 \<leftarrow> updThread s2 p (\<lambda>t. t\<lparr>tstate := TH_RUNNING\<rparr>);
           s4 \<leftarrow> outQueue_remove s3 p;
           bar_join env (b\<lparr>bsched := logCall (CoreJoin (tcid t)) s4\<rparr>) (tcid t)
         } else do {
           _ \<leftarrow> require (tstate t \<in> {TH_BLOCKED, TH_STARTED, TH_SLEEPING});
           (s3, f) \<leftarrow> schedThread cfg s2 p;
           (case f of
              Some c \<Rightarrow> startOn env b s3 p c
            | None \<Rightarrow> do {
                s4 \<leftarrow> updThread s3 p (\<lambda>t. t\<lparr>tstate := TH_QUEUED\<rparr>);
                s5 \<leftarrow> runQueue_push s4 p;
                s6 \<leftarrow> waitForContext s5 p;
                Some (b\<lparr>bsched := s6\<rparr>)
              })
         })
      })
   }"

text \<open>A context goes from the thread \<open>p\<close>, which gets the state \<open>target\<close>, to the thread \<open>dst\<close>, in the same phase.\<close>

definition giveContext :: "'g Sched \<Rightarrow> nat \<Rightarrow> u32 \<Rightarrow> 'g Sched option" where
  "giveContext s dst c = do {
     s1 \<leftarrow> schedule s dst c;
     wakeup (logCall (CoreJoin c) s1) dst False
   }"

definition sched_leave :: "('r, 'g Sched) BarrierEnv \<Rightarrow> ('r, 'g) SchedBar \<Rightarrow> u32 \<Rightarrow> u32 \<Rightarrow> u32 \<Rightarrow> ('r, 'g) SchedBar option" where
  "sched_leave env b pid tid c = do {
     let s = bsched b;
     ctx \<leftarrow> aget (contexts s) (unat c);
     p \<leftarrow> curThread ctx;
     t \<leftarrow> threads s p;
     _ \<leftarrow> require (gid t = getGid pid tid);
     _ \<leftarrow> require (tstate t = TH_RUNNING);
     let s0 = logCall (CoreLeave c) s;
     (if markedForSleep t then do {
        s1 \<leftarrow> updThread s0 p (\<lambda>t. t\<lparr>markedForSleep := False\<rparr>);
        s2 \<leftarrow> deschedule s1 p c TH_SLEEPING;
        s3 \<leftarrow> sleepQueue_insert s2 p;
        (s4, f) \<leftarrow> schedContext s3 c;
        (case f of
           Some inTh \<Rightarrow> do { s5 \<leftarrow> giveContext s4 inTh c; Some (b\<lparr>bsched := s5\<rparr>) }
         | None \<Rightarrow> do { s5 \<leftarrow> freeList_push s4 c; bar_leave env (b\<lparr>bsched := s5\<rparr>) c })
      } else do {
        (s1, f) \<leftarrow> schedContext s0 c;
        (case f of
           Some inTh \<Rightarrow> do {
             s2 \<leftarrow> deschedule s1 p c TH_BLOCKED;
             s3 \<leftarrow> giveContext s2 inTh c;
             Some (b\<lparr>bsched := s3\<rparr>)
           }
         | None \<Rightarrow> do {
             s2 \<leftarrow> updThread s1 p (\<lambda>t. t\<lparr>tstate := TH_OUT\<rparr>);
             s3 \<leftarrow> outQueue_push s2 p;
             bar_leave env (b\<lparr>bsched := s3\<rparr>) c
           })
      })
   }"

text \<open>\<open>sync\<close>, up to the point where the thread blocks in the barrier or goes through it.\<close>

definition sched_sync :: "('r, 'g Sched) BarrierEnv \<Rightarrow> ('r, 'g) SchedBar \<Rightarrow> u32 \<Rightarrow> ('r, 'g) SchedBar option" where
  "sched_sync env b c = do {
     ctx \<leftarrow> aget (contexts (bsched b)) (unat c);
     p \<leftarrow> curThread ctx;
     t \<leftarrow> threads (bsched b) p;
     _ \<leftarrow> require (\<not> markedForSleep t);
     bar_sync env b c
   }"

text \<open>The rest of \<open>sync\<close>, once the barrier has let the thread go: hand off the context if the scheduler asked for it.\<close>

definition sched_sync_end :: "'g SchedCfg \<Rightarrow> ('r, 'g Sched) BarrierEnv \<Rightarrow> ('r, 'g) SchedBar \<Rightarrow> nat \<Rightarrow> ('r, 'g) SchedBar option" where
  "sched_sync_end cfg env b p = do {
     t \<leftarrow> threads (bsched b) p;
     (case handoffThread t of
        None \<Rightarrow> do { _ \<leftarrow> require (tstate t = TH_RUNNING); Some b }
      | Some dst \<Rightarrow> do {
          s1 \<leftarrow> updThread (bsched b) p (\<lambda>t. t\<lparr>handoffThread := None\<rparr>);
          s2 \<leftarrow> deschedule s1 p (tcid t) TH_QUEUED;
          s3 \<leftarrow> schedule s2 dst (tcid t);
          s4 \<leftarrow> wakeup s3 dst False;
          (s5, f) \<leftarrow> schedThread cfg s4 p;
          (case f of
             Some c \<Rightarrow> startOn env b s5 p c
           | None \<Rightarrow> do {
               s6 \<leftarrow> runQueue_push s5 p;
               s7 \<leftarrow> waitForContext s6 p;
               Some (b\<lparr>bsched := s7\<rparr>)
             })
        })
   }"

definition sched_finish :: "('r, 'g Sched) BarrierEnv \<Rightarrow> ('r, 'g) SchedBar \<Rightarrow> u32 \<Rightarrow> u32 \<Rightarrow> ('r, 'g) SchedBar option" where
  "sched_finish env b pid tid = do {
     let g = getGid pid tid;
     p \<leftarrow> map_of (gidMap (bsched b)) g;
     let s0 = (bsched b)\<lparr>gidMap := filter (\<lambda>x. fst x \<noteq> g) (gidMap (bsched b))\<rparr>;
     t0 \<leftarrow> threads s0 p;
     b1 \<leftarrow> (if fakeLeave t0 \<noteq> None then do {
              s1 \<leftarrow> finishFakeLeave s0 p;
              sched_leave env (b\<lparr>bsched := s1\<rparr>) pid tid (tcid t0)
            } else Some (b\<lparr>bsched := s0\<rparr>));
     t1 \<leftarrow> threads (bsched b1) p;
     b2 \<leftarrow> (if tstate t1 = TH_RUNNING then sched_leave env b1 pid tid (tcid t1) else Some b1);
     t \<leftarrow> threads (bsched b2) p;
     _ \<leftarrow> require (tstate t \<in> {TH_STARTED, TH_OUT, TH_BLOCKED, TH_QUEUED});
     s3 \<leftarrow> (if tstate t = TH_QUEUED then runQueue_remove (bsched b2) p
            else if \<not> unqueued (bsched b2) p then do {
              s' \<leftarrow> outQueue_remove (bsched b2) p;
              s'' \<leftarrow> deschedule s' p (tcid t) TH_BLOCKED;
              freeList_push s'' (tcid t)
            } else Some (bsched b2));
     Some (b2\<lparr>bsched := s3\<lparr>threads := (threads s3)(p := None)\<rparr>\<rparr>)
   }"

definition markForSleep :: "'g Sched \<Rightarrow> u32 \<Rightarrow> u32 \<Rightarrow> u64 \<Rightarrow> 'g Sched option" where
  "markForSleep s pid tid ph = do {
     p \<leftarrow> map_of (gidMap s) (getGid pid tid);
     t \<leftarrow> threads s p;
     _ \<leftarrow> require (\<not> markedForSleep t);
     updThread s p (\<lambda>t. t\<lparr>markedForSleep := True, wakeupPhase := ph, tfutexWord := 1\<rparr>)
   }"

definition isSleeping :: "'g Sched \<Rightarrow> u32 \<Rightarrow> u32 \<Rightarrow> bool option" where
  "isSleeping s pid tid = do {
     p \<leftarrow> map_of (gidMap s) (getGid pid tid);
     t \<leftarrow> threads s p;
     Some (tstate t = TH_SLEEPING)
   }"

definition notifySleepEnd :: "'g Sched \<Rightarrow> u32 \<Rightarrow> u32 \<Rightarrow> 'g Sched option" where
  "notifySleepEnd s pid tid = do {
     p \<leftarrow> map_of (gidMap s) (getGid pid tid);
     t \<leftarrow> threads s p;
     _ \<leftarrow> require (\<not> markedForSleep t);
     _ \<leftarrow> require (tstate t = TH_SLEEPING \<or> tstate t = TH_BLOCKED);
     (if tstate t = TH_BLOCKED then Some s
      else do { s1 \<leftarrow> sleepQueue_remove s p; updThread s1 p (\<lambda>t. t\<lparr>tstate := TH_BLOCKED\<rparr>) })
   }"

definition syscallLeave :: "('r, 'g Sched) BarrierEnv \<Rightarrow> ('r, 'g) SchedBar \<Rightarrow> u32 \<Rightarrow> u32 \<Rightarrow> u32 \<Rightarrow> FakeLeaveInfo
    \<Rightarrow> ('r, 'g) SchedBar option" where
  "syscallLeave env b pid tid c fl = do {
     let s = bsched b;
     ctx \<leftarrow> aget (contexts s) (unat c);
     p \<leftarrow> curThread ctx;
     t \<leftarrow> threads s p;
     _ \<leftarrow> require (gid t = getGid pid tid);
     _ \<leftarrow> require (tcid t = c);
     _ \<leftarrow> require (tstate t = TH_RUNNING);
     pcs \<leftarrow> aget (blockingSyscalls s) (unat pid);
     (if fl_pc fl \<in> set pcs \<or> markedForSleep t then sched_leave env b pid tid c
      else do {
        _ \<leftarrow> require (fakeLeave t = None);
        _ \<leftarrow> require (p \<notin> set (fakeLeaves s));
        s1 \<leftarrow> updThread (s\<lparr>fakeLeaves := fakeLeaves s @ [p]\<rparr>) p (\<lambda>t. t\<lparr>fakeLeave := Some fl\<rparr>);
        Some (b\<lparr>bsched := s1\<rparr>)
      })
   }"

text \<open>The threads of a process that died, in the order of the map.\<close>

definition finishDoomed :: "('r, 'g Sched) BarrierEnv \<Rightarrow> u32 \<Rightarrow> ('r, 'g) SchedBar \<Rightarrow> u32 \<Rightarrow> ('r, 'g) SchedBar option" where
  "finishDoomed env pid b tid = do {
     sl \<leftarrow> isSleeping (bsched b) pid tid;
     s1 \<leftarrow> (if sl then notifySleepEnd (bsched b) pid tid else Some (bsched b));
     sched_finish env (b\<lparr>bsched := s1\<rparr>) pid tid
   }"

definition processCleanup :: "('r, 'g Sched) BarrierEnv \<Rightarrow> ('r, 'g) SchedBar \<Rightarrow> u32 \<Rightarrow> ('r, 'g) SchedBar option" where
  "processCleanup env b pid =
     run_all (finishDoomed env pid) b (map getTid (filter (\<lambda>g. getPid g = pid) (map fst (gidMap (bsched b)))))"

definition getScheduledPid :: "'g Sched \<Rightarrow> u32 \<Rightarrow> u32 option" where
  "getScheduledPid s c = do {
     ctx \<leftarrow> aget (contexts s) (unat c);
     (if cstate ctx = USED then do { p \<leftarrow> curThread ctx; t \<leftarrow> threads s p; Some (getPid (gid t)) } else Some (- 1))
   }"

section \<open>The watchdog\<close>

text \<open>
  What the watchdog thread does to the scheduler when phases stall.  If every context that is in use belongs to a thread that is
  out and threads sleep, it runs phases until the first sleeper wakes; \<open>stop\<close> says after which phase another thread waits for the
  lock or the simulation is over.  If threads in fake leaves hold up the phase, it makes them leave: \<open>matches\<close> is the test of the
  name of the system call against the list of the process.
\<close>

definition watchdog_idle :: "'g Sched \<Rightarrow> bool" where
  "watchdog_idle s \<longleftrightarrow> unat (scheduledThreads s) = length (outQueue s) \<and> sleepQueue s \<noteq> []"

partial_function (option) driveLoop :: "'g SchedCfg \<Rightarrow> (u64 \<Rightarrow> bool) \<Rightarrow> nat \<Rightarrow> 'g Sched \<Rightarrow> 'g Sched option" where
  "driveLoop cfg stop p s = do {
     t \<leftarrow> threads s p;
     (if tstate t = TH_SLEEPING then do {
        s1 \<leftarrow> sched_callback cfg s;
        (if stop (curPhase s1) then Some s1 else driveLoop cfg stop p s1)
      } else Some s)
   }"

definition watchdog_drive :: "'g SchedCfg \<Rightarrow> (u64 \<Rightarrow> bool) \<Rightarrow> u64 \<Rightarrow> 'g Sched \<Rightarrow> 'g Sched option" where
  "watchdog_drive cfg stop lastPhase s =
     (if lastPhase = curPhase s \<and> watchdog_idle s then driveLoop cfg stop (hd (sleepQueue s)) s else Some s)"

text \<open>The loop over the fake leaves at the program counter \<open>pc\<close>, for the thread \<open>p\<close> at its front.\<close>

partial_function (option) leaveLoop :: "('r, 'g Sched) BarrierEnv \<Rightarrow> u32 \<Rightarrow> u64 \<Rightarrow> nat \<Rightarrow> ('r, 'g) SchedBar \<Rightarrow> ('r, 'g) SchedBar option" where
  "leaveLoop env pid pc p b = do {
     t \<leftarrow> threads (bsched b) p;
     s1 \<leftarrow> finishFakeLeave (bsched b) p;
     b1 \<leftarrow> sched_leave env (b\<lparr>bsched := s1\<rparr>) pid (getTid (gid t)) (tcid t);
     (case fakeLeaves (bsched b1) of
        [] \<Rightarrow> Some b1
      | q # qs \<Rightarrow> do {
          told \<leftarrow> threads (bsched b1) p;
          tq \<leftarrow> threads (bsched b1) q;
          fl \<leftarrow> fakeLeave tq;
          (if getPid (gid told) \<noteq> pid \<or> fl_pc fl \<noteq> pc then Some b1
           else if 8 < length (q # qs) then leaveLoop env pid pc q b1
           else Some b1)
        })
   }"

definition watchdog_leaves :: "('r, 'g Sched) BarrierEnv \<Rightarrow> (u32 \<Rightarrow> int \<Rightarrow> bool) \<Rightarrow> ('r, 'g) SchedBar \<Rightarrow> ('r, 'g) SchedBar option" where
  "watchdog_leaves env matches b =
     (case fakeLeaves (bsched b) of
        [] \<Rightarrow> Some b
      | p # ps \<Rightarrow> do {
          t \<leftarrow> threads (bsched b) p;
          fl \<leftarrow> fakeLeave t;
          let pid = getPid (gid t);
          (if matches pid (fl_syscallNumber fl) then do {
             s1 \<leftarrow> (if ps = [] then do {
                      pcs \<leftarrow> aget (blockingSyscalls (bsched b)) (unat pid);
                      bs \<leftarrow> aset (blockingSyscalls (bsched b)) (unat pid) (List.insert (fl_pc fl) pcs);
                      Some ((bsched b)\<lparr>blockingSyscalls := bs\<rparr>)
                    } else Some (bsched b));
             leaveLoop env pid (fl_pc fl) p (b\<lparr>bsched := s1\<rparr>)
           } else Some b)
        })"

section \<open>The invariant\<close>

text \<open>The predicates take the parts of the state that they read, so that the updates of the others do not matter.\<close>

type_synonym ths = "nat \<Rightarrow> ThreadInfo option"

definition holds_ctx :: "ths \<Rightarrow> nat \<Rightarrow> u32 \<Rightarrow> bool" where
  "holds_ctx ths p c \<longleftrightarrow> (\<exists>t. ths p = Some t \<and> tcid t = c \<and> tstate t \<in> {TH_RUNNING, TH_OUT})"

definition cur :: "ContextInfo list \<Rightarrow> u32 \<Rightarrow> nat option" where
  "cur cs c = curThread (cs ! unat c)"

definition qst :: "ths \<Rightarrow> nat \<Rightarrow> ThreadState option" where
  "qst ths p = map_option tstate (ths p)"

definition run_on :: "ths \<Rightarrow> ContextInfo list \<Rightarrow> u32 \<Rightarrow> bool" where
  "run_on ths cs c \<longleftrightarrow> unat c < length cs \<and> (\<exists>p. cur cs c = Some p \<and> qst ths p = Some TH_RUNNING)"

definition pend :: "ths \<Rightarrow> nat \<Rightarrow> bool" where
  "pend ths p \<longleftrightarrow> (\<exists>v t. ths v = Some t \<and> handoffThread t = Some p)"

text \<open>
  Contexts: a context is used by exactly the thread that holds it, the free list holds the others, except those in \<open>X\<close>, which
  an operation has taken off it.
\<close>

definition ctx_ok :: "nat \<Rightarrow> ths \<Rightarrow> ContextInfo list \<Rightarrow> u32 list \<Rightarrow> u32 \<Rightarrow> u32 set \<Rightarrow> bool" where
  "ctx_ok N ths cs fl sn X \<longleftrightarrow> length cs = N \<and> 0 < N \<and> N \<le> MAX_THREADS
     \<and> (\<forall>c. unat c < N \<longrightarrow> (cstate (cs ! unat c) = USED \<longleftrightarrow> cur cs c \<noteq> None))
     \<and> (\<forall>c p. unat c < N \<longrightarrow> (cur cs c = Some p \<longleftrightarrow> holds_ctx ths p c))
     \<and> distinct fl \<and> (\<forall>c. c \<in> set fl \<longleftrightarrow> unat c < N \<and> cur cs c = None \<and> c \<notin> X)
     \<and> unat sn = card {c. unat c < N \<and> cur cs c \<noteq> None}"

text \<open>A thread; \<open>y\<close> says that an operation holds it off the queues.\<close>

definition thr1 :: "nat \<Rightarrow> u64 \<Rightarrow> bool \<Rightarrow> ThreadInfo \<Rightarrow> bool" where
  "thr1 N ph y t \<longleftrightarrow> unat (tcid t) < N \<and> length (tmask t) = N \<and> True \<in> set (tmask t)
     \<and> (tstate t \<in> {TH_RUNNING, TH_OUT} \<longrightarrow> tmask t ! unat (tcid t))
     \<and> (tstate t \<in> {TH_QUEUED, TH_SLEEPING} \<and> \<not> y \<or> markedForSleep t \<longrightarrow> tfutexWord t = 1)
     \<and> (markedForSleep t \<longrightarrow> tstate t = TH_RUNNING \<and> handoffThread t = None \<and> ph < wakeupPhase t)
     \<and> (fakeLeave t \<noteq> None \<longrightarrow> tstate t = TH_RUNNING \<and> handoffThread t = None)"

definition thr_ok :: "nat \<Rightarrow> ths \<Rightarrow> nat list \<Rightarrow> u64 \<Rightarrow> nat set \<Rightarrow> bool" where
  "thr_ok N ths fls ph Y \<longleftrightarrow> (\<forall>p t. ths p = Some t \<longrightarrow> thr1 N ph (p \<in> Y) t \<and> (fakeLeave t \<noteq> None \<longleftrightarrow> p \<in> set fls))"

text \<open>Queues: a thread is where its state says, unless it is in \<open>Y\<close>; queued threads that a running thread will hand its context to
  are on no queue.\<close>

definition q_ok :: "ths \<Rightarrow> nat list \<Rightarrow> nat list \<Rightarrow> nat list \<Rightarrow> nat set \<Rightarrow> bool" where
  "q_ok ths rq oq sq Y \<longleftrightarrow> distinct rq \<and> distinct oq \<and> distinct sq
     \<and> (\<forall>p. p \<in> set rq \<longleftrightarrow> qst ths p = Some TH_QUEUED \<and> \<not> pend ths p \<and> p \<notin> Y)
     \<and> (\<forall>p. p \<in> set oq \<longleftrightarrow> qst ths p = Some TH_OUT \<and> p \<notin> Y)
     \<and> (\<forall>p. p \<in> set sq \<longleftrightarrow> qst ths p = Some TH_SLEEPING \<and> p \<notin> Y)"

definition hand_ok :: "ths \<Rightarrow> bool" where
  "hand_ok ths \<longleftrightarrow> (\<forall>v t p. ths v = Some t \<and> handoffThread t = Some p \<longrightarrow> tstate t = TH_RUNNING
       \<and> (\<exists>tp. ths p = Some tp \<and> tstate tp = TH_QUEUED \<and> tmask tp ! unat (tcid t))
       \<and> (\<forall>v' t'. ths v' = Some t' \<and> handoffThread t' = Some p \<longrightarrow> v' = v))"

definition wph :: "ths \<Rightarrow> nat \<Rightarrow> u64" where
  "wph ths p = wakeupPhase (the (ths p))"

definition slp_ok :: "ths \<Rightarrow> nat list \<Rightarrow> u64 \<Rightarrow> bool" where
  "slp_ok ths sq ph \<longleftrightarrow> sorted (map (wph ths) sq) \<and> (\<forall>p \<in> set sq. ph < wph ths p)"

text \<open>Work conservation: every context that a thread in the run queue may use is running another thread.\<close>

definition work_ok :: "ths \<Rightarrow> ContextInfo list \<Rightarrow> nat list \<Rightarrow> u32 set \<Rightarrow> bool" where
  "work_ok ths cs rq X \<longleftrightarrow> (\<forall>p \<in> set rq. \<forall>t c. ths p = Some t \<and> unat c < length cs \<and> tmask t ! unat c \<and> c \<notin> X \<longrightarrow> run_on ths cs c)"

definition gid_ok :: "ths \<Rightarrow> (u32 \<times> nat) list \<Rightarrow> bool" where
  "gid_ok ths gm \<longleftrightarrow> (\<forall>g p. map_of gm g = Some p \<longrightarrow> (\<exists>t. ths p = Some t \<and> gid t = g))"

definition sinv :: "'g SchedCfg \<Rightarrow> 'g Sched \<Rightarrow> u32 set \<Rightarrow> nat set \<Rightarrow> bool" where
  "sinv cfg s X Y \<longleftrightarrow>
     ctx_ok (unat (numCores cfg)) (threads s) (contexts s) (freeList s) (scheduledThreads s) X
     \<and> thr_ok (unat (numCores cfg)) (threads s) (fakeLeaves s) (curPhase s) Y
     \<and> q_ok (threads s) (runQueue s) (outQueue s) (sleepQueue s) Y \<and> hand_ok (threads s)
     \<and> slp_ok (threads s) (sleepQueue s) (curPhase s) \<and> work_ok (threads s) (contexts s) (runQueue s) X
     \<and> distinct (fakeLeaves s) \<and> numPhases s = curPhase s"

lemma updThread_Some [simp]: "threads s p = Some t \<Longrightarrow> updThread s p f = Some (s\<lparr>threads := (threads s)(p \<mapsto> f t)\<rparr>)"
  by (simp add: updThread_def)

lemma logCall_simps [simp]:
  "threads (logCall x s) = threads s" "gidMap (logCall x s) = gidMap s" "contexts (logCall x s) = contexts s"
  "freeList (logCall x s) = freeList s" "runQueue (logCall x s) = runQueue s" "outQueue (logCall x s) = outQueue s"
  "sleepQueue (logCall x s) = sleepQueue s" "fakeLeaves (logCall x s) = fakeLeaves s" "curPhase (logCall x s) = curPhase s"
  "numPhases (logCall x s) = numPhases s" "scheduledThreads (logCall x s) = scheduledThreads s"
  "blockingSyscalls (logCall x s) = blockingSyscalls s" "sinv cfg (logCall x s) = sinv cfg s"
  by (simp_all add: logCall_def sinv_def fun_eq_iff)

lemma cur_upd:
  assumes "unat c < length cs"
  shows "cur (cs[unat c := x]) = (cur cs)(c := curThread x)"
proof -
  have "unat c \<noteq> unat d" if "d \<noteq> c" for d using that by (metis word_unat_eq_iff)
  then show ?thesis using assms by (auto simp: cur_def fun_eq_iff)
qed

lemma cstate_upd:
  assumes "unat c < length cs"
  shows "cstate (cs[unat c := x] ! unat d) = (if d = c then cstate x else cstate (cs ! unat d))"
proof -
  have "unat c \<noteq> unat d" if "d \<noteq> c" using that by (metis word_unat_eq_iff)
  then show ?thesis using assms by auto
qed

lemma holds_upd:
  "holds_ctx (ths(p \<mapsto> t)) q c \<longleftrightarrow> (if q = p then tcid t = c \<and> tstate t \<in> {TH_RUNNING, TH_OUT} else holds_ctx ths q c)"
  by (simp add: holds_ctx_def)

lemma qst_upd [simp]: "qst (ths(p \<mapsto> t)) = (qst ths)(p \<mapsto> tstate t)"
  by (auto simp: qst_def fun_eq_iff)

lemma qst_Some: "ths p = Some t \<Longrightarrow> qst ths p = Some (tstate t)"
  by (simp add: qst_def)

lemma pend_bind: "pend u x \<longleftrightarrow> (\<exists>v. Option.bind (u v) handoffThread = Some x)"
  by (auto simp: pend_def bind_eq_Some_conv)

lemma pend_upd: "ths p = Some t \<Longrightarrow> handoffThread t' = handoffThread t \<Longrightarrow> pend (ths(p \<mapsto> t')) = pend ths"
proof -
  assume a: "ths p = Some t" "handoffThread t' = handoffThread t"
  have "Option.bind ((ths(p \<mapsto> t')) v) handoffThread = Option.bind (ths v) handoffThread" for v using a by simp
  then show ?thesis by (simp add: fun_eq_iff pend_bind)
qed

lemma card_used_insert:
  assumes "unat c < N" "f c = None"
  shows "card {d :: u32. unat d < N \<and> (f(c := Some p)) d \<noteq> None} = Suc (card {d. unat d < N \<and> f d \<noteq> None})"
proof -
  have "{d :: u32. unat d < N \<and> (f(c := Some p)) d \<noteq> None} = insert c {d. unat d < N \<and> f d \<noteq> None}"
    using assms by auto
  then show ?thesis using assms(2) by simp
qed

lemma card_used_remove:
  assumes "unat c < N" "f c \<noteq> None"
  shows "Suc (card {d :: u32. unat d < N \<and> (f(c := None)) d \<noteq> None}) = card {d. unat d < N \<and> f d \<noteq> None}"
proof -
  have "{d :: u32. unat d < N \<and> f d \<noteq> None} = insert c {d. unat d < N \<and> (f(c := None)) d \<noteq> None}"
    using assms by auto
  then show ?thesis by simp
qed

text \<open>A change of a thread that leaves what the contexts and queues depend on.\<close>

lemma ctx_ok_occupy:
  assumes i: "ctx_ok N ths cs fl sn X" and t: "ths p = Some t" "tstate t \<notin> {TH_RUNNING, TH_OUT}"
    and c: "unat c < N" "cur cs c = None" "c \<in> X"
    and t': "tstate t' = TH_RUNNING" "tcid t' = c"
  shows "ctx_ok N (ths(p \<mapsto> t')) (cs[unat c := \<lparr>cstate = USED, curThread = Some p\<rparr>]) fl (sn + 1) (X - {c})"
proof -
  have len: "length cs = N" "N \<le> MAX_THREADS" and cn: "unat sn = card {d. unat d < N \<and> cur cs d \<noteq> None}"
    and h: "\<And>d q. unat d < N \<Longrightarrow> (cur cs d = Some q) = holds_ctx ths q d" using i by (simp_all add: ctx_ok_def)
  let ?cs = "cs[unat c := \<lparr>cstate = USED, curThread = Some p\<rparr>]"
  have cu: "cur ?cs = (cur cs)(c := Some p)" using cur_upd [of c cs] c(1) len by simp
  have "card {d :: u32. unat d < N \<and> cur cs d \<noteq> None} \<le> card {t :: u32. unat t < MAX_THREADS}"
    by (rule card_mono) (use len(2) in auto)
  then have "unat sn < 2049" using card_tids cn by (simp add: MAX_THREADS_def)
  then have sn: "unat (sn + 1) = Suc (unat sn)" by (intro unat_inc_u32 [of _ "4096"]) (simp add: word_less_nat_alt)
  have "(cur ?cs d = Some q) = holds_ctx (ths(p \<mapsto> t')) q d" if "unat d < N" for d q
    using h [OF that, of q] h [OF c(1), of q] c(2) t t' by (auto simp: cu holds_upd holds_ctx_def)
  moreover have "unat (sn + 1) = card {d. unat d < N \<and> cur ?cs d \<noteq> None}"
    unfolding cu using card_used_insert [of c N "cur cs" p] c sn cn by simp
  moreover have "(cstate (?cs ! unat d) = USED) = (cur ?cs d \<noteq> None)" if "unat d < N" for d
    using i that c(1) len by (simp add: cstate_upd cu ctx_ok_def)
  moreover have "(d \<in> set fl) = (unat d < N \<and> cur ?cs d = None \<and> d \<notin> X - {c})" for d
    using i c by (auto simp: cu ctx_ok_def)
  ultimately show ?thesis using i unfolding ctx_ok_def by simp
qed

lemma ctx_ok_vacate:
  assumes i: "ctx_ok N ths cs fl sn X" and t: "ths p = Some t" "tstate t \<in> {TH_RUNNING, TH_OUT}"
    and c: "unat c < N" "cur cs c = Some p"
    and t': "tstate t' \<notin> {TH_RUNNING, TH_OUT}"
  shows "ctx_ok N (ths(p \<mapsto> t')) (cs[unat c := \<lparr>cstate = IDLE, curThread = None\<rparr>]) fl (sn - 1) (insert c X)"
proof -
  have len: "length cs = N" "N \<le> MAX_THREADS" and cn: "unat sn = card {d. unat d < N \<and> cur cs d \<noteq> None}"
    and h: "\<And>d q. unat d < N \<Longrightarrow> (cur cs d = Some q) = holds_ctx ths q d" using i by (simp_all add: ctx_ok_def)
  let ?cs = "cs[unat c := \<lparr>cstate = IDLE, curThread = None\<rparr>]"
  have cu: "cur ?cs = (cur cs)(c := None)" using cur_upd [of c cs] c(1) len by simp
  have rm: "Suc (card {d :: u32. unat d < N \<and> ((cur cs)(c := None)) d \<noteq> None}) = unat sn"
    unfolding cn by (rule card_used_remove) (use c in simp_all)
  then have sn: "unat (sn - 1) = unat sn - 1" by (intro unat_dec_u32) simp
  have tc: "tcid t = c" using h [OF c(1), of p] c(2) t by (simp add: holds_ctx_def)
  have "(cur ?cs d = Some q) = holds_ctx (ths(p \<mapsto> t')) q d" if "unat d < N" for d q
    using h [OF that, of q] h [OF c(1), of q] c(2) t t' tc by (auto simp: cu holds_upd holds_ctx_def)
  moreover have "unat (sn - 1) = card {d. unat d < N \<and> cur ?cs d \<noteq> None}"
    unfolding cu using rm sn by simp
  moreover have "(cstate (?cs ! unat d) = USED) = (cur ?cs d \<noteq> None)" if "unat d < N" for d
    using i that c(1) len by (simp add: cstate_upd cu ctx_ok_def)
  moreover have "(d \<in> set fl) = (unat d < N \<and> cur ?cs d = None \<and> d \<notin> insert c X)" for d
    using i c by (auto simp: cu ctx_ok_def)
  ultimately show ?thesis using i unfolding ctx_ok_def by simp
qed

lemma ctx_ok_keep:
  assumes i: "ctx_ok N ths cs fl sn X" and t: "ths p = Some t" "tcid t' = tcid t"
    "tstate t' \<in> {TH_RUNNING, TH_OUT} \<longleftrightarrow> tstate t \<in> {TH_RUNNING, TH_OUT}"
  shows "ctx_ok N (ths(p \<mapsto> t')) cs fl sn X"
proof -
  have "holds_ctx (ths(p \<mapsto> t')) = holds_ctx ths" using t by (auto simp: fun_eq_iff holds_upd holds_ctx_def)
  then show ?thesis using i by (simp add: ctx_ok_def)
qed

lemma thr_ok_upd:
  assumes "thr_ok N ths fls ph Y" "thr1 N ph (p \<in> Y') t'" "fakeLeave t' \<noteq> None \<longleftrightarrow> p \<in> set fls" "Y \<subseteq> insert p Y'"
  shows "thr_ok N (ths(p \<mapsto> t')) fls ph Y'"
  unfolding thr_ok_def
proof (intro allI impI)
  fix q u
  assume u: "(ths(p \<mapsto> t')) q = Some u"
  show "thr1 N ph (q \<in> Y') u \<and> (fakeLeave u \<noteq> None \<longleftrightarrow> q \<in> set fls)"
  proof (cases "q = p")
    case True
    then show ?thesis using u assms by simp
  next
    case False
    then have "thr1 N ph (q \<in> Y) u" "fakeLeave u \<noteq> None \<longleftrightarrow> q \<in> set fls" "q \<in> Y \<Longrightarrow> q \<in> Y'"
      using u assms by (auto simp: thr_ok_def)
    then show ?thesis by (auto simp: thr1_def)
  qed
qed

lemma sinvD:
  assumes "sinv cfg s X Y"
  shows "ctx_ok (unat (numCores cfg)) (threads s) (contexts s) (freeList s) (scheduledThreads s) X"
    "thr_ok (unat (numCores cfg)) (threads s) (fakeLeaves s) (curPhase s) Y"
    "q_ok (threads s) (runQueue s) (outQueue s) (sleepQueue s) Y" "hand_ok (threads s)"
    "slp_ok (threads s) (sleepQueue s) (curPhase s)" "work_ok (threads s) (contexts s) (runQueue s) X"
    "distinct (fakeLeaves s)" "numPhases s = curPhase s"
  using assms unfolding sinv_def by blast+

lemma slp_ok_cong:
  assumes "slp_ok ths sq ph" "\<And>q. q \<in> set sq \<Longrightarrow> wph ths' q = wph ths q"
  shows "slp_ok ths' sq ph"
proof -
  have m: "map (wph ths') sq = map (wph ths) sq" using assms(2) by simp
  show ?thesis unfolding slp_ok_def m using assms by (simp add: slp_ok_def)
qed

lemma slp_ok_upd: "slp_ok ths sq ph \<Longrightarrow> p \<notin> set sq \<Longrightarrow> slp_ok (ths(p \<mapsto> t')) sq ph"
  by (erule slp_ok_cong) (auto simp: wph_def)

lemma hand_ok_upd:
  assumes h: "hand_ok ths" and t: "ths p = Some t" and n: "\<not> pend ths p" and t': "handoffThread t' = None"
  shows "hand_ok (ths(p \<mapsto> t'))"
  unfolding hand_ok_def
proof (intro allI impI)
  fix v u x
  assume a: "(ths(p \<mapsto> t')) v = Some u \<and> handoffThread u = Some x"
  then have v: "v \<noteq> p" "ths v = Some u" "handoffThread u = Some x" using t' by (auto split: if_splits)
  then have "x \<noteq> p" using n by (auto simp: pend_def)
  moreover have "tstate u = TH_RUNNING \<and> (\<exists>tp. ths x = Some tp \<and> tstate tp = TH_QUEUED \<and> tmask tp ! unat (tcid u))"
    "\<forall>v' t'. ths v' = Some t' \<and> handoffThread t' = Some x \<longrightarrow> v' = v"
    using h v unfolding hand_ok_def by blast+
  ultimately show "tstate u = TH_RUNNING
      \<and> (\<exists>tp. (ths(p \<mapsto> t')) x = Some tp \<and> tstate tp = TH_QUEUED \<and> tmask tp ! unat (tcid u))
      \<and> (\<forall>v' t''. (ths(p \<mapsto> t')) v' = Some t'' \<and> handoffThread t'' = Some x \<longrightarrow> v' = v)"
    using t' by auto
qed

lemma hand_none:
  assumes "hand_ok ths" "ths p = Some t" "tstate t \<noteq> TH_RUNNING"
  shows "handoffThread t = None"
  using assms unfolding hand_ok_def by (metis not_None_eq)

lemma pend_queued:
  assumes "hand_ok ths" "pend ths p"
  shows "qst ths p = Some TH_QUEUED"
proof -
  obtain v t where "ths v = Some t" "handoffThread t = Some p" using assms(2) by (auto simp: pend_def)
  then obtain tp where "ths p = Some tp" "tstate tp = TH_QUEUED" using assms(1) unfolding hand_ok_def by blast
  then show ?thesis by (simp add: qst_def)
qed

lemma q_ok_upd:
  assumes q: "q_ok ths rq oq sq Y" and t: "ths p = Some t" "handoffThread t' = handoffThread t"
    and n: "p \<notin> set rq" "p \<notin> set oq" "p \<notin> set sq"
    and Y': "tstate t' \<in> {TH_QUEUED, TH_OUT, TH_SLEEPING} \<Longrightarrow> p \<in> Y' \<or> tstate t' = TH_QUEUED \<and> pend ths p"
      "\<And>x. x \<noteq> p \<Longrightarrow> x \<in> Y' \<longleftrightarrow> x \<in> Y"
  shows "q_ok (ths(p \<mapsto> t')) rq oq sq Y'"
proof -
  have pe: "pend (ths(p \<mapsto> t')) = pend ths" using pend_upd t by blast
  have "(x \<in> set rq) = (qst (ths(p \<mapsto> t')) x = Some TH_QUEUED \<and> \<not> pend ths x \<and> x \<notin> Y')"
    "(x \<in> set oq) = (qst (ths(p \<mapsto> t')) x = Some TH_OUT \<and> x \<notin> Y')"
    "(x \<in> set sq) = (qst (ths(p \<mapsto> t')) x = Some TH_SLEEPING \<and> x \<notin> Y')" for x
    using q n Y' by (cases "x = p"; auto simp: q_ok_def)+
  then show ?thesis using q unfolding q_ok_def pe by blast
qed

lemma work_okD: "work_ok ths cs rq X \<Longrightarrow> p \<in> set rq \<Longrightarrow> ths p = Some t \<Longrightarrow> unat c < length cs \<Longrightarrow> tmask t ! unat c \<Longrightarrow> c \<notin> X \<Longrightarrow> run_on ths cs c"
  unfolding work_ok_def by blast

lemma run_on_occupy:
  assumes "run_on ths cs d" "unat c < length cs" "cur cs c = None" "qst ths p \<noteq> Some TH_RUNNING"
  shows "run_on (ths(p \<mapsto> t')) (cs[unat c := \<lparr>cstate = USED, curThread = Some q\<rparr>]) d"
  using assms by (auto simp: run_on_def cur_upd)

text \<open>A thread that is not running or out takes the context \<open>c\<close> that is off the free list.\<close>

lemma schedule_keeps:
  assumes i: "sinv cfg s X Y" and t: "threads s p = Some t" "tstate t \<in> {TH_STARTED, TH_BLOCKED, TH_QUEUED}"
    "tstate t = TH_QUEUED \<Longrightarrow> p \<in> Y" "\<not> pend (threads s) p"
    and c: "unat c < unat (numCores cfg)" "cur (contexts s) c = None" "c \<in> X" "tmask t ! unat c"
  defines "s' \<equiv> logCall (CoreSwitch c (gid t)) (s\<lparr>threads := (threads s)(p \<mapsto> t\<lparr>tstate := TH_RUNNING, tcid := c\<rparr>),
      contexts := (contexts s)[unat c := \<lparr>cstate = USED, curThread = Some p\<rparr>], scheduledThreads := scheduledThreads s + 1\<rparr>)"
  shows "schedule s p c = Some s' \<and> sinv cfg s' (X - {c}) (Y - {p})"
proof -
  let ?N = "unat (numCores cfg)" and ?t' = "t\<lparr>tstate := TH_RUNNING, tcid := c\<rparr>"
  note ci = sinvD(1) [OF i] and ti = sinvD(2) [OF i] and qi = sinvD(3) [OF i] and hi = sinvD(4) [OF i] and si = sinvD(5) [OF i]
    and wi = sinvD(6) [OF i]
  have len: "length (contexts s) = ?N" "cstate (contexts s ! unat c) = IDLE"
    using ci c by (cases "cstate (contexts s ! unat c)"; auto simp: ctx_ok_def)+
  have off: "p \<notin> set (runQueue s)" "p \<notin> set (outQueue s)" "p \<notin> set (sleepQueue s)"
    using qi t by (auto simp: q_ok_def qst_def)
  have ho: "handoffThread t = None" using hand_none [OF hi t(1)] t(2) by auto
  have t1: "thr1 ?N (curPhase s) (p \<in> Y) t" "fakeLeave t \<noteq> None \<longleftrightarrow> p \<in> set (fakeLeaves s)" using ti t(1) by (auto simp: thr_ok_def)
  have "schedule s p c = Some s'" using t c len by (simp add: schedule_def s'_def cur_def)
  moreover have "ctx_ok ?N (threads s') (contexts s') (freeList s') (scheduledThreads s') (X - {c})"
    unfolding s'_def using ctx_ok_occupy [OF ci t(1) _ c(1-3), of ?t'] t(2) by auto
  moreover have "thr_ok ?N (threads s') (fakeLeaves s') (curPhase s') (Y - {p})"
    unfolding s'_def using thr_ok_upd [OF ti, of p "Y - {p}" ?t'] t1 t(2) c ho by (auto simp: thr1_def)
  moreover have "q_ok (threads s') (runQueue s') (outQueue s') (sleepQueue s') (Y - {p})"
    unfolding s'_def using q_ok_upd [OF qi t(1) _ off, of ?t' "Y - {p}"] by simp
  moreover have "hand_ok (threads s')" unfolding s'_def using hand_ok_upd [OF hi t(1,4), of ?t'] ho by simp
  moreover have "slp_ok (threads s') (sleepQueue s') (curPhase s')" unfolding s'_def using slp_ok_upd [OF si off(3)] by simp
  moreover have "work_ok (threads s') (contexts s') (runQueue s') (X - {c})"
    unfolding work_ok_def
  proof (intro ballI allI impI)
    fix x u d
    assume x: "x \<in> set (runQueue s')" and u: "threads s' x = Some u \<and> unat d < length (contexts s') \<and> tmask u ! unat d \<and> d \<notin> X - {c}"
    have xp: "x \<noteq> p" "threads s x = Some u" using x u off by (auto simp: s'_def split: if_splits)
    show "run_on (threads s') (contexts s') d"
    proof (cases "d = c")
      case True
      then show ?thesis using c len by (simp add: s'_def run_on_def cur_upd)
    next
      case False
      then have "run_on (threads s) (contexts s) d" using work_okD [OF wi _ xp(2), of d] x u by (simp add: s'_def)
      then show ?thesis using run_on_occupy [of "threads s" "contexts s" d c p] c len t by (auto simp: s'_def qst_def)
    qed
  qed
  ultimately show ?thesis using i by (simp add: sinv_def s'_def)
qed

text \<open>A thread that runs or is out gives up its context.\<close>

lemma deschedule_keeps:
  assumes i: "sinv cfg s X Y" and t: "threads s p = Some t" "tstate t \<in> {TH_RUNNING, TH_OUT}" "tstate t = TH_OUT \<Longrightarrow> p \<in> Y"
    "handoffThread t = None" "\<not> markedForSleep t" "fakeLeave t = None"
    and c: "c = tcid t" and tg: "target \<in> {TH_BLOCKED, TH_QUEUED, TH_SLEEPING}"
    and Y': "Y' = (if target = TH_BLOCKED then Y - {p} else insert p Y)"
  defines "s' \<equiv> logCall (CoreSwitch c (- 1)) (s\<lparr>threads := (threads s)(p \<mapsto> t\<lparr>tstate := target\<rparr>),
      contexts := (contexts s)[unat c := \<lparr>cstate = IDLE, curThread = None\<rparr>], scheduledThreads := scheduledThreads s - 1\<rparr>)"
  shows "deschedule s p c target = Some s' \<and> sinv cfg s' (insert c X) Y'"
proof -
  let ?N = "unat (numCores cfg)" and ?t' = "t\<lparr>tstate := target\<rparr>"
  note ci = sinvD(1) [OF i] and ti = sinvD(2) [OF i] and qi = sinvD(3) [OF i] and hi = sinvD(4) [OF i] and si = sinvD(5) [OF i]
    and wi = sinvD(6) [OF i]
  have t1: "thr1 ?N (curPhase s) (p \<in> Y) t" "fakeLeave t \<noteq> None \<longleftrightarrow> p \<in> set (fakeLeaves s)" using ti t(1) by (auto simp: thr_ok_def)
  then have cn: "unat c < ?N" by (simp add: thr1_def c)
  have "holds_ctx (threads s) p c" using t c by (simp add: holds_ctx_def)
  then have cu: "cur (contexts s) c = Some p" using ci cn by (simp add: ctx_ok_def)
  have len: "length (contexts s) = ?N" "cstate (contexts s ! unat c) = USED" using ci cn cu by (auto simp: ctx_ok_def)
  have off: "p \<notin> set (runQueue s)" "p \<notin> set (outQueue s)" "p \<notin> set (sleepQueue s)"
    using qi t by (auto simp: q_ok_def qst_def)
  have np: "\<not> pend (threads s) p" using pend_queued [OF hi, of p] t(1,2) by (auto simp: qst_def)
  have "deschedule s p c target = Some s'" using t(1,2) c cn tg len cu by (auto simp: deschedule_def s'_def cur_def)
  moreover have "ctx_ok ?N (threads s') (contexts s') (freeList s') (scheduledThreads s') (insert c X)"
    unfolding s'_def using ctx_ok_vacate [OF ci t(1,2) cn cu, of ?t'] tg by auto
  moreover have "thr_ok ?N (threads s') (fakeLeaves s') (curPhase s') Y'"
  proof -
    have "thr1 ?N (curPhase s) (p \<in> Y') ?t'" using t1 t(4-6) tg by (auto simp: thr1_def Y')
    moreover have "Y \<subseteq> insert p Y'" by (auto simp: Y')
    ultimately show ?thesis unfolding s'_def using thr_ok_upd [OF ti, of p Y' ?t'] t1(2) by simp
  qed
  moreover have "q_ok (threads s') (runQueue s') (outQueue s') (sleepQueue s') Y'"
    unfolding s'_def using q_ok_upd [OF qi t(1) _ off, of ?t' Y'] tg by (auto simp: Y')
  moreover have "hand_ok (threads s')" unfolding s'_def using hand_ok_upd [OF hi t(1) np, of ?t'] t(4) by simp
  moreover have "slp_ok (threads s') (sleepQueue s') (curPhase s')" unfolding s'_def using slp_ok_upd [OF si off(3)] by simp
  moreover have "work_ok (threads s') (contexts s') (runQueue s') (insert c X)"
    unfolding work_ok_def
  proof (intro ballI allI impI)
    fix x u d
    assume x: "x \<in> set (runQueue s')" and u: "threads s' x = Some u \<and> unat d < length (contexts s') \<and> tmask u ! unat d \<and> d \<notin> insert c X"
    have xp: "x \<noteq> p" "threads s x = Some u" using x u off by (auto simp: s'_def split: if_splits)
    then have "run_on (threads s) (contexts s) d" using work_okD [OF wi _ xp(2), of d] x u by (simp add: s'_def)
    then obtain v where v: "cur (contexts s) d = Some v" "qst (threads s) v = Some TH_RUNNING" "unat d < ?N" using len by (auto simp: run_on_def)
    then have "holds_ctx (threads s) v d" using ci by (simp add: ctx_ok_def)
    then have "v \<noteq> p" using u t(1) c by (auto simp: holds_ctx_def)
    then show "run_on (threads s') (contexts s') d" using v u len cn by (auto simp: s'_def run_on_def cur_upd)
  qed
  ultimately show ?thesis using i by (simp add: sinv_def s'_def)
qed

section \<open>The policy finds what there is\<close>

lemma first_mask_ok:
  "(\<And>c. c \<in> set cs \<Longrightarrow> unat c < length m) \<Longrightarrow> \<exists>f. first_mask m cs = Some f \<and>
     (case f of None \<Rightarrow> \<forall>c \<in> set cs. \<not> m ! unat c | Some c \<Rightarrow> c \<in> set cs \<and> m ! unat c)"
proof (induction cs)
  case Nil
  then show ?case by simp
next
  case (Cons c cs)
  from Cons.IH Cons.prems obtain f where f: "first_mask m cs = Some f"
    "case f of None \<Rightarrow> \<forall>c \<in> set cs. \<not> m ! unat c | Some c \<Rightarrow> c \<in> set cs \<and> m ! unat c" by auto
  show ?case using Cons.prems [of c] f by (cases "m ! unat c") (auto split: option.splits)
qed

lemma first_queued_ok:
  "(\<And>p. p \<in> set ps \<Longrightarrow> \<exists>t. threads s p = Some t \<and> unat c < length (tmask t)) \<Longrightarrow> \<exists>f. first_queued s c ps = Some f \<and>
     (case f of None \<Rightarrow> \<forall>p \<in> set ps. \<forall>t. threads s p = Some t \<longrightarrow> \<not> tmask t ! unat c
      | Some p \<Rightarrow> p \<in> set ps \<and> (\<exists>t. threads s p = Some t \<and> tmask t ! unat c))"
proof (induction ps)
  case Nil
  then show ?case by simp
next
  case (Cons p ps)
  from Cons.prems [of p] obtain t where t: "threads s p = Some t" "unat c < length (tmask t)" by auto
  from Cons.IH Cons.prems obtain f where f: "first_queued s c ps = Some f"
    "case f of None \<Rightarrow> \<forall>p \<in> set ps. \<forall>t. threads s p = Some t \<longrightarrow> \<not> tmask t ! unat c
      | Some p \<Rightarrow> p \<in> set ps \<and> (\<exists>t. threads s p = Some t \<and> tmask t ! unat c)" by auto
  show ?case using t f by (cases "tmask t ! unat c") (auto split: option.splits)
qed

lemma first_out_ok:
  "(\<And>p. p \<in> set ps \<Longrightarrow> \<exists>t. threads s p = Some t \<and> unat (tcid t) < length m) \<Longrightarrow> \<exists>f. first_out s m ps = Some f \<and>
     (case f of None \<Rightarrow> \<forall>p \<in> set ps. \<forall>t. threads s p = Some t \<longrightarrow> \<not> m ! unat (tcid t)
      | Some p \<Rightarrow> p \<in> set ps \<and> (\<exists>t. threads s p = Some t \<and> m ! unat (tcid t)))"
proof (induction ps)
  case Nil
  then show ?case by simp
next
  case (Cons p ps)
  from Cons.prems [of p] obtain t where t: "threads s p = Some t" "unat (tcid t) < length m" by auto
  from Cons.IH Cons.prems obtain f where f: "first_out s m ps = Some f"
    "case f of None \<Rightarrow> \<forall>p \<in> set ps. \<forall>t. threads s p = Some t \<longrightarrow> \<not> m ! unat (tcid t)
      | Some p \<Rightarrow> p \<in> set ps \<and> (\<exists>t. threads s p = Some t \<and> m ! unat (tcid t))" by auto
  show ?case using t f by (cases "m ! unat (tcid t)") (auto split: option.splits)
qed

lemma thr1_mono: "thr1 N ph y t \<Longrightarrow> (y \<Longrightarrow> y') \<Longrightarrow> thr1 N ph y' t"
  by (auto simp: thr1_def)

lemma thr_ok_mono: "thr_ok N ths fls ph Y \<Longrightarrow> Y \<subseteq> Y' \<Longrightarrow> thr_ok N ths fls ph Y'"
  unfolding thr_ok_def by (meson subsetD thr1_mono)

lemma work_ok_mono: "work_ok ths cs rq X \<Longrightarrow> set rq' \<subseteq> set rq \<Longrightarrow> X \<subseteq> X' \<Longrightarrow> work_ok ths cs rq' X'"
  unfolding work_ok_def by blast

lemma thrD: "sinv cfg s X Y \<Longrightarrow> threads s p = Some t \<Longrightarrow> thr1 (unat (numCores cfg)) (curPhase s) (p \<in> Y) t"
  by (drule sinvD(2)) (simp add: thr_ok_def)

lemma not_running_plain:
  assumes i: "sinv cfg s X Y" and t: "threads s p = Some t" "tstate t \<noteq> TH_RUNNING"
  shows "handoffThread t = None" "\<not> markedForSleep t" "fakeLeave t = None"
proof -
  show "handoffThread t = None" by (rule hand_none [OF sinvD(4) [OF i] t])
  show "\<not> markedForSleep t" using thrD [OF i t(1)] t(2) by (auto simp: thr1_def)
  show "fakeLeave t = None" using thrD [OF i t(1)] t(2) by (cases "fakeLeave t") (auto simp: thr1_def)
qed

lemma queued_thread:
  assumes "sinv cfg s X Y" "p \<in> set (runQueue s)"
  shows "\<exists>t. threads s p = Some t \<and> tstate t = TH_QUEUED \<and> tfutexWord t = 1 \<and> handoffThread t = None \<and> fakeLeave t = None
     \<and> \<not> markedForSleep t \<and> length (tmask t) = unat (numCores cfg) \<and> p \<notin> Y \<and> \<not> pend (threads s) p"
proof -
  have "qst (threads s) p = Some TH_QUEUED" "p \<notin> Y" "\<not> pend (threads s) p" using sinvD(3) [OF assms(1)] assms(2) by (auto simp: q_ok_def)
  moreover then obtain t where t: "threads s p = Some t" "tstate t = TH_QUEUED" by (auto simp: qst_def)
  moreover have "thr1 (unat (numCores cfg)) (curPhase s) (p \<in> Y) t" using sinvD(2) [OF assms(1)] t by (simp add: thr_ok_def)
  moreover have "handoffThread t = None" using hand_none [OF sinvD(4) [OF assms(1)] t(1)] t(2) by simp
  ultimately show ?thesis by (auto simp: thr1_def)
qed

lemma runQueue_take:
  assumes i: "sinv cfg s X Y" and p: "p \<in> set (runQueue s)"
  shows "runQueue_remove s p = Some (s\<lparr>runQueue := remove1 p (runQueue s)\<rparr>)
    \<and> sinv cfg (s\<lparr>runQueue := remove1 p (runQueue s)\<rparr>) X (insert p Y)"
proof -
  note qi = sinvD(3) [OF i]
  have st: "qst (threads s) p = Some TH_QUEUED" using qi p by (simp add: q_ok_def)
  have d: "distinct (runQueue s)" using qi by (simp add: q_ok_def)
  have "q_ok (threads s) (remove1 p (runQueue s)) (outQueue s) (sleepQueue s) (insert p Y)"
    using qi st d unfolding q_ok_def by (auto simp: set_remove1_eq [OF d])
  moreover have "thr_ok (unat (numCores cfg)) (threads s) (fakeLeaves s) (curPhase s) (insert p Y)"
    by (rule thr_ok_mono [OF sinvD(2) [OF i]]) auto
  moreover have "work_ok (threads s) (contexts s) (remove1 p (runQueue s)) X"
    by (rule work_ok_mono [OF sinvD(6) [OF i]]) (rule set_remove1_subset, rule order_refl)
  ultimately show ?thesis using i p unfolding sinv_def by (simp add: runQueue_remove_def q_remove_def)
qed

lemma schedContext_ok:
  assumes i: "sinv cfg s X Y" and c: "unat c < unat (numCores cfg)"
  shows "\<exists>s' f. schedContext s c = Some (s', f) \<and>
    (case f of None \<Rightarrow> s' = s \<and> (\<forall>p \<in> set (runQueue s). \<forall>t. threads s p = Some t \<longrightarrow> \<not> tmask t ! unat c)
     | Some q \<Rightarrow> q \<in> set (runQueue s) \<and> (\<exists>t. threads s q = Some t \<and> tmask t ! unat c)
         \<and> s' = s\<lparr>runQueue := remove1 q (runQueue s)\<rparr> \<and> sinv cfg s' X (insert q Y))"
proof -
  have "\<exists>t. threads s p = Some t \<and> unat c < length (tmask t)" if "p \<in> set (runQueue s)" for p
    using queued_thread [OF i that] c by auto
  from first_queued_ok [OF this] obtain f where f: "first_queued s c (runQueue s) = Some f"
    "case f of None \<Rightarrow> \<forall>p \<in> set (runQueue s). \<forall>t. threads s p = Some t \<longrightarrow> \<not> tmask t ! unat c
      | Some p \<Rightarrow> p \<in> set (runQueue s) \<and> (\<exists>t. threads s p = Some t \<and> tmask t ! unat c)" by auto
  show ?thesis
  proof (cases f)
    case None
    then show ?thesis using f by (simp add: schedContext_def)
  next
    case (Some q)
    then have q: "q \<in> set (runQueue s)" "\<exists>t. threads s q = Some t \<and> tmask t ! unat c" using f(2) by simp_all
    then show ?thesis using f(1) Some runQueue_take [OF i q(1)] by (simp add: schedContext_def)
  qed
qed

lemma freeList_take:
  assumes i: "sinv cfg s {} Y" and c: "c \<in> set (freeList s)"
  shows "freeList_remove s c = Some (s\<lparr>freeList := remove1 c (freeList s)\<rparr>)
    \<and> sinv cfg (s\<lparr>freeList := remove1 c (freeList s)\<rparr>) {c} Y"
proof -
  note ci = sinvD(1) [OF i]
  have d: "distinct (freeList s)" using ci by (simp add: ctx_ok_def)
  have "ctx_ok (unat (numCores cfg)) (threads s) (contexts s) (remove1 c (freeList s)) (scheduledThreads s) {c}"
    using ci unfolding ctx_ok_def by (auto simp: set_remove1_eq [OF d])
  moreover have "work_ok (threads s) (contexts s) (runQueue s) {c}" by (rule work_ok_mono [OF sinvD(6) [OF i]]) auto
  ultimately show ?thesis using i c unfolding sinv_def by (simp add: freeList_remove_def q_remove_def)
qed

text \<open>What changes for the threads when a context is taken away from a thread that is out.\<close>

definition only_out :: "'g Sched \<Rightarrow> 'g Sched \<Rightarrow> bool" where
  "only_out s s' \<longleftrightarrow> (\<forall>q t. threads s q = Some t \<longrightarrow>
      threads s' q = Some t \<or> tstate t = TH_OUT \<and> threads s' q = Some (t\<lparr>tstate := TH_BLOCKED\<rparr>))
    \<and> (\<forall>q. threads s q = None \<longrightarrow> threads s' q = None) \<and> gidMap s' = gidMap s
    \<and> (\<forall>d. run_on (threads s') (contexts s') d = run_on (threads s) (contexts s) d)"

lemma only_out_refl: "only_out s s"
  by (simp add: only_out_def)

lemma only_out_pend: "only_out s s' \<Longrightarrow> pend (threads s') p = pend (threads s) p"
proof -
  assume o: "only_out s s'"
  have "Option.bind (threads s' v) handoffThread = Option.bind (threads s v) handoffThread" for v
  proof (cases "threads s v")
    case None
    then show ?thesis using o by (simp add: only_out_def)
  next
    case (Some t)
    then have "threads s' v = Some t \<or> threads s' v = Some (t\<lparr>tstate := TH_BLOCKED\<rparr>)" using o unfolding only_out_def by blast
    then show ?thesis using Some by auto
  qed
  then show ?thesis by (simp add: pend_bind)
qed

text \<open>
  \<open>schedThread\<close> finds a context whenever the mask of the thread allows one that is free or whose thread is out, and takes
  it off.
\<close>

lemma schedThread_ok:
  assumes i: "sinv cfg s {} Y" and t: "threads s p = Some t" "tstate t \<notin> {TH_RUNNING, TH_OUT}" and Y: "Y \<subseteq> {p}"
  shows "\<exists>s' f. schedThread cfg s p = Some (s', f) \<and>
    (case f of None \<Rightarrow> s' = s \<and> (\<forall>c. unat c < unat (numCores cfg) \<and> tmask t ! unat c \<longrightarrow> run_on (threads s) (contexts s) c)
     | Some c \<Rightarrow> unat c < unat (numCores cfg) \<and> tmask t ! unat c \<and> cur (contexts s') c = None
         \<and> \<not> run_on (threads s) (contexts s) c \<and> sinv cfg s' {c} Y \<and> only_out s s')"
proof -
  let ?N = "unat (numCores cfg)"
  note ci = sinvD(1) [OF i] and qi = sinvD(3) [OF i]
  have len: "length (contexts s) = ?N" and fl: "\<And>c. c \<in> set (freeList s) \<longleftrightarrow> unat c < ?N \<and> cur (contexts s) c = None"
    and us: "\<And>c. unat c < ?N \<Longrightarrow> cstate (contexts s ! unat c) = USED \<longleftrightarrow> cur (contexts s) c \<noteq> None"
    and ho: "\<And>c p. unat c < ?N \<Longrightarrow> cur (contexts s) c = Some p \<longleftrightarrow> holds_ctx (threads s) p c" using ci by (simp_all add: ctx_ok_def)
  have t1: "unat (tcid t) < ?N" "length (tmask t) = ?N" using sinvD(2) [OF i] t(1) by (auto simp: thr_ok_def thr1_def)
  have tn: "tcid t < numCores cfg" using t1(1) by (simp add: word_less_nat_alt)
  have take: "\<exists>s'. freeList_remove s c = Some s' \<and> cur (contexts s') c = None \<and> \<not> run_on (threads s) (contexts s) c \<and> sinv cfg s' {c} Y
      \<and> only_out s s'" if "c \<in> set (freeList s)" for c
    using freeList_take [OF i that] fl [of c] that by (auto simp: run_on_def only_out_def)
  show ?thesis
  proof (cases "cur (contexts s) (tcid t) = None \<and> tmask t ! unat (tcid t)")
    case True
    then have idle: "cstate (contexts s ! unat (tcid t)) = IDLE" using us [OF t1(1)] by (cases "cstate (contexts s ! unat (tcid t))") auto
    have "tcid t \<in> set (freeList s)" using fl True t1 by simp
    from take [OF this] obtain s' where "freeList_remove s (tcid t) = Some s'" "cur (contexts s') (tcid t) = None"
      "\<not> run_on (threads s) (contexts s) (tcid t)" "sinv cfg s' {tcid t} Y" "only_out s s'" by blast
    then show ?thesis using t t1 tn len True idle by (simp add: schedThread_def)
  next
    case False
    have no1: "(if cstate (contexts s ! unat (tcid t)) = IDLE then aget (tmask t) (unat (tcid t)) else Some False) = Some False"
      using False us [OF t1(1)] t1 by auto
    have "unat c < length (tmask t)" if "c \<in> set (freeList s)" for c using fl that t1 by simp
    from first_mask_ok [OF this] obtain f where f: "first_mask (tmask t) (freeList s) = Some f"
      "case f of None \<Rightarrow> \<forall>c \<in> set (freeList s). \<not> tmask t ! unat c | Some c \<Rightarrow> c \<in> set (freeList s) \<and> tmask t ! unat c" by auto
    show ?thesis
    proof (cases f)
      case (Some c)
      then have c: "c \<in> set (freeList s)" "tmask t ! unat c" using f(2) by simp_all
      from take [OF c(1)] obtain s' where "freeList_remove s c = Some s'" "cur (contexts s') c = None"
        "\<not> run_on (threads s) (contexts s) c" "sinv cfg s' {c} Y" "only_out s s'" by blast
      then show ?thesis using t t1 tn len no1 f(1) Some c fl [of c] by (simp add: schedThread_def)
    next
      case None
      have out: "\<exists>u. threads s q = Some u \<and> tstate u = TH_OUT \<and> unat (tcid u) < length (tmask t) \<and> q \<noteq> p" if "q \<in> set (outQueue s)" for q
      proof -
        have "qst (threads s) q = Some TH_OUT" using qi that by (simp add: q_ok_def)
        then obtain u where u: "threads s q = Some u" "tstate u = TH_OUT" by (auto simp: qst_def)
        then show ?thesis using sinvD(2) [OF i] t t1 by (auto simp: thr_ok_def thr1_def)
      qed
      then have "\<exists>u. threads s q = Some u \<and> unat (tcid u) < length (tmask t)" if "q \<in> set (outQueue s)" for q using that by blast
      from first_out_ok [OF this] obtain g where g: "first_out s (tmask t) (outQueue s) = Some g"
        "case g of None \<Rightarrow> \<forall>q \<in> set (outQueue s). \<forall>u. threads s q = Some u \<longrightarrow> \<not> tmask t ! unat (tcid u)
          | Some q \<Rightarrow> q \<in> set (outQueue s) \<and> (\<exists>u. threads s q = Some u \<and> tmask t ! unat (tcid u))" by auto
      show ?thesis
      proof (cases g)
        case None2: None
        have "run_on (threads s) (contexts s) c" if c: "unat c < ?N" "tmask t ! unat c" for c
        proof (cases "cur (contexts s) c")
          case None
          then show ?thesis using fl [of c] c f(2) \<open>f = None\<close> by auto
        next
          case (Some q)
          then obtain u where u: "threads s q = Some u" "tcid u = c" "tstate u \<in> {TH_RUNNING, TH_OUT}"
            using ho [OF c(1)] by (auto simp: holds_ctx_def)
          have "tstate u \<noteq> TH_OUT"
          proof
            assume o: "tstate u = TH_OUT"
            then have "q \<noteq> p" using u(1) t by auto
            then have "q \<in> set (outQueue s)" using qi u(1) o Y by (auto simp: q_ok_def qst_def)
            then show False using g(2) None2 u c by auto
          qed
          then show ?thesis using Some u c len by (simp add: run_on_def qst_def)
        qed
        then show ?thesis using t t1 tn len no1 f(1) None g(1) None2 by (simp add: schedThread_def)
      next
        case (Some q)
        then have q: "q \<in> set (outQueue s)" using g(2) by simp
        from out [OF q] obtain u where u: "threads s q = Some u" "tstate u = TH_OUT" "unat (tcid u) < length (tmask t)" "q \<noteq> p" by blast
        have um: "tmask t ! unat (tcid u)" using g(2) Some u(1) by auto
        let ?s1 = "s\<lparr>outQueue := remove1 q (outQueue s)\<rparr>"
        have r: "outQueue_remove s q = Some ?s1" using q by (simp add: outQueue_remove_def q_remove_def)
        have d: "distinct (outQueue s)" "qst (threads s) q = Some TH_OUT" using qi u by (auto simp: q_ok_def qst_def)
        have "q_ok (threads s) (runQueue s) (remove1 q (outQueue s)) (sleepQueue s) (insert q Y)"
          using qi d unfolding q_ok_def by (auto simp: set_remove1_eq [OF d(1)])
        moreover have "thr_ok ?N (threads s) (fakeLeaves s) (curPhase s) (insert q Y)" by (rule thr_ok_mono [OF sinvD(2) [OF i]]) auto
        ultimately have i1: "sinv cfg ?s1 {} (insert q Y)" using i unfolding sinv_def by simp
        have u1: "handoffThread u = None" "\<not> markedForSleep u" "fakeLeave u = None"
          using not_running_plain [OF i u(1)] u(2) by simp_all
        have Yq: "insert q Y - {q} = Y" using Y u(4) by auto
        let ?s2 = "logCall (CoreSwitch (tcid u) (- 1)) (?s1\<lparr>threads := (threads s)(q \<mapsto> u\<lparr>tstate := TH_BLOCKED\<rparr>),
          contexts := (contexts s)[unat (tcid u) := \<lparr>cstate = IDLE, curThread = None\<rparr>], scheduledThreads := scheduledThreads s - 1\<rparr>)"
        have ds: "deschedule ?s1 q (tcid u) TH_BLOCKED = Some ?s2 \<and> sinv cfg ?s2 {tcid u} Y"
          using deschedule_keeps [OF i1, of q u "tcid u" TH_BLOCKED Y] u u1 Yq by simp
        have cn: "unat (tcid u) < ?N" using u(3) t1 by simp
        have cq: "cur (contexts s) (tcid u) = Some q" using ho [OF cn] u by (simp add: holds_ctx_def)
        have "run_on (threads ?s2) (contexts ?s2) d = run_on (threads s) (contexts s) d" for d
        proof (cases "d = tcid u")
          case True
          then show ?thesis using cn len cq d(2) by (simp add: run_on_def cur_upd)
        next
          case False
          have "cur (contexts s) d \<noteq> Some q \<or> \<not> unat d < ?N" using ho [of d q] u False by (auto simp: holds_ctx_def)
          then show ?thesis using False cn len by (auto simp: run_on_def cur_upd)
        qed
        then have oo: "only_out s ?s2" using u by (simp add: only_out_def)
        have nr: "\<not> run_on (threads s) (contexts s) (tcid u)" using cq d(2) by (simp add: run_on_def)
        have "schedThread cfg s p = Some (?s2, Some (tcid u))"
          using t t1 tn len no1 f(1) None g(1) Some u(1) r ds by (simp add: schedThread_def)
        then show ?thesis using ds cn um oo nr len by (simp add: cur_upd)
      qed
    qed
  qed
qed

section \<open>The end of a phase\<close>

text \<open>What the two loops do to the threads: wake those in \<open>W\<close>, and give the victims in the domain of \<open>H\<close> their successors.\<close>

definition wake_ths :: "nat set \<Rightarrow> ths \<Rightarrow> ths" where
  "wake_ths W ths = (\<lambda>p. if p \<in> W then map_option (\<lambda>t. t\<lparr>tstate := TH_BLOCKED, needsJoin := False, tfutexWord := 0\<rparr>) (ths p) else ths p)"

fun hand_th :: "nat option \<Rightarrow> ThreadInfo \<Rightarrow> ThreadInfo" where
  "hand_th None t = t"
| "hand_th (Some p) t = t\<lparr>handoffThread := Some p\<rparr>"

definition hand_ths :: "(nat \<Rightarrow> nat option) \<Rightarrow> ths \<Rightarrow> ths" where
  "hand_ths H ths = (\<lambda>v. map_option (hand_th (H v)) (ths v))"

lemma hand_th_simps [simp]:
  "tstate (hand_th h t) = tstate t" "tcid (hand_th h t) = tcid t" "tmask (hand_th h t) = tmask t"
  "tfutexWord (hand_th h t) = tfutexWord t" "markedForSleep (hand_th h t) = markedForSleep t"
  "fakeLeave (hand_th h t) = fakeLeave t" "wakeupPhase (hand_th h t) = wakeupPhase t" "gid (hand_th h t) = gid t"
  "handoffThread (hand_th h t) = (case h of None \<Rightarrow> handoffThread t | Some p \<Rightarrow> Some p)"
  by (cases h; simp)+

lemma hand_ths_None: "hand_ths Map.empty ths = ths"
proof
  fix p
  show "hand_ths Map.empty ths p = ths p" by (cases "ths p") (simp_all add: hand_ths_def)
qed

lemma wakeSleepers_eff:
  "distinct q \<Longrightarrow> \<forall>p \<in> set q. \<exists>t. threads s p = Some t \<and> tfutexWord t = 1 \<Longrightarrow> sorted (map (wph (threads s)) q) \<Longrightarrow>
   \<forall>p \<in> set q. curPhase s \<le> wph (threads s) p \<Longrightarrow> sleepQueue s = q \<Longrightarrow>
   wakeSleepers s q = Some (s\<lparr>threads := wake_ths {p \<in> set q. wph (threads s) p = curPhase s} (threads s),
      sleepQueue := filter (\<lambda>p. wph (threads s) p \<noteq> curPhase s) q\<rparr>)"
proof (induction q arbitrary: s)
  case Nil
  then show ?case by (simp add: wake_ths_def)
next
  case (Cons p q)
  from Cons.prems(2) obtain t where t: "threads s p = Some t" "tfutexWord t = 1" by auto
  have pq: "p \<notin> set q" "distinct q" using Cons.prems(1) by simp_all
  show ?case
  proof (cases "wakeupPhase t \<le> curPhase s")
    case False
    have "wph (threads s) p = wakeupPhase t" using t by (simp add: wph_def)
    then have all: "\<forall>x \<in> set (p # q). wph (threads s) x \<noteq> curPhase s" using Cons.prems(3) False by fastforce
    then have none: "{x \<in> set (p # q). wph (threads s) x = curPhase s} = {}" by blast
    have keep: "filter (\<lambda>x. wph (threads s) x \<noteq> curPhase s) (p # q) = sleepQueue s" using all Cons.prems(5) by (simp add: filter_id_conv)
    have "wakeSleepers s (p # q) = Some s" using t False by simp
    then show ?thesis unfolding none keep by (simp add: wake_ths_def)
  next
    case True
    have e: "wakeupPhase t = curPhase s" using Cons.prems(4) t True by (auto simp: wph_def)
    let ?t = "t\<lparr>tstate := TH_BLOCKED, needsJoin := False, tfutexWord := 0\<rparr>"
    let ?s = "s\<lparr>threads := (threads s)(p \<mapsto> ?t), sleepQueue := q\<rparr>"
    have w: "wph (threads ?s) x = wph (threads s) x" for x using t by (simp add: wph_def)
    have "wakeSleepers ?s q = Some (?s\<lparr>threads := wake_ths {x \<in> set q. wph (threads ?s) x = curPhase ?s} (threads ?s),
      sleepQueue := filter (\<lambda>x. wph (threads ?s) x \<noteq> curPhase ?s) q\<rparr>)"
    proof (rule Cons.IH [OF pq(2)])
      show "\<forall>x \<in> set q. \<exists>t. threads ?s x = Some t \<and> tfutexWord t = 1" using Cons.prems(2) pq(1) by auto
      show "sorted (map (wph (threads ?s)) q)" unfolding w using Cons.prems(3) by simp
      show "\<forall>x \<in> set q. curPhase ?s \<le> wph (threads ?s) x" unfolding w using Cons.prems(4) by simp
    qed simp
    moreover have "wake_ths {x \<in> set q. wph (threads s) x = curPhase s} ((threads s)(p \<mapsto> ?t))
        = wake_ths {x \<in> set (p # q). wph (threads s) x = curPhase s} (threads s)"
      using t e pq(1) by (auto simp: wake_ths_def fun_eq_iff wph_def)
    moreover have "filter (\<lambda>x. wph (threads s) x \<noteq> curPhase s) (p # q) = filter (\<lambda>x. wph (threads s) x \<noteq> curPhase s) q"
      using t e by (simp add: wph_def)
    moreover have "wakeSleepers s (p # q) = wakeSleepers ?s q" using t e by (simp add: wakeup_def)
    ultimately show ?thesis unfolding w by simp
  qed
qed

lemma hand_ths_upd:
  assumes "ths v = Some t" "H v = None"
  shows "hand_ths H (ths(v \<mapsto> t\<lparr>handoffThread := Some p\<rparr>)) = hand_ths (H(v \<mapsto> p)) ths"
  using assms by (auto simp: hand_ths_def fun_eq_iff split: option.splits)

definition tick_pre :: "'g Sched \<Rightarrow> nat list \<Rightarrow> u32 list \<Rightarrow> bool" where
  "tick_pre s ps avail \<longleftrightarrow> distinct ps \<and> set ps \<subseteq> set (runQueue s) \<and> distinct (runQueue s) \<and> distinct avail
     \<and> (\<forall>c \<in> set avail. unat c < length (contexts s))
     \<and> (\<forall>p \<in> set ps. \<exists>t. threads s p = Some t \<and> tstate t = TH_QUEUED \<and> length (tmask t) = length (contexts s)
          \<and> (\<forall>c \<in> set avail. tmask t ! unat c \<longrightarrow> run_on (threads s) (contexts s) c))
     \<and> inj_on (cur (contexts s)) {c \<in> set avail. cur (contexts s) c \<noteq> None}"

definition tick_hands :: "'g Sched \<Rightarrow> nat list \<Rightarrow> u32 list \<Rightarrow> (nat \<Rightarrow> nat option) \<Rightarrow> bool" where
  "tick_hands s ps avail H \<longleftrightarrow> ran H \<subseteq> set ps \<and> inj_on H (dom H)
     \<and> (\<forall>v p. H v = Some p \<longrightarrow> qst (threads s) v = Some TH_RUNNING
          \<and> (\<exists>c \<in> set avail. cur (contexts s) c = Some v \<and> tmask (the (threads s p)) ! unat c))"

lemma tickLoop_eff:
  "tick_pre s ps avail \<Longrightarrow>
   \<exists>H. tickLoop s ps avail = Some (s\<lparr>threads := hand_ths H (threads s), runQueue := filter (\<lambda>p. p \<notin> ran H) (runQueue s)\<rparr>)
     \<and> tick_hands s ps avail H"
proof (induction ps arbitrary: s avail)
  case Nil
  show ?case by (intro exI [of _ Map.empty]) (simp add: tick_hands_def hand_ths_None)
next
  case (Cons p ps)
  note pre = Cons.prems [unfolded tick_pre_def]
  from pre obtain t where t: "threads s p = Some t" "tstate t = TH_QUEUED" "length (tmask t) = length (contexts s)"
    "\<forall>c \<in> set avail. tmask t ! unat c \<longrightarrow> run_on (threads s) (contexts s) c" by auto
  show ?case
  proof (cases "avail = []")
    case True
    show ?thesis using True by (intro exI [of _ Map.empty]) (simp add: tick_hands_def hand_ths_None)
  next
    case False
    have "unat c < length (tmask t)" if "c \<in> set avail" for c using pre that t(3) by simp
    from first_mask_ok [OF this] obtain f where f: "first_mask (tmask t) avail = Some f"
      "case f of None \<Rightarrow> \<forall>c \<in> set avail. \<not> tmask t ! unat c | Some c \<Rightarrow> c \<in> set avail \<and> tmask t ! unat c" by auto
    show ?thesis
    proof (cases f)
      case None
      have "tick_pre s ps avail" using Cons.prems by (simp add: tick_pre_def)
      from Cons.IH [OF this] obtain H where H: "tickLoop s ps avail = Some (s\<lparr>threads := hand_ths H (threads s),
            runQueue := filter (\<lambda>p. p \<notin> ran H) (runQueue s)\<rparr>)" "tick_hands s ps avail H" by blast
      have "tickLoop s (p # ps) avail = tickLoop s ps avail" using False t(1) f(1) None by simp
      then show ?thesis using H by (intro exI [of _ H]) (auto simp: tick_hands_def)
    next
      case (Some c)
      then have c: "c \<in> set avail" "tmask t ! unat c" using f(2) by simp_all
      then have cl: "unat c < length (contexts s)" using pre by simp
      have "run_on (threads s) (contexts s) c" using t(4) c by simp
      then obtain v tv where v: "cur (contexts s) c = Some v" "threads s v = Some tv" "tstate tv = TH_RUNNING"
        by (auto simp: run_on_def qst_def)
      have vp: "v \<noteq> x" if "x \<in> set (p # ps)" for x using pre that v by fastforce
      let ?s = "s\<lparr>threads := (threads s)(v \<mapsto> tv\<lparr>handoffThread := Some p\<rparr>), runQueue := remove1 p (runQueue s)\<rparr>"
      have rm: "p \<in> set (runQueue s)" "remove1 p (runQueue s) = filter (\<lambda>x. x \<noteq> p) (runQueue s)"
        using pre by (auto simp: distinct_remove1_removeAll removeAll_filter_not_eq intro!: filter_cong)
      have qs: "qst (threads ?s) = qst (threads s)" using v by (auto simp: fun_eq_iff qst_def)
      have ro: "run_on (threads ?s) (contexts ?s) d = run_on (threads s) (contexts s) d" for d unfolding run_on_def qs by simp
      have same: "threads ?s x = threads s x" if "x \<in> set (p # ps)" for x using vp [OF that] by auto
      have step: "tickLoop s (p # ps) avail = tickLoop ?s ps (remove1 c avail)"
        using False t(1) f(1) Some cl v rm(1) by (simp add: cur_def runQueue_remove_def q_remove_def)
      have av: "set (remove1 c avail) = set avail - {c}" using pre by simp
      have inj: "inj_on (cur (contexts s)) {c \<in> set avail. cur (contexts s) c \<noteq> None}" using pre by blast
      then have "inj_on (cur (contexts s)) {d \<in> set avail - {c}. cur (contexts s) d \<noteq> None}" by (rule inj_on_subset) auto
      then have "tick_pre ?s ps (remove1 c avail)" unfolding tick_pre_def ro av using pre same by (auto simp: rm(2))
      from Cons.IH [OF this] obtain H where H: "tickLoop ?s ps (remove1 c avail) = Some (?s\<lparr>threads := hand_ths H (threads ?s),
            runQueue := filter (\<lambda>p. p \<notin> ran H) (runQueue ?s)\<rparr>)" and th: "tick_hands ?s ps (remove1 c avail) H" by blast
      note hd = th [unfolded tick_hands_def qs av]
      have Hv: "H v = None"
      proof (rule ccontr)
        assume "H v \<noteq> None"
        then obtain d where "d \<in> set avail" "d \<noteq> c" "cur (contexts s) d = Some v" using hd by fastforce
        then show False using inj_onD [OF inj, of c d] c v by simp
      qed
      have pH: "p \<notin> ran H" using hd pre by auto
      have "hand_ths H (threads ?s) = hand_ths (H(v \<mapsto> p)) (threads s)" using hand_ths_upd [of "threads s" v tv H p] v Hv by simp
      moreover have rH: "ran (H(v \<mapsto> p)) = insert p (ran H)" using Hv by simp
      moreover have "filter (\<lambda>x. x \<notin> ran H) (remove1 p (runQueue s)) = filter (\<lambda>x. x \<notin> insert p (ran H)) (runQueue s)"
        unfolding rm(2) filter_filter by (rule filter_cong) auto
      ultimately have run: "tickLoop s (p # ps) avail = Some (s\<lparr>threads := hand_ths (H(v \<mapsto> p)) (threads s),
          runQueue := filter (\<lambda>x. x \<notin> ran (H(v \<mapsto> p))) (runQueue s)\<rparr>)" unfolding step H(1) by simp
      have "qst (threads s) x = Some TH_RUNNING \<and> (\<exists>d \<in> set avail. cur (contexts s) d = Some x \<and> tmask (the (threads s y)) ! unat d)"
        if "(H(v \<mapsto> p)) x = Some y" for x y
      proof (cases "x = v")
        case True
        then show ?thesis using that v t(1) c by (auto simp: qst_def)
      next
        case False
        then have hx: "H x = Some y" using that by simp
        then have "y \<in> set ps" using hd by (auto simp: ran_def)
        then have y: "threads ?s y = threads s y" by (intro same) simp
        have "qst (threads s) x = Some TH_RUNNING \<and> (\<exists>d \<in> set avail - {c}. cur (contexts ?s) d = Some x \<and> tmask (the (threads ?s y)) ! unat d)"
          using hd hx by blast
        then show ?thesis unfolding y by auto
      qed
      moreover have "inj_on (H(v \<mapsto> p)) (dom (H(v \<mapsto> p)))"
        using hd pH Hv by (auto simp: inj_on_def ran_def)
      ultimately have "tick_hands s (p # ps) avail (H(v \<mapsto> p))" using hd unfolding tick_hands_def rH by auto
      then show ?thesis using run by blast
    qed
  qed
qed

definition rand_cfg :: "'g SchedCfg \<Rightarrow> bool" where
  "rand_cfg cfg \<longleftrightarrow> (\<forall>g i. \<exists>g' j. s_randInt cfg g i = Some (g', j) \<and> j \<le> i)"

lemma shuffleAvail:
  assumes r: "rand_cfg cfg" and N: "N \<le> MAX_THREADS"
  shows "\<exists>g v. run_all (swapAvail cfg) (g0, map of_nat [0..<N]) (rev [1..<N]) = Some (g, v)
    \<and> distinct v \<and> set v = {c :: u32. unat c < N}"
proof -
  have un: "unat (of_nat n :: u32) = n" if "n < N" for n using that N by (simp add: unat_of_nat MAX_THREADS_def)
  let ?I = "\<lambda>(_ :: nat) (ra :: 'a \<times> u32 list). length (snd ra) = N \<and> distinct (snd ra) \<and> set (snd ra) = {c :: u32. unat c < N}"
  have "\<exists>ra'. swapAvail cfg ra (rev [1..<N] ! k) = Some ra' \<and> ?I (Suc k) ra'" if k: "k < length (rev [1..<N])" and I: "?I k ra" for k ra
  proof -
    have "rev [1..<N] ! k \<in> set (rev [1..<N])" using k by (rule nth_mem)
    then have n: "rev [1..<N] ! k < N" by simp
    obtain g' j where j: "s_randInt cfg (fst ra) (of_nat (rev [1..<N] ! k)) = Some (g', j)" "j \<le> of_nat (rev [1..<N] ! k)"
      using r unfolding rand_cfg_def by blast
    have jn: "unat j < N" using j(2) un [OF n] n by (simp add: word_le_nat_alt)
    let ?n = "rev [1..<N] ! k"
    have "swapAvail cfg ra ?n = Some (g', (snd ra)[?n := snd ra ! unat j, unat j := snd ra ! ?n])"
      using j(1) un [OF n] n jn I by (simp add: swapAvail_def Let_def)
    then show ?thesis using I n jn by (simp add: set_swap distinct_swap)
  qed
  moreover have "?I 0 (g0, map of_nat [0..<N])"
  proof -
    have "inj_on (of_nat :: nat \<Rightarrow> u32) {0..<N}" by (rule inj_onI) (metis atLeastLessThan_iff un)
    moreover have "of_nat ` {0..<N} = {c :: u32. unat c < N}"
    proof -
      have "c \<in> of_nat ` {0..<N}" if "unat c < N" for c :: u32 using that by (intro image_eqI [of _ _ "unat c"]) simp_all
      then show ?thesis using un by auto
    qed
    ultimately show ?thesis by (simp add: distinct_map)
  qed
  ultimately have "\<exists>ra'. run_all (swapAvail cfg) (g0, map of_nat [0..<N]) (rev [1..<N]) = Some ra' \<and> ?I (length (rev [1..<N])) ra'"
    by (rule run_all_nth) blast+
  then show ?thesis by force
qed

definition sinvp :: "'g SchedCfg \<Rightarrow> 'g Sched \<Rightarrow> u64 \<Rightarrow> bool" where
  "sinvp cfg s ph \<longleftrightarrow>
     ctx_ok (unat (numCores cfg)) (threads s) (contexts s) (freeList s) (scheduledThreads s) {}
     \<and> thr_ok (unat (numCores cfg)) (threads s) (fakeLeaves s) ph {}
     \<and> q_ok (threads s) (runQueue s) (outQueue s) (sleepQueue s) {} \<and> hand_ok (threads s)
     \<and> work_ok (threads s) (contexts s) (runQueue s) {} \<and> distinct (fakeLeaves s)"

definition quiet :: "'g Sched \<Rightarrow> bool" where
  "quiet s \<longleftrightarrow> (\<forall>p t. threads s p = Some t \<and> tstate t = TH_RUNNING \<longrightarrow>
     handoffThread t = None \<and> \<not> markedForSleep t \<and> fakeLeave t = None)"

definition same_running :: "'g Sched \<Rightarrow> 'g Sched \<Rightarrow> bool" where
  "same_running s s' \<longleftrightarrow> (\<forall>c. run_on (threads s') (contexts s') c = run_on (threads s) (contexts s) c)
     \<and> (\<forall>p t'. threads s' p = Some t' \<longrightarrow> (\<exists>t. threads s p = Some t \<and> gid t' = gid t \<and> tcid t' = tcid t
          \<and> markedForSleep t' = markedForSleep t \<and> fakeLeave t' = fakeLeave t \<and> wakeupPhase t' = wakeupPhase t
          \<and> (tstate t' = tstate t \<or> tstate t = TH_SLEEPING \<and> tstate t' = TH_BLOCKED)))
     \<and> (\<forall>p. threads s' p = None \<longrightarrow> threads s p = None) \<and> gidMap s' = gidMap s \<and> fakeLeaves s' = fakeLeaves s"

lemma same_running_trans:
  assumes a: "same_running s s1" and b: "same_running s1 s2"
  shows "same_running s s2"
  unfolding same_running_def
proof (intro conjI allI impI)
  show "run_on (threads s2) (contexts s2) c = run_on (threads s) (contexts s) c" for c using a b by (simp add: same_running_def)
  show "gidMap s2 = gidMap s" "fakeLeaves s2 = fakeLeaves s" using a b by (simp_all add: same_running_def)
  show "threads s p = None" if "threads s2 p = None" for p using a b that by (simp add: same_running_def)
next
  fix p t2
  assume "threads s2 p = Some t2"
  then obtain t1 where t1: "threads s1 p = Some t1" "gid t2 = gid t1" "tcid t2 = tcid t1" "markedForSleep t2 = markedForSleep t1"
    "fakeLeave t2 = fakeLeave t1" "wakeupPhase t2 = wakeupPhase t1" "tstate t2 = tstate t1 \<or> tstate t1 = TH_SLEEPING \<and> tstate t2 = TH_BLOCKED" using b unfolding same_running_def by blast
  moreover from t1(1) obtain t where "threads s p = Some t" "gid t1 = gid t" "tcid t1 = tcid t" "markedForSleep t1 = markedForSleep t"
    "fakeLeave t1 = fakeLeave t" "wakeupPhase t1 = wakeupPhase t" "tstate t1 = tstate t \<or> tstate t = TH_SLEEPING \<and> tstate t1 = TH_BLOCKED" using a unfolding same_running_def by blast
  ultimately show "\<exists>t. threads s p = Some t \<and> gid t2 = gid t \<and> tcid t2 = tcid t \<and> markedForSleep t2 = markedForSleep t
      \<and> fakeLeave t2 = fakeLeave t \<and> wakeupPhase t2 = wakeupPhase t \<and> (tstate t2 = tstate t \<or> tstate t = TH_SLEEPING \<and> tstate t2 = TH_BLOCKED)" by auto
qed

lemma used_context:
  assumes "ctx_ok N ths cs fl sn X" "unat c < N" "cur cs c = Some p"
  shows "\<exists>t. ths p = Some t \<and> tcid t = c \<and> tstate t \<in> {TH_RUNNING, TH_OUT}"
  using assms unfolding ctx_ok_def holds_ctx_def by blast

lemma used_iff: "ctx_ok N ths cs fl sn X \<Longrightarrow> unat c < N \<Longrightarrow> cstate (cs ! unat c) = USED \<longleftrightarrow> cur cs c \<noteq> None"
  unfolding ctx_ok_def by blast

lemma printState_ok:
  assumes c: "ctx_ok N (threads s) (contexts s) fl sn X"
  shows "printState s = Some ()"
proof -
  have len: "length (contexts s) = N" "N \<le> MAX_THREADS" using c by (simp_all add: ctx_ok_def)
  have "case curThread ctx of None \<Rightarrow> False
      | Some p \<Rightarrow> (case threads s p of None \<Rightarrow> False | Some t \<Rightarrow> tstate t \<in> {TH_RUNNING, TH_OUT})"
    if x: "ctx \<in> set (contexts s)" "cstate ctx = USED" for ctx
  proof -
    from x(1) obtain i where i: "i < N" "contexts s ! i = ctx" using len by (auto simp: in_set_conv_nth)
    then have un: "unat (of_nat i :: u32) = i" using len(2) by (simp add: unat_of_nat MAX_THREADS_def)
    have "cur (contexts s) (of_nat i) \<noteq> None" using used_iff [OF c, of "of_nat i"] i un x(2) by simp
    then obtain p where p: "cur (contexts s) (of_nat i) = Some p" by blast
    then have "curThread ctx = Some p" using i un by (simp add: cur_def)
    then show ?thesis using used_context [OF c _ p] un i by auto
  qed
  then show ?thesis by (simp add: printState_def)
qed

lemma hand_ths_same:
  "qst (hand_ths H ths) = qst ths" "holds_ctx (hand_ths H ths) = holds_ctx ths" "run_on (hand_ths H ths) = run_on ths"
  "ths p \<noteq> None \<Longrightarrow> wph (hand_ths H ths) p = wph ths p" "hand_ths H ths p = None \<longleftrightarrow> ths p = None"
proof -
  show q: "qst (hand_ths H ths) = qst ths" by (simp add: qst_def hand_ths_def fun_eq_iff option.map_comp comp_def)
  show "holds_ctx (hand_ths H ths) = holds_ctx ths" by (auto simp: holds_ctx_def hand_ths_def fun_eq_iff)
  show "run_on (hand_ths H ths) = run_on ths" by (simp add: run_on_def q fun_eq_iff)
  show "ths p \<noteq> None \<Longrightarrow> wph (hand_ths H ths) p = wph ths p" by (auto simp: wph_def hand_ths_def)
  show "hand_ths H ths p = None \<longleftrightarrow> ths p = None" by (simp add: hand_ths_def)
qed

text \<open>The end of a quantum: every core gets at most one waiting thread, which is taken off the run queue.\<close>

lemma schedTick_eff:
  assumes i: "sinvp cfg s ph" and r: "rand_cfg cfg"
  shows "\<exists>g H v. schedTick cfg s = Some (s\<lparr>srnd := g, threads := hand_ths H (threads s), runQueue := filter (\<lambda>p. p \<notin> ran H) (runQueue s)\<rparr>)
    \<and> tick_hands s (runQueue s) v H \<and> set v = {c :: u32. unat c < unat (numCores cfg)}"
proof -
  let ?N = "unat (numCores cfg)"
  have c: "ctx_ok ?N (threads s) (contexts s) (freeList s) (scheduledThreads s) {}"
    and q: "q_ok (threads s) (runQueue s) (outQueue s) (sleepQueue s) {}" and w: "work_ok (threads s) (contexts s) (runQueue s) {}"
    and t: "thr_ok ?N (threads s) (fakeLeaves s) ph {}" using i by (simp_all add: sinvp_def)
  have len: "length (contexts s) = ?N" "?N \<le> MAX_THREADS" using c by (simp_all add: ctx_ok_def)
  from shuffleAvail [OF r len(2), of "srnd s"] obtain g v where v: "distinct v" "set v = {c :: u32. unat c < ?N}"
    "run_all (swapAvail cfg) (srnd s, map of_nat [0..<?N]) (rev [1..<?N]) = Some (g, v)" by blast
  let ?s = "s\<lparr>srnd := g\<rparr>"
  have "inj_on (cur (contexts s)) {c \<in> set v. cur (contexts s) c \<noteq> None}"
  proof (rule inj_onI)
    fix d e
    assume "d \<in> {c \<in> set v. cur (contexts s) c \<noteq> None}" "e \<in> {c \<in> set v. cur (contexts s) c \<noteq> None}" "cur (contexts s) d = cur (contexts s) e"
    then obtain p where "unat d < ?N" "unat e < ?N" "cur (contexts s) d = Some p" "cur (contexts s) e = Some p" using v(2) by auto
    then show "d = e" using used_context [OF c, of d p] used_context [OF c, of e p] by auto
  qed
  moreover have "\<exists>t. threads s p = Some t \<and> tstate t = TH_QUEUED \<and> length (tmask t) = length (contexts s)
      \<and> (\<forall>c \<in> set v. tmask t ! unat c \<longrightarrow> run_on (threads s) (contexts s) c)" if p: "p \<in> set (runQueue s)" for p
  proof -
    have "qst (threads s) p = Some TH_QUEUED" using q p by (simp add: q_ok_def)
    then obtain u where u: "threads s p = Some u" "tstate u = TH_QUEUED" by (auto simp: qst_def)
    then have "length (tmask u) = length (contexts s)" using t len by (auto simp: thr_ok_def thr1_def)
    then show ?thesis using u work_okD [OF w p u(1)] v(2) len by auto
  qed
  moreover have "distinct (runQueue s)" using q by (simp add: q_ok_def)
  ultimately have "tick_pre ?s (runQueue ?s) v" using v(1,2) len unfolding tick_pre_def by simp
  from tickLoop_eff [OF this] obtain H where H: "tickLoop ?s (runQueue s) v = Some (?s\<lparr>threads := hand_ths H (threads s),
        runQueue := filter (\<lambda>p. p \<notin> ran H) (runQueue s)\<rparr>)" "tick_hands s (runQueue s) v H" by (auto simp: tick_hands_def)
  let ?s' = "?s\<lparr>threads := hand_ths H (threads s), runQueue := filter (\<lambda>p. p \<notin> ran H) (runQueue s)\<rparr>"
  have "ctx_ok ?N (threads ?s') (contexts ?s') (freeList s) (scheduledThreads s) {}" using c by (simp add: ctx_ok_def hand_ths_same)
  from printState_ok [OF this] have "schedTick cfg s = Some ?s'" using v(3) H(1) by (simp add: schedTick_def)
  then show ?thesis using H(2) v(2) by auto
qed

lemma tick_inv:
  assumes i: "sinvp cfg s ph" and h: "tick_hands s (runQueue s) v H" "set v = {c :: u32. unat c < unat (numCores cfg)}" and q: "quiet s"
  shows "sinvp cfg (s\<lparr>srnd := g, threads := hand_ths H (threads s), runQueue := filter (\<lambda>p. p \<notin> ran H) (runQueue s)\<rparr>) ph"
proof -
  let ?N = "unat (numCores cfg)" and ?ths = "hand_ths H (threads s)"
  have c: "ctx_ok ?N (threads s) (contexts s) (freeList s) (scheduledThreads s) {}"
    and qi: "q_ok (threads s) (runQueue s) (outQueue s) (sleepQueue s) {}" and w: "work_ok (threads s) (contexts s) (runQueue s) {}"
    and t: "thr_ok ?N (threads s) (fakeLeaves s) ph {}" and hi: "hand_ok (threads s)" and d: "distinct (fakeLeaves s)"
    using i by (simp_all add: sinvp_def)
  have Hv: "\<exists>t. threads s x = Some t \<and> tstate t = TH_RUNNING \<and> handoffThread t = None \<and> \<not> markedForSleep t \<and> fakeLeave t = None
      \<and> y \<in> set (runQueue s) \<and> tmask (the (threads s y)) ! unat (tcid t)" if x: "H x = Some y" for x y
  proof -
    from h(1) x have r: "qst (threads s) x = Some TH_RUNNING"
      "\<exists>c \<in> set v. cur (contexts s) c = Some x \<and> tmask (the (threads s y)) ! unat c" "y \<in> set (runQueue s)"
      by (auto simp: tick_hands_def ran_def)
    then obtain e where e: "unat e < ?N" "cur (contexts s) e = Some x" "tmask (the (threads s y)) ! unat e" using h(2) by auto
    from used_context [OF c e(1,2)] obtain u where u: "threads s x = Some u" "tcid u = e" by blast
    then have "tstate u = TH_RUNNING" using r(1) by (simp add: qst_def)
    then show ?thesis using u e r(3) q by (auto simp: quiet_def)
  qed
  have none: "handoffThread u = None" if "threads s x = Some u" for x u
    using hand_none [OF hi that] q that unfolding quiet_def by (cases "tstate u = TH_RUNNING") auto
  have np: "\<not> pend (threads s) x" for x using none by (auto simp: pend_def)
  have hn: "(\<exists>u. ?ths x = Some u \<and> handoffThread u = Some y) \<longleftrightarrow> H x = Some y" for x y
  proof (cases "H x")
    case None
    then show ?thesis using none by (auto simp: hand_ths_def)
  next
    case (Some z)
    then show ?thesis using Hv [OF Some] by (auto simp: hand_ths_def)
  qed
  have pe: "pend ?ths y \<longleftrightarrow> y \<in> ran H" for y using hn by (auto simp: pend_def ran_def)
  have "q_ok ?ths (filter (\<lambda>p. p \<notin> ran H) (runQueue s)) (outQueue s) (sleepQueue s) {}"
    using qi np unfolding q_ok_def pe hand_ths_same by auto
  moreover have "ctx_ok ?N ?ths (contexts s) (freeList s) (scheduledThreads s) {}" using c by (simp add: ctx_ok_def hand_ths_same)
  moreover have "thr_ok ?N ?ths (fakeLeaves s) ph {}"
    unfolding thr_ok_def
  proof (intro allI impI)
    fix x u'
    assume "?ths x = Some u'"
    then obtain u where u: "threads s x = Some u" "u' = hand_th (H x) u" by (auto simp: hand_ths_def)
    have "thr1 ?N ph (x \<in> {}) u" "fakeLeave u \<noteq> None \<longleftrightarrow> x \<in> set (fakeLeaves s)" using t u(1) unfolding thr_ok_def by blast+
    moreover have "H x = Some y \<Longrightarrow> \<not> markedForSleep u \<and> fakeLeave u = None" for y using Hv [of x y] u(1) by auto
    ultimately show "thr1 ?N ph (x \<in> {}) u' \<and> (fakeLeave u' \<noteq> None \<longleftrightarrow> x \<in> set (fakeLeaves s))"
      unfolding u(2) by (cases "H x") (auto simp: thr1_def)
  qed
  moreover have "hand_ok ?ths"
    unfolding hand_ok_def
  proof (intro allI impI)
    fix x u' y
    assume a: "?ths x = Some u' \<and> handoffThread u' = Some y"
    then have Hx: "H x = Some y" using hn by blast
    from Hv [OF Hx] obtain u where u: "threads s x = Some u" "tstate u = TH_RUNNING" "y \<in> set (runQueue s)"
      "tmask (the (threads s y)) ! unat (tcid u)" by blast
    have u': "u' = hand_th (H x) u" using a u(1) by (simp add: hand_ths_def)
    have "qst (threads s) y = Some TH_QUEUED" using qi u(3) by (simp add: q_ok_def)
    then obtain ty where ty: "threads s y = Some ty" "tstate ty = TH_QUEUED" by (auto simp: qst_def)
    have "x' = x" if "?ths x' = Some t' \<and> handoffThread t' = Some y" for x' t'
    proof -
      have "H x' = Some y" using hn that by blast
      then show ?thesis using h(1) Hx by (auto simp: tick_hands_def inj_on_def dom_def)
    qed
    moreover have "\<exists>tp. ?ths y = Some tp \<and> tstate tp = TH_QUEUED \<and> tmask tp ! unat (tcid u')"
      using ty u(4) u' by (simp add: hand_ths_def)
    ultimately show "tstate u' = TH_RUNNING \<and> (\<exists>tp. ?ths y = Some tp \<and> tstate tp = TH_QUEUED \<and> tmask tp ! unat (tcid u'))
      \<and> (\<forall>v' t'. ?ths v' = Some t' \<and> handoffThread t' = Some y \<longrightarrow> v' = x)" using u(2) u' by auto
  qed
  moreover have "work_ok ?ths (contexts s) (filter (\<lambda>p. p \<notin> ran H) (runQueue s)) {}"
    unfolding work_ok_def
  proof (intro ballI allI impI)
    fix x u' and e :: u32
    assume x: "x \<in> set (filter (\<lambda>p. p \<notin> ran H) (runQueue s))"
      and u: "?ths x = Some u' \<and> unat e < length (contexts s) \<and> tmask u' ! unat e \<and> e \<notin> {}"
    from u obtain u0 where "threads s x = Some u0" "tmask u' = tmask u0" by (auto simp: hand_ths_def)
    then show "run_on ?ths (contexts s) e" using work_okD [OF w, of x u0 e] x u by (simp add: hand_ths_same)
  qed
  ultimately show ?thesis using d by (simp add: sinvp_def)
qed

definition wake_th :: "ThreadInfo \<Rightarrow> ThreadInfo" where
  "wake_th t = t\<lparr>tstate := TH_BLOCKED, needsJoin := False, tfutexWord := 0\<rparr>"

lemma wake_ths_alt: "wake_ths W ths p = (if p \<in> W then map_option wake_th (ths p) else ths p)"
  by (simp add: wake_ths_def wake_th_def [abs_def])

lemma wake_th_simps [simp]:
  "tstate (wake_th t) = TH_BLOCKED" "tcid (wake_th t) = tcid t" "tmask (wake_th t) = tmask t" "tfutexWord (wake_th t) = 0"
  "markedForSleep (wake_th t) = markedForSleep t" "fakeLeave (wake_th t) = fakeLeave t" "wakeupPhase (wake_th t) = wakeupPhase t"
  "gid (wake_th t) = gid t" "handoffThread (wake_th t) = handoffThread t"
  by (simp_all add: wake_th_def)

lemma wake_ths_same:
  assumes W: "\<forall>p \<in> W. qst ths p = Some TH_SLEEPING"
  shows "qst (wake_ths W ths) p = (if p \<in> W then Some TH_BLOCKED else qst ths p)" "holds_ctx (wake_ths W ths) = holds_ctx ths"
    "run_on (wake_ths W ths) = run_on ths" "pend (wake_ths W ths) = pend ths" "wph (wake_ths W ths) p = wph ths p"
proof -
  show q: "qst (wake_ths W ths) p = (if p \<in> W then Some TH_BLOCKED else qst ths p)" for p
    using W by (auto simp: qst_def wake_ths_alt)
  show "holds_ctx (wake_ths W ths) = holds_ctx ths"
  proof (intro ext)
    fix p c
    show "holds_ctx (wake_ths W ths) p c = holds_ctx ths p c"
      using W by (cases "p \<in> W") (auto simp: holds_ctx_def wake_ths_alt qst_def)
  qed
  have "qst (wake_ths W ths) p = Some TH_RUNNING \<longleftrightarrow> qst ths p = Some TH_RUNNING" for p using q W by auto
  then show "run_on (wake_ths W ths) = run_on ths" by (simp add: run_on_def fun_eq_iff)
  have "Option.bind (wake_ths W ths v) handoffThread = Option.bind (ths v) handoffThread" for v
    by (cases "ths v") (auto simp: wake_ths_alt)
  then show "pend (wake_ths W ths) = pend ths" by (simp add: pend_bind fun_eq_iff)
  show "wph (wake_ths W ths) p = wph ths p" using W by (auto simp: wph_def wake_ths_alt qst_def)
qed

lemma hand_ok_wake:
  assumes h: "hand_ok ths" and W: "\<And>p. p \<in> W \<Longrightarrow> qst ths p = Some TH_SLEEPING"
  shows "hand_ok (wake_ths W ths)"
proof -
  have k: "wake_ths W ths v = Some t \<and> handoffThread t = Some p \<Longrightarrow> ths v = Some t" for v t p
  proof -
    assume a: "wake_ths W ths v = Some t \<and> handoffThread t = Some p"
    show "ths v = Some t"
    proof (cases "v \<in> W")
      case True
      then obtain u where u: "ths v = Some u" "t = wake_th u" using a by (auto simp: wake_ths_alt)
      then have "handoffThread u = None" using hand_none [OF h u(1)] W [OF True] by (simp add: qst_def)
      then show ?thesis using a u by simp
    next
      case False
      then show ?thesis using a by (simp add: wake_ths_alt)
    qed
  qed
  show ?thesis
    unfolding hand_ok_def
  proof (intro allI impI)
    fix v t p
    assume a: "wake_ths W ths v = Some t \<and> handoffThread t = Some p"
    have o: "tstate t = TH_RUNNING" "\<exists>tp. ths p = Some tp \<and> tstate tp = TH_QUEUED \<and> tmask tp ! unat (tcid t)"
      "\<forall>v' t'. ths v' = Some t' \<and> handoffThread t' = Some p \<longrightarrow> v' = v"
      using h k [OF a] a unfolding hand_ok_def by blast+
    have "p \<notin> W" using W [of p] o(2) by (auto simp: qst_def)
    then have "\<exists>tp. wake_ths W ths p = Some tp \<and> tstate tp = TH_QUEUED \<and> tmask tp ! unat (tcid t)" using o(2) by (simp add: wake_ths_alt)
    moreover have "\<forall>v' t'. wake_ths W ths v' = Some t' \<and> handoffThread t' = Some p \<longrightarrow> v' = v" using k o(3) by blast
    ultimately show "tstate t = TH_RUNNING \<and> (\<exists>tp. wake_ths W ths p = Some tp \<and> tstate tp = TH_QUEUED \<and> tmask tp ! unat (tcid t))
      \<and> (\<forall>v' t'. wake_ths W ths v' = Some t' \<and> handoffThread t' = Some p \<longrightarrow> v' = v)" using o(1) by blast
  qed
qed

text \<open>The sleepers whose phase has come leave the sleep queue; the others wake later.\<close>

lemma wake_inv:
  assumes i: "sinv cfg s {} {}" and s1: "s1 = s\<lparr>numPhases := np, globPhaseCycles := gc, curPhase := curPhase s + 1, calls := cl\<rparr>"
  shows "\<exists>W. wakeSleepers s1 (sleepQueue s1) = Some (s1\<lparr>threads := wake_ths W (threads s),
        sleepQueue := filter (\<lambda>p. p \<notin> W) (sleepQueue s)\<rparr>)
    \<and> W = {p \<in> set (sleepQueue s). wph (threads s) p = curPhase s + 1}
    \<and> sinvp cfg (s1\<lparr>threads := wake_ths W (threads s), sleepQueue := filter (\<lambda>p. p \<notin> W) (sleepQueue s)\<rparr>) (curPhase s)
    \<and> slp_ok (wake_ths W (threads s)) (filter (\<lambda>p. p \<notin> W) (sleepQueue s)) (curPhase s + 1)"
proof -
  let ?N = "unat (numCores cfg)"
  define W where "W = {p \<in> set (sleepQueue s). wph (threads s) p = curPhase s + 1}"
  note qi = sinvD(3) [OF i]
  have sl: "sorted (map (wph (threads s)) (sleepQueue s))" "\<And>p. p \<in> set (sleepQueue s) \<Longrightarrow> curPhase s < wph (threads s) p"
    using sinvD(5) [OF i] by (simp_all add: slp_ok_def)
  have W: "qst (threads s) p = Some TH_SLEEPING" if "p \<in> W" for p using qi that by (simp add: W_def q_ok_def)
  have fw: "\<exists>t. threads s p = Some t \<and> tfutexWord t = 1" if "p \<in> set (sleepQueue s)" for p
  proof -
    have "qst (threads s) p = Some TH_SLEEPING" using qi that by (simp add: q_ok_def)
    then obtain t where t: "threads s p = Some t" "tstate t = TH_SLEEPING" by (auto simp: qst_def)
    then show ?thesis using thrD [OF i t(1)] by (simp add: thr1_def)
  qed
  have fl: "filter (\<lambda>p. wph (threads s) p \<noteq> curPhase s + 1) (sleepQueue s) = filter (\<lambda>p. p \<notin> W) (sleepQueue s)"
    by (rule filter_cong) (auto simp: W_def)
  have le: "\<forall>p \<in> set (sleepQueue s). curPhase s + 1 \<le> wph (threads s) p" using sl(2) inc_le by blast
  have d: "distinct (sleepQueue s)" using qi by (simp add: q_ok_def)
  have run: "wakeSleepers s1 (sleepQueue s1) = Some (s1\<lparr>threads := wake_ths W (threads s),
        sleepQueue := filter (\<lambda>p. p \<notin> W) (sleepQueue s)\<rparr>)"
    using wakeSleepers_eff [of "sleepQueue s" s1] d fw sl(1) le by (simp add: s1 fl W_def)
  let ?ths = "wake_ths W (threads s)" and ?sq = "filter (\<lambda>p. p \<notin> W) (sleepQueue s)"
  have WW: "\<forall>p \<in> W. qst (threads s) p = Some TH_SLEEPING" using W by blast
  note same = wake_ths_same [OF WW]
  have "ctx_ok ?N ?ths (contexts s) (freeList s) (scheduledThreads s) {}" using sinvD(1) [OF i] by (simp add: ctx_ok_def same)
  moreover have "thr_ok ?N ?ths (fakeLeaves s) (curPhase s) {}"
    unfolding thr_ok_def
  proof (intro allI impI)
    fix p u'
    assume u': "?ths p = Some u'"
    show "thr1 ?N (curPhase s) (p \<in> {}) u' \<and> (fakeLeave u' \<noteq> None \<longleftrightarrow> p \<in> set (fakeLeaves s))"
    proof (cases "p \<in> W")
      case False
      then show ?thesis using u' sinvD(2) [OF i] unfolding thr_ok_def by (simp add: wake_ths_alt)
    next
      case True
      then obtain u where u: "threads s p = Some u" "u' = wake_th u" using u' by (auto simp: wake_ths_alt)
      have "tstate u \<noteq> TH_RUNNING" using W [OF True] u(1) by (simp add: qst_def)
      note pl = not_running_plain [OF i u(1) this]
      have "thr1 ?N (curPhase s) (p \<in> {}) u" "fakeLeave u \<noteq> None \<longleftrightarrow> p \<in> set (fakeLeaves s)"
        using sinvD(2) [OF i] u(1) unfolding thr_ok_def by blast+
      then show ?thesis unfolding u(2) using pl by (auto simp: thr1_def)
    qed
  qed
  moreover have "q_ok ?ths (runQueue s) (outQueue s) ?sq {}"
    using qi W unfolding q_ok_def by (auto simp: same(1,4))
  moreover have "hand_ok ?ths" by (rule hand_ok_wake [OF sinvD(4) [OF i] W])
  moreover have "work_ok ?ths (contexts s) (runQueue s) {}"
    unfolding work_ok_def
  proof (intro ballI allI impI)
    fix p u and e :: u32
    assume p: "p \<in> set (runQueue s)" and u: "?ths p = Some u \<and> unat e < length (contexts s) \<and> tmask u ! unat e \<and> e \<notin> {}"
    have "p \<notin> W" using W [of p] qi p by (auto simp: q_ok_def)
    then show "run_on ?ths (contexts s) e" unfolding same(3) using work_okD [OF sinvD(6) [OF i] p, of u e] u by (simp add: wake_ths_alt)
  qed
  ultimately have "sinvp cfg (s1\<lparr>threads := ?ths, sleepQueue := ?sq\<rparr>) (curPhase s)"
    using sinvD(7) [OF i] by (simp add: sinvp_def s1)
  moreover have "slp_ok ?ths ?sq (curPhase s + 1)"
  proof -
    have "sorted (map (wph (threads s)) ?sq)" using sl(1) by (rule sorted_filter)
    moreover have "curPhase s + 1 < wph (threads s) p" if "p \<in> set ?sq" for p using that le by (force simp: W_def)
    moreover have "wph ?ths = wph (threads s)" by (simp add: fun_eq_iff same(5))
    ultimately show ?thesis by (simp add: slp_ok_def)
  qed
  ultimately show ?thesis using run W_def by blast
qed

lemma quiet_thr:
  assumes t: "thr_ok N ths fls ph Y" and q: "\<And>p u. ths p = Some u \<Longrightarrow> \<not> markedForSleep u"
  shows "thr_ok N ths fls ph' Y"
  using assms unfolding thr_ok_def by (auto simp: thr1_def)

lemma used_le:
  assumes "ctx_ok (unat (numCores cfg)) ths cs fl sn X"
  shows "sn \<le> numCores cfg"
proof -
  let ?N = "unat (numCores cfg)"
  have "inj_on (unat :: u32 \<Rightarrow> nat) {c. unat c < ?N \<and> cur cs c \<noteq> None}" by (simp add: inj_on_def word_unat_eq_iff)
  then have "card {c :: u32. unat c < ?N \<and> cur cs c \<noteq> None} \<le> card {..<?N}" by (rule card_inj_on_le) auto
  then show ?thesis using assms by (simp add: ctx_ok_def word_le_nat_alt)
qed

text \<open>
  The callback of the barrier returns; if no thread is marked, in a fake leave or about to hand off its context, which holds at the end of
  a phase, it keeps the invariant.
\<close>

lemma callback_ok:
  assumes i: "sinv cfg s {} {}" and r: "rand_cfg cfg" and sq: "schedQuantum cfg \<noteq> 0"
  shows "\<exists>s'. sched_callback cfg s = Some s' \<and> curPhase s' = curPhase s + 1 \<and> (quiet s \<longrightarrow> sinv cfg s' {} {} \<and> same_running s s')"
proof -
  let ?s0 = "if has_atSync cfg then logCall AtSync s else s"
  let ?s1 = "s\<lparr>numPhases := numPhases s + 1, globPhaseCycles := globPhaseCycles s + ucast (phaseLength cfg),
    curPhase := curPhase s + 1, calls := calls ?s0\<rparr>"
  have e: "?s0\<lparr>numPhases := numPhases ?s0 + 1, globPhaseCycles := globPhaseCycles ?s0 + ucast (phaseLength cfg),
      curPhase := curPhase ?s0 + 1\<rparr> = ?s1" by (simp add: logCall_def)
  have sn: "scheduledThreads s \<le> numCores cfg" by (rule used_le [OF sinvD(1) [OF i]])
  have ph: "curPhase ?s1 = numPhases ?s1" using sinvD(8) [OF i] by simp
  from wake_inv [where np = "numPhases s + 1" and gc = "globPhaseCycles s + ucast (phaseLength cfg)" and cl = "calls ?s0", OF i refl] obtain W where
    W: "wakeSleepers ?s1 (sleepQueue ?s1) = Some (?s1\<lparr>threads := wake_ths W (threads s),
        sleepQueue := filter (\<lambda>p. p \<notin> W) (sleepQueue s)\<rparr>)" "W = {p \<in> set (sleepQueue s). wph (threads s) p = curPhase s + 1}"
      "sinvp cfg (?s1\<lparr>threads := wake_ths W (threads s), sleepQueue := filter (\<lambda>p. p \<notin> W) (sleepQueue s)\<rparr>) (curPhase s)"
      "slp_ok (wake_ths W (threads s)) (filter (\<lambda>p. p \<notin> W) (sleepQueue s)) (curPhase s + 1)" by auto
  define s2 where "s2 = ?s1\<lparr>threads := wake_ths W (threads s), sleepQueue := filter (\<lambda>p. p \<notin> W) (sleepQueue s)\<rparr>"
  have WW: "\<forall>p \<in> W. qst (threads s) p = Some TH_SLEEPING" using sinvD(3) [OF i] by (auto simp: W(2) q_ok_def)
  note same = wake_ths_same [OF WW]
  have s2: "sinvp cfg s2 (curPhase s)" "threads s2 = wake_ths W (threads s)" "contexts s2 = contexts s" "gidMap s2 = gidMap s"
    "slp_ok (threads s2) (sleepQueue s2) (curPhase s2)" "numPhases s2 = curPhase s2" "curPhase s2 = curPhase s + 1"
    "fakeLeaves s2 = fakeLeaves s"
    using W(3,4) ph by (simp_all add: s2_def)
  have cb: "sched_callback cfg s = (if runQueue s2 = [] then Some s2
      else if curPhase s2 mod ucast (schedQuantum cfg) = 0 then schedTick cfg s2 else Some s2)"
    using sn ph W(1) sq unfolding sched_callback_def Let_def e s2_def by simp
  have run2: "same_running s s2"
    unfolding same_running_def s2(2,3,4,8) same(3) using WW by (auto simp: wake_ths_alt qst_def split: if_splits)
  have q2: "quiet s2" if "quiet s"
    using that unfolding quiet_def s2(2) by (auto simp: wake_ths_alt split: if_splits)
  have unm: "\<not> markedForSleep u" if qq: "quiet s" and u2: "threads s2 p = Some u" for p u
  proof -
    obtain u0 where u0: "threads s p = Some u0" "markedForSleep u = markedForSleep u0" using run2 u2 unfolding same_running_def by blast
    show ?thesis using qq u0 not_running_plain [OF i u0(1)] by (cases "tstate u0 = TH_RUNNING") (auto simp: quiet_def)
  qed
  have up: "sinv cfg s' {} {}" if "sinvp cfg s' (curPhase s)" "slp_ok (threads s') (sleepQueue s') (curPhase s')" "numPhases s' = curPhase s'"
      "\<And>p u. threads s' p = Some u \<Longrightarrow> \<not> markedForSleep u" for s'
    using that quiet_thr [of _ "threads s'" _ "curPhase s" _ "curPhase s'"] unfolding sinv_def sinvp_def by blast
  show ?thesis
  proof (cases "runQueue s2 = [] \<or> curPhase s2 mod ucast (schedQuantum cfg) \<noteq> 0")
    case True
    then have "sched_callback cfg s = Some s2" unfolding cb by (elim disjE) (simp_all only: if_True if_False simp_thms if_cancel)
    moreover have "sinv cfg s2 {} {}" if "quiet s" by (rule up [OF s2(1,5,6) unm [OF that]])
    ultimately show ?thesis using run2 s2(7) by blast
  next
    case False
    then have cbt: "sched_callback cfg s = schedTick cfg s2" unfolding cb by simp
    from schedTick_eff [OF s2(1) r] obtain g H v where t: "schedTick cfg s2 = Some (s2\<lparr>srnd := g, threads := hand_ths H (threads s2),
        runQueue := filter (\<lambda>p. p \<notin> ran H) (runQueue s2)\<rparr>)" "tick_hands s2 (runQueue s2) v H"
        "set v = {c :: u32. unat c < unat (numCores cfg)}" by blast
    let ?s3 = "s2\<lparr>srnd := g, threads := hand_ths H (threads s2), runQueue := filter (\<lambda>p. p \<notin> ran H) (runQueue s2)\<rparr>"
    have "sinv cfg ?s3 {} {}" if q: "quiet s"
    proof (rule up)
      show "sinvp cfg ?s3 (curPhase s)" by (rule tick_inv [OF s2(1) t(2,3) q2 [OF q]])
      have "slp_ok (hand_ths H (threads s2)) (sleepQueue s2) (curPhase s2)"
      proof (rule slp_ok_cong [OF s2(5)])
        fix p
        assume "p \<in> set (sleepQueue s2)"
        then have "qst (threads s2) p = Some TH_SLEEPING" using s2(1) by (simp add: sinvp_def q_ok_def)
        then show "wph (hand_ths H (threads s2)) p = wph (threads s2) p" by (intro hand_ths_same) (auto simp: qst_def)
      qed
      then show "slp_ok (threads ?s3) (sleepQueue ?s3) (curPhase ?s3)" by simp
      show "numPhases ?s3 = curPhase ?s3" using s2(6) by simp
      show "\<not> markedForSleep u" if "threads ?s3 p = Some u" for p u
        using that unm [OF q, of p] by (auto simp: hand_ths_def)
    qed
    moreover have "same_running s ?s3"
    proof -
      have "same_running s2 ?s3" by (auto simp: same_running_def hand_ths_same(3)) (auto simp: hand_ths_def)
      then show ?thesis by (rule same_running_trans [OF run2])
    qed
    ultimately show ?thesis using cbt t(1) s2(7) by auto
  qed
qed

end
