(* ===== verification/Spec2Isabelle.thy ===== *)
theory Spec2Isabelle
  imports Tage Legos Coherence ZCache Caches Hash CacheModel FetchModel IssueModel PrioQueue CoreSystem SlabAlloc
    IdealArrays PartRepl UMon Scheduler
begin

text \<open>
  The timing models of MeMo-Tracer, a tracer and performance model built on the zsim simulator.

  THE PROGRAM.  Pin instruments a program and calls the simulator for each basic block.  Core models turn blocks of decoded
  micro-operations into cycles; they predict branches, book issue slots, access a hierarchy of coherent caches, and record
  the accesses that left the first level.  Time passes in phases.  In the bound phase every core runs ahead on its own with
  zero-load latencies and its recorder builds a graph of timing events; in the weave phase the contention simulation
  executes the events of all cores in order of their cycles and moves the clocks of the cores by what contention has
  added.  A barrier keeps the threads of the traced program in the same phase.

  CONVENTIONS (\<open>Prelude\<close>).  Machine integers are words of their width, so sums wrap as in the code.  A function that can fail (an
  \<open>assert\<close>, a \<open>panic\<close>, an access past the end of an array) is in the option monad and \<open>None\<close> is a run that does not get past
  the failing statement; a method takes the object and returns it updated; an out parameter is an additional result.
  Pointers are positions in a store.  What the code leaves uninitialised is an argument of the constructor.  Code
  that a component calls through an interface (a parent cache, a replacement policy, a random generator, the phase callback) is
  an argument, and its contract is a locale or a named predicate that the development's own components are shown to meet.

  THE THEORIES and the files of \<open>src/src\<close> that they model:

  \<^item> \<open>Bits\<close>: \<open>bithacks.h\<close>, \<open>mybitset.h\<close>.
  \<^item> \<open>Tage\<close>: the branch predictor, \<open>tage.h\<close> and \<open>tage.cpp\<close>.  Predictions never leave the tables, the provider is the hit with the longest
    history.
  \<^item> \<open>Legos\<close>: \<open>legos.h\<close>: the issue window as three structures (current, next, unbounded), proved to book the first free cycle of a map
    from cycles to occupied ports; the reorder buffer and its retire width; the cycle queue; an abort that a long idle period causes in any window with blocked cycles.
  \<^item> \<open>MemHier\<close>, \<open>Coherence\<close>: \<open>memory_hierarchy.h\<close>, \<open>coherence_ctrls.h\<close> and \<open>coherence_ctrls.cpp\<close>.  A controller is a bottom half that
    talks to its parents and a directory that talks to its children.  One request at a time is served; the theorems say that legal requests
    trip no assertion and leave lines inclusive and with at most one writer.
  \<^item> \<open>MTRand\<close>, \<open>Hash\<close>: \<open>mtrand.h\<close>, \<open>hash.h\<close> and \<open>hash.cpp\<close>.  Draws never leave the state and draws in a range are rejection sampling of
    the stream; the H3 functions are linear.
  \<^item> \<open>ReplPolicies\<close>, \<open>PartRepl\<close>: \<open>repl_policies.h\<close>, the way partitioning of \<open>part_repl_policies.h\<close> and \<open>partition_mapper.h\<close>.  What a policy evicts is
    stated over the history of its calls.  \<open>PartRepl\<close> imports \<open>UMon\<close>, whose monitor meets its contract of monitors.
  \<^item> \<open>CacheArrays\<close>, \<open>ZCache\<close>, \<open>IdealArrays\<close>: \<open>cache_arrays.h\<close> and \<open>cache_arrays.cpp\<close>, \<open>ideal_arrays.h\<close>.  The three arrays interpret one locale of
    cache arrays: after an insertion the new address is found, the evicted one is not, and the others keep their lines.
  \<^item> \<open>IntrusiveList\<close>, \<open>LruStack\<close>: \<open>intrusive_list.h\<close> as pointers in a store, refined to sequences; the LRU stack of a reference string, the
    reference that \<open>IdealArrays\<close> and \<open>UMon\<close> are compared to.
  \<^item> \<open>UMon\<close>: \<open>utility_monitor.cpp\<close> and \<open>monitor.cpp\<close>.  Accesses trip no assertion, and the miss curve is that of true LRU sets of every size.
  \<^item> \<open>Caches\<close>: \<open>cache.cpp\<close>, \<open>filter_cache.h\<close>, \<open>event_recorder.h\<close>: controllers and arrays put together, and the filter in front of a cache.
    The filter is sound for operations under any process masks, except invalidations by a foreign process; what one of those does is a theorem too.
  \<^item> \<open>Tracer\<close>, \<open>CacheModel\<close>, \<open>FetchModel\<close>, \<open>IssueModel\<close>: \<open>MeMo\<close>, \<open>core.h\<close>, \<open>decoder.h\<close>, and the instruction counters of \<open>zsim.cpp\<close>.  A block of micro-operations goes
    through each core model; ports stand for the filter caches and the recorder.  For the issue model the cycles in
    which uops issue are a list of their own, bounded per cycle and over the block.
  \<^item> \<open>TimingEvents\<close>, \<open>PrioQueue\<close>, \<open>ContentionSim\<close>, \<open>Recorder\<close>: \<open>timing_event.h\<close> and \<open>timing_event.cpp\<close>, \<open>prio_queue.h\<close>, \<open>contention_sim.h\<close> and \<open>contention_sim.cpp\<close>,
    \<open>ooo_core_recorder.h\<close> and \<open>ooo_core_recorder.cpp\<close>.  The event graph and what a new edge changes in it, the queue (refined to a map from elements to cycles), the
    weave phase, and the recorder of a core, with the theorem that a phase executes every event queued before its limit and leaves the others queued.
  \<^item> \<open>SlabAlloc\<close>: the allocator of events, \<open>slab_alloc.h\<close>.
  \<^item> \<open>Barrier\<close>: the phase barrier, \<open>barrier.h\<close>: safe and live after any run of joins, leaves and syncs.
  \<^item> \<open>Scheduler\<close>: \<open>scheduler.h\<close> and \<open>scheduler.cpp\<close>: threads, contexts and their queues over the barrier, the policy, sleeping, fake leaves,
    futex matching, and what the watchdog does to the state.  It has an invariant of queues, contexts and hand-offs, with lemmas that most
    of the internal steps and the end of a phase keep it; no property rests on it yet.
  \<^item> \<open>CoreSystem\<close>: the core models wired to a filter cache and a recorder.

  Each theory ends with its properties; a text block before each names and explains it.  The component theories are layered: state and
  operations in the order of the code, an invariant with the lemma that every operation keeps it, then the functional lemmas and the
  properties.

  BOUNDS.  Loops that count or follow a structure are recursive functions with a termination proof; loops whose end is not plain from their
  text (the drain of the window, the walk of the zcache, the seek of the queue, the weave phase, the rejection loop of a draw, the watchdog) are \<open>partial_function (option)\<close>, and the properties that say that they return
  prove it.  Fuel bounds four recursions: the depth of \<open>parentDone\<close> and of the visits of event children (the number of events; the proofs show it is
  enough for sound graphs, and for any graph in \<open>addChild\<close>), the descent in the tree of TreeLRU (the width of the interval), and the rounds in which the constructor of TAGE makes
  its lengths.  Where 32 or 64 bits of a counter matter, the bound is a hypothesis of the theorem (fewer than \<open>2 ^ 32\<close> updates of LRU) and, for LRU, another theorem
  shows what happens beyond it.

  NOT MODELLED.  Glue that has no logic of its own over code that is not in the repository: the Pin callbacks and process life cycle
  (\<open>zsim.cpp\<close> but for the instruction counters), the decoder over the XED library (\<open>decoder.cpp\<close>), the construction of the system
  from a libconfig file (\<open>init.cpp\<close>, \<open>config.cpp\<close>), the launcher (\<open>zsim_harness.cpp\<close>), system call patching (\<open>virt\<close>).  Imported code: the dlmalloc heap
  (\<open>g_heap\<close>), the vDSO parser.  Parts around the tracer's path through the system: timing caches, DDR and M/D/1 memories and in-order recorders
  (the tracer's memories leave no records), crossings between domains, Vantage and the partitioned ideal array, the process tree and the network table.  Statistics and their back ends: counters are only kept where control flow reads them.  Concurrency inside an operation: an
  operation that the code runs under a lock is one step; the races that the controllers handle by retrying are steps of their own.
\<close>

end
